(* ===== verification/Cog_Prelude.thy ===== *)
theory Cog_Prelude
  imports Main "HOL-Library.Word"
begin

text \<open>
  What every component shares: the names of the machine types Go's code uses, the loop
  \<open>for w := x; w != 0; w &= w - 1\<close> over the set bits of a word (lock masks and component
  masks both walk it), the lookup of a position in a chunked array, and the generic list
  lemmas the component proofs rest on.  The collections \<open>bits_simps\<close>, \<open>inv_defs\<close> and
  \<open>op_defs\<close> gather what the component theories declare into them.
\<close>

unbundle bit_operations_syntax

named_theorems bits_simps \<open>bit-level facts about masks and packed words\<close>
named_theorems inv_defs \<open>definitions of the components' invariants\<close>
named_theorems op_defs \<open>definitions of the components' operations\<close>

type_synonym u8 = "8 word"
type_synonym u32 = "32 word"
type_synonym u64 = "64 word"

section \<open>Walking the set bits of a word\<close>

text \<open>
  \<open>bits.TrailingZeros64\<close> of Go's \<open>math/bits\<close>: the index of the lowest set bit, and the
  width for zero.
\<close>

definition trailing_zeros :: "'a::len word \<Rightarrow> nat" where
  "trailing_zeros w = length (takeWhile (\<lambda>n. \<not> bit w n) [0..<LENGTH('a)])"

lemma upt_split_at:
  assumes "k < n"
  shows "[0..<n] = [0..<k] @ k # [Suc k..<n]"
proof -
  have "[0..<k + (n - k)] = [0..<k] @ [k..<k + (n - k)]"
    by (rule upt_add_eq_append) simp
  then show ?thesis
    using assms by (simp add: upt_conv_Cons)
qed

lemma length_takeWhile_upt_first:
  assumes "k < n" and "P k" and "\<And>i. i < k \<Longrightarrow> \<not> P i"
  shows "length (takeWhile (\<lambda>i. \<not> P i) [0..<n]) = k"
  using assms by (simp add: upt_split_at[OF assms(1)] takeWhile_append)

lemma trailing_zeros_eqI:
  fixes w :: "'a::len word"
  assumes "bit w k" and "\<And>i. i < k \<Longrightarrow> \<not> bit w i"
  shows "trailing_zeros w = k"
  unfolding trailing_zeros_def
  by (rule length_takeWhile_upt_first) (use assms bit_imp_le_length in auto)

lemma trailing_zeros_bit:
  fixes w :: "'a::len word"
  assumes "w \<noteq> 0"
  shows "bit w (trailing_zeros w)"
    and "\<And>i. i < trailing_zeros w \<Longrightarrow> \<not> bit w i"
proof -
  obtain n where "bit w n"
    using assms by (auto simp: bit_eq_iff)
  then obtain k where k: "bit w k" "\<And>i. i < k \<Longrightarrow> \<not> bit w i"
    by (metis exists_least_iff)
  then have "trailing_zeros w = k"
    by (rule trailing_zeros_eqI)
  with k show "bit w (trailing_zeros w)" "\<And>i. i < trailing_zeros w \<Longrightarrow> \<not> bit w i"
    by auto
qed

lemma trailing_zeros_less:
  fixes w :: "'a::len word"
  shows "w \<noteq> 0 \<Longrightarrow> trailing_zeros w < LENGTH('a)"
  using trailing_zeros_bit(1) bit_imp_le_length by blast

text \<open>Clearing the lowest set bit, \<open>w &= w - 1\<close>.\<close>

lemma and_pred_unset_lowest:
  fixes w :: "'a::len word"
  assumes "w \<noteq> 0"
  shows "w AND (w - 1) = unset_bit (trailing_zeros w) w"
proof -
  let ?k = "trailing_zeros w"
  let ?u = "unset_bit ?k w"
  have k: "?k < LENGTH('a)" and bk: "bit w ?k" and low: "\<And>i. i < ?k \<Longrightarrow> \<not> bit w i"
    using trailing_zeros_less[OF assms] trailing_zeros_bit[OF assms] by auto
  have "?u + 2 ^ ?k = ?u OR 2 ^ ?k"
    by (rule disjunctive_add) (auto simp: bit_unset_bit_iff bit_exp_iff)
  also have "\<dots> = w"
    using bk k by (intro bit_word_eqI) (auto simp: bit_or_iff bit_unset_bit_iff bit_exp_iff)
  finally have "w - 1 = ?u + mask ?k"
    by (simp add: mask_eq_exp_minus_1 algebra_simps)
  also have "\<dots> = ?u OR mask ?k"
    using low by (intro disjunctive_add) (auto simp: bit_unset_bit_iff bit_mask_iff)
  finally have "w - 1 = ?u OR mask ?k" .
  then show ?thesis
    using low by (intro bit_word_eqI) (auto simp: bit_simps)
qed

lemma and_pred_less:
  fixes w :: "'a::len word"
  assumes "w \<noteq> 0"
  shows "unat (w AND (w - 1)) < unat w"
proof -
  have "w AND (w - 1) \<le> w - 1"
    by (rule word_and_le1)
  moreover have "w - 1 < w"
    using assms by (simp add: measure_unat word_less_nat_alt)
  ultimately show ?thesis
    by (simp add: word_less_nat_alt word_le_nat_alt)
qed

text \<open>
  The loop \<open>for word := w; word != 0; word &= word - 1\<close> as the list of the bit indexes
  it visits.
\<close>

function bit_list :: "'a::len word \<Rightarrow> nat list" where
  "bit_list w = (if w = 0 then [] else trailing_zeros w # bit_list (w AND (w - 1)))"
  by pat_completeness auto
termination
  by (relation "measure unat") (auto simp: and_pred_less)

declare bit_list.simps [simp del]

lemma bit_list_0 [simp]: "bit_list 0 = []"
  by (simp add: bit_list.simps)

lemma filter_bit_lowest:
  fixes w :: "'a::len word"
  assumes "w \<noteq> 0"
  shows "filter (bit w) [0..<LENGTH('a)] =
    trailing_zeros w # filter (bit (unset_bit (trailing_zeros w) w)) [0..<LENGTH('a)]"
proof -
  let ?k = "trailing_zeros w"
  have k: "?k < LENGTH('a)" and bk: "bit w ?k" and low: "\<And>i. i < ?k \<Longrightarrow> \<not> bit w i"
    using trailing_zeros_less[OF assms] trailing_zeros_bit[OF assms] by auto
  have "filter (bit (unset_bit ?k w)) [Suc ?k..<LENGTH('a)] = filter (bit w) [Suc ?k..<LENGTH('a)]"
    by (rule filter_cong) (auto simp: bit_unset_bit_iff)
  then show ?thesis
    using bk low by (auto simp: upt_split_at[OF k] filter_empty_conv bit_unset_bit_iff)
qed

text \<open>The loop visits every set bit, once, in ascending order.\<close>

lemma bit_list_filter:
  fixes w :: "'a::len word"
  shows "bit_list w = filter (bit w) [0..<LENGTH('a)]"
proof (induction w rule: bit_list.induct)
  case (1 w)
  then show ?case
    by (cases "w = 0") (simp_all add: bit_list.simps[of w] and_pred_unset_lowest filter_bit_lowest)
qed

lemma set_bit_list [simp]:
  fixes w :: "'a::len word"
  shows "set (bit_list w) = {n. bit w n}"
  using bit_imp_le_length by (auto simp: bit_list_filter)

lemma distinct_bit_list [simp]: "distinct (bit_list w)"
  by (simp add: bit_list_filter)

lemma sorted_bit_list [simp]: "sorted (bit_list w)"
  by (simp add: bit_list_filter sorted_wrt_filter)

lemma and_single_bit_iff:
  fixes w :: "'a::len word"
  assumes "n < LENGTH('a)"
  shows "w AND 2 ^ n = 0 \<longleftrightarrow> \<not> bit w n"
proof -
  have "bit (w AND 2 ^ n) k \<longleftrightarrow> bit w n \<and> k = n" for k
    using assms by (auto simp: bit_simps)
  then show ?thesis
    by (metis bit_0_eq bot_apply bit_word_eqI bot_bool_def)
qed

lemma unat_pred_less:
  fixes i :: "'a::len word"
  assumes "j < i"
  shows "unat (i - 1) = unat i - 1" and "unat (i - 1) < unat i"
proof -
  have "i \<noteq> 0" "unat j < unat i"
    using assms by (auto simp: word_less_nat_alt)
  then show "unat (i - 1) = unat i - 1" "unat (i - 1) < unat i"
    by (simp_all add: unat_minus_one)
qed

lemma unat_of_nat_u32: "n < 2 ^ 32 \<Longrightarrow> unat (of_nat n :: u32) = n"
  by (simp add: unat_of_nat)

lemma of_nat_u32_inj: "(of_nat m :: u32) = of_nat n \<Longrightarrow> m < 2 ^ 32 \<Longrightarrow> n < 2 ^ 32 \<Longrightarrow> m = n"
  by (metis unat_of_nat_u32)

section \<open>Two halves of a 64-bit word\<close>

lemma high_half [bits_simps, simp]:
  "ucast (drop_bit 32 (push_bit 32 (ucast (hi :: u32)) OR ucast (lo :: u32) :: u64)) = hi"
  by (rule bit_word_eqI) (auto simp: bit_simps dest: bit_imp_le_length)

lemma low_half [bits_simps, simp]:
  "ucast (push_bit 32 (ucast (hi :: u32)) OR ucast (lo :: u32) :: u64) = lo"
  by (rule bit_word_eqI) (auto simp: bit_simps)

lemma join_halves [bits_simps]:
  fixes w :: u64
  shows "push_bit 32 (ucast (ucast (drop_bit 32 w) :: u32)) OR ucast (ucast w :: u32) = w"
proof (rule bit_word_eqI)
  fix n assume n: "n < LENGTH(64)"
  then show "bit (push_bit 32 (ucast (ucast (drop_bit 32 w) :: u32)) OR ucast (ucast w :: u32) :: u64) n = bit w n"
    by (cases "n < 32") (auto simp: bit_simps)
qed

section \<open>Lists updated in place\<close>

lemma take_Suc_update: "i < length xs \<Longrightarrow> take (Suc i) (xs[i := x]) = take i xs @ [x]"
  by (simp add: take_Suc_conv_app_nth)

text \<open>A Go slice \<open>xs[a:b]\<close>, and \<open>clear(xs[a:b])\<close>.\<close>

definition slice :: "'a list \<Rightarrow> nat \<Rightarrow> nat \<Rightarrow> 'a list" where
  "slice xs a b = take (b - a) (drop a xs)"

definition clear_range :: "'a \<Rightarrow> 'a list \<Rightarrow> nat \<Rightarrow> nat \<Rightarrow> 'a list" where
  "clear_range z xs a b = take a xs @ replicate (b - a) z @ drop b xs"

lemma length_clear_range [simp]: "a \<le> b \<Longrightarrow> b \<le> length xs \<Longrightarrow> length (clear_range z xs a b) = length xs"
  by (simp add: clear_range_def)

lemma nth_clear_range:
  "a \<le> b \<Longrightarrow> b \<le> length xs \<Longrightarrow> i < length xs \<Longrightarrow>
     clear_range z xs a b ! i = (if a \<le> i \<and> i < b then z else xs ! i)"
  by (auto simp: clear_range_def nth_append)

lemma slice_map_nth: "a \<le> b \<Longrightarrow> b \<le> length xs \<Longrightarrow> slice xs a b = map (\<lambda>i. xs ! (a + i)) [0..<b - a]"
  by (rule nth_equalityI) (auto simp: slice_def)

section \<open>Counting threads\<close>

text \<open>How many threads are at a point that satisfies \<open>P\<close>, when one of them moves.\<close>

lemma card_fun_upd:
  assumes "finite {t. P (f t)}"
  shows "finite {t. P ((f(a := x)) t)}"
    and "int (card {t. P ((f(a := x)) t)}) =
      int (card {t. P (f t)}) + (if P x then 1 else 0) - (if P (f a) then 1 else 0)"
proof -
  have eq: "{t. P ((f(a := x)) t)} = (if P x then insert a {t. P (f t)} else {t. P (f t)} - {a})"
    by auto
  show "finite {t. P ((f(a := x)) t)}"
    unfolding eq using assms by simp
  show "int (card {t. P ((f(a := x)) t)}) =
      int (card {t. P (f t)}) + (if P x then 1 else 0) - (if P (f a) then 1 else 0)"
    unfolding eq using assms card_Suc_Diff1[OF assms, of a] by (auto simp: card_insert_if)
qed

section \<open>Chunked sequences\<close>

text \<open>
  Every container grows in chunks of one size, and position \<open>i\<close> is entry \<open>i mod n\<close> of
  chunk \<open>i div n\<close>.  Over chunks that all have \<open>n\<close> entries, that is position \<open>i\<close> of the
  chunks joined.
\<close>

definition chunk_put :: "nat \<Rightarrow> 'a list list \<Rightarrow> nat \<Rightarrow> 'a \<Rightarrow> 'a list list" where
  "chunk_put n cs i v = cs[i div n := (cs ! (i div n))[i mod n := v]]"

definition chunked :: "nat \<Rightarrow> 'a list list \<Rightarrow> bool" where
  "chunked n cs \<longleftrightarrow> (\<forall>c \<in> set cs. length c = n)"

lemma chunked_Nil [simp]: "chunked n []"
  by (simp add: chunked_def)

lemma chunked_Cons [simp]: "chunked n (c # cs) \<longleftrightarrow> length c = n \<and> chunked n cs"
  by (auto simp: chunked_def)

lemma chunked_append [simp]: "chunked n (cs @ ds) \<longleftrightarrow> chunked n cs \<and> chunked n ds"
  by (auto simp: chunked_def)

lemma chunked_take [simp]: "chunked n cs \<Longrightarrow> chunked n (take k cs)"
  by (auto simp: chunked_def dest: in_set_takeD)

lemma length_concat_chunked: "chunked n cs \<Longrightarrow> length (concat cs) = n * length cs"
  by (induction cs) auto

lemma concat_nth_chunked:
  assumes "chunked n cs" and "i < n * length cs"
  shows "concat cs ! i = cs ! (i div n) ! (i mod n)"
  using assms
proof (induction cs arbitrary: i)
  case Nil
  then show ?case by simp
next
  case (Cons c cs)
  show ?case
  proof (cases "i < n")
    case True
    with Cons.prems show ?thesis by (simp add: nth_append)
  next
    case False
    with Cons.prems have n: "0 < n" "n \<le> i" "length c = n" "i - n < n * length cs"
      by (auto intro: gr0I)
    then have "i div n = Suc ((i - n) div n)" and "i mod n = (i - n) mod n"
      by (simp_all add: le_div_geq le_mod_geq)
    with n Cons.IH[of "i - n"] Cons.prems show ?thesis
      by (simp add: nth_append)
  qed
qed

lemma chunked_chunk_put [simp]:
  assumes "chunked n cs"
  shows "chunked n (chunk_put n cs i v)"
proof (cases "i div n < length cs")
  case True
  with assms show ?thesis
    by (auto simp: chunk_put_def chunked_def dest!: set_update_subset_insert[THEN subsetD])
next
  case False
  with assms show ?thesis by (simp add: chunk_put_def list_update_beyond)
qed

lemma length_chunk_put [simp]: "length (chunk_put n cs i v) = length cs"
  by (simp add: chunk_put_def)

lemma concat_chunk_put:
  assumes "chunked n cs" and "i < n * length cs"
  shows "concat (chunk_put n cs i v) = (concat cs)[i := v]"
proof (rule nth_equalityI)
  show "length (concat (chunk_put n cs i v)) = length ((concat cs)[i := v])"
    using assms(1) length_concat_chunked[OF assms(1)]
      length_concat_chunked[OF chunked_chunk_put[OF assms(1), of i v]] by simp
next
  fix j
  assume "j < length (concat (chunk_put n cs i v))"
  then have j: "j < n * length cs"
    using length_concat_chunked[OF chunked_chunk_put[OF assms(1), of i v]] by simp
  then have n: "0 < n" by (auto intro: gr0I)
  have div_less: "j div n < length cs" "i div n < length cs"
    using j assms(2) n by (auto simp: less_mult_imp_div_less mult.commute)
  have "concat (chunk_put n cs i v) ! j = chunk_put n cs i v ! (j div n) ! (j mod n)"
    using assms(1) j by (simp add: concat_nth_chunked)
  also have "\<dots> = (if i = j then v else cs ! (j div n) ! (j mod n))"
  proof (cases "j div n = i div n")
    case True
    have "i mod n = j mod n \<longleftrightarrow> i = j"
      using True by (metis div_mult_mod_eq)
    moreover have "i mod n < length (cs ! (i div n))"
      using assms(1) n div_less by (simp add: chunked_def)
    ultimately show ?thesis
      using True div_less by (auto simp: chunk_put_def nth_list_update)
  next
    case False
    then show ?thesis by (auto simp: chunk_put_def)
  qed
  also have "\<dots> = (concat cs)[i := v] ! j"
    using assms j by (auto simp: concat_nth_chunked nth_list_update length_concat_chunked)
  finally show "concat (chunk_put n cs i v) ! j = (concat cs)[i := v] ! j" .
qed

end
