(* ===== verification/Cog_Array.thy ===== *)
theory Cog_Array
  imports Cog_Prelude
begin

text \<open>
  \<open>kernel/container/array.go\<close>: \<open>Array\<close>, a growing sequence of values in fixed-size chunks
  that never move.  The state is the chunks and the length, as in the code; an item past the
  length but inside a chunk is still there, as in the code.  \<open>arr_list\<close> reads the array as
  the list of its items, and the locale \<open>growing_array\<close> is the contract the other
  components use: every operation, on the list.
\<close>

definition chunkShift :: nat where
  "chunkShift = 8"

definition chunkSize :: nat where
  "chunkSize = 2 ^ chunkShift"

definition chunkMask :: nat where
  "chunkMask = chunkSize - 1"

lemma chunkSize_simps [simp]: "chunkSize = 256" "chunkMask = 255" "chunkShift = 8"
  by (simp_all add: chunkSize_def chunkMask_def chunkShift_def)

record 'a array =
  arr_chunks_of :: "'a list list"
  arr_length :: nat

definition empty_array :: "'a array" where
  "empty_array = \<lparr>arr_chunks_of = [], arr_length = 0\<rparr>"

section \<open>Operations\<close>

definition arr_len :: "'a array \<Rightarrow> nat" where
  "arr_len a = arr_length a"

text \<open>
  \<open>At\<close> answers a pointer; reading through it is \<open>arr_at\<close> and writing through it is
  \<open>arr_put\<close>.  Both panic, here \<open>None\<close>, only where the chunk does not exist: a position past
  the length in an existing chunk is not checked by the code.
\<close>

definition arr_at :: "'a array \<Rightarrow> nat \<Rightarrow> 'a option" where
  "arr_at a i =
     (if i div chunkSize < length (arr_chunks_of a)
      then Some (arr_chunks_of a ! (i div chunkSize) ! (i mod chunkSize)) else None)"

definition arr_put :: "'a array \<Rightarrow> nat \<Rightarrow> 'a \<Rightarrow> 'a array option" where
  "arr_put a i v =
     (if i div chunkSize < length (arr_chunks_of a)
      then Some (a\<lparr>arr_chunks_of := chunk_put chunkSize (arr_chunks_of a) i v\<rparr>) else None)"

definition arr_append :: "'a \<Rightarrow> 'a array \<Rightarrow> 'a \<Rightarrow> nat \<times> 'a array" where
  "arr_append z a item =
     (let i = arr_length a;
          cs = (if i = length (arr_chunks_of a) * chunkSize
                then arr_chunks_of a @ [replicate chunkSize z] else arr_chunks_of a)
      in (i, \<lparr>arr_chunks_of = chunk_put chunkSize cs i item, arr_length = Suc i\<rparr>))"

text \<open>The two loops of \<open>Resize\<close>: growing by whole chunks, then zeroing what is added.\<close>

function grow_chunks :: "'a \<Rightarrow> nat \<Rightarrow> 'a list list \<Rightarrow> 'a list list" where
  "grow_chunks z n cs =
     (if length cs * chunkSize < n then grow_chunks z n (cs @ [replicate chunkSize z]) else cs)"
  by pat_completeness auto
termination
  by (relation "measure (\<lambda>(z, n, cs). n - length cs * chunkSize)") auto

declare grow_chunks.simps [simp del]

function zero_from :: "'a \<Rightarrow> nat \<Rightarrow> nat \<Rightarrow> 'a list list \<Rightarrow> 'a list list" where
  "zero_from z i n cs =
     (if i < n then zero_from z (Suc i) n (chunk_put chunkSize cs i z) else cs)"
  by pat_completeness auto
termination
  by (relation "measure (\<lambda>(z, i, n, cs). n - i)") auto

declare zero_from.simps [simp del]

definition arr_resize :: "'a \<Rightarrow> 'a array \<Rightarrow> nat \<Rightarrow> 'a array" where
  "arr_resize z a n =
     \<lparr>arr_chunks_of = zero_from z (arr_length a) n (grow_chunks z n (arr_chunks_of a)),
      arr_length = n\<rparr>"

definition arr_chunks :: "'a array \<Rightarrow> nat" where
  "arr_chunks a = (arr_length a + chunkMask) div chunkSize"

definition arr_shrink :: "'a array \<Rightarrow> 'a array" where
  "arr_shrink a = a\<lparr>arr_chunks_of := take (arr_chunks a) (arr_chunks_of a)\<rparr>"

text \<open>\<open>SwapRemove\<close> of an empty array reads position \<open>-1\<close>, which panics.\<close>

definition arr_swap_remove :: "'a array \<Rightarrow> nat \<Rightarrow> (nat \<times> 'a array) option" where
  "arr_swap_remove a i =
     (case arr_length a of
        0 \<Rightarrow> None
      | Suc l \<Rightarrow>
          (case arr_at a l of
             None \<Rightarrow> None
           | Some x \<Rightarrow>
               (case arr_put a i x of
                  None \<Rightarrow> None
                | Some a' \<Rightarrow> Some (l, a'\<lparr>arr_length := l\<rparr>))))"

text \<open>\<open>Chunk\<close> panics past the chunks the array has.\<close>

definition arr_chunk :: "'a array \<Rightarrow> nat \<Rightarrow> 'a list option" where
  "arr_chunk a c =
     (if c < length (arr_chunks_of a)
      then Some (take (min (arr_length a - c * chunkSize) chunkSize) (arr_chunks_of a ! c))
      else None)"

section \<open>The items as a list\<close>

definition arr_list :: "'a array \<Rightarrow> 'a list" where
  "arr_list a = take (arr_length a) (concat (arr_chunks_of a))"

definition arr_wf :: "'a array \<Rightarrow> bool" where
  "arr_wf a \<longleftrightarrow>
     chunked chunkSize (arr_chunks_of a) \<and> arr_length a \<le> chunkSize * length (arr_chunks_of a)"

lemma arr_wf_empty [simp]: "arr_wf empty_array" and arr_list_empty [simp]: "arr_list empty_array = []"
  by (simp_all add: arr_wf_def arr_list_def empty_array_def)

lemma length_arr_list: "arr_wf a \<Longrightarrow> length (arr_list a) = arr_length a"
  by (auto simp: arr_wf_def arr_list_def length_concat_chunked[of chunkSize])

lemma arr_at_list:
  assumes "arr_wf a" and "i < arr_length a"
  shows "arr_at a i = Some (arr_list a ! i)"
proof -
  have "i < chunkSize * length (arr_chunks_of a)"
    using assms by (simp add: arr_wf_def)
  then show ?thesis
    using assms by (auto simp: arr_at_def arr_list_def arr_wf_def concat_nth_chunked)
qed

lemma arr_put_list:
  assumes "arr_wf a" and "i < arr_length a"
  obtains a' where "arr_put a i v = Some a'" "arr_wf a'" "arr_length a' = arr_length a"
    "arr_list a' = (arr_list a)[i := v]"
proof -
  have i: "i < chunkSize * length (arr_chunks_of a)"
    using assms by (simp add: arr_wf_def)
  let ?a' = "a\<lparr>arr_chunks_of := chunk_put chunkSize (arr_chunks_of a) i v\<rparr>"
  show thesis
  proof (rule that[of ?a'])
    show "arr_put a i v = Some ?a'"
      using i by (auto simp: arr_put_def)
    show "arr_wf ?a'"
      using assms by (auto simp: arr_wf_def)
    show "arr_list ?a' = (arr_list a)[i := v]"
      using assms i by (simp add: arr_list_def arr_wf_def concat_chunk_put take_update_swap)
  qed simp
qed

lemma grow_chunks_spec:
  "chunked chunkSize cs \<Longrightarrow>
     \<exists>k. grow_chunks z n cs = cs @ replicate k (replicate chunkSize z)
       \<and> n \<le> chunkSize * length (grow_chunks z n cs)"
proof (induction z n cs rule: grow_chunks.induct)
  case (1 z n cs)
  show ?case
  proof (cases "length cs * chunkSize < n")
    case True
    with "1.prems" obtain k where
      "grow_chunks z n (cs @ [replicate chunkSize z]) =
         (cs @ [replicate chunkSize z]) @ replicate k (replicate chunkSize z)"
      "n \<le> chunkSize * length (grow_chunks z n (cs @ [replicate chunkSize z]))"
      using "1.IH" by auto
    then show ?thesis
      using True by (intro exI[of _ "Suc k"]) (auto simp: grow_chunks.simps[of z n cs])
  next
    case False
    then show ?thesis
      by (intro exI[of _ 0]) (auto simp: grow_chunks.simps[of z n cs])
  qed
qed

lemma zero_from_spec:
  "chunked chunkSize cs \<Longrightarrow> n \<le> chunkSize * length cs \<Longrightarrow>
     chunked chunkSize (zero_from z i n cs) \<and> length (zero_from z i n cs) = length cs
     \<and> take n (concat (zero_from z i n cs)) = take i (take n (concat cs)) @ replicate (n - i) z"
proof (induction z i n cs rule: zero_from.induct)
  case (1 z i n cs)
  note eq = zero_from.simps[of z i n cs]
  show ?case
  proof (cases "i < n")
    case True
    let ?cs = "chunk_put chunkSize cs i z"
    have i: "i < chunkSize * length cs"
      using True "1.prems" by simp
    have IH: "chunked chunkSize (zero_from z (Suc i) n ?cs) \<and> length (zero_from z (Suc i) n ?cs) = length ?cs
       \<and> take n (concat (zero_from z (Suc i) n ?cs)) = take (Suc i) (take n (concat ?cs)) @ replicate (n - Suc i) z"
      using True "1.prems" "1.IH" by (simp only: chunked_chunk_put length_chunk_put simp_thms)
    have "take (Suc i) (take n (concat ?cs)) = take i (take n (concat cs)) @ [z]"
      using True i "1.prems"
      by (simp add: concat_chunk_put[of chunkSize, simplified] take_Suc_conv_app_nth
          length_concat_chunked[of 256] take_update_swap list_update_append)
    moreover have "[z] @ replicate (n - Suc i) z = replicate (n - i) z"
      using True by (simp add: Suc_diff_Suc flip: replicate_Suc)
    ultimately show ?thesis
      using IH True eq by simp
  next
    case False
    then show ?thesis
      using "1.prems" eq by simp
  qed
qed

lemma arr_resize_list:
  assumes "arr_wf a"
  shows "arr_wf (arr_resize z a n)"
    and "arr_length (arr_resize z a n) = n"
    and "arr_list (arr_resize z a n) = take n (arr_list a) @ replicate (n - arr_length a) z"
proof -
  let ?cs = "arr_chunks_of a"
  obtain k where g: "grow_chunks z n ?cs = ?cs @ replicate k (replicate chunkSize z)"
    and n: "n \<le> chunkSize * length (grow_chunks z n ?cs)"
    using grow_chunks_spec[of ?cs z n] assms by (auto simp: arr_wf_def)
  have ch: "chunked chunkSize (grow_chunks z n ?cs)"
    using assms g by (auto simp: arr_wf_def chunked_def)
  note zf = zero_from_spec[OF ch n, of z "arr_length a"]
  have "take (arr_length a) (take n (concat (grow_chunks z n ?cs))) = take n (arr_list a)"
    using assms length_concat_chunked[of chunkSize ?cs]
    by (auto simp: g arr_list_def arr_wf_def take_append min.commute min_def)
  with zf n show "arr_wf (arr_resize z a n)" "arr_length (arr_resize z a n) = n"
    "arr_list (arr_resize z a n) = take n (arr_list a) @ replicate (n - arr_length a) z"
    by (auto simp: arr_resize_def arr_wf_def arr_list_def)
qed

lemma arr_append_list:
  assumes "arr_wf a"
  shows "fst (arr_append z a x) = arr_length a"
    and "arr_wf (snd (arr_append z a x))"
    and "arr_length (snd (arr_append z a x)) = Suc (arr_length a)"
    and "arr_list (snd (arr_append z a x)) = arr_list a @ [x]"
proof -
  let ?i = "arr_length a"
  let ?cs = "if ?i = length (arr_chunks_of a) * chunkSize
    then arr_chunks_of a @ [replicate chunkSize z] else arr_chunks_of a"
  have ch: "chunked chunkSize ?cs" and i: "?i < chunkSize * length ?cs"
    and same: "take ?i (concat ?cs) = arr_list a"
    using assms length_concat_chunked[of chunkSize "arr_chunks_of a"]
    by (auto simp: arr_wf_def arr_list_def)
  have len: "length (concat ?cs) = chunkSize * length ?cs"
    by (rule length_concat_chunked[OF ch])
  show "fst (arr_append z a x) = ?i" "arr_length (snd (arr_append z a x)) = Suc ?i"
    "arr_wf (snd (arr_append z a x))"
    using ch i by (auto simp: arr_append_def arr_wf_def Let_def simp del: chunkSize_simps)
  have "arr_list (snd (arr_append z a x)) = take (Suc ?i) ((concat ?cs)[?i := x])"
    using concat_chunk_put[OF ch i, of x] by (simp add: arr_append_def arr_list_def Let_def)
  also have "\<dots> = arr_list a @ [x]"
    using i len same by (simp only: take_Suc_update)
  finally show "arr_list (snd (arr_append z a x)) = arr_list a @ [x]" .
qed

lemma arr_shrink_list:
  assumes "arr_wf a"
  shows "arr_wf (arr_shrink a)" and "arr_length (arr_shrink a) = arr_length a"
    and "arr_list (arr_shrink a) = arr_list a"
proof -
  let ?n = "arr_chunks a"
  have n: "arr_length a \<le> chunkSize * ?n" "?n \<le> length (arr_chunks_of a)"
    using assms by (auto simp: arr_chunks_def arr_wf_def)
  have "length (concat (take ?n (arr_chunks_of a))) = chunkSize * ?n"
    using assms n length_concat_chunked[of chunkSize "take ?n (arr_chunks_of a)"]
    by (simp add: arr_wf_def)
  moreover have "concat (arr_chunks_of a) =
      concat (take ?n (arr_chunks_of a)) @ concat (drop ?n (arr_chunks_of a))"
    by (simp flip: concat_append)
  ultimately show "arr_list (arr_shrink a) = arr_list a"
    using n by (simp add: arr_shrink_def arr_list_def)
  show "arr_wf (arr_shrink a)" "arr_length (arr_shrink a) = arr_length a"
    using assms n by (auto simp: arr_shrink_def arr_wf_def)
qed

lemma arr_swap_remove_list:
  assumes "arr_wf a" and "i < arr_length a"
  obtains a' where "arr_swap_remove a i = Some (arr_length a - 1, a')" "arr_wf a'"
    "arr_length a' = arr_length a - 1"
    "arr_list a' = butlast ((arr_list a)[i := last (arr_list a)])"
proof -
  obtain l where l: "arr_length a = Suc l"
    using assms(2) by (cases "arr_length a") auto
  have len: "length (arr_list a) = Suc l"
    using assms(1) l by (simp add: length_arr_list)
  have "arr_at a l = Some (last (arr_list a))"
    using assms(1) l len by (simp add: arr_at_list last_conv_nth flip: length_0_conv)
  moreover obtain a1 where a1: "arr_put a i (last (arr_list a)) = Some a1" "arr_wf a1"
    "arr_length a1 = Suc l" "arr_list a1 = (arr_list a)[i := last (arr_list a)]"
    using arr_put_list[OF assms, of "last (arr_list a)"] l by metis
  ultimately have "arr_swap_remove a i = Some (l, a1\<lparr>arr_length := l\<rparr>)"
    using l by (simp add: arr_swap_remove_def)
  moreover have "arr_list (a1\<lparr>arr_length := l\<rparr>) = take l (arr_list a1)"
    using a1(3) by (simp add: arr_list_def)
  ultimately show thesis
    using that[of "a1\<lparr>arr_length := l\<rparr>"] a1 l len
    by (auto simp: arr_wf_def butlast_conv_take)
qed

text \<open>
  Walking chunk by chunk visits every item: \<open>Chunks\<close> slices, each cut at the length, joined
  are the items in order.
\<close>

lemma arr_chunk_drop:
  assumes "arr_wf a" and "c < arr_chunks a"
  shows "arr_chunk a c = Some (take chunkSize (drop (c * chunkSize) (arr_list a)))"
proof -
  let ?cs = "arr_chunks_of a"
  have c: "c < length ?cs"
    using assms by (auto simp: arr_wf_def arr_chunks_def)
  have ch: "chunked chunkSize ?cs"
    using assms by (simp add: arr_wf_def)
  have "concat ?cs = concat (take c ?cs) @ ?cs ! c @ concat (drop (Suc c) ?cs)"
    using c by (metis append_take_drop_id concat.simps(2) concat_append Cons_nth_drop_Suc)
  moreover have "length (concat (take c ?cs)) = c * chunkSize"
    using length_concat_chunked[of chunkSize "take c ?cs"] ch c by simp
  moreover have "length (?cs ! c) = chunkSize"
    using ch c by (simp add: chunked_def)
  ultimately have "drop (c * chunkSize) (concat ?cs) = ?cs ! c @ concat (drop (Suc c) ?cs)"
    and l: "length (?cs ! c) = chunkSize"
    by simp_all
  then have "take chunkSize (drop (c * chunkSize) (arr_list a)) =
      take (min chunkSize (arr_length a - c * chunkSize)) (?cs ! c)"
    by (auto simp: arr_list_def drop_take min_def)
  then show ?thesis
    using c by (simp add: arr_chunk_def min.commute)
qed

section \<open>The contract\<close>

text \<open>
  What a client of \<open>Array\<close> relies on.  \<open>items\<close> is the array as a list; every law is stated
  under the representation invariant \<open>wf\<close>, which every operation keeps.
\<close>

locale growing_array =
  fixes wf :: "'r \<Rightarrow> bool"
    and items :: "'r \<Rightarrow> 'a list"
    and init :: 'r
    and at :: "'r \<Rightarrow> nat \<Rightarrow> 'a option"
    and put :: "'r \<Rightarrow> nat \<Rightarrow> 'a \<Rightarrow> 'r option"
    and append_item :: "'r \<Rightarrow> 'a \<Rightarrow> nat \<times> 'r"
    and resize :: "'r \<Rightarrow> nat \<Rightarrow> 'r"
    and swap_remove :: "'r \<Rightarrow> nat \<Rightarrow> (nat \<times> 'r) option"
    and zero_item :: 'a
  assumes wf_init: "wf init" and items_init: "items init = []"
    and at_item: "wf a \<Longrightarrow> i < length (items a) \<Longrightarrow> at a i = Some (items a ! i)"
    and put_item: "wf a \<Longrightarrow> i < length (items a) \<Longrightarrow>
      \<exists>a'. put a i v = Some a' \<and> wf a' \<and> items a' = (items a)[i := v]"
    and append_item: "wf a \<Longrightarrow> wf (snd (append_item a x))
      \<and> items (snd (append_item a x)) = items a @ [x] \<and> fst (append_item a x) = length (items a)"
    and resize_item: "wf a \<Longrightarrow> wf (resize a n)
      \<and> items (resize a n) = take n (items a) @ replicate (n - length (items a)) zero_item"
    and swap_remove_item: "wf a \<Longrightarrow> i < length (items a) \<Longrightarrow>
      \<exists>a'. swap_remove a i = Some (length (items a) - 1, a') \<and> wf a'
        \<and> items a' = butlast ((items a)[i := last (items a)])"
begin

lemma at_after_put:
  assumes "wf a" and "i < length (items a)" and "j < length (items a)"
  shows "\<exists>a'. put a i v = Some a' \<and> at a' j = (if i = j then Some v else at a j)"
  using put_item[OF assms(1,2), of v] assms at_item by (fastforce simp: nth_list_update)

lemma at_after_append:
  assumes "wf a" and "j \<le> length (items a)"
  shows "at (snd (append_item a x)) j = (if j = length (items a) then Some x else at a j)"
  using append_item[OF assms(1), of x] assms at_item[of "snd (append_item a x)" j] at_item[of a j]
  by (auto simp: nth_append)

text \<open>Growing leaves what was there; what is added is zero.\<close>

lemma at_after_grow:
  assumes "wf a" and "length (items a) \<le> n" and "j < n"
  shows "at (resize a n) j = (if j < length (items a) then at a j else Some zero_item)"
  using resize_item[OF assms(1), of n] assms at_item[of "resize a n" j] at_item[of a j]
  by (auto simp: nth_append)

text \<open>Only the last item moves when one is removed.\<close>

lemma at_after_swap_remove:
  assumes "wf a" and "i < length (items a)" and "j < length (items a) - 1"
  shows "\<exists>a'. swap_remove a i = Some (length (items a) - 1, a')
    \<and> at a' j = (if j = i then at a (length (items a) - 1) else at a j)"
proof -
  obtain a' where a': "swap_remove a i = Some (length (items a) - 1, a')" "wf a'"
    "items a' = butlast ((items a)[i := last (items a)])"
    using swap_remove_item[OF assms(1,2)] by auto
  have "items a \<noteq> []" using assms(2) by auto
  then show ?thesis
    using a' assms at_item[of a' j] at_item[of a j] at_item[of a "length (items a) - 1"]
    by (auto simp: nth_butlast nth_list_update last_conv_nth)
qed

end

interpretation arr: growing_array arr_wf arr_list empty_array arr_at arr_put "arr_append z"
  "arr_resize z" arr_swap_remove z for z
proof (unfold_locales, goal_cases)
  case (4 a i v)
  then show ?case using arr_put_list[of a i v] by (auto simp: length_arr_list)
next
  case (5 a x)
  then show ?case by (simp add: arr_append_list length_arr_list)
next
  case (6 a n)
  then show ?case by (simp add: arr_resize_list length_arr_list)
next
  case (7 a i)
  then show ?case using arr_swap_remove_list[of a i] by (auto simp: length_arr_list)
qed (simp_all add: arr_at_list length_arr_list)

end
