(* ===== verification/Cog_Bits.thy ===== *)
theory Cog_Bits
  imports Cog_Array
begin

text \<open>
  \<open>kernel/container/bits.go\<close>: \<open>Bits\<close>, a growing set of indexes, one bit each, over an
  \<open>Array\<close> of 64-bit words.  The proofs use the array through its contract
  (\<open>growing_array\<close>) only.  \<open>bits_has_iff\<close> reads the set as \<open>{i. bits_has b i}\<close>, and the
  walk \<open>Next\<close> answers its least element at or above a bound.
\<close>

record bits =
  bit_words :: "u64 array"

definition empty_bits :: bits where
  "empty_bits = \<lparr>bit_words = empty_array\<rparr>"

text \<open>Updating one word, reading and writing through the pointer \<open>At\<close> answers.\<close>

definition word_update :: "u64 array \<Rightarrow> nat \<Rightarrow> (u64 \<Rightarrow> u64) \<Rightarrow> u64 array option" where
  "word_update ws i f =
     (case arr_at ws i of None \<Rightarrow> None | Some w \<Rightarrow> arr_put ws i (f w))"

definition bits_set :: "bits \<Rightarrow> nat \<Rightarrow> bits option" where
  "bits_set b i =
     (let word = i div 64;
          ws = (if word \<ge> arr_len (bit_words b) then arr_resize 0 (bit_words b) (word + 1)
                else bit_words b)
      in map_option (\<lambda>ws. \<lparr>bit_words = ws\<rparr>)
           (word_update ws word (\<lambda>w. w OR push_bit (i mod 64) 1)))"

definition bits_unset :: "bits \<Rightarrow> nat \<Rightarrow> bits option" where
  "bits_unset b i =
     (let word = i div 64
      in if word < arr_len (bit_words b)
         then map_option (\<lambda>ws. \<lparr>bit_words = ws\<rparr>)
                (word_update (bit_words b) word (\<lambda>w. w AND NOT (push_bit (i mod 64) 1)))
         else Some b)"

definition bits_has :: "bits \<Rightarrow> nat \<Rightarrow> bool" where
  "bits_has b i =
     (let word = i div 64
      in word < arr_len (bit_words b)
         \<and> (case arr_at (bit_words b) word of None \<Rightarrow> False
            | Some w \<Rightarrow> w AND push_bit (i mod 64) 1 \<noteq> 0))"

text \<open>The loop of \<open>Next\<close>: on to the next word while nothing is left of this one.\<close>

function next_word :: "u64 array \<Rightarrow> nat \<Rightarrow> u64 \<Rightarrow> nat option" where
  "next_word ws word bitsLeft =
     (if bitsLeft = 0
      then (if Suc word \<ge> arr_len ws then None
            else (case arr_at ws (Suc word) of None \<Rightarrow> None
                  | Some w \<Rightarrow> next_word ws (Suc word) w))
      else Some (word * 64 + trailing_zeros bitsLeft))"
  by pat_completeness auto
termination
  by (relation "measure (\<lambda>(ws, word, bitsLeft). arr_len ws - word)") auto

declare next_word.simps [simp del]

definition bits_next :: "bits \<Rightarrow> nat \<Rightarrow> nat option" where
  "bits_next b i =
     (let word = i div 64
      in if word \<ge> arr_len (bit_words b) then None
         else (case arr_at (bit_words b) word of None \<Rightarrow> None
               | Some w \<Rightarrow> next_word (bit_words b) word (push_bit (i mod 64) (drop_bit (i mod 64) w))))"

text \<open>\<open>Clear\<close> zeroes each chunk's items in place, and keeps the length.\<close>

definition clear_chunk :: "u64 array \<Rightarrow> nat \<Rightarrow> u64 array" where
  "clear_chunk ws c =
     (let m = min (arr_length ws - c * chunkSize) chunkSize
      in ws\<lparr>arr_chunks_of := (arr_chunks_of ws)[c := replicate m 0 @ drop m (arr_chunks_of ws ! c)]\<rparr>)"

definition bits_clear :: "bits \<Rightarrow> bits" where
  "bits_clear b =
     \<lparr>bit_words = foldl clear_chunk (bit_words b) [0..<arr_chunks (bit_words b)]\<rparr>"

section \<open>The set of a Bits\<close>

abbreviation bits_wf :: "bits \<Rightarrow> bool" where
  "bits_wf b \<equiv> arr_wf (bit_words b)"

abbreviation bits_list :: "bits \<Rightarrow> u64 list" where
  "bits_list b \<equiv> arr_list (bit_words b)"

lemma bits_has_iff [bits_simps]:
  assumes "bits_wf b"
  shows "bits_has b i \<longleftrightarrow> i div 64 < length (bits_list b) \<and> bit (bits_list b ! (i div 64)) (i mod 64)"
  using assms by (auto simp: bits_has_def Let_def arr_len_def length_arr_list arr_at_list and_single_bit_iff)

lemma word_update_list:
  assumes "arr_wf ws" and "i < length (arr_list ws)"
  shows "\<exists>ws'. word_update ws i f = Some ws' \<and> arr_wf ws'
    \<and> arr_list ws' = (arr_list ws)[i := f (arr_list ws ! i)]"
  using arr.put_item[OF assms] arr.at_item[OF assms] by (simp add: word_update_def)

lemma div_mod_eq_iff: "i div n = j div n \<Longrightarrow> i mod n = j mod n \<Longrightarrow> i = (j::nat)"
  by (metis div_mult_mod_eq)

lemma bit_nth_padded:
  "k < length xs + m \<and> bit ((xs @ replicate m (0::u64)) ! k) n \<longleftrightarrow> k < length xs \<and> bit (xs ! k) n"
  by (auto simp: nth_append)

lemma bits_set_spec:
  assumes "bits_wf b"
  shows "\<exists>b'. bits_set b i = Some b' \<and> bits_wf b' \<and> (\<forall>j. bits_has b' j \<longleftrightarrow> j = i \<or> bits_has b j)"
proof -
  let ?word = "i div 64"
  define ws where "ws = (if ?word \<ge> arr_len (bit_words b) then arr_resize 0 (bit_words b) (?word + 1)
    else bit_words b)"
  have ws: "arr_wf ws" "arr_list ws = bits_list b @ replicate (Suc ?word - length (bits_list b)) 0"
    using assms arr_resize_list[OF assms, of 0 "Suc ?word"]
    by (auto simp: ws_def arr_len_def length_arr_list)
  have len: "?word < length (arr_list ws)"
    using ws(2) by simp
  obtain ws' where ws': "word_update ws ?word (\<lambda>w. w OR push_bit (i mod 64) 1) = Some ws'"
    "arr_wf ws'" "arr_list ws' = (arr_list ws)[?word := arr_list ws ! ?word OR push_bit (i mod 64) 1]"
    using word_update_list[OF ws(1) len] by metis
  have "bits_has \<lparr>bit_words = ws'\<rparr> j \<longleftrightarrow> j = i \<or> bits_has b j" for j
  proof (cases "j div 64 = ?word")
    case True
    have "bit (arr_list ws ! ?word) (j mod 64) \<longleftrightarrow> bits_has b j"
      using True assms by (simp add: bits_has_iff ws(2) nth_append)
    then have "bits_has \<lparr>bit_words = ws'\<rparr> j \<longleftrightarrow> j mod 64 = i mod 64 \<or> bits_has b j"
      using True ws' len by (auto simp: bits_has_iff bit_simps)
    then show ?thesis
      using True div_mod_eq_iff[of j 64 i] by blast
  next
    case False
    then have "bits_has \<lparr>bit_words = ws'\<rparr> j \<longleftrightarrow>
        j div 64 < length (arr_list ws) \<and> bit (arr_list ws ! (j div 64)) (j mod 64)"
      using ws' by (simp add: bits_has_iff)
    then show ?thesis
      using False assms bit_nth_padded[of "j div 64" "bits_list b"] by (auto simp: bits_has_iff ws(2))
  qed
  moreover have "bits_set b i = Some \<lparr>bit_words = ws'\<rparr>"
    using ws'(1) by (simp add: bits_set_def Let_def ws_def)
  ultimately show ?thesis
    using ws'(2) by simp
qed

lemma bits_unset_spec:
  assumes "bits_wf b"
  shows "\<exists>b'. bits_unset b i = Some b' \<and> bits_wf b' \<and> (\<forall>j. bits_has b' j \<longleftrightarrow> j \<noteq> i \<and> bits_has b j)"
proof (cases "i div 64 < length (bits_list b)")
  case True
  obtain ws' where ws': "word_update (bit_words b) (i div 64) (\<lambda>w. w AND NOT (push_bit (i mod 64) 1)) = Some ws'"
    "arr_wf ws'" "arr_list ws' = (bits_list b)[i div 64 := bits_list b ! (i div 64) AND NOT (push_bit (i mod 64) 1)]"
    using word_update_list[OF assms True] by metis
  have "bits_has \<lparr>bit_words = ws'\<rparr> j \<longleftrightarrow> j \<noteq> i \<and> bits_has b j" for j
  proof (cases "j div 64 = i div 64")
    case word: True
    then have "bits_has \<lparr>bit_words = ws'\<rparr> j \<longleftrightarrow> j mod 64 \<noteq> i mod 64 \<and> bits_has b j"
      using ws' True assms by (auto simp: bits_has_iff bit_simps)
    then show ?thesis
      using word div_mod_eq_iff[of j 64 i] by blast
  next
    case False
    then show ?thesis
      using ws' assms by (auto simp: bits_has_iff)
  qed
  moreover have "bits_unset b i = Some \<lparr>bit_words = ws'\<rparr>"
    using ws'(1) True assms by (simp add: bits_unset_def Let_def arr_len_def length_arr_list)
  ultimately show ?thesis
    using ws'(2) by simp
next
  case False
  then show ?thesis
    using assms by (auto simp: bits_unset_def Let_def arr_len_def length_arr_list bits_has_iff)
qed

section \<open>Next and Clear\<close>

lemma bit_shifted_back:
  fixes w :: u64
  shows "bit (push_bit k (drop_bit k w)) n \<longleftrightarrow> k \<le> n \<and> bit w n"
  by (auto simp: bit_simps dest: bit_imp_le_length)

lemma trailing_zeros_least_bit:
  fixes w :: "'a::len word"
  assumes "w \<noteq> 0"
  shows "trailing_zeros w = (LEAST n. bit w n)"
  using trailing_zeros_bit[OF assms] by (intro Least_equality[symmetric]) (auto simp: not_less[symmetric])

text \<open>
  The loop from word \<open>word\<close> with \<open>bitsLeft\<close> of it left: the answer is in what is left of that
  word or in a later word, and nothing of either is before it.
\<close>

lemma next_word_spec:
  assumes "arr_wf ws"
  shows "(case next_word ws word bl of
      None \<Rightarrow> bl = 0 \<and> (\<forall>k. word < k \<longrightarrow> k < length (arr_list ws) \<longrightarrow> arr_list ws ! k = 0)
    | Some j \<Rightarrow> (j div 64 = word \<and> bl \<noteq> 0 \<and> j mod 64 = trailing_zeros bl)
        \<or> (bl = 0 \<and> word < j div 64 \<and> j div 64 < length (arr_list ws)
           \<and> j mod 64 = trailing_zeros (arr_list ws ! (j div 64)) \<and> arr_list ws ! (j div 64) \<noteq> 0
           \<and> (\<forall>k. word < k \<longrightarrow> k < j div 64 \<longrightarrow> arr_list ws ! k = 0)))"
  using assms
proof (induction ws word bl rule: next_word.induct)
  case (1 ws word bl)
  note eq = next_word.simps[of ws word bl]
  consider (found) "bl \<noteq> 0" | (ended) "bl = 0" "length (arr_list ws) \<le> Suc word"
    | (later) "bl = 0" "Suc word < length (arr_list ws)"
    by linarith
  then show ?case
  proof cases
    case found
    then show ?thesis
      using eq trailing_zeros_less[OF found] by simp
  next
    case ended
    then show ?thesis
      using eq "1.prems" by (auto simp: arr_len_def length_arr_list)
  next
    case later
    let ?w = "arr_list ws ! Suc word"
    have at: "arr_at ws (Suc word) = Some ?w"
      using later arr.at_item[OF "1.prems"] by simp
    have len: "\<not> arr_len ws \<le> Suc word"
      using later "1.prems" by (simp add: arr_len_def length_arr_list)
    have step: "next_word ws word bl = next_word ws (Suc word) ?w"
      using eq at len later by simp
    note IH = "1.IH"[OF later(1) len at "1.prems"]
    show ?thesis
    proof (cases "next_word ws (Suc word) ?w")
      case None
      then show ?thesis
        using IH step later by (auto simp: less_Suc_eq_le le_less Suc_le_eq elim: Suc_lessI) (metis Suc_lessI)
    next
      case (Some j)
      then show ?thesis
        using IH step later by (auto elim: Suc_lessI) (metis Suc_lessI)
    qed
  qed
qed

lemma same_word_le: "k div n = l div n \<Longrightarrow> k mod n \<le> l mod n \<longleftrightarrow> k \<le> l" for k l n :: nat
  by (metis add_le_cancel_left div_mult_mod_eq)

lemma same_word_less: "k div n = l div n \<Longrightarrow> k mod n < l mod n \<longleftrightarrow> k < l" for k l n :: nat
  by (metis same_word_le not_le)

lemma less_div_cases: "k < l \<Longrightarrow> k div n < l div n \<or> (k div n = l div n \<and> k mod n < l mod n)"
  for k l n :: nat
  by (metis div_le_mono le_neq_implies_less less_imp_le_nat same_word_less)

lemma div_less_le: "k div n < l div n \<Longrightarrow> k \<le> l" for k l n :: nat
  by (metis div_le_mono leD nat_le_linear)

lemma between_same_word: "i \<le> k \<Longrightarrow> k \<le> j \<Longrightarrow> i div n = j div n \<Longrightarrow> k div n = i div n" for i j k n :: nat
  by (metis div_le_mono le_antisym)

text \<open>\<open>Next\<close> is the least element at or above \<open>i\<close>, and false exactly when there is none.\<close>

lemma bits_next_None:
  assumes "bits_wf b" and "bits_next b i = None"
  shows "\<forall>j \<ge> i. \<not> bits_has b j"
proof (intro allI impI notI)
  fix j
  assume j: "i \<le> j" "bits_has b j"
  then have word: "j div 64 < length (bits_list b)" "i div 64 \<le> j div 64"
    using assms(1) by (auto simp: bits_has_iff div_le_mono)
  let ?w = "bits_list b ! (i div 64)"
  have none: "next_word (bit_words b) (i div 64) (push_bit (i mod 64) (drop_bit (i mod 64) ?w)) = None"
    using assms word by (simp add: bits_next_def Let_def arr_len_def length_arr_list arr_at_list)
  have zero: "push_bit (i mod 64) (drop_bit (i mod 64) ?w) = 0"
    and later: "\<And>k. i div 64 < k \<Longrightarrow> k < length (bits_list b) \<Longrightarrow> bits_list b ! k = 0"
    using next_word_spec[OF assms(1), where word = "i div 64" and bl = "push_bit (i mod 64) (drop_bit (i mod 64) ?w)"] none
    by auto
  show False
  proof (cases "i div 64 = j div 64")
    case True
    then have "i mod 64 \<le> j mod 64"
      using j(1) same_word_le by blast
    then have "bit (push_bit (i mod 64) (drop_bit (i mod 64) ?w)) (j mod 64)"
      using True j(2) assms(1) by (simp add: bit_shifted_back bits_has_iff)
    then show False
      using zero by simp
  next
    case False
    then show False
      using later[of "j div 64"] word j(2) assms(1) by (simp add: bits_has_iff)
  qed
qed

lemma bits_next_Some:
  assumes "bits_wf b" and "bits_next b i = Some j"
  shows "i \<le> j \<and> bits_has b j \<and> (\<forall>k. i \<le> k \<longrightarrow> k < j \<longrightarrow> \<not> bits_has b k)"
proof -
  let ?w = "bits_list b ! (i div 64)"
  let ?left = "push_bit (i mod 64) (drop_bit (i mod 64) ?w)"
  have word: "i div 64 < length (bits_list b)"
    using assms by (auto simp: bits_next_def Let_def arr_len_def length_arr_list split: if_splits)
  have some: "next_word (bit_words b) (i div 64) ?left = Some j"
    using assms word by (simp add: bits_next_def Let_def arr_len_def length_arr_list arr_at_list)
  note spec = next_word_spec[OF assms(1), where word = "i div 64" and bl = ?left, unfolded some option.case]
  show ?thesis
  proof (cases "?left = 0")
    case False
    then have j: "j div 64 = i div 64" "j mod 64 = trailing_zeros ?left"
      using spec by auto
    have hit: "i mod 64 \<le> j mod 64" "bit ?w (j mod 64)"
      and miss: "\<And>n. n < j mod 64 \<Longrightarrow> i mod 64 \<le> n \<Longrightarrow> \<not> bit ?w n"
      using trailing_zeros_bit[OF False] j by (auto simp: bit_shifted_back)
    have "i \<le> j"
      using same_word_le[OF j(1)[symmetric]] hit(1) by blast
    moreover have "\<not> bits_has b k" if "i \<le> k" "k < j" for k
    proof -
      have "k div 64 = i div 64"
        using between_same_word[OF that(1) less_imp_le_nat[OF that(2)] j(1)[symmetric]] .
      moreover have "i mod 64 \<le> k mod 64"
        using that(1) same_word_le[OF calculation[symmetric]] by blast
      moreover have "k mod 64 < j mod 64"
        using that(2) same_word_less[of k 64 j] calculation(1) j(1) by metis
      ultimately show ?thesis
        using miss assms(1) by (simp add: bits_has_iff)
    qed
    ultimately show ?thesis
      using hit j word assms(1) by (simp add: bits_has_iff)
  next
    case True
    then have j: "i div 64 < j div 64" "j div 64 < length (bits_list b)"
      "j mod 64 = trailing_zeros (bits_list b ! (j div 64))" "bits_list b ! (j div 64) \<noteq> 0"
      and zero: "\<And>k. i div 64 < k \<Longrightarrow> k < j div 64 \<Longrightarrow> bits_list b ! k = 0"
      using spec by auto
    have hit: "bit (bits_list b ! (j div 64)) (j mod 64)"
      and miss: "\<And>n. n < j mod 64 \<Longrightarrow> \<not> bit (bits_list b ! (j div 64)) n"
      using trailing_zeros_bit[OF j(4)] j(3) by auto
    have "i \<le> j"
      using j(1) by (rule div_less_le)
    moreover have "\<not> bits_has b k" if k: "i \<le> k" "k < j" for k
    proof
      assume has: "bits_has b k"
      have "k div 64 \<noteq> i div 64"
      proof
        assume same: "k div 64 = i div 64"
        then have "i mod 64 \<le> k mod 64"
          using k(1) same_word_le[OF same[symmetric]] by blast
        then have "bit ?left (k mod 64)"
          using has same assms(1) by (simp add: bit_shifted_back bits_has_iff)
        then show False
          using True by simp
      qed
      then have "i div 64 < k div 64"
        using div_le_mono[OF k(1)] le_neq_implies_less by metis
      then show False
        using less_div_cases[OF k(2), of 64] has zero[of "k div 64"] miss[of "k mod 64"] assms(1)
        by (auto simp: bits_has_iff)
    qed
    ultimately show ?thesis
      using hit j assms(1) by (simp add: bits_has_iff)
  qed
qed

text \<open>\<open>Clear\<close> empties the set and keeps the capacity.\<close>

lemma clear_chunks_spec:
  assumes "arr_wf ws" and "k \<le> arr_chunks ws"
  defines "r \<equiv> foldl clear_chunk ws [0..<k]"
  shows "arr_length r = arr_length ws \<and> length (arr_chunks_of r) = length (arr_chunks_of ws)
    \<and> (\<forall>c < length (arr_chunks_of ws). arr_chunks_of r ! c =
        (let m = min (arr_length ws - c * chunkSize) chunkSize
         in if c < k then replicate m 0 @ drop m (arr_chunks_of ws ! c) else arr_chunks_of ws ! c))"
  using assms(2) unfolding r_def
proof (induction k)
  case 0
  then show ?case by simp
next
  case (Suc k)
  then have "k < length (arr_chunks_of ws)"
    using assms(1) by (auto simp: arr_chunks_def arr_wf_def)
  with Suc show ?case
    by (auto simp: clear_chunk_def Let_def nth_list_update)
qed

lemma bits_clear_spec:
  assumes "bits_wf b"
  shows "bits_wf (bits_clear b)" and "arr_len (bit_words (bits_clear b)) = arr_len (bit_words b)"
    and "\<not> bits_has (bits_clear b) i"
proof -
  let ?ws = "bit_words b"
  let ?r = "foldl clear_chunk ?ws [0..<arr_chunks ?ws]"
  note spec = clear_chunks_spec[OF assms order_refl]
  have size: "length (arr_chunks_of ?ws ! c) = chunkSize" if "c < length (arr_chunks_of ?ws)" for c
    using assms that by (simp add: chunked_def arr_wf_def)
  have ch: "chunked chunkSize (arr_chunks_of ?r)"
    using spec size by (auto simp: chunked_def in_set_conv_nth Let_def)
  have wf: "arr_wf ?r"
    using spec assms ch by (simp add: arr_wf_def)
  have zero: "arr_list ?r ! k = 0" if k: "k < arr_length ?ws" for k
  proof -
    have c: "k div chunkSize < arr_chunks ?ws" "k div chunkSize < length (arr_chunks_of ?ws)"
      "k mod chunkSize < min (arr_length ?ws - k div chunkSize * chunkSize) chunkSize"
      using k assms by (auto simp: arr_chunks_def arr_wf_def minus_div_mult_eq_mod less_diff_conv)
    have "arr_list ?r ! k = arr_chunks_of ?r ! (k div chunkSize) ! (k mod chunkSize)"
      using k wf ch spec concat_nth_chunked[OF ch, of k] by (simp add: arr_list_def arr_wf_def)
    then show ?thesis
      using spec c by (simp add: Let_def nth_append)
  qed
  show "bits_wf (bits_clear b)" "arr_len (bit_words (bits_clear b)) = arr_len ?ws"
    using wf spec by (simp_all add: bits_clear_def arr_len_def)
  show "\<not> bits_has (bits_clear b) i"
    using wf zero spec by (auto simp: bits_has_iff bits_clear_def length_arr_list)
qed

text \<open>
  \<open>Next\<close> walks the set: from any index it answers the least index in the set at or above
  it, and answers false exactly when there is none; so the walk \<open>Next(0)\<close>, then from each
  answer plus one, visits every index of the set in ascending order.
\<close>

theorem bits_next_least:
  assumes "bits_wf b"
  shows "bits_next b i = (if \<exists>j \<ge> i. bits_has b j then Some (LEAST j. i \<le> j \<and> bits_has b j) else None)"
proof (cases "bits_next b i")
  case None
  then show ?thesis
    using bits_next_None[OF assms None] by auto
next
  case (Some j)
  note j = bits_next_Some[OF assms Some]
  then have "(LEAST j. i \<le> j \<and> bits_has b j) = j"
    by (intro Least_equality) (auto simp: not_le[symmetric])
  then show ?thesis
    using Some j by auto
qed

definition sample_bits :: bits where
  "sample_bits = \<lparr>bit_words = \<lparr>arr_chunks_of = [[4, 0, 8] @ replicate 253 0], arr_length = 3\<rparr>\<rparr>"

theorem bits_next_least_witness:
  "bits_wf sample_bits \<and> bits_next sample_bits 3 =
     (if \<exists>j \<ge> 3. bits_has sample_bits j
      then Some (LEAST j. 3 \<le> j \<and> bits_has sample_bits j) else None)
   \<and> bits_next sample_bits 3 = Some 131"
proof -
  have wf: "bits_wf sample_bits"
    by (simp add: sample_bits_def arr_wf_def)
  have "bits_next sample_bits 3 = Some 131"
    by code_simp
  then show ?thesis
    using wf bits_next_least[OF wf, of 3] by simp
qed

end
