(* ===== verification/Cog_Pool.thy ===== *)
theory Cog_Pool
  imports Cog_Array
begin

text \<open>
  \<open>kernel/container/pool.go\<close>: \<open>Pool\<close>, a growing store of slots addressed by 32-bit index.
  Index 0 is \<open>None\<close> and never handed out.  Acquire and Release run under the pool's mutex, so
  each is one step; \<open>At\<close> reads chunks that never change once published.  Indexes are 32-bit
  words, so the base of a chunk wraps at \<open>2 ^ 24\<close> chunks: the bound is a hypothesis of every
  statement about growing.  \<open>pool_inv p held\<close> says which indexes are out: the free list and
  \<open>held\<close> partition the indexes from 1.
\<close>

definition p_none :: u32 where
  "p_none = 0"

record 'a pool =
  p_chunks :: "'a list list"
  p_free :: "u32 list"

definition empty_pool :: "'a pool" where
  "empty_pool = \<lparr>p_chunks = [], p_free = []\<rparr>"

section \<open>Operations\<close>

definition p_capacity :: "'a pool \<Rightarrow> nat" where
  "p_capacity p = (if p_chunks p = [] then 0 else length (p_chunks p) * chunkSize - 1)"

text \<open>The loop of \<open>grow\<close>, \<open>for i := base + chunkSize - 1; i > first; i--\<close>.\<close>

function free_down :: "u32 \<Rightarrow> u32 \<Rightarrow> u32 list \<Rightarrow> u32 list" where
  "free_down i first free =
     (if first < i then free_down (i - 1) first (free @ [i]) else free)"
  by pat_completeness auto
termination
  by (relation "measure (\<lambda>(i, first, free). unat i)")
    (auto simp: unat_pred_less(2))

declare free_down.simps [simp del]

definition p_grow :: "'a \<Rightarrow> 'a pool \<Rightarrow> u32 \<times> 'a pool" where
  "p_grow z p =
     (let base = push_bit chunkShift (of_nat (length (p_chunks p)));
          first = (if base = p_none then base + 1 else base)
      in (first, \<lparr>p_chunks = p_chunks p @ [replicate chunkSize z],
                  p_free = free_down (base + of_nat chunkSize - 1) first (p_free p)\<rparr>))"

definition p_take :: "'a \<Rightarrow> 'a pool \<Rightarrow> u32 \<times> 'a pool" where
  "p_take z p =
     (if p_free p = [] then p_grow z p
      else (last (p_free p), p\<lparr>p_free := butlast (p_free p)\<rparr>))"

definition p_acquire :: "'a \<Rightarrow> 'a pool \<Rightarrow> u32 \<times> 'a pool" where
  "p_acquire z p = p_take z p"

fun p_acquire_many :: "'a \<Rightarrow> 'a pool \<Rightarrow> u32 list \<Rightarrow> nat \<Rightarrow> u32 list \<times> 'a pool" where
  "p_acquire_many z p into 0 = (into, p)"
| "p_acquire_many z p into (Suc n) =
     (case p_take z p of (i, p') \<Rightarrow> p_acquire_many z p' (into @ [i]) n)"

definition p_release :: "'a pool \<Rightarrow> u32 \<Rightarrow> 'a pool" where
  "p_release p i = p\<lparr>p_free := p_free p @ [i]\<rparr>"

definition p_release_many :: "'a pool \<Rightarrow> u32 list \<Rightarrow> 'a pool" where
  "p_release_many p is = p\<lparr>p_free := p_free p @ is\<rparr>"

text \<open>\<open>At\<close> answers a pointer: reading through it, and writing through it.\<close>

definition p_at :: "'a pool \<Rightarrow> u32 \<Rightarrow> 'a option" where
  "p_at p i =
     (let n = unat i
      in if n div chunkSize < length (p_chunks p)
         then Some (p_chunks p ! (n div chunkSize) ! (n mod chunkSize)) else None)"

definition p_put :: "'a pool \<Rightarrow> u32 \<Rightarrow> 'a \<Rightarrow> 'a pool" where
  "p_put p i v = p\<lparr>p_chunks := chunk_put chunkSize (p_chunks p) (unat i) v\<rparr>"

text \<open>
  \<open>NewPool\<close>: each round grows by a chunk and frees the slot \<open>grow\<close> answered as well.  The
  source writes \<open>p.free = append(p.free, p.grow())\<close>; the free list read is the one \<open>grow\<close>
  left, as the gc compiler evaluates it.
\<close>

function p_fill :: "'a \<Rightarrow> nat \<Rightarrow> 'a pool \<Rightarrow> 'a pool" where
  "p_fill z capacity p =
     (if p_capacity p < capacity
      then (case p_grow z p of (i, p') \<Rightarrow> p_fill z capacity (p'\<lparr>p_free := p_free p' @ [i]\<rparr>))
      else p)"
  by pat_completeness auto
termination
  by (relation "measure (\<lambda>(z, capacity, p). capacity - p_capacity p)")
    (auto simp: p_capacity_def p_grow_def Let_def split: if_splits)

declare p_fill.simps [simp del]

definition NewPool :: "'a \<Rightarrow> nat \<Rightarrow> 'a pool" where
  "NewPool z capacity = p_fill z capacity empty_pool"

section \<open>Which indexes are out\<close>

definition pool_indexes :: "'a pool \<Rightarrow> u32 set" where
  "pool_indexes p = of_nat ` {1..<chunkSize * length (p_chunks p)}"

definition pool_inv :: "'a pool \<Rightarrow> u32 set \<Rightarrow> bool" where
  "pool_inv p held \<longleftrightarrow>
     chunked chunkSize (p_chunks p) \<and> length (p_chunks p) \<le> 2 ^ 24 \<and> distinct (p_free p)
     \<and> set (p_free p) \<inter> held = {} \<and> set (p_free p) \<union> held = pool_indexes p"

lemma pool_inv_empty: "pool_inv empty_pool {}"
  by (simp add: pool_inv_def empty_pool_def pool_indexes_def)

lemma pool_indexes_unat:
  assumes "length (p_chunks p) \<le> 2 ^ 24"
  shows "i \<in> pool_indexes p \<longleftrightarrow> i \<noteq> 0 \<and> unat i < chunkSize * length (p_chunks p)"
proof
  assume "i \<in> pool_indexes p"
  then obtain n where n: "i = of_nat n" "1 \<le> n" "n < chunkSize * length (p_chunks p)"
    by (auto simp: pool_indexes_def)
  then have "unat i = n"
    using assms by (simp add: unat_of_nat)
  then show "i \<noteq> 0 \<and> unat i < chunkSize * length (p_chunks p)"
    using n by auto
next
  assume i: "i \<noteq> 0 \<and> unat i < chunkSize * length (p_chunks p)"
  then have "1 \<le> unat i"
    by (simp add: unat_gt_0 Suc_le_eq)
  with i show "i \<in> pool_indexes p"
    unfolding pool_indexes_def by (intro image_eqI[of _ _ "unat i"]) auto
qed

text \<open>The slots of a held index exist, and index 0 is not held.\<close>

lemma pool_inv_held:
  assumes "pool_inv p held" and "i \<in> held"
  shows "i \<noteq> 0" and "unat i < chunkSize * length (p_chunks p)"
  using assms pool_indexes_unat[of p i] by (auto simp: pool_inv_def)

lemma free_down_spec:
  "free_down i first free = free @ map of_nat (rev [Suc (unat first)..<Suc (unat i)])"
proof (induction i first free rule: free_down.induct)
  case (1 i first free)
  show ?case
  proof (cases "first < i")
    case True
    then have i: "i \<noteq> 0" "unat first < unat i" "unat (i - 1) = unat i - 1"
      by (auto simp: unat_pred_less[OF True] word_less_nat_alt[symmetric])
    then have "[Suc (unat first)..<Suc (unat i)] = [Suc (unat first)..<Suc (unat (i - 1))] @ [unat i]"
      by (cases "unat i") auto
    then show ?thesis
      using "1.IH"[OF True] True by (simp add: free_down.simps[of i])
  next
    case False
    then show ?thesis
      by (simp add: free_down.simps[of i] word_less_nat_alt)
  qed
qed

lemma p_grow_spec:
  assumes "length (p_chunks p) < 2 ^ 24"
  defines "n \<equiv> chunkSize * length (p_chunks p)"
  shows "unat (fst (p_grow z p)) = (if n = 0 then 1 else n)"
    and "p_chunks (snd (p_grow z p)) = p_chunks p @ [replicate chunkSize z]"
    and "p_free (snd (p_grow z p)) =
      p_free p @ map of_nat (rev [Suc (unat (fst (p_grow z p)))..<n + chunkSize])"
proof -
  let ?base = "push_bit chunkShift (of_nat (length (p_chunks p))) :: u32"
  have "?base = of_nat n"
    by (simp add: n_def push_bit_eq_mult mult.commute)
  moreover have bound: "n + 256 \<le> 2 ^ 32"
    using assms(1) by (simp add: n_def)
  ultimately have base: "unat ?base = n"
    by (simp add: unat_of_nat)
  then have zero: "?base = 0 \<longleftrightarrow> n = 0"
    by (metis unat_0 unat_eq_zero)
  have top: "unat (?base + of_nat chunkSize - 1) = n + 255"
  proof -
    have "?base + of_nat chunkSize - 1 = of_nat (n + 255)"
      using \<open>?base = of_nat n\<close> by simp
    then show ?thesis
      using bound by (simp only: unat_of_nat) simp
  qed
  show first: "unat (fst (p_grow z p)) = (if n = 0 then 1 else n)"
    using base zero by (auto simp: p_grow_def Let_def p_none_def)
  show "p_chunks (snd (p_grow z p)) = p_chunks p @ [replicate chunkSize z]"
    by (simp add: p_grow_def Let_def)
  show "p_free (snd (p_grow z p)) =
      p_free p @ map of_nat (rev [Suc (unat (fst (p_grow z p)))..<n + chunkSize])"
  proof -
    have "Suc (unat (?base + of_nat chunkSize - 1)) = n + chunkSize"
      using top by simp
    then show ?thesis
      by (simp only: p_grow_def Let_def free_down_spec fst_conv snd_conv pool.select_convs)
  qed
qed

lemma distinct_map_of_nat:
  assumes "\<And>n. n \<in> set ns \<Longrightarrow> n < 2 ^ 32" and "distinct ns"
  shows "distinct (map (of_nat :: nat \<Rightarrow> u32) ns)"
proof -
  have "inj_on (of_nat :: nat \<Rightarrow> u32) (set ns)"
    by (rule inj_onI) (use assms(1) of_nat_u32_inj in blast)
  then show ?thesis
    using assms(2) by (simp add: distinct_map)
qed

text \<open>A pool that grew: one new index out, the rest of the chunk free, all of it new.\<close>

lemma p_grow_inv:
  assumes "pool_inv p held" and "length (p_chunks p) < 2 ^ 24"
  shows "pool_inv (snd (p_grow z p)) (insert (fst (p_grow z p)) held)"
    and "fst (p_grow z p) \<notin> pool_indexes p" and "fst (p_grow z p) \<noteq> 0"
proof -
  define n where "n = chunkSize * length (p_chunks p)"
  note g = p_grow_spec[OF assms(2), of z, folded n_def]
  let ?i = "fst (p_grow z p)" and ?p = "snd (p_grow z p)"
  have bound: "n + 256 \<le> 2 ^ 32"
    using assms(2) by (simp add: n_def)
  have i: "1 \<le> unat ?i" "n \<le> unat ?i" "unat ?i < n + 256"
    using g(1) by auto
  show "?i \<noteq> 0"
    using i(1) by auto
  show notin: "?i \<notin> pool_indexes p"
    using i(2) assms(1) pool_indexes_unat[of p ?i] by (auto simp: pool_inv_def n_def)
  let ?new = "map of_nat (rev [Suc (unat ?i)..<n + 256]) :: u32 list"
  have free: "p_free ?p = p_free p @ ?new"
    using g(3) by simp
  have new_notin: "set ?new \<inter> pool_indexes p = {}"
  proof -
    have "of_nat k \<notin> pool_indexes p" if "Suc (unat ?i) \<le> k" "k < n + 256" for k
    proof -
      have "unat (of_nat k :: u32) = k"
        using that bound by (simp add: unat_of_nat_u32)
      then show ?thesis
        using that i assms(1) pool_indexes_unat[of p "of_nat k"] by (auto simp: pool_inv_def n_def)
    qed
    then show ?thesis by auto
  qed
  have i_new: "?i \<notin> set ?new"
  proof
    assume "?i \<in> set ?new"
    then obtain k where k: "?i = of_nat k" "Suc (unat ?i) \<le> k" "k < n + 256" by auto
    then have "unat ?i = k"
      using bound unat_of_nat_u32[of k] by simp
    with k show False by simp
  qed
  have dist: "distinct ?new"
    using bound by (intro distinct_map_of_nat) auto
  have all: "pool_indexes ?p = pool_indexes p \<union> insert ?i (set ?new)"
  proof -
    have "{1..<n + 256} = {1..<n} \<union> insert (unat ?i) {Suc (unat ?i)..<n + 256}"
      using g(1) by auto
    then have "(of_nat :: nat \<Rightarrow> u32) ` {1..<n + 256} =
        of_nat ` {1..<n} \<union> insert (of_nat (unat ?i)) (of_nat ` {Suc (unat ?i)..<n + 256})"
      by (simp only: image_Un image_insert)
    then show ?thesis
      using g(2) by (simp add: pool_indexes_def n_def algebra_simps)
  qed
  show "pool_inv ?p (insert ?i held)"
    using assms free new_notin notin i_new dist all g(2)
    by (auto simp: pool_inv_def)
qed


section \<open>Acquire and release\<close>

text \<open>Less than all the indexes out is room: then either one is free, or a chunk can be added.\<close>

definition pool_room :: "u32 set \<Rightarrow> nat \<Rightarrow> bool" where
  "pool_room held n \<longleftrightarrow> card held + n < 2 ^ 32"

lemma card_pool_indexes:
  assumes "length (p_chunks p) \<le> 2 ^ 24"
  shows "card (pool_indexes p) = chunkSize * length (p_chunks p) - 1"
proof -
  have "inj_on (of_nat :: nat \<Rightarrow> u32) {1..<chunkSize * length (p_chunks p)}"
    by (rule inj_onI, rule of_nat_u32_inj) (use assms in auto)
  then show ?thesis
    by (simp add: pool_indexes_def card_image)
qed

lemma pool_room_grow:
  assumes "pool_inv p held" and "pool_room held 1" and "p_free p = []"
  shows "length (p_chunks p) < 2 ^ 24"
  using assms card_pool_indexes[of p] by (auto simp: pool_inv_def pool_room_def)

lemma p_take_free_inv:
  assumes "pool_inv p held" and "p_free p \<noteq> []"
  shows "pool_inv (snd (p_take z p)) (insert (fst (p_take z p)) held)"
    and "fst (p_take z p) \<notin> held" and "fst (p_take z p) \<in> pool_indexes p"
proof -
  obtain fs i where fs: "p_free p = fs @ [i]"
    using assms(2) by (metis append_butlast_last_id)
  then show "pool_inv (snd (p_take z p)) (insert (fst (p_take z p)) held)"
    "fst (p_take z p) \<notin> held" "fst (p_take z p) \<in> pool_indexes p"
    using assms(1) by (auto simp: pool_inv_def p_take_def pool_indexes_def)
qed

lemma p_acquire_inv:
  assumes "pool_inv p held" and "pool_room held 1"
  shows "pool_inv (snd (p_acquire z p)) (insert (fst (p_acquire z p)) held)"
    and "fst (p_acquire z p) \<notin> held" and "fst (p_acquire z p) \<noteq> 0"
proof -
  note grow = p_grow_inv[OF assms(1) pool_room_grow[OF assms]]
  note free = p_take_free_inv[OF assms(1)]
  have le: "length (p_chunks p) \<le> 2 ^ 24" and held: "held \<subseteq> pool_indexes p"
    using assms(1) by (auto simp: pool_inv_def)
  show "pool_inv (snd (p_acquire z p)) (insert (fst (p_acquire z p)) held)"
    using grow(1) free(1)[of z] by (cases "p_free p = []") (simp_all add: p_acquire_def p_take_def)
  show "fst (p_acquire z p) \<notin> held"
    using grow(2)[of z] free(2)[of z] held by (cases "p_free p = []") (auto simp: p_acquire_def p_take_def)
  show "fst (p_acquire z p) \<noteq> 0"
    using grow(3)[of z] free(3)[of z] pool_indexes_unat[OF le]
    by (cases "p_free p = []") (auto simp: p_acquire_def p_take_def)
qed

lemma p_release_many_inv:
  assumes "pool_inv p held" and "set is \<subseteq> held" and "distinct is"
  shows "pool_inv (p_release_many p is) (held - set is)"
  using assms by (auto simp: pool_inv_def p_release_many_def pool_indexes_def)

lemma p_release_inv: "pool_inv p held \<Longrightarrow> i \<in> held \<Longrightarrow> pool_inv (p_release p i) (held - {i})"
  using p_release_many_inv[of p held "[i]"] by (simp add: p_release_def p_release_many_def)

text \<open>Growing only appends a chunk, so no slot that exists moves or changes.\<close>

lemma p_take_at:
  "p_at p i \<noteq> None \<Longrightarrow> p_at (snd (p_take z p)) i = p_at p i"
  by (auto simp: p_take_def p_grow_def p_at_def Let_def nth_append split: if_splits)

lemma p_release_at [simp]: "p_at (p_release p i) j = p_at p j" "p_at (p_release_many p is) j = p_at p j"
  by (simp_all add: p_at_def p_release_def p_release_many_def Let_def)

lemma p_at_held:
  assumes "pool_inv p held" and "i \<in> held"
  shows "p_at p i = Some (concat (p_chunks p) ! unat i)"
proof -
  have "chunked chunkSize (p_chunks p)" "unat i < chunkSize * length (p_chunks p)"
    using assms pool_inv_held[OF assms] by (simp_all add: pool_inv_def)
  then show ?thesis
    using concat_nth_chunked[of chunkSize "p_chunks p" "unat i"]
    by (simp add: p_at_def Let_def less_mult_imp_div_less mult.commute)
qed

lemma p_put_inv: "pool_inv p held \<Longrightarrow> pool_inv (p_put p i v) held"
  by (simp add: pool_inv_def p_put_def pool_indexes_def)

lemma p_put_at:
  assumes "pool_inv p held" and "i \<in> held" and "j \<in> held"
  shows "p_at (p_put p i v) j = (if i = j then Some v else p_at p j)"
proof -
  have ch: "chunked chunkSize (p_chunks p)"
    using assms(1) by (simp add: pool_inv_def)
  have i: "unat i < chunkSize * length (p_chunks p)"
    and j: "unat j < chunkSize * length (p_chunks p)"
    using assms pool_inv_held by blast+
  have "concat (p_chunks (p_put p i v)) = (concat (p_chunks p))[unat i := v]"
    using concat_chunk_put[OF ch i] by (simp add: p_put_def)
  then show ?thesis
    using i j length_concat_chunked[OF ch] p_at_held[OF assms(1,3)]
      p_at_held[OF p_put_inv[OF assms(1)] assms(3), of i v]
    by (auto simp: nth_list_update word_unat_eq_iff)
qed

text \<open>The same for any two slots of the pool, free ones included.\<close>

lemma p_free_upd: "p_at (p\<lparr>p_free := fs\<rparr>) i = p_at p i"
  "p_put (p\<lparr>p_free := fs\<rparr>) i v = (p_put p i v)\<lparr>p_free := fs\<rparr>"
  by (simp_all add: p_at_def p_put_def Let_def)

lemma pool_all_out:
  assumes "pool_inv p held"
  shows "pool_inv (p\<lparr>p_free := []\<rparr>) (pool_indexes p)"
  using assms by (simp add: pool_inv_def pool_indexes_def)

lemma p_put_at_any:
  assumes "pool_inv p held" and "i \<in> pool_indexes p" and "j \<in> pool_indexes p"
  shows "p_at (p_put p i v) j = (if i = j then Some v else p_at p j)"
  using p_put_at[OF pool_all_out[OF assms(1)] assms(2,3), of v] by (simp add: p_free_upd)

lemma p_acquire_chunks: "length (p_chunks (snd (p_acquire z p))) \<le> Suc (length (p_chunks p))"
  by (simp add: p_acquire_def p_take_def p_grow_def Let_def)

lemma p_put_chunks [simp]: "length (p_chunks (p_put p i v)) = length (p_chunks p)"
  by (simp add: p_put_def)

lemma p_release_chunks [simp]: "p_chunks (p_release p i) = p_chunks p"
  by (simp add: p_release_def)

lemma pool_indexes_put [simp]: "pool_indexes (p_put p i v) = pool_indexes p"
  by (simp add: pool_indexes_def)

lemma pool_indexes_release [simp]: "pool_indexes (p_release p i) = pool_indexes p"
  by (simp add: pool_indexes_def)

lemma pool_indexes_acquire: "pool_indexes p \<subseteq> pool_indexes (snd (p_acquire z p))"
  by (auto simp: pool_indexes_def p_acquire_def p_take_def p_grow_def Let_def)

lemma p_acquire_at_any:
  assumes "pool_inv p held" and "i \<in> pool_indexes p"
  shows "p_at (snd (p_acquire z p)) i = p_at p i"
  using p_at_held[OF pool_all_out[OF assms(1)] assms(2)]
  by (simp add: p_free_upd p_acquire_def p_take_at)

text \<open>With chunks to spare there is room, whatever is out.\<close>

lemma chunks_room:
  assumes "pool_inv p held" and "length (p_chunks p) < 2 ^ 24"
  shows "pool_room held 1"
proof -
  have "held \<subseteq> pool_indexes p"
    using assms(1) by (auto simp: pool_inv_def)
  then have "card held \<le> chunkSize * length (p_chunks p) - 1"
    using card_mono[of "pool_indexes p" held] card_pool_indexes[of p] assms(2) by (simp add: pool_indexes_def)
  then show ?thesis
    using assms(2) by (simp add: pool_room_def)
qed

lemma p_acquire_many_inv:
  assumes "pool_inv p held" and "pool_room held n"
  shows "\<exists>is. fst (p_acquire_many z p into n) = into @ is \<and> length is = n \<and> distinct is
    \<and> p_none \<notin> set is \<and> set is \<inter> held = {} \<and> pool_inv (snd (p_acquire_many z p into n)) (held \<union> set is)"
  using assms
proof (induction n arbitrary: p held into)
  case 0
  then show ?case by (simp add: pool_inv_def)
next
  case (Suc n)
  obtain i p' where t: "p_acquire z p = (i, p')" by fastforce
  have room: "pool_room held 1"
    using Suc.prems(2) by (simp add: pool_room_def)
  note acq = p_acquire_inv[OF Suc.prems(1) room, of z, unfolded t fst_conv snd_conv]
  have "finite held"
    by simp
  then have "pool_room (insert i held) n"
    using Suc.prems(2) acq(2) by (simp add: pool_room_def)
  from Suc.IH[OF acq(1) this, of "into @ [i]"] obtain js where
    js: "fst (p_acquire_many z p' (into @ [i]) n) = (into @ [i]) @ js" "length js = n" "distinct js"
      "p_none \<notin> set js" "set js \<inter> insert i held = {}"
      "pool_inv (snd (p_acquire_many z p' (into @ [i]) n)) (insert i held \<union> set js)"
    by blast
  then show ?case
    using t acq(2,3) by (intro exI[of _ "i # js"]) (auto simp: p_acquire_def p_none_def)
qed

lemma p_acquire_many_at:
  "p_at p i \<noteq> None \<Longrightarrow> p_at (snd (p_acquire_many z p into n)) i = p_at p i"
  by (induction z p into n rule: p_acquire_many.induct)
    (auto simp: p_take_at case_prod_beta)

text \<open>\<open>NewPool\<close> answers a pool none of whose indexes is out, with at least \<open>capacity\<close> free.\<close>

lemma p_fill_inv:
  assumes "pool_inv p {}" and "capacity < 2 ^ 32"
  shows "pool_inv (p_fill z capacity p) {} \<and> capacity \<le> length (p_free (p_fill z capacity p))"
  using assms
proof (induction z capacity p rule: p_fill.induct)
  case (1 z capacity p)
  show ?case
  proof (cases "p_capacity p < capacity")
    case True
    then have lt: "length (p_chunks p) < 2 ^ 24"
      using "1.prems" by (auto simp: p_capacity_def split: if_splits)
    obtain i p' where g: "p_grow z p = (i, p')" by fastforce
    have "pool_inv p' {i}" 
      using p_grow_inv(1)[OF "1.prems"(1) lt, of z] g by simp
    then have "pool_inv (p'\<lparr>p_free := p_free p' @ [i]\<rparr>) {}"
      using p_release_inv[of p' "{i}" i] by (simp add: p_release_def)
    then show ?thesis
      using "1.IH"[OF True g[symmetric]] "1.prems"(2) True g by (simp add: p_fill.simps[of z capacity p])
  next
    case False
    have "length (p_free p) = card (pool_indexes p)"
      using "1.prems"(1) by (auto simp: pool_inv_def dest: distinct_card)
    then have "p_capacity p \<le> length (p_free p)"
      using "1.prems"(1) card_pool_indexes[of p] by (simp add: pool_inv_def p_capacity_def mult.commute)
    then show ?thesis
      using False "1.prems"(1) by (simp add: p_fill.simps[of z capacity p])
  qed
qed

section \<open>The contract\<close>

text \<open>
  A slot pool over the set of indexes that are out: what the job pool and the frame pool rely
  on.  The client's lemma: an index taken after another was given back still never aliases one
  that is out, and the slots that are out keep their contents.
\<close>

locale slot_pool =
  fixes inv :: "'p \<Rightarrow> 'i set \<Rightarrow> bool"
    and room :: "'i set \<Rightarrow> bool"
    and none :: 'i
    and acquire :: "'p \<Rightarrow> 'i \<times> 'p"
    and release :: "'p \<Rightarrow> 'i \<Rightarrow> 'p"
    and at :: "'p \<Rightarrow> 'i \<Rightarrow> 'a option"
    and put :: "'p \<Rightarrow> 'i \<Rightarrow> 'a \<Rightarrow> 'p"
  assumes acquire_inv: "inv p held \<Longrightarrow> room held \<Longrightarrow> inv (snd (acquire p)) (insert (fst (acquire p)) held)"
    and acquire_fresh: "inv p held \<Longrightarrow> room held \<Longrightarrow> fst (acquire p) \<notin> held \<and> fst (acquire p) \<noteq> none"
    and acquire_at: "inv p held \<Longrightarrow> i \<in> held \<Longrightarrow> at (snd (acquire p)) i = at p i"
    and release_inv: "inv p held \<Longrightarrow> i \<in> held \<Longrightarrow> inv (release p i) (held - {i})"
    and release_at: "inv p held \<Longrightarrow> at (release p i) j = at p j"
    and put_inv: "inv p held \<Longrightarrow> inv (put p i v) held"
    and put_at: "inv p held \<Longrightarrow> i \<in> held \<Longrightarrow> j \<in> held \<Longrightarrow>
      at (put p i v) j = (if i = j then Some v else at p j)"
begin

lemma stored_survives_acquire:
  assumes "inv p held" and "room held" and "i \<in> held"
  shows "at (put (snd (acquire p)) (fst (acquire p)) v) i = at p i"
  using assms put_at[OF acquire_inv[OF assms(1,2)], of "fst (acquire p)" i v]
    acquire_fresh[OF assms(1,2)] acquire_at[OF assms(1,3)] by auto

lemma release_then_acquire:
  assumes "inv p held" and "i \<in> held" and "room (held - {i})"
  defines "q \<equiv> acquire (release p i)"
  shows "inv (snd q) (insert (fst q) (held - {i}))" and "fst q \<notin> held - {i}"
    and "\<And>j. j \<in> held - {i} \<Longrightarrow> at (snd q) j = at p j"
  using assms(1,2,3) acquire_inv[OF release_inv[OF assms(1,2)]]
    acquire_fresh[OF release_inv[OF assms(1,2)]] acquire_at[OF release_inv[OF assms(1,2)]]
    release_at[OF assms(1)]
  by (auto simp: q_def)

end

interpretation pool: slot_pool pool_inv "\<lambda>held. pool_room held 1" p_none "p_acquire z" p_release p_at p_put
  for z
proof
  fix p :: "'a pool" and held i
  assume "pool_inv p held" "i \<in> held"
  then show "p_at (snd (p_acquire z p)) i = p_at p i"
    using p_at_held[of p held i] p_take_at[of p i z] by (simp add: p_acquire_def)
qed (auto simp: p_none_def p_acquire_inv p_release_inv p_put_inv p_put_at)

text \<open>
  a batch taken from the pool.  While fewer than all \<open>2 ^ 32\<close> indexes are out,
  \<open>AcquireMany\<close> appends exactly \<open>n\<close> indexes, none of them \<open>None\<close>, none of them twice and none
  of them already out, and afterwards exactly those and the earlier ones are out; every slot
  that was out keeps what it held, and giving the batch back puts the pool back to where only
  the earlier indexes are out.
\<close>

theorem acquire_many_fresh:
  assumes "pool_inv p held" and "pool_room held n"
  shows "\<exists>is p'. p_acquire_many z p into n = (into @ is, p') \<and> length is = n \<and> distinct is
    \<and> p_none \<notin> set is \<and> set is \<inter> held = {} \<and> pool_inv p' (held \<union> set is)
    \<and> (\<forall>i \<in> held. p_at p' i = p_at p i) \<and> pool_inv (p_release_many p' is) held"
proof -
  obtain js where js: "fst (p_acquire_many z p into n) = into @ js" "length js = n" "distinct js"
    "p_none \<notin> set js" "set js \<inter> held = {}"
    "pool_inv (snd (p_acquire_many z p into n)) (held \<union> set js)"
    using p_acquire_many_inv[OF assms] by blast
  moreover have "held \<union> set js - set js = held"
    using js(5) by auto
  ultimately have "pool_inv (p_release_many (snd (p_acquire_many z p into n)) js) held"
    using p_release_many_inv[OF js(6), of "js"] by simp
  then show ?thesis
    using js p_at_held[OF assms(1)] p_acquire_many_at[of p _ z into n]
    by (intro exI[of _ "js"] exI[of _ "snd (p_acquire_many z p into n)"]) (auto simp: prod_eq_iff)
qed

theorem acquire_many_fresh_witness:
  "pool_inv (empty_pool :: nat pool) {} \<and> pool_room {} 300 \<and>
   (\<exists>is p'. p_acquire_many 0 (empty_pool :: nat pool) [] 300 = (is, p') \<and> length is = 300
      \<and> distinct is \<and> p_none \<notin> set is \<and> pool_inv p' (set is))"
  using acquire_many_fresh[OF pool_inv_empty, of 300 "0::nat" "[]"] pool_inv_empty
  by (auto simp: pool_room_def)

end
