(* ===== verification/Cog_Queue.thy ===== *)
theory Cog_Queue
  imports Cog_Prelude
begin

text \<open>
  \<open>kernel/container/queue.go\<close>: \<open>Queue\<close>, a closable FIFO in a ring that only grows.  Every
  method runs under the queue's mutex, so each is one step of the state.  \<open>z\<close> is Go's zero
  value of the item type, which a taken slot is cleared to.  \<open>q_items\<close> reads the ring as the
  list of what is queued, oldest first; the locale \<open>closable_fifo\<close> is the contract the lock
  combiner, the runner and the supervisor rely on.
\<close>

record 'a queue =
  q_ring :: "'a list"
  q_head :: nat
  q_length :: nat
  q_closed :: bool

definition empty_queue :: "'a queue" where
  "empty_queue = \<lparr>q_ring = [], q_head = 0, q_length = 0, q_closed = False\<rparr>"

section \<open>Operations\<close>

text \<open>\<open>take\<close>: everything queued onto \<open>into\<close>, clearing the slots it took.\<close>

definition q_take :: "'a \<Rightarrow> 'a queue \<Rightarrow> 'a list \<Rightarrow> 'a list \<times> 'a queue" where
  "q_take z q into =
     (if q_length q = 0 then (into, q)
      else let ring = q_ring q; n = length ring; e = q_head q + q_length q
        in if e \<le> n
           then (into @ slice ring (q_head q) e,
                 q\<lparr>q_ring := clear_range z ring (q_head q) e, q_head := 0, q_length := 0\<rparr>)
           else (into @ slice ring (q_head q) n @ slice ring 0 (e - n),
                 q\<lparr>q_ring := clear_range z (clear_range z ring (q_head q) n) 0 (e - n),
                   q_head := 0, q_length := 0\<rparr>))"

text \<open>\<open>grow\<close>: the ring doubled, from 16, and unwrapped so the oldest is first.\<close>

definition q_grow :: "'a \<Rightarrow> 'a queue \<Rightarrow> 'a queue" where
  "q_grow z q =
     (let (ring, q') = q_take z q []; n = max (2 * length (q_ring q)) 16
      in q'\<lparr>q_ring := ring @ replicate (n - length ring) z, q_head := 0, q_length := q_length q\<rparr>)"

definition q_push :: "'a \<Rightarrow> 'a queue \<Rightarrow> 'a \<Rightarrow> bool \<times> 'a queue" where
  "q_push z q item =
     (if q_closed q then (False, q)
      else let q1 = (if q_length q = length (q_ring q) then q_grow z q else q)
        in (True, q1\<lparr>q_ring := (q_ring q1)[(q_head q1 + q_length q1) mod length (q_ring q1) := item],
                     q_length := Suc (q_length q1)\<rparr>))"

definition q_pop :: "'a \<Rightarrow> 'a queue \<Rightarrow> 'a option \<times> 'a queue" where
  "q_pop z q =
     (if q_length q = 0 then (None, q)
      else (Some (q_ring q ! q_head q),
            q\<lparr>q_ring := (q_ring q)[q_head q := z],
              q_head := (q_head q + 1) mod length (q_ring q),
              q_length := q_length q - 1\<rparr>))"

definition q_drain :: "'a \<Rightarrow> 'a queue \<Rightarrow> 'a list \<Rightarrow> 'a list \<times> 'a queue" where
  "q_drain z q into = q_take z q into"

definition q_close :: "'a \<Rightarrow> 'a queue \<Rightarrow> 'a list \<Rightarrow> 'a list \<times> 'a queue" where
  "q_close z q into = q_take z (q\<lparr>q_closed := True\<rparr>) into"

definition q_len :: "'a queue \<Rightarrow> nat" where
  "q_len q = q_length q"

definition q_is_closed :: "'a queue \<Rightarrow> bool" where
  "q_is_closed q = q_closed q"

definition q_reset :: "'a queue \<Rightarrow> 'a queue" where
  "q_reset q = q\<lparr>q_head := 0, q_length := 0, q_closed := False\<rparr>"

section \<open>What is queued, as a list\<close>

definition q_items :: "'a queue \<Rightarrow> 'a list" where
  "q_items q = map (\<lambda>i. q_ring q ! ((q_head q + i) mod length (q_ring q))) [0..<q_length q]"

definition q_wf :: "'a queue \<Rightarrow> bool" where
  "q_wf q \<longleftrightarrow> q_length q \<le> length (q_ring q) \<and> (q_head q < length (q_ring q) \<or> q_head q = 0)"

lemma q_wf_empty [simp]: "q_wf empty_queue" and q_items_empty [simp]: "q_items empty_queue = []"
  by (simp_all add: q_wf_def q_items_def empty_queue_def)

lemma length_q_items [simp]: "length (q_items q) = q_length q"
  by (simp add: q_items_def)

lemma q_items_split:
  assumes "q_wf q" and "q_length q \<noteq> 0"
  shows "q_items q =
    (if q_head q + q_length q \<le> length (q_ring q)
     then slice (q_ring q) (q_head q) (q_head q + q_length q)
     else slice (q_ring q) (q_head q) (length (q_ring q))
       @ slice (q_ring q) 0 (q_head q + q_length q - length (q_ring q)))"
proof (rule nth_equalityI)
  fix i
  assume "i < length (q_items q)"
  then have i: "i < q_length q" by simp
  have wrap: "(q_head q + i) mod length (q_ring q) = q_head q + i - length (q_ring q)"
    if "\<not> q_head q + i < length (q_ring q)"
    using that assms i by (auto simp: q_wf_def le_mod_geq)
  show "q_items q ! i = (if q_head q + q_length q \<le> length (q_ring q)
     then slice (q_ring q) (q_head q) (q_head q + q_length q)
     else slice (q_ring q) (q_head q) (length (q_ring q))
       @ slice (q_ring q) 0 (q_head q + q_length q - length (q_ring q))) ! i"
    using i assms wrap
    by (auto simp: q_items_def slice_map_nth nth_append q_wf_def add.commute)
qed (use assms in \<open>auto simp: slice_def q_wf_def\<close>)

lemma q_take_spec:
  assumes "q_wf q"
  shows "fst (q_take z q into) = into @ q_items q"
    and "q_wf (snd (q_take z q into))" and "q_items (snd (q_take z q into)) = []"
    and "q_closed (snd (q_take z q into)) = q_closed q"
    and "length (q_ring (snd (q_take z q into))) = length (q_ring q)"
proof -
  have "fst (q_take z q into) = into @ q_items q \<and> q_wf (snd (q_take z q into))
    \<and> q_items (snd (q_take z q into)) = [] \<and> q_closed (snd (q_take z q into)) = q_closed q
    \<and> length (q_ring (snd (q_take z q into))) = length (q_ring q)"
  proof (cases "q_length q = 0")
    case True
    then show ?thesis
      using assms by (simp add: q_take_def q_items_def)
  next
    case False
    then show ?thesis
      using assms by (auto simp: q_take_def q_items_split Let_def q_wf_def) (simp_all add: q_items_def)
  qed
  then show "fst (q_take z q into) = into @ q_items q"
    "q_wf (snd (q_take z q into))" "q_items (snd (q_take z q into)) = []"
    "q_closed (snd (q_take z q into)) = q_closed q"
    "length (q_ring (snd (q_take z q into))) = length (q_ring q)"
    by simp_all
qed

lemma q_grow_spec:
  assumes "q_wf q"
  shows "q_wf (q_grow z q)" and "q_items (q_grow z q) = q_items q"
    and "q_closed (q_grow z q) = q_closed q" and "q_length (q_grow z q) = q_length q"
    and "q_length q < length (q_ring (q_grow z q))"
proof -
  have ring: "q_grow z q = (snd (q_take z q []))\<lparr>q_ring := q_items q
      @ replicate (max (2 * length (q_ring q)) 16 - q_length q) z, q_head := 0, q_length := q_length q\<rparr>"
    using q_take_spec(1)[OF assms, of z "[]"] by (simp add: q_grow_def case_prod_beta Let_def)
  have len: "q_length q \<le> length (q_ring q)"
    using assms by (simp add: q_wf_def)
  then show "q_wf (q_grow z q)" "q_closed (q_grow z q) = q_closed q" "q_length (q_grow z q) = q_length q"
    "q_length q < length (q_ring (q_grow z q))"
    by (auto simp: ring q_wf_def q_take_spec(4)[OF assms])
  show "q_items (q_grow z q) = q_items q"
  proof (rule nth_equalityI)
    show "length (q_items (q_grow z q)) = length (q_items q)"
      by (simp add: ring)
    fix i
    assume "i < length (q_items (q_grow z q))"
    then have i: "i < q_length q" by (simp add: ring)
    then have "i mod (q_length q + (max (2 * length (q_ring q)) 16 - q_length q)) = i"
      by simp
    then show "q_items (q_grow z q) ! i = q_items q ! i"
      using i by (simp add: ring q_items_def[of "_\<lparr>q_length := _\<rparr>"] nth_append)
  qed
qed

text \<open>Writing at the tail of a ring with room adds one item, and moves no other.\<close>

lemma q_items_push_room:
  assumes "q_wf q" and "q_length q < length (q_ring q)"
  shows "q_items (q\<lparr>q_ring := (q_ring q)[(q_head q + q_length q) mod length (q_ring q) := x],
      q_length := Suc (q_length q)\<rparr>) = q_items q @ [x]" (is "q_items ?q = _")
proof (rule nth_equalityI)
  fix i
  assume "i < length (q_items ?q)"
  then have i: "i < Suc (q_length q)" by simp
  let ?n = "length (q_ring q)"
  have head: "q_head q < ?n"
    using assms by (auto simp: q_wf_def)
  have slot: "(q_head q + i) mod ?n = (q_head q + q_length q) mod ?n \<longleftrightarrow> i = q_length q"
  proof
    assume eq: "(q_head q + i) mod ?n = (q_head q + q_length q) mod ?n"
    have "(if q_head q + i < ?n then q_head q + i else q_head q + i - ?n) = (q_head q + i) mod ?n"
      "(if q_head q + q_length q < ?n then q_head q + q_length q else q_head q + q_length q - ?n)
        = (q_head q + q_length q) mod ?n"
      using head i assms(2) by (auto simp: le_mod_geq)
    then show "i = q_length q"
      using eq i assms(2) by (auto split: if_splits)
  qed simp
  have "(q_head q + q_length q) mod ?n < ?n"
    using head by (intro mod_less_divisor) linarith
  then show "q_items ?q ! i = (q_items q @ [x]) ! i"
    using i slot head
    by (auto simp: q_items_def nth_append nth_list_update less_Suc_eq simp del: upt_Suc)
qed simp

lemma q_push_spec:
  assumes "q_wf q"
  shows "fst (q_push z q x) \<longleftrightarrow> \<not> q_closed q" and "q_wf (snd (q_push z q x))"
    and "q_items (snd (q_push z q x)) = (if q_closed q then q_items q else q_items q @ [x])"
    and "q_closed (snd (q_push z q x)) = q_closed q"
proof -
  define q1 where "q1 = (if q_length q = length (q_ring q) then q_grow z q else q)"
  have q1: "q_wf q1" "q_items q1 = q_items q" "q_closed q1 = q_closed q" "q_length q1 < length (q_ring q1)"
    using assms q_grow_spec[OF assms, of z] by (auto simp: q1_def q_wf_def)
  have push: "q_push z q x = (if q_closed q then (False, q) else
      (True, q1\<lparr>q_ring := (q_ring q1)[(q_head q1 + q_length q1) mod length (q_ring q1) := x],
                 q_length := Suc (q_length q1)\<rparr>))"
    by (simp add: q_push_def Let_def q1_def)
  show "fst (q_push z q x) \<longleftrightarrow> \<not> q_closed q" "q_closed (snd (q_push z q x)) = q_closed q"
    using q1 by (simp_all add: push)
  show "q_wf (snd (q_push z q x))"
    using assms q1 by (auto simp: push q_wf_def)
  show "q_items (snd (q_push z q x)) = (if q_closed q then q_items q else q_items q @ [x])"
    using q_items_push_room[OF q1(1,4), of x] q1(2) by (simp add: push)
qed

lemma q_pop_spec:
  assumes "q_wf q"
  shows "fst (q_pop z q) = (case q_items q of [] \<Rightarrow> None | x # _ \<Rightarrow> Some x)"
    and "q_wf (snd (q_pop z q))" and "q_items (snd (q_pop z q)) = tl (q_items q)"
    and "q_closed (snd (q_pop z q)) = q_closed q"
proof -
  let ?n = "length (q_ring q)"
  show "q_closed (snd (q_pop z q)) = q_closed q" "q_wf (snd (q_pop z q))"
    using assms by (auto simp: q_pop_def q_wf_def intro!: mod_less_divisor)
  show "fst (q_pop z q) = (case q_items q of [] \<Rightarrow> None | x # _ \<Rightarrow> Some x)"
    using assms by (cases "q_length q") (auto simp: q_pop_def q_items_def q_wf_def upt_conv_Cons simp del: upt_Suc)
  show "q_items (snd (q_pop z q)) = tl (q_items q)"
  proof (rule nth_equalityI)
    show "length (q_items (snd (q_pop z q))) = length (tl (q_items q))"
      by (simp add: q_pop_def)
    fix i
    assume "i < length (q_items (snd (q_pop z q)))"
    then have i: "Suc i < q_length q" "q_length q \<noteq> 0"
      by (auto simp: q_pop_def split: if_splits)
    then have n: "q_length q \<le> ?n" "q_head q < ?n"
      using assms by (auto simp: q_wf_def)
    have step: "(Suc (q_head q) mod ?n + i) mod ?n = (q_head q + Suc i) mod ?n"
      by (simp add: mod_add_left_eq)
    have "(q_head q + Suc i) mod ?n \<noteq> q_head q"
    proof
      assume eq: "(q_head q + Suc i) mod ?n = q_head q"
      have "(q_head q + Suc i) mod ?n =
          (if q_head q + Suc i < ?n then q_head q + Suc i else q_head q + Suc i - ?n)"
        using i n by (auto simp: le_mod_geq)
      then show False
        using eq i n by (auto split: if_splits)
    qed
    then show "q_items (snd (q_pop z q)) ! i = tl (q_items q) ! i"
      using i step by (simp add: q_pop_def q_items_def nth_tl)
  qed
qed

section \<open>The contract\<close>

text \<open>
  A closable FIFO over its list of items.  The lemmas below are the clients': a sequence of
  pushes is queued behind what is there, and a queue once closed stays empty.
\<close>

locale closable_fifo =
  fixes wf :: "'q \<Rightarrow> bool"
    and items :: "'q \<Rightarrow> 'a list"
    and closed :: "'q \<Rightarrow> bool"
    and push :: "'q \<Rightarrow> 'a \<Rightarrow> bool \<times> 'q"
    and pop :: "'q \<Rightarrow> 'a option \<times> 'q"
    and drain :: "'q \<Rightarrow> 'a list \<Rightarrow> 'a list \<times> 'q"
    and close :: "'q \<Rightarrow> 'a list \<Rightarrow> 'a list \<times> 'q"
  assumes push_wf: "wf q \<Longrightarrow> wf (snd (push q x))"
    and push_items: "wf q \<Longrightarrow> items (snd (push q x)) = (if closed q then items q else items q @ [x])"
    and push_answer: "wf q \<Longrightarrow> fst (push q x) \<longleftrightarrow> \<not> closed q"
    and push_closed: "wf q \<Longrightarrow> closed (snd (push q x)) = closed q"
    and pop_wf: "wf q \<Longrightarrow> wf (snd (pop q))"
    and pop_answer: "wf q \<Longrightarrow> fst (pop q) = (case items q of [] \<Rightarrow> None | x # _ \<Rightarrow> Some x)"
    and pop_items: "wf q \<Longrightarrow> items (snd (pop q)) = tl (items q)"
    and pop_closed: "wf q \<Longrightarrow> closed (snd (pop q)) = closed q"
    and drain_answer: "wf q \<Longrightarrow> fst (drain q into) = into @ items q"
    and drain_wf: "wf q \<Longrightarrow> wf (snd (drain q into))"
    and drain_items: "wf q \<Longrightarrow> items (snd (drain q into)) = []"
    and drain_closed: "wf q \<Longrightarrow> closed (snd (drain q into)) = closed q"
    and close_answer: "wf q \<Longrightarrow> fst (close q into) = into @ items q"
    and close_wf: "wf q \<Longrightarrow> wf (snd (close q into))"
    and close_items: "wf q \<Longrightarrow> items (snd (close q into)) = []"
    and close_closed: "wf q \<Longrightarrow> closed (snd (close q into))"
begin

lemma pushes_wf: "wf q \<Longrightarrow> wf (foldl (\<lambda>q x. snd (push q x)) q xs)"
  by (induction xs arbitrary: q) (auto intro: push_wf)

lemma pushes_items:
  "wf q \<Longrightarrow> items (foldl (\<lambda>q x. snd (push q x)) q xs) = (if closed q then items q else items q @ xs)"
  by (induction xs arbitrary: q) (auto simp: push_wf push_items push_closed)

lemma pop_after_pushes:
  assumes "wf q" and "\<not> closed q" and "items q = []"
  shows "fst (pop (foldl (\<lambda>q x. snd (push q x)) q (x # xs))) = Some x"
  using assms(2,3) pop_answer[OF pushes_wf[OF assms(1)], of "x # xs"] pushes_items[OF assms(1), of "x # xs"]
  by (simp only: append_Nil list.case if_False)

lemma closed_stays_empty:
  assumes "wf q"
  shows "items (foldl (\<lambda>q x. snd (push q x)) (snd (close q into)) xs) = []"
  using pushes_items[OF close_wf[OF assms]] close_closed[OF assms] close_items[OF assms] by simp

end

interpretation fifo: closable_fifo q_wf q_items q_closed "q_push z" "q_pop z" "q_drain z" "q_close z" for z
proof -
  have wf_closed: "q_wf (q\<lparr>q_closed := True\<rparr>) = q_wf q" "q_items (q\<lparr>q_closed := True\<rparr>) = q_items q"
    for q :: "'a queue"
    by (simp_all add: q_wf_def q_items_def)
  show "closable_fifo q_wf q_items q_closed (q_push z) (q_pop z) (q_drain z) (q_close z)"
    by unfold_locales
      (simp_all add: q_push_spec q_pop_spec q_take_spec q_drain_def q_close_def wf_closed)
qed


section \<open>Refinement\<close>

text \<open>
  A client's calls and what each answers, and the abstract queue: a list and a closed flag.
\<close>

datatype 'a q_op = QPush 'a | QPop | QDrain | QClose | QLen | QIsClosed | QReset

datatype 'a q_out = OPushed bool | OPopped "'a option" | ODrained "'a list" | OLen nat | OClosed bool | ODone

fun q_step :: "'a \<Rightarrow> 'a queue \<Rightarrow> 'a q_op \<Rightarrow> 'a q_out \<times> 'a queue" where
  "q_step z q (QPush x) = map_prod OPushed id (q_push z q x)"
| "q_step z q QPop = map_prod OPopped id (q_pop z q)"
| "q_step z q QDrain = map_prod ODrained id (q_drain z q [])"
| "q_step z q QClose = map_prod ODrained id (q_close z q [])"
| "q_step z q QLen = (OLen (q_len q), q)"
| "q_step z q QIsClosed = (OClosed (q_is_closed q), q)"
| "q_step z q QReset = (ODone, q_reset q)"

fun fifo_step :: "'a list \<times> bool \<Rightarrow> 'a q_op \<Rightarrow> 'a q_out \<times> 'a list \<times> bool" where
  "fifo_step (xs, closed) (QPush x) = (OPushed (\<not> closed), if closed then xs else xs @ [x], closed)"
| "fifo_step (xs, closed) QPop = (OPopped (case xs of [] \<Rightarrow> None | x # _ \<Rightarrow> Some x), tl xs, closed)"
| "fifo_step (xs, closed) QDrain = (ODrained xs, [], closed)"
| "fifo_step (xs, closed) QClose = (ODrained xs, [], True)"
| "fifo_step (xs, closed) QLen = (OLen (length xs), xs, closed)"
| "fifo_step (xs, closed) QIsClosed = (OClosed closed, xs, closed)"
| "fifo_step (xs, closed) QReset = (ODone, [], False)"

fun run_ops :: "('s \<Rightarrow> 'c \<Rightarrow> 'r \<times> 's) \<Rightarrow> 's \<Rightarrow> 'c list \<Rightarrow> 'r list" where
  "run_ops step s [] = []"
| "run_ops step s (c # cs) = (case step s c of (r, s') \<Rightarrow> r # run_ops step s' cs)"

lemma q_reset_spec [simp]: "q_wf (q_reset q)" "q_items (q_reset q) = []" "q_closed (q_reset q) = False"
  by (simp_all add: q_reset_def q_wf_def q_items_def)

lemma q_step_simulates:
  assumes "q_wf q"
  shows "fst (q_step z q c) = fst (fifo_step (q_items q, q_closed q) c)"
    and "q_wf (snd (q_step z q c))"
    and "(q_items (snd (q_step z q c)), q_closed (snd (q_step z q c)))
      = snd (fifo_step (q_items q, q_closed q) c)"
  using assms
  by (cases c; simp add: q_push_spec q_pop_spec fifo.drain_answer fifo.drain_wf fifo.drain_items
      fifo.drain_closed fifo.close_answer fifo.close_wf fifo.close_items fifo.close_closed
      q_len_def q_is_closed_def)+

lemma q_runs_simulate:
  "q_wf q \<Longrightarrow> run_ops (q_step z) q cs = run_ops fifo_step (q_items q, q_closed q) cs"
proof (induction cs arbitrary: q)
  case Nil
  then show ?case by simp
next
  case (Cons c cs)
  then show ?case
    using q_step_simulates[OF Cons.prems, of z c] Cons.IH[of "snd (q_step z q c)"]
    by (simp add: case_prod_beta)
qed

text \<open>
  C40: the ring refines a list.  From the empty queue, every sequence of pushes, pops, drains,
  closes, length and closed queries and resets gets from the wrapping, growing ring exactly the
  answers a plain list with a closed flag gives.
\<close>

theorem queue_refines_list:
  "run_ops (q_step z) empty_queue cs = run_ops fifo_step ([], False) cs"
  using q_runs_simulate[OF q_wf_empty] by (simp add: empty_queue_def q_items_def)

end
