(* ===== verification/Kernel_Locks.thy ===== *)
theory Kernel_Locks
  imports Cog_Prelude "HOL-Library.Multiset"
begin

text \<open>
  \<open>kernel/lockstate.go\<close> and \<open>taskLocks\<close> of \<open>kernel/task.go\<close>: which resources are locked, one
  bit per resource in words of 64.  \<open>mask_set\<close> reads a mask as the set of its resources;
  \<open>lock_inv n s held\<close> relates a lock state over \<open>n\<close> resources to the list of lock sets held.
  Reader counts are 32-bit, so the number of holders is bounded by \<open>2 ^ 32\<close>, which the 32-bit
  slots of the job pool give.
\<close>

section \<open>Masks\<close>

definition mask_set :: "u64 list \<Rightarrow> nat set" where
  "mask_set ws = {r. r div 64 < length ws \<and> bit (ws ! (r div 64)) (r mod 64)}"

definition word_set :: "nat \<Rightarrow> u64 \<Rightarrow> nat set" where
  "word_set i w = {r. r div 64 = i \<and> bit w (r mod 64)}"

lemma mask_set_Nil [simp]: "mask_set [] = {}"
  by (simp add: mask_set_def)

lemma mask_set_replicate [simp]: "mask_set (replicate n 0) = {}"
  by (auto simp: mask_set_def)

lemma mask_set_less: "r \<in> mask_set ws \<Longrightarrow> r div 64 < length ws"
  by (simp add: mask_set_def)

lemma mask_set_words: "mask_set ws = (\<Union>i < length ws. word_set i (ws ! i))"
  by (auto simp: mask_set_def word_set_def)

lemma mask_set_or:
  "i < length ws \<Longrightarrow> mask_set (ws[i := ws ! i OR w]) = mask_set ws \<union> word_set i w"
  by (auto simp: mask_set_def word_set_def nth_list_update bit_or_iff)

lemma mask_set_andnot:
  "i < length ws \<Longrightarrow> mask_set (ws[i := ws ! i AND NOT w]) = mask_set ws - word_set i w"
  by (auto simp: mask_set_def word_set_def nth_list_update bit_and_iff bit_not_iff)

lemma div_mod_less_64: "(r::nat) mod 64 < 64"
  by simp

lemma resource_eq: "b < 64 \<Longrightarrow> r = i * 64 + b \<longleftrightarrow> r div 64 = i \<and> r mod 64 = b" for r :: nat
  by auto

lemma word_set_single: "b < 64 \<Longrightarrow> word_set i (push_bit b 1) = {i * 64 + b}"
  by (auto simp: word_set_def bit_exp_iff resource_eq)

lemma mask_set_inject:
  assumes "mask_set xs = mask_set ys" and "length xs = length ys"
  shows "xs = ys"
proof (rule nth_equalityI)
  fix i
  assume i: "i < length xs"
  show "xs ! i = ys ! i"
  proof (rule bit_word_eqI)
    fix b
    assume b: "b < LENGTH(64)"
    have "i * 64 + b \<in> mask_set xs \<longleftrightarrow> i * 64 + b \<in> mask_set ys"
      using assms(1) by simp
    then show "bit (xs ! i) b \<longleftrightarrow> bit (ys ! i) b"
      using i b assms(2) by (simp add: mask_set_def)
  qed
qed (rule assms(2))

lemma word_eq_0_iff: "w = 0 \<longleftrightarrow> (\<forall>b < 64. \<not> bit w b)" for w :: u64
  using bit_word_eqI[of w 0] by auto

section \<open>Lock sets and the lock state\<close>

record task_locks =
  tl_reads :: "u64 list"
  tl_writes :: "u64 list"
  tl_pinned :: bool

definition locksNothing :: "task_locks \<Rightarrow> bool" where
  "locksNothing l \<longleftrightarrow> length (tl_writes l) = 0"

record lock_state =
  ls_writeHeld :: "u64 list"
  ls_readHeld :: "u64 list"
  ls_readers :: "u32 list"
  ls_reserved :: "u64 list"

definition makeLockState :: "nat \<Rightarrow> lock_state" where
  "makeLockState resources =
     (let words = (resources + 63) div 64
      in \<lparr>ls_writeHeld = replicate words 0, ls_readHeld = replicate words 0,
          ls_readers = replicate resources 0, ls_reserved = replicate words 0\<rparr>)"

definition conflict_word :: "lock_state \<Rightarrow> task_locks \<Rightarrow> nat \<Rightarrow> u64 \<Rightarrow> u64" where
  "conflict_word s l i conflict =
     (conflict OR ((ls_writeHeld s ! i OR ls_reserved s ! i) AND (tl_reads l ! i OR tl_writes l ! i)))
       OR (ls_readHeld s ! i AND tl_writes l ! i)"

definition canLock :: "lock_state \<Rightarrow> task_locks \<Rightarrow> bool" where
  "canLock s l \<longleftrightarrow> fold (conflict_word s l) [0..<length (tl_writes l)] 0 = 0"

definition inc_reader :: "nat \<Rightarrow> nat \<Rightarrow> u32 list \<Rightarrow> u32 list" where
  "inc_reader i b readers = readers[i * 64 + b := readers ! (i * 64 + b) + 1]"

definition lock_word :: "task_locks \<Rightarrow> nat \<Rightarrow> lock_state \<Rightarrow> lock_state" where
  "lock_word l i s =
     s\<lparr>ls_writeHeld := (ls_writeHeld s)[i := ls_writeHeld s ! i OR tl_writes l ! i],
       ls_readHeld := (ls_readHeld s)[i := ls_readHeld s ! i OR tl_reads l ! i],
       ls_readers := fold (inc_reader i) (bit_list (tl_reads l ! i)) (ls_readers s)\<rparr>"

definition lock :: "lock_state \<Rightarrow> task_locks \<Rightarrow> lock_state" where
  "lock s l = fold (lock_word l) [0..<length (tl_writes l)] s"

definition unlock_reader :: "nat \<Rightarrow> nat \<Rightarrow> lock_state \<Rightarrow> lock_state" where
  "unlock_reader i b s =
     (let index = i * 64 + b;
          s1 = s\<lparr>ls_readers := (ls_readers s)[index := ls_readers s ! index - 1]\<rparr>
      in if ls_readers s1 ! index = 0
         then s1\<lparr>ls_readHeld := (ls_readHeld s1)[i := ls_readHeld s1 ! i AND NOT (push_bit b 1)]\<rparr>
         else s1)"

definition unlock_word :: "task_locks \<Rightarrow> nat \<Rightarrow> lock_state \<Rightarrow> lock_state" where
  "unlock_word l i s =
     fold (unlock_reader i) (bit_list (tl_reads l ! i))
       (s\<lparr>ls_writeHeld := (ls_writeHeld s)[i := ls_writeHeld s ! i AND NOT (tl_writes l ! i)]\<rparr>)"

definition unlock :: "lock_state \<Rightarrow> task_locks \<Rightarrow> lock_state" where
  "unlock s l = fold (unlock_word l) [0..<length (tl_writes l)] s"

definition reserve_word :: "task_locks \<Rightarrow> nat \<Rightarrow> lock_state \<Rightarrow> lock_state" where
  "reserve_word l i s = s\<lparr>ls_reserved := (ls_reserved s)[i := ls_reserved s ! i OR tl_writes l ! i]\<rparr>"

definition reserve :: "lock_state \<Rightarrow> task_locks \<Rightarrow> lock_state" where
  "reserve s l = fold (reserve_word l) [0..<length (tl_writes l)] s"

definition clearReservations :: "lock_state \<Rightarrow> lock_state" where
  "clearReservations s = s\<lparr>ls_reserved := replicate (length (ls_reserved s)) 0\<rparr>"

section \<open>Lock sets as sets of resources\<close>

definition reads_of :: "task_locks \<Rightarrow> nat set" where
  "reads_of l = mask_set (tl_reads l)"

definition writes_of :: "task_locks \<Rightarrow> nat set" where
  "writes_of l = mask_set (tl_writes l)"

text \<open>What \<open>RegisterTask\<close> compiles: masks of one length, within the kernel's resources, a
  resource both read and written only in the writes.\<close>

definition locks_wf :: "nat \<Rightarrow> task_locks \<Rightarrow> bool" where
  "locks_wf n l \<longleftrightarrow> length (tl_reads l) = length (tl_writes l)
     \<and> length (tl_writes l) \<le> (n + 63) div 64
     \<and> reads_of l \<union> writes_of l \<subseteq> {..<n} \<and> reads_of l \<inter> writes_of l = {}"

definition compatible :: "task_locks \<Rightarrow> task_locks \<Rightarrow> bool" where
  "compatible k l \<longleftrightarrow> writes_of k \<inter> (reads_of l \<union> writes_of l) = {} \<and> reads_of k \<inter> writes_of l = {}"

lemma compatible_sym: "compatible k l \<Longrightarrow> compatible l k"
  by (auto simp: compatible_def)

definition ls_shape :: "nat \<Rightarrow> lock_state \<Rightarrow> bool" where
  "ls_shape n s \<longleftrightarrow> length (ls_writeHeld s) = (n + 63) div 64 \<and> length (ls_readHeld s) = (n + 63) div 64
     \<and> length (ls_reserved s) = (n + 63) div 64 \<and> length (ls_readers s) = n"

subsection \<open>\<open>canLock\<close>\<close>

lemma fold_conflict_bit:
  "bit (fold (conflict_word s l) is c) b \<longleftrightarrow>
     bit c b \<or> (\<exists>i \<in> set is. bit (conflict_word s l i 0) b)"
  by (induction "is" arbitrary: c) (auto simp: conflict_word_def bit_or_iff)

lemma conflict_word_resource:
  assumes "ls_shape n s" and "locks_wf n l" and "i < length (tl_writes l)" and "b < 64"
  shows "bit (conflict_word s l i 0) b \<longleftrightarrow>
    (i * 64 + b \<in> mask_set (ls_writeHeld s) \<union> mask_set (ls_reserved s)
       \<and> i * 64 + b \<in> reads_of l \<union> writes_of l)
    \<or> (i * 64 + b \<in> mask_set (ls_readHeld s) \<and> i * 64 + b \<in> writes_of l)"
  using assms
  by (simp add: conflict_word_def bit_or_iff bit_and_iff mask_set_def reads_of_def writes_of_def
      locks_wf_def ls_shape_def)

lemma canLock_sets:
  assumes "ls_shape n s" and "locks_wf n l"
  shows "canLock s l \<longleftrightarrow>
    (mask_set (ls_writeHeld s) \<union> mask_set (ls_reserved s)) \<inter> (reads_of l \<union> writes_of l) = {}
    \<and> mask_set (ls_readHeld s) \<inter> writes_of l = {}" (is "_ \<longleftrightarrow> ?free")
proof -
  have "canLock s l \<longleftrightarrow> (\<forall>b < 64. \<forall>i < length (tl_writes l). \<not> bit (conflict_word s l i 0) b)"
    by (auto simp: canLock_def word_eq_0_iff fold_conflict_bit)
  also have "\<dots> \<longleftrightarrow> (\<forall>b < 64. \<forall>i < length (tl_writes l). 
      \<not> ((i * 64 + b \<in> mask_set (ls_writeHeld s) \<union> mask_set (ls_reserved s)
          \<and> i * 64 + b \<in> reads_of l \<union> writes_of l)
        \<or> (i * 64 + b \<in> mask_set (ls_readHeld s) \<and> i * 64 + b \<in> writes_of l)))"
    using conflict_word_resource[OF assms] by simp
  also have "\<dots> \<longleftrightarrow> ?free"
  proof
    assume all: "\<forall>b < 64. \<forall>i < length (tl_writes l). 
      \<not> ((i * 64 + b \<in> mask_set (ls_writeHeld s) \<union> mask_set (ls_reserved s)
          \<and> i * 64 + b \<in> reads_of l \<union> writes_of l)
        \<or> (i * 64 + b \<in> mask_set (ls_readHeld s) \<and> i * 64 + b \<in> writes_of l))"
    have "r div 64 < length (tl_writes l)" if "r \<in> reads_of l \<union> writes_of l" for r
      using that assms(2) mask_set_less[of r "tl_reads l"] mask_set_less[of r "tl_writes l"]
      by (auto simp: reads_of_def writes_of_def locks_wf_def)
    then have "\<not> ((r \<in> mask_set (ls_writeHeld s) \<union> mask_set (ls_reserved s)
          \<and> r \<in> reads_of l \<union> writes_of l) \<or> (r \<in> mask_set (ls_readHeld s) \<and> r \<in> writes_of l))" for r
      using all[rule_format, of "r mod 64" "r div 64"] by (auto simp: div_mult_mod_eq)
    then show ?free by blast
  qed blast
  finally show ?thesis .
qed


subsection \<open>\<open>lock\<close>, \<open>unlock\<close> and \<open>reserve\<close>\<close>

text \<open>The resources of the first \<open>k\<close> words of a mask, which a loop over the words has done.\<close>

definition mask_upto :: "nat \<Rightarrow> u64 list \<Rightarrow> nat set" where
  "mask_upto k ws = {r \<in> mask_set ws. r div 64 < k}"

lemma mask_upto_0 [simp]: "mask_upto 0 ws = {}"
  by (simp add: mask_upto_def)

lemma mask_upto_Suc: "k < length ws \<Longrightarrow> mask_upto (Suc k) ws = mask_upto k ws \<union> word_set k (ws ! k)"
  by (auto simp: mask_upto_def mask_set_def word_set_def less_Suc_eq)

lemma mask_upto_all: "length ws \<le> k \<Longrightarrow> mask_upto k ws = mask_set ws"
  by (auto simp: mask_upto_def mask_set_def)

lemma word_set_upto_disjoint: "word_set k w \<inter> mask_upto k ws = {}"
  by (auto simp: word_set_def mask_upto_def)

lemma length_fold_inc_reader [simp]: "length (fold (inc_reader i) bs rs) = length rs"
  by (induction bs arbitrary: rs) (simp_all add: inc_reader_def)

lemma fold_inc_reader:
  assumes "distinct bs" and "set bs \<subseteq> {..<64}" and "r < length rs"
  shows "fold (inc_reader i) bs rs ! r = rs ! r + (if r div 64 = i \<and> r mod 64 \<in> set bs then 1 else 0)"
  using assms
proof (induction bs arbitrary: rs)
  case (Cons b bs)
  then have b: "b < 64" "b \<notin> set bs" by simp_all
  have "inc_reader i b rs ! r = rs ! r + (if r div 64 = i \<and> r mod 64 = b then 1 else 0)"
    using resource_eq[OF b(1), of r i] Cons.prems(3) by (auto simp: inc_reader_def nth_list_update)
  then show ?case
    using Cons.prems Cons.IH[of "inc_reader i b rs"] b(2) by (auto simp: inc_reader_def)
qed simp

lemma bit_list_u64: "set (bit_list w) \<subseteq> {..<64}" for w :: u64
  using bit_imp_le_length[of w] by auto

text \<open>The state after the first \<open>k\<close> words of a lock.\<close>

definition after_lock :: "nat \<Rightarrow> lock_state \<Rightarrow> task_locks \<Rightarrow> nat \<Rightarrow> lock_state \<Rightarrow> bool" where
  "after_lock n s l k s' \<longleftrightarrow> ls_shape n s'
     \<and> mask_set (ls_writeHeld s') = mask_set (ls_writeHeld s) \<union> mask_upto k (tl_writes l)
     \<and> mask_set (ls_readHeld s') = mask_set (ls_readHeld s) \<union> mask_upto k (tl_reads l)
     \<and> ls_reserved s' = ls_reserved s
     \<and> (\<forall>r < n. ls_readers s' ! r = ls_readers s ! r + (if r \<in> mask_upto k (tl_reads l) then 1 else 0))"

lemma lock_upto:
  assumes "ls_shape n s" and "locks_wf n l" and "k \<le> length (tl_writes l)"
  shows "after_lock n s l k (fold (lock_word l) [0..<k] s)"
  using assms(3)
proof (induction k)
  case 0
  then show ?case using assms(1) by (simp add: after_lock_def)
next
  case (Suc k)
  define s1 where "s1 = fold (lock_word l) [0..<k] s"
  have IH: "after_lock n s l k s1"
    using Suc by (simp add: s1_def)
  then have shape: "ls_shape n s1" by (simp add: after_lock_def)
  have k: "k < length (tl_writes l)" "k < length (tl_reads l)" "k < length (ls_writeHeld s1)"
    "k < length (ls_readHeld s1)"
    using Suc.prems assms(2) shape by (auto simp: locks_wf_def ls_shape_def)
  have readers: "ls_readers (lock_word l k s1) ! r =
      ls_readers s1 ! r + (if r \<in> word_set k (tl_reads l ! k) then 1 else 0)"
    if "r < n" for r
    using fold_inc_reader[OF distinct_bit_list bit_list_u64, of r "ls_readers s1" k "tl_reads l ! k"]
      that shape by (auto simp: lock_word_def ls_shape_def word_set_def)
  have "after_lock n s l (Suc k) (lock_word l k s1)"
    using IH readers k word_set_upto_disjoint[of k]
    by (auto simp: after_lock_def ls_shape_def mask_upto_Suc mask_set_or lock_word_def)
  then show ?case by (simp add: s1_def)
qed


lemma lock_spec:
  assumes "ls_shape n s" and "locks_wf n l"
  shows "ls_shape n (lock s l)"
    and "mask_set (ls_writeHeld (lock s l)) = mask_set (ls_writeHeld s) \<union> writes_of l"
    and "mask_set (ls_readHeld (lock s l)) = mask_set (ls_readHeld s) \<union> reads_of l"
    and "ls_reserved (lock s l) = ls_reserved s"
    and "\<And>r. r < n \<Longrightarrow> ls_readers (lock s l) ! r = ls_readers s ! r + (if r \<in> reads_of l then 1 else 0)"
  using lock_upto[OF assms order.refl] assms(2)
  by (auto simp: after_lock_def lock_def mask_upto_all writes_of_def reads_of_def locks_wf_def)

text \<open>The readers of one word given back: a count that reaches zero frees the resource.\<close>

lemma fold_unlock_reader:
  assumes "distinct bs" and "set bs \<subseteq> {..<64}" and "i < length (ls_readHeld s)"
    and "\<And>b. b \<in> set bs \<Longrightarrow> i * 64 + b < length (ls_readers s)"
  defines "s' \<equiv> fold (unlock_reader i) bs s"
    and "R \<equiv> {r. r div 64 = i \<and> r mod 64 \<in> set bs}"
  shows "ls_writeHeld s' = ls_writeHeld s \<and> ls_reserved s' = ls_reserved s
    \<and> length (ls_readers s') = length (ls_readers s) \<and> length (ls_readHeld s') = length (ls_readHeld s)
    \<and> (\<forall>r < length (ls_readers s). ls_readers s' ! r = ls_readers s ! r - (if r \<in> R then 1 else 0))
    \<and> mask_set (ls_readHeld s') = mask_set (ls_readHeld s) - {r \<in> R. ls_readers s ! r = 1}"
  using assms(1-4) unfolding s'_def R_def
proof (induction bs arbitrary: s)
  case Nil
  then show ?case by simp
next
  case (Cons b bs)
  then have b: "b < 64" "b \<notin> set bs" by auto
  define x where "x = i * 64 + b"
  have R: "{r. r div 64 = i \<and> r mod 64 \<in> set (b # bs)} = insert x {r. r div 64 = i \<and> r mod 64 \<in> set bs}"
    using resource_eq[OF b(1), of _ i] by (auto simp: x_def)
  have xR: "x \<notin> {r. r div 64 = i \<and> r mod 64 \<in> set bs}"
    using b by (auto simp: x_def)
  have x: "x < length (ls_readers s)"
    using Cons.prems(4)[of b] by (simp add: x_def)
  define s1 where "s1 = unlock_reader i b s"
  have s1: "ls_writeHeld s1 = ls_writeHeld s" "ls_reserved s1 = ls_reserved s"
    "ls_readers s1 = (ls_readers s)[x := ls_readers s ! x - 1]"
    "length (ls_readHeld s1) = length (ls_readHeld s)"
    "mask_set (ls_readHeld s1) = mask_set (ls_readHeld s) - (if ls_readers s ! x = 1 then {x} else {})"
    using x Cons.prems(3) mask_set_andnot[OF Cons.prems(3), of "push_bit b 1"] word_set_single[OF b(1), of i]
    by (auto simp: s1_def unlock_reader_def Let_def x_def)
  have IH: "ls_writeHeld (fold (unlock_reader i) bs s1) = ls_writeHeld s1
    \<and> ls_reserved (fold (unlock_reader i) bs s1) = ls_reserved s1
    \<and> length (ls_readers (fold (unlock_reader i) bs s1)) = length (ls_readers s1)
    \<and> length (ls_readHeld (fold (unlock_reader i) bs s1)) = length (ls_readHeld s1)
    \<and> (\<forall>r < length (ls_readers s1). ls_readers (fold (unlock_reader i) bs s1) ! r =
         ls_readers s1 ! r - (if r \<in> {r. r div 64 = i \<and> r mod 64 \<in> set bs} then 1 else 0))
    \<and> mask_set (ls_readHeld (fold (unlock_reader i) bs s1)) =
         mask_set (ls_readHeld s1) - {r \<in> {r. r div 64 = i \<and> r mod 64 \<in> set bs}. ls_readers s1 ! r = 1}"
    by (rule Cons.IH) (use Cons.prems s1 in auto)
  have one: "{r \<in> {r. r div 64 = i \<and> r mod 64 \<in> set bs}. ls_readers s1 ! r = 1} =
    {r \<in> {r. r div 64 = i \<and> r mod 64 \<in> set bs}. ls_readers s ! r = 1}"
  proof (rule Collect_cong)
    fix r
    have "ls_readers s1 ! r = ls_readers s ! r" if "r div 64 = i" "r mod 64 \<in> set bs"
    proof -
      have "r \<noteq> x" using that xR by auto
      then show ?thesis by (simp add: s1(3))
    qed
    then show "(r \<in> {r. r div 64 = i \<and> r mod 64 \<in> set bs} \<and> ls_readers s1 ! r = 1) =
      (r \<in> {r. r div 64 = i \<and> r mod 64 \<in> set bs} \<and> ls_readers s ! r = 1)" by auto
  qed
  show ?case
    unfolding R fold_simps s1_def[symmetric]
  proof (intro conjI allI impI)
    show "ls_readers (fold (unlock_reader i) bs s1) ! r = ls_readers s ! r -
        (if r \<in> insert x {r. r div 64 = i \<and> r mod 64 \<in> set bs} then 1 else 0)"
      if "r < length (ls_readers s)" for r
      using IH s1(3) xR that by (cases "r = x") simp_all
    show "mask_set (ls_readHeld (fold (unlock_reader i) bs s1)) = mask_set (ls_readHeld s) -
        {r \<in> insert x {r. r div 64 = i \<and> r mod 64 \<in> set bs}. ls_readers s ! r = 1}"
    proof -
      have "mask_set (ls_readHeld (fold (unlock_reader i) bs s1)) =
          mask_set (ls_readHeld s) - (if ls_readers s ! x = 1 then {x} else {})
            - {r \<in> {r. r div 64 = i \<and> r mod 64 \<in> set bs}. ls_readers s ! r = 1}"
        using IH s1(5) one by (simp only:)
      then show ?thesis by (auto split: if_splits)
    qed
  qed (use IH s1 in simp_all)
qed

text \<open>The state after the first \<open>k\<close> words of an unlock.\<close>

definition after_unlock :: "nat \<Rightarrow> lock_state \<Rightarrow> task_locks \<Rightarrow> nat \<Rightarrow> lock_state \<Rightarrow> bool" where
  "after_unlock n s l k s' \<longleftrightarrow> ls_shape n s'
     \<and> mask_set (ls_writeHeld s') = mask_set (ls_writeHeld s) - mask_upto k (tl_writes l)
     \<and> mask_set (ls_readHeld s') = mask_set (ls_readHeld s) - {r \<in> mask_upto k (tl_reads l). ls_readers s ! r = 1}
     \<and> ls_reserved s' = ls_reserved s
     \<and> (\<forall>r < n. ls_readers s' ! r = ls_readers s ! r - (if r \<in> mask_upto k (tl_reads l) then 1 else 0))"

lemma unlock_upto:
  assumes "ls_shape n s" and "locks_wf n l" and "k \<le> length (tl_writes l)"
  shows "after_unlock n s l k (fold (unlock_word l) [0..<k] s)"
  using assms(3)
proof (induction k)
  case 0
  then show ?case using assms(1) by (simp add: after_unlock_def)
next
  case (Suc k)
  define s1 where "s1 = fold (unlock_word l) [0..<k] s"
  have IH: "after_unlock n s l k s1"
    using Suc by (simp add: s1_def)
  then have shape: "ls_shape n s1" by (simp add: after_unlock_def)
  have k: "k < length (tl_writes l)" "k < length (tl_reads l)" "k < length (ls_writeHeld s1)"
    "k < length (ls_readHeld s1)"
    using Suc.prems assms(2) shape by (auto simp: locks_wf_def ls_shape_def)
  define s2 where "s2 = s1\<lparr>ls_writeHeld := (ls_writeHeld s1)[k := ls_writeHeld s1 ! k AND NOT (tl_writes l ! k)]\<rparr>"
  define W where "W = word_set k (tl_reads l ! k)"
  have W: "W = {r. r div 64 = k \<and> r mod 64 \<in> set (bit_list (tl_reads l ! k))}"
    by (auto simp: W_def word_set_def)
  have WU: "W \<inter> mask_upto k (tl_reads l) = {}" and "W \<subseteq> reads_of l"
    using k word_set_upto_disjoint by (auto simp: W_def reads_of_def mask_set_words)
  then have Wn: "W \<subseteq> {..<n}"
    using assms(2) by (auto simp: locks_wf_def)
  have inside: "k * 64 + b < length (ls_readers s2)" if "b \<in> set (bit_list (tl_reads l ! k))" for b
  proof -
    have "k * 64 + b \<in> W"
      using that bit_list_u64[of "tl_reads l ! k"] by (auto simp: W)
    then show ?thesis
      using Wn shape by (auto simp: s2_def ls_shape_def)
  qed
  have k2: "k < length (ls_readHeld s2)"
    using k by (simp add: s2_def)
  have eq: "fold (unlock_reader k) (bit_list (tl_reads l ! k)) s2 = unlock_word l k s1"
    by (simp add: s2_def unlock_word_def)
  note inner = fold_unlock_reader[OF distinct_bit_list[of "tl_reads l ! k"] bit_list_u64 k2 inside, folded W, unfolded eq]
  have one: "{r \<in> W. ls_readers s1 ! r = 1} = {r \<in> W. ls_readers s ! r = 1}"
  proof (rule Collect_cong)
    fix r
    have "ls_readers s1 ! r = ls_readers s ! r" if "r \<in> W"
    proof -
      have "r < n" "r \<notin> mask_upto k (tl_reads l)" using that WU Wn by auto
      then show ?thesis using IH by (simp add: after_unlock_def)
    qed
    then show "(r \<in> W \<and> ls_readers s1 ! r = 1) = (r \<in> W \<and> ls_readers s ! r = 1)" by auto
  qed
  have "after_unlock n s l (Suc k) (unlock_word l k s1)"
    unfolding after_unlock_def mask_upto_Suc[OF k(1)] mask_upto_Suc[OF k(2), folded W_def]
  proof (intro conjI allI impI)
    show "ls_shape n (unlock_word l k s1)"
      using inner shape by (simp add: ls_shape_def s2_def)
    show "mask_set (ls_writeHeld (unlock_word l k s1)) =
        mask_set (ls_writeHeld s) - (mask_upto k (tl_writes l) \<union> word_set k (tl_writes l ! k))"
      using inner IH k(3) by (simp add: s2_def after_unlock_def mask_set_andnot Diff_eq Int_assoc)
    show "mask_set (ls_readHeld (unlock_word l k s1)) =
        mask_set (ls_readHeld s) - {r \<in> mask_upto k (tl_reads l) \<union> W. ls_readers s ! r = 1}"
    proof -
      have "mask_set (ls_readHeld (unlock_word l k s1)) =
          mask_set (ls_readHeld s) - {r \<in> mask_upto k (tl_reads l). ls_readers s ! r = 1}
            - {r \<in> W. ls_readers s ! r = 1}"
        using inner IH one by (simp add: s2_def after_unlock_def)
      then show ?thesis by auto
    qed
    show "ls_reserved (unlock_word l k s1) = ls_reserved s"
      using inner IH by (simp add: s2_def after_unlock_def)
    show "ls_readers (unlock_word l k s1) ! r =
        ls_readers s ! r - (if r \<in> mask_upto k (tl_reads l) \<union> W then 1 else 0)" if "r < n" for r
      using inner IH shape WU that by (auto simp: s2_def after_unlock_def ls_shape_def)
  qed
  then show ?case by (simp add: s1_def)
qed

lemma unlock_spec:
  assumes "ls_shape n s" and "locks_wf n l"
  shows "ls_shape n (unlock s l)"
    and "mask_set (ls_writeHeld (unlock s l)) = mask_set (ls_writeHeld s) - writes_of l"
    and "mask_set (ls_readHeld (unlock s l)) =
      mask_set (ls_readHeld s) - {r \<in> reads_of l. ls_readers s ! r = 1}"
    and "ls_reserved (unlock s l) = ls_reserved s"
    and "\<And>r. r < n \<Longrightarrow> ls_readers (unlock s l) ! r = ls_readers s ! r - (if r \<in> reads_of l then 1 else 0)"
  using unlock_upto[OF assms order.refl] assms(2)
  by (auto simp: after_unlock_def unlock_def mask_upto_all writes_of_def reads_of_def locks_wf_def)

lemma reserve_upto:
  assumes "ls_shape n s" and "locks_wf n l" and "k \<le> length (tl_writes l)"
  shows "\<exists>rs. fold (reserve_word l) [0..<k] s = s\<lparr>ls_reserved := rs\<rparr> \<and> length rs = length (ls_reserved s)
    \<and> mask_set rs = mask_set (ls_reserved s) \<union> mask_upto k (tl_writes l)"
  using assms(3)
proof (induction k)
  case 0
  then show ?case by (intro exI[of _ "ls_reserved s"]) simp
next
  case (Suc k)
  then obtain rs where rs: "fold (reserve_word l) [0..<k] s = s\<lparr>ls_reserved := rs\<rparr>"
    "length rs = length (ls_reserved s)" "mask_set rs = mask_set (ls_reserved s) \<union> mask_upto k (tl_writes l)"
    by auto
  have k: "k < length rs" "k < length (tl_writes l)"
    using Suc.prems assms rs(2) by (auto simp: locks_wf_def ls_shape_def)
  have "reserve_word l k (s\<lparr>ls_reserved := rs\<rparr>) = s\<lparr>ls_reserved := rs[k := rs ! k OR tl_writes l ! k]\<rparr>"
    by (simp add: reserve_word_def)
  then show ?case
    using rs k by (intro exI[of _ "rs[k := rs ! k OR tl_writes l ! k]"])
      (simp add: mask_set_or mask_upto_Suc Un_assoc)
qed

lemma reserve_spec:
  assumes "ls_shape n s" and "locks_wf n l"
  shows "ls_shape n (reserve s l)" and "ls_writeHeld (reserve s l) = ls_writeHeld s"
    and "ls_readHeld (reserve s l) = ls_readHeld s" and "ls_readers (reserve s l) = ls_readers s"
    and "mask_set (ls_reserved (reserve s l)) = mask_set (ls_reserved s) \<union> writes_of l"
proof -
  obtain rs where "reserve s l = s\<lparr>ls_reserved := rs\<rparr>" "length rs = length (ls_reserved s)"
    "mask_set rs = mask_set (ls_reserved s) \<union> writes_of l"
    using reserve_upto[OF assms order.refl] by (auto simp: reserve_def mask_upto_all writes_of_def)
  then show "ls_shape n (reserve s l)" "ls_writeHeld (reserve s l) = ls_writeHeld s"
    "ls_readHeld (reserve s l) = ls_readHeld s" "ls_readers (reserve s l) = ls_readers s"
    "mask_set (ls_reserved (reserve s l)) = mask_set (ls_reserved s) \<union> writes_of l"
    using assms(1) by (simp_all add: ls_shape_def)
qed

lemma clearReservations_spec:
  "ls_shape n (clearReservations s) = ls_shape n s"
  "ls_writeHeld (clearReservations s) = ls_writeHeld s" "ls_readHeld (clearReservations s) = ls_readHeld s"
  "ls_readers (clearReservations s) = ls_readers s" "mask_set (ls_reserved (clearReservations s)) = {}"
  by (simp_all add: clearReservations_def ls_shape_def)

section \<open>The locks held\<close>

text \<open>
  The lock sets held, as a multiset: two jobs of one task that only reads hold the same set.
\<close>

definition reader_count :: "nat \<Rightarrow> task_locks multiset \<Rightarrow> nat" where
  "reader_count r held = size (filter_mset (\<lambda>l. r \<in> reads_of l) held)"

definition exclusive :: "task_locks multiset \<Rightarrow> bool" where
  "exclusive held \<longleftrightarrow> (\<forall>k \<in># held. \<forall>l \<in># held - {#k#}. compatible k l)"

definition lock_inv :: "nat \<Rightarrow> lock_state \<Rightarrow> task_locks multiset \<Rightarrow> bool" where
  "lock_inv n s held \<longleftrightarrow> ls_shape n s \<and> (\<forall>l \<in># held. locks_wf n l) \<and> exclusive held
     \<and> size held < 2 ^ 32
     \<and> mask_set (ls_writeHeld s) = (\<Union>l \<in> set_mset held. writes_of l)
     \<and> mask_set (ls_readHeld s) = (\<Union>l \<in> set_mset held. reads_of l)
     \<and> (\<forall>r < n. unat (ls_readers s ! r) = reader_count r held)"

lemma exclusive_empty [simp]: "exclusive {#}"
  by (simp add: exclusive_def)

lemma exclusive_add:
  assumes "exclusive held" and "\<And>k. k \<in># held \<Longrightarrow> compatible k l"
  shows "exclusive (add_mset l held)"
  unfolding exclusive_def
proof (intro ballI)
  fix x y
  assume x: "x \<in># add_mset l held" and y: "y \<in># add_mset l held - {#x#}"
  show "compatible x y"
  proof (cases "x = l")
    case True
    then show ?thesis using y assms(2) compatible_sym by simp
  next
    case False
    then have "x \<in># held" "y \<in># add_mset l (held - {#x#})"
      using x y by auto
    then show ?thesis using assms by (auto simp: exclusive_def)
  qed
qed

lemma exclusive_subset:
  assumes "exclusive held" and "rest \<subseteq># held"
  shows "exclusive rest"
  unfolding exclusive_def
proof (intro ballI)
  fix x y
  assume "x \<in># rest" "y \<in># rest - {#x#}"
  moreover have "rest - {#x#} \<subseteq># held - {#x#}"
    using assms(2) by (auto simp: subseteq_mset_def intro: diff_le_mono)
  ultimately have "x \<in># held" "y \<in># held - {#x#}"
    using assms(2) by (auto dest: mset_subset_eqD)
  then show "compatible x y"
    using assms(1) by (simp add: exclusive_def)
qed

lemma exclusive_nth:
  assumes "exclusive (mset hs)" and "i < length hs" and "j < length hs" and "i \<noteq> j"
  shows "compatible (hs ! i) (hs ! j)"
proof -
  have split: "mset hs - {#hs ! i#} = mset (take i hs @ drop (Suc i) hs)"
    using assms(2) by (metis add_mset_remove_trivial id_take_nth_drop mset.simps(2) mset_append union_mset_add_mset_right)
  have "hs ! j \<in> set (take i hs @ drop (Suc i) hs)"
  proof (cases "j < i")
    case True
    then show ?thesis using assms by (auto simp: in_set_conv_nth intro!: exI[of _ j])
  next
    case False
    then have "hs ! j = drop (Suc i) hs ! (j - Suc i)" "j - Suc i < length (drop (Suc i) hs)"
      using assms by auto
    then show ?thesis by (metis Un_iff nth_mem set_append)
  qed
  then have "hs ! j \<in># mset hs - {#hs ! i#}"
    unfolding split by (simp only: set_mset_mset)
  then show ?thesis
    using assms(1,2) by (simp add: exclusive_def)
qed

lemma lock_inv_make: "lock_inv n (makeLockState n) {#}"
  by (simp add: lock_inv_def makeLockState_def ls_shape_def Let_def reader_count_def)

lemma lock_inv_reserve: "lock_inv n s held \<Longrightarrow> locks_wf n l \<Longrightarrow> lock_inv n (reserve s l) held"
  using reserve_spec[of n s l] by (simp add: lock_inv_def)

lemma lock_inv_clear: "lock_inv n s held \<Longrightarrow> lock_inv n (clearReservations s) held"
  by (simp add: lock_inv_def clearReservations_spec)

lemma canLock_iff:
  assumes "lock_inv n s held" and "locks_wf n l"
  shows "canLock s l \<longleftrightarrow> (\<forall>h \<in># held. compatible h l)
    \<and> mask_set (ls_reserved s) \<inter> (reads_of l \<union> writes_of l) = {}"
proof -
  have w: "mask_set (ls_writeHeld s) = (\<Union>h \<in> set_mset held. writes_of h)"
    and r: "mask_set (ls_readHeld s) = (\<Union>h \<in> set_mset held. reads_of h)"
    and shape: "ls_shape n s"
    using assms(1) by (simp_all add: lock_inv_def)
  show ?thesis
    unfolding canLock_sets[OF shape assms(2)] w r compatible_def by blast
qed

lemma reader_count_le: "reader_count r held \<le> size held"
  unfolding reader_count_def by (rule size_mset_mono) simp

lemma lock_preserves:
  assumes "lock_inv n s held" and "locks_wf n l" and "canLock s l" and "Suc (size held) < 2 ^ 32"
  shows "lock_inv n (lock s l) (add_mset l held)"
proof -
  have shape: "ls_shape n s" using assms(1) by (simp add: lock_inv_def)
  have "exclusive (add_mset l held)"
    using canLock_iff[OF assms(1,2)] assms(1,3) by (intro exclusive_add) (simp_all add: lock_inv_def)
  moreover have "unat (ls_readers (lock s l) ! r) = reader_count r (add_mset l held)" if "r < n" for r
  proof -
    have "unat (ls_readers s ! r) = reader_count r held"
      using assms(1) that by (simp add: lock_inv_def)
    moreover have "reader_count r held < 2 ^ 32 - 1"
      using reader_count_le[of r held] assms(4) by simp
    ultimately show ?thesis
      using lock_spec(5)[OF shape assms(2) that]
      by (auto simp: reader_count_def unat_word_ariths)
  qed
  ultimately show ?thesis
    using assms lock_spec[OF shape assms(2)] by (simp add: lock_inv_def Un_commute)
qed

lemma reader_count_remove:
  assumes "l \<in># held"
  shows "reader_count r held = reader_count r (held - {#l#}) + (if r \<in> reads_of l then 1 else 0)"
proof -
  obtain rest where "held = add_mset l rest"
    using assms by (metis insert_DiffM)
  then show ?thesis by (auto simp: reader_count_def)
qed

lemma reader_count_0: "reader_count r held = 0 \<longleftrightarrow> (\<forall>l \<in># held. r \<notin> reads_of l)"
  by (auto simp: reader_count_def filter_mset_eq_conv)

lemma unlock_preserves:
  assumes "lock_inv n s held" and "l \<in># held"
  shows "lock_inv n (unlock s l) (held - {#l#})"
proof -
  define rest where "rest = held - {#l#}"
  have held_eq: "held = add_mset l rest"
    using assms(2) by (simp add: rest_def)
  have inv: "ls_shape n s" "locks_wf n l" "exclusive held"
    using assms by (auto simp: lock_inv_def)
  have comp: "compatible l k" if "k \<in># rest" for k
    using inv(3) assms(2) that by (simp add: exclusive_def rest_def)
  note spec = unlock_spec[OF inv(1,2)]
  have count: "reader_count r held = reader_count r rest + (if r \<in> reads_of l then 1 else 0)" for r
    using reader_count_remove[OF assms(2)] by (simp add: rest_def)
  have old: "unat (ls_readers s ! r) = reader_count r held" if "r < n" for r
    using assms(1) that by (simp add: lock_inv_def)
  have readers: "unat (ls_readers (unlock s l) ! r) = reader_count r rest" if "r < n" for r
  proof (cases "r \<in> reads_of l")
    case True
    then have "unat (ls_readers s ! r) = Suc (reader_count r rest)"
      using old[OF that] count[of r] by simp
    then show ?thesis
      using spec(5)[OF that] True unat_minus_one[of "ls_readers s ! r"]
      by (cases "ls_readers s ! r = 0") simp_all
  next
    case False
    then show ?thesis using spec(5)[OF that] old[OF that] count[of r] by simp
  qed
  have last: "ls_readers s ! r = 1 \<longleftrightarrow> (\<forall>k \<in># rest. r \<notin> reads_of k)" if "r \<in> reads_of l" for r
  proof -
    have "r < n" using inv(2) that by (auto simp: locks_wf_def)
    then have "unat (ls_readers s ! r) = Suc (reader_count r rest)"
      using old count[of r] that by simp
    then show ?thesis
      using reader_count_0[of r rest] by (simp add: word_unat_eq_iff)
  qed
  have held: "mask_set (ls_writeHeld s) = writes_of l \<union> (\<Union>k \<in> set_mset rest. writes_of k)"
    "mask_set (ls_readHeld s) = reads_of l \<union> (\<Union>k \<in> set_mset rest. reads_of k)"
    using assms(1) held_eq by (simp_all add: lock_inv_def)
  have "writes_of l \<inter> (\<Union>k \<in> set_mset rest. writes_of k) = {}"
    using comp by (auto simp: compatible_def)
  then have writes: "mask_set (ls_writeHeld (unlock s l)) = (\<Union>k \<in> set_mset rest. writes_of k)"
    unfolding spec(2) held(1) by blast
  have reads: "mask_set (ls_readHeld (unlock s l)) = (\<Union>k \<in> set_mset rest. reads_of k)"
    unfolding spec(3) held(2) using last by auto
  have "exclusive rest"
    by (rule exclusive_subset[OF inv(3)]) (simp add: rest_def)
  then show ?thesis
    using assms(1) spec(1) writes reads readers held_eq
    by (simp add: lock_inv_def)
qed

text \<open>A grant given back leaves the state exactly as it was.\<close>

lemma unlock_lock:
  assumes "lock_inv n s held" and "locks_wf n l" and "canLock s l" and "Suc (size held) < 2 ^ 32"
  shows "unlock (lock s l) l = s"
proof -
  have shape: "ls_shape n s" using assms(1) by (simp add: lock_inv_def)
  have shape': "ls_shape n (lock s l)"
    using lock_preserves[OF assms] by (simp add: lock_inv_def)
  note L = lock_spec[OF shape assms(2)]
  note U = unlock_spec[OF shape' assms(2)]
  have free: "mask_set (ls_writeHeld s) \<inter> writes_of l = {}"
    using canLock_sets[OF shape assms(2)] assms(3) by blast
  have one: "ls_readers (lock s l) ! r = 1 \<longleftrightarrow> r \<notin> mask_set (ls_readHeld s)" if "r \<in> reads_of l" for r
  proof -
    have r: "r < n" using that assms(2) by (auto simp: locks_wf_def)
    then have "ls_readers (lock s l) ! r = 1 \<longleftrightarrow> unat (ls_readers s ! r) = 0"
      using L(5)[OF r] that by (simp add: unat_eq_0)
    also have "\<dots> \<longleftrightarrow> r \<notin> mask_set (ls_readHeld s)"
      using assms(1) r reader_count_0[of r held] by (auto simp: lock_inv_def)
    finally show ?thesis .
  qed
  have "ls_writeHeld (unlock (lock s l) l) = ls_writeHeld s"
    using U(1,2) L(2) free shape by (intro mask_set_inject) (auto simp: ls_shape_def)
  moreover have "ls_readHeld (unlock (lock s l) l) = ls_readHeld s"
    using U(1,3) L(3) one shape by (intro mask_set_inject) (auto simp: ls_shape_def)
  moreover have "ls_readers (unlock (lock s l) l) = ls_readers s"
    using U(1,5) L(5) shape by (intro nth_equalityI) (auto simp: ls_shape_def)
  ultimately show ?thesis
    using U(4) L(4) by (intro lock_state.equality) simp_all
qed

section \<open>The contract\<close>

text \<open>
  What the lock combiner relies on: a lock table over the multiset of lock sets held.  The
  client's lemma: a batch of releases is given back, leaving the rest held.
\<close>

locale lock_table =
  fixes inv :: "'s \<Rightarrow> 'l multiset \<Rightarrow> bool"
    and wf :: "'l \<Rightarrow> bool"
    and compat :: "'l \<Rightarrow> 'l \<Rightarrow> bool"
    and can :: "'s \<Rightarrow> 'l \<Rightarrow> bool"
    and take_locks :: "'s \<Rightarrow> 'l \<Rightarrow> 's"
    and give_back :: "'s \<Rightarrow> 'l \<Rightarrow> 's"
  assumes can_compat: "inv s held \<Longrightarrow> wf l \<Longrightarrow> can s l \<Longrightarrow> h \<in># held \<Longrightarrow> compat h l"
    and take_inv: "inv s held \<Longrightarrow> wf l \<Longrightarrow> can s l \<Longrightarrow> Suc (size held) < 2 ^ 32 \<Longrightarrow>
      inv (take_locks s l) (add_mset l held)"
    and give_inv: "inv s held \<Longrightarrow> l \<in># held \<Longrightarrow> inv (give_back s l) (held - {#l#})"
begin

lemma give_back_all:
  "inv s held \<Longrightarrow> mset ls \<subseteq># held \<Longrightarrow> inv (fold (\<lambda>l s. give_back s l) ls s) (held - mset ls)"
proof (induction ls arbitrary: s held)
  case (Cons l ls)
  then have l: "l \<in># held" "mset ls \<subseteq># held - {#l#}"
    by (auto simp: insert_subset_eq_iff)
  show ?case
    using Cons.IH[OF give_inv[OF Cons.prems(1) l(1)] l(2)] by (simp add: diff_diff_add)
qed simp

end

interpretation locks: lock_table "lock_inv n" "locks_wf n" compatible canLock lock unlock for n
  by unfold_locales (auto simp: canLock_iff lock_preserves unlock_preserves)

text \<open>
  C28: the lock state tracks exactly the locks held.  A state that represents the multiset
  \<open>held\<close> answers \<open>canLock\<close> exactly when the asked lock set conflicts with none held and touches
  nothing reserved; a lock so granted gives a state for one more holder, in which no two
  holders conflict, and unlocking it restores the state bit for bit; unlocking any holder gives
  the state for the rest.
\<close>

theorem lock_state_exact:
  assumes "lock_inv n s held" and "locks_wf n l" and "Suc (size held) < 2 ^ 32"
  shows "(canLock s l \<longleftrightarrow> (\<forall>h \<in># held. compatible h l)
      \<and> mask_set (ls_reserved s) \<inter> (reads_of l \<union> writes_of l) = {})
    \<and> (canLock s l \<longrightarrow> lock_inv n (lock s l) (add_mset l held) \<and> unlock (lock s l) l = s)
    \<and> (\<forall>h \<in># held. lock_inv n (unlock s h) (held - {#h#})) \<and> exclusive held"
  using canLock_iff[OF assms(1,2)] lock_preserves[OF assms(1,2) _ assms(3)]
    unlock_lock[OF assms(1,2) _ assms(3)] unlock_preserves[OF assms(1)] assms(1)
  by (simp add: lock_inv_def)

text \<open>A task that reads resource 65 and writes resource 0, of 70.\<close>

definition sample_locks :: task_locks where
  "sample_locks = \<lparr>tl_reads = [0, 2], tl_writes = [1, 0], tl_pinned = False\<rparr>"

lemma mask_set_code [code]:
  "mask_set ws = set (concat (map (\<lambda>i. map (\<lambda>b. i * 64 + b) (bit_list (ws ! i))) [0..<length ws]))"
proof -
  have "word_set i w = (\<lambda>b. i * 64 + b) ` set (bit_list w)" for i and w :: u64
  proof -
    have "r \<in> word_set i w \<longleftrightarrow> r \<in> (\<lambda>b. i * 64 + b) ` {b. bit w b}" for r
      using bit_imp_le_length[of w] by (auto simp: word_set_def image_iff)
    then show ?thesis by auto
  qed
  then show ?thesis by (auto simp: mask_set_words)
qed

lemma locks_wf_sample: "locks_wf 70 sample_locks"
proof -
  have "reads_of sample_locks = {65}"
    by code_simp
  moreover have "writes_of sample_locks = {0}"
    by code_simp
  ultimately show ?thesis
    by (simp add: locks_wf_def sample_locks_def)
qed

theorem lock_state_exact_witness:
  "lock_inv 70 (makeLockState 70) {#} \<and> locks_wf 70 sample_locks
   \<and> canLock (makeLockState 70) sample_locks
   \<and> lock_inv 70 (lock (makeLockState 70) sample_locks) {#sample_locks#}
   \<and> unlock (lock (makeLockState 70) sample_locks) sample_locks = makeLockState 70
   \<and> \<not> canLock (lock (makeLockState 70) sample_locks) sample_locks"
proof -
  have "canLock (makeLockState 70) sample_locks"
    "\<not> canLock (lock (makeLockState 70) sample_locks) sample_locks"
    by code_simp+
  then show ?thesis
    using lock_state_exact[OF lock_inv_make locks_wf_sample] lock_inv_make locks_wf_sample by auto
qed

end
