(* ===== verification/Kernel_Combiner.thy ===== *)
theory Kernel_Combiner
  imports Kernel_Locks Cog_Queue
begin

text \<open>
  \<open>kernel/combiner.go\<close>: \<open>lockCombiner\<close>, which grants jobs the locks of their tasks.  The
  combiner's own state is a record; the goroutines that call \<open>arrive\<close> and \<open>release\<close> are the
  threads of a step relation, each at one point of \<open>combine\<close>, so that every interleaving of
  pushes, \<open>TryLock\<close>s and the two last looks at the queues is a run.  What one thread does to
  the state only the mutex holder touches is one step, but every grant is its own: a job handed
  on may finish and release while the pass goes on.  A job that locks nothing never reaches the
  combiner's state, and its release does nothing.

  The model bounds the jobs inside the combiner by \<open>2 ^ 32 - 1\<close>, as the 32-bit reader counts need;
  slots of jobs are 32-bit indexes of a pool.
\<close>

section \<open>State and the steps of a pass\<close>

record lock_request =
  rq_slot :: u32
  rq_task :: u32

definition no_request :: lock_request where
  "no_request = \<lparr>rq_slot = 0, rq_task = 0\<rparr>"

record combiner =
  cb_arrivals :: "lock_request queue"
  cb_releases :: "u32 queue"
  cb_locks :: lock_state
  cb_waiting :: "lock_request list"

definition new_combiner :: "nat \<Rightarrow> combiner" where
  "new_combiner n = \<lparr>cb_arrivals = empty_queue, cb_releases = empty_queue,
     cb_locks = makeLockState n, cb_waiting = []\<rparr>"

text \<open>The kernel's lock table is \<open>tab\<close>: the locks of each task by its index.\<close>

definition task_of :: "task_locks list \<Rightarrow> u32 \<Rightarrow> task_locks" where
  "task_of tab task = tab ! unat task"

definition locks_for :: "task_locks list \<Rightarrow> lock_request \<Rightarrow> task_locks" where
  "locks_for tab r = task_of tab (rq_task r)"

definition push_arrival :: "combiner \<Rightarrow> lock_request \<Rightarrow> combiner" where
  "push_arrival c r = c\<lparr>cb_arrivals := snd (q_push no_request (cb_arrivals c) r)\<rparr>"

definition push_release :: "combiner \<Rightarrow> u32 \<Rightarrow> combiner" where
  "push_release c task = c\<lparr>cb_releases := snd (q_push 0 (cb_releases c) task)\<rparr>"

definition drain_releases :: "task_locks list \<Rightarrow> combiner \<Rightarrow> combiner" where
  "drain_releases tab c =
     (case q_drain 0 (cb_releases c) [] of (released, q) \<Rightarrow>
        c\<lparr>cb_releases := q, cb_locks := fold (\<lambda>task s. unlock s (task_of tab task)) released (cb_locks c)\<rparr>)"

definition drain_arrivals :: "combiner \<Rightarrow> combiner" where
  "drain_arrivals c =
     (case q_drain no_request (cb_arrivals c) [] of (arrived, q) \<Rightarrow>
        c\<lparr>cb_arrivals := q, cb_waiting := cb_waiting c @ arrived,
          cb_locks := clearReservations (cb_locks c)\<rparr>)"

text \<open>
  The loop over the waiting requests, with the requests still waiting and those handed to the
  runner so far.  The source filters in place: the writes never overtake the reads.
\<close>

fun grant_loop :: "task_locks list \<Rightarrow> lock_state \<Rightarrow> lock_request list \<Rightarrow> lock_request list \<Rightarrow>
    lock_request list \<Rightarrow> lock_state \<times> lock_request list \<times> lock_request list" where
  "grant_loop tab s [] still granted = (s, still, granted)"
| "grant_loop tab s (r # rs) still granted =
     (if canLock s (locks_for tab r)
      then grant_loop tab (lock s (locks_for tab r)) rs still (granted @ [r])
      else grant_loop tab (reserve s (locks_for tab r)) rs (still @ [r]) granted)"

text \<open>One pass of \<open>combine\<close> with nothing interleaved: the new state and the jobs handed on.\<close>

definition combine_pass :: "task_locks list \<Rightarrow> combiner \<Rightarrow> combiner \<times> lock_request list" where
  "combine_pass tab c =
     (let c1 = drain_arrivals (drain_releases tab c)
      in case grant_loop tab (cb_locks c1) (cb_waiting c1) [] [] of
           (s, still, granted) \<Rightarrow> (c1\<lparr>cb_locks := s, cb_waiting := still\<rparr>, granted))"

section \<open>The goroutines\<close>

text \<open>
  Where a goroutine is: outside, about to try the mutex, holding it before the releases and
  before the arrivals are drained, in the grant loop with the requests to come and those still
  waiting, and at the two last looks.
\<close>

datatype cb_pc = Outside | AtTry | AtReleases | AtArrivals
  | Granting "lock_request list" "lock_request list" | AskReleases | AskArrivals

fun holds :: "cb_pc \<Rightarrow> bool" where
  "holds AtReleases = True"
| "holds AtArrivals = True"
| "holds (Granting _ _) = True"
| "holds _ = False"

text \<open>
  The system: the combiner, who holds its mutex, where each goroutine is, the jobs running
  with locks held, every job handed to the runner so far, and how many jobs that lock something
  are between \<open>arrive\<close> and the unlocking of their locks.
\<close>

record cb_system =
  sy_comb :: combiner
  sy_owner :: "nat option"
  sy_pc :: "nat \<Rightarrow> cb_pc"
  sy_running :: "lock_request list"
  sy_handed :: "lock_request list"
  sy_jobs :: nat

definition cb_init :: "nat \<Rightarrow> cb_system" where
  "cb_init n = \<lparr>sy_comb = new_combiner n, sy_owner = None, sy_pc = (\<lambda>_. Outside),
     sy_running = [], sy_handed = [], sy_jobs = 0\<rparr>"

inductive cb_step :: "task_locks list \<Rightarrow> cb_system \<Rightarrow> cb_system \<Rightarrow> bool" for tab where
  arrive_free: "\<lbrakk>sy_pc y t = Outside; unat (rq_task r) < length tab; locksNothing (locks_for tab r)\<rbrakk>
    \<Longrightarrow> cb_step tab y (y\<lparr>sy_handed := sy_handed y @ [r]\<rparr>)"
| arrive: "\<lbrakk>sy_pc y t = Outside; unat (rq_task r) < length tab; \<not> locksNothing (locks_for tab r);
      Suc (sy_jobs y) < 2 ^ 32\<rbrakk>
    \<Longrightarrow> cb_step tab y (y\<lparr>sy_comb := push_arrival (sy_comb y) r, sy_pc := (sy_pc y)(t := AtTry),
         sy_jobs := Suc (sy_jobs y)\<rparr>)"
| release: "\<lbrakk>sy_pc y t = Outside; r \<in> set (sy_running y)\<rbrakk>
    \<Longrightarrow> cb_step tab y (y\<lparr>sy_comb := push_release (sy_comb y) (rq_task r),
         sy_running := remove1 r (sy_running y), sy_pc := (sy_pc y)(t := AtTry)\<rparr>)"
| try_fails: "\<lbrakk>sy_pc y t = AtTry; sy_owner y \<noteq> None\<rbrakk>
    \<Longrightarrow> cb_step tab y (y\<lparr>sy_pc := (sy_pc y)(t := Outside)\<rparr>)"
| try_succeeds: "\<lbrakk>sy_pc y t = AtTry; sy_owner y = None\<rbrakk>
    \<Longrightarrow> cb_step tab y (y\<lparr>sy_owner := Some t, sy_pc := (sy_pc y)(t := AtReleases)\<rparr>)"
| unlock_released: "\<lbrakk>sy_pc y t = AtReleases\<rbrakk>
    \<Longrightarrow> cb_step tab y (y\<lparr>sy_comb := drain_releases tab (sy_comb y), sy_pc := (sy_pc y)(t := AtArrivals),
         sy_jobs := sy_jobs y - q_len (cb_releases (sy_comb y))\<rparr>)"
| take_arrived: "\<lbrakk>sy_pc y t = AtArrivals; c = drain_arrivals (sy_comb y)\<rbrakk>
    \<Longrightarrow> cb_step tab y (y\<lparr>sy_comb := c, sy_pc := (sy_pc y)(t := Granting (cb_waiting c) [])\<rparr>)"
| grant: "\<lbrakk>sy_pc y t = Granting (r # rs) still; canLock (cb_locks (sy_comb y)) (locks_for tab r)\<rbrakk>
    \<Longrightarrow> cb_step tab y (y\<lparr>
         sy_comb := (sy_comb y)\<lparr>cb_locks := lock (cb_locks (sy_comb y)) (locks_for tab r)\<rparr>,
         sy_running := sy_running y @ [r], sy_handed := sy_handed y @ [r],
         sy_pc := (sy_pc y)(t := Granting rs still)\<rparr>)"
| keep_waiting: "\<lbrakk>sy_pc y t = Granting (r # rs) still; \<not> canLock (cb_locks (sy_comb y)) (locks_for tab r)\<rbrakk>
    \<Longrightarrow> cb_step tab y (y\<lparr>
         sy_comb := (sy_comb y)\<lparr>cb_locks := reserve (cb_locks (sy_comb y)) (locks_for tab r)\<rparr>,
         sy_pc := (sy_pc y)(t := Granting rs (still @ [r]))\<rparr>)"
| unlock_mutex: "\<lbrakk>sy_pc y t = Granting [] still\<rbrakk>
    \<Longrightarrow> cb_step tab y (y\<lparr>sy_comb := (sy_comb y)\<lparr>cb_waiting := still\<rparr>, sy_owner := None,
         sy_pc := (sy_pc y)(t := AskReleases)\<rparr>)"
| ask_releases: "\<lbrakk>sy_pc y t = AskReleases\<rbrakk>
    \<Longrightarrow> cb_step tab y (y\<lparr>sy_pc := (sy_pc y)(t :=
         if q_len (cb_releases (sy_comb y)) = 0 then AskArrivals else AtTry)\<rparr>)"
| ask_arrivals: "\<lbrakk>sy_pc y t = AskArrivals\<rbrakk>
    \<Longrightarrow> cb_step tab y (y\<lparr>sy_pc := (sy_pc y)(t :=
         if q_len (cb_arrivals (sy_comb y)) = 0 then Outside else AtTry)\<rparr>)"

inductive cb_reach :: "nat \<Rightarrow> task_locks list \<Rightarrow> cb_system \<Rightarrow> bool" for n tab where
  start: "cb_reach n tab (cb_init n)"
| step: "cb_reach n tab y \<Longrightarrow> cb_step tab y y' \<Longrightarrow> cb_reach n tab y'"

text \<open>What registration gives: every task's masks are within the kernel's resources.\<close>

definition table_wf :: "nat \<Rightarrow> task_locks list \<Rightarrow> bool" where
  "table_wf n tab \<longleftrightarrow> (\<forall>l \<in> set tab. locks_wf n l)"

section \<open>Queues of the combiner\<close>

lemma push_arrival_simps [simp]:
  assumes "q_wf (cb_arrivals c)" and "\<not> q_closed (cb_arrivals c)"
  shows "q_wf (cb_arrivals (push_arrival c r))" "\<not> q_closed (cb_arrivals (push_arrival c r))"
    "q_items (cb_arrivals (push_arrival c r)) = q_items (cb_arrivals c) @ [r]"
  using assms by (simp_all add: push_arrival_def fifo.push_wf fifo.push_items fifo.push_closed)

lemma push_arrival_frame [simp]:
  "cb_releases (push_arrival c r) = cb_releases c" "cb_locks (push_arrival c r) = cb_locks c"
  "cb_waiting (push_arrival c r) = cb_waiting c"
  by (simp_all add: push_arrival_def)

lemma push_release_simps [simp]:
  assumes "q_wf (cb_releases c)" and "\<not> q_closed (cb_releases c)"
  shows "q_wf (cb_releases (push_release c r))" "\<not> q_closed (cb_releases (push_release c r))"
    "q_items (cb_releases (push_release c r)) = q_items (cb_releases c) @ [r]"
  using assms by (simp_all add: push_release_def fifo.push_wf fifo.push_items fifo.push_closed)

lemma push_release_frame [simp]:
  "cb_arrivals (push_release c r) = cb_arrivals c" "cb_locks (push_release c r) = cb_locks c"
  "cb_waiting (push_release c r) = cb_waiting c"
  by (simp_all add: push_release_def)

lemma drain_releases_simps:
  assumes "q_wf (cb_releases c)" and "\<not> q_closed (cb_releases c)"
  shows "q_wf (cb_releases (drain_releases tab c))" "\<not> q_closed (cb_releases (drain_releases tab c))"
    "q_items (cb_releases (drain_releases tab c)) = []"
    "cb_locks (drain_releases tab c) =
       fold (\<lambda>l s. unlock s l) (map (task_of tab) (q_items (cb_releases c))) (cb_locks c)"
  using assms fifo.drain_wf[of "cb_releases c" 0 "[]"] fifo.drain_items[of "cb_releases c" 0 "[]"]
    fifo.drain_closed[of "cb_releases c" 0 "[]"] fifo.drain_answer[of "cb_releases c" 0 "[]"]
  by (simp_all add: drain_releases_def case_prod_beta fold_map comp_def)

lemma drain_releases_frame [simp]:
  "cb_arrivals (drain_releases tab c) = cb_arrivals c" "cb_waiting (drain_releases tab c) = cb_waiting c"
  by (simp_all add: drain_releases_def case_prod_beta)

lemma drain_arrivals_simps:
  assumes "q_wf (cb_arrivals c)" and "\<not> q_closed (cb_arrivals c)"
  shows "q_wf (cb_arrivals (drain_arrivals c))" "\<not> q_closed (cb_arrivals (drain_arrivals c))"
    "q_items (cb_arrivals (drain_arrivals c)) = []"
    "cb_waiting (drain_arrivals c) = cb_waiting c @ q_items (cb_arrivals c)"
  using assms fifo.drain_wf[of "cb_arrivals c" no_request "[]"] fifo.drain_items[of "cb_arrivals c" no_request "[]"]
    fifo.drain_closed[of "cb_arrivals c" no_request "[]"] fifo.drain_answer[of "cb_arrivals c" no_request "[]"]
  by (simp_all add: drain_arrivals_def case_prod_beta)

lemma drain_arrivals_frame [simp]:
  "cb_releases (drain_arrivals c) = cb_releases c"
  "cb_locks (drain_arrivals c) = clearReservations (cb_locks c)"
  by (simp_all add: drain_arrivals_def case_prod_beta)

section \<open>The invariant\<close>

text \<open>The locks held: those of the running jobs, and those released and not unlocked yet.\<close>

definition sy_held :: "task_locks list \<Rightarrow> cb_system \<Rightarrow> task_locks multiset" where
  "sy_held tab y = image_mset (locks_for tab) (mset (sy_running y))
     + image_mset (task_of tab) (mset (q_items (cb_releases (sy_comb y))))"

text \<open>The requests past the arrivals queue and not granted, oldest first.\<close>

definition sy_pending :: "cb_system \<Rightarrow> lock_request list" where
  "sy_pending y =
     (case sy_owner y of None \<Rightarrow> cb_waiting (sy_comb y)
      | Some t \<Rightarrow> (case sy_pc y t of Granting rs still \<Rightarrow> still @ rs | _ \<Rightarrow> cb_waiting (sy_comb y)))"

text \<open>A list of waiting requests each of which is held up, by a holder or by a writer before it.\<close>

definition touches :: "task_locks \<Rightarrow> nat set" where
  "touches l = reads_of l \<union> writes_of l"

definition held_up :: "task_locks list \<Rightarrow> task_locks multiset \<Rightarrow> lock_request list \<Rightarrow> bool" where
  "held_up tab held ws \<longleftrightarrow> (\<forall>i < length ws.
     (\<exists>h \<in># held. \<not> compatible h (locks_for tab (ws ! i)))
     \<or> (\<exists>j < i. writes_of (locks_for tab (ws ! j)) \<inter> touches (locks_for tab (ws ! i)) \<noteq> {}))"

text \<open>What is known of the waiting requests depends on where the mutex's holder is.\<close>

definition waiting_ok :: "task_locks list \<Rightarrow> cb_system \<Rightarrow> bool" where
  "waiting_ok tab y =
     (case sy_owner y of None \<Rightarrow> held_up tab (sy_held tab y) (cb_waiting (sy_comb y))
      | Some t \<Rightarrow> (case sy_pc y t of
          AtReleases \<Rightarrow> held_up tab (sy_held tab y) (cb_waiting (sy_comb y))
        | Granting rs still \<Rightarrow> held_up tab (sy_held tab y) still
            \<and> mask_set (ls_reserved (cb_locks (sy_comb y))) = (\<Union>w \<in> set still. writes_of (locks_for tab w))
        | _ \<Rightarrow> True))"

definition will_see_releases :: "cb_pc \<Rightarrow> bool" where
  "will_see_releases pc \<longleftrightarrow> pc = AtTry \<or> holds pc \<or> pc = AskReleases"

definition qs_ok :: "cb_system \<Rightarrow> bool" where
  "qs_ok y \<longleftrightarrow> q_wf (cb_arrivals (sy_comb y)) \<and> \<not> q_closed (cb_arrivals (sy_comb y))
     \<and> q_wf (cb_releases (sy_comb y)) \<and> \<not> q_closed (cb_releases (sy_comb y))"

definition owner_ok :: "cb_system \<Rightarrow> bool" where
  "owner_ok y \<longleftrightarrow> (\<forall>t. holds (sy_pc y t) \<longleftrightarrow> sy_owner y = Some t)"

definition locks_ok :: "nat \<Rightarrow> task_locks list \<Rightarrow> cb_system \<Rightarrow> bool" where
  "locks_ok n tab y \<longleftrightarrow> lock_inv n (cb_locks (sy_comb y)) (sy_held tab y)
     \<and> (\<forall>r \<in> set (sy_pending y) \<union> set (q_items (cb_arrivals (sy_comb y))). locks_wf n (locks_for tab r))
     \<and> sy_jobs y = size (sy_held tab y) + length (sy_pending y) + length (q_items (cb_arrivals (sy_comb y)))
     \<and> sy_jobs y < 2 ^ 32"

definition seen_ok :: "cb_system \<Rightarrow> bool" where
  "seen_ok y \<longleftrightarrow>
     (q_items (cb_releases (sy_comb y)) \<noteq> [] \<longrightarrow> (\<exists>t. will_see_releases (sy_pc y t)))
     \<and> (q_items (cb_arrivals (sy_comb y)) \<noteq> [] \<longrightarrow>
          (\<exists>t. will_see_releases (sy_pc y t) \<or> sy_pc y t = AskArrivals))"

definition cb_inv :: "nat \<Rightarrow> task_locks list \<Rightarrow> cb_system \<Rightarrow> bool" where
  "cb_inv n tab y \<longleftrightarrow> qs_ok y \<and> owner_ok y \<and> locks_ok n tab y \<and> seen_ok y \<and> waiting_ok tab y"

lemma cb_inv_init: "cb_inv n tab (cb_init n)"
  by (simp add: cb_inv_def qs_ok_def owner_ok_def locks_ok_def seen_ok_def cb_init_def new_combiner_def
      sy_held_def sy_pending_def lock_inv_make waiting_ok_def held_up_def empty_queue_def q_items_def q_wf_def)

subsection \<open>Queues, the owner, and what is seen\<close>

lemma qs_ok_step: "cb_step tab y y' \<Longrightarrow> qs_ok y \<Longrightarrow> qs_ok y'"
  by (induction rule: cb_step.induct) (auto simp: qs_ok_def drain_releases_simps drain_arrivals_simps)

text \<open>A move of one thread keeps the owner, takes the free mutex, or gives its own up.\<close>

lemma owner_ok_moved:
  assumes "owner_ok y" and "sy_pc y' = (sy_pc y)(t := pc)"
    and "sy_owner y' = sy_owner y \<and> holds pc = holds (sy_pc y t)
      \<or> sy_owner y = None \<and> sy_owner y' = Some t \<and> holds pc
      \<or> holds (sy_pc y t) \<and> sy_owner y' = None \<and> \<not> holds pc"
  shows "owner_ok y'"
  unfolding owner_ok_def
proof
  fix u
  have "holds (sy_pc y v) \<longleftrightarrow> sy_owner y = Some v" for v
    using assms(1) by (simp add: owner_ok_def)
  from this[of u] this[of t] show "holds (sy_pc y' u) \<longleftrightarrow> sy_owner y' = Some u"
    unfolding assms(2) using assms(3) by (cases "u = t") auto
qed

lemma owner_ok_step:
  assumes "cb_step tab y y'" and "owner_ok y"
  shows "owner_ok y'"
  using assms(1)
proof (cases rule: cb_step.cases)
  case (arrive_free t r)
  then show ?thesis using assms(2) by (simp add: owner_ok_def)
next
  case (ask_releases t)
  show ?thesis
    by (rule owner_ok_moved[OF assms(2), of _ t], simp only: ask_releases(1) cb_system.simps)
      (use ask_releases in \<open>auto split: if_splits\<close>)
next
  case (ask_arrivals t)
  show ?thesis
    by (rule owner_ok_moved[OF assms(2), of _ t], simp only: ask_arrivals(1) cb_system.simps)
      (use ask_arrivals in \<open>auto split: if_splits\<close>)
qed (rule owner_ok_moved[OF assms(2)], simp, force)+

lemma q_len_items: "q_len q = 0 \<longleftrightarrow> q_items q = []"
  by (simp add: q_len_def q_items_def)

text \<open>
  A thread that gives up trying leaves the mutex's holder behind it, who looks at both queues
  after unlocking; one that saw no releases still looks at the arrivals.
\<close>

lemma holder_sees: "owner_ok y \<Longrightarrow> sy_owner y = Some t \<Longrightarrow> will_see_releases (sy_pc y t)"
  by (auto simp: owner_ok_def will_see_releases_def)

lemma seen_ok_moved:
  assumes "seen_ok y" and "sy_comb y' = sy_comb y" and "sy_pc y' = (sy_pc y)(t := pc)"
    and "will_see_releases (sy_pc y t) \<Longrightarrow> will_see_releases pc \<or> (\<exists>t'. t' \<noteq> t \<and> will_see_releases (sy_pc y t'))
      \<or> (q_items (cb_releases (sy_comb y)) = [] \<and> (pc = AskArrivals \<or> q_items (cb_arrivals (sy_comb y)) = []))"
    and "sy_pc y t = AskArrivals \<Longrightarrow> will_see_releases pc \<or> q_items (cb_arrivals (sy_comb y)) = []"
  shows "seen_ok y'"
  unfolding seen_ok_def assms(2,3)
proof (intro conjI impI)
  assume "q_items (cb_releases (sy_comb y)) \<noteq> []"
  moreover from this obtain u where "will_see_releases (sy_pc y u)"
    using assms(1) by (auto simp: seen_ok_def)
  ultimately show "\<exists>u. will_see_releases (((sy_pc y)(t := pc)) u)"
    using assms(4) by (cases "u = t") (auto intro: exI[of _ u])
next
  assume ne: "q_items (cb_arrivals (sy_comb y)) \<noteq> []"
  then obtain u where "will_see_releases (sy_pc y u) \<or> sy_pc y u = AskArrivals"
    using assms(1) by (auto simp: seen_ok_def)
  then show "\<exists>u. will_see_releases (((sy_pc y)(t := pc)) u) \<or> ((sy_pc y)(t := pc)) u = AskArrivals"
    using assms(4,5) ne by (cases "u = t") (auto intro: exI[of _ u])
qed

lemma seen_okI: "will_see_releases (sy_pc y t) \<Longrightarrow> seen_ok y"
  by (auto simp: seen_ok_def)

lemma seen_ok_movedI: "sy_pc y' = (sy_pc y)(t := pc) \<Longrightarrow> will_see_releases pc \<Longrightarrow> seen_ok y'"
  by (rule seen_okI[of _ t]) simp

lemma seen_ok_step:
  assumes "cb_step tab y y'" and "qs_ok y" and "owner_ok y" and "seen_ok y"
  shows "seen_ok y'"
  using assms(1)
proof (cases rule: cb_step.cases)
  case (arrive_free t r)
  then show ?thesis using assms(4) by (simp add: seen_ok_def)
next
  case (try_fails t)
  then obtain u where u: "sy_owner y = Some u" by auto
  then have "holds (sy_pc y u)"
    using assms(3) by (simp add: owner_ok_def)
  then have "holds (sy_pc y u)" "u \<noteq> t"
    using try_fails(2) by auto
  then show ?thesis
    using try_fails by (intro seen_okI[of _ u]) (simp add: will_see_releases_def)
next
  case (ask_releases t)
  show ?thesis
    by (rule seen_ok_moved[OF assms(4), of _ t])
      (use ask_releases in \<open>auto simp: q_len_items will_see_releases_def split: if_splits\<close>)
next
  case (ask_arrivals t)
  show ?thesis
    by (rule seen_ok_moved[OF assms(4), of _ t])
      (use ask_arrivals in \<open>auto simp: q_len_items will_see_releases_def split: if_splits\<close>)
qed (rule seen_ok_movedI, simp, simp add: will_see_releases_def)+


subsection \<open>The locks held and the requests pending\<close>

text \<open>A thread outside the mutex that moves changes neither what is pending nor what is known of it.\<close>

lemma outside_moved:
  assumes "owner_ok y" and "\<not> holds (sy_pc y t)" and "sy_owner y' = sy_owner y"
    and "sy_pc y' = (sy_pc y)(t := pc)" and "cb_waiting (sy_comb y') = cb_waiting (sy_comb y)"
  shows "sy_pending y' = sy_pending y"
    and "sy_held tab y' = sy_held tab y \<Longrightarrow> cb_locks (sy_comb y') = cb_locks (sy_comb y) \<Longrightarrow>
      waiting_ok tab y' = waiting_ok tab y"
proof -
  have "sy_pc y' u = sy_pc y u" if "sy_owner y = Some u" for u
    using assms(1,2,4) that by (auto simp: owner_ok_def)
  then show "sy_pending y' = sy_pending y"
    "sy_held tab y' = sy_held tab y \<Longrightarrow> cb_locks (sy_comb y') = cb_locks (sy_comb y) \<Longrightarrow>
      waiting_ok tab y' = waiting_ok tab y"
    using assms(3,5) by (auto simp: sy_pending_def waiting_ok_def split: option.split cb_pc.split)
qed

lemma handed_irrelevant [simp]:
  "sy_pending (y\<lparr>sy_handed := h\<rparr>) = sy_pending y" "sy_held tab (y\<lparr>sy_handed := h\<rparr>) = sy_held tab y"
  "waiting_ok tab (y\<lparr>sy_handed := h\<rparr>) = waiting_ok tab y"
  by (auto simp: sy_pending_def sy_held_def waiting_ok_def split: option.split cb_pc.split)

lemma owner_at: "owner_ok y \<Longrightarrow> holds (sy_pc y t) \<Longrightarrow> sy_owner y = Some t"
  by (simp add: owner_ok_def)

lemma sy_held_release:
  assumes "r \<in> set (sy_running y)" and "qs_ok y"
  shows "sy_held tab (y\<lparr>sy_comb := push_release (sy_comb y) (rq_task r),
      sy_running := remove1 r (sy_running y), sy_pc := pcs\<rparr>) = sy_held tab y"
proof -
  obtain M where "mset (sy_running y) = add_mset r M"
    using assms(1) by (metis insert_DiffM set_mset_mset)
  then show ?thesis
    using assms(2) by (simp add: sy_held_def qs_ok_def locks_for_def)
qed

lemma locks_ok_released:
  assumes "locks_ok n tab y" and "owner_ok y" and "qs_ok y" and "sy_pc y t = AtReleases"
    and y': "y' = y\<lparr>sy_comb := drain_releases tab (sy_comb y), sy_pc := (sy_pc y)(t := AtArrivals),
         sy_jobs := sy_jobs y - q_len (cb_releases (sy_comb y))\<rparr>"
  shows "locks_ok n tab y'"
proof -
  let ?rel = "map (task_of tab) (q_items (cb_releases (sy_comb y)))"
  have q: "q_wf (cb_releases (sy_comb y))" "\<not> q_closed (cb_releases (sy_comb y))"
    using assms(3) by (simp_all add: qs_ok_def)
  note d = drain_releases_simps[OF q, of tab]
  have held: "sy_held tab y = image_mset (locks_for tab) (mset (sy_running y)) + mset ?rel"
    by (simp add: sy_held_def)
  have held': "sy_held tab y' = sy_held tab y - mset ?rel"
    by (simp add: held y') (simp add: sy_held_def d(3))
  have size: "size (sy_held tab y) = size (sy_held tab y') + length (q_items (cb_releases (sy_comb y)))"
    unfolding held' held by simp
  have pend: "sy_pending y' = sy_pending y"
    using owner_at[OF assms(2), of t] assms(4) by (simp add: y' sy_pending_def)
  have inv: "lock_inv n (cb_locks (sy_comb y)) (sy_held tab y)"
    using assms(1) by (simp add: locks_ok_def)
  have "mset ?rel \<subseteq># sy_held tab y"
    unfolding held by simp
  from locks.give_back_all[OF inv this]
  have inv': "lock_inv n (cb_locks (sy_comb y')) (sy_held tab y')"
    unfolding held' by (simp add: y' d(4))
  have arr: "cb_arrivals (sy_comb y') = cb_arrivals (sy_comb y)"
    and jobs: "sy_jobs y' = sy_jobs y - length (q_items (cb_releases (sy_comb y)))"
    by (simp_all add: y' q_len_def)
  show ?thesis
    using assms(1) inv' size unfolding locks_ok_def pend arr jobs by (simp del: length_q_items)
qed

lemma locks_ok_arrived:
  assumes "locks_ok n tab y" and "owner_ok y" and "qs_ok y" and "sy_pc y t = AtArrivals"
  shows "locks_ok n tab (y\<lparr>sy_comb := drain_arrivals (sy_comb y),
         sy_pc := (sy_pc y)(t := Granting (cb_waiting (drain_arrivals (sy_comb y))) [])\<rparr>)" (is "locks_ok n tab ?y")
proof -
  have owner: "sy_owner y = Some t"
    using assms(2,4) by (simp add: owner_at)
  have q: "q_wf (cb_arrivals (sy_comb y))" "\<not> q_closed (cb_arrivals (sy_comb y))"
    using assms(3) by (simp_all add: qs_ok_def)
  note d = drain_arrivals_simps[OF q]
  have "sy_held tab ?y = sy_held tab y"
    by (simp add: sy_held_def)
  moreover have "sy_pending ?y = sy_pending y @ q_items (cb_arrivals (sy_comb y))"
    using owner assms(4) d(4) by (simp add: sy_pending_def)
  ultimately show ?thesis
    using assms(1) d(3) by (auto simp: locks_ok_def lock_inv_clear)
qed

lemma locks_ok_grant:
  assumes "locks_ok n tab y" and "owner_ok y" and "sy_pc y t = Granting (r # rs) still"
    and "canLock (cb_locks (sy_comb y)) (locks_for tab r)"
  shows "locks_ok n tab (y\<lparr>
         sy_comb := (sy_comb y)\<lparr>cb_locks := lock (cb_locks (sy_comb y)) (locks_for tab r)\<rparr>,
         sy_running := sy_running y @ [r], sy_handed := sy_handed y @ [r],
         sy_pc := (sy_pc y)(t := Granting rs still)\<rparr>)" (is "locks_ok n tab ?y")
proof -
  have owner: "sy_owner y = Some t"
    using assms(2,3) by (simp add: owner_at)
  have pend: "sy_pending y = still @ r # rs" "sy_pending ?y = still @ rs"
    using owner assms(3) by (simp_all add: sy_pending_def)
  have held: "sy_held tab ?y = add_mset (locks_for tab r) (sy_held tab y)"
    by (simp add: sy_held_def)
  have "lock_inv n (lock (cb_locks (sy_comb y)) (locks_for tab r)) (add_mset (locks_for tab r) (sy_held tab y))"
    by (rule lock_preserves) (use assms(1,4) pend(1) in \<open>auto simp: locks_ok_def\<close>)
  then show ?thesis
    using assms(1) pend held by (auto simp: locks_ok_def)
qed

lemma locks_ok_keep:
  assumes "locks_ok n tab y" and "owner_ok y" and "sy_pc y t = Granting (r # rs) still"
  shows "locks_ok n tab (y\<lparr>
         sy_comb := (sy_comb y)\<lparr>cb_locks := reserve (cb_locks (sy_comb y)) (locks_for tab r)\<rparr>,
         sy_pc := (sy_pc y)(t := Granting rs (still @ [r]))\<rparr>)" (is "locks_ok n tab ?y")
proof -
  have owner: "sy_owner y = Some t"
    using assms(2,3) by (simp add: owner_at)
  have pend: "sy_pending y = still @ r # rs" "sy_pending ?y = still @ r # rs"
    using owner assms(3) by (simp_all add: sy_pending_def)
  have held: "sy_held tab ?y = sy_held tab y"
    by (simp add: sy_held_def)
  then show ?thesis
    using assms(1) pend by (auto simp: locks_ok_def lock_inv_reserve)
qed

lemma locks_ok_step:
  assumes "cb_step tab y y'" and "table_wf n tab" and "qs_ok y" and "owner_ok y" and "locks_ok n tab y"
  shows "locks_ok n tab y'"
  using assms(1)
proof (cases rule: cb_step.cases)
  case (arrive_free t r)
  then show ?thesis using assms(5) by (simp add: locks_ok_def)
next
  case (arrive t r)
  have "sy_pending y' = sy_pending y"
    by (rule outside_moved(1)[OF assms(4), of t]) (use arrive in auto)
  moreover have "sy_held tab y' = sy_held tab y"
    by (simp add: arrive(1) sy_held_def)
  moreover have "locks_wf n (locks_for tab r)"
    using assms(2) arrive(3) by (simp add: table_wf_def locks_for_def task_of_def)
  ultimately show ?thesis
    using assms(3,5) arrive(1,5) by (auto simp: locks_ok_def qs_ok_def)
next
  case (release t r)
  have "sy_pending y' = sy_pending y"
    by (rule outside_moved(1)[OF assms(4), of t]) (use release in auto)
  moreover have "sy_held tab y' = sy_held tab y"
    unfolding release(1) by (rule sy_held_release[OF release(3) assms(3)])
  ultimately show ?thesis
    using assms(5) release(1) by (simp add: locks_ok_def)
next
  case (try_fails t)
  have "sy_pending y' = sy_pending y"
    by (rule outside_moved(1)[OF assms(4), of t]) (use try_fails in auto)
  then show ?thesis
    using assms(5) try_fails(1) by (simp add: locks_ok_def sy_held_def)
next
  case (try_succeeds t)
  then show ?thesis
    using assms(5) by (simp add: locks_ok_def sy_held_def sy_pending_def)
next
  case (unlock_released t)
  then show ?thesis using locks_ok_released[OF assms(5,4,3)] by blast
next
  case (take_arrived t c)
  then show ?thesis using locks_ok_arrived[OF assms(5,4,3)] by simp
next
  case (grant t r rs still)
  then show ?thesis using locks_ok_grant[OF assms(5,4)] by simp
next
  case (keep_waiting t r rs still)
  then show ?thesis using locks_ok_keep[OF assms(5,4)] by simp
next
  case (unlock_mutex t still)
  then show ?thesis
    using assms(5) owner_at[OF assms(4), of t] by (simp add: locks_ok_def sy_held_def sy_pending_def)
next
  case (ask_releases t)
  have "sy_pending y' = sy_pending y"
    by (rule outside_moved(1)[OF assms(4), of t]) (use ask_releases in auto)
  then show ?thesis
    using assms(5) ask_releases(1) by (simp add: locks_ok_def sy_held_def)
next
  case (ask_arrivals t)
  have "sy_pending y' = sy_pending y"
    by (rule outside_moved(1)[OF assms(4), of t]) (use ask_arrivals in auto)
  then show ?thesis
    using assms(5) ask_arrivals(1) by (simp add: locks_ok_def sy_held_def)
qed


subsection \<open>The requests waiting are held up\<close>

lemma held_up_mono: "held_up tab held ws \<Longrightarrow> held \<subseteq># held' \<Longrightarrow> held_up tab held' ws"
  unfolding held_up_def by (meson mset_subset_eqD)

lemma held_up_snoc:
  assumes "held_up tab held ws"
    and "(\<exists>h \<in># held. \<not> compatible h (locks_for tab w))
      \<or> (\<Union>v \<in> set ws. writes_of (locks_for tab v)) \<inter> touches (locks_for tab w) \<noteq> {}"
  shows "held_up tab held (ws @ [w])"
  unfolding held_up_def
proof (intro allI impI)
  fix i
  assume "i < length (ws @ [w])"
  then consider "i < length ws" | "i = length ws" by fastforce
  then show "(\<exists>h \<in># held. \<not> compatible h (locks_for tab ((ws @ [w]) ! i)))
     \<or> (\<exists>j < i. writes_of (locks_for tab ((ws @ [w]) ! j)) \<inter> touches (locks_for tab ((ws @ [w]) ! i)) \<noteq> {})"
  proof cases
    case 1
    then have "(ws @ [w]) ! i = ws ! i" "\<And>j. j < i \<Longrightarrow> (ws @ [w]) ! j = ws ! j"
      by (simp_all add: nth_append)
    moreover have "(\<exists>h \<in># held. \<not> compatible h (locks_for tab (ws ! i)))
        \<or> (\<exists>j < i. writes_of (locks_for tab (ws ! j)) \<inter> touches (locks_for tab (ws ! i)) \<noteq> {})"
      using assms(1) 1 unfolding held_up_def by blast
    ultimately show ?thesis by metis
  next
    case 2
    show ?thesis
    proof (cases "\<exists>h \<in># held. \<not> compatible h (locks_for tab w)")
      case True
      then show ?thesis using 2 by simp
    next
      case False
      then obtain v where "v \<in> set ws" "writes_of (locks_for tab v) \<inter> touches (locks_for tab w) \<noteq> {}"
        using assms(2) by auto
      then obtain j where "j < length ws" "writes_of (locks_for tab (ws ! j)) \<inter> touches (locks_for tab w) \<noteq> {}"
        by (auto simp: in_set_conv_nth)
      then show ?thesis using 2 by (auto simp: nth_append intro!: exI[of _ j])
    qed
  qed
qed

lemma waiting_ok_step:
  assumes "cb_step tab y y'" and "qs_ok y" and "owner_ok y" and "locks_ok n tab y" and "waiting_ok tab y"
  shows "waiting_ok tab y'"
  using assms(1)
proof (cases rule: cb_step.cases)
  case (arrive_free t r)
  then show ?thesis using assms(5) by simp
next
  case (arrive t r)
  have "waiting_ok tab y' = waiting_ok tab y"
    by (rule outside_moved(2)[OF assms(3), of t]) (use arrive in \<open>auto simp: sy_held_def\<close>)
  then show ?thesis using assms(5) by simp
next
  case (release t r)
  have "waiting_ok tab y' = waiting_ok tab y"
    by (rule outside_moved(2)[OF assms(3), of t])
      (use release sy_held_release[OF release(3) assms(2), of tab] in auto)
  then show ?thesis using assms(5) by simp
next
  case (try_fails t)
  have "waiting_ok tab y' = waiting_ok tab y"
    by (rule outside_moved(2)[OF assms(3), of t]) (use try_fails in \<open>auto simp: sy_held_def\<close>)
  then show ?thesis using assms(5) by simp
next
  case (try_succeeds t)
  then show ?thesis using assms(5) by (simp add: waiting_ok_def sy_held_def)
next
  case (unlock_released t)
  then show ?thesis using owner_at[OF assms(3), of t] by (simp add: waiting_ok_def)
next
  case (take_arrived t c)
  then show ?thesis
    using owner_at[OF assms(3), of t] by (simp add: waiting_ok_def held_up_def clearReservations_spec)
next
  case (grant t r rs still)
  have owner: "sy_owner y = Some t"
    using owner_at[OF assms(3), of t] grant(2) by simp
  have "r \<in> set (sy_pending y)"
    using owner grant(2) by (simp add: sy_pending_def)
  then have wf: "locks_wf n (locks_for tab r)" and shape: "ls_shape n (cb_locks (sy_comb y))"
    using assms(4) by (simp_all add: locks_ok_def lock_inv_def)
  have "sy_held tab y \<subseteq># sy_held tab y'"
    by (simp add: grant(1) sy_held_def)
  then show ?thesis
    using assms(5) owner grant held_up_mono[of tab "sy_held tab y" still "sy_held tab y'"]
    by (simp add: waiting_ok_def lock_spec(4)[OF shape wf])
next
  case (keep_waiting t r rs still)
  have owner: "sy_owner y = Some t"
    using owner_at[OF assms(3), of t] keep_waiting(2) by simp
  have "r \<in> set (sy_pending y)"
    using owner keep_waiting(2) by (simp add: sy_pending_def)
  then have wf: "locks_wf n (locks_for tab r)" and inv: "lock_inv n (cb_locks (sy_comb y)) (sy_held tab y)"
    using assms(4) by (simp_all add: locks_ok_def)
  then have shape: "ls_shape n (cb_locks (sy_comb y))" by (simp add: lock_inv_def)
  have held: "sy_held tab y' = sy_held tab y"
    by (simp add: keep_waiting(1) sy_held_def)
  have old: "held_up tab (sy_held tab y) still"
    "mask_set (ls_reserved (cb_locks (sy_comb y))) = (\<Union>w \<in> set still. writes_of (locks_for tab w))"
    using assms(5) owner keep_waiting(2) by (simp_all add: waiting_ok_def)
  have "held_up tab (sy_held tab y) (still @ [r])"
    using canLock_iff[OF inv wf] keep_waiting(3) old(2)
    by (intro held_up_snoc[OF old(1)]) (auto simp: touches_def)
  then show ?thesis
    using owner keep_waiting(1,2) held old(2) reserve_spec(5)[OF shape wf]
    by (simp add: waiting_ok_def Un_commute)
next
  case (unlock_mutex t still)
  then show ?thesis
    using assms(5) owner_at[OF assms(3), of t] by (simp add: waiting_ok_def sy_held_def)
next
  case (ask_releases t)
  have "waiting_ok tab y' = waiting_ok tab y"
    by (rule outside_moved(2)[OF assms(3), of t]) (use ask_releases in \<open>auto simp: sy_held_def\<close>)
  then show ?thesis using assms(5) by simp
next
  case (ask_arrivals t)
  have "waiting_ok tab y' = waiting_ok tab y"
    by (rule outside_moved(2)[OF assms(3), of t]) (use ask_arrivals in \<open>auto simp: sy_held_def\<close>)
  then show ?thesis using assms(5) by simp
qed

lemma cb_reach_inv: "cb_reach n tab y \<Longrightarrow> table_wf n tab \<Longrightarrow> cb_inv n tab y"
proof (induction rule: cb_reach.induct)
  case start
  then show ?case by (simp add: cb_inv_init)
next
  case (step y y')
  then show ?case
    using qs_ok_step[OF step(2)] owner_ok_step[OF step(2)] seen_ok_step[OF step(2)]
      locks_ok_step[OF step(2,4)] waiting_ok_step[OF step(2), of n]
    by (simp add: cb_inv_def)
qed

section \<open>A goroutine running alone\<close>

text \<open>
  The steps of one goroutine from \<open>TryLock\<close> to the last look compose to \<open>combine_pass\<close>, and
  with nothing interleaved the two looks find both queues empty: \<open>combine\<close> returns after one
  pass.
\<close>

lemma grant_loop_granted:
  "grant_loop tab s ws still g =
     (case grant_loop tab s ws still [] of (s', still', g') \<Rightarrow> (s', still', g @ g'))"
proof (induction ws arbitrary: s still g)
  case (Cons r rs)
  show ?case
  proof (cases "canLock s (locks_for tab r)")
    case True
    then show ?thesis
      using Cons.IH[of "lock s (locks_for tab r)" still "g @ [r]"]
        Cons.IH[of "lock s (locks_for tab r)" still "[r]"]
      by (simp split: prod.splits)
  next
    case False
    then show ?thesis using Cons.IH[of "reserve s (locks_for tab r)" "still @ [r]" g] by simp
  qed
qed simp

lemma solo_grants:
  assumes "cb_reach n tab y" and "sy_pc y t = Granting ws still"
    and "grant_loop tab (cb_locks (sy_comb y)) ws still [] = (s', still', gr)"
  shows "cb_reach n tab (y\<lparr>sy_comb := (sy_comb y)\<lparr>cb_locks := s'\<rparr>, sy_running := sy_running y @ gr,
    sy_handed := sy_handed y @ gr, sy_pc := (sy_pc y)(t := Granting [] still')\<rparr>)"
  using assms
proof (induction ws arbitrary: y still gr)
  case Nil
  then have "(sy_pc y)(t := Granting [] still') = sy_pc y" by auto
  with Nil show ?case by (cases y; cases "sy_comb y") auto
next
  case (Cons r rs)
  let ?l = "locks_for tab r"
  show ?case
  proof (cases "canLock (cb_locks (sy_comb y)) ?l")
    case True
    define y1 where "y1 = y\<lparr>sy_comb := (sy_comb y)\<lparr>cb_locks := lock (cb_locks (sy_comb y)) ?l\<rparr>,
         sy_running := sy_running y @ [r], sy_handed := sy_handed y @ [r],
         sy_pc := (sy_pc y)(t := Granting rs still)\<rparr>"
    have "cb_reach n tab y1"
      unfolding y1_def by (rule cb_reach.step[OF Cons.prems(1) cb_step.grant[OF Cons.prems(2) True]])
    moreover obtain gr' where "gr = r # gr'"
      "grant_loop tab (lock (cb_locks (sy_comb y)) ?l) rs still [] = (s', still', gr')"
      using Cons.prems(3) True grant_loop_granted[of tab "lock (cb_locks (sy_comb y)) ?l" rs still "[r]"]
      by (simp split: prod.splits)
    ultimately show ?thesis
      using Cons.IH[of y1 still gr'] by (simp add: y1_def cong: if_cong)
  next
    case False
    define y1 where "y1 = y\<lparr>sy_comb := (sy_comb y)\<lparr>cb_locks := reserve (cb_locks (sy_comb y)) ?l\<rparr>,
         sy_pc := (sy_pc y)(t := Granting rs (still @ [r]))\<rparr>"
    have "cb_reach n tab y1"
      unfolding y1_def by (rule cb_reach.step[OF Cons.prems(1) cb_step.keep_waiting[OF Cons.prems(2) False]])
    then show ?thesis
      using Cons.IH[of y1 "still @ [r]" gr] Cons.prems(3) False by (simp add: y1_def cong: if_cong)
  qed
qed

lemma solo_pass:
  assumes "cb_reach n tab y" and "sy_pc y t = AtTry" and "sy_owner y = None"
  shows "cb_reach n tab (y\<lparr>sy_comb := fst (combine_pass tab (sy_comb y)),
    sy_running := sy_running y @ snd (combine_pass tab (sy_comb y)),
    sy_handed := sy_handed y @ snd (combine_pass tab (sy_comb y)),
    sy_jobs := sy_jobs y - q_len (cb_releases (sy_comb y)), sy_pc := (sy_pc y)(t := AskReleases)\<rparr>)"
proof -
  define c1 where "c1 = drain_arrivals (drain_releases tab (sy_comb y))"
  define y1 where "y1 = y\<lparr>sy_comb := c1, sy_owner := Some t,
    sy_jobs := sy_jobs y - q_len (cb_releases (sy_comb y)),
    sy_pc := (sy_pc y)(t := Granting (cb_waiting c1) [])\<rparr>"
  obtain s still gr where g: "grant_loop tab (cb_locks c1) (cb_waiting c1) [] [] = (s, still, gr)"
    by (cases "grant_loop tab (cb_locks c1) (cb_waiting c1) [] []")
  have "cb_reach n tab y1"
    using cb_reach.step[OF cb_reach.step[OF cb_reach.step[OF assms(1) cb_step.try_succeeds[OF assms(2,3)]]
          cb_step.unlock_released[where t = t]] cb_step.take_arrived[where t = t]]
    by (cases y) (simp add: y1_def c1_def)
  from solo_grants[OF this, of t "cb_waiting c1" "[]" s still gr]
  have "cb_reach n tab (y1\<lparr>sy_comb := c1\<lparr>cb_locks := s\<rparr>, sy_running := sy_running y @ gr,
    sy_handed := sy_handed y @ gr, sy_pc := (sy_pc y1)(t := Granting [] still)\<rparr>)"
    using g by (simp add: y1_def)
  from cb_reach.step[OF this cb_step.unlock_mutex[where t = t and still = still]]
  have "cb_reach n tab (y1\<lparr>sy_comb := c1\<lparr>cb_locks := s, cb_waiting := still\<rparr>, sy_running := sy_running y @ gr,
    sy_handed := sy_handed y @ gr, sy_owner := None, sy_pc := (sy_pc y1)(t := AskReleases)\<rparr>)"
    by (cases y1) simp
  moreover have "combine_pass tab (sy_comb y) = (c1\<lparr>cb_locks := s, cb_waiting := still\<rparr>, gr)"
    using g by (simp add: combine_pass_def c1_def)
  ultimately show ?thesis
    using assms(3) by (cases y) (simp add: y1_def)
qed

lemma combine_pass_empties:
  assumes "q_wf (cb_arrivals c)" "\<not> q_closed (cb_arrivals c)" "q_wf (cb_releases c)" "\<not> q_closed (cb_releases c)"
  shows "q_len (cb_releases (fst (combine_pass tab c))) = 0" "q_len (cb_arrivals (fst (combine_pass tab c))) = 0"
  using drain_releases_simps(3)[OF assms(3,4), of tab] drain_arrivals_simps(3)[of "drain_releases tab c"] assms(1,2)
  by (simp_all add: combine_pass_def Let_def case_prod_beta q_len_items)

text \<open>\<open>arrive\<close> by a goroutine running alone, from a state with nothing under way.\<close>

definition solo_arrive :: "task_locks list \<Rightarrow> combiner \<Rightarrow> lock_request \<Rightarrow> combiner \<times> lock_request list" where
  "solo_arrive tab c r =
     (if locksNothing (locks_for tab r) then (c, [r]) else combine_pass tab (push_arrival c r))"

lemma reach_solo_arrive:
  assumes "table_wf n tab" and "cb_reach n tab y" and "\<forall>t. sy_pc y t = Outside"
    and "unat (rq_task r) < length tab" and "\<not> locksNothing (locks_for tab r)" and "Suc (sy_jobs y) < 2 ^ 32"
  shows "\<exists>y'. cb_reach n tab y' \<and> (\<forall>t. sy_pc y' t = Outside)
    \<and> (sy_comb y', sy_running y') =
        (fst (solo_arrive tab (sy_comb y) r), sy_running y @ snd (solo_arrive tab (sy_comb y) r))
    \<and> sy_jobs y' \<le> Suc (sy_jobs y)"
proof -
  note inv = cb_reach_inv[OF assms(2,1), unfolded cb_inv_def]
  have owner: "sy_owner y = None"
    using inv assms(3) by (cases "sy_owner y") (auto simp: owner_ok_def)
  let ?c = "push_arrival (sy_comb y) r"
  define y1 where "y1 = y\<lparr>sy_comb := ?c, sy_pc := (sy_pc y)(0 := AtTry), sy_jobs := Suc (sy_jobs y)\<rparr>"
  have "cb_reach n tab y1"
    unfolding y1_def
    by (rule cb_reach.step[OF assms(2) cb_step.arrive]) (use assms in auto)
  from solo_pass[OF this, of 0] owner
  have r1: "cb_reach n tab (y\<lparr>sy_comb := fst (combine_pass tab ?c),
    sy_running := sy_running y @ snd (combine_pass tab ?c),
    sy_handed := sy_handed y @ snd (combine_pass tab ?c),
    sy_jobs := Suc (sy_jobs y) - q_len (cb_releases ?c), sy_pc := (sy_pc y)(0 := AskReleases)\<rparr>)"
    by (simp add: y1_def)
  have empty: "q_len (cb_releases (fst (combine_pass tab ?c))) = 0" "q_len (cb_arrivals (fst (combine_pass tab ?c))) = 0"
    by (rule combine_pass_empties; use inv in \<open>simp add: qs_ok_def\<close>)+
  define y2 where "y2 = y\<lparr>sy_comb := fst (combine_pass tab ?c),
    sy_running := sy_running y @ snd (combine_pass tab ?c),
    sy_handed := sy_handed y @ snd (combine_pass tab ?c),
    sy_jobs := Suc (sy_jobs y) - q_len (cb_releases ?c), sy_pc := (sy_pc y)(0 := Outside)\<rparr>"
  have "cb_reach n tab y2"
    using cb_reach.step[OF cb_reach.step[OF r1 cb_step.ask_releases[where t = 0]] cb_step.ask_arrivals[where t = 0]]
      empty by (simp add: y2_def)
  moreover have "(\<forall>t. sy_pc y2 t = Outside) \<and> sy_jobs y2 \<le> Suc (sy_jobs y)
    \<and> sy_comb y2 = fst (solo_arrive tab (sy_comb y) r)
    \<and> sy_running y2 = sy_running y @ snd (solo_arrive tab (sy_comb y) r)"
    using assms(3,5) by (simp add: y2_def solo_arrive_def)
  ultimately show ?thesis by auto
qed

fun solo_arrives :: "task_locks list \<Rightarrow> combiner \<Rightarrow> lock_request list \<Rightarrow> combiner \<times> lock_request list" where
  "solo_arrives tab c [] = (c, [])"
| "solo_arrives tab c (r # rs) =
     (case solo_arrive tab c r of (c', g) \<Rightarrow> map_prod id (\<lambda>g'. g @ g') (solo_arrives tab c' rs))"

lemma reach_solo_arrives:
  assumes "table_wf n tab" and "cb_reach n tab y" and "\<forall>t. sy_pc y t = Outside"
    and "\<forall>r \<in> set rs. unat (rq_task r) < length tab \<and> \<not> locksNothing (locks_for tab r)"
    and "sy_jobs y + length rs < 2 ^ 32"
  shows "\<exists>y'. cb_reach n tab y' \<and> (\<forall>t. sy_pc y' t = Outside)
    \<and> sy_comb y' = fst (solo_arrives tab (sy_comb y) rs)
    \<and> sy_running y' = sy_running y @ snd (solo_arrives tab (sy_comb y) rs)
    \<and> sy_jobs y' \<le> sy_jobs y + length rs"
  using assms(2-5)
proof (induction rs arbitrary: y)
  case Nil
  then show ?case by auto
next
  case (Cons r rs)
  have "unat (rq_task r) < length tab" "\<not> locksNothing (locks_for tab r)" "Suc (sy_jobs y) < 2 ^ 32"
    using Cons.prems(3,4) by simp_all
  then obtain y1 where y1: "cb_reach n tab y1" "\<forall>t. sy_pc y1 t = Outside" "sy_jobs y1 \<le> Suc (sy_jobs y)"
    "sy_comb y1 = fst (solo_arrive tab (sy_comb y) r)" "sy_running y1 = sy_running y @ snd (solo_arrive tab (sy_comb y) r)"
    using reach_solo_arrive[OF assms(1) Cons.prems(1,2)] by (metis prod.inject)
  have "sy_jobs y1 + length rs < 2 ^ 32"
    using y1(3) Cons.prems(4) by simp
  then obtain y' where "cb_reach n tab y'" "\<forall>t. sy_pc y' t = Outside" "sy_comb y' = fst (solo_arrives tab (sy_comb y1) rs)"
    "sy_running y' = sy_running y1 @ snd (solo_arrives tab (sy_comb y1) rs)" "sy_jobs y' \<le> sy_jobs y1 + length rs"
    using Cons.IH[OF y1(1,2)] Cons.prems(3) by auto
  then show ?case
    using y1(3-5) by (intro exI[of _ y']) (simp add: case_prod_beta)
qed

text \<open>
  A kernel of four resources: a task reading 0 and writing 1, one reading 0 and writing 2, one
  writing 0, and one writing 3.
\<close>

definition sample_table :: "task_locks list" where
  "sample_table =
     [\<lparr>tl_reads = [], tl_writes = [], tl_pinned = False\<rparr>,
      \<lparr>tl_reads = [1], tl_writes = [2], tl_pinned = False\<rparr>,
      \<lparr>tl_reads = [1], tl_writes = [4], tl_pinned = False\<rparr>,
      \<lparr>tl_reads = [0], tl_writes = [1], tl_pinned = False\<rparr>,
      \<lparr>tl_reads = [0], tl_writes = [8], tl_pinned = True\<rparr>]"

definition sample_request :: "nat \<Rightarrow> lock_request" where
  "sample_request i = \<lparr>rq_slot = of_nat i, rq_task = of_nat i\<rparr>"

lemma table_wf_sample: "table_wf 4 sample_table"
proof -
  have "\<forall>l \<in> set sample_table. length (tl_reads l) = length (tl_writes l) \<and> length (tl_writes l) \<le> 1
     \<and> (\<forall>r \<in> reads_of l. r < 4) \<and> (\<forall>r \<in> writes_of l. r < 4) \<and> reads_of l \<inter> writes_of l = {}"
    by code_simp
  then show ?thesis
    by (fastforce simp: table_wf_def locks_wf_def)
qed

lemma reach_sample:
  assumes "set is \<subseteq> {1, 2, 3, 4}" and "length is < 100"
  shows "\<exists>y. cb_reach 4 sample_table y \<and> (\<forall>t. sy_pc y t = Outside)
    \<and> sy_comb y = fst (solo_arrives sample_table (new_combiner 4) (map sample_request is))
    \<and> sy_running y = snd (solo_arrives sample_table (new_combiner 4) (map sample_request is))
    \<and> sy_jobs y \<le> 100"
proof -
  have "\<forall>i \<in> {1, 2, 3, 4}. unat (rq_task (sample_request i)) < length sample_table
      \<and> \<not> locksNothing (locks_for sample_table (sample_request i))"
    by code_simp
  then have ok: "\<forall>r \<in> set (map sample_request is). unat (rq_task r) < length sample_table
      \<and> \<not> locksNothing (locks_for sample_table r)"
    using assms(1) by auto
  have "\<forall>t. sy_pc (cb_init 4) t = Outside" "sy_jobs (cb_init 4) + length (map sample_request is) < 2 ^ 32"
    using assms(2) by (simp_all add: cb_init_def)
  from reach_solo_arrives[OF table_wf_sample cb_reach.start this(1) ok this(2)]
  show ?thesis using assms(2) by (fastforce simp: cb_init_def)
qed

section \<open>What the combiner guarantees\<close>

text \<open>
  C1: mutual exclusion.  In every state any interleaving of arrivals, releases and combining
  goroutines reaches, no two jobs running with locks conflict: neither writes what the other
  reads or writes.
\<close>

theorem combiner_excludes:
  assumes "table_wf n tab" and "cb_reach n tab y" and "i < length (sy_running y)"
    and "j < length (sy_running y)" and "i \<noteq> j"
  shows "compatible (locks_for tab (sy_running y ! i)) (locks_for tab (sy_running y ! j))"
proof -
  have "lock_inv n (cb_locks (sy_comb y)) (sy_held tab y)"
    using cb_reach_inv[OF assms(2,1)] by (simp add: cb_inv_def locks_ok_def)
  then have "exclusive (sy_held tab y)"
    by (simp add: lock_inv_def)
  then have ex: "exclusive (mset (map (locks_for tab) (sy_running y)))"
    by (rule exclusive_subset) (simp add: sy_held_def)
  show ?thesis
    using exclusive_nth[OF ex, of i j] assms by simp
qed

theorem combiner_excludes_witness:
  "\<exists>y. cb_reach 4 sample_table y \<and> sy_running y = [sample_request 1, sample_request 2]
     \<and> compatible (locks_for sample_table (sample_request 1)) (locks_for sample_table (sample_request 2))"
proof -
  have "snd (solo_arrives sample_table (new_combiner 4) (map sample_request [1, 2]))
      = [sample_request 1, sample_request 2]"
    by code_simp
  then obtain y where "cb_reach 4 sample_table y" "sy_running y = [sample_request 1, sample_request 2]"
    using reach_sample[of "[1, 2]"] by auto
  then show ?thesis
    using combiner_excludes[OF table_wf_sample, of y 0 1] by (auto intro!: exI[of _ y])
qed

text \<open>
  C27: nothing is left behind.  Whenever no goroutine is inside \<open>combine\<close>, both queues are empty
  and every request that waits is held up: by a job that is running, or by a writer that has
  waited longer.  In particular the oldest waiting request conflicts with a running job, so with
  nothing running nothing waits.
\<close>

theorem combiner_leaves_none:
  assumes "table_wf n tab" and "cb_reach n tab y" and "\<And>t. sy_pc y t = Outside"
  shows "q_items (cb_arrivals (sy_comb y)) = [] \<and> q_items (cb_releases (sy_comb y)) = []
    \<and> held_up tab (image_mset (locks_for tab) (mset (sy_running y))) (cb_waiting (sy_comb y))
    \<and> (sy_running y = [] \<longrightarrow> cb_waiting (sy_comb y) = [])"
proof -
  note inv = cb_reach_inv[OF assms(2,1), unfolded cb_inv_def]
  have q: "q_items (cb_arrivals (sy_comb y)) = []" "q_items (cb_releases (sy_comb y)) = []"
    using inv assms(3) by (auto simp: seen_ok_def will_see_releases_def)
  have "sy_owner y = None"
    using inv assms(3) by (cases "sy_owner y") (auto simp: owner_ok_def)
  then have up: "held_up tab (image_mset (locks_for tab) (mset (sy_running y))) (cb_waiting (sy_comb y))"
    using inv q(2) by (simp add: waiting_ok_def sy_held_def)
  then have "sy_running y = [] \<Longrightarrow> cb_waiting (sy_comb y) = []"
    by (cases "cb_waiting (sy_comb y)") (auto simp: held_up_def)
  then show ?thesis using q up by simp
qed

theorem combiner_leaves_none_witness:
  "\<exists>y. cb_reach 4 sample_table y \<and> (\<forall>t. sy_pc y t = Outside)
     \<and> sy_running y = [sample_request 1, sample_request 2] \<and> cb_waiting (sy_comb y) = [sample_request 3]
     \<and> q_items (cb_arrivals (sy_comb y)) = []
     \<and> held_up sample_table (image_mset (locks_for sample_table) (mset (sy_running y))) [sample_request 3]"
proof -
  have "snd (solo_arrives sample_table (new_combiner 4) (map sample_request [1, 2, 3]))
      = [sample_request 1, sample_request 2]
    \<and> cb_waiting (fst (solo_arrives sample_table (new_combiner 4) (map sample_request [1, 2, 3])))
      = [sample_request 3]"
    by code_simp
  then obtain y where y: "cb_reach 4 sample_table y" "\<forall>t. sy_pc y t = Outside"
    "sy_running y = [sample_request 1, sample_request 2]" "cb_waiting (sy_comb y) = [sample_request 3]"
    using reach_sample[of "[1, 2, 3]"] by auto
  then show ?thesis
    using combiner_leaves_none[OF table_wf_sample y(1)] by (intro exI[of _ y]) simp
qed

text \<open>
  A waiting writer is not overtaken on what it writes.  When a goroutine grants a request,
  the requests still waiting are older, and none of them writes anything the granted job reads
  or writes.
\<close>

theorem combiner_reserves:
  assumes "table_wf n tab" and "cb_reach n tab y" and "sy_pc y t = Granting (r # rs) still"
    and "canLock (cb_locks (sy_comb y)) (locks_for tab r)"
  shows "sy_pending y = still @ r # rs
    \<and> (\<forall>w \<in> set still. writes_of (locks_for tab w) \<inter> touches (locks_for tab r) = {})"
proof -
  note inv = cb_reach_inv[OF assms(2,1), unfolded cb_inv_def]
  have owner: "sy_owner y = Some t"
    using inv owner_at[of y t] assms(3) by simp
  then have pend: "sy_pending y = still @ r # rs"
    using assms(3) by (simp add: sy_pending_def)
  then have wf: "locks_wf n (locks_for tab r)" and li: "lock_inv n (cb_locks (sy_comb y)) (sy_held tab y)"
    using inv by (simp_all add: locks_ok_def)
  have "mask_set (ls_reserved (cb_locks (sy_comb y))) = (\<Union>w \<in> set still. writes_of (locks_for tab w))"
    using inv owner assms(3) by (simp add: waiting_ok_def)
  then show ?thesis
    using canLock_iff[OF li wf] assms(4) pend by (auto simp: touches_def)
qed


theorem combiner_reserves_witness:
  "\<exists>y. cb_reach 4 sample_table y
     \<and> sy_pc y 0 = Granting [sample_request 4] [sample_request 3]
     \<and> canLock (cb_locks (sy_comb y)) (locks_for sample_table (sample_request 4))
     \<and> writes_of (locks_for sample_table (sample_request 3)) \<inter> touches (locks_for sample_table (sample_request 4)) = {}"
proof -
  let ?c = "fst (solo_arrives sample_table (new_combiner 4) (map sample_request [1, 2, 3]))"
  obtain y where y: "cb_reach 4 sample_table y" "\<forall>t. sy_pc y t = Outside" "sy_comb y = ?c" "sy_jobs y \<le> 100"
    using reach_sample[of "[1, 2, 3]"] by auto
  have owner: "sy_owner y = None"
    using cb_reach_inv[OF y(1) table_wf_sample] y(2)
    by (cases "sy_owner y") (auto simp: cb_inv_def owner_ok_def)
  let ?r = "sample_request 4"
  let ?c4 = "drain_arrivals (drain_releases sample_table (push_arrival ?c ?r))"
  have ev: "unat (rq_task ?r) < length sample_table" "\<not> locksNothing (locks_for sample_table ?r)"
    "cb_waiting ?c4 = [sample_request 3, ?r]"
    "\<not> canLock (cb_locks ?c4) (locks_for sample_table (sample_request 3))"
    "canLock (reserve (cb_locks ?c4) (locks_for sample_table (sample_request 3))) (locks_for sample_table ?r)"
    by code_simp+
  define y1 where "y1 = y\<lparr>sy_comb := push_arrival ?c ?r, sy_pc := (sy_pc y)(0 := AtTry), sy_jobs := Suc (sy_jobs y)\<rparr>"
  have "cb_reach 4 sample_table y1"
    using cb_reach.step[OF y(1) cb_step.arrive[of y 0 ?r]] y ev(1,2) by (simp add: y1_def)
  from cb_reach.step[OF cb_reach.step[OF cb_reach.step[OF this cb_step.try_succeeds[of y1 0]]
        cb_step.unlock_released[where t = 0]] cb_step.take_arrived[where t = 0]]
  have r3: "cb_reach 4 sample_table (y\<lparr>sy_owner := Some 0, sy_jobs := Suc (sy_jobs y) - q_len (cb_releases (push_arrival ?c ?r)),
      sy_comb := ?c4, sy_pc := (sy_pc y)(0 := Granting [sample_request 3, ?r] [])\<rparr>)" (is "cb_reach _ _ ?y3")
    using owner ev(3) by (cases y) (simp add: y1_def)
  define y4 where "y4 = ?y3\<lparr>sy_comb := ?c4\<lparr>cb_locks := reserve (cb_locks ?c4) (locks_for sample_table (sample_request 3))\<rparr>,
      sy_pc := (sy_pc y)(0 := Granting [?r] [sample_request 3])\<rparr>"
  have r4: "cb_reach 4 sample_table y4"
    using cb_reach.step[OF r3 cb_step.keep_waiting[of _ 0 "sample_request 3" "[?r]" "[]"]] ev(4)
    by (simp add: y4_def)
  have pc: "sy_pc y4 0 = Granting [?r] [sample_request 3]"
    and can: "canLock (cb_locks (sy_comb y4)) (locks_for sample_table ?r)"
    using ev(5) by (simp_all add: y4_def)
  show ?thesis
    using combiner_reserves[OF table_wf_sample r4 pc can] r4 pc can by auto
qed


text \<open>Three tasks: one writing 0, one reading 0 and 1, one writing 1.\<close>

definition overtaking_table :: "task_locks list" where
  "overtaking_table =
     [\<lparr>tl_reads = [], tl_writes = [], tl_pinned = False\<rparr>,
      \<lparr>tl_reads = [0], tl_writes = [1], tl_pinned = False\<rparr>,
      \<lparr>tl_reads = [3], tl_writes = [0], tl_pinned = False\<rparr>,
      \<lparr>tl_reads = [0], tl_writes = [2], tl_pinned = False\<rparr>]"

lemma table_wf_overtaking: "table_wf 4 overtaking_table"
proof -
  have "\<forall>l \<in> set overtaking_table. length (tl_reads l) = length (tl_writes l) \<and> length (tl_writes l) \<le> 1
     \<and> (\<forall>r \<in> reads_of l. r < 4) \<and> (\<forall>r \<in> writes_of l. r < 4) \<and> reads_of l \<inter> writes_of l = {}"
    by code_simp
  then show ?thesis
    by (fastforce simp: table_wf_def locks_wf_def)
qed

text \<open>
  C39: conflicting jobs are not always granted oldest first.  Only what a waiting job writes is
  reserved, so a job that waits for a read lock is overtaken on its other read locks: after a
  writer of resource 0, a reader of 0 and 1 and a writer of 1 have arrived in that order, the
  two writers run and the older reader, which conflicts with both, waits.
\<close>

theorem older_reader_overtaken:
  "\<exists>y. cb_reach 4 overtaking_table y \<and> (\<forall>t. sy_pc y t = Outside)
     \<and> sy_running y = [sample_request 1, sample_request 3] \<and> cb_waiting (sy_comb y) = [sample_request 2]
     \<and> \<not> compatible (locks_for overtaking_table (sample_request 3)) (locks_for overtaking_table (sample_request 2))"
proof -
  let ?rs = "map sample_request [1, 2, 3]"
  have "\<forall>r \<in> set ?rs. unat (rq_task r) < length overtaking_table \<and> \<not> locksNothing (locks_for overtaking_table r)"
    by code_simp
  moreover have "\<forall>t. sy_pc (cb_init 4) t = Outside" "sy_jobs (cb_init 4) + length ?rs < 2 ^ 32"
    by (simp_all add: cb_init_def)
  ultimately obtain y where "cb_reach 4 overtaking_table y" "\<forall>t. sy_pc y t = Outside"
    "sy_comb y = fst (solo_arrives overtaking_table (sy_comb (cb_init 4)) ?rs)"
    "sy_running y = sy_running (cb_init 4) @ snd (solo_arrives overtaking_table (sy_comb (cb_init 4)) ?rs)"
    using reach_solo_arrives[OF table_wf_overtaking cb_reach.start, of ?rs] by blast
  moreover have "cb_waiting (fst (solo_arrives overtaking_table (sy_comb (cb_init 4)) ?rs)) = [sample_request 2]"
    "sy_running (cb_init 4) @ snd (solo_arrives overtaking_table (sy_comb (cb_init 4)) ?rs) =
       [sample_request 1, sample_request 3]"
    "\<not> compatible (locks_for overtaking_table (sample_request 3)) (locks_for overtaking_table (sample_request 2))"
    by code_simp+
  ultimately show ?thesis by auto
qed

end
