(* ===== verification/Kernel_Dispatch.thy ===== *)
theory Kernel_Dispatch
  imports Cog_Prelude
begin

text \<open>
  \<open>kernel/dispatcher.go\<close>: the handlers of one event type.  \<open>sortHandlers\<close> is the code's own
  algorithm, with its \<open>waiting\<close> counts, its \<open>followers\<close> lists and its \<open>placed\<close> flags; \<open>None\<close> is its
  panic on a cycle.  Handlers are a list of any type: the sort never looks at them.  \<open>publish\<close>
  threads the event and the out dependency through the handlers, over the state \<open>'s\<close> of the
  kernel and the executor that a handler may change.
\<close>

section \<open>The dispatcher\<close>

type_synonym ('s, 'j, 'e) handler = "'s \<Rightarrow> 'j \<Rightarrow> 'e \<Rightarrow> 's \<times> 'e \<times> 'j"

record 'h dispatcher =
  d_handlers :: "'h list"
  d_orders :: "(nat \<times> nat) list"

fun publish :: "('s, 'j, 'e) handler list \<Rightarrow> 's \<Rightarrow> 'j \<Rightarrow> 'e \<Rightarrow> 's \<times> 'e \<times> 'j" where
  "publish [] s inp event = (s, event, inp)"
| "publish (h # hs) s inp event = (case h s inp event of (s', event', dep) \<Rightarrow> publish hs s' dep event')"

lemma publish_append:
  "publish (hs @ gs) s inp event = (case publish hs s inp event of (s', event', dep) \<Rightarrow> publish gs s' dep event')"
  by (induction hs arbitrary: s inp event) (auto split: prod.split)

section \<open>Sorting the handlers\<close>

definition followers_of :: "nat \<Rightarrow> (nat \<times> nat) list \<Rightarrow> nat list list" where
  "followers_of count orders = fold (\<lambda>(a, b) f. f[a := f ! a @ [b]]) orders (replicate count [])"

definition waiting_of :: "nat \<Rightarrow> (nat \<times> nat) list \<Rightarrow> int list" where
  "waiting_of count orders = fold (\<lambda>(a, b) w. w[b := w ! b + 1]) orders (replicate count 0)"

definition next_handler :: "nat \<Rightarrow> int list \<Rightarrow> bool list \<Rightarrow> nat option" where
  "next_handler count waiting placed = List.find (\<lambda>i. \<not> placed ! i \<and> waiting ! i = 0) [0..<count]"

function sort_loop :: "nat \<Rightarrow> nat list list \<Rightarrow> int list \<Rightarrow> bool list \<Rightarrow> nat list \<Rightarrow> nat list option" where
  "sort_loop count followers waiting placed out =
     (if length out < count then
        (case next_handler count waiting placed of
           None \<Rightarrow> None
         | Some nx \<Rightarrow> sort_loop count followers
             (fold (\<lambda>after w. w[after := w ! after - 1]) (followers ! nx) waiting)
             (placed[nx := True]) (out @ [nx]))
      else Some out)"
  by pat_completeness auto
termination
  by (relation "measure (\<lambda>(count, followers, waiting, placed, out). count - length out)") auto

declare sort_loop.simps [simp del]

definition sort_indexes :: "nat \<Rightarrow> (nat \<times> nat) list \<Rightarrow> nat list option" where
  "sort_indexes count orders =
     sort_loop count (followers_of count orders) (waiting_of count orders) (replicate count False) []"

definition sortHandlers :: "'h dispatcher \<Rightarrow> 'h dispatcher option" where
  "sortHandlers d =
     map_option (\<lambda>is. \<lparr>d_handlers = map (\<lambda>i. d_handlers d ! i) is, d_orders = []\<rparr>)
       (sort_indexes (length (d_handlers d)) (d_orders d))"

section \<open>What the loop keeps\<close>

definition orders_within :: "nat \<Rightarrow> (nat \<times> nat) list \<Rightarrow> bool" where
  "orders_within count orders \<longleftrightarrow> (\<forall>(a, b) \<in> set orders. a < count \<and> b < count)"

lemma orders_within_Cons [simp]:
  "orders_within count (p # orders) \<longleftrightarrow> fst p < count \<and> snd p < count \<and> orders_within count orders"
  by (auto simp: orders_within_def)

lemma fold_followers:
  assumes "orders_within count orders" and "length f = count" and "i < count"
  shows "fold (\<lambda>(a, b) f. f[a := f ! a @ [b]]) orders f ! i = f ! i @ map snd (filter (\<lambda>p. fst p = i) orders)"
  using assms
  by (induction orders arbitrary: f) (auto simp: nth_list_update split: prod.split)

lemma followers_of_nth:
  "orders_within count orders \<Longrightarrow> i < count \<Longrightarrow>
     followers_of count orders ! i = map snd (filter (\<lambda>p. fst p = i) orders)"
  by (simp add: followers_of_def fold_followers)

lemma length_fold_waiting [simp]:
  "length (fold (\<lambda>(a, b) w. w[b := w ! b + (1::int)]) orders w) = length w"
  by (induction orders arbitrary: w) auto

lemma fold_waiting:
  assumes "orders_within count orders" and "length w = count" and "i < count"
  shows "fold (\<lambda>(a, b) w. w[b := w ! b + 1]) orders w ! i = w ! i + int (length (filter (\<lambda>p. snd p = i) orders))"
  using assms
  by (induction orders arbitrary: w) (auto simp: nth_list_update split: prod.split)

lemma fold_decrement:
  assumes "\<forall>x \<in> set as. x < length w" and "i < length w"
  shows "fold (\<lambda>after w. w[after := w ! after - (1::int)]) as w ! i = w ! i - int (length (filter (\<lambda>x. x = i) as))"
    and "length (fold (\<lambda>after w. w[after := w ! after - (1::int)]) as w) = length w"
  using assms
  by (induction as arbitrary: w) (auto simp: nth_list_update)

text \<open>The declarations of \<open>i\<close> whose earlier handler is not placed yet.\<close>

definition missing :: "(nat \<times> nat) list \<Rightarrow> nat list \<Rightarrow> nat \<Rightarrow> (nat \<times> nat) list" where
  "missing orders out i = filter (\<lambda>p. snd p = i \<and> fst p \<notin> set out) orders"

definition ready :: "nat \<Rightarrow> (nat \<times> nat) list \<Rightarrow> nat list \<Rightarrow> nat \<Rightarrow> bool" where
  "ready count orders out i \<longleftrightarrow>
     i < count \<and> i \<notin> set out \<and> (\<forall>a. (a, i) \<in> set orders \<longrightarrow> a \<in> set out)"

text \<open>A list in which every entry is the least index that was ready where it stands.\<close>

definition greedy :: "nat \<Rightarrow> (nat \<times> nat) list \<Rightarrow> nat list \<Rightarrow> bool" where
  "greedy count orders out \<longleftrightarrow> (\<forall>k < length out.
     ready count orders (take k out) (out ! k)
     \<and> (\<forall>j < out ! k. \<not> ready count orders (take k out) j))"

definition sort_inv :: "nat \<Rightarrow> (nat \<times> nat) list \<Rightarrow> int list \<Rightarrow> bool list \<Rightarrow> nat list \<Rightarrow> bool" where
  "sort_inv count orders waiting placed out \<longleftrightarrow>
     length waiting = count \<and> length placed = count
     \<and> (\<forall>i < count. placed ! i \<longleftrightarrow> i \<in> set out)
     \<and> (\<forall>i < count. waiting ! i = int (length (missing orders out i)))
     \<and> greedy count orders out"

lemma sort_inv_start:
  "orders_within count orders \<Longrightarrow> sort_inv count orders (waiting_of count orders) (replicate count False) []"
  by (simp add: sort_inv_def waiting_of_def fold_waiting missing_def greedy_def)

lemma greedy_snoc:
  "greedy count orders (out @ [i]) \<longleftrightarrow> greedy count orders out \<and> ready count orders out i
     \<and> (\<forall>j < i. \<not> ready count orders out j)"
  by (auto simp: greedy_def nth_append less_Suc_eq)

lemma greedy_distinct: "greedy count orders out \<Longrightarrow> distinct out \<and> set out \<subseteq> {..<count}"
  by (induction out rule: rev_induct) (auto simp: greedy_snoc ready_def)

lemma ready_waiting:
  assumes "sort_inv count orders waiting placed out" and "i < count"
  shows "ready count orders out i \<longleftrightarrow> \<not> placed ! i \<and> waiting ! i = 0"
  using assms by (auto simp: sort_inv_def ready_def missing_def filter_empty_conv)

lemma next_handler_Some:
  assumes "sort_inv count orders waiting placed out" and "next_handler count waiting placed = Some nx"
  shows "nx < count" and "ready count orders out nx" and "\<And>j. j < nx \<Longrightarrow> \<not> ready count orders out j"
proof -
  obtain k where k: "k < count" "\<not> placed ! k \<and> waiting ! k = 0" "nx = k"
    "\<And>j. j < k \<Longrightarrow> \<not> (\<not> placed ! j \<and> waiting ! j = 0)"
    using assms(2) unfolding next_handler_def find_Some_iff by auto
  then show "nx < count" "ready count orders out nx" "\<And>j. j < nx \<Longrightarrow> \<not> ready count orders out j"
    using ready_waiting[OF assms(1)] by auto
qed

lemma next_handler_None:
  assumes "sort_inv count orders waiting placed out" and "next_handler count waiting placed = None"
  shows "\<not> ready count orders out i"
proof
  assume r: "ready count orders out i"
  then have "i < count" by (simp add: ready_def)
  then show False
    using assms(2) r ready_waiting[OF assms(1)] unfolding next_handler_def find_None_iff by auto
qed

lemma missing_placed:
  assumes "orders_within count orders" and "nx \<notin> set out" and "nx < count"
  shows "int (length (missing orders (out @ [nx]) i)) =
    int (length (missing orders out i)) - int (length (filter (\<lambda>x. x = i) (followers_of count orders ! nx)))"
proof -
  have "length (missing orders out i) =
      length (missing orders (out @ [nx]) i) + length (filter (\<lambda>p. fst p = nx \<and> snd p = i) orders)"
    using assms(2) by (induction orders) (auto simp: missing_def)
  moreover have "length (filter (\<lambda>x. x = i) (followers_of count orders ! nx)) =
      length (filter (\<lambda>p. fst p = nx \<and> snd p = i) orders)"
    using followers_of_nth[OF assms(1,3)] by (simp add: filter_map comp_def conj_commute)
  ultimately show ?thesis by simp
qed

lemma sort_inv_step:
  assumes "orders_within count orders" and "sort_inv count orders waiting placed out"
    and "next_handler count waiting placed = Some nx"
  shows "sort_inv count orders (fold (\<lambda>after w. w[after := w ! after - 1]) (followers_of count orders ! nx) waiting)
    (placed[nx := True]) (out @ [nx])"
proof -
  note n = next_handler_Some[OF assms(2,3)]
  have len: "length waiting = count" "length placed = count"
    using assms(2) by (simp_all add: sort_inv_def)
  have within: "\<forall>x \<in> set (followers_of count orders ! nx). x < length waiting"
    using assms(1) followers_of_nth[OF assms(1) n(1)] len by (auto simp: orders_within_def)
  have "fold (\<lambda>after w. w[after := w ! after - 1]) (followers_of count orders ! nx) waiting ! i =
      int (length (missing orders (out @ [nx]) i))" if "i < count" for i
  proof -
    have "waiting ! i = int (length (missing orders out i))"
      using assms(2) that by (simp add: sort_inv_def)
    moreover have "nx \<notin> set out"
      using n(2) by (simp add: ready_def)
    ultimately show ?thesis
      using fold_decrement(1)[OF within, of i] that len missing_placed[OF assms(1) _ n(1), of out i] by simp
  qed
  moreover have "greedy count orders (out @ [nx])"
    using assms(2) n by (simp add: greedy_snoc sort_inv_def)
  moreover have "placed[nx := True] ! i \<longleftrightarrow> i \<in> set (out @ [nx])" if "i < count" for i
    using assms(2) that len n(1) by (cases "i = nx") (simp_all add: sort_inv_def)
  ultimately show ?thesis
    using fold_decrement(2)[OF within] len n(1) by (simp add: sort_inv_def)
qed

text \<open>A set none of whose members is free of a predecessor in it holds a cycle.\<close>

lemma stuck_cycle:
  assumes "A \<noteq> {}" and "\<forall>x \<in> A. \<exists>y \<in> A. (y, x) \<in> r" and "finite r"
  shows "\<not> acyclic r"
proof
  assume "acyclic r"
  then have "wf r"
    using assms(3) by (simp add: finite_acyclic_wf)
  then obtain z where "z \<in> A" "\<And>y. (y, z) \<in> r \<Longrightarrow> y \<notin> A"
    using assms(1) by (metis ex_in_conv wfE_min)
  then show False using assms(2) by blast
qed

lemma sort_loop_result:
  assumes "orders_within count orders" and "sort_inv count orders waiting placed out"
  shows "case sort_loop count (followers_of count orders) waiting placed out of
      Some xs \<Rightarrow> greedy count orders xs \<and> set xs = {..<count}
    | None \<Rightarrow> \<not> acyclic (set orders)"
  using assms(2)
proof (induction "count - length out" arbitrary: waiting placed out)
  case 0
  have "distinct out" "set out \<subseteq> {..<count}"
    using 0(2) greedy_distinct by (auto simp: sort_inv_def)
  moreover have "count \<le> length out"
    using 0(1) by simp
  ultimately have "set out = {..<count}"
    by (metis card_lessThan card_subset_eq card_mono distinct_card finite_lessThan le_antisym)
  then show ?case
    using 0 by (simp add: sort_loop.simps[of count] sort_inv_def)
next
  case (Suc m)
  show ?case
  proof (cases "next_handler count waiting placed")
    case None
    let ?A = "{..<count} - set out"
    have "set out \<noteq> {..<count}"
      using Suc.hyps(2) by (metis Suc_neq_Zero card_length card_lessThan diff_is_0_eq')
    then have "?A \<noteq> {}"
      using Suc.prems greedy_distinct[of count orders out] by (auto simp: sort_inv_def)
    moreover have "\<forall>x \<in> ?A. \<exists>y \<in> ?A. (y, x) \<in> set orders"
    proof
      fix x
      assume "x \<in> ?A"
      then obtain y where "(y, x) \<in> set orders" "y \<notin> set out"
        using next_handler_None[OF Suc.prems None, of x] by (auto simp: ready_def)
      then show "\<exists>y \<in> ?A. (y, x) \<in> set orders"
        using assms(1) by (auto simp: orders_within_def)
    qed
    ultimately have "\<not> acyclic (set orders)"
      by (rule stuck_cycle) simp
    moreover have "length out < count"
      using Suc.hyps(2) by simp
    ultimately show ?thesis
      using None by (simp add: sort_loop.simps[of count])
  next
    case (Some nx)
    have "m = count - length (out @ [nx])"
      using Suc.hyps(2) by simp
    from Suc.hyps(1)[OF this sort_inv_step[OF assms(1) Suc.prems Some]]
    moreover have "length out < count"
      using Suc.hyps(2) by simp
    ultimately show ?thesis
      using Some by (simp add: sort_loop.simps[of count _ waiting])
  qed
qed

lemma greedy_acyclic:
  assumes "orders_within count orders" and "greedy count orders xs" and "set xs = {..<count}"
  shows "acyclic (set orders)"
proof -
  have before: "\<exists>k < length xs. \<exists>j < k. a = xs ! j \<and> b = xs ! k" if "(a, b) \<in> set orders" for a b
  proof -
    have "b \<in> set xs"
      using that assms(1,3) by (auto simp: orders_within_def)
    then obtain k where k: "k < length xs" "b = xs ! k"
      by (auto simp: in_set_conv_nth)
    then have "a \<in> set (take k xs)"
      using assms(2) that by (auto simp: greedy_def ready_def)
    then obtain j where "j < k" "a = xs ! j"
      using k by (auto simp: in_set_conv_nth)
    then show ?thesis
      using k by blast
  qed
  define pos where "pos i = (THE k. k < length xs \<and> xs ! k = i)" for i
  have "distinct xs"
    using greedy_distinct[OF assms(2)] by simp
  then have pos: "pos (xs ! k) = k" if "k < length xs" for k
    unfolding pos_def using that by (intro the_equality) (auto simp: nth_eq_iff_index_eq)
  have "set orders \<subseteq> measure pos"
    using before pos by (auto simp: in_measure) (metis order.strict_trans pos)
  then show ?thesis
    using acyclic_subset wf_acyclic wf_measure by blast
qed

lemma sort_indexes_result:
  assumes "orders_within count orders"
  shows "case sort_indexes count orders of
      Some xs \<Rightarrow> greedy count orders xs \<and> set xs = {..<count} \<and> acyclic (set orders)
    | None \<Rightarrow> \<not> acyclic (set orders)"
  using sort_loop_result[OF assms sort_inv_start[OF assms]] greedy_acyclic[OF assms]
  by (auto simp: sort_indexes_def split: option.splits)

section \<open>The handlers sorted\<close>

text \<open>
  C36: the handlers are sorted, or the declarations are a cycle.  \<open>sortHandlers\<close> panics exactly when
  the declarations hold a cycle.  Otherwise the handlers are the old ones in the order of a
  permutation of their indexes in which every declaration's earlier handler stands before its
  later one, and at every place stands the earliest subscription all of whose declared
  predecessors stand before it: subscription order wherever no declaration decides.
\<close>

theorem sort_handlers_correct:
  assumes "orders_within (length (d_handlers d)) (d_orders d)"
  shows "case sortHandlers d of
      None \<Rightarrow> \<not> acyclic (set (d_orders d))
    | Some d' \<Rightarrow> acyclic (set (d_orders d)) \<and> d_orders d' = [] \<and>
        (\<exists>xs. d_handlers d' = map (\<lambda>i. d_handlers d ! i) xs \<and> distinct xs \<and> set xs = {..<length (d_handlers d)}
          \<and> greedy (length (d_handlers d)) (d_orders d) xs)"
proof (cases "sort_indexes (length (d_handlers d)) (d_orders d)")
  case None
  then show ?thesis
    using sort_indexes_result[OF assms] by (simp add: sortHandlers_def)
next
  case (Some xs)
  then show ?thesis
    using sort_indexes_result[OF assms] greedy_distinct[of "length (d_handlers d)" "d_orders d" xs]
    by (auto simp: sortHandlers_def)
qed

definition sample_dispatcher :: "string dispatcher" where
  "sample_dispatcher = \<lparr>d_handlers = [''a'', ''b'', ''c'', ''d''], d_orders = [(2, 0), (3, 2)]\<rparr>"

theorem sort_handlers_correct_witness:
  "orders_within 4 (d_orders sample_dispatcher)
   \<and> sortHandlers sample_dispatcher = Some \<lparr>d_handlers = [''b'', ''d'', ''c'', ''a''], d_orders = []\<rparr>
   \<and> acyclic (set (d_orders sample_dispatcher))"
proof -
  have ev: "sortHandlers sample_dispatcher = Some \<lparr>d_handlers = [''b'', ''d'', ''c'', ''a''], d_orders = []\<rparr>"
    by code_simp
  have "orders_within (length (d_handlers sample_dispatcher)) (d_orders sample_dispatcher)"
    by (simp add: orders_within_def sample_dispatcher_def)
  moreover have "length (d_handlers sample_dispatcher) = 4"
    by (simp add: sample_dispatcher_def)
  ultimately show ?thesis
    using sort_handlers_correct[of sample_dispatcher] ev by simp
qed

end
