(* ===== verification/Kernel_Runner.thy ===== *)
theory Kernel_Runner
  imports Cog_Queue
begin

text \<open>
  \<open>kernel/runner.go\<close> as two step relations.  The first is the count of outstanding jobs and
  publications: \<open>add\<close>, \<open>settle\<close> and \<open>drain\<close>, with each atomic operation of each of them a step of
  its own.  The second is the ready queue and the workers: \<open>makeReady\<close> and \<open>work\<close>, again one
  atomic operation per step.  Channels are counters bounded by their capacity; a send with a
  default case adds a token only when there is room.
\<close>

section \<open>Counting what is outstanding\<close>

text \<open>
  A unit of work is one publication or one job, and is a thread of the relation.  \<open>UAdded\<close>: counted
  and not yet told whether the kernel takes work.  \<open>UOpen\<close>: let through, running.  \<open>URefused\<close>:
  answered false.  \<open>USettling\<close>: its \<open>Add(-1)\<close> reached zero and \<open>closed\<close> is not read yet.
  \<open>USending\<close>: it read \<open>closed\<close> as set and its token is not sent yet.
\<close>

datatype unit_pc = UIdle | UAdded | UOpen | URefused | USettling | USending

text \<open>\<open>drain\<close>: before it, after \<open>closed.Store\<close>, blocked on \<open>drained\<close>, and past the wait.\<close>

datatype drain_pc = DNot | DLoad | DWait | DPast

record runner_count =
  rc_outstanding :: int
  rc_closed :: bool
  rc_token :: bool
  rc_drain :: drain_pc
  rc_unit :: "nat \<Rightarrow> unit_pc"

definition rc_init :: runner_count where
  "rc_init = \<lparr>rc_outstanding = 0, rc_closed = False, rc_token = False, rc_drain = DNot, rc_unit = (\<lambda>_. UIdle)\<rparr>"

definition set_unit :: "runner_count \<Rightarrow> nat \<Rightarrow> unit_pc \<Rightarrow> runner_count" where
  "set_unit s t pc = s\<lparr>rc_unit := (rc_unit s)(t := pc)\<rparr>"

text \<open>\<open>add(1)\<close> of a publication: the count, then the read of \<open>closed\<close>.\<close>

definition add_count :: "runner_count \<Rightarrow> nat \<Rightarrow> runner_count" where
  "add_count s t = set_unit (s\<lparr>rc_outstanding := rc_outstanding s + 1\<rparr>) t UAdded"

definition add_answer :: "runner_count \<Rightarrow> nat \<Rightarrow> runner_count" where
  "add_answer s t = set_unit s t (if rc_closed s then URefused else UOpen)"

text \<open>\<open>add(n)\<close> of a submitted batch, a job at a time: the answer is not used.\<close>

definition add_job :: "runner_count \<Rightarrow> nat \<Rightarrow> runner_count" where
  "add_job s u = set_unit (s\<lparr>rc_outstanding := rc_outstanding s + 1\<rparr>) u UOpen"

definition settle_count :: "runner_count \<Rightarrow> nat \<Rightarrow> runner_count" where
  "settle_count s t =
     set_unit (s\<lparr>rc_outstanding := rc_outstanding s - 1\<rparr>) t (if rc_outstanding s - 1 = 0 then USettling else UIdle)"

definition settle_look :: "runner_count \<Rightarrow> nat \<Rightarrow> runner_count" where
  "settle_look s t = set_unit s t (if rc_closed s then USending else UIdle)"

definition settle_send :: "runner_count \<Rightarrow> nat \<Rightarrow> runner_count" where
  "settle_send s t = set_unit (s\<lparr>rc_token := True\<rparr>) t UIdle"

definition drain_close :: "runner_count \<Rightarrow> runner_count" where
  "drain_close s = s\<lparr>rc_closed := True, rc_drain := DLoad\<rparr>"

definition drain_look :: "runner_count \<Rightarrow> runner_count" where
  "drain_look s = s\<lparr>rc_drain := (if rc_outstanding s \<noteq> 0 then DWait else DPast)\<rparr>"

definition drain_wake :: "runner_count \<Rightarrow> runner_count" where
  "drain_wake s = s\<lparr>rc_token := False, rc_drain := DPast\<rparr>"

text \<open>
  With \<open>clean\<close>, \<open>drain\<close> is not begun while a \<open>settle\<close> is between its two operations; without it,
  the relation is every interleaving the code has.
\<close>

inductive rc_step :: "bool \<Rightarrow> runner_count \<Rightarrow> runner_count \<Rightarrow> bool" for clean where
  count: "rc_unit s t = UIdle \<Longrightarrow> rc_step clean s (add_count s t)"
| answer: "rc_unit s t = UAdded \<Longrightarrow> rc_step clean s (add_answer s t)"
| job: "\<lbrakk>rc_unit s t = UOpen; rc_unit s u = UIdle\<rbrakk> \<Longrightarrow> rc_step clean s (add_job s u)"
| settle: "rc_unit s t = UOpen \<or> rc_unit s t = URefused \<Longrightarrow> rc_step clean s (settle_count s t)"
| look: "rc_unit s t = USettling \<Longrightarrow> rc_step clean s (settle_look s t)"
| send: "rc_unit s t = USending \<Longrightarrow> rc_step clean s (settle_send s t)"
| close: "\<lbrakk>rc_drain s = DNot; clean \<Longrightarrow> \<forall>t. rc_unit s t \<noteq> USettling\<rbrakk> \<Longrightarrow> rc_step clean s (drain_close s)"
| load: "rc_drain s = DLoad \<Longrightarrow> rc_step clean s (drain_look s)"
| wake: "\<lbrakk>rc_drain s = DWait; rc_token s\<rbrakk> \<Longrightarrow> rc_step clean s (drain_wake s)"

inductive rc_reach :: "bool \<Rightarrow> runner_count \<Rightarrow> bool" for clean where
  start: "rc_reach clean rc_init"
| step: "rc_reach clean s \<Longrightarrow> rc_step clean s s' \<Longrightarrow> rc_reach clean s'"

definition counted :: "unit_pc \<Rightarrow> bool" where
  "counted pc \<longleftrightarrow> pc = UAdded \<or> pc = UOpen \<or> pc = URefused"

definition units_counted :: "runner_count \<Rightarrow> nat set" where
  "units_counted s = {t. counted (rc_unit s t)}"

lemmas rc_op_defs = add_count_def add_answer_def add_job_def settle_count_def settle_look_def
  settle_send_def drain_close_def drain_look_def drain_wake_def set_unit_def

definition count_ok :: "runner_count \<Rightarrow> bool" where
  "count_ok s \<longleftrightarrow> finite (units_counted s) \<and> rc_outstanding s = int (card (units_counted s))"

lemma count_ok_move:
  assumes "count_ok s" and "rc_unit s' = (rc_unit s)(t := pc)"
    and "rc_outstanding s' = rc_outstanding s + (if counted pc then 1 else 0) - (if counted (rc_unit s t) then 1 else 0)"
  shows "count_ok s'"
  using assms card_fun_upd[of counted "rc_unit s" t pc] by (simp add: count_ok_def units_counted_def)

lemma count_ok_step:
  assumes "rc_step clean s s'" and "count_ok s"
  shows "count_ok s'"
  using assms(1)
proof (cases rule: rc_step.cases)
  case (close)
  then show ?thesis using assms(2) by (simp add: count_ok_def units_counted_def drain_close_def)
next
  case (load)
  then show ?thesis using assms(2) by (simp add: count_ok_def units_counted_def drain_look_def)
next
  case (wake)
  then show ?thesis using assms(2) by (simp add: count_ok_def units_counted_def drain_wake_def)
next
  case (settle t)
  show ?thesis
    by (rule count_ok_move[OF assms(2), of _ t]) (use settle in \<open>auto simp: rc_op_defs counted_def split: if_splits\<close>)
next
  case (answer t)
  show ?thesis
    by (rule count_ok_move[OF assms(2), of _ t]) (use answer in \<open>auto simp: rc_op_defs counted_def split: if_splits\<close>)
next
  case (look t)
  show ?thesis
    by (rule count_ok_move[OF assms(2), of _ t]) (use look in \<open>auto simp: rc_op_defs counted_def split: if_splits\<close>)
next
  case (job t u)
  show ?thesis
    by (rule count_ok_move[OF assms(2), of _ u]) (use job in \<open>auto simp: rc_op_defs counted_def split: if_splits\<close>)
next
  case (count t)
  show ?thesis
    by (rule count_ok_move[OF assms(2), of _ t]) (use count in \<open>auto simp: rc_op_defs counted_def split: if_splits\<close>)
next
  case (send t)
  show ?thesis
    by (rule count_ok_move[OF assms(2), of _ t]) (use send in \<open>auto simp: rc_op_defs counted_def split: if_splits\<close>)
qed

lemma count_ok_init: "count_ok rc_init"
  by (simp add: rc_init_def count_ok_def units_counted_def counted_def)

lemma count_ok_reach: "rc_reach clean s \<Longrightarrow> count_ok s"
  by (induction rule: rc_reach.induct) (auto intro: count_ok_init count_ok_step)

lemma outstanding_nonneg: "count_ok s \<Longrightarrow> 0 \<le> rc_outstanding s"
  by (simp add: count_ok_def)

lemma zero_none_open: "count_ok s \<Longrightarrow> rc_outstanding s = 0 \<Longrightarrow> \<not> counted (rc_unit s t)"
  by (auto simp: count_ok_def units_counted_def)

text \<open>A drain that is waiting with no token will get one: work is still counted, or its last settle is on its way.\<close>

definition wake_ok :: "runner_count \<Rightarrow> bool" where
  "wake_ok s \<longleftrightarrow> (rc_closed s \<longleftrightarrow> rc_drain s \<noteq> DNot) \<and>
     (rc_drain s = DWait \<and> \<not> rc_token s \<longrightarrow>
       rc_outstanding s \<noteq> 0 \<or> (\<exists>t. rc_unit s t = USettling \<or> rc_unit s t = USending))"

lemma wake_ok_moved:
  assumes "wake_ok s" and "rc_closed s' = rc_closed s" and "rc_drain s' = rc_drain s" and "rc_token s \<Longrightarrow> rc_token s'"
    and "rc_unit s' = (rc_unit s)(t := pc)"
    and "rc_outstanding s' \<noteq> 0 \<or> pc = USettling \<or> pc = USending \<or> rc_token s' \<or> \<not> rc_closed s
      \<or> (rc_outstanding s' = rc_outstanding s \<and> rc_unit s t \<noteq> USettling \<and> rc_unit s t \<noteq> USending)"
  shows "wake_ok s'"
proof -
  have "rc_outstanding s' \<noteq> 0 \<or> (\<exists>u. rc_unit s' u = USettling \<or> rc_unit s' u = USending)"
    if "rc_drain s' = DWait" "\<not> rc_token s'"
  proof -
    have cl: "rc_closed s" and old: "rc_outstanding s \<noteq> 0 \<or> (\<exists>u. rc_unit s u = USettling \<or> rc_unit s u = USending)"
      using assms(1,3,4) that by (auto simp: wake_ok_def)
    show ?thesis
    proof (cases "rc_outstanding s' \<noteq> 0 \<or> pc = USettling \<or> pc = USending")
      case True
      then show ?thesis using assms(5) by (auto intro: exI[of _ t])
    next
      case False
      then have "rc_outstanding s' = rc_outstanding s" "rc_unit s t \<noteq> USettling" "rc_unit s t \<noteq> USending"
        using assms(6) cl that(2) by auto
      then show ?thesis
        using old assms(5) by (metis fun_upd_apply)
    qed
  qed
  then show ?thesis using assms(1-3) by (simp add: wake_ok_def)
qed

lemma wake_ok_step:
  assumes "rc_step clean s s'" and "wake_ok s" and "count_ok s"
  shows "wake_ok s'"
  using assms(1)
proof (cases rule: rc_step.cases)
  case (close)
  then show ?thesis using assms(2) by (simp add: wake_ok_def drain_close_def)
next
  case (load)
  then show ?thesis using assms(2) by (auto simp: wake_ok_def drain_look_def)
next
  case (wake)
  then show ?thesis using assms(2) by (simp add: wake_ok_def drain_wake_def)
next
  case (settle t)
  show ?thesis
    by (rule wake_ok_moved[OF assms(2), of _ t]) (use settle in \<open>auto simp: rc_op_defs\<close>)
next
  case (answer t)
  show ?thesis
    by (rule wake_ok_moved[OF assms(2), of _ t]) (use answer in \<open>auto simp: rc_op_defs\<close>)
next
  case (look t)
  show ?thesis
    by (rule wake_ok_moved[OF assms(2), of _ t]) (use look in \<open>auto simp: rc_op_defs\<close>)
next
  case (job t u)
  show ?thesis
    by (rule wake_ok_moved[OF assms(2), of _ u]) (use job outstanding_nonneg[OF assms(3)] in \<open>auto simp: rc_op_defs\<close>)
next
  case (count t)
  show ?thesis
    by (rule wake_ok_moved[OF assms(2), of _ t]) (use count outstanding_nonneg[OF assms(3)] in \<open>auto simp: rc_op_defs\<close>)
next
  case (send t)
  show ?thesis
    by (rule wake_ok_moved[OF assms(2), of _ t]) (use send in \<open>auto simp: rc_op_defs\<close>)
qed


lemma wake_ok_reach: "rc_reach clean s \<Longrightarrow> wake_ok s"
proof (induction rule: rc_reach.induct)
  case start
  then show ?case by (simp add: rc_init_def wake_ok_def)
next
  case (step s s')
  then show ?case using wake_ok_step count_ok_reach by blast
qed

text \<open>Once the kernel is closing and its last settle is seen, nothing let through still runs.\<close>

definition closing :: "runner_count \<Rightarrow> bool" where
  "closing s \<longleftrightarrow> rc_token s \<or> rc_drain s = DPast \<or> (\<exists>t. rc_unit s t = USending)
     \<or> (rc_closed s \<and> (\<exists>t. rc_unit s t = USettling))"

definition safe_ok :: "runner_count \<Rightarrow> bool" where
  "safe_ok s \<longleftrightarrow> (closing s \<longrightarrow> rc_closed s \<and> (\<forall>t. rc_unit s t \<noteq> UOpen))"

lemma safe_ok_step:
  assumes "rc_step True s s'" and "safe_ok s" and "count_ok s" and "wake_ok s"
  shows "safe_ok s'"
  using assms(1)
proof (cases rule: rc_step.cases)
  case (close)
  then show ?thesis using assms(2,4) by (auto simp: safe_ok_def closing_def drain_close_def wake_ok_def)
next
  case (load)
  then show ?thesis
    using assms(2,4) zero_none_open[OF assms(3)]
    by (auto simp: safe_ok_def closing_def drain_look_def wake_ok_def counted_def split: if_splits)
next
  case (wake)
  then show ?thesis using assms(2) by (auto simp: safe_ok_def closing_def drain_wake_def)
next
  case (settle t)
  have "\<not> counted (rc_unit s' u)" if "rc_outstanding s = 1" for u
    using zero_none_open[OF count_ok_step[OF assms(1,3)], of u] that settle(1) by (simp add: rc_op_defs)
  then show ?thesis
    using settle assms(2) by (auto simp: safe_ok_def closing_def rc_op_defs counted_def split: if_splits)
next
  case (answer t)
  then show ?thesis using assms(2) by (auto simp: safe_ok_def closing_def rc_op_defs split: if_splits)
next
  case (look t)
  then show ?thesis using assms(2) by (auto simp: safe_ok_def closing_def rc_op_defs split: if_splits)
next
  case (job t u)
  then show ?thesis using assms(2) by (auto simp: safe_ok_def closing_def rc_op_defs split: if_splits)
next
  case (count t)
  then show ?thesis using assms(2) by (auto simp: safe_ok_def closing_def rc_op_defs split: if_splits)
next
  case (send t)
  then show ?thesis using assms(2) by (auto simp: safe_ok_def closing_def rc_op_defs split: if_splits)
qed

lemma safe_ok_reach: "rc_reach True s \<Longrightarrow> safe_ok s"
proof (induction rule: rc_reach.induct)
  case start
  then show ?case by (simp add: rc_init_def safe_ok_def closing_def)
next
  case (step s s')
  then show ?case using safe_ok_step count_ok_reach wake_ok_reach by blast
qed

text \<open>
  A publication let through, a drain that finds it outstanding, and the publication's settle:
  the drain has its token.
\<close>

definition drained_sample :: runner_count where
  "drained_sample = settle_send (settle_look (settle_count
     (drain_look (drain_close (add_answer (add_count rc_init 0) 0))) 0) 0) 0"

lemma rc_reach_drained: "rc_reach clean drained_sample"
proof -
  let ?s2 = "add_answer (add_count rc_init 0) 0"
  have "rc_reach clean ?s2"
    by (intro rc_reach.step[OF rc_reach.step[OF rc_reach.start rc_step.count] rc_step.answer])
      (simp_all add: rc_init_def rc_op_defs)
  moreover have "rc_step clean ?s2 (drain_close ?s2)"
    by (rule rc_step.close) (auto simp: rc_init_def rc_op_defs)
  ultimately have "rc_reach clean (drain_close ?s2)" by (rule rc_reach.step)
  then have "rc_reach clean (settle_count (drain_look (drain_close ?s2)) 0)"
    by (intro rc_reach.step[OF rc_reach.step[OF _ rc_step.load] rc_step.settle])
      (simp_all add: rc_init_def rc_op_defs)
  then show ?thesis
    unfolding drained_sample_def
    by (intro rc_reach.step[OF rc_reach.step[OF _ rc_step.look] rc_step.send])
      (simp_all add: rc_init_def rc_op_defs)
qed

lemma drained_sample_simps:
  "rc_unit drained_sample t = UIdle" "rc_drain drained_sample = DWait" "rc_token drained_sample"
  by (simp_all add: drained_sample_def rc_init_def rc_op_defs)

text \<open>
  Draining ends.  In every interleaving, once all work has settled a drain that is blocked
  has its token, so it does not wait forever; the count is exactly the number of publications
  and jobs not yet settled.
\<close>

theorem drain_wakes:
  assumes "rc_reach clean s" and "\<And>t. rc_unit s t = UIdle" and "rc_drain s = DWait"
  shows "rc_token s \<and> rc_outstanding s = 0"
proof -
  have "rc_outstanding s = 0"
    using count_ok_reach[OF assms(1)] assms(2) by (simp add: count_ok_def units_counted_def counted_def)
  then show ?thesis
    using wake_ok_reach[OF assms(1)] assms(2,3) by (auto simp: wake_ok_def)
qed

theorem drain_wakes_witness:
  "rc_reach False drained_sample \<and> (\<forall>t. rc_unit drained_sample t = UIdle) \<and> rc_drain drained_sample = DWait
   \<and> rc_token drained_sample \<and> rc_outstanding drained_sample = 0"
  using drain_wakes[OF rc_reach_drained[of False]] drained_sample_simps rc_reach_drained[of False] by auto

text \<open>
  A drain that does not begin between the two operations of a \<open>settle\<close> returns only once
  every publication and job the kernel let through has settled.
\<close>

theorem drain_safe_when_clean:
  assumes "rc_reach True s" and "rc_drain s = DPast"
  shows "rc_unit s t \<noteq> UOpen"
  using safe_ok_reach[OF assms(1)] assms(2) by (auto simp: safe_ok_def closing_def)


theorem drain_safe_when_clean_witness:
  "rc_reach True (drain_wake drained_sample) \<and> rc_drain (drain_wake drained_sample) = DPast
   \<and> rc_unit (drain_wake drained_sample) 0 \<noteq> UOpen"
proof -
  have "rc_reach True (drain_wake drained_sample)"
    by (rule rc_reach.step[OF rc_reach_drained rc_step.wake]) (simp_all add: drained_sample_simps)
  moreover have "rc_drain (drain_wake drained_sample) = DPast"
    by (simp add: drain_wake_def)
  ultimately show ?thesis using drain_safe_when_clean by blast
qed

text \<open>
  C35: drain can return early.  \<open>settle\<close> brings the count to zero and reads \<open>closed\<close> in two steps;
  a publication let through between them, and a drain begun after it, make the first settle send
  the token while that publication still runs.  The kernel then ends its workers and destroys
  its plugins under a running publication, whose jobs no worker is left to run.
\<close>

theorem drain_returns_early:
  "\<exists>s. rc_reach False s \<and> rc_drain s = DPast \<and> rc_unit s 1 = UOpen \<and> rc_outstanding s = 1"
proof -
  let ?s1 = "settle_count (add_answer (add_count rc_init 0) 0) 0"
  let ?s2 = "add_answer (add_count ?s1 1) 1"
  let ?s3 = "drain_look (drain_close ?s2)"
  let ?s4 = "drain_wake (settle_send (settle_look ?s3 0) 0)"
  have "rc_reach False ?s1"
    by (intro rc_reach.step[OF rc_reach.step[OF rc_reach.step[OF rc_reach.start rc_step.count] rc_step.answer] rc_step.settle])
      (simp_all add: rc_init_def rc_op_defs)
  then have "rc_reach False ?s2"
    by (intro rc_reach.step[OF rc_reach.step[OF _ rc_step.count] rc_step.answer])
      (simp_all add: rc_init_def rc_op_defs)
  then have "rc_reach False ?s3"
    by (intro rc_reach.step[OF rc_reach.step[OF _ rc_step.close] rc_step.load])
      (simp_all add: rc_init_def rc_op_defs)
  then have "rc_reach False ?s4"
    by (intro rc_reach.step[OF rc_reach.step[OF rc_reach.step[OF _ rc_step.look] rc_step.send] rc_step.wake])
      (simp_all add: rc_init_def rc_op_defs)
  moreover have "rc_drain ?s4 = DPast \<and> rc_unit ?s4 1 = UOpen \<and> rc_outstanding ?s4 = 1"
    by (simp add: rc_init_def rc_op_defs)
  ultimately show ?thesis by blast
qed

section \<open>The ready queue and the workers\<close>

text \<open>
  A worker: about to pop, running a job, found nothing and about to count itself idle, counted idle and about to look again, parked on \<open>wake\<close>
  and \<open>stop\<close>, woken and still counted idle, and ended.
\<close>

datatype worker_pc = WPop | WRun u32 | WEmpty | WIdle | WParked | WWoken | WEnded

text \<open>A caller of \<open>makeReady\<close> for a job that is not pinned: outside, pushed and about to read
  \<open>idle\<close>, and about to send.\<close>

datatype producer_pc = POut | PPushed | PSend

record workers_state =
  wk_count :: nat
  wk_ready :: "u32 queue"
  wk_idle :: int
  wk_tokens :: nat
  wk_stop :: bool
  wk_pc :: "nat \<Rightarrow> worker_pc"
  wk_producer :: "nat \<Rightarrow> producer_pc"

text \<open>\<open>start\<close>: workers 0 up to the count, about to pop.\<close>

definition start_workers :: "nat \<Rightarrow> workers_state" where
  "start_workers workerCount = \<lparr>wk_count = workerCount, wk_ready = empty_queue, wk_idle = 0, wk_tokens = 0,
     wk_stop = False, wk_pc = (\<lambda>w. if w < workerCount then WPop else WEnded), wk_producer = (\<lambda>_. POut)\<rparr>"

definition ready_push :: "workers_state \<Rightarrow> nat \<Rightarrow> u32 \<Rightarrow> workers_state" where
  "ready_push s p slot = s\<lparr>wk_ready := snd (q_push 0 (wk_ready s) slot), wk_producer := (wk_producer s)(p := PPushed)\<rparr>"

definition ready_look :: "workers_state \<Rightarrow> nat \<Rightarrow> workers_state" where
  "ready_look s p = s\<lparr>wk_producer := (wk_producer s)(p := if wk_idle s > 0 then PSend else POut)\<rparr>"

definition ready_send :: "workers_state \<Rightarrow> nat \<Rightarrow> workers_state" where
  "ready_send s p = s\<lparr>wk_tokens := (if wk_tokens s < wk_count s then Suc (wk_tokens s) else wk_tokens s),
     wk_producer := (wk_producer s)(p := POut)\<rparr>"

definition work_pop :: "workers_state \<Rightarrow> nat \<Rightarrow> workers_state" where
  "work_pop s w =
     (case q_pop 0 (wk_ready s) of
        (Some slot, q) \<Rightarrow> s\<lparr>wk_ready := q, wk_pc := (wk_pc s)(w := WRun slot)\<rparr>
      | (None, q) \<Rightarrow> s\<lparr>wk_ready := q, wk_pc := (wk_pc s)(w := WEmpty)\<rparr>)"

definition work_count_idle :: "workers_state \<Rightarrow> nat \<Rightarrow> workers_state" where
  "work_count_idle s w = s\<lparr>wk_idle := wk_idle s + 1, wk_pc := (wk_pc s)(w := WIdle)\<rparr>"

definition work_again :: "workers_state \<Rightarrow> nat \<Rightarrow> workers_state" where
  "work_again s w = s\<lparr>wk_pc := (wk_pc s)(w := if q_len (wk_ready s) = 0 then WParked else WWoken)\<rparr>"

definition work_wake :: "workers_state \<Rightarrow> nat \<Rightarrow> workers_state" where
  "work_wake s w = s\<lparr>wk_tokens := wk_tokens s - 1, wk_pc := (wk_pc s)(w := WWoken)\<rparr>"

definition work_leave_idle :: "workers_state \<Rightarrow> nat \<Rightarrow> workers_state" where
  "work_leave_idle s w = s\<lparr>wk_idle := wk_idle s - 1, wk_pc := (wk_pc s)(w := WPop)\<rparr>"

inductive wk_step :: "workers_state \<Rightarrow> workers_state \<Rightarrow> bool" where
  push: "wk_producer s p = POut \<Longrightarrow> wk_step s (ready_push s p slot)"
| look: "wk_producer s p = PPushed \<Longrightarrow> wk_step s (ready_look s p)"
| send: "wk_producer s p = PSend \<Longrightarrow> wk_step s (ready_send s p)"
| pop: "wk_pc s w = WPop \<Longrightarrow> wk_step s (work_pop s w)"
| ran: "wk_pc s w = WRun slot \<Longrightarrow> wk_step s (s\<lparr>wk_pc := (wk_pc s)(w := WPop)\<rparr>)"
| count: "wk_pc s w = WEmpty \<Longrightarrow> wk_step s (work_count_idle s w)"
| again: "wk_pc s w = WIdle \<Longrightarrow> wk_step s (work_again s w)"
| wake: "\<lbrakk>wk_pc s w = WParked; wk_tokens s > 0\<rbrakk> \<Longrightarrow> wk_step s (work_wake s w)"
| leave: "wk_pc s w = WWoken \<Longrightarrow> wk_step s (work_leave_idle s w)"
| stop: "wk_step s (s\<lparr>wk_stop := True\<rparr>)"
| ended: "\<lbrakk>wk_pc s w = WParked; wk_stop s\<rbrakk> \<Longrightarrow> wk_step s (s\<lparr>wk_pc := (wk_pc s)(w := WEnded)\<rparr>)"

inductive wk_reach :: "nat \<Rightarrow> workers_state \<Rightarrow> bool" for n where
  start: "wk_reach n (start_workers n)"
| step: "wk_reach n s \<Longrightarrow> wk_step s s' \<Longrightarrow> wk_reach n s'"

definition idle_pc :: "worker_pc \<Rightarrow> bool" where
  "idle_pc pc \<longleftrightarrow> pc = WIdle \<or> pc = WParked \<or> pc = WWoken"

text \<open>A worker that will look at the queue without being woken.\<close>

definition awake :: "worker_pc \<Rightarrow> bool" where
  "awake pc \<longleftrightarrow> pc \<noteq> WParked \<and> pc \<noteq> WEnded"

definition wk_ok :: "nat \<Rightarrow> workers_state \<Rightarrow> bool" where
  "wk_ok n s \<longleftrightarrow> wk_count s = n \<and> q_wf (wk_ready s) \<and> \<not> q_closed (wk_ready s)
     \<and> (\<forall>w. wk_pc s w \<noteq> WEnded \<longrightarrow> w < n)
     \<and> (\<not> wk_stop s \<longrightarrow> (\<forall>w < n. wk_pc s w \<noteq> WEnded)
         \<and> wk_idle s = int (card {w. idle_pc (wk_pc s w)})
         \<and> (q_items (wk_ready s) \<noteq> [] \<longrightarrow> 0 < wk_tokens s \<or> (\<exists>p. wk_producer s p \<noteq> POut) \<or> (\<exists>w < n. awake (wk_pc s w))))"


lemma wk_ok_start: "wk_ok n (start_workers n)"
  by (auto simp: wk_ok_def start_workers_def idle_pc_def empty_queue_def q_items_def q_wf_def split: if_splits)

lemma finite_idle: "wk_ok n s \<Longrightarrow> finite {w. idle_pc (wk_pc s w)}"
  by (rule finite_subset[of _ "{..<n}"]) (auto simp: wk_ok_def idle_pc_def)

text \<open>One worker moves, to a point where it is awake or with the queue empty or a token there.\<close>

lemma wk_ok_worker:
  assumes "wk_ok n s" and "wk_pc s w \<noteq> WEnded" and "pc \<noteq> WEnded"
    and "wk_count s' = wk_count s" and "wk_stop s' = wk_stop s" and "wk_producer s' = wk_producer s"
    and "q_wf (wk_ready s')" and "\<not> q_closed (wk_ready s')"
    and "wk_pc s' = (wk_pc s)(w := pc)"
    and "wk_idle s' = wk_idle s + (if idle_pc pc then 1 else 0) - (if idle_pc (wk_pc s w) then 1 else 0)"
    and "awake pc \<or> q_items (wk_ready s') = []"
  shows "wk_ok n s'"
proof -
  have w: "w < n"
    using assms(1,2) by (auto simp: wk_ok_def)
  have "wk_idle s' = int (card {v. idle_pc (wk_pc s' v)})" if "\<not> wk_stop s'"
    using assms(1,5,10) that card_fun_upd(2)[of idle_pc "wk_pc s" w pc] finite_idle[OF assms(1)]
    by (simp add: assms(9) wk_ok_def)
  moreover have "\<forall>v. wk_pc s' v \<noteq> WEnded \<longrightarrow> v < n" "\<not> wk_stop s' \<Longrightarrow> \<forall>v < n. wk_pc s' v \<noteq> WEnded"
    using assms(1,3,5) w by (auto simp: assms(9) wk_ok_def)
  moreover have "q_items (wk_ready s') \<noteq> [] \<Longrightarrow> \<exists>v < n. awake (wk_pc s' v)"
    using assms(9,11) w by (auto intro!: exI[of _ w])
  ultimately show ?thesis
    using assms(1,4,7,8) by (simp add: wk_ok_def)
qed

text \<open>A producer moves, or the tokens change, and workers and queue stay.\<close>

lemma wk_ok_producer:
  assumes "wk_ok n s" and "wk_count s' = wk_count s" and "wk_stop s' = wk_stop s" and "wk_pc s' = wk_pc s"
    and "wk_idle s' = wk_idle s" and "q_wf (wk_ready s')" and "\<not> q_closed (wk_ready s')"
    and "\<not> wk_stop s \<Longrightarrow> 0 < wk_tokens s' \<or> (\<exists>p. wk_producer s' p \<noteq> POut) \<or> (\<exists>w < n. awake (wk_pc s w))"
  shows "wk_ok n s'"
  using assms by (auto simp: wk_ok_def)

lemma idle_zero_awake:
  assumes "wk_ok n s" and "\<not> wk_stop s" and "0 < n" and "\<not> wk_idle s > 0"
  shows "\<exists>w < n. awake (wk_pc s w)"
proof -
  have "card {w. idle_pc (wk_pc s w)} = 0"
    using assms by (simp add: wk_ok_def)
  then have "\<not> idle_pc (wk_pc s 0)"
    using finite_idle[OF assms(1)] by auto
  moreover have "wk_pc s 0 \<noteq> WEnded"
    using assms by (simp add: wk_ok_def)
  ultimately show ?thesis
    using assms(3) by (intro exI[of _ 0]) (auto simp: awake_def idle_pc_def)
qed

lemma wk_okD:
  "wk_ok n s \<Longrightarrow> q_wf (wk_ready s)" "wk_ok n s \<Longrightarrow> \<not> q_closed (wk_ready s)" "wk_ok n s \<Longrightarrow> wk_count s = n"
  by (simp_all add: wk_ok_def)

lemma wk_ok_pop:
  assumes "wk_ok n s" and "wk_pc s w = WPop"
  shows "wk_ok n (work_pop s w)"
proof -
  note q = wk_okD(1,2)[OF assms(1)]
  note p = fifo.pop_answer[OF q(1), of 0] fifo.pop_wf[OF q(1), of 0] fifo.pop_closed[OF q(1), of 0]
    fifo.pop_items[OF q(1), of 0]
  obtain ans q' where pop: "q_pop 0 (wk_ready s) = (ans, q')" by fastforce
  show ?thesis
  proof (cases ans)
    case None
    have "q_items q' = []"
      using p(1,4) pop None by (simp split: list.splits)
    then show ?thesis
      using p(2,3) q(2) pop None assms(2)
      by (intro wk_ok_worker[OF assms(1), of w WEmpty]) (simp_all add: work_pop_def idle_pc_def awake_def)
  next
    case (Some x)
    then show ?thesis
      using p(2,3) q(2) pop assms(2)
      by (intro wk_ok_worker[OF assms(1), of w "WRun x"]) (simp_all add: work_pop_def idle_pc_def awake_def)
  qed
qed

lemma wk_ok_push:
  assumes "wk_ok n s"
  shows "wk_ok n (ready_push s p slot)"
proof (rule wk_ok_producer[OF assms])
  have "wk_producer (ready_push s p slot) p \<noteq> POut"
    by (simp add: ready_push_def)
  then show "0 < wk_tokens (ready_push s p slot) \<or> (\<exists>p'. wk_producer (ready_push s p slot) p' \<noteq> POut)
    \<or> (\<exists>w < n. awake (wk_pc s w))" by blast
qed (use wk_okD[OF assms] in \<open>simp_all add: ready_push_def fifo.push_wf fifo.push_closed\<close>)

lemma wk_ok_look:
  assumes "wk_ok n s" and "0 < n"
  shows "wk_ok n (ready_look s p)"
proof (rule wk_ok_producer[OF assms(1)])
  assume "\<not> wk_stop s"
  show "0 < wk_tokens (ready_look s p) \<or> (\<exists>p'. wk_producer (ready_look s p) p' \<noteq> POut)
    \<or> (\<exists>w < n. awake (wk_pc s w))"
  proof (cases "wk_idle s > 0")
    case True
    then have "wk_producer (ready_look s p) p \<noteq> POut" by (simp add: ready_look_def)
    then show ?thesis by blast
  next
    case False
    then show ?thesis using idle_zero_awake[OF assms(1) \<open>\<not> wk_stop s\<close> assms(2)] by blast
  qed
qed (use wk_okD[OF assms(1)] in \<open>simp_all add: ready_look_def\<close>)

lemma wk_ok_step:
  assumes "wk_step s s'" and "wk_ok n s" and "0 < n"
  shows "wk_ok n s'"
  using assms(1)
proof (cases rule: wk_step.cases)
  case (push p slot)
  then show ?thesis using wk_ok_push[OF assms(2)] by simp
next
  case (look p)
  then show ?thesis using wk_ok_look[OF assms(2,3)] by simp
next
  case (send p)
  show ?thesis
    unfolding send(1)
    by (rule wk_ok_producer[OF assms(2)]) (use wk_okD[OF assms(2)] assms(3) in \<open>simp_all add: ready_send_def\<close>)
next
  case (pop w)
  then show ?thesis using wk_ok_pop[OF assms(2)] by simp
next
  case (ran w slot)
  show ?thesis
    unfolding ran(1)
    by (rule wk_ok_worker[OF assms(2), of w WPop])
      (use ran(2) wk_okD[OF assms(2)] in \<open>simp_all add: idle_pc_def awake_def\<close>)
next
  case (count w)
  show ?thesis
    unfolding count(1)
    by (rule wk_ok_worker[OF assms(2), of w WIdle])
      (use count(2) wk_okD[OF assms(2)] in \<open>simp_all add: work_count_idle_def idle_pc_def awake_def\<close>)
next
  case (again w)
  have "q_len (wk_ready s) = 0 \<longleftrightarrow> q_items (wk_ready s) = []"
    by (simp add: q_len_def q_items_def)
  then show ?thesis
    unfolding again(1)
    by (intro wk_ok_worker[OF assms(2), of w "if q_len (wk_ready s) = 0 then WParked else WWoken"])
      (use again(2) wk_okD[OF assms(2)] in \<open>simp_all add: work_again_def idle_pc_def awake_def\<close>)
next
  case (wake w)
  show ?thesis
    unfolding wake(1)
    by (rule wk_ok_worker[OF assms(2), of w WWoken])
      (use wake(2) wk_okD[OF assms(2)] in \<open>simp_all add: work_wake_def idle_pc_def awake_def\<close>)
next
  case (leave w)
  show ?thesis
    unfolding leave(1)
    by (rule wk_ok_worker[OF assms(2), of w WPop])
      (use leave(2) wk_okD[OF assms(2)] in \<open>simp_all add: work_leave_idle_def idle_pc_def awake_def\<close>)
next
  case stop
  then show ?thesis using assms(2) by (simp add: wk_ok_def)
next
  case (ended w)
  then show ?thesis using assms(2) by (simp add: wk_ok_def)
qed

lemma wk_ok_reach: "wk_reach n s \<Longrightarrow> 0 < n \<Longrightarrow> wk_ok n s"
  by (induction rule: wk_reach.induct) (auto intro: wk_ok_start wk_ok_step)

text \<open>
  C29: no ready job is left with every worker asleep.  In every interleaving, until the workers
  are stopped: with a job in the ready queue, even one pushed between a worker's failed pop and its counting itself idle, and no \<open>makeReady\<close> under way, some worker is awake,
  or a token is there to wake one.
\<close>

theorem ready_job_wakes:
  assumes "wk_reach n s" and "0 < n" and "\<not> wk_stop s" and "q_len (wk_ready s) \<noteq> 0"
    and "\<And>p. wk_producer s p = POut"
  shows "0 < wk_tokens s \<or> (\<exists>w < n. awake (wk_pc s w))"
  using wk_ok_reach[OF assms(1,2)] assms(3-5) by (auto simp: wk_ok_def q_len_def q_items_def)

text \<open>One worker that found nothing and parked, then a job made ready.\<close>

definition parked_sample :: workers_state where
  "parked_sample = ready_send (ready_look (ready_push (work_again (work_count_idle (work_pop (start_workers 1) 0) 0) 0) 0 7) 0) 0"

theorem ready_job_wakes_witness:
  "wk_reach 1 parked_sample \<and> q_len (wk_ready parked_sample) = 1 \<and> wk_pc parked_sample 0 = WParked
   \<and> 0 < wk_tokens parked_sample"
proof -
  let ?s2 = "work_again (work_count_idle (work_pop (start_workers 1) 0) 0) 0"
  have empty: "q_pop 0 (empty_queue :: u32 queue) = (None, empty_queue)"
    by (simp add: q_pop_def empty_queue_def)
  have len: "q_len (snd (q_push 0 (empty_queue :: u32 queue) 7)) = 1" "q_len (empty_queue :: u32 queue) = 0"
    by (simp_all add: q_len_def q_push_def q_grow_def q_take_def empty_queue_def)
  have r2: "wk_reach 1 ?s2"
    by (intro wk_reach.step[OF wk_reach.step[OF wk_reach.step[OF wk_reach.start wk_step.pop] wk_step.count] wk_step.again])
      (simp_all add: start_workers_def work_pop_def work_count_idle_def empty)
  have r: "wk_reach 1 parked_sample"
    unfolding parked_sample_def
    by (intro wk_reach.step[OF wk_reach.step[OF wk_reach.step[OF r2 wk_step.push] wk_step.look] wk_step.send])
      (simp_all add: start_workers_def work_pop_def work_count_idle_def work_again_def ready_push_def ready_look_def empty)
  have facts: "q_len (wk_ready parked_sample) = 1" "wk_pc parked_sample 0 = WParked" "\<not> wk_stop parked_sample"
    "\<And>p. wk_producer parked_sample p = POut" "\<And>w. w < 1 \<Longrightarrow> \<not> awake (wk_pc parked_sample w)"
    by (simp_all add: parked_sample_def start_workers_def work_pop_def work_count_idle_def work_again_def ready_push_def
        ready_look_def ready_send_def empty len awake_def)
  then show ?thesis
    using ready_job_wakes[OF r] r by fastforce
qed

end
