(* ===== verification/Kernel_Config.thy ===== *)
theory Kernel_Config
  imports Kernel_Locks Kernel_Dispatch
begin

text \<open>
  Registration: \<open>kernel/configurator.go\<close>, \<open>kernel/access.go\<close>, \<open>kernel/socket.go\<close>, the socket
  resolution of \<open>kernel/kernel.go\<close>, \<open>PluginConfigOrDefault\<close> of \<open>kernel/plugin.go\<close>, the Once keys of
  \<open>kernel/logger.go\<close> and \<open>IsPointerFree\<close> of \<open>kernel/container/pointerfree.go\<close>.  A composition error is a
  panic in the source and a value of \<open>reg_error\<close> here.  Go maps keyed by type are association lists
  with distinct keys; a task's constructor is the list of requests it makes of its \<open>Access\<close>.
  Values of resources and bindings are of type \<open>'v\<close>, handlers of type \<open>'h\<close>.
\<close>

section \<open>Types without pointers\<close>

text \<open>The kinds of \<open>reflect\<close>; a type is known by its name and its structure.\<close>

datatype go_kind = KBool | KInt | KInt8 | KInt16 | KInt32 | KInt64 | KUint | KUint8 | KUint16 | KUint32
  | KUint64 | KUintptr | KFloat32 | KFloat64 | KComplex64 | KComplex128
  | KPointer | KUnsafePointer | KSlice | KMap | KString | KInterface | KChan | KFunc

datatype go_type = Basic string go_kind | ArrayOf string nat go_type | StructOf string "go_type list"

fun pointer_kind :: "go_kind \<Rightarrow> bool" where
  "pointer_kind k \<longleftrightarrow> k \<in> {KPointer, KUnsafePointer, KSlice, KMap, KString, KInterface, KChan, KFunc}"

fun IsPointerFree :: "go_type \<Rightarrow> bool" where
  "IsPointerFree (Basic _ k) =
     (k \<in> {KBool, KInt, KInt8, KInt16, KInt32, KInt64, KUint, KUint8, KUint16, KUint32,
           KUint64, KUintptr, KFloat32, KFloat64, KComplex64, KComplex128})"
| "IsPointerFree (ArrayOf _ _ t) = IsPointerFree t"
| "IsPointerFree (StructOf _ ts) = list_all IsPointerFree ts"

text \<open>The kinds a type holds, at any depth.\<close>

fun kinds_in :: "go_type \<Rightarrow> go_kind set" where
  "kinds_in (Basic _ k) = {k}"
| "kinds_in (ArrayOf _ _ t) = kinds_in t"
| "kinds_in (StructOf _ ts) = (\<Union>t \<in> set ts. kinds_in t)"

lemma IsPointerFree_kinds: "IsPointerFree t \<longleftrightarrow> (\<forall>k \<in> kinds_in t. \<not> pointer_kind k)"
proof (induction t)
  case (Basic n k)
  then show ?case by (cases k) auto
qed (auto simp: list_all_iff)

section \<open>The registry\<close>

datatype reg_error = ResourceTwice | NilBinding | SocketTwice | NilConstructor | NotPointerFree | NilBody
  | ForeignTask | NilHandler | BadSubscription | AccessClosed | NoResource
  | UndeclaredSocket | ExclusiveTwice | Unbound | ReadInInit | TooManyDefaults | ConfigType

record 'v socket =
  sk_plugin :: string
  sk_exclusive :: bool
  sk_optional :: bool
  sk_values :: "'v list option"

record 'v binding =
  bd_socket :: go_type
  bd_plugin :: string
  bd_value :: 'v

record ('v, 'h) registry =
  rg_resources :: "(go_type \<times> nat \<times> 'v) list"
  rg_sockets :: "(go_type \<times> 'v socket) list"
  rg_bindings :: "'v binding list"
  rg_dispatchers :: "(go_type \<times> 'h dispatcher) list"
  rg_taskLocks :: "task_locks list"

text \<open>\<open>newKernel\<close>: nothing registered but the Join task, at index 0, which locks nothing.\<close>

definition join_locks :: task_locks where
  "join_locks = \<lparr>tl_reads = [], tl_writes = [], tl_pinned = False\<rparr>"

definition new_registry :: "('v, 'h) registry" where
  "new_registry = \<lparr>rg_resources = [], rg_sockets = [], rg_bindings = [], rg_dispatchers = [],
     rg_taskLocks = [join_locks]\<rparr>"

definition InitResource :: "('v, 'h) registry \<Rightarrow> go_type \<Rightarrow> 'v \<Rightarrow> reg_error + ('v, 'h) registry" where
  "InitResource g t v =
     (if map_of (rg_resources g) t \<noteq> None then Inl ResourceTwice
      else Inr (g\<lparr>rg_resources := rg_resources g @ [(t, length (rg_resources g), v)]\<rparr>))"

definition Resource :: "('v, 'h) registry \<Rightarrow> go_type \<Rightarrow> 'v option" where
  "Resource g t = map_option snd (map_of (rg_resources g) t)"

section \<open>Access\<close>

record access =
  ac_open :: bool
  ac_reads :: "u64 list"
  ac_writes :: "u64 list"

definition new_access :: access where
  "new_access = \<lparr>ac_open = True, ac_reads = [], ac_writes = []\<rparr>"

definition maskPosition :: "nat \<Rightarrow> nat \<times> u64" where
  "maskPosition index = (index div 64, push_bit (index mod 64) 1)"

function growMasks :: "nat \<Rightarrow> access \<Rightarrow> access" where
  "growMasks words a =
     (if length (ac_writes a) < words
      then growMasks words (a\<lparr>ac_reads := ac_reads a @ [0], ac_writes := ac_writes a @ [0]\<rparr>)
      else a)"
  by pat_completeness auto
termination
  by (relation "measure (\<lambda>(words, a). words - length (ac_writes a))") auto

declare growMasks.simps [simp del]

definition access_resource :: "('v, 'h) registry \<Rightarrow> access \<Rightarrow> go_type \<Rightarrow> reg_error + nat" where
  "access_resource g a t =
     (if \<not> ac_open a then Inl AccessClosed
      else case map_of (rg_resources g) t of None \<Rightarrow> Inl NoResource | Some (index, _) \<Rightarrow> Inr index)"

definition read_index :: "nat \<Rightarrow> access \<Rightarrow> access" where
  "read_index index a =
     (case maskPosition index of (word, b) \<Rightarrow>
        let a1 = growMasks (word + 1) a
        in if ac_writes a1 ! word AND b = 0
           then a1\<lparr>ac_reads := (ac_reads a1)[word := ac_reads a1 ! word OR b]\<rparr> else a1)"

definition write_index :: "nat \<Rightarrow> access \<Rightarrow> access" where
  "write_index index a =
     (case maskPosition index of (word, b) \<Rightarrow>
        let a1 = growMasks (word + 1) a
        in a1\<lparr>ac_writes := (ac_writes a1)[word := ac_writes a1 ! word OR b],
              ac_reads := (ac_reads a1)[word := ac_reads a1 ! word AND NOT b]\<rparr>)"

definition access_read :: "('v, 'h) registry \<Rightarrow> go_type \<Rightarrow> access \<Rightarrow> reg_error + access" where
  "access_read g t a = (case access_resource g a t of Inl e \<Rightarrow> Inl e | Inr index \<Rightarrow> Inr (read_index index a))"

definition access_write :: "('v, 'h) registry \<Rightarrow> go_type \<Rightarrow> access \<Rightarrow> reg_error + access" where
  "access_write g t a = (case access_resource g a t of Inl e \<Rightarrow> Inl e | Inr index \<Rightarrow> Inr (write_index index a))"

definition use_word :: "task_locks \<Rightarrow> nat \<Rightarrow> access \<Rightarrow> access" where
  "use_word used i a =
     (let writes = (ac_writes a)[i := ac_writes a ! i OR tl_writes used ! i];
          reads = (ac_reads a)[i := ac_reads a ! i OR tl_reads used ! i]
      in a\<lparr>ac_writes := writes, ac_reads := reads[i := reads ! i AND NOT (writes ! i)]\<rparr>)"

definition use_locks :: "task_locks \<Rightarrow> access \<Rightarrow> access" where
  "use_locks used a = fold (use_word used) [0..<length (tl_writes used)] (growMasks (length (tl_writes used)) a)"

text \<open>A task is given by its index in this kernel's table; \<open>None\<close> is nil or another kernel's.\<close>

definition access_use :: "('v, 'h) registry \<Rightarrow> nat option \<Rightarrow> access \<Rightarrow> reg_error + access" where
  "access_use g task a =
     (if \<not> ac_open a then Inl AccessClosed
      else case task of
             None \<Rightarrow> Inl ForeignTask
           | Some i \<Rightarrow> if i < length (rg_taskLocks g) then Inr (use_locks (rg_taskLocks g ! i) a) else Inl ForeignTask)"

datatype request = ReqRead go_type | ReqWrite go_type | ReqUse "nat option"

fun access_request :: "('v, 'h) registry \<Rightarrow> request \<Rightarrow> access \<Rightarrow> reg_error + access" where
  "access_request g (ReqRead t) a = access_read g t a"
| "access_request g (ReqWrite t) a = access_write g t a"
| "access_request g (ReqUse i) a = access_use g i a"

fun run_constructor :: "('v, 'h) registry \<Rightarrow> request list \<Rightarrow> access \<Rightarrow> reg_error + access" where
  "run_constructor g [] a = Inr a"
| "run_constructor g (r # rs) a = (case access_request g r a of Inl e \<Rightarrow> Inl e | Inr a' \<Rightarrow> run_constructor g rs a')"

text \<open>
  \<open>RegisterTask\<close>: \<open>None\<close> is a nil constructor; a constructor is its requests and whether the body
  it returns is not nil.  The answer is the task's index.
\<close>

definition RegisterTask :: "('v, 'h) registry \<Rightarrow> go_type \<Rightarrow> go_type \<Rightarrow> (request list \<times> bool) option \<Rightarrow>
    reg_error + (nat \<times> ('v, 'h) registry)" where
  "RegisterTask g a b constructor =
     (case constructor of
        None \<Rightarrow> Inl NilConstructor
      | Some (requests, body) \<Rightarrow>
          if \<not> IsPointerFree a \<or> \<not> IsPointerFree b then Inl NotPointerFree
          else (case run_constructor g requests new_access of
                  Inl e \<Rightarrow> Inl e
                | Inr acc \<Rightarrow>
                    if \<not> body then Inl NilBody
                    else Inr (length (rg_taskLocks g), g\<lparr>rg_taskLocks := rg_taskLocks g @
                      [\<lparr>tl_reads = ac_reads acc, tl_writes = ac_writes acc, tl_pinned = False\<rparr>]\<rparr>)))"

definition PinToMainThread :: "('v, 'h) registry \<Rightarrow> nat option \<Rightarrow> reg_error + ('v, 'h) registry" where
  "PinToMainThread g task =
     (case task of
        None \<Rightarrow> Inl ForeignTask
      | Some i \<Rightarrow> if i < length (rg_taskLocks g)
                  then Inr (g\<lparr>rg_taskLocks := (rg_taskLocks g)[i := (rg_taskLocks g ! i)\<lparr>tl_pinned := True\<rparr>]\<rparr>)
                  else Inl ForeignTask)"

section \<open>Subscriptions\<close>

definition dispatcher_of :: "('v, 'h) registry \<Rightarrow> go_type \<Rightarrow> 'h dispatcher" where
  "dispatcher_of g t = (case map_of (rg_dispatchers g) t of Some d \<Rightarrow> d | None \<Rightarrow> \<lparr>d_handlers = [], d_orders = []\<rparr>)"

definition set_dispatcher :: "('v, 'h) registry \<Rightarrow> go_type \<Rightarrow> 'h dispatcher \<Rightarrow> ('v, 'h) registry" where
  "set_dispatcher g t d =
     g\<lparr>rg_dispatchers := (if map_of (rg_dispatchers g) t = None then rg_dispatchers g @ [(t, d)]
         else map (\<lambda>(u, e). if u = t then (u, d) else (u, e)) (rg_dispatchers g))\<rparr>"

text \<open>A subscription is its 1-based index; 0 is the zero \<open>Sub\<close>.\<close>

definition Subscribe :: "('v, 'h) registry \<Rightarrow> go_type \<Rightarrow> 'h option \<Rightarrow> reg_error + (nat \<times> ('v, 'h) registry)" where
  "Subscribe g t fn =
     (if \<not> IsPointerFree t then Inl NotPointerFree
      else case fn of
             None \<Rightarrow> Inl NilHandler
           | Some h \<Rightarrow>
               let d = dispatcher_of g t; d' = d\<lparr>d_handlers := d_handlers d @ [h]\<rparr>
               in Inr (length (d_handlers d'), set_dispatcher g t d'))"

definition OrderSubscriptions :: "('v, 'h) registry \<Rightarrow> go_type \<Rightarrow> nat \<Rightarrow> nat \<Rightarrow> reg_error + ('v, 'h) registry" where
  "OrderSubscriptions g t before after =
     (let d = dispatcher_of g t
      in if list_ex (\<lambda>sub. sub < 1 \<or> sub > length (d_handlers d)) [before, after] then Inl BadSubscription
         else Inr (set_dispatcher g t (d\<lparr>d_orders := d_orders d @ [(before - 1, after - 1)]\<rparr>)))"

section \<open>Sockets\<close>

definition declareSocket :: "('v, 'h) registry \<Rightarrow> string \<Rightarrow> go_type \<Rightarrow> bool \<Rightarrow> bool \<Rightarrow> reg_error + ('v, 'h) registry" where
  "declareSocket g plugin t excl opt =
     (if map_of (rg_sockets g) t \<noteq> None then Inl SocketTwice
      else Inr (g\<lparr>rg_sockets := rg_sockets g @
        [(t, \<lparr>sk_plugin = plugin, sk_exclusive = excl, sk_optional = opt, sk_values = None\<rparr>)]\<rparr>))"

definition BindSocket :: "('v, 'h) registry \<Rightarrow> string \<Rightarrow> go_type \<Rightarrow> 'v option \<Rightarrow> reg_error + ('v, 'h) registry" where
  "BindSocket g plugin t v =
     (case v of
        None \<Rightarrow> Inl NilBinding
      | Some x \<Rightarrow> Inr (g\<lparr>rg_bindings := rg_bindings g @ [\<lparr>bd_socket = t, bd_plugin = plugin, bd_value = x\<rparr>]\<rparr>))"

definition resolve :: "go_type \<Rightarrow> 'v binding list \<Rightarrow> 'v socket \<Rightarrow> reg_error + 'v socket" where
  "resolve t bindings s =
     (let vs = map bd_value (filter (\<lambda>b. bd_socket b = t) bindings)
      in if sk_exclusive s \<and> length vs > 1 then Inl ExclusiveTwice
         else if \<not> sk_optional s \<and> length vs = 0 then Inl Unbound
         else Inr (s\<lparr>sk_values := Some vs\<rparr>))"

fun resolve_all :: "'v binding list \<Rightarrow> (go_type \<times> 'v socket) list \<Rightarrow> reg_error + (go_type \<times> 'v socket) list" where
  "resolve_all bindings [] = Inr []"
| "resolve_all bindings ((t, s) # rest) =
     (case resolve t bindings s of
        Inl e \<Rightarrow> Inl e
      | Inr s' \<Rightarrow> (case resolve_all bindings rest of Inl e \<Rightarrow> Inl e | Inr rest' \<Rightarrow> Inr ((t, s') # rest')))"

definition resolveSockets :: "('v, 'h) registry \<Rightarrow> reg_error + ('v, 'h) registry" where
  "resolveSockets g =
     (if list_ex (\<lambda>b. map_of (rg_sockets g) (bd_socket b) = None) (rg_bindings g) then Inl UndeclaredSocket
      else case resolve_all (rg_bindings g) (rg_sockets g) of
             Inl e \<Rightarrow> Inl e
           | Inr ss \<Rightarrow> Inr (g\<lparr>rg_sockets := ss\<rparr>))"

definition socket_getAll :: "'v socket \<Rightarrow> reg_error + 'v list" where
  "socket_getAll s = (case sk_values s of None \<Rightarrow> Inl ReadInInit | Some vs \<Rightarrow> Inr vs)"

definition socket_get :: "'v \<Rightarrow> 'v socket \<Rightarrow> reg_error + 'v" where
  "socket_get zero s =
     (case socket_getAll s of Inl e \<Rightarrow> Inl e | Inr [] \<Rightarrow> Inr zero | Inr (v # _) \<Rightarrow> Inr v)"

section \<open>A plugin's config\<close>

text \<open>What \<open>Init\<close> is handed: nil, a nil \<open>*C\<close>, a \<open>*C\<close>, or a value of another type.\<close>

datatype 'c any_config = NilConfig | NilPointer | GivenConfig 'c | OtherConfig

definition PluginConfigOrDefault :: "'c \<Rightarrow> 'c any_config \<Rightarrow> 'c option list \<Rightarrow> reg_error + 'c" where
  "PluginConfigOrDefault zero config defaultConfig =
     (if length defaultConfig > 1 then Inl TooManyDefaults
      else if config = OtherConfig then Inl ConfigType
      else case config of
             GivenConfig c \<Rightarrow> Inr c
           | _ \<Rightarrow> (if length defaultConfig = 1 \<and> hd defaultConfig \<noteq> None
                   then Inr (the (hd defaultConfig)) else Inr zero))"

section \<open>The Once keys\<close>

record 'm logger =
  lg_logged :: "string set"
  lg_output :: "'m list"

definition lg_first :: "'m logger \<Rightarrow> string \<Rightarrow> bool \<times> 'm logger" where
  "lg_first l key = (if key \<in> lg_logged l then (False, l) else (True, l\<lparr>lg_logged := insert key (lg_logged l)\<rparr>))"

definition LogErr :: "'m logger \<Rightarrow> 'm \<Rightarrow> 'm logger" where
  "LogErr l m = l\<lparr>lg_output := lg_output l @ [m]\<rparr>"

definition LogErrOnce :: "'m logger \<Rightarrow> string \<Rightarrow> 'm \<Rightarrow> 'm logger" where
  "LogErrOnce l key m = (case lg_first l key of (new, l') \<Rightarrow> if new then LogErr l' m else l')"

definition ForgetLogOnce :: "'m logger \<Rightarrow> string \<Rightarrow> 'm logger" where
  "ForgetLogOnce l key = l\<lparr>lg_logged := lg_logged l - {key}\<rparr>"


section \<open>The masks a constructor builds\<close>

lemma growMasks_spec:
  "ac_reads (growMasks words a) = ac_reads a @ replicate (words - length (ac_writes a)) 0
   \<and> ac_writes (growMasks words a) = ac_writes a @ replicate (words - length (ac_writes a)) 0
   \<and> ac_open (growMasks words a) = ac_open a"
proof (induction words a rule: growMasks.induct)
  case (1 words a)
  show ?case
  proof (cases "length (ac_writes a) < words")
    case True
    then have "words - length (ac_writes a) = Suc (words - Suc (length (ac_writes a)))"
      by simp
    then show ?thesis
      using "1.IH"[OF True] True by (simp add: growMasks.simps[of words a])
  next
    case False
    then show ?thesis by (simp add: growMasks.simps[of words a])
  qed
qed

lemma mask_set_grown [simp]: "mask_set (ws @ replicate k 0) = mask_set ws"
proof -
  have "r \<in> mask_set (ws @ replicate k 0) \<longleftrightarrow> r \<in> mask_set ws" for r
    by (cases "r div 64 < length ws") (auto simp: mask_set_def nth_append)
  then show ?thesis by blast
qed

text \<open>What an access declares so far, as sets of resources.\<close>

definition acc_inv :: "nat \<Rightarrow> access \<Rightarrow> bool" where
  "acc_inv n a \<longleftrightarrow> length (ac_reads a) = length (ac_writes a) \<and> length (ac_writes a) \<le> (n + 63) div 64
     \<and> mask_set (ac_reads a) \<union> mask_set (ac_writes a) \<subseteq> {..<n} \<and> mask_set (ac_reads a) \<inter> mask_set (ac_writes a) = {}"

lemma acc_inv_new: "acc_inv n new_access"
  by (simp add: acc_inv_def new_access_def)

lemma index_word: "index < n \<Longrightarrow> index div 64 < (n + 63) div 64" for index n :: nat
proof -
  assume "index < n"
  then have "index div 64 \<le> (n - 1) div 64" by (intro div_le_mono) simp
  also have "\<dots> < (n - 1) div 64 + 1" by simp
  also have "\<dots> = (n - 1 + 64) div 64" by simp
  also have "n - 1 + 64 = n + 63" using \<open>index < n\<close> by simp
  finally show ?thesis .
qed

lemma word_set_index: "word_set (index div 64) (push_bit (index mod 64) 1) = {index}"
  using word_set_single[of "index mod 64" "index div 64"] by simp

lemma bit_in_mask: "index div 64 < length ws \<Longrightarrow>
    ws ! (index div 64) AND push_bit (index mod 64) 1 = 0 \<longleftrightarrow> index \<notin> mask_set ws"
  using and_single_bit_iff[of "index mod 64" "ws ! (index div 64)"] by (simp add: mask_set_def)

lemma grown_inv:
  assumes "acc_inv n a" and "words \<le> (n + 63) div 64"
  shows "acc_inv n (growMasks words a)" and "words \<le> length (ac_writes (growMasks words a))"
    and "mask_set (ac_reads (growMasks words a)) = mask_set (ac_reads a)"
    and "mask_set (ac_writes (growMasks words a)) = mask_set (ac_writes a)"
  using assms growMasks_spec[of words a] by (auto simp: acc_inv_def)

lemma read_index_spec:
  assumes "acc_inv n a" and "index < n"
  shows "mask_set (ac_reads (read_index index a)) =
      mask_set (ac_reads a) \<union> (if index \<in> mask_set (ac_writes a) then {} else {index})"
    and "mask_set (ac_writes (read_index index a)) = mask_set (ac_writes a)"
    and "acc_inv n (read_index index a)" and "ac_open (read_index index a) = ac_open a"
proof -
  define a1 where "a1 = growMasks (index div 64 + 1) a"
  have le: "index div 64 + 1 \<le> (n + 63) div 64"
    using index_word[OF assms(2)] by simp
  note g = grown_inv[OF assms(1) le, folded a1_def]
  have i: "index div 64 < length (ac_writes a1)" "index div 64 < length (ac_reads a1)"
    using g(1,2) by (auto simp: acc_inv_def)
  have eq: "read_index index a = (if index \<notin> mask_set (ac_writes a)
      then a1\<lparr>ac_reads := (ac_reads a1)[index div 64 := ac_reads a1 ! (index div 64) OR push_bit (index mod 64) 1]\<rparr>
      else a1)"
    using bit_in_mask[OF i(1)] g(4)
    by (simp add: read_index_def maskPosition_def Let_def a1_def del: push_bit_of_1)
  show reads: "mask_set (ac_reads (read_index index a)) =
      mask_set (ac_reads a) \<union> (if index \<in> mask_set (ac_writes a) then {} else {index})"
    using mask_set_or[OF i(2), of "push_bit (index mod 64) 1"] word_set_index[of index] g(3)
    by (simp add: eq del: push_bit_of_1)
  show writes: "mask_set (ac_writes (read_index index a)) = mask_set (ac_writes a)"
    using g(4) by (simp add: eq)
  show "acc_inv n (read_index index a)"
    using assms g(1) reads writes unfolding acc_inv_def by (auto simp: eq simp del: push_bit_of_1)
  show "ac_open (read_index index a) = ac_open a"
    using growMasks_spec[of "index div 64 + 1" a] by (simp add: eq a1_def)
qed

lemma write_index_spec:
  assumes "acc_inv n a" and "index < n"
  shows "mask_set (ac_reads (write_index index a)) = mask_set (ac_reads a) - {index}"
    and "mask_set (ac_writes (write_index index a)) = insert index (mask_set (ac_writes a))"
    and "acc_inv n (write_index index a)" and "ac_open (write_index index a) = ac_open a"
proof -
  define a1 where "a1 = growMasks (index div 64 + 1) a"
  have le: "index div 64 + 1 \<le> (n + 63) div 64"
    using index_word[OF assms(2)] by simp
  note g = grown_inv[OF assms(1) le, folded a1_def]
  have i: "index div 64 < length (ac_writes a1)" "index div 64 < length (ac_reads a1)"
    using g(1,2) by (auto simp: acc_inv_def)
  have eq: "write_index index a =
      a1\<lparr>ac_writes := (ac_writes a1)[index div 64 := ac_writes a1 ! (index div 64) OR push_bit (index mod 64) 1],
         ac_reads := (ac_reads a1)[index div 64 := ac_reads a1 ! (index div 64) AND NOT (push_bit (index mod 64) 1)]\<rparr>"
    by (simp add: write_index_def maskPosition_def Let_def a1_def del: push_bit_of_1)
  show reads: "mask_set (ac_reads (write_index index a)) = mask_set (ac_reads a) - {index}"
    using mask_set_andnot[OF i(2), of "push_bit (index mod 64) 1"] word_set_index[of index] g(3)
    by (simp add: eq del: push_bit_of_1)
  show writes: "mask_set (ac_writes (write_index index a)) = insert index (mask_set (ac_writes a))"
    using mask_set_or[OF i(1), of "push_bit (index mod 64) 1"] word_set_index[of index] g(4)
    by (simp add: eq del: push_bit_of_1)
  show "acc_inv n (write_index index a)"
    using assms g(1) reads writes unfolding acc_inv_def by (auto simp: eq simp del: push_bit_of_1)
  show "ac_open (write_index index a) = ac_open a"
    using growMasks_spec[of "index div 64 + 1" a] by (simp add: eq a1_def)
qed


lemma word_set_mask: "i < length ws \<Longrightarrow> word_set i (ws ! i) = {r \<in> mask_set ws. r div 64 = i}"
  by (auto simp: word_set_def mask_set_def)

text \<open>The access after the first \<open>k\<close> words of a used task.\<close>

definition after_use :: "nat \<Rightarrow> access \<Rightarrow> task_locks \<Rightarrow> nat \<Rightarrow> access \<Rightarrow> bool" where
  "after_use n a used k a' \<longleftrightarrow> length (ac_reads a') = length (ac_reads a) \<and> length (ac_writes a') = length (ac_writes a)
     \<and> mask_set (ac_writes a') = mask_set (ac_writes a) \<union> mask_upto k (tl_writes used)
     \<and> mask_set (ac_reads a') = (mask_set (ac_reads a) \<union> mask_upto k (tl_reads used))
         - (mask_set (ac_writes a) \<union> mask_upto k (tl_writes used))
     \<and> ac_open a' = ac_open a"

lemma use_word_sets:
  assumes "i < length (ac_writes a)" and "i < length (ac_reads a)" and "a' = use_word used i a"
  shows "mask_set (ac_writes a') = mask_set (ac_writes a) \<union> word_set i (tl_writes used ! i)"
    and "mask_set (ac_reads a') = (mask_set (ac_reads a) \<union> word_set i (tl_reads used ! i)) - {r \<in> mask_set (ac_writes a'). r div 64 = i}"
    and "length (ac_writes a') = length (ac_writes a)" and "length (ac_reads a') = length (ac_reads a)"
    and "ac_open a' = ac_open a"
proof -
  define ws where "ws = (ac_writes a)[i := ac_writes a ! i OR tl_writes used ! i]"
  define rs where "rs = (ac_reads a)[i := ac_reads a ! i OR tl_reads used ! i]"
  have a': "a' = a\<lparr>ac_writes := ws, ac_reads := rs[i := rs ! i AND NOT (ws ! i)]\<rparr>"
    by (simp add: assms(3) use_word_def ws_def rs_def Let_def)
  show w: "mask_set (ac_writes a') = mask_set (ac_writes a) \<union> word_set i (tl_writes used ! i)"
    using mask_set_or[OF assms(1)] by (simp add: a' ws_def)
  have "mask_set (ac_reads a') = mask_set rs - word_set i (ws ! i)"
    using mask_set_andnot[of i rs "ws ! i"] assms(2) by (simp add: a' rs_def)
  also have "word_set i (ws ! i) = {r \<in> mask_set (ac_writes a'). r div 64 = i}"
    using word_set_mask[of i ws] assms(1) by (simp add: a' ws_def)
  also have "mask_set rs = mask_set (ac_reads a) \<union> word_set i (tl_reads used ! i)"
    using mask_set_or[OF assms(2)] by (simp add: rs_def)
  finally show "mask_set (ac_reads a') = (mask_set (ac_reads a) \<union> word_set i (tl_reads used ! i))
      - {r \<in> mask_set (ac_writes a'). r div 64 = i}" .
  show "length (ac_writes a') = length (ac_writes a)" "length (ac_reads a') = length (ac_reads a)"
    "ac_open a' = ac_open a"
    by (simp_all add: a' ws_def rs_def)
qed

lemma use_upto:
  assumes "acc_inv n a" and "locks_wf n used" and "length (tl_writes used) \<le> length (ac_writes a)"
    and "k \<le> length (tl_writes used)"
  shows "after_use n a used k (fold (use_word used) [0..<k] a)"
  using assms(4)
proof (induction k)
  case 0
  then show ?case using assms(1) by (auto simp: after_use_def acc_inv_def)
next
  case (Suc k)
  define a1 where "a1 = fold (use_word used) [0..<k] a"
  have IH: "after_use n a used k a1"
    using Suc by (simp add: a1_def)
  have k: "k < length (ac_writes a1)" "k < length (ac_reads a1)" "k < length (tl_writes used)" "k < length (tl_reads used)"
    using IH Suc.prems assms(1-3) by (auto simp: after_use_def acc_inv_def locks_wf_def)
  note u = use_word_sets[OF k(1,2) refl, of used]
  let ?a2 = "use_word used k a1"
  have W: "mask_set (ac_writes ?a2) = mask_set (ac_writes a) \<union> mask_upto (Suc k) (tl_writes used)"
    using u(1) IH mask_upto_Suc[OF k(3)] by (auto simp: after_use_def)
  have R: "mask_set (ac_reads ?a2) = (mask_set (ac_reads a) \<union> mask_upto (Suc k) (tl_reads used))
      - (mask_set (ac_writes a) \<union> mask_upto (Suc k) (tl_writes used))" (is "_ = ?rhs")
  proof (rule set_eqI)
    fix r
    have "r \<in> mask_set (ac_reads ?a2) \<longleftrightarrow>
        ((r \<in> mask_set (ac_reads a) \<or> r \<in> mask_upto k (tl_reads used))
           \<and> r \<notin> mask_set (ac_writes a) \<and> r \<notin> mask_upto k (tl_writes used) \<or> r \<in> word_set k (tl_reads used ! k))
        \<and> \<not> (r \<in> mask_set (ac_writes ?a2) \<and> r div 64 = k)"
      using u(2) IH by (auto simp: after_use_def)
    also have "\<dots> \<longleftrightarrow> r \<in> ?rhs"
    proof (cases "r div 64 = k")
      case True
      then have "r \<notin> mask_upto k (tl_writes used)" "r \<notin> mask_upto k (tl_reads used)"
        by (simp_all add: mask_upto_def)
      then show ?thesis
        unfolding W mask_upto_Suc[OF k(3)] mask_upto_Suc[OF k(4)] using True by blast
    next
      case False
      then have "r \<notin> word_set k (tl_writes used ! k)" "r \<notin> word_set k (tl_reads used ! k)"
        by (simp_all add: word_set_def)
      then show ?thesis
        unfolding W mask_upto_Suc[OF k(3)] mask_upto_Suc[OF k(4)] using False by blast
    qed
    finally show "r \<in> mask_set (ac_reads ?a2) \<longleftrightarrow> r \<in> ?rhs" .
  qed
  have "after_use n a used (Suc k) ?a2"
    using IH u(3-5) unfolding after_use_def W R by simp
  then show ?case by (simp add: a1_def)
qed

lemma use_locks_spec:
  assumes "acc_inv n a" and "locks_wf n used"
  shows "mask_set (ac_writes (use_locks used a)) = mask_set (ac_writes a) \<union> writes_of used"
    and "mask_set (ac_reads (use_locks used a)) =
      (mask_set (ac_reads a) \<union> reads_of used) - (mask_set (ac_writes a) \<union> writes_of used)"
    and "acc_inv n (use_locks used a)" and "ac_open (use_locks used a) = ac_open a"
proof -
  have le: "length (tl_writes used) \<le> (n + 63) div 64"
    and len: "length (tl_reads used) = length (tl_writes used)"
    using assms(2) by (simp_all add: locks_wf_def)
  note g = grown_inv[OF assms(1) le]
  note u = use_upto[OF g(1) assms(2) g(2) order.refl, folded use_locks_def]
  show W: "mask_set (ac_writes (use_locks used a)) = mask_set (ac_writes a) \<union> writes_of used"
    and R: "mask_set (ac_reads (use_locks used a)) =
      (mask_set (ac_reads a) \<union> reads_of used) - (mask_set (ac_writes a) \<union> writes_of used)"
    using u g(3,4) len by (simp_all add: after_use_def mask_upto_all writes_of_def reads_of_def)
  show "acc_inv n (use_locks used a)"
    using assms u g(1) unfolding acc_inv_def W R by (auto simp: after_use_def locks_wf_def)
  show "ac_open (use_locks used a) = ac_open a"
    using u growMasks_spec[of "length (tl_writes used)" a] by (simp add: after_use_def)
qed

section \<open>What registration guarantees\<close>

definition reg_wf :: "('v, 'h) registry \<Rightarrow> bool" where
  "reg_wf g \<longleftrightarrow> distinct (map fst (rg_resources g))
     \<and> map (\<lambda>r. fst (snd r)) (rg_resources g) = [0..<length (rg_resources g)]
     \<and> rg_taskLocks g \<noteq> [] \<and> (\<forall>l \<in> set (rg_taskLocks g). locks_wf (length (rg_resources g)) l)
     \<and> (\<forall>(t, d) \<in> set (rg_dispatchers g). orders_within (length (d_handlers d)) (d_orders d))
     \<and> distinct (map fst (rg_sockets g))"

lemma reg_wf_new: "reg_wf new_registry"
  by (simp add: reg_wf_def new_registry_def join_locks_def locks_wf_def reads_of_def writes_of_def)

lemma resource_index:
  assumes "reg_wf g" and "map_of (rg_resources g) t = Some (index, v)"
  shows "index < length (rg_resources g)"
proof -
  have "(t, index, v) \<in> set (rg_resources g)"
    using assms(2) by (rule map_of_SomeD)
  then have "index \<in> set (map (\<lambda>r. fst (snd r)) (rg_resources g))"
    by force
  also have "map (\<lambda>r. fst (snd r)) (rg_resources g) = [0..<length (rg_resources g)]"
    using assms(1) by (simp add: reg_wf_def)
  finally show ?thesis by simp
qed

text \<open>Resources are numbered in the order of their initialization, each its own bit.\<close>

lemma resource_index_inj:
  assumes "reg_wf g" and "map_of (rg_resources g) t = Some (i, v)" and "map_of (rg_resources g) u = Some (i, w)"
  shows "t = u"
proof -
  have "distinct (map (\<lambda>r. fst (snd r)) (rg_resources g))"
    using assms(1) by (simp add: reg_wf_def)
  then have "inj_on (\<lambda>r. fst (snd r)) (set (rg_resources g))"
    by (simp add: distinct_map)
  from inj_onD[OF this, of "(t, i, v)" "(u, i, w)"] show ?thesis
    using map_of_SomeD[OF assms(2)] map_of_SomeD[OF assms(3)] by simp
qed

fun req_reads :: "('v, 'h) registry \<Rightarrow> request \<Rightarrow> nat set" where
  "req_reads g (ReqRead t) = (case map_of (rg_resources g) t of None \<Rightarrow> {} | Some (i, _) \<Rightarrow> {i})"
| "req_reads g (ReqWrite t) = {}"
| "req_reads g (ReqUse task) = (case task of None \<Rightarrow> {} | Some i \<Rightarrow> reads_of (rg_taskLocks g ! i))"

fun req_writes :: "('v, 'h) registry \<Rightarrow> request \<Rightarrow> nat set" where
  "req_writes g (ReqRead t) = {}"
| "req_writes g (ReqWrite t) = (case map_of (rg_resources g) t of None \<Rightarrow> {} | Some (i, _) \<Rightarrow> {i})"
| "req_writes g (ReqUse task) = (case task of None \<Rightarrow> {} | Some i \<Rightarrow> writes_of (rg_taskLocks g ! i))"

lemma access_request_spec:
  assumes "reg_wf g" and "acc_inv (length (rg_resources g)) a" and "access_request g r a = Inr a'"
  shows "mask_set (ac_writes a') = mask_set (ac_writes a) \<union> req_writes g r"
    and "mask_set (ac_reads a') = (mask_set (ac_reads a) \<union> req_reads g r) - mask_set (ac_writes a')"
    and "acc_inv (length (rg_resources g)) a'"
proof -
  have disj: "mask_set (ac_reads a) \<inter> mask_set (ac_writes a) = {}"
    using assms(2) by (simp add: acc_inv_def)
  have "mask_set (ac_writes a') = mask_set (ac_writes a) \<union> req_writes g r
    \<and> mask_set (ac_reads a') = (mask_set (ac_reads a) \<union> req_reads g r) - mask_set (ac_writes a')
    \<and> acc_inv (length (rg_resources g)) a'"
  proof (cases r)
    case (ReqRead t)
    then obtain i v where i: "map_of (rg_resources g) t = Some (i, v)" "a' = read_index i a"
      using assms(3) by (auto simp: access_read_def access_resource_def split: if_splits option.splits)
    note spec = read_index_spec[OF assms(2) resource_index[OF assms(1) i(1)]]
    show ?thesis
      using ReqRead i spec(1-3) disj by auto
  next
    case (ReqWrite t)
    then obtain i v where i: "map_of (rg_resources g) t = Some (i, v)" "a' = write_index i a"
      using assms(3) by (auto simp: access_write_def access_resource_def split: if_splits option.splits)
    note spec = write_index_spec[OF assms(2) resource_index[OF assms(1) i(1)]]
    show ?thesis
      using ReqWrite i spec(1-3) disj by auto
  next
    case (ReqUse task)
    then obtain i where i: "task = Some i" "i < length (rg_taskLocks g)" "a' = use_locks (rg_taskLocks g ! i) a"
      using assms(3) by (auto simp: access_use_def split: if_splits option.splits)
    have "locks_wf (length (rg_resources g)) (rg_taskLocks g ! i)"
      using assms(1) i(2) by (simp add: reg_wf_def)
    note spec = use_locks_spec[OF assms(2) this]
    show ?thesis
      using ReqUse i spec(1-3) by simp
  qed
  then show "mask_set (ac_writes a') = mask_set (ac_writes a) \<union> req_writes g r"
    "mask_set (ac_reads a') = (mask_set (ac_reads a) \<union> req_reads g r) - mask_set (ac_writes a')"
    "acc_inv (length (rg_resources g)) a'"
    by simp_all
qed

lemma run_constructor_spec:
  assumes "reg_wf g" and "acc_inv (length (rg_resources g)) a" and "run_constructor g rs a = Inr a'"
  shows "mask_set (ac_writes a') = mask_set (ac_writes a) \<union> (\<Union>r \<in> set rs. req_writes g r)
    \<and> mask_set (ac_reads a') = (mask_set (ac_reads a) \<union> (\<Union>r \<in> set rs. req_reads g r)) - mask_set (ac_writes a')
    \<and> acc_inv (length (rg_resources g)) a'"
  using assms(2,3)
proof (induction rs arbitrary: a)
  case Nil
  then show ?case by (auto simp: acc_inv_def)
next
  case (Cons r rs)
  then obtain a1 where a1: "access_request g r a = Inr a1" "run_constructor g rs a1 = Inr a'"
    by (auto split: sum.splits)
  note s = access_request_spec[OF assms(1) Cons.prems(1) a1(1)]
  show ?case
    using Cons.IH[OF s(3) a1(2)] s(1,2) by auto
qed


subsection \<open>Every call keeps the registry well formed\<close>

lemma locks_wf_mono: "locks_wf m l \<Longrightarrow> m \<le> n \<Longrightarrow> locks_wf n l"
proof -
  assume l: "locks_wf m l" "m \<le> n"
  then have "(m + 63) div 64 \<le> (n + 63) div 64"
    by (intro div_le_mono) simp
  with l show ?thesis by (auto simp: locks_wf_def)
qed

lemma reg_wf_InitResource: "reg_wf g \<Longrightarrow> InitResource g t v = Inr g' \<Longrightarrow> reg_wf g'"
  using locks_wf_mono[of "length (rg_resources g)" _ "Suc (length (rg_resources g))"]
  by (auto simp: InitResource_def reg_wf_def map_of_eq_None_iff image_iff split: if_splits)

lemma RegisterTask_spec:
  assumes "reg_wf g" and "RegisterTask g a b (Some (requests, body)) = Inr (i, g')"
  defines "l \<equiv> rg_taskLocks g' ! i"
  shows "reg_wf g'" and "i = length (rg_taskLocks g)" and "rg_taskLocks g' = rg_taskLocks g @ [l]"
    and "rg_resources g' = rg_resources g"
    and "writes_of l = (\<Union>r \<in> set requests. req_writes g r)"
    and "reads_of l = (\<Union>r \<in> set requests. req_reads g r) - writes_of l" and "\<not> tl_pinned l"
proof -
  obtain acc where acc: "run_constructor g requests new_access = Inr acc" "i = length (rg_taskLocks g)"
    "g' = g\<lparr>rg_taskLocks := rg_taskLocks g @
       [\<lparr>tl_reads = ac_reads acc, tl_writes = ac_writes acc, tl_pinned = False\<rparr>]\<rparr>"
    using assms(2) by (auto simp: RegisterTask_def split: if_splits sum.splits)
  have l: "l = \<lparr>tl_reads = ac_reads acc, tl_writes = ac_writes acc, tl_pinned = False\<rparr>"
    by (simp add: l_def acc)
  note spec = run_constructor_spec[OF assms(1) acc_inv_new acc(1)]
  show "i = length (rg_taskLocks g)" "rg_taskLocks g' = rg_taskLocks g @ [l]"
    "rg_resources g' = rg_resources g" "\<not> tl_pinned l"
    using acc l by simp_all
  show "writes_of l = (\<Union>r \<in> set requests. req_writes g r)"
    "reads_of l = (\<Union>r \<in> set requests. req_reads g r) - writes_of l"
    using spec by (simp_all add: l writes_of_def reads_of_def new_access_def)
  have "acc_inv (length (rg_resources g)) acc"
    using spec by blast
  then have "locks_wf (length (rg_resources g)) l"
    by (simp add: l locks_wf_def acc_inv_def reads_of_def writes_of_def)
  then show "reg_wf g'"
    using assms(1) acc(3) l by (simp add: reg_wf_def)
qed

lemma reg_wf_Pin: "reg_wf g \<Longrightarrow> PinToMainThread g task = Inr g' \<Longrightarrow> reg_wf g'"
proof -
  assume g: "reg_wf g" "PinToMainThread g task = Inr g'"
  then obtain i where i: "i < length (rg_taskLocks g)"
    "g' = g\<lparr>rg_taskLocks := (rg_taskLocks g)[i := (rg_taskLocks g ! i)\<lparr>tl_pinned := True\<rparr>]\<rparr>"
    by (auto simp: PinToMainThread_def split: option.splits if_splits)
  have "locks_wf n (l\<lparr>tl_pinned := True\<rparr>) = locks_wf n l" for n l
    by (simp add: locks_wf_def reads_of_def writes_of_def)
  then show ?thesis
    using g(1) i by (auto simp: reg_wf_def dest!: set_update_subset_insert[THEN subsetD])
qed

lemma dispatcher_of_within:
  "reg_wf g \<Longrightarrow> orders_within (length (d_handlers (dispatcher_of g t))) (d_orders (dispatcher_of g t))"
  by (auto simp: dispatcher_of_def reg_wf_def orders_within_def dest!: map_of_SomeD split: option.split)

lemma reg_wf_set_dispatcher:
  "reg_wf g \<Longrightarrow> orders_within (length (d_handlers d)) (d_orders d) \<Longrightarrow> reg_wf (set_dispatcher g t d)"
  by (auto simp: reg_wf_def set_dispatcher_def split: if_splits)

lemma reg_wf_Subscribe: "reg_wf g \<Longrightarrow> Subscribe g t fn = Inr (i, g') \<Longrightarrow> reg_wf g'"
proof -
  assume g: "reg_wf g" "Subscribe g t fn = Inr (i, g')"
  have "orders_within (Suc n) os" if "orders_within n os" for n os
    using that by (auto simp: orders_within_def)
  then show ?thesis
    using g dispatcher_of_within[OF g(1), of t]
    by (auto simp: Subscribe_def Let_def intro!: reg_wf_set_dispatcher split: if_splits option.splits)
qed

lemma reg_wf_Order: "reg_wf g \<Longrightarrow> OrderSubscriptions g t before after = Inr g' \<Longrightarrow> reg_wf g'"
proof -
  assume g: "reg_wf g" "OrderSubscriptions g t before after = Inr g'"
  then show ?thesis
    using dispatcher_of_within[OF g(1), of t]
    by (auto simp: OrderSubscriptions_def Let_def orders_within_def intro!: reg_wf_set_dispatcher split: if_splits)
qed

lemma reg_wf_declareSocket: "reg_wf g \<Longrightarrow> declareSocket g p t e o' = Inr g' \<Longrightarrow> reg_wf g'"
  by (auto simp: declareSocket_def reg_wf_def map_of_eq_None_iff image_iff split: if_splits)

lemma reg_wf_BindSocket: "reg_wf g \<Longrightarrow> BindSocket g p t v = Inr g' \<Longrightarrow> reg_wf g'"
  by (auto simp: BindSocket_def reg_wf_def split: option.splits)

text \<open>The calls plugins make while they initialize, and a run of them.\<close>

datatype ('v, 'h) reg_call =
    CallInit go_type 'v
  | CallTask go_type go_type "(request list \<times> bool) option"
  | CallPin "nat option"
  | CallSubscribe go_type "'h option"
  | CallOrder go_type nat nat
  | CallDeclare string go_type bool bool
  | CallBind string go_type "'v option"

fun reg_apply :: "('v, 'h) registry \<Rightarrow> ('v, 'h) reg_call \<Rightarrow> reg_error + ('v, 'h) registry" where
  "reg_apply g (CallInit t v) = InitResource g t v"
| "reg_apply g (CallTask a b c) = map_sum id snd (RegisterTask g a b c)"
| "reg_apply g (CallPin i) = PinToMainThread g i"
| "reg_apply g (CallSubscribe t fn) = map_sum id snd (Subscribe g t fn)"
| "reg_apply g (CallOrder t x y) = OrderSubscriptions g t x y"
| "reg_apply g (CallDeclare p t e o') = declareSocket g p t e o'"
| "reg_apply g (CallBind p t v) = BindSocket g p t v"

fun reg_run :: "('v, 'h) registry \<Rightarrow> ('v, 'h) reg_call list \<Rightarrow> reg_error + ('v, 'h) registry" where
  "reg_run g [] = Inr g"
| "reg_run g (c # cs) = (case reg_apply g c of Inl e \<Rightarrow> Inl e | Inr g' \<Rightarrow> reg_run g' cs)"

lemma reg_wf_apply: "reg_wf g \<Longrightarrow> reg_apply g c = Inr g' \<Longrightarrow> reg_wf g'"
proof (cases c)
  case (CallTask a b cons)
  assume g: "reg_wf g" "reg_apply g c = Inr g'"
  then obtain i where i: "RegisterTask g a b cons = Inr (i, g')"
    using CallTask by (cases "RegisterTask g a b cons") auto
  moreover from i obtain requests body where "cons = Some (requests, body)"
    by (auto simp: RegisterTask_def split: option.splits)
  ultimately show ?thesis
    using RegisterTask_spec(1)[OF g(1)] by blast
next
  case (CallSubscribe t fn)
  assume g: "reg_wf g" "reg_apply g c = Inr g'"
  then obtain i where "Subscribe g t fn = Inr (i, g')"
    using CallSubscribe by (cases "Subscribe g t fn") auto
  then show ?thesis using reg_wf_Subscribe[OF g(1)] by blast
qed (auto intro: reg_wf_InitResource reg_wf_Pin reg_wf_Order reg_wf_declareSocket reg_wf_BindSocket)

lemma reg_wf_run: "reg_wf g \<Longrightarrow> reg_run g cs = Inr g' \<Longrightarrow> reg_wf g'"
  by (induction cs arbitrary: g) (auto intro: reg_wf_apply split: sum.splits)

text \<open>
  C37: a task locks exactly what its constructor asked for.  After any calls that did not panic,
  a task registered next is given the next index; its write lock set is every resource it asked
  to write and every one the tasks it uses write, its read lock set is what it and they read less
  what is written; the masks stay within the resources' bits; and no earlier task's locks change.
\<close>

theorem registered_locks_exact:
  assumes "reg_run new_registry cs = Inr g" and "RegisterTask g a b (Some (requests, body)) = Inr (i, g')"
  shows "i = length (rg_taskLocks g) \<and> take i (rg_taskLocks g') = rg_taskLocks g
    \<and> writes_of (rg_taskLocks g' ! i) = (\<Union>r \<in> set requests. req_writes g r)
    \<and> reads_of (rg_taskLocks g' ! i) = (\<Union>r \<in> set requests. req_reads g r) - writes_of (rg_taskLocks g' ! i)
    \<and> (\<forall>l \<in> set (rg_taskLocks g'). locks_wf (length (rg_resources g')) l)
    \<and> IsPointerFree a \<and> IsPointerFree b"
proof -
  have wf: "reg_wf g"
    using reg_wf_run[OF reg_wf_new assms(1)] .
  note r = RegisterTask_spec[OF wf assms(2)]
  have "IsPointerFree a \<and> IsPointerFree b"
    using assms(2) by (auto simp: RegisterTask_def split: if_splits sum.splits)
  moreover have "\<forall>l \<in> set (rg_taskLocks g'). locks_wf (length (rg_resources g')) l"
    using r(1) by (simp add: reg_wf_def)
  ultimately show ?thesis
    using r(2,3,5,6) by (metis append_eq_conv_conj)
qed

definition sample_type :: "nat \<Rightarrow> go_type" where
  "sample_type i = StructOf (replicate i CHR ''T'') [Basic ''int32'' KInt32, ArrayOf ''[4]uint8'' 4 (Basic ''uint8'' KUint8)]"

definition sample_calls :: "(string, string) reg_call list" where
  "sample_calls = [CallInit (sample_type 1) ''pos'', CallInit (sample_type 2) ''vel'',
     CallTask (sample_type 1) (sample_type 2) (Some ([ReqRead (sample_type 1)], True))]"

theorem registered_locks_exact_witness:
  "\<exists>g i g'. reg_run new_registry sample_calls = Inr g
     \<and> RegisterTask g (sample_type 1) (sample_type 1)
         (Some ([ReqUse (Some 1), ReqRead (sample_type 2), ReqWrite (sample_type 2)], True)) = Inr (i, g')
     \<and> i = 2 \<and> writes_of (rg_taskLocks g' ! i) = {1} \<and> reads_of (rg_taskLocks g' ! i) = {0}"
proof -
  define g where "g = (case reg_run new_registry sample_calls of Inr x \<Rightarrow> x | Inl _ \<Rightarrow> new_registry)"
  let ?c = "Some ([ReqUse (Some 1), ReqRead (sample_type 2), ReqWrite (sample_type 2)], True)"
  define p where "p = (case RegisterTask g (sample_type 1) (sample_type 1) ?c of Inr x \<Rightarrow> x | Inl _ \<Rightarrow> (0, new_registry))"
  have run: "reg_run new_registry sample_calls = Inr g"
    unfolding g_def by code_simp
  have reg: "RegisterTask g (sample_type 1) (sample_type 1) ?c = Inr (fst p, snd p)"
    unfolding p_def g_def by code_simp
  have lens: "length (rg_taskLocks g) = 2" "req_writes g (ReqUse (Some 1)) = {}" "req_reads g (ReqUse (Some 1)) = {0}"
    "map_of (rg_resources g) (sample_type 2) = Some (1, ''vel'')"
    unfolding g_def by code_simp+
  have "fst p = 2 \<and> writes_of (rg_taskLocks (snd p) ! fst p) = {1} \<and> reads_of (rg_taskLocks (snd p) ! fst p) = {0}"
    using registered_locks_exact[OF run reg] lens by auto
  then show ?thesis
    using run reg by blast
qed

text \<open>The bindings of a type, in plugin order, and when a socket takes them.\<close>

definition bound_to :: "('v, 'h) registry \<Rightarrow> go_type \<Rightarrow> 'v list" where
  "bound_to g t = map bd_value (filter (\<lambda>b. bd_socket b = t) (rg_bindings g))"

lemma resolve_Inr:
  "resolve t bs s = Inr s' \<longleftrightarrow>
     (let vs = map bd_value (filter (\<lambda>b. bd_socket b = t) bs)
      in (sk_exclusive s \<longrightarrow> length vs \<le> 1) \<and> (sk_optional s \<or> vs \<noteq> []) \<and> s' = s\<lparr>sk_values := Some vs\<rparr>)"
  by (auto simp: resolve_def Let_def)

lemma resolve_all_Inr:
  "resolve_all bs ss = Inr ss' \<longleftrightarrow>
     (\<forall>(t, s) \<in> set ss. \<exists>s'. resolve t bs s = Inr s')
     \<and> ss' = map (\<lambda>(t, s). (t, s\<lparr>sk_values := Some (map bd_value (filter (\<lambda>b. bd_socket b = t) bs))\<rparr>)) ss"
proof (induction ss arbitrary: ss')
  case Nil
  then show ?case by auto
next
  case (Cons p ss)
  obtain t s where p: "p = (t, s)" by fastforce
  show ?case
  proof (cases "resolve t bs s")
    case (Inl e)
    then show ?thesis by (simp add: p)
  next
    case (Inr s')
    then have "s' = s\<lparr>sk_values := Some (map bd_value (filter (\<lambda>b. bd_socket b = t) bs))\<rparr>"
      by (simp add: resolve_Inr Let_def)
    moreover have "(\<exists>ss'. resolve_all bs ss = Inr ss') \<longleftrightarrow> (\<forall>(t, s) \<in> set ss. \<exists>s'. resolve t bs s = Inr s')"
      using Cons.IH by blast
    moreover have "resolve_all bs (p # ss) = Inr ss' \<longleftrightarrow> (\<exists>rest. resolve_all bs ss = Inr rest \<and> ss' = (t, s') # rest)"
      using Inr by (auto simp: p split: sum.splits)
    ultimately show ?thesis
      using Inr Cons.IH by (auto simp: p)
  qed
qed

text \<open>
  Sockets resolve to their bindings or refuse them.  After every plugin has initialized,
  resolution succeeds exactly when every binding's socket is declared, no exclusive socket has
  two bindings and no socket that is not optional has none; each socket then holds its own
  bindings, in plugin order.
\<close>

theorem sockets_resolve:
  "resolveSockets g = Inr g' \<longleftrightarrow>
     (\<forall>b \<in> set (rg_bindings g). bd_socket b \<in> fst ` set (rg_sockets g))
     \<and> (\<forall>(t, s) \<in> set (rg_sockets g).
          (sk_exclusive s \<longrightarrow> length (bound_to g t) \<le> 1) \<and> (sk_optional s \<or> bound_to g t \<noteq> []))
     \<and> g' = g\<lparr>rg_sockets := map (\<lambda>(t, s). (t, s\<lparr>sk_values := Some (bound_to g t)\<rparr>)) (rg_sockets g)\<rparr>"
proof -
  have ok: "(\<forall>(t, s) \<in> set (rg_sockets g). \<exists>s'. resolve t (rg_bindings g) s = Inr s') \<longleftrightarrow>
    (\<forall>(t, s) \<in> set (rg_sockets g).
       (sk_exclusive s \<longrightarrow> length (bound_to g t) \<le> 1) \<and> (sk_optional s \<or> bound_to g t \<noteq> []))"
    by (auto simp: resolve_Inr Let_def bound_to_def)
  show ?thesis
  proof (cases "\<forall>b \<in> set (rg_bindings g). bd_socket b \<in> fst ` set (rg_sockets g)")
    case False
    then show ?thesis
      by (auto simp: resolveSockets_def list_ex_iff map_of_eq_None_iff)
  next
    case True
    then have "resolveSockets g = (case resolve_all (rg_bindings g) (rg_sockets g) of
        Inl e \<Rightarrow> Inl e | Inr ss \<Rightarrow> Inr (g\<lparr>rg_sockets := ss\<rparr>))"
      by (auto simp: resolveSockets_def list_ex_iff map_of_eq_None_iff)
    then have "resolveSockets g = Inr g' \<longleftrightarrow>
        (\<exists>ss. resolve_all (rg_bindings g) (rg_sockets g) = Inr ss \<and> g' = g\<lparr>rg_sockets := ss\<rparr>)"
      by (auto split: sum.splits)
    then show ?thesis
      using True ok by (simp add: resolve_all_Inr bound_to_def)
  qed
qed

definition sample_sockets :: "(nat, string) registry" where
  "sample_sockets = new_registry\<lparr>
     rg_sockets := [(sample_type 1, \<lparr>sk_plugin = ''gfx'', sk_exclusive = True, sk_optional = False, sk_values = None\<rparr>)],
     rg_bindings := [\<lparr>bd_socket = sample_type 1, bd_plugin = ''native'', bd_value = 7\<rparr>]\<rparr>"

theorem sockets_resolve_witness:
  "resolveSockets sample_sockets = Inr (sample_sockets\<lparr>rg_sockets :=
     [(sample_type 1, \<lparr>sk_plugin = ''gfx'', sk_exclusive = True, sk_optional = False, sk_values = Some [7]\<rparr>)]\<rparr>)"
  unfolding sockets_resolve by (simp add: sample_sockets_def new_registry_def bound_to_def)

section \<open>Config and Once keys\<close>

text \<open>A plugin's config is never nil: what was given, else the default, else the zero config.\<close>

lemma PluginConfigOrDefault_cases:
  "PluginConfigOrDefault z (GivenConfig c) [] = Inr c"
  "PluginConfigOrDefault z NilConfig [] = Inr z" "PluginConfigOrDefault z NilPointer [Some d] = Inr d"
  "PluginConfigOrDefault z NilConfig [None] = Inr z" "PluginConfigOrDefault z OtherConfig [d'] = Inl ConfigType"
  "PluginConfigOrDefault z c' (d1 # d2 # ds) = Inl TooManyDefaults"
  by (simp_all add: PluginConfigOrDefault_def)

text \<open>A Once call under a key is silent until the key is forgotten.\<close>

lemma once_again: "LogErrOnce (LogErrOnce l key m) key m' = LogErrOnce l key m"
  by (simp add: LogErrOnce_def lg_first_def LogErr_def)

lemma once_other_keys:
  "key \<noteq> key' \<Longrightarrow> key' \<in> lg_logged (LogErrOnce l key m) \<longleftrightarrow> key' \<in> lg_logged l"
  by (simp add: LogErrOnce_def lg_first_def LogErr_def)

lemma once_after_forget:
  "lg_output (LogErrOnce (ForgetLogOnce l key) key m) = lg_output l @ [m]"
  by (simp add: LogErrOnce_def lg_first_def LogErr_def ForgetLogOnce_def)

end
