(* ===== verification/Kernel_Lifecycle.thy ===== *)
theory Kernel_Lifecycle
  imports Kernel_Config
begin

text \<open>
  \<open>kernel/lifecycle.go\<close>, and \<open>Kernel.init\<close> and \<open>Kernel.destroy\<close> of \<open>kernel/kernel.go\<close>: a kernel's
  plugins brought up in order and taken down in reverse.  A plugin is what the lifecycle sees of
  it: its name, its dependencies, what its \<open>Init\<close> registers and the error each of its four methods answers.  Values and handlers
  registered are known by numbers.  The effect of a run is the trace of the calls it makes, with the failures it logs, up to
  a panic: of the composition checks, of a registration inside an \<open>Init\<close>, of the resolution of sockets, or of the handlers' order.
\<close>

type_synonym plugin_registry = "(nat, nat) registry"

record plugin =
  pl_name :: string
  pl_deps :: "string list"
  pl_registers :: "(nat, nat) reg_call list"
  pl_init :: "string option"
  pl_start :: "string option"
  pl_stop :: "string option"
  pl_destroy :: "string option"

datatype lc_event = EInit string | EStart string | EStop string | EDestroy string
  | ELogStop string string | ELogDestroy string string | EResolve | ESort | EMakeLocks | ERunners | EDrain

datatype lc_panic = TwoNamed string | DependsOnItself string | DependencyTwice string string
  | GivenAfter string string | NotGiven string string
  | RegistrationPanics string reg_error | SocketPanics reg_error | HandlerCycle

datatype lc_error = InitFailed string string | StartFailed string string

datatype lc_end = Panicked lc_panic | Failed lc_error

section \<open>The composition checks\<close>

fun check_names :: "plugin list \<Rightarrow> plugin list \<Rightarrow> lc_panic option" where
  "check_names earlier [] = None"
| "check_names earlier (p # ps) =
     (if list_ex (\<lambda>q. pl_name q = pl_name p) earlier then Some (TwoNamed (pl_name p))
      else check_names (earlier @ [p]) ps)"

text \<open>\<open>slices.IndexFunc\<close>: the first position of a name, as Go's -1 for none.\<close>

definition position :: "plugin list \<Rightarrow> string \<Rightarrow> int" where
  "position ps name = (let k = length (takeWhile (\<lambda>p. pl_name p \<noteq> name) ps) in if k < length ps then int k else -1)"

definition check_dep :: "plugin list \<Rightarrow> nat \<Rightarrow> string list \<Rightarrow> nat \<Rightarrow> lc_panic option" where
  "check_dep ps i deps j =
     (let d = deps ! j; pos = position ps d; name = pl_name (ps ! i)
      in if pos = int i then Some (DependsOnItself name)
         else if d \<in> set (take j deps) then Some (DependencyTwice name d)
         else if pos > int i then Some (GivenAfter name d)
         else if pos < 0 then Some (NotGiven name d) else None)"

fun first_panic :: "lc_panic option list \<Rightarrow> lc_panic option" where
  "first_panic [] = None"
| "first_panic (x # xs) = (case x of Some p \<Rightarrow> Some p | None \<Rightarrow> first_panic xs)"

definition check_deps :: "plugin list \<Rightarrow> lc_panic option" where
  "check_deps ps = first_panic (concat (map (\<lambda>i.
     map (check_dep ps i (pl_deps (ps ! i))) [0..<length (pl_deps (ps ! i))]) [0..<length ps]))"

definition lc_check :: "plugin list \<Rightarrow> lc_panic option" where
  "lc_check ps = (case check_names [] ps of Some p \<Rightarrow> Some p | None \<Rightarrow> check_deps ps)"

section \<open>Up and down\<close>

text \<open>\<open>stopFrom(last)\<close> and \<open>destroyFrom(last)\<close>, with \<open>last + 1\<close> as the argument.\<close>

fun stopFrom :: "plugin list \<Rightarrow> nat \<Rightarrow> lc_event list" where
  "stopFrom ps 0 = []"
| "stopFrom ps (Suc i) =
     EStop (pl_name (ps ! i)) #
     (case pl_stop (ps ! i) of None \<Rightarrow> [] | Some e \<Rightarrow> [ELogStop (pl_name (ps ! i)) e]) @ stopFrom ps i"

fun destroyFrom :: "plugin list \<Rightarrow> nat \<Rightarrow> lc_event list" where
  "destroyFrom ps 0 = []"
| "destroyFrom ps (Suc i) =
     EDestroy (pl_name (ps ! i)) #
     (case pl_destroy (ps ! i) of None \<Rightarrow> [] | Some e \<Rightarrow> [ELogDestroy (pl_name (ps ! i)) e]) @ destroyFrom ps i"

function init_loop :: "plugin list \<Rightarrow> plugin_registry \<Rightarrow> nat \<Rightarrow> lc_event list \<times> (lc_end + plugin_registry)" where
  "init_loop ps g i =
     (if i < length ps then
        (case reg_run g (pl_registers (ps ! i)) of
           Inl p \<Rightarrow> ([EInit (pl_name (ps ! i))], Inl (Panicked (RegistrationPanics (pl_name (ps ! i)) p)))
         | Inr g' \<Rightarrow>
             (case pl_init (ps ! i) of
                Some e \<Rightarrow> (EInit (pl_name (ps ! i)) # destroyFrom ps i, Inl (Failed (InitFailed (pl_name (ps ! i)) e)))
              | None \<Rightarrow> (case init_loop ps g' (i + 1) of (es, r) \<Rightarrow> (EInit (pl_name (ps ! i)) # es, r))))
      else ([], Inr g))"
  by pat_completeness auto
termination
  by (relation "measure (\<lambda>(ps, g, i). length ps - i)") auto

function start_loop :: "plugin list \<Rightarrow> nat \<Rightarrow> lc_event list \<times> lc_error option" where
  "start_loop ps i =
     (if i < length ps then
        (case pl_start (ps ! i) of
           Some e \<Rightarrow> (EStart (pl_name (ps ! i)) # stopFrom ps i, Some (StartFailed (pl_name (ps ! i)) e))
         | None \<Rightarrow> (case start_loop ps (i + 1) of (es, r) \<Rightarrow> (EStart (pl_name (ps ! i)) # es, r)))
      else ([], None))"
  by pat_completeness auto
termination
  by (relation "measure (\<lambda>(ps, i). length ps - i)") auto

declare init_loop.simps [simp del] start_loop.simps [simp del]

definition lc_init :: "plugin list \<Rightarrow> plugin_registry \<Rightarrow> lc_event list \<times> (lc_end + plugin_registry)" where
  "lc_init ps g = (case lc_check ps of Some p \<Rightarrow> ([], Inl (Panicked p)) | None \<Rightarrow> init_loop ps g 0)"

definition lc_start :: "plugin list \<Rightarrow> lc_event list \<times> lc_error option" where
  "lc_start ps = start_loop ps 0"

definition lc_stop :: "plugin list \<Rightarrow> lc_event list" where
  "lc_stop ps = stopFrom ps (length ps)"

definition lc_destroy :: "plugin list \<Rightarrow> lc_event list" where
  "lc_destroy ps = destroyFrom ps (length ps)"

text \<open>
  \<open>Kernel.init\<close>: between the Inits and the Starts the sockets are resolved and every event's handlers are sorted, and either may panic, with
  every plugin initialized and none destroyed.
\<close>

fun sort_dispatchers :: "(go_type \<times> nat dispatcher) list \<Rightarrow> (go_type \<times> nat dispatcher) list option" where
  "sort_dispatchers [] = Some []"
| "sort_dispatchers ((t, d) # ds) =
     (case sortHandlers d of
        None \<Rightarrow> None
      | Some d' \<Rightarrow> (case sort_dispatchers ds of None \<Rightarrow> None | Some ds' \<Rightarrow> Some ((t, d') # ds')))"

definition kernel_init :: "plugin list \<Rightarrow> lc_event list \<times> lc_end option" where
  "kernel_init ps =
     (case lc_init ps new_registry of
        (es, Inl e) \<Rightarrow> (es, Some e)
      | (es, Inr g) \<Rightarrow>
          (case resolveSockets g of
             Inl p \<Rightarrow> (es @ [EResolve], Some (Panicked (SocketPanics p)))
           | Inr g1 \<Rightarrow>
               (case sort_dispatchers (rg_dispatchers g1) of
                  None \<Rightarrow> (es @ [EResolve, ESort], Some (Panicked HandlerCycle))
                | Some ds \<Rightarrow>
                    (case lc_start ps of
                       (es', None) \<Rightarrow> (es @ [EResolve, ESort, EMakeLocks, ERunners] @ es', None)
                     | (es', Some e) \<Rightarrow>
                         (es @ [EResolve, ESort, EMakeLocks, ERunners] @ es' @ [EDrain] @ lc_destroy ps, Some (Failed e))))))"

definition kernel_destroy :: "plugin list \<Rightarrow> lc_event list" where
  "kernel_destroy ps = lc_stop ps @ [EDrain] @ lc_destroy ps"

section \<open>The checks, specified\<close>

lemma check_names_spec:
  "check_names earlier ps = None \<longleftrightarrow>
     distinct (map pl_name ps) \<and> pl_name ` set earlier \<inter> pl_name ` set ps = {}"
proof (induction ps arbitrary: earlier)
  case (Cons p ps)
  have "list_ex (\<lambda>q. pl_name q = pl_name p) earlier \<longleftrightarrow> pl_name p \<in> pl_name ` set earlier"
    by (auto simp: list_ex_iff image_iff eq_commute)
  then show ?case using Cons by auto
qed simp

lemma first_panic_None: "first_panic xs = None \<longleftrightarrow> (\<forall>x \<in> set xs. x = None)"
  by (induction xs) (auto split: option.split)

lemma check_deps_None:
  "check_deps ps = None \<longleftrightarrow>
     (\<forall>i < length ps. \<forall>j < length (pl_deps (ps ! i)). check_dep ps i (pl_deps (ps ! i)) j = None)"
  by (auto simp: check_deps_def first_panic_None)

lemma position_nth:
  assumes "distinct (map pl_name ps)" and "k < length ps"
  shows "position ps (pl_name (ps ! k)) = int k"
proof -
  have "takeWhile (\<lambda>p. pl_name p \<noteq> pl_name (ps ! k)) ps = take k ps"
  proof (rule takeWhile_eq_take_P_nth)
    show "pl_name (ps ! j) \<noteq> pl_name (ps ! k)" if "j < k" "j < length ps" for j
      using assms that nth_eq_iff_index_eq[OF assms(1), of j k] by auto
  qed simp
  then show ?thesis using assms(2) by (simp add: position_def)
qed

lemma length_takeWhile_less: "length (takeWhile P xs) < length xs \<longleftrightarrow> (\<exists>x \<in> set xs. \<not> P x)"
  by (induction xs) auto

lemma position_none: "position ps d < 0 \<longleftrightarrow> d \<notin> pl_name ` set ps"
  by (auto simp: position_def Let_def length_takeWhile_less)

text \<open>One dependency passes exactly when it is given before and was not named before.\<close>

lemma check_dep_None:
  assumes "distinct (map pl_name ps)"
  shows "check_dep ps i deps j = None \<longleftrightarrow>
    (\<exists>k < i. k < length ps \<and> pl_name (ps ! k) = deps ! j) \<and> deps ! j \<notin> set (take j deps)"
proof (cases "deps ! j \<in> pl_name ` set ps")
  case True
  then obtain k where k: "k < length ps" "deps ! j = pl_name (ps ! k)"
    by (auto simp: in_set_conv_nth)
  then have pos: "position ps (deps ! j) = int k"
    using position_nth[OF assms] by simp
  have "(\<exists>k' < i. k' < length ps \<and> pl_name (ps ! k') = deps ! j) \<longleftrightarrow> k < i"
    using k nth_eq_iff_index_eq[OF assms, of _ k] by auto
  then show ?thesis
    by (auto simp: check_dep_def Let_def pos)
next
  case False
  then have "position ps (deps ! j) < 0"
    by (simp add: position_none)
  moreover have "\<not> (\<exists>k < i. k < length ps \<and> pl_name (ps ! k) = deps ! j)"
    using False by (metis image_eqI nth_mem)
  ultimately show ?thesis
    by (auto simp: check_dep_def Let_def)
qed

lemma distinct_take_nth: "distinct xs \<longleftrightarrow> (\<forall>j < length xs. xs ! j \<notin> set (take j xs))"
proof
  assume "distinct xs"
  then show "\<forall>j < length xs. xs ! j \<notin> set (take j xs)"
    by (auto simp: in_set_conv_nth nth_eq_iff_index_eq)
next
  assume all: "\<forall>j < length xs. xs ! j \<notin> set (take j xs)"
  show "distinct xs"
    unfolding distinct_conv_nth
  proof (intro allI impI)
    fix i j
    assume ij: "i < length xs" "j < length xs" "i \<noteq> j"
    have "xs ! a \<noteq> xs ! b" if "a < b" "b < length xs" for a b
    proof -
      have "xs ! a \<in> set (take b xs)"
        using that by (auto simp: in_set_conv_nth intro!: exI[of _ a])
      then show ?thesis using all that(2) by metis
    qed
    then show "xs ! i \<noteq> xs ! j"
      using ij by (metis nat_neq_iff)
  qed
qed

text \<open>
  The composition checks accept exactly the lists they should.  \<open>Spawn\<close> goes on to the first
  Init exactly when the plugins' names are distinct and every dependency of every plugin is named
  once and names a plugin given before it.
\<close>

theorem composition_checks:
  "lc_check ps = None \<longleftrightarrow>
     distinct (map pl_name ps)
     \<and> (\<forall>i < length ps. distinct (pl_deps (ps ! i))
          \<and> (\<forall>d \<in> set (pl_deps (ps ! i)). \<exists>k < i. pl_name (ps ! k) = d))"
proof (cases "distinct (map pl_name ps)")
  case False
  then show ?thesis by (auto simp: lc_check_def check_names_spec split: option.split)
next
  case True
  have "check_names [] ps = None"
    using True by (simp add: check_names_spec)
  then have "lc_check ps = None \<longleftrightarrow> (\<forall>i < length ps. \<forall>j < length (pl_deps (ps ! i)).
      (\<exists>k < i. k < length ps \<and> pl_name (ps ! k) = pl_deps (ps ! i) ! j)
      \<and> pl_deps (ps ! i) ! j \<notin> set (take j (pl_deps (ps ! i))))"
    by (simp add: lc_check_def check_deps_None check_dep_None[OF True])
  also have "\<dots> \<longleftrightarrow> (\<forall>i < length ps. distinct (pl_deps (ps ! i))
          \<and> (\<forall>d \<in> set (pl_deps (ps ! i)). \<exists>k < i. pl_name (ps ! k) = d))"
    unfolding distinct_take_nth all_set_conv_all_nth by (meson order.strict_trans)
  finally show ?thesis using True by simp
qed

definition sample_plugin :: "string \<Rightarrow> string list \<Rightarrow> plugin" where
  "sample_plugin n ds = \<lparr>pl_name = n, pl_deps = ds, pl_registers = [], pl_init = None, pl_start = None, pl_stop = None, pl_destroy = None\<rparr>"

theorem composition_checks_witness:
  "lc_check [sample_plugin ''platform'' [], sample_plugin ''gfx'' [''platform'']] = None
   \<and> lc_check [sample_plugin ''gfx'' [''platform''], sample_plugin ''platform'' []]
     = Some (GivenAfter ''gfx'' ''platform'')"
proof -
  have "lc_check [sample_plugin ''platform'' [], sample_plugin ''gfx'' [''platform'']] = None"
    unfolding composition_checks by (simp add: sample_plugin_def less_Suc_eq)
  moreover have "lc_check [sample_plugin ''gfx'' [''platform''], sample_plugin ''platform'' []]
     = Some (GivenAfter ''gfx'' ''platform'')"
    by code_simp
  ultimately show ?thesis by simp
qed

section \<open>The order of the calls\<close>

text \<open>The calls of a trace, without the failures logged.\<close>

fun is_log :: "lc_event \<Rightarrow> bool" where
  "is_log (ELogStop _ _) = True"
| "is_log (ELogDestroy _ _) = True"
| "is_log _ = False"

definition calls :: "lc_event list \<Rightarrow> lc_event list" where
  "calls es = filter (\<lambda>e. \<not> is_log e) es"

lemma calls_append [simp]: "calls (es @ fs) = calls es @ calls fs"
  by (simp add: calls_def)

lemma calls_call [simp]: "calls [] = []" "\<not> is_log e \<Longrightarrow> calls (e # es) = e # calls es"
  by (simp_all add: calls_def)

lemma calls_Cons_log [simp]: "is_log e \<Longrightarrow> calls (e # es) = calls es"
  by (simp add: calls_def)

abbreviation names :: "plugin list \<Rightarrow> string list" where
  "names ps \<equiv> map pl_name ps"

lemma calls_stopFrom: "k \<le> length ps \<Longrightarrow> calls (stopFrom ps k) = map EStop (names (rev (take k ps)))"
  by (induction k) (auto simp: take_Suc_conv_app_nth split: option.split)

lemma calls_destroyFrom: "k \<le> length ps \<Longrightarrow> calls (destroyFrom ps k) = map EDestroy (names (rev (take k ps)))"
  by (induction k) (auto simp: take_Suc_conv_app_nth split: option.split)

text \<open>How many plugins come up before the first whose method fails.\<close>

definition up_to :: "(plugin \<Rightarrow> string option) \<Rightarrow> plugin list \<Rightarrow> nat" where
  "up_to f ps = length (takeWhile (\<lambda>p. f p = None) ps)"

lemma up_to_le: "up_to f ps \<le> length ps"
  by (simp add: up_to_def length_takeWhile_le)

lemma up_to_before: "j < up_to f ps \<Longrightarrow> f (ps ! j) = None"
  by (metis (mono_tags, lifting) nth_mem set_takeWhileD takeWhile_nth up_to_def)

lemma up_to_fails: "up_to f ps < length ps \<Longrightarrow> \<exists>m. f (ps ! up_to f ps) = Some m"
  using nth_length_takeWhile[of "\<lambda>p. f p = None" ps] by (auto simp: up_to_def)

lemma up_to_drop: "i < length ps \<Longrightarrow> f (ps ! i) = None \<Longrightarrow> up_to f (drop i ps) = Suc (up_to f (drop (Suc i) ps))"
  by (simp add: up_to_def Cons_nth_drop_Suc[symmetric])

text \<open>What the first \<open>k\<close> plugins have registered, and the first plugin whose Init does not come through.\<close>

definition registered :: "plugin list \<Rightarrow> nat \<Rightarrow> reg_error + plugin_registry" where
  "registered ps k = reg_run new_registry (concat (map pl_registers (take k ps)))"

definition inits :: "plugin list \<Rightarrow> nat" where
  "inits ps = length (takeWhile (\<lambda>i. \<not> isl (registered ps (Suc i)) \<and> pl_init (ps ! i) = None) [0..<length ps])"

lemma reg_run_append: "reg_run g (cs @ ds) = (case reg_run g cs of Inl e \<Rightarrow> Inl e | Inr g' \<Rightarrow> reg_run g' ds)"
  by (induction cs arbitrary: g) (auto split: sum.splits)

lemma registered_Suc:
  "i < length ps \<Longrightarrow> registered ps (Suc i) = (case registered ps i of Inl e \<Rightarrow> Inl e | Inr g \<Rightarrow> reg_run g (pl_registers (ps ! i)))"
  by (simp add: registered_def take_Suc_conv_app_nth reg_run_append)

lemma registered_0: "registered ps 0 = Inr new_registry"
  by (simp add: registered_def)

lemma inits_le: "inits ps \<le> length ps"
  using length_takeWhile_le[of _ "[0..<length ps]"] by (simp add: inits_def)

lemma inits_before:
  assumes "j < inits ps"
  shows "\<not> isl (registered ps (Suc j))" "pl_init (ps ! j) = None"
  using assms nth_mem[of j "takeWhile (\<lambda>i. \<not> isl (registered ps (Suc i)) \<and> pl_init (ps ! i) = None) [0..<length ps]"]
    takeWhile_nth[of j _ "[0..<length ps]"] inits_le[of ps]
  by (auto simp: inits_def dest!: set_takeWhileD)

lemma inits_stops: "inits ps < length ps \<Longrightarrow> isl (registered ps (Suc (inits ps))) \<or> pl_init (ps ! inits ps) \<noteq> None"
  using nth_length_takeWhile[of "\<lambda>i. \<not> isl (registered ps (Suc i)) \<and> pl_init (ps ! i) = None" "[0..<length ps]"]
  by (auto simp: inits_def)

lemma registered_before: "j \<le> inits ps \<Longrightarrow> \<exists>g. registered ps j = Inr g"
  using inits_before(1)[of "j - 1" ps] by (cases j) (auto simp: registered_0 isl_def, metis sum.exhaust)

lemma init_loop_closed:
  assumes "i \<le> inits ps" and "registered ps i = Inr g"
  shows "init_loop ps g i =
    (if inits ps < length ps
     then (case registered ps (Suc (inits ps)) of
             Inl p \<Rightarrow> (map EInit (names (drop i (take (Suc (inits ps)) ps))), Inl (Panicked (RegistrationPanics (pl_name (ps ! inits ps)) p)))
           | Inr g' \<Rightarrow> (map EInit (names (drop i (take (Suc (inits ps)) ps))) @ destroyFrom ps (inits ps),
               Inl (Failed (InitFailed (pl_name (ps ! inits ps)) (the (pl_init (ps ! inits ps)))))))
     else (map EInit (names (drop i ps)), Inr (projr (registered ps (length ps)))))"
  using assms
proof (induction "inits ps - i" arbitrary: i g)
  case 0
  then have i: "i = inits ps" by simp
  show ?case
  proof (cases "i < length ps")
    case True
    have d: "drop i (take (Suc i) ps) = [ps ! i]" using True by (simp add: take_Suc_conv_app_nth)
    show ?thesis using True registered_Suc[OF True] 0(3) inits_stops[of ps] d unfolding i
      by (auto simp: init_loop.simps[of ps g "inits ps"] isl_def split: sum.splits option.splits)
  next
    case False
    then show ?thesis using i inits_le[of ps] 0(3) by (simp add: init_loop.simps[of ps g "length ps"])
  qed
next
  case (Suc n)
  then have i: "i < inits ps" "i < length ps" using inits_le[of ps] by simp_all
  obtain g' where g': "registered ps (Suc i) = Inr g'" using registered_before[of "Suc i" ps] i by auto
  then have run: "reg_run g (pl_registers (ps ! i)) = Inr g'" using registered_Suc[OF i(2)] Suc.prems(2) by simp
  have d: "drop i (take (Suc (inits ps)) ps) = ps ! i # drop (Suc i) (take (Suc (inits ps)) ps)" "drop i ps = ps ! i # drop (Suc i) ps"
    using i inits_le[of ps] by (simp_all add: drop_take Cons_nth_drop_Suc[symmetric] Suc_diff_le)
  show ?case using Suc.hyps(1)[of "Suc i" g'] Suc.hyps(2) i g' run inits_before(2)[OF i(1)] d
    by (simp add: init_loop.simps[of ps g i] split: sum.splits)
qed

lemma start_loop_closed:
  assumes "i \<le> length ps"
  defines "k \<equiv> i + up_to pl_start (drop i ps)"
  shows "start_loop ps i =
    (if k < length ps
     then (map EStart (names (drop i (take (Suc k) ps))) @ stopFrom ps k,
           map_option (StartFailed (pl_name (ps ! k))) (pl_start (ps ! k)))
     else (map EStart (names (drop i ps)), None))"
  using assms(1) unfolding k_def
proof (induction "length ps - i" arbitrary: i)
  case 0
  then show ?case by (simp add: start_loop.simps[of ps i] up_to_def)
next
  case (Suc n)
  then have i: "i < length ps" by simp
  show ?case
  proof (cases "pl_start (ps ! i)")
    case None
    let ?k = "Suc i + up_to pl_start (drop (Suc i) ps)"
    have k: "i + up_to pl_start (drop i ps) = ?k"
      using up_to_drop[of i ps pl_start] i None by simp
    have "drop i (take (Suc ?k) ps) = ps ! i # drop (Suc i) (take (Suc ?k) ps)"
      using i by (simp add: drop_take Cons_nth_drop_Suc[symmetric])
    moreover have "drop i ps = ps ! i # drop (Suc i) ps"
      using i by (rule Cons_nth_drop_Suc[symmetric])
    ultimately show ?thesis
      unfolding k using Suc.hyps(1)[of "Suc i"] Suc.hyps(2) i None
      by (simp add: start_loop.simps[of ps i])
  next
    case (Some m)
    then have "up_to pl_start (drop i ps) = 0"
      using i by (simp add: up_to_def Cons_nth_drop_Suc[symmetric])
    then show ?thesis
      using i Some by (simp add: start_loop.simps[of ps i] drop_take Cons_nth_drop_Suc[symmetric])
  qed
qed

lemma calls_map [simp]: "\<forall>x. \<not> is_log (f x) \<Longrightarrow> calls (map f xs) = map f xs"
  by (induction xs) auto

text \<open>What settles registration between the Inits and the Starts.\<close>

abbreviation settled :: "lc_event list" where
  "settled \<equiv> [EResolve, ESort, EMakeLocks, ERunners]"

lemma resolveSockets_dispatchers: "resolveSockets g = Inr g1 \<Longrightarrow> rg_dispatchers g1 = rg_dispatchers g"
  by (auto simp: resolveSockets_def split: if_splits sum.splits)

lemma sort_dispatchers_panics:
  "\<forall>(t, d) \<in> set ds. orders_within (length (d_handlers d)) (d_orders d) \<Longrightarrow>
     sort_dispatchers ds = None \<longleftrightarrow> (\<exists>(t, d) \<in> set ds. \<not> acyclic (set (d_orders d)))"
proof (induction ds)
  case (Cons td ds)
  obtain t d where td: "td = (t, d)" by fastforce
  then have "sortHandlers d = None \<longleftrightarrow> \<not> acyclic (set (d_orders d))"
    using sort_indexes_result[of "length (d_handlers d)" "d_orders d"] Cons.prems by (auto simp: sortHandlers_def split: option.splits)
  then show ?case using Cons by (auto simp: td split: option.splits)
qed simp

text \<open>
  C38: a kernel comes up in order and goes down in reverse, and a failure leaves nothing behind, while a panic leaves what it finds.  A
  composition check that fails panics before any Init.  If the \<open>i\<close>-th Init is the first that does not come through, by a registration that
  panics, the Inits up to it have run and none is destroyed; by an error, the plugins before it, and no other, are destroyed in reverse.  With
  every Init through, sockets that do not resolve and then handlers ordered in a cycle panic with every plugin initialized and none
  destroyed.  Else if the \<open>s\<close>-th Start is the first to fail, the plugins started before it are stopped in reverse, then the jobs
  are drained, then every plugin is destroyed in reverse; else the calls are the Inits in order, the settling of registration, and the Starts
  in order.  Taking a running kernel down stops every plugin in reverse, drains, and destroys every plugin in reverse.
\<close>

theorem kernel_life:
  fixes ps :: "plugin list"
  defines "i \<equiv> inits ps" and "s \<equiv> up_to pl_start ps"
  shows "(case lc_check ps of
      Some p \<Rightarrow> kernel_init ps = ([], Some (Panicked p))
    | None \<Rightarrow> \<exists>es r. kernel_init ps = (es, r) \<and>
        (if i < length ps then
           (case registered ps (Suc i) of
              Inl p \<Rightarrow> calls es = map EInit (names (take (Suc i) ps)) \<and> r = Some (Panicked (RegistrationPanics (pl_name (ps ! i)) p))
            | Inr _ \<Rightarrow> calls es = map EInit (names (take (Suc i) ps)) @ map EDestroy (names (rev (take i ps)))
                \<and> (\<exists>m. pl_init (ps ! i) = Some m \<and> r = Some (Failed (InitFailed (pl_name (ps ! i)) m))))
         else (\<exists>g. registered ps (length ps) = Inr g \<and>
           (case resolveSockets g of
              Inl p \<Rightarrow> calls es = map EInit (names ps) @ [EResolve] \<and> r = Some (Panicked (SocketPanics p))
            | Inr _ \<Rightarrow>
                if \<exists>(t, d) \<in> set (rg_dispatchers g). \<not> acyclic (set (d_orders d)) then
                  calls es = map EInit (names ps) @ [EResolve, ESort] \<and> r = Some (Panicked HandlerCycle)
                else if s < length ps then
                  calls es = map EInit (names ps) @ settled @ map EStart (names (take (Suc s) ps))
                    @ map EStop (names (rev (take s ps))) @ [EDrain] @ map EDestroy (names (rev ps))
                  \<and> (\<exists>m. pl_start (ps ! s) = Some m \<and> r = Some (Failed (StartFailed (pl_name (ps ! s)) m)))
                else calls es = map EInit (names ps) @ settled @ map EStart (names ps) \<and> r = None))))
    \<and> calls (kernel_destroy ps) = map EStop (names (rev ps)) @ [EDrain] @ map EDestroy (names (rev ps))"
proof -
  have down: "calls (lc_stop ps) = map EStop (names (rev ps))" "calls (lc_destroy ps) = map EDestroy (names (rev ps))"
    using calls_stopFrom[of "length ps" ps] calls_destroyFrom[of "length ps" ps]
    by (simp_all add: lc_stop_def lc_destroy_def)
  have part: "calls (stopFrom ps s) = map EStop (names (rev (take s ps)))"
    "calls (destroyFrom ps i) = map EDestroy (names (rev (take i ps)))"
    by (simp_all add: calls_stopFrom calls_destroyFrom i_def s_def up_to_le inits_le)
  have start: "lc_start ps = (if s < length ps
     then (map EStart (names (take (Suc s) ps)) @ stopFrom ps s, map_option (StartFailed (pl_name (ps ! s))) (pl_start (ps ! s)))
     else (map EStart (names ps), None))"
    using start_loop_closed[of 0 ps] by (simp add: lc_start_def s_def)
  have dest: "calls (kernel_destroy ps) = map EStop (names (rev ps)) @ [EDrain] @ map EDestroy (names (rev ps))"
    by (simp add: kernel_destroy_def down)
  note init = init_loop_closed[of 0 ps new_registry, OF _ registered_0, folded i_def]
  have s_fails: "\<exists>m. pl_start (ps ! s) = Some m" if "s < length ps" using up_to_fails[of pl_start ps] that by (simp add: s_def)
  show ?thesis
  proof (cases "lc_check ps")
    case (Some p)
    then show ?thesis using dest by (simp add: kernel_init_def lc_init_def)
  next
    case None
    show ?thesis
    proof (cases "i < length ps")
      case True
      then show ?thesis using dest init part None inits_stops[of ps, folded i_def]
        by (auto simp: kernel_init_def lc_init_def isl_def split: sum.splits)
    next
      case False
      then have "inits ps = length ps" using inits_le[of ps] by (simp add: i_def)
      then obtain g where g: "registered ps (length ps) = Inr g" using registered_before[of "length ps" ps] by auto
      have wf: "reg_wf g" using g reg_wf_run[OF reg_wf_new] by (simp add: registered_def)
      have base: "lc_init ps new_registry = (map EInit (names ps), Inr g)" using init None False by (simp add: lc_init_def g)
      show ?thesis
      proof (cases "resolveSockets g")
        case (Inl p)
        then show ?thesis using dest None False g by (simp add: kernel_init_def base)
      next
        case (Inr g1)
        have "sort_dispatchers (rg_dispatchers g1) = None \<longleftrightarrow> (\<exists>(t, d) \<in> set (rg_dispatchers g). \<not> acyclic (set (d_orders d)))"
          using sort_dispatchers_panics[of "rg_dispatchers g"] wf unfolding resolveSockets_dispatchers[OF Inr] reg_wf_def by blast
        then show ?thesis using dest None False g Inr s_fails start part down
          by (cases "sort_dispatchers (rg_dispatchers g1)") (auto simp: kernel_init_def base)
      qed
    qed
  qed
qed

text \<open>A Start that fails, and a binding to a socket nobody declares.\<close>

definition failing_start :: "plugin list" where
  "failing_start = [sample_plugin ''a'' [], (sample_plugin ''b'' [''a''])\<lparr>pl_start := Some ''boom''\<rparr>]"

definition stray_binding :: "plugin list" where
  "stray_binding = [(sample_plugin ''a'' [])\<lparr>pl_registers := [CallBind ''a'' (Basic ''T'' KInt) (Some 1)]\<rparr>]"

lemma failing_start_facts:
  "lc_check failing_start = None" "inits failing_start = 2" "up_to pl_start failing_start = 1" "length failing_start = 2"
  "registered failing_start 2 = Inr new_registry" "resolveSockets (new_registry :: plugin_registry) = Inr new_registry"
  "rg_dispatchers (new_registry :: plugin_registry) = []" "names failing_start = [''a'', ''b'']"
  "pl_start (failing_start ! 1) = Some ''boom''" "pl_name (failing_start ! 1) = ''b''" "take 1 failing_start = [sample_plugin ''a'' []]"
  by code_simp+

lemma stray_binding_facts:
  "lc_check stray_binding = None" "inits stray_binding = 1" "length stray_binding = 1" "names stray_binding = [''a'']"
  "registered stray_binding 1 = Inr (new_registry\<lparr>rg_bindings := [\<lparr>bd_socket = Basic ''T'' KInt, bd_plugin = ''a'', bd_value = 1\<rparr>]\<rparr>)"
  "resolveSockets (new_registry\<lparr>rg_bindings := [\<lparr>bd_socket = Basic ''T'' KInt, bd_plugin = ''a'', bd_value = 1\<rparr>]\<rparr> :: plugin_registry)
     = Inl UndeclaredSocket"
  by code_simp+

theorem kernel_life_witness:
  "(\<exists>es. kernel_init failing_start = (es, Some (Failed (StartFailed ''b'' ''boom'')))
      \<and> calls es = [EInit ''a'', EInit ''b'', EResolve, ESort, EMakeLocks, ERunners, EStart ''a'', EStart ''b'',
           EStop ''a'', EDrain, EDestroy ''b'', EDestroy ''a''])
   \<and> (\<exists>es. kernel_init stray_binding = (es, Some (Panicked (SocketPanics UndeclaredSocket))) \<and> calls es = [EInit ''a'', EResolve])"
proof
  have "names (rev failing_start) = [''b'', ''a'']" "names (take (Suc 1) failing_start) = [''a'', ''b'']" "pl_name (sample_plugin ''a'' []) = ''a''"
    by code_simp+
  then show "\<exists>es. kernel_init failing_start = (es, Some (Failed (StartFailed ''b'' ''boom'')))
      \<and> calls es = [EInit ''a'', EInit ''b'', EResolve, ESort, EMakeLocks, ERunners, EStart ''a'', EStart ''b'',
           EStop ''a'', EDrain, EDestroy ''b'', EDestroy ''a'']"
    using kernel_life[of failing_start] by (auto simp: failing_start_facts simp del: One_nat_def)
  show "\<exists>es. kernel_init stray_binding = (es, Some (Panicked (SocketPanics UndeclaredSocket))) \<and> calls es = [EInit ''a'', EResolve]"
    using kernel_life[of stray_binding] by (auto simp: stray_binding_facts simp del: One_nat_def)
qed

end
