(* ===== verification/Kernel_Supervisor.thy ===== *)
theory Kernel_Supervisor
  imports Kernel_Lifecycle Cog_Queue
begin

text \<open>
  \<open>kernel/supervisor.go\<close>: the supervisor's state and what its methods do to it, each section under \<open>kernelsMu\<close> and
  each atomic operation one definition, and the calls that interleave as a step relation: spawns, destroys,
  broadcasts, the quit, the pushes of pinned jobs and the main thread's loop.  A kernel is its identifier,
  and in the map its plugins; a slice of kernels is a list, replaced and never changed in place.
\<close>

section \<open>The supervisor\<close>

type_synonym pinned_job = "nat \<times> nat"

record supervisor =
  sv_kernels :: "nat \<Rightarrow> plugin list option"
  sv_spawnOrder :: "nat list"
  sv_lastID :: nat
  sv_quitting :: bool
  sv_done :: bool
  sv_pinned :: "pinned_job queue"
  sv_mainWake :: bool

definition NewSupervisor :: supervisor where
  "NewSupervisor =
     \<lparr>sv_kernels = (\<lambda>_. None), sv_spawnOrder = [], sv_lastID = 0, sv_quitting = False, sv_done = False,
      sv_pinned = empty_queue, sv_mainWake = False\<rparr>"

text \<open>
  \<open>Spawn\<close>, in its four parts: the look at \<open>quitting\<close>, the identifier, the kernel coming up, and the section that adds
  it unless the supervisor quit meanwhile.
\<close>

datatype spawn_answer = NoWorkers int | ErrQuitting | InitPanics lc_panic | InitFails lc_error | Spawned nat

datatype spawn_pc = SpawnCalled | SpawnTaken nat | SpawnUp nat | SpawnRefused nat | SpawnAnswers spawn_answer

definition spawn_call :: "int \<Rightarrow> supervisor \<Rightarrow> spawn_pc" where
  "spawn_call workerCount s =
     (if workerCount < 1 then SpawnAnswers (NoWorkers workerCount)
      else if sv_quitting s then SpawnAnswers ErrQuitting else SpawnCalled)"

definition spawn_take :: "supervisor \<Rightarrow> nat \<times> supervisor" where
  "spawn_take s = (sv_lastID s + 1, s\<lparr>sv_lastID := sv_lastID s + 1\<rparr>)"

definition spawn_init :: "plugin list \<Rightarrow> nat \<Rightarrow> spawn_pc" where
  "spawn_init plugins k =
     (case kernel_init plugins of
        (es, Some (Panicked p)) \<Rightarrow> SpawnAnswers (InitPanics p)
      | (es, Some (Failed e)) \<Rightarrow> SpawnAnswers (InitFails e)
      | (es, None) \<Rightarrow> SpawnUp k)"

definition spawn_add :: "plugin list \<Rightarrow> nat \<Rightarrow> supervisor \<Rightarrow> spawn_pc \<times> supervisor" where
  "spawn_add plugins k s =
     (if sv_quitting s then (SpawnRefused k, s)
      else (SpawnAnswers (Spawned k),
            s\<lparr>sv_kernels := (sv_kernels s)(k \<mapsto> plugins), sv_spawnOrder := sv_spawnOrder s @ [k]\<rparr>))"

definition GetKernel :: "nat \<Rightarrow> supervisor \<Rightarrow> plugin list option" where
  "GetKernel k s = sv_kernels s k"

text \<open>\<open>Destroy\<close>, which answers whether it goes on to take the kernel down, and \<open>Quit\<close>, with the kernels it takes.\<close>

definition sv_Destroy :: "nat \<Rightarrow> supervisor \<Rightarrow> bool \<times> supervisor" where
  "sv_Destroy k s =
     (if sv_kernels s k = None then (False, s)
      else (True, s\<lparr>sv_kernels := (sv_kernels s)(k := None), sv_spawnOrder := filter (\<lambda>other. other \<noteq> k) (sv_spawnOrder s)\<rparr>))"

definition sv_Quit :: "supervisor \<Rightarrow> nat set option \<times> supervisor" where
  "sv_Quit s =
     (if sv_quitting s then (None, s)
      else (Some (dom (sv_kernels s)), s\<lparr>sv_quitting := True, sv_kernels := (\<lambda>_. None), sv_spawnOrder := []\<rparr>))"

text \<open>\<open>pushPinned\<close>: the push, then the wake, unless one is pending.\<close>

definition push_pinned :: "pinned_job \<Rightarrow> supervisor \<Rightarrow> supervisor" where
  "push_pinned j s = s\<lparr>sv_pinned := snd (q_push (0, 0) (sv_pinned s) j)\<rparr>"

definition wake_main :: "supervisor \<Rightarrow> supervisor" where
  "wake_main s = s\<lparr>sv_mainWake := True\<rparr>"

text \<open>The main thread: \<open>WaitMainThread\<close>'s two selects, and \<open>TickMainThread\<close>'s batches.\<close>

datatype main_pc = MainLoops | MainWaits | MainTicks | MainRuns "pinned_job list" | MainEnds

definition tick_drain :: "supervisor \<Rightarrow> main_pc \<times> supervisor" where
  "tick_drain s =
     (case q_drain (0, 0) (sv_pinned s) [] of (batch, q) \<Rightarrow>
        (if batch = [] then MainLoops else MainRuns batch, s\<lparr>sv_pinned := q\<rparr>))"

section \<open>The calls that interleave\<close>

text \<open>
  Beside the supervisor: each \<open>Spawn\<close>'s plugins and where it is; the kernels being taken down and those gone; the kernels the
  quit waits for; each \<open>Broadcast\<close>'s kernels published in and left; the main thread, and the pushes that
  have yet to wake it.  What came up, was pushed and has run is kept for the properties.
\<close>

record sv_system =
  ss_sup :: supervisor
  ss_spawns :: "(plugin list \<times> spawn_pc) list"
  ss_stopping :: "nat set"
  ss_gone :: "nat list"
  ss_quit :: "nat set option"
  ss_broadcasts :: "(nat list \<times> nat list) list"
  ss_main :: main_pc
  ss_pushing :: nat
  ss_up :: "nat list"
  ss_pushed :: "pinned_job list"
  ss_ran :: "pinned_job list"

definition new_system :: sv_system where
  "new_system =
     \<lparr>ss_sup = NewSupervisor, ss_spawns = [], ss_stopping = {}, ss_gone = [], ss_quit = None, ss_broadcasts = [],
      ss_main = MainLoops, ss_pushing = 0, ss_up = [], ss_pushed = [], ss_ran = []\<rparr>"

abbreviation spawn_at :: "sv_system \<Rightarrow> nat \<Rightarrow> spawn_pc" where
  "spawn_at y i \<equiv> snd (ss_spawns y ! i)"

definition set_spawn :: "nat \<Rightarrow> spawn_pc \<Rightarrow> sv_system \<Rightarrow> sv_system" where
  "set_spawn i pc y = y\<lparr>ss_spawns := (ss_spawns y)[i := (fst (ss_spawns y ! i), pc)]\<rparr>"

inductive sv_step :: "sv_system \<Rightarrow> sv_system \<Rightarrow> bool" where
  sv_called: "sv_step y (y\<lparr>ss_spawns := ss_spawns y @ [(plugins, spawn_call n (ss_sup y))]\<rparr>)"
| sv_taken: "i < length (ss_spawns y) \<Longrightarrow> spawn_at y i = SpawnCalled \<Longrightarrow> spawn_take (ss_sup y) = (k, s)
    \<Longrightarrow> sv_step y (set_spawn i (SpawnTaken k) (y\<lparr>ss_sup := s\<rparr>))"
| sv_inited: "i < length (ss_spawns y) \<Longrightarrow> spawn_at y i = SpawnTaken k \<Longrightarrow> spawn_init (fst (ss_spawns y ! i)) k = pc
    \<Longrightarrow> sv_step y (set_spawn i pc (y\<lparr>ss_up := ss_up y @ (if pc = SpawnUp k then [k] else [])\<rparr>))"
| sv_added: "i < length (ss_spawns y) \<Longrightarrow> spawn_at y i = SpawnUp k \<Longrightarrow> spawn_add (fst (ss_spawns y ! i)) k (ss_sup y) = (pc, s)
    \<Longrightarrow> sv_step y (set_spawn i pc (y\<lparr>ss_sup := s\<rparr>))"
| sv_refused: "i < length (ss_spawns y) \<Longrightarrow> spawn_at y i = SpawnRefused k
    \<Longrightarrow> sv_step y (set_spawn i (SpawnAnswers ErrQuitting) (y\<lparr>ss_gone := ss_gone y @ [k]\<rparr>))"
| sv_destroyed: "sv_Destroy k (ss_sup y) = (taken, s)
    \<Longrightarrow> sv_step y (y\<lparr>ss_sup := s, ss_stopping := (if taken then insert k (ss_stopping y) else ss_stopping y)\<rparr>)"
| sv_went: "k \<in> ss_stopping y \<Longrightarrow> sv_step y (y\<lparr>ss_stopping := ss_stopping y - {k}, ss_gone := ss_gone y @ [k]\<rparr>)"
| sv_quits: "sv_Quit (ss_sup y) = (taken, s)
    \<Longrightarrow> sv_step y (case taken of None \<Rightarrow> y | Some ks \<Rightarrow> y\<lparr>ss_sup := s, ss_quit := Some ks, ss_stopping := ss_stopping y \<union> ks\<rparr>)"
| sv_closes: "ss_quit y = Some ks \<Longrightarrow> ks \<subseteq> set (ss_gone y) \<Longrightarrow> \<not> sv_done (ss_sup y)
    \<Longrightarrow> sv_step y (y\<lparr>ss_sup := (ss_sup y)\<lparr>sv_done := True\<rparr>\<rparr>)"
| sv_broadcast: "sv_step y (y\<lparr>ss_broadcasts := ss_broadcasts y @ [([], sv_spawnOrder (ss_sup y))]\<rparr>)"
| sv_publish: "i < length (ss_broadcasts y) \<Longrightarrow> ss_broadcasts y ! i = (published, k # left)
    \<Longrightarrow> sv_step y (y\<lparr>ss_broadcasts := (ss_broadcasts y)[i := (published @ [k], left)]\<rparr>)"
| sv_pushed: "sv_step y (y\<lparr>ss_sup := push_pinned j (ss_sup y), ss_pushing := ss_pushing y + 1, ss_pushed := ss_pushed y @ [j]\<rparr>)"
| sv_woke: "0 < ss_pushing y \<Longrightarrow> sv_step y (y\<lparr>ss_sup := wake_main (ss_sup y), ss_pushing := ss_pushing y - 1\<rparr>)"
| sv_loops: "ss_main y = MainLoops \<Longrightarrow> sv_step y (y\<lparr>ss_main := if sv_done (ss_sup y) then MainEnds else MainWaits\<rparr>)"
| sv_waits: "ss_main y = MainWaits \<Longrightarrow> sv_mainWake (ss_sup y)
    \<Longrightarrow> sv_step y (y\<lparr>ss_sup := (ss_sup y)\<lparr>sv_mainWake := False\<rparr>, ss_main := MainTicks\<rparr>)"
| sv_ends: "ss_main y = MainWaits \<Longrightarrow> sv_done (ss_sup y) \<Longrightarrow> sv_step y (y\<lparr>ss_main := MainEnds\<rparr>)"
| sv_ticks: "ss_main y = MainTicks \<Longrightarrow> tick_drain (ss_sup y) = (pc, s) \<Longrightarrow> sv_step y (y\<lparr>ss_sup := s, ss_main := pc\<rparr>)"
| sv_runs: "ss_main y = MainRuns (j # js) \<Longrightarrow> sv_step y (y\<lparr>ss_main := MainRuns js, ss_ran := ss_ran y @ [j]\<rparr>)"
| sv_ran: "ss_main y = MainRuns [] \<Longrightarrow> sv_step y (y\<lparr>ss_main := MainTicks\<rparr>)"

inductive sv_reach :: "sv_system \<Rightarrow> bool" where
  sv_new: "sv_reach new_system"
| sv_next: "sv_reach y \<Longrightarrow> sv_step y y' \<Longrightarrow> sv_reach y'"

section \<open>Kernels are lost by no one and destroyed once\<close>

text \<open>The kernel a call to \<open>Spawn\<close> has an identifier for, and the one it alone holds.\<close>

fun call_kernel :: "spawn_pc \<Rightarrow> nat option" where
  "call_kernel (SpawnTaken k) = Some k"
| "call_kernel (SpawnUp k) = Some k"
| "call_kernel (SpawnRefused k) = Some k"
| "call_kernel (SpawnAnswers (Spawned k)) = Some k"
| "call_kernel _ = None"

definition holds_kernel :: "spawn_pc \<Rightarrow> nat \<Rightarrow> bool" where
  "holds_kernel pc k \<longleftrightarrow> pc = SpawnUp k \<or> pc = SpawnRefused k"

abbreviation live :: "sv_system \<Rightarrow> nat set" where
  "live y \<equiv> dom (sv_kernels (ss_sup y))"

definition handed_over :: "sv_system \<Rightarrow> nat set" where
  "handed_over y = live y \<union> ss_stopping y \<union> set (ss_gone y)"

definition order_ok :: "sv_system \<Rightarrow> bool" where
  "order_ok y \<longleftrightarrow> set (sv_spawnOrder (ss_sup y)) = live y \<and> distinct (sv_spawnOrder (ss_sup y))
     \<and> (\<forall>(published, left) \<in> set (ss_broadcasts y). distinct (published @ left))"

definition call_fits :: "nat set \<Rightarrow> nat set \<Rightarrow> spawn_pc \<Rightarrow> nat \<Rightarrow> bool" where
  "call_fits up over pc k =
     (case pc of SpawnTaken _ \<Rightarrow> k \<notin> up \<and> k \<notin> over | SpawnAnswers _ \<Rightarrow> k \<in> over | _ \<Rightarrow> k \<in> up \<and> k \<notin> over)"

definition calls_ok :: "sv_system \<Rightarrow> bool" where
  "calls_ok y \<longleftrightarrow>
     (\<forall>i < length (ss_spawns y). \<forall>k. call_kernel (spawn_at y i) = Some k \<longrightarrow>
        k \<le> sv_lastID (ss_sup y) \<and> (\<forall>j < length (ss_spawns y). call_kernel (spawn_at y j) = Some k \<longrightarrow> j = i)
        \<and> call_fits (set (ss_up y)) (handed_over y) (spawn_at y i) k)"

definition kernels_ok :: "sv_system \<Rightarrow> bool" where
  "kernels_ok y \<longleftrightarrow>
     live y \<inter> ss_stopping y = {} \<and> live y \<inter> set (ss_gone y) = {} \<and> ss_stopping y \<inter> set (ss_gone y) = {} \<and> distinct (ss_gone y)"

definition up_ok :: "sv_system \<Rightarrow> bool" where
  "up_ok y \<longleftrightarrow> distinct (ss_up y) \<and> handed_over y \<subseteq> set (ss_up y)
     \<and> (\<forall>k \<in> set (ss_up y). k \<le> sv_lastID (ss_sup y)
          \<and> (k \<in> handed_over y \<or> (\<exists>i < length (ss_spawns y). holds_kernel (spawn_at y i) k)))"

definition quit_ok :: "sv_system \<Rightarrow> bool" where
  "quit_ok y \<longleftrightarrow> (sv_quitting (ss_sup y) \<longleftrightarrow> ss_quit y \<noteq> None) \<and> (sv_quitting (ss_sup y) \<longrightarrow> live y = {})
     \<and> (\<forall>ks. ss_quit y = Some ks \<longrightarrow> ks \<subseteq> ss_stopping y \<union> set (ss_gone y) \<and> (sv_done (ss_sup y) \<longrightarrow> ks \<subseteq> set (ss_gone y)))
     \<and> (sv_done (ss_sup y) \<longrightarrow> ss_quit y \<noteq> None)"

definition pinned_ok :: "sv_system \<Rightarrow> bool" where
  "pinned_ok y \<longleftrightarrow> q_wf (sv_pinned (ss_sup y)) \<and> \<not> q_closed (sv_pinned (ss_sup y))
     \<and> ss_pushed y = ss_ran y @ (case ss_main y of MainRuns js \<Rightarrow> js | _ \<Rightarrow> []) @ q_items (sv_pinned (ss_sup y))
     \<and> (ss_main y \<in> {MainLoops, MainWaits} \<and> ss_pushing y = 0 \<and> q_items (sv_pinned (ss_sup y)) \<noteq> [] \<longrightarrow> sv_mainWake (ss_sup y))
     \<and> (ss_main y = MainEnds \<longrightarrow> sv_done (ss_sup y))"

lemma set_spawn_simps [simp]:
  "ss_sup (set_spawn i pc y) = ss_sup y" "ss_stopping (set_spawn i pc y) = ss_stopping y" "ss_gone (set_spawn i pc y) = ss_gone y"
  "ss_quit (set_spawn i pc y) = ss_quit y" "ss_broadcasts (set_spawn i pc y) = ss_broadcasts y" "ss_main (set_spawn i pc y) = ss_main y"
  "ss_pushing (set_spawn i pc y) = ss_pushing y" "ss_up (set_spawn i pc y) = ss_up y" "ss_pushed (set_spawn i pc y) = ss_pushed y"
  "ss_ran (set_spawn i pc y) = ss_ran y" "handed_over (set_spawn i pc y) = handed_over y"
  "length (ss_spawns (set_spawn i pc y)) = length (ss_spawns y)"
  by (simp_all add: set_spawn_def handed_over_def)

lemma spawn_at_set [simp]: "i < length (ss_spawns y) \<Longrightarrow> spawn_at (set_spawn i pc y) j = (if j = i then pc else spawn_at y j)"
  by (simp add: set_spawn_def nth_list_update)

lemma calls_okD:
  assumes "calls_ok y" and "i < length (ss_spawns y)" and "call_kernel (spawn_at y i) = Some k"
  shows "k \<le> sv_lastID (ss_sup y)" and "j < length (ss_spawns y) \<Longrightarrow> call_kernel (spawn_at y j) = Some k \<Longrightarrow> j = i"
    and "call_fits (set (ss_up y)) (handed_over y) (spawn_at y i) k"
  using assms unfolding calls_ok_def by blast+

text \<open>One call moves on, from a state that differs from the one before at most in that call's own kernel.\<close>

lemma calls_ok_set:
  assumes "calls_ok y" and "i < length (ss_spawns y)" and "ss_spawns y' = ss_spawns y" and "sv_lastID (ss_sup y) \<le> sv_lastID (ss_sup y')"
    and "\<And>k. call_kernel pc = Some k \<Longrightarrow> k \<le> sv_lastID (ss_sup y') \<and> call_fits (set (ss_up y')) (handed_over y') pc k
      \<and> (\<forall>j < length (ss_spawns y). call_kernel (spawn_at y j) = Some k \<longrightarrow> j = i)"
    and "\<And>j k. j < length (ss_spawns y) \<Longrightarrow> j \<noteq> i \<Longrightarrow> call_kernel (spawn_at y j) = Some k
      \<Longrightarrow> (k \<in> set (ss_up y') \<longleftrightarrow> k \<in> set (ss_up y)) \<and> (k \<in> handed_over y' \<longleftrightarrow> k \<in> handed_over y)"
  shows "calls_ok (set_spawn i pc y')"
  unfolding calls_ok_def
proof (intro allI impI)
  fix j k
  assume j: "j < length (ss_spawns (set_spawn i pc y'))" and k: "call_kernel (spawn_at (set_spawn i pc y') j) = Some k"
  have i': "i < length (ss_spawns y')" and jl: "j < length (ss_spawns y)" using assms(2,3) j by simp_all
  show "k \<le> sv_lastID (ss_sup (set_spawn i pc y'))
    \<and> (\<forall>j' < length (ss_spawns (set_spawn i pc y')). call_kernel (spawn_at (set_spawn i pc y') j') = Some k \<longrightarrow> j' = j)
    \<and> call_fits (set (ss_up (set_spawn i pc y'))) (handed_over (set_spawn i pc y')) (spawn_at (set_spawn i pc y') j) k"
  proof (cases "j = i")
    case True
    then have "call_kernel pc = Some k" using k i' by simp
    from assms(5)[OF this] show ?thesis using True i' assms(3) by auto
  next
    case False
    then have kj: "call_kernel (spawn_at y j) = Some k" using k i' assms(3) by simp
    note d = calls_okD[OF assms(1) jl kj]
    have "call_fits (set (ss_up y')) (handed_over y') (spawn_at y j) k"
      using d(3) assms(6)[OF jl False kj] by (simp add: call_fits_def split: spawn_pc.splits)
    moreover have "call_kernel pc \<noteq> Some k" using assms(5)[of k] jl False kj by blast
    ultimately show ?thesis using d(1) d(2) False i' assms(3,4) by auto
  qed
qed

lemma calls_ok_cong:
  "ss_spawns y' = ss_spawns y \<Longrightarrow> sv_lastID (ss_sup y') = sv_lastID (ss_sup y) \<Longrightarrow> ss_up y' = ss_up y \<Longrightarrow> handed_over y' = handed_over y
    \<Longrightarrow> calls_ok y' = calls_ok y"
  by (simp add: calls_ok_def)

lemma up_ok_cong:
  "ss_spawns y' = ss_spawns y \<Longrightarrow> sv_lastID (ss_sup y') = sv_lastID (ss_sup y) \<Longrightarrow> ss_up y' = ss_up y \<Longrightarrow> handed_over y' = handed_over y
    \<Longrightarrow> up_ok y' = up_ok y"
  by (simp add: up_ok_def)

lemma up_ok_set:
  assumes "up_ok y" and "i < length (ss_spawns y)" and "ss_spawns y' = ss_spawns y" and "sv_lastID (ss_sup y) \<le> sv_lastID (ss_sup y')"
    and "distinct (ss_up y')" and "handed_over y \<subseteq> handed_over y'" and "handed_over y' \<subseteq> set (ss_up y')"
    and "\<And>k. k \<in> set (ss_up y') \<Longrightarrow> k \<in> set (ss_up y) \<and> (holds_kernel (spawn_at y i) k \<longrightarrow> holds_kernel pc k \<or> k \<in> handed_over y')
      \<or> holds_kernel pc k \<and> k \<le> sv_lastID (ss_sup y')"
  shows "up_ok (set_spawn i pc y')"
proof -
  have "k \<le> sv_lastID (ss_sup y') \<and> (k \<in> handed_over y' \<or> (\<exists>j < length (ss_spawns y). holds_kernel (if j = i then pc else spawn_at y j) k))"
    if k: "k \<in> set (ss_up y')" for k
    using assms(8)[OF k]
  proof
    assume a: "k \<in> set (ss_up y) \<and> (holds_kernel (spawn_at y i) k \<longrightarrow> holds_kernel pc k \<or> k \<in> handed_over y')"
    then have le: "k \<le> sv_lastID (ss_sup y')" and
      c: "k \<in> handed_over y \<or> (\<exists>j < length (ss_spawns y). holds_kernel (spawn_at y j) k)"
      using assms(1,4) unfolding up_ok_def by force+
    from c show ?thesis
    proof
      assume "k \<in> handed_over y" then show ?thesis using le assms(6) by blast
    next
      assume "\<exists>j < length (ss_spawns y). holds_kernel (spawn_at y j) k"
      then obtain j where j: "j < length (ss_spawns y)" "holds_kernel (spawn_at y j) k" by blast
      then show ?thesis using le a by (cases "j = i") auto
    qed
  next
    assume "holds_kernel pc k \<and> k \<le> sv_lastID (ss_sup y')" then show ?thesis using assms(2) by auto
  qed
  then show ?thesis using assms(2,3,5,7) by (simp add: up_ok_def split del: if_split cong: if_cong)
qed

text \<open>Every step keeps each part of the invariant.\<close>

definition sv_inv :: "sv_system \<Rightarrow> bool" where
  "sv_inv y \<longleftrightarrow> order_ok y \<and> calls_ok y \<and> kernels_ok y \<and> up_ok y \<and> quit_ok y"

lemma sv_invI: "order_ok y \<Longrightarrow> calls_ok y \<Longrightarrow> kernels_ok y \<Longrightarrow> up_ok y \<Longrightarrow> quit_ok y \<Longrightarrow> sv_inv y"
  by (simp add: sv_inv_def)

lemma sv_invD:
  assumes "sv_inv y"
  shows "order_ok y" and "calls_ok y" and "kernels_ok y" and "up_ok y" and "quit_ok y"
  using assms by (simp_all add: sv_inv_def)

lemma spawn_call_kernel [simp]: "call_kernel (spawn_call n s) = None" "\<not> holds_kernel (spawn_call n s) k"
  by (simp_all add: spawn_call_def holds_kernel_def)

lemma inv_called:
  assumes "sv_inv y"
  shows "sv_inv (y\<lparr>ss_spawns := ss_spawns y @ [(plugins, spawn_call n (ss_sup y))]\<rparr>)"
proof (rule sv_invI)
  let ?y = "y\<lparr>ss_spawns := ss_spawns y @ [(plugins, spawn_call n (ss_sup y))]\<rparr>"
  note i = sv_invD[OF assms]
  have at: "spawn_at ?y j = (if j < length (ss_spawns y) then spawn_at y j else spawn_call n (ss_sup y))"
    if "j < length (ss_spawns ?y)" for j using that by (auto simp: nth_append)
  have h: "handed_over ?y = handed_over y" by (simp add: handed_over_def)
  show "calls_ok ?y" unfolding calls_ok_def
  proof (intro allI impI)
    fix j k assume j: "j < length (ss_spawns ?y)" and k: "call_kernel (spawn_at ?y j) = Some k"
    then have jl: "j < length (ss_spawns y)" and kj: "call_kernel (spawn_at y j) = Some k" unfolding at[OF j] by (simp_all split: if_splits)
    note d = calls_okD[OF i(2) jl kj]
    have "j' = j" if "j' < length (ss_spawns ?y)" "call_kernel (spawn_at ?y j') = Some k" for j'
      using that(2) d(2) unfolding at[OF that(1)] by (simp split: if_splits)
    then show "k \<le> sv_lastID (ss_sup ?y) \<and> (\<forall>j' < length (ss_spawns ?y). call_kernel (spawn_at ?y j') = Some k \<longrightarrow> j' = j)
      \<and> call_fits (set (ss_up ?y)) (handed_over ?y) (spawn_at ?y j) k" using d(1,3) jl unfolding at[OF j] h by simp
  qed
  show "up_ok ?y"
    using i(4) unfolding up_ok_def h by (simp, metis (no_types, lifting) less_Suc_eq nth_append)
qed (use sv_invD[OF assms] in \<open>simp_all add: order_ok_def kernels_ok_def quit_ok_def\<close>)

lemma inv_taken:
  assumes "sv_inv y" and "i < length (ss_spawns y)" and "spawn_at y i = SpawnCalled" and "spawn_take (ss_sup y) = (k, s)"
  shows "sv_inv (set_spawn i (SpawnTaken k) (y\<lparr>ss_sup := s\<rparr>))"
proof (rule sv_invI)
  note v = sv_invD[OF assms(1)]
  have s: "k = sv_lastID (ss_sup y) + 1" "s = (ss_sup y)\<lparr>sv_lastID := sv_lastID (ss_sup y) + 1\<rparr>" using assms(4) by (auto simp: spawn_take_def)
  have h: "handed_over (y\<lparr>ss_sup := s\<rparr>) = handed_over y" by (simp add: handed_over_def s)
  have new: "k \<notin> set (ss_up y)" "k \<notin> handed_over y" using v(4) s(1) unfolding up_ok_def by fastforce+
  show "calls_ok (set_spawn i (SpawnTaken k) (y\<lparr>ss_sup := s\<rparr>))"
    by (rule calls_ok_set[OF v(2) assms(2)]) (use new h s calls_okD(1)[OF v(2)] in \<open>fastforce simp: call_fits_def\<close>)+
  show "up_ok (set_spawn i (SpawnTaken k) (y\<lparr>ss_sup := s\<rparr>))"
    by (rule up_ok_set[OF v(4) assms(2)]) (use v(4) h s assms(3) in \<open>auto simp: up_ok_def holds_kernel_def\<close>)
  let ?y = "set_spawn i (SpawnTaken k) (y\<lparr>ss_sup := s\<rparr>)"
  show "order_ok ?y" "kernels_ok ?y" "quit_ok ?y" using v(1,3,5) by (simp_all add: order_ok_def kernels_ok_def quit_ok_def s)
qed

lemma inv_inited:
  assumes "sv_inv y" and "i < length (ss_spawns y)" and "spawn_at y i = SpawnTaken k" and "spawn_init ps k = pc"
  shows "sv_inv (set_spawn i pc (y\<lparr>ss_up := ss_up y @ (if pc = SpawnUp k then [k] else [])\<rparr>))"
proof (rule sv_invI)
  let ?y = "y\<lparr>ss_up := ss_up y @ (if pc = SpawnUp k then [k] else [])\<rparr>"
  note v = sv_invD[OF assms(1)]
  have pc: "pc = SpawnUp k \<or> call_kernel pc = None \<and> (\<forall>k. \<not> holds_kernel pc k)"
    using assms(4) by (auto simp: spawn_init_def holds_kernel_def split: prod.splits option.splits lc_end.splits)
  have ck: "call_kernel (spawn_at y i) = Some k" using assms(3) by simp
  note d = calls_okD[OF v(2) assms(2) ck]
  have new: "k \<notin> set (ss_up y)" "k \<notin> handed_over y" using d(3) assms(3) by (simp_all add: call_fits_def)
  have h: "handed_over ?y = handed_over y" by (simp add: handed_over_def)
  show "calls_ok (set_spawn i pc ?y)"
    by (rule calls_ok_set[OF v(2) assms(2)]) (use new h pc d(1,2) in \<open>auto simp: call_fits_def\<close>)
  show "up_ok (set_spawn i pc ?y)"
    by (rule up_ok_set[OF v(4) assms(2)]) (use v(4) h pc new d(1) assms(3) in \<open>auto simp: up_ok_def holds_kernel_def\<close>)
qed (use sv_invD[OF assms(1)] in \<open>simp_all add: order_ok_def kernels_ok_def quit_ok_def\<close>)

lemma inv_added:
  assumes "sv_inv y" and "i < length (ss_spawns y)" and "spawn_at y i = SpawnUp k" and "spawn_add ps k (ss_sup y) = (pc, s)"
  shows "sv_inv (set_spawn i pc (y\<lparr>ss_sup := s\<rparr>))"
proof -
  note v = sv_invD[OF assms(1)]
  have ck: "call_kernel (spawn_at y i) = Some k" using assms(3) by simp
  note d = calls_okD[OF v(2) assms(2) ck]
  have new: "k \<in> set (ss_up y)" "k \<notin> handed_over y" using d(3) assms(3) by (simp_all add: call_fits_def)
  show ?thesis
  proof (cases "sv_quitting (ss_sup y)")
    case True
    then have e: "pc = SpawnRefused k" "s = ss_sup y" using assms(4) by (auto simp: spawn_add_def)
    show ?thesis
    proof (rule sv_invI)
      show "calls_ok (set_spawn i pc (y\<lparr>ss_sup := s\<rparr>))"
        by (rule calls_ok_set[OF v(2) assms(2)]) (use new d(1,2) in \<open>auto simp: call_fits_def e\<close>)
      show "up_ok (set_spawn i pc (y\<lparr>ss_sup := s\<rparr>))"
        by (rule up_ok_set[OF v(4) assms(2)]) (use v(4) assms(3) in \<open>auto simp: up_ok_def holds_kernel_def e\<close>)
    qed (use v in \<open>simp_all add: order_ok_def kernels_ok_def quit_ok_def e\<close>)
  next
    case False
    then have e: "pc = SpawnAnswers (Spawned k)" "s = (ss_sup y)\<lparr>sv_kernels := (sv_kernels (ss_sup y))(k \<mapsto> ps),
      sv_spawnOrder := sv_spawnOrder (ss_sup y) @ [k]\<rparr>" using assms(4) by (auto simp: spawn_add_def)
    have h: "handed_over (y\<lparr>ss_sup := s\<rparr>) = insert k (handed_over y)" by (auto simp: handed_over_def e)
    show ?thesis
    proof (rule sv_invI)
      show "calls_ok (set_spawn i pc (y\<lparr>ss_sup := s\<rparr>))"
        by (rule calls_ok_set[OF v(2) assms(2)]) (use new d(1,2) h in \<open>auto simp: call_fits_def e\<close>)
      show "up_ok (set_spawn i pc (y\<lparr>ss_sup := s\<rparr>))"
        by (rule up_ok_set[OF v(4) assms(2)]) (use v(4) assms(3) new h in \<open>auto simp: up_ok_def holds_kernel_def e\<close>)
      show "order_ok (set_spawn i pc (y\<lparr>ss_sup := s\<rparr>))" using v(1) new(2) by (auto simp: order_ok_def handed_over_def e)
      show "kernels_ok (set_spawn i pc (y\<lparr>ss_sup := s\<rparr>))" using v(3) new(2) by (auto simp: kernels_ok_def handed_over_def e)
      show "quit_ok (set_spawn i pc (y\<lparr>ss_sup := s\<rparr>))" using v(5) False by (auto simp: quit_ok_def e)
    qed
  qed
qed

lemma inv_refused:
  assumes "sv_inv y" and "i < length (ss_spawns y)" and "spawn_at y i = SpawnRefused k"
  shows "sv_inv (set_spawn i (SpawnAnswers ErrQuitting) (y\<lparr>ss_gone := ss_gone y @ [k]\<rparr>))"
proof (rule sv_invI)
  let ?y = "y\<lparr>ss_gone := ss_gone y @ [k]\<rparr>"
  note v = sv_invD[OF assms(1)]
  have ck: "call_kernel (spawn_at y i) = Some k" using assms(3) by simp
  note d = calls_okD[OF v(2) assms(2) ck]
  have new: "k \<in> set (ss_up y)" "k \<notin> handed_over y" using d(3) assms(3) by (simp_all add: call_fits_def)
  have h: "handed_over ?y = insert k (handed_over y)" by (auto simp: handed_over_def)
  show "calls_ok (set_spawn i (SpawnAnswers ErrQuitting) ?y)"
    by (rule calls_ok_set[OF v(2) assms(2)]) (use new d(1,2) h in auto)
  show "up_ok (set_spawn i (SpawnAnswers ErrQuitting) ?y)"
    by (rule up_ok_set[OF v(4) assms(2)]) (use v(4) assms(3) new h in \<open>auto simp: up_ok_def holds_kernel_def\<close>)
  show "kernels_ok (set_spawn i (SpawnAnswers ErrQuitting) ?y)" using v(3) new(2) by (auto simp: kernels_ok_def handed_over_def)
qed (use sv_invD[OF assms(1)] in \<open>auto simp: order_ok_def quit_ok_def\<close>)

lemma inv_destroyed:
  assumes "sv_inv y" and "sv_Destroy k (ss_sup y) = (taken, s)"
  shows "sv_inv (y\<lparr>ss_sup := s, ss_stopping := (if taken then insert k (ss_stopping y) else ss_stopping y)\<rparr>)"
proof (cases "k \<in> live y")
  case False
  then have "taken = False" "s = ss_sup y" using assms(2) by (auto simp: sv_Destroy_def split: if_splits)
  then show ?thesis using assms(1) by simp
next
  case True
  note v = sv_invD[OF assms(1)]
  let ?y = "y\<lparr>ss_sup := s, ss_stopping := insert k (ss_stopping y)\<rparr>"
  have e: "taken" "s = (ss_sup y)\<lparr>sv_kernels := (sv_kernels (ss_sup y))(k := None), sv_spawnOrder := filter (\<lambda>other. other \<noteq> k) (sv_spawnOrder (ss_sup y))\<rparr>"
    using assms(2) True by (auto simp: sv_Destroy_def dom_def split: if_splits)
  have h: "handed_over ?y = handed_over y" using True by (auto simp: handed_over_def e)
  have "calls_ok ?y" "up_ok ?y" using v(2,4) calls_ok_cong[OF _ _ _ h] up_ok_cong[OF _ _ _ h] by (simp_all add: e)
  moreover have "order_ok ?y" using v(1) by (auto simp: order_ok_def e)
  moreover have "kernels_ok ?y" using v(3) True by (auto simp: kernels_ok_def e)
  moreover have "quit_ok ?y" using v(5) by (auto simp: quit_ok_def e)
  ultimately show ?thesis using e(1) by (simp add: sv_inv_def)
qed

lemma inv_went:
  assumes "sv_inv y" and "k \<in> ss_stopping y"
  shows "sv_inv (y\<lparr>ss_stopping := ss_stopping y - {k}, ss_gone := ss_gone y @ [k]\<rparr>)"
proof -
  let ?y = "y\<lparr>ss_stopping := ss_stopping y - {k}, ss_gone := ss_gone y @ [k]\<rparr>"
  note v = sv_invD[OF assms(1)]
  have h: "handed_over ?y = handed_over y" using assms(2) by (auto simp: handed_over_def)
  have "calls_ok ?y" "up_ok ?y" using v(2,4) calls_ok_cong[OF _ _ _ h] up_ok_cong[OF _ _ _ h] by simp_all
  moreover have "order_ok ?y" "kernels_ok ?y" using v(1,3) assms(2) by (auto simp: order_ok_def kernels_ok_def)
  moreover have "quit_ok ?y" using v(5) by (auto simp: quit_ok_def)
  ultimately show ?thesis by (simp add: sv_inv_def)
qed

lemma inv_quits:
  assumes "sv_inv y" and "sv_Quit (ss_sup y) = (taken, s)"
  shows "sv_inv (case taken of None \<Rightarrow> y | Some ks \<Rightarrow> y\<lparr>ss_sup := s, ss_quit := Some ks, ss_stopping := ss_stopping y \<union> ks\<rparr>)"
proof (cases "sv_quitting (ss_sup y)")
  case True
  then show ?thesis using assms by (auto simp: sv_Quit_def)
next
  case False
  note v = sv_invD[OF assms(1)]
  have e: "taken = Some (live y)" "s = (ss_sup y)\<lparr>sv_quitting := True, sv_kernels := (\<lambda>_. None), sv_spawnOrder := []\<rparr>"
    using assms(2) False by (auto simp: sv_Quit_def)
  let ?y = "y\<lparr>ss_sup := s, ss_quit := Some (live y), ss_stopping := ss_stopping y \<union> live y\<rparr>"
  have h: "handed_over ?y = handed_over y" by (auto simp: handed_over_def e)
  have "calls_ok ?y" "up_ok ?y" using v(2,4) calls_ok_cong[OF _ _ _ h] up_ok_cong[OF _ _ _ h] by (simp_all add: e)
  moreover have "order_ok ?y" "kernels_ok ?y" using v(1,3) by (auto simp: order_ok_def kernels_ok_def e)
  moreover have "quit_ok ?y" using v(5) False by (auto simp: quit_ok_def e)
  ultimately show ?thesis by (simp add: sv_inv_def e(1))
qed

lemma inv_broadcast:
  assumes "sv_inv y"
  shows "sv_inv (y\<lparr>ss_broadcasts := ss_broadcasts y @ [([], sv_spawnOrder (ss_sup y))]\<rparr>)"
proof -
  let ?y = "y\<lparr>ss_broadcasts := ss_broadcasts y @ [([], sv_spawnOrder (ss_sup y))]\<rparr>"
  note v = sv_invD[OF assms]
  have h: "handed_over ?y = handed_over y" by (simp add: handed_over_def)
  have "calls_ok ?y" "up_ok ?y" using v(2,4) calls_ok_cong[OF _ _ _ h] up_ok_cong[OF _ _ _ h] by simp_all
  then show ?thesis using v(1,3,5) by (simp add: sv_inv_def order_ok_def kernels_ok_def quit_ok_def)
qed

lemma inv_publish:
  assumes "sv_inv y" and "i < length (ss_broadcasts y)" and "ss_broadcasts y ! i = (published, k # left)"
  shows "sv_inv (y\<lparr>ss_broadcasts := (ss_broadcasts y)[i := (published @ [k], left)]\<rparr>)"
proof -
  let ?y = "y\<lparr>ss_broadcasts := (ss_broadcasts y)[i := (published @ [k], left)]\<rparr>"
  note v = sv_invD[OF assms(1)]
  have h: "handed_over ?y = handed_over y" by (simp add: handed_over_def)
  have "(published, k # left) \<in> set (ss_broadcasts y)" using assms(2,3) nth_mem by metis
  then have "case (published, k # left) of (p, l) \<Rightarrow> distinct (p @ l)" using v(1) unfolding order_ok_def by blast
  then have "distinct ((published @ [k]) @ left)" by simp
  then have "order_ok ?y" using v(1) set_update_subset_insert[of "ss_broadcasts y" i] by (fastforce simp: order_ok_def)
  moreover have "calls_ok ?y" "up_ok ?y" using v(2,4) calls_ok_cong[OF _ _ _ h] up_ok_cong[OF _ _ _ h] by simp_all
  ultimately show ?thesis using v(3,5) by (simp add: sv_inv_def kernels_ok_def quit_ok_def)
qed

text \<open>The rest of the steps touch none of this.\<close>

lemma inv_other:
  assumes "sv_inv y" and "sv_kernels (ss_sup y') = sv_kernels (ss_sup y)" and "sv_spawnOrder (ss_sup y') = sv_spawnOrder (ss_sup y)"
    and "sv_lastID (ss_sup y') = sv_lastID (ss_sup y)" and "sv_quitting (ss_sup y') = sv_quitting (ss_sup y)"
    and "sv_done (ss_sup y') \<Longrightarrow> sv_done (ss_sup y) \<or> (\<exists>ks. ss_quit y = Some ks \<and> ks \<subseteq> set (ss_gone y))"
    and "ss_spawns y' = ss_spawns y" and "ss_stopping y' = ss_stopping y" and "ss_gone y' = ss_gone y" and "ss_quit y' = ss_quit y"
    and "ss_broadcasts y' = ss_broadcasts y" and "ss_up y' = ss_up y"
  shows "sv_inv y'"
proof -
  note v = sv_invD[OF assms(1)]
  have h: "handed_over y' = handed_over y" using assms(2,8,9) by (simp add: handed_over_def)
  have "calls_ok y'" "up_ok y'" using v(2,4) calls_ok_cong[OF assms(7,4,12) h] up_ok_cong[OF assms(7,4,12) h] by simp_all
  moreover have "order_ok y'" "kernels_ok y'" using v(1,3) assms(2,3,8,9,11) by (simp_all add: order_ok_def kernels_ok_def)
  moreover have "quit_ok y'" using v(5) assms(2,5,6,8-10) unfolding quit_ok_def by auto
  ultimately show ?thesis by (simp add: sv_inv_def)
qed

lemma sv_step_inv: "sv_step y y' \<Longrightarrow> sv_inv y \<Longrightarrow> sv_inv y'"
proof (induction rule: sv_step.induct)
  case sv_called then show ?case by (rule inv_called)
next
  case sv_taken then show ?case using inv_taken by blast
next
  case sv_inited then show ?case using inv_inited by blast
next
  case sv_added then show ?case using inv_added by blast
next
  case sv_refused then show ?case using inv_refused by blast
next
  case sv_destroyed then show ?case using inv_destroyed by blast
next
  case sv_went then show ?case using inv_went by blast
next
  case sv_quits then show ?case using inv_quits by blast
next
  case sv_broadcast then show ?case by (rule inv_broadcast)
next
  case sv_publish then show ?case using inv_publish by blast
next
  case (sv_ticks y pc s)
  then show ?case by (elim inv_other) (auto simp: tick_drain_def split: prod.splits)
qed (auto elim!: inv_other simp: push_pinned_def wake_main_def)

lemma sv_step_pinned: "sv_step y y' \<Longrightarrow> pinned_ok y \<Longrightarrow> pinned_ok y'"
proof (induction rule: sv_step.induct)
  case (sv_pushed y j)
  then have w: "q_wf (sv_pinned (ss_sup y))" "\<not> q_closed (sv_pinned (ss_sup y))" by (simp_all add: pinned_ok_def)
  show ?case using sv_pushed fifo.push_wf[OF w(1)] fifo.push_items[OF w(1)] fifo.push_closed[OF w(1)] w(2)
    by (auto simp: pinned_ok_def push_pinned_def)
next
  case (sv_ticks y pc s)
  then have w: "q_wf (sv_pinned (ss_sup y))" "\<not> q_closed (sv_pinned (ss_sup y))" by (simp_all add: pinned_ok_def)
  obtain q where q: "q_drain (0, 0) (sv_pinned (ss_sup y)) [] = (q_items (sv_pinned (ss_sup y)), q)" "q_wf q" "q_items q = []" "\<not> q_closed q"
    using fifo.drain_answer[OF w(1)] fifo.drain_wf[OF w(1)] fifo.drain_items[OF w(1)] fifo.drain_closed[OF w(1)] w(2)
    by (metis append_Nil prod.collapse)
  then show ?case using sv_ticks by (auto simp: pinned_ok_def tick_drain_def split: if_splits)
next
  case (sv_quits y taken s)
  then show ?case by (auto simp: pinned_ok_def sv_Quit_def split: option.splits if_splits)
qed (auto simp: pinned_ok_def spawn_take_def spawn_add_def sv_Destroy_def wake_main_def split: main_pc.splits if_splits)

lemma sv_reach_inv: "sv_reach y \<Longrightarrow> sv_inv y \<and> pinned_ok y"
proof (induction rule: sv_reach.induct)
  case sv_new
  then show ?case
    by (simp add: sv_inv_def order_ok_def calls_ok_def kernels_ok_def up_ok_def quit_ok_def pinned_ok_def handed_over_def new_system_def
        NewSupervisor_def) (simp add: empty_queue_def)
next
  case (sv_next y y')
  then show ?case using sv_step_inv sv_step_pinned by blast
qed

text \<open>
  C32: No kernel is lost and none is destroyed twice, however spawns, destroys and the quit interleave.  A kernel that has come
  up is in exactly one place: live, held by the one \<open>Spawn\<close> that brought it up, being taken down, or gone.  No two
  spawns answer the same kernel; the spawn order is the live kernels, each once, so a broadcast publishes in none
  twice.  Once the supervisor quits no kernel is live or becomes live, \<open>Done\<close> is closed only when every kernel that
  was live is gone, and it can be closed then.
\<close>

theorem supervisor_owns:
  assumes "sv_reach y"
  shows "distinct (ss_gone y) \<and> live y \<inter> ss_stopping y = {} \<and> live y \<inter> set (ss_gone y) = {} \<and> ss_stopping y \<inter> set (ss_gone y) = {}
    \<and> set (ss_up y) = live y \<union> ss_stopping y \<union> set (ss_gone y) \<union> {k. \<exists>i < length (ss_spawns y). holds_kernel (spawn_at y i) k}
    \<and> (\<forall>i < length (ss_spawns y). \<forall>k. holds_kernel (spawn_at y i) k \<longrightarrow> k \<notin> live y \<union> ss_stopping y \<union> set (ss_gone y)
        \<and> (\<forall>j < length (ss_spawns y). holds_kernel (spawn_at y j) k \<longrightarrow> j = i))
    \<and> (\<forall>i < length (ss_spawns y). \<forall>j < length (ss_spawns y). \<forall>k.
        spawn_at y i = SpawnAnswers (Spawned k) \<and> spawn_at y j = SpawnAnswers (Spawned k) \<longrightarrow> i = j)
    \<and> set (sv_spawnOrder (ss_sup y)) = live y \<and> distinct (sv_spawnOrder (ss_sup y))
    \<and> (\<forall>(published, left) \<in> set (ss_broadcasts y). distinct (published @ left))
    \<and> (sv_quitting (ss_sup y) \<longrightarrow> live y = {} \<and> (\<exists>ks. ss_quit y = Some ks \<and> ks \<subseteq> ss_stopping y \<union> set (ss_gone y)
        \<and> (sv_done (ss_sup y) \<longrightarrow> ks \<subseteq> set (ss_gone y))
        \<and> (ks \<subseteq> set (ss_gone y) \<and> \<not> sv_done (ss_sup y) \<longrightarrow> (\<exists>y'. sv_step y y' \<and> sv_done (ss_sup y')))))"
proof -
  note v = sv_invD[OF conjunct1[OF sv_reach_inv[OF assms]]]
  have fits: "k \<in> set (ss_up y) \<and> k \<notin> handed_over y" and one: "\<And>j. j < length (ss_spawns y) \<Longrightarrow> holds_kernel (spawn_at y j) k \<Longrightarrow> j = i"
    if i: "i < length (ss_spawns y)" and hk: "holds_kernel (spawn_at y i) k" for i k
  proof -
    have ck: "call_kernel (spawn_at y i) = Some k" using hk by (auto simp: holds_kernel_def)
    note d = calls_okD[OF v(2) i ck]
    show "k \<in> set (ss_up y) \<and> k \<notin> handed_over y" using d(3) hk by (auto simp: holds_kernel_def call_fits_def)
    show "j = i" if "j < length (ss_spawns y)" "holds_kernel (spawn_at y j) k" for j
      using d(2)[OF that(1)] that(2) by (auto simp: holds_kernel_def)
  qed
  have ups: "set (ss_up y) = handed_over y \<union> {k. \<exists>i < length (ss_spawns y). holds_kernel (spawn_at y i) k}"
    using v(4) fits unfolding up_ok_def by blast
  have ans: "i = j" if "i < length (ss_spawns y)" "j < length (ss_spawns y)"
    "spawn_at y i = SpawnAnswers (Spawned k)" "spawn_at y j = SpawnAnswers (Spawned k)" for i j k
    using calls_okD(2)[OF v(2) that(2) _ that(1)] that(3,4) by simp
  have quit: "live y = {} \<and> (\<exists>ks. ss_quit y = Some ks \<and> ks \<subseteq> ss_stopping y \<union> set (ss_gone y)
        \<and> (sv_done (ss_sup y) \<longrightarrow> ks \<subseteq> set (ss_gone y))
        \<and> (ks \<subseteq> set (ss_gone y) \<and> \<not> sv_done (ss_sup y) \<longrightarrow> (\<exists>y'. sv_step y y' \<and> sv_done (ss_sup y'))))" if q: "sv_quitting (ss_sup y)"
  proof -
    obtain ks where ks: "ss_quit y = Some ks" using v(5) q by (auto simp: quit_ok_def)
    have "\<exists>y'. sv_step y y' \<and> sv_done (ss_sup y')" if "ks \<subseteq> set (ss_gone y)" "\<not> sv_done (ss_sup y)"
      by (rule exI, rule conjI, rule sv_closes[OF ks that]) simp
    moreover have "ks \<subseteq> ss_stopping y \<union> set (ss_gone y)" "sv_done (ss_sup y) \<longrightarrow> ks \<subseteq> set (ss_gone y)" "live y = {}"
      using v(5) ks q by (simp_all add: quit_ok_def)
    ultimately show ?thesis using ks by blast
  qed
  have c: "live y \<inter> ss_stopping y = {}" "live y \<inter> set (ss_gone y) = {}" "ss_stopping y \<inter> set (ss_gone y) = {}" "distinct (ss_gone y)"
    using v(3) by (simp_all add: kernels_ok_def)
  have answers: "\<forall>i < length (ss_spawns y). \<forall>j < length (ss_spawns y). \<forall>k.
      spawn_at y i = SpawnAnswers (Spawned k) \<and> spawn_at y j = SpawnAnswers (Spawned k) \<longrightarrow> i = j" using ans by blast
  have held: "\<forall>i < length (ss_spawns y). \<forall>k. holds_kernel (spawn_at y i) k \<longrightarrow> k \<notin> live y \<union> ss_stopping y \<union> set (ss_gone y)
      \<and> (\<forall>j < length (ss_spawns y). holds_kernel (spawn_at y j) k \<longrightarrow> j = i)"
    using fits one unfolding handed_over_def by blast
  note o = v(1)[unfolded order_ok_def]
  show ?thesis
    by (rule conjI[OF c(4)] conjI[OF c(1)] conjI[OF c(2)] conjI[OF c(3)] conjI[OF ups[unfolded handed_over_def]] conjI[OF held]
        conjI[OF answers] conjI[OF conjunct1[OF o]] conjI[OF conjunct1[OF conjunct2[OF o]]] conjI[OF conjunct2[OF conjunct2[OF o]]]
        impI quit | assumption)+
qed

lemma empty_kernel: "kernel_init [] = ([EResolve, ESort, EMakeLocks, ERunners], None)"
  by code_simp

text \<open>A kernel of no plugins spawned and destroyed by the quit, for the examples.\<close>

lemma quit_run:
  assumes "y = new_system\<lparr>ss_sup := NewSupervisor\<lparr>sv_lastID := 1, sv_quitting := True, sv_done := True\<rparr>,
    ss_spawns := [([], SpawnAnswers (Spawned 1))], ss_gone := [1], ss_quit := Some {1}, ss_up := [1]\<rparr>"
  shows "sv_reach y"
proof -
  have "sv_reach (new_system\<lparr>ss_spawns := [([], SpawnCalled)]\<rparr>)"
    using sv_next[OF sv_new sv_called[where plugins = "[]" and n = 1]] by (simp add: new_system_def spawn_call_def NewSupervisor_def)
  from sv_next[OF this sv_taken[where i = 0 and k = 1]]
  have "sv_reach (new_system\<lparr>ss_sup := NewSupervisor\<lparr>sv_lastID := 1\<rparr>, ss_spawns := [([], SpawnTaken 1)]\<rparr>)"
    by (simp add: spawn_take_def set_spawn_def new_system_def NewSupervisor_def)
  from sv_next[OF this sv_inited[where i = 0 and k = 1, OF _ _ refl]]
  have "sv_reach (new_system\<lparr>ss_sup := NewSupervisor\<lparr>sv_lastID := 1\<rparr>, ss_spawns := [([], SpawnUp 1)], ss_up := [1]\<rparr>)"
    by (simp add: spawn_init_def empty_kernel set_spawn_def new_system_def)
  from sv_next[OF this sv_added[where i = 0 and k = 1]]
  have "sv_reach (new_system\<lparr>ss_sup := NewSupervisor\<lparr>sv_lastID := 1, sv_kernels := [1 \<mapsto> []], sv_spawnOrder := [1]\<rparr>,
      ss_spawns := [([], SpawnAnswers (Spawned 1))], ss_up := [1]\<rparr>)"
    by (simp add: spawn_add_def set_spawn_def new_system_def NewSupervisor_def)
  from sv_next[OF this sv_quits]
  have "sv_reach (new_system\<lparr>ss_sup := NewSupervisor\<lparr>sv_lastID := 1, sv_quitting := True\<rparr>,
      ss_spawns := [([], SpawnAnswers (Spawned 1))], ss_stopping := {1}, ss_quit := Some {1}, ss_up := [1]\<rparr>)"
    by (simp add: sv_Quit_def new_system_def NewSupervisor_def)
  from sv_next[OF this sv_went[where k = 1]]
  have "sv_reach (new_system\<lparr>ss_sup := NewSupervisor\<lparr>sv_lastID := 1, sv_quitting := True\<rparr>,
      ss_spawns := [([], SpawnAnswers (Spawned 1))], ss_gone := [1], ss_quit := Some {1}, ss_up := [1]\<rparr>)"
    by (simp add: new_system_def)
  from sv_next[OF this sv_closes[where ks = "{1}"]] show ?thesis by (simp add: assms new_system_def NewSupervisor_def)
qed

theorem supervisor_owns_witness:
  "\<exists>y. sv_reach y \<and> sv_done (ss_sup y) \<and> ss_gone y = [1] \<and> live y = {} \<and> (\<exists>ks. ss_quit y = Some ks \<and> ks \<subseteq> {1})"
proof -
  obtain y where y: "y = new_system\<lparr>ss_sup := NewSupervisor\<lparr>sv_lastID := 1, sv_quitting := True, sv_done := True\<rparr>,
    ss_spawns := [([], SpawnAnswers (Spawned 1))], ss_gone := [1], ss_quit := Some {1}, ss_up := [1]\<rparr>" by blast
  have q: "sv_quitting (ss_sup y)" "sv_done (ss_sup y)" "ss_gone y = [1]" by (simp_all add: y)
  have "live y = {} \<and> (\<exists>ks. ss_quit y = Some ks \<and> ks \<subseteq> {1})" using supervisor_owns[OF quit_run[OF y]] q by auto
  then show ?thesis using quit_run[OF y] q by blast
qed

text \<open>
  C33: Pinned jobs run on the main thread in the order they were handed over, each at most once: what was handed over is what has
  run, what the batch under way has left and what the queue holds, in that order.  No wake is lost: with a job not run the main thread is
  running a batch, is about to take one, or has a wake to take, with two exceptions.  While a push stands between its
  operation on the queue and its wake, the wake is still to come.  Once \<open>Done\<close> is closed and the main loop has
  ended, jobs handed over and not run stay so.
\<close>

theorem pinned_jobs_run:
  assumes "sv_reach y"
  shows "ss_pushed y = ss_ran y @ (case ss_main y of MainRuns js \<Rightarrow> js | _ \<Rightarrow> []) @ q_items (sv_pinned (ss_sup y))
    \<and> (ss_pushing y = 0 \<and> ss_pushed y \<noteq> ss_ran y \<longrightarrow>
        sv_mainWake (ss_sup y) \<or> ss_main y = MainTicks \<or> (\<exists>js. ss_main y = MainRuns js) \<or> ss_main y = MainEnds \<and> sv_done (ss_sup y))"
  using conjunct2[OF sv_reach_inv[OF assms]] unfolding pinned_ok_def by (cases "ss_main y") auto

theorem pinned_jobs_run_witness:
  "\<exists>y. sv_reach y \<and> ss_pushed y = [(1, 5)] \<and> ss_ran y = [] \<and> ss_main y = MainLoops \<and> sv_mainWake (ss_sup y)"
proof -
  let ?y = "new_system\<lparr>ss_sup := push_pinned (1, 5) NewSupervisor, ss_pushing := 1, ss_pushed := [(1, 5)]\<rparr>"
  have "sv_reach ?y" using sv_next[OF sv_new sv_pushed[where j = "(1, 5)"]] by (simp add: new_system_def)
  from sv_next[OF this sv_woke]
  have r: "sv_reach (?y\<lparr>ss_sup := wake_main (push_pinned (1, 5) NewSupervisor), ss_pushing := 0\<rparr>)" by (simp add: new_system_def)
  obtain y where y: "y = ?y\<lparr>ss_sup := wake_main (push_pinned (1, 5) NewSupervisor), ss_pushing := 0\<rparr>" by blast
  have f: "ss_pushed y = [(1, 5)]" "ss_ran y = []" "ss_main y = MainLoops" "ss_pushing y = 0" by (simp_all add: y new_system_def)
  have "sv_reach y" using r y by simp
  moreover have "sv_mainWake (ss_sup y)" using pinned_jobs_run[OF \<open>sv_reach y\<close>] f by simp
  ultimately show ?thesis using f by blast
qed

end
