(* ===== verification/Kernel_Jobs.thy ===== *)
theory Kernel_Jobs
  imports Cog_Pool
begin

text \<open>
  \<open>kernel/job.go\<close>: the job graph.  Jobs, successor edges and signal edges live in the modelled
  pools; a job's two lists are packed list words, a generation and a head index, and their edges
  are linked through the pool by index, as in the source.  Each compare-and-swap, swap and count
  is made on the state as it is, so a call is one step; what the graph hands on is kept in the
  order it is handed: jobs to the lock combiner, finishes to Signals.  Args and results are of one
  type, and \<open>g_args\<close> is every task's arg pool, by the task's index.
  The waiting count is an integer: 32 bits would wrap only past \<open>2 ^ 31\<close> dependencies of one job.
\<close>

section \<open>List words\<close>

definition closedList :: u32 where
  "closedList = NOT 0"

definition packList :: "u32 \<Rightarrow> u32 \<Rightarrow> u64" where
  "packList generation head = push_bit 32 (ucast generation) OR ucast head"

definition unpackList :: "u64 \<Rightarrow> u32 \<times> u32" where
  "unpackList w = (ucast (drop_bit 32 w), ucast w)"

lemma unpack_pack [simp]: "unpackList (packList g h) = (g, h)"
  unfolding packList_def unpackList_def by (simp only: high_half low_half)

section \<open>The graph\<close>

record job_handle =
  jh_slot :: u32
  jh_generation :: u32

definition no_handle :: job_handle where
  "no_handle = \<lparr>jh_slot = 0, jh_generation = 0\<rparr>"

record job =
  jb_successors :: u64
  jb_signals :: u64
  jb_waiting :: int
  jb_task :: u32
  jb_arg :: u32

record succ_edge =
  se_next :: u32
  se_successor :: u32
  se_feeds :: bool

record sig_edge =
  ge_next :: u32
  ge_signal :: "nat option"

definition zero_job :: job where
  "zero_job = \<lparr>jb_successors = 0, jb_signals = 0, jb_waiting = 0, jb_task = 0, jb_arg = 0\<rparr>"

definition zero_succ :: succ_edge where
  "zero_succ = \<lparr>se_next = 0, se_successor = 0, se_feeds = False\<rparr>"

definition zero_sig :: sig_edge where
  "zero_sig = \<lparr>ge_next = 0, ge_signal = None\<rparr>"

record 'r job_graph =
  g_jobs :: "job pool"
  g_succ :: "succ_edge pool"
  g_sigs :: "sig_edge pool"
  g_args :: "u32 \<Rightarrow> 'r pool"
  g_arrived :: "(u32 \<times> u32) list"
  g_sent :: "nat list"

definition new_graph :: "'r job_graph" where
  "new_graph = \<lparr>g_jobs = empty_pool, g_succ = empty_pool, g_sigs = empty_pool,
     g_args = (\<lambda>_. empty_pool), g_arrived = [], g_sent = []\<rparr>"

definition job_at :: "'r job_graph \<Rightarrow> u32 \<Rightarrow> job" where
  "job_at g s = (case p_at (g_jobs g) s of Some j \<Rightarrow> j | None \<Rightarrow> zero_job)"

definition succ_at :: "'r job_graph \<Rightarrow> u32 \<Rightarrow> succ_edge" where
  "succ_at g e = (case p_at (g_succ g) e of Some x \<Rightarrow> x | None \<Rightarrow> zero_succ)"

definition sig_at :: "'r job_graph \<Rightarrow> u32 \<Rightarrow> sig_edge" where
  "sig_at g e = (case p_at (g_sigs g) e of Some x \<Rightarrow> x | None \<Rightarrow> zero_sig)"

definition upd_job :: "u32 \<Rightarrow> (job \<Rightarrow> job) \<Rightarrow> 'r job_graph \<Rightarrow> 'r job_graph" where
  "upd_job s f g = g\<lparr>g_jobs := p_put (g_jobs g) s (f (job_at g s))\<rparr>"

definition arrive_job :: "u32 \<Rightarrow> 'r job_graph \<Rightarrow> 'r job_graph" where
  "arrive_job s g = g\<lparr>g_arrived := g_arrived g @ [(s, jb_task (job_at g s))]\<rparr>"

text \<open>\<open>link\<close>: the list word after the push and the edge the new one goes before, or refused.\<close>

definition link :: "u64 \<Rightarrow> u32 \<Rightarrow> u32 \<Rightarrow> (u64 \<times> u32) option" where
  "link w generation edge =
     (case unpackList w of (current, head) \<Rightarrow>
        if current \<noteq> generation \<or> head = closedList then None else Some (packList generation edge, head))"

definition addSuccessor :: "job_handle \<Rightarrow> u32 \<Rightarrow> bool \<Rightarrow> 'r job_graph \<Rightarrow> bool \<times> 'r job_graph" where
  "addSuccessor p successor feedsResult g =
     (if jh_slot p = p_none then (False, g)
      else let g1 = upd_job successor (\<lambda>j. j\<lparr>jb_waiting := jb_waiting j + 1\<rparr>) g;
               (edge, pool) = p_acquire zero_succ (g_succ g1);
               g2 = g1\<lparr>g_succ := p_put pool edge \<lparr>se_next = 0, se_successor = successor, se_feeds = feedsResult\<rparr>\<rparr>
           in case link (jb_successors (job_at g2 (jh_slot p))) (jh_generation p) edge of
                Some (w, nxt) \<Rightarrow>
                  (True, upd_job (jh_slot p) (\<lambda>j. j\<lparr>jb_successors := w\<rparr>)
                     (g2\<lparr>g_succ := p_put (g_succ g2) edge ((succ_at g2 edge)\<lparr>se_next := nxt\<rparr>)\<rparr>))
              | None \<Rightarrow>
                  (False, upd_job successor (\<lambda>j. j\<lparr>jb_waiting := jb_waiting j - 1\<rparr>)
                     (g2\<lparr>g_succ := p_release (g_succ g2) edge\<rparr>)))"

definition acquireJob :: "u32 \<Rightarrow> u32 \<Rightarrow> job_handle \<Rightarrow> job_handle list \<Rightarrow> 'r job_graph \<Rightarrow> job_handle \<times> 'r job_graph" where
  "acquireJob task arg frm deps g =
     (let (slot, pool) = p_acquire zero_job (g_jobs g);
          g1 = g\<lparr>g_jobs := pool\<rparr>;
          generation = fst (unpackList (jb_successors (job_at g1 slot)));
          g2 = upd_job slot (\<lambda>j. j\<lparr>jb_task := task, jb_arg := arg,
                 jb_successors := packList generation p_none, jb_signals := packList generation p_none,
                 jb_waiting := 1\<rparr>) g1;
          g3 = fold (\<lambda>dep g. snd (addSuccessor dep slot False g)) deps g2;
          g4 = snd (addSuccessor frm slot True g3)
      in (\<lparr>jh_slot = slot, jh_generation = generation\<rparr>, g4))"

definition lower :: "u32 \<Rightarrow> 'r job_graph \<Rightarrow> 'r job_graph" where
  "lower s g =
     (let g1 = upd_job s (\<lambda>j. j\<lparr>jb_waiting := jb_waiting j - 1\<rparr>) g
      in if jb_waiting (job_at g1 s) = 0 then arrive_job s g1 else g1)"

definition submit :: "u32 list \<Rightarrow> 'r job_graph \<Rightarrow> 'r job_graph" where
  "submit batch g = fold lower batch g"

text \<open>The two loops of \<open>finishJob\<close>, from a head; a list that does not end is no result.\<close>

definition send_edge :: "u32 \<Rightarrow> 'r job_graph \<Rightarrow> 'r job_graph" where
  "send_edge e g =
     (let x = sig_at g e;
          g1 = g\<lparr>g_sent := g_sent g @ (case ge_signal x of Some s \<Rightarrow> [s] | None \<Rightarrow> [])\<rparr>
      in g1\<lparr>g_sigs := p_release (p_put (g_sigs g1) e (x\<lparr>ge_signal := None\<rparr>)) e\<rparr>)"

partial_function (option) send_signals :: "u32 \<Rightarrow> 'r job_graph \<Rightarrow> 'r job_graph option" where
  "send_signals e g =
     (if e = p_none then Some g else send_signals (ge_next (sig_at g e)) (send_edge e g))"

definition receiveArg :: "u32 \<Rightarrow> u32 \<Rightarrow> 'r \<Rightarrow> 'r job_graph \<Rightarrow> 'r job_graph" where
  "receiveArg task index arg g = g\<lparr>g_args := (g_args g)(task := p_put (g_args g task) index arg)\<rparr>"

definition settle_edge :: "'r \<Rightarrow> u32 \<Rightarrow> 'r job_graph \<Rightarrow> 'r job_graph" where
  "settle_edge result e g =
     (let x = succ_at g e; j = job_at g (se_successor x);
          g1 = (if se_feeds x then receiveArg (jb_task j) (jb_arg j) result g else g);
          g2 = lower (se_successor x) g1
      in g2\<lparr>g_succ := p_release (g_succ g2) e\<rparr>)"

partial_function (option) settle_successors :: "'r \<Rightarrow> u32 \<Rightarrow> 'r job_graph \<Rightarrow> 'r job_graph option" where
  "settle_successors result e g =
     (if e = p_none then Some g
      else settle_successors result (se_next (succ_at g e)) (settle_edge result e g))"

definition finishJob :: "u32 \<Rightarrow> 'r \<Rightarrow> 'r job_graph \<Rightarrow> 'r job_graph option" where
  "finishJob slot result g =
     (let generation = fst (unpackList (jb_successors (job_at g slot)));
          successors = snd (unpackList (jb_successors (job_at g slot)));
          signals = snd (unpackList (jb_signals (job_at g slot)));
          g1 = upd_job slot (\<lambda>j. j\<lparr>jb_successors := packList generation closedList,
                                   jb_signals := packList generation closedList\<rparr>) g
      in Option.bind (send_signals signals g1) (\<lambda>g2.
         Option.bind (settle_successors result successors g2) (\<lambda>g3.
           let g4 = upd_job slot (\<lambda>j. j\<lparr>jb_successors := packList (generation + 1) closedList,
                                        jb_signals := packList (generation + 1) closedList\<rparr>) g3
           in Some (g4\<lparr>g_jobs := p_release (g_jobs g4) slot\<rparr>))))"

definition armSignal :: "job_handle \<Rightarrow> nat \<Rightarrow> 'r job_graph \<Rightarrow> bool \<times> 'r job_graph" where
  "armSignal h sig g =
     (if jh_slot h = p_none then (False, g)
      else let (edge, pool) = p_acquire zero_sig (g_sigs g);
               g1 = g\<lparr>g_sigs := p_put pool edge \<lparr>ge_next = 0, ge_signal = Some sig\<rparr>\<rparr>
           in case link (jb_signals (job_at g1 (jh_slot h))) (jh_generation h) edge of
                Some (w, nxt) \<Rightarrow>
                  (True, upd_job (jh_slot h) (\<lambda>j. j\<lparr>jb_signals := w\<rparr>)
                     (g1\<lparr>g_sigs := p_put (g_sigs g1) edge ((sig_at g1 edge)\<lparr>ge_next := nxt\<rparr>)\<rparr>))
              | None \<Rightarrow>
                  (False, g1\<lparr>g_sigs := p_release (p_put (g_sigs g1) edge ((sig_at g1 edge)\<lparr>ge_signal := None\<rparr>)) edge\<rparr>))"

text \<open>\<open>Kernel.Notify\<close>: armed, or signalled at once.\<close>

definition Notify :: "nat \<Rightarrow> job_handle \<Rightarrow> 'r job_graph \<Rightarrow> 'r job_graph" where
  "Notify sig h g = (case armSignal h sig g of (armed, g') \<Rightarrow> if armed then g' else g'\<lparr>g_sent := g_sent g' @ [sig]\<rparr>)"

definition graph_task :: "'r job_graph \<Rightarrow> u32 \<Rightarrow> u32" where
  "graph_task g slot = jb_task (job_at g slot)"

definition graph_arg :: "'r job_graph \<Rightarrow> u32 \<Rightarrow> u32" where
  "graph_arg g slot = jb_arg (job_at g slot)"

definition graph_handle :: "'r job_graph \<Rightarrow> u32 \<Rightarrow> job_handle" where
  "graph_handle g slot =
     \<lparr>jh_slot = slot, jh_generation = fst (unpackList (jb_successors (job_at g slot)))\<rparr>"

section \<open>The Executor and the tasks\<close>

text \<open>
  \<open>kernel/executor.go\<close> over the graph: the batch is the slots scheduled so far.  A task is named
  by its index, or is nil or another kernel's (\<open>None\<close>), which is logged and answers the zero Job.
\<close>

record 'r executor =
  ex_graph :: "'r job_graph"
  ex_batch :: "u32 list"
  ex_logged :: nat

definition ex_add :: "u32 \<Rightarrow> u32 \<Rightarrow> job_handle \<Rightarrow> job_handle list \<Rightarrow> 'r executor \<Rightarrow> job_handle \<times> 'r executor" where
  "ex_add task arg frm deps ex =
     (let (handle, g) = acquireJob task arg frm deps (ex_graph ex)
      in (handle, ex\<lparr>ex_graph := g, ex_batch := ex_batch ex @ [jh_slot handle]\<rparr>))"

definition store_arg :: "'r \<Rightarrow> u32 \<Rightarrow> 'r \<Rightarrow> 'r job_graph \<Rightarrow> u32 \<times> 'r job_graph" where
  "store_arg z task arg g =
     (let (index, pool) = p_acquire z (g_args g task)
      in (index, g\<lparr>g_args := (g_args g)(task := p_put pool index arg)\<rparr>))"

definition Schedule :: "'r \<Rightarrow> u32 option \<Rightarrow> 'r \<Rightarrow> job_handle list \<Rightarrow> 'r executor \<Rightarrow> job_handle \<times> 'r executor" where
  "Schedule z task arg deps ex =
     (case task of
        None \<Rightarrow> (no_handle, ex\<lparr>ex_logged := ex_logged ex + 1\<rparr>)
      | Some t \<Rightarrow> (let (index, g) = store_arg z t arg (ex_graph ex)
                  in ex_add t index no_handle deps (ex\<lparr>ex_graph := g\<rparr>)))"

definition ScheduleAfter :: "'r \<Rightarrow> u32 option \<Rightarrow> job_handle \<Rightarrow> job_handle list \<Rightarrow> 'r executor \<Rightarrow> job_handle \<times> 'r executor" where
  "ScheduleAfter z task frm deps ex =
     (case task of
        None \<Rightarrow> (no_handle, ex\<lparr>ex_logged := ex_logged ex + 1\<rparr>)
      | Some t \<Rightarrow> (let (index, g) = store_arg z t z (ex_graph ex)
                  in ex_add t index frm deps (ex\<lparr>ex_graph := g\<rparr>)))"

definition Join :: "job_handle list \<Rightarrow> 'r executor \<Rightarrow> job_handle \<times> 'r executor" where
  "Join deps ex = ex_add 0 0 no_handle deps ex"

definition ex_submit :: "'r executor \<Rightarrow> 'r executor" where
  "ex_submit ex = ex\<lparr>ex_graph := submit (ex_batch ex) (ex_graph ex), ex_batch := []\<rparr>"

text \<open>
  \<open>kernel/task.go\<close>: a body that panics (\<open>None\<close>) answers the zero value.  \<open>runJob\<close> takes the arg
  out, runs the body and finishes the job; task 0 is the Join's, which runs nothing.
\<close>

definition runRecovering :: "'r \<Rightarrow> ('r \<Rightarrow> 'r option) \<Rightarrow> 'r \<Rightarrow> 'r" where
  "runRecovering z body arg = (case body arg of Some r \<Rightarrow> r | None \<Rightarrow> z)"

definition take_arg :: "'r \<Rightarrow> u32 \<Rightarrow> 'r job_graph \<Rightarrow> 'r \<times> 'r job_graph" where
  "take_arg z slot g =
     (let t = graph_task g slot; index = graph_arg g slot;
          arg = (case p_at (g_args g t) index of Some v \<Rightarrow> v | None \<Rightarrow> z)
      in (arg, g\<lparr>g_args := (g_args g)(t := p_release (g_args g t) index)\<rparr>))"

definition runJob :: "'r \<Rightarrow> (u32 \<Rightarrow> 'r \<Rightarrow> 'r option) \<Rightarrow> u32 \<Rightarrow> 'r job_graph \<Rightarrow> 'r job_graph option" where
  "runJob z body slot g =
     (if graph_task g slot = 0 then finishJob slot z g
      else let (arg, g1) = take_arg z slot g
           in finishJob slot (runRecovering z (body (graph_task g slot)) arg) g1)"

section \<open>Lists in a pool\<close>

text \<open>
  \<open>chain nxt h es\<close>: following \<open>nxt\<close> from \<open>h\<close> runs through \<open>es\<close> and ends at \<open>None\<close>.
  \<open>lists_inv\<close>: the edges out of the pool are those of the live jobs' lists, each in one list once;
  a job in \<open>C\<close> is being finished, and its list is what is left of it.  The pool stays under
  \<open>2 ^ 24\<close> chunks, so no edge index reaches \<open>closedList\<close>.
\<close>

fun chain :: "(u32 \<Rightarrow> u32) \<Rightarrow> u32 \<Rightarrow> u32 list \<Rightarrow> bool" where
  "chain nxt h [] \<longleftrightarrow> h = p_none"
| "chain nxt h (e # es) \<longleftrightarrow> h = e \<and> e \<noteq> p_none \<and> chain nxt (nxt e) es"

lemma chain_cong: "(\<And>e. e \<in> set es \<Longrightarrow> nxt e = nxt' e) \<Longrightarrow> chain nxt h es = chain nxt' h es"
  by (induction es arbitrary: h) auto

definition list_edges :: "u32 set \<Rightarrow> (u32 \<Rightarrow> u32 list) \<Rightarrow> u32 set" where
  "list_edges J ls = (\<Union>s \<in> J. set (ls s))"

definition lists_inv ::
  "'e pool \<Rightarrow> (u32 \<Rightarrow> u32) \<Rightarrow> u32 set \<Rightarrow> u32 set \<Rightarrow> (u32 \<Rightarrow> u32) \<Rightarrow> (u32 \<Rightarrow> u32 list) \<Rightarrow> bool" where
  "lists_inv p nxt J C head ls \<longleftrightarrow>
     pool_inv p (list_edges J ls) \<and> length (p_chunks p) < 2 ^ 24
     \<and> (\<forall>s \<in> J. distinct (ls s))
     \<and> (\<forall>s \<in> J. \<forall>t \<in> J. s \<noteq> t \<longrightarrow> set (ls s) \<inter> set (ls t) = {})
     \<and> (\<forall>s \<in> J - C. chain nxt (head s) (ls s))"

lemma not_closedList:
  assumes "pool_inv p held" and "length (p_chunks p) < 2 ^ 24" and "e \<in> held"
  shows "e \<noteq> closedList"
proof -
  have "unat e < 256 * length (p_chunks p)"
    using pool_inv_held(2)[OF assms(1,3)] by simp
  moreover have "unat closedList = 2 ^ 32 - 1"
    by (simp add: closedList_def unsigned_minus_1_eq_mask mask_eq_exp_minus_1)
  ultimately show ?thesis
    using assms(2) by auto
qed

lemma lists_inv_cong:
  assumes "lists_inv p nxt J C head ls"
    and "\<And>e. e \<in> list_edges J ls \<Longrightarrow> nxt' e = nxt e" and "\<And>s. s \<in> J - C \<Longrightarrow> head' s = head s"
  shows "lists_inv p nxt' J C head' ls"
proof -
  have "chain nxt' (head' s) (ls s)" if "s \<in> J - C" for s
    using that assms chain_cong[of "ls s" nxt' nxt "head s"]
    by (auto simp: lists_inv_def list_edges_def)
  then show ?thesis
    using assms(1) by (simp add: lists_inv_def)
qed

lemma lists_inv_push:
  assumes "lists_inv p nxt J C head ls" and "s \<in> J - C"
    and "pool_inv p' (insert e (list_edges J ls))" and "length (p_chunks p') < 2 ^ 24"
    and "e \<notin> list_edges J ls" and "nxt' e = head s" and "head' s = e"
    and "\<And>x. x \<in> list_edges J ls \<Longrightarrow> nxt' x = nxt x" and "\<And>t. t \<in> J - C \<Longrightarrow> t \<noteq> s \<Longrightarrow> head' t = head t"
  shows "lists_inv p' nxt' J C head' (ls(s := e # ls s))"
proof -
  have E: "list_edges J (ls(s := e # ls s)) = insert e (list_edges J ls)"
    using assms(2) by (auto simp: list_edges_def split: if_splits)
  have e0: "e \<noteq> p_none"
    using pool_inv_held(1)[OF assms(3)] by (simp add: p_none_def)
  have ch: "chain nxt' h (ls t) = chain nxt h (ls t)" if "t \<in> J" for t h
    by (rule chain_cong) (use that assms(8) in \<open>auto simp: list_edges_def\<close>)
  have "chain nxt' (head' t) ((ls(s := e # ls s)) t)" if "t \<in> J - C" for t
    using that assms(1,6,7,9) e0 ch by (auto simp: lists_inv_def)
  moreover have "e \<notin> set (ls t)" if "t \<in> J" for t
    using that assms(5) by (auto simp: list_edges_def)
  ultimately show ?thesis
    using assms(1,3,4) E by (auto simp: lists_inv_def)
qed

lemma lists_inv_pop:
  assumes "lists_inv p nxt J C head ls" and "s \<in> J" and "s \<in> C" and "ls s = e # es"
  shows "lists_inv (p_release p e) nxt J C head (ls(s := es))"
proof -
  have dist: "distinct (ls s)" and disj: "\<And>t. t \<in> J \<Longrightarrow> t \<noteq> s \<Longrightarrow> set (ls t) \<inter> set (ls s) = {}"
    using assms(1,2) by (auto simp: lists_inv_def)
  have "list_edges J (ls(s := es)) = list_edges J ls - {e}"
    using assms(2,4) dist disj by (fastforce simp: list_edges_def split: if_splits)
  moreover have "e \<in> list_edges J ls"
    using assms(2,4) by (auto simp: list_edges_def intro: bexI[of _ s])
  ultimately show ?thesis
    using assms p_release_inv[of p "list_edges J ls" e] disj
    by (fastforce simp: lists_inv_def)
qed

lemma lists_inv_remove:
  assumes "lists_inv p nxt J C head ls" and "ls s = []"
  shows "lists_inv p nxt (J - {s}) (C - {s}) head ls"
proof -
  have "list_edges (J - {s}) ls = list_edges J ls"
    using assms(2) by (auto simp: list_edges_def)
  then show ?thesis
    using assms by (auto simp: lists_inv_def)
qed

lemma lists_inv_add:
  assumes "lists_inv p nxt J C head ls" and "s \<notin> J" and "head' s = p_none"
    and "\<And>t. t \<in> J \<Longrightarrow> head' t = head t"
  shows "lists_inv p nxt (insert s J) C head' (ls(s := []))"
proof -
  have "list_edges (insert s J) (ls(s := [])) = list_edges J ls"
    using assms(2) by (auto simp: list_edges_def split: if_splits)
  then show ?thesis
    using assms by (auto simp: lists_inv_def)
qed

lemma lists_inv_close:
  "lists_inv p nxt J C head ls \<Longrightarrow> lists_inv p nxt J (insert s C) head ls"
  by (auto simp: lists_inv_def)

lemma lists_inv_distinct:
  "lists_inv p nxt J C head ls \<Longrightarrow> s \<in> J \<Longrightarrow> distinct (ls s)"
  by (simp add: lists_inv_def)

section \<open>The graph's invariant\<close>

definition succ_nxt :: "'r job_graph \<Rightarrow> u32 \<Rightarrow> u32" where
  "succ_nxt g e = se_next (succ_at g e)"

definition sig_nxt :: "'r job_graph \<Rightarrow> u32 \<Rightarrow> u32" where
  "sig_nxt g e = ge_next (sig_at g e)"

definition target :: "'r job_graph \<Rightarrow> u32 \<Rightarrow> u32" where
  "target g e = se_successor (succ_at g e)"

definition succ_head :: "'r job_graph \<Rightarrow> u32 \<Rightarrow> u32" where
  "succ_head g s = snd (unpackList (jb_successors (job_at g s)))"

definition sig_head :: "'r job_graph \<Rightarrow> u32 \<Rightarrow> u32" where
  "sig_head g s = snd (unpackList (jb_signals (job_at g s)))"

definition gen_of :: "'r job_graph \<Rightarrow> u32 \<Rightarrow> u32" where
  "gen_of g s = fst (unpackList (jb_successors (job_at g s)))"

definition sig_gen :: "'r job_graph \<Rightarrow> u32 \<Rightarrow> u32" where
  "sig_gen g s = fst (unpackList (jb_signals (job_at g s)))"

text \<open>
  Over the live jobs \<open>J\<close>, those of them being finished \<open>C\<close>, and those whose batch still holds
  them: the pools and lists are well formed, every edge leads from an older job to a younger live
  one, and a job's waiting count is its hold and the edges that lead to it.
\<close>

definition edges_into :: "'r job_graph \<Rightarrow> u32 set \<Rightarrow> u32 \<Rightarrow> u32 set" where
  "edges_into g E s = {e \<in> E. target g e = s}"

definition graph_inv ::
  "'r job_graph \<Rightarrow> u32 set \<Rightarrow> u32 set \<Rightarrow> u32 set \<Rightarrow> (u32 \<Rightarrow> nat) \<Rightarrow> (u32 \<Rightarrow> u32 list) \<Rightarrow> (u32 \<Rightarrow> u32 list) \<Rightarrow> bool"
  where
  "graph_inv g J C hold rank succs sigs \<longleftrightarrow>
     pool_inv (g_jobs g) J \<and> length (p_chunks (g_jobs g)) < 2 ^ 24
     \<and> lists_inv (g_succ g) (succ_nxt g) J C (succ_head g) succs
     \<and> lists_inv (g_sigs g) (sig_nxt g) J C (sig_head g) sigs
     \<and> (\<forall>s \<in> J. fst (unpackList (jb_signals (job_at g s))) = gen_of g s)
     \<and> hold \<subseteq> J - C \<and> C \<subseteq> J
     \<and> (\<forall>s \<in> J. \<forall>e \<in> set (succs s). target g e \<in> J - C \<and> rank s < rank (target g e))
     \<and> (\<forall>s \<in> J. jb_waiting (job_at g s) = of_bool (s \<in> hold) + int (card (edges_into g (list_edges J succs) s)))"

definition graph_ok :: "'r job_graph \<Rightarrow> u32 set \<Rightarrow> u32 set \<Rightarrow> bool" where
  "graph_ok g J hold \<longleftrightarrow> (\<exists>rank succs sigs. graph_inv g J {} hold rank succs sigs)"

definition waiting :: "'r job_graph \<Rightarrow> u32 \<Rightarrow> int" where
  "waiting g s = jb_waiting (job_at g s)"

text \<open>The handles that name a live job, and those that can be around at all.\<close>

definition names_job :: "'r job_graph \<Rightarrow> u32 set \<Rightarrow> job_handle \<Rightarrow> bool" where
  "names_job g J h \<longleftrightarrow> jh_slot h \<in> J \<and> gen_of g (jh_slot h) = jh_generation h"

definition known_handle :: "'r job_graph \<Rightarrow> u32 set \<Rightarrow> job_handle \<Rightarrow> bool" where
  "known_handle g J h \<longleftrightarrow> jh_slot h = p_none \<or>
     jh_slot h \<in> pool_indexes (g_jobs g) \<and> (jh_slot h \<in> J
       \<or> gen_of g (jh_slot h) \<noteq> jh_generation h \<and> sig_gen g (jh_slot h) \<noteq> jh_generation h)"

text \<open>
  Between two states every job of \<open>J\<close> that came to wait for nothing was handed to the combiner,
  once, and no other job was.
\<close>

definition handed :: "'r job_graph \<Rightarrow> 'r job_graph \<Rightarrow> u32 set \<Rightarrow> bool" where
  "handed g g' J \<longleftrightarrow>
     (\<forall>t \<in> J. graph_task g' t = graph_task g t \<and> (waiting g t = 0 \<longrightarrow> waiting g' t = 0))
     \<and> (\<exists>ts. distinct ts \<and> set ts = {t \<in> J. waiting g t \<noteq> 0 \<and> waiting g' t = 0}
           \<and> g_arrived g' = g_arrived g @ map (\<lambda>t. (t, graph_task g t)) ts)"

lemma handed_refl: "g_arrived g' = g_arrived g \<Longrightarrow> (\<And>t. t \<in> J \<Longrightarrow> graph_task g' t = graph_task g t
    \<and> waiting g' t = waiting g t) \<Longrightarrow> handed g g' J"
  by (auto simp: handed_def intro: exI[of _ "[]"])

lemma handed_trans:
  assumes "handed g g1 J" and "handed g1 g2 J"
  shows "handed g g2 J"
proof -
  obtain ts us where
    ts: "distinct ts" "set ts = {t \<in> J. waiting g t \<noteq> 0 \<and> waiting g1 t = 0}"
      "g_arrived g1 = g_arrived g @ map (\<lambda>t. (t, graph_task g t)) ts" and
    us: "distinct us" "set us = {t \<in> J. waiting g1 t \<noteq> 0 \<and> waiting g2 t = 0}"
      "g_arrived g2 = g_arrived g1 @ map (\<lambda>t. (t, graph_task g1 t)) us"
    using assms unfolding handed_def by blast
  have keep: "\<And>t. t \<in> J \<Longrightarrow> graph_task g1 t = graph_task g t \<and> graph_task g2 t = graph_task g1 t
      \<and> (waiting g t = 0 \<longrightarrow> waiting g1 t = 0) \<and> (waiting g1 t = 0 \<longrightarrow> waiting g2 t = 0)"
    using assms by (simp add: handed_def)
  have "distinct (ts @ us)"
    using ts(1,2) us(1,2) by auto
  moreover have "set (ts @ us) = {t \<in> J. waiting g t \<noteq> 0 \<and> waiting g2 t = 0}"
    using ts(2) us(2) keep by (simp, blast)
  moreover have "g_arrived g2 = g_arrived g @ map (\<lambda>t. (t, graph_task g t)) (ts @ us)"
    using ts(3) us(2,3) keep by simp
  ultimately show ?thesis
    using keep unfolding handed_def by (intro conjI ballI exI[of _ "ts @ us"]) auto
qed

section \<open>Writing through the pool\<close>

lemma upd_job_fields [simp]:
  "g_succ (upd_job s f g) = g_succ g" "g_sigs (upd_job s f g) = g_sigs g"
  "g_args (upd_job s f g) = g_args g" "g_arrived (upd_job s f g) = g_arrived g"
  "g_sent (upd_job s f g) = g_sent g" "succ_at (upd_job s f g) = succ_at g"
  "sig_at (upd_job s f g) = sig_at g"
  "length (p_chunks (g_jobs (upd_job s f g))) = length (p_chunks (g_jobs g))"
  "pool_indexes (g_jobs (upd_job s f g)) = pool_indexes (g_jobs g)"
  by (simp_all add: upd_job_def succ_at_def sig_at_def fun_eq_iff)

lemma upd_job_pool [simp]: "pool_inv (g_jobs g) J \<Longrightarrow> pool_inv (g_jobs (upd_job s f g)) J"
  by (simp add: upd_job_def p_put_inv)

lemma job_at_upd:
  assumes "pool_inv (g_jobs g) J" and "s \<in> J" and "t \<in> pool_indexes (g_jobs g)"
  shows "job_at (upd_job s f g) t = (if t = s then f (job_at g s) else job_at g t)"
proof -
  have "s \<in> pool_indexes (g_jobs g)"
    using assms(1,2) by (auto simp: pool_inv_def)
  from p_put_at_any[OF assms(1) this assms(3)] show ?thesis
    by (simp add: upd_job_def job_at_def)
qed

lemma live_index: "pool_inv p J \<Longrightarrow> s \<in> J \<Longrightarrow> s \<in> pool_indexes p"
  by (auto simp: pool_inv_def)

lemma job_at_arrive [simp]: "job_at (arrive_job s g) t = job_at g t"
  by (simp add: arrive_job_def job_at_def)

text \<open>\<open>lower\<close>: one count down, handed on at zero.\<close>

lemma lower_fields [simp]:
  "g_succ (lower s g) = g_succ g" "g_sigs (lower s g) = g_sigs g" "g_sent (lower s g) = g_sent g"
  "g_args (lower s g) = g_args g" "succ_at (lower s g) = succ_at g" "sig_at (lower s g) = sig_at g"
  "length (p_chunks (g_jobs (lower s g))) = length (p_chunks (g_jobs g))"
  "pool_indexes (g_jobs (lower s g)) = pool_indexes (g_jobs g)"
  by (simp_all add: lower_def arrive_job_def Let_def succ_at_def sig_at_def fun_eq_iff)

lemma lower_pool [simp]: "pool_inv (g_jobs g) J \<Longrightarrow> pool_inv (g_jobs (lower s g)) J"
  by (simp add: lower_def arrive_job_def Let_def)

lemma lower_job_at:
  assumes "pool_inv (g_jobs g) J" and "s \<in> J" and "t \<in> pool_indexes (g_jobs g)"
  shows "job_at (lower s g) t =
    (if t = s then (job_at g s)\<lparr>jb_waiting := jb_waiting (job_at g s) - 1\<rparr> else job_at g t)"
  using job_at_upd[OF assms] by (cases "t = s") (auto simp: lower_def Let_def)

lemma lower_handed:
  assumes "pool_inv (g_jobs g) J" and "s \<in> J" and "1 \<le> waiting g s"
  shows "handed g (lower s g) J"
proof -
  have at: "\<And>t. t \<in> J \<Longrightarrow> job_at (lower s g) t =
      (if t = s then (job_at g s)\<lparr>jb_waiting := jb_waiting (job_at g s) - 1\<rparr> else job_at g t)"
    using lower_job_at[OF assms(1,2)] live_index[OF assms(1)] by blast
  have "g_arrived (lower s g) = g_arrived g @ (if waiting g s = 1 then [(s, graph_task g s)] else [])"
    using job_at_upd[OF assms(1,2) live_index[OF assms(1,2)]]
    by (simp add: lower_def arrive_job_def Let_def waiting_def graph_task_def)
  moreover have "{t \<in> J. waiting g t \<noteq> 0 \<and> waiting (lower s g) t = 0} = (if waiting g s = 1 then {s} else {})"
    using at assms(2,3) by (auto simp: waiting_def split: if_splits)
  moreover have "graph_task (lower s g) t = graph_task g t \<and> (waiting g t = 0 \<longrightarrow> waiting (lower s g) t = 0)"
    if "t \<in> J" for t
    using at[OF that] assms(3) by (auto simp: waiting_def graph_task_def)
  ultimately show ?thesis
    unfolding handed_def by (intro conjI ballI exI[of _ "if waiting g s = 1 then [s] else []"]) auto
qed

section \<open>Submitting\<close>

lemma lower_views [simp]:
  "succ_nxt (lower s g) = succ_nxt g" "sig_nxt (lower s g) = sig_nxt g" "target (lower s g) = target g"
  "edges_into (lower s g) = edges_into g"
  by (simp_all add: succ_nxt_def sig_nxt_def target_def edges_into_def fun_eq_iff)

lemma lower_heads:
  assumes "pool_inv (g_jobs g) J" and "s \<in> J" and "t \<in> pool_indexes (g_jobs g)"
  shows "succ_head (lower s g) t = succ_head g t" and "sig_head (lower s g) t = sig_head g t"
    and "gen_of (lower s g) t = gen_of g t"
    and "jb_signals (job_at (lower s g) t) = jb_signals (job_at g t)"
    and "waiting (lower s g) t = waiting g t - of_bool (t = s)"
  using lower_job_at[OF assms] by (simp_all add: succ_head_def sig_head_def gen_of_def waiting_def)

lemma graph_invD:
  assumes "graph_inv g J C hold rank succs sigs"
  shows "pool_inv (g_jobs g) J" and "length (p_chunks (g_jobs g)) < 2 ^ 24"
    and "lists_inv (g_succ g) (succ_nxt g) J C (succ_head g) succs"
    and "lists_inv (g_sigs g) (sig_nxt g) J C (sig_head g) sigs"
    and "\<And>s. s \<in> J \<Longrightarrow> fst (unpackList (jb_signals (job_at g s))) = gen_of g s"
    and "hold \<subseteq> J - C" and "C \<subseteq> J"
    and "\<And>s e. s \<in> J \<Longrightarrow> e \<in> set (succs s) \<Longrightarrow> target g e \<in> J - C \<and> rank s < rank (target g e)"
    and "\<And>s. s \<in> J \<Longrightarrow> waiting g s = of_bool (s \<in> hold) + int (card (edges_into g (list_edges J succs) s))"
  using assms by (simp_all add: graph_inv_def waiting_def)

lemma graph_invI:
  assumes "pool_inv (g_jobs g) J" and "length (p_chunks (g_jobs g)) < 2 ^ 24"
    and "lists_inv (g_succ g) (succ_nxt g) J C (succ_head g) succs"
    and "lists_inv (g_sigs g) (sig_nxt g) J C (sig_head g) sigs"
    and "\<And>s. s \<in> J \<Longrightarrow> fst (unpackList (jb_signals (job_at g s))) = gen_of g s"
    and "hold \<subseteq> J - C" and "C \<subseteq> J"
    and "\<And>s e. s \<in> J \<Longrightarrow> e \<in> set (succs s) \<Longrightarrow> target g e \<in> J - C \<and> rank s < rank (target g e)"
    and "\<And>s. s \<in> J \<Longrightarrow> waiting g s = of_bool (s \<in> hold) + int (card (edges_into g (list_edges J succs) s))"
  shows "graph_inv g J C hold rank succs sigs"
  using assms by (simp add: graph_inv_def waiting_def)

text \<open>A lowered count is one hold or one edge less; both uses of \<open>lower\<close> rest on this.\<close>

lemma lower_graph:
  assumes "graph_inv g J C hold rank succs sigs" and "s \<in> J"
  shows "pool_inv (g_jobs (lower s g)) J" and "length (p_chunks (g_jobs (lower s g))) < 2 ^ 24"
    and "lists_inv (g_succ (lower s g)) (succ_nxt (lower s g)) J C (succ_head (lower s g)) succs"
    and "lists_inv (g_sigs (lower s g)) (sig_nxt (lower s g)) J C (sig_head (lower s g)) sigs"
    and "\<And>t. t \<in> J \<Longrightarrow> fst (unpackList (jb_signals (job_at (lower s g) t))) = gen_of (lower s g) t"
proof -
  note D = graph_invD[OF assms(1)]
  note heads = lower_heads[OF D(1) assms(2) live_index[OF D(1)]]
  show "pool_inv (g_jobs (lower s g)) J" "length (p_chunks (g_jobs (lower s g))) < 2 ^ 24"
    using D(1,2) by simp_all
  show "lists_inv (g_succ (lower s g)) (succ_nxt (lower s g)) J C (succ_head (lower s g)) succs"
    using lists_inv_cong[OF D(3), of "succ_nxt g" "succ_head (lower s g)"] heads(1) by simp
  show "lists_inv (g_sigs (lower s g)) (sig_nxt (lower s g)) J C (sig_head (lower s g)) sigs"
    using lists_inv_cong[OF D(4), of "sig_nxt g" "sig_head (lower s g)"] heads(2) by simp
  show "fst (unpackList (jb_signals (job_at (lower s g) t))) = gen_of (lower s g) t" if "t \<in> J" for t
    using D(5) heads(3,4) that by simp
qed

lemma lower_hold:
  assumes "graph_inv g J C hold rank succs sigs" and "s \<in> hold"
  shows "graph_inv (lower s g) J C (hold - {s}) rank succs sigs" and "handed g (lower s g) J"
proof -
  note D = graph_invD[OF assms(1)]
  have s: "s \<in> J" using D(6) assms(2) by auto
  show "graph_inv (lower s g) J C (hold - {s}) rank succs sigs"
    using D(6,7,8,9) lower_heads(5)[OF D(1) s live_index[OF D(1)]] assms(2)
    by (intro graph_invI lower_graph[OF assms(1) s]) auto
  show "handed g (lower s g) J"
    by (rule lower_handed[OF D(1) s]) (use D(9)[OF s] assms(2) in simp)
qed

lemma submit_inv:
  assumes "graph_inv g J C hold rank succs sigs" and "set batch \<subseteq> hold" and "distinct batch"
  shows "graph_inv (submit batch g) J C (hold - set batch) rank succs sigs \<and> handed g (submit batch g) J"
  using assms
proof (induction batch arbitrary: g hold)
  case Nil
  then show ?case by (simp add: submit_def handed_refl)
next
  case (Cons s batch)
  have "s \<in> hold" using Cons.prems(2) by simp
  note low = lower_hold[OF Cons.prems(1) this]
  have "set batch \<subseteq> hold - {s}" "distinct batch"
    using Cons.prems(2,3) by auto
  moreover have "hold - set (s # batch) = hold - {s} - set batch" by auto
  ultimately show ?case
    using Cons.IH[OF low(1)] handed_trans[OF low(2)] by (simp add: submit_def)
qed

section \<open>Finishing\<close>

lemma job_views:
  assumes "job_at g' = job_at g"
  shows "succ_head g' = succ_head g" "sig_head g' = sig_head g" "gen_of g' = gen_of g"
    "waiting g' = waiting g" "graph_task g' = graph_task g" "sig_gen g' = sig_gen g"
  using assms by (simp_all add: succ_head_def sig_head_def gen_of_def sig_gen_def waiting_def graph_task_def fun_eq_iff)

lemma succ_views:
  assumes "succ_at g' = succ_at g"
  shows "succ_nxt g' = succ_nxt g" "target g' = target g" "edges_into g' = edges_into g"
  using assms by (simp_all add: succ_nxt_def target_def edges_into_def fun_eq_iff)

lemma sig_views: "sig_at g' = sig_at g \<Longrightarrow> sig_nxt g' = sig_nxt g"
  by (simp add: sig_nxt_def fun_eq_iff)

lemma same_pools:
  "g_jobs g' = g_jobs g \<Longrightarrow> job_at g' = job_at g" "g_succ g' = g_succ g \<Longrightarrow> succ_at g' = succ_at g"
  "g_sigs g' = g_sigs g \<Longrightarrow> sig_at g' = sig_at g"
  by (simp_all add: job_at_def succ_at_def sig_at_def fun_eq_iff)

lemma graph_inv_same:
  assumes "graph_inv g J C hold rank succs sigs"
    and "g_jobs g' = g_jobs g" and "g_succ g' = g_succ g" and "g_sigs g' = g_sigs g"
  shows "graph_inv g' J C hold rank succs sigs"
  using assms(1) unfolding graph_inv_def assms(2-4) same_pools(1)[OF assms(2)]
    job_views[OF same_pools(1)[OF assms(2)]] succ_views[OF same_pools(2)[OF assms(3)]]
    sig_views[OF same_pools(3)[OF assms(4)]] .

lemma list_edges_pop:
  assumes "lists_inv p nxt J C head ls" and "s \<in> J" and "ls s = e # es"
  shows "list_edges J (ls(s := es)) = list_edges J ls - {e}" and "e \<in> list_edges J ls"
proof -
  have dist: "distinct (ls s)" and disj: "\<And>t. t \<in> J \<Longrightarrow> t \<noteq> s \<Longrightarrow> set (ls t) \<inter> set (ls s) = {}"
    using assms(1,2) by (auto simp: lists_inv_def)
  then show "list_edges J (ls(s := es)) = list_edges J ls - {e}"
    using assms(2,3) by (fastforce simp: list_edges_def split: if_splits)
  show "e \<in> list_edges J ls"
    using assms(2,3) by (auto simp: list_edges_def intro: bexI[of _ s])
qed

lemma card_edges_into_pop:
  assumes "e \<in> E"
  shows "int (card (edges_into g (E - {e}) u)) = int (card (edges_into g E u)) - of_bool (u = target g e)"
proof (cases "u = target g e")
  case True
  then have "edges_into g (E - {e}) u = edges_into g E u - {e}" "e \<in> edges_into g E u"
    using assms by (auto simp: edges_into_def)
  then show ?thesis
    using True card_Suc_Diff1[of "edges_into g E u" e] by simp
next
  case False
  then have "edges_into g (E - {e}) u = edges_into g E u"
    by (auto simp: edges_into_def)
  then show ?thesis using False by simp
qed

lemma card_edges_into_push:
  assumes "e \<notin> E"
  shows "int (card (edges_into g (insert e E) u)) = int (card (edges_into g E u)) + of_bool (u = target g e)"
  using card_edges_into_pop[of e "insert e E" g u] assms by simp

lemma settle_edge_inv:
  assumes "graph_inv g J C hold rank succs sigs" and "s \<in> C" and "succs s = e # es"
  shows "graph_inv (settle_edge r e g) J C hold rank (succs(s := es)) sigs"
    and "handed g (settle_edge r e g) J"
    and "succ_nxt (settle_edge r e g) = succ_nxt g" and "g_sent (settle_edge r e g) = g_sent g"
    and "\<And>t. t \<in> pool_indexes (g_jobs g) \<Longrightarrow>
      gen_of (settle_edge r e g) t = gen_of g t \<and> sig_gen (settle_edge r e g) t = sig_gen g t"
    and "pool_indexes (g_jobs (settle_edge r e g)) = pool_indexes (g_jobs g)"
proof -
  note D = graph_invD[OF assms(1)]
  let ?E = "list_edges J succs" and ?t = "target g e"
  have sJ: "s \<in> J" using D(7) assms(2) by auto
  note E' = list_edges_pop[OF D(3) sJ assms(3)]
  have t: "?t \<in> J" using D(8)[OF sJ, of e] assms(3) by simp
  define g1 where "g1 = (if se_feeds (succ_at g e)
    then receiveArg (jb_task (job_at g ?t)) (jb_arg (job_at g ?t)) r g else g)"
  have same: "g_jobs g1 = g_jobs g" "g_succ g1 = g_succ g" "g_sigs g1 = g_sigs g"
    "g_arrived g1 = g_arrived g" "g_sent g1 = g_sent g"
    by (simp_all add: g1_def receiveArg_def)
  note at1 = same_pools(1)[OF same(1)] same_pools(2)[OF same(2)] same_pools(3)[OF same(3)]
  note v1 = job_views[OF at1(1)] succ_views[OF at1(2)] sig_views[OF at1(3)]
  note inv1 = graph_inv_same[OF assms(1) same(1,2,3)]
  note D1 = graph_invD[OF inv1] and L = lower_graph[OF inv1 t]
  define g3 where "g3 = (lower ?t g1)\<lparr>g_succ := p_release (g_succ (lower ?t g1)) e\<rparr>"
  have settle: "settle_edge r e g = g3"
    by (simp add: settle_edge_def g1_def g3_def target_def Let_def)
  have at3: "job_at g3 = job_at (lower ?t g1)" "succ_at g3 = succ_at g" "sig_at g3 = sig_at g"
    using at1 by (simp_all add: g3_def job_at_def sig_at_def succ_at_def fun_eq_iff same)
  note v3 = job_views[OF at3(1)] succ_views[OF at3(2)] sig_views[OF at3(3)]
  have low: "waiting g3 u = waiting g u - of_bool (u = ?t)" if "u \<in> J" for u
    using lower_heads(5)[OF D1(1) t live_index[OF D1(1) that]] v3(4) v1(4) by simp
  show "graph_inv (settle_edge r e g) J C hold rank (succs(s := es)) sigs"
    unfolding settle
  proof (rule graph_invI)
    show "pool_inv (g_jobs g3) J" "length (p_chunks (g_jobs g3)) < 2 ^ 24"
      using L(1,2) by (simp_all add: g3_def)
    show "lists_inv (g_succ g3) (succ_nxt g3) J C (succ_head g3) (succs(s := es))"
      using lists_inv_pop[OF L(3) sJ assms(2,3)] v3(1,7) v1(7) by (simp add: g3_def)
    show "lists_inv (g_sigs g3) (sig_nxt g3) J C (sig_head g3) sigs"
      using L(4) v3(2,10) v1(10) by (simp add: g3_def)
    show "fst (unpackList (jb_signals (job_at g3 t))) = gen_of g3 t" if "t \<in> J" for t
      using L(5)[OF that] at3(1) v3(3) by simp
    show "hold \<subseteq> J - C" "C \<subseteq> J" by fact+
    show "target g3 x \<in> J - C \<and> rank t < rank (target g3 x)"
      if "t \<in> J" "x \<in> set ((succs(s := es)) t)" for t x
      using that D(8)[of t x] assms(3) v3(8) by (auto split: if_splits)
    show "waiting g3 u = of_bool (u \<in> hold) + int (card (edges_into g3 (list_edges J (succs(s := es))) u))"
      if "u \<in> J" for u
      using D(9)[OF that] low[OF that] card_edges_into_pop[OF E'(2), of g u] v3(9) E'(1) by simp
  qed
  have "1 \<le> waiting g1 ?t"
    using D(9)[OF t] card_edges_into_pop[OF E'(2), of g ?t] v1(4) by simp
  then have "handed g1 (lower ?t g1) J"
    by (rule lower_handed[OF D1(1) t])
  then show "handed g (settle_edge r e g) J"
    unfolding settle handed_def v3 v1 same by (simp add: g3_def)
  show "succ_nxt (settle_edge r e g) = succ_nxt g" "g_sent (settle_edge r e g) = g_sent g"
    unfolding settle using v3(7) same(5) by (simp_all add: g3_def)
  show "gen_of (settle_edge r e g) u = gen_of g u \<and> sig_gen (settle_edge r e g) u = sig_gen g u"
    if "u \<in> pool_indexes (g_jobs g)" for u
    unfolding settle using lower_heads(3,4)[OF D1(1) t] that v3(3,6) v1(3) same(1) at1(1)
    by (simp add: sig_gen_def)
  show "pool_indexes (g_jobs (settle_edge r e g)) = pool_indexes (g_jobs g)"
    unfolding settle by (simp add: g3_def same)
qed

lemma settle_successors_run:
  assumes "graph_inv g J C hold rank succs sigs" and "s \<in> C" and "succs s = es"
    and "chain (succ_nxt g) h es"
  shows "\<exists>g'. settle_successors r h g = Some g' \<and> graph_inv g' J C hold rank (succs(s := [])) sigs
    \<and> handed g g' J \<and> g_sent g' = g_sent g \<and> pool_indexes (g_jobs g') = pool_indexes (g_jobs g)
    \<and> (\<forall>t \<in> pool_indexes (g_jobs g). gen_of g' t = gen_of g t \<and> sig_gen g' t = sig_gen g t)"
  using assms
proof (induction es arbitrary: g h succs)
  case Nil
  then have "succs(s := []) = succs" by auto
  then show ?case
    using Nil by (simp add: settle_successors.simps handed_refl)
next
  case (Cons e es)
  note st = settle_edge_inv[OF Cons.prems(1,2,3), where r = r]
  have "chain (succ_nxt (settle_edge r e g)) (succ_nxt g e) es" "h = e" "e \<noteq> p_none"
    using Cons.prems(4) st(3) by simp_all
  moreover from Cons.IH[OF st(1) Cons.prems(2) fun_upd_same this(1), unfolded fun_upd_upd] obtain g' where
    "settle_successors r (succ_nxt g e) (settle_edge r e g) = Some g'"
    "graph_inv g' J C hold rank (succs(s := [])) sigs" "handed (settle_edge r e g) g' J"
    "g_sent g' = g_sent (settle_edge r e g)"
    "pool_indexes (g_jobs g') = pool_indexes (g_jobs (settle_edge r e g))"
    "\<forall>t \<in> pool_indexes (g_jobs (settle_edge r e g)). gen_of g' t = gen_of (settle_edge r e g) t
       \<and> sig_gen g' t = sig_gen (settle_edge r e g) t"
    by blast
  moreover have "settle_successors r h g = settle_successors r (succ_nxt g e) (settle_edge r e g)"
    using calculation(2,3) by (simp add: settle_successors.simps[where e = e] succ_nxt_def)
  ultimately show ?case
    using st(4,5,6) handed_trans[OF st(2)] by metis
qed

definition armed :: "'r job_graph \<Rightarrow> u32 list \<Rightarrow> nat list" where
  "armed g es = concat (map (\<lambda>e. case ge_signal (sig_at g e) of Some s \<Rightarrow> [s] | None \<Rightarrow> []) es)"

lemma sig_at_upd:
  assumes "pool_inv (g_sigs g) E" and "e \<in> E" and "x \<in> E"
  shows "sig_at (g\<lparr>g_sigs := p_release (p_put (g_sigs g) e v) e'\<rparr>) x = (if x = e then v else sig_at g x)"
    and "sig_at (g\<lparr>g_sigs := p_put (g_sigs g) e v\<rparr>) x = (if x = e then v else sig_at g x)"
  using p_put_at[OF assms, of v] by (auto simp: sig_at_def)

lemma send_edge_inv:
  assumes "graph_inv g J C hold rank succs sigs" and "s \<in> C" and "sigs s = e # es"
  shows "graph_inv (send_edge e g) J C hold rank succs (sigs(s := es))"
    and "g_jobs (send_edge e g) = g_jobs g" and "g_succ (send_edge e g) = g_succ g"
    and "g_arrived (send_edge e g) = g_arrived g"
    and "g_sent (send_edge e g) @ armed (send_edge e g) es = g_sent g @ armed g (e # es)"
    and "\<And>x. x \<in> set es \<Longrightarrow> sig_nxt (send_edge e g) x = sig_nxt g x"
proof -
  note D = graph_invD[OF assms(1)]
  let ?E = "list_edges J sigs" and ?g = "send_edge e g"
  have sJ: "s \<in> J" using D(7) assms(2) by auto
  note E' = list_edges_pop[OF D(4) sJ assms(3)]
  have pool: "pool_inv (g_sigs g) ?E" using D(4) by (simp add: lists_inv_def)
  show same: "g_jobs ?g = g_jobs g" "g_succ ?g = g_succ g" "g_arrived ?g = g_arrived g"
    by (simp_all add: send_edge_def Let_def)
  have at: "sig_at ?g x = (if x = e then (sig_at g e)\<lparr>ge_signal := None\<rparr> else sig_at g x)" if "x \<in> ?E" for x
    using sig_at_upd(1)[OF pool E'(2) that] by (simp add: send_edge_def Let_def sig_at_def)
  then have nxt: "sig_nxt ?g x = sig_nxt g x" if "x \<in> ?E" for x
    using that by (simp add: sig_nxt_def)
  have sub: "set es \<subseteq> ?E" "e \<notin> set es"
    using lists_inv_distinct[OF D(4) sJ] assms(3) sJ by (auto simp: list_edges_def intro: bexI[of _ s])
  then show "\<And>x. x \<in> set es \<Longrightarrow> sig_nxt ?g x = sig_nxt g x"
    using nxt by blast
  have "armed ?g es = armed g es"
    unfolding armed_def using at sub by (intro arg_cong[where f = concat] map_cong refl) auto
  then show "g_sent ?g @ armed ?g es = g_sent g @ armed g (e # es)"
    by (simp add: send_edge_def Let_def armed_def split: option.splits)
  have "lists_inv (p_put (g_sigs g) e ((sig_at g e)\<lparr>ge_signal := None\<rparr>)) (sig_nxt ?g) J C (sig_head g) sigs"
    using lists_inv_cong[OF D(4), of "sig_nxt ?g" "sig_head g"] nxt p_put_inv[OF pool]
    by (simp add: lists_inv_def)
  from lists_inv_pop[OF this sJ assms(2,3)]
  have "lists_inv (g_sigs ?g) (sig_nxt ?g) J C (sig_head ?g) (sigs(s := es))"
    unfolding job_views(2)[OF same_pools(1)[OF same(1)]] by (simp add: send_edge_def Let_def)
  then show "graph_inv ?g J C hold rank succs (sigs(s := es))"
    using assms(1)
    unfolding graph_inv_def same(1,2) same_pools(1)[OF same(1)] job_views[OF same_pools(1)[OF same(1)]]
      succ_views[OF same_pools(2)[OF same(2)]]
    by simp
qed

lemma send_signals_run:
  assumes "graph_inv g J C hold rank succs sigs" and "s \<in> C" and "sigs s = es"
    and "chain (sig_nxt g) h es"
  shows "\<exists>g'. send_signals h g = Some g' \<and> graph_inv g' J C hold rank succs (sigs(s := []))
    \<and> g_jobs g' = g_jobs g \<and> g_succ g' = g_succ g \<and> g_arrived g' = g_arrived g
    \<and> g_sent g' = g_sent g @ armed g es"
  using assms
proof (induction es arbitrary: g h sigs)
  case Nil
  then have "sigs(s := []) = sigs" by auto
  then show ?case
    using Nil by (simp add: send_signals.simps armed_def)
next
  case (Cons e es)
  note st = send_edge_inv[OF Cons.prems(1,2,3)]
  have "h = e" "e \<noteq> p_none" "chain (sig_nxt g) (sig_nxt g e) es"
    using Cons.prems(4) by simp_all
  moreover have "chain (sig_nxt (send_edge e g)) (sig_nxt g e) es"
    using calculation(3) chain_cong[of es "sig_nxt (send_edge e g)" "sig_nxt g"] st(6) by blast
  moreover from Cons.IH[OF st(1) Cons.prems(2) fun_upd_same this, unfolded fun_upd_upd] obtain g' where
    "send_signals (sig_nxt g e) (send_edge e g) = Some g'"
    "graph_inv g' J C hold rank succs (sigs(s := []))"
    "g_jobs g' = g_jobs (send_edge e g)" "g_succ g' = g_succ (send_edge e g)"
    "g_arrived g' = g_arrived (send_edge e g)"
    "g_sent g' = g_sent (send_edge e g) @ armed (send_edge e g) es"
    by blast
  moreover have "send_signals h g = send_signals (sig_nxt g e) (send_edge e g)"
    using calculation(1,2) by (simp add: send_signals.simps[where e = e] sig_nxt_def)
  ultimately show ?case
    using st(2,3,4,5) by metis
qed

text \<open>Storing both list words of a job: its lists are no longer read through them.\<close>

definition set_words :: "u32 \<Rightarrow> u32 \<Rightarrow> u32 \<Rightarrow> 'r job_graph \<Rightarrow> 'r job_graph" where
  "set_words slot generation h =
     upd_job slot (\<lambda>j. j\<lparr>jb_successors := packList generation h, jb_signals := packList generation h\<rparr>)"

lemma set_words_fields [simp]:
  "g_succ (set_words s n h g) = g_succ g" "g_sigs (set_words s n h g) = g_sigs g"
  "g_arrived (set_words s n h g) = g_arrived g" "g_sent (set_words s n h g) = g_sent g"
  "pool_indexes (g_jobs (set_words s n h g)) = pool_indexes (g_jobs g)"
  by (simp_all add: set_words_def)

lemma set_words_job:
  assumes "pool_inv (g_jobs g) J" and "slot \<in> J" and "t \<in> pool_indexes (g_jobs g)"
  shows "gen_of (set_words slot n h g) t = (if t = slot then n else gen_of g t)"
    and "succ_head (set_words slot n h g) t = (if t = slot then h else succ_head g t)"
    and "sig_head (set_words slot n h g) t = (if t = slot then h else sig_head g t)"
    and "sig_gen (set_words slot n h g) t = (if t = slot then n else sig_gen g t)"
    and "waiting (set_words slot n h g) t = waiting g t"
    and "graph_task (set_words slot n h g) t = graph_task g t"
  using job_at_upd[OF assms]
  by (auto simp: set_words_def gen_of_def sig_gen_def succ_head_def sig_head_def waiting_def graph_task_def)

lemma set_words_inv:
  assumes "graph_inv g J C hold rank succs sigs" and "slot \<in> J" and "slot \<notin> hold"
    and "\<And>s e. s \<in> J \<Longrightarrow> e \<in> set (succs s) \<Longrightarrow> target g e \<noteq> slot"
  shows "graph_inv (set_words slot n h g) J (insert slot C) hold rank succs sigs"
proof -
  note D = graph_invD[OF assms(1)]
  let ?g = "set_words slot n h g"
  note j = set_words_job[OF D(1) assms(2) live_index[OF D(1)], of _ n h]
  have at: "succ_at ?g = succ_at g" "sig_at ?g = sig_at g" by (simp_all add: set_words_def)
  note v = succ_views[OF at(1)] sig_views[OF at(2)]
  show ?thesis
  proof (rule graph_invI)
    show "pool_inv (g_jobs ?g) J" "length (p_chunks (g_jobs ?g)) < 2 ^ 24"
      using D(1,2) by (simp_all add: set_words_def)
    show "lists_inv (g_succ ?g) (succ_nxt ?g) J (insert slot C) (succ_head ?g) succs"
      using lists_inv_cong[OF lists_inv_close[OF D(3)], where s1 = slot and nxt' = "succ_nxt g" and head' = "succ_head ?g"] j(2) v(1) by simp
    show "lists_inv (g_sigs ?g) (sig_nxt ?g) J (insert slot C) (sig_head ?g) sigs"
      using lists_inv_cong[OF lists_inv_close[OF D(4)], where s1 = slot and nxt' = "sig_nxt g" and head' = "sig_head ?g"] j(3) v(4) by simp
    show "fst (unpackList (jb_signals (job_at ?g s))) = gen_of ?g s" if "s \<in> J" for s
      using that D(5) j(1,4) by (simp add: sig_gen_def)
    show "hold \<subseteq> J - insert slot C" "insert slot C \<subseteq> J"
      using D(6,7) assms(2,3) by auto
    show "target ?g e \<in> J - insert slot C \<and> rank s < rank (target ?g e)"
      if "s \<in> J" "e \<in> set (succs s)" for s e
      using D(8)[OF that] assms(4)[OF that] v(2) by simp
    show "waiting ?g s = of_bool (s \<in> hold) + int (card (edges_into ?g (list_edges J succs) s))"
      if "s \<in> J" for s
      using D(9)[OF that] j(5)[OF that] v(3) by simp
  qed
qed

lemma no_edges_into:
  assumes "graph_inv g J C hold rank succs sigs" and "slot \<in> J" and "waiting g slot = 0"
  shows "slot \<notin> hold" and "\<And>s e. s \<in> J \<Longrightarrow> e \<in> set (succs s) \<Longrightarrow> target g e \<noteq> slot"
proof -
  note W = graph_invD(9)[OF assms(1,2)]
  then show "slot \<notin> hold"
    using assms(3) by (auto split: if_splits)
  have "edges_into g (list_edges J succs) slot = {}"
    using W assms(3) by (simp add: of_bool_def split: if_splits)
  then show "target g e \<noteq> slot" if "s \<in> J" "e \<in> set (succs s)" for s e
    using that by (auto simp: edges_into_def list_edges_def)
qed

lemma release_job_inv:
  assumes "graph_inv g J {slot} hold rank succs sigs" and "succs slot = []" and "sigs slot = []"
  shows "graph_inv (g\<lparr>g_jobs := p_release (g_jobs g) slot\<rparr>) (J - {slot}) {} hold rank succs sigs"
proof -
  note D = graph_invD[OF assms(1)]
  let ?g = "g\<lparr>g_jobs := p_release (g_jobs g) slot\<rparr>"
  have at: "job_at ?g = job_at g" "succ_at ?g = succ_at g" "sig_at ?g = sig_at g"
    by (simp_all add: job_at_def succ_at_def sig_at_def fun_eq_iff)
  note v = job_views[OF at(1)] succ_views[OF at(2)] sig_views[OF at(3)]
  have E: "list_edges (J - {slot}) succs = list_edges J succs"
    using assms(2) by (auto simp: list_edges_def)
  show ?thesis
  proof (rule graph_invI)
    show "pool_inv (g_jobs ?g) (J - {slot})" "length (p_chunks (g_jobs ?g)) < 2 ^ 24"
      using p_release_inv[OF D(1)] D(2,7) by simp_all
    show "lists_inv (g_succ ?g) (succ_nxt ?g) (J - {slot}) {} (succ_head ?g) succs"
      using lists_inv_remove[OF D(3) assms(2)] v by simp
    show "lists_inv (g_sigs ?g) (sig_nxt ?g) (J - {slot}) {} (sig_head ?g) sigs"
      using lists_inv_remove[OF D(4) assms(3)] v by simp
    show "fst (unpackList (jb_signals (job_at ?g s))) = gen_of ?g s" if "s \<in> J - {slot}" for s
      using that D(5) at v by simp
    show "hold \<subseteq> J - {slot} - {}" "{} \<subseteq> J - {slot}" using D(6) by auto
    show "target ?g e \<in> J - {slot} - {} \<and> rank s < rank (target ?g e)"
      if "s \<in> J - {slot}" "e \<in> set (succs s)" for s e
      using D(8)[of s e] that v(8) by auto
    show "waiting ?g s = of_bool (s \<in> hold) + int (card (edges_into ?g (list_edges (J - {slot}) succs) s))"
      if "s \<in> J - {slot}" for s
      using that D(9)[of s] v E by simp
  qed
qed

lemma handed_subset:
  assumes "handed g g' J" and "slot \<in> J \<Longrightarrow> waiting g slot = 0"
  shows "handed g g' (J - {slot})"
proof -
  have "{t \<in> J - {slot}. waiting g t \<noteq> 0 \<and> waiting g' t = 0} = {t \<in> J. waiting g t \<noteq> 0 \<and> waiting g' t = 0}"
    using assms(2) by auto
  then show ?thesis
    using assms(1) unfolding handed_def by auto
qed

lemma handed_cong:
  fixes g g1 g' g2 :: "'r job_graph"
  assumes "\<And>t. t \<in> J \<Longrightarrow> waiting g1 t = waiting g t \<and> graph_task g1 t = graph_task g t"
    and "\<And>t. t \<in> J \<Longrightarrow> waiting g2 t = waiting g' t \<and> graph_task g2 t = graph_task g' t"
    and "g_arrived g1 = g_arrived g" and "g_arrived g2 = g_arrived g'" and "handed g g' J"
  shows "handed g1 g2 J"
proof -
  have "handed g1 g J" "handed g' g2 J"
    by (rule handed_refl; use assms(1-4) in simp)+
  then show ?thesis
    using assms(5) handed_trans by blast
qed

lemma finishJob_run:
  assumes "graph_inv g J {} hold rank succs sigs" and "slot \<in> J" and "waiting g slot = 0"
  shows "\<exists>g'. finishJob slot r g = Some g'
    \<and> graph_inv g' (J - {slot}) {} hold rank (succs(slot := [])) (sigs(slot := []))
    \<and> handed g g' (J - {slot}) \<and> g_sent g' = g_sent g @ armed g (sigs slot)
    \<and> pool_indexes (g_jobs g') = pool_indexes (g_jobs g)
    \<and> (\<forall>t \<in> pool_indexes (g_jobs g). gen_of g' t = gen_of g t + of_bool (t = slot)
        \<and> sig_gen g' t = (if t = slot then gen_of g t + 1 else sig_gen g t))"
proof -
  note D = graph_invD[OF assms(1)] and N = no_edges_into[OF assms]
  define n where "n = gen_of g slot"
  define g1 where "g1 = set_words slot n closedList g"
  have inv1: "graph_inv g1 J {slot} hold rank succs sigs"
    unfolding g1_def using set_words_inv[OF assms(1,2) N] by simp
  note j1 = set_words_job[OF D(1) assms(2), where n = n and h = closedList, folded g1_def]
  have at1: "succ_at g1 = succ_at g" "sig_at g1 = sig_at g" by (simp_all add: g1_def set_words_def)
  have chains: "chain (succ_nxt g) (succ_head g slot) (succs slot)" "chain (sig_nxt g1) (sig_head g slot) (sigs slot)"
    using D(3,4) assms(2) sig_views[OF at1(2)] by (simp_all add: lists_inv_def)
  have arm: "armed g1 (sigs slot) = armed g (sigs slot)" using at1 by (simp add: armed_def)
  obtain g2 where g2: "send_signals (sig_head g slot) g1 = Some g2"
    "graph_inv g2 J {slot} hold rank succs (sigs(slot := []))" "g_jobs g2 = g_jobs g1"
    "g_succ g2 = g_succ g1" "g_arrived g2 = g_arrived g1" "g_sent g2 = g_sent g1 @ armed g1 (sigs slot)"
    using send_signals_run[OF inv1 _ refl chains(2)] by blast
  note v2 = job_views[OF same_pools(1)[OF g2(3)]]
  have "chain (succ_nxt g2) (succ_head g slot) (succs slot)"
    using chains(1) succ_views(1)[OF same_pools(2)[OF g2(4)]] succ_views(1)[OF at1(1)] by simp
  from settle_successors_run[OF g2(2) _ refl this, where r = r] obtain g3 where
    g3: "settle_successors r (succ_head g slot) g2 = Some g3"
    "graph_inv g3 J {slot} hold rank (succs(slot := [])) (sigs(slot := []))" "handed g2 g3 J"
    "g_sent g3 = g_sent g2" "pool_indexes (g_jobs g3) = pool_indexes (g_jobs g2)"
    "\<forall>t \<in> pool_indexes (g_jobs g2). gen_of g3 t = gen_of g2 t \<and> sig_gen g3 t = sig_gen g2 t"
    by blast
  note D3 = graph_invD[OF g3(2)]
  define g4 where "g4 = set_words slot (n + 1) closedList g3"
  have inv4: "graph_inv g4 J {slot} hold rank (succs(slot := [])) (sigs(slot := []))"
    unfolding g4_def using set_words_inv[OF g3(2) assms(2) N(1)] D3(8) by auto
  note j4 = set_words_job[OF D3(1) assms(2), where n = "n + 1" and h = closedList, folded g4_def]
  define g' where "g' = g4\<lparr>g_jobs := p_release (g_jobs g4) slot\<rparr>"
  have at': "job_at g' = job_at g4" by (simp add: g'_def job_at_def fun_eq_iff)
  note v' = job_views[OF at']
  have run: "finishJob slot r g = Some g'"
    using g2(1) g3(1)
    by (simp add: finishJob_def Let_def g'_def g4_def g1_def n_def gen_of_def succ_head_def sig_head_def
        set_words_def)
  have idx: "pool_indexes (g_jobs g') = pool_indexes (g_jobs g)"
    using g3(5) g2(3) by (simp add: g'_def g4_def g1_def)
  have hand: "handed g g' (J - {slot})"
  proof (rule handed_subset)
    show "handed g g' J"
      by (rule handed_cong[OF _ _ _ _ g3(3)])
        (use j1(5,6) j4(5,6) v2 v' g2(5) live_index[OF D(1)] live_index[OF D3(1)] in
          \<open>simp_all add: g1_def g'_def g4_def\<close>)
    show "waiting g slot = 0" by (rule assms(3))
  qed
  have gen: "gen_of g' t = gen_of g t + of_bool (t = slot)
      \<and> sig_gen g' t = (if t = slot then gen_of g t + 1 else sig_gen g t)" if "t \<in> pool_indexes (g_jobs g)" for t
  proof -
    have "t \<in> pool_indexes (g_jobs g2)" "t \<in> pool_indexes (g_jobs g3)"
      using that g2(3) g3(5) by (simp_all add: g1_def)
    then show ?thesis
      using j4(1,4)[of t] g3(6) v2(3,6) j1(1,4)[OF that] v'(3,6) n_def by auto
  qed
  have sent: "g_sent g' = g_sent g @ armed g (sigs slot)"
    using g3(4) g2(6) arm by (simp add: g'_def g4_def g1_def)
  show ?thesis
    using run release_job_inv[OF inv4 fun_upd_same fun_upd_same, folded g'_def] hand idx gen sent by blast
qed

section \<open>Scheduling\<close>

lemma head_open:
  assumes "graph_inv g J {} hold rank succs sigs" and "s \<in> J"
  shows "succ_head g s \<noteq> closedList" and "sig_head g s \<noteq> closedList"
proof -
  note D = graph_invD[OF assms(1)]
  have zero: "p_none \<noteq> closedList" by (simp add: p_none_def closedList_def)
  have "h \<noteq> closedList" if "lists_inv p nxt J {} head ls" "h = head s" for p :: "'e pool" and nxt head ls h
  proof (cases "ls s")
    case Nil
    then show ?thesis using that assms(2) zero by (auto simp: lists_inv_def)
  next
    case (Cons e es)
    then have "h = e" "e \<in> list_edges J ls"
      using that assms(2) by (auto simp: lists_inv_def list_edges_def intro: bexI[of _ s])
    then show ?thesis
      using not_closedList[of p "list_edges J ls" e] that(1) by (simp add: lists_inv_def)
  qed
  from this[OF D(3) refl] this[OF D(4) refl]
  show "succ_head g s \<noteq> closedList" "sig_head g s \<noteq> closedList" .
qed

lemma succ_at_upd:
  assumes "pool_inv p E" and "e \<in> E" and "x \<in> E"
  shows "succ_at (g\<lparr>g_succ := p_put p e v\<rparr>) x = (if x = e then v else succ_at (g\<lparr>g_succ := p\<rparr>) x)"
  using p_put_at[OF assms, of v] by (auto simp: succ_at_def)

text \<open>A new edge in the pool, not yet in a list: what the pool holds otherwise is kept.\<close>

definition new_edge :: "u32 \<Rightarrow> bool \<Rightarrow> 'r job_graph \<Rightarrow> u32 \<times> succ_edge pool" where
  "new_edge successor feeds g =
     (case p_acquire zero_succ (g_succ g) of (edge, pool) \<Rightarrow>
        (edge, p_put pool edge \<lparr>se_next = 0, se_successor = successor, se_feeds = feeds\<rparr>))"

lemma new_edge_spec:
  assumes "pool_inv (g_succ g) E" and "length (p_chunks (g_succ g)) < 2 ^ 24 - 1"
    and "new_edge t f g = (edge, pool)"
  shows "edge \<notin> E" and "pool_inv pool (insert edge E)" and "length (p_chunks pool) \<le> Suc (length (p_chunks (g_succ g)))"
    and "\<And>x. x \<in> E \<Longrightarrow> p_at pool x = p_at (g_succ g) x"
    and "p_at pool edge = Some \<lparr>se_next = 0, se_successor = t, se_feeds = f\<rparr>"
proof -
  have room: "pool_room E 1"
    by (rule chunks_room[OF assms(1)]) (use assms(2) in simp)
  obtain p1 where p1: "p_acquire zero_succ (g_succ g) = (edge, p1)"
    and pool: "pool = p_put p1 edge \<lparr>se_next = 0, se_successor = t, se_feeds = f\<rparr>"
    using assms(3) by (auto simp: new_edge_def split: prod.splits)
  note acq = p_acquire_inv[OF assms(1) room, of zero_succ, unfolded p1 fst_conv snd_conv]
  show "edge \<notin> E" by (rule acq(2))
  show "pool_inv pool (insert edge E)" using acq(1) by (simp add: pool p_put_inv)
  show "length (p_chunks pool) \<le> Suc (length (p_chunks (g_succ g)))"
    using p_acquire_chunks[of zero_succ "g_succ g"] p1 by (simp add: pool)
  show "p_at pool x = p_at (g_succ g) x" if "x \<in> E" for x
    using that acq(2) p_put_at[OF acq(1), of edge x] pool.acquire_at[OF assms(1) that, of zero_succ] p1
    by (auto simp: pool)
  show "p_at pool edge = Some \<lparr>se_next = 0, se_successor = t, se_feeds = f\<rparr>"
    using p_put_at[OF acq(1), of edge edge] by (simp add: pool)
qed

text \<open>\<open>addSuccessor\<close> with the list word read: pushed, or given back.\<close>

lemma addSuccessor_eq:
  assumes "pool_inv (g_jobs g) J" and "slot \<in> J" and "jh_slot p \<noteq> p_none"
    and "jh_slot p \<in> pool_indexes (g_jobs g)" and "new_edge slot f g = (edge, pool)"
  shows "addSuccessor p slot f g =
    (if gen_of g (jh_slot p) = jh_generation p \<and> succ_head g (jh_slot p) \<noteq> closedList
     then (True, upd_job (jh_slot p) (\<lambda>j. j\<lparr>jb_successors := packList (jh_generation p) edge\<rparr>)
            ((upd_job slot (\<lambda>j. j\<lparr>jb_waiting := jb_waiting j + 1\<rparr>) g)
               \<lparr>g_succ := p_put pool edge ((case p_at pool edge of Some x \<Rightarrow> x | None \<Rightarrow> zero_succ)
                              \<lparr>se_next := succ_head g (jh_slot p)\<rparr>)\<rparr>))
     else (False, upd_job slot (\<lambda>j. j\<lparr>jb_waiting := jb_waiting j - 1\<rparr>)
            ((upd_job slot (\<lambda>j. j\<lparr>jb_waiting := jb_waiting j + 1\<rparr>) g)\<lparr>g_succ := p_release pool edge\<rparr>)))"
proof -
  let ?g1 = "upd_job slot (\<lambda>j. j\<lparr>jb_waiting := jb_waiting j + 1\<rparr>) g"
  obtain p1 where p1: "p_acquire zero_succ (g_succ g) = (edge, p1)"
    and pool: "pool = p_put p1 edge \<lparr>se_next = 0, se_successor = slot, se_feeds = f\<rparr>"
    using assms(5) by (auto simp: new_edge_def split: prod.splits)
  have word: "unpackList (jb_successors (job_at (?g1\<lparr>g_succ := pool\<rparr>) (jh_slot p))) =
      (gen_of g (jh_slot p), succ_head g (jh_slot p))"
    using job_at_upd[OF assms(1,2,4)] by (simp add: job_at_def gen_of_def succ_head_def)
  have at: "succ_at (?g1\<lparr>g_succ := pool\<rparr>) edge = (case p_at pool edge of Some x \<Rightarrow> x | None \<Rightarrow> zero_succ)"
    by (simp add: succ_at_def)
  show ?thesis
    unfolding addSuccessor_def Let_def
    by (simp add: assms(3) p1 pool[symmetric] link_def word at)
qed

text \<open>What adding \<open>n\<close> edges to one job in \<open>k\<close> attempts does: it waits for \<open>n\<close> more.\<close>

definition edges_added :: "nat \<Rightarrow> nat \<Rightarrow> u32 \<Rightarrow> 'r job_graph \<Rightarrow> 'r job_graph \<Rightarrow> bool" where
  "edges_added n k slot g g' \<longleftrightarrow>
     (\<forall>t \<in> pool_indexes (g_jobs g). gen_of g' t = gen_of g t \<and> sig_gen g' t = sig_gen g t
        \<and> graph_task g' t = graph_task g t \<and> waiting g' t = waiting g t + (if t = slot then int n else 0))
     \<and> pool_indexes (g_jobs g') = pool_indexes (g_jobs g) \<and> g_arrived g' = g_arrived g \<and> g_sent g' = g_sent g
     \<and> length (p_chunks (g_succ g')) \<le> length (p_chunks (g_succ g)) + k"

lemma edges_added_trans:
  "edges_added n k slot g g1 \<Longrightarrow> edges_added m l slot g1 g2 \<Longrightarrow> edges_added (n + m) (k + l) slot g g2"
  by (auto simp: edges_added_def)

lemma add_refused:
  assumes "graph_inv g J {} hold rank succs sigs" and "slot \<in> J"
    and "length (p_chunks (g_succ g)) < 2 ^ 24 - 1" and "new_edge slot f g = (edge, pool)"
  defines "g' \<equiv> upd_job slot (\<lambda>j. j\<lparr>jb_waiting := jb_waiting j - 1\<rparr>)
    ((upd_job slot (\<lambda>j. j\<lparr>jb_waiting := jb_waiting j + 1\<rparr>) g)\<lparr>g_succ := p_release pool edge\<rparr>)"
  shows "graph_inv g' J {} hold rank succs sigs" and "edges_added 0 1 slot g g'"
proof -
  note D = graph_invD[OF assms(1)]
  let ?E = "list_edges J succs"
  have pool: "pool_inv (g_succ g) ?E" using D(3) by (simp add: lists_inv_def)
  note ne = new_edge_spec[OF pool assms(3,4)]
  have jobs: "job_at g' t = job_at g t" if "t \<in> pool_indexes (g_jobs g)" for t
  proof -
    let ?g1 = "upd_job slot (\<lambda>j. j\<lparr>jb_waiting := jb_waiting j + 1\<rparr>) g"
    have inv: "pool_inv (g_jobs (?g1\<lparr>g_succ := p_release pool edge\<rparr>)) J"
      using D(1) by simp
    have "job_at (?g1\<lparr>g_succ := p_release pool edge\<rparr>) = job_at ?g1"
      by (simp add: job_at_def fun_eq_iff)
    then show ?thesis
      using job_at_upd[OF inv assms(2)] job_at_upd[OF D(1) assms(2)] that live_index[OF D(1) assms(2)]
      by (simp add: g'_def)
  qed
  have at: "succ_at g' x = succ_at g x" if "x \<in> ?E" for x
    using ne(4)[OF that] by (simp add: g'_def succ_at_def)
  have sig: "sig_at g' = sig_at g" by (simp add: g'_def sig_at_def fun_eq_iff)
  have fields: "g_sigs g' = g_sigs g" "g_succ g' = p_release pool edge"
    "pool_indexes (g_jobs g') = pool_indexes (g_jobs g)" "g_arrived g' = g_arrived g" "g_sent g' = g_sent g"
    "length (p_chunks (g_jobs g')) = length (p_chunks (g_jobs g))"
    by (simp_all add: g'_def)
  have into: "edges_into g' ?E s = edges_into g ?E s" for s
    using at by (auto simp: edges_into_def target_def)
  note live = live_index[OF D(1)]
  show "edges_added 0 1 slot g g'"
    using jobs ne(3) fields by (simp add: edges_added_def gen_of_def sig_gen_def graph_task_def waiting_def)
  show "graph_inv g' J {} hold rank succs sigs"
  proof (rule graph_invI)
    show "pool_inv (g_jobs g') J" "length (p_chunks (g_jobs g')) < 2 ^ 24"
      using D(1,2) by (simp_all add: g'_def)
    have "pool_inv (p_release pool edge) ?E"
      using p_release_inv[OF ne(2), of edge] ne(1) by simp
    then have "lists_inv (g_succ g') (succ_nxt g) J {} (succ_head g) succs"
      using D(3) ne(3) assms(3) fields(2) by (simp add: lists_inv_def)
    then show "lists_inv (g_succ g') (succ_nxt g') J {} (succ_head g') succs"
      by (rule lists_inv_cong) (use at jobs live in \<open>simp_all add: succ_nxt_def succ_head_def\<close>)
    show "lists_inv (g_sigs g') (sig_nxt g') J {} (sig_head g') sigs"
      unfolding fields(1) by (rule lists_inv_cong[OF D(4)])
        (use sig jobs live in \<open>simp_all add: sig_nxt_def sig_head_def\<close>)
    show "fst (unpackList (jb_signals (job_at g' s))) = gen_of g' s" if "s \<in> J" for s
      using D(5)[OF that] jobs[OF live[OF that]] by (simp add: gen_of_def)
    show "hold \<subseteq> J - {}" "{} \<subseteq> J" using D(6) by auto
    show "target g' e \<in> J - {} \<and> rank s < rank (target g' e)" if "s \<in> J" "e \<in> set (succs s)" for s e
    proof -
      have "e \<in> ?E" using that by (auto simp: list_edges_def)
      then show ?thesis using D(8)[OF that] at by (simp add: target_def)
    qed
    show "waiting g' s = of_bool (s \<in> hold) + int (card (edges_into g' ?E s))" if "s \<in> J" for s
      using D(9)[OF that] jobs[OF live[OF that]] into by (simp add: waiting_def)
  qed
qed

lemma add_linked:
  assumes "graph_inv g J {} hold rank succs sigs" and "slot \<in> J" and "ps \<in> J" and "ps \<noteq> slot"
    and "rank ps < rank slot"
    and "length (p_chunks (g_succ g)) < 2 ^ 24 - 1" and "new_edge slot f g = (edge, pool)"
  defines "g' \<equiv> upd_job ps (\<lambda>j. j\<lparr>jb_successors := packList (gen_of g ps) edge\<rparr>)
    ((upd_job slot (\<lambda>j. j\<lparr>jb_waiting := jb_waiting j + 1\<rparr>) g)
       \<lparr>g_succ := p_put pool edge ((case p_at pool edge of Some x \<Rightarrow> x | None \<Rightarrow> zero_succ)\<lparr>se_next := succ_head g ps\<rparr>)\<rparr>)"
  shows "graph_inv g' J {} hold rank (succs(ps := edge # succs ps)) sigs" and "edges_added 1 1 slot g g'"
proof -
  note D = graph_invD[OF assms(1)]
  let ?E = "list_edges J succs"
  have pool: "pool_inv (g_succ g) ?E" using D(3) by (simp add: lists_inv_def)
  note ne = new_edge_spec[OF pool assms(6,7)]
  define v where "v = \<lparr>se_next = succ_head g ps, se_successor = slot, se_feeds = f\<rparr>"
  define p' where "p' = p_put pool edge v"
  have g': "g' = upd_job ps (\<lambda>j. j\<lparr>jb_successors := packList (gen_of g ps) edge\<rparr>)
      ((upd_job slot (\<lambda>j. j\<lparr>jb_waiting := jb_waiting j + 1\<rparr>) g)\<lparr>g_succ := p'\<rparr>)"
    by (simp add: g'_def ne(5) p'_def v_def)
  have jobs: "job_at g' t = (if t = ps then (job_at g ps)\<lparr>jb_successors := packList (gen_of g ps) edge\<rparr>
      else if t = slot then (job_at g slot)\<lparr>jb_waiting := jb_waiting (job_at g slot) + 1\<rparr> else job_at g t)"
    if "t \<in> pool_indexes (g_jobs g)" for t
  proof -
    let ?g1 = "upd_job slot (\<lambda>j. j\<lparr>jb_waiting := jb_waiting j + 1\<rparr>) g"
    have inv: "pool_inv (g_jobs (?g1\<lparr>g_succ := p'\<rparr>)) J"
      using D(1) by simp
    have "job_at (?g1\<lparr>g_succ := p'\<rparr>) = job_at ?g1"
      by (simp add: job_at_def fun_eq_iff)
    then show ?thesis
      using job_at_upd[OF inv assms(3)] job_at_upd[OF D(1) assms(2)] that live_index[OF D(1) assms(2)]
        live_index[OF D(1) assms(3)] assms(4)
      by (simp add: g')
  qed
  have at: "succ_at g' x = (if x = edge then v else succ_at g x)" if "x \<in> insert edge ?E" for x
    using p_put_at[OF ne(2) _ that, of edge v] ne(1) ne(4)[of x] that
    by (auto simp: g' p'_def succ_at_def)
  have sig: "sig_at g' = sig_at g" by (simp add: g' sig_at_def fun_eq_iff)
  have fields: "g_sigs g' = g_sigs g" "g_succ g' = p'"
    "pool_indexes (g_jobs g') = pool_indexes (g_jobs g)" "g_arrived g' = g_arrived g" "g_sent g' = g_sent g"
    "length (p_chunks (g_jobs g')) = length (p_chunks (g_jobs g))"
    by (simp_all add: g')
  note live = live_index[OF D(1)]
  show "edges_added 1 1 slot g g'"
    using jobs ne(3) fields assms(4)
    by (auto simp: edges_added_def gen_of_def sig_gen_def graph_task_def waiting_def p'_def)
  have E': "list_edges J (succs(ps := edge # succs ps)) = insert edge ?E"
    using assms(3) by (auto simp: list_edges_def split: if_splits)
  have into: "edges_into g' (insert edge ?E) s = (if s = slot then insert edge (edges_into g ?E s) else edges_into g ?E s)" for s
    using at ne(1) by (auto simp: edges_into_def target_def v_def split: if_splits)
  show "graph_inv g' J {} hold rank (succs(ps := edge # succs ps)) sigs"
  proof (rule graph_invI)
    show "pool_inv (g_jobs g') J" "length (p_chunks (g_jobs g')) < 2 ^ 24"
      using D(1,2) by (simp_all add: g')
    show "lists_inv (g_succ g') (succ_nxt g') J {} (succ_head g') (succs(ps := edge # succs ps))"
    proof (rule lists_inv_push[OF D(3)])
      show "pool_inv (g_succ g') (insert edge ?E)" "length (p_chunks (g_succ g')) < 2 ^ 24"
        using ne(2,3) assms(6) by (simp_all add: fields p'_def p_put_inv)
    qed (use assms(3) ne(1) at jobs live in \<open>auto simp: succ_nxt_def succ_head_def v_def\<close>)
    show "lists_inv (g_sigs g') (sig_nxt g') J {} (sig_head g') sigs"
      unfolding fields(1) by (rule lists_inv_cong[OF D(4)])
        (use sig jobs live in \<open>simp_all add: sig_nxt_def sig_head_def\<close>)
    show "fst (unpackList (jb_signals (job_at g' s))) = gen_of g' s" if "s \<in> J" for s
      using D(5)[OF that] jobs[OF live[OF that]] by (auto simp: gen_of_def)
    show "hold \<subseteq> J - {}" "{} \<subseteq> J" using D(6) by auto
    show "target g' e \<in> J - {} \<and> rank s < rank (target g' e)"
      if "s \<in> J" "e \<in> set ((succs(ps := edge # succs ps)) s)" for s e
    proof (cases "e = edge")
      case True
      then have "s = ps" using that ne(1) by (auto simp: list_edges_def split: if_splits)
      then show ?thesis using True at assms(2,5) by (simp add: target_def v_def)
    next
      case False
      then have "e \<in> set (succs s)" "e \<in> ?E"
        using that by (auto simp: list_edges_def split: if_splits)
      then show ?thesis using D(8)[OF that(1)] at False by (simp add: target_def)
    qed
    show "waiting g' s = of_bool (s \<in> hold) + int (card (edges_into g' (list_edges J (succs(ps := edge # succs ps))) s))"
      if "s \<in> J" for s
    proof -
      have "edge \<notin> edges_into g ?E s" using ne(1) by (simp add: edges_into_def)
      then have "int (card (edges_into g' (insert edge ?E) s)) = int (card (edges_into g ?E s)) + of_bool (s = slot)"
        using into[of s] by (cases "s = slot") auto
      moreover have "waiting g' s = waiting g s + of_bool (s = slot)"
        using jobs[OF live[OF that]] assms(4) by (simp add: waiting_def)
      ultimately show ?thesis using D(9)[OF that] E' by simp
    qed
  qed
qed

lemma addSuccessor_run:
  assumes "graph_inv g J {} hold rank succs sigs" and "slot \<in> J"
    and "\<And>s. s \<in> J \<Longrightarrow> s \<noteq> slot \<Longrightarrow> rank s < rank slot"
    and "known_handle g J p" and "names_job g J p \<Longrightarrow> jh_slot p \<noteq> slot"
    and "length (p_chunks (g_succ g)) < 2 ^ 24 - 1"
  shows "\<exists>g' succs'. addSuccessor p slot f g = (names_job g J p, g')
    \<and> graph_inv g' J {} hold rank succs' sigs \<and> edges_added (of_bool (names_job g J p)) 1 slot g g'"
proof (cases "jh_slot p = p_none")
  case True
  have "p_none \<notin> J"
    using pool_inv_held(1)[OF graph_invD(1)[OF assms(1)]] by (auto simp: p_none_def)
  then have "\<not> names_job g J p" using True by (simp add: names_job_def)
  then show ?thesis
    using True assms(1) by (auto simp: addSuccessor_def edges_added_def)
next
  case False
  then have idx: "jh_slot p \<in> pool_indexes (g_jobs g)"
    using assms(4) by (simp add: known_handle_def)
  obtain edge pool where e: "new_edge slot f g = (edge, pool)" by fastforce
  note eq = addSuccessor_eq[OF graph_invD(1)[OF assms(1)] assms(2) False idx e]
  have iff: "gen_of g (jh_slot p) = jh_generation p \<and> succ_head g (jh_slot p) \<noteq> closedList \<longleftrightarrow> names_job g J p"
    using head_open(1)[OF assms(1)] assms(4) False by (auto simp: names_job_def known_handle_def)
  show ?thesis
  proof (cases "names_job g J p")
    case True
    then have p: "jh_slot p \<in> J" "jh_slot p \<noteq> slot" "jh_generation p = gen_of g (jh_slot p)"
      using assms(5) by (auto simp: names_job_def)
    note linked = add_linked[OF assms(1,2) p(1,2) assms(3)[OF p(1,2)] assms(6) e]
    show ?thesis
      using linked eq True head_open(1)[OF assms(1) p(1)] p(3) by auto
  next
    case False
    then show ?thesis
      using add_refused[OF assms(1,2,6) e] eq unfolding iff by auto
  qed
qed

lemma edges_added_handles:
  assumes "edges_added n k slot g g'" and "J \<subseteq> pool_indexes (g_jobs g)"
  shows "known_handle g' J = known_handle g J" and "names_job g' J = names_job g J"
  using assms by (auto simp: edges_added_def known_handle_def names_job_def fun_eq_iff)

text \<open>The dependencies of a new job, one after another.\<close>

lemma addSuccessors_run:
  assumes "graph_inv g J {} hold rank succs sigs" and "slot \<in> J"
    and "\<And>s. s \<in> J \<Longrightarrow> s \<noteq> slot \<Longrightarrow> rank s < rank slot"
    and "\<And>p. p \<in> set deps \<Longrightarrow> known_handle g J p \<and> (names_job g J p \<longrightarrow> jh_slot p \<noteq> slot)"
    and "length (p_chunks (g_succ g)) + length deps < 2 ^ 24"
  shows "\<exists>succs'. graph_inv (fold (\<lambda>p g. snd (addSuccessor p slot f g)) deps g) J {} hold rank succs' sigs
    \<and> edges_added (length (filter (names_job g J) deps)) (length deps) slot g
        (fold (\<lambda>p g. snd (addSuccessor p slot f g)) deps g)"
  using assms(1,4,5)
proof (induction deps arbitrary: g succs)
  case Nil
  then show ?case by (auto simp: edges_added_def)
next
  case (Cons p deps)
  have room: "length (p_chunks (g_succ g)) < 2 ^ 24 - 1" using Cons.prems(3) by simp
  obtain g1 succs1 where g1: "addSuccessor p slot f g = (names_job g J p, g1)"
    "graph_inv g1 J {} hold rank succs1 sigs" "edges_added (of_bool (names_job g J p)) 1 slot g g1"
    using addSuccessor_run[OF Cons.prems(1) assms(2,3), of p f] Cons.prems(2) room by auto
  have live: "J \<subseteq> pool_indexes (g_jobs g)"
    using live_index[OF graph_invD(1)[OF Cons.prems(1)]] by blast
  note handles = edges_added_handles[OF g1(3) live]
  have "length (p_chunks (g_succ g1)) + length deps < 2 ^ 24"
    using g1(3) Cons.prems(3) by (simp add: edges_added_def)
  moreover have "\<And>q. q \<in> set deps \<Longrightarrow> known_handle g1 J q \<and> (names_job g1 J q \<longrightarrow> jh_slot q \<noteq> slot)"
    using Cons.prems(2) handles by simp
  ultimately obtain succs2 where
    "graph_inv (fold (\<lambda>p g. snd (addSuccessor p slot f g)) deps g1) J {} hold rank succs2 sigs"
    "edges_added (length (filter (names_job g J) deps)) (length deps) slot g1
       (fold (\<lambda>p g. snd (addSuccessor p slot f g)) deps g1)"
    using Cons.IH[OF g1(2)] handles by auto
  moreover have "of_bool (names_job g J p) + length (filter (names_job g J) deps) =
      length (filter (names_job g J) (p # deps))" by simp
  ultimately show ?case
    using edges_added_trans[OF g1(3)] g1(1) by fastforce
qed

text \<open>The new slot, before its dependencies: a job that waits for its hold only.\<close>

definition open_job :: "u32 \<Rightarrow> u32 \<Rightarrow> 'r job_graph \<Rightarrow> u32 \<times> 'r job_graph" where
  "open_job task arg g =
     (case p_acquire zero_job (g_jobs g) of (slot, pool) \<Rightarrow>
        let g1 = g\<lparr>g_jobs := pool\<rparr>; generation = gen_of g1 slot
        in (slot, upd_job slot (\<lambda>j. j\<lparr>jb_task := task, jb_arg := arg,
              jb_successors := packList generation p_none, jb_signals := packList generation p_none,
              jb_waiting := 1\<rparr>) g1))"

lemma open_job_spec:
  assumes "pool_inv (g_jobs g) J" and "length (p_chunks (g_jobs g)) < 2 ^ 24 - 1"
    and "open_job task arg g = (slot, g')"
  shows "slot \<notin> J" and "pool_inv (g_jobs g') (insert slot J)" and "length (p_chunks (g_jobs g')) < 2 ^ 24"
    and "pool_indexes (g_jobs g) \<subseteq> pool_indexes (g_jobs g')"
    and "\<And>t. t \<in> pool_indexes (g_jobs g) \<Longrightarrow> t \<noteq> slot \<Longrightarrow> job_at g' t = job_at g t"
    and "slot \<in> pool_indexes (g_jobs g) \<Longrightarrow> gen_of g' slot = gen_of g slot \<and> sig_gen g' slot = gen_of g slot"
    and "succ_head g' slot = p_none" and "sig_head g' slot = p_none"
    and "fst (unpackList (jb_signals (job_at g' slot))) = gen_of g' slot"
    and "waiting g' slot = 1" and "graph_task g' slot = task" and "graph_arg g' slot = arg"
proof -
  have room: "pool_room J 1"
    by (rule chunks_room[OF assms(1)]) (use assms(2) in simp)
  obtain pool where a: "p_acquire zero_job (g_jobs g) = (slot, pool)"
    using assms(3) by (auto simp: open_job_def Let_def split: prod.splits)
  let ?g1 = "g\<lparr>g_jobs := pool\<rparr>"
  have g': "g' = upd_job slot (\<lambda>j. j\<lparr>jb_task := task, jb_arg := arg,
      jb_successors := packList (gen_of ?g1 slot) p_none, jb_signals := packList (gen_of ?g1 slot) p_none,
      jb_waiting := 1\<rparr>) ?g1"
    using assms(3) by (simp add: open_job_def a Let_def)
  note acq = p_acquire_inv[OF assms(1) room, of zero_job, unfolded a fst_conv snd_conv]
  have inv1: "pool_inv (g_jobs ?g1) (insert slot J)" using acq(1) by simp
  show "slot \<notin> J" by (rule acq(2))
  show "pool_inv (g_jobs g') (insert slot J)" using inv1 by (simp add: g')
  show "length (p_chunks (g_jobs g')) < 2 ^ 24"
    using p_acquire_chunks[of zero_job "g_jobs g"] a assms(2) by (simp add: g')
  show sub: "pool_indexes (g_jobs g) \<subseteq> pool_indexes (g_jobs g')"
    using pool_indexes_acquire[of "g_jobs g" zero_job] a by (simp add: g')
  have at1: "job_at ?g1 t = job_at g t" if "t \<in> pool_indexes (g_jobs g)" for t
    using p_acquire_at_any[OF assms(1) that, of zero_job] a by (simp add: job_at_def)
  note upd = job_at_upd[OF inv1 insertI1]
  show "job_at g' t = job_at g t" if "t \<in> pool_indexes (g_jobs g)" "t \<noteq> slot" for t
    using that sub at1 upd[of t] by (auto simp: g')
  note self = upd[OF live_index[OF inv1 insertI1]]
  show "gen_of g' slot = gen_of g slot \<and> sig_gen g' slot = gen_of g slot" if "slot \<in> pool_indexes (g_jobs g)"
    using self at1[OF that] by (simp add: g' gen_of_def sig_gen_def)
  show "succ_head g' slot = p_none" "sig_head g' slot = p_none" "waiting g' slot = 1"
    "graph_task g' slot = task" "graph_arg g' slot = arg"
    "fst (unpackList (jb_signals (job_at g' slot))) = gen_of g' slot"
    using self by (simp_all add: g' succ_head_def sig_head_def waiting_def graph_task_def graph_arg_def gen_of_def)
qed

lemma open_job_inv:
  assumes "graph_inv g J {} hold rank succs sigs" and "length (p_chunks (g_jobs g)) < 2 ^ 24 - 1"
    and "open_job task arg g = (slot, g')"
  shows "graph_inv g' (insert slot J) {} (insert slot hold) (rank(slot := n)) (succs(slot := [])) (sigs(slot := []))"
    and "g_succ g' = g_succ g" and "g_sigs g' = g_sigs g" and "g_arrived g' = g_arrived g" and "g_sent g' = g_sent g"
proof -
  note D = graph_invD[OF assms(1)]
  note op = open_job_spec[OF D(1) assms(2,3)]
  show same: "g_succ g' = g_succ g" "g_sigs g' = g_sigs g" "g_arrived g' = g_arrived g" "g_sent g' = g_sent g"
    using assms(3) by (auto simp: open_job_def Let_def split: prod.splits)
  note v = succ_views[OF same_pools(2)[OF same(1)]] sig_views[OF same_pools(3)[OF same(2)]]
  have at: "job_at g' t = job_at g t" if "t \<in> J" for t
    using op(1,5) live_index[OF D(1) that] that by blast
  have E: "list_edges (insert slot J) (succs(slot := [])) = list_edges J succs"
    using op(1) by (auto simp: list_edges_def split: if_splits)
  have none: "edges_into g (list_edges J succs) slot = {}"
    using D(8) op(1) by (fastforce simp: edges_into_def list_edges_def)
  show "graph_inv g' (insert slot J) {} (insert slot hold) (rank(slot := n)) (succs(slot := [])) (sigs(slot := []))"
  proof (rule graph_invI)
    show "lists_inv (g_succ g') (succ_nxt g') (insert slot J) {} (succ_head g') (succs(slot := []))"
      unfolding same v by (rule lists_inv_add[where head' = "succ_head g'", OF D(3) op(1,7)]) (simp add: succ_head_def at)
    show "lists_inv (g_sigs g') (sig_nxt g') (insert slot J) {} (sig_head g') (sigs(slot := []))"
      unfolding same v by (rule lists_inv_add[where head' = "sig_head g'", OF D(4) op(1,8)]) (simp add: sig_head_def at)
    show "fst (unpackList (jb_signals (job_at g' s))) = gen_of g' s" if "s \<in> insert slot J" for s
      using that op(9) D(5) at by (auto simp: gen_of_def)
    show "target g' e \<in> insert slot J - {} \<and> (rank(slot := n)) s < (rank(slot := n)) (target g' e)"
      if "s \<in> insert slot J" "e \<in> set ((succs(slot := [])) s)" for s e
      using that D(8)[of s e] op(1) v by (auto split: if_splits)
    show "waiting g' s = of_bool (s \<in> insert slot hold)
        + int (card (edges_into g' (list_edges (insert slot J) (succs(slot := []))) s))"
      if "s \<in> insert slot J" for s
      using that D(9)[of s] op(10) at none unfolding E v by (auto simp: waiting_def)
  qed (use op(2,3) D(6) in auto)
qed

lemma acquireJob_eq:
  assumes "pool_inv (g_jobs g) J" and "length (p_chunks (g_jobs g)) < 2 ^ 24 - 1"
    and "open_job task arg g = (slot, g1)"
  shows "acquireJob task arg frm deps g =
    (\<lparr>jh_slot = slot, jh_generation = gen_of g1 slot\<rparr>,
     snd (addSuccessor frm slot True (fold (\<lambda>p g. snd (addSuccessor p slot False g)) deps g1)))"
proof -
  have room: "pool_room J 1"
    by (rule chunks_room[OF assms(1)]) (use assms(2) in simp)
  obtain pool where a: "p_acquire zero_job (g_jobs g) = (slot, pool)"
    using assms(3) by (auto simp: open_job_def Let_def split: prod.splits)
  have "pool_inv pool (insert slot J)"
    using p_acquire_inv(1)[OF assms(1) room, of zero_job] a by simp
  then have "pool_inv (g_jobs (g\<lparr>g_jobs := pool\<rparr>)) (insert slot J)" by simp
  note self = job_at_upd[OF this insertI1 live_index[OF this insertI1]]
  show ?thesis
    using assms(3) a self by (auto simp: acquireJob_def open_job_def gen_of_def Let_def)
qed

lemma acquireJob_run:
  assumes "graph_inv g J {} hold rank succs sigs" and "length (p_chunks (g_jobs g)) < 2 ^ 24 - 1"
    and "length (p_chunks (g_succ g)) + length deps + 1 < 2 ^ 24"
    and "\<And>p. p \<in> set (frm # deps) \<Longrightarrow> known_handle g J p"
  shows "\<exists>h g' rank' succs'. acquireJob task arg frm deps g = (h, g') \<and> jh_slot h \<notin> J
    \<and> graph_inv g' (insert (jh_slot h) J) {} (insert (jh_slot h) hold) rank' succs' (sigs(jh_slot h := []))
    \<and> names_job g' (insert (jh_slot h) J) h \<and> g_arrived g' = g_arrived g \<and> g_sent g' = g_sent g
    \<and> waiting g' (jh_slot h) = 1 + int (length (filter (names_job g J) (deps @ [frm])))
    \<and> (\<forall>t \<in> J. waiting g' t = waiting g t \<and> gen_of g' t = gen_of g t)"
proof -
  note D = graph_invD[OF assms(1)]
  obtain slot g1 where o: "open_job task arg g = (slot, g1)" by fastforce
  note op = open_job_spec[OF D(1) assms(2) o]
  define rank' where "rank' = rank(slot := Suc (Max (rank ` J)))"
  note inv1 = open_job_inv(1)[OF assms(1,2) o, where n = "Suc (Max (rank ` J))", folded rank'_def]
  let ?J = "insert slot J"
  have rank: "rank' s < rank' slot" if "s \<in> ?J" "s \<noteq> slot" for s
    using that Max_ge[of "rank ` J" "rank s"] by (auto simp: rank'_def less_Suc_eq_le)
  have handles: "known_handle g1 ?J p \<and> (names_job g1 ?J p \<longrightarrow> jh_slot p \<noteq> slot) \<and> names_job g1 ?J p = names_job g J p"
    if "p \<in> set (frm # deps)" for p
    using assms(4)[OF that] op(1,4,5,6) live_index[OF D(1)] pool_inv_held(1)[OF op(2), of slot]
    by (cases "jh_slot p = slot") (auto simp: known_handle_def names_job_def gen_of_def sig_gen_def p_none_def)
  define g2 where "g2 = fold (\<lambda>p g. snd (addSuccessor p slot False g)) deps g1"
  have same: "g_succ g1 = g_succ g" "g_arrived g1 = g_arrived g" "g_sent g1 = g_sent g"
    using open_job_inv(2-5)[OF assms(1,2) o] by simp_all
  have room1: "length (p_chunks (g_succ g1)) + length deps < 2 ^ 24"
    using assms(3) same by simp
  have h1: "known_handle g1 ?J p \<and> (names_job g1 ?J p \<longrightarrow> jh_slot p \<noteq> slot)" if "p \<in> set deps" for p
    using handles[of p] that by simp
  obtain succs2 where g2: "graph_inv g2 ?J {} (insert slot hold) rank' succs2 (sigs(slot := []))"
    "edges_added (length (filter (names_job g1 ?J) deps)) (length deps) slot g1 g2"
    using addSuccessors_run[OF inv1 insertI1 rank h1 room1, where f = False] unfolding g2_def by blast
  have live1: "?J \<subseteq> pool_indexes (g_jobs g1)" using live_index[OF op(2)] by blast
  note hh = edges_added_handles[OF g2(2) live1]
  have room2: "length (p_chunks (g_succ g2)) < 2 ^ 24 - 1"
    using g2(2) assms(3) same by (simp add: edges_added_def)
  obtain g3 succs3 where g3: "addSuccessor frm slot True g2 = (names_job g2 ?J frm, g3)"
    "graph_inv g3 ?J {} (insert slot hold) rank' succs3 (sigs(slot := []))"
    "edges_added (of_bool (names_job g2 ?J frm)) 1 slot g2 g3"
    using addSuccessor_run[OF g2(1) insertI1 rank, where p = frm and f = True] handles[of frm] hh room2 by auto
  define h where "h = \<lparr>jh_slot = slot, jh_generation = gen_of g1 slot\<rparr>"
  have run: "acquireJob task arg frm deps g = (h, g3)"
    using acquireJob_eq[OF D(1) assms(2) o] g3(1) by (simp add: g2_def[symmetric] h_def)
  have count: "length (filter (names_job g1 ?J) deps) + of_bool (names_job g2 ?J frm) =
      length (filter (names_job g J) (deps @ [frm]))"
    using handles hh by (auto intro!: arg_cong[where f = length] filter_cong)
  note added = edges_added_trans[OF g2(2) g3(3), unfolded count]
  have self: "slot \<in> pool_indexes (g_jobs g1)" using live1 by simp
  have w: "waiting g3 slot = 1 + int (length (filter (names_job g J) (deps @ [frm])))"
    using added self op(10) by (simp add: edges_added_def)
  have others: "waiting g3 t = waiting g t \<and> gen_of g3 t = gen_of g t" if "t \<in> J" for t
  proof -
    have t: "t \<in> pool_indexes (g_jobs g1)" "t \<noteq> slot" "job_at g1 t = job_at g t"
      using that live1 op(1) op(5)[OF live_index[OF D(1) that]] by auto
    then show ?thesis
      using added by (simp add: edges_added_def waiting_def gen_of_def)
  qed
  have "names_job g3 ?J h"
    using added self by (simp add: names_job_def h_def edges_added_def)
  then show ?thesis
    using run g3(2) op(1) w others added same
    by (intro exI[of _ h] exI[of _ g3] exI[of _ rank'] exI[of _ succs3])
      (simp add: h_def edges_added_def del: fun_upd_apply)
qed

section \<open>Signals\<close>

definition new_sig :: "nat \<Rightarrow> 'r job_graph \<Rightarrow> u32 \<times> sig_edge pool" where
  "new_sig sig g = (case p_acquire zero_sig (g_sigs g) of (edge, pool) \<Rightarrow>
     (edge, p_put pool edge \<lparr>ge_next = 0, ge_signal = Some sig\<rparr>))"

lemma new_sig_spec:
  assumes "pool_inv (g_sigs g) E" and "length (p_chunks (g_sigs g)) < 2 ^ 24 - 1"
    and "new_sig sig g = (edge, pool)"
  shows "edge \<notin> E" and "pool_inv pool (insert edge E)" and "length (p_chunks pool) < 2 ^ 24"
    and "\<And>x. x \<in> E \<Longrightarrow> p_at pool x = p_at (g_sigs g) x"
    and "p_at pool edge = Some \<lparr>ge_next = 0, ge_signal = Some sig\<rparr>"
proof -
  have room: "pool_room E 1"
    by (rule chunks_room[OF assms(1)]) (use assms(2) in simp)
  obtain p1 where p1: "p_acquire zero_sig (g_sigs g) = (edge, p1)"
    and pool: "pool = p_put p1 edge \<lparr>ge_next = 0, ge_signal = Some sig\<rparr>"
    using assms(3) by (auto simp: new_sig_def split: prod.splits)
  note acq = p_acquire_inv[OF assms(1) room, of zero_sig, unfolded p1 fst_conv snd_conv]
  show "edge \<notin> E" by (rule acq(2))
  show "pool_inv pool (insert edge E)" using acq(1) by (simp add: pool p_put_inv)
  show "length (p_chunks pool) < 2 ^ 24"
    using p_acquire_chunks[of zero_sig "g_sigs g"] p1 assms(2) by (simp add: pool)
  show "p_at pool x = p_at (g_sigs g) x" if "x \<in> E" for x
    using that acq(2) p_put_at[OF acq(1), of edge x] pool.acquire_at[OF assms(1) that, of zero_sig] p1
    by (auto simp: pool)
  show "p_at pool edge = Some \<lparr>ge_next = 0, ge_signal = Some sig\<rparr>"
    using p_put_at[OF acq(1), of edge edge] by (simp add: pool)
qed

text \<open>A change of the signal edges and signal words alone.\<close>

lemma graph_inv_sigs:
  assumes "graph_inv g J {} hold rank succs sigs"
    and "g_succ g' = g_succ g" and "pool_inv (g_jobs g') J" and "length (p_chunks (g_jobs g')) < 2 ^ 24"
    and "\<And>s. s \<in> J \<Longrightarrow> jb_successors (job_at g' s) = jb_successors (job_at g s)
      \<and> jb_waiting (job_at g' s) = jb_waiting (job_at g s)
      \<and> fst (unpackList (jb_signals (job_at g' s))) = fst (unpackList (jb_signals (job_at g s)))"
    and "lists_inv (g_sigs g') (sig_nxt g') J {} (sig_head g') sigs'"
  shows "graph_inv g' J {} hold rank succs sigs'"
proof -
  note D = graph_invD[OF assms(1)]
  note v = succ_views[OF same_pools(2)[OF assms(2)]]
  show ?thesis
  proof (rule graph_invI)
    show "lists_inv (g_succ g') (succ_nxt g') J {} (succ_head g') succs"
      unfolding assms(2) v by (rule lists_inv_cong[OF D(3)]) (simp_all add: succ_head_def assms(5))
  qed (use assms(3-6) D v in \<open>simp_all add: gen_of_def waiting_def\<close>)
qed

lemma armSignal_run:
  assumes "graph_inv g J {} hold rank succs sigs" and "known_handle g J h"
    and "length (p_chunks (g_sigs g)) < 2 ^ 24 - 1"
  shows "\<exists>g' sigs'. armSignal h sig g = (names_job g J h, g') \<and> graph_inv g' J {} hold rank succs sigs'
    \<and> g_sent g' = g_sent g \<and> g_arrived g' = g_arrived g \<and> (\<forall>s \<in> J. waiting g' s = waiting g s)
    \<and> (names_job g J h \<longrightarrow> armed g' (sigs' (jh_slot h)) = sig # armed g (sigs (jh_slot h)))"
proof (cases "jh_slot h = p_none")
  case True
  have "p_none \<notin> J"
    using pool_inv_held(1)[OF graph_invD(1)[OF assms(1)]] by (auto simp: p_none_def)
  then show ?thesis
    using True assms(1) by (auto simp: armSignal_def names_job_def)
next
  case False
  note D = graph_invD[OF assms(1)]
  let ?E = "list_edges J sigs" and ?s = "jh_slot h"
  have pool: "pool_inv (g_sigs g) ?E" using D(4) by (simp add: lists_inv_def)
  have idx: "?s \<in> pool_indexes (g_jobs g)"
    using assms(2) False by (simp add: known_handle_def)
  obtain edge pool where e: "new_sig sig g = (edge, pool)" by fastforce
  note ne = new_sig_spec[OF pool assms(3) e]
  obtain p1 where p1: "p_acquire zero_sig (g_sigs g) = (edge, p1)"
    and pl: "pool = p_put p1 edge \<lparr>ge_next = 0, ge_signal = Some sig\<rparr>"
    using e by (auto simp: new_sig_def split: prod.splits)
  let ?g1 = "g\<lparr>g_sigs := pool\<rparr>"
  have at1: "job_at ?g1 = job_at g" "sig_at ?g1 edge = \<lparr>ge_next = 0, ge_signal = Some sig\<rparr>"
    using ne(5) by (simp_all add: job_at_def sig_at_def fun_eq_iff)
  have arm: "armSignal h sig g =
      (case link (jb_signals (job_at g ?s)) (jh_generation h) edge of
         Some (w, nxt) \<Rightarrow> (True, upd_job ?s (\<lambda>j. j\<lparr>jb_signals := w\<rparr>)
            (?g1\<lparr>g_sigs := p_put pool edge \<lparr>ge_next = nxt, ge_signal = Some sig\<rparr>\<rparr>))
       | None \<Rightarrow> (False, ?g1\<lparr>g_sigs := p_release (p_put pool edge \<lparr>ge_next = 0, ge_signal = None\<rparr>) edge\<rparr>))"
    using at1 by (simp add: armSignal_def False p1 pl[symmetric] split: option.splits prod.splits)
  show ?thesis
  proof (cases "names_job g J h")
    case True
    then have s: "?s \<in> J" "gen_of g ?s = jh_generation h" by (auto simp: names_job_def)
    have lk: "link (jb_signals (job_at g ?s)) (jh_generation h) edge = Some (packList (jh_generation h) edge, sig_head g ?s)"
      using head_open(2)[OF assms(1) s(1)] D(5)[OF s(1)] s(2) by (simp add: link_def sig_head_def case_prod_beta)
    define v where "v = \<lparr>ge_next = sig_head g ?s, ge_signal = Some sig\<rparr>"
    define g' where "g' = upd_job ?s (\<lambda>j. j\<lparr>jb_signals := packList (jh_generation h) edge\<rparr>)
      (?g1\<lparr>g_sigs := p_put pool edge v\<rparr>)"
    have run: "armSignal h sig g = (True, g')" using arm lk by (simp add: g'_def v_def)
    have jobs: "job_at g' t = (if t = ?s then (job_at g ?s)\<lparr>jb_signals := packList (jh_generation h) edge\<rparr> else job_at g t)"
      if "t \<in> J" for t
    proof -
      have "job_at (?g1\<lparr>g_sigs := p_put pool edge v\<rparr>) = job_at g" by (simp add: job_at_def fun_eq_iff)
      then show ?thesis
        using job_at_upd[of "?g1\<lparr>g_sigs := p_put pool edge v\<rparr>" J ?s t] D(1) s(1) live_index[OF D(1) that]
        by (simp add: g'_def)
    qed
    have at: "sig_at g' x = (if x = edge then v else sig_at g x)" if "x \<in> insert edge ?E" for x
      using p_put_at[OF ne(2) _ that, of edge v] ne(1) ne(4)[of x] that by (auto simp: g'_def sig_at_def)
    have "graph_inv g' J {} hold rank succs (sigs(?s := edge # sigs ?s))"
    proof (rule graph_inv_sigs[OF assms(1)])
      show "lists_inv (g_sigs g') (sig_nxt g') J {} (sig_head g') (sigs(?s := edge # sigs ?s))"
        by (rule lists_inv_push[OF D(4) _ _ _ ne(1)])
          (use s(1) ne(1,2,3) at jobs in \<open>auto simp: g'_def[THEN arg_cong[where f = g_sigs]] p_put_inv sig_nxt_def sig_head_def v_def\<close>)
    qed (use D(1,2) jobs s D(5) in \<open>auto simp: g'_def[THEN arg_cong[where f = g_jobs]] g'_def[THEN arg_cong[where f = g_succ]]\<close>)
    moreover have "armed g' (edge # sigs ?s) = sig # armed g (sigs ?s)"
    proof -
      have "sig_at g' x = sig_at g x" if "x \<in> set (sigs ?s)" for x
      proof -
        have "x \<in> ?E" using that s(1) by (auto simp: list_edges_def)
        then show ?thesis using at[of x] ne(1) by auto
      qed
      then have "map (\<lambda>e. case ge_signal (sig_at g' e) of None \<Rightarrow> [] | Some s \<Rightarrow> [s]) (sigs ?s) =
          map (\<lambda>e. case ge_signal (sig_at g e) of None \<Rightarrow> [] | Some s \<Rightarrow> [s]) (sigs ?s)" by simp
      then show ?thesis using at[of edge] by (simp add: armed_def v_def del: map_eq_conv)
    qed
    ultimately show ?thesis
      using run True jobs by (intro exI[of _ g'] exI[of _ "sigs(?s := edge # sigs ?s)"])
        (simp add: waiting_def, simp add: g'_def)
  next
    case False
    have "link (jb_signals (job_at g ?s)) (jh_generation h) edge = None"
      using False \<open>jh_slot h \<noteq> p_none\<close> D(5) assms(2)
      by (auto simp: link_def names_job_def known_handle_def sig_gen_def case_prod_beta)
    moreover define g' where "g' = ?g1\<lparr>g_sigs := p_release (p_put pool edge \<lparr>ge_next = 0, ge_signal = None\<rparr>) edge\<rparr>"
    ultimately have run: "armSignal h sig g = (False, g')" using arm by simp
    have jobs: "job_at g' = job_at g" by (simp add: g'_def job_at_def fun_eq_iff)
    have at: "sig_at g' x = sig_at g x" if "x \<in> ?E" for x
      using p_put_at[OF ne(2) insertI1, of x] ne(1) ne(4)[OF that] that by (auto simp: g'_def sig_at_def)
    have "pool_inv (g_sigs g') ?E"
      using p_release_inv[OF p_put_inv[OF ne(2)] insertI1] ne(1) by (simp add: g'_def)
    then have "lists_inv (g_sigs g') (sig_nxt g) J {} (sig_head g) sigs"
      using D(4) ne(3) by (simp add: lists_inv_def g'_def)
    then have li: "lists_inv (g_sigs g') (sig_nxt g') J {} (sig_head g') sigs"
      by (rule lists_inv_cong) (use at jobs in \<open>simp_all add: sig_nxt_def sig_head_def\<close>)
    have "graph_inv g' J {} hold rank succs sigs"
      by (rule graph_inv_sigs[OF assms(1) _ _ _ _ li]) (use D(1,2) jobs in \<open>simp_all add: g'_def\<close>)
    then show ?thesis
      using run False jobs by (intro exI[of _ g'] exI[of _ sigs]) (simp add: waiting_def, simp add: g'_def)
  qed
qed

section \<open>What the graph promises\<close>

lemma new_graph_inv: "graph_inv new_graph {} {} {} rank succs sigs"
  by (simp add: graph_inv_def new_graph_def lists_inv_def list_edges_def pool_inv_empty)
    (simp add: empty_pool_def)

text \<open>
  C31: scheduling a job.  In a well formed graph, with the pools below their bounds and handles this
  kernel made, \<open>acquireJob\<close> takes a slot no live job has and answers a handle that names the new
  job; the job waits for its batch's hold and for exactly the dependencies, and the job it is fed
  by, that have not finished; nothing is handed on yet and no other job's count changes.
\<close>

theorem job_scheduled:
  assumes "graph_ok g J hold" and "length (p_chunks (g_jobs g)) < 2 ^ 24 - 1"
    and "length (p_chunks (g_succ g)) + length deps + 1 < 2 ^ 24"
    and "\<forall>p \<in> set (frm # deps). known_handle g J p"
  shows "\<exists>h g'. acquireJob task arg frm deps g = (h, g') \<and> jh_slot h \<notin> J
    \<and> names_job g' (insert (jh_slot h) J) h
    \<and> graph_ok g' (insert (jh_slot h) J) (insert (jh_slot h) hold)
    \<and> waiting g' (jh_slot h) = 1 + int (length (filter (names_job g J) (deps @ [frm])))
    \<and> (\<forall>t \<in> J. waiting g' t = waiting g t) \<and> g_arrived g' = g_arrived g"
proof -
  obtain rank succs sigs where inv: "graph_inv g J {} hold rank succs sigs"
    using assms(1) by (auto simp: graph_ok_def)
  have known: "\<And>p. p \<in> set (frm # deps) \<Longrightarrow> known_handle g J p" using assms(4) by blast
  show ?thesis
    using acquireJob_run[OF inv assms(2,3) known] unfolding graph_ok_def by blast
qed

lemma no_handle_known: "known_handle g J no_handle"
  by (simp add: known_handle_def no_handle_def p_none_def)

theorem job_scheduled_witness:
  "\<exists>h g'. acquireJob 3 0 no_handle [no_handle] (new_graph :: nat job_graph) = (h, g')
     \<and> graph_ok g' {jh_slot h} {jh_slot h} \<and> waiting g' (jh_slot h) = 1"
proof -
  have "graph_ok (new_graph :: nat job_graph) {} {}"
    using new_graph_inv unfolding graph_ok_def by blast
  moreover have "length (p_chunks (g_jobs (new_graph :: nat job_graph))) < 2 ^ 24 - 1"
    "length (p_chunks (g_succ (new_graph :: nat job_graph))) + length [no_handle] + 1 < 2 ^ 24"
    by (simp_all add: new_graph_def empty_pool_def)
  moreover have "\<forall>p \<in> set [no_handle, no_handle]. known_handle (new_graph :: nat job_graph) {} p"
    by (simp add: no_handle_known)
  ultimately show ?thesis
    using job_scheduled[where g = new_graph and J = "{}" and hold = "{}" and frm = no_handle
        and deps = "[no_handle]" and task = 3 and arg = 0]
    by (auto simp: names_job_def)
qed

text \<open>
  Submitting a batch.  Releasing the holds of a batch keeps the graph well formed, and hands to
  the lock combiner exactly the jobs that came to wait for nothing by it, each once and with its
  task; so a held job with unfinished dependencies is not handed on early.
\<close>

theorem batch_submitted:
  assumes "graph_ok g J hold" and "set batch \<subseteq> hold" and "distinct batch"
  shows "graph_ok (submit batch g) J (hold - set batch) \<and> handed g (submit batch g) J"
  using assms(1) submit_inv[OF _ assms(2,3)] unfolding graph_ok_def by blast

lemma one_job:
  "\<exists>h g'. acquireJob 3 0 no_handle [] (new_graph :: nat job_graph) = (h, g')
     \<and> graph_ok g' {jh_slot h} {jh_slot h} \<and> waiting g' (jh_slot h) = 1 \<and> names_job g' {jh_slot h} h"
proof -
  have b: "length (p_chunks (g_jobs (new_graph :: nat job_graph))) < 2 ^ 24 - 1"
    "length (p_chunks (g_succ (new_graph :: nat job_graph))) + length [] + 1 < 2 ^ 24"
    by (simp_all add: new_graph_def empty_pool_def)
  show ?thesis
    using acquireJob_run[OF new_graph_inv b, where frm = no_handle and task = 3 and arg = 0] no_handle_known
    unfolding graph_ok_def by (fastforce simp: names_job_def)
qed

theorem batch_submitted_witness:
  "\<exists>h g'. acquireJob 3 0 no_handle [] (new_graph :: nat job_graph) = (h, g')
     \<and> graph_ok (submit [jh_slot h] g') {jh_slot h} {} \<and> handed g' (submit [jh_slot h] g') {jh_slot h}"
  using one_job batch_submitted[where batch = "[s]" and J = "{s}" and hold = "{s}" for s] by fastforce

text \<open>
  C30: finishing a job.  The two loops of \<open>finishJob\<close> end; the job leaves the graph, which stays
  well formed; exactly the successors left waiting for nothing are handed to the combiner, each
  once; and every handle to the finished job reads as finished from then on: it names no job, and
  with every other handle around it stays one that later scheduling refuses, but for the handle
  \<open>2 ^ 32 - 1\<close> generations old, whose generation the slot has come back to.
\<close>

theorem job_finished:
  assumes "graph_ok g J hold" and "slot \<in> J" and "waiting g slot = 0"
  shows "\<exists>g'. finishJob slot r g = Some g' \<and> graph_ok g' (J - {slot}) hold \<and> handed g g' (J - {slot})
    \<and> (\<forall>h. names_job g J h \<and> jh_slot h = slot \<longrightarrow> \<not> names_job g' (J - {slot}) h \<and> known_handle g' (J - {slot}) h)
    \<and> (\<forall>h. known_handle g J h \<and> (jh_slot h = slot \<longrightarrow> jh_generation h \<noteq> gen_of g slot + 1)
         \<longrightarrow> known_handle g' (J - {slot}) h)"
proof -
  obtain rank succs sigs where inv: "graph_inv g J {} hold rank succs sigs"
    using assms(1) by (auto simp: graph_ok_def)
  note live = live_index[OF graph_invD(1)[OF inv]]
  obtain g' where g': "finishJob slot r g = Some g'"
    "graph_inv g' (J - {slot}) {} hold rank (succs(slot := [])) (sigs(slot := []))"
    "handed g g' (J - {slot})" "pool_indexes (g_jobs g') = pool_indexes (g_jobs g)"
    "\<forall>t \<in> pool_indexes (g_jobs g). gen_of g' t = gen_of g t + of_bool (t = slot)
        \<and> sig_gen g' t = (if t = slot then gen_of g t + 1 else sig_gen g t)"
    using finishJob_run[OF inv assms(2,3)] by blast
  have "known_handle g' (J - {slot}) h"
    if "known_handle g J h" "jh_slot h = slot \<longrightarrow> jh_generation h \<noteq> gen_of g slot + 1" for h
    using that g'(4,5) live[OF assms(2)] by (cases "jh_slot h = slot") (auto simp: known_handle_def)
  moreover have "known_handle g J h \<and> jh_generation h \<noteq> gen_of g slot + 1"
    if "names_job g J h" "jh_slot h = slot" for h
    using that live by (auto simp: names_job_def known_handle_def)
  moreover have "\<not> names_job g' (J - {slot}) h" if "jh_slot h = slot" for h
    using that by (simp add: names_job_def)
  ultimately show ?thesis
    using g'(1-3) unfolding graph_ok_def by blast
qed

theorem job_finished_witness:
  "\<exists>h g'. acquireJob 3 0 no_handle [] (new_graph :: nat job_graph) = (h, g')
     \<and> (\<exists>g''. finishJob (jh_slot h) 7 (submit [jh_slot h] g') = Some g'' \<and> graph_ok g'' {} {})"
proof -
  obtain h g' where h: "acquireJob 3 0 no_handle [] (new_graph :: nat job_graph) = (h, g')"
    "graph_ok g' {jh_slot h} {jh_slot h}" "waiting g' (jh_slot h) = 1"
    using one_job by blast
  then obtain rank succs sigs where inv: "graph_inv g' {jh_slot h} {} {jh_slot h} rank succs sigs"
    by (auto simp: graph_ok_def)
  let ?g = "lower (jh_slot h) g'"
  have "graph_inv ?g {jh_slot h} {} {} rank succs sigs" and w: "waiting ?g (jh_slot h) = 0"
    using lower_hold(1)[OF inv, of "jh_slot h"] h(3)
      lower_heads(5)[OF graph_invD(1)[OF inv] _ live_index[OF graph_invD(1)[OF inv]]] by simp_all
  then have "graph_ok ?g {jh_slot h} {}" unfolding graph_ok_def by blast
  from job_finished[OF this singletonI w, of 7]
  have "\<exists>g''. finishJob (jh_slot h) 7 ?g = Some g'' \<and> graph_ok g'' {} {}" by auto
  then show ?thesis
    using h(1) by (auto simp: submit_def)
qed

text \<open>
  A graph's life: the calls of executors and workers in any order, over the slots of the live jobs, those held by a batch not
  submitted yet, and those handed to the lock combiner and not finished.  Only a job that was handed on is finished.
\<close>

definition arrived_since :: "'r job_graph \<Rightarrow> 'r job_graph \<Rightarrow> u32 set" where
  "arrived_since g g' = fst ` set (drop (length (g_arrived g)) (g_arrived g'))"

inductive graph_run :: "'r job_graph \<Rightarrow> u32 set \<Rightarrow> u32 set \<Rightarrow> u32 set \<Rightarrow> bool" where
  run_new: "graph_run new_graph {} {} {}"
| run_scheduled: "\<lbrakk>graph_run g J hold out; acquireJob task arg frm deps g = (h, g');
    length (p_chunks (g_jobs g)) < 2 ^ 24 - 1; length (p_chunks (g_succ g)) + length deps + 1 < 2 ^ 24;
    \<forall>p \<in> set (frm # deps). known_handle g J p\<rbrakk>
    \<Longrightarrow> graph_run g' (insert (jh_slot h) J) (insert (jh_slot h) hold) (out \<union> arrived_since g g')"
| run_submitted: "\<lbrakk>graph_run g J hold out; set batch \<subseteq> hold; distinct batch\<rbrakk>
    \<Longrightarrow> graph_run (submit batch g) J (hold - set batch) (out \<union> arrived_since g (submit batch g))"
| run_finished: "\<lbrakk>graph_run g J hold out; slot \<in> out; finishJob slot r g = Some g'\<rbrakk>
    \<Longrightarrow> graph_run g' (J - {slot}) hold (out - {slot} \<union> arrived_since g g')"
| run_notified: "\<lbrakk>graph_run g J hold out; known_handle g J h; length (p_chunks (g_sigs g)) < 2 ^ 24 - 1\<rbrakk>
    \<Longrightarrow> graph_run (Notify sig h g) J hold (out \<union> arrived_since g (Notify sig h g))"

lemma arrived_since_same [simp]: "g_arrived g' = g_arrived g \<Longrightarrow> arrived_since g g' = {}"
  by (simp add: arrived_since_def)

lemma handed_arrived: "handed g g' J \<Longrightarrow> arrived_since g g' = {t \<in> J. waiting g t \<noteq> 0 \<and> waiting g' t = 0}"
  by (auto simp: handed_def arrived_since_def image_iff)

lemma handed_out:
  assumes "handed g g' J" and "out = {t \<in> J'. waiting g t = 0}" and "J \<subseteq> J'"
  shows "out - (J' - J) \<union> arrived_since g g' = {t \<in> J. waiting g' t = 0}"
  using assms unfolding handed_arrived[OF assms(1)] by (auto simp: handed_def)

lemma Notify_keeps:
  assumes "graph_inv g J {} hold rank succs sigs" and "known_handle g J h" and "length (p_chunks (g_sigs g)) < 2 ^ 24 - 1"
  shows "graph_ok (Notify sig h g) J hold" "g_arrived (Notify sig h g) = g_arrived g" "\<forall>s \<in> J. waiting (Notify sig h g) s = waiting g s"
proof -
  obtain g1 sigs' where g1: "armSignal h sig g = (names_job g J h, g1)" "graph_inv g1 J {} hold rank succs sigs'"
    "g_arrived g1 = g_arrived g" "\<forall>s \<in> J. waiting g1 s = waiting g s"
    using armSignal_run[OF assms] by blast
  moreover have "graph_inv (g1\<lparr>g_sent := g_sent g1 @ [sig]\<rparr>) J {} hold rank succs sigs'" by (rule graph_inv_same[OF g1(2)]) simp_all
  moreover have "waiting (g1\<lparr>g_sent := sent\<rparr>) = waiting g1" for sent by (simp add: waiting_def job_at_def fun_eq_iff)
  ultimately show "graph_ok (Notify sig h g) J hold" "g_arrived (Notify sig h g) = g_arrived g" "\<forall>s \<in> J. waiting (Notify sig h g) s = waiting g s"
    by (auto simp: Notify_def graph_ok_def)
qed

lemma graph_run_ok: "graph_run g J hold out \<Longrightarrow> graph_ok g J hold \<and> out = {s \<in> J. waiting g s = 0}"
proof (induction rule: graph_run.induct)
  case run_new
  then show ?case using new_graph_inv unfolding graph_ok_def by blast
next
  case (run_scheduled g J hold out task arg frm deps h g')
  obtain rank succs sigs where inv: "graph_inv g J {} hold rank succs sigs" using run_scheduled.IH by (auto simp: graph_ok_def)
  have n: "jh_slot h \<notin> J" "graph_ok g' (insert (jh_slot h) J) (insert (jh_slot h) hold)" "g_arrived g' = g_arrived g"
    "waiting g' (jh_slot h) > 0" "\<forall>t \<in> J. waiting g' t = waiting g t"
    using acquireJob_run[OF inv run_scheduled.hyps(3,4), of frm task arg] run_scheduled.hyps(2,5) unfolding graph_ok_def by fastforce+
  show ?case using run_scheduled.IH n by auto
next
  case (run_submitted g J hold out batch)
  obtain rank succs sigs where inv: "graph_inv g J {} hold rank succs sigs" using run_submitted.IH by (auto simp: graph_ok_def)
  note s = submit_inv[OF inv run_submitted.hyps(2,3)]
  show ?case using handed_out[OF conjunct2[OF s], of out J] run_submitted.IH s unfolding graph_ok_def by auto
next
  case (run_finished g J hold out slot r g')
  obtain rank succs sigs where inv: "graph_inv g J {} hold rank succs sigs" using run_finished.IH by (auto simp: graph_ok_def)
  have s: "slot \<in> J" "waiting g slot = 0" using run_finished by auto
  obtain rank' succs' sigs' where f: "graph_inv g' (J - {slot}) {} hold rank' succs' sigs'" "handed g g' (J - {slot})"
    using finishJob_run[OF inv s, of r] run_finished.hyps(3) by auto
  have "J - (J - {slot}) = {slot}" using s(1) by auto
  then show ?case using handed_out[OF f(2), of out J] run_finished.IH f(1) unfolding graph_ok_def by auto
next
  case (run_notified g J hold out h sig)
  obtain rank succs sigs where inv: "graph_inv g J {} hold rank succs sigs" using run_notified.IH by (auto simp: graph_ok_def)
  show ?case using Notify_keeps[OF inv run_notified.hyps(2,3)] run_notified.IH by auto
qed

text \<open>Dependencies only lead from older jobs to younger ones.\<close>

lemma some_waits_for_nothing:
  assumes "graph_ok g J {}" and "J \<noteq> {}"
  shows "\<exists>s \<in> J. waiting g s = 0"
proof -
  obtain rank succs sigs where inv: "graph_inv g J {} {} rank succs sigs"
    using assms(1) by (auto simp: graph_ok_def)
  note D = graph_invD[OF inv]
  define s where "s = arg_min_on rank J"
  have s: "s \<in> J" "\<And>t. t \<in> J \<Longrightarrow> rank s \<le> rank t"
    using arg_min_if_finite[of J rank] assms(2) by (auto simp: s_def not_less)
  have "edges_into g (list_edges J succs) s = {}"
    using D(8) s(2) by (fastforce simp: edges_into_def list_edges_def)
  then show ?thesis
    using D(9)[OF s(1)] s(1) by auto
qed

text \<open>
  C34: the graph never stalls.  In any order of scheduling, submitting, finishing and arming, one call at a time: the jobs handed
  to the lock combiner and not finished are exactly the live ones that wait for nothing, so none is lost and none is handed on early;
  with every batch submitted, a graph with a live job has one of them, and finishing any of them returns.
\<close>

theorem graph_never_stalls:
  assumes "graph_run g J hold out"
  shows "out = {s \<in> J. waiting g s = 0} \<and> (hold = {} \<and> J \<noteq> {} \<longrightarrow> out \<noteq> {}) \<and> (\<forall>s \<in> out. \<exists>g'. finishJob s r g = Some g')"
proof -
  note ok = graph_run_ok[OF assms]
  obtain rank succs sigs where inv: "graph_inv g J {} hold rank succs sigs" using ok by (auto simp: graph_ok_def)
  have "\<exists>g'. finishJob s r g = Some g'" if "s \<in> out" for s using finishJob_run[OF inv, of s r] that ok by auto
  then show ?thesis using ok some_waits_for_nothing[of g J] by auto
qed

theorem graph_never_stalls_witness:
  "\<exists>h g' out. acquireJob 3 0 no_handle [] (new_graph :: nat job_graph) = (h, g')
     \<and> graph_run (submit [jh_slot h] g') {jh_slot h} {} out \<and> out = {jh_slot h}
     \<and> (\<exists>g''. finishJob (jh_slot h) 7 (submit [jh_slot h] g') = Some g'')"
proof -
  obtain h g' where h: "acquireJob 3 0 no_handle [] (new_graph :: nat job_graph) = (h, g')"
    using one_job by blast
  have "graph_run g' {jh_slot h} {jh_slot h} (arrived_since new_graph g')"
    using run_scheduled[OF run_new h] by (simp add: new_graph_def empty_pool_def no_handle_known)
  from run_submitted[OF this, of "[jh_slot h]"]
  obtain out where r: "graph_run (submit [jh_slot h] g') {jh_slot h} {} out" by auto
  then show ?thesis using graph_never_stalls[OF r, of 7] h by (intro exI[of _ h] exI[of _ g'] exI[of _ out]) auto
qed

text \<open>
  No finish is missed.  \<open>Notify\<close> keeps the graph well formed; on a job that has finished it
  signals at once, and on a live one it signals nothing yet, but the job's finish then does.
\<close>

theorem notify_exact:
  assumes "graph_ok g J hold" and "known_handle g J h" and "length (p_chunks (g_sigs g)) < 2 ^ 24 - 1"
  shows "graph_ok (Notify sig h g) J hold \<and>
    (if names_job g J h
     then g_sent (Notify sig h g) = g_sent g \<and>
       (waiting g (jh_slot h) = 0 \<longrightarrow>
         (\<exists>g' others. finishJob (jh_slot h) r (Notify sig h g) = Some g' \<and> g_sent g' = g_sent g @ sig # others))
     else g_sent (Notify sig h g) = g_sent g @ [sig])"
proof -
  obtain rank succs sigs where inv: "graph_inv g J {} hold rank succs sigs"
    using assms(1) by (auto simp: graph_ok_def)
  obtain g1 sigs' where g1: "armSignal h sig g = (names_job g J h, g1)"
    "graph_inv g1 J {} hold rank succs sigs'" "g_sent g1 = g_sent g" "\<forall>s \<in> J. waiting g1 s = waiting g s"
    "names_job g J h \<longrightarrow> armed g1 (sigs' (jh_slot h)) = sig # armed g (sigs (jh_slot h))"
    using armSignal_run[OF inv assms(2,3)] by blast
  show ?thesis
  proof (cases "names_job g J h")
    case True
    then have n: "Notify sig h g = g1" and s: "jh_slot h \<in> J"
      using g1(1) by (simp_all add: Notify_def names_job_def)
    have "\<exists>g' others. finishJob (jh_slot h) r g1 = Some g' \<and> g_sent g' = g_sent g @ sig # others"
      if "waiting g (jh_slot h) = 0"
      using finishJob_run[OF g1(2) s, where r = r] that s g1(3,4,5) True by auto
    then show ?thesis
      using n g1(2,3) True by (auto simp: graph_ok_def)
  next
    case False
    then have "Notify sig h g = g1\<lparr>g_sent := g_sent g1 @ [sig]\<rparr>"
      using g1(1) by (simp add: Notify_def)
    moreover have "graph_inv (g1\<lparr>g_sent := g_sent g1 @ [sig]\<rparr>) J {} hold rank succs sigs'"
      by (rule graph_inv_same[OF g1(2)]) simp_all
    ultimately show ?thesis
      using False g1(3) by (auto simp: graph_ok_def)
  qed
qed

theorem notify_exact_witness:
  "\<exists>h g'. acquireJob 3 0 no_handle [] (new_graph :: nat job_graph) = (h, g')
     \<and> g_sent (Notify 9 no_handle g') = g_sent g' @ [9]"
proof -
  obtain h g' where h: "acquireJob 3 0 no_handle [] (new_graph :: nat job_graph) = (h, g')"
    "graph_ok g' {jh_slot h} {jh_slot h}"
    using one_job by blast
  have nn: "\<not> names_job g' {jh_slot h} no_handle"
    using h(2) pool_inv_held(1)[of "g_jobs g'" "{jh_slot h}" "jh_slot h"]
    by (auto simp: names_job_def no_handle_def graph_ok_def graph_inv_def)
  have "g_sigs g' = empty_pool"
    using h(1) by (auto simp: acquireJob_def addSuccessor_def no_handle_def p_none_def Let_def new_graph_def
        upd_job_def split: prod.splits)
  then have "length (p_chunks (g_sigs g')) < 2 ^ 24 - 1"
    by (simp add: empty_pool_def)
  then show ?thesis
    using notify_exact[OF h(2) no_handle_known, of 9 0] nn h(1) by auto
qed

end
