(* ===== verification/Ecs_Index.thy ===== *)
theory Ecs_Index
  imports Cog_Prelude
begin

text \<open>
  \<open>ecs/entity.go\<close>, \<open>ecs/mask.go\<close> and \<open>ecs/indextable.go\<close>: entities as 64-bit words of an index and
  a generation, component masks as lists of 64-bit words, and the paged table from entity index to
  entry.  A pointer into a table is reading the entry, or writing it.  The atomic operations on a
  mask's words are single steps.
\<close>

section \<open>Entities\<close>

type_synonym entity = u64

definition NoEntity :: entity where
  "NoEntity = 0"

definition makeEntity :: "u32 \<Rightarrow> u32 \<Rightarrow> entity" where
  "makeEntity index generation = push_bit 32 (ucast generation) OR ucast index"

definition e_index :: "entity \<Rightarrow> u32" where
  "e_index e = ucast e"

definition e_generation :: "entity \<Rightarrow> u32" where
  "e_generation e = ucast (drop_bit 32 e)"

definition nextGeneration :: "u32 \<Rightarrow> u32" where
  "nextGeneration generation = (let g = generation + 1 in if g = 0 then g + 1 else g)"

lemma entity_parts [simp]:
  "e_index (makeEntity i g) = i" "e_generation (makeEntity i g) = g"
  "makeEntity (e_index e) (e_generation e) = e"
  unfolding e_index_def e_generation_def makeEntity_def by (rule low_half high_half join_halves)+

lemma makeEntity_eq [simp]: "makeEntity i g = makeEntity j h \<longleftrightarrow> i = j \<and> g = h"
  by (metis entity_parts(1,2))

lemma entity_eqI: "e_index e = e_index f \<Longrightarrow> e_generation e = e_generation f \<Longrightarrow> e = f"
  by (metis entity_parts(3))

lemma NoEntity_parts [simp]: "e_index NoEntity = 0" "e_generation NoEntity = 0"
  by (simp_all add: NoEntity_def e_index_def e_generation_def)

lemma nextGeneration_neq [simp]: "nextGeneration g \<noteq> 0" "nextGeneration g \<noteq> g" "g \<noteq> nextGeneration g"
proof -
  have one: "(1 :: u32) \<noteq> 0" by simp
  show "nextGeneration g \<noteq> 0" by (auto simp: nextGeneration_def Let_def)
  show "nextGeneration g \<noteq> g"
  proof (cases "g + 1 = 0")
    case True
    then have "g = - 1" by (simp add: add_eq_0_iff2)
    then show ?thesis by (simp add: nextGeneration_def Let_def)
  qed (simp add: nextGeneration_def Let_def)
  then show "g \<noteq> nextGeneration g" by simp
qed

lemma nextGeneration_0 [simp]: "nextGeneration 0 = 1"
  by (simp add: nextGeneration_def)

section \<open>Component masks\<close>

type_synonym mask = "u64 list"

definition maskIDs :: "mask \<Rightarrow> nat list" where
  "maskIDs m = concat (map (\<lambda>word. map (\<lambda>b. word * 64 + b) (bit_list (m ! word))) [0..<length m])"

definition maskBits :: "mask \<Rightarrow> nat" where
  "maskBits m = length m * 64"

definition maskHas :: "mask \<Rightarrow> nat \<Rightarrow> bool" where
  "maskHas m c \<longleftrightarrow> m ! (c div 64) AND push_bit (c mod 64) 1 \<noteq> 0"

definition maskSet :: "mask \<Rightarrow> nat \<Rightarrow> mask" where
  "maskSet m c = m[c div 64 := m ! (c div 64) OR push_bit (c mod 64) 1]"

definition maskUnset :: "mask \<Rightarrow> nat \<Rightarrow> mask" where
  "maskUnset m c = m[c div 64 := m ! (c div 64) AND NOT (push_bit (c mod 64) 1)]"

definition zero_mask :: "nat \<Rightarrow> mask" where
  "zero_mask words = replicate words 0"

lemma mask_lengths [simp]:
  "length (maskSet m c) = length m" "length (maskUnset m c) = length m" "length (zero_mask n) = n"
  by (simp_all add: maskSet_def maskUnset_def zero_mask_def)

lemma maskHas_bit: "maskHas m c \<longleftrightarrow> bit (m ! (c div 64)) (c mod 64)"
  using and_single_bit_iff[of "c mod 64" "m ! (c div 64)"] by (simp add: maskHas_def)

lemma div_mod_64_eq: "(i::nat) = j \<longleftrightarrow> i div 64 = j div 64 \<and> i mod 64 = j mod 64"
  by (metis div_mult_mod_eq)

lemma maskHas_set:
  assumes "c < maskBits m"
  shows "maskHas (maskSet m c) j \<longleftrightarrow> j = c \<or> maskHas m j"
proof -
  have lt: "c div 64 < length m"
    using assms by (simp add: maskBits_def less_mult_imp_div_less)
  show ?thesis
  proof (cases "j div 64 = c div 64")
    case True
    then have "maskSet m c ! (j div 64) = m ! (j div 64) OR push_bit (c mod 64) 1"
      using lt by (simp add: maskSet_def)
    then show ?thesis
      using True by (auto simp: maskHas_bit bit_simps div_mod_64_eq[of j c])
  next
    case False
    then show ?thesis
      by (auto simp: maskHas_bit maskSet_def)
  qed
qed

lemma maskHas_unset:
  assumes "c < maskBits m"
  shows "maskHas (maskUnset m c) j \<longleftrightarrow> j \<noteq> c \<and> maskHas m j"
proof -
  have lt: "c div 64 < length m"
    using assms by (simp add: maskBits_def less_mult_imp_div_less)
  show ?thesis
  proof (cases "j div 64 = c div 64")
    case True
    then have "maskUnset m c ! (j div 64) = m ! (j div 64) AND NOT (push_bit (c mod 64) 1)"
      using lt by (simp add: maskUnset_def)
    then show ?thesis
      using True by (auto simp: maskHas_bit bit_simps div_mod_64_eq[of j c])
  next
    case False
    then show ?thesis
      by (auto simp: maskHas_bit maskUnset_def)
  qed
qed

lemma maskHas_zero: "c < n * 64 \<Longrightarrow> \<not> maskHas (zero_mask n) c"
  by (simp add: maskHas_bit zero_mask_def less_mult_imp_div_less)

text \<open>\<open>maskIDs\<close> yields exactly the bits set, each once and in ascending order.\<close>

lemma maskIDs_filter: "maskIDs m = filter (maskHas m) [0..<maskBits m]"
proof (induction m rule: rev_induct)
  case Nil
  then show ?case by (simp add: maskIDs_def maskBits_def)
next
  case (snoc w m)
  have cong: "map (\<lambda>word. map (\<lambda>b. word * 64 + b) (bit_list ((m @ [w]) ! word))) [0..<length m] =
      map (\<lambda>word. map (\<lambda>b. word * 64 + b) (bit_list (m ! word))) [0..<length m]"
    by (rule map_cong) (auto simp: nth_append)
  have "[0..<length (m @ [w])] = [0..<length m] @ [length m]" by simp
  then have "maskIDs (m @ [w]) = maskIDs m @ map (\<lambda>b. length m * 64 + b) (bit_list w)"
    unfolding maskIDs_def by (simp only: map_append concat_append cong) simp
  moreover have "filter (maskHas (m @ [w])) [0..<maskBits m] = filter (maskHas m) [0..<maskBits m]"
    by (rule filter_cong) (auto simp: maskHas_bit maskBits_def nth_append less_mult_imp_div_less)
  moreover have "filter (maskHas (m @ [w])) [maskBits m..<maskBits m + 64] = map (\<lambda>b. length m * 64 + b) (bit_list w)"
  proof -
    have "[maskBits m..<maskBits m + 64] = map (\<lambda>b. length m * 64 + b) [0..<64]"
      using map_add_upt[of "maskBits m" 64] by (simp only: maskBits_def add.commute)
    moreover have "filter (maskHas (m @ [w])) (map (\<lambda>b. length m * 64 + b) [0..<64]) =
        map (\<lambda>b. length m * 64 + b) (filter (bit w) [0..<64])"
      unfolding filter_map
      by (intro arg_cong[where f = "map _"] filter_cong refl) (simp add: maskHas_bit)
    ultimately show ?thesis
      by (simp only: bit_list_filter) simp
  qed
  moreover have "[0..<maskBits (m @ [w])] = [0..<maskBits m] @ [maskBits m..<maskBits m + 64]"
    using upt_add_eq_append[of 0 "maskBits m" 64] by (simp add: maskBits_def add.commute)
  ultimately show ?case
    using snoc by (simp only: filter_append)
qed

lemma set_maskIDs: "set (maskIDs m) = {c. c < maskBits m \<and> maskHas m c}"
  by (auto simp: maskIDs_filter)

lemma distinct_maskIDs [simp]: "distinct (maskIDs m)"
  by (simp add: maskIDs_filter)

lemma sorted_maskIDs [simp]: "sorted (maskIDs m)"
  by (simp add: maskIDs_filter sorted_wrt_filter)

section \<open>The index table\<close>

definition indexPageShift :: nat where
  "indexPageShift = 12"

definition indexPageSize :: nat where
  "indexPageSize = 2 ^ indexPageShift"

record 'a index_table =
  it_pages :: "'a list option list"

definition empty_table :: "'a index_table" where
  "empty_table = \<lparr>it_pages = []\<rparr>"

definition page_of :: "u32 \<Rightarrow> nat" where
  "page_of index = unat (drop_bit indexPageShift index)"

definition slot_in_page :: "u32 \<Rightarrow> nat" where
  "slot_in_page index = unat (index AND mask indexPageShift)"

definition it_at :: "'a index_table \<Rightarrow> u32 \<Rightarrow> 'a option" where
  "it_at t index =
     (if page_of index \<ge> length (it_pages t) then None
      else case it_pages t ! page_of index of None \<Rightarrow> None | Some page \<Rightarrow> Some (page ! slot_in_page index))"

definition it_create :: "'a \<Rightarrow> 'a index_table \<Rightarrow> u32 \<Rightarrow> 'a index_table" where
  "it_create z t index =
     (let page = page_of index;
          ps = (if page \<ge> length (it_pages t)
                then it_pages t @ replicate (page + 1 - length (it_pages t)) None else it_pages t)
      in \<lparr>it_pages = (if ps ! page = None then ps[page := Some (replicate indexPageSize z)] else ps)\<rparr>)"

text \<open>Writing through the pointer \<open>atOrCreate\<close> answers.\<close>

definition it_put :: "'a \<Rightarrow> 'a index_table \<Rightarrow> u32 \<Rightarrow> 'a \<Rightarrow> 'a index_table" where
  "it_put z t index v =
     (let t1 = it_create z t index
      in case it_pages t1 ! page_of index of
           Some page \<Rightarrow> \<lparr>it_pages = (it_pages t1)[page_of index := Some (page[slot_in_page index := v])]\<rparr>
         | None \<Rightarrow> t1)"

text \<open>\<open>shrink\<close>: pages that are all zero go, then the pages past the last one left.\<close>

definition used_page :: "'a \<Rightarrow> 'a list option \<Rightarrow> bool" where
  "used_page z page = (case page of None \<Rightarrow> False | Some xs \<Rightarrow> list_ex (\<lambda>x. x \<noteq> z) xs)"

fun last_used :: "'a \<Rightarrow> nat \<Rightarrow> nat \<Rightarrow> 'a list option list \<Rightarrow> nat" where
  "last_used z i used [] = used"
| "last_used z i used (page # pages) = last_used z (i + 1) (if used_page z page then i + 1 else used) pages"

definition it_shrink :: "'a \<Rightarrow> 'a index_table \<Rightarrow> 'a index_table" where
  "it_shrink z t =
     \<lparr>it_pages = take (last_used z 0 0 (it_pages t))
        (map (\<lambda>page. if used_page z page then page else None) (it_pages t))\<rparr>"

definition it_get :: "'a \<Rightarrow> 'a index_table \<Rightarrow> u32 \<Rightarrow> 'a" where
  "it_get z t index = (case it_at t index of None \<Rightarrow> z | Some v \<Rightarrow> v)"

definition it_wf :: "'a index_table \<Rightarrow> bool" where
  "it_wf t \<longleftrightarrow> (\<forall>p xs. p < length (it_pages t) \<and> it_pages t ! p = Some xs \<longrightarrow> length xs = indexPageSize)"

lemma slot_in_page_less [simp]: "slot_in_page i < indexPageSize"
proof -
  have "unat (i AND mask 12) \<le> unat (mask 12 :: u32)"
    by (meson word_and_le1 word_le_nat_alt)
  also have "unat (mask 12 :: u32) = 4095"
    by (simp add: mask_eq_exp_minus_1)
  finally show ?thesis
    by (simp add: slot_in_page_def indexPageSize_def indexPageShift_def)
qed

lemma index_split: "page_of i = page_of j \<Longrightarrow> slot_in_page i = slot_in_page j \<Longrightarrow> i = j"
proof -
  assume "page_of i = page_of j" "slot_in_page i = slot_in_page j"
  then have "drop_bit 12 i = drop_bit 12 j" "i AND mask 12 = j AND mask 12"
    by (simp_all add: page_of_def slot_in_page_def indexPageShift_def word_unat_eq_iff)
  moreover have "i = push_bit 12 (drop_bit 12 i) OR (i AND mask 12)" for i :: u32
    by (rule bit_word_eqI) (auto simp: bit_simps)
  ultimately show "i = j" by metis
qed

lemma it_wf_empty [simp]: "it_wf empty_table" and it_get_empty [simp]: "it_get z empty_table i = z"
  by (simp_all add: it_wf_def empty_table_def it_get_def it_at_def)

lemma it_create_page:
  assumes "it_wf t"
  shows "it_wf (it_create z t i)" and "it_get z (it_create z t i) j = it_get z t j"
    and "page_of i < length (it_pages (it_create z t i))" and "it_pages (it_create z t i) ! page_of i \<noteq> None"
  using assms
  by (auto simp: it_create_def Let_def it_wf_def it_get_def it_at_def nth_append nth_list_update
      split: option.splits if_splits)

lemma it_put_spec:
  assumes "it_wf t"
  shows "it_wf (it_put z t i v)" and "it_get z (it_put z t i v) j = (if j = i then v else it_get z t j)"
    and "it_at (it_put z t i v) i = Some v"
proof -
  note c = it_create_page[OF assms, where z = z and i = i]
  obtain page where p: "it_pages (it_create z t i) ! page_of i = Some page"
    using c(4) by blast
  have len: "length page = indexPageSize"
    using c(1,3) p by (auto simp: it_wf_def)
  have put: "it_put z t i v =
      \<lparr>it_pages = (it_pages (it_create z t i))[page_of i := Some (page[slot_in_page i := v])]\<rparr>"
    by (simp add: it_put_def p)
  show "it_wf (it_put z t i v)"
    using c(1,3) len by (auto simp: put it_wf_def nth_list_update split: if_splits)
  show at: "it_at (it_put z t i v) i = Some v"
    using c(3) len by (simp add: put it_at_def)
  show "it_get z (it_put z t i v) j = (if j = i then v else it_get z t j)"
  proof (cases "j = i")
    case True
    then show ?thesis using at by (simp add: it_get_def)
  next
    case False
    then have "page_of j \<noteq> page_of i \<or> slot_in_page j \<noteq> slot_in_page i"
      using index_split by blast
    then have "it_get z (it_put z t i v) j = it_get z (it_create z t i) j"
      using c(3) p len by (auto simp: put it_get_def it_at_def nth_list_update split: option.splits)
    then show ?thesis using c(2) False by simp
  qed
qed

lemma last_used_mono: "u \<le> k \<Longrightarrow> u \<le> last_used z k u qs"
proof (induction qs arbitrary: k u)
  case (Cons q qs)
  have "k + 1 \<le> last_used z (k + 1) (k + 1) qs" "u \<le> last_used z (k + 1) u qs"
    using Cons.IH[of "k + 1" "k + 1"] Cons.IH[of u "k + 1"] Cons.prems by simp_all
  then show ?case using Cons.prems by simp
qed simp

lemma last_used_bound:
  assumes "used \<le> i" and "p < length ps" and "used_page z (ps ! p)"
  shows "i + p < last_used z i used ps"
  using assms
proof (induction z i used ps arbitrary: p rule: last_used.induct)
  case (1 z i used)
  then show ?case by simp
next
  case (2 z i used page pages)
  show ?case
  proof (cases p)
    case 0
    then have "i + 1 \<le> last_used z (i + 1) (i + 1) pages"
      using last_used_mono[of "i + 1" "i + 1"] by simp
    then show ?thesis using 0 "2.prems"(3) by simp
  next
    case (Suc q)
    then show ?thesis using "2.IH"[of q] "2.prems" by auto
  qed
qed

lemma it_shrink_spec:
  assumes "it_wf t"
  shows "it_wf (it_shrink z t)" and "it_get z (it_shrink z t) i = it_get z t i"
proof -
  show "it_wf (it_shrink z t)"
    using assms by (auto simp: it_wf_def it_shrink_def split: if_splits)
  show "it_get z (it_shrink z t) i = it_get z t i"
  proof (cases "page_of i < length (it_pages t) \<and> used_page z (it_pages t ! page_of i)")
    case True
    then have "page_of i < last_used z 0 0 (it_pages t)"
      using last_used_bound[of 0 0 "page_of i" "it_pages t" z] by simp
    then have "\<not> min (length (it_pages t)) (last_used z 0 0 (it_pages t)) \<le> page_of i"
      using True by (simp add: min_def)
    then show ?thesis
      using True by (simp add: it_get_def it_at_def it_shrink_def)
  next
    case False
    have "xs ! slot_in_page i = z" if "page_of i < length (it_pages t)" "it_pages t ! page_of i = Some xs" for xs
    proof -
      have "slot_in_page i < length xs" "\<forall>x \<in> set xs. x = z"
        using that False assms slot_in_page_less[of i] by (auto simp: it_wf_def used_page_def list_ex_iff)
      then show ?thesis by simp
    qed
    then have "it_get z t i = z"
      by (auto simp: it_get_def it_at_def split: option.splits)
    moreover have "it_get z (it_shrink z t) i = z"
      using False by (auto simp: it_get_def it_at_def it_shrink_def split: option.splits)
    ultimately show ?thesis by simp
  qed
qed

section \<open>Walking a table\<close>

text \<open>The indices a walk over the pages that exist meets, in order; an index has 32 bits, so there are at
  most \<open>2 ^ 20\<close> pages.\<close>

definition page_indices :: "nat \<Rightarrow> 'a list option \<Rightarrow> u32 list" where
  "page_indices p page =
     (case page of None \<Rightarrow> [] | Some xs \<Rightarrow> map (\<lambda>i. of_nat (p * indexPageSize + i)) [0..<length xs])"

definition table_indices :: "'a index_table \<Rightarrow> u32 list" where
  "table_indices t = concat (map (\<lambda>p. page_indices p (it_pages t ! p)) [0..<length (it_pages t)])"

definition it_fit :: "'a index_table \<Rightarrow> bool" where
  "it_fit t \<longleftrightarrow> length (it_pages t) \<le> 2 ^ 20"

lemma page_of_nat: "page_of i = unat i div indexPageSize"
  by (simp add: page_of_def indexPageSize_def indexPageShift_def unat_drop_bit_eq
      drop_bit_eq_div[where ?'a = nat])

lemma slot_in_page_nat: "slot_in_page i = unat i mod indexPageSize"
  by (simp add: slot_in_page_def indexPageSize_def indexPageShift_def take_bit_eq_mask[symmetric]
      unsigned_take_bit_eq take_bit_eq_mod[where ?'a = nat])

lemma page_of_less: "page_of i < 2 ^ 20"
  using unsigned_less[of i, where ?'a = nat] by (simp add: page_of_nat indexPageSize_def indexPageShift_def)

lemma it_fit_empty [simp]: "it_fit empty_table"
  by (simp add: it_fit_def empty_table_def)

lemma it_create_fit: "it_fit t \<Longrightarrow> it_fit (it_create z t i)"
  using page_of_less[of i] by (auto simp: it_fit_def it_create_def Let_def)

lemma it_put_fit: "it_fit t \<Longrightarrow> it_fit (it_put z t i v)"
  using it_create_fit[of t z i] by (auto simp: it_put_def it_fit_def Let_def split: option.splits)

lemma it_shrink_fit: "it_fit t \<Longrightarrow> it_fit (it_shrink z t)"
  by (simp add: it_fit_def it_shrink_def)

text \<open>The walk as a filter of all the numbers the pages cover.\<close>

lemma upt_page: "[p * k..<Suc p * k] = map (\<lambda>i. p * k + i) [0..<k]" for k :: nat
  using map_add_upt[of "p * k" k] by (simp add: add.commute)

lemma walk_filter:
  assumes "\<And>p xs. p < n \<Longrightarrow> ps p = Some xs \<Longrightarrow> length xs = indexPageSize"
  shows "concat (map (\<lambda>p. page_indices p (ps p)) [0..<n])
    = map of_nat (filter (\<lambda>k. ps (k div indexPageSize) \<noteq> None) [0..<n * indexPageSize])"
  using assms
proof (induction n)
  case (Suc n)
  have pos: "0 < indexPageSize" by (simp add: indexPageSize_def)
  have div: "k div indexPageSize = n" if "k \<in> set [n * indexPageSize..<Suc n * indexPageSize]" for k
    using that pos by (auto intro!: div_nat_eqI simp: mult.commute)
  have "filter (\<lambda>k. ps (k div indexPageSize) \<noteq> None) [n * indexPageSize..<Suc n * indexPageSize]
      = (if ps n = None then [] else [n * indexPageSize..<Suc n * indexPageSize])"
    using div by (auto simp: filter_empty_conv intro!: filter_True)
  then have last: "page_indices n (ps n)
      = map of_nat (filter (\<lambda>k. ps (k div indexPageSize) \<noteq> None) [n * indexPageSize..<Suc n * indexPageSize])"
    using Suc.prems[of n] by (auto simp: page_indices_def upt_page o_def simp del: mult_Suc split: option.splits)
  have "[0..<Suc n * indexPageSize] = [0..<n * indexPageSize] @ [n * indexPageSize..<Suc n * indexPageSize]"
    using upt_add_eq_append[of 0 "n * indexPageSize" indexPageSize] by (simp add: add.commute)
  moreover have "concat (map (\<lambda>p. page_indices p (ps p)) [0..<n])
      = map of_nat (filter (\<lambda>k. ps (k div indexPageSize) \<noteq> None) [0..<n * indexPageSize])"
    by (rule Suc.IH) (rule Suc.prems[OF less_SucI])
  ultimately show ?case using last by simp
qed simp

lemma table_indices_filter:
  assumes "it_wf t"
  shows "table_indices t
    = map of_nat (filter (\<lambda>k. it_pages t ! (k div indexPageSize) \<noteq> None) [0..<length (it_pages t) * indexPageSize])"
  unfolding table_indices_def using assms by (intro walk_filter) (auto simp: it_wf_def)

lemma table_bound: "it_fit t \<Longrightarrow> k < length (it_pages t) * indexPageSize \<Longrightarrow> k < 2 ^ 32"
proof -
  assume "it_fit t" "k < length (it_pages t) * indexPageSize"
  then have "k < 2 ^ 20 * indexPageSize" unfolding it_fit_def by (meson less_le_trans mult_le_mono1)
  then show "k < 2 ^ 32" by (simp add: indexPageSize_def indexPageShift_def)
qed

text \<open>The walk meets every index whose page exists, each once, in ascending order.\<close>

lemma unat_table_indices:
  assumes "it_wf t" and "it_fit t"
  shows "map unat (table_indices t)
    = filter (\<lambda>k. it_pages t ! (k div indexPageSize) \<noteq> None) [0..<length (it_pages t) * indexPageSize]"
  using table_bound[OF assms(2)]
  by (auto simp: table_indices_filter[OF assms(1)] unsigned_of_nat take_bit_eq_mod intro!: map_idI)

lemma table_indices_sorted: "it_wf t \<Longrightarrow> it_fit t \<Longrightarrow> sorted_wrt (<) (table_indices t)"
proof -
  assume t: "it_wf t" "it_fit t"
  have "sorted_wrt (<) (map unat (table_indices t))"
    unfolding unat_table_indices[OF t] by (intro sorted_wrt_filter) (rule sorted_wrt_upt)
  then show ?thesis by (simp add: sorted_wrt_map word_less_nat_alt[abs_def])
qed

lemma table_indices_distinct: "it_wf t \<Longrightarrow> it_fit t \<Longrightarrow> distinct (table_indices t)"
  using table_indices_sorted strict_sorted_iff by blast

lemma set_table_indices:
  assumes "it_wf t" and "it_fit t"
  shows "i \<in> set (table_indices t) \<longleftrightarrow> it_at t i \<noteq> None"
proof -
  have "unat i < length (it_pages t) * indexPageSize \<longleftrightarrow> page_of i < length (it_pages t)"
    by (simp add: page_of_nat indexPageSize_def div_less_iff_less_mult)
  then have "unat i \<in> set (map unat (table_indices t)) \<longleftrightarrow> it_at t i \<noteq> None"
    unfolding unat_table_indices[OF assms] by (auto simp: it_at_def page_of_nat split: option.splits)
  moreover have "unat i \<in> set (map unat (table_indices t)) \<longleftrightarrow> i \<in> set (table_indices t)"
    by (auto dest: word_unat_eq_iff[THEN iffD2])
  ultimately show ?thesis by simp
qed

text \<open>
  The contract the entity table and the stores rely on: a total map from indices, zero at first,
  where a write changes one entry and shrinking changes none.
\<close>

locale index_map =
  fixes wf :: "'t \<Rightarrow> bool" and init :: 't
    and lookup :: "'t \<Rightarrow> 'i \<Rightarrow> 'a" and zero_entry :: 'a
    and put :: "'t \<Rightarrow> 'i \<Rightarrow> 'a \<Rightarrow> 't" and shrink :: "'t \<Rightarrow> 't"
  assumes init_wf: "wf init" and init_lookup: "lookup init i = zero_entry"
    and put_wf: "wf t \<Longrightarrow> wf (put t i v)"
    and put_lookup: "wf t \<Longrightarrow> lookup (put t i v) j = (if j = i then v else lookup t j)"
    and shrink_wf: "wf t \<Longrightarrow> wf (shrink t)" and shrink_lookup: "wf t \<Longrightarrow> lookup (shrink t) i = lookup t i"
begin

lemma put_put_wf: "wf t \<Longrightarrow> wf (put (put t i v) j w)"
  by (simp add: put_wf)

lemma put_fun: "wf t \<Longrightarrow> lookup (put t i v) = (lookup t)(i := v)"
  by (auto simp: put_lookup fun_eq_iff)

lemma shrink_fun: "wf t \<Longrightarrow> lookup (shrink t) = lookup t"
  by (auto simp: shrink_lookup fun_eq_iff)

end

interpretation table: index_map it_wf empty_table "it_get z" z "it_put z" "it_shrink z" for z
  by unfold_locales (simp_all add: it_put_spec it_shrink_spec)

end
