(* ===== verification/Ecs_Store.thy ===== *)
theory Ecs_Store
  imports Ecs_Index
begin

text \<open>
  \<open>ecs/store.go\<close>: \<open>storeResource\<close>, every value of one component type in one world as a sparse set,
  with the shadows, row states and change list an observed store keeps.  The arrays of owners and
  row states are the lists they hold, and a list of chunks is its rows, a chunk of 256 at a time.
  A row's address is the row: reading and writing through it are \<open>value_at\<close> and \<open>put_value\<close>.  Values
  are of any type, a component's bytes; a tag's, of size 0, has no storage.
\<close>

datatype observation = Unobserved | ObserverWaiting | Observed

datatype row_state = RowUnchanged | RowChanged | RowAdded | RowRemoved | RowDiscarded

datatype delta = DeltaNone | DeltaAdded | DeltaChanged | DeltaRemoved | DeltaReleased

definition rowsPerChunk :: nat where
  "rowsPerChunk = 2 ^ 8"

definition changedEntitiesShift :: nat where
  "changedEntitiesShift = 3"

record 'v store =
  st_size :: nat
  st_zero :: 'v
  st_rows :: "u32 index_table"
  st_owners :: "entity list"
  st_values :: "'v list"
  st_live :: nat
  st_obs :: observation
  st_shadows :: "'v list"
  st_states :: "row_state list"
  st_changed :: "entity list"
  st_overflow :: bool

definition newStoreOf :: "nat \<Rightarrow> 'v \<Rightarrow> 'v store" where
  "newStoreOf sz zero =
     \<lparr>st_size = sz, st_zero = zero, st_rows = empty_table, st_owners = [], st_values = [], st_live = 0,
      st_obs = Unobserved, st_shadows = [], st_states = [], st_changed = [], st_overflow = False\<rparr>"

section \<open>Rows and values\<close>

text \<open>\<open>*slot - 1\<close> wraps in 32 bits when there is no link.\<close>

definition slot_row :: "'v store \<Rightarrow> u32 \<Rightarrow> nat" where
  "slot_row s i = unat (it_get 0 (st_rows s) i - 1)"

definition has_slot :: "'v store \<Rightarrow> u32 \<Rightarrow> bool" where
  "has_slot s i = (case it_at (st_rows s) i of None \<Rightarrow> False | Some slot \<Rightarrow> slot \<noteq> 0)"

definition set_link :: "u32 \<Rightarrow> u32 \<Rightarrow> 'v store \<Rightarrow> 'v store" where
  "set_link i v s = s\<lparr>st_rows := it_put 0 (st_rows s) i v\<rparr>"

definition value_at :: "'v store \<Rightarrow> nat \<Rightarrow> 'v" where
  "value_at s row = (if st_size s = 0 then st_zero s else st_values s ! row)"

definition shadow_at :: "'v store \<Rightarrow> nat \<Rightarrow> 'v" where
  "shadow_at s row = (if st_size s = 0 then st_zero s else st_shadows s ! row)"

definition put_value :: "nat \<Rightarrow> 'v \<Rightarrow> 'v store \<Rightarrow> 'v store" where
  "put_value row v s = (if st_size s = 0 then s else s\<lparr>st_values := (st_values s)[row := v]\<rparr>)"

definition put_shadow :: "nat \<Rightarrow> 'v \<Rightarrow> 'v store \<Rightarrow> 'v store" where
  "put_shadow row v s = (if st_size s = 0 then s else s\<lparr>st_shadows := (st_shadows s)[row := v]\<rparr>)"

definition newChunk :: "'v store \<Rightarrow> 'v list" where
  "newChunk s = replicate rowsPerChunk (st_zero s)"

definition st_len :: "'v store \<Rightarrow> nat" where
  "st_len s = st_live s"

definition st_row :: "'v store \<Rightarrow> entity \<Rightarrow> nat \<times> bool" where
  "st_row s e =
     (if \<not> has_slot s (e_index e) then (0, False)
      else let row = slot_row s (e_index e) in (row, row < st_live s \<and> st_owners s ! row = e))"

text \<open>\<open>get\<close> answers the row whose address it is, or \<open>None\<close> for nil.\<close>

definition st_get :: "'v store \<Rightarrow> entity \<Rightarrow> nat option" where
  "st_get s e =
     (if \<not> has_slot s (e_index e) then None
      else let row = slot_row s (e_index e)
           in if row \<ge> st_live s \<or> st_owners s ! row \<noteq> e then None else Some row)"

definition listChanged :: "entity \<Rightarrow> 'v store \<Rightarrow> 'v store" where
  "listChanged e s =
     (if length (st_changed s) < st_live s div 2 ^ changedEntitiesShift
      then s\<lparr>st_changed := st_changed s @ [e]\<rparr> else s\<lparr>st_overflow := True\<rparr>)"

definition markChanged :: "nat \<Rightarrow> entity \<Rightarrow> 'v store \<Rightarrow> 'v store" where
  "markChanged row e s =
     (if st_obs s \<noteq> Observed then s
      else if st_states s ! row = RowUnchanged
      then listChanged e (s\<lparr>st_states := (st_states s)[row := RowChanged]\<rparr>) else s)"

definition st_write :: "entity \<Rightarrow> 'v store \<Rightarrow> nat option \<times> 'v store" where
  "st_write e s =
     (case st_get s e of None \<Rightarrow> (None, s) | Some row \<Rightarrow> (Some row, markChanged row e s))"

definition st_chunk :: "'v store \<Rightarrow> nat \<Rightarrow> entity list" where
  "st_chunk s c = take (min (st_live s - c * rowsPerChunk) rowsPerChunk) (drop (c * rowsPerChunk) (st_owners s))"

section \<open>Adding and removing\<close>

definition swap_list :: "nat \<Rightarrow> nat \<Rightarrow> 'a list \<Rightarrow> 'a list" where
  "swap_list a b xs = xs[a := xs ! b, b := xs ! a]"

definition swap :: "nat \<Rightarrow> nat \<Rightarrow> 'v store \<Rightarrow> 'v store" where
  "swap a b s =
     (if a = b then s
      else let ownerA = st_owners s ! a; ownerB = st_owners s ! b;
               linkedB = (it_get 0 (st_rows s) (e_index ownerB) = of_nat b + 1);
               s1 = set_link (e_index ownerA) (of_nat b + 1) s;
               s2 = (if linkedB then set_link (e_index ownerB) (of_nat a + 1) s1 else s1);
               s3 = s2\<lparr>st_owners := swap_list a b (st_owners s2), st_states := swap_list a b (st_states s2)\<rparr>
           in if st_size s = 0 then s3
              else s3\<lparr>st_values := swap_list a b (st_values s3), st_shadows := swap_list a b (st_shadows s3)\<rparr>)"

definition tailRow :: "'v store \<Rightarrow> entity \<Rightarrow> nat \<times> bool" where
  "tailRow s e =
     (if \<not> has_slot s (e_index e) then (0, False)
      else let row = slot_row s (e_index e)
           in (row, row \<ge> st_live s \<and> row < length (st_owners s) \<and> st_owners s ! row = e))"

text \<open>The two halves of \<open>add\<close>: bringing a row of the tail back, and a new row.\<close>

definition revive :: "nat \<Rightarrow> 'v store \<Rightarrow> nat \<times> 'v store" where
  "revive row s =
     (let s1 = swap row (st_live s) s; k = st_live s1;
          state = (if st_states s1 ! k = RowDiscarded then RowAdded else RowChanged);
          s2 = s1\<lparr>st_states := (st_states s1)[k := state], st_live := k + 1\<rparr>
      in (st_live s2 - 1, s2))"

definition grow_chunks_for :: "nat \<Rightarrow> 'v store \<Rightarrow> 'v store" where
  "grow_chunks_for row s =
     (if st_size s \<noteq> 0 \<and> row div rowsPerChunk = length (st_values s) div rowsPerChunk
      then let s1 = s\<lparr>st_values := st_values s @ newChunk s\<rparr>
           in if st_obs s = Observed then s1\<lparr>st_shadows := st_shadows s1 @ newChunk s1\<rparr> else s1
      else s)"

definition append_row :: "entity \<Rightarrow> 'v store \<Rightarrow> nat \<times> 'v store" where
  "append_row e s =
     (let row = length (st_owners s);
          s1 = grow_chunks_for row (s\<lparr>st_owners := st_owners s @ [e]\<rparr>);
          s2 = set_link (e_index e) (of_nat row + 1) s1;
          s3 = (if st_obs s2 = Observed
                then swap row (st_live s2) (listChanged e (s2\<lparr>st_states := st_states s2 @ [RowAdded]\<rparr>)) else s2);
          s4 = s3\<lparr>st_live := st_live s3 + 1\<rparr>
      in (st_live s4 - 1, s4))"

definition st_add :: "entity \<Rightarrow> 'v store \<Rightarrow> nat \<times> 'v store" where
  "st_add e s =
     (if st_obs s = Observed
      then case tailRow s e of (row, ok) \<Rightarrow>
        if ok then revive row s
        else append_row e (if has_slot s (e_index e) then s\<lparr>st_overflow := True\<rparr> else s)
      else append_row e s)"

definition removed_state :: "row_state \<Rightarrow> row_state" where
  "removed_state st = (if st = RowAdded then RowDiscarded else RowRemoved)"

definition st_remove :: "entity \<Rightarrow> nat \<Rightarrow> 'v store \<Rightarrow> 'v store" where
  "st_remove e row s =
     (let final = st_live s - 1; s0 = s\<lparr>st_live := final\<rparr>
      in if st_obs s0 = Observed
         then let s1 = swap row final s0; state = st_states s1 ! final;
                  s2 = (if state = RowUnchanged then listChanged e s1 else s1)
              in s2\<lparr>st_states := (st_states s2)[final := removed_state state]\<rparr>
         else let s1 = s0\<lparr>st_owners := butlast ((st_owners s0)[row := last (st_owners s0)])\<rparr>;
                  s2 = (if row \<noteq> final
                        then put_value row (value_at s1 final)
                               (set_link (e_index (st_owners s1 ! row)) (of_nat row + 1) s1)
                        else s1)
              in set_link (e_index e) 0 s2)"

section \<open>Observation\<close>

definition registerObserver :: "'v store \<Rightarrow> 'v store" where
  "registerObserver s = (if st_obs s = Unobserved then s\<lparr>st_obs := ObserverWaiting\<rparr> else s)"

definition st_observed :: "'v store \<Rightarrow> bool" where
  "st_observed s \<longleftrightarrow> st_obs s = Observed"

definition st_delta :: "'v store \<Rightarrow> nat \<Rightarrow> delta" where
  "st_delta s row =
     (case st_states s ! row of
        RowAdded \<Rightarrow> DeltaAdded
      | RowChanged \<Rightarrow> if value_at s row = shadow_at s row then DeltaNone else DeltaChanged
      | RowRemoved \<Rightarrow> DeltaRemoved
      | _ \<Rightarrow> DeltaNone)"

definition reportedRow :: "'v store \<Rightarrow> entity \<Rightarrow> nat \<times> bool" where
  "reportedRow s e =
     (if \<not> has_slot s (e_index e) then (0, False)
      else let row = slot_row s (e_index e)
           in if row \<ge> length (st_owners s) \<or> st_owners s ! row \<noteq> e then (0, False)
              else (row, row < st_live s \<or> st_states s ! row = RowRemoved))"

definition walkedRows :: "'v store \<Rightarrow> nat" where
  "walkedRows s = (if st_overflow s then length (st_owners s) else length (st_changed s))"

definition listedRow :: "'v store \<Rightarrow> nat \<Rightarrow> nat" where
  "listedRow s i = slot_row s (e_index (st_changed s ! i))"

definition walked_row :: "'v store \<Rightarrow> nat \<Rightarrow> nat" where
  "walked_row s i = (if st_overflow s then i else listedRow s i)"

definition startObservation :: "'v store \<Rightarrow> 'v store" where
  "startObservation s =
     (if st_obs s \<noteq> ObserverWaiting then s
      else s\<lparr>st_obs := Observed, st_overflow := True,
             st_shadows := st_shadows s @ replicate (length (st_values s)) (st_zero s),
             st_states := st_states s @ replicate (length (st_owners s)) RowAdded\<rparr>)"

definition reset_row :: "nat \<Rightarrow> 'v store \<Rightarrow> 'v store" where
  "reset_row row s =
     (if row \<ge> st_live s then s
      else if st_states s ! row \<noteq> RowUnchanged
      then (put_shadow row (value_at s row) s)\<lparr>st_states := (st_states s)[row := RowUnchanged]\<rparr>
      else s)"

definition unlink_row :: "nat \<Rightarrow> 'v store \<Rightarrow> 'v store" where
  "unlink_row row s =
     (let i = e_index (st_owners s ! row)
      in if it_get 0 (st_rows s) i = of_nat row + 1 then set_link i 0 s else s)"

definition resetObservation :: "'v store \<Rightarrow> 'v store" where
  "resetObservation s =
     (if st_obs s \<noteq> Observed then s
      else let s1 = fold reset_row (map (walked_row s) [0..<walkedRows s]) s;
               s2 = s1\<lparr>st_changed := [], st_overflow := False\<rparr>;
               s3 = fold unlink_row [st_live s2..<length (st_owners s2)] s2
           in s3\<lparr>st_owners := take (st_live s3) (st_owners s3), st_states := take (st_live s3) (st_states s3)\<rparr>)"

definition st_shrink :: "'v store \<Rightarrow> 'v store" where
  "st_shrink s =
     (let used = min ((length (st_owners s) + rowsPerChunk - 1) div rowsPerChunk * rowsPerChunk) (length (st_values s));
          s1 = s\<lparr>st_values := take used (st_values s)\<rparr>;
          s2 = (if st_observed s1 then s1\<lparr>st_shadows := take used (st_shadows s1)\<rparr> else s1)
      in s2\<lparr>st_rows := it_shrink 0 (st_rows s2)\<rparr>)"

section \<open>Links\<close>

definition slot_of_index :: "'v store \<Rightarrow> u32 \<Rightarrow> u32" where
  "slot_of_index s i = it_get 0 (st_rows s) i"

definition own :: "'v store \<Rightarrow> nat \<Rightarrow> entity" where
  "own s r = st_owners s ! r"

definition linked :: "'v store \<Rightarrow> nat \<Rightarrow> bool" where
  "linked s r \<longleftrightarrow> slot_of_index s (e_index (own s r)) = of_nat r + 1"

text \<open>Every link leads to a row of an owner at that index; 32 bits hold a row and one more.\<close>

definition links_ok :: "'v store \<Rightarrow> bool" where
  "links_ok s \<longleftrightarrow>
     it_wf (st_rows s) \<and> length (st_owners s) < 2 ^ 32 - 1
     \<and> (\<forall>i. slot_of_index s i \<noteq> 0 \<longrightarrow>
          (\<exists>r < length (st_owners s). slot_of_index s i = of_nat r + 1 \<and> e_index (own s r) = i))"

lemma row_plus_one:
  assumes "r < 2 ^ 32 - 1"
  shows "(of_nat r + 1 :: u32) \<noteq> 0" and "unat (of_nat r + 1 - 1 :: u32) = r"
    and "q < 2 ^ 32 - 1 \<Longrightarrow> (of_nat r + 1 :: u32) = of_nat q + 1 \<longleftrightarrow> r = q"
proof -
  have "unat (of_nat (r + 1) :: u32) = r + 1" using assms by (intro unat_of_nat_u32) simp
  then show "(of_nat r + 1 :: u32) \<noteq> 0" by (metis Suc_eq_plus1 add.commute nat.distinct(1) of_nat_Suc unat_0)
  show "unat (of_nat r + 1 - 1 :: u32) = r" using assms unat_of_nat_u32[of r] by simp
  show "(of_nat r + 1 :: u32) = of_nat q + 1 \<longleftrightarrow> r = q" if "q < 2 ^ 32 - 1"
    using assms that of_nat_u32_inj[of r q] by auto
qed

lemma set_link_slot:
  assumes "it_wf (st_rows s)"
  shows "slot_of_index (set_link i v s) j = (if j = i then v else slot_of_index s j)"
    and "it_wf (st_rows (set_link i v s))"
  using assms by (simp_all add: slot_of_index_def set_link_def table.put_lookup table.put_wf)

lemma set_link_fields [simp]:
  "st_size (set_link i v s) = st_size s" "st_zero (set_link i v s) = st_zero s"
  "st_owners (set_link i v s) = st_owners s" "st_values (set_link i v s) = st_values s"
  "st_live (set_link i v s) = st_live s" "st_obs (set_link i v s) = st_obs s"
  "st_shadows (set_link i v s) = st_shadows s" "st_states (set_link i v s) = st_states s"
  "st_changed (set_link i v s) = st_changed s" "st_overflow (set_link i v s) = st_overflow s"
  "own (set_link i v s) = own s"
  by (simp_all add: set_link_def own_def fun_eq_iff)

lemma has_slot_iff: "has_slot s i \<longleftrightarrow> slot_of_index s i \<noteq> 0"
  by (simp add: has_slot_def slot_of_index_def it_get_def split: option.splits)

lemma slot_row_linked:
  assumes "links_ok s" and "r < length (st_owners s)" and "linked s r"
  shows "has_slot s (e_index (own s r))" and "slot_row s (e_index (own s r)) = r"
  using assms row_plus_one[of r] by (simp_all add: has_slot_iff linked_def links_ok_def slot_row_def slot_of_index_def)

text \<open>What a slot leads to is a linked row, and no two rows at one index are both linked.\<close>

lemma slot_row_is_linked:
  assumes "links_ok s" and "has_slot s i"
  shows "slot_row s i < length (st_owners s)" and "e_index (own s (slot_row s i)) = i" and "linked s (slot_row s i)"
proof -
  obtain r where r: "r < length (st_owners s)" "slot_of_index s i = of_nat r + 1" "e_index (own s r) = i"
    using assms by (auto simp: links_ok_def has_slot_iff)
  have "r < 2 ^ 32 - 1" using r(1) assms(1) by (simp add: links_ok_def)
  then have "slot_row s i = r" using row_plus_one(2)[of r] r(2) by (simp add: slot_row_def slot_of_index_def)
  then show "slot_row s i < length (st_owners s)" "e_index (own s (slot_row s i)) = i" "linked s (slot_row s i)"
    using r by (simp_all add: linked_def)
qed

lemma linked_inj:
  assumes "links_ok s" and "linked s r" and "linked s q" and "r < length (st_owners s)" and "q < length (st_owners s)"
    and "e_index (own s r) = e_index (own s q)"
  shows "r = q"
  using assms slot_row_linked(2)[of s r] slot_row_linked(2)[of s q] by metis

section \<open>Swapping rows\<close>

definition transpose_row :: "nat \<Rightarrow> nat \<Rightarrow> nat \<Rightarrow> nat" where
  "transpose_row a b r = (if r = a then b else if r = b then a else r)"

lemma transpose_row_less [simp]: "a < n \<Longrightarrow> b < n \<Longrightarrow> r < n \<Longrightarrow> transpose_row a b r < n"
  by (simp add: transpose_row_def)

lemma transpose_row_same [simp]: "transpose_row a a r = r"
  by (simp add: transpose_row_def)

lemma transpose_row_twice [simp]: "transpose_row a b (transpose_row a b r) = r"
  by (auto simp: transpose_row_def)

lemma swap_list_nth:
  "a < length xs \<Longrightarrow> b < length xs \<Longrightarrow> r < length xs \<Longrightarrow> swap_list a b xs ! r = xs ! transpose_row a b r"
  by (simp add: swap_list_def transpose_row_def nth_list_update)

lemma length_swap_list [simp]: "length (swap_list a b xs) = length xs"
  by (simp add: swap_list_def)

lemma swap_list_same [simp]: "swap_list a a xs = xs"
  by (simp add: swap_list_def)

lemma swap_slot:
  assumes "it_wf (st_rows s)" and "a \<noteq> b"
  shows "slot_of_index (swap a b s) i =
      (if linked s b \<and> i = e_index (own s b) then of_nat a + 1
       else if i = e_index (own s a) then of_nat b + 1 else slot_of_index s i)"
    and "it_wf (st_rows (swap a b s))"
proof -
  let ?ia = "e_index (own s a)" and ?ib = "e_index (own s b)"
  have wf1: "it_wf (st_rows (set_link ?ia (of_nat b + 1) s))" using set_link_slot(2)[OF assms(1)] .
  have rows: "st_rows (swap a b s) = st_rows (if linked s b then set_link ?ib (of_nat a + 1) (set_link ?ia (of_nat b + 1) s)
      else set_link ?ia (of_nat b + 1) s)"
    using assms(2) by (simp add: swap_def Let_def linked_def slot_of_index_def own_def)
  show "it_wf (st_rows (swap a b s))"
    unfolding rows using set_link_slot(2)[OF assms(1)] set_link_slot(2)[OF wf1] by simp
  have "slot_of_index (swap a b s) i = slot_of_index (if linked s b
      then set_link ?ib (of_nat a + 1) (set_link ?ia (of_nat b + 1) s) else set_link ?ia (of_nat b + 1) s) i"
    using rows by (simp add: slot_of_index_def)
  then show "slot_of_index (swap a b s) i =
      (if linked s b \<and> i = ?ib then of_nat a + 1 else if i = ?ia then of_nat b + 1 else slot_of_index s i)"
    using set_link_slot(1)[OF assms(1)] set_link_slot(1)[OF wf1] by simp
qed

lemma swap_own:
  assumes "a < length (st_owners s)" and "b < length (st_owners s)" and "r < length (st_owners s)"
  shows "own (swap a b s) r = own s (transpose_row a b r)"
  using assms by (cases "a = b") (simp_all add: swap_def Let_def own_def swap_list_nth)

text \<open>Links after a swap of a linked row: rows keep their links wherever they go.\<close>

lemma swap_keeps_link:
  assumes "links_ok s" and "a < length (st_owners s)" and "b < length (st_owners s)" and "linked s a" and "a \<noteq> b"
    and "r < length (st_owners s)" and "r = b \<or> linked s (transpose_row a b r)"
  shows "linked (swap a b s) r"
proof -
  have wf: "it_wf (st_rows s)" using assms(1) by (simp add: links_ok_def)
  note slot = swap_slot(1)[OF wf assms(5)] and own' = swap_own[OF assms(2,3,6)]
  consider "r = a" | "r = b" | "r \<noteq> a" "r \<noteq> b" by blast
  then show ?thesis
  proof cases
    case 1
    then have "linked s b" using assms(5,7) by (simp add: transpose_row_def)
    then show ?thesis using 1 own' slot[of "e_index (own s b)"] by (simp add: linked_def transpose_row_def)
  next
    case 2
    have "\<not> (linked s b \<and> e_index (own s a) = e_index (own s b))"
      using linked_inj[OF assms(1,4) _ assms(2,3)] assms(5) by blast
    then show ?thesis
      using 2 own' slot[of "e_index (own s a)"] assms(5) by (auto simp: linked_def transpose_row_def)
  next
    case 3
    then have lr: "linked s r" using assms(7) by (simp add: transpose_row_def)
    have "e_index (own s r) \<noteq> e_index (own s a)"
      using linked_inj[OF assms(1) lr assms(4,6,2)] 3 by blast
    moreover have "\<not> (linked s b \<and> e_index (own s r) = e_index (own s b))"
      using linked_inj[OF assms(1) lr _ assms(6,3)] 3 by blast
    ultimately show ?thesis
      using 3 own' lr slot[of "e_index (own s r)"] by (auto simp: linked_def transpose_row_def)
  qed
qed

lemma swap_slot_leads:
  assumes "links_ok s" and "a < length (st_owners s)" and "b < length (st_owners s)" and "linked s a" and "a \<noteq> b"
    and "slot_of_index (swap a b s) i \<noteq> 0"
  shows "\<exists>r < length (st_owners s). slot_of_index (swap a b s) i = of_nat r + 1 \<and> e_index (own (swap a b s) r) = i"
proof -
  have wf: "it_wf (st_rows s)" using assms(1) by (simp add: links_ok_def)
  note slot = swap_slot(1)[OF wf assms(5), of i] and own' = swap_own[OF assms(2,3)]
  consider (B) "linked s b" "i = e_index (own s b)" | (A) "\<not> (linked s b \<and> i = e_index (own s b))" "i = e_index (own s a)"
    | (C) "\<not> (linked s b \<and> i = e_index (own s b))" "i \<noteq> e_index (own s a)" by blast
  then show ?thesis
  proof cases
    case B
    then have "slot_of_index (swap a b s) i = of_nat a + 1" "e_index (own (swap a b s) a) = i"
      using slot own'[OF assms(2)] by (simp_all add: transpose_row_def)
    then show ?thesis using assms(2) by blast
  next
    case A
    then have "slot_of_index (swap a b s) i = of_nat b + 1" "e_index (own (swap a b s) b) = i"
      using slot own'[OF assms(3)] assms(5) by (auto simp: transpose_row_def)
    then show ?thesis using assms(3) by blast
  next
    case C
    then have eq: "slot_of_index (swap a b s) i = slot_of_index s i" using slot by auto
    then obtain r where r: "r < length (st_owners s)" "slot_of_index s i = of_nat r + 1" "e_index (own s r) = i"
      using assms(1,6) by (auto simp: links_ok_def)
    have "r \<noteq> a" using r(3) C(2) by blast
    moreover have "r \<noteq> b" using r C(1) by (auto simp: linked_def)
    ultimately have "e_index (own (swap a b s) r) = i" using own'[OF r(1)] r(3) by (simp add: transpose_row_def)
    then show ?thesis using r eq by auto
  qed
qed

lemma swap_links:
  assumes "links_ok s" and "a < length (st_owners s)" and "b < length (st_owners s)" and "linked s a"
  shows "links_ok (swap a b s)" and "linked (swap a b s) b"
    and "\<And>r. r < length (st_owners s) \<Longrightarrow> linked s (transpose_row a b r) \<Longrightarrow> linked (swap a b s) r"
proof -
  have wf: "it_wf (st_rows s)" using assms(1) by (simp add: links_ok_def)
  have len: "length (st_owners (swap a b s)) = length (st_owners s)" by (simp add: swap_def Let_def)
  have same: "a = b \<Longrightarrow> swap a b s = s" by (simp add: swap_def)
  show "links_ok (swap a b s)"
  proof (cases "a = b")
    case False
    then show ?thesis
      using swap_slot(2)[OF wf False] swap_slot_leads[OF assms False] assms(1) unfolding links_ok_def len by blast
  qed (use same assms(1) in simp)
  show "linked (swap a b s) b"
    using swap_keeps_link[OF assms _ assms(3)] same assms(4) by (cases "a = b") auto
  show "linked (swap a b s) r" if "r < length (st_owners s)" "linked s (transpose_row a b r)" for r
    using swap_keeps_link[OF assms _ that(1)] that(2) same by (cases "a = b") auto
qed

lemma swap_fields [simp]:
  "st_size (swap a b s) = st_size s" "st_zero (swap a b s) = st_zero s" "st_live (swap a b s) = st_live s"
  "st_obs (swap a b s) = st_obs s" "st_changed (swap a b s) = st_changed s" "st_overflow (swap a b s) = st_overflow s"
  "length (st_owners (swap a b s)) = length (st_owners s)" "length (st_values (swap a b s)) = length (st_values s)"
  "length (st_shadows (swap a b s)) = length (st_shadows s)" "length (st_states (swap a b s)) = length (st_states s)"
  by (simp_all add: swap_def Let_def)

lemma swap_rows:
  assumes "a < length (st_owners s)" and "b < length (st_owners s)" and "r < length (st_owners s)"
  shows "own (swap a b s) r = own s (transpose_row a b r)"
    and "length (st_states s) = length (st_owners s) \<Longrightarrow> st_states (swap a b s) ! r = st_states s ! transpose_row a b r"
    and "(st_size s \<noteq> 0 \<Longrightarrow> length (st_owners s) \<le> length (st_values s)) \<Longrightarrow> value_at (swap a b s) r = value_at s (transpose_row a b r)"
    and "(st_size s \<noteq> 0 \<Longrightarrow> length (st_owners s) \<le> length (st_shadows s)) \<Longrightarrow> shadow_at (swap a b s) r = shadow_at s (transpose_row a b r)"
proof -
  show "own (swap a b s) r = own s (transpose_row a b r)" by (rule swap_own[OF assms])
  show "st_states (swap a b s) ! r = st_states s ! transpose_row a b r" if "length (st_states s) = length (st_owners s)"
    using assms that by (cases "a = b") (simp_all add: swap_def Let_def swap_list_nth)
  show "value_at (swap a b s) r = value_at s (transpose_row a b r)"
    if le: "st_size s \<noteq> 0 \<Longrightarrow> length (st_owners s) \<le> length (st_values s)"
  proof (cases "a = b \<or> st_size s = 0")
    case True
    then show ?thesis by (auto simp: value_at_def) (simp add: swap_def)
  next
    case False
    then have "st_values (swap a b s) = swap_list a b (st_values s)" by (simp add: swap_def Let_def)
    then show ?thesis using False le assms by (simp add: value_at_def swap_list_nth)
  qed
  show "shadow_at (swap a b s) r = shadow_at s (transpose_row a b r)"
    if le: "st_size s \<noteq> 0 \<Longrightarrow> length (st_owners s) \<le> length (st_shadows s)"
  proof (cases "a = b \<or> st_size s = 0")
    case True
    then show ?thesis by (auto simp: shadow_at_def) (simp add: swap_def)
  next
    case False
    then have "st_shadows (swap a b s) = swap_list a b (st_shadows s)" by (simp add: swap_def Let_def)
    then show ?thesis using False le assms by (simp add: shadow_at_def swap_list_nth)
  qed
qed

section \<open>The invariant\<close>

definition live_state :: "row_state \<Rightarrow> bool" where
  "live_state st \<longleftrightarrow> st \<in> {RowUnchanged, RowChanged, RowAdded}"

definition tail_state :: "row_state \<Rightarrow> bool" where
  "tail_state st \<longleftrightarrow> st \<in> {RowRemoved, RowDiscarded}"

text \<open>
  Every live row is linked; there is storage for every row, in whole chunks; and only an observed
  store has shadows, states and a tail.
\<close>

definition storage_ok :: "'v store \<Rightarrow> bool" where
  "storage_ok s \<longleftrightarrow>
     (st_size s \<noteq> 0 \<longrightarrow> length (st_owners s) \<le> length (st_values s) \<and> rowsPerChunk dvd length (st_values s))
     \<and> (if st_obs s = Observed
        then length (st_states s) = length (st_owners s) \<and> (st_size s \<noteq> 0 \<longrightarrow> length (st_shadows s) = length (st_values s))
        else length (st_owners s) = st_live s \<and> st_states s = [] \<and> st_shadows s = [])"

definition rows_ok :: "'v store \<Rightarrow> bool" where
  "rows_ok s \<longleftrightarrow>
     st_live s \<le> length (st_owners s) \<and> (\<forall>r < st_live s. linked s r)
     \<and> (st_obs s = Observed \<longrightarrow>
          (\<forall>r < length (st_owners s). if r < st_live s then live_state (st_states s ! r) else tail_state (st_states s ! r)))"

definition st_inv :: "'v store \<Rightarrow> bool" where
  "st_inv s \<longleftrightarrow> links_ok s \<and> storage_ok s \<and> rows_ok s"

lemma st_inv_new: "st_inv (newStoreOf sz z)"
  by (simp add: st_inv_def links_ok_def storage_ok_def rows_ok_def newStoreOf_def slot_of_index_def)

lemma st_invD:
  assumes "st_inv s"
  shows "links_ok s" and "storage_ok s" and "st_live s \<le> length (st_owners s)"
    and "\<And>r. r < st_live s \<Longrightarrow> linked s r"
    and "st_obs s = Observed \<Longrightarrow> r < st_live s \<Longrightarrow> live_state (st_states s ! r)"
    and "st_obs s = Observed \<Longrightarrow> st_live s \<le> r \<Longrightarrow> r < length (st_owners s) \<Longrightarrow> tail_state (st_states s ! r)"
  using assms by (auto simp: st_inv_def rows_ok_def dest!: spec[where x = r])

text \<open>The live row of an entity, and the map a store holds.\<close>

lemma st_get_iff:
  assumes "st_inv s"
  shows "st_get s e = Some r \<longleftrightarrow> r < st_live s \<and> own s r = e"
proof
  assume "st_get s e = Some r"
  then show "r < st_live s \<and> own s r = e"
    by (auto simp: st_get_def Let_def own_def split: if_splits)
next
  assume r: "r < st_live s \<and> own s r = e"
  then have "has_slot s (e_index e)" "slot_row s (e_index e) = r"
    using slot_row_linked[of s r] st_invD[OF assms] by auto
  then show "st_get s e = Some r" using r by (simp add: st_get_def own_def)
qed

lemma st_row_iff:
  assumes "st_inv s"
  shows "st_row s e = (r, True) \<longleftrightarrow> st_get s e = Some r" and "snd (st_row s e) \<longleftrightarrow> st_get s e \<noteq> None"
  by (auto simp: st_row_def st_get_def Let_def)

definition st_map :: "'v store \<Rightarrow> entity \<Rightarrow> 'v option" where
  "st_map s e = map_option (value_at s) (st_get s e)"

lemma st_map_row:
  assumes "st_inv s" and "r < st_live s" and "own s r = e"
  shows "st_map s e = Some (value_at s r)"
  using st_get_iff[OF assms(1), of e r] assms(2,3) by (simp add: st_map_def)

lemma st_map_none: "st_inv s \<Longrightarrow> st_map s e = None \<longleftrightarrow> (\<forall>r < st_live s. own s r \<noteq> e)"
  using st_get_iff[of s e] by (cases "st_get s e") (auto simp: st_map_def)

text \<open>Two stores whose live rows carry the same entities with the same values hold the same map.\<close>

lemma st_map_eqI:
  assumes "st_inv s" and "st_inv s'"
    and "\<And>r. r < st_live s \<Longrightarrow> own s r \<in> K \<Longrightarrow> \<exists>q < st_live s'. own s' q = own s r \<and> value_at s' q = value_at s r"
    and "\<And>q. q < st_live s' \<Longrightarrow> own s' q \<in> K \<Longrightarrow> \<exists>r < st_live s. own s r = own s' q"
    and "e \<in> K"
  shows "st_map s' e = st_map s e"
proof (cases "st_map s e")
  case None
  then have "\<forall>r < st_live s. own s r \<noteq> e" using st_map_none[OF assms(1)] by blast
  then have "\<forall>q < st_live s'. own s' q \<noteq> e" using assms(4,5) by metis
  then show ?thesis using None st_map_none[OF assms(2), of e] by simp
next
  case (Some v)
  then have "\<not> (\<forall>r < st_live s. own s r \<noteq> e)" using st_map_none[OF assms(1), of e] by auto
  then obtain r where r: "r < st_live s" "own s r = e" by blast
  then obtain q where q: "q < st_live s'" "own s' q = e" "value_at s' q = value_at s r" using assms(3,5) by metis
  then show ?thesis using st_map_row[OF assms(1) r] st_map_row[OF assms(2) q(1,2)] by simp
qed

section \<open>Writing in place\<close>

lemma listChanged_fields [simp]:
  "st_size (listChanged e s) = st_size s" "st_zero (listChanged e s) = st_zero s" "st_rows (listChanged e s) = st_rows s"
  "st_owners (listChanged e s) = st_owners s" "st_values (listChanged e s) = st_values s"
  "st_live (listChanged e s) = st_live s" "st_obs (listChanged e s) = st_obs s"
  "st_shadows (listChanged e s) = st_shadows s" "st_states (listChanged e s) = st_states s"
  by (simp_all add: listChanged_def)

text \<open>What the listing does not touch: all but the list and its flag.\<close>

lemma st_inv_cong:
  assumes "st_rows s' = st_rows s" and "st_owners s' = st_owners s" and "st_live s' = st_live s"
    and "st_obs s' = st_obs s" and "st_size s' = st_size s" and "length (st_values s') = length (st_values s)"
    and "length (st_shadows s') = length (st_shadows s)" and "length (st_states s') = length (st_states s)"
    and "\<And>r. st_obs s = Observed \<Longrightarrow> r < length (st_states s) \<Longrightarrow> live_state (st_states s' ! r) = live_state (st_states s ! r)
      \<and> tail_state (st_states s' ! r) = tail_state (st_states s ! r)"
    and "st_inv s"
  shows "st_inv s'"
proof -
  have l: "linked s' = linked s" "slot_of_index s' = slot_of_index s" "own s' = own s"
    using assms(1,2) by (simp_all add: linked_def slot_of_index_def own_def fun_eq_iff)
  have "storage_ok s'"
    using assms(10) unfolding st_inv_def storage_ok_def assms(2-8)
    by (metis assms(7,8) length_0_conv)
  moreover have "rows_ok s'"
    using assms(8-10) by (auto simp: st_inv_def rows_ok_def storage_ok_def l assms(2-4))
  moreover have "links_ok s'"
    using assms(10) by (simp add: st_inv_def links_ok_def l assms(1,2))
  ultimately show ?thesis by (simp add: st_inv_def)
qed

lemma put_value_fields [simp]:
  "st_size (put_value r v s) = st_size s" "st_zero (put_value r v s) = st_zero s" "st_rows (put_value r v s) = st_rows s"
  "st_owners (put_value r v s) = st_owners s" "st_live (put_value r v s) = st_live s" "st_obs (put_value r v s) = st_obs s"
  "st_shadows (put_value r v s) = st_shadows s" "st_states (put_value r v s) = st_states s"
  "st_changed (put_value r v s) = st_changed s" "st_overflow (put_value r v s) = st_overflow s"
  "length (st_values (put_value r v s)) = length (st_values s)"
  by (simp_all add: put_value_def)

lemma put_value_inv: "st_inv s \<Longrightarrow> st_inv (put_value r v s)"
  by (rule st_inv_cong[where s = s]) simp_all

text \<open>A tag's value is the empty one; another component's storage takes any value.\<close>

definition fits :: "'v store \<Rightarrow> 'v \<Rightarrow> bool" where
  "fits s v \<longleftrightarrow> st_size s \<noteq> 0 \<or> v = st_zero s"

lemma put_value_at:
  assumes "storage_ok s" and "r < length (st_owners s)" and "fits s v"
  shows "value_at (put_value r v s) q = (if q = r then v else value_at s q)"
  using assms by (auto simp: put_value_def value_at_def storage_ok_def fits_def nth_list_update)

lemma put_value_map:
  assumes "st_inv s" and "r < st_live s" and "fits s v"
  shows "st_map (put_value r v s) = (st_map s)(own s r \<mapsto> v)"
proof
  fix e
  have st: "storage_ok s" "r < length (st_owners s)" using st_invD[OF assms(1)] assms(2) by auto
  have get: "st_get (put_value r v s) e = st_get s e"
    by (simp add: st_get_def has_slot_def slot_row_def)
  show "st_map (put_value r v s) e = ((st_map s)(own s r \<mapsto> v)) e"
  proof (cases "e = own s r")
    case True
    then have "st_get s e = Some r" using st_get_iff[OF assms(1)] assms(2) by auto
    then show ?thesis using True get put_value_at[OF st assms(3)] by (simp add: st_map_def)
  next
    case False
    then have "st_get s e \<noteq> Some r" using st_get_iff[OF assms(1)] by auto
    then show ?thesis
      using False get put_value_at[OF st assms(3)] by (cases "st_get s e") (auto simp: st_map_def)
  qed
qed

lemma markChanged_fields [simp]:
  "st_size (markChanged r e s) = st_size s" "st_zero (markChanged r e s) = st_zero s"
  "st_rows (markChanged r e s) = st_rows s" "st_owners (markChanged r e s) = st_owners s"
  "st_values (markChanged r e s) = st_values s" "st_live (markChanged r e s) = st_live s"
  "st_obs (markChanged r e s) = st_obs s" "st_shadows (markChanged r e s) = st_shadows s"
  "length (st_states (markChanged r e s)) = length (st_states s)"
  by (simp_all add: markChanged_def)

lemma markChanged_inv: "st_inv s \<Longrightarrow> st_inv (markChanged r e s)"
proof (rule st_inv_cong[where s = s])
  fix q assume "q < length (st_states s)"
  then show "live_state (st_states (markChanged r e s) ! q) = live_state (st_states s ! q)
      \<and> tail_state (st_states (markChanged r e s) ! q) = tail_state (st_states s ! q)"
    by (cases "q = r") (auto simp: markChanged_def live_state_def tail_state_def)
qed simp_all

lemma same_map:
  assumes "st_rows s' = st_rows s" and "st_owners s' = st_owners s" and "st_live s' = st_live s"
    and "st_values s' = st_values s" and "st_size s' = st_size s" and "st_zero s' = st_zero s"
  shows "st_get s' = st_get s" and "st_map s' = st_map s"
proof -
  show get: "st_get s' = st_get s" using assms by (simp add: st_get_def has_slot_def slot_row_def fun_eq_iff)
  have "value_at s' = value_at s" using assms by (simp add: value_at_def fun_eq_iff)
  then show "st_map s' = st_map s" using get by (intro ext) (simp add: st_map_def)
qed

section \<open>Adding a row\<close>

text \<open>A row more at the end, before it moves: the owner, the storage and the link.\<close>

definition appended :: "entity \<Rightarrow> 'v store \<Rightarrow> 'v store" where
  "appended e s = set_link (e_index e) (of_nat (length (st_owners s)) + 1)
     (grow_chunks_for (length (st_owners s)) (s\<lparr>st_owners := st_owners s @ [e]\<rparr>))"

lemma grow_fields [simp]:
  "st_size (grow_chunks_for n s) = st_size s" "st_zero (grow_chunks_for n s) = st_zero s"
  "st_rows (grow_chunks_for n s) = st_rows s" "st_owners (grow_chunks_for n s) = st_owners s"
  "st_live (grow_chunks_for n s) = st_live s" "st_obs (grow_chunks_for n s) = st_obs s"
  "st_states (grow_chunks_for n s) = st_states s" "st_changed (grow_chunks_for n s) = st_changed s"
  "st_overflow (grow_chunks_for n s) = st_overflow s"
  by (simp_all add: grow_chunks_for_def Let_def)

lemma appended_fields [simp]:
  "st_size (appended e s) = st_size s" "st_zero (appended e s) = st_zero s" "st_owners (appended e s) = st_owners s @ [e]"
  "st_live (appended e s) = st_live s" "st_obs (appended e s) = st_obs s" "st_states (appended e s) = st_states s"
  "st_changed (appended e s) = st_changed s" "st_overflow (appended e s) = st_overflow s"
  "own (appended e s) = (!) (st_owners s @ [e])"
  by (simp_all add: appended_def own_def fun_eq_iff)

lemma appended_values:
  assumes "storage_ok s"
  shows "st_size s \<noteq> 0 \<Longrightarrow> length (st_owners s) < length (st_values (appended e s)) \<and> rowsPerChunk dvd length (st_values (appended e s))"
    and "r < length (st_owners s) \<Longrightarrow> value_at (appended e s) r = value_at s r"
    and "st_obs s = Observed \<Longrightarrow> st_size s \<noteq> 0 \<Longrightarrow> length (st_shadows (appended e s)) = length (st_values (appended e s))"
    and "st_obs s = Observed \<Longrightarrow> r < length (st_owners s) \<Longrightarrow> shadow_at (appended e s) r = shadow_at s r"
    and "st_obs s \<noteq> Observed \<Longrightarrow> st_shadows (appended e s) = st_shadows s"
proof -
  let ?n = "length (st_owners s)" and ?m = "length (st_values s)"
  have room: "?n < ?m" if "st_size s \<noteq> 0" "?n div rowsPerChunk \<noteq> ?m div rowsPerChunk"
    using assms that by (metis le_neq_implies_less storage_ok_def)
  show "?n < length (st_values (appended e s)) \<and> rowsPerChunk dvd length (st_values (appended e s))" if "st_size s \<noteq> 0"
    using assms that room
    by (auto simp: appended_def grow_chunks_for_def Let_def storage_ok_def newChunk_def rowsPerChunk_def)
  show "value_at (appended e s) r = value_at s r" if "r < ?n"
    using assms that by (auto simp: appended_def grow_chunks_for_def Let_def storage_ok_def value_at_def nth_append)
  show "length (st_shadows (appended e s)) = length (st_values (appended e s))" if "st_obs s = Observed" "st_size s \<noteq> 0"
    using assms that by (simp add: appended_def grow_chunks_for_def Let_def storage_ok_def newChunk_def)
  show "shadow_at (appended e s) r = shadow_at s r" if "st_obs s = Observed" "r < ?n"
    using assms that by (auto simp: appended_def grow_chunks_for_def Let_def storage_ok_def shadow_at_def nth_append)
  show "st_shadows (appended e s) = st_shadows s" if "st_obs s \<noteq> Observed"
    using that by (simp add: appended_def grow_chunks_for_def Let_def)
qed

lemma appended_slot:
  assumes "links_ok s"
  shows "slot_of_index (appended e s) i = (if i = e_index e then of_nat (length (st_owners s)) + 1 else slot_of_index s i)"
    and "it_wf (st_rows (appended e s))"
proof -
  let ?g = "grow_chunks_for (length (st_owners s)) (s\<lparr>st_owners := st_owners s @ [e]\<rparr>)"
  have wf: "it_wf (st_rows ?g)" using assms by (simp add: links_ok_def)
  have "slot_of_index ?g = slot_of_index s" by (simp add: slot_of_index_def fun_eq_iff)
  then show "slot_of_index (appended e s) i = (if i = e_index e then of_nat (length (st_owners s)) + 1 else slot_of_index s i)"
    using set_link_slot(1)[OF wf] by (simp add: appended_def)
  show "it_wf (st_rows (appended e s))" using set_link_slot(2)[OF wf] by (simp add: appended_def)
qed

lemma appended_links:
  assumes "links_ok s" and "length (st_owners s) + 1 < 2 ^ 32 - 1"
  shows "links_ok (appended e s)" and "linked (appended e s) (length (st_owners s))"
    and "\<And>r. r < length (st_owners s) \<Longrightarrow> linked s r \<Longrightarrow> e_index (own s r) \<noteq> e_index e \<Longrightarrow> linked (appended e s) r"
proof -
  let ?n = "length (st_owners s)"
  note slot = appended_slot(1)[OF assms(1), of e]
  have "\<exists>r < Suc ?n. slot_of_index (appended e s) i = of_nat r + 1 \<and> e_index ((st_owners s @ [e]) ! r) = i"
    if i: "slot_of_index (appended e s) i \<noteq> 0" for i
  proof (cases "i = e_index e")
    case True
    then show ?thesis using slot[of i] by (intro exI[of _ ?n]) simp
  next
    case False
    then obtain r where "r < ?n" "slot_of_index s i = of_nat r + 1" "e_index (own s r) = i"
      using assms(1) i slot[of i] by (auto simp: links_ok_def)
    then show ?thesis using False slot[of i] by (intro exI[of _ r]) (simp add: nth_append own_def)
  qed
  then show "links_ok (appended e s)"
    using assms(2) appended_slot(2)[OF assms(1)] by (simp add: links_ok_def)
  show "linked (appended e s) ?n" using slot by (simp add: linked_def)
  show "linked (appended e s) r" if "r < ?n" "linked s r" "e_index (own s r) \<noteq> e_index e" for r
    using that slot by (simp add: linked_def nth_append own_def)
qed

text \<open>What a row more, or one fewer, does to the map.\<close>

lemma map_extend:
  assumes "st_inv s" and "st_inv s'" and "st_live s' = st_live s + 1"
    and "\<And>r. r < st_live s \<Longrightarrow> own s' r = own s r \<and> value_at s' r = value_at s r"
    and "own s' (st_live s) = e" and "st_map s e = None"
  shows "st_map s' = (st_map s)(e \<mapsto> value_at s' (st_live s))"
proof
  fix x
  show "st_map s' x = ((st_map s)(e \<mapsto> value_at s' (st_live s))) x"
  proof (cases "x = e")
    case True
    then show ?thesis using st_map_row[OF assms(2) _ assms(5)] assms(3) by simp
  next
    case False
    have "st_map s' x = st_map s x"
    proof (rule st_map_eqI[OF assms(1,2), where K = "- {e}"])
      show "\<exists>q < st_live s'. own s' q = own s r \<and> value_at s' q = value_at s r" if "r < st_live s" for r
        using assms(3,4) that by (intro exI[of _ r]) simp
      show "\<exists>r < st_live s. own s r = own s' q" if "q < st_live s'" "own s' q \<in> - {e}" for q
      proof -
        have "q \<noteq> st_live s" using that(2) assms(5) by auto
        then show ?thesis using that(1) assms(3,4) by (intro exI[of _ q]) simp
      qed
    qed (use False in simp)
    then show ?thesis using False by simp
  qed
qed

lemma live_own_inj:
  assumes "st_inv s" and "r < st_live s" and "q < st_live s" and "e_index (own s r) = e_index (own s q)"
  shows "r = q"
  using linked_inj[of s r q] st_invD[OF assms(1)] assms(2-4) by auto

lemma map_drop:
  assumes "st_inv s" and "st_inv s'" and "st_live s = st_live s' + 1" and "row < st_live s" and "own s row = e"
    and "\<And>r. r < st_live s' \<Longrightarrow> own s' r = own s (transpose_row row (st_live s') r)
      \<and> value_at s' r = value_at s (transpose_row row (st_live s') r)"
  shows "st_map s' = (st_map s)(e := None)"
proof
  fix x
  let ?t = "transpose_row row (st_live s')"
  have t: "?t r < st_live s" "?t r \<noteq> row" if "r < st_live s'" for r
    using that assms(3,4) by (auto simp: transpose_row_def)
  show "st_map s' x = ((st_map s)(e := None)) x"
  proof (cases "x = e")
    case True
    have "own s' r \<noteq> e" if "r < st_live s'" for r
      using assms(5,6) t[OF that] that live_own_inj[OF assms(1), of "?t r" row] assms(4) by auto
    then show ?thesis using True st_map_none[OF assms(2), of e] by simp
  next
    case False
    have "st_map s' x = st_map s x"
    proof (rule st_map_eqI[OF assms(1,2), where K = "- {e}"])
      show "\<exists>q < st_live s'. own s' q = own s r \<and> value_at s' q = value_at s r" if "r < st_live s" "own s r \<in> - {e}" for r
      proof -
        have "?t r < st_live s'" using that assms(3-5) by (auto simp: transpose_row_def)
        then show ?thesis using assms(6)[of "?t r"] by (intro exI[of _ "?t r"]) simp
      qed
      show "\<exists>r < st_live s. own s r = own s' q" if "q < st_live s'" for q
        using assms(6)[OF that] t[OF that] by (intro exI[of _ "?t q"]) simp
    qed (use False in simp)
    then show ?thesis using False by simp
  qed
qed

text \<open>
  \<open>add\<close>'s precondition, \<open>e\<close> has no row here: no live row is at its index, and no row of the tail is
  its own but the one its slot leads to.
\<close>

definition addable :: "'v store \<Rightarrow> entity \<Rightarrow> bool" where
  "addable s e \<longleftrightarrow>
     length (st_owners s) + 1 < 2 ^ 32 - 1
     \<and> (\<forall>r < st_live s. e_index (own s r) \<noteq> e_index e)
     \<and> (\<forall>r < length (st_owners s). own s r = e \<longrightarrow> linked s r)"

lemma addable_none: "st_inv s \<Longrightarrow> addable s e \<Longrightarrow> st_map s e = None"
  by (auto simp: st_map_none addable_def)

text \<open>The added row of an observed store: it takes the first place after the live rows.\<close>

definition appended_state :: "entity \<Rightarrow> 'v store \<Rightarrow> 'v store" where
  "appended_state e s = listChanged e ((appended e s)\<lparr>st_states := st_states s @ [RowAdded]\<rparr>)"

lemma append_row_eq:
  "append_row e s =
     (st_live s, if st_obs s = Observed
        then (swap (length (st_owners s)) (st_live s) (appended_state e s))\<lparr>st_live := st_live s + 1\<rparr>
        else (appended e s)\<lparr>st_live := st_live s + 1\<rparr>)"
  by (simp add: append_row_def appended_state_def appended_def Let_def)

lemma appended_state_fields [simp]:
  "st_size (appended_state e s) = st_size s" "st_zero (appended_state e s) = st_zero s"
  "st_rows (appended_state e s) = st_rows (appended e s)" "st_owners (appended_state e s) = st_owners s @ [e]"
  "st_live (appended_state e s) = st_live s" "st_obs (appended_state e s) = st_obs s"
  "st_states (appended_state e s) = st_states s @ [RowAdded]" "st_values (appended_state e s) = st_values (appended e s)"
  "st_shadows (appended_state e s) = st_shadows (appended e s)"
  by (simp_all add: appended_state_def)

lemma appended_state_views [simp]:
  "own (appended_state e s) = own (appended e s)" "linked (appended_state e s) = linked (appended e s)"
  "links_ok (appended_state e s) = links_ok (appended e s)" "value_at (appended_state e s) = value_at (appended e s)"
  "shadow_at (appended_state e s) = shadow_at (appended e s)"
  by (simp_all add: fun_eq_iff own_def linked_def slot_of_index_def links_ok_def value_at_def shadow_at_def)

lemma live_cong [simp]:
  "own (s\<lparr>st_live := n\<rparr>) = own s" "linked (s\<lparr>st_live := n\<rparr>) = linked s" "links_ok (s\<lparr>st_live := n\<rparr>) = links_ok s"
  "value_at (s\<lparr>st_live := n\<rparr>) = value_at s" "shadow_at (s\<lparr>st_live := n\<rparr>) = shadow_at s"
  "slot_of_index (s\<lparr>st_live := n\<rparr>) = slot_of_index s"
  by (simp_all add: fun_eq_iff own_def linked_def slot_of_index_def links_ok_def value_at_def shadow_at_def)

lemma states_cong [simp]:
  "own (s\<lparr>st_states := x\<rparr>) = own s" "linked (s\<lparr>st_states := x\<rparr>) = linked s" "links_ok (s\<lparr>st_states := x\<rparr>) = links_ok s"
  "value_at (s\<lparr>st_states := x\<rparr>) = value_at s" "shadow_at (s\<lparr>st_states := x\<rparr>) = shadow_at s"
  "slot_of_index (s\<lparr>st_states := x\<rparr>) = slot_of_index s"
  by (simp_all add: fun_eq_iff own_def linked_def slot_of_index_def links_ok_def value_at_def shadow_at_def)

lemma listing_cong [simp]:
  "own (listChanged e s) = own s" "linked (listChanged e s) = linked s" "links_ok (listChanged e s) = links_ok s"
  "value_at (listChanged e s) = value_at s" "shadow_at (listChanged e s) = shadow_at s"
  "slot_of_index (listChanged e s) = slot_of_index s"
  "own (s\<lparr>st_overflow := b\<rparr>) = own s" "linked (s\<lparr>st_overflow := b\<rparr>) = linked s" "links_ok (s\<lparr>st_overflow := b\<rparr>) = links_ok s"
  "value_at (s\<lparr>st_overflow := b\<rparr>) = value_at s" "shadow_at (s\<lparr>st_overflow := b\<rparr>) = shadow_at s"
  by (simp_all add: fun_eq_iff own_def linked_def slot_of_index_def links_ok_def value_at_def shadow_at_def)

lemma storage_ok_swap: "storage_ok (swap a b s) \<longleftrightarrow> storage_ok s"
  by (simp add: storage_ok_def swap_def Let_def) (auto simp: swap_list_def)

text \<open>An unobserved store's new row.\<close>

lemma append_plain_inv:
  assumes "st_inv s" and "st_obs s \<noteq> Observed" and "addable s e"
  shows "st_inv ((appended e s)\<lparr>st_live := st_live s + 1\<rparr>)"
proof -
  have n: "length (st_owners s) = st_live s" and st: "storage_ok s" and ln: "links_ok s"
    using assms(1,2) by (auto simp: st_inv_def storage_ok_def)
  have room: "length (st_owners s) + 1 < 2 ^ 32 - 1" using assms(3) by (simp add: addable_def)
  note al = appended_links[OF ln room, where e = e]
  have "linked (appended e s) r" if "r < st_live s + 1" for r
  proof (cases "r = st_live s")
    case False
    then have "r < length (st_owners s)" using that n by simp
    then show ?thesis using al(3)[of r] st_invD(4)[OF assms(1)] assms(3) n by (simp add: addable_def)
  qed (use al(2) n in simp)
  then have "rows_ok ((appended e s)\<lparr>st_live := st_live s + 1\<rparr>)"
    using assms(2) n by (simp add: rows_ok_def)
  moreover have "storage_ok ((appended e s)\<lparr>st_live := st_live s + 1\<rparr>)"
    using appended_values(1,5)[OF st, where e = e] st assms(2) n by (auto simp: storage_ok_def)
  ultimately show ?thesis using al(1) by (simp add: st_inv_def)
qed

text \<open>Bringing a linked row of the tail, or the new row, in after the live rows of an observed store.\<close>

definition promote :: "nat \<Rightarrow> row_state \<Rightarrow> 'v store \<Rightarrow> 'v store" where
  "promote a x s =
     (let s1 = swap a (st_live s) s in s1\<lparr>st_states := (st_states s1)[st_live s := x], st_live := st_live s + 1\<rparr>)"

definition tail_ready :: "nat \<Rightarrow> 'v store \<Rightarrow> bool" where
  "tail_ready a s \<longleftrightarrow>
     links_ok s \<and> storage_ok s \<and> st_obs s = Observed \<and> st_live s \<le> a \<and> a < length (st_owners s)
     \<and> (\<forall>r. r < st_live s \<or> r = a \<longrightarrow> linked s r)
     \<and> (\<forall>r < length (st_owners s). r \<noteq> a \<longrightarrow>
          (if r < st_live s then live_state (st_states s ! r) else tail_state (st_states s ! r)))"

lemma promote_fields [simp]:
  "st_size (promote a x s) = st_size s" "st_zero (promote a x s) = st_zero s" "st_obs (promote a x s) = st_obs s"
  "st_live (promote a x s) = st_live s + 1" "length (st_owners (promote a x s)) = length (st_owners s)"
  "st_changed (promote a x s) = st_changed s" "st_overflow (promote a x s) = st_overflow s"
  by (simp_all add: promote_def Let_def)

lemma promote_rows:
  assumes "tail_ready a s" and "r < length (st_owners s)"
  shows "own (promote a x s) r = own s (transpose_row a (st_live s) r)"
    and "value_at (promote a x s) r = value_at s (transpose_row a (st_live s) r)"
    and "shadow_at (promote a x s) r = shadow_at s (transpose_row a (st_live s) r)"
    and "st_states (promote a x s) ! r = (if r = st_live s then x else st_states s ! transpose_row a (st_live s) r)"
proof -
  have lt: "a < length (st_owners s)" "st_live s < length (st_owners s)" and st: "storage_ok s" "st_obs s = Observed"
    using assms(1) by (auto simp: tail_ready_def)
  note rows = swap_rows[OF lt assms(2)]
  show "own (promote a x s) r = own s (transpose_row a (st_live s) r)"
    using rows(1) by (simp add: promote_def Let_def)
  show "value_at (promote a x s) r = value_at s (transpose_row a (st_live s) r)"
    using rows(3) st by (simp add: promote_def Let_def storage_ok_def)
  show "shadow_at (promote a x s) r = shadow_at s (transpose_row a (st_live s) r)"
    using rows(4) st by (simp add: promote_def Let_def storage_ok_def)
  show "st_states (promote a x s) ! r = (if r = st_live s then x else st_states s ! transpose_row a (st_live s) r)"
    using rows(2) st assms(2) by (simp add: promote_def Let_def storage_ok_def nth_list_update)
qed

lemma promote_links:
  assumes "tail_ready a s"
  shows "links_ok (promote a x s)" and "linked (promote a x s) (st_live s)"
    and "\<And>r. r < length (st_owners s) \<Longrightarrow> linked s (transpose_row a (st_live s) r) \<Longrightarrow> linked (promote a x s) r"
proof -
  have p: "links_ok s" "a < length (st_owners s)" "st_live s < length (st_owners s)" "linked s a"
    using assms by (auto simp: tail_ready_def)
  show "links_ok (promote a x s)" "linked (promote a x s) (st_live s)"
    "\<And>r. r < length (st_owners s) \<Longrightarrow> linked s (transpose_row a (st_live s) r) \<Longrightarrow> linked (promote a x s) r"
    using swap_links[OF p] by (simp_all add: promote_def Let_def)
qed

lemma promote_inv:
  assumes "tail_ready a s" and "live_state x"
  shows "st_inv (promote a x s)"
proof -
  let ?t = "transpose_row a (st_live s)"
  have p: "storage_ok s" "st_obs s = Observed" "st_live s \<le> a" "a < length (st_owners s)"
    and lk: "\<And>r. r < st_live s \<Longrightarrow> linked s r"
    and stt: "\<And>r. r < length (st_owners s) \<Longrightarrow> r \<noteq> a \<Longrightarrow>
      (if r < st_live s then live_state (st_states s ! r) else tail_state (st_states s ! r))"
    using assms(1) by (auto simp: tail_ready_def)
  have "storage_ok (promote a x s)"
    using p(1,2) storage_ok_swap[of a "st_live s" s] by (simp add: promote_def Let_def storage_ok_def)
  moreover have "linked (promote a x s) r" if "r < st_live s + 1" for r
  proof (cases "r = st_live s")
    case False
    then have "?t r = r" using that p(3) by (simp add: transpose_row_def)
    then show ?thesis using promote_links(3)[OF assms(1), of r] lk[of r] False that p by simp
  qed (use promote_links(2)[OF assms(1)] in simp)
  moreover have "if r < st_live s + 1 then live_state (st_states (promote a x s) ! r)
      else tail_state (st_states (promote a x s) ! r)" if r: "r < length (st_owners s)" for r
  proof (cases "r = st_live s")
    case True
    then show ?thesis using promote_rows(4)[OF assms(1) r] assms(2) by simp
  next
    case False
    then have "?t r \<noteq> a" "?t r < st_live s \<longleftrightarrow> r < st_live s" "?t r < length (st_owners s)"
      using r p by (auto simp: transpose_row_def)
    then show ?thesis using promote_rows(4)[OF assms(1) r] stt[of "?t r"] False by auto
  qed
  ultimately show ?thesis using promote_links(1)[OF assms(1)] p by (simp add: st_inv_def rows_ok_def)
qed

lemma promote_map:
  assumes "st_inv s" and "tail_ready a s" and "live_state x" and "st_map s (own s a) = None"
  shows "st_map (promote a x s) = (st_map s)(own s a \<mapsto> value_at s a)"
proof -
  have p: "st_live s \<le> a" "a < length (st_owners s)" using assms(2) by (auto simp: tail_ready_def)
  have "own (promote a x s) r = own s r \<and> value_at (promote a x s) r = value_at s r" if "r < st_live s" for r
    using promote_rows(1,2)[OF assms(2), of r] that p by (simp add: transpose_row_def)
  moreover have "own (promote a x s) (st_live s) = own s a" "value_at (promote a x s) (st_live s) = value_at s a"
    using promote_rows(1,2)[OF assms(2), of "st_live s"] p by (auto simp: transpose_row_def)
  ultimately show ?thesis
    using map_extend[OF assms(1) promote_inv[OF assms(2,3)], of "own s a"] assms(4) by simp
qed

text \<open>Both halves of \<open>add\<close> in an observed store are such a promotion.\<close>

definition revived_state :: "row_state \<Rightarrow> row_state" where
  "revived_state st = (if st = RowDiscarded then RowAdded else RowChanged)"

lemma tailRow_ready:
  assumes "st_inv s" and "st_obs s = Observed" and "tailRow s e = (row, True)"
  shows "tail_ready row s" and "own s row = e"
proof -
  have t: "has_slot s (e_index e)" "row = slot_row s (e_index e)" "st_live s \<le> row" "row < length (st_owners s)" "own s row = e"
    using assms(3) by (auto simp: tailRow_def Let_def own_def split: if_splits)
  have "linked s row" using slot_row_is_linked(3)[OF _ t(1)] st_invD(1)[OF assms(1)] t(2) by simp
  then show "tail_ready row s" "own s row = e"
    using assms(1,2) t by (auto simp: tail_ready_def st_inv_def rows_ok_def)
qed

lemma revive_eq:
  assumes "tail_ready row s"
  shows "revive row s = (st_live s, promote row (revived_state (st_states s ! row)) s)"
proof -
  have "row < length (st_owners s)" "st_live s < length (st_owners s)" "length (st_states s) = length (st_owners s)"
    using assms by (auto simp: tail_ready_def storage_ok_def)
  then have "st_states (swap row (st_live s) s) ! st_live s = st_states s ! row"
    using swap_rows(2)[of row s "st_live s" "st_live s"] by (auto simp: transpose_row_def)
  then show ?thesis by (simp add: revive_def promote_def Let_def revived_state_def)
qed

lemma appended_ready:
  assumes "st_inv s" and "st_obs s = Observed" and "addable s e"
  shows "tail_ready (length (st_owners s)) (appended_state e s)"
proof -
  let ?n = "length (st_owners s)"
  have ln: "links_ok s" "?n + 1 < 2 ^ 32 - 1" and st: "storage_ok s" "st_live s \<le> ?n"
    using assms st_invD(1-3)[OF assms(1)] by (simp_all add: addable_def)
  note al = appended_links[OF ln, where e = e]
  have "linked (appended e s) r" if "r < st_live s \<or> r = ?n" for r
  proof (cases "r = ?n")
    case False
    then have "r < st_live s" using that by simp
    then show ?thesis using al(3)[of r] st_invD(4)[OF assms(1)] st(2) assms(3) by (simp add: addable_def)
  qed (use al(2) in simp)
  moreover have "storage_ok (appended_state e s)"
    using appended_values(1,3)[OF st(1), where e = e] st(1) assms(2) by (auto simp: storage_ok_def)
  moreover have "if r < st_live s then live_state ((st_states s @ [RowAdded]) ! r)
      else tail_state ((st_states s @ [RowAdded]) ! r)" if "r < ?n" for r
    using st_invD(5,6)[OF assms(1,2), of r] that st(1) assms(2) by (simp add: storage_ok_def nth_append)
  ultimately show ?thesis using al(1) assms(2) st(2) by (auto simp: tail_ready_def)
qed

lemma append_row_promote:
  assumes "st_inv s" and "st_obs s = Observed" and "addable s e"
  shows "append_row e s = (st_live s, promote (length (st_owners s)) RowAdded (appended_state e s))"
proof -
  let ?n = "length (st_owners s)" and ?s = "appended_state e s"
  have len: "length (st_states s) = ?n" "st_live s \<le> ?n"
    using assms(2) st_invD(2,3)[OF assms(1)] by (simp_all add: storage_ok_def)
  then have "st_states (swap ?n (st_live s) ?s) ! st_live s = RowAdded"
    using swap_rows(2)[of ?n ?s "st_live s" "st_live s"] by (auto simp: transpose_row_def nth_append)
  then have "(st_states (swap ?n (st_live s) ?s))[st_live s := RowAdded] = st_states (swap ?n (st_live s) ?s)"
    by (metis list_update_id)
  then show ?thesis using assms(2) by (simp add: append_row_eq promote_def)
qed

lemma overflow_inv [simp]: "st_inv (s\<lparr>st_overflow := b\<rparr>) = st_inv s"
  by (simp add: st_inv_def storage_ok_def rows_ok_def)

lemma overflow_addable [simp]: "addable (s\<lparr>st_overflow := b\<rparr>) e = addable s e"
  by (simp add: addable_def)

text \<open>\<open>add\<close> in one: the promotion it makes in an observed store.\<close>

definition unlisted :: "entity \<Rightarrow> 'v store \<Rightarrow> 'v store" where
  "unlisted e s = (if has_slot s (e_index e) then s\<lparr>st_overflow := True\<rparr> else s)"

lemma unlisted_fields [simp]:
  "st_inv (unlisted e s) = st_inv s" "addable (unlisted e s) x = addable s x" "st_obs (unlisted e s) = st_obs s"
  "st_live (unlisted e s) = st_live s" "st_owners (unlisted e s) = st_owners s" "st_states (unlisted e s) = st_states s"
  "st_size (unlisted e s) = st_size s" "st_zero (unlisted e s) = st_zero s" "st_changed (unlisted e s) = st_changed s"
  "own (unlisted e s) = own s" "linked (unlisted e s) = linked s" "value_at (unlisted e s) = value_at s"
  "shadow_at (unlisted e s) = shadow_at s" "st_map (unlisted e s) = st_map s" "storage_ok (unlisted e s) = storage_ok s"
  using same_map(2)[of "unlisted e s" s] by (simp_all add: unlisted_def storage_ok_def)

lemma st_add_observed:
  assumes "st_inv s" and "st_obs s = Observed" and "addable s e"
  shows "st_add e s = (st_live s,
     if snd (tailRow s e) then promote (fst (tailRow s e)) (revived_state (st_states s ! fst (tailRow s e))) s
     else promote (length (st_owners s)) RowAdded (appended_state e (unlisted e s)))"
proof (cases "snd (tailRow s e)")
  case True
  then have "tail_ready (fst (tailRow s e)) s" using tailRow_ready[OF assms(1,2)] by (metis prod.collapse)
  then show ?thesis using True assms(2) by (simp add: st_add_def revive_eq split_beta)
next
  case False
  then show ?thesis
    using append_row_promote[of "unlisted e s" e] assms by (simp add: st_add_def split_beta unlisted_def)
qed

text \<open>Adding keeps the invariant and gives \<open>e\<close> the row it answers, whatever value that has.\<close>

lemma st_add_spec:
  assumes "st_inv s" and "addable s e"
  shows "st_inv (snd (st_add e s))" and "fst (st_add e s) < st_live (snd (st_add e s))"
    and "own (snd (st_add e s)) (fst (st_add e s)) = e"
    and "st_map (snd (st_add e s)) = (st_map s)(e \<mapsto> value_at (snd (st_add e s)) (fst (st_add e s)))"
proof -
  have "st_inv (snd (st_add e s)) \<and> st_live (snd (st_add e s)) = st_live s + 1 \<and> fst (st_add e s) = st_live s
    \<and> own (snd (st_add e s)) (st_live s) = e
    \<and> (\<forall>r < st_live s. own (snd (st_add e s)) r = own s r \<and> value_at (snd (st_add e s)) r = value_at s r)"
  proof (cases "st_obs s = Observed")
    case False
    then have eq: "st_add e s = (st_live s, (appended e s)\<lparr>st_live := st_live s + 1\<rparr>)"
      by (simp add: st_add_def append_row_eq)
    have n: "length (st_owners s) = st_live s" "storage_ok s" using assms(1) False by (auto simp: st_inv_def storage_ok_def)
    then show ?thesis
      using eq append_plain_inv[OF assms(1) False assms(2)] appended_values(2)[OF n(2)] by (simp add: own_def nth_append)
  next
    case True
    show ?thesis
    proof (cases "snd (tailRow s e)")
      case t: True
      let ?a = "fst (tailRow s e)"
      have r: "tail_ready ?a s" "own s ?a = e" using tailRow_ready[OF assms(1) True, of e ?a] t by (simp_all add: prod_eq_iff)
      then have "st_live s \<le> ?a" "?a < length (st_owners s)" by (simp_all add: tail_ready_def)
      then show ?thesis
        using st_add_observed[OF assms(1) True assms(2)] t r(2) promote_inv[OF r(1)] promote_rows(1,2)[OF r(1)]
        by (auto simp: revived_state_def live_state_def transpose_row_def)
    next
      case t: False
      let ?s = "appended_state e (unlisted e s)" and ?a = "length (st_owners s)"
      have r: "tail_ready ?a ?s" using appended_ready[of "unlisted e s" e] assms True by simp
      have "st_live s \<le> ?a" using r by (simp add: tail_ready_def)
      moreover have "value_at ?s q = value_at s q" if "q < ?a" for q
        using appended_values(2)[of "unlisted e s" q e] st_invD(2)[OF assms(1)] that by simp
      ultimately show ?thesis
        using st_add_observed[OF assms(1) True assms(2)] t promote_inv[OF r] promote_rows(1,2)[OF r]
        by (auto simp: live_state_def transpose_row_def own_def nth_append)
    qed
  qed
  then have p: "st_inv (snd (st_add e s))" "st_live (snd (st_add e s)) = st_live s + 1" "fst (st_add e s) = st_live s"
    "own (snd (st_add e s)) (st_live s) = e"
    "\<And>r. r < st_live s \<Longrightarrow> own (snd (st_add e s)) r = own s r \<and> value_at (snd (st_add e s)) r = value_at s r"
    by blast+
  show "st_inv (snd (st_add e s))" by (rule p(1))
  show "fst (st_add e s) < st_live (snd (st_add e s))" "own (snd (st_add e s)) (fst (st_add e s)) = e" using p by simp_all
  show "st_map (snd (st_add e s)) = (st_map s)(e \<mapsto> value_at (snd (st_add e s)) (fst (st_add e s)))"
    using map_extend[OF assms(1) p(1,2,5,4) addable_none[OF assms]] p(3) by simp
qed

section \<open>Removing a row\<close>

text \<open>An observed store's live row moves behind the others.\<close>

definition demote :: "nat \<Rightarrow> 'v store \<Rightarrow> 'v store" where
  "demote row s =
     (let f = st_live s - 1; s1 = swap row f s
      in s1\<lparr>st_live := f, st_states := (st_states s1)[f := removed_state (st_states s1 ! f)]\<rparr>)"

lemma swap_live: "swap a b (s\<lparr>st_live := n\<rparr>) = (swap a b s)\<lparr>st_live := n\<rparr>"
  by (cases s) (simp add: swap_def set_link_def Let_def)

lemma listChanged_states: "(listChanged e s)\<lparr>st_states := x\<rparr> = listChanged e (s\<lparr>st_states := x\<rparr>)"
  by (simp add: listChanged_def)

lemma st_remove_observed:
  assumes "st_obs s = Observed" and "row < st_live s" and "st_live s \<le> length (st_owners s)"
    and "length (st_states s) = length (st_owners s)"
  shows "st_remove e row s =
     (if st_states s ! row = RowUnchanged then listChanged e (demote row s) else demote row s)"
proof -
  have "st_states (swap row (st_live s - 1) s) ! (st_live s - 1) = st_states s ! row"
    using swap_rows(2)[of row s "st_live s - 1" "st_live s - 1"] assms by (auto simp: transpose_row_def)
  then show ?thesis
    using assms(1) by (simp add: st_remove_def demote_def Let_def swap_live listChanged_states)
qed

lemma demote_fields [simp]:
  "st_size (demote r s) = st_size s" "st_zero (demote r s) = st_zero s" "st_obs (demote r s) = st_obs s"
  "st_live (demote r s) = st_live s - 1" "length (st_owners (demote r s)) = length (st_owners s)"
  "st_changed (demote r s) = st_changed s" "st_overflow (demote r s) = st_overflow s"
  by (simp_all add: demote_def Let_def)

lemma demote_rows:
  assumes "st_inv s" and "st_obs s = Observed" and "row < st_live s" and "r < length (st_owners s)"
  shows "own (demote row s) r = own s (transpose_row row (st_live s - 1) r)"
    and "value_at (demote row s) r = value_at s (transpose_row row (st_live s - 1) r)"
    and "shadow_at (demote row s) r = shadow_at s (transpose_row row (st_live s - 1) r)"
    and "st_states (demote row s) ! r =
      (if r = st_live s - 1 then removed_state (st_states s ! row) else st_states s ! transpose_row row (st_live s - 1) r)"
proof -
  let ?f = "st_live s - 1"
  have st: "storage_ok s" "st_live s \<le> length (st_owners s)" using st_invD[OF assms(1)] by simp_all
  then have lt: "row < length (st_owners s)" "?f < length (st_owners s)" using assms(3) by simp_all
  note rows = swap_rows[OF lt]
  show "own (demote row s) r = own s (transpose_row row ?f r)"
    using rows(1)[OF assms(4)] by (simp add: demote_def Let_def)
  show "value_at (demote row s) r = value_at s (transpose_row row ?f r)"
    using rows(3)[OF assms(4)] st(1) by (simp add: demote_def Let_def storage_ok_def)
  show "shadow_at (demote row s) r = shadow_at s (transpose_row row ?f r)"
    using rows(4)[OF assms(4)] st(1) assms(2) by (simp add: demote_def Let_def storage_ok_def)
  have len: "length (st_states s) = length (st_owners s)" using st(1) assms(2) by (simp add: storage_ok_def)
  have "st_states (swap row ?f s) ! ?f = st_states s ! row"
    using rows(2)[OF lt(2) len] by (auto simp: transpose_row_def)
  then show "st_states (demote row s) ! r =
      (if r = ?f then removed_state (st_states s ! row) else st_states s ! transpose_row row ?f r)"
    using rows(2)[OF assms(4) len] assms(4) len by (simp add: demote_def Let_def nth_list_update)
qed

lemma demote_links:
  assumes "st_inv s" and "row < st_live s"
  shows "links_ok (demote row s)" and "linked (demote row s) (st_live s - 1)"
    and "\<And>r. r < length (st_owners s) \<Longrightarrow> linked s (transpose_row row (st_live s - 1) r) \<Longrightarrow> linked (demote row s) r"
proof -
  have p: "links_ok s" "row < length (st_owners s)" "st_live s - 1 < length (st_owners s)" "linked s row"
    using st_invD(1,3,4)[OF assms(1)] assms(2) by auto
  show "links_ok (demote row s)" "linked (demote row s) (st_live s - 1)"
    "\<And>r. r < length (st_owners s) \<Longrightarrow> linked s (transpose_row row (st_live s - 1) r) \<Longrightarrow> linked (demote row s) r"
    using swap_links[OF p] by (simp_all add: demote_def Let_def)
qed

lemma demote_inv:
  assumes "st_inv s" and "st_obs s = Observed" and "row < st_live s"
  shows "st_inv (demote row s)"
proof -
  let ?f = "st_live s - 1" and ?t = "transpose_row row (st_live s - 1)"
  have p: "storage_ok s" "st_live s \<le> length (st_owners s)" using st_invD[OF assms(1)] by simp_all
  have "storage_ok (demote row s)"
    using p(1) assms(2) storage_ok_swap[of row ?f s] by (simp add: demote_def Let_def storage_ok_def)
  moreover have "linked (demote row s) r" if "r < ?f" for r
  proof -
    have "?t r < st_live s" using that assms(3) by (auto simp: transpose_row_def)
    then show ?thesis using demote_links(3)[OF assms(1,3), of r] st_invD(4)[OF assms(1)] that p(2) by simp
  qed
  moreover have "if r < ?f then live_state (st_states (demote row s) ! r) else tail_state (st_states (demote row s) ! r)"
    if r: "r < length (st_owners s)" for r
  proof -
    have "r < ?f \<Longrightarrow> ?t r < st_live s" "r > ?f \<Longrightarrow> ?t r = r" using assms(3) by (auto simp: transpose_row_def)
    then show ?thesis
      using demote_rows(4)[OF assms r] st_invD(5,6)[OF assms(1,2)] r
      by (cases r ?f rule: linorder_cases) (auto simp: removed_state_def tail_state_def)
  qed
  ultimately show ?thesis using demote_links(1)[OF assms(1,3)] p(2) by (simp add: st_inv_def rows_ok_def)
qed

lemma listing_inv [simp]: "st_inv (listChanged e s) = st_inv s"
  by (simp add: st_inv_def storage_ok_def rows_ok_def)

lemma listing_map [simp]: "st_map (listChanged e s) = st_map s"
  by (rule same_map) simp_all

lemma demote_map:
  assumes "st_inv s" and "st_obs s = Observed" and "row < st_live s"
  shows "st_map (demote row s) = (st_map s)(own s row := None)"
  using map_drop[OF assms(1) demote_inv[OF assms] _ assms(3) refl] demote_rows(1,2)[OF assms] assms(3) st_invD(3)[OF assms(1)]
  by simp

text \<open>Another store's row is overwritten by the last one's, and its owner's link cleared.\<close>

definition plain_removed :: "nat \<Rightarrow> 'v store \<Rightarrow> 'v store" where
  "plain_removed row s =
     (let f = st_live s - 1;
          s1 = s\<lparr>st_live := f, st_owners := butlast ((st_owners s)[row := last (st_owners s)])\<rparr>
      in set_link (e_index (own s row)) 0
           (if row \<noteq> f then put_value row (value_at s f) (set_link (e_index (own s f)) (of_nat row + 1) s1) else s1))"

lemma st_remove_plain:
  assumes "st_obs s \<noteq> Observed" and "row < st_live s" and "length (st_owners s) = st_live s" and "own s row = e"
  shows "st_remove e row s = plain_removed row s"
proof -
  have ne: "st_owners s \<noteq> []" using assms(2,3) by auto
  have "butlast ((st_owners s)[row := last (st_owners s)]) ! row = own s (st_live s - 1)" if "row \<noteq> st_live s - 1"
    using assms(2,3) that ne by (simp add: nth_butlast last_conv_nth own_def)
  then show ?thesis
    using assms(1,3,4) by (simp add: st_remove_def plain_removed_def Let_def value_at_def)
qed

lemma plain_removed_slot:
  assumes "st_inv s" and "st_obs s \<noteq> Observed" and "row < st_live s"
  shows "slot_of_index (plain_removed row s) i =
      (if i = e_index (own s row) then 0 else if i = e_index (own s (st_live s - 1)) then of_nat row + 1 else slot_of_index s i)"
    and "it_wf (st_rows (plain_removed row s))"
proof -
  define f where "f = st_live s - 1"
  define s1 where "s1 = s\<lparr>st_live := f, st_owners := butlast ((st_owners s)[row := last (st_owners s)])\<rparr>"
  define s2 where
    "s2 = (if row \<noteq> f then put_value row (value_at s f) (set_link (e_index (own s f)) (of_nat row + 1) s1) else s1)"
  have wf: "it_wf (st_rows s1)" using st_invD(1)[OF assms(1)] by (simp add: links_ok_def s1_def)
  have wf2: "it_wf (st_rows s2)" using set_link_slot(2)[OF wf] wf by (simp add: s2_def)
  have eq: "plain_removed row s = set_link (e_index (own s row)) 0 s2"
    by (simp add: plain_removed_def Let_def s2_def s1_def f_def)
  have pv: "slot_of_index (put_value r v x) = slot_of_index x" for r v and x :: "'a store"
    by (simp add: slot_of_index_def fun_eq_iff)
  have s1: "slot_of_index s1 = slot_of_index s" by (simp add: slot_of_index_def fun_eq_iff s1_def)
  have "slot_of_index s2 i = (if row \<noteq> f \<and> i = e_index (own s f) then of_nat row + 1 else slot_of_index s i)"
    using set_link_slot(1)[OF wf] by (simp add: s2_def pv s1)
  then show "slot_of_index (plain_removed row s) i =
      (if i = e_index (own s row) then 0 else if i = e_index (own s (st_live s - 1)) then of_nat row + 1 else slot_of_index s i)"
    unfolding eq set_link_slot(1)[OF wf2] f_def by auto
  show "it_wf (st_rows (plain_removed row s))" unfolding eq using set_link_slot(2)[OF wf2] .
qed

lemma plain_removed_fields [simp]:
  "st_size (plain_removed r s) = st_size s" "st_zero (plain_removed r s) = st_zero s" "st_obs (plain_removed r s) = st_obs s"
  "st_live (plain_removed r s) = st_live s - 1" "length (st_owners (plain_removed r s)) = length (st_owners s) - 1"
  "length (st_values (plain_removed r s)) = length (st_values s)" "st_states (plain_removed r s) = st_states s"
  "st_shadows (plain_removed r s) = st_shadows s" "st_changed (plain_removed r s) = st_changed s"
  by (simp_all add: plain_removed_def Let_def)

lemma plain_removed_rows:
  assumes "st_inv s" and "st_obs s \<noteq> Observed" and "row < st_live s" and "r < st_live s - 1"
  shows "own (plain_removed row s) r = own s (transpose_row row (st_live s - 1) r)"
    and "value_at (plain_removed row s) r = value_at s (transpose_row row (st_live s - 1) r)"
proof -
  have p: "length (st_owners s) = st_live s" "st_size s \<noteq> 0 \<longrightarrow> st_live s \<le> length (st_values s)" "st_owners s \<noteq> []"
    using st_invD(2)[OF assms(1)] assms(2,3) by (auto simp: storage_ok_def)
  have "own (plain_removed row s) r = butlast ((st_owners s)[row := last (st_owners s)]) ! r"
    by (simp add: plain_removed_def Let_def own_def)
  then show "own (plain_removed row s) r = own s (transpose_row row (st_live s - 1) r)"
    using p assms(3,4) by (simp add: nth_butlast nth_list_update last_conv_nth own_def transpose_row_def)
  show "value_at (plain_removed row s) r = value_at s (transpose_row row (st_live s - 1) r)"
    using p(2) assms(3,4) by (auto simp: plain_removed_def Let_def value_at_def put_value_def nth_list_update transpose_row_def)
qed

lemma plain_removed_leads:
  assumes "st_inv s" and "st_obs s \<noteq> Observed" and "row < st_live s" and "slot_of_index (plain_removed row s) i \<noteq> 0"
  shows "\<exists>r < st_live s - 1. slot_of_index (plain_removed row s) i = of_nat r + 1 \<and> e_index (own (plain_removed row s) r) = i"
proof -
  let ?f = "st_live s - 1"
  note slot = plain_removed_slot(1)[OF assms(1-3), of i] and rows = plain_removed_rows(1)[OF assms(1-3)]
  have ne: "i \<noteq> e_index (own s row)" using slot assms(4) by auto
  show ?thesis
  proof (cases "i = e_index (own s ?f)")
    case True
    then have "row \<noteq> ?f" using ne by blast
    then have "row < ?f" using assms(3) by simp
    then show ?thesis using slot ne True rows[of row] by (intro exI[of _ row]) (simp add: transpose_row_def)
  next
    case False
    then obtain r where r: "r < length (st_owners s)" "slot_of_index s i = of_nat r + 1" "e_index (own s r) = i"
      using slot ne assms(4) st_invD(1)[OF assms(1)] by (auto simp: links_ok_def)
    have "length (st_owners s) = st_live s" using st_invD(2)[OF assms(1)] assms(2) by (simp add: storage_ok_def)
    moreover have "r \<noteq> ?f" "r \<noteq> row" using r(3) False ne by blast+
    ultimately have "r < ?f" "r \<noteq> row" using r(1) by simp_all
    then show ?thesis using slot ne False r rows[of r] by (intro exI[of _ r]) (simp add: transpose_row_def)
  qed
qed

lemma plain_removed_inv:
  assumes "st_inv s" and "st_obs s \<noteq> Observed" and "row < st_live s"
  shows "st_inv (plain_removed row s)"
proof -
  let ?f = "st_live s - 1"
  note slot = plain_removed_slot[OF assms] and rows = plain_removed_rows(1)[OF assms]
  have p: "length (st_owners s) = st_live s" "storage_ok s" "links_ok s"
    using st_invD(1,2)[OF assms(1)] assms(2) by (auto simp: storage_ok_def)
  have "links_ok (plain_removed row s)"
    using slot(2) plain_removed_leads[OF assms] p(1,3) by (auto simp: links_ok_def)
  moreover have "storage_ok (plain_removed row s)" using p(1,2) assms(2) by (auto simp: storage_ok_def)
  moreover have "linked (plain_removed row s) r" if r: "r < ?f" for r
  proof -
    have lt: "r < st_live s" using r by simp
    have "e_index (own s (transpose_row row ?f r)) \<noteq> e_index (own s row)"
      using live_own_inj[OF assms(1), of "transpose_row row ?f r" row] r lt assms(3) by (cases "r = row") (auto simp: transpose_row_def)
    moreover have "r \<noteq> row \<Longrightarrow> e_index (own s r) \<noteq> e_index (own s ?f)"
      using live_own_inj[OF assms(1), of r ?f] r by auto
    moreover have "linked s r" using st_invD(4)[OF assms(1)] r by simp
    ultimately show ?thesis
      using rows[OF r] slot(1) r by (cases "r = row") (auto simp: linked_def transpose_row_def)
  qed
  ultimately show ?thesis using p(1) assms(2) by (simp add: st_inv_def rows_ok_def)
qed

text \<open>Removing keeps the invariant and takes \<open>e\<close> out of the map.\<close>

lemma st_remove_spec:
  assumes "st_inv s" and "st_get s e = Some row"
  shows "st_inv (st_remove e row s)" and "st_map (st_remove e row s) = (st_map s)(e := None)"
    and "st_live (st_remove e row s) = st_live s - 1"
proof -
  have r: "row < st_live s" "own s row = e" using st_get_iff[OF assms(1)] assms(2) by auto
  have "st_inv (st_remove e row s) \<and> st_map (st_remove e row s) = (st_map s)(e := None) \<and> st_live (st_remove e row s) = st_live s - 1"
  proof (cases "st_obs s = Observed")
    case True
    have "length (st_states s) = length (st_owners s)" using st_invD(2)[OF assms(1)] True by (simp add: storage_ok_def)
    then show ?thesis
      using st_remove_observed[OF True r(1) st_invD(3)[OF assms(1)], of e] demote_inv[OF assms(1) True r(1)]
        demote_map[OF assms(1) True r(1)] r(2) by simp
  next
    case False
    have "length (st_owners s) = st_live s" using st_invD(2)[OF assms(1)] False by (simp add: storage_ok_def)
    then have "st_remove e row s = plain_removed row s" using st_remove_plain[OF False r(1) _ r(2)] by simp
    then show ?thesis
      using plain_removed_inv[OF assms(1) False r(1)] plain_removed_rows[OF assms(1) False r(1)] r
        map_drop[OF assms(1) plain_removed_inv[OF assms(1) False r(1)] _ r] by simp
  qed
  then show "st_inv (st_remove e row s)" and "st_map (st_remove e row s) = (st_map s)(e := None)"
    and "st_live (st_remove e row s) = st_live s - 1" by blast+
qed

end
