(* ===== verification/Ecs_Refs.thy ===== *)
theory Ecs_Refs
  imports Ecs_Store
begin

text \<open>
  \<open>ecs/refs.go\<close>: \<open>refsResource\<close>, the values of one type that a world keeps outside its stores, in slots
  that never move, each under a handle of an index and a generation.  A slot is written where its
  pointer is; reading through a nil pointer is excluded by what is proved of the walks.  The atomic
  reservation count is a number, and a reservation one step.  Values are of any type, with \<open>rr_zero\<close>
  the zero value; a type is its name.  The key map of keyed refs is of \<open>ecs/keyedrefs.go\<close>.
\<close>

section \<open>Handles, slots and refs\<close>

record ref =
  rf_index :: u32
  rf_generation :: u32

definition no_ref :: ref where
  "no_ref = \<lparr>rf_index = 0, rf_generation = 0\<rparr>"

datatype ref_state = RefUnchanged | RefChanged | RefAdded | RefReleased | RefDiscarded

record 'v ref_slot =
  rs_value :: 'v
  rs_generation :: u32
  rs_live :: bool
  rs_state :: ref_state

record ('v, 'k) refs =
  rr_slots :: "'v ref_slot index_table"
  rr_first :: u32
  rr_last :: u32
  rr_free :: "ref list"
  rr_reserved :: nat
  rr_fresh :: nat
  rr_live :: nat
  rr_obs :: observation
  rr_changed :: "ref list"
  rr_overflow :: bool
  rr_keys :: "(string \<times> ('k \<rightharpoonup> ref)) option"
  rr_zero :: 'v
  rr_type :: string
  rr_name :: string
  rr_transient :: bool

definition zero_ref_slot :: "'v \<Rightarrow> 'v ref_slot" where
  "zero_ref_slot z = \<lparr>rs_value = z, rs_generation = 0, rs_live = False, rs_state = RefUnchanged\<rparr>"

text \<open>The slot of an index, zero where its page does not exist, and writing it.\<close>

definition slot_at :: "('v, 'k) refs \<Rightarrow> u32 \<Rightarrow> 'v ref_slot" where
  "slot_at r i = it_get (zero_ref_slot (rr_zero r)) (rr_slots r) i"

definition set_slot :: "u32 \<Rightarrow> 'v ref_slot \<Rightarrow> ('v, 'k) refs \<Rightarrow> ('v, 'k) refs" where
  "set_slot i s r = r\<lparr>rr_slots := it_put (zero_ref_slot (rr_zero r)) (rr_slots r) i s\<rparr>"

definition upd_ref_slot :: "u32 \<Rightarrow> ('v ref_slot \<Rightarrow> 'v ref_slot) \<Rightarrow> ('v, 'k) refs \<Rightarrow> ('v, 'k) refs" where
  "upd_ref_slot i f r = set_slot i (f (slot_at r i)) r"

definition new_refs :: "'v \<Rightarrow> string \<Rightarrow> string \<Rightarrow> u32 \<Rightarrow> u32 \<Rightarrow> bool \<Rightarrow> ('v, 'k) refs" where
  "new_refs zero t name first_index last_index transient =
     \<lparr>rr_slots = empty_table, rr_first = first_index, rr_last = last_index, rr_free = [], rr_reserved = 0,
      rr_fresh = unat first_index, rr_live = 0, rr_obs = Unobserved, rr_changed = [], rr_overflow = False,
      rr_keys = None, rr_zero = zero, rr_type = t, rr_name = name, rr_transient = transient\<rparr>"

definition observe_refs :: "('v, 'k) refs \<Rightarrow> ('v, 'k) refs" where
  "observe_refs r = (if rr_obs r = Unobserved then r\<lparr>rr_obs := ObserverWaiting\<rparr> else r)"

section \<open>Reading\<close>

definition ref_slot_of :: "('v, 'k) refs \<Rightarrow> ref \<Rightarrow> 'v ref_slot option" where
  "ref_slot_of r h =
     (case it_at (rr_slots r) (rf_index h) of
        None \<Rightarrow> None
      | Some s \<Rightarrow> if \<not> rs_live s \<or> rs_generation s \<noteq> rf_generation h then None else Some s)"

definition ref_get :: "('v, 'k) refs \<Rightarrow> ref \<Rightarrow> 'v option" where
  "ref_get r h = map_option rs_value (ref_slot_of r h)"

definition ref_alive :: "('v, 'k) refs \<Rightarrow> ref \<Rightarrow> bool" where
  "ref_alive r h \<longleftrightarrow> ref_slot_of r h \<noteq> None"

definition handle_at :: "('v, 'k) refs \<Rightarrow> u32 \<Rightarrow> ref" where
  "handle_at r i = \<lparr>rf_index = i, rf_generation = rs_generation (slot_at r i)\<rparr>"

definition refs_all :: "('v, 'k) refs \<Rightarrow> (ref \<times> 'v) list" where
  "refs_all r =
     map (\<lambda>i. (handle_at r i, rs_value (slot_at r i)))
       (filter (\<lambda>i. rs_live (slot_at r i)) (table_indices (rr_slots r)))"

section \<open>Handing out\<close>

definition ref_reserve :: "('v, 'k) refs \<Rightarrow> ref \<times> ('v, 'k) refs" where
  "ref_reserve r =
     (let reservation = rr_reserved r; freeCount = length (rr_free r);
          r1 = r\<lparr>rr_reserved := reservation + 1\<rparr>
      in if reservation < freeCount then (rr_free r ! (freeCount - 1 - reservation), r1)
         else let index = rr_fresh r + reservation - freeCount
              in if index > unat (rr_last r) then (no_ref, r1)
                 else (\<lparr>rf_index = of_nat index, rf_generation = 1\<rparr>, r1))"

definition ref_settle :: "('v, 'k) refs \<Rightarrow> ('v, 'k) refs" where
  "ref_settle r =
     (let reserved = rr_reserved r
      in if reserved = 0 then r
         else let free = length (rr_free r); taken = min reserved free
              in r\<lparr>rr_reserved := 0, rr_free := take (free - taken) (rr_free r),
                   rr_fresh := min (rr_fresh r + (reserved - taken)) (unat (rr_last r) + 1)\<rparr>)"

section \<open>Changing\<close>

definition ref_listChanged :: "ref \<Rightarrow> ('v, 'k) refs \<Rightarrow> ('v, 'k) refs" where
  "ref_listChanged h r =
     (if length (rr_changed r) < rr_live r div 2 ^ changedEntitiesShift
      then r\<lparr>rr_changed := rr_changed r @ [h]\<rparr> else r\<lparr>rr_overflow := True\<rparr>)"

definition ref_store :: "ref \<Rightarrow> 'v \<Rightarrow> ('v, 'k) refs \<Rightarrow> ('v, 'k) refs" where
  "ref_store h v r =
     (let i = rf_index h;
          r1 = upd_ref_slot i (\<lambda>s. s\<lparr>rs_value := v, rs_generation := rf_generation h, rs_live := True\<rparr>) r;
          r2 = r1\<lparr>rr_live := rr_live r1 + 1\<rparr>
      in if rr_obs r2 = Observed
         then ref_listChanged h (upd_ref_slot i (\<lambda>s. s\<lparr>rs_state := RefAdded\<rparr>) r2) else r2)"

definition ref_new :: "'v \<Rightarrow> ('v, 'k) refs \<Rightarrow> ref \<times> ('v, 'k) refs" where
  "ref_new v r =
     (case ref_reserve r of (h, r1) \<Rightarrow>
        let r2 = ref_settle r1 in (h, if h \<noteq> no_ref then ref_store h v r2 else r2))"

datatype ref_place_error = RefZeroGeneration | RefInsideRange | RefOccupied

definition in_range :: "('v, 'k) refs \<Rightarrow> u32 \<Rightarrow> bool" where
  "in_range r i \<longleftrightarrow> rr_first r \<le> i \<and> i \<le> rr_last r"

definition ref_place :: "ref \<Rightarrow> 'v \<Rightarrow> ('v, 'k) refs \<Rightarrow> ref_place_error + ('v, 'k) refs" where
  "ref_place h v r =
     (if rf_generation h = 0 then Inl RefZeroGeneration
      else if in_range r (rf_index h) then Inl RefInsideRange
      else if (case it_at (rr_slots r) (rf_index h) of
                 None \<Rightarrow> False | Some s \<Rightarrow> rs_live s \<or> rs_state s \<noteq> RefUnchanged) then Inl RefOccupied
      else Inr (ref_store h v r))"

definition ref_markChanged :: "ref \<Rightarrow> ('v, 'k) refs \<Rightarrow> ('v, 'k) refs" where
  "ref_markChanged h r =
     (if rr_obs r \<noteq> Observed then r
      else if rs_state (slot_at r (rf_index h)) = RefUnchanged
      then ref_listChanged h (upd_ref_slot (rf_index h) (\<lambda>s. s\<lparr>rs_state := RefChanged\<rparr>) r) else r)"

text \<open>A value written through the pointer \<open>Get\<close> answers, which is not a change; and \<open>Set\<close>.\<close>

definition ref_poke :: "ref \<Rightarrow> 'v \<Rightarrow> ('v, 'k) refs \<Rightarrow> ('v, 'k) refs" where
  "ref_poke h v r = upd_ref_slot (rf_index h) (\<lambda>s. s\<lparr>rs_value := v\<rparr>) r"

definition ref_set :: "ref \<Rightarrow> 'v \<Rightarrow> ('v, 'k) refs \<Rightarrow> bool \<times> ('v, 'k) refs" where
  "ref_set h v r =
     (case ref_slot_of r h of None \<Rightarrow> (False, r) | Some _ \<Rightarrow> (True, ref_markChanged h (ref_poke h v r)))"

definition ref_free :: "u32 \<Rightarrow> ('v, 'k) refs \<Rightarrow> ('v, 'k) refs" where
  "ref_free i r =
     (let r1 = upd_ref_slot i (\<lambda>s. s\<lparr>rs_value := rr_zero r\<rparr>) r
      in if in_range r1 i
         then r1\<lparr>rr_free := rr_free r1 @ [\<lparr>rf_index = i, rf_generation = nextGeneration (rs_generation (slot_at r1 i))\<rparr>]\<rparr>
         else r1)"

definition ref_release :: "ref \<Rightarrow> ('v, 'k) refs \<Rightarrow> bool \<times> ('v, 'k) refs" where
  "ref_release h r =
     (case ref_slot_of r h of
        None \<Rightarrow> (False, r)
      | Some s \<Rightarrow>
          let i = rf_index h;
              r1 = upd_ref_slot i (\<lambda>s. s\<lparr>rs_live := False\<rparr>) r;
              r2 = r1\<lparr>rr_live := rr_live r1 - 1\<rparr>
          in (True,
              if rr_obs r2 \<noteq> Observed then ref_free i r2
              else case rs_state s of
                     RefAdded \<Rightarrow> upd_ref_slot i (\<lambda>s. s\<lparr>rs_state := RefDiscarded\<rparr>) r2
                   | RefUnchanged \<Rightarrow> ref_listChanged h (upd_ref_slot i (\<lambda>s. s\<lparr>rs_state := RefReleased\<rparr>) r2)
                   | _ \<Rightarrow> upd_ref_slot i (\<lambda>s. s\<lparr>rs_state := RefReleased\<rparr>) r2))"

definition Refs_Release :: "ref \<Rightarrow> ('v, 'k) refs \<Rightarrow> bool \<times> ('v, 'k) refs" where
  "Refs_Release h r = ref_release h (ref_settle r)"

section \<open>Observation and memory\<close>

definition walked_slots :: "('v, 'k) refs \<Rightarrow> u32 list" where
  "walked_slots r = (if \<not> rr_overflow r then map rf_index (rr_changed r) else table_indices (rr_slots r))"

definition ref_delta :: "ref_state \<Rightarrow> delta option" where
  "ref_delta st =
     (case st of RefAdded \<Rightarrow> Some DeltaAdded | RefChanged \<Rightarrow> Some DeltaChanged
               | RefReleased \<Rightarrow> Some DeltaReleased | _ \<Rightarrow> None)"

definition DeltaRefs_All :: "('v, 'k) refs \<Rightarrow> (ref \<times> delta \<times> 'v) list" where
  "DeltaRefs_All r =
     (if rr_obs r \<noteq> Observed then []
      else List.map_filter (\<lambda>i. map_option (\<lambda>d. (handle_at r i, d, rs_value (slot_at r i)))
             (ref_delta (rs_state (slot_at r i)))) (walked_slots r))"

definition mark_added :: "u32 \<Rightarrow> ('v, 'k) refs \<Rightarrow> ('v, 'k) refs" where
  "mark_added i r = (if rs_live (slot_at r i) then upd_ref_slot i (\<lambda>s. s\<lparr>rs_state := RefAdded\<rparr>) r else r)"

definition refs_startObservation :: "('v, 'k) refs \<Rightarrow> ('v, 'k) refs" where
  "refs_startObservation r =
     (if rr_obs r \<noteq> ObserverWaiting then r
      else fold mark_added (table_indices (rr_slots r)) (r\<lparr>rr_obs := Observed, rr_overflow := True\<rparr>))"

definition reset_slot :: "u32 \<Rightarrow> ('v, 'k) refs \<Rightarrow> ('v, 'k) refs" where
  "reset_slot i r =
     (let st = rs_state (slot_at r i)
      in if st = RefUnchanged then r
         else upd_ref_slot i (\<lambda>s. s\<lparr>rs_state := RefUnchanged\<rparr>)
                (if st = RefReleased \<or> st = RefDiscarded then ref_free i r else r))"

definition refs_resetObservation :: "('v, 'k) refs \<Rightarrow> ('v, 'k) refs" where
  "refs_resetObservation r =
     (if rr_obs r \<noteq> Observed then r
      else let r1 = ref_settle r; r2 = fold reset_slot (walked_slots r1) r1
           in r2\<lparr>rr_changed := [], rr_overflow := False\<rparr>)"

definition refs_shrink :: "('v, 'k) refs \<Rightarrow> ('v, 'k) refs" where
  "refs_shrink r = r\<lparr>rr_slots := it_shrink (zero_ref_slot (rr_zero r)) (rr_slots r)\<rparr>"

section \<open>The invariant\<close>

text \<open>
  The refs left to hand out, the reservations not settled yet taken off: of the free list and of the
  fresh indices.  Settling changes neither.
\<close>

definition avail :: "('v, 'k) refs \<Rightarrow> ref list" where
  "avail r = take (length (rr_free r) - rr_reserved r) (rr_free r)"

definition next_fresh :: "('v, 'k) refs \<Rightarrow> nat" where
  "next_fresh r = min (rr_fresh r + (rr_reserved r - length (rr_free r))) (unat (rr_last r) + 1)"

definition slot_ok :: "observation \<Rightarrow> 'v ref_slot \<Rightarrow> bool" where
  "slot_ok obs s \<longleftrightarrow> (rs_live s \<or> rs_state s \<noteq> RefUnchanged \<longrightarrow> rs_generation s \<noteq> 0)
     \<and> (rs_state s \<noteq> RefUnchanged \<longrightarrow> obs = Observed)
     \<and> (rs_state s \<in> {RefAdded, RefChanged} \<longrightarrow> rs_live s) \<and> (rs_state s \<in> {RefReleased, RefDiscarded} \<longrightarrow> \<not> rs_live s)"

text \<open>An idle index is one of the allocation range, handed out before, that holds no ref and none
  released in this window; the ref handed out for it next.\<close>

definition idle :: "('v, 'k) refs \<Rightarrow> u32 \<Rightarrow> bool" where
  "idle r i \<longleftrightarrow> in_range r i \<and> unat i < next_fresh r
     \<and> \<not> rs_live (slot_at r i) \<and> rs_state (slot_at r i) = RefUnchanged"

definition next_handle :: "('v, 'k) refs \<Rightarrow> u32 \<Rightarrow> ref" where
  "next_handle r i = \<lparr>rf_index = i, rf_generation = nextGeneration (rs_generation (slot_at r i))\<rparr>"

text \<open>\<open>P\<close> is the refs reserved and not stored yet: with those left to hand out, one for each idle index.\<close>

definition refs_core :: "ref set \<Rightarrow> ('v, 'k) refs \<Rightarrow> bool" where
  "refs_core P r \<longleftrightarrow> it_wf (rr_slots r) \<and> it_fit (rr_slots r)
     \<and> rr_first r \<le> rr_last r \<and> unat (rr_first r) \<le> rr_fresh r \<and> rr_fresh r \<le> unat (rr_last r) + 1
     \<and> (\<forall>i. slot_ok (rr_obs r) (slot_at r i))
     \<and> (\<forall>i. in_range r i \<and> next_fresh r \<le> unat i \<longrightarrow> rs_generation (slot_at r i) = 0)
     \<and> distinct (avail r) \<and> set (avail r) \<inter> P = {} \<and> set (avail r) \<union> P = next_handle r ` {i. idle r i}
     \<and> rr_live r = card {i. rs_live (slot_at r i)}"

definition listed :: "('v, 'k) refs \<Rightarrow> bool" where
  "listed r \<longleftrightarrow> (\<not> rr_overflow r \<longrightarrow> distinct (rr_changed r)
     \<and> set (rr_changed r) = handle_at r ` {i. rs_state (slot_at r i) \<noteq> RefUnchanged})"

definition ref_map :: "('v, 'k) refs \<Rightarrow> ref \<Rightarrow> 'v option" where
  "ref_map r h =
     (let s = slot_at r (rf_index h)
      in if rs_live s \<and> rs_generation s = rf_generation h then Some (rs_value s) else None)"

lemma refs_coreD:
  assumes "refs_core P r"
  shows "it_wf (rr_slots r)" "it_fit (rr_slots r)" "rr_first r \<le> rr_last r" "unat (rr_first r) \<le> rr_fresh r"
    "rr_fresh r \<le> unat (rr_last r) + 1" "slot_ok (rr_obs r) (slot_at r i)"
    "in_range r i \<Longrightarrow> next_fresh r \<le> unat i \<Longrightarrow> rs_generation (slot_at r i) = 0"
    "distinct (avail r)" "set (avail r) \<inter> P = {}" "set (avail r) \<union> P = next_handle r ` {i. idle r i}"
    "rr_live r = card {i. rs_live (slot_at r i)}"
  using assms by (simp_all add: refs_core_def)

lemma slot_at_fields [simp]:
  "slot_at (r\<lparr>rr_free := a\<rparr>) = slot_at r" "slot_at (r\<lparr>rr_reserved := b\<rparr>) = slot_at r" "slot_at (r\<lparr>rr_fresh := b\<rparr>) = slot_at r"
  "slot_at (r\<lparr>rr_live := b\<rparr>) = slot_at r" "slot_at (r\<lparr>rr_obs := c\<rparr>) = slot_at r" "slot_at (r\<lparr>rr_changed := a\<rparr>) = slot_at r"
  "slot_at (r\<lparr>rr_overflow := d\<rparr>) = slot_at r" "slot_at (r\<lparr>rr_keys := k\<rparr>) = slot_at r"
  by (simp_all add: slot_at_def fun_eq_iff)

lemma set_slot_fields [simp]:
  "rr_first (set_slot i s r) = rr_first r" "rr_last (set_slot i s r) = rr_last r" "rr_free (set_slot i s r) = rr_free r"
  "rr_reserved (set_slot i s r) = rr_reserved r" "rr_fresh (set_slot i s r) = rr_fresh r" "rr_live (set_slot i s r) = rr_live r"
  "rr_obs (set_slot i s r) = rr_obs r" "rr_changed (set_slot i s r) = rr_changed r" "rr_overflow (set_slot i s r) = rr_overflow r"
  "rr_keys (set_slot i s r) = rr_keys r" "rr_zero (set_slot i s r) = rr_zero r"
  by (simp_all add: set_slot_def)

lemma set_slot_at:
  "it_wf (rr_slots r) \<Longrightarrow> slot_at (set_slot i s r) = (slot_at r)(i := s)"
  "it_wf (rr_slots r) \<Longrightarrow> it_wf (rr_slots (set_slot i s r))"
  "it_fit (rr_slots r) \<Longrightarrow> it_fit (rr_slots (set_slot i s r))"
  by (simp_all add: slot_at_def set_slot_def fun_eq_iff table.put_lookup table.put_wf it_put_fit)

lemma ref_listChanged_fields [simp]:
  "rr_slots (ref_listChanged h r) = rr_slots r" "rr_first (ref_listChanged h r) = rr_first r"
  "rr_last (ref_listChanged h r) = rr_last r" "rr_free (ref_listChanged h r) = rr_free r"
  "rr_reserved (ref_listChanged h r) = rr_reserved r" "rr_fresh (ref_listChanged h r) = rr_fresh r"
  "rr_live (ref_listChanged h r) = rr_live r" "rr_obs (ref_listChanged h r) = rr_obs r"
  "rr_keys (ref_listChanged h r) = rr_keys r" "rr_zero (ref_listChanged h r) = rr_zero r"
  "slot_at (ref_listChanged h r) = slot_at r"
  by (simp_all add: ref_listChanged_def)

text \<open>A slot that exists is read where it is; one that does not reads zero, with generation 0.\<close>

lemma slot_at_missing: "it_at (rr_slots r) i = None \<Longrightarrow> slot_at r i = zero_ref_slot (rr_zero r)"
  by (simp add: slot_at_def it_get_def)

lemma slot_at_there: "it_at (rr_slots r) i = Some s \<Longrightarrow> slot_at r i = s"
  by (simp add: slot_at_def it_get_def)

lemma zero_slot_fields [simp]:
  "rs_value (zero_ref_slot z) = z" "rs_generation (zero_ref_slot z) = 0" "\<not> rs_live (zero_ref_slot z)"
  "rs_state (zero_ref_slot z) = RefUnchanged"
  by (simp_all add: zero_ref_slot_def)

lemma generation_there: "rs_generation (slot_at r i) \<noteq> 0 \<Longrightarrow> it_at (rr_slots r) i \<noteq> None"
  by (rule notI) (simp add: slot_at_missing)

lemma ref_slot_of_iff:
  "ref_slot_of r h = Some s \<longleftrightarrow> s = slot_at r (rf_index h) \<and> rs_live s \<and> rs_generation s = rf_generation h"
proof (cases "it_at (rr_slots r) (rf_index h)")
  case None
  then show ?thesis using slot_at_missing[OF None] by (auto simp: ref_slot_of_def)
next
  case (Some t)
  then show ?thesis using slot_at_there[OF Some] by (auto simp: ref_slot_of_def)
qed

lemma ref_get_map: "ref_get r h = ref_map r h"
proof (cases "ref_slot_of r h")
  case None
  then have "\<not> (rs_live (slot_at r (rf_index h)) \<and> rs_generation (slot_at r (rf_index h)) = rf_generation h)"
    using ref_slot_of_iff[of r h "slot_at r (rf_index h)"] by auto
  then show ?thesis using None by (auto simp: ref_get_def ref_map_def Let_def)
next
  case (Some s)
  then show ?thesis using ref_slot_of_iff[of r h s] by (auto simp: ref_get_def ref_map_def Let_def)
qed

lemma handle_at_index [simp]: "rf_index (handle_at r i) = i" "rf_generation (handle_at r i) = rs_generation (slot_at r i)"
  by (simp_all add: handle_at_def)

lemma next_handle_index [simp]: "rf_index (next_handle r i) = i"
  "rf_generation (next_handle r i) = nextGeneration (rs_generation (slot_at r i))"
  by (simp_all add: next_handle_def)

lemma ref_eqI: "rf_index h = rf_index k \<Longrightarrow> rf_generation h = rf_generation k \<Longrightarrow> h = k" for h k :: ref
  by simp

lemma handle_at_eq: "handle_at r (rf_index h) = h \<longleftrightarrow> rs_generation (slot_at r (rf_index h)) = rf_generation h"
  by (metis handle_at_index ref_eqI)

lemma ref_map_some: "ref_map r h = Some v \<longleftrightarrow>
    handle_at r (rf_index h) = h \<and> rs_live (slot_at r (rf_index h)) \<and> rs_value (slot_at r (rf_index h)) = v"
  by (auto simp: ref_map_def Let_def handle_at_eq)

section \<open>Reserving and settling\<close>

lemma last_take_nth: "0 < n \<Longrightarrow> n \<le> length xs \<Longrightarrow> last (take n xs) = xs ! (n - 1)"
  by (subst last_conv_nth) (auto simp: min_absorb2)

lemma ref_reserve_cases:
  assumes "refs_core P r" and "ref_reserve r = (h, r')"
  shows "r' = r\<lparr>rr_reserved := rr_reserved r + 1\<rparr>"
    and "if avail r \<noteq> [] then h = last (avail r) \<and> avail r' = butlast (avail r) \<and> next_fresh r' = next_fresh r
      else avail r' = [] \<and>
        (if next_fresh r \<le> unat (rr_last r)
         then h = \<lparr>rf_index = of_nat (next_fresh r), rf_generation = 1\<rparr> \<and> next_fresh r' = next_fresh r + 1
         else h = no_ref \<and> next_fresh r' = next_fresh r)"
proof -
  show r': "r' = r\<lparr>rr_reserved := rr_reserved r + 1\<rparr>"
    using assms(2) by (auto simp: ref_reserve_def Let_def split: if_splits)
  show "if avail r \<noteq> [] then h = last (avail r) \<and> avail r' = butlast (avail r) \<and> next_fresh r' = next_fresh r
      else avail r' = [] \<and>
        (if next_fresh r \<le> unat (rr_last r)
         then h = \<lparr>rf_index = of_nat (next_fresh r), rf_generation = 1\<rparr> \<and> next_fresh r' = next_fresh r + 1
         else h = no_ref \<and> next_fresh r' = next_fresh r)"
  proof (cases "rr_reserved r < length (rr_free r)")
    case True
    then have "h = rr_free r ! (length (rr_free r) - 1 - rr_reserved r)"
      using assms(2) by (simp add: ref_reserve_def Let_def)
    moreover have "avail r \<noteq> []" "last (avail r) = rr_free r ! (length (rr_free r) - 1 - rr_reserved r)"
      using True by (auto simp: avail_def last_take_nth)
    ultimately show ?thesis
      using True by (auto simp: r' avail_def next_fresh_def butlast_take)
  next
    case False
    then show ?thesis
      using assms(2) by (auto simp: r' ref_reserve_def Let_def avail_def next_fresh_def min_def split: if_splits)
  qed
qed

lemma next_fresh_bounds:
  assumes "refs_core P r"
  shows "unat (rr_first r) \<le> next_fresh r" "next_fresh r \<le> unat (rr_last r) + 1"
  using refs_coreD(3-5)[OF assms] by (auto simp: next_fresh_def word_le_nat_alt)

lemma pool_handle:
  assumes "refs_core P r" and "h \<in> set (avail r) \<union> P"
  shows "idle r (rf_index h)" "h = next_handle r (rf_index h)" "rf_generation h \<noteq> 0"
  using assms(2) unfolding refs_coreD(10)[OF assms(1)] by auto

lemma fresh_index:
  assumes c: "refs_core P r" and le: "next_fresh r \<le> unat (rr_last r)"
  defines "i \<equiv> of_nat (next_fresh r) :: u32"
  shows "unat i = next_fresh r" "in_range r i" "rs_generation (slot_at r i) = 0" "\<not> rs_live (slot_at r i)"
    "rs_state (slot_at r i) = RefUnchanged" "next_handle r i = \<lparr>rf_index = i, rf_generation = 1\<rparr>"
proof -
  have "next_fresh r < 2 ^ 32" using le unsigned_less[of "rr_last r", where ?'a = nat] by simp
  then show n: "unat i = next_fresh r" by (simp add: i_def unat_of_nat_u32)
  then show rg: "in_range r i"
    using next_fresh_bounds[OF c] le by (simp add: in_range_def word_le_nat_alt)
  show g: "rs_generation (slot_at r i) = 0" using refs_coreD(7)[OF c rg] n by simp
  show "\<not> rs_live (slot_at r i)" "rs_state (slot_at r i) = RefUnchanged"
    using refs_coreD(6)[OF c, of i] g by (auto simp: slot_ok_def)
  show "next_handle r i = \<lparr>rf_index = i, rf_generation = 1\<rparr>" by (simp add: next_handle_def g)
qed

lemma reserve_core:
  assumes c: "refs_core P r" and rv: "ref_reserve r = (h, r')"
  shows "h \<noteq> no_ref \<Longrightarrow> refs_core (insert h P) r' \<and> h \<notin> P \<and> in_range r (rf_index h) \<and> rf_generation h \<noteq> 0
      \<and> \<not> rs_live (slot_at r (rf_index h)) \<and> rs_state (slot_at r (rf_index h)) = RefUnchanged"
    and "h = no_ref \<Longrightarrow> refs_core P r' \<and> avail r = [] \<and> next_fresh r = unat (rr_last r) + 1"
proof -
  note cs = ref_reserve_cases[OF c rv]
  have r': "slot_at r' = slot_at r" "in_range r' = in_range r" "next_handle r' = next_handle r"
    by (simp_all add: cs(1) in_range_def next_handle_def fun_eq_iff)
  note d = refs_coreD[OF c]
  show "refs_core P r' \<and> avail r = [] \<and> next_fresh r = unat (rr_last r) + 1" if no: "h = no_ref"
  proof -
    have "avail r = []"
    proof (rule ccontr)
      assume "avail r \<noteq> []"
      then have "h \<in> set (avail r)" using cs(2) by simp
      then show False using pool_handle(3)[OF c, of h] no by (simp add: no_ref_def)
    qed
    moreover from this have "\<not> next_fresh r \<le> unat (rr_last r)" using cs(2) no by (auto simp: no_ref_def split: if_splits)
    ultimately have "avail r' = avail r" "next_fresh r' = next_fresh r" "next_fresh r = unat (rr_last r) + 1"
      using cs(2) next_fresh_bounds(2)[OF c] by auto
    then show ?thesis
      using c \<open>avail r = []\<close> by (simp add: refs_core_def idle_def r') (simp add: cs(1))
  qed
  show "refs_core (insert h P) r' \<and> h \<notin> P \<and> in_range r (rf_index h) \<and> rf_generation h \<noteq> 0
      \<and> \<not> rs_live (slot_at r (rf_index h)) \<and> rs_state (slot_at r (rf_index h)) = RefUnchanged" if yes: "h \<noteq> no_ref"
  proof (cases "avail r = []")
    case False
    then have h: "h = last (avail r)" "avail r' = butlast (avail r)" "next_fresh r' = next_fresh r" using cs(2) by auto
    have split: "avail r = butlast (avail r) @ [h]" using False h(1) by simp
    have mem: "h \<in> set (avail r)" using False h(1) by simp
    have sets: "set (avail r) = insert h (set (butlast (avail r)))" "h \<notin> set (butlast (avail r))" "distinct (butlast (avail r))"
      using d(8) by (subst (asm) split, subst split, simp)+
    have "refs_core (insert h P) r'"
      using c sets h(2,3) d(9) mem by (simp add: refs_core_def idle_def r') (auto simp: cs(1))
    then show ?thesis using pool_handle[OF c, of h] mem d(9) by (auto simp: idle_def)
  next
    case True
    then have le: "next_fresh r \<le> unat (rr_last r)" using cs(2) yes by (auto split: if_splits)
    then have h: "h = \<lparr>rf_index = of_nat (next_fresh r), rf_generation = 1\<rparr>" "avail r' = []" "next_fresh r' = next_fresh r + 1"
      using cs(2) True by auto
    note f = fresh_index[OF c le]
    have "idle r' j \<longleftrightarrow> idle r j \<or> j = of_nat (next_fresh r)" for j
      using f(1,2,4,5) word_unat_eq_iff[of j "of_nat (next_fresh r)"]
      by (auto simp: idle_def r' h(3) less_Suc_eq)
    then have "{j. idle r' j} = insert (of_nat (next_fresh r)) {j. idle r j}" by auto
    then have im: "next_handle r ` {j. idle r' j} = insert h P" using f(6) d(10) True h(1) by simp
    have "h \<notin> P" using pool_handle(1)[OF c, of h] f(1) h(1) by (auto simp: idle_def)
    moreover have "refs_core (insert h P) r'"
      using c im h(2,3) by (simp add: refs_core_def r') (simp add: cs(1))
    ultimately show ?thesis using f h(1) by auto
  qed
qed

lemma settle_same [simp]:
  "slot_at (ref_settle r) = slot_at r" "rr_slots (ref_settle r) = rr_slots r" "rr_first (ref_settle r) = rr_first r"
  "rr_last (ref_settle r) = rr_last r" "rr_live (ref_settle r) = rr_live r" "rr_obs (ref_settle r) = rr_obs r"
  "rr_changed (ref_settle r) = rr_changed r" "rr_overflow (ref_settle r) = rr_overflow r"
  "rr_keys (ref_settle r) = rr_keys r" "rr_zero (ref_settle r) = rr_zero r" "rr_reserved (ref_settle r) = 0"
  "avail (ref_settle r) = avail r"
  by (simp_all add: ref_settle_def Let_def avail_def min_def)

lemma settle_core: "refs_core P r \<Longrightarrow> refs_core P (ref_settle r)"
proof -
  assume c: "refs_core P r"
  have "next_fresh (ref_settle r) = next_fresh r"
    using refs_coreD(5)[OF c] by (auto simp: ref_settle_def Let_def next_fresh_def min_def)
  moreover have "unat (rr_first r) \<le> rr_fresh (ref_settle r)" "rr_fresh (ref_settle r) \<le> unat (rr_last r) + 1"
    using refs_coreD(3-5)[OF c] by (auto simp: ref_settle_def Let_def word_le_nat_alt)
  ultimately show ?thesis
    using c by (simp add: refs_core_def in_range_def idle_def next_handle_def[abs_def])
qed

lemma settle_listed [simp]: "listed (ref_settle r) = listed r"
  by (simp add: listed_def handle_at_def[abs_def])

lemma settle_map [simp]: "ref_map (ref_settle r) = ref_map r"
  by (simp add: ref_map_def fun_eq_iff)

section \<open>Changing one slot\<close>

lemma used_index:
  "refs_core P r \<Longrightarrow> rs_generation (slot_at r i) \<noteq> 0 \<Longrightarrow> in_range r i \<Longrightarrow> unat i < next_fresh r"
  using refs_coreD(7)[of P r i] by (meson not_le)

lemma card_live_change:
  fixes f g :: "u32 \<Rightarrow> 'v ref_slot"
  assumes "g = f(i := s)"
  shows "card {j. rs_live (g j)} + (if rs_live (f i) then 1 else 0) = card {j. rs_live (f j)} + (if rs_live s then 1 else 0)"
proof -
  have "{j. rs_live (g j)} = (if rs_live s then insert i {j. rs_live (f j)} else {j. rs_live (f j)} - {i})"
    by (auto simp: assms)
  moreover have "0 < card {j. rs_live (f j)}" if "rs_live (f i)" using that by (auto simp: card_gt_0_iff)
  ultimately show ?thesis by (auto simp: card_insert_if card_Diff_singleton)
qed

text \<open>The pool of handles changes at one index only: it holds the handle the index has next, or nothing.\<close>

lemma core_change:
  assumes c: "refs_core P r" and wf: "it_wf (rr_slots r')" "it_fit (rr_slots r')"
    and same: "rr_first r' = rr_first r" "rr_last r' = rr_last r" "rr_fresh r' = rr_fresh r" "rr_obs r' = rr_obs r"
      "next_fresh r' = next_fresh r"
    and sl: "slot_at r' = (slot_at r)(i := s)" and ok: "slot_ok (rr_obs r) s"
    and used: "in_range r i \<Longrightarrow> unat i < next_fresh r"
    and live: "rr_live r' + (if rs_live (slot_at r i) then 1 else 0) = rr_live r + (if rs_live s then 1 else 0)"
    and pool: "distinct (avail r')" "set (avail r') \<inter> P' = {}"
      "set (avail r') \<union> P' = next_handle r ` ({j. idle r j} - {i}) \<union> (if idle r' i then {next_handle r' i} else {})"
  shows "refs_core P' r'"
proof -
  note d = refs_coreD[OF c]
  have rg: "in_range r' = in_range r" by (simp add: in_range_def same fun_eq_iff)
  have other: "idle r' j = idle r j" "next_handle r' j = next_handle r j" if "j \<noteq> i" for j
    using that by (simp_all add: idle_def rg same sl next_handle_def)
  have "next_handle r' ` {j. idle r' j}
      = next_handle r' ` ({j. idle r' j} - {i}) \<union> (if idle r' i then {next_handle r' i} else {})"
    by auto
  also have "next_handle r' ` ({j. idle r' j} - {i}) = next_handle r ` ({j. idle r j} - {i})"
    using other by (auto simp: image_iff)
  finally have im: "set (avail r') \<union> P' = next_handle r' ` {j. idle r' j}" using pool(3) by simp
  have "rr_live r' = card {j. rs_live (slot_at r' j)}"
    using card_live_change[OF sl] live d(11) by (auto split: if_splits)
  moreover have "rs_generation (slot_at r' j) = 0" if "in_range r' j" "next_fresh r' \<le> unat j" for j
    using that used d(7)[of j] by (cases "j = i") (auto simp: rg same sl)
  moreover have "slot_ok (rr_obs r') (slot_at r' j)" for j using d(6)[of j] ok by (simp add: sl same)
  ultimately show ?thesis unfolding refs_core_def using wf d(3-5) same pool(1,2) im by auto
qed

lemma pool_without:
  assumes "refs_core P r"
  shows "\<not> idle r i \<Longrightarrow> next_handle r ` ({j. idle r j} - {i}) = set (avail r) \<union> P"
    and "idle r i \<Longrightarrow> next_handle r ` ({j. idle r j} - {i}) = (set (avail r) \<union> P) - {next_handle r i}"
proof -
  show "\<not> idle r i \<Longrightarrow> next_handle r ` ({j. idle r j} - {i}) = set (avail r) \<union> P"
    using refs_coreD(10)[OF assms] by simp
  have "inj (next_handle r)" by (rule injI) (metis next_handle_index(1))
  then show "idle r i \<Longrightarrow> next_handle r ` ({j. idle r j} - {i}) = (set (avail r) \<union> P) - {next_handle r i}"
    unfolding refs_coreD(10)[OF assms] by (simp add: image_set_diff)
qed

text \<open>A slot that changes and is not idle before or after, as of a live ref, one released, one placed.\<close>

lemma core_keep:
  assumes c: "refs_core P r" and wf: "it_wf (rr_slots r')" "it_fit (rr_slots r')"
    and same: "rr_first r' = rr_first r" "rr_last r' = rr_last r" "rr_fresh r' = rr_fresh r" "rr_obs r' = rr_obs r"
      "rr_free r' = rr_free r" "rr_reserved r' = rr_reserved r"
    and sl: "slot_at r' = (slot_at r)(i := s)" and ok: "slot_ok (rr_obs r) s"
    and used: "in_range r i \<Longrightarrow> unat i < next_fresh r"
    and live: "rr_live r' + (if rs_live (slot_at r i) then 1 else 0) = rr_live r + (if rs_live s then 1 else 0)"
    and busy: "\<not> idle r i" "\<not> in_range r i \<or> rs_live s \<or> rs_state s \<noteq> RefUnchanged"
  shows "refs_core P r'"
proof -
  have nf: "next_fresh r' = next_fresh r" and av: "avail r' = avail r"
    by (simp_all add: next_fresh_def avail_def same)
  have "\<not> idle r' i" using busy(2) by (auto simp: idle_def sl in_range_def same)
  then have pool: "set (avail r') \<union> P
      = next_handle r ` ({j. idle r j} - {i}) \<union> (if idle r' i then {next_handle r' i} else {})"
    using pool_without(1)[OF c busy(1)] av by simp
  show ?thesis
    by (rule core_change[OF c wf same(1-4) nf sl ok used live _ _ pool]) (simp_all only: av refs_coreD(8,9)[OF c])
qed

section \<open>Listing\<close>

lemma listed_add:
  assumes l: "listed r" and un: "rs_state (slot_at r i) = RefUnchanged"
    and r1: "slot_at r1 = (slot_at r)(i := s)" "rr_changed r1 = rr_changed r" "rr_overflow r1 = rr_overflow r"
    and ch: "rs_state s \<noteq> RefUnchanged" and h: "h = \<lparr>rf_index = i, rf_generation = rs_generation s\<rparr>"
  shows "listed (ref_listChanged h r1)"
proof -
  have hs: "handle_at (ref_listChanged h r1) = (handle_at r)(i := h)"
    by (auto simp: handle_at_def r1 h fun_eq_iff)
  have set: "{j. rs_state (slot_at (ref_listChanged h r1) j) \<noteq> RefUnchanged}
      = insert i {j. rs_state (slot_at r j) \<noteq> RefUnchanged}"
    using ch by (auto simp: r1)
  show ?thesis
    unfolding listed_def
  proof (rule impI)
    assume no: "\<not> rr_overflow (ref_listChanged h r1)"
    then have c: "rr_changed (ref_listChanged h r1) = rr_changed r @ [h]" "\<not> rr_overflow r"
      by (auto simp: ref_listChanged_def r1 split: if_splits)
    then have lr: "distinct (rr_changed r)" "set (rr_changed r) = handle_at r ` {j. rs_state (slot_at r j) \<noteq> RefUnchanged}"
      using l by (simp_all add: listed_def)
    have "h \<notin> set (rr_changed r)" using un by (auto simp: lr(2) h handle_at_def)
    moreover have "handle_at (ref_listChanged h r1) ` insert i {j. rs_state (slot_at r j) \<noteq> RefUnchanged}
        = insert h (set (rr_changed r))"
      using un by (auto simp: hs lr(2))
    ultimately show "distinct (rr_changed (ref_listChanged h r1))
        \<and> set (rr_changed (ref_listChanged h r1))
            = handle_at (ref_listChanged h r1) ` {j. rs_state (slot_at (ref_listChanged h r1) j) \<noteq> RefUnchanged}"
      using c(1) lr(1) set by simp
  qed
qed

lemma listed_keep:
  assumes l: "listed r" and r1: "slot_at r1 = (slot_at r)(i := s)" "rr_changed r1 = rr_changed r" "rr_overflow r1 = rr_overflow r"
    and st: "rs_state s = RefUnchanged \<longleftrightarrow> rs_state (slot_at r i) = RefUnchanged"
      "rs_state s \<noteq> RefUnchanged \<Longrightarrow> rs_generation s = rs_generation (slot_at r i)"
  shows "listed r1"
proof -
  have "{j. rs_state (slot_at r1 j) \<noteq> RefUnchanged} = {j. rs_state (slot_at r j) \<noteq> RefUnchanged}"
    using st(1) by (auto simp: r1)
  moreover have "handle_at r1 j = handle_at r j" if "rs_state (slot_at r j) \<noteq> RefUnchanged" for j
    using that st by (cases "j = i") (simp_all add: handle_at_def r1)
  ultimately show ?thesis using l unfolding listed_def r1(2,3) by auto
qed

section \<open>The operations keep the invariant\<close>

definition refs_inv :: "ref set \<Rightarrow> ('v, 'k) refs \<Rightarrow> bool" where
  "refs_inv P r \<longleftrightarrow> refs_core P r \<and> listed r"

text \<open>Freeing a slot: the handle its index has next goes to the back of the free list.\<close>

lemma core_free:
  assumes c: "refs_core P r" and wf: "it_wf (rr_slots r')" "it_fit (rr_slots r')"
    and same: "rr_first r' = rr_first r" "rr_last r' = rr_last r" "rr_fresh r' = rr_fresh r" "rr_obs r' = rr_obs r"
      "rr_reserved r' = 0" "rr_reserved r = 0"
    and sl: "slot_at r' = (slot_at r)(i := s)"
    and s: "\<not> rs_live s" "rs_state s = RefUnchanged" "rs_generation s = rs_generation (slot_at r i)" "rs_generation s \<noteq> 0"
    and free: "rr_free r' = (if in_range r i then rr_free r @ [next_handle r' i] else rr_free r)"
    and live: "rr_live r' + (if rs_live (slot_at r i) then 1 else 0) = rr_live r"
    and busy: "rs_live (slot_at r i) \<or> rs_state (slot_at r i) \<noteq> RefUnchanged"
  shows "refs_core P r'"
proof -
  have nf: "next_fresh r' = next_fresh r" by (simp add: next_fresh_def same)
  have av: "avail r' = (if in_range r i then avail r @ [next_handle r' i] else avail r)"
    by (simp add: avail_def same free)
  have used: "in_range r i \<Longrightarrow> unat i < next_fresh r" using used_index[OF c, of i] s(3,4) by simp
  have idle: "\<not> idle r i" "idle r' i \<longleftrightarrow> in_range r i"
    using busy used s(1,2) by (auto simp: idle_def nf sl in_range_def same)
  have new: "next_handle r' i \<notin> set (avail r) \<union> P"
    using pool_handle(1)[OF c, of "next_handle r' i"] idle(1) by auto
  have pool: "set (avail r') \<union> P
      = next_handle r ` ({j. idle r j} - {i}) \<union> (if idle r' i then {next_handle r' i} else {})"
    using pool_without(1)[OF c idle(1)] idle(2) av by simp
  have ok: "slot_ok (rr_obs r) s" using s by (simp add: slot_ok_def)
  show ?thesis
  proof (rule core_change[OF c wf same(1-4) nf sl ok used _ _ _ pool])
    show "rr_live r' + (if rs_live (slot_at r i) then 1 else 0) = rr_live r + (if rs_live s then 1 else 0)"
      using live s(1) by simp
    show "distinct (avail r')" "set (avail r') \<inter> P = {}"
      using refs_coreD(8,9)[OF c] new by (auto simp: av)
  qed
qed

lemma store_effect:
  assumes "it_wf (rr_slots r)"
  shows "slot_at (ref_store h v r) = (slot_at r)(rf_index h :=
      \<lparr>rs_value = v, rs_generation = rf_generation h, rs_live = True,
       rs_state = (if rr_obs r = Observed then RefAdded else rs_state (slot_at r (rf_index h)))\<rparr>)"
    and "it_wf (rr_slots (ref_store h v r))" "it_fit (rr_slots r) \<Longrightarrow> it_fit (rr_slots (ref_store h v r))"
    and "rr_first (ref_store h v r) = rr_first r" "rr_last (ref_store h v r) = rr_last r" "rr_fresh (ref_store h v r) = rr_fresh r"
    and "rr_obs (ref_store h v r) = rr_obs r" "rr_free (ref_store h v r) = rr_free r"
    and "rr_reserved (ref_store h v r) = rr_reserved r" "rr_live (ref_store h v r) = rr_live r + 1"
    and "rr_keys (ref_store h v r) = rr_keys r" "rr_zero (ref_store h v r) = rr_zero r"
  using assms
  by (simp_all add: ref_store_def Let_def upd_ref_slot_def set_slot_at fun_upd_def fun_eq_iff)

lemma store_listed:
  assumes "it_wf (rr_slots r)" and "listed r" and "rs_state (slot_at r (rf_index h)) = RefUnchanged"
  shows "listed (ref_store h v r)"
proof (cases "rr_obs r = Observed")
  case True
  let ?i = "rf_index h"
  let ?s = "\<lparr>rs_value = v, rs_generation = rf_generation h, rs_live = True, rs_state = RefAdded\<rparr>"
  define r1 where "r1 = upd_ref_slot ?i (\<lambda>s. s\<lparr>rs_state := RefAdded\<rparr>)
    ((upd_ref_slot ?i (\<lambda>s. s\<lparr>rs_value := v, rs_generation := rf_generation h, rs_live := True\<rparr>) r)\<lparr>rr_live := rr_live r + 1\<rparr>)"
  have st: "ref_store h v r = ref_listChanged h r1"
    using True by (simp add: ref_store_def r1_def Let_def upd_ref_slot_def)
  have "slot_at r1 = (slot_at r)(?i := ?s)" "rr_changed r1 = rr_changed r" "rr_overflow r1 = rr_overflow r"
    using assms(1) by (simp_all add: r1_def upd_ref_slot_def set_slot_at fun_eq_iff)
  from listed_add[OF assms(2,3) this, of h] show ?thesis by (simp add: st)
next
  case False
  then have "rr_changed (ref_store h v r) = rr_changed r" "rr_overflow (ref_store h v r) = rr_overflow r"
    by (simp_all add: ref_store_def Let_def upd_ref_slot_def)
  then show ?thesis
    using listed_keep[OF assms(2) store_effect(1)[OF assms(1), of h v]] assms(3) False by simp
qed

lemma store_inv:
  assumes inv: "refs_inv P r" and free: "\<not> rs_live (slot_at r (rf_index h))" "rs_state (slot_at r (rf_index h)) = RefUnchanged"
    and g: "rf_generation h \<noteq> 0" and p: "in_range r (rf_index h) \<Longrightarrow> h \<in> P"
  shows "refs_inv (P - {h}) (ref_store h v r)"
proof -
  have c: "refs_core P r" and l: "listed r" using inv by (simp_all add: refs_inv_def)
  note d = refs_coreD[OF c] and e = store_effect[OF d(1), of h v]
  let ?i = "rf_index h" and ?r' = "ref_store h v r"
  let ?s = "\<lparr>rs_value = v, rs_generation = rf_generation h, rs_live = True,
     rs_state = (if rr_obs r = Observed then RefAdded else rs_state (slot_at r ?i))\<rparr>"
  have ok: "slot_ok (rr_obs r) ?s" using g free(2) by (simp add: slot_ok_def)
  have live: "rr_live ?r' + (if rs_live (slot_at r ?i) then 1 else 0) = rr_live r + (if rs_live ?s then 1 else 0)"
    using free(1) e(10) by simp
  have used: "in_range r ?i \<Longrightarrow> unat ?i < next_fresh r"
    using p pool_handle(1)[OF c, of h] by (auto simp: idle_def)
  have "refs_core (P - {h}) ?r'"
  proof (cases "in_range r ?i")
    case True
    have h: "h \<in> P" "idle r ?i" "next_handle r ?i = h" using p[OF True] pool_handle[OF c, of h] by auto
    have nf: "next_fresh ?r' = next_fresh r" and av: "avail ?r' = avail r" by (simp_all add: next_fresh_def avail_def e)
    have "\<not> idle ?r' ?i" by (simp add: idle_def e(1))
    then have pool: "set (avail ?r') \<union> (P - {h})
        = next_handle r ` ({j. idle r j} - {?i}) \<union> (if idle ?r' ?i then {next_handle ?r' ?i} else {})"
      using pool_without(2)[OF c h(2)] h(1,3) d(9) av by auto
    show ?thesis
      by (rule core_change[OF c e(2) e(3)[OF d(2)] e(4,5,6,7) nf e(1) ok used live _ _ pool])
        (use d(8,9) av in auto)
  next
    case False
    have "h \<notin> P" using pool_handle(1)[OF c, of h] False by (auto simp: idle_def)
    moreover have "\<not> idle r ?i" using False by (simp add: idle_def)
    moreover have "\<not> in_range r ?i \<or> rs_live ?s \<or> rs_state ?s \<noteq> RefUnchanged" using False by simp
    ultimately show ?thesis
      using core_keep[OF c e(2) e(3)[OF d(2)] e(4,5,6,7,8,9) e(1) ok used live] by simp
  qed
  then show ?thesis using store_listed[OF d(1) l free(2)] by (simp add: refs_inv_def)
qed

lemma poke_effect:
  assumes "it_wf (rr_slots r)"
  shows "slot_at (ref_poke h v r) = (slot_at r)(rf_index h := (slot_at r (rf_index h))\<lparr>rs_value := v\<rparr>)"
    and "it_wf (rr_slots (ref_poke h v r))" "it_fit (rr_slots r) \<Longrightarrow> it_fit (rr_slots (ref_poke h v r))"
    and "rr_first (ref_poke h v r) = rr_first r" "rr_last (ref_poke h v r) = rr_last r" "rr_fresh (ref_poke h v r) = rr_fresh r"
    and "rr_obs (ref_poke h v r) = rr_obs r" "rr_free (ref_poke h v r) = rr_free r"
    and "rr_reserved (ref_poke h v r) = rr_reserved r" "rr_live (ref_poke h v r) = rr_live r"
    and "rr_changed (ref_poke h v r) = rr_changed r" "rr_overflow (ref_poke h v r) = rr_overflow r"
    and "rr_keys (ref_poke h v r) = rr_keys r" "rr_zero (ref_poke h v r) = rr_zero r"
  using assms by (simp_all add: ref_poke_def upd_ref_slot_def set_slot_at)

lemma poke_inv:
  assumes inv: "refs_inv P r" and alive: "rs_live (slot_at r (rf_index h))"
  shows "refs_inv P (ref_poke h v r)"
proof -
  have c: "refs_core P r" and l: "listed r" using inv by (simp_all add: refs_inv_def)
  note d = refs_coreD[OF c] and e = poke_effect[OF d(1), of h v]
  let ?s = "(slot_at r (rf_index h))\<lparr>rs_value := v\<rparr>"
  have ok: "slot_ok (rr_obs r) ?s" using d(6)[of "rf_index h"] by (simp add: slot_ok_def)
  have g: "rs_generation (slot_at r (rf_index h)) \<noteq> 0" using d(6)[of "rf_index h"] alive by (simp add: slot_ok_def)
  have "refs_core P (ref_poke h v r)"
    by (rule core_keep[OF c e(2) e(3)[OF d(2)] e(4-9) e(1) ok used_index[OF c g]]) (use alive e(10) in \<open>simp_all add: idle_def\<close>)
  moreover have "listed (ref_poke h v r)" by (rule listed_keep[OF l e(1,11,12)]) simp_all
  ultimately show ?thesis by (simp add: refs_inv_def)
qed

lemma markChanged_effect:
  assumes "it_wf (rr_slots r)"
  shows "slot_at (ref_markChanged h r) = (slot_at r)(rf_index h := (slot_at r (rf_index h))
      \<lparr>rs_state := if rr_obs r = Observed \<and> rs_state (slot_at r (rf_index h)) = RefUnchanged then RefChanged
                  else rs_state (slot_at r (rf_index h))\<rparr>)"
    and "it_wf (rr_slots (ref_markChanged h r))" "it_fit (rr_slots r) \<Longrightarrow> it_fit (rr_slots (ref_markChanged h r))"
    and "rr_first (ref_markChanged h r) = rr_first r" "rr_last (ref_markChanged h r) = rr_last r"
    and "rr_fresh (ref_markChanged h r) = rr_fresh r" "rr_obs (ref_markChanged h r) = rr_obs r"
    and "rr_free (ref_markChanged h r) = rr_free r" "rr_reserved (ref_markChanged h r) = rr_reserved r"
    and "rr_live (ref_markChanged h r) = rr_live r"
    and "rr_keys (ref_markChanged h r) = rr_keys r" "rr_zero (ref_markChanged h r) = rr_zero r"
  using assms by (simp_all add: ref_markChanged_def upd_ref_slot_def set_slot_at fun_eq_iff)

lemma ref_markChanged_inv:
  assumes inv: "refs_inv P r" and alive: "rs_live (slot_at r (rf_index h))" "rs_generation (slot_at r (rf_index h)) = rf_generation h"
  shows "refs_inv P (ref_markChanged h r)"
proof -
  have c: "refs_core P r" and l: "listed r" using inv by (simp_all add: refs_inv_def)
  note d = refs_coreD[OF c] and e = markChanged_effect[OF d(1), of h]
  let ?i = "rf_index h"
  have g: "rs_generation (slot_at r ?i) \<noteq> 0" using d(6)[of ?i] alive by (simp add: slot_ok_def)
  have "refs_core P (ref_markChanged h r)"
  proof (rule core_keep[OF c e(2) e(3)[OF d(2)] e(4-9) e(1) _ used_index[OF c g]])
    show "slot_ok (rr_obs r) ((slot_at r ?i)\<lparr>rs_state := if rr_obs r = Observed \<and> rs_state (slot_at r ?i) = RefUnchanged
        then RefChanged else rs_state (slot_at r ?i)\<rparr>)"
      using d(6)[of ?i] alive(1) g by (auto simp: slot_ok_def)
  qed (use alive e(10) in \<open>simp_all add: idle_def\<close>)
  moreover have "listed (ref_markChanged h r)"
  proof (cases "rr_obs r = Observed \<and> rs_state (slot_at r ?i) = RefUnchanged")
    case True
    have "listed (ref_listChanged h (upd_ref_slot ?i (\<lambda>s. s\<lparr>rs_state := RefChanged\<rparr>) r))"
      by (rule listed_add[OF l conjunct2[OF True], where s = "(slot_at r ?i)\<lparr>rs_state := RefChanged\<rparr>"])
        (use alive(2) d(1) in \<open>simp_all add: upd_ref_slot_def set_slot_at\<close>)
    then show ?thesis using True by (simp add: ref_markChanged_def)
  next
    case False
    then have "ref_markChanged h r = r" by (auto simp: ref_markChanged_def)
    then show ?thesis using l by simp
  qed
  ultimately show ?thesis by (simp add: refs_inv_def)
qed

text \<open>Releasing a live ref, with the reservations settled.\<close>

definition released_slot :: "('v, 'k) refs \<Rightarrow> 'v ref_slot \<Rightarrow> 'v ref_slot" where
  "released_slot r s =
     (if rr_obs r \<noteq> Observed then s\<lparr>rs_live := False, rs_value := rr_zero r\<rparr>
      else s\<lparr>rs_live := False, rs_state := if rs_state s = RefAdded then RefDiscarded else RefReleased\<rparr>)"

lemma free_effect:
  assumes "it_wf (rr_slots r)"
  shows "slot_at (ref_free i r) = (slot_at r)(i := (slot_at r i)\<lparr>rs_value := rr_zero r\<rparr>)"
    and "it_wf (rr_slots (ref_free i r))" "it_fit (rr_slots r) \<Longrightarrow> it_fit (rr_slots (ref_free i r))"
    and "rr_first (ref_free i r) = rr_first r" "rr_last (ref_free i r) = rr_last r" "rr_fresh (ref_free i r) = rr_fresh r"
    and "rr_obs (ref_free i r) = rr_obs r" "rr_reserved (ref_free i r) = rr_reserved r" "rr_live (ref_free i r) = rr_live r"
    and "rr_free (ref_free i r) = (if in_range r i then rr_free r @ [next_handle r i] else rr_free r)"
    and "rr_changed (ref_free i r) = rr_changed r" "rr_overflow (ref_free i r) = rr_overflow r"
    and "rr_keys (ref_free i r) = rr_keys r" "rr_zero (ref_free i r) = rr_zero r"
  using assms by (simp_all add: ref_free_def Let_def upd_ref_slot_def set_slot_at in_range_def next_handle_def)

lemma release_effect:
  assumes wf: "it_wf (rr_slots r)" and s: "ref_slot_of r h = Some s" and rel: "ref_release h r = (b, r')"
  shows "b" "slot_at r' = (slot_at r)(rf_index h := released_slot r s)"
    and "it_wf (rr_slots r')" "it_fit (rr_slots r) \<Longrightarrow> it_fit (rr_slots r')"
    and "rr_first r' = rr_first r" "rr_last r' = rr_last r" "rr_fresh r' = rr_fresh r" "rr_obs r' = rr_obs r"
    and "rr_reserved r' = rr_reserved r" "rr_live r' = rr_live r - 1"
    and "rr_free r' = (if rr_obs r \<noteq> Observed \<and> in_range r (rf_index h) then rr_free r @ [next_handle r (rf_index h)] else rr_free r)"
    and "rr_keys r' = rr_keys r" "rr_zero r' = rr_zero r"
proof -
  have sl: "slot_at r (rf_index h) = s" using s by (simp add: ref_slot_of_iff)
  note defs = ref_release_def s Let_def upd_ref_slot_def set_slot_at wf released_slot_def free_effect in_range_def
    next_handle_def sl
  show "b" "slot_at r' = (slot_at r)(rf_index h := released_slot r s)" "it_wf (rr_slots r')"
    "it_fit (rr_slots r) \<Longrightarrow> it_fit (rr_slots r')"
    "rr_first r' = rr_first r" "rr_last r' = rr_last r" "rr_fresh r' = rr_fresh r" "rr_obs r' = rr_obs r"
    "rr_reserved r' = rr_reserved r" "rr_live r' = rr_live r - 1" "rr_keys r' = rr_keys r" "rr_zero r' = rr_zero r"
    "rr_free r' = (if rr_obs r \<noteq> Observed \<and> in_range r (rf_index h) then rr_free r @ [next_handle r (rf_index h)] else rr_free r)"
    using rel by (auto simp: defs split: ref_state.splits if_splits)
qed

lemma release_listed:
  assumes wf: "it_wf (rr_slots r)" and ok: "slot_ok (rr_obs r) s" and l: "listed r"
    and s: "ref_slot_of r h = Some s" and rel: "ref_release h r = (b, r')"
  shows "listed r'"
proof (cases "rr_obs r = Observed \<and> rs_state s = RefUnchanged")
  case True
  have sl: "slot_at r (rf_index h) = s" "rs_generation s = rf_generation h" using s by (auto simp: ref_slot_of_iff)
  define r1 where "r1 = upd_ref_slot (rf_index h) (\<lambda>s. s\<lparr>rs_state := RefReleased\<rparr>)
    ((upd_ref_slot (rf_index h) (\<lambda>s. s\<lparr>rs_live := False\<rparr>) r)\<lparr>rr_live := rr_live r - 1\<rparr>)"
  have "r' = ref_listChanged h r1"
    using rel True by (simp add: ref_release_def s Let_def r1_def upd_ref_slot_def)
  moreover have "listed (ref_listChanged h r1)"
    by (rule listed_add[OF l, of "rf_index h" _ "s\<lparr>rs_live := False, rs_state := RefReleased\<rparr>"])
      (use True sl wf in \<open>simp_all add: r1_def upd_ref_slot_def set_slot_at fun_eq_iff\<close>)
  ultimately show ?thesis by simp
next
  case False
  have "rr_changed r' = rr_changed r \<and> rr_overflow r' = rr_overflow r"
    using rel False wf by (auto simp: ref_release_def s Let_def upd_ref_slot_def free_effect set_slot_at
        split: ref_state.splits if_splits)
  moreover have "rs_state (released_slot r s) = RefUnchanged \<longleftrightarrow> rs_state s = RefUnchanged"
    "rs_generation (released_slot r s) = rs_generation s"
    using False ok by (auto simp: released_slot_def slot_ok_def)
  moreover have "slot_at r (rf_index h) = s" using s by (simp add: ref_slot_of_iff)
  ultimately show ?thesis using listed_keep[OF l release_effect(2)[OF wf s rel]] by simp
qed

lemma release_inv:
  assumes inv: "refs_inv P r" and settled: "rr_reserved r = 0" and s: "ref_slot_of r h = Some s" and rel: "ref_release h r = (b, r')"
  shows "refs_inv P r'"
proof -
  have c: "refs_core P r" and l: "listed r" using inv by (simp_all add: refs_inv_def)
  note d = refs_coreD[OF c] and e = release_effect[OF refs_coreD(1)[OF c] s rel]
  let ?i = "rf_index h"
  have sl: "slot_at r ?i = s" "rs_live s" using s by (auto simp: ref_slot_of_iff)
  have ok: "slot_ok (rr_obs r) s" using d(6)[of ?i] sl by simp
  have g: "rs_generation (slot_at r ?i) \<noteq> 0" using ok sl by (simp add: slot_ok_def)
  have "{j. rs_live (slot_at r j)} \<noteq> {}" using sl by auto
  then have "0 < rr_live r" using d(11) by (simp add: card_gt_0_iff)
  then have live: "rr_live r' + (if rs_live (slot_at r ?i) then 1 else 0) = rr_live r" using e(10) sl by simp
  have gen: "rs_generation (released_slot r s) = rs_generation (slot_at r ?i)" "\<not> rs_live (released_slot r s)"
    by (simp_all add: released_slot_def sl)
  have "refs_core P r'"
  proof (cases "rr_obs r = Observed")
    case False
    have "next_handle r' ?i = next_handle r ?i" using gen(1) by (simp add: next_handle_def e(2))
    then have free: "rr_free r' = (if in_range r ?i then rr_free r @ [next_handle r' ?i] else rr_free r)" using e(11) False by simp
    have "rs_state (released_slot r s) = RefUnchanged" using ok False by (auto simp: released_slot_def slot_ok_def)
    then show ?thesis
      by (intro core_free[OF c e(3) e(4)[OF d(2)] e(5-8) _ settled e(2) gen(2) _ gen(1) _ free live])
        (use e(9) settled sl g gen(1) in simp_all)
  next
    case True
    have free: "rr_free r' = rr_free r" using e(11) True by simp
    have ok': "slot_ok (rr_obs r) (released_slot r s)"
      using ok sl(2) True by (auto simp: released_slot_def slot_ok_def)
    show ?thesis
      by (rule core_keep[OF c e(3) e(4)[OF d(2)] e(5-8) free e(9) e(2) ok' used_index[OF c g]])
        (use live gen sl True in \<open>simp_all add: idle_def released_slot_def\<close>)
  qed
  then show ?thesis using release_listed[OF d(1) ok l s rel] by (simp add: refs_inv_def)
qed

section \<open>Windows\<close>

text \<open>Starting: every live slot is walked, and marked.\<close>

lemma mark_added_effect:
  assumes "it_wf (rr_slots r)"
  shows "slot_at (mark_added i r) = (slot_at r)(i := (slot_at r i)
      \<lparr>rs_state := if rs_live (slot_at r i) then RefAdded else rs_state (slot_at r i)\<rparr>)"
    and "it_wf (rr_slots (mark_added i r))" "it_fit (rr_slots r) \<Longrightarrow> it_fit (rr_slots (mark_added i r))"
    and "rr_first (mark_added i r) = rr_first r" "rr_last (mark_added i r) = rr_last r" "rr_fresh (mark_added i r) = rr_fresh r"
    and "rr_obs (mark_added i r) = rr_obs r" "rr_free (mark_added i r) = rr_free r"
    and "rr_reserved (mark_added i r) = rr_reserved r" "rr_live (mark_added i r) = rr_live r"
    and "rr_overflow (mark_added i r) = rr_overflow r" "rr_keys (mark_added i r) = rr_keys r" "rr_zero (mark_added i r) = rr_zero r"
  using assms by (simp_all add: mark_added_def upd_ref_slot_def set_slot_at fun_eq_iff)

lemma mark_added_core:
  assumes c: "refs_core P r" and o: "rr_obs r = Observed"
  shows "refs_core P (mark_added i r)"
proof (cases "rs_live (slot_at r i)")
  case True
  note d = refs_coreD[OF c] and e = mark_added_effect[OF refs_coreD(1)[OF c], of i]
  have g: "rs_generation (slot_at r i) \<noteq> 0" using d(6)[of i] True by (simp add: slot_ok_def)
  show ?thesis
    by (rule core_keep[OF c e(2) e(3)[OF d(2)] e(4-9) e(1) _ used_index[OF c g]])
      (use True g o e(10) in \<open>simp_all add: idle_def slot_ok_def\<close>)
next
  case False
  then show ?thesis using c by (simp add: mark_added_def)
qed

lemma mark_added_fold:
  assumes "refs_core P r" and "rr_obs r = Observed"
  shows "refs_core P (fold mark_added is r) \<and> rr_overflow (fold mark_added is r) = rr_overflow r
    \<and> rr_obs (fold mark_added is r) = Observed
    \<and> rr_keys (fold mark_added is r) = rr_keys r \<and> rr_zero (fold mark_added is r) = rr_zero r
    \<and> (\<forall>i. slot_at (fold mark_added is r) i = (slot_at r i)
         \<lparr>rs_state := if i \<in> set is \<and> rs_live (slot_at r i) then RefAdded else rs_state (slot_at r i)\<rparr>)"
  using assms
proof (induction "is" arbitrary: r)
  case (Cons i "is")
  note e = mark_added_effect[OF refs_coreD(1)[OF Cons.prems(1)], of i]
  have "refs_core P (mark_added i r)" "rr_obs (mark_added i r) = Observed"
    using mark_added_core[OF Cons.prems] e(7) Cons.prems(2) by simp_all
  from Cons.IH[OF this] show ?case by (simp add: e)
qed simp

lemma live_walked: "refs_core P r \<Longrightarrow> rs_live (slot_at r i) \<Longrightarrow> i \<in> set (table_indices (rr_slots r))"
  using refs_coreD(6)[of P r i] generation_there[of r i] set_table_indices[OF refs_coreD(1,2), of P r P i]
  by (auto simp: slot_ok_def)

lemma start_effect:
  assumes c: "refs_core P r" and o: "rr_obs r = ObserverWaiting"
  shows "refs_core P (refs_startObservation r) \<and> rr_overflow (refs_startObservation r)
    \<and> rr_obs (refs_startObservation r) = Observed
    \<and> rr_keys (refs_startObservation r) = rr_keys r \<and> rr_zero (refs_startObservation r) = rr_zero r
    \<and> (\<forall>i. slot_at (refs_startObservation r) i = (slot_at r i)
         \<lparr>rs_state := if rs_live (slot_at r i) then RefAdded else RefUnchanged\<rparr>)"
proof -
  let ?r = "r\<lparr>rr_obs := Observed, rr_overflow := True\<rparr>"
  have st: "rs_state (slot_at r i) = RefUnchanged" for i
    using refs_coreD(6)[OF c, of i] o by (auto simp: slot_ok_def)
  have "slot_ok Observed (slot_at r i)" for i
    using refs_coreD(6)[OF c, of i] by (auto simp: slot_ok_def)
  then have c': "refs_core P ?r"
    using c by (simp add: refs_core_def in_range_def idle_def next_handle_def[abs_def] avail_def next_fresh_def)
  from mark_added_fold[OF c', of "table_indices (rr_slots r)"] show ?thesis
    using o live_walked[OF c] st by (simp add: refs_startObservation_def)
qed

text \<open>Ending: every slot with a state is walked, and its state cleared.\<close>

definition reset_value :: "('v, 'k) refs \<Rightarrow> 'v ref_slot \<Rightarrow> 'v ref_slot" where
  "reset_value r s =
     (if rs_state s \<in> {RefReleased, RefDiscarded} then s\<lparr>rs_value := rr_zero r, rs_state := RefUnchanged\<rparr>
      else s\<lparr>rs_state := RefUnchanged\<rparr>)"

lemma reset_slot_effect:
  assumes "it_wf (rr_slots r)"
  shows "slot_at (reset_slot i r) = (slot_at r)(i := reset_value r (slot_at r i))"
    and "it_wf (rr_slots (reset_slot i r))" "it_fit (rr_slots r) \<Longrightarrow> it_fit (rr_slots (reset_slot i r))"
    and "rr_first (reset_slot i r) = rr_first r" "rr_last (reset_slot i r) = rr_last r" "rr_fresh (reset_slot i r) = rr_fresh r"
    and "rr_obs (reset_slot i r) = rr_obs r" "rr_reserved (reset_slot i r) = rr_reserved r" "rr_live (reset_slot i r) = rr_live r"
    and "rr_free (reset_slot i r) = (if rs_state (slot_at r i) \<in> {RefReleased, RefDiscarded} \<and> in_range r i
      then rr_free r @ [next_handle r i] else rr_free r)"
    and "rr_keys (reset_slot i r) = rr_keys r" "rr_zero (reset_slot i r) = rr_zero r"
  using assms
  by (auto simp: reset_slot_def Let_def upd_ref_slot_def set_slot_at free_effect reset_value_def fun_eq_iff)

lemma reset_slot_core:
  assumes c: "refs_core P r" and z: "rr_reserved r = 0"
  shows "refs_core P (reset_slot i r)"
proof -
  note d = refs_coreD[OF c] and e = reset_slot_effect[OF refs_coreD(1)[OF c], of i]
  have ok: "slot_ok (rr_obs r) (slot_at r i)" by (rule d(6))
  consider "rs_state (slot_at r i) = RefUnchanged" | "rs_state (slot_at r i) \<in> {RefReleased, RefDiscarded}"
    | "rs_state (slot_at r i) \<in> {RefAdded, RefChanged}"
    by (cases "rs_state (slot_at r i)") auto
  then show ?thesis
  proof cases
    case 1
    then show ?thesis using c by (simp add: reset_slot_def)
  next
    case 2
    have "next_handle (reset_slot i r) i = next_handle r i" by (simp add: next_handle_def e(1) reset_value_def)
    then have free: "rr_free (reset_slot i r) = (if in_range r i then rr_free r @ [next_handle (reset_slot i r) i] else rr_free r)"
      using e(10) 2 by simp
    show ?thesis
      by (rule core_free[OF c e(2) e(3)[OF d(2)] e(4-7) _ z e(1) _ _ _ _ free])
        (use 2 ok z e(8,9) in \<open>auto simp: reset_value_def slot_ok_def\<close>)
  next
    case 3
    have g: "rs_generation (slot_at r i) \<noteq> 0" using ok 3 by (auto simp: slot_ok_def)
    have free: "rr_free (reset_slot i r) = rr_free r" using e(10) 3 by auto
    show ?thesis
      by (rule core_keep[OF c e(2) e(3)[OF d(2)] e(4-7) free e(8) e(1) _ used_index[OF c g]])
        (use 3 ok e(9) in \<open>auto simp: reset_value_def slot_ok_def idle_def\<close>)
  qed
qed

lemma reset_slot_fold:
  assumes "refs_core P r" and "rr_reserved r = 0"
  shows "refs_core P (fold reset_slot is r) \<and> rr_obs (fold reset_slot is r) = rr_obs r
    \<and> rr_reserved (fold reset_slot is r) = 0
    \<and> rr_keys (fold reset_slot is r) = rr_keys r \<and> rr_zero (fold reset_slot is r) = rr_zero r
    \<and> (\<forall>i. slot_at (fold reset_slot is r) i = (if i \<in> set is then reset_value r (slot_at r i) else slot_at r i))"
  using assms
proof (induction "is" arbitrary: r)
  case (Cons i "is")
  note e = reset_slot_effect[OF refs_coreD(1)[OF Cons.prems(1)], of i]
  have again: "reset_value (reset_slot i r) s = reset_value r s" "reset_value r (reset_value r s) = reset_value r s" for s
    by (auto simp: reset_value_def e(12))
  have "refs_core P (reset_slot i r)" "rr_reserved (reset_slot i r) = 0"
    using reset_slot_core[OF Cons.prems] e(8) Cons.prems(2) by simp_all
  from Cons.IH[OF this] show ?case by (auto simp: e(1,7,11,12) again)
qed simp

lemma walked_all:
  assumes "refs_inv P r" and "rs_state (slot_at r i) \<noteq> RefUnchanged"
  shows "i \<in> set (walked_slots r)"
proof (cases "rr_overflow r")
  case True
  have "rs_generation (slot_at r i) \<noteq> 0" using assms refs_coreD(6)[of P r i] by (simp add: refs_inv_def slot_ok_def)
  then show ?thesis
    using generation_there[of r i] set_table_indices[of "rr_slots r" i] assms(1) refs_coreD(1,2)[of P r] True
    by (simp add: walked_slots_def refs_inv_def)
next
  case False
  then have "handle_at r i \<in> set (rr_changed r)" using assms by (auto simp: refs_inv_def listed_def)
  then show ?thesis using False by (auto simp: walked_slots_def image_iff intro: bexI[of _ "handle_at r i"])
qed

lemma walked_sane:
  assumes "refs_inv P r"
  shows "distinct (walked_slots r)" and "i \<in> set (walked_slots r) \<Longrightarrow> it_at (rr_slots r) i \<noteq> None"
proof -
  have c: "refs_core P r" and l: "listed r" using assms by (simp_all add: refs_inv_def)
  note t = refs_coreD(1,2)[OF c]
  show "distinct (walked_slots r)"
  proof (cases "rr_overflow r")
    case False
    then have "inj_on rf_index (set (rr_changed r))" using l by (auto simp: listed_def inj_on_def)
    then show ?thesis using False l by (simp add: walked_slots_def listed_def distinct_map)
  qed (simp add: walked_slots_def table_indices_distinct[OF t])
  show "it_at (rr_slots r) i \<noteq> None" if "i \<in> set (walked_slots r)"
  proof (cases "rr_overflow r")
    case False
    then have "rs_state (slot_at r i) \<noteq> RefUnchanged" using l that by (auto simp: listed_def walked_slots_def)
    then show ?thesis using generation_there[of r i] refs_coreD(6)[OF c, of i] by (simp add: slot_ok_def)
  next
    case True
    then show ?thesis using set_table_indices[OF t] that by (simp add: walked_slots_def)
  qed
qed

lemma settle_inv: "refs_inv P r \<Longrightarrow> refs_inv P (ref_settle r)"
  by (simp add: refs_inv_def settle_core)

lemma core_relist [simp]: "refs_core P (r\<lparr>rr_changed := a, rr_overflow := b\<rparr>) = refs_core P r"
  by (simp add: refs_core_def in_range_def idle_def next_handle_def[abs_def] avail_def next_fresh_def)

lemma core_rekey [simp]: "refs_core P (r\<lparr>rr_keys := k\<rparr>) = refs_core P r"
  by (simp add: refs_core_def in_range_def idle_def next_handle_def[abs_def] avail_def next_fresh_def)

lemma reset_value_unchanged: "rs_state s = RefUnchanged \<Longrightarrow> reset_value r s = s"
  by (cases s) (simp add: reset_value_def)

lemma reset_effect:
  assumes inv: "refs_inv P r" and o: "rr_obs r = Observed"
  shows "refs_inv P (refs_resetObservation r)" "rr_obs (refs_resetObservation r) = Observed"
    "slot_at (refs_resetObservation r) i = reset_value r (slot_at r i)"
    "rr_keys (refs_resetObservation r) = rr_keys r" "rr_zero (refs_resetObservation r) = rr_zero r"
proof -
  let ?r = "ref_settle r"
  let ?f = "fold reset_slot (walked_slots ?r) ?r"
  have inv1: "refs_inv P ?r" by (rule settle_inv[OF inv])
  have fold: "refs_core P ?f" "rr_obs ?f = rr_obs r" "rr_keys ?f = rr_keys r" "rr_zero ?f = rr_zero r"
    "slot_at ?f j = (if j \<in> set (walked_slots ?r) then reset_value r (slot_at r j) else slot_at r j)" for j
    using reset_slot_fold[of P ?r "walked_slots ?r"] inv1 by (simp_all add: refs_inv_def reset_value_def)
  have un: "reset_value r (slot_at r j) = slot_at r j" if "j \<notin> set (walked_slots ?r)" for j
    by (rule reset_value_unchanged) (use walked_all[OF inv1, of j] that in auto)
  have sl: "slot_at ?f j = reset_value r (slot_at r j)" for j using fold(5) un by auto
  have def: "refs_resetObservation r = ?f\<lparr>rr_changed := [], rr_overflow := False\<rparr>"
    using o by (simp add: refs_resetObservation_def Let_def)
  show "rr_obs (refs_resetObservation r) = Observed" "slot_at (refs_resetObservation r) i = reset_value r (slot_at r i)"
    "rr_keys (refs_resetObservation r) = rr_keys r" "rr_zero (refs_resetObservation r) = rr_zero r"
    by (simp_all add: def fold(2-4) o sl)
  have "rs_state (reset_value r s) = RefUnchanged" for s by (simp add: reset_value_def)
  then show "refs_inv P (refs_resetObservation r)"
    using fold(1) by (simp add: refs_inv_def def listed_def sl)
qed

lemma shrink_slot_at: "it_wf (rr_slots r) \<Longrightarrow> slot_at (refs_shrink r) = slot_at r"
  by (simp add: slot_at_def refs_shrink_def table.shrink_fun fun_eq_iff it_shrink_spec)

lemma shrink_refs_inv: "refs_inv P r \<Longrightarrow> refs_inv P (refs_shrink r)"
proof -
  assume "refs_inv P r"
  then have c: "refs_core P r" and l: "listed r" by (simp_all add: refs_inv_def)
  note sl = shrink_slot_at[OF refs_coreD(1)[OF c]]
  have "refs_core P (refs_shrink r)"
    using c sl it_shrink_spec(1)[OF refs_coreD(1)[OF c]] it_shrink_fit[OF refs_coreD(2)[OF c]]
    by (simp add: refs_core_def in_range_def idle_def next_handle_def[abs_def] avail_def next_fresh_def)
      (simp add: refs_shrink_def)
  moreover have "listed (refs_shrink r)"
    using l sl by (simp add: listed_def handle_at_def[abs_def]) (simp add: refs_shrink_def)
  ultimately show ?thesis by (simp add: refs_inv_def)
qed

end
