(* ===== verification/Ecs_Ref_Laws.thy ===== *)
theory Ecs_Ref_Laws
  imports Ecs_Refs
begin

text \<open>
  What refs promise whoever holds their handles.  \<open>refs_reach P B C G m r\<close>: the refs \<open>r\<close> come about by
  their operations, with \<open>m\<close> the values by handle, \<open>P\<close> the handles reserved and not stored yet, and of
  the observation window \<open>B\<close> the handles alive at its start, \<open>C\<close> those set in it and \<open>G\<close> the last values
  of those released in it.
\<close>

section \<open>Histories\<close>

inductive refs_reach ::
  "ref set \<Rightarrow> ref set \<Rightarrow> ref set \<Rightarrow> (ref \<Rightarrow> 'v option) \<Rightarrow> (ref \<Rightarrow> 'v option) \<Rightarrow> ('v, 'k) refs \<Rightarrow> bool" where
  created: "first_index \<le> last_index
    \<Longrightarrow> refs_reach {} {} {} (\<lambda>_. None) (\<lambda>_. None) (new_refs z t name first_index last_index transient)"
| reserved: "refs_reach P B C G m r \<Longrightarrow> ref_reserve r = (h, r')
    \<Longrightarrow> refs_reach (if h = no_ref then P else insert h P) B C G m r'"
| settled: "refs_reach P B C G m r \<Longrightarrow> refs_reach P B C G m (ref_settle r)"
| stored: "refs_reach P B C G m r \<Longrightarrow> h \<in> P \<Longrightarrow> refs_reach (P - {h}) B C G (m(h \<mapsto> v)) (ref_store h v r)"
| placed: "refs_reach P B C G m r \<Longrightarrow> ref_place h v r = Inr r' \<Longrightarrow> refs_reach P B C G (m(h \<mapsto> v)) r'"
| poked: "refs_reach P B C G m r \<Longrightarrow> ref_alive r h \<Longrightarrow> refs_reach P B C G (m(h \<mapsto> v)) (ref_poke h v r)"
| was_set: "refs_reach P B C G m r \<Longrightarrow> ref_set h v r = (True, r') \<Longrightarrow> refs_reach P B (insert h C) G (m(h \<mapsto> v)) r'"
| released: "refs_reach P B C G m r \<Longrightarrow> rr_reserved r = 0 \<Longrightarrow> ref_release h r = (True, r')
    \<Longrightarrow> refs_reach P B C (G(h := m h)) (m(h := None)) r'"
| observed: "refs_reach P B C G m r \<Longrightarrow> refs_reach P B C G m (observe_refs r)"
| started: "refs_reach P B C G m r \<Longrightarrow> rr_obs r = ObserverWaiting
    \<Longrightarrow> refs_reach P {} {} (\<lambda>_. None) m (refs_startObservation r)"
| reset: "refs_reach P B C G m r \<Longrightarrow> rr_obs r = Observed
    \<Longrightarrow> refs_reach P (dom m) {} (\<lambda>_. None) m (refs_resetObservation r)"
| shrunk: "refs_reach P B C G m r \<Longrightarrow> refs_reach P B C G m (refs_shrink r)"
| rekeyed: "refs_reach P B C G m r \<Longrightarrow> refs_reach P B C G m (r\<lparr>rr_keys := keys\<rparr>)"

text \<open>How the slots' states tell the window.\<close>

definition in_base :: "'v ref_slot \<Rightarrow> bool" where
  "in_base s \<longleftrightarrow> rs_state s = RefUnchanged \<and> rs_live s \<or> rs_state s = RefChanged \<or> rs_state s = RefReleased"

definition window_slot :: "ref set \<Rightarrow> ref set \<Rightarrow> (ref \<Rightarrow> 'v option) \<Rightarrow> u32 \<Rightarrow> 'v ref_slot \<Rightarrow> bool" where
  "window_slot B C G i s \<longleftrightarrow>
     (let h = \<lparr>rf_index = i, rf_generation = rs_generation s\<rparr>
      in (\<forall>k. rf_index k = i \<longrightarrow> (k \<in> B \<longleftrightarrow> k = h \<and> in_base s))
        \<and> (rs_state s = RefChanged \<longrightarrow> h \<in> C) \<and> (rs_state s = RefUnchanged \<and> rs_live s \<longrightarrow> h \<notin> C)
        \<and> (rs_state s = RefReleased \<longrightarrow> G h = Some (rs_value s)))"

definition window_ok :: "ref set \<Rightarrow> ref set \<Rightarrow> (ref \<Rightarrow> 'v option) \<Rightarrow> ('v, 'k) refs \<Rightarrow> bool" where
  "window_ok B C G r \<longleftrightarrow> (\<forall>i. window_slot B C G i (slot_at r i))"

definition refs_ok ::
  "ref set \<Rightarrow> ref set \<Rightarrow> ref set \<Rightarrow> (ref \<Rightarrow> 'v option) \<Rightarrow> (ref \<Rightarrow> 'v option) \<Rightarrow> ('v, 'k) refs \<Rightarrow> bool" where
  "refs_ok P B C G m r \<longleftrightarrow> refs_inv P r \<and> ref_map r = m \<and> (rr_obs r = Observed \<longrightarrow> window_ok B C G r)"

lemma window_change:
  assumes w: "window_ok B C G r" and sl: "slot_at r' = (slot_at r)(i := s)" and s: "window_slot B C' G' i s"
    and C: "\<And>k. rf_index k \<noteq> i \<Longrightarrow> k \<in> C' \<longleftrightarrow> k \<in> C" and G: "\<And>k. rf_index k \<noteq> i \<Longrightarrow> G' k = G k"
  shows "window_ok B C' G' r'"
  unfolding window_ok_def
proof (rule allI)
  fix j
  show "window_slot B C' G' j (slot_at r' j)"
  proof (cases "j = i")
    case False
    have "window_slot B C G j (slot_at r j)" using w by (simp add: window_ok_def)
    then show ?thesis using False C G by (simp add: window_slot_def sl)
  qed (simp add: sl s)
qed

lemma ref_map_change:
  "slot_at r' = (slot_at r)(i := s) \<Longrightarrow> ref_map r' k =
     (if rf_index k = i then if rs_live s \<and> rs_generation s = rf_generation k then Some (rs_value s) else None else ref_map r k)"
  by (simp add: ref_map_def)

lemma ref_map_same: "slot_at r' = slot_at r \<Longrightarrow> ref_map r' = ref_map r"
  by (simp add: ref_map_def fun_eq_iff)

lemma ref_map_dead: "\<not> rs_live (slot_at r i) \<Longrightarrow> rf_index k = i \<Longrightarrow> ref_map r k = None"
  by (simp add: ref_map_def)

lemma same_index: "rf_index k = rf_index h \<Longrightarrow> rf_generation h = rf_generation k \<longleftrightarrow> k = h" for h k :: ref
  by (auto intro: ref_eqI)

lemma window_same: "slot_at r' = slot_at r \<Longrightarrow> window_ok B C G r' = window_ok B C G r"
  by (simp add: window_ok_def)

text \<open>Storing a ref, new or placed, in a slot that holds none.\<close>

lemma refs_ok_store:
  assumes ok: "refs_ok P B C G m r" and free: "\<not> rs_live (slot_at r (rf_index h))" "rs_state (slot_at r (rf_index h)) = RefUnchanged"
    and g: "rf_generation h \<noteq> 0" and p: "in_range r (rf_index h) \<Longrightarrow> h \<in> P"
  shows "refs_ok (P - {h}) B C G (m(h \<mapsto> v)) (ref_store h v r)"
proof -
  have inv: "refs_inv P r" and m: "ref_map r = m" using ok by (simp_all add: refs_ok_def)
  have wf: "it_wf (rr_slots r)" using inv refs_coreD(1) by (auto simp: refs_inv_def)
  note e = store_effect[OF wf, of h v]
  have "ref_map (ref_store h v r) k = (m(h \<mapsto> v)) k" for k
    using ref_map_change[OF e(1), of k] ref_map_dead[OF free(1), of k] m same_index[of k h] by auto
  moreover have "window_ok B C G (ref_store h v r)" if o: "rr_obs r = Observed"
  proof -
    have w: "window_ok B C G r" using ok o by (simp add: refs_ok_def)
    then have "window_slot B C G (rf_index h) (slot_at r (rf_index h))" by (simp add: window_ok_def)
    then show ?thesis
      by (intro window_change[OF w e(1)]) (use free o in \<open>simp_all add: window_slot_def in_base_def Let_def\<close>)
  qed
  ultimately show ?thesis using store_inv[OF inv free g p, of v] e(7) by (simp add: refs_ok_def fun_eq_iff)
qed

lemma refs_ok_poke:
  assumes ok: "refs_ok P B C G m r" and a: "ref_alive r h"
  shows "refs_ok P B C G (m(h \<mapsto> v)) (ref_poke h v r)"
proof -
  have inv: "refs_inv P r" and m: "ref_map r = m" using ok by (simp_all add: refs_ok_def)
  have wf: "it_wf (rr_slots r)" using inv refs_coreD(1) by (auto simp: refs_inv_def)
  have s: "rs_live (slot_at r (rf_index h))" "rs_generation (slot_at r (rf_index h)) = rf_generation h"
    using a ref_slot_of_iff[of r h] by (auto simp: ref_alive_def)
  note e = poke_effect[OF wf, of h v]
  have "ref_map (ref_poke h v r) k = (m(h \<mapsto> v)) k" for k
    using ref_map_change[OF e(1), of k] s m same_index[of k h] by (auto simp: ref_map_def)
  moreover have "window_ok B C G (ref_poke h v r)" if o: "rr_obs r = Observed"
  proof -
    have w: "window_ok B C G r" using ok o by (simp add: refs_ok_def)
    have "slot_ok Observed (slot_at r (rf_index h))" using inv refs_coreD(6) o by (metis refs_inv_def)
    then have "rs_state (slot_at r (rf_index h)) \<noteq> RefReleased" using s(1) by (auto simp: slot_ok_def)
    moreover have "window_slot B C G (rf_index h) (slot_at r (rf_index h))" using w by (simp add: window_ok_def)
    ultimately show ?thesis
      by (intro window_change[OF w e(1)]) (simp_all add: window_slot_def in_base_def Let_def)
  qed
  ultimately show ?thesis using poke_inv[OF inv s(1), of v] e(7) by (simp add: refs_ok_def fun_eq_iff)
qed

lemma refs_ok_mark:
  assumes ok: "refs_ok P B C G m r" and a: "ref_alive r h"
  shows "refs_ok P B (insert h C) G m (ref_markChanged h r)"
proof -
  have inv: "refs_inv P r" and m: "ref_map r = m" using ok by (simp_all add: refs_ok_def)
  have wf: "it_wf (rr_slots r)" using inv refs_coreD(1) by (auto simp: refs_inv_def)
  have s: "rs_live (slot_at r (rf_index h))" "rs_generation (slot_at r (rf_index h)) = rf_generation h"
    using a ref_slot_of_iff[of r h] by (auto simp: ref_alive_def)
  note e = markChanged_effect[OF wf, of h]
  have "ref_map (ref_markChanged h r) k = m k" for k
    using ref_map_change[OF e(1), of k] s m by (auto simp: ref_map_def)
  moreover have "window_ok B (insert h C) G (ref_markChanged h r)" if o: "rr_obs r = Observed"
  proof -
    have w: "window_ok B C G r" using ok o by (simp add: refs_ok_def)
    have "slot_ok Observed (slot_at r (rf_index h))" using inv refs_coreD(6) o by (metis refs_inv_def)
    then have "rs_state (slot_at r (rf_index h)) \<in> {RefUnchanged, RefChanged, RefAdded}"
      using s(1) by (cases "rs_state (slot_at r (rf_index h))") (auto simp: slot_ok_def)
    moreover have "window_slot B C G (rf_index h) (slot_at r (rf_index h))" using w by (simp add: window_ok_def)
    ultimately show ?thesis
      by (intro window_change[OF w e(1)]) (use s o in \<open>auto simp: window_slot_def in_base_def Let_def\<close>)
  qed
  ultimately show ?thesis using ref_markChanged_inv[OF inv s] e(7) by (simp add: refs_ok_def fun_eq_iff)
qed

lemma refs_ok_release:
  assumes ok: "refs_ok P B C G m r" and z: "rr_reserved r = 0" and rel: "ref_release h r = (True, r')"
  shows "refs_ok P B C (G(h := m h)) (m(h := None)) r'"
proof -
  have inv: "refs_inv P r" and m: "ref_map r = m" using ok by (simp_all add: refs_ok_def)
  have wf: "it_wf (rr_slots r)" using inv refs_coreD(1) by (auto simp: refs_inv_def)
  obtain s where s: "ref_slot_of r h = Some s" using rel by (cases "ref_slot_of r h") (auto simp: ref_release_def)
  have sl: "slot_at r (rf_index h) = s" "rs_live s" "rs_generation s = rf_generation h" using s by (auto simp: ref_slot_of_iff)
  note e = release_effect[OF wf s rel]
  have dead: "\<not> rs_live (released_slot r s)" by (simp add: released_slot_def)
  have "ref_map r' k = (m(h := None)) k" for k
    using ref_map_change[OF e(2), of k] dead sl m same_index[of k h] by (auto simp: ref_map_def)
  moreover have "window_ok B C (G(h := m h)) r'" if o: "rr_obs r = Observed"
  proof -
    have w: "window_ok B C G r" using ok o by (simp add: refs_ok_def)
    have "slot_ok Observed s" using inv refs_coreD(6) o sl(1) by (metis refs_inv_def)
    then have st: "rs_state s \<in> {RefUnchanged, RefChanged, RefAdded}" using sl(2) by (cases "rs_state s") (auto simp: slot_ok_def)
    have ws: "window_slot B C G (rf_index h) s" using w sl(1) by (auto simp: window_ok_def)
    have mh: "m h = Some (rs_value s)" using sl by (simp add: m[symmetric] ref_map_def)
    have hh: "\<lparr>rf_index = rf_index h, rf_generation = rf_generation h\<rparr> = h" by simp
    show ?thesis
      by (rule window_change[OF w e(2)])
        (use st ws sl(2,3) o mh hh in \<open>auto simp: window_slot_def in_base_def Let_def released_slot_def\<close>)
  qed
  ultimately show ?thesis using release_inv[OF inv z s rel] e(8) by (simp add: refs_ok_def fun_eq_iff)
qed

lemma place_ok_iff:
  "(\<exists>r'. ref_place h v r = Inr r') \<longleftrightarrow> rf_generation h \<noteq> 0 \<and> \<not> in_range r (rf_index h)
     \<and> \<not> rs_live (slot_at r (rf_index h)) \<and> rs_state (slot_at r (rf_index h)) = RefUnchanged"
  "ref_place h v r = Inr r' \<Longrightarrow> r' = ref_store h v r"
  by (auto simp: ref_place_def slot_at_missing slot_at_there split: option.splits if_splits)

lemma refs_ok_start:
  assumes ok: "refs_ok P B C G m r" and o: "rr_obs r = ObserverWaiting"
  shows "refs_ok P {} {} (\<lambda>_. None) m (refs_startObservation r)"
proof -
  have inv: "refs_core P r" and m: "ref_map r = m" using ok by (simp_all add: refs_ok_def refs_inv_def)
  note e = start_effect[OF inv o]
  have "ref_map (refs_startObservation r) = m" using e by (simp add: m[symmetric] ref_map_def Let_def fun_eq_iff)
  moreover have "window_ok {} {} (\<lambda>_. None) (refs_startObservation r)"
    using e by (simp add: window_ok_def window_slot_def in_base_def)
  ultimately show ?thesis using e by (simp add: refs_ok_def refs_inv_def listed_def)
qed

lemma refs_ok_reset:
  assumes ok: "refs_ok P B C G m r" and o: "rr_obs r = Observed"
  shows "refs_ok P (dom m) {} (\<lambda>_. None) m (refs_resetObservation r)"
proof -
  have inv: "refs_inv P r" and m: "ref_map r = m" using ok by (simp_all add: refs_ok_def)
  note e = reset_effect[OF inv o]
  have live: "rs_live (reset_value r s) = rs_live s" "rs_generation (reset_value r s) = rs_generation s"
    "rs_state (reset_value r s) = RefUnchanged" for s by (simp_all add: reset_value_def)
  have val: "rs_value (reset_value r (slot_at r i)) = rs_value (slot_at r i)" if "rs_live (slot_at r i)" for i
    using inv that refs_coreD(6)[of P r i] by (auto simp: refs_inv_def reset_value_def slot_ok_def)
  have "ref_map (refs_resetObservation r) = m"
    using live val by (auto simp: m[symmetric] ref_map_def Let_def e(3) fun_eq_iff)
  moreover have "k \<in> dom m \<longleftrightarrow> k = handle_at r (rf_index k) \<and> rs_live (slot_at r (rf_index k))" for k
    unfolding m[symmetric] domIff using ref_map_some[of r k] by auto
  then have "window_ok (dom m) {} (\<lambda>_. None) (refs_resetObservation r)"
    by (auto simp: window_ok_def window_slot_def Let_def in_base_def e(3) live handle_at_def)
  ultimately show ?thesis using e(1,2) by (simp add: refs_ok_def)
qed

lemma new_slot_at [simp]: "slot_at (new_refs z t name a b tr) = (\<lambda>_. zero_ref_slot z)"
  by (simp add: slot_at_def new_refs_def fun_eq_iff)

lemma new_refs_obs [simp]: "rr_obs (new_refs z t name a b tr) = Unobserved"
  by (simp add: new_refs_def)

lemma new_refs_inv: "a \<le> b \<Longrightarrow> refs_inv {} (new_refs z t name a b tr)"
  by (auto simp: refs_inv_def refs_core_def listed_def slot_ok_def idle_def in_range_def next_fresh_def avail_def
      word_le_nat_alt min_def) (simp_all add: new_refs_def word_le_nat_alt)

lemma refs_ok_same:
  assumes "refs_ok P B C G m r" and "refs_inv P' r'" and "slot_at r' = slot_at r" and "rr_obs r' = Observed \<Longrightarrow> rr_obs r = Observed"
  shows "refs_ok P' B C G m r'"
  using assms ref_map_same[OF assms(3)] window_same[OF assms(3)] by (auto simp: refs_ok_def)

lemma observe_inv: "refs_inv P r \<Longrightarrow> refs_inv P (observe_refs r)"
  by (auto simp: observe_refs_def refs_inv_def refs_core_def listed_def in_range_def idle_def next_handle_def[abs_def]
      avail_def next_fresh_def slot_ok_def handle_at_def[abs_def])

lemma ref_reserve_inv:
  assumes "refs_inv P r" and "ref_reserve r = (h, r')"
  shows "refs_inv (if h = no_ref then P else insert h P) r'" "slot_at r' = slot_at r" "rr_obs r' = rr_obs r"
proof -
  have c: "refs_core P r" using assms(1) by (simp add: refs_inv_def)
  note r' = ref_reserve_cases(1)[OF c assms(2)]
  show sl: "slot_at r' = slot_at r" "rr_obs r' = rr_obs r" by (simp_all add: r')
  have "listed r' = listed r" by (simp add: listed_def sl handle_at_def[abs_def] r')
  then show "refs_inv (if h = no_ref then P else insert h P) r'"
    using assms(1) reserve_core[OF c assms(2)] by (simp add: refs_inv_def)
qed

lemma rekey_inv: "refs_inv P r \<Longrightarrow> refs_inv P (r\<lparr>rr_keys := keys\<rparr>)"
  by (simp add: refs_inv_def listed_def handle_at_def[abs_def])

lemma refs_reach_ok: "refs_reach P B C G m r \<Longrightarrow> refs_ok P B C G m r"
proof (induction rule: refs_reach.induct)
  case (created a b z t name tr)
  show ?case using new_refs_inv[OF created] by (simp add: refs_ok_def ref_map_def fun_eq_iff)
next
  case (reserved P B C G m r h r')
  have inv: "refs_inv P r" using reserved.IH by (simp add: refs_ok_def)
  note r' = ref_reserve_inv[OF inv reserved.hyps(2)]
  show ?case by (rule refs_ok_same[OF reserved.IH r'(1,2)]) (simp add: r'(3))
next
  case (settled P B C G m r)
  have inv: "refs_inv P r" using settled.IH by (simp add: refs_ok_def)
  show ?case by (rule refs_ok_same[OF settled.IH settle_inv[OF inv]]) simp_all
next
  case (stored P B C G m r h v)
  have c: "refs_core P r" using stored.IH by (simp add: refs_ok_def refs_inv_def)
  show ?case
    by (rule refs_ok_store[OF stored.IH]) (use pool_handle[OF c, of h] stored.hyps(2) in \<open>auto simp: idle_def\<close>)
next
  case (placed P B C G m r h v r')
  have c: "refs_core P r" using placed.IH by (simp add: refs_ok_def refs_inv_def)
  have p: "rf_generation h \<noteq> 0" "\<not> in_range r (rf_index h)" "\<not> rs_live (slot_at r (rf_index h))"
    "rs_state (slot_at r (rf_index h)) = RefUnchanged" "r' = ref_store h v r"
    using place_ok_iff[of h v r] placed.hyps(2) by auto
  have P: "P - {h} = P" using pool_handle(1)[OF c, of h] p(2) by (auto simp: idle_def)
  have "refs_ok (P - {h}) B C G (m(h \<mapsto> v)) r'"
    unfolding p(5) by (rule refs_ok_store[OF placed.IH p(3,4,1)]) (use p(2) in simp)
  then show ?case unfolding P .
next
  case (poked P B C G m r h v)
  show ?case by (rule refs_ok_poke[OF poked.IH poked.hyps(2)])
next
  case (was_set P B C G m r h v r')
  then have a: "ref_alive r h" and r': "r' = ref_markChanged h (ref_poke h v r)"
    by (auto simp: ref_set_def ref_alive_def split: option.splits)
  note p = refs_ok_poke[OF was_set.IH a, of v]
  have "ref_map (ref_poke h v r) h = Some v" using p by (simp add: refs_ok_def)
  then have "ref_alive (ref_poke h v r) h" unfolding ref_get_map[symmetric] by (auto simp: ref_get_def ref_alive_def)
  then show ?case unfolding r' by (rule refs_ok_mark[OF p])
next
  case (released P B C G m r h r')
  then show ?case using refs_ok_release by blast
next
  case (observed P B C G m r)
  have inv: "refs_inv P r" using observed.IH by (simp add: refs_ok_def)
  show ?case
    by (rule refs_ok_same[OF observed.IH observe_inv[OF inv]]) (simp_all add: observe_refs_def split: if_splits)
next
  case (started P B C G m r)
  then show ?case using refs_ok_start by blast
next
  case (reset P B C G m r)
  then show ?case using refs_ok_reset by blast
next
  case (shrunk P B C G m r)
  have inv: "refs_inv P r" using shrunk.IH by (simp add: refs_ok_def)
  then have "it_wf (rr_slots r)" using refs_coreD(1) by (auto simp: refs_inv_def)
  then show ?case
    by (intro refs_ok_same[OF shrunk.IH shrink_refs_inv[OF inv]] shrink_slot_at) (simp_all add: refs_shrink_def)
next
  case (rekeyed P B C G m r keys)
  have inv: "refs_inv P r" using rekeyed.IH by (simp add: refs_ok_def)
  show ?case by (rule refs_ok_same[OF rekeyed.IH rekey_inv[OF inv]]) simp_all
qed

section \<open>The composite operations as histories\<close>

lemma new_reach:
  assumes r: "refs_reach P B C G m r" and new: "ref_new v r = (h, r')"
  shows "refs_reach P B C G (if h = no_ref then m else m(h \<mapsto> v)) r'"
proof -
  obtain r1 where rv: "ref_reserve r = (h, r1)" using new by (auto simp: ref_new_def Let_def split: prod.splits)
  have c: "refs_core P r" using refs_reach_ok[OF r] by (simp add: refs_ok_def refs_inv_def)
  note s = refs_reach.settled[OF refs_reach.reserved[OF r rv]]
  show ?thesis
  proof (cases "h = no_ref")
    case True
    then show ?thesis using s new rv by (simp add: ref_new_def)
  next
    case False
    then have "insert h P - {h} = P" using reserve_core(1)[OF c rv] by blast
    then show ?thesis using refs_reach.stored[OF s, of h v] False new rv by (simp add: ref_new_def)
  qed
qed

lemma Release_reach:
  assumes "refs_reach P B C G m r" and "Refs_Release h r = (True, r')"
  shows "refs_reach P B C (G(h := m h)) (m(h := None)) r'"
  using refs_reach.released[OF refs_reach.settled[OF assms(1)]] assms(2) by (simp add: Refs_Release_def)

section \<open>Properties\<close>

lemma live_handles:
  assumes "refs_ok P B C G m r"
  shows "m h = Some v \<longleftrightarrow> handle_at r (rf_index h) = h \<and> rs_live (slot_at r (rf_index h)) \<and> rs_value (slot_at r (rf_index h)) = v"
  using assms ref_map_some[of r h v] by (simp add: refs_ok_def)

lemma refs_all_sorted:
  assumes "refs_ok P B C G m r"
  shows "sorted_wrt (<) (map (rf_index \<circ> fst) (refs_all r))"
proof -
  have c: "refs_core P r" using assms by (simp add: refs_ok_def refs_inv_def)
  have "map (rf_index \<circ> fst) (refs_all r) = filter (\<lambda>i. rs_live (slot_at r i)) (table_indices (rr_slots r))"
    by (simp add: refs_all_def o_def)
  then show ?thesis using table_indices_sorted[OF refs_coreD(1,2)[OF c]] by (simp add: sorted_wrt_filter)
qed

lemma refs_all_map:
  assumes ok: "refs_ok P B C G m r"
  shows "map_of (refs_all r) = m"
proof -
  have c: "refs_core P r" using ok by (simp add: refs_ok_def refs_inv_def)
  have mem: "(h, v) \<in> set (refs_all r) \<longleftrightarrow> m h = Some v" for h v
  proof -
    have "(h, v) \<in> set (refs_all r) \<longleftrightarrow> (\<exists>i. rs_live (slot_at r i) \<and> h = handle_at r i \<and> v = rs_value (slot_at r i))"
      using live_walked[OF c] by (auto simp: refs_all_def)
    also have "\<dots> \<longleftrightarrow> m h = Some v" unfolding live_handles[OF ok] by auto
    finally show ?thesis .
  qed
  have "distinct (map (rf_index \<circ> fst) (refs_all r))" using refs_all_sorted[OF ok] strict_sorted_iff by blast
  then have "distinct (map fst (refs_all r))" by (metis distinct_map map_map)
  then have "map_of (refs_all r) h = Some v \<longleftrightarrow> m h = Some v" for h v using mem by (metis map_of_eq_Some_iff)
  then show ?thesis by (metis ext option.exhaust)
qed

text \<open>
  C12: Whatever is reserved, stored, placed, set, released, observed, reset and shrunk, refs hold exactly
  the map from handles their operations make: a handle reads its value and no other, a handle released,
  never stored or zero reads nothing, and \<open>All\<close> walks every live ref with its value once, by ascending
  index; \<open>liveRefs\<close> counts them.
\<close>

theorem refs_refine_map:
  assumes "refs_reach P B C G m r"
  shows "(\<forall>h. ref_get r h = m h) \<and> (\<forall>h. ref_alive r h \<longleftrightarrow> m h \<noteq> None) \<and> m no_ref = None
    \<and> map_of (refs_all r) = m \<and> sorted_wrt (<) (map (rf_index \<circ> fst) (refs_all r)) \<and> rr_live r = card (dom m)"
proof -
  have ok: "refs_ok P B C G m r" by (rule refs_reach_ok[OF assms])
  then have c: "refs_core P r" and m: "ref_map r = m" by (simp_all add: refs_ok_def refs_inv_def)
  have get: "ref_get r h = m h" for h using ref_get_map[of r h] m by simp
  moreover have "ref_alive r h \<longleftrightarrow> m h \<noteq> None" for h by (simp add: get[of h, symmetric] ref_get_def ref_alive_def)
  moreover have "m no_ref = None"
    using refs_coreD(6)[OF c, of 0] by (auto simp: m[symmetric] ref_map_def Let_def no_ref_def slot_ok_def)
  moreover have "dom m = handle_at r ` {i. rs_live (slot_at r i)}" using live_handles[OF ok] by (auto simp: image_iff) metis+
  then have "rr_live r = card (dom m)"
    using refs_coreD(11)[OF c] by (simp add: card_image inj_on_def handle_at_def)
  ultimately show ?thesis using refs_all_map[OF ok] refs_all_sorted[OF ok] by simp
qed

text \<open>A small history for the concrete cases: observed refs of numbers, in a range of three, take one.\<close>

definition sample_refs :: "(nat, string) refs" where
  "sample_refs = refs_startObservation (observe_refs (new_refs 0 ''Mesh'' ''meshes'' 1 3 False))"

definition sample_handle :: ref where
  "sample_handle = \<lparr>rf_index = 1, rf_generation = 1\<rparr>"

definition sample_held :: "(nat, string) refs" where
  "sample_held = snd (ref_new 5 sample_refs)"

lemma sample_refs_fields:
  "rr_obs sample_refs = Observed" "rr_reserved sample_refs = 0" "rr_free sample_refs = []" "rr_fresh sample_refs = 1"
  "rr_first sample_refs = 1" "rr_last sample_refs = 3"
  by (simp_all add: sample_refs_def refs_startObservation_def observe_refs_def new_refs_def table_indices_def empty_table_def)

lemma sample_refs_new: "ref_new 5 sample_refs = (sample_handle, sample_held)"
  by (simp add: sample_held_def prod_eq_iff ref_new_def ref_reserve_def Let_def sample_refs_fields sample_handle_def)

lemma sample_held_fields:
  "rr_obs sample_held = Observed" "rr_first sample_held = 1" "rr_last sample_held = 3"
  "rr_reserved sample_held = 0" "rr_free sample_held = []" "rr_fresh sample_held = 2"
  by (simp_all add: sample_held_def ref_new_def ref_reserve_def ref_settle_def ref_store_def upd_ref_slot_def Let_def
      sample_refs_fields no_ref_def)

lemma sample_held_reach: "refs_reach {} {} {} (\<lambda>_. None) [sample_handle \<mapsto> 5] sample_held"
proof -
  have "refs_reach {} {} {} (\<lambda>_. None) (\<lambda>_. None) (observe_refs (new_refs 0 ''Mesh'' ''meshes'' 1 3 False) :: (nat, string) refs)"
    by (rule refs_reach.observed[OF refs_reach.created]) simp
  then have "refs_reach {} {} {} (\<lambda>_. None) (\<lambda>_. None) sample_refs"
    unfolding sample_refs_def by (rule refs_reach.started) (simp add: observe_refs_def new_refs_def)
  from new_reach[OF this sample_refs_new] show ?thesis by (simp add: sample_handle_def no_ref_def)
qed

theorem refs_refine_map_witness:
  "refs_reach {} {} {} (\<lambda>_. None) [sample_handle \<mapsto> 5] sample_held \<and> ref_get sample_held sample_handle = Some 5
    \<and> ref_get sample_held \<lparr>rf_index = 1, rf_generation = 2\<rparr> = None \<and> rr_live sample_held = 1"
  using refs_refine_map[OF sample_held_reach] sample_held_reach by (simp add: sample_handle_def)

lemma map_filter_distinct:
  assumes "distinct xs" and "\<And>x y z. f x = Some y \<Longrightarrow> g (fst y) = x"
  shows "distinct (map fst (List.map_filter f xs))"
proof -
  have "map (g \<circ> fst) (List.map_filter f xs) = filter (\<lambda>x. f x \<noteq> None) xs"
    using assms(2) by (induction xs) (auto simp: List.map_filter_def)
  then have "distinct (map g (map fst (List.map_filter f xs)))" using assms(1) by simp
  then show ?thesis by (metis distinct_map)
qed

text \<open>What a slot's state says of the ref in it.\<close>

lemma delta_cases:
  assumes ok: "refs_ok P B C G m r" and o: "rr_obs r = Observed"
  shows "handle_at r (rf_index h) = h \<and> ref_delta (rs_state (slot_at r (rf_index h))) = Some d
      \<and> rs_value (slot_at r (rf_index h)) = v \<longleftrightarrow>
    d = DeltaAdded \<and> m h = Some v \<and> h \<notin> B \<or> d = DeltaChanged \<and> m h = Some v \<and> h \<in> B \<and> h \<in> C
    \<or> d = DeltaReleased \<and> h \<in> B \<and> m h = None \<and> G h = Some v"
proof -
  let ?s = "slot_at r (rf_index h)"
  have ws: "window_slot B C G (rf_index h) ?s" and sok: "slot_ok Observed ?s"
    using ok o refs_coreD(6)[of P r] by (auto simp: refs_ok_def window_ok_def refs_inv_def)
  have hd: "handle_at r (rf_index h) = \<lparr>rf_index = rf_index h, rf_generation = rs_generation ?s\<rparr>" by (simp add: handle_at_def)
  have mv: "m h = Some u \<longleftrightarrow> handle_at r (rf_index h) = h \<and> rs_live ?s \<and> rs_value ?s = u" for u by (rule live_handles[OF ok])
  then have mn: "m h = None \<longleftrightarrow> \<not> (handle_at r (rf_index h) = h \<and> rs_live ?s)" by (cases "m h") auto
  have b: "h \<in> B \<longleftrightarrow> handle_at r (rf_index h) = h \<and> in_base ?s"
    using ws unfolding hd[symmetric] window_slot_def Let_def by auto
  have c: "handle_at r (rf_index h) = h \<Longrightarrow> (rs_state ?s = RefChanged \<longrightarrow> h \<in> C) \<and> (rs_state ?s = RefUnchanged \<and> rs_live ?s \<longrightarrow> h \<notin> C)
      \<and> (rs_state ?s = RefReleased \<longrightarrow> G h = Some (rs_value ?s))"
    using ws unfolding hd[symmetric] window_slot_def Let_def by auto
  show ?thesis
    by (cases "rs_state ?s") (use b c mv mn sok in \<open>auto simp: ref_delta_def in_base_def slot_ok_def\<close>)
qed

text \<open>
  C13: The deltas of a window are exactly what happened to the refs in it: added, those alive now that were
  not at its start; changed, those alive through it that were set; released, those alive at its start
  that are gone, with the value they last held.  Each is walked once, a ref added and released within
  the window is not among them, and every slot the walk reads exists.
\<close>

theorem ref_deltas_exact:
  assumes "refs_reach P B C G m r" and "rr_obs r = Observed"
  shows "set (DeltaRefs_All r)
      = {(h, DeltaAdded, v) |h v. m h = Some v \<and> h \<notin> B} \<union> {(h, DeltaChanged, v) |h v. m h = Some v \<and> h \<in> B \<and> h \<in> C}
        \<union> {(h, DeltaReleased, v) |h v. h \<in> B \<and> m h = None \<and> G h = Some v}
    \<and> distinct (map fst (DeltaRefs_All r)) \<and> (\<forall>i \<in> set (walked_slots r). it_at (rr_slots r) i \<noteq> None)"
proof -
  have ok: "refs_ok P B C G m r" by (rule refs_reach_ok[OF assms(1)])
  then have inv: "refs_inv P r" and w: "window_slot B C G i (slot_at r i)" for i
    using assms(2) by (simp_all add: refs_ok_def window_ok_def)
  have all: "DeltaRefs_All r = List.map_filter (\<lambda>i. map_option (\<lambda>d. (handle_at r i, d, rs_value (slot_at r i)))
      (ref_delta (rs_state (slot_at r i)))) (walked_slots r)"
    using assms(2) by (simp add: DeltaRefs_All_def)
  have mem: "(h, d, v) \<in> set (DeltaRefs_All r) \<longleftrightarrow> handle_at r (rf_index h) = h
      \<and> ref_delta (rs_state (slot_at r (rf_index h))) = Some d \<and> rs_value (slot_at r (rf_index h)) = v" for h d v
  proof -
    have "i \<in> set (walked_slots r)" if "ref_delta (rs_state (slot_at r i)) = Some d" for i
      using walked_all[OF inv, of i] that by (auto simp: ref_delta_def split: ref_state.splits)
    moreover have "(h, d, v) \<in> set (DeltaRefs_All r) \<longleftrightarrow> (\<exists>i \<in> set (walked_slots r).
        ref_delta (rs_state (slot_at r i)) = Some d \<and> handle_at r i = h \<and> rs_value (slot_at r i) = v)"
      unfolding all List.map_filter_def by force
    ultimately show ?thesis by auto
  qed
  let ?A = "{(h, DeltaAdded, v) |h v. m h = Some v \<and> h \<notin> B}" and ?R = "{(h, DeltaReleased, v) |h v. h \<in> B \<and> m h = None \<and> G h = Some v}"
  let ?C = "{(h, DeltaChanged, v) |h v. m h = Some v \<and> h \<in> B \<and> h \<in> C}"
  have eq: "set (DeltaRefs_All r) = ?A \<union> ?C \<union> ?R"
  proof (rule set_eqI)
    fix x :: "ref \<times> delta \<times> 'a"
    obtain h d v where x: "x = (h, d, v)" by (cases x)
    show "x \<in> set (DeltaRefs_All r) \<longleftrightarrow> x \<in> ?A \<union> ?C \<union> ?R"
      unfolding x mem delta_cases[OF ok assms(2)] by blast
  qed
  have dist: "distinct (map fst (DeltaRefs_All r))"
    unfolding all by (rule map_filter_distinct[where g = rf_index, OF walked_sane(1)[OF inv]])
      (auto simp del: handle_at_index simp: handle_at_def)
  show ?thesis by (intro conjI ballI eq dist walked_sane(2)[OF inv])
qed

theorem ref_deltas_exact_witness:
  "refs_reach {} {} {} (\<lambda>_. None) [sample_handle \<mapsto> 5] sample_held \<and> rr_obs sample_held = Observed
    \<and> set (DeltaRefs_All sample_held) = {(sample_handle, DeltaAdded, 5)}"
  using ref_deltas_exact[OF sample_held_reach sample_held_fields(1)] sample_held_reach sample_held_fields(1) by auto

lemma all_taken:
  assumes ok: "refs_ok P B C G m r" and rv: "ref_reserve r = (h, r1)" and h: "h = no_ref" and i: "in_range r i"
  shows "(\<exists>k. rf_index k = i \<and> (m k \<noteq> None \<or> k \<in> P)) \<or> rs_state (slot_at r i) \<in> {RefReleased, RefDiscarded}"
proof -
  have c: "refs_core P r" using ok by (simp add: refs_ok_def refs_inv_def)
  have av: "avail r = []" "unat i < next_fresh r"
    using reserve_core(2)[OF c rv h] i by (auto simp: in_range_def word_le_nat_alt)
  consider "rs_live (slot_at r i)" | "\<not> rs_live (slot_at r i)" "rs_state (slot_at r i) = RefUnchanged"
    | "\<not> rs_live (slot_at r i)" "rs_state (slot_at r i) \<noteq> RefUnchanged" by blast
  then show ?thesis
  proof cases
    case 1
    then have "m (handle_at r i) \<noteq> None" using live_handles[OF ok, of "handle_at r i"] by simp
    then show ?thesis by (intro disjI1 exI[of _ "handle_at r i"]) simp
  next
    case 2
    then have "next_handle r i \<in> P" using refs_coreD(10)[OF c] av i by (auto simp: idle_def)
    then show ?thesis by (intro disjI1 exI[of _ "next_handle r i"]) simp
  next
    case 3
    then show ?thesis using refs_coreD(6)[OF c, of i] by (cases "rs_state (slot_at r i)") (auto simp: slot_ok_def)
  qed
qed

lemma reserved_is_free:
  assumes ok: "refs_ok P B C G m r" and rv: "ref_reserve r = (h, r1)" and h: "h \<noteq> no_ref" and k: "rf_index k = rf_index h"
  shows "m k = None \<and> k \<notin> P"
proof -
  have c: "refs_core P r" and m: "ref_map r = m" using ok by (simp_all add: refs_ok_def refs_inv_def)
  note y = reserve_core(1)[OF c rv h]
  have c1: "refs_core (insert h P) r1" using y by simp
  have "k = h" if "k \<in> insert h P" using pool_handle(2)[OF c1, of k] pool_handle(2)[OF c1, of h] that k by auto
  then have "k \<notin> P" using y by blast
  then show ?thesis using ref_map_dead[of r "rf_index h" k] y k m by simp
qed

text \<open>
  C14: A new ref's handle is one nobody has: no live ref's, none reserved, none of the window's start, of the
  allocation range, with a generation from 1.  The zero ref is answered exactly when every index of
  the range is taken: by a live ref, by a reservation, or until the window ends by a ref released in it.
\<close>

theorem refs_handed_out:
  assumes "refs_reach P B C G m r" and "ref_new v r = (h, r')"
  shows "refs_reach P B C G (if h = no_ref then m else m(h \<mapsto> v)) r'
    \<and> (h \<noteq> no_ref \<longrightarrow> m h = None \<and> h \<notin> P \<and> (rr_obs r = Observed \<longrightarrow> h \<notin> B)
        \<and> rr_first r \<le> rf_index h \<and> rf_index h \<le> rr_last r \<and> rf_generation h \<noteq> 0)
    \<and> (h = no_ref \<longleftrightarrow> (\<forall>i. rr_first r \<le> i \<and> i \<le> rr_last r \<longrightarrow>
        (\<exists>k. rf_index k = i \<and> (m k \<noteq> None \<or> k \<in> P)) \<or> rs_state (slot_at r i) \<in> {RefReleased, RefDiscarded}))"
proof -
  have ok: "refs_ok P B C G m r" by (rule refs_reach_ok[OF assms(1)])
  then have c: "refs_core P r" and m: "ref_map r = m" by (simp_all add: refs_ok_def refs_inv_def)
  obtain r1 where rv: "ref_reserve r = (h, r1)" using assms(2) by (auto simp: ref_new_def Let_def split: prod.splits)
  note yes = reserve_core(1)[OF c rv] and free = reserved_is_free[OF ok rv] and taken = all_taken[OF ok rv]
  have untaken: "rs_state (slot_at r (rf_index h)) \<notin> {RefReleased, RefDiscarded}" "in_range r (rf_index h)"
    if "h \<noteq> no_ref" using yes[OF that] by simp_all
  have "h \<notin> B" if h: "h \<noteq> no_ref" and o: "rr_obs r = Observed"
  proof -
    have "window_slot B C G (rf_index h) (slot_at r (rf_index h))" using ok o by (simp add: refs_ok_def window_ok_def)
    then show ?thesis using yes[OF h] by (auto simp: window_slot_def Let_def in_base_def)
  qed
  moreover have "h = no_ref \<longleftrightarrow> (\<forall>i. in_range r i \<longrightarrow>
      (\<exists>k. rf_index k = i \<and> (m k \<noteq> None \<or> k \<in> P)) \<or> rs_state (slot_at r i) \<in> {RefReleased, RefDiscarded})"
  proof
    assume "\<forall>i. in_range r i \<longrightarrow>
      (\<exists>k. rf_index k = i \<and> (m k \<noteq> None \<or> k \<in> P)) \<or> rs_state (slot_at r i) \<in> {RefReleased, RefDiscarded}"
    then show "h = no_ref" using free untaken by metis
  qed (use taken in simp)
  ultimately show ?thesis
    using new_reach[OF assms] free yes untaken(2) unfolding in_range_def by blast
qed


theorem refs_handed_out_witness:
  "refs_reach {} {} {} (\<lambda>_. None) [sample_handle \<mapsto> 5] sample_held
    \<and> (let (h, r) = ref_new 7 sample_held in h \<noteq> no_ref \<and> h \<noteq> sample_handle \<and> rf_index h \<le> 3
        \<and> refs_reach {} {} {} (\<lambda>_. None) [sample_handle \<mapsto> 5, h \<mapsto> 7] r)"
proof -
  obtain h r where n: "ref_new 7 sample_held = (h, r)" by fastforce
  note t = refs_handed_out[OF sample_held_reach n, unfolded sample_held_fields]
  have "h = \<lparr>rf_index = 2, rf_generation = 1\<rparr>"
    using arg_cong[OF n, of fst] by (simp add: ref_new_def ref_reserve_def Let_def sample_held_fields)
  then have "h \<noteq> no_ref" "h \<noteq> sample_handle" by (simp_all add: no_ref_def sample_handle_def)
  then show ?thesis using t n sample_held_reach by (auto simp: Let_def)
qed

end
