(* ===== verification/Ecs_Keyed_Refs.thy ===== *)
theory Ecs_Keyed_Refs
  imports Ecs_Ref_Laws
begin

text \<open>
  \<open>ecs/keyedrefs.go\<close>: refs found by the key of their value.  \<open>key\<close> is the value type's method \<open>Key\<close>; the
  key map is a map shared by the refs and every handle to them, so it is the refs' own, with the name
  of the key type.
\<close>

section \<open>Keyed refs\<close>

definition Text_Key :: "string \<Rightarrow> string" where
  "Text_Key t = t"

datatype refs_panic =
    NoWorld | RefsTwice | RefsNameTwice | EmptyRefsRange | NoRefs | RefsAreKeyed | RefsNotKeyedBy

definition keysOf :: "string \<Rightarrow> ('v, 'k) refs \<Rightarrow> refs_panic + ('k \<rightharpoonup> ref)" where
  "keysOf kt r =
     (case rr_keys r of
        None \<Rightarrow> Inl RefsNotKeyedBy | Some (t, keys) \<Rightarrow> if t \<noteq> kt then Inl RefsNotKeyedBy else Inr keys)"

definition key_map :: "('v, 'k) refs \<Rightarrow> 'k \<rightharpoonup> ref" where
  "key_map r = (case rr_keys r of None \<Rightarrow> (\<lambda>_. None) | Some (t, keys) \<Rightarrow> keys)"

definition set_keys :: "('k \<rightharpoonup> ref) \<Rightarrow> ('v, 'k) refs \<Rightarrow> ('v, 'k) refs" where
  "set_keys keys r = r\<lparr>rr_keys := map_option (\<lambda>(t, _). (t, keys)) (rr_keys r)\<rparr>"

definition keyed_Find :: "'k \<Rightarrow> ('v, 'k) refs \<Rightarrow> ref option" where
  "keyed_Find k r = key_map r k"

definition keyed_Put :: "('v \<Rightarrow> 'k) \<Rightarrow> 'v \<Rightarrow> ('v, 'k) refs \<Rightarrow> ref \<times> ('v, 'k) refs" where
  "keyed_Put key v r =
     (case key_map r (key v) of
        Some h \<Rightarrow> (h, r)
      | None \<Rightarrow> (case ref_new v r of (h, r1) \<Rightarrow>
          (h, if h \<noteq> no_ref then set_keys ((key_map r1)(key v \<mapsto> h)) r1 else r1)))"

datatype put_error = KeyHasRef | NotPlaced ref_place_error

definition keyed_PutAt :: "('v \<Rightarrow> 'k) \<Rightarrow> ref \<Rightarrow> 'v \<Rightarrow> ('v, 'k) refs \<Rightarrow> put_error + ('v, 'k) refs" where
  "keyed_PutAt key h v r =
     (if key_map r (key v) \<noteq> None then Inl KeyHasRef
      else case ref_place h v r of
             Inl err \<Rightarrow> Inl (NotPlaced err) | Inr r1 \<Rightarrow> Inr (set_keys ((key_map r1)(key v \<mapsto> h)) r1))"

definition updateKeyed :: "('v \<Rightarrow> 'k) \<Rightarrow> 'v \<Rightarrow> ('v, 'k) refs \<Rightarrow> bool \<times> ('v, 'k) refs" where
  "updateKeyed key v r =
     (case key_map r (key v) of
        None \<Rightarrow> (False, r)
      | Some h \<Rightarrow> (case ref_slot_of r h of
                     None \<Rightarrow> (False, r) | Some _ \<Rightarrow> (True, ref_markChanged h (ref_poke h v r))))"

definition releaseKeyed :: "('v \<Rightarrow> 'k) \<Rightarrow> ref \<Rightarrow> ('v, 'k) refs \<Rightarrow> bool \<times> ('v, 'k) refs" where
  "releaseKeyed key h r =
     (let r1 = ref_settle r
      in case ref_slot_of r1 h of
           None \<Rightarrow> (False, r1)
         | Some s \<Rightarrow> ref_release h (set_keys ((key_map r1)(key (rs_value s) := None)) r1))"

definition ReleaseKey :: "('v \<Rightarrow> 'k) \<Rightarrow> 'k \<Rightarrow> ('v, 'k) refs \<Rightarrow> bool \<times> ('v, 'k) refs" where
  "ReleaseKey key k r = (case key_map r k of None \<Rightarrow> (False, r) | Some h \<Rightarrow> releaseKeyed key h r)"

section \<open>Histories\<close>

text \<open>
  The histories of keyed refs, as of plain ones.  A value written through a pointer keeps its key, as
  \<open>Get\<close> asks; nothing stays reserved, for a \<open>Put\<close> is never recorded.
\<close>

inductive keyed_reach ::
  "('v \<Rightarrow> 'k) \<Rightarrow> ref set \<Rightarrow> ref set \<Rightarrow> (ref \<Rightarrow> 'v option) \<Rightarrow> (ref \<Rightarrow> 'v option) \<Rightarrow> ('v, 'k) refs \<Rightarrow> bool"
  for key :: "'v \<Rightarrow> 'k" where
  created: "first_index \<le> last_index \<Longrightarrow> keyed_reach key {} {} (\<lambda>_. None) (\<lambda>_. None)
    ((new_refs z t name first_index last_index transient)\<lparr>rr_keys := Some (kt, \<lambda>_. None)\<rparr>)"
| put: "keyed_reach key B C G m r \<Longrightarrow> keyed_Find (key v) r = None \<Longrightarrow> keyed_Put key v r = (h, r')
    \<Longrightarrow> keyed_reach key B C G (if h = no_ref then m else m(h \<mapsto> v)) r'"
| put_at: "keyed_reach key B C G m r \<Longrightarrow> keyed_PutAt key h v r = Inr r' \<Longrightarrow> keyed_reach key B C G (m(h \<mapsto> v)) r'"
| updated: "keyed_reach key B C G m r \<Longrightarrow> keyed_Find (key v) r = Some h \<Longrightarrow> updateKeyed key v r = (True, r')
    \<Longrightarrow> keyed_reach key B (insert h C) G (m(h \<mapsto> v)) r'"
| released: "keyed_reach key B C G m r \<Longrightarrow> releaseKeyed key h r = (True, r')
    \<Longrightarrow> keyed_reach key B C (G(h := m h)) (m(h := None)) r'"
| written: "keyed_reach key B C G m r \<Longrightarrow> ref_get r h = Some u \<Longrightarrow> key v = key u
    \<Longrightarrow> keyed_reach key B C G (m(h \<mapsto> v)) (ref_poke h v r)"
| observed: "keyed_reach key B C G m r \<Longrightarrow> keyed_reach key B C G m (observe_refs r)"
| started: "keyed_reach key B C G m r \<Longrightarrow> rr_obs r = ObserverWaiting
    \<Longrightarrow> keyed_reach key {} {} (\<lambda>_. None) m (refs_startObservation r)"
| reset: "keyed_reach key B C G m r \<Longrightarrow> rr_obs r = Observed
    \<Longrightarrow> keyed_reach key (dom m) {} (\<lambda>_. None) m (refs_resetObservation r)"
| shrunk: "keyed_reach key B C G m r \<Longrightarrow> keyed_reach key B C G m (refs_shrink r)"

definition keys_exact :: "('v \<Rightarrow> 'k) \<Rightarrow> (ref \<Rightarrow> 'v option) \<Rightarrow> ('v, 'k) refs \<Rightarrow> bool" where
  "keys_exact key m r \<longleftrightarrow> rr_keys r \<noteq> None \<and> (\<forall>k h. key_map r k = Some h \<longleftrightarrow> (\<exists>v. m h = Some v \<and> key v = k))"

definition keyed_ok ::
  "('v \<Rightarrow> 'k) \<Rightarrow> ref set \<Rightarrow> ref set \<Rightarrow> (ref \<Rightarrow> 'v option) \<Rightarrow> (ref \<Rightarrow> 'v option) \<Rightarrow> ('v, 'k) refs \<Rightarrow> bool" where
  "keyed_ok key B C G m r \<longleftrightarrow> refs_reach {} B C G m r \<and> keys_exact key m r"

lemma set_keys_map: "rr_keys r \<noteq> None \<Longrightarrow> key_map (set_keys keys r) = keys" "rr_keys (set_keys keys r) = None \<longleftrightarrow> rr_keys r = None"
  by (auto simp: key_map_def set_keys_def)

lemma set_keys_reach: "refs_reach P B C G m r \<Longrightarrow> refs_reach P B C G m (set_keys keys r)"
  by (simp add: set_keys_def refs_reach.rekeyed)

lemma keys_exact_keep: "keys_exact key m r \<Longrightarrow> rr_keys r' = rr_keys r \<Longrightarrow> keys_exact key m r'"
  by (simp add: keys_exact_def key_map_def)

lemma keys_found: "keys_exact key m r \<Longrightarrow> m h = Some v \<Longrightarrow> key_map r (key v) = Some h"
  by (auto simp: keys_exact_def)

text \<open>The key map follows the map of the refs: a key gained with its ref, and one lost.\<close>

lemma keys_exact_gain:
  assumes k: "keys_exact key m r" and none: "key_map r (key v) = None" and new: "m h = None" and r': "rr_keys r' = rr_keys r"
  shows "keys_exact key (m(h \<mapsto> v)) (set_keys ((key_map r')(key v \<mapsto> h)) r')"
proof -
  have "key_map r' = key_map r" "rr_keys r' \<noteq> None" using k r' by (simp_all add: key_map_def keys_exact_def)
  moreover have "key u \<noteq> key v" if "m h' = Some u" for h' u using keys_found[OF k that] none by auto
  ultimately show ?thesis using k none new by (auto simp: keys_exact_def set_keys_map)
qed

lemma keys_exact_lose:
  assumes k: "keys_exact key m r" and old: "m h = Some u" and r': "rr_keys r' = rr_keys r"
  shows "keys_exact key (m(h := None)) (set_keys ((key_map r')(key u := None)) r')"
proof -
  have e: "key_map r' = key_map r" "rr_keys r' \<noteq> None" using k r' by (simp_all add: key_map_def keys_exact_def)
  have only: "h' = h" if "m h' = Some u'" "key u' = key u" for h' u'
    using keys_found[OF k old] keys_found[OF k that(1)] that(2) by simp
  have "((key_map r')(key u := None)) q = Some h' \<longleftrightarrow> (\<exists>v. (m(h := None)) h' = Some v \<and> key v = q)" for q h'
  proof (cases "q = key u")
    case True
    then show ?thesis using only[of h'] by auto
  next
    case False
    have "key_map r q = Some h' \<longleftrightarrow> (\<exists>v. m h' = Some v \<and> key v = q)" using k by (simp add: keys_exact_def)
    then show ?thesis using False old e(1) by auto
  qed
  then show ?thesis using e(2) unfolding keys_exact_def by (simp add: set_keys_map)
qed

lemma keys_exact_update:
  "keys_exact key m r \<Longrightarrow> m h = Some u \<Longrightarrow> key v = key u \<Longrightarrow> rr_keys r' = rr_keys r \<Longrightarrow> keys_exact key (m(h \<mapsto> v)) r'"
  by (auto simp: keys_exact_def key_map_def)

section \<open>Every operation keeps the key map exact\<close>

lemma keys_fields [simp]:
  "rr_keys (ref_store h v r) = rr_keys r" "rr_keys (ref_poke h v r) = rr_keys r" "rr_keys (ref_markChanged h r) = rr_keys r"
  "rr_keys (ref_free i r) = rr_keys r" "rr_keys (observe_refs r) = rr_keys r" "rr_keys (refs_shrink r) = rr_keys r"
  "rr_keys (mark_added i r) = rr_keys r" "rr_keys (reset_slot i r) = rr_keys r"
  by (simp_all add: ref_store_def ref_poke_def ref_markChanged_def ref_free_def observe_refs_def refs_shrink_def
      mark_added_def reset_slot_def upd_ref_slot_def Let_def)

lemma release_keys [simp]: "rr_keys (snd (ref_release h r)) = rr_keys r"
  by (auto simp: ref_release_def upd_ref_slot_def Let_def split: option.splits ref_state.splits)

lemma keys_fold: "(\<And>x r. rr_keys (f x r) = rr_keys r) \<Longrightarrow> rr_keys (fold f xs r) = rr_keys r"
  by (induction xs arbitrary: r) simp_all

lemma window_keys [simp]:
  "rr_keys (refs_startObservation r) = rr_keys r" "rr_keys (refs_resetObservation r) = rr_keys r"
  by (simp_all add: refs_startObservation_def refs_resetObservation_def Let_def keys_fold)

lemma new_keys: "ref_new v r = (h, r') \<Longrightarrow> rr_keys r' = rr_keys r"
  by (auto simp: ref_new_def ref_reserve_def Let_def split: if_splits prod.splits)

lemma place_keys: "ref_place h v r = Inr r' \<Longrightarrow> rr_keys r' = rr_keys r"
  using place_ok_iff(2)[of h v r r'] by simp

lemma keyed_ok_put:
  assumes ok: "keyed_ok key B C G m r" and none: "keyed_Find (key v) r = None" and p: "keyed_Put key v r = (h, r')"
  shows "keyed_ok key B C G (if h = no_ref then m else m(h \<mapsto> v)) r'"
proof -
  have r: "refs_reach {} B C G m r" and k: "keys_exact key m r" using ok by (simp_all add: keyed_ok_def)
  obtain r1 where n: "ref_new v r = (h, r1)" and r': "r' = (if h \<noteq> no_ref then set_keys ((key_map r1)(key v \<mapsto> h)) r1 else r1)"
    using p none by (auto simp: keyed_Put_def keyed_Find_def split: prod.splits)
  note reach = new_reach[OF r n] and keys = new_keys[OF n]
  show ?thesis
  proof (cases "h = no_ref")
    case True
    then show ?thesis using reach keys_exact_keep[OF k keys] r' by (simp add: keyed_ok_def)
  next
    case False
    obtain r2 where rv: "ref_reserve r = (h, r2)" using n by (auto simp: ref_new_def Let_def split: prod.splits)
    have "m h = None" using reserved_is_free[OF refs_reach_ok[OF r] rv False] by blast
    then show ?thesis
      using False reach set_keys_reach keys_exact_gain[OF k none[unfolded keyed_Find_def] _ keys] r' by (simp add: keyed_ok_def)
  qed
qed

lemma keyed_ok_put_at:
  assumes ok: "keyed_ok key B C G m r" and p: "keyed_PutAt key h v r = Inr r'"
  shows "keyed_ok key B C G (m(h \<mapsto> v)) r'"
proof -
  have r: "refs_reach {} B C G m r" and k: "keys_exact key m r" using ok by (simp_all add: keyed_ok_def)
  obtain r1 where none: "key_map r (key v) = None" and pl: "ref_place h v r = Inr r1"
    and r': "r' = set_keys ((key_map r1)(key v \<mapsto> h)) r1"
    using p by (auto simp: keyed_PutAt_def split: if_splits sum.splits)
  have "\<not> rs_live (slot_at r (rf_index h))" using place_ok_iff(1)[of h v r] pl by blast
  then have "m h = None" using ref_map_dead[of r _ h] refs_reach_ok[OF r] by (simp add: refs_ok_def)
  from keys_exact_gain[OF k none this place_keys[OF pl]] show ?thesis
    using set_keys_reach[OF refs_reach.placed[OF r pl]] r' unfolding keyed_ok_def by blast
qed

lemma ref_set_update:
  "updateKeyed key v r = (case key_map r (key v) of None \<Rightarrow> (False, r) | Some h \<Rightarrow> ref_set h v r)"
  by (simp add: updateKeyed_def ref_set_def split: option.split)

lemma keyed_ok_update:
  assumes ok: "keyed_ok key B C G m r" and f: "keyed_Find (key v) r = Some h" and u: "updateKeyed key v r = (True, r')"
  shows "keyed_ok key B (insert h C) G (m(h \<mapsto> v)) r'"
proof -
  have r: "refs_reach {} B C G m r" and k: "keys_exact key m r" using ok by (simp_all add: keyed_ok_def)
  have s: "ref_set h v r = (True, r')" using u f by (simp add: ref_set_update keyed_Find_def)
  then have "rr_keys r' = rr_keys r" by (auto simp: ref_set_def split: option.splits)
  moreover obtain w where "m h = Some w" "key v = key w" using k f by (auto simp: keys_exact_def keyed_Find_def)
  ultimately have "keys_exact key (m(h \<mapsto> v)) r'" using keys_exact_update[OF k] by blast
  then show ?thesis using refs_reach.was_set[OF r s] unfolding keyed_ok_def by blast
qed

lemma keyed_ok_release:
  assumes ok: "keyed_ok key B C G m r" and rel: "releaseKeyed key h r = (True, r')"
  shows "keyed_ok key B C (G(h := m h)) (m(h := None)) r'"
proof -
  have r: "refs_reach {} B C G m r" and k: "keys_exact key m r" using ok by (simp_all add: keyed_ok_def)
  let ?r1 = "ref_settle r"
  obtain s where s: "ref_slot_of ?r1 h = Some s"
    and rr: "ref_release h (set_keys ((key_map ?r1)(key (rs_value s) := None)) ?r1) = (True, r')"
    using rel by (auto simp: releaseKeyed_def Let_def split: option.splits)
  let ?r2 = "set_keys ((key_map ?r1)(key (rs_value s) := None)) ?r1"
  have "ref_get ?r1 h = Some (rs_value s)" using s by (simp add: ref_get_def)
  then have mh: "m h = Some (rs_value s)" using refs_reach_ok[OF r] by (simp add: ref_get_map refs_ok_def)
  have "refs_reach {} B C G m ?r2" by (rule set_keys_reach[OF refs_reach.settled[OF r]])
  moreover have "rr_reserved ?r2 = 0" by (simp add: set_keys_def)
  ultimately have "refs_reach {} B C (G(h := m h)) (m(h := None)) r'" using rr by (rule refs_reach.released)
  moreover have "keys_exact key (m(h := None)) ?r2" by (rule keys_exact_lose[OF k mh]) simp
  then have "keys_exact key (m(h := None)) r'"
    by (rule keys_exact_keep) (use release_keys[of h ?r2] rr in simp)
  ultimately show ?thesis unfolding keyed_ok_def by blast
qed

lemma keyed_reach_ok: "keyed_reach key B C G m r \<Longrightarrow> keyed_ok key B C G m r"
proof (induction rule: keyed_reach.induct)
  case (created a b z t name tr kt)
  show ?case
    unfolding keyed_ok_def
    by (intro conjI refs_reach.rekeyed refs_reach.created created) (simp add: keys_exact_def key_map_def)
next
  case (put B C G m r v h r')
  show ?case by (rule keyed_ok_put[OF put.IH put.hyps(2,3)])
next
  case (put_at B C G m r h v r')
  show ?case by (rule keyed_ok_put_at[OF put_at.IH put_at.hyps(2)])
next
  case (updated B C G m r v h r')
  show ?case by (rule keyed_ok_update[OF updated.IH updated.hyps(2,3)])
next
  case (released B C G m r h r')
  show ?case by (rule keyed_ok_release[OF released.IH released.hyps(2)])
next
  case (written B C G m r h u v)
  have r: "refs_reach {} B C G m r" and k: "keys_exact key m r" using written.IH by (simp_all add: keyed_ok_def)
  have m: "m h = Some u" using written.hyps(2) refs_reach_ok[OF r] by (simp add: ref_get_map refs_ok_def)
  have a: "ref_alive r h" using written.hyps(2) by (auto simp: ref_get_def ref_alive_def)
  have "keys_exact key (m(h \<mapsto> v)) (ref_poke h v r)" by (rule keys_exact_update[OF k m written.hyps(3)]) simp
  then show ?case using refs_reach.poked[OF r a] unfolding keyed_ok_def by blast
qed (auto simp: keyed_ok_def intro: refs_reach.observed refs_reach.started refs_reach.reset refs_reach.shrunk
    elim: keys_exact_keep)

text \<open>
  C16: Keyed refs have at most one ref for a key, and the key finds it: \<open>Find\<close> answers a ref exactly when it is
  alive and its value has that key.  So \<open>Put\<close> of a key that has a ref answers it and changes nothing,
  \<open>Update\<close> reports whether its key has a ref, \<open>PutAt\<close> refuses a key that has one, and a release reports
  whether the ref was alive, or had the key.
\<close>

theorem keyed_refs_exact:
  assumes "keyed_reach key B C G m r"
  shows "(\<forall>k h. keyed_Find k r = Some h \<longleftrightarrow> (\<exists>v. ref_get r h = Some v \<and> key v = k))
    \<and> (\<forall>v h. keyed_Find (key v) r = Some h \<longrightarrow> keyed_Put key v r = (h, r) \<and> keyed_PutAt key h' v r = Inl KeyHasRef)
    \<and> (\<forall>v. fst (updateKeyed key v r) \<longleftrightarrow> (\<exists>h u. ref_get r h = Some u \<and> key u = key v))
    \<and> (\<forall>h. fst (releaseKeyed key h r) \<longleftrightarrow> ref_alive r h)
    \<and> (\<forall>k. fst (ReleaseKey key k r) \<longleftrightarrow> (\<exists>h u. ref_get r h = Some u \<and> key u = k))"
proof -
  have r: "refs_reach {} B C G m r" and k: "keys_exact key m r" using keyed_reach_ok[OF assms] by (simp_all add: keyed_ok_def)
  have get: "ref_get r h = m h" for h using refs_reach_ok[OF r] by (simp add: ref_get_map refs_ok_def)
  have find: "keyed_Find q r = Some h \<longleftrightarrow> (\<exists>v. ref_get r h = Some v \<and> key v = q)" for q h
    using k by (simp add: keyed_Find_def keys_exact_def get)
  have there: "ref_slot_of r h \<noteq> None" if "keyed_Find q r = Some h" for q h using find that by (auto simp: ref_get_def)
  have slot: "ref_slot_of (ref_settle r) h = ref_slot_of r h" for h by (simp add: ref_slot_of_def)
  have rel: "fst (releaseKeyed key h r) \<longleftrightarrow> ref_alive r h" for h
    by (auto simp: releaseKeyed_def ref_release_def slot ref_slot_of_def set_keys_def Let_def ref_alive_def split: option.splits)
  have "fst (updateKeyed key v r) \<longleftrightarrow> keyed_Find (key v) r \<noteq> None" for v
    using there[of "key v"] by (auto simp: updateKeyed_def keyed_Find_def split: option.splits)
  moreover have "fst (ReleaseKey key q r) \<longleftrightarrow> keyed_Find q r \<noteq> None" for q
    using rel there[of q] by (auto simp: ReleaseKey_def keyed_Find_def ref_alive_def split: option.splits)
  moreover have "keyed_Find q r \<noteq> None \<longleftrightarrow> (\<exists>h u. ref_get r h = Some u \<and> key u = q)" for q using find by blast
  moreover have "keyed_Put key v r = (h, r) \<and> keyed_PutAt key h' v r = Inl KeyHasRef" if "keyed_Find (key v) r = Some h" for v h
    using that by (simp add: keyed_Put_def keyed_PutAt_def keyed_Find_def)
  ultimately show ?thesis using find rel by blast
qed

definition sample_keyed :: "(string, string) refs" where
  "sample_keyed = snd (keyed_Put Text_Key ''oak'' ((new_refs [] ''Text'' ''texts'' 0 7 False)\<lparr>rr_keys := Some (''Text'', \<lambda>_. None)\<rparr>))"

theorem keyed_refs_exact_witness:
  "\<exists>m. keyed_reach Text_Key {} {} (\<lambda>_. None) m sample_keyed
    \<and> keyed_Find ''oak'' sample_keyed = Some \<lparr>rf_index = 0, rf_generation = 1\<rparr>
    \<and> keyed_Put Text_Key ''oak'' sample_keyed = (\<lparr>rf_index = 0, rf_generation = 1\<rparr>, sample_keyed)"
proof -
  let ?r = "(new_refs [] ''Text'' ''texts'' 0 7 False)\<lparr>rr_keys := Some (''Text'', \<lambda>_. None)\<rparr> :: (string, string) refs"
  let ?h = "\<lparr>rf_index = 0, rf_generation = 1\<rparr>"
  have none: "keyed_Find (Text_Key ''oak'') ?r = None" by (simp add: keyed_Find_def key_map_def)
  have "fst (keyed_Put Text_Key ''oak'' ?r) = ?h"
    using none by (simp add: keyed_Put_def keyed_Find_def ref_new_def ref_reserve_def new_refs_def Let_def)
  then have p: "keyed_Put Text_Key ''oak'' ?r = (?h, sample_keyed)" by (simp add: sample_keyed_def prod_eq_iff)
  have "keyed_reach Text_Key {} {} (\<lambda>_. None) (\<lambda>_. None) ?r" by (rule keyed_reach.created) simp
  from keyed_reach.put[OF this none p] have reach: "keyed_reach Text_Key {} {} (\<lambda>_. None) [?h \<mapsto> ''oak''] sample_keyed"
    by (simp add: no_ref_def)
  have "ref_get sample_keyed ?h = Some ''oak''"
    using refs_reach_ok[OF conjunct1[OF keyed_reach_ok[OF reach, unfolded keyed_ok_def]]] by (simp add: ref_get_map refs_ok_def)
  then show ?thesis using keyed_refs_exact[OF reach] reach by (auto simp: Text_Key_def)
qed

end
