(* ===== verification/Ecs_Entities.thy ===== *)
theory Ecs_Entities
  imports Ecs_Index
begin

text \<open>
  \<open>ecs/entitytable.go\<close>: a world's entities, and how indices are handed out, reserved, freed and
  reused.  \<open>freeEntities\<close> and \<open>despawnedIndices\<close> are the lists their arrays hold.  A reserve is one
  atomic count over tables nothing else changes meanwhile, so it is one step; every other
  operation runs under the barrier.  Counts are naturals: 64 bits would wrap past \<open>2 ^ 63\<close>
  reservations in one window.
\<close>

record entity_slot =
  es_live :: u32
  es_last :: u32
  es_mask :: mask

definition zero_slot :: "nat \<Rightarrow> entity_slot" where
  "zero_slot words = \<lparr>es_live = 0, es_last = 0, es_mask = zero_mask words\<rparr>"

record entity_table =
  et_words :: nat
  et_first :: u32
  et_last :: u32
  et_slots :: "entity_slot index_table"
  et_free :: "entity list"
  et_reserved :: nat
  et_fresh :: nat
  et_observing :: bool
  et_despawned :: "u32 list"
  et_outside :: "u64 index_table"

section \<open>Operations\<close>

definition slot_of :: "entity_table \<Rightarrow> u32 \<Rightarrow> entity_slot" where
  "slot_of t i = it_get (zero_slot (et_words t)) (et_slots t) i"

text \<open>Writing a slot through \<open>at\<close> or \<open>atOrCreate\<close>.\<close>

definition upd_slot :: "entity_table \<Rightarrow> u32 \<Rightarrow> (entity_slot \<Rightarrow> entity_slot) \<Rightarrow> entity_table" where
  "upd_slot t i f = t\<lparr>et_slots := it_put (zero_slot (et_words t)) (et_slots t) i (f (slot_of t i))\<rparr>"

definition et_init :: "nat \<Rightarrow> u32 \<Rightarrow> u32 \<Rightarrow> nat \<Rightarrow> entity_table" where
  "et_init words first final prepared =
     \<lparr>et_words = words, et_first = first, et_last = final,
      et_slots = fold (\<lambda>i t. it_create (zero_slot words) t (first + of_nat i)) [0..<prepared] empty_table,
      et_free = [], et_reserved = 0, et_fresh = unat first, et_observing = False,
      et_despawned = [], et_outside = empty_table\<rparr>"

definition alive :: "entity_table \<Rightarrow> entity \<Rightarrow> bool" where
  "alive t e \<longleftrightarrow>
     (case it_at (et_slots t) (e_index e) of
        None \<Rightarrow> False
      | Some slot \<Rightarrow> es_live slot = e_generation e \<and> es_live slot \<noteq> 0)"

text \<open>The walk of \<open>live\<close>: page by page, in index order.\<close>

definition live_entities :: "entity_table \<Rightarrow> (entity \<times> entity_slot) list" where
  "live_entities t =
     concat (map (\<lambda>p. case it_pages (et_slots t) ! p of
         None \<Rightarrow> []
       | Some page \<Rightarrow> map (\<lambda>i. (makeEntity (of_nat (p * indexPageSize + i)) (es_live (page ! i)), page ! i))
           (filter (\<lambda>i. es_live (page ! i) \<noteq> 0) [0..<length page])) [0..<length (it_pages (et_slots t))])"

definition et_mask :: "entity_table \<Rightarrow> entity \<Rightarrow> mask option" where
  "et_mask t e = (if alive t e then Some (es_mask (slot_of t (e_index e))) else None)"

definition setComponent :: "entity_table \<Rightarrow> entity \<Rightarrow> nat \<Rightarrow> entity_table" where
  "setComponent t e c = upd_slot t (e_index e) (\<lambda>s. s\<lparr>es_mask := maskSet (es_mask s) c\<rparr>)"

definition unsetComponent :: "entity_table \<Rightarrow> entity \<Rightarrow> nat \<Rightarrow> entity_table" where
  "unsetComponent t e c = upd_slot t (e_index e) (\<lambda>s. s\<lparr>es_mask := maskUnset (es_mask s) c\<rparr>)"

definition reserve :: "entity_table \<Rightarrow> entity \<times> entity_table" where
  "reserve t =
     (let reservation = et_reserved t; freeCount = length (et_free t);
          t' = t\<lparr>et_reserved := reservation + 1\<rparr>
      in if reservation < freeCount then (et_free t ! (freeCount - 1 - reservation), t')
         else let index = et_fresh t + reservation - freeCount
              in if index > unat (et_last t) then (NoEntity, t') else (makeEntity (of_nat index) 1, t'))"

definition setAlive :: "entity_table \<Rightarrow> entity \<Rightarrow> entity_table" where
  "setAlive t e = upd_slot t (e_index e) (\<lambda>s. s\<lparr>es_last := e_generation e, es_live := e_generation e\<rparr>)"

definition burn :: "entity \<Rightarrow> entity_table \<Rightarrow> bool \<times> entity_table" where
  "burn reserved t =
     (if es_last (slot_of t (e_index reserved)) = e_generation reserved
      then (False, upd_slot t (e_index reserved) (\<lambda>s. s))
      else (True, upd_slot t (e_index reserved) (\<lambda>s. s\<lparr>es_last := e_generation reserved\<rparr>)))"

definition burned :: "entity \<Rightarrow> entity" where
  "burned e = makeEntity (e_index e) (nextGeneration (e_generation e))"

text \<open>The two loops of \<open>settleReservations\<close>, over the entities taken off the free list, from \<open>i\<close>,
  and over the fresh indices taken.\<close>

fun reclaim_free :: "nat \<Rightarrow> nat \<Rightarrow> nat \<Rightarrow> entity_table \<Rightarrow> nat \<times> entity_table" where
  "reclaim_free i kept 0 t = (kept, t)"
| "reclaim_free i kept (Suc n) t =
     (let reserved = et_free t ! i; (fresh, t1) = burn reserved t
      in if fresh then reclaim_free (i + 1) (kept + 1) n (t1\<lparr>et_free := (et_free t1)[kept := burned reserved]\<rparr>)
         else reclaim_free (i + 1) kept n t1)"

fun reclaim_fresh :: "nat \<Rightarrow> nat \<Rightarrow> entity_table \<Rightarrow> entity_table" where
  "reclaim_fresh i 0 t = t"
| "reclaim_fresh i (Suc n) t =
     (let reserved = makeEntity (of_nat (et_fresh t + i)) 1; (fresh, t1) = burn reserved t
      in reclaim_fresh (i + 1) n (if fresh then t1\<lparr>et_free := et_free t1 @ [burned reserved]\<rparr> else t1))"

definition settleReservations :: "bool \<Rightarrow> entity_table \<Rightarrow> entity_table" where
  "settleReservations reclaim t =
     (let reservations = et_reserved t
      in if reservations = 0 then t
         else let freeCount = length (et_free t);
                  takenFree = min reservations freeCount;
                  takenFresh = min (reservations - takenFree) (unat (et_last t) + 1 - et_fresh t);
                  (kept, t1) = (if reclaim then reclaim_free (freeCount - takenFree) (freeCount - takenFree) takenFree t
                                else (freeCount - takenFree, t));
                  t2 = t1\<lparr>et_free := take kept (et_free t1)\<rparr>;
                  t3 = (if reclaim then reclaim_fresh 0 takenFresh t2 else t2)
              in t3\<lparr>et_fresh := et_fresh t3 + takenFresh, et_reserved := 0\<rparr>)"

definition in_alloc :: "entity_table \<Rightarrow> u32 \<Rightarrow> bool" where
  "in_alloc t i \<longleftrightarrow> et_first t \<le> i \<and> i \<le> et_last t"

definition et_free_index :: "u32 \<Rightarrow> entity_table \<Rightarrow> entity_table" where
  "et_free_index i t =
     (if in_alloc t i
      then t\<lparr>et_free := et_free t @ [makeEntity i (nextGeneration (es_last (slot_of t i)))]\<rparr> else t)"

definition spawn :: "entity_table \<Rightarrow> entity \<times> entity_table" where
  "spawn t =
     (let t1 = (if et_observing t then t else settleReservations False t);
          (e, t2) = reserve t1
      in (e, if e \<noteq> NoEntity then setAlive t2 e else t2))"

definition spawnReserved :: "entity \<Rightarrow> entity_table \<Rightarrow> bool \<times> entity_table" where
  "spawnReserved e t =
     (case it_at (et_slots t) (e_index e) of
        Some slot \<Rightarrow>
          if es_live slot \<noteq> 0 then (False, t)
          else if e_generation e \<noteq> nextGeneration (es_last slot) then (False, t) else (True, setAlive t e)
      | None \<Rightarrow> if e_generation e \<noteq> nextGeneration 0 then (False, t) else (True, setAlive t e))"

datatype place_error = ZeroGeneration | InsideRange | OccupiedIndex | DespawnedThisWindow

definition outside_bit :: "entity_table \<Rightarrow> u32 \<Rightarrow> bool" where
  "outside_bit t i =
     (case it_at (et_outside t) (drop_bit 6 i) of
        None \<Rightarrow> False | Some word \<Rightarrow> word AND push_bit (unat (i AND 63)) 1 \<noteq> 0)"

definition place :: "entity \<Rightarrow> entity_table \<Rightarrow> place_error + entity_table" where
  "place e t =
     (if e_generation e = 0 then Inl ZeroGeneration
      else if in_alloc t (e_index e) then Inl InsideRange
      else if (case it_at (et_slots t) (e_index e) of None \<Rightarrow> False | Some slot \<Rightarrow> es_live slot \<noteq> 0) then Inl OccupiedIndex
      else if outside_bit t (e_index e) then Inl DespawnedThisWindow
      else Inr (setAlive t e))"

definition upd_outside :: "(u64 \<Rightarrow> u64 \<Rightarrow> u64) \<Rightarrow> u32 \<Rightarrow> entity_table \<Rightarrow> entity_table" where
  "upd_outside f i t =
     t\<lparr>et_outside := it_put 0 (et_outside t) (drop_bit 6 i)
         (f (it_get 0 (et_outside t) (drop_bit 6 i)) (push_bit (unat (i AND 63)) 1))\<rparr>"

definition despawn :: "entity \<Rightarrow> entity_table \<Rightarrow> mask option \<times> entity_table" where
  "despawn e t =
     (if \<not> alive t e then (None, t)
      else let i = e_index e; m = es_mask (slot_of t i);
               t1 = upd_slot t i (\<lambda>s. s\<lparr>es_mask := zero_mask (et_words t), es_live := 0\<rparr>)
           in (Some m,
               if et_observing t1
               then let t2 = t1\<lparr>et_despawned := et_despawned t1 @ [i]\<rparr>
                    in if \<not> in_alloc t i then upd_outside (\<lambda>w b. w OR b) i t2 else t2
               else et_free_index i (settleReservations False t1)))"

definition end_index :: "u32 \<Rightarrow> entity_table \<Rightarrow> entity_table" where
  "end_index i t = et_free_index i (if in_alloc t i then t else upd_outside (\<lambda>w b. w AND NOT b) i t)"

definition endWindow :: "entity_table \<Rightarrow> bool \<times> entity_table" where
  "endWindow t =
     (if \<not> et_observing t then (True, (settleReservations False t)\<lparr>et_observing := True\<rparr>)
      else let t1 = settleReservations True t
           in (False, (fold end_index (et_despawned t1) t1)\<lparr>et_despawned := []\<rparr>))"

definition et_shrink :: "entity_table \<Rightarrow> entity_table" where
  "et_shrink t = t\<lparr>et_outside := it_shrink 0 (et_outside t)\<rparr>"

section \<open>The invariant\<close>

definition live_of :: "entity_table \<Rightarrow> u32 \<Rightarrow> u32" where
  "live_of t i = es_live (slot_of t i)"

definition last_of :: "entity_table \<Rightarrow> u32 \<Rightarrow> u32" where
  "last_of t i = es_last (slot_of t i)"

text \<open>How many reservations came off the free list and out of the fresh indices.\<close>

definition taken_free :: "entity_table \<Rightarrow> nat" where
  "taken_free t = min (et_reserved t) (length (et_free t))"

definition taken_fresh :: "entity_table \<Rightarrow> nat" where
  "taken_fresh t = min (et_reserved t - taken_free t) (unat (et_last t) + 1 - et_fresh t)"

definition untaken :: "entity_table \<Rightarrow> entity list" where
  "untaken t = take (length (et_free t) - taken_free t) (et_free t)"

definition taken :: "entity_table \<Rightarrow> entity list" where
  "taken t = drop (length (et_free t) - taken_free t) (et_free t)"

text \<open>An index of a reservation: spawned in this window, or not yet.\<close>

definition unspawned :: "entity_table \<Rightarrow> entity \<Rightarrow> bool" where
  "unspawned t e \<longleftrightarrow> live_of t (e_index e) = 0 \<and> e_generation e = nextGeneration (last_of t (e_index e))
     \<and> e_index e \<notin> set (et_despawned t)"

definition spawned :: "entity_table \<Rightarrow> entity \<Rightarrow> bool" where
  "spawned t e \<longleftrightarrow> e_generation e = last_of t (e_index e)
     \<and> (live_of t (e_index e) \<noteq> 0 \<or> e_index e \<in> set (et_despawned t))"

text \<open>
  A live generation is the last one; the free list holds each index once, in the range, at the
  generation after its last, but for those taken and spawned; fresh indices are used from
  \<open>nextFreshIndex\<close> up in order; and the window's despawned indices are dead, used, and, outside the
  range, marked.
\<close>

definition fresh_ok :: "entity_table \<Rightarrow> bool" where
  "fresh_ok t \<longleftrightarrow>
     (\<forall>n. et_fresh t \<le> n \<and> n \<le> unat (et_last t) \<longrightarrow>
        (let e = makeEntity (of_nat n) 1
         in unspawned t e \<and> last_of t (of_nat n) = 0 \<or> n < et_fresh t + taken_fresh t \<and> spawned t e))"

definition free_ok :: "entity_table \<Rightarrow> bool" where
  "free_ok t \<longleftrightarrow>
     distinct (map e_index (et_free t))
     \<and> (\<forall>e \<in> set (et_free t). in_alloc t (e_index e) \<and> unat (e_index e) < et_fresh t)
     \<and> (\<forall>e \<in> set (untaken t). unspawned t e)
     \<and> (\<forall>e \<in> set (taken t). unspawned t e \<or> spawned t e)"

definition despawned_ok :: "entity_table \<Rightarrow> bool" where
  "despawned_ok t \<longleftrightarrow>
     distinct (et_despawned t) \<and> (\<not> et_observing t \<longrightarrow> et_despawned t = [])
     \<and> (\<forall>i \<in> set (et_despawned t). live_of t i = 0 \<and> last_of t i \<noteq> 0)
     \<and> (\<forall>i. outside_bit t i \<longleftrightarrow> i \<in> set (et_despawned t) \<and> \<not> in_alloc t i)"

definition ent_inv :: "entity_table \<Rightarrow> bool" where
  "ent_inv t \<longleftrightarrow>
     it_wf (et_slots t) \<and> it_wf (et_outside t)
     \<and> et_first t \<le> et_last t \<and> unat (et_first t) \<le> et_fresh t \<and> et_fresh t \<le> unat (et_last t) + 1
     \<and> (\<forall>i. live_of t i = 0 \<or> live_of t i = last_of t i)
     \<and> free_ok t \<and> fresh_ok t \<and> despawned_ok t"

lemma fresh_okD:
  assumes "fresh_ok t" and "et_fresh t \<le> n" and "n \<le> unat (et_last t)"
  shows "unspawned t (makeEntity (of_nat n) 1) \<and> last_of t (of_nat n) = 0
    \<or> n < et_fresh t + taken_fresh t \<and> spawned t (makeEntity (of_nat n) 1)"
  using assms by (simp add: fresh_ok_def Let_def)

lemma slot_upd:
  assumes "it_wf (et_slots t)"
  shows "slot_of (upd_slot t i f) j = (if j = i then f (slot_of t i) else slot_of t j)"
    and "it_wf (et_slots (upd_slot t i f))"
  using assms by (simp_all add: slot_of_def upd_slot_def table.put_lookup table.put_wf)

lemma upd_slot_fields [simp]:
  "et_words (upd_slot t i f) = et_words t" "et_first (upd_slot t i f) = et_first t"
  "et_last (upd_slot t i f) = et_last t" "et_free (upd_slot t i f) = et_free t"
  "et_reserved (upd_slot t i f) = et_reserved t" "et_fresh (upd_slot t i f) = et_fresh t"
  "et_observing (upd_slot t i f) = et_observing t" "et_despawned (upd_slot t i f) = et_despawned t"
  "et_outside (upd_slot t i f) = et_outside t"
  by (simp_all add: upd_slot_def)

lemma alive_iff: "alive t e \<longleftrightarrow> live_of t (e_index e) = e_generation e \<and> e_generation e \<noteq> 0"
  by (auto simp: alive_def live_of_def slot_of_def it_get_def zero_slot_def split: option.splits)

text \<open>Views that depend on the counts, the lists and the slots only.\<close>

lemma count_cong:
  assumes "et_reserved t' = et_reserved t" and "et_free t' = et_free t" and "et_last t' = et_last t"
    and "et_fresh t' = et_fresh t"
  shows "taken_free t' = taken_free t" and "taken_fresh t' = taken_fresh t" and "untaken t' = untaken t"
    and "taken t' = taken t"
  using assms by (simp_all add: taken_free_def taken_fresh_def untaken_def taken_def)

lemma free_split: "et_free t = untaken t @ taken t"
  by (simp add: untaken_def taken_def)

lemma free_okD:
  assumes "free_ok t"
  shows "e \<in> set (untaken t) \<Longrightarrow> unspawned t e \<and> in_alloc t (e_index e) \<and> unat (e_index e) < et_fresh t"
    and "e \<in> set (taken t) \<Longrightarrow> (unspawned t e \<or> spawned t e) \<and> in_alloc t (e_index e) \<and> unat (e_index e) < et_fresh t"
proof -
  have "set (et_free t) = set (untaken t) \<union> set (taken t)" using free_split[of t] by (metis set_append)
  then show "e \<in> set (untaken t) \<Longrightarrow> unspawned t e \<and> in_alloc t (e_index e) \<and> unat (e_index e) < et_fresh t"
    "e \<in> set (taken t) \<Longrightarrow> (unspawned t e \<or> spawned t e) \<and> in_alloc t (e_index e) \<and> unat (e_index e) < et_fresh t"
    using assms by (auto simp: free_ok_def)
qed

lemma alloc_unat: "in_alloc t i \<longleftrightarrow> unat (et_first t) \<le> unat i \<and> unat i \<le> unat (et_last t)"
  by (simp add: in_alloc_def word_le_nat_alt)

lemma alloc_of_nat:
  assumes "n \<le> unat (et_last t)"
  shows "unat (of_nat n :: u32) = n"
proof -
  have "unat (et_last t) < 2 ^ 32" using unsigned_less[of "et_last t", where ?'a = nat] by simp
  then show ?thesis using assms by (intro unat_of_nat_u32) simp
qed

text \<open>\<open>set_alive\<close> needs an index handed out and not spawned since.\<close>

definition pending :: "entity_table \<Rightarrow> entity \<Rightarrow> bool" where
  "pending t e \<longleftrightarrow> in_alloc t (e_index e) \<and> unat (e_index e) < et_fresh t + taken_fresh t
     \<and> e_index e \<notin> e_index ` set (untaken t) \<and> unspawned t e"

lemma setAlive_slot:
  assumes "it_wf (et_slots t)"
  shows "live_of (setAlive t e) i = (if i = e_index e then e_generation e else live_of t i)"
    and "last_of (setAlive t e) i = (if i = e_index e then e_generation e else last_of t i)"
  using slot_upd(1)[OF assms] by (simp_all add: setAlive_def live_of_def last_of_def)

lemma setAlive_fields [simp]:
  "et_words (setAlive t e) = et_words t" "et_first (setAlive t e) = et_first t" "et_last (setAlive t e) = et_last t"
  "et_free (setAlive t e) = et_free t" "et_reserved (setAlive t e) = et_reserved t"
  "et_fresh (setAlive t e) = et_fresh t" "et_observing (setAlive t e) = et_observing t"
  "et_despawned (setAlive t e) = et_despawned t" "et_outside (setAlive t e) = et_outside t"
  by (simp_all add: setAlive_def)

lemma outside_cong: "et_outside t' = et_outside t \<Longrightarrow> outside_bit t' i = outside_bit t i"
  by (simp add: outside_bit_def)

lemma setAlive_inv:
  assumes "ent_inv t" and "e_generation e \<noteq> 0" and "e_index e \<notin> set (et_despawned t)"
    and "pending t e \<or> \<not> in_alloc t (e_index e)"
  shows "ent_inv (setAlive t e)"
proof -
  let ?t = "setAlive t e" and ?i = "e_index e"
  have wf: "it_wf (et_slots t)" using assms(1) by (simp add: ent_inv_def)
  note sl = setAlive_slot[OF wf, of e]
  have counts: "taken_fresh ?t = taken_fresh t" "untaken ?t = untaken t" "taken ?t = taken t"
    using count_cong[of ?t t] by simp_all
  have alloc: "in_alloc ?t i = in_alloc t i" for i by (simp add: in_alloc_def)
  have keep: "unspawned ?t f = unspawned t f" "spawned ?t f = spawned t f" if "e_index f \<noteq> ?i" for f
    using that by (simp_all add: unspawned_def spawned_def sl)
  have flip: "spawned ?t f" if "e_index f = ?i" "unspawned t f" "pending t e" for f
    using that assms(2) by (simp add: unspawned_def spawned_def pending_def sl)
  have not_sp: "\<not> spawned t f" if "e_index f = ?i" "pending t e" for f
    using that by (auto simp: unspawned_def spawned_def pending_def)
  have free: "free_ok ?t"
  proof -
    have fo: "free_ok t" using assms(1) by (simp add: ent_inv_def)
    have "unspawned ?t f" if "f \<in> set (untaken t)" for f
    proof -
      have "f \<in> set (et_free t)" using that free_split[of t] by auto
      then have "in_alloc t (e_index f)" using fo by (simp add: free_ok_def)
      then have "e_index f \<noteq> ?i" using assms(4) that by (metis image_eqI pending_def)
      then show ?thesis using keep fo that by (simp add: free_ok_def)
    qed
    moreover have "unspawned ?t f \<or> spawned ?t f" if "f \<in> set (taken t)" for f
    proof (cases "e_index f = ?i")
      case True
      have "f \<in> set (et_free t)" using that free_split[of t] by auto
      then have "in_alloc t ?i" using fo True by (auto simp: free_ok_def)
      then have "pending t e" using assms(4) by simp
      then show ?thesis using flip[OF True] not_sp[OF True] fo that by (auto simp: free_ok_def)
    qed (use keep fo that in \<open>auto simp: free_ok_def\<close>)
    ultimately show ?thesis using fo by (simp add: free_ok_def counts alloc)
  qed
  have fresh: "fresh_ok ?t"
    unfolding fresh_ok_def Let_def
  proof (intro allI impI)
    fix n assume n: "et_fresh ?t \<le> n \<and> n \<le> unat (et_last ?t)"
    then have n': "et_fresh t \<le> n" "n \<le> unat (et_last t)" by simp_all
    let ?e = "makeEntity (of_nat n) 1"
    have old: "unspawned t ?e \<and> last_of t (of_nat n) = 0 \<or> n < et_fresh t + taken_fresh t \<and> spawned t ?e"
      using assms(1) n' by (intro fresh_okD) (simp_all add: ent_inv_def)
    show "unspawned ?t ?e \<and> last_of ?t (of_nat n) = 0 \<or> n < et_fresh ?t + taken_fresh ?t \<and> spawned ?t ?e"
    proof (cases "of_nat n = ?i")
      case True
      have "unat ?i = n" using alloc_of_nat[OF n'(2)] True by simp
      moreover have "unat (et_first t) \<le> et_fresh t" using assms(1) by (simp add: ent_inv_def)
      ultimately have "in_alloc t ?i" using n' by (simp add: alloc_unat)
      then have p: "pending t e" using assms(4) by simp
      then show ?thesis
        using old True flip[of ?e] not_sp[of ?e] \<open>unat ?i = n\<close> by (auto simp: counts pending_def)
    next
      case False
      then show ?thesis using old keep[of ?e] by (simp add: counts sl)
    qed
  qed
  have "despawned_ok ?t"
    using assms(1,3) outside_cong[of ?t t]
    by (auto simp: ent_inv_def despawned_ok_def sl alloc)
  moreover have "\<forall>i. live_of ?t i = 0 \<or> live_of ?t i = last_of ?t i"
    using assms(1) by (simp add: ent_inv_def sl)
  moreover have "it_wf (et_slots ?t)"
    using slot_upd(2)[OF wf] by (simp add: setAlive_def)
  ultimately show ?thesis
    using assms(1) free fresh by (simp add: ent_inv_def)
qed

section \<open>Handing out\<close>

lemma taken_free_le: "taken_free t \<le> length (et_free t)"
  by (simp add: taken_free_def)

text \<open>A reserve takes the last untaken free entity, else the first untaken fresh index, else none.\<close>

lemma reserve_cases:
  assumes "reserve t = (e, t')"
  shows "t' = t\<lparr>et_reserved := et_reserved t + 1\<rparr>"
    and "et_reserved t < length (et_free t) \<Longrightarrow>
      untaken t = untaken t' @ [e] \<and> taken t' = e # taken t \<and> taken_fresh t' = taken_fresh t"
    and "length (et_free t) \<le> et_reserved t \<Longrightarrow> untaken t = [] \<and> untaken t' = [] \<and> taken t' = taken t
      \<and> taken_fresh t' \<ge> taken_fresh t
      \<and> (if et_fresh t + (et_reserved t - length (et_free t)) \<le> unat (et_last t)
          then taken_fresh t = et_reserved t - length (et_free t) \<and> taken_fresh t' = taken_fresh t + 1
               \<and> e = makeEntity (of_nat (et_fresh t + taken_fresh t)) 1
          else e = NoEntity)"
proof -
  show t': "t' = t\<lparr>et_reserved := et_reserved t + 1\<rparr>"
    using assms by (auto simp: reserve_def Let_def split: if_splits)
  show "untaken t = untaken t' @ [e] \<and> taken t' = e # taken t \<and> taken_fresh t' = taken_fresh t"
    if lt: "et_reserved t < length (et_free t)"
  proof -
    define k where "k = length (et_free t) - 1 - et_reserved t"
    have k: "k < length (et_free t)" "length (et_free t) - et_reserved t = Suc k"
      "length (et_free t) - Suc (et_reserved t) = k"
      using lt by (simp_all add: k_def)
    have "e = et_free t ! k" using assms lt by (simp add: reserve_def Let_def k_def)
    then show ?thesis
      using lt k by (simp add: t' untaken_def taken_def taken_free_def taken_fresh_def min_def
          take_Suc_conv_app_nth Cons_nth_drop_Suc)
  qed
  show "untaken t = [] \<and> untaken t' = [] \<and> taken t' = taken t \<and> taken_fresh t' \<ge> taken_fresh t
      \<and> (if et_fresh t + (et_reserved t - length (et_free t)) \<le> unat (et_last t)
          then taken_fresh t = et_reserved t - length (et_free t) \<and> taken_fresh t' = taken_fresh t + 1
               \<and> e = makeEntity (of_nat (et_fresh t + taken_fresh t)) 1
          else e = NoEntity)"
    if ge: "length (et_free t) \<le> et_reserved t"
    using assms ge
    by (auto simp: t' reserve_def Let_def untaken_def taken_def taken_free_def taken_fresh_def)
qed

lemma reserve_inv:
  assumes "ent_inv t" and "reserve t = (e, t')"
  shows "ent_inv t'" and "e = NoEntity \<or> pending t' e"
proof -
  note rc = reserve_cases[OF assms(2)]
  have fields: "et_first t' = et_first t" "et_last t' = et_last t" "et_free t' = et_free t"
    "et_fresh t' = et_fresh t" "et_slots t' = et_slots t" "et_despawned t' = et_despawned t"
    "et_outside t' = et_outside t" "et_observing t' = et_observing t" "et_words t' = et_words t"
    by (simp_all add: rc(1))
  have views: "live_of t' = live_of t" "last_of t' = last_of t" "in_alloc t' = in_alloc t"
    "unspawned t' = unspawned t" "spawned t' = spawned t" "outside_bit t' = outside_bit t"
    using fields by (auto simp: live_of_def last_of_def slot_of_def in_alloc_def unspawned_def spawned_def
        outside_bit_def fun_eq_iff)
  have fo: "free_ok t" and fr: "fresh_ok t" using assms(1) by (auto simp: ent_inv_def)
  have mono: "taken_fresh t \<le> taken_fresh t'"
    using rc(2,3) by (cases "et_reserved t < length (et_free t)") auto
  have "free_ok t'"
    using fo rc(2,3) by (cases "et_reserved t < length (et_free t)") (auto simp: free_ok_def fields views)
  moreover have "fresh_ok t'"
    using fresh_okD[OF fr] mono unfolding fresh_ok_def Let_def fields views
    by (meson add_left_mono less_le_trans)
  moreover have "despawned_ok t'"
    using assms(1) by (simp add: ent_inv_def despawned_ok_def fields views)
  ultimately show "ent_inv t'"
    using assms(1) by (simp add: ent_inv_def fields views)
  show "e = NoEntity \<or> pending t' e"
  proof (cases "et_reserved t < length (et_free t)")
    case True
    then have u: "untaken t = untaken t' @ [e]" using rc(2) by simp
    then have e: "e \<in> set (et_free t)" "unspawned t e"
      using fo free_split[of t] by (auto simp: free_ok_def)
    have "distinct (map e_index (untaken t))"
      using fo free_split[of t] by (metis free_ok_def distinct_append map_append)
    then have "e_index e \<notin> e_index ` set (untaken t')" using u by simp
    then show ?thesis
      using e fo by (auto simp: pending_def views fields free_ok_def)
  next
    case False
    then have r: "untaken t' = []" "if et_fresh t + (et_reserved t - length (et_free t)) \<le> unat (et_last t)
        then taken_fresh t = et_reserved t - length (et_free t) \<and> taken_fresh t' = taken_fresh t + 1
             \<and> e = makeEntity (of_nat (et_fresh t + taken_fresh t)) 1
        else e = NoEntity"
      using rc(3) by auto
    show ?thesis
    proof (cases "et_fresh t + (et_reserved t - length (et_free t)) \<le> unat (et_last t)")
      case True
      define n where "n = et_fresh t + taken_fresh t"
      have n: "n \<le> unat (et_last t)" "taken_fresh t' = taken_fresh t + 1" "e = makeEntity (of_nat n) 1"
        using True r(2) by (simp_all add: n_def)
      then have "unspawned t e"
        using fresh_okD[OF fr _ n(1)] by (simp add: n_def)
      moreover have "unat (e_index e) = n" using alloc_of_nat[OF n(1)] n(3) by simp
      moreover have "unat (et_first t) \<le> et_fresh t" using assms(1) by (simp add: ent_inv_def)
      ultimately show ?thesis
        using n(1,2) r(1) by (auto simp: pending_def views fields alloc_unat n_def)
    next
      case False
      then show ?thesis using r(2) by simp
    qed
  qed
qed

text \<open>Folding reservations in without taking any back.\<close>

lemma settle_plain:
  assumes "settleReservations False t = t'"
  shows "t' = t\<lparr>et_free := untaken t, et_fresh := et_fresh t + taken_fresh t, et_reserved := 0\<rparr>"
proof (cases "et_reserved t = 0")
  case True
  then show ?thesis
    using assms by (simp add: settleReservations_def untaken_def taken_free_def taken_fresh_def)
next
  case False
  then show ?thesis
    using assms by (simp add: settleReservations_def Let_def untaken_def taken_free_def taken_fresh_def)
qed

lemma settle_plain_inv:
  assumes "ent_inv t" and "\<not> et_observing t"
  shows "ent_inv (settleReservations False t)"
proof -
  define t' where "t' = settleReservations False t"
  note t' = settle_plain[OF t'_def[symmetric]]
  have fields: "et_first t' = et_first t" "et_last t' = et_last t" "et_free t' = untaken t"
    "et_fresh t' = et_fresh t + taken_fresh t" "et_slots t' = et_slots t" "et_despawned t' = et_despawned t"
    "et_outside t' = et_outside t" "et_observing t' = et_observing t" "et_words t' = et_words t"
    "et_reserved t' = 0"
    by (simp_all add: t')
  have views: "live_of t' = live_of t" "last_of t' = last_of t" "in_alloc t' = in_alloc t"
    "unspawned t' = unspawned t" "spawned t' = spawned t" "outside_bit t' = outside_bit t"
    using fields by (auto simp: live_of_def last_of_def slot_of_def in_alloc_def unspawned_def spawned_def
        outside_bit_def fun_eq_iff)
  have un: "untaken t' = untaken t" "taken t' = []" "taken_fresh t' = 0"
    using fields by (simp_all add: untaken_def taken_def taken_free_def taken_fresh_def)
  have fo: "free_ok t" and fr: "fresh_ok t" using assms(1) by (auto simp: ent_inv_def)
  have sub: "set (untaken t) \<subseteq> set (et_free t)" "distinct (map e_index (untaken t))"
    using fo free_split[of t] by (auto simp: free_ok_def)
  have "free_ok t'"
    using fo sub by (fastforce simp: free_ok_def fields views un)
  moreover have "fresh_ok t'"
    unfolding fresh_ok_def Let_def
  proof (intro allI impI)
    fix n assume "et_fresh t' \<le> n \<and> n \<le> unat (et_last t')"
    then have "et_fresh t \<le> n" "n \<le> unat (et_last t)" "\<not> n < et_fresh t + taken_fresh t"
      by (simp_all add: fields)
    then show "unspawned t' (makeEntity (of_nat n) 1) \<and> last_of t' (of_nat n) = 0 \<or>
        n < et_fresh t' + taken_fresh t' \<and> spawned t' (makeEntity (of_nat n) 1)"
      using fresh_okD[OF fr, of n] by (simp add: views)
  qed
  moreover have "despawned_ok t'"
    using assms(1) by (simp add: ent_inv_def despawned_ok_def fields views)
  moreover have "et_fresh t' \<le> unat (et_last t') + 1" "unat (et_first t') \<le> et_fresh t'"
    using assms(1) by (auto simp: ent_inv_def fields taken_fresh_def)
  ultimately show ?thesis
    using assms(1) unfolding t'_def[symmetric] by (simp add: ent_inv_def fields views)
qed

section \<open>Despawning\<close>

lemma index_63: "unat (i AND 63 :: u32) = unat (i AND mask 6)"
  by (simp add: mask_eq_exp_minus_1)

lemma outside_split: "drop_bit 6 i = drop_bit 6 j \<Longrightarrow> unat (i AND 63) = unat (j AND 63) \<Longrightarrow> i = (j :: u32)"
proof -
  assume "drop_bit 6 i = drop_bit 6 j" "unat (i AND 63) = unat (j AND 63)"
  moreover have "i = push_bit 6 (drop_bit 6 i) OR (i AND mask 6)" for i :: u32
    by (rule bit_word_eqI) (auto simp: bit_simps)
  ultimately show "i = j" by (metis index_63 word_unat_eq_iff)
qed

lemma and_63_less: "unat (i AND 63 :: u32) < 64"
proof -
  have "i AND 63 \<le> (63 :: u32)" by (rule word_and_le1)
  then show ?thesis by (simp add: word_le_nat_alt)
qed

lemma outside_bit_iff:
  "outside_bit t i \<longleftrightarrow> bit (it_get 0 (et_outside t) (drop_bit 6 i)) (unat (i AND 63))"
  using and_single_bit_iff[of "unat (i AND 63)" "it_get 0 (et_outside t) (drop_bit 6 i)"] and_63_less[of i]
  by (auto simp: outside_bit_def it_get_def split: option.splits)

lemma outside_upd:
  assumes "it_wf (et_outside t)"
  shows "outside_bit (upd_outside (\<lambda>w b. w OR b) i t) j \<longleftrightarrow> j = i \<or> outside_bit t j"
    and "outside_bit (upd_outside (\<lambda>w b. w AND NOT b) i t) j \<longleftrightarrow> j \<noteq> i \<and> outside_bit t j"
  using assms and_63_less[of i] and_63_less[of j] outside_split[of j i]
  by (auto simp: outside_bit_iff upd_outside_def table.put_lookup bit_simps)

lemma upd_outside_fields [simp]:
  "et_words (upd_outside f i t) = et_words t" "et_first (upd_outside f i t) = et_first t"
  "et_last (upd_outside f i t) = et_last t" "et_free (upd_outside f i t) = et_free t"
  "et_reserved (upd_outside f i t) = et_reserved t" "et_fresh (upd_outside f i t) = et_fresh t"
  "et_observing (upd_outside f i t) = et_observing t" "et_despawned (upd_outside f i t) = et_despawned t"
  "et_slots (upd_outside f i t) = et_slots t"
  by (simp_all add: upd_outside_def)

text \<open>What is the same in two tables that agree on their slots, lists, range and counts.\<close>

lemma ent_views:
  assumes "et_slots t' = et_slots t" and "et_words t' = et_words t" and "et_first t' = et_first t"
    and "et_last t' = et_last t"
  shows "live_of t' = live_of t" "last_of t' = last_of t" "in_alloc t' = in_alloc t" "slot_of t' = slot_of t"
  using assms by (simp_all add: live_of_def last_of_def slot_of_def in_alloc_def fun_eq_iff)

text \<open>A live index is below the fresh ones not taken, and no free entity not spawned has it.\<close>

lemma live_index_used:
  assumes "ent_inv t" and "last_of t i \<noteq> 0" and "in_alloc t i"
  shows "unat i < et_fresh t + taken_fresh t"
proof (rule ccontr)
  assume "\<not> unat i < et_fresh t + taken_fresh t"
  then have "et_fresh t \<le> unat i" "unat i \<le> unat (et_last t)"
    using assms(3) by (simp_all add: alloc_unat)
  from fresh_okD[OF _ this] show False
    using assms \<open>\<not> unat i < et_fresh t + taken_fresh t\<close> by (simp add: ent_inv_def)
qed

lemma live_last: "ent_inv t \<Longrightarrow> live_of t i \<noteq> 0 \<Longrightarrow> last_of t i = live_of t i"
  by (metis ent_inv_def)

definition clear_slot :: "u32 \<Rightarrow> entity_table \<Rightarrow> entity_table" where
  "clear_slot i t = upd_slot t i (\<lambda>s. s\<lparr>es_mask := zero_mask (et_words t), es_live := 0\<rparr>)"

lemma clear_slot_views:
  assumes "it_wf (et_slots t)"
  shows "live_of (clear_slot i t) j = (if j = i then 0 else live_of t j)"
    and "last_of (clear_slot i t) j = last_of t j" and "it_wf (et_slots (clear_slot i t))"
    and "in_alloc (clear_slot i t) j = in_alloc t j"
  using slot_upd[OF assms] by (simp_all add: clear_slot_def live_of_def last_of_def in_alloc_def)

lemma clear_slot_fields [simp]:
  "et_words (clear_slot i t) = et_words t" "et_first (clear_slot i t) = et_first t"
  "et_last (clear_slot i t) = et_last t" "et_free (clear_slot i t) = et_free t"
  "et_reserved (clear_slot i t) = et_reserved t" "et_fresh (clear_slot i t) = et_fresh t"
  "et_observing (clear_slot i t) = et_observing t" "et_despawned (clear_slot i t) = et_despawned t"
  "et_outside (clear_slot i t) = et_outside t"
  by (simp_all add: clear_slot_def)

text \<open>An observing table: the index joins the window's despawned ones.\<close>

lemma despawn_observed_inv:
  assumes "ent_inv t" and "et_observing t" and "live_of t i \<noteq> 0"
    and "t' = (clear_slot i t)\<lparr>et_despawned := et_despawned t @ [i]\<rparr>"
    and "t'' = (if in_alloc t i then t' else upd_outside (\<lambda>w b. w OR b) i t')"
  shows "ent_inv t''"
proof -
  have wf: "it_wf (et_slots t)" "it_wf (et_outside t)" using assms(1) by (simp_all add: ent_inv_def)
  note cv = clear_slot_views[OF wf(1), of i]
  have fields: "et_first t'' = et_first t" "et_last t'' = et_last t" "et_free t'' = et_free t"
    "et_fresh t'' = et_fresh t" "et_despawned t'' = et_despawned t @ [i]" "et_reserved t'' = et_reserved t"
    "et_observing t'' = et_observing t" "et_slots t'' = et_slots (clear_slot i t)" "et_words t'' = et_words t"
    by (simp_all add: assms(4,5))
  have ev: "live_of t'' = live_of (clear_slot i t)" "last_of t'' = last_of (clear_slot i t)" "in_alloc t'' = in_alloc (clear_slot i t)"
    using ent_views(1-3)[of t'' "clear_slot i t"] fields by simp_all
  have views: "live_of t'' j = (if j = i then 0 else live_of t j)" "last_of t'' j = last_of t j"
    "in_alloc t'' j = in_alloc t j" for j
    using cv by (simp_all add: ev)
  note counts = count_cong[of t'' t, OF fields(6,3,2,4)]
  have iD: "i \<notin> set (et_despawned t)"
    using assms(1,3) by (auto simp: ent_inv_def despawned_ok_def)
  have un: "unspawned t'' e = unspawned t e" for e
    using assms(3) by (auto simp: unspawned_def views fields)
  have sp: "spawned t'' e = spawned t e" for e
    using assms(3) by (auto simp: spawned_def views fields)
  have "free_ok t''"
    using assms(1) by (simp add: ent_inv_def free_ok_def fields counts un sp views)
  moreover have "fresh_ok t''"
    using assms(1) by (simp add: ent_inv_def fresh_ok_def fields counts un sp views)
  moreover have "despawned_ok t''"
  proof -
    have out: "outside_bit t' j = outside_bit t j" for j
      by (rule outside_cong) (simp add: assms(4))
    have "it_wf (et_outside t')" using wf by (simp add: assms(4))
    from outside_upd(1)[OF this]
    have "outside_bit t'' j \<longleftrightarrow> outside_bit t j \<or> j = i \<and> \<not> in_alloc t i" for j
      by (auto simp: assms(5) out)
    then show ?thesis
      using assms(1,2) iD live_last[OF assms(1,3)] assms(3)
      by (auto simp: ent_inv_def despawned_ok_def fields views)
  qed
  moreover have "it_wf (et_slots t'')" "it_wf (et_outside t'')"
    using cv(3) wf by (simp_all add: assms(4,5) upd_outside_def table.put_wf)
  ultimately show ?thesis
    using assms(1) by (simp add: ent_inv_def fields views)
qed

text \<open>A dead, used index with no reservations about goes back on the free list.\<close>

lemma free_index_inv:
  assumes "ent_inv t" and "et_reserved t = 0" and "live_of t i = 0" and "last_of t i \<noteq> 0"
    and "i \<notin> set (et_despawned t)" and "i \<notin> e_index ` set (et_free t)"
  shows "ent_inv (et_free_index i t)"
proof (cases "in_alloc t i")
  case True
  define f where "f = makeEntity i (nextGeneration (last_of t i))"
  define t' where "t' = t\<lparr>et_free := et_free t @ [f]\<rparr>"
  have t': "et_free_index i t = t'" using True by (simp add: et_free_index_def t'_def f_def last_of_def)
  have fields: "et_first t' = et_first t" "et_last t' = et_last t" "et_free t' = et_free t @ [f]"
    "et_fresh t' = et_fresh t" "et_despawned t' = et_despawned t" "et_reserved t' = et_reserved t"
    "et_observing t' = et_observing t" "et_slots t' = et_slots t" "et_words t' = et_words t"
    "et_outside t' = et_outside t"
    by (simp_all add: t'_def)
  note views = ent_views[of t' t, OF fields(8,9,1,2)]
  have counts: "untaken t' = untaken t @ [f]" "taken t' = []" "taken t = []" "taken_fresh t' = taken_fresh t"
    "taken_fresh t = 0"
    using assms(2) by (simp_all add: untaken_def taken_def taken_free_def taken_fresh_def fields)
  have us: "unspawned t' e = unspawned t e" "spawned t' e = spawned t e" for e
    by (simp_all add: unspawned_def spawned_def views fields)
  have "unspawned t f" using assms(3,5) by (simp add: unspawned_def f_def)
  moreover have "unat i < et_fresh t"
    using live_index_used[OF assms(1,4) True] counts(5) by simp
  ultimately have "free_ok t'"
    using assms(1,6) True by (auto simp: ent_inv_def free_ok_def fields counts us views f_def)
  moreover have "fresh_ok t'"
    using assms(1) by (simp add: ent_inv_def fresh_ok_def fields counts us views)
  moreover have "despawned_ok t'"
    using assms(1) by (simp add: ent_inv_def despawned_ok_def fields views outside_cong[OF fields(10)])
  ultimately show ?thesis
    using assms(1) unfolding t' by (simp add: ent_inv_def fields views)
qed (use assms(1) in \<open>simp add: et_free_index_def\<close>)

lemma clear_slot_inv:
  assumes "ent_inv t" and "et_reserved t = 0" and "live_of t i \<noteq> 0"
  shows "ent_inv (clear_slot i t)" and "i \<notin> e_index ` set (et_free t)"
proof -
  have wf: "it_wf (et_slots t)" using assms(1) by (simp add: ent_inv_def)
  note cv = clear_slot_views[OF wf, of i]
  let ?t = "clear_slot i t"
  have tf: "taken_fresh t = 0" "taken t = []" using assms(2) by (simp_all add: taken_fresh_def taken_def taken_free_def)
  note counts = count_cong[of ?t t, simplified]
  have un: "unspawned ?t e = unspawned t e" if "e_index e \<noteq> i" for e
    using that by (simp add: unspawned_def cv)
  have "et_free t = untaken t" using free_split[of t] tf by simp
  then have dead: "\<And>e. e \<in> set (et_free t) \<Longrightarrow> unspawned t e"
    using assms(1) by (simp add: ent_inv_def free_ok_def)
  show notin: "i \<notin> e_index ` set (et_free t)"
  proof
    assume "i \<in> e_index ` set (et_free t)"
    then obtain e where "e \<in> set (et_free t)" "e_index e = i" by blast
    then show False using dead assms(3) by (auto simp: unspawned_def)
  qed
  have "unspawned ?t e" if "e \<in> set (untaken t)" for e
    using that dead un notin \<open>et_free t = untaken t\<close> by (metis image_eqI)
  then have "free_ok ?t"
    using assms(1) by (simp add: ent_inv_def free_ok_def counts tf cv)
  moreover have "fresh_ok ?t"
    unfolding fresh_ok_def Let_def
  proof (intro allI impI)
    fix n assume "et_fresh ?t \<le> n \<and> n \<le> unat (et_last ?t)"
    then have "unspawned t (makeEntity (of_nat n) 1) \<and> last_of t (of_nat n) = 0"
      using fresh_okD[of t n] assms(1) tf(1) by (auto simp: ent_inv_def)
    moreover from this have "of_nat n \<noteq> i" using assms(3) by (auto simp: unspawned_def)
    ultimately show "unspawned ?t (makeEntity (of_nat n) 1) \<and> last_of ?t (of_nat n) = 0
        \<or> n < et_fresh ?t + taken_fresh ?t \<and> spawned ?t (makeEntity (of_nat n) 1)"
      using un[of "makeEntity (of_nat n) 1"] by (simp add: cv)
  qed
  moreover have "despawned_ok ?t"
    using assms(1) outside_cong[of ?t t] by (auto simp: ent_inv_def despawned_ok_def cv)
  ultimately show "ent_inv ?t"
    using assms(1) cv by (simp add: ent_inv_def)
qed

lemma settle_clear: "settleReservations False (clear_slot i t) = clear_slot i (settleReservations False t)"
proof -
  have c: "untaken (clear_slot i t) = untaken t" "taken_fresh (clear_slot i t) = taken_fresh t"
    using count_cong[of "clear_slot i t" t] by simp_all
  have "settleReservations False (clear_slot i t) =
      (clear_slot i t)\<lparr>et_free := untaken t, et_fresh := et_fresh t + taken_fresh t, et_reserved := 0\<rparr>"
    using settle_plain[of "clear_slot i t", OF refl] by (simp add: c)
  also have "\<dots> = clear_slot i (t\<lparr>et_free := untaken t, et_fresh := et_fresh t + taken_fresh t, et_reserved := 0\<rparr>)"
    by (cases t) (simp add: clear_slot_def upd_slot_def slot_of_def)
  finally show ?thesis
    using settle_plain[of t, OF refl] by simp
qed

lemma despawn_inv:
  assumes "ent_inv t"
  shows "ent_inv (snd (despawn e t))"
proof (cases "alive t e")
  case True
  let ?i = "e_index e"
  have live: "live_of t ?i \<noteq> 0" using True by (simp add: alive_iff)
  show ?thesis
  proof (cases "et_observing t")
    case True
    then show ?thesis
      using despawn_observed_inv[OF assms True live refl refl] \<open>alive t e\<close>
      by (cases "in_alloc t ?i") (simp_all add: despawn_def Let_def clear_slot_def[symmetric])
  next
    case False
    define ts where "ts = settleReservations False t"
    note ts = settle_plain[OF ts_def[symmetric]]
    have inv: "ent_inv ts" using settle_plain_inv[OF assms False] by (simp add: ts_def)
    have r: "et_reserved ts = 0" "et_despawned ts = et_despawned t" by (simp_all add: ts)
    have views: "live_of ts = live_of t" "last_of ts = last_of t"
      using ent_views(1,2)[of ts t] by (simp_all add: ts)
    have wf: "it_wf (et_slots ts)" using inv by (simp add: ent_inv_def)
    have lv: "live_of ts ?i \<noteq> 0" using live by (simp add: views)
    note c = clear_slot_inv[OF inv r(1) lv] and cv = clear_slot_views[OF wf, of ?i]
    have "et_despawned t = []" using assms False by (simp add: ent_inv_def despawned_ok_def)
    then have "ent_inv (et_free_index ?i (clear_slot ?i ts))"
      using c lv live_last[OF inv lv] r by (intro free_index_inv) (simp_all add: cv)
    then show ?thesis
      using False \<open>alive t e\<close>
      by (simp add: despawn_def Let_def clear_slot_def[symmetric] settle_clear ts_def)
  qed
qed (simp add: despawn_def assms)

section \<open>The end of a window\<close>

lemma burn_spec:
  assumes "it_wf (et_slots t)" and "burn e t = (b, t')"
  shows "b \<longleftrightarrow> last_of t (e_index e) \<noteq> e_generation e"
    and "live_of t' j = live_of t j" and "last_of t' j = (if j = e_index e then e_generation e else last_of t j)"
    and "es_mask (slot_of t' j) = es_mask (slot_of t j)"
    and "it_wf (et_slots t')" and "t' = t\<lparr>et_slots := et_slots t'\<rparr>"
proof -
  have t': "t' = upd_slot t (e_index e) (\<lambda>s. s\<lparr>es_last := e_generation e\<rparr>)"
    using assms(2) by (cases "slot_of t (e_index e)") (auto simp: burn_def upd_slot_def split: if_splits)
  show "b \<longleftrightarrow> last_of t (e_index e) \<noteq> e_generation e"
    using assms(2) by (auto simp: burn_def last_of_def split: if_splits)
  show "live_of t' j = live_of t j" "last_of t' j = (if j = e_index e then e_generation e else last_of t j)"
    "es_mask (slot_of t' j) = es_mask (slot_of t j)" "it_wf (et_slots t')"
    using slot_upd[OF assms(1)] by (simp_all add: t' live_of_def last_of_def)
  show "t' = t\<lparr>et_slots := et_slots t'\<rparr>"
    by (simp add: t' upd_slot_def)
qed

text \<open>Two tables that differ in their slots and free list only, and in the slots only by the
  generations burned.\<close>

definition burned_to :: "entity list \<Rightarrow> entity_table \<Rightarrow> entity_table \<Rightarrow> bool" where
  "burned_to es t t' \<longleftrightarrow>
     it_wf (et_slots t') \<and> t' = t\<lparr>et_slots := et_slots t', et_free := et_free t'\<rparr>
     \<and> (\<forall>j. live_of t' j = live_of t j \<and> es_mask (slot_of t' j) = es_mask (slot_of t j))
     \<and> (\<forall>e \<in> set es. last_of t' (e_index e) = e_generation e)
     \<and> (\<forall>j. j \<notin> e_index ` set es \<longrightarrow> last_of t' j = last_of t j)"

lemma burned_to_cons:
  assumes "it_wf (et_slots t)" and "burn e t = (b, t1)" and "e_index e \<notin> e_index ` set es"
    and "burned_to es (t1\<lparr>et_free := f\<rparr>) t'"
  shows "burned_to (e # es) t t'"
proof -
  note b = burn_spec[OF assms(1,2)]
  have v: "live_of (t1\<lparr>et_free := f\<rparr>) = live_of t1" "last_of (t1\<lparr>et_free := f\<rparr>) = last_of t1"
    "slot_of (t1\<lparr>et_free := f\<rparr>) = slot_of t1"
    using ent_views[of "t1\<lparr>et_free := f\<rparr>" t1] by simp_all
  have "t' = t\<lparr>et_slots := et_slots t', et_free := et_free t'\<rparr>"
    using assms(4) b(6) by (cases t', cases t, cases t1) (simp add: burned_to_def)
  moreover have "last_of t' (e_index e) = e_generation e"
    using assms(3,4) b(3) by (simp add: burned_to_def v)
  ultimately show ?thesis
    using assms(4) b(2,3,4) by (auto simp: burned_to_def v)
qed

definition given_back :: "entity_table \<Rightarrow> entity list \<Rightarrow> entity list" where
  "given_back t es = map burned (filter (\<lambda>e. last_of t (e_index e) \<noteq> e_generation e) es)"

lemma given_back_cong: "(\<And>e. e \<in> set es \<Longrightarrow> last_of t (e_index e) = last_of t' (e_index e)) \<Longrightarrow> given_back t es = given_back t' es"
  unfolding given_back_def by (intro arg_cong[where f = "map burned"] filter_cong) auto

lemma reclaim_free_spec:
  assumes "it_wf (et_slots t)" and "kept \<le> i" and "i + n = length (et_free t)"
    and "distinct (map e_index (drop i (et_free t)))" and "reclaim_free i kept n t = (k, t')"
  shows "burned_to (drop i (et_free t)) t t' \<and> take k (et_free t') = take kept (et_free t) @ given_back t (drop i (et_free t))"
  using assms
proof (induction n arbitrary: i kept t)
  case 0
  then show ?case
    by (simp add: burned_to_def given_back_def)
next
  case (Suc n)
  let ?e = "et_free t ! i"
  have i: "i < length (et_free t)" using Suc.prems(3) by simp
  then have d: "drop i (et_free t) = ?e # drop (i + 1) (et_free t)" by (simp add: Cons_nth_drop_Suc)
  obtain b t1 where b: "burn ?e t = (b, t1)" by fastforce
  note bs = burn_spec[OF Suc.prems(1) b]
  define f where "f = (if b then (et_free t)[kept := burned ?e] else et_free t)"
  define t2 where "t2 = t1\<lparr>et_free := f\<rparr>"
  define k2 where "k2 = (if b then kept + 1 else kept)"
  have free1: "et_free t1 = et_free t" using arg_cong[OF bs(6), of et_free] by simp
  have rec: "reclaim_free (i + 1) k2 n t2 = (k, t')"
  proof (cases b)
    case True
    then show ?thesis using Suc.prems(5) b by (simp add: t2_def f_def k2_def free1)
  next
    case False
    have "t1\<lparr>et_free := et_free t\<rparr> = t1" using free1 by (cases t1) simp
    then show ?thesis using False Suc.prems(5) b by (simp add: t2_def f_def k2_def)
  qed
  have tail: "drop (i + 1) f = drop (i + 1) (et_free t)"
    using Suc.prems(2) by (simp add: f_def drop_update_cancel)
  have pre: "it_wf (et_slots t2)" "k2 \<le> i + 1" "i + 1 + n = length (et_free t2)"
    "distinct (map e_index (drop (i + 1) (et_free t2)))"
    using bs(5) Suc.prems(2,3,4) tail d by (auto simp: t2_def k2_def f_def)
  from Suc.IH[OF pre rec] have ih: "burned_to (drop (i + 1) (et_free t)) t2 t'"
    "take k (et_free t') = take k2 f @ given_back t2 (drop (i + 1) (et_free t))"
    using tail by (simp_all add: t2_def)
  have notin: "e_index ?e \<notin> e_index ` set (drop (i + 1) (et_free t))"
    using Suc.prems(4) d by simp
  have "burned_to (drop i (et_free t)) t t'"
    unfolding d by (rule burned_to_cons[OF Suc.prems(1) b notin]) (use ih(1) in \<open>simp add: t2_def\<close>)
  moreover have "given_back t2 (drop (i + 1) (et_free t)) = given_back t (drop (i + 1) (et_free t))"
  proof (rule given_back_cong)
    fix x assume "x \<in> set (drop (i + 1) (et_free t))"
    then have "e_index x \<noteq> e_index ?e" using notin by (metis image_eqI)
    then show "last_of t2 (e_index x) = last_of t (e_index x)"
      using bs(3) ent_views(2)[of t2 t1] by (simp add: t2_def)
  qed
  moreover have "take k2 f @ given_back t (drop (i + 1) (et_free t)) = take kept (et_free t) @ given_back t (drop i (et_free t))"
    using bs(1) Suc.prems(2) i unfolding d by (cases b) (simp_all add: f_def k2_def given_back_def take_Suc_conv_app_nth)
  ultimately show ?case using ih(2) by simp
qed

definition fresh_entities :: "nat \<Rightarrow> nat \<Rightarrow> nat \<Rightarrow> entity list" where
  "fresh_entities base i n = map (\<lambda>k. makeEntity (of_nat (base + k)) 1) [i..<i + n]"

lemma fresh_entities_simps:
  "fresh_entities base i 0 = []"
  "fresh_entities base i (Suc n) = makeEntity (of_nat (base + i)) 1 # fresh_entities base (i + 1) n"
  by (simp_all add: fresh_entities_def upt_conv_Cons del: upt_Suc)

lemma fresh_entities_distinct:
  "base + i + n \<le> 2 ^ 32 \<Longrightarrow> distinct (map e_index (fresh_entities base i n))"
  by (auto simp: fresh_entities_def distinct_map inj_on_def dest!: of_nat_u32_inj)

lemma reclaim_fresh_spec:
  assumes "it_wf (et_slots t)" and "et_fresh t + i + n \<le> 2 ^ 32" and "reclaim_fresh i n t = t'"
  shows "burned_to (fresh_entities (et_fresh t) i n) t t'
    \<and> et_free t' = et_free t @ given_back t (fresh_entities (et_fresh t) i n)"
  using assms
proof (induction n arbitrary: i t)
  case 0
  then show ?case by (simp add: burned_to_def given_back_def fresh_entities_simps)
next
  case (Suc n)
  let ?e = "makeEntity (of_nat (et_fresh t + i)) 1" and ?es = "fresh_entities (et_fresh t) (i + 1) n"
  obtain b t1 where b: "burn ?e t = (b, t1)" by fastforce
  note bs = burn_spec[OF Suc.prems(1) b]
  define t2 where "t2 = t1\<lparr>et_free := et_free t @ (if b then [burned ?e] else [])\<rparr>"
  have same: "et_free t1 = et_free t" "et_fresh t1 = et_fresh t"
    using arg_cong[OF bs(6), of et_free] arg_cong[OF bs(6), of et_fresh] by simp_all
  have idem: "t2 = t1" if "\<not> b" using that same by (cases t1) (simp add: t2_def)
  have rec: "reclaim_fresh (i + 1) n t2 = t'"
  proof (cases b)
    case True
    then show ?thesis using Suc.prems(3) b same by (simp add: t2_def)
  next
    case False
    then show ?thesis using Suc.prems(3) b idem by simp
  qed
  have "it_wf (et_slots t2)" "et_fresh t2 + (i + 1) + n \<le> 2 ^ 32"
    using bs(5) Suc.prems(2) same by (simp_all add: t2_def)
  from Suc.IH[OF this rec] have ih: "burned_to ?es t2 t'" "et_free t' = et_free t2 @ given_back t2 ?es"
    using same by (simp_all add: t2_def)
  have "distinct (map e_index (?e # ?es))"
    using fresh_entities_distinct[of "et_fresh t" i "Suc n"] Suc.prems(2) by (simp only: fresh_entities_simps)
  then have notin: "e_index ?e \<notin> e_index ` set ?es" by simp
  have "burned_to (?e # ?es) t t'"
    by (rule burned_to_cons[OF Suc.prems(1) b notin]) (use ih(1) in \<open>simp add: t2_def\<close>)
  moreover have "given_back t2 ?es = given_back t ?es"
  proof (rule given_back_cong)
    fix x assume "x \<in> set ?es"
    then have "e_index x \<noteq> e_index ?e" using notin by (metis image_eqI)
    then show "last_of t2 (e_index x) = last_of t (e_index x)"
      using bs(3) ent_views(2)[of t2 t1] by (simp add: t2_def)
  qed
  moreover have "given_back t (?e # ?es) = (if b then [burned ?e] else []) @ given_back t ?es"
    using bs(1) by (simp add: given_back_def)
  ultimately show ?case
    using ih(2) unfolding fresh_entities_simps by (simp add: t2_def)
qed

text \<open>Settling with reclaim: every reservation's generation is used up, and those never spawned are
  on the free list at the next one.\<close>

lemma burned_to_fields:
  assumes "burned_to es t t'"
  shows "et_words t' = et_words t" "et_first t' = et_first t" "et_last t' = et_last t"
    "et_reserved t' = et_reserved t" "et_fresh t' = et_fresh t" "et_observing t' = et_observing t"
    "et_despawned t' = et_despawned t" "et_outside t' = et_outside t"
  using assms by (cases t, cases t', simp add: burned_to_def)+

lemma settle_reclaim_spec:
  assumes "ent_inv t" and "et_reserved t \<noteq> 0" and "settleReservations True t = t'"
  defines "es \<equiv> fresh_entities (et_fresh t) 0 (taken_fresh t)"
  shows "et_free t' = untaken t @ given_back t (taken t) @ given_back t es"
    and "\<And>j. live_of t' j = live_of t j" and "\<And>j. es_mask (slot_of t' j) = es_mask (slot_of t j)"
    and "\<And>e. e \<in> set (taken t) \<union> set es \<Longrightarrow> last_of t' (e_index e) = e_generation e"
    and "\<And>j. j \<notin> e_index ` (set (taken t) \<union> set es) \<Longrightarrow> last_of t' j = last_of t j"
    and "it_wf (et_slots t')" and "et_fresh t' = et_fresh t + taken_fresh t" and "et_reserved t' = 0"
    and "et_words t' = et_words t" "et_first t' = et_first t" "et_last t' = et_last t"
      "et_observing t' = et_observing t" "et_despawned t' = et_despawned t" "et_outside t' = et_outside t"
proof -
  have wf: "it_wf (et_slots t)" and fo: "free_ok t" using assms(1) by (auto simp: ent_inv_def)
  let ?i = "length (et_free t) - taken_free t"
  obtain k t1 where r1: "reclaim_free ?i ?i (taken_free t) t = (k, t1)" by fastforce
  have len: "?i + taken_free t = length (et_free t)" by (simp add: taken_free_le)
  have dist: "distinct (map e_index (drop ?i (et_free t)))"
    using fo by (simp add: free_ok_def drop_map[symmetric])
  have s1: "burned_to (taken t) t t1" "take k (et_free t1) = untaken t @ given_back t (taken t)"
    using reclaim_free_spec[OF wf order_refl len dist r1] by (simp_all add: taken_def untaken_def)
  define t2 where "t2 = t1\<lparr>et_free := take k (et_free t1)\<rparr>"
  note f1 = burned_to_fields[OF s1(1)]
  have f2: "et_fresh t2 = et_fresh t" "et_slots t2 = et_slots t1" "et_words t2 = et_words t1"
    using f1 by (simp_all add: t2_def)
  have v2: "live_of t2 = live_of t1" "last_of t2 = last_of t1" "slot_of t2 = slot_of t1"
    using ent_views[of t2 t1] by (simp_all add: t2_def)
  have bound: "et_fresh t + taken_fresh t \<le> unat (et_last t) + 1"
    using assms(1) by (auto simp: ent_inv_def taken_fresh_def)
  moreover have "unat (et_last t) < 2 ^ 32" using unsigned_less[of "et_last t", where ?'a = nat] by simp
  ultimately have b32: "et_fresh t2 + 0 + taken_fresh t \<le> 2 ^ 32" using f2(1) by simp
  define t3 where "t3 = reclaim_fresh 0 (taken_fresh t) t2"
  have "it_wf (et_slots t2)" using s1(1) by (simp add: f2 burned_to_def)
  from reclaim_fresh_spec[OF this b32 t3_def[symmetric]]
  have s3: "burned_to es t2 t3" "et_free t3 = et_free t2 @ given_back t2 es"
    by (simp_all add: f2(1) es_def)
  note f3 = burned_to_fields[OF s3(1)]
  have t': "t' = t3\<lparr>et_fresh := et_fresh t3 + taken_fresh t, et_reserved := 0\<rparr>"
    using assms(2,3) r1
    by (auto simp: settleReservations_def Let_def taken_free_def[symmetric] taken_fresh_def
        t2_def t3_def)
  have v': "live_of t' = live_of t3" "last_of t' = last_of t3" "slot_of t' = slot_of t3"
    using ent_views[of t' t3] by (simp_all add: t')
  have apart: "e_index e \<notin> e_index ` set (taken t)" if e_in: "e \<in> set es" for e
  proof
    assume "e_index e \<in> e_index ` set (taken t)"
    then obtain x where x: "x \<in> set (taken t)" "e_index x = e_index e" by auto
    then have "unat (e_index e) < et_fresh t"
      using free_okD(2)[OF fo x(1)] by simp
    moreover obtain m where "m < taken_fresh t" "e = makeEntity (of_nat (et_fresh t + m)) 1"
      using e_in by (auto simp: es_def fresh_entities_def)
    moreover from this have "unat (of_nat (et_fresh t + m) :: u32) = et_fresh t + m"
      using bound by (intro alloc_of_nat[of _ t]) simp
    ultimately show False by simp
  qed
  have last2: "last_of t2 (e_index e) = last_of t (e_index e)" if "e \<in> set es" for e
    using s1(1) apart[OF that] by (simp add: v2 burned_to_def)
  have "given_back t2 es = given_back t es"
    by (rule given_back_cong) (rule last2)
  then show "et_free t' = untaken t @ given_back t (taken t) @ given_back t es"
    using s3(2) s1(2) by (simp add: t' t2_def)
  show "live_of t' j = live_of t j" "es_mask (slot_of t' j) = es_mask (slot_of t j)" for j
    using s1(1) s3(1) by (simp_all add: v' v2 burned_to_def)
  show "last_of t' (e_index e) = e_generation e" if "e \<in> set (taken t) \<union> set es" for e
  proof (cases "e \<in> set es")
    case True
    then show ?thesis using s3(1) by (simp add: v' burned_to_def)
  next
    case False
    then have "e \<in> set (taken t)" using that by simp
    moreover from this have "e_index e \<notin> e_index ` set es" using apart by (metis imageE image_eqI)
    ultimately show ?thesis using s1(1) s3(1) by (simp add: v' v2 burned_to_def)
  qed
  show "last_of t' j = last_of t j" if "j \<notin> e_index ` (set (taken t) \<union> set es)" for j
    using that s1(1) s3(1) by (simp add: v' v2 burned_to_def image_Un)
  show "it_wf (et_slots t')" "et_fresh t' = et_fresh t + taken_fresh t" "et_reserved t' = 0"
    "et_words t' = et_words t" "et_first t' = et_first t" "et_last t' = et_last t"
    "et_observing t' = et_observing t" "et_despawned t' = et_despawned t" "et_outside t' = et_outside t"
    using s3(1) f1 f3 by (simp_all add: t' t2_def burned_to_def)
qed

lemma settle_reclaim_inv:
  assumes "ent_inv t"
  shows "ent_inv (settleReservations True t)" and "et_reserved (settleReservations True t) = 0"
    and "et_despawned (settleReservations True t) = et_despawned t"
    and "live_of (settleReservations True t) = live_of t"
proof -
  have "ent_inv (settleReservations True t) \<and> et_reserved (settleReservations True t) = 0
      \<and> et_despawned (settleReservations True t) = et_despawned t \<and> live_of (settleReservations True t) = live_of t"
  proof (cases "et_reserved t = 0")
    case True
    then show ?thesis using assms by (simp add: settleReservations_def)
  next
    case False
    define t' where "t' = settleReservations True t"
    define es where "es = fresh_entities (et_fresh t) 0 (taken_fresh t)"
    note sp = settle_reclaim_spec[OF assms False t'_def[symmetric], folded es_def]
    have fo: "free_ok t" and fr: "fresh_ok t" and de: "despawned_ok t"
      and ll: "\<And>i. live_of t i = 0 \<or> live_of t i = last_of t i"
      and rng: "unat (et_first t) \<le> et_fresh t" "et_fresh t \<le> unat (et_last t) + 1" "et_first t \<le> et_last t"
      using assms by (auto simp: ent_inv_def)
    have alloc: "in_alloc t' = in_alloc t" using sp(10,11) by (simp add: in_alloc_def fun_eq_iff)
    have counts: "untaken t' = et_free t'" "taken t' = []" "taken_fresh t' = 0"
      using sp(8) by (simp_all add: untaken_def taken_def taken_free_def taken_fresh_def)
    have es_in: "\<exists>n. e = makeEntity (of_nat n) 1 \<and> et_fresh t \<le> n \<and> n < et_fresh t + taken_fresh t
        \<and> n \<le> unat (et_last t) \<and> unat (e_index e) = n" if e_in: "e \<in> set es" for e
    proof -
      obtain m where m: "m < taken_fresh t" "e = makeEntity (of_nat (et_fresh t + m)) 1"
        using e_in by (auto simp: es_def fresh_entities_def)
      have "m < unat (et_last t) + 1 - et_fresh t" using m(1) by (simp add: taken_fresh_def)
      then have "et_fresh t + m \<le> unat (et_last t)" by linarith
      then show ?thesis using m alloc_of_nat[of "et_fresh t + m" t] by (intro exI[of _ "et_fresh t + m"]) simp
    qed
    let ?R = "set (taken t) \<union> set es"
    have R: "(unspawned t e \<or> spawned t e) \<and> in_alloc t (e_index e)
        \<and> unat (e_index e) < et_fresh t + taken_fresh t" if "e \<in> ?R" for e
    proof (cases "e \<in> set es")
      case True
      then obtain n where n: "e = makeEntity (of_nat n) 1" "et_fresh t \<le> n" "n < et_fresh t + taken_fresh t"
        "n \<le> unat (et_last t)" "unat (e_index e) = n"
        using es_in by blast
      then show ?thesis using fresh_okD[OF fr n(2,4)] rng(1) by (auto simp: alloc_unat)
    next
      case False
      then have "e \<in> set (taken t)" using that by simp
      then show ?thesis using free_okD(2)[OF fo] by fastforce
    qed
    have unt: "e_index e \<notin> e_index ` ?R" if "e \<in> set (untaken t)" for e
    proof -
      have "e_index e \<notin> e_index ` set (taken t)"
        using fo that free_split[of t] by (auto simp: free_ok_def)
      moreover have "unat (e_index e) < et_fresh t"
        using free_okD(1)[OF fo that] by simp
      then have "e_index e \<notin> e_index ` set es" using es_in by fastforce
      ultimately show ?thesis by (simp add: image_Un)
    qed
    have unsp: "unspawned t e" if "e \<in> ?R" "last_of t (e_index e) \<noteq> e_generation e" for e
      using R[OF that(1)] that(2) by (auto simp: spawned_def)
    have mem: "x \<in> set (et_free t') \<Longrightarrow> x \<in> set (untaken t) \<or> (\<exists>e \<in> ?R. x = burned e \<and> unspawned t e)" for x
      using unsp unfolding sp(1) by (auto simp: given_back_def)
    have "distinct (map e_index (et_free t'))"
    proof -
      have ix: "map e_index (given_back t xs) = map e_index (filter (\<lambda>e. last_of t (e_index e) \<noteq> e_generation e) xs)" for xs
        by (simp add: given_back_def burned_def o_def)
      have ds: "distinct (map e_index (untaken t @ taken t))"
        using fo free_split[of t] by (simp add: free_ok_def)
      have "et_fresh t + 0 + taken_fresh t \<le> 2 ^ 32"
        using rng(2) unsigned_less[of "et_last t", where ?'a = nat] by (auto simp: taken_fresh_def)
      then have de: "distinct (map e_index es)"
        unfolding es_def by (rule fresh_entities_distinct)
      have "set (map e_index (taken t)) \<inter> set (map e_index es) = {}"
      proof -
        have "unat (e_index e) < et_fresh t" if "e \<in> set (taken t)" for e
          using free_okD(2)[OF fo that] by simp
        then show ?thesis using es_in by fastforce
      qed
      then show ?thesis
        using ds de unt unfolding sp(1)
        by (auto simp: ix distinct_map_filter image_Un) (use unt in force)+
    qed
    moreover have "unspawned t' x \<and> in_alloc t (e_index x) \<and> unat (e_index x) < et_fresh t'"
      if "x \<in> set (et_free t')" for x
      using mem[OF that]
    proof
      assume x: "x \<in> set (untaken t)"
      then have "unspawned t x" "x \<in> set (et_free t)" using fo free_split[of t] by (auto simp: free_ok_def)
      then show ?thesis
        using fo sp(2,5,7,13) unt[OF x] by (auto simp: free_ok_def unspawned_def)
    next
      assume "\<exists>e \<in> ?R. x = burned e \<and> unspawned t e"
      then obtain e where e: "e \<in> ?R" "x = burned e" "unspawned t e" by blast
      then show ?thesis
        using sp(2,4,7,13) R[OF e(1)] by (simp add: unspawned_def burned_def)
    qed
    ultimately have "free_ok t'"
      by (simp add: free_ok_def counts alloc)
    moreover have "fresh_ok t'"
      unfolding fresh_ok_def Let_def
    proof (intro allI impI)
      fix n assume "et_fresh t' \<le> n \<and> n \<le> unat (et_last t')"
      then have n: "et_fresh t + taken_fresh t \<le> n" "n \<le> unat (et_last t)" using sp(7,11) by simp_all
      then have old: "unspawned t (makeEntity (of_nat n) 1)" "last_of t (of_nat n) = 0"
        using fresh_okD[OF fr, of n] by auto
      have "of_nat n \<notin> e_index ` ?R"
        using R alloc_of_nat[OF n(2)] n(1) by fastforce
      then show "unspawned t' (makeEntity (of_nat n) 1) \<and> last_of t' (of_nat n) = 0
          \<or> n < et_fresh t' + taken_fresh t' \<and> spawned t' (makeEntity (of_nat n) 1)"
        using old sp(2,5,13) by (simp add: unspawned_def)
    qed
    moreover have last_nz: "last_of t' i \<noteq> 0" if "last_of t i \<noteq> 0" for i
    proof (cases "i \<in> e_index ` ?R")
      case True
      then obtain e where e: "e \<in> ?R" "i = e_index e" by blast
      then have "e_generation e \<noteq> 0"
        using R[OF e(1)] that by (auto simp: unspawned_def spawned_def)
      then show ?thesis using sp(4)[OF e(1)] e(2) by simp
    qed (use that sp(5) in simp)
    moreover have "live_of t' i = 0 \<or> live_of t' i = last_of t' i" for i
    proof (cases "i \<in> e_index ` ?R")
      case True
      then obtain e where e: "e \<in> ?R" "i = e_index e" by blast
      then show ?thesis
        using R[OF e(1)] sp(2) sp(4)[OF e(1)] ll[of i] by (auto simp: unspawned_def spawned_def)
    qed (use ll sp(2,5) in simp)
    moreover have "despawned_ok t'"
      using de sp(2,12,13) last_nz outside_cong[OF sp(14)] by (auto simp: despawned_ok_def alloc)
    moreover have "it_wf (et_outside t')" using assms sp(14) by (simp add: ent_inv_def)
    moreover have "unat (et_first t') \<le> et_fresh t'" "et_fresh t' \<le> unat (et_last t') + 1" "et_first t' \<le> et_last t'"
      using rng sp(7,10,11) by (auto simp: taken_fresh_def)
    ultimately show ?thesis
      using sp(2,6,8,13) unfolding t'_def[symmetric] by (auto simp: ent_inv_def)
  qed
  then show "ent_inv (settleReservations True t)" "et_reserved (settleReservations True t) = 0"
    "et_despawned (settleReservations True t) = et_despawned t" "live_of (settleReservations True t) = live_of t"
    by auto
qed

text \<open>Freeing the window's despawned indices, one after another.\<close>

lemma end_index_fields [simp]:
  "et_words (end_index i t) = et_words t" "et_first (end_index i t) = et_first t"
  "et_last (end_index i t) = et_last t" "et_reserved (end_index i t) = et_reserved t"
  "et_fresh (end_index i t) = et_fresh t" "et_observing (end_index i t) = et_observing t"
  "et_despawned (end_index i t) = et_despawned t" "et_slots (end_index i t) = et_slots t"
  by (simp_all add: end_index_def et_free_index_def)

lemma end_index_despawned: "end_index i (t\<lparr>et_despawned := ds\<rparr>) = (end_index i t)\<lparr>et_despawned := ds\<rparr>"
  by (simp add: end_index_def et_free_index_def in_alloc_def slot_of_def upd_outside_def)

lemma end_index_inv:
  assumes "ent_inv t" and "et_reserved t = 0" and "et_observing t" and "et_despawned t = i # ds"
  shows "ent_inv ((end_index i t)\<lparr>et_despawned := ds\<rparr>)"
proof -
  define t0 where "t0 = (if in_alloc t i then t else upd_outside (\<lambda>w b. w AND NOT b) i t)\<lparr>et_despawned := ds\<rparr>"
  have f0: "et_first t0 = et_first t" "et_last t0 = et_last t" "et_free t0 = et_free t" "et_fresh t0 = et_fresh t"
    "et_slots t0 = et_slots t" "et_words t0 = et_words t" "et_reserved t0 = 0" "et_despawned t0 = ds"
    "et_observing t0 = True"
    using assms(2,3) by (simp_all add: t0_def)
  note v0 = ent_views[of t0 t, OF f0(5,6,1,2)]
  note counts = count_cong[of t0 t, OF _ f0(3,2,4), unfolded f0(7) assms(2), OF refl]
  have tf: "taken t = []" "taken_fresh t = 0" "untaken t = et_free t"
    using assms(2) by (simp_all add: taken_def taken_fresh_def taken_free_def untaken_def)
  have D: "i \<notin> set ds" "distinct ds" "live_of t i = 0" "last_of t i \<noteq> 0"
    and out: "\<And>j. outside_bit t j \<longleftrightarrow> j \<in> insert i (set ds) \<and> \<not> in_alloc t j"
    and dead: "\<And>j. j \<in> set ds \<Longrightarrow> live_of t j = 0 \<and> last_of t j \<noteq> 0"
    using assms(1,4) by (auto simp: ent_inv_def despawned_ok_def)
  have wf: "it_wf (et_outside t)" using assms(1) by (simp add: ent_inv_def)
  have un: "unspawned t e \<Longrightarrow> unspawned t0 e" for e
    using assms(4) by (simp add: unspawned_def v0 f0)
  have "free_ok t0"
    using assms(1) un by (simp add: ent_inv_def free_ok_def f0 v0 counts tf)
  moreover have "fresh_ok t0"
    using fresh_okD[of t] assms(1) un by (auto simp: fresh_ok_def Let_def f0 v0 counts tf ent_inv_def)
  moreover have "despawned_ok t0"
  proof -
    have "outside_bit t0 j = outside_bit (if in_alloc t i then t else upd_outside (\<lambda>w b. w AND NOT b) i t) j" for j
      by (rule outside_cong) (simp add: t0_def)
    then have "outside_bit t0 j \<longleftrightarrow> j \<in> set ds \<and> \<not> in_alloc t j" for j
      using out D(1) outside_upd(2)[OF wf, of i j] by auto
    then show ?thesis using D dead by (simp add: despawned_ok_def f0 v0)
  qed
  moreover have "it_wf (et_slots t0)" "it_wf (et_outside t0)"
    using assms(1) wf by (simp_all add: t0_def upd_outside_def table.put_wf ent_inv_def)
  ultimately have inv0: "ent_inv t0"
    using assms(1) by (simp add: ent_inv_def f0 v0)
  have notin: "i \<notin> e_index ` set (et_free t0)"
    using assms(1,4) tf by (auto simp: ent_inv_def free_ok_def unspawned_def f0)
  have "ent_inv (et_free_index i t0)"
    by (rule free_index_inv[OF inv0]) (use D notin in \<open>simp_all add: f0 v0\<close>)
  moreover have "et_free_index i t0 = (end_index i t)\<lparr>et_despawned := ds\<rparr>"
    by (simp add: t0_def end_index_def et_free_index_def in_alloc_def slot_of_def)
  ultimately show ?thesis by simp
qed

lemma end_indexes_inv:
  assumes "ent_inv t" and "et_reserved t = 0" and "et_observing t" and "et_despawned t = ds"
  shows "ent_inv ((fold end_index ds t)\<lparr>et_despawned := []\<rparr>)"
  using assms
proof (induction ds arbitrary: t)
  case Nil
  then show ?case by (cases t) simp
next
  case (Cons i ds)
  let ?t = "(end_index i t)\<lparr>et_despawned := ds\<rparr>"
  have "ent_inv ((fold end_index ds ?t)\<lparr>et_despawned := []\<rparr>)"
    by (rule Cons.IH) (use end_index_inv[OF Cons.prems] Cons.prems in simp_all)
  moreover have "fold end_index ds (u\<lparr>et_despawned := xs\<rparr>) = (fold end_index ds u)\<lparr>et_despawned := xs\<rparr>" for u xs
    by (induction ds arbitrary: u) (simp_all add: end_index_despawned)
  ultimately show ?case by simp
qed

lemma endWindow_inv:
  assumes "ent_inv t"
  shows "ent_inv (snd (endWindow t))"
proof (cases "et_observing t")
  case True
  note sr = settle_reclaim_inv[OF assms]
  have "et_observing (settleReservations True t)"
  proof (cases "et_reserved t = 0")
    case True
    then show ?thesis using \<open>et_observing t\<close> by (simp add: settleReservations_def)
  next
    case False
    then show ?thesis using settle_reclaim_spec(12)[OF assms False refl] \<open>et_observing t\<close> by simp
  qed
  from end_indexes_inv[OF sr(1,2) this refl] show ?thesis
    using True by (simp add: endWindow_def Let_def)
next
  case False
  define t1 where "t1 = settleReservations False t"
  have inv: "ent_inv t1" using settle_plain_inv[OF assms False] by (simp add: t1_def)
  let ?t = "t1\<lparr>et_observing := True\<rparr>"
  have v: "live_of ?t = live_of t1" "last_of ?t = last_of t1" "in_alloc ?t = in_alloc t1"
    using ent_views[of ?t t1] by simp_all
  have c: "taken_fresh ?t = taken_fresh t1" "untaken ?t = untaken t1" "taken ?t = taken t1"
    using count_cong[of ?t t1] by simp_all
  have us: "unspawned ?t = unspawned t1" "spawned ?t = spawned t1" "outside_bit ?t = outside_bit t1"
    by (simp_all add: unspawned_def spawned_def v outside_bit_def fun_eq_iff)
  have "ent_inv ?t"
    using inv by (simp add: ent_inv_def free_ok_def fresh_ok_def despawned_ok_def v c us)
  then show ?thesis using False by (simp add: endWindow_def t1_def)
qed

lemma spawn_inv:
  assumes "ent_inv t"
  shows "ent_inv (snd (spawn t))"
proof -
  define t1 where "t1 = (if et_observing t then t else settleReservations False t)"
  have inv1: "ent_inv t1" using assms settle_plain_inv[OF assms] by (simp add: t1_def)
  obtain e t2 where r: "reserve t1 = (e, t2)" by fastforce
  note ri = reserve_inv[OF inv1 r]
  have "ent_inv (setAlive t2 e)" if "e \<noteq> NoEntity"
    using ri that by (intro setAlive_inv) (auto simp: pending_def unspawned_def)
  then show ?thesis
    using ri(1) r by (simp add: spawn_def Let_def t1_def[symmetric])
qed

lemma spawnReserved_inv:
  assumes "ent_inv t" and "pending t e"
  shows "ent_inv (snd (spawnReserved e t))"
proof -
  have "ent_inv (setAlive t e)"
    using assms by (intro setAlive_inv) (auto simp: pending_def unspawned_def)
  then show ?thesis
    using assms(1) by (simp add: spawnReserved_def split: option.splits)
qed

lemma place_inv:
  assumes "ent_inv t" and "place e t = Inr t'"
  shows "ent_inv t'" and "\<not> in_alloc t (e_index e)" and "t' = setAlive t e"
proof -
  have p: "e_generation e \<noteq> 0" "\<not> in_alloc t (e_index e)" "\<not> outside_bit t (e_index e)" "t' = setAlive t e"
    using assms(2) by (auto simp: place_def split: if_splits)
  moreover from p have "e_index e \<notin> set (et_despawned t)"
    using assms(1) by (simp add: ent_inv_def despawned_ok_def)
  ultimately show "ent_inv t'" "\<not> in_alloc t (e_index e)" "t' = setAlive t e"
    using setAlive_inv[OF assms(1)] by auto
qed

section \<open>First tables, masks and shrinking\<close>

lemma prepared_slots:
  assumes "it_wf t0"
  shows "it_wf (fold (\<lambda>i t. it_create z t (f i)) is t0)
    \<and> it_get z (fold (\<lambda>i t. it_create z t (f i)) is t0) j = it_get z t0 j"
  using assms by (induction "is" arbitrary: t0) (simp_all add: it_create_page)

lemma et_init_inv:
  assumes "first \<le> final"
  shows "ent_inv (et_init words first final prepared)"
proof -
  let ?t = "et_init words first final prepared"
  have wf: "it_wf (et_slots ?t)" and zero: "slot_of ?t i = zero_slot words" for i
    using prepared_slots[of empty_table "zero_slot words" "\<lambda>i. first + of_nat i" "[0..<prepared]"]
    by (simp_all add: et_init_def slot_of_def)
  have v: "live_of ?t i = 0" "last_of ?t i = 0" for i
    using zero by (simp_all add: live_of_def last_of_def zero_slot_def)
  have f: "et_free ?t = []" "et_despawned ?t = []" "et_reserved ?t = 0" "et_outside ?t = empty_table"
    "et_fresh ?t = unat first" "et_first ?t = first" "et_last ?t = final" "et_observing ?t = False"
    by (simp_all add: et_init_def)
  have out: "\<not> outside_bit ?t i" for i by (simp add: outside_bit_iff f)
  have "unat first \<le> unat final + 1" using assms by (simp add: word_le_nat_alt)
  then show ?thesis
    using assms wf
    by (simp add: ent_inv_def free_ok_def fresh_ok_def despawned_ok_def f v out untaken_def taken_def unspawned_def)
qed

lemma mask_upd_inv:
  assumes "ent_inv t" and "\<And>s. es_live (f s) = es_live s \<and> es_last (f s) = es_last s"
  shows "ent_inv (upd_slot t i f)" and "live_of (upd_slot t i f) = live_of t" and "last_of (upd_slot t i f) = last_of t"
proof -
  have wf: "it_wf (et_slots t)" using assms(1) by (simp add: ent_inv_def)
  let ?t = "upd_slot t i f"
  show v: "live_of ?t = live_of t" "last_of ?t = last_of t"
    using slot_upd(1)[OF wf] assms(2) by (auto simp: live_of_def last_of_def fun_eq_iff)
  have c: "taken_fresh ?t = taken_fresh t" "untaken ?t = untaken t" "taken ?t = taken t"
    using count_cong[of ?t t] by simp_all
  have us: "unspawned ?t = unspawned t" "spawned ?t = spawned t" "outside_bit ?t = outside_bit t" "in_alloc ?t = in_alloc t"
    by (simp_all add: unspawned_def spawned_def v outside_bit_def in_alloc_def fun_eq_iff)
  show "ent_inv ?t"
    using assms(1) slot_upd(2)[OF wf] by (simp add: ent_inv_def free_ok_def fresh_ok_def despawned_ok_def v c us)
qed

lemma et_shrink_inv:
  assumes "ent_inv t"
  shows "ent_inv (et_shrink t)" and "live_of (et_shrink t) = live_of t" and "last_of (et_shrink t) = last_of t"
proof -
  let ?t = "et_shrink t"
  have wf: "it_wf (et_outside t)" using assms by (simp add: ent_inv_def)
  have f: "et_free ?t = et_free t" "et_despawned ?t = et_despawned t" "et_reserved ?t = et_reserved t"
    "et_fresh ?t = et_fresh t" "et_first ?t = et_first t" "et_last ?t = et_last t" "et_observing ?t = et_observing t"
    "et_slots ?t = et_slots t" "et_words ?t = et_words t" "et_outside ?t = it_shrink 0 (et_outside t)"
    by (simp_all add: et_shrink_def)
  show v: "live_of ?t = live_of t" "last_of ?t = last_of t"
    using ent_views[OF f(8,9,5,6)] by simp_all
  note c = count_cong[OF f(3,1,6,4)]
  have us: "unspawned ?t = unspawned t" "spawned ?t = spawned t" "in_alloc ?t = in_alloc t" "outside_bit ?t = outside_bit t"
    using wf by (auto simp: unspawned_def spawned_def v f outside_bit_iff in_alloc_def table.shrink_lookup fun_eq_iff)
  show "ent_inv ?t"
    using assms wf by (simp add: ent_inv_def free_ok_def fresh_ok_def despawned_ok_def v c us f table.shrink_wf)
qed

lemma spawnReserved_refused: "\<not> fst (spawnReserved e t) \<Longrightarrow> snd (spawnReserved e t) = t"
  by (auto simp: spawnReserved_def split: option.splits if_splits)

fun reserve_many :: "nat \<Rightarrow> entity_table \<Rightarrow> entity list \<times> entity_table" where
  "reserve_many 0 t = ([], t)"
| "reserve_many (Suc n) t =
     (case reserve t of (e, t1) \<Rightarrow> case reserve_many n t1 of (es, t2) \<Rightarrow> (e # es, t2))"

definition used_up :: "entity_table \<Rightarrow> bool" where
  "used_up t \<longleftrightarrow> untaken t = [] \<and> et_fresh t + taken_fresh t = unat (et_last t) + 1"

text \<open>A reservation stays pending while others are taken, and keeps them off its index.\<close>

lemma reserve_keeps:
  assumes "ent_inv t" and "reserve t = (e, t')"
  shows "pending t f \<Longrightarrow> pending t' f \<and> (e = NoEntity \<or> e_index e \<noteq> e_index f)"
    and "live_of t' = live_of t" and "last_of t' = last_of t" and "in_alloc t' = in_alloc t"
    and "et_despawned t' = et_despawned t" and "used_up t \<longleftrightarrow> e = NoEntity" and "used_up t \<Longrightarrow> used_up t'"
proof -
  note rc = reserve_cases[OF assms(2)]
  show v: "live_of t' = live_of t" "last_of t' = last_of t" "in_alloc t' = in_alloc t" "et_despawned t' = et_despawned t"
    using ent_views[of t' t] by (simp_all add: rc(1))
  have us: "unspawned t' = unspawned t" by (simp add: unspawned_def v fun_eq_iff)
  have fresh: "et_fresh t' = et_fresh t" "et_last t' = et_last t" by (simp_all add: rc(1))
  have rng: "et_fresh t \<le> unat (et_last t) + 1" using assms(1) by (simp add: ent_inv_def)
  have e0: "e \<noteq> NoEntity" if "et_reserved t < length (et_free t)"
  proof -
    have "unspawned t e" using free_okD(1)[of t e] rc(2)[OF that] assms(1) by (simp add: ent_inv_def)
    then show ?thesis by (auto simp: unspawned_def)
  qed
  show "pending t' f \<and> (e = NoEntity \<or> e_index e \<noteq> e_index f)" if p: "pending t f"
  proof (cases "et_reserved t < length (et_free t)")
    case True
    then show ?thesis using p rc(2) by (auto simp: pending_def v us fresh)
  next
    case False
    have "unat (e_index e) = et_fresh t + taken_fresh t" if "e \<noteq> NoEntity"
    proof -
      have "et_fresh t + taken_fresh t \<le> unat (et_last t)" "e = makeEntity (of_nat (et_fresh t + taken_fresh t)) 1"
        using that rc(3) False by (auto split: if_splits)
      then show ?thesis using alloc_of_nat[of "et_fresh t + taken_fresh t" t] by (simp del: of_nat_add)
    qed
    then have "e = NoEntity \<or> e_index e \<noteq> e_index f" using p by (auto simp: pending_def)
    moreover have "untaken t' = []" "taken_fresh t \<le> taken_fresh t'" using rc(3) False by auto
    ultimately show ?thesis using p by (auto simp: pending_def v us fresh)
  qed
  show used: "used_up t \<longleftrightarrow> e = NoEntity"
  proof (cases "et_reserved t < length (et_free t)")
    case True
    then show ?thesis using e0 rc(2) by (auto simp: used_up_def)
  next
    case False
    have ne: "makeEntity i 1 \<noteq> NoEntity" for i
      by (metis NoEntity_parts(2) entity_parts(2) one_neq_zero)
    have tf: "taken_fresh t = min (et_reserved t - length (et_free t)) (unat (et_last t) + 1 - et_fresh t)"
      using False by (simp add: taken_fresh_def taken_free_def)
    show ?thesis
    proof (cases "et_fresh t + (et_reserved t - length (et_free t)) \<le> unat (et_last t)")
      case True
      then show ?thesis using rc(3) False ne by (auto simp: used_up_def)
    next
      case no: False
      then have "et_fresh t + taken_fresh t = unat (et_last t) + 1" using rng tf by linarith
      then show ?thesis using rc(3) False no by (simp add: used_up_def)
    qed
  qed
  show "used_up t'" if u: "used_up t"
  proof -
    have "\<not> et_reserved t < length (et_free t)" using u rc(2) by (auto simp: used_up_def)
    then have c: "untaken t' = []" "taken_fresh t \<le> taken_fresh t'" using rc(3) by auto
    have "taken_fresh t' \<le> unat (et_last t') + 1 - et_fresh t'" by (simp add: taken_fresh_def)
    then show ?thesis using c u rng by (auto simp: used_up_def fresh)
  qed
qed

lemma reserve_many_spec:
  assumes "ent_inv t" and "reserve_many n t = (es, t')" and "\<And>f. f \<in> F \<Longrightarrow> pending t f"
  defines "got \<equiv> filter (\<lambda>e. e \<noteq> NoEntity) es"
  shows "distinct (map e_index got) \<and> e_index ` F \<inter> e_index ` set got = {} \<and> ent_inv t'
    \<and> (\<forall>e \<in> set got. in_alloc t (e_index e) \<and> unspawned t e) \<and> (NoEntity \<in> set es \<longrightarrow> used_up t')"
  using assms(1-3) unfolding got_def
proof (induction n arbitrary: t es F)
  case 0
  then show ?case by simp
next
  case (Suc n)
  obtain e t1 where r: "reserve t = (e, t1)" by fastforce
  obtain es' where rm: "reserve_many n t1 = (es', t')" "es = e # es'"
    using Suc.prems(2) r by (auto split: prod.splits)
  note ri = reserve_inv[OF Suc.prems(1) r] and rk = reserve_keeps[OF Suc.prems(1) r]
  have us: "unspawned t1 = unspawned t" using rk(2,3,5) by (simp add: unspawned_def fun_eq_iff)
  define F' where "F' = (if e = NoEntity then F else insert e F)"
  have pend: "pending t1 f" if "f \<in> F'" for f
    using that ri(2) rk(1) Suc.prems(3) by (auto simp: F'_def split: if_splits)
  have ih: "distinct (map e_index (filter (\<lambda>e. e \<noteq> NoEntity) es'))"
    "e_index ` F' \<inter> e_index ` set (filter (\<lambda>e. e \<noteq> NoEntity) es') = {}" "ent_inv t'"
    "\<forall>e \<in> set (filter (\<lambda>e. e \<noteq> NoEntity) es'). in_alloc t1 (e_index e) \<and> unspawned t1 e"
    "NoEntity \<in> set es' \<longrightarrow> used_up t'"
    using Suc.IH[OF ri(1) rm(1) pend] by blast+
  have stay: "used_up u \<Longrightarrow> ent_inv u \<Longrightarrow> used_up (snd (reserve_many m u))" for u m
  proof (induction m arbitrary: u)
    case (Suc m)
    obtain x u1 where x: "reserve u = (x, u1)" by fastforce
    have "used_up u1" "ent_inv u1" using reserve_keeps(7)[OF Suc.prems(2) x] Suc.prems reserve_inv(1)[OF _ x] by auto
    then show ?case using Suc.IH x by (simp add: case_prod_beta)
  qed simp
  have e: "e \<noteq> NoEntity \<Longrightarrow> in_alloc t (e_index e) \<and> unspawned t e \<and> e_index e \<notin> e_index ` F"
    using ri(2) rk(1,4) us Suc.prems(3) by (fastforce simp: pending_def)
  have "e = NoEntity \<Longrightarrow> used_up t'"
    using rk(6,7) stay[of t1 n] ri(1) rm(1) by simp
  then show ?case
    using ih e rm(2) by (cases "e = NoEntity") (auto simp: F'_def rk(4) us)
qed

section \<open>Generations\<close>

text \<open>An index's generations advance one at a time, and an entity comes alive only as the next one.\<close>

definition advances :: "entity_table \<Rightarrow> entity_table \<Rightarrow> u32 \<Rightarrow> bool" where
  "advances t t' i \<longleftrightarrow>
     last_of t' i = last_of t i \<and> (live_of t' i = live_of t i \<or> live_of t' i = 0)
     \<or> last_of t' i = nextGeneration (last_of t i) \<and> (live_of t' i = 0 \<or> live_of t' i = last_of t' i)"

lemma advances_same: "live_of t' i = live_of t i \<Longrightarrow> last_of t' i = last_of t i \<Longrightarrow> advances t t' i"
  by (simp add: advances_def)

lemma advances_setAlive:
  assumes "ent_inv t" and "unspawned t e \<or> i \<noteq> e_index e"
  shows "advances t (setAlive t e) i"
  using assms setAlive_slot[of t e i] by (auto simp: advances_def ent_inv_def unspawned_def)

lemma settle_plain_views:
  "live_of (settleReservations False t) = live_of t" "last_of (settleReservations False t) = last_of t"
  "in_alloc (settleReservations False t) = in_alloc t" "et_despawned (settleReservations False t) = et_despawned t"
  using ent_views[of "settleReservations False t" t] settle_plain[of t, OF refl] by simp_all

lemma free_index_views: "live_of (et_free_index i t) = live_of t" "last_of (et_free_index i t) = last_of t"
  using ent_views[of "et_free_index i t" t] by (simp_all add: et_free_index_def)

lemma despawn_views:
  assumes "ent_inv t"
  shows "last_of (snd (despawn e t)) i = last_of t i"
    and "live_of (snd (despawn e t)) i = (if alive t e \<and> i = e_index e then 0 else live_of t i)"
proof -
  have wf: "it_wf (et_slots t)" "it_wf (et_slots (settleReservations False t))"
    using assms settle_plain[of t, OF refl] by (simp_all add: ent_inv_def)
  define t1 where "t1 = snd (despawn e t)"
  have obs: "live_of t1 = live_of (clear_slot (e_index e) t) \<and> last_of t1 = last_of (clear_slot (e_index e) t)"
    if "alive t e" "et_observing t"
    using that ent_views[of t1 "clear_slot (e_index e) t"]
    by (simp add: t1_def despawn_def Let_def clear_slot_def[symmetric])
  have plain: "live_of t1 = live_of (clear_slot (e_index e) (settleReservations False t))
      \<and> last_of t1 = last_of (clear_slot (e_index e) (settleReservations False t))"
    if "alive t e" "\<not> et_observing t"
    using that by (simp add: t1_def despawn_def Let_def clear_slot_def[symmetric] settle_clear free_index_views)
  show "last_of (snd (despawn e t)) i = last_of t i"
    "live_of (snd (despawn e t)) i = (if alive t e \<and> i = e_index e then 0 else live_of t i)"
    using obs plain clear_slot_views(1,2)[OF wf(1)] clear_slot_views(1,2)[OF wf(2)]
    by (cases "alive t e"; cases "et_observing t"; simp add: settle_plain_views t1_def despawn_def)+
qed

text \<open>A reservation of the window has been spawned since, or not yet.\<close>

lemma reserved_cases:
  assumes "ent_inv t" and "e \<in> set (taken t) \<union> set (fresh_entities (et_fresh t) 0 (taken_fresh t))"
  shows "unspawned t e \<or> spawned t e"
proof (cases "e \<in> set (taken t)")
  case False
  then obtain m where m: "m < taken_fresh t" "e = makeEntity (of_nat (et_fresh t + m)) 1"
    using assms(2) by (auto simp: fresh_entities_def)
  have "m < unat (et_last t) + 1 - et_fresh t" using m(1) by (simp add: taken_fresh_def)
  then have "et_fresh t + m \<le> unat (et_last t)" by linarith
  then show ?thesis using fresh_okD[of t "et_fresh t + m"] assms(1) m(2) by (auto simp: ent_inv_def)
qed (use free_okD(2)[of t e] assms(1) in \<open>simp add: ent_inv_def\<close>)

lemma settle_reclaim_advances:
  assumes "ent_inv t"
  shows "advances t (settleReservations True t) i"
proof (cases "et_reserved t = 0")
  case True
  then show ?thesis by (simp add: settleReservations_def advances_def)
next
  case False
  note sp = settle_reclaim_spec[OF assms False refl]
  let ?R = "set (taken t) \<union> set (fresh_entities (et_fresh t) 0 (taken_fresh t))"
  show ?thesis
  proof (cases "i \<in> e_index ` ?R")
    case True
    then obtain e where e: "e \<in> ?R" "i = e_index e" by blast
    have "unspawned t e \<or> spawned t e" by (rule reserved_cases[OF assms e(1)])
    then show ?thesis
      using sp(2) sp(4)[OF e(1)] e(2) by (auto simp: advances_def unspawned_def spawned_def)
  qed (use sp(2,5) in \<open>simp add: advances_def\<close>)
qed

lemma end_indexes_views:
  "live_of ((fold end_index ds t)\<lparr>et_despawned := []\<rparr>) = live_of t \<and> last_of ((fold end_index ds t)\<lparr>et_despawned := []\<rparr>) = last_of t"
proof -
  have f: "et_slots (fold end_index ds t) = et_slots t \<and> et_words (fold end_index ds t) = et_words t"
    by (induction ds arbitrary: t) simp_all
  then show ?thesis by (simp add: live_of_def last_of_def slot_of_def fun_eq_iff)
qed

lemma spawn_cases:
  assumes "ent_inv t" and "spawn t = (e, t')"
  shows "e = NoEntity \<and> live_of t' = live_of t \<and> last_of t' = last_of t \<or>
    unspawned t e \<and> in_alloc t (e_index e) \<and> live_of t' = (live_of t)(e_index e := e_generation e)
      \<and> last_of t' = (last_of t)(e_index e := e_generation e)"
proof -
  define t1 where "t1 = (if et_observing t then t else settleReservations False t)"
  have inv1: "ent_inv t1" using assms settle_plain_inv[OF assms(1)] by (simp add: t1_def)
  have v1: "live_of t1 = live_of t" "last_of t1 = last_of t" "in_alloc t1 = in_alloc t" "et_despawned t1 = et_despawned t"
    by (simp_all add: t1_def settle_plain_views)
  obtain x t2 where r: "reserve t1 = (x, t2)" by fastforce
  note ri = reserve_inv[OF inv1 r] and rk = reserve_keeps[OF inv1 r]
  have s: "x = e" "t' = (if e \<noteq> NoEntity then setAlive t2 e else t2)"
    using assms(2) r by (auto simp: spawn_def Let_def t1_def[symmetric])
  show ?thesis
  proof (cases "e = NoEntity")
    case True
    then show ?thesis using s rk(2,3) v1 by simp
  next
    case False
    have "it_wf (et_slots t2)" using ri(1) by (simp add: ent_inv_def)
    note sl = setAlive_slot[OF this, of e]
    have "pending t2 e" using ri(2) s(1) False by simp
    then show ?thesis
      using False s sl rk(2-5) v1 by (auto simp: fun_eq_iff pending_def unspawned_def)
  qed
qed

section \<open>Reservations still waiting\<close>

text \<open>What every operation keeps of a reservation not spawned yet: it stays pending unless its index's generation moves.\<close>

definition keeps_pending :: "entity_table \<Rightarrow> entity_table \<Rightarrow> bool" where
  "keeps_pending t t' \<longleftrightarrow> (\<forall>e. pending t e \<and> last_of t' (e_index e) = last_of t (e_index e) \<longrightarrow> pending t' e)"

lemma keeps_pendingI: "(\<And>e. pending t e \<Longrightarrow> last_of t' (e_index e) = last_of t (e_index e) \<Longrightarrow> pending t' e) \<Longrightarrow> keeps_pending t t'"
  by (simp add: keeps_pending_def)

lemma keeps_pending_trans:
  assumes "keeps_pending t t1" and "last_of t2 = last_of t1" and "\<And>e. pending t1 e \<Longrightarrow> pending t2 e"
  shows "keeps_pending t t2"
  using assms by (simp add: keeps_pending_def)

lemma pendingI:
  assumes "pending t e" and "in_alloc t' = in_alloc t" and "et_fresh t + taken_fresh t \<le> et_fresh t' + taken_fresh t'"
    and "e_index e \<notin> e_index ` set (untaken t')" and "live_of t' (e_index e) = live_of t (e_index e)"
    and "last_of t' (e_index e) = last_of t (e_index e)" and "e_index e \<notin> set (et_despawned t')"
  shows "pending t' e"
  using assms by (auto simp: pending_def unspawned_def)

lemma pendingD:
  assumes "pending t e"
  shows "live_of t (e_index e) = 0" and "e_generation e = nextGeneration (last_of t (e_index e))" and "e_index e \<notin> set (et_despawned t)"
    and "e_index e \<notin> e_index ` set (untaken t)" and "in_alloc t (e_index e)"
  using assms by (simp_all add: pending_def unspawned_def)

lemma no_reservations: "et_reserved t = 0 \<Longrightarrow> untaken t = et_free t \<and> taken_fresh t = 0"
  by (simp add: untaken_def taken_free_def taken_fresh_def)

lemma pending_same:
  assumes "live_of t' = live_of t" and "last_of t' = last_of t" and "et_first t' = et_first t" and "et_last t' = et_last t"
    and "et_free t' = et_free t" and "et_reserved t' = et_reserved t" and "et_fresh t' = et_fresh t" and "et_despawned t' = et_despawned t"
  shows "pending t' = pending t"
  using assms count_cong[OF assms(6,5,4,7)] by (simp add: pending_def unspawned_def in_alloc_def fun_eq_iff)

lemma setAlive_pending:
  assumes "ent_inv t" and "pending t e" and "e_index x \<noteq> e_index e"
  shows "pending (setAlive t x) e"
proof -
  have wf: "it_wf (et_slots t)" using assms(1) by (simp add: ent_inv_def)
  show ?thesis
    using pendingI[OF assms(2), of "setAlive t x"] pendingD[OF assms(2)] assms(3) setAlive_slot[OF wf, of x] count_cong[of "setAlive t x" t]
    by (simp add: in_alloc_def fun_eq_iff)
qed

lemma settle_pending:
  assumes "pending t e"
  shows "pending (settleReservations False t) e"
proof -
  note sp = settle_plain[of t, OF refl]
  have "untaken (settleReservations False t) = untaken t" "taken_fresh (settleReservations False t) = 0"
    using no_reservations[of "settleReservations False t"] sp by simp_all
  then show ?thesis
    using pendingI[OF assms, of "settleReservations False t"] pendingD[OF assms] settle_plain_views[of t] sp by simp
qed

lemma spawn_pending:
  assumes "ent_inv t" and "pending t e"
  shows "pending (snd (spawn t)) e"
proof -
  define t1 where "t1 = (if et_observing t then t else settleReservations False t)"
  have inv1: "ent_inv t1" using settle_plain_inv[OF assms(1)] assms(1) by (simp add: t1_def)
  have p1: "pending t1 e" using settle_pending[OF assms(2)] assms(2) by (simp add: t1_def)
  obtain x t2 where r: "reserve t1 = (x, t2)" by fastforce
  note k = reserve_keeps(1)[OF inv1 r p1] and inv2 = reserve_inv(1)[OF inv1 r]
  have "snd (spawn t) = (if x \<noteq> NoEntity then setAlive t2 x else t2)" using r by (simp add: spawn_def Let_def t1_def[symmetric])
  then show ?thesis using k setAlive_pending[OF inv2, of e x] by auto
qed

lemma despawn_pending:
  assumes "ent_inv t" and "pending t e"
  shows "pending (snd (despawn x t)) e"
proof (cases "alive t x")
  case False
  then show ?thesis using assms(2) by (simp add: despawn_def)
next
  case al: True
  let ?i = "e_index x"
  note p = pendingD[OF assms(2)]
  have ne: "e_index e \<noteq> ?i" using al p(1) by (auto simp: alive_iff)
  define t1 where "t1 = snd (despawn x t)"
  have v: "live_of t1 (e_index e) = live_of t (e_index e)" "last_of t1 (e_index e) = last_of t (e_index e)"
    using despawn_views[OF assms(1), of x "e_index e"] ne by (simp_all add: t1_def)
  have "pending t1 e"
  proof (cases "et_observing t")
    case True
    have f: "et_first t1 = et_first t" "et_last t1 = et_last t" "et_free t1 = et_free t" "et_reserved t1 = et_reserved t" "et_fresh t1 = et_fresh t"
      "et_despawned t1 = et_despawned t @ [?i]"
      using True al by (simp_all add: t1_def despawn_def Let_def)
    show ?thesis
      using pendingI[OF assms(2) _ _ _ v] p(3,4) ne f count_cong[OF f(4,3,2,5)] by (simp add: in_alloc_def fun_eq_iff)
  next
    case False
    let ?s = "settleReservations False t"
    note sp = settle_plain[of t, OF refl]
    have t1: "t1 = et_free_index ?i (clear_slot ?i ?s)"
      using False al by (simp add: t1_def despawn_def Let_def clear_slot_def[symmetric] settle_clear)
    have f: "et_first t1 = et_first t" "et_last t1 = et_last t" "et_reserved t1 = 0" "et_fresh t1 = et_fresh t + taken_fresh t"
      "et_despawned t1 = et_despawned t" "set (et_free t1) \<subseteq> set (untaken t) \<union> {makeEntity ?i (nextGeneration (last_of (clear_slot ?i ?s) ?i))}"
      using sp by (auto simp: t1 et_free_index_def last_of_def)
    have "e_index e \<notin> e_index ` set (untaken t1)" using no_reservations[OF f(3)] f(6) p(4) ne by auto
    then show ?thesis
      using pendingI[OF assms(2) _ _ _ v] p(3) f no_reservations[OF f(3)] by (simp add: in_alloc_def fun_eq_iff)
  qed
  then show ?thesis by (simp add: t1_def)
qed

lemma end_indexes_free:
  "e_index ` set (et_free (fold end_index ds t)) \<subseteq> e_index ` set (et_free t) \<union> set ds"
proof (induction ds arbitrary: t)
  case (Cons i ds)
  have "e_index ` set (et_free (end_index i t)) \<subseteq> e_index ` set (et_free t) \<union> {i}" by (auto simp: end_index_def et_free_index_def)
  then show ?case using Cons.IH[of "end_index i t"] by (simp add: subset_iff) blast
qed simp

lemma end_indexes_fields:
  "et_first (fold end_index ds t) = et_first t \<and> et_last (fold end_index ds t) = et_last t
    \<and> et_reserved (fold end_index ds t) = et_reserved t \<and> et_fresh (fold end_index ds t) = et_fresh t"
  by (induction ds arbitrary: t) simp_all

lemma settle_reclaim_pending:
  assumes "ent_inv t" and "pending t e" and "last_of (settleReservations True t) (e_index e) = last_of t (e_index e)"
  shows "pending (settleReservations True t) e"
proof (cases "et_reserved t = 0")
  case True
  then show ?thesis using assms(2) by (simp add: settleReservations_def)
next
  case False
  let ?t = "settleReservations True t" and ?R = "set (taken t) \<union> set (fresh_entities (et_fresh t) 0 (taken_fresh t))"
  note sp = settle_reclaim_spec[OF assms(1) False refl] and p = pendingD[OF assms(2)]
  have out: "e_index e \<notin> e_index ` ?R"
  proof
    assume "e_index e \<in> e_index ` ?R"
    then obtain x where x: "x \<in> ?R" "e_index e = e_index x" by blast
    have "unspawned t x \<or> spawned t x" by (rule reserved_cases[OF assms(1) x(1)])
    then have "unspawned t x" using p(1,3) x(2) by (auto simp: spawned_def)
    then show False using sp(4)[OF x(1)] assms(3) x(2) by (simp add: unspawned_def)
  qed
  have "e_index ` set (untaken ?t) \<subseteq> e_index ` set (untaken t) \<union> e_index ` ?R"
    using no_reservations[OF sp(8)] sp(1) by (auto simp: given_back_def burned_def)
  then have "e_index e \<notin> e_index ` set (untaken ?t)" using out p(4) by blast
  then show ?thesis
    using pendingI[OF assms(2), of ?t] p(3) sp(2,7,10,11,13) assms(3) no_reservations[OF sp(8)] by (simp add: in_alloc_def fun_eq_iff)
qed

lemma endWindow_keeps:
  assumes "ent_inv t"
  shows "keeps_pending t (snd (endWindow t))"
proof (rule keeps_pendingI)
  fix e assume e: "pending t e" "last_of (snd (endWindow t)) (e_index e) = last_of t (e_index e)"
  show "pending (snd (endWindow t)) e"
  proof (cases "et_observing t")
    case False
    have v: "live_of (u\<lparr>et_observing := True\<rparr>) = live_of u" "last_of (u\<lparr>et_observing := True\<rparr>) = last_of u" for u
      using ent_views[of "u\<lparr>et_observing := True\<rparr>" u] by simp_all
    have "pending (u\<lparr>et_observing := True\<rparr>) = pending u" for u by (rule pending_same) (simp_all add: v)
    then show ?thesis using False settle_pending[OF e(1)] by (simp add: endWindow_def)
  next
    case True
    let ?s = "settleReservations True t"
    let ?u = "fold end_index (et_despawned ?s) ?s"
    have eq: "snd (endWindow t) = ?u\<lparr>et_despawned := []\<rparr>" using True by (simp add: endWindow_def Let_def)
    note sr = settle_reclaim_inv[OF assms] and v = end_indexes_views[of "et_despawned ?s" ?s] and f = end_indexes_fields[of "et_despawned ?s" ?s]
    have ps: "pending ?s e" using settle_reclaim_pending[OF assms e(1)] e(2) v by (simp add: eq)
    have r: "et_reserved (?u\<lparr>et_despawned := []\<rparr>) = 0" "et_reserved ?s = 0" using f sr(2) by simp_all
    have "e_index e \<notin> e_index ` set (untaken (?u\<lparr>et_despawned := []\<rparr>))"
      using no_reservations[OF r(1)] no_reservations[OF r(2)] end_indexes_free[of "et_despawned ?s" ?s] pendingD(3,4)[OF ps] by auto
    then show ?thesis
      unfolding eq using pendingI[OF ps, of "?u\<lparr>et_despawned := []\<rparr>"] v f no_reservations[OF r(1)] no_reservations[OF r(2)]
      by (simp add: in_alloc_def fun_eq_iff)
  qed
qed

section \<open>Reachable tables\<close>

text \<open>
  Which entities a table has handed out, by \<open>reserve\<close>, by \<open>spawn\<close> or at \<open>place\<close>.  A generation has 32 bits, so an
  index comes back to a generation after \<open>2 ^ 32 - 1\<close> others: an entity is counted until its index's last
  generation has become the one before its own again.
\<close>

definition still_handed :: "entity_table \<Rightarrow> entity_table \<Rightarrow> entity set \<Rightarrow> entity set" where
  "still_handed t t' H = {e \<in> H. last_of t' (e_index e) = last_of t (e_index e) \<or> e_generation e \<noteq> nextGeneration (last_of t' (e_index e))}"

text \<open>
  What a client may record a \<open>Spawn\<close> of: any entity it was ever handed, spawned or taken back since or not, and any other
  that is not the next of an index with none alive: \<open>NoEntity\<close>, and one of another world or an older
  generation.  \<open>spawnReserved\<close> itself does not look whether an entity was handed out, and takes a \<open>Spawn\<close> outside this
  contract.
\<close>

definition may_spawn :: "entity set \<Rightarrow> entity_table \<Rightarrow> entity \<Rightarrow> bool" where
  "may_spawn H t e \<longleftrightarrow> e \<in> H \<or> live_of t (e_index e) \<noteq> 0 \<or> e_generation e \<noteq> nextGeneration (last_of t (e_index e))"

text \<open>The operations as steps, with what each hands out; a component is recorded on a live entity.\<close>

inductive ent_step :: "entity set \<Rightarrow> entity_table \<Rightarrow> entity set \<Rightarrow> entity_table \<Rightarrow> bool" for H where
  step_reserve: "reserve t = (e, t') \<Longrightarrow> ent_step H t {e} t'"
| step_spawn: "spawn t = (e, t') \<Longrightarrow> ent_step H t {e} t'"
| step_commit: "may_spawn H t e \<Longrightarrow> ent_step H t {} (snd (spawnReserved e t))"
| step_place: "place e t = Inr t' \<Longrightarrow> ent_step H t {e} t'"
| step_despawn: "ent_step H t {} (snd (despawn e t))"
| step_end: "ent_step H t {} (snd (endWindow t))"
| step_set: "alive t e \<Longrightarrow> ent_step H t {} (setComponent t e c)"
| step_unset: "alive t e \<Longrightarrow> ent_step H t {} (unsetComponent t e c)"
| step_shrink: "ent_step H t {} (et_shrink t)"

inductive_cases ent_stepE: "ent_step H t es t'"

inductive ent_reach :: "entity set \<Rightarrow> entity_table \<Rightarrow> bool" where
  reach_init: "first \<le> final \<Longrightarrow> ent_reach {} (et_init words first final prepared)"
| reach_step: "ent_reach H t \<Longrightarrow> ent_step H t es t' \<Longrightarrow> ent_reach (still_handed t t' H \<union> es) t'"

text \<open>An entity handed out is pending, or its index has gone past its generation, so no \<open>Spawn\<close> of it is taken by mistake.\<close>

definition handed_ok :: "entity set \<Rightarrow> entity_table \<Rightarrow> bool" where
  "handed_ok H t \<longleftrightarrow> (\<forall>e \<in> H. pending t e \<or> e_generation e \<noteq> nextGeneration (last_of t (e_index e)))"

lemma handed_step:
  assumes "handed_ok H t" and "keeps_pending t t'" and "handed_ok es t'"
  shows "handed_ok (still_handed t t' H \<union> es) t'"
  unfolding handed_ok_def
proof
  fix e assume "e \<in> still_handed t t' H \<union> es"
  then show "pending t' e \<or> e_generation e \<noteq> nextGeneration (last_of t' (e_index e))"
    using assms by (auto simp: handed_ok_def still_handed_def keeps_pending_def)
qed

lemma handed_same: "handed_ok H t \<Longrightarrow> last_of t' = last_of t \<Longrightarrow> (\<And>e. pending t e \<Longrightarrow> pending t' e) \<Longrightarrow> handed_ok H t'"
  by (auto simp: handed_ok_def)

lemma still_handed_same: "last_of t' = last_of t \<Longrightarrow> still_handed t t' H = H"
  by (simp add: still_handed_def)

lemma spawnReserved_iff:
  "fst (spawnReserved e t) \<longleftrightarrow> live_of t (e_index e) = 0 \<and> e_generation e = nextGeneration (last_of t (e_index e))"
  "fst (spawnReserved e t) \<Longrightarrow> snd (spawnReserved e t) = setAlive t e"
  by (auto simp: spawnReserved_def live_of_def last_of_def slot_of_def it_get_def zero_slot_def split: option.splits if_splits)

text \<open>Within the contract a \<open>Spawn\<close> is taken exactly of a reservation still waiting.\<close>

lemma may_spawn_taken:
  assumes "handed_ok H t" and "may_spawn H t e"
  shows "fst (spawnReserved e t) \<longleftrightarrow> pending t e"
  using assms pendingD[of t e] by (auto simp: spawnReserved_iff may_spawn_def handed_ok_def)

lemma commit_keeps:
  assumes "ent_inv t" and "fst (spawnReserved e t) \<longleftrightarrow> pending t e"
  shows "ent_inv (snd (spawnReserved e t))" and "keeps_pending t (snd (spawnReserved e t))"
proof -
  show "ent_inv (snd (spawnReserved e t))" using spawnReserved_inv[OF assms(1)] spawnReserved_refused[of e t] assms by fastforce
  have wf: "it_wf (et_slots t)" using assms(1) by (simp add: ent_inv_def)
  show "keeps_pending t (snd (spawnReserved e t))"
  proof (rule keeps_pendingI)
    fix x assume x: "pending t x" "last_of (snd (spawnReserved e t)) (e_index x) = last_of t (e_index x)"
    show "pending (snd (spawnReserved e t)) x"
    proof (cases "fst (spawnReserved e t)")
      case True
      then have "e_generation e = nextGeneration (last_of t (e_index e))" using spawnReserved_iff(1) by blast
      then have "e_index e \<noteq> e_index x" using x(2) spawnReserved_iff(2)[OF True] setAlive_slot(2)[OF wf, of e "e_index x"] by (auto split: if_splits)
      then show ?thesis using setAlive_pending[OF assms(1) x(1)] spawnReserved_iff(2)[OF True] by simp
    qed (use x(1) spawnReserved_refused[of e t] in simp)
  qed
qed

lemma place_keeps:
  assumes "ent_inv t" and "place e t = Inr t'"
  shows "keeps_pending t t'"
proof (rule keeps_pendingI)
  fix x assume x: "pending t x"
  then have "e_index e \<noteq> e_index x" using place_inv(2)[OF assms] pendingD(5)[OF x] by auto
  then show "pending t' x" using setAlive_pending[OF assms(1) x] place_inv(3)[OF assms] by simp
qed

text \<open>Setting and unsetting a mask's bit, and shrinking, leave generations and reservations alone.\<close>

lemma mask_upd_pending:
  assumes "ent_inv t" and "\<And>s. es_live (f s) = es_live s \<and> es_last (f s) = es_last s"
  shows "pending (upd_slot t i f) = pending t"
  by (rule pending_same) (simp_all add: mask_upd_inv(2,3)[OF assms])

lemma component_quiet:
  assumes "ent_inv t"
  shows "last_of (setComponent t e c) = last_of t" and "pending (setComponent t e c) = pending t"
    and "last_of (unsetComponent t e c) = last_of t" and "pending (unsetComponent t e c) = pending t"
  using mask_upd_inv(3)[OF assms] mask_upd_pending[OF assms] by (simp_all add: setComponent_def unsetComponent_def)

lemma shrink_quiet:
  assumes "ent_inv t"
  shows "last_of (et_shrink t) = last_of t" and "pending (et_shrink t) = pending t"
proof -
  show "last_of (et_shrink t) = last_of t" by (rule et_shrink_inv(3)[OF assms])
  show "pending (et_shrink t) = pending t" by (rule pending_same) (use et_shrink_inv[OF assms] in \<open>simp_all add: et_shrink_def\<close>)
qed

lemma spawn_handed:
  assumes "ent_inv t" and "spawn t = (e, t')"
  shows "handed_ok {e} t'" and "keeps_pending t t'"
proof -
  have "e = NoEntity \<or> last_of t' (e_index e) = e_generation e" using spawn_cases[OF assms] by auto
  then show "handed_ok {e} t'" by (auto simp: handed_ok_def)
  show "keeps_pending t t'" using spawn_pending[OF assms(1)] assms(2) by (simp add: keeps_pending_def)
qed

lemma place_handed:
  assumes "ent_inv t" and "place e t = Inr t'"
  shows "handed_ok {e} t'"
proof -
  have "it_wf (et_slots t)" using assms(1) by (simp add: ent_inv_def)
  then show ?thesis using place_inv(3)[OF assms] setAlive_slot(2)[of t e "e_index e"] by (simp add: handed_ok_def)
qed

lemma reserve_handed:
  assumes "ent_inv t" and "reserve t = (e, t')"
  shows "handed_ok {e} t'" and "keeps_pending t t'"
  using reserve_inv(2)[OF assms] reserve_keeps(1)[OF assms] by (auto simp: handed_ok_def keeps_pending_def)

lemma ent_step_ok:
  assumes "ent_step H t es t'" and "ent_inv t" and "handed_ok H t"
  shows "ent_inv t' \<and> keeps_pending t t' \<and> handed_ok es t'"
  using assms
proof (induction rule: ent_step.induct)
  case (step_reserve t e t')
  then show ?case using reserve_inv(1) reserve_handed by blast
next
  case (step_spawn t e t')
  then show ?case using spawn_inv[of t] spawn_handed[of t e t'] by simp
next
  case (step_commit t e)
  then show ?case using commit_keeps[of t e] may_spawn_taken[of H t e] by (simp add: handed_ok_def)
next
  case (step_place e t t')
  then show ?case using place_inv(1) place_keeps place_handed by blast
next
  case (step_despawn t e)
  then show ?case using despawn_inv[of t e] despawn_pending[of t] by (simp add: handed_ok_def keeps_pending_def)
next
  case (step_end t)
  then show ?case using endWindow_inv[of t] endWindow_keeps[of t] by (simp add: handed_ok_def)
next
  case (step_set t e c)
  then show ?case using component_quiet[of t e c] mask_upd_inv(1)[of t] by (simp add: handed_ok_def keeps_pending_def setComponent_def)
next
  case (step_unset t e c)
  then show ?case using component_quiet[of t e c] mask_upd_inv(1)[of t] by (simp add: handed_ok_def keeps_pending_def unsetComponent_def)
next
  case (step_shrink t)
  then show ?case using shrink_quiet[of t] et_shrink_inv(1)[of t] by (simp add: handed_ok_def keeps_pending_def)
qed

lemma ent_reach_ok: "ent_reach H t \<Longrightarrow> ent_inv t \<and> handed_ok H t"
proof (induction rule: ent_reach.induct)
  case (reach_init first final words prepared)
  then show ?case by (simp add: et_init_inv handed_ok_def)
next
  case (reach_step H t es t')
  then show ?case using ent_step_ok[of H t es t'] handed_step[of H t t' es] by blast
qed

lemma ent_reach_inv: "ent_reach H t \<Longrightarrow> ent_inv t"
  using ent_reach_ok by blast

lemma ent_step_advances:
  assumes "ent_step H t es t'" and "ent_inv t" and "handed_ok H t" and "in_alloc t i"
  shows "advances t t' i"
  using assms
proof (induction rule: ent_step.induct)
  case (step_reserve t e t')
  show ?case using reserve_keeps(2,3)[OF step_reserve(2,1)] by (simp add: advances_same)
next
  case (step_spawn t e t')
  show ?case using spawn_cases[OF step_spawn(2,1)] by (auto simp: advances_def unspawned_def)
next
  case (step_commit t e)
  show ?case
  proof (cases "fst (spawnReserved e t)")
    case True
    then have "snd (spawnReserved e t) = setAlive t e" "unspawned t e"
      using may_spawn_taken[OF step_commit.prems(2) step_commit.hyps] spawnReserved_iff(2) by (simp_all add: pending_def)
    then show ?thesis using advances_setAlive[OF step_commit.prems(1)] by simp
  qed (simp add: spawnReserved_refused advances_same)
next
  case (step_place e t t')
  then show ?case using place_inv[OF step_place.prems(1) step_place.hyps] advances_setAlive[of t e i] by auto
next
  case (step_despawn t e)
  then show ?case by (simp add: advances_def despawn_views)
next
  case (step_end t)
  show ?case
  proof (cases "et_observing t")
    case True
    then show ?thesis
      using settle_reclaim_advances[OF step_end(1), of i]
        end_indexes_views[of "et_despawned (settleReservations True t)" "settleReservations True t"]
      by (simp add: endWindow_def Let_def advances_def)
  next
    case False
    define t1 where "t1 = settleReservations False t"
    have "live_of (t1\<lparr>et_observing := True\<rparr>) = live_of t" "last_of (t1\<lparr>et_observing := True\<rparr>) = last_of t"
      using ent_views[of "t1\<lparr>et_observing := True\<rparr>" t1] by (simp_all add: t1_def settle_plain_views)
    then show ?thesis using False by (simp add: endWindow_def t1_def advances_same)
  qed
qed (simp_all add: setComponent_def unsetComponent_def mask_upd_inv et_shrink_inv advances_same)

text \<open>
  C2: handing out entities.  Take any table reached by a history in which every \<open>Spawn\<close> committed is of an entity the table
  handed out at some time, or of one that is not the next of an index with none alive (\<open>may_spawn\<close>).  Taking \<open>n\<close>
  reservations then answers entities with pairwise distinct indices, all in the allocation range, none of them
  alive, handed out before or at an index despawned in this window, each at the generation after its
  index's last; and it answers \<open>NoEntity\<close> only once the free list and the range are used up.  A \<open>Spawn\<close> of such an
  entity is taken exactly while it is a reservation still waiting, and then makes exactly that entity alive.
\<close>

theorem entities_handed_out:
  assumes "ent_reach H t" and "reserve_many n t = (es, t')"
  shows "distinct (map e_index (filter (\<lambda>e. e \<noteq> NoEntity) es))
    \<and> (\<forall>e \<in> set es. e \<noteq> NoEntity \<longrightarrow> in_alloc t (e_index e) \<and> \<not> alive t e \<and> e \<notin> H
         \<and> e_index e \<notin> set (et_despawned t) \<and> e_generation e = nextGeneration (last_of t (e_index e)))
    \<and> (NoEntity \<in> set es \<longrightarrow> used_up t')
    \<and> (\<forall>e. may_spawn H t e \<longrightarrow>
         (if pending t e then fst (spawnReserved e t) \<and> (\<forall>x. alive (snd (spawnReserved e t)) x \<longleftrightarrow> alive t x \<or> x = e)
          else spawnReserved e t = (False, t)))"
proof -
  note ok = ent_reach_ok[OF assms(1)]
  note sp = reserve_many_spec[OF conjunct1[OF ok] assms(2)]
  have "e \<notin> H" if e: "e \<in> set es" "e \<noteq> NoEntity" for e
  proof
    assume "e \<in> H"
    moreover have "unspawned t e" using sp[of "{}"] e by auto
    ultimately have "pending t e" using ok by (auto simp: handed_ok_def unspawned_def)
    then have "e_index ` {e} \<inter> e_index ` set (filter (\<lambda>e. e \<noteq> NoEntity) es) = {}" using sp[of "{e}"] by blast
    then show False using e by auto
  qed
  moreover have "if pending t e then fst (spawnReserved e t) \<and> (\<forall>x. alive (snd (spawnReserved e t)) x \<longleftrightarrow> alive t x \<or> x = e)
      else spawnReserved e t = (False, t)" if "may_spawn H t e" for e
  proof -
    have iff: "fst (spawnReserved e t) \<longleftrightarrow> pending t e" using may_spawn_taken[OF conjunct2[OF ok] that] .
    have "alive (setAlive t e) x \<longleftrightarrow> alive t x \<or> x = e" if "pending t e" for x
      using setAlive_slot(1)[of t e] ok pendingD(1,2)[OF that] by (auto simp: alive_iff ent_inv_def intro: entity_eqI)
    then show ?thesis using iff spawnReserved_iff(2)[of e t] spawnReserved_refused[of e t] by (simp add: prod_eq_iff)
  qed
  moreover have "\<forall>e \<in> set es. e \<noteq> NoEntity \<longrightarrow> in_alloc t (e_index e) \<and> \<not> alive t e
      \<and> e_index e \<notin> set (et_despawned t) \<and> e_generation e = nextGeneration (last_of t (e_index e))"
    using sp[of "{}"] by (auto simp: unspawned_def alive_iff)
  ultimately show ?thesis using sp[of "{}"] by blast
qed

theorem entities_handed_out_witness:
  "\<exists>t. ent_reach {makeEntity 5 1} t \<and> fst (reserve_many 2 t) = [makeEntity 6 1, NoEntity] \<and> used_up (snd (reserve_many 2 t))
    \<and> fst (spawnReserved (makeEntity 5 1) t) \<and> alive (snd (spawnReserved (makeEntity 5 1) t)) (makeEntity 5 1)
    \<and> \<not> fst (spawnReserved (makeEntity 5 2) t)"
proof -
  define t where "t = (et_init 1 5 6 0)\<lparr>et_reserved := 1\<rparr>"
  have res: "reserve (et_init 1 5 6 0) = (makeEntity 5 1, t)" by (simp add: t_def reserve_def Let_def et_init_def)
  have v: "live_of t = (\<lambda>_. 0)" "last_of t = (\<lambda>_. 0)"
    by (simp_all add: t_def live_of_def last_of_def slot_of_def et_init_def zero_slot_def fun_eq_iff)
  have r: "ent_reach {makeEntity 5 1} t"
    using reach_step[OF reach_init step_reserve[OF res]] by (simp add: still_handed_def)
  have e: "reserve_many 2 t = ([makeEntity 6 1, NoEntity], (et_init 1 5 6 0)\<lparr>et_reserved := 3\<rparr>)"
    unfolding numeral_2_eq_2 reserve_many.simps by (simp add: reserve_def Let_def et_init_def t_def)
  note x = entities_handed_out[OF r e, THEN conjunct2, THEN conjunct2]
  note taken = mp[OF spec[OF conjunct2[OF x]]]
  have p: "pending t (makeEntity 5 1)"
    by (simp add: pending_def unspawned_def v) (simp add: t_def in_alloc_def taken_fresh_def taken_free_def untaken_def et_init_def)
  have "may_spawn {makeEntity 5 1} t (makeEntity 5 1)" "may_spawn {makeEntity 5 1} t (makeEntity 5 2)" "\<not> pending t (makeEntity 5 2)"
    by (simp_all add: may_spawn_def v pending_def unspawned_def)
  then have "fst (spawnReserved (makeEntity 5 1) t)" "alive (snd (spawnReserved (makeEntity 5 1) t)) (makeEntity 5 1)"
    "spawnReserved (makeEntity 5 2) t = (False, t)"
    using taken[of "makeEntity 5 1"] taken[of "makeEntity 5 2"] p by simp_all
  moreover have "used_up ((et_init 1 5 6 0)\<lparr>et_reserved := 3\<rparr>)" using conjunct1[OF x] by simp
  ultimately show ?thesis using r e by (intro exI[of _ t]) simp
qed

text \<open>
  Generations.  In every step of a reachable table, each index of the allocation range keeps its
  last generation or advances it by one, and an entity of it comes alive only as that next one: an
  entity that died stays dead until its index has gone through every other generation.
\<close>

theorem generations_advance:
  assumes "ent_reach H t" and "ent_step H t es t'" and "in_alloc t i"
  shows "(last_of t' i = last_of t i \<or> last_of t' i = nextGeneration (last_of t i))
    \<and> (\<forall>g. alive t' (makeEntity i g) \<and> \<not> alive t (makeEntity i g) \<longrightarrow>
         g = nextGeneration (last_of t i) \<and> last_of t' i = g)"
proof -
  have ok: "ent_inv t" "handed_ok H t" using ent_reach_ok[OF assms(1)] by blast+
  have "advances t t' i" by (rule ent_step_advances[OF assms(2) ok assms(3)])
  then show ?thesis by (auto simp: advances_def alive_iff)
qed

theorem generations_advance_witness:
  "let t = et_init 1 5 6 0; t' = snd (spawn t)
   in ent_reach {} t \<and> ent_step {} t {fst (spawn t)} t' \<and> in_alloc t 5 \<and> (last_of t' 5 = last_of t 5 \<or> last_of t' 5 = nextGeneration (last_of t 5))"
proof -
  have r: "ent_reach {} (et_init 1 5 6 0)" by (rule reach_init) simp
  have a: "in_alloc (et_init 1 5 6 0) 5" by (simp add: in_alloc_def et_init_def)
  have s: "ent_step {} (et_init 1 5 6 0) {fst (spawn (et_init 1 5 6 0))} (snd (spawn (et_init 1 5 6 0)))"
    by (rule step_spawn) simp
  show ?thesis using generations_advance[OF r s a] r a s by (simp add: Let_def)
qed

text \<open>
  Placing.  \<open>place\<close> succeeds exactly for an entity with a generation, outside the allocation
  range, at an index with no live entity and none despawned in this window; it then makes exactly
  that entity alive.
\<close>

theorem place_exact:
  assumes "ent_reach H t"
  shows "((\<exists>t'. place e t = Inr t') \<longleftrightarrow>
      e_generation e \<noteq> 0 \<and> \<not> in_alloc t (e_index e) \<and> live_of t (e_index e) = 0
      \<and> e_index e \<notin> set (et_despawned t))
    \<and> (\<forall>t' f. place e t = Inr t' \<longrightarrow> (alive t' f \<longleftrightarrow> f = e \<or> alive t f))"
proof -
  have inv: "ent_inv t" using assms by (rule ent_reach_inv)
  then have out: "outside_bit t i \<longleftrightarrow> i \<in> set (et_despawned t) \<and> \<not> in_alloc t i" for i
    by (simp add: ent_inv_def despawned_ok_def)
  have live: "(case it_at (et_slots t) i of None \<Rightarrow> False | Some slot \<Rightarrow> es_live slot \<noteq> 0) \<longleftrightarrow> live_of t i \<noteq> 0" for i
    by (simp add: live_of_def slot_of_def it_get_def zero_slot_def split: option.splits)
  have "alive t' f \<longleftrightarrow> f = e \<or> alive t f" if p: "place e t = Inr t'" for t' f
  proof -
    have "t' = setAlive t e" "live_of t (e_index e) = 0" "e_generation e \<noteq> 0"
      using p by (auto simp: place_def live split: if_splits)
    then show ?thesis
      using setAlive_slot(1)[of t e] inv entity_eqI[of f e] by (auto simp: alive_iff ent_inv_def)
  qed
  then show ?thesis by (auto simp: place_def live out)
qed

theorem place_exact_witness:
  "ent_reach {} (et_init 1 5 6 0) \<and> (\<exists>t'. place (makeEntity 9 3) (et_init 1 5 6 0) = Inr t' \<and> alive t' (makeEntity 9 3))"
proof -
  have r: "ent_reach {} (et_init 1 5 6 0)" by (rule reach_init) simp
  have "live_of (et_init 1 5 6 0) 9 = 0" "\<not> in_alloc (et_init 1 5 6 0) 9" "et_despawned (et_init 1 5 6 0) = []"
    by (simp_all add: live_of_def slot_of_def et_init_def zero_slot_def in_alloc_def)
  then show ?thesis
    using place_exact[OF r, of "makeEntity 9 3"] r by auto
qed

end
