(* ===== verification/Ecs_Observe.thy ===== *)
theory Ecs_Observe
  imports Ecs_Store
begin

text \<open>
  What a store of \<open>ecs/store.go\<close> knows once it is observed: its row states, shadows and change list
  against the map the store held at the last observation reset.
\<close>

section \<open>What an observed store knows\<close>

text \<open>
  \<open>base\<close> is the map at the last reset.  A row's state and shadow say what it held of the row's owner,
  and unless the listing stopped every row is linked and the list names each row that is not
  unchanged once.
\<close>

definition row_matches :: "(entity \<Rightarrow> 'v option) \<Rightarrow> 'v store \<Rightarrow> nat \<Rightarrow> bool" where
  "row_matches base s r \<longleftrightarrow>
     (case st_states s ! r of
        RowUnchanged \<Rightarrow> base (own s r) = Some (shadow_at s r) \<and> value_at s r = shadow_at s r
      | RowChanged \<Rightarrow> base (own s r) = Some (shadow_at s r)
      | RowRemoved \<Rightarrow> base (own s r) = Some (shadow_at s r)
      | RowAdded \<Rightarrow> base (own s r) = None
      | RowDiscarded \<Rightarrow> base (own s r) = None)"

definition touched :: "'v store \<Rightarrow> entity set" where
  "touched s = {own s r | r. r < length (st_owners s) \<and> st_states s ! r \<noteq> RowUnchanged}"

lemma touched_image: "touched s = own s ` {r. r < length (st_owners s) \<and> st_states s ! r \<noteq> RowUnchanged}"
  by (auto simp: touched_def)

definition listed :: "'v store \<Rightarrow> bool" where
  "listed s \<longleftrightarrow>
     (st_overflow s \<or> (\<forall>r < length (st_owners s). linked s r) \<and> distinct (st_changed s) \<and> set (st_changed s) = touched s)"

definition obs_inv :: "(entity \<Rightarrow> 'v option) \<Rightarrow> 'v store \<Rightarrow> bool" where
  "obs_inv base s \<longleftrightarrow>
     st_inv s \<and> st_obs s = Observed \<and> distinct (st_owners s) \<and> (\<forall>r < length (st_owners s). row_matches base s r)
     \<and> dom base \<subseteq> set (st_owners s) \<and> listed s"

lemma obs_invD:
  assumes "obs_inv base s"
  shows "st_inv s" and "st_obs s = Observed" and "distinct (st_owners s)" and "dom base \<subseteq> set (st_owners s)" and "listed s"
    and "\<And>r. r < length (st_owners s) \<Longrightarrow> row_matches base s r" and "length (st_states s) = length (st_owners s)"
  using assms by (auto simp: obs_inv_def st_inv_def storage_ok_def)

text \<open>Rows in another order.\<close>

definition permuted :: "(nat \<Rightarrow> nat) \<Rightarrow> 'v store \<Rightarrow> 'v store \<Rightarrow> bool" where
  "permuted t s s' \<longleftrightarrow>
     length (st_owners s') = length (st_owners s)
     \<and> (\<forall>r < length (st_owners s). t r < length (st_owners s) \<and> t (t r) = r \<and> own s' r = own s (t r)
          \<and> shadow_at s' r = shadow_at s (t r) \<and> value_at s' r = value_at s (t r) \<and> (linked s (t r) \<longrightarrow> linked s' r))"

lemma permutedD:
  assumes "permuted t s s'" and "r < length (st_owners s)"
  shows "t r < length (st_owners s)" and "t (t r) = r" and "own s' r = own s (t r)" and "shadow_at s' r = shadow_at s (t r)"
    and "value_at s' r = value_at s (t r)" and "linked s (t r) \<Longrightarrow> linked s' r" and "length (st_owners s') = length (st_owners s)"
  using assms by (auto simp: permuted_def)

lemma permuted_set:
  assumes "permuted t s s'"
  shows "set (st_owners s') = set (st_owners s)"
proof -
  have rows: "set (st_owners x) = own x ` {..<length (st_owners x)}" for x :: "'a store"
    by (auto simp: set_conv_nth own_def)
  have len: "length (st_owners s') = length (st_owners s)" using assms by (simp add: permuted_def)
  have "own s r \<in> own s' ` {..<length (st_owners s)}" if r: "r < length (st_owners s)" for r
    using permutedD(1,2)[OF assms r] permutedD(3)[OF assms, of "t r"] by (intro image_eqI[of _ _ "t r"]) simp_all
  moreover have "own s' r \<in> own s ` {..<length (st_owners s)}" if r: "r < length (st_owners s)" for r
    using permutedD(1,3)[OF assms r] by (intro image_eqI[of _ _ "t r"]) simp_all
  ultimately show ?thesis unfolding rows len by blast
qed

lemma permuted_distinct:
  assumes "permuted t s s'" and "distinct (st_owners s)"
  shows "distinct (st_owners s')"
  using permuted_set[OF assms(1)] assms by (metis card_distinct distinct_card permuted_def)

lemma permuted_touched:
  assumes "permuted t s s'"
    and "\<And>r. r < length (st_owners s) \<Longrightarrow> st_states s' ! r = RowUnchanged \<longleftrightarrow> st_states s ! t r = RowUnchanged \<and> r \<noteq> k"
    and "k < length (st_owners s)"
  shows "touched s' = insert (own s' k) (touched s)"
proof (rule set_eqI)
  fix x
  have len: "length (st_owners s') = length (st_owners s)" using assms(1) by (simp add: permuted_def)
  show "x \<in> touched s' \<longleftrightarrow> x \<in> insert (own s' k) (touched s)"
  proof
    assume "x \<in> touched s'"
    then obtain r where r: "r < length (st_owners s)" "st_states s' ! r \<noteq> RowUnchanged" "x = own s' r"
      by (auto simp: touched_def len)
    show "x \<in> insert (own s' k) (touched s)"
    proof (cases "r = k")
      case False
      then have "st_states s ! t r \<noteq> RowUnchanged" using assms(2)[OF r(1)] r(2) by simp
      then show ?thesis using r permutedD(1,3)[OF assms(1) r(1)] by (auto simp: touched_def)
    qed (use r in simp)
  next
    assume "x \<in> insert (own s' k) (touched s)"
    then consider "x = own s' k" | r where "r < length (st_owners s)" "st_states s ! r \<noteq> RowUnchanged" "x = own s r"
      by (auto simp: touched_def)
    then show "x \<in> touched s'"
    proof cases
      case 1
      then show ?thesis using assms(2)[OF assms(3)] assms(3) by (auto simp: touched_def len)
    next
      case (2 r)
      have p: "t r < length (st_owners s)" "t (t r) = r" using permutedD[OF assms(1) 2(1)] by simp_all
      then have "own s' (t r) = x" "st_states s' ! t r \<noteq> RowUnchanged"
        using permutedD(3)[OF assms(1) p(1)] assms(2)[OF p(1)] 2 by simp_all
      then show ?thesis using p(1) len by (auto simp: touched_def)
    qed
  qed
qed

text \<open>A row \<open>k\<close> that leaves \<open>RowUnchanged\<close>, or has left it, wherever the rows go.\<close>

lemma listed_step:
  assumes "permuted t s s'" and "k < length (st_owners s)" and "listed s" and "distinct (st_owners s)"
    and "\<And>r. r < length (st_owners s) \<Longrightarrow> st_states s' ! r = RowUnchanged \<longleftrightarrow> st_states s ! t r = RowUnchanged \<and> r \<noteq> k"
    and "st_overflow s \<longrightarrow> st_overflow s'"
    and "\<not> st_overflow s' \<Longrightarrow>
      st_changed s' = (if st_states s ! t k = RowUnchanged then st_changed s @ [own s' k] else st_changed s)"
  shows "listed s'"
proof (cases "st_overflow s'")
  case False
  then have l: "\<And>r. r < length (st_owners s) \<Longrightarrow> linked s r" "distinct (st_changed s)" "set (st_changed s) = touched s"
    using assms(3,6) by (auto simp: listed_def)
  have tk: "t k < length (st_owners s)" "own s' k = own s (t k)" using permutedD[OF assms(1,2)] by simp_all
  have "own s' k \<in> touched s \<longleftrightarrow> st_states s ! t k \<noteq> RowUnchanged"
    using tk assms(4) by (auto simp: touched_def own_def nth_eq_iff_index_eq)
  then have "distinct (st_changed s')" "set (st_changed s') = insert (own s' k) (touched s)"
    using assms(7)[OF False] l(2,3) by auto
  moreover have "linked s' r" if "r < length (st_owners s)" for r
    using permutedD(1,6)[OF assms(1) that] l(1) by blast
  ultimately show ?thesis
    using permuted_touched[OF assms(1,5,2)] assms(1) by (simp add: listed_def permuted_def)
qed (simp add: listed_def)

lemma obs_step:
  assumes "obs_inv base s" and "permuted t s s'" and "st_inv s'" and "st_obs s' = Observed" and "k < length (st_owners s)"
    and "\<And>r. r < length (st_owners s) \<Longrightarrow> r \<noteq> k \<Longrightarrow> st_states s' ! r = st_states s ! t r" and "row_matches base s' k"
    and "st_states s' ! k \<noteq> RowUnchanged" and "st_overflow s \<longrightarrow> st_overflow s'"
    and "\<not> st_overflow s' \<Longrightarrow>
      st_changed s' = (if st_states s ! t k = RowUnchanged then st_changed s @ [own s' k] else st_changed s)"
  shows "obs_inv base s'"
proof -
  note o = obs_invD[OF assms(1)]
  have len: "length (st_owners s') = length (st_owners s)" using assms(2) by (simp add: permuted_def)
  have "row_matches base s' r" if r: "r < length (st_owners s)" for r
  proof (cases "r = k")
    case False
    then show ?thesis
      using o(6)[OF permutedD(1)[OF assms(2) r]] assms(6)[OF r] permutedD(3-5)[OF assms(2) r]
      by (auto simp: row_matches_def split: row_state.splits)
  qed (use assms(7) in simp)
  moreover have left: "st_states s' ! r = RowUnchanged \<longleftrightarrow> st_states s ! t r = RowUnchanged \<and> r \<noteq> k"
    if "r < length (st_owners s)" for r using assms(6)[OF that] assms(8) by (cases "r = k") simp_all
  have "listed s'" by (rule listed_step[OF assms(2,5) o(5,3) left assms(9,10)])
  ultimately show ?thesis
    using assms(3,4) permuted_distinct[OF assms(2) o(3)] permuted_set[OF assms(2)] o(4) len by (simp add: obs_inv_def)
qed

text \<open>Marking a row changed, and writing the value of one that is marked.\<close>

lemma markChanged_views [simp]:
  "own (markChanged r e s) = own s" "linked (markChanged r e s) = linked s"
  "value_at (markChanged r e s) = value_at s" "shadow_at (markChanged r e s) = shadow_at s"
  by (simp_all add: fun_eq_iff own_def linked_def slot_of_index_def value_at_def shadow_at_def)

lemma markChanged_map [simp]: "st_map (markChanged r e s) = st_map s" "st_get (markChanged r e s) = st_get s"
  by (rule same_map; simp)+

lemma permuted_id: "permuted (\<lambda>r. r) s s' \<longleftrightarrow>
     length (st_owners s') = length (st_owners s)
     \<and> (\<forall>r < length (st_owners s). own s' r = own s r \<and> shadow_at s' r = shadow_at s r \<and> value_at s' r = value_at s r
          \<and> (linked s r \<longrightarrow> linked s' r))"
  by (simp add: permuted_def)

lemma listChanged_shape:
  "st_overflow s \<longrightarrow> st_overflow (listChanged e s)"
  "\<not> st_overflow (listChanged e s) \<Longrightarrow> st_changed (listChanged e s) = st_changed s @ [e]"
  by (simp_all add: listChanged_def split: if_splits)

lemma markChanged_obs:
  assumes "obs_inv base s" and "row < st_live s" and "own s row = e"
  shows "obs_inv base (markChanged row e s)" and "st_states (markChanged row e s) ! row \<noteq> RowUnchanged"
proof -
  note o = obs_invD[OF assms(1)]
  have lt: "row < length (st_owners s)" using st_invD(3)[OF o(1)] assms(2) by simp
  show st: "st_states (markChanged row e s) ! row \<noteq> RowUnchanged"
    using lt o(2,7) by (simp add: markChanged_def)
  show "obs_inv base (markChanged row e s)"
  proof (cases "st_states s ! row = RowUnchanged")
    case True
    let ?s = "markChanged row e s"
    have eq: "?s = listChanged e (s\<lparr>st_states := (st_states s)[row := RowChanged]\<rparr>)"
      using True o(2) by (simp add: markChanged_def)
    show ?thesis
    proof (rule obs_step[OF assms(1), where t = "\<lambda>r. r" and k = row])
      show "permuted (\<lambda>r. r) s ?s" by (simp add: permuted_id)
      show "st_inv ?s" using markChanged_inv[OF o(1)] .
      show "row_matches base ?s row"
        using o(6)[OF lt] True lt o(7) by (simp add: row_matches_def) (simp add: eq)
      show "\<not> st_overflow ?s \<Longrightarrow> st_changed ?s = (if st_states s ! row = RowUnchanged then st_changed s @ [own ?s row] else st_changed s)"
        using listChanged_shape(2)[of e "s\<lparr>st_states := (st_states s)[row := RowChanged]\<rparr>"] True assms(3) eq by simp
      show "st_overflow s \<longrightarrow> st_overflow ?s"
        using listChanged_shape(1)[of "s\<lparr>st_states := (st_states s)[row := RowChanged]\<rparr>" e] eq by simp
    qed (use o(2) lt st eq in simp_all)
  next
    case False
    then have "markChanged row e s = s" by (simp add: markChanged_def)
    then show ?thesis using assms(1) by simp
  qed
qed

lemma put_value_obs:
  assumes "obs_inv base s" and "row < st_live s" and "st_states s ! row \<noteq> RowUnchanged"
  shows "obs_inv base (put_value row v s)"
proof -
  note o = obs_invD[OF assms(1)]
  let ?s = "put_value row v s"
  have v: "own ?s = own s" "linked ?s = linked s" "shadow_at ?s = shadow_at s" "\<And>r. r \<noteq> row \<Longrightarrow> value_at ?s r = value_at s r"
    by (simp_all add: fun_eq_iff own_def linked_def slot_of_index_def value_at_def shadow_at_def put_value_def)
  have "row_matches base ?s r" if "r < length (st_owners s)" for r
    using o(6)[OF that] assms(3) v by (cases "r = row") (auto simp: row_matches_def split: row_state.splits)
  moreover have "touched ?s = touched s" by (simp add: touched_def v)
  ultimately show ?thesis
    using o put_value_inv[OF o(1)] v by (simp add: obs_inv_def listed_def)
qed

text \<open>Adding and removing.\<close>

lemma promote_permuted:
  assumes "tail_ready a s"
  shows "permuted (transpose_row a (st_live s)) s (promote a x s)"
  using promote_rows(1-3)[OF assms] promote_links(3)[OF assms] assms by (simp add: permuted_def tail_ready_def)

lemma promote_obs:
  assumes "obs_inv base s" and "tail_ready a s" and "live_state x" and "x \<noteq> RowUnchanged"
    and "st_states s ! a \<noteq> RowUnchanged"
    and "x = RowAdded \<Longrightarrow> base (own s a) = None" and "x = RowChanged \<Longrightarrow> base (own s a) = Some (shadow_at s a)"
  shows "obs_inv base (promote a x s)"
proof (rule obs_step[OF assms(1) promote_permuted[OF assms(2)] promote_inv[OF assms(2,3)], where k = "st_live s"])
  note o = obs_invD[OF assms(1)]
  have lt: "st_live s < length (st_owners s)" "transpose_row a (st_live s) (st_live s) = a"
    using assms(2) by (auto simp: tail_ready_def transpose_row_def)
  note rows = promote_rows[OF assms(2)]
  show "st_live s < length (st_owners s)" by (rule lt(1))
  show "st_states (promote a x s) ! r = st_states s ! transpose_row a (st_live s) r"
    if "r < length (st_owners s)" "r \<noteq> st_live s" for r using rows(4)[OF that(1)] that(2) by simp
  show "row_matches base (promote a x s) (st_live s)"
    using rows[OF lt(1)] lt(2) assms(3,4,6,7) by (auto simp: row_matches_def live_state_def)
  show "st_states (promote a x s) ! st_live s \<noteq> RowUnchanged" using rows(4)[OF lt(1)] assms(4) by simp
  show "st_changed (promote a x s) = (if st_states s ! transpose_row a (st_live s) (st_live s) = RowUnchanged
    then st_changed s @ [own (promote a x s) (st_live s)] else st_changed s)" using lt(2) assms(5) by simp
qed (use obs_invD(2)[OF assms(1)] in simp_all)

lemma tail_states:
  assumes "obs_inv base s" and "st_live s \<le> r" and "r < length (st_owners s)"
  shows "st_states s ! r = RowRemoved \<and> base (own s r) = Some (shadow_at s r) \<or> st_states s ! r = RowDiscarded \<and> base (own s r) = None"
  using st_invD(6)[OF obs_invD(1,2)[OF assms(1)] assms(2,3)] obs_invD(6)[OF assms(1,3)]
  by (auto simp: tail_state_def row_matches_def)

lemma revive_obs:
  assumes "obs_inv base s" and "tail_ready a s"
  shows "obs_inv base (promote a (revived_state (st_states s ! a)) s)"
proof -
  have "st_live s \<le> a" "a < length (st_owners s)" using assms(2) by (simp_all add: tail_ready_def)
  then show ?thesis
    using tail_states[OF assms(1), of a] by (intro promote_obs[OF assms]) (auto simp: revived_state_def live_state_def)
qed

text \<open>An entity with no row in the tail that its slot finds has no row at all.\<close>

lemma addable_new:
  assumes "st_inv s" and "addable s e" and "\<not> snd (tailRow s e)"
  shows "e \<notin> set (st_owners s)"
proof
  assume "e \<in> set (st_owners s)"
  then obtain r where r: "r < length (st_owners s)" "own s r = e" by (auto simp: in_set_conv_nth own_def)
  then have "linked s r" "\<not> r < st_live s" using assms(2) by (auto simp: addable_def)
  then show False
    using slot_row_linked[OF st_invD(1)[OF assms(1)] r(1)] r assms(3) by (auto simp: tailRow_def own_def)
qed

lemma appended_state_touched:
  assumes "length (st_states s) = length (st_owners s)"
  shows "touched (appended_state e s) = insert e (touched s)"
proof -
  let ?n = "length (st_owners s)" and ?s = "appended_state e s"
  let ?A = "{r. r < ?n \<and> st_states s ! r \<noteq> RowUnchanged}"
  have rows: "own ?s r = own s r" "st_states ?s ! r = st_states s ! r" if "r < ?n" for r
    using that assms by (simp_all add: own_def nth_append)
  have new: "own ?s ?n = e" "st_states ?s ! ?n = RowAdded" using assms by (simp, metis appended_state_fields(7) nth_append_length)
  have "{r. r < length (st_owners ?s) \<and> st_states ?s ! r \<noteq> RowUnchanged} = insert ?n ?A"
    using rows(2) new(2) by (auto simp: less_Suc_eq simp del: appended_state_fields(7))
  then have "touched ?s = insert e (own ?s ` ?A)" using new(1) by (simp add: touched_image)
  also have "own ?s ` ?A = own s ` ?A" by (rule image_cong) (simp_all add: rows(1) del: appended_state_views)
  finally show ?thesis by (simp add: touched_image)
qed

lemma appended_listed:
  assumes "obs_inv base s" and "addable s e" and "\<not> snd (tailRow s e)"
  shows "listed (appended_state e (unlisted e s))"
proof (cases "st_overflow (appended_state e (unlisted e s))")
  case False
  note o = obs_invD[OF assms(1)]
  let ?n = "length (st_owners s)" and ?u = "(appended e s)\<lparr>st_states := st_states s @ [RowAdded]\<rparr>"
  have no: "\<not> has_slot s (e_index e)" using False by (auto simp: appended_state_def unlisted_def listChanged_def split: if_splits)
  then have u: "unlisted e s = s" by (simp add: unlisted_def)
  have ov: "\<not> st_overflow s" "st_changed (appended_state e s) = st_changed s @ [e]"
    using False listChanged_shape(1)[of ?u e] listChanged_shape(2)[of e ?u] u by (auto simp: appended_state_def)
  then have l: "\<And>r. r < ?n \<Longrightarrow> linked s r" "distinct (st_changed s)" "set (st_changed s) = touched s"
    using o(5) by (auto simp: listed_def)
  have "e \<notin> touched s"
    using addable_new[OF o(1) assms(2,3)] by (auto simp: touched_def own_def in_set_conv_nth)
  moreover have "linked (appended e s) r" if "r < Suc ?n" for r
  proof (cases "r = ?n")
    case True
    then show ?thesis using appended_links(2)[OF st_invD(1)[OF o(1)]] assms(2) by (simp add: addable_def)
  next
    case False
    then have r: "r < ?n" using that by simp
    then have "e_index (own s r) \<noteq> e_index e"
      using slot_row_linked(1)[OF st_invD(1)[OF o(1)] r l(1)[OF r]] no by auto
    then show ?thesis
      using appended_links(3)[OF st_invD(1)[OF o(1)] _ r l(1)[OF r]] assms(2) by (simp add: addable_def)
  qed
  ultimately show ?thesis
    using l(2,3) ov u appended_state_touched[OF o(7)] by (simp add: listed_def)
qed (simp add: listed_def)

lemma appended_obs:
  assumes "obs_inv base s" and "addable s e" and "\<not> snd (tailRow s e)"
  shows "obs_inv base (promote (length (st_owners s)) RowAdded (appended_state e (unlisted e s)))"
proof -
  let ?n = "length (st_owners s)" and ?s = "appended_state e (unlisted e s)"
  note o = obs_invD[OF assms(1)]
  have r: "tail_ready ?n ?s" using appended_ready[of "unlisted e s" e] assms(2) o(1,2) by simp
  have new: "e \<notin> set (st_owners s)" by (rule addable_new[OF o(1) assms(2,3)])
  then have none: "base e = None" using o(4) by blast
  have rows: "own ?s q = own s q" "st_states ?s ! q = st_states s ! q" "value_at ?s q = value_at s q" "shadow_at ?s q = shadow_at s q"
    if "q < ?n" for q
    using that o(2,7) appended_values(2,4)[of "unlisted e s" q e] st_invD(2)[OF o(1)] by (simp_all add: own_def nth_append)
  have at_n: "own ?s ?n = e" "st_states ?s ! ?n = RowAdded" using o(7) by (simp, simp add: nth_append)
  let ?p = "promote ?n RowAdded ?s" and ?t = "transpose_row ?n (st_live s)"
  have t: "permuted ?t ?s ?p" using promote_permuted[OF r, of RowAdded] by simp
  have live: "st_live s \<le> ?n" using st_invD(3)[OF o(1)] .
  note prow = promote_rows[OF r, of _ RowAdded]
  have "row_matches base ?p q" if "q < Suc ?n" for q
  proof (cases "q = st_live s")
    case True
    then show ?thesis using prow[of q] that at_n(1) none by (simp add: row_matches_def transpose_row_def)
  next
    case False
    then have q: "?t q < ?n" "q < length (st_owners ?s)" using that live by (auto simp: transpose_row_def)
    then show ?thesis
      using prow[OF q(2)] rows[OF q(1)] o(6)[OF q(1)] False by (auto simp: row_matches_def split: row_state.splits)
  qed
  moreover have "listed ?p"
  proof (rule listed_step[OF t, where k = "st_live s"])
    show "st_states ?p ! q = RowUnchanged \<longleftrightarrow> st_states ?s ! ?t q = RowUnchanged \<and> q \<noteq> st_live s"
      if "q < length (st_owners ?s)" for q
      using prow(4)[OF that] at_n(2) by (auto simp: transpose_row_def)
    show "st_changed ?p = (if st_states ?s ! ?t (st_live s) = RowUnchanged then st_changed ?s @ [own ?p (st_live s)] else st_changed ?s)"
      using at_n(2) by (auto simp: transpose_row_def)
  qed (use appended_listed[OF assms] live o(3) new in simp_all)
  ultimately show ?thesis
    using promote_inv[OF r] permuted_set[OF t] permuted_distinct[OF t] o(2-4) new
    by (auto simp: obs_inv_def live_state_def)
qed

lemma st_add_obs:
  assumes "obs_inv base s" and "addable s e"
  shows "obs_inv base (snd (st_add e s))" and "st_states (snd (st_add e s)) ! fst (st_add e s) \<noteq> RowUnchanged"
proof -
  note o = obs_invD[OF assms(1)]
  have "obs_inv base (snd (st_add e s)) \<and> st_states (snd (st_add e s)) ! fst (st_add e s) \<noteq> RowUnchanged"
  proof (cases "snd (tailRow s e)")
    case True
    then have r: "tail_ready (fst (tailRow s e)) s" using tailRow_ready(1)[OF o(1,2), of e] by (simp add: prod_eq_iff)
    then have "st_live s < length (st_owners s)" by (auto simp: tail_ready_def)
    then show ?thesis
      using st_add_observed[OF o(1,2) assms(2)] True revive_obs[OF assms(1) r] promote_rows(4)[OF r]
      by (simp add: revived_state_def)
  next
    case False
    have r: "tail_ready (length (st_owners s)) (appended_state e (unlisted e s))"
      using appended_ready[of "unlisted e s" e] assms(2) o(1,2) by simp
    show ?thesis
      using st_add_observed[OF o(1,2) assms(2)] False appended_obs[OF assms False] promote_rows(4)[OF r] st_invD(3)[OF o(1)]
      by simp
  qed
  then show "obs_inv base (snd (st_add e s))" and "st_states (snd (st_add e s)) ! fst (st_add e s) \<noteq> RowUnchanged" by blast+
qed

lemma st_remove_obs:
  assumes "obs_inv base s" and "st_get s e = Some row"
  shows "obs_inv base (st_remove e row s)"
proof -
  note o = obs_invD[OF assms(1)]
  let ?f = "st_live s - 1" and ?s = "st_remove e row s"
  have r: "row < st_live s" "own s row = e" using st_get_iff[OF o(1)] assms(2) by auto
  have le: "st_live s \<le> length (st_owners s)" using st_invD(3)[OF o(1)] .
  have eq: "?s = (if st_states s ! row = RowUnchanged then listChanged e (demote row s) else demote row s)"
    by (rule st_remove_observed[OF o(2) r(1) le o(7)])
  have f: "?f < length (st_owners s)" "transpose_row row ?f ?f = row" using r(1) le by (auto simp: transpose_row_def)
  note rows = demote_rows[OF o(1,2) r(1)]
  have views: "own ?s = own (demote row s)" "value_at ?s = value_at (demote row s)" "shadow_at ?s = shadow_at (demote row s)"
    "linked ?s = linked (demote row s)" "st_states ?s = st_states (demote row s)" "st_owners ?s = st_owners (demote row s)"
    "st_obs ?s = Observed" using o(2) by (simp_all add: eq)
  show ?thesis
  proof (rule obs_step[OF assms(1), where t = "transpose_row row ?f" and k = ?f])
    show "permuted (transpose_row row ?f) s ?s"
      using rows(1-3) demote_links(3)[OF o(1) r(1)] f(1) r(1) le by (simp add: permuted_def views)
    show "st_inv ?s" by (rule st_remove_spec(1)[OF o(1) assms(2)])
    show "row_matches base ?s ?f"
      using rows[OF f(1)] f(2) o(6)[of row] r(1) le st_invD(5)[OF o(1,2) r(1)]
      by (auto simp: row_matches_def views removed_state_def live_state_def)
    show "st_overflow s \<longrightarrow> st_overflow ?s" using listChanged_shape(1)[of "demote row s" e] by (simp add: eq)
    show "st_changed ?s = (if st_states s ! transpose_row row ?f ?f = RowUnchanged then st_changed s @ [own ?s ?f] else st_changed s)"
      if "\<not> st_overflow ?s"
      using that listChanged_shape(2)[of e "demote row s"] f rows(1)[OF f(1)] r(2) by (auto simp: eq)
  qed (use rows(4) f(1) views in \<open>simp_all add: removed_state_def\<close>)
qed

section \<open>The reset\<close>

lemma reset_row_fields [simp]:
  "st_size (reset_row r s) = st_size s" "st_zero (reset_row r s) = st_zero s" "st_rows (reset_row r s) = st_rows s"
  "st_owners (reset_row r s) = st_owners s" "st_values (reset_row r s) = st_values s" "st_live (reset_row r s) = st_live s"
  "st_obs (reset_row r s) = st_obs s" "length (st_shadows (reset_row r s)) = length (st_shadows s)"
  "length (st_states (reset_row r s)) = length (st_states s)" "value_at (reset_row r s) = value_at s"
  by (simp_all add: reset_row_def put_shadow_def value_at_def fun_eq_iff)

lemma reset_row_row:
  assumes "storage_ok s" and "st_obs s = Observed" and "q < length (st_owners s)"
  shows "st_states (reset_row r s) ! q = (if q = r \<and> r < st_live s then RowUnchanged else st_states s ! q)"
    and "shadow_at (reset_row r s) q = (if q = r \<and> r < st_live s \<and> st_states s ! r \<noteq> RowUnchanged then value_at s q else shadow_at s q)"
  using assms by (auto simp: reset_row_def put_shadow_def shadow_at_def value_at_def storage_ok_def nth_list_update)

lemma reset_rows_fields [simp]:
  "st_size (fold reset_row L s) = st_size s" "st_zero (fold reset_row L s) = st_zero s" "st_rows (fold reset_row L s) = st_rows s"
  "st_owners (fold reset_row L s) = st_owners s" "st_values (fold reset_row L s) = st_values s" "st_live (fold reset_row L s) = st_live s"
  "st_obs (fold reset_row L s) = st_obs s" "length (st_shadows (fold reset_row L s)) = length (st_shadows s)"
  "length (st_states (fold reset_row L s)) = length (st_states s)" "value_at (fold reset_row L s) = value_at s"
  by (induction L arbitrary: s) simp_all

lemma reset_rows_row:
  assumes "storage_ok s" and "st_obs s = Observed" and "q < length (st_owners s)"
  shows "st_states (fold reset_row L s) ! q = (if q \<in> set L \<and> q < st_live s then RowUnchanged else st_states s ! q)
    \<and> shadow_at (fold reset_row L s) q =
        (if q \<in> set L \<and> q < st_live s \<and> st_states s ! q \<noteq> RowUnchanged then value_at s q else shadow_at s q)"
  using assms
proof (induction L arbitrary: s)
  case (Cons r L)
  have "storage_ok (reset_row r s)" using Cons.prems(1,2) by (simp add: storage_ok_def)
  then show ?case
    using Cons.IH[of "reset_row r s"] Cons.prems reset_row_row[OF Cons.prems, of r] by auto
qed simp

text \<open>The rows the reset visits have every changed live row among them.\<close>

lemma walked_rows:
  assumes "obs_inv base s" and "r < length (st_owners s)" and "st_states s ! r \<noteq> RowUnchanged"
  shows "\<exists>i < walkedRows s. walked_row s i = r"
proof (cases "st_overflow s")
  case True
  then show ?thesis using assms(2) by (auto simp: walkedRows_def walked_row_def)
next
  case False
  note o = obs_invD[OF assms(1)]
  have l: "linked s r" "set (st_changed s) = touched s" using o(5) False assms(2) by (auto simp: listed_def)
  have "own s r \<in> set (st_changed s)" using l(2) assms(2,3) by (auto simp: touched_def)
  then obtain i where "i < length (st_changed s)" "st_changed s ! i = own s r" by (auto simp: in_set_conv_nth)
  then show ?thesis
    using slot_row_linked(2)[OF st_invD(1)[OF o(1)] assms(2) l(1)] False
    by (auto simp: walkedRows_def walked_row_def listedRow_def)
qed

text \<open>Clearing the links of the tail.\<close>

lemma unlink_row_fields [simp]:
  "st_size (unlink_row r s) = st_size s" "st_zero (unlink_row r s) = st_zero s" "st_owners (unlink_row r s) = st_owners s"
  "st_values (unlink_row r s) = st_values s" "st_live (unlink_row r s) = st_live s" "st_obs (unlink_row r s) = st_obs s"
  "st_shadows (unlink_row r s) = st_shadows s" "st_states (unlink_row r s) = st_states s"
  "st_changed (unlink_row r s) = st_changed s" "st_overflow (unlink_row r s) = st_overflow s" "own (unlink_row r s) = own s"
  by (simp_all add: unlink_row_def Let_def)

lemma unlink_rows_fields [simp]:
  "st_size (fold unlink_row L s) = st_size s" "st_zero (fold unlink_row L s) = st_zero s"
  "st_owners (fold unlink_row L s) = st_owners s" "st_values (fold unlink_row L s) = st_values s"
  "st_live (fold unlink_row L s) = st_live s" "st_obs (fold unlink_row L s) = st_obs s"
  "st_shadows (fold unlink_row L s) = st_shadows s" "st_states (fold unlink_row L s) = st_states s"
  "st_changed (fold unlink_row L s) = st_changed s" "st_overflow (fold unlink_row L s) = st_overflow s"
  by (induction L arbitrary: s) simp_all

lemma unlink_rows_slot:
  assumes "it_wf (st_rows s)" and "\<forall>r \<in> set L. r < 2 ^ 32 - 1"
  shows "it_wf (st_rows (fold unlink_row L s)) \<and> slot_of_index (fold unlink_row L s) i =
    (if \<exists>r \<in> set L. e_index (own s r) = i \<and> slot_of_index s i = of_nat r + 1 then 0 else slot_of_index s i)"
  using assms
proof (induction L arbitrary: s)
  case (Cons r L)
  have wf: "it_wf (st_rows (unlink_row r s))"
    using set_link_slot(2)[OF Cons.prems(1)] Cons.prems(1) by (simp add: unlink_row_def Let_def)
  have slot: "slot_of_index (unlink_row r s) i =
      (if e_index (own s r) = i \<and> slot_of_index s i = of_nat r + 1 then 0 else slot_of_index s i)"
    using set_link_slot(1)[OF Cons.prems(1)] by (auto simp: unlink_row_def Let_def slot_of_index_def own_def)
  have "of_nat q + 1 \<noteq> (0 :: u32)" if "q \<in> set L" for q using row_plus_one(1)[of q] Cons.prems(2) that by simp
  then show ?case
    using Cons.IH[OF wf] Cons.prems(2) slot by auto
qed simp

definition reset_rows :: "'v store \<Rightarrow> 'v store" where
  "reset_rows s = fold reset_row (map (walked_row s) [0..<walkedRows s]) s"

lemma resetObservation_fields:
  assumes "st_obs s = Observed"
  shows "st_size (resetObservation s) = st_size s" "st_zero (resetObservation s) = st_zero s"
    "st_owners (resetObservation s) = take (st_live s) (st_owners s)" "st_values (resetObservation s) = st_values s"
    "st_live (resetObservation s) = st_live s" "st_obs (resetObservation s) = Observed"
    "st_shadows (resetObservation s) = st_shadows (reset_rows s)"
    "st_states (resetObservation s) = take (st_live s) (st_states (reset_rows s))"
    "st_changed (resetObservation s) = []" "st_overflow (resetObservation s) = False"
    "slot_of_index (resetObservation s) =
       slot_of_index (fold unlink_row [st_live s..<length (st_owners s)] ((reset_rows s)\<lparr>st_changed := [], st_overflow := False\<rparr>))"
    "it_wf (st_rows (resetObservation s)) =
       it_wf (st_rows (fold unlink_row [st_live s..<length (st_owners s)] ((reset_rows s)\<lparr>st_changed := [], st_overflow := False\<rparr>)))"
  using assms by (simp_all add: resetObservation_def reset_rows_def Let_def slot_of_index_def fun_eq_iff)

lemma reset_slot:
  assumes "obs_inv base s"
  shows "it_wf (st_rows (resetObservation s))"
    and "slot_of_index (resetObservation s) i =
      (if \<exists>r. st_live s \<le> r \<and> r < length (st_owners s) \<and> e_index (own s r) = i \<and> slot_of_index s i = of_nat r + 1
       then 0 else slot_of_index s i)"
proof -
  note o = obs_invD[OF assms]
  let ?u = "(reset_rows s)\<lparr>st_changed := [], st_overflow := False\<rparr>"
  have u: "st_rows ?u = st_rows s" "own ?u = own s" "slot_of_index ?u = slot_of_index s"
    by (simp_all add: reset_rows_def own_def slot_of_index_def fun_eq_iff)
  have "it_wf (st_rows ?u)" "\<forall>r \<in> set [st_live s..<length (st_owners s)]. r < 2 ^ 32 - 1"
    using st_invD(1)[OF o(1)] u by (auto simp: links_ok_def)
  note f = unlink_rows_slot[OF this, of i]
  show "it_wf (st_rows (resetObservation s))" using f resetObservation_fields(12)[OF o(2)] by simp
  show "slot_of_index (resetObservation s) i =
      (if \<exists>r. st_live s \<le> r \<and> r < length (st_owners s) \<and> e_index (own s r) = i \<and> slot_of_index s i = of_nat r + 1
       then 0 else slot_of_index s i)"
    using f u by (auto simp: resetObservation_fields(11)[OF o(2)])
qed

lemma reset_live_rows:
  assumes "obs_inv base s" and "r < st_live s"
  shows "own (resetObservation s) r = own s r" and "value_at (resetObservation s) r = value_at s r"
    and "st_states (resetObservation s) ! r = RowUnchanged" and "shadow_at (resetObservation s) r = value_at s r"
    and "linked (resetObservation s) r"
proof -
  note o = obs_invD[OF assms(1)]
  have lt: "r < length (st_owners s)" using st_invD(3)[OF o(1)] assms(2) by simp
  note rf = resetObservation_fields[OF o(2)]
  show own': "own (resetObservation s) r = own s r" using rf(3) assms(2) by (simp add: own_def)
  show "value_at (resetObservation s) r = value_at s r" using rf(1,2,4) by (simp add: value_at_def)
  have rows: "st_states (reset_rows s) ! r = RowUnchanged \<and> shadow_at (reset_rows s) r = value_at s r"
  proof (cases "st_states s ! r = RowUnchanged")
    case True
    then show ?thesis
      using reset_rows_row[OF st_invD(2)[OF o(1)] o(2) lt] o(6)[OF lt] by (simp add: reset_rows_def row_matches_def)
  next
    case False
    then have "r \<in> set (map (walked_row s) [0..<walkedRows s])" using walked_rows[OF assms(1) lt False] by auto
    then show ?thesis
      using reset_rows_row[OF st_invD(2)[OF o(1)] o(2) lt] False assms(2) by (simp only: reset_rows_def) simp
  qed
  then show "st_states (resetObservation s) ! r = RowUnchanged" using rf(8) assms(2) by simp
  have "shadow_at (resetObservation s) r = shadow_at (reset_rows s) r"
    using rf(1,2,7) by (simp add: shadow_at_def reset_rows_def)
  then show "shadow_at (resetObservation s) r = value_at s r" using rows by simp
  have "slot_of_index s (e_index (own s r)) = of_nat r + 1" using st_invD(4)[OF o(1) assms(2)] by (simp add: linked_def)
  moreover have "(of_nat r + 1 :: u32) \<noteq> of_nat q + 1" if "st_live s \<le> q" "q < length (st_owners s)" for q
    using row_plus_one(3)[of r q] that assms(2) st_invD(1)[OF o(1)] by (simp add: links_ok_def)
  ultimately show "linked (resetObservation s) r" using reset_slot(2)[OF assms(1)] by (auto simp: linked_def own')
qed

lemma reset_inv:
  assumes "obs_inv base s"
  shows "st_inv (resetObservation s)"
proof -
  note o = obs_invD[OF assms] and rf = resetObservation_fields[OF obs_invD(2)[OF assms]]
  have le: "st_live s \<le> length (st_owners s)" and st: "storage_ok s" and ln: "links_ok s" using st_invD[OF o(1)] by simp_all
  have "\<exists>r < st_live s. slot_of_index (resetObservation s) i = of_nat r + 1 \<and> e_index (own (resetObservation s) r) = i"
    if i: "slot_of_index (resetObservation s) i \<noteq> 0" for i
  proof -
    have same: "slot_of_index (resetObservation s) i = slot_of_index s i" using i reset_slot(2)[OF assms, of i] by (auto split: if_splits)
    then obtain r where r: "r < length (st_owners s)" "slot_of_index s i = of_nat r + 1" "e_index (own s r) = i"
      using i ln by (auto simp: links_ok_def)
    then have "r < st_live s" using i reset_slot(2)[OF assms, of i] by (metis not_le)
    then show ?thesis using r same reset_live_rows(1)[OF assms] by auto
  qed
  then have "links_ok (resetObservation s)" using reset_slot(1)[OF assms] ln le by (simp add: links_ok_def rf(3))
  moreover have "storage_ok (resetObservation s)"
    using st le o(2,7) by (auto simp: storage_ok_def rf(1,3-8) reset_rows_def)
  moreover have "rows_ok (resetObservation s)"
    using reset_live_rows(3,5)[OF assms] le by (simp add: rows_ok_def rf(3,5) live_state_def)
  ultimately show ?thesis by (simp add: st_inv_def)
qed

text \<open>The reset keeps the map, which is the base of the window it opens.\<close>

lemma reset_map:
  assumes "obs_inv base s"
  shows "st_map (resetObservation s) = st_map s"
proof
  fix e
  note o = obs_invD[OF assms] and rf = resetObservation_fields[OF obs_invD(2)[OF assms]]
  show "st_map (resetObservation s) e = st_map s e"
    using reset_live_rows(1,2)[OF assms] by (intro st_map_eqI[OF o(1) reset_inv[OF assms], where K = UNIV]) (auto simp: rf(5))
qed

lemma reset_obs:
  assumes "obs_inv base s"
  shows "obs_inv (st_map s) (resetObservation s)"
proof -
  note o = obs_invD[OF assms] and rf = resetObservation_fields[OF obs_invD(2)[OF assms]]
  have le: "st_live s \<le> length (st_owners s)" using st_invD[OF o(1)] by simp
  have "row_matches (st_map s) (resetObservation s) r" if "r < st_live s" for r
    using reset_live_rows[OF assms that] st_map_row[OF o(1) that refl] by (simp add: row_matches_def)
  moreover have "dom (st_map s) \<subseteq> set (take (st_live s) (st_owners s))"
  proof
    fix e assume "e \<in> dom (st_map s)"
    then obtain r where "r < st_live s" "own s r = e" using st_map_none[OF o(1), of e] by (auto simp: domIff)
    then show "e \<in> set (take (st_live s) (st_owners s))" using le by (auto simp: in_set_conv_nth own_def)
  qed
  moreover have "touched (resetObservation s) = {}" using reset_live_rows(3)[OF assms] le by (simp add: touched_def rf(3))
  ultimately show ?thesis
    using reset_inv[OF assms] rf o(3) le reset_live_rows(5)[OF assms] by (simp add: obs_inv_def listed_def)
qed

text \<open>The first reset: every row counts as added.\<close>

lemma start_obs:
  assumes "st_inv s" and "st_obs s = ObserverWaiting"
  shows "obs_inv (\<lambda>_. None) (startObservation s)" and "st_map (startObservation s) = st_map s"
proof -
  let ?s = "startObservation s" and ?n = "length (st_owners s)"
  have p: "?n = st_live s" "st_states s = []" "st_shadows s = []" "links_ok s"
    using assms st_invD(1,2)[OF assms(1)] by (auto simp: storage_ok_def)
  have f: "st_rows ?s = st_rows s" "st_owners ?s = st_owners s" "st_values ?s = st_values s" "st_live ?s = st_live s"
    "st_size ?s = st_size s" "st_zero ?s = st_zero s" "st_obs ?s = Observed" "st_overflow ?s"
    "st_states ?s = replicate ?n RowAdded" "st_shadows ?s = replicate (length (st_values s)) (st_zero s)"
    using assms(2) p by (simp_all add: startObservation_def)
  show "st_map ?s = st_map s" using same_map(2)[of ?s s] f by simp
  have v: "own ?s = own s" "linked ?s = linked s" "links_ok ?s"
    using f p(4) by (simp_all add: fun_eq_iff own_def linked_def slot_of_index_def links_ok_def)
  have "storage_ok ?s" using st_invD(2)[OF assms(1)] assms(2) f by (auto simp: storage_ok_def)
  moreover have "rows_ok ?s" using st_invD(4)[OF assms(1)] p(1) f v by (simp add: rows_ok_def live_state_def)
  moreover have "distinct (st_owners s)"
    using live_own_inj[OF assms(1)] p(1) by (auto simp: distinct_conv_nth own_def)
  ultimately show "obs_inv (\<lambda>_. None) ?s"
    using v f by (simp add: obs_inv_def st_inv_def listed_def row_matches_def)
qed

section \<open>Deltas\<close>

text \<open>What a comparison of two maps says of an entity.\<close>

definition diff_of :: "'v option \<Rightarrow> 'v option \<Rightarrow> delta" where
  "diff_of before after =
     (case (before, after) of
        (None, None) \<Rightarrow> DeltaNone
      | (None, Some _) \<Rightarrow> DeltaAdded
      | (Some _, None) \<Rightarrow> DeltaRemoved
      | (Some v, Some w) \<Rightarrow> if v = w then DeltaNone else DeltaChanged)"

lemma diff_none: "diff_of a b = DeltaNone \<longleftrightarrow> a = b"
  by (cases a; cases b) (simp_all add: diff_of_def)

lemma tail_gone:
  assumes "obs_inv base s" and "st_live s \<le> r" and "r < length (st_owners s)"
  shows "st_map s (own s r) = None"
proof -
  note o = obs_invD[OF assms(1)]
  have "own s q \<noteq> own s r" if "q < st_live s" for q
    using o(3) that assms(2,3) by (simp add: own_def nth_eq_iff_index_eq)
  then show ?thesis using st_map_none[OF o(1)] by blast
qed

lemma row_delta:
  assumes "obs_inv base s" and "r < length (st_owners s)"
  shows "st_delta s r = diff_of (base (own s r)) (st_map s (own s r))"
proof (cases "r < st_live s")
  case True
  note o = obs_invD[OF assms(1)]
  show ?thesis
    using o(6)[OF assms(2)] st_map_row[OF o(1) True refl] st_invD(5)[OF o(1,2) True]
    by (auto simp: st_delta_def row_matches_def live_state_def diff_of_def)
next
  case False
  then show ?thesis
    using tail_states[OF assms(1) _ assms(2)] tail_gone[OF assms(1) _ assms(2)] by (auto simp: st_delta_def diff_of_def)
qed

lemma differing_has_row:
  assumes "obs_inv base s" and "base e \<noteq> st_map s e"
  shows "\<exists>r < length (st_owners s). own s r = e \<and> st_states s ! r \<noteq> RowUnchanged"
proof -
  note o = obs_invD[OF assms(1)]
  have "e \<in> set (st_owners s)"
  proof (cases "base e")
    case None
    then obtain v where "st_map s e = Some v" using assms(2) by (cases "st_map s e") auto
    then obtain r where "r < st_live s" "own s r = e" using st_map_none[OF o(1), of e] by auto
    then show ?thesis using st_invD(3)[OF o(1)] by (auto simp: own_def)
  qed (use o(4) in auto)
  then obtain r where r: "r < length (st_owners s)" "own s r = e" by (auto simp: in_set_conv_nth own_def)
  have "st_delta s r \<noteq> DeltaNone" using row_delta[OF assms(1) r(1)] r(2) assms(2) by (simp add: diff_none)
  then show ?thesis using r by (auto simp: st_delta_def)
qed

lemma walked_distinct:
  assumes "obs_inv base s"
  shows "distinct (map (walked_row s) [0..<walkedRows s])"
    and "i < walkedRows s \<Longrightarrow> walked_row s i < length (st_owners s)"
proof -
  note o = obs_invD[OF assms]
  have l: "\<exists>r < length (st_owners s). linked s r \<and> st_changed s ! i = own s r \<and> listedRow s i = r"
    if "\<not> st_overflow s" "i < length (st_changed s)" for i
  proof -
    have "st_changed s ! i \<in> touched s" using o(5) that by (auto simp: listed_def)
    then obtain r where "r < length (st_owners s)" "st_changed s ! i = own s r" by (auto simp: touched_def)
    moreover have "linked s r" using o(5) that(1) calculation(1) by (simp add: listed_def)
    ultimately show ?thesis
      using slot_row_linked(2)[OF st_invD(1)[OF o(1)]] by (auto simp: listedRow_def)
  qed
  show "distinct (map (walked_row s) [0..<walkedRows s])"
  proof (cases "st_overflow s")
    case False
    have "distinct (st_changed s)" using o(5) False by (simp add: listed_def)
    then have "inj_on (listedRow s) {..<length (st_changed s)}"
      using l[OF False] by (intro inj_onI) (metis lessThan_iff nth_eq_iff_index_eq)
    moreover have "walked_row s = listedRow s" using False by (simp add: walked_row_def fun_eq_iff)
    ultimately show ?thesis using False by (simp add: distinct_map walkedRows_def atLeast0LessThan)
  qed (simp add: walkedRows_def walked_row_def distinct_map inj_on_def)
  show "walked_row s i < length (st_owners s)" if "i < walkedRows s"
    using that l[of i] by (cases "st_overflow s") (auto simp: walkedRows_def walked_row_def)
qed

section \<open>Releasing memory\<close>

lemma used_chunks:
  assumes "n \<le> m" and "rowsPerChunk dvd m"
  shows "n \<le> min ((n + rowsPerChunk - 1) div rowsPerChunk * rowsPerChunk) m"
    and "rowsPerChunk dvd min ((n + rowsPerChunk - 1) div rowsPerChunk * rowsPerChunk) m"
  using assms by (auto simp: min_def rowsPerChunk_def)

lemma shrink_fields [simp]:
  "st_size (st_shrink s) = st_size s" "st_zero (st_shrink s) = st_zero s" "st_owners (st_shrink s) = st_owners s"
  "st_live (st_shrink s) = st_live s" "st_obs (st_shrink s) = st_obs s" "st_states (st_shrink s) = st_states s"
  "st_changed (st_shrink s) = st_changed s" "st_overflow (st_shrink s) = st_overflow s"
  "st_rows (st_shrink s) = it_shrink 0 (st_rows s)" "own (st_shrink s) = own s"
  by (simp_all add: st_shrink_def Let_def own_def fun_eq_iff)

lemma shrink_rows:
  assumes "storage_ok s" and "r < length (st_owners s)"
  shows "value_at (st_shrink s) r = value_at s r" and "st_obs s = Observed \<Longrightarrow> shadow_at (st_shrink s) r = shadow_at s r"
proof -
  let ?u = "min ((length (st_owners s) + rowsPerChunk - 1) div rowsPerChunk * rowsPerChunk) (length (st_values s))"
  have v: "st_values (st_shrink s) = take ?u (st_values s)" by (simp add: st_shrink_def Let_def)
  have u: "r < ?u" if "st_size s \<noteq> 0"
    using used_chunks(1)[of "length (st_owners s)" "length (st_values s)"] assms that unfolding storage_ok_def by linarith
  show "value_at (st_shrink s) r = value_at s r" using u v by (simp add: value_at_def del: min_less_iff_conj)
  have "st_shadows (st_shrink s) = take ?u (st_shadows s)" if "st_obs s = Observed"
    using that by (simp add: st_shrink_def Let_def st_observed_def)
  then show "shadow_at (st_shrink s) r = shadow_at s r" if "st_obs s = Observed"
    using u that by (simp add: shadow_at_def del: min_less_iff_conj)
qed

lemma shrink_slots:
  assumes "links_ok s"
  shows "slot_of_index (st_shrink s) = slot_of_index s" and "linked (st_shrink s) = linked s" and "links_ok (st_shrink s)"
proof -
  have wf: "it_wf (st_rows s)" using assms by (simp add: links_ok_def)
  show slot: "slot_of_index (st_shrink s) = slot_of_index s"
    using it_shrink_spec(2)[OF wf] by (simp add: slot_of_index_def fun_eq_iff)
  then show "linked (st_shrink s) = linked s" by (simp add: linked_def fun_eq_iff)
  show "links_ok (st_shrink s)" using assms it_shrink_spec(1)[OF wf] slot by (simp add: links_ok_def)
qed

lemma shrink_inv:
  assumes "st_inv s"
  shows "st_inv (st_shrink s)"
proof -
  have st: "storage_ok s" using st_invD(2)[OF assms] .
  have "st_size s \<noteq> 0 \<Longrightarrow> length (st_owners s) \<le> length (st_values s) \<and> rowsPerChunk dvd length (st_values s)"
    using st by (simp add: storage_ok_def)
  then have "storage_ok (st_shrink s)"
    using st used_chunks[of "length (st_owners s)" "length (st_values s)"]
    by (auto simp: storage_ok_def st_shrink_def Let_def st_observed_def)
  then show ?thesis
    using assms shrink_slots[OF st_invD(1)[OF assms]] by (simp add: st_inv_def rows_ok_def)
qed

lemma shrink_map:
  assumes "st_inv s"
  shows "st_map (st_shrink s) = st_map s"
proof
  fix e
  show "st_map (st_shrink s) e = st_map s e"
    using shrink_rows(1)[OF st_invD(2)[OF assms]] st_invD(3)[OF assms]
    by (intro st_map_eqI[OF assms shrink_inv[OF assms], where K = UNIV]) (auto intro!: exI)
qed

lemma shrink_obs:
  assumes "obs_inv base s"
  shows "obs_inv base (st_shrink s)"
proof -
  note o = obs_invD[OF assms]
  have "row_matches base (st_shrink s) r" if "r < length (st_owners s)" for r
    using o(6)[OF that] shrink_rows[OF st_invD(2)[OF o(1)] that] o(2) by (auto simp: row_matches_def split: row_state.splits)
  then show ?thesis
    using o shrink_inv[OF o(1)] shrink_slots(2)[OF st_invD(1)[OF o(1)]] by (simp add: obs_inv_def listed_def touched_def)
qed

section \<open>Every history of a store\<close>

text \<open>
  A store after any sequence of its operations, with the map \<open>m\<close> the same operations make of an empty
  map and the map \<open>base\<close> as it was at the last reset.
\<close>

inductive st_reach :: "(entity \<Rightarrow> 'v option) \<Rightarrow> (entity \<Rightarrow> 'v option) \<Rightarrow> 'v store \<Rightarrow> bool" where
  created: "st_reach (\<lambda>_. None) (\<lambda>_. None) (newStoreOf sz z)"
| added: "st_reach base m s \<Longrightarrow> addable s e \<Longrightarrow> fits s v \<Longrightarrow> st_add e s = (row, s')
    \<Longrightarrow> st_reach base (m(e \<mapsto> v)) (put_value row v s')"
| written: "st_reach base m s \<Longrightarrow> fits s v \<Longrightarrow> st_write e s = (Some row, s')
    \<Longrightarrow> st_reach base (m(e \<mapsto> v)) (put_value row v s')"
| removed: "st_reach base m s \<Longrightarrow> st_get s e = Some row \<Longrightarrow> st_reach base (m(e := None)) (st_remove e row s)"
| registered: "st_reach base m s \<Longrightarrow> st_reach base m (registerObserver s)"
| started: "st_reach base m s \<Longrightarrow>
    st_reach (if st_obs s = ObserverWaiting then (\<lambda>_. None) else base) m (startObservation s)"
| reset: "st_reach base m s \<Longrightarrow> st_reach (if st_obs s = Observed then m else base) m (resetObservation s)"
| shrunk: "st_reach base m s \<Longrightarrow> st_reach base m (st_shrink s)"

definition store_ok :: "(entity \<Rightarrow> 'v option) \<Rightarrow> (entity \<Rightarrow> 'v option) \<Rightarrow> 'v store \<Rightarrow> bool" where
  "store_ok base m s \<longleftrightarrow> st_inv s \<and> st_map s = m \<and> (st_obs s = Observed \<longrightarrow> obs_inv base s)"

lemma st_add_fields [simp]:
  "st_size (snd (st_add e s)) = st_size s" "st_zero (snd (st_add e s)) = st_zero s" "st_obs (snd (st_add e s)) = st_obs s"
  by (simp_all add: st_add_def revive_def append_row_eq Let_def split: prod.splits)

lemma store_ok_add:
  assumes "store_ok base m s" and "addable s e" and "fits s v" and "st_add e s = (row, s')"
  shows "store_ok base (m(e \<mapsto> v)) (put_value row v s')"
proof -
  have i: "st_inv s" "st_map s = m" using assms(1) by (simp_all add: store_ok_def)
  note a = st_add_spec[OF i(1) assms(2), unfolded assms(4) fst_conv snd_conv]
  have f: "fits s' v" "st_obs s' = st_obs s"
    using assms(3) st_add_fields[of e s] by (simp_all add: fits_def assms(4))
  have "st_map (put_value row v s') = m(e \<mapsto> v)" using put_value_map[OF a(1,2) f(1)] a(3,4) i(2) by simp
  moreover have "obs_inv base (put_value row v s')" if "st_obs s = Observed"
    using put_value_obs st_add_obs[of base s e] assms(1,2,4) a(2) that by (simp add: store_ok_def)
  ultimately show ?thesis using put_value_inv[OF a(1)] f(2) by (simp add: store_ok_def)
qed

lemma store_ok_write:
  assumes "store_ok base m s" and "fits s v" and "st_write e s = (Some row, s')"
  shows "store_ok base (m(e \<mapsto> v)) (put_value row v s')"
proof -
  have i: "st_inv s" "st_map s = m" using assms(1) by (simp_all add: store_ok_def)
  have g: "st_get s e = Some row" "s' = markChanged row e s" using assms(3) by (auto simp: st_write_def split: option.splits)
  have r: "row < st_live s" "own s row = e" using st_get_iff[OF i(1)] g(1) by auto
  have "fits s' v" using assms(2) g(2) by (simp add: fits_def)
  then have "st_map (put_value row v s') = m(e \<mapsto> v)"
    using put_value_map[OF markChanged_inv[OF i(1), of row e], of row v] r g(2) i(2) by simp
  moreover have "obs_inv base (put_value row v s')" if "st_obs s = Observed"
    using put_value_obs[of base s' row v] markChanged_obs[OF _ r, of base] assms(1) that r(1) g(2)
    by (auto simp: store_ok_def)
  ultimately show ?thesis using put_value_inv[OF markChanged_inv[OF i(1)]] g(2) by (simp add: store_ok_def)
qed

lemma st_obs_remove [simp]: "st_obs (st_remove e row s) = st_obs s"
  by (simp add: st_remove_def Let_def)

lemma start_other: "st_obs s \<noteq> ObserverWaiting \<Longrightarrow> startObservation s = s"
  by (simp add: startObservation_def)

lemma reset_other: "st_obs s \<noteq> Observed \<Longrightarrow> resetObservation s = s"
  by (simp add: resetObservation_def)

lemma register_ok:
  assumes "store_ok base m s"
  shows "store_ok base m (registerObserver s)"
proof -
  have "st_inv (s\<lparr>st_obs := ObserverWaiting\<rparr>)" if "st_obs s \<noteq> Observed"
    using assms that by (auto simp: store_ok_def st_inv_def storage_ok_def rows_ok_def links_ok_def linked_def own_def slot_of_index_def)
  then show ?thesis
    using assms same_map(2)[of "s\<lparr>st_obs := ObserverWaiting\<rparr>" s] by (simp add: store_ok_def registerObserver_def)
qed

lemma st_reach_ok: "st_reach base m s \<Longrightarrow> store_ok base m s"
proof (induction rule: st_reach.induct)
  case (created sz z)
  have "st_live (newStoreOf sz z) = 0" by (simp add: newStoreOf_def)
  then have "st_map (newStoreOf sz z) = (\<lambda>_. None)" using st_map_none[OF st_inv_new, of sz z] by (intro ext) simp
  then show ?case using st_inv_new by (simp add: store_ok_def) (simp add: newStoreOf_def)
next
  case (added base m s e v row s')
  show ?case by (rule store_ok_add[OF added.IH added.hyps(2-4)])
next
  case (written base m s v e row s')
  show ?case by (rule store_ok_write[OF written.IH written.hyps(2,3)])
next
  case (removed base m s e row)
  then show ?case using st_remove_spec[of s e row] st_remove_obs[of base s e row] by (simp add: store_ok_def fun_upd_def)
next
  case (registered base m s)
  show ?case by (rule register_ok[OF registered.IH])
next
  case (started base m s)
  then show ?case
    using start_obs[of s] start_other[of s] obs_invD(1,2)[of _ "startObservation s"] by (auto simp: store_ok_def)
next
  case (reset base m s)
  then show ?case
    using reset_obs[of base s] reset_map[of base s] reset_inv[of base s] reset_other[of s] by (auto simp: store_ok_def)
next
  case (shrunk base m s)
  then show ?case using shrink_inv[of s] shrink_map[of s] shrink_obs[of base s] by (simp add: store_ok_def)
qed

text \<open>
  C3: Whatever is added, written, removed, observed, reset and shrunk, a store holds exactly the map its
  operations make: a lookup by entity, by \<open>get\<close> and by \<open>row\<close>, answers a live row of that very entity,
  generation included, with the value last given, and nothing for an entity that has none; the live
  rows come first, one for each entity of the map.
\<close>

theorem store_refines_map:
  assumes "st_reach base m s"
  shows "(\<forall>e. map_option (value_at s) (st_get s e) = m e)
    \<and> (\<forall>e r. st_get s e = Some r \<longleftrightarrow> r < st_live s \<and> st_owners s ! r = e)
    \<and> (\<forall>e r. st_row s e = (r, True) \<longleftrightarrow> st_get s e = Some r)
    \<and> dom m = set (take (st_live s) (st_owners s)) \<and> st_len s = card (dom m)"
proof -
  have i: "st_inv s" and m: "st_map s = m" using st_reach_ok[OF assms] by (simp_all add: store_ok_def)
  have le: "st_live s \<le> length (st_owners s)" using st_invD(3)[OF i] .
  have "e \<in> dom m \<longleftrightarrow> e \<in> set (take (st_live s) (st_owners s))" for e
    using st_map_none[OF i, of e] m le by (auto simp: domIff in_set_conv_nth own_def)
  then have dom: "dom m = set (take (st_live s) (st_owners s))" by blast
  moreover have "distinct (take (st_live s) (st_owners s))"
    using live_own_inj[OF i] le by (auto simp: distinct_conv_nth own_def)
  then have "st_len s = card (dom m)" using dom le by (simp add: st_len_def distinct_card)
  moreover have "map_option (value_at s) (st_get s e) = m e" for e using m by (auto simp: st_map_def)
  ultimately show ?thesis using st_get_iff[OF i] st_row_iff(1)[OF i] by (simp add: own_def)
qed

text \<open>A small history for the concrete cases: an observed store of bytes takes one entity.\<close>

definition sample_store :: "nat store" where
  "sample_store = startObservation (registerObserver (newStoreOf 8 0))"

definition sample_added :: "nat store" where
  "sample_added = put_value (fst (st_add 3 sample_store)) 5 (snd (st_add 3 sample_store))"

lemma sample_observed: "st_obs sample_added = Observed"
  by (simp add: sample_added_def sample_store_def startObservation_def registerObserver_def newStoreOf_def)

lemma sample_reach: "st_reach (\<lambda>_. None) [3 \<mapsto> 5] sample_added"
proof -
  have "st_reach (\<lambda>_. None) (\<lambda>_. None) (startObservation (registerObserver (newStoreOf 8 (0 :: nat))))"
    using st_reach.started[OF st_reach.registered[OF st_reach.created[of 8 "0 :: nat"]]] by (simp split: if_splits)
  then have "st_reach (\<lambda>_. None) (\<lambda>_. None) sample_store" by (simp add: sample_store_def)
  moreover have "addable sample_store 3" "fits sample_store 5"
    by (simp_all add: sample_store_def addable_def fits_def startObservation_def registerObserver_def newStoreOf_def)
  ultimately show ?thesis unfolding sample_added_def by (rule st_reach.added) (simp add: prod_eq_iff)
qed

theorem store_refines_map_witness:
  "st_reach (\<lambda>_. None) [3 \<mapsto> 5] sample_added \<and> map_option (value_at sample_added) (st_get sample_added 3) = Some 5
    \<and> map_option (value_at sample_added) (st_get sample_added 4) = None \<and> st_len sample_added = 1"
  using store_refines_map[OF sample_reach] sample_reach by simp

text \<open>
  An observed store's deltas are the comparison of its map with the map at the last reset: of every
  row, live or in the tail, \<open>delta\<close> answers added, changed, removed or none as the owner's two values
  differ, and a row that is written back to its old bytes, or added and removed within the window, is
  none.  The rows a delta query and the reset walk, those of the change list or every row once the
  listing stopped, are rows of the store, each once, and every entity whose values differ is among
  their owners.
\<close>

theorem deltas_exact:
  assumes "st_reach base m s" and "st_obs s = Observed"
  shows "(\<forall>r < length (st_owners s). st_delta s r = diff_of (base (st_owners s ! r)) (m (st_owners s ! r)))
    \<and> distinct (map (walked_row s) [0..<walkedRows s])
    \<and> (\<forall>i < walkedRows s. walked_row s i < length (st_owners s))
    \<and> (\<forall>e. base e \<noteq> m e \<longrightarrow>
         (\<exists>i < walkedRows s. st_owners s ! walked_row s i = e \<and> st_delta s (walked_row s i) = diff_of (base e) (m e)))"
proof -
  have o: "obs_inv base s" and m: "st_map s = m" using st_reach_ok[OF assms(1)] assms(2) by (simp_all add: store_ok_def)
  note d = row_delta[OF o, unfolded m own_def]
  have "\<exists>i < walkedRows s. st_owners s ! walked_row s i = e \<and> st_delta s (walked_row s i) = diff_of (base e) (m e)"
    if e: "base e \<noteq> m e" for e
  proof -
    obtain r where r: "r < length (st_owners s)" "own s r = e" "st_states s ! r \<noteq> RowUnchanged"
      using differing_has_row[OF o] e m by blast
    then obtain i where "i < walkedRows s" "walked_row s i = r" using walked_rows[OF o] by blast
    then show ?thesis using r d[OF r(1)] by (auto simp: own_def)
  qed
  then show ?thesis using d walked_distinct[OF o] by blast
qed

theorem deltas_exact_witness:
  "st_reach (\<lambda>_. None) [3 \<mapsto> 5] sample_added \<and> st_obs sample_added = Observed
    \<and> (\<exists>i < walkedRows sample_added. st_owners sample_added ! walked_row sample_added i = 3
         \<and> st_delta sample_added (walked_row sample_added i) = DeltaAdded)"
  using deltas_exact[OF sample_reach sample_observed] sample_reach sample_observed
  by (auto simp: diff_of_def split: if_splits dest: spec[where x = "3 :: entity"])

text \<open>
  A reset ends the window of an observed store: the map stays, the next window's base is the map as
  it is, so that no row has a delta; the tail is dropped, the change list empty, and the rows that are
  left are the live ones.
\<close>

theorem reset_opens_window:
  assumes "st_reach base m s" and "st_obs s = Observed"
  shows "st_reach m m (resetObservation s) \<and> st_map (resetObservation s) = st_map s
    \<and> (\<forall>r < length (st_owners (resetObservation s)). st_delta (resetObservation s) r = DeltaNone)
    \<and> length (st_owners (resetObservation s)) = st_live s \<and> walkedRows (resetObservation s) = 0"
proof -
  have o: "obs_inv base s" and m: "st_map s = m" using st_reach_ok[OF assms(1)] assms(2) by (simp_all add: store_ok_def)
  have "st_reach m m (resetObservation s)" using st_reach.reset[OF assms(1)] assms(2) by simp
  moreover have "st_delta (resetObservation s) r = DeltaNone" if "r < length (st_owners (resetObservation s))" for r
    using row_delta[OF reset_obs[OF o] that] reset_map[OF o] by (simp add: diff_none)
  ultimately show ?thesis
    using reset_map[OF o] resetObservation_fields(3,9,10)[OF assms(2)] st_invD(3)[OF obs_invD(1)[OF o]]
    by (simp add: walkedRows_def)
qed

theorem reset_opens_window_witness:
  "st_reach (\<lambda>_. None) [3 \<mapsto> 5] sample_added \<and> st_obs sample_added = Observed
    \<and> st_reach [3 \<mapsto> 5] [3 \<mapsto> 5] (resetObservation sample_added) \<and> walkedRows (resetObservation sample_added) = 0"
  using reset_opens_window[OF sample_reach sample_observed] sample_reach sample_observed by simp

end
