(* ===== verification/Ecs_World.thy ===== *)
theory Ecs_World
  imports Ecs_Entities Ecs_Observe
begin

text \<open>
  \<open>ecs/world.go\<close> and \<open>ecs/component.go\<close>: a world, its entity table and its stores, and every
  operation under the barrier and through a \<open>Store\<close> or \<open>Lookup\<close>.  A component's value is its bytes.
  The world reaches its refs and command buffers through interfaces only, so they are of any type,
  and their methods are arguments of the two operations that call them; \<open>shrinkers\<close> is the refs and
  the buffers, each of which shrinks itself alone.  A \<open>reflect.Type\<close> is
  its name and its size, with what \<open>container.IsPointerFree\<close> answers of it.  A panic is an error
  value.
\<close>

type_synonym bytes = "u8 list"

record component_type =
  ct_name :: string
  ct_size :: nat
  ct_pointer_free :: bool

record ('r, 'b) world =
  w_entities :: entity_table
  w_stores :: "bytes store list"
  w_storesByType :: "(string \<times> nat) list"
  w_storesByName :: "(string \<times> nat) list"
  w_refs :: "'r list"
  w_buffers :: "'b list"

datatype world_panic =
    BeforePlugin | WorldTwice | EmptyRange | NotPointerFree | ComponentTwice | NameTwice | NoMoreComponents
  | NotRegistered | MaskBeyondStores nat | WrongValuesLength | WrongSize | IndexOutOfRange

section \<open>Registration\<close>

record world_options =
  wo_firstIndex :: u32
  wo_lastIndex :: u32
  wo_entities :: nat

text \<open>\<open>plugin\<close> and \<open>known\<close>: whether the ECS plugin's registry and this world are resources already.\<close>

definition RegisterWorld :: "nat \<Rightarrow> bool \<Rightarrow> bool \<Rightarrow> world_options \<Rightarrow> world_panic + ('r, 'b) world" where
  "RegisterWorld words plugin known options =
     (if \<not> plugin then Inl BeforePlugin
      else if known then Inl WorldTwice
      else let final = (if wo_lastIndex options = 0 then - 1 else wo_lastIndex options)
           in if final < wo_firstIndex options then Inl EmptyRange
              else Inr \<lparr>w_entities = et_init words (wo_firstIndex options) final (wo_entities options),
                        w_stores = [], w_storesByType = [], w_storesByName = [], w_refs = [], w_buffers = []\<rparr>)"

definition RegisterComponent :: "component_type \<Rightarrow> string \<Rightarrow> ('r, 'b) world \<Rightarrow> world_panic + nat \<times> ('r, 'b) world" where
  "RegisterComponent t name w =
     (if \<not> ct_pointer_free t then Inl NotPointerFree
      else if map_of (w_storesByType w) (ct_name t) \<noteq> None then Inl ComponentTwice
      else if map_of (w_storesByName w) name \<noteq> None then Inl NameTwice
      else if length (w_stores w) = et_words (w_entities w) * 64 then Inl NoMoreComponents
      else let c = length (w_stores w); s = newStoreOf (ct_size t) (replicate (ct_size t) 0)
           in Inr (c, w\<lparr>w_stores := w_stores w @ [s],
                        w_storesByType := (ct_name t, c) # w_storesByType w,
                        w_storesByName := (name, c) # w_storesByName w\<rparr>))"

definition storeOf :: "('r, 'b) world \<Rightarrow> string \<Rightarrow> world_panic + nat" where
  "storeOf w t = (case map_of (w_storesByType w) t of None \<Rightarrow> Inl NotRegistered | Some c \<Rightarrow> Inr c)"

section \<open>One component of one entity\<close>

definition the_store :: "('r, 'b) world \<Rightarrow> nat \<Rightarrow> bytes store" where
  "the_store w c = w_stores w ! c"

definition upd_store :: "nat \<Rightarrow> bytes store \<Rightarrow> ('r, 'b) world \<Rightarrow> ('r, 'b) world" where
  "upd_store c s w = w\<lparr>w_stores := (w_stores w)[c := s]\<rparr>"

definition w_put :: "entity \<Rightarrow> nat \<Rightarrow> ('r, 'b) world \<Rightarrow> nat option \<times> ('r, 'b) world" where
  "w_put e c w =
     (if \<not> alive (w_entities w) e then (None, w)
      else case st_write e (the_store w c) of
             (Some row, s) \<Rightarrow> (Some row, upd_store c s w)
           | (None, s) \<Rightarrow>
               (case st_add e s of (row, s1) \<Rightarrow>
                  (Some row, (upd_store c s1 w)\<lparr>w_entities := setComponent (w_entities w) e c\<rparr>)))"

definition w_remove :: "entity \<Rightarrow> nat \<Rightarrow> ('r, 'b) world \<Rightarrow> bool \<times> ('r, 'b) world" where
  "w_remove e c w =
     (case st_row (the_store w c) e of (row, ok) \<Rightarrow>
        if \<not> ok then (False, w)
        else (True, (upd_store c (st_remove e row (the_store w c)) w)\<lparr>w_entities := unsetComponent (w_entities w) e c\<rparr>))"

text \<open>\<open>Store\<close>'s and \<open>World\<close>'s methods on a store they have found, and \<open>Lookup\<close>'s.\<close>

definition w_has :: "entity \<Rightarrow> nat \<Rightarrow> ('r, 'b) world \<Rightarrow> bool" where
  "w_has e c w \<longleftrightarrow> st_get (the_store w c) e \<noteq> None"

definition w_get :: "entity \<Rightarrow> nat \<Rightarrow> ('r, 'b) world \<Rightarrow> bytes option" where
  "w_get e c w = map_option (value_at (the_store w c)) (st_get (the_store w c) e)"

definition lookup_get :: "entity \<Rightarrow> nat \<Rightarrow> ('r, 'b) world \<Rightarrow> bytes \<times> bool" where
  "lookup_get e c w =
     (case st_get (the_store w c) e of
        None \<Rightarrow> (st_zero (the_store w c), False)
      | Some row \<Rightarrow> (value_at (the_store w c) row, True))"

text \<open>Writing in place: the pointer \<open>Write\<close> answers, and a value written through it.\<close>

definition w_write :: "entity \<Rightarrow> nat \<Rightarrow> ('r, 'b) world \<Rightarrow> nat option \<times> ('r, 'b) world" where
  "w_write e c w = (case st_write e (the_store w c) of (row, s) \<Rightarrow> (row, upd_store c s w))"

definition w_poke :: "nat \<Rightarrow> nat \<Rightarrow> bytes \<Rightarrow> ('r, 'b) world \<Rightarrow> ('r, 'b) world" where
  "w_poke c row v w = upd_store c (put_value row v (the_store w c)) w"

definition w_add :: "entity \<Rightarrow> nat \<Rightarrow> bytes \<Rightarrow> ('r, 'b) world \<Rightarrow> bool \<times> ('r, 'b) world" where
  "w_add e c given w =
     (case w_put e c w of (None, w1) \<Rightarrow> (False, w1) | (Some row, w1) \<Rightarrow> (True, w_poke c row given w1))"

text \<open>The methods of \<open>World\<close> that find the store by its type.\<close>

definition World_Has :: "string \<Rightarrow> entity \<Rightarrow> ('r, 'b) world \<Rightarrow> world_panic + bool" where
  "World_Has t e w = (case storeOf w t of Inl p \<Rightarrow> Inl p | Inr c \<Rightarrow> Inr (w_has e c w))"

definition World_Get :: "string \<Rightarrow> entity \<Rightarrow> ('r, 'b) world \<Rightarrow> world_panic + bytes option" where
  "World_Get t e w = (case storeOf w t of Inl p \<Rightarrow> Inl p | Inr c \<Rightarrow> Inr (w_get e c w))"

definition World_Write :: "string \<Rightarrow> entity \<Rightarrow> ('r, 'b) world \<Rightarrow> world_panic + nat option \<times> ('r, 'b) world" where
  "World_Write t e w = (case storeOf w t of Inl p \<Rightarrow> Inl p | Inr c \<Rightarrow> Inr (w_write e c w))"

definition World_Add :: "string \<Rightarrow> entity \<Rightarrow> bytes \<Rightarrow> ('r, 'b) world \<Rightarrow> world_panic + bool \<times> ('r, 'b) world" where
  "World_Add t e given w = (case storeOf w t of Inl p \<Rightarrow> Inl p | Inr c \<Rightarrow> Inr (w_add e c given w))"

definition World_Remove :: "string \<Rightarrow> entity \<Rightarrow> ('r, 'b) world \<Rightarrow> world_panic + bool \<times> ('r, 'b) world" where
  "World_Remove t e w = (case storeOf w t of Inl p \<Rightarrow> Inl p | Inr c \<Rightarrow> Inr (w_remove e c w))"

section \<open>Whole entities\<close>

definition w_spawn :: "('r, 'b) world \<Rightarrow> entity \<times> ('r, 'b) world" where
  "w_spawn w = (case spawn (w_entities w) of (e, t) \<Rightarrow> (e, w\<lparr>w_entities := t\<rparr>))"

definition CreateAt :: "entity \<Rightarrow> ('r, 'b) world \<Rightarrow> place_error + ('r, 'b) world" where
  "CreateAt e w = (case place e (w_entities w) of Inl err \<Rightarrow> Inl err | Inr t \<Rightarrow> Inr (w\<lparr>w_entities := t\<rparr>))"

definition drop_component :: "entity \<Rightarrow> nat \<Rightarrow> ('r, 'b) world \<Rightarrow> ('r, 'b) world" where
  "drop_component e c w =
     (case st_row (the_store w c) e of (row, _) \<Rightarrow> upd_store c (st_remove e row (the_store w c)) w)"

definition w_despawn :: "entity \<Rightarrow> ('r, 'b) world \<Rightarrow> bool \<times> ('r, 'b) world" where
  "w_despawn e w =
     (case despawn e (w_entities w) of
        (None, t) \<Rightarrow> (False, w\<lparr>w_entities := t\<rparr>)
      | (Some m, t) \<Rightarrow> (True, fold (drop_component e) (maskIDs m) (w\<lparr>w_entities := t\<rparr>)))"

text \<open>The loop of \<open>checkValues\<close> over a mask's ids, and the check of the length they need.\<close>

fun needed_bytes :: "('r, 'b) world \<Rightarrow> nat list \<Rightarrow> nat \<Rightarrow> world_panic + nat" where
  "needed_bytes w [] need = Inr need"
| "needed_bytes w (c # cs) need =
     (if c \<ge> length (w_stores w) then Inl (MaskBeyondStores c)
      else needed_bytes w cs (need + st_size (the_store w c)))"

definition checkValues :: "mask \<Rightarrow> bytes \<Rightarrow> ('r, 'b) world \<Rightarrow> world_panic option" where
  "checkValues m values w =
     (case needed_bytes w (maskIDs m) 0 of
        Inl p \<Rightarrow> Some p
      | Inr need \<Rightarrow> if length values \<noteq> need then Some WrongValuesLength else None)"

fun add_values :: "entity \<Rightarrow> nat list \<Rightarrow> bytes \<Rightarrow> ('r, 'b) world \<Rightarrow> ('r, 'b) world" where
  "add_values e [] values w = w"
| "add_values e (c # cs) values w =
     (let n = st_size (the_store w c) in add_values e cs (drop n values) (snd (w_add e c (take n values) w)))"

definition addAll :: "entity \<Rightarrow> mask \<Rightarrow> bytes \<Rightarrow> ('r, 'b) world \<Rightarrow> ('r, 'b) world" where
  "addAll e m values w = add_values e (maskIDs m) values w"

definition SpawnRaw :: "mask \<Rightarrow> bytes \<Rightarrow> ('r, 'b) world \<Rightarrow> world_panic + entity \<times> ('r, 'b) world" where
  "SpawnRaw m values w =
     (case checkValues m values w of
        Some p \<Rightarrow> Inl p
      | None \<Rightarrow> (case w_spawn w of (e, w1) \<Rightarrow> Inr (e, if e \<noteq> NoEntity then addAll e m values w1 else w1)))"

definition CreateAtRaw :: "entity \<Rightarrow> mask \<Rightarrow> bytes \<Rightarrow> ('r, 'b) world \<Rightarrow> world_panic + place_error + ('r, 'b) world" where
  "CreateAtRaw e m values w =
     (case checkValues m values w of
        Some p \<Rightarrow> Inl p
      | None \<Rightarrow> Inr (case CreateAt e w of Inl err \<Rightarrow> Inl err | Inr w1 \<Rightarrow> Inr (addAll e m values w1)))"

definition ComponentMask :: "entity \<Rightarrow> ('r, 'b) world \<Rightarrow> mask option" where
  "ComponentMask e w = et_mask (w_entities w) e"

definition ReadRaw :: "entity \<Rightarrow> nat \<Rightarrow> ('r, 'b) world \<Rightarrow> world_panic + bytes option" where
  "ReadRaw e c w = (if c \<ge> length (w_stores w) then Inl IndexOutOfRange else Inr (w_get e c w))"

definition WriteRaw :: "entity \<Rightarrow> nat \<Rightarrow> ('r, 'b) world \<Rightarrow> world_panic + nat option \<times> ('r, 'b) world" where
  "WriteRaw e c w = (if c \<ge> length (w_stores w) then Inl IndexOutOfRange else Inr (w_write e c w))"

definition AddRaw :: "entity \<Rightarrow> nat \<Rightarrow> bytes \<Rightarrow> ('r, 'b) world \<Rightarrow> world_panic + bool \<times> ('r, 'b) world" where
  "AddRaw e c given w =
     (if c \<ge> length (w_stores w) then Inl IndexOutOfRange
      else if length given \<noteq> st_size (the_store w c) then Inl WrongSize
      else Inr (w_add e c given w))"

definition RemoveRaw :: "entity \<Rightarrow> nat \<Rightarrow> ('r, 'b) world \<Rightarrow> world_panic + bool \<times> ('r, 'b) world" where
  "RemoveRaw e c w = (if c \<ge> length (w_stores w) then Inl IndexOutOfRange else Inr (w_remove e c w))"

section \<open>Windows and memory\<close>

definition w_resetObservation :: "('r \<Rightarrow> 'r) \<Rightarrow> ('r \<Rightarrow> 'r) \<Rightarrow> ('r, 'b) world \<Rightarrow> ('r, 'b) world" where
  "w_resetObservation startRef resetRef w =
     (case endWindow (w_entities w) of (started, t) \<Rightarrow>
        if started
        then w\<lparr>w_entities := t, w_stores := map startObservation (w_stores w), w_refs := map startRef (w_refs w)\<rparr>
        else w\<lparr>w_entities := t, w_stores := map resetObservation (w_stores w), w_refs := map resetRef (w_refs w)\<rparr>)"

definition w_shrink ::
  "('r \<Rightarrow> 'r) \<Rightarrow> ('r \<Rightarrow> 'r) \<Rightarrow> ('r \<Rightarrow> 'r) \<Rightarrow> ('b \<Rightarrow> 'b) \<Rightarrow> ('r, 'b) world \<Rightarrow> ('r, 'b) world" where
  "w_shrink startRef resetRef shrinkRef shrinkBuffer w =
     (let w1 = (if et_observing (w_entities w) then w_resetObservation startRef resetRef w else w)
      in w1\<lparr>w_entities := et_shrink (w_entities w1), w_stores := map st_shrink (w_stores w1),
             w_refs := map shrinkRef (w_refs w1), w_buffers := map shrinkBuffer (w_buffers w1)\<rparr>)"

section \<open>What the world needs of its entity table\<close>

definition mask_of :: "entity_table \<Rightarrow> u32 \<Rightarrow> mask" where
  "mask_of t i = es_mask (slot_of t i)"

text \<open>Masks have the world's words, and one of an index with no live entity is empty.\<close>

definition masks_wf :: "entity_table \<Rightarrow> bool" where
  "masks_wf t \<longleftrightarrow>
     (\<forall>i. length (mask_of t i) = et_words t
        \<and> (live_of t i = 0 \<longrightarrow> (\<forall>c < et_words t * 64. \<not> maskHas (mask_of t i) c)))"

text \<open>One table grows into another: entities come alive at indices free and not despawned this window.\<close>

definition grown :: "entity set \<Rightarrow> entity_table \<Rightarrow> entity_table \<Rightarrow> bool" where
  "grown E t t' \<longleftrightarrow>
     ent_inv t' \<and> et_words t' = et_words t \<and> et_observing t' = et_observing t \<and> et_despawned t' = et_despawned t
     \<and> mask_of t' = mask_of t \<and> (\<forall>i. live_of t' i \<noteq> live_of t i \<longrightarrow> live_of t i = 0)
     \<and> (\<forall>x. alive t' x \<longleftrightarrow> alive t x \<or> x \<in> E) \<and> (\<forall>x \<in> E. \<not> alive t x)"

lemma same_slots_mask: "et_slots t' = et_slots t \<Longrightarrow> et_words t' = et_words t \<Longrightarrow> mask_of t' = mask_of t"
  by (simp add: mask_of_def slot_of_def fun_eq_iff)

lemma setAlive_mask: "it_wf (et_slots t) \<Longrightarrow> mask_of (setAlive t e) = mask_of t"
  by (auto simp: mask_of_def setAlive_def slot_upd fun_eq_iff)

lemma setAlive_grown:
  assumes "ent_inv t" and "ent_inv (setAlive t e)" and "live_of t (e_index e) = 0" and "e_generation e \<noteq> 0"
  shows "grown {e} t (setAlive t e)"
proof -
  have wf: "it_wf (et_slots t)" using assms(1) by (simp add: ent_inv_def)
  have "alive (setAlive t e) x \<longleftrightarrow> alive t x \<or> x = e" for x
    using setAlive_slot(1)[OF wf] assms(3,4) by (auto simp: alive_iff intro: entity_eqI)
  then show ?thesis
    using assms setAlive_mask[OF wf] setAlive_slot(1)[OF wf] by (auto simp: grown_def alive_iff)
qed

lemma grown_refl: "ent_inv t \<Longrightarrow> grown {} t t"
  by (simp add: grown_def)

lemma reserve_grown:
  assumes "ent_inv t" and "reserve t = (e, t')"
  shows "grown {} t t'"
proof -
  have f: "t' = t\<lparr>et_reserved := et_reserved t + 1\<rparr>"
    using assms(2) by (auto simp: reserve_def Let_def split: if_splits)
  have k: "et_words t' = et_words t" "et_observing t' = et_observing t" "et_despawned t' = et_despawned t"
    "live_of t' = live_of t" "mask_of t' = mask_of t"
    using f ent_views[of t' t] same_slots_mask[of t' t] by simp_all
  show ?thesis using reserve_inv(1)[OF assms] k by (simp add: grown_def alive_iff)
qed

lemma settle_plain_grown:
  assumes "ent_inv t" and "\<not> et_observing t"
  shows "grown {} t (settleReservations False t)"
  using settle_plain_inv[OF assms] settle_plain[of t, OF refl] settle_plain_views(1)[of t]
    same_slots_mask[of "settleReservations False t" t] by (auto simp: grown_def alive_iff)

lemma grown_trans:
  assumes "grown {} t t1" and "grown E t1 t2"
  shows "grown E t t2"
proof -
  have "live_of t i = 0" if "live_of t2 i \<noteq> live_of t i" for i
    using assms that unfolding grown_def by metis
  then show ?thesis using assms by (simp add: grown_def)
qed

lemma spawn_grown:
  assumes "ent_inv t" and "spawn t = (e, t')"
  shows "grown (if e = NoEntity then {} else {e}) t t'" and "e \<noteq> NoEntity \<Longrightarrow> \<not> alive t e"
proof -
  define t1 where "t1 = (if et_observing t then t else settleReservations False t)"
  obtain x t2 where r: "reserve t1 = (x, t2)" by fastforce
  have s: "x = e" "t' = (if e \<noteq> NoEntity then setAlive t2 e else t2)"
    using assms(2) r by (auto simp: spawn_def Let_def t1_def[symmetric])
  have g1: "grown {} t t1" using settle_plain_grown[OF assms(1)] grown_refl[OF assms(1)] by (simp add: t1_def)
  then have inv1: "ent_inv t1" by (simp add: grown_def)
  have g2: "grown {} t t2" by (rule grown_trans[OF g1 reserve_grown[OF inv1 r]])
  have "grown {e} t2 (setAlive t2 e)" if "e \<noteq> NoEntity"
  proof (rule setAlive_grown)
    have p: "unspawned t2 e" "in_alloc t2 (e_index e)" using reserve_inv(2)[OF inv1 r] s(1) that by (auto simp: pending_def)
    show "ent_inv t2" using g2 by (simp add: grown_def)
    show "ent_inv (setAlive t2 e)" using spawn_inv[OF assms(1)] assms(2) s(2) that by simp
    show "live_of t2 (e_index e) = 0" "e_generation e \<noteq> 0" using p(1) by (simp_all add: unspawned_def)
  qed
  then show g: "grown (if e = NoEntity then {} else {e}) t t'" using grown_trans[OF g2] g2 s(2) by simp
  then show "\<not> alive t e" if "e \<noteq> NoEntity" using that by (simp add: grown_def)
qed

lemma place_grown:
  assumes "ent_inv t" and "place e t = Inr t'"
  shows "grown {e} t t'"
proof -
  have "e_generation e \<noteq> 0" "live_of t (e_index e) = 0"
    using assms(2) by (auto simp: place_def live_of_def slot_of_def it_get_def zero_slot_def split: if_splits option.splits)
  then show ?thesis using place_inv[OF assms] setAlive_grown[OF assms(1)] by simp
qed

lemma spawnReserved_grown:
  assumes "ent_inv t" and "pending t e \<or> \<not> fst (spawnReserved e t)"
  shows "grown (if fst (spawnReserved e t) then {e} else {}) t (snd (spawnReserved e t))"
proof (cases "fst (spawnReserved e t)")
  case True
  then have p: "pending t e" "snd (spawnReserved e t) = setAlive t e"
    using assms(2) by (auto simp: spawnReserved_def split: option.splits if_splits)
  then show ?thesis
    using True setAlive_grown[OF assms(1)] spawnReserved_inv[OF assms(1) p(1)] by (simp add: pending_def unspawned_def)
qed (simp add: spawnReserved_refused grown_refl[OF assms(1)])

text \<open>Ending an entity, a window, and setting masks.\<close>

lemma despawn_facts:
  assumes "ent_inv t" and "alive t e" and "despawn e t = (m, t')"
  shows "m = Some (mask_of t (e_index e))" and "ent_inv t'" and "et_words t' = et_words t" and "et_observing t' = et_observing t"
    and "mask_of t' = (mask_of t)(e_index e := zero_mask (et_words t))"
    and "alive t' x \<longleftrightarrow> alive t x \<and> x \<noteq> e"
    and "set (et_despawned t') = set (et_despawned t) \<union> (if et_observing t then {e_index e} else {})"
    and "live_of t' = (live_of t)(e_index e := 0)"
proof -
  have wf: "it_wf (et_slots t)" "it_wf (et_slots (settleReservations False t))"
    using assms(1) settle_plain[of t, OF refl] by (simp_all add: ent_inv_def)
  show "m = Some (mask_of t (e_index e))" using assms(2,3) by (simp add: despawn_def Let_def mask_of_def)
  show "ent_inv t'" using despawn_inv[OF assms(1), of e] assms(3) by simp
  show lv: "live_of t' = (live_of t)(e_index e := 0)" using despawn_views(2)[OF assms(1), of e] assms(2,3) by (auto simp: fun_eq_iff)
  show "alive t' x \<longleftrightarrow> alive t x \<and> x \<noteq> e"
    using assms(2) by (auto simp: alive_iff lv intro: entity_eqI)
  have t': "t' = (if et_observing t then (let t2 = (clear_slot (e_index e) t)\<lparr>et_despawned := et_despawned t @ [e_index e]\<rparr>
        in if \<not> in_alloc t (e_index e) then upd_outside (\<lambda>w b. w OR b) (e_index e) t2 else t2)
      else et_free_index (e_index e) (clear_slot (e_index e) (settleReservations False t)))"
    using assms(2,3) by (auto simp: despawn_def Let_def clear_slot_def[symmetric] settle_clear split: if_splits)
  have sp: "et_words (settleReservations False t) = et_words t" "et_observing (settleReservations False t) = et_observing t"
    "et_despawned (settleReservations False t) = et_despawned t" "mask_of (settleReservations False t) = mask_of t"
    using settle_plain[of t, OF refl] same_slots_mask[of "settleReservations False t" t] by simp_all
  have fi: "et_words (et_free_index i x) = et_words x" "et_observing (et_free_index i x) = et_observing x"
    "et_despawned (et_free_index i x) = et_despawned x" "et_slots (et_free_index i x) = et_slots x" for i x
    by (simp_all add: et_free_index_def)
  show "et_words t' = et_words t" "et_observing t' = et_observing t"
    "set (et_despawned t') = set (et_despawned t) \<union> (if et_observing t then {e_index e} else {})"
    by (auto simp: t' fi sp Let_def)
  have cm: "mask_of (clear_slot i x) = (mask_of x)(i := zero_mask (et_words x))" if "it_wf (et_slots x)" for i x
    using slot_upd(1)[OF that] by (auto simp: mask_of_def clear_slot_def fun_eq_iff)
  have "mask_of t' = mask_of (if et_observing t then clear_slot (e_index e) t else clear_slot (e_index e) (settleReservations False t))"
    by (rule same_slots_mask) (simp_all add: t' fi Let_def)
  then show "mask_of t' = (mask_of t)(e_index e := zero_mask (et_words t))"
    using cm[OF wf(1)] cm[OF wf(2)] sp by simp
qed

lemma settle_reclaim_facts:
  assumes "ent_inv t"
  defines "t1 \<equiv> settleReservations True t"
  shows "live_of t1 = live_of t" and "mask_of t1 = mask_of t" and "et_words t1 = et_words t"
    and "et_observing t1 = et_observing t" and "et_despawned t1 = et_despawned t"
proof -
  have "live_of t1 = live_of t \<and> mask_of t1 = mask_of t \<and> et_words t1 = et_words t
    \<and> et_observing t1 = et_observing t \<and> et_despawned t1 = et_despawned t"
  proof (cases "et_reserved t = 0")
    case False
    show ?thesis
      using settle_reclaim_spec(2,3,9,12,13)[OF assms(1) False refl] by (simp add: t1_def mask_of_def fun_eq_iff)
  qed (simp add: t1_def settleReservations_def)
  then show "live_of t1 = live_of t" and "mask_of t1 = mask_of t" and "et_words t1 = et_words t"
    and "et_observing t1 = et_observing t" and "et_despawned t1 = et_despawned t" by blast+
qed

lemma endWindow_facts:
  assumes "ent_inv t" and "endWindow t = (started, t')"
  shows "started \<longleftrightarrow> \<not> et_observing t" and "ent_inv t'" and "et_words t' = et_words t" and "et_observing t'"
    and "mask_of t' = mask_of t" and "live_of t' = live_of t" and "et_despawned t' = []"
proof -
  show st: "started \<longleftrightarrow> \<not> et_observing t" using assms(2) by (auto simp: endWindow_def Let_def split: if_splits)
  show "ent_inv t'" using endWindow_inv[OF assms(1)] assms(2) by simp
  have "et_words t' = et_words t \<and> et_observing t' \<and> mask_of t' = mask_of t \<and> live_of t' = live_of t \<and> et_despawned t' = []"
  proof (cases "et_observing t")
    case True
    define t1 where "t1 = settleReservations True t"
    note r = settle_reclaim_facts[OF assms(1), folded t1_def]
    have f: "et_slots (fold end_index ds x) = et_slots x \<and> et_words (fold end_index ds x) = et_words x
        \<and> et_observing (fold end_index ds x) = et_observing x" for ds x
      by (induction ds arbitrary: x) simp_all
    have t': "t' = (fold end_index (et_despawned t1) t1)\<lparr>et_despawned := []\<rparr>"
      using assms(2) True by (simp add: endWindow_def Let_def t1_def)
    have "mask_of t' = mask_of t1" by (rule same_slots_mask) (simp_all add: t' f)
    moreover have "live_of t' = live_of t1" using end_indexes_views by (simp add: t')
    ultimately show ?thesis using r True f[of "et_despawned t1" t1] by (simp add: t')
  next
    case False
    define t1 where "t1 = settleReservations False t"
    have t': "t' = t1\<lparr>et_observing := True\<rparr>" using assms(2) False by (simp add: endWindow_def t1_def)
    have "mask_of t' = mask_of t1" "live_of t' = live_of t1"
      using same_slots_mask[of t' t1] ent_views[of t' t1] by (simp_all add: t')
    then show ?thesis
      using settle_plain_grown[OF assms(1) False] settle_plain_views[of t] assms(1) False
      by (simp add: t1_def[symmetric] grown_def t' ent_inv_def despawned_ok_def)
  qed
  then show "et_words t' = et_words t" and "et_observing t'" and "mask_of t' = mask_of t" and "live_of t' = live_of t"
    and "et_despawned t' = []" by blast+
qed

lemma component_facts:
  assumes "ent_inv t"
  shows "ent_inv (setComponent t e c)" and "live_of (setComponent t e c) = live_of t"
    and "mask_of (setComponent t e c) = (mask_of t)(e_index e := maskSet (mask_of t (e_index e)) c)"
    and "ent_inv (unsetComponent t e c)" and "live_of (unsetComponent t e c) = live_of t"
    and "mask_of (unsetComponent t e c) = (mask_of t)(e_index e := maskUnset (mask_of t (e_index e)) c)"
proof -
  have wf: "it_wf (et_slots t)" using assms by (simp add: ent_inv_def)
  show "ent_inv (setComponent t e c)" "live_of (setComponent t e c) = live_of t"
    "ent_inv (unsetComponent t e c)" "live_of (unsetComponent t e c) = live_of t"
    by (simp_all add: setComponent_def unsetComponent_def mask_upd_inv[OF assms])
  show "mask_of (setComponent t e c) = (mask_of t)(e_index e := maskSet (mask_of t (e_index e)) c)"
    "mask_of (unsetComponent t e c) = (mask_of t)(e_index e := maskUnset (mask_of t (e_index e)) c)"
    using slot_upd(1)[OF wf] by (auto simp: mask_of_def setComponent_def unsetComponent_def fun_eq_iff)
qed

lemma component_fields [simp]:
  "et_words (setComponent t e c) = et_words t" "et_observing (setComponent t e c) = et_observing t"
  "et_despawned (setComponent t e c) = et_despawned t" "et_words (unsetComponent t e c) = et_words t"
  "et_observing (unsetComponent t e c) = et_observing t" "et_despawned (unsetComponent t e c) = et_despawned t"
  by (simp_all add: setComponent_def unsetComponent_def)

lemma shrink_facts:
  "et_words (et_shrink t) = et_words t" "et_observing (et_shrink t) = et_observing t"
  "et_despawned (et_shrink t) = et_despawned t" "mask_of (et_shrink t) = mask_of t"
  by (simp_all add: et_shrink_def mask_of_def slot_of_def fun_eq_iff)

section \<open>The invariant\<close>

text \<open>
  One store in its world: every row is linked; a live row is a live entity's; and a row of the tail
  is of an entity that is alive or was despawned in this window.
\<close>

definition held :: "entity_table \<Rightarrow> 'v store \<Rightarrow> bool" where
  "held t s \<longleftrightarrow>
     st_inv s \<and> (st_obs s = Observed \<longrightarrow> et_observing t \<and> (\<exists>base. obs_inv base s))
     \<and> (\<forall>r < length (st_owners s). linked s r)
     \<and> (\<forall>r < length (st_owners s). alive t (own s r)
          \<or> st_live s \<le> r \<and> e_index (own s r) \<in> set (et_despawned t))"

text \<open>A mask has a component's bit exactly when the entity has a row in its store.\<close>

definition masks_exact :: "('r, 'b) world \<Rightarrow> bool" where
  "masks_exact w \<longleftrightarrow>
     (\<forall>e c. alive (w_entities w) e \<and> c < et_words (w_entities w) * 64 \<longrightarrow>
        (maskHas (mask_of (w_entities w) (e_index e)) c
           \<longleftrightarrow> c < length (w_stores w) \<and> st_get (the_store w c) e \<noteq> None))"

definition sized :: "bytes store \<Rightarrow> bool" where
  "sized s \<longleftrightarrow> st_zero s = replicate (st_size s) 0 \<and> (\<forall>e v. st_map s e = Some v \<longrightarrow> length v = st_size s)"

definition world_inv :: "('r, 'b) world \<Rightarrow> bool" where
  "world_inv w \<longleftrightarrow>
     ent_inv (w_entities w) \<and> masks_wf (w_entities w) \<and> length (w_stores w) \<le> et_words (w_entities w) * 64
     \<and> (\<forall>s \<in> set (w_stores w). held (w_entities w) s \<and> sized s) \<and> masks_exact w"

lemma alive_unique: "alive t x \<Longrightarrow> alive t y \<Longrightarrow> e_index x = e_index y \<Longrightarrow> x = y"
  by (auto simp: alive_iff intro: entity_eqI)

lemma despawned_dead: "ent_inv t \<Longrightarrow> i \<in> set (et_despawned t) \<Longrightarrow> e_index x = i \<Longrightarrow> \<not> alive t x"
  by (auto simp: ent_inv_def despawned_ok_def alive_iff)

text \<open>So a row at a live entity's index is that entity's own, and \<open>add\<close>'s precondition holds.\<close>

lemma held_own:
  assumes "held t s" and "ent_inv t" and "alive t e" and "r < length (st_owners s)" and "e_index (own s r) = e_index e"
  shows "own s r = e"
  using assms alive_unique[OF _ assms(3)] despawned_dead[OF assms(2) _ assms(5)[symmetric]]
  by (auto simp: held_def)

definition roomy :: "'v store \<Rightarrow> bool" where
  "roomy s \<longleftrightarrow> length (st_owners s) + 1 < 2 ^ 32 - 1"

lemma held_addable:
  assumes "held t s" and "ent_inv t" and "alive t e" and "st_get s e = None" and "roomy s"
  shows "addable s e"
proof -
  have i: "st_inv s" using assms(1) by (simp add: held_def)
  have "e_index (own s r) \<noteq> e_index e" if "r < st_live s" for r
  proof
    assume "e_index (own s r) = e_index e"
    then have "own s r = e" using held_own[OF assms(1-3)] that st_invD(3)[OF i] by simp
    then have "st_get s e = Some r" using st_get_iff[OF i] that by blast
    then show False using assms(4) by simp
  qed
  then show ?thesis using assms(1,5) by (simp add: addable_def held_def roomy_def)
qed

lemma held_mono:
  assumes "held t s" and "\<And>x. alive t x \<Longrightarrow> alive t' x" and "set (et_despawned t) \<subseteq> set (et_despawned t')"
    and "et_observing t \<longrightarrow> et_observing t'"
  shows "held t' s"
  using assms by (auto simp: held_def)

lemma held_dead:
  assumes "held t s" and "\<not> alive t e"
  shows "st_get s e = None"
proof (rule ccontr)
  assume "st_get s e \<noteq> None"
  then obtain r where "st_get s e = Some r" by blast
  then have "r < st_live s" "own s r = e" "r < length (st_owners s)"
    using st_get_iff[of s e r] st_invD(3)[of s] assms(1) by (auto simp: held_def)
  then show False using assms by (auto simp: held_def)
qed

section \<open>Stores under the world's operations\<close>

lemma heldD:
  assumes "held t s"
  shows "st_inv s" and "\<And>r. r < length (st_owners s) \<Longrightarrow> linked s r"
    and "st_obs s = Observed \<Longrightarrow> et_observing t" and "st_obs s = Observed \<Longrightarrow> \<exists>base. obs_inv base s"
    and "\<And>r. r < st_live s \<Longrightarrow> alive t (own s r)"
    and "\<And>r. r < length (st_owners s) \<Longrightarrow> alive t (own s r) \<or> st_live s \<le> r \<and> e_index (own s r) \<in> set (et_despawned t)"
    and "st_obs s \<noteq> Observed \<Longrightarrow> length (st_owners s) = st_live s"
proof -
  show i: "st_inv s" and "\<And>r. r < length (st_owners s) \<Longrightarrow> linked s r"
    and "st_obs s = Observed \<Longrightarrow> et_observing t" and "st_obs s = Observed \<Longrightarrow> \<exists>base. obs_inv base s"
    and "\<And>r. r < length (st_owners s) \<Longrightarrow> alive t (own s r) \<or> st_live s \<le> r \<and> e_index (own s r) \<in> set (et_despawned t)"
    using assms by (auto simp: held_def)
  show "alive t (own s r)" if "r < st_live s" for r
  proof -
    have "r < length (st_owners s)" using that st_invD(3)[OF i] by simp
    then show ?thesis using assms that by (auto simp: held_def)
  qed
  show "length (st_owners s) = st_live s" if "st_obs s \<noteq> Observed"
    using st_invD(2)[OF i] that by (simp add: storage_ok_def)
qed

text \<open>Where an operation's rows come from: each is linked, \<open>e\<close>'s or one of before, and live or in the tail as it was but for \<open>e\<close>'s.\<close>

definition rows_from :: "entity \<Rightarrow> 'v store \<Rightarrow> 'v store \<Rightarrow> bool" where
  "rows_from e s s' \<longleftrightarrow>
     (\<forall>q < length (st_owners s'). linked s' q
        \<and> (own s' q = e \<or> (\<exists>r < length (st_owners s). own s r = own s' q \<and> (st_live s' \<le> q \<longleftrightarrow> st_live s \<le> r))))"

lemma add_rows_from:
  assumes "st_inv s" and "addable s e" and "\<And>r. r < length (st_owners s) \<Longrightarrow> linked s r"
    and "\<And>r. r < length (st_owners s) \<Longrightarrow> e_index (own s r) = e_index e \<Longrightarrow> own s r = e"
  shows "rows_from e s (snd (st_add e s))"
proof (cases "st_obs s = Observed")
  case False
  then have eq: "snd (st_add e s) = (appended e s)\<lparr>st_live := st_live s + 1\<rparr>" by (simp add: st_add_def append_row_eq)
  have n: "length (st_owners s) = st_live s" using st_invD(2)[OF assms(1)] False by (simp add: storage_ok_def)
  have "linked (snd (st_add e s)) q" if "q < st_live s + 1" for q
    using st_invD(4)[OF append_plain_inv[OF assms(1) False assms(2)], of q] that by (simp add: eq)
  moreover have "own (snd (st_add e s)) q = e \<or> own (snd (st_add e s)) q = own s q \<and> q < st_live s" if "q < st_live s + 1" for q
    using that n by (cases "q = st_live s") (auto simp: eq nth_append own_def)
  ultimately show ?thesis using n by (auto simp: rows_from_def eq) (metis less_Suc_eq not_le)
next
  case True
  note eq = st_add_observed[OF assms(1) True assms(2)]
  show ?thesis
  proof (cases "snd (tailRow s e)")
    case t: True
    let ?a = "fst (tailRow s e)" and ?t = "transpose_row (fst (tailRow s e)) (st_live s)"
    have r: "tail_ready ?a s" and own: "own s ?a = e"
      using tailRow_ready[OF assms(1) True, of e ?a] t by (simp_all add: prod_eq_iff)
    have a: "st_live s \<le> ?a" "?a < length (st_owners s)" using r by (simp_all add: tail_ready_def)
    let ?s = "promote ?a (revived_state (st_states s ! ?a)) s"
    have "linked ?s q \<and> (own ?s q = e
        \<or> own s (?t q) = own ?s q \<and> ?t q < length (st_owners s) \<and> (st_live s + 1 \<le> q \<longleftrightarrow> st_live s \<le> ?t q))"
      if q: "q < length (st_owners s)" for q
      using promote_links(3)[OF r q] promote_rows(1)[OF r q] assms(3)[of "?t q"] q a own by (auto simp: transpose_row_def)
    then show ?thesis unfolding rows_from_def by (auto simp: eq t)
  next
    case t: False
    let ?u = "unlisted e s" and ?n = "length (st_owners s)" and ?t = "transpose_row (length (st_owners s)) (st_live s)"
    have r: "tail_ready ?n (appended_state e ?u)" using appended_ready[of ?u e] assms(1,2) True by simp
    let ?s = "promote ?n RowAdded (appended_state e ?u)"
    have live: "st_live s \<le> ?n" using st_invD(3)[OF assms(1)] .
    have new: "e \<notin> set (st_owners s)" by (rule addable_new[OF assms(1,2) t])
    have ln: "links_ok ?u" "length (st_owners ?u) + 1 < 2 ^ 32 - 1"
      using st_invD(1)[of ?u] assms(1,2) by (simp_all add: addable_def)
    have lk: "linked (appended e ?u) q" if "q < ?n + 1" for q
    proof (cases "q = ?n")
      case False
      then have "q < ?n" using that by simp
      moreover from this have "e_index (own s q) \<noteq> e_index e" using assms(4)[of q] new by (auto simp: own_def)
      ultimately show ?thesis using appended_links(3)[OF ln, of q e] assms(3)[of q] by simp
    qed (use appended_links(2)[OF ln, of e] in simp)
    have "linked ?s q \<and> (own ?s q = e \<or> own s (?t q) = own ?s q \<and> ?t q < ?n \<and> (st_live s + 1 \<le> q \<longleftrightarrow> st_live s \<le> ?t q))"
      if q: "q < ?n + 1" for q
      using promote_links(3)[OF r, of q] promote_rows(1)[OF r, of q] lk[of "?t q"] q live
      by (auto simp: transpose_row_def nth_append own_def)
    then show ?thesis unfolding rows_from_def by (auto simp: eq t)
  qed
qed

lemma remove_rows_from:
  assumes "st_inv s" and "st_get s e = Some row" and "\<And>r. r < length (st_owners s) \<Longrightarrow> linked s r"
  shows "rows_from e s (st_remove e row s)" and "st_obs s \<noteq> Observed \<Longrightarrow> e \<notin> set (st_owners (st_remove e row s))"
proof -
  have r: "row < st_live s" "own s row = e" using st_get_iff[OF assms(1)] assms(2) by auto
  have inv: "st_inv (st_remove e row s)" and m: "st_map (st_remove e row s) = (st_map s)(e := None)"
    by (rule st_remove_spec[OF assms(1,2)])+
  have n: "length (st_owners x) = st_live x" if "st_inv x" "st_obs x \<noteq> Observed" for x :: "'a store"
    using st_invD(2)[OF that(1)] that(2) by (simp add: storage_ok_def)
  show "e \<notin> set (st_owners (st_remove e row s))" if "st_obs s \<noteq> Observed"
    using st_map_none[OF inv, of e] m n[OF inv] that by (auto simp: in_set_conv_nth own_def)
  show "rows_from e s (st_remove e row s)"
  proof (cases "st_obs s = Observed")
    case True
    let ?f = "st_live s - 1" and ?t = "transpose_row row (st_live s - 1)"
    have le: "st_live s \<le> length (st_owners s)" "length (st_states s) = length (st_owners s)"
      using st_invD(2,3)[OF assms(1)] True by (simp_all add: storage_ok_def)
    have eq: "own (st_remove e row s) = own (demote row s)" "linked (st_remove e row s) = linked (demote row s)"
      "length (st_owners (st_remove e row s)) = length (st_owners s)" "st_live (st_remove e row s) = ?f"
      using st_remove_observed[OF True r(1) le, of e] by simp_all
    have "linked (demote row s) q \<and> (own (demote row s) q = e
        \<or> own s (?t q) = own (demote row s) q \<and> ?t q < length (st_owners s) \<and> (?f \<le> q \<longleftrightarrow> st_live s \<le> ?t q))"
      if q: "q < length (st_owners s)" for q
      using demote_links(3)[OF assms(1) r(1) q] demote_rows(1)[OF assms(1) True r(1) q] assms(3)[of "?t q"] q r le
      by (auto simp: transpose_row_def)
    then show ?thesis unfolding rows_from_def eq by metis
  next
    case False
    have len: "length (st_owners s) = st_live s" using n[OF assms(1) False] .
    have eq: "st_remove e row s = plain_removed row s" by (rule st_remove_plain[OF False r(1) len r(2)])
    let ?t = "transpose_row row (st_live s - 1)"
    have "linked (st_remove e row s) q \<and> own s (?t q) = own (st_remove e row s) q \<and> ?t q < st_live s"
      if "q < st_live s - 1" for q
      using plain_removed_rows(1)[OF assms(1) False r(1) that] st_invD(4)[OF inv, of q] that r(1) len
      by (auto simp: eq transpose_row_def)
    then show ?thesis
      unfolding rows_from_def using st_remove_spec(3)[OF assms(1,2)] n[OF inv] False len by (auto simp: not_le)
  qed
qed

lemma held_from:
  assumes "held t s" and "rows_from e s s'" and "st_inv s'" and "st_obs s' = st_obs s"
    and "st_obs s = Observed \<Longrightarrow> \<exists>base. obs_inv base s'"
    and "\<And>x. alive t x \<Longrightarrow> x \<noteq> e \<Longrightarrow> alive t' x" and "set (et_despawned t) \<subseteq> set (et_despawned t')"
    and "et_observing t \<longrightarrow> et_observing t'"
    and "\<And>q. q < length (st_owners s') \<Longrightarrow> own s' q = e \<Longrightarrow> alive t' e \<or> st_live s' \<le> q \<and> e_index e \<in> set (et_despawned t')"
  shows "held t' s'"
proof -
  have "linked s' q \<and> (alive t' (own s' q) \<or> st_live s' \<le> q \<and> e_index (own s' q) \<in> set (et_despawned t'))"
    if q: "q < length (st_owners s')" for q
  proof (cases "own s' q = e")
    case True
    then show ?thesis using assms(2) assms(9)[OF q] q by (auto simp: rows_from_def)
  next
    case False
    then obtain r where r: "r < length (st_owners s)" "own s r = own s' q" "st_live s' \<le> q \<longleftrightarrow> st_live s \<le> r" "linked s' q"
      using assms(2) q by (auto simp: rows_from_def)
    show ?thesis
    proof (cases "alive t (own s r)")
      case True
      then show ?thesis using assms(6)[of "own s r"] False r by simp
    next
      case dead: False
      then have "e_index (own s r) \<in> set (et_despawned t)" "st_live s \<le> r" using heldD(6)[OF assms(1) r(1)] by auto
      then show ?thesis using assms(7) r by auto
    qed
  qed
  then show ?thesis using assms(3-5,8) heldD(3)[OF assms(1)] by (auto simp: held_def)
qed

text \<open>The operations on one store.\<close>

lemma put_value_views [simp]:
  "own (put_value r v s) = own s" "linked (put_value r v s) = linked s"
  by (simp_all add: fun_eq_iff own_def linked_def slot_of_index_def)

lemma held_write:
  assumes "held t s" and "fits s v" and "st_write e s = (Some row, s')"
  shows "held t (put_value row v s')" and "st_map (put_value row v s') = (st_map s)(e \<mapsto> v)"
    and "st_zero s' = st_zero s" and "st_size s' = st_size s"
proof -
  have g: "st_get s e = Some row" "s' = markChanged row e s" using assms(3) by (auto simp: st_write_def split: option.splits)
  then show "st_zero s' = st_zero s" "st_size s' = st_size s" by simp_all
  obtain base where ok: "store_ok base (st_map s) s" using heldD(1,4)[OF assms(1)] by (auto simp: store_ok_def)
  have w: "store_ok base ((st_map s)(e \<mapsto> v)) (put_value row v s')" by (rule store_ok_write[OF ok assms(2,3)])
  then show "st_map (put_value row v s') = (st_map s)(e \<mapsto> v)" by (simp add: store_ok_def)
  show "held t (put_value row v s')"
    using assms(1) w g(2) by (auto simp: held_def store_ok_def)
qed

lemma held_add:
  assumes "held t s" and "ent_inv t" and "alive t e" and "st_get s e = None" and "roomy s" and "fits s v"
    and "st_add e s = (row, s')"
  shows "held t (put_value row v s')" and "st_map (put_value row v s') = (st_map s)(e \<mapsto> v)"
    and "st_zero s' = st_zero s" and "st_size s' = st_size s"
proof -
  have a: "addable s e" by (rule held_addable[OF assms(1-5)])
  obtain base where ok: "store_ok base (st_map s) s" using heldD(1,4)[OF assms(1)] by (auto simp: store_ok_def)
  have w: "store_ok base ((st_map s)(e \<mapsto> v)) (put_value row v s')" by (rule store_ok_add[OF ok a assms(6,7)])
  show f: "st_zero s' = st_zero s" "st_size s' = st_size s" using st_add_fields[of e s] assms(7) by simp_all
  have o: "st_obs s' = st_obs s" using st_add_fields(3)[of e s] assms(7) by simp
  show "st_map (put_value row v s') = (st_map s)(e \<mapsto> v)" using w by (simp add: store_ok_def)
  have "rows_from e s (snd (st_add e s))"
    by (rule add_rows_from[OF heldD(1)[OF assms(1)] a]) (rule heldD(2)[OF assms(1)] held_own[OF assms(1-3)], assumption+)+
  then have "rows_from e s s'" unfolding assms(7) snd_conv .
  then have rf: "rows_from e s (put_value row v s')" by (simp add: rows_from_def)
  have i: "st_inv (put_value row v s')" using w by (simp add: store_ok_def)
  have ob: "\<exists>base. obs_inv base (put_value row v s')" if "st_obs s = Observed"
    using w o that by (intro exI[of _ base]) (simp add: store_ok_def)
  show "held t (put_value row v s')"
    by (rule held_from[OF assms(1) rf i _ ob]) (use assms(3) o in simp_all)
qed

lemma held_remove:
  assumes "held t s" and "st_get s e = Some row"
  shows "alive t e \<Longrightarrow> held t (st_remove e row s)" and "st_map (st_remove e row s) = (st_map s)(e := None)"
    and "despawn e t = (Some m, t') \<Longrightarrow> ent_inv t \<Longrightarrow> alive t e \<Longrightarrow> held t' (st_remove e row s)"
proof -
  note i = heldD(1)[OF assms(1)]
  note spec = st_remove_spec[OF i assms(2)] and from_rows = remove_rows_from[OF i assms(2) heldD(2)[OF assms(1)]]
  have obs: "\<exists>base. obs_inv base (st_remove e row s)" if "st_obs s = Observed"
    using heldD(4)[OF assms(1) that] st_remove_obs[OF _ assms(2)] by blast
  show "st_map (st_remove e row s) = (st_map s)(e := None)" by (rule spec(2))
  show "held t (st_remove e row s)" if "alive t e"
    by (rule held_from[OF assms(1) from_rows(1) spec(1)]) (use obs that in simp_all)
  show "held t' (st_remove e row s)" if d: "despawn e t = (Some m, t')" "ent_inv t" "alive t e"
  proof (rule held_from[OF assms(1) from_rows(1) spec(1)])
    note df = despawn_facts[OF d(2,3,1)]
    show "alive t' x" if "alive t x" "x \<noteq> e" for x using df(6) that by simp
    show "set (et_despawned t) \<subseteq> set (et_despawned t')" using df(7) by blast
    show "alive t' e \<or> st_live (st_remove e row s) \<le> q \<and> e_index e \<in> set (et_despawned t')"
      if q: "q < length (st_owners (st_remove e row s))" "own (st_remove e row s) q = e" for q
    proof -
      have "e \<in> set (st_owners (st_remove e row s))" using q nth_mem by (fastforce simp: own_def)
      then have "st_obs s = Observed" using from_rows(2) by blast
      then have "e_index e \<in> set (et_despawned t')" using heldD(3)[OF assms(1)] df(7) by simp
      moreover have "\<not> q < st_live (st_remove e row s)" using st_map_none[OF spec(1), of e] spec(2) q(2) by auto
      ultimately show ?thesis by simp
    qed
  qed (use obs despawn_facts(4)[OF d(2,3,1)] in simp_all)
qed

lemma held_despawn_other:
  assumes "held t s" and "st_get s e = None" and "despawn e t = (Some m, t')" and "ent_inv t" and "alive t e"
  shows "held t' s"
proof (rule held_from[OF assms(1), where e = e])
  note df = despawn_facts[OF assms(4,5,3)]
  show "rows_from e s s" using heldD(2)[OF assms(1)] by (auto simp: rows_from_def)
  show "st_inv s" by (rule heldD(1)[OF assms(1)])
  show "alive t' x" if "alive t x" "x \<noteq> e" for x using df(6) that by simp
  show "set (et_despawned t) \<subseteq> set (et_despawned t')" using df(7) by blast
  show "alive t' e \<or> st_live s \<le> q \<and> e_index e \<in> set (et_despawned t')" if q: "q < length (st_owners s)" "own s q = e" for q
  proof -
    have tail: "\<not> q < st_live s" using st_get_iff[OF heldD(1)[OF assms(1)], of e q] assms(2) q(2) by auto
    then have "st_obs s = Observed" using heldD(7)[OF assms(1)] q(1) by auto
    then show ?thesis using tail heldD(3)[OF assms(1)] df(7) by simp
  qed
qed (use heldD(4)[OF assms(1)] despawn_facts(4)[OF assms(4,5,3)] in simp_all)

lemma held_reset:
  assumes "held t s" and "\<And>x. alive t x \<Longrightarrow> alive t' x" and "et_observing t'"
  shows "held t' (resetObservation s)" and "st_map (resetObservation s) = st_map s"
    and "st_zero (resetObservation s) = st_zero s" and "st_size (resetObservation s) = st_size s"
proof -
  have "held t' (resetObservation s) \<and> st_map (resetObservation s) = st_map s
    \<and> st_zero (resetObservation s) = st_zero s \<and> st_size (resetObservation s) = st_size s"
  proof (cases "st_obs s = Observed")
    case True
    then obtain base where o: "obs_inv base s" using heldD(4)[OF assms(1)] by blast
    note rf = resetObservation_fields[OF True]
    have "length (st_owners (resetObservation s)) = st_live s" using rf(3) st_invD(3)[OF heldD(1)[OF assms(1)]] by simp
    then have "held t' (resetObservation s)"
      using reset_inv[OF o] reset_obs[OF o] reset_live_rows(1,5)[OF o] heldD(5)[OF assms(1)] assms(2,3) by (auto simp: held_def)
    then show ?thesis using reset_map[OF o] rf by simp
  next
    case False
    then show ?thesis
      using assms heldD[OF assms(1)] reset_other[OF False] by (auto simp: held_def)
  qed
  then show "held t' (resetObservation s)" and "st_map (resetObservation s) = st_map s"
    and "st_zero (resetObservation s) = st_zero s" and "st_size (resetObservation s) = st_size s" by blast+
qed

lemma held_start:
  assumes "held t s" and "\<And>x. alive t x \<Longrightarrow> alive t' x" and "et_observing t'" and "\<not> et_observing t"
  shows "held t' (startObservation s)" and "st_map (startObservation s) = st_map s"
    and "st_zero (startObservation s) = st_zero s" and "st_size (startObservation s) = st_size s"
proof -
  have no: "st_obs s \<noteq> Observed" using heldD(3)[OF assms(1)] assms(4) by blast
  show "st_zero (startObservation s) = st_zero s" "st_size (startObservation s) = st_size s"
    by (simp_all add: startObservation_def)
  have "held t' (startObservation s) \<and> st_map (startObservation s) = st_map s"
  proof (cases "st_obs s = ObserverWaiting")
    case True
    note so = start_obs[OF heldD(1)[OF assms(1)] True]
    have v: "own (startObservation s) = own s" "linked (startObservation s) = linked s"
      "st_owners (startObservation s) = st_owners s" "st_live (startObservation s) = st_live s"
      using True by (simp_all add: startObservation_def fun_eq_iff own_def linked_def slot_of_index_def)
    show ?thesis
      using so obs_invD(1)[OF so(1)] heldD(2,5,7)[OF assms(1)] no assms(2,3) by (auto simp: held_def v)
  next
    case False
    then show ?thesis
      using assms heldD[OF assms(1)] start_other[OF False] no by (auto simp: held_def)
  qed
  then show "held t' (startObservation s)" and "st_map (startObservation s) = st_map s" by blast+
qed

lemma held_shrink:
  assumes "held t s"
  shows "held t (st_shrink s)" and "st_map (st_shrink s) = st_map s"
proof -
  note i = heldD(1)[OF assms]
  show "st_map (st_shrink s) = st_map s" by (rule shrink_map[OF i])
  show "held t (st_shrink s)"
    using assms shrink_inv[OF i] shrink_slots(2)[OF st_invD(1)[OF i]] shrink_obs by (fastforce simp: held_def)
qed

end
