(* ===== verification/Ecs_World_Laws.thy ===== *)
theory Ecs_World_Laws
  imports Ecs_World
begin

text \<open>
  What the operations of a world do to it, against the map from entities and components to bytes
  that it holds: the invariant under each, and histories of them.
\<close>

definition w_view :: "('r, 'b) world \<Rightarrow> entity \<Rightarrow> nat \<Rightarrow> bytes option" where
  "w_view w e c = (if c < length (w_stores w) then st_map (the_store w c) e else None)"

lemma get_map: "st_get s e \<noteq> None \<longleftrightarrow> st_map s e \<noteq> None"
  by (simp add: st_map_def)

lemma w_get_view: "c < length (w_stores w) \<Longrightarrow> w_get e c w = w_view w e c"
  by (simp add: w_get_def w_view_def st_map_def)

lemma world_invD:
  assumes "world_inv w"
  shows "ent_inv (w_entities w)" and "masks_wf (w_entities w)" and "length (w_stores w) \<le> et_words (w_entities w) * 64"
    and "\<And>c. c < length (w_stores w) \<Longrightarrow> held (w_entities w) (the_store w c)"
    and "\<And>c. c < length (w_stores w) \<Longrightarrow> sized (the_store w c)"
    and "\<And>e c. alive (w_entities w) e \<Longrightarrow> c < et_words (w_entities w) * 64 \<Longrightarrow>
      maskHas (mask_of (w_entities w) (e_index e)) c \<longleftrightarrow> w_view w e c \<noteq> None"
proof -
  show "ent_inv (w_entities w)" and "masks_wf (w_entities w)" and "length (w_stores w) \<le> et_words (w_entities w) * 64"
    and "\<And>c. c < length (w_stores w) \<Longrightarrow> held (w_entities w) (the_store w c)"
    and "\<And>c. c < length (w_stores w) \<Longrightarrow> sized (the_store w c)"
    using assms by (auto simp: world_inv_def the_store_def)
  show "maskHas (mask_of (w_entities w) (e_index e)) c \<longleftrightarrow> w_view w e c \<noteq> None"
    if "alive (w_entities w) e" "c < et_words (w_entities w) * 64" for e c
    using assms that by (simp add: world_inv_def masks_exact_def w_view_def get_map del: not_None_eq)
qed

lemma world_invI:
  assumes "ent_inv (w_entities w)" and "masks_wf (w_entities w)" and "length (w_stores w) \<le> et_words (w_entities w) * 64"
    and "\<And>c. c < length (w_stores w) \<Longrightarrow> held (w_entities w) (the_store w c) \<and> sized (the_store w c)"
    and "\<And>e c. alive (w_entities w) e \<Longrightarrow> c < et_words (w_entities w) * 64 \<Longrightarrow>
      maskHas (mask_of (w_entities w) (e_index e)) c \<longleftrightarrow> w_view w e c \<noteq> None"
  shows "world_inv w"
proof -
  have "\<forall>s \<in> set (w_stores w). held (w_entities w) s \<and> sized s"
    using assms(4) by (auto simp: the_store_def in_set_conv_nth)
  moreover have "masks_exact w"
    using assms(5) by (simp add: masks_exact_def w_view_def get_map del: not_None_eq)
  ultimately show ?thesis using assms(1-3) by (simp add: world_inv_def)
qed

lemma view_none: "world_inv w \<Longrightarrow> \<not> alive (w_entities w) e \<Longrightarrow> w_view w e c = None"
  using held_dead[OF world_invD(4), of w c e] by (simp add: w_view_def st_map_def)

text \<open>What stays as it is when one store, or a mask, changes.\<close>

definition same_frame :: "('r, 'b) world \<Rightarrow> ('r, 'b) world \<Rightarrow> bool" where
  "same_frame w w' \<longleftrightarrow>
     length (w_stores w') = length (w_stores w) \<and> w_storesByType w' = w_storesByType w \<and> w_storesByName w' = w_storesByName w
     \<and> w_refs w' = w_refs w \<and> w_buffers w' = w_buffers w
     \<and> (\<forall>c < length (w_stores w). st_size (the_store w' c) = st_size (the_store w c))
     \<and> live_of (w_entities w') = live_of (w_entities w) \<and> et_words (w_entities w') = et_words (w_entities w)
     \<and> et_despawned (w_entities w') = et_despawned (w_entities w) \<and> et_observing (w_entities w') = et_observing (w_entities w)"

lemma same_frame_refl [simp]: "same_frame w w"
  by (simp add: same_frame_def)

lemma same_frame_trans: "same_frame w w1 \<Longrightarrow> same_frame w1 w2 \<Longrightarrow> same_frame w w2"
  by (simp add: same_frame_def)

lemma same_frame_alive: "same_frame w w' \<Longrightarrow> alive (w_entities w') = alive (w_entities w)"
  by (simp add: same_frame_def fun_eq_iff alive_iff)

lemma upd_store_nth [simp]:
  "c < length (w_stores w) \<Longrightarrow> the_store (upd_store c s w) d = (if d = c then s else the_store w d)"
  "length (w_stores (upd_store c s w)) = length (w_stores w)" "w_entities (upd_store c s w) = w_entities w"
  "the_store (w\<lparr>w_entities := t\<rparr>) d = the_store w d"
  by (simp_all add: upd_store_def the_store_def)

lemma upd_store_rest [simp]:
  "w_storesByType (upd_store c s w) = w_storesByType w" "w_storesByName (upd_store c s w) = w_storesByName w"
  "w_refs (upd_store c s w) = w_refs w" "w_buffers (upd_store c s w) = w_buffers w"
  by (simp_all add: upd_store_def)

lemma held_alike:
  assumes "held t s" and "live_of t' = live_of t" and "et_despawned t' = et_despawned t" and "et_observing t' = et_observing t"
  shows "held t' s"
  using assms by (simp add: held_def alive_iff)

text \<open>One store changes, and the bit of its component in the masks with it.\<close>

lemma world_upd:
  assumes "world_inv w" and "c < length (w_stores w)" and "held (w_entities w) s" and "sized s"
    and "st_size s = st_size (the_store w c)" and "ent_inv t" and "live_of t = live_of (w_entities w)"
    and "et_words t = et_words (w_entities w)"
    and "et_despawned t = et_despawned (w_entities w)" and "et_observing t = et_observing (w_entities w)"
    and "\<And>i. length (mask_of t i) = et_words t"
    and "\<And>i. mask_of t i \<noteq> mask_of (w_entities w) i \<Longrightarrow> live_of t i \<noteq> 0"
    and "\<And>x d. alive (w_entities w) x \<Longrightarrow> d < et_words t * 64 \<Longrightarrow>
      maskHas (mask_of t (e_index x)) d \<longleftrightarrow>
        (if d = c then st_map s x \<noteq> None else maskHas (mask_of (w_entities w) (e_index x)) d)"
  defines "w' \<equiv> (upd_store c s w)\<lparr>w_entities := t\<rparr>"
  shows "world_inv w'" and "same_frame w w'" and "w_view w' = (\<lambda>e d. if d = c then st_map s e else w_view w e d)"
proof -
  have al: "alive t = alive (w_entities w)" by (simp add: fun_eq_iff alive_iff assms(7))
  show v: "w_view w' = (\<lambda>e d. if d = c then st_map s e else w_view w e d)"
    using assms(2) by (simp add: w'_def w_view_def fun_eq_iff)
  show "same_frame w w'" using assms(2,5,7-10) by (simp add: same_frame_def w'_def)
  show "world_inv w'"
  proof (rule world_invI)
    show "ent_inv (w_entities w')" using assms(6) by (simp add: w'_def)
    show "masks_wf (w_entities w')"
      using world_invD(2)[OF assms(1)] assms(7,8,11,12) unfolding w'_def masks_wf_def by simp metis
    show "length (w_stores w') \<le> et_words (w_entities w') * 64"
      using world_invD(3)[OF assms(1)] assms(8) by (simp add: w'_def)
    show "held (w_entities w') (the_store w' d) \<and> sized (the_store w' d)" if "d < length (w_stores w')" for d
      using that assms(2-4) world_invD(4,5)[OF assms(1), of d] held_alike[OF _ assms(7,9,10), of s]
        held_alike[OF _ assms(7,9,10), of "the_store w d"] by (simp add: w'_def)
    show "maskHas (mask_of (w_entities w') (e_index x)) d \<longleftrightarrow> w_view w' x d \<noteq> None"
      if "alive (w_entities w') x" "d < et_words (w_entities w') * 64" for x d
      using that assms(8,13) world_invD(6)[OF assms(1), of x d] al by (simp add: v) (simp add: w'_def)
  qed
qed

lemma sized_upd:
  assumes "sized s" and "st_zero s' = st_zero s" and "st_size s' = st_size s" and "st_map s' = (st_map s)(e := v)"
    and "\<And>x. v = Some x \<Longrightarrow> length x = st_size s"
  shows "sized s'"
  using assms by (auto simp: sized_def)

lemma fits_sized: "sized s \<Longrightarrow> length v = st_size s \<Longrightarrow> fits s v"
  by (cases "st_size s") (auto simp: fits_def sized_def)

text \<open>Writing the value of a row an entity has, and giving it a row.\<close>

lemma put_existing:
  assumes "world_inv w" and "c < length (w_stores w)" and "length v = st_size (the_store w c)"
    and "st_write e (the_store w c) = (Some row, s1)"
  defines "w' \<equiv> upd_store c (put_value row v s1) w"
  shows "world_inv w'" and "same_frame w w'" and "w_view w e c \<noteq> None"
    and "w_view w' = (\<lambda>x d. if x = e \<and> d = c then Some v else w_view w x d)"
proof -
  let ?s = "the_store w c" and ?s' = "put_value row v s1"
  note i = world_invD[OF assms(1)]
  note h = held_write[OF i(4)[OF assms(2)] fits_sized[OF i(5)[OF assms(2)] assms(3)] assms(4)]
  have got: "st_get ?s e = Some row" using assms(4) by (auto simp: st_write_def split: option.splits)
  then show v: "w_view w e c \<noteq> None" using assms(2) by (simp add: w_view_def st_map_def)
  have eq: "w' = (upd_store c ?s' w)\<lparr>w_entities := w_entities w\<rparr>" by (simp add: w'_def upd_store_def)
  have "sized ?s'" by (rule sized_upd[OF i(5)[OF assms(2)] _ _ h(2)]) (use h assms(3) in simp_all)
  moreover have "maskHas (mask_of (w_entities w) (e_index x)) d \<longleftrightarrow>
      (if d = c then st_map ?s' x \<noteq> None else maskHas (mask_of (w_entities w) (e_index x)) d)"
    if "alive (w_entities w) x" "d < et_words (w_entities w) * 64" for x d
    using i(6)[OF that] v assms(2) h(2) by (auto simp: w_view_def)
  ultimately have u: "world_inv w' \<and> same_frame w w' \<and> w_view w' = (\<lambda>x d. if d = c then st_map ?s' x else w_view w x d)"
    unfolding eq using world_upd[OF assms(1,2) h(1), of "w_entities w"] i(1,2) h(4) by (simp add: masks_wf_def)
  then show "world_inv w'" "same_frame w w'" by blast+
  show "w_view w' = (\<lambda>x d. if x = e \<and> d = c then Some v else w_view w x d)"
    using u assms(2) h(2) by (auto simp: fun_eq_iff w_view_def)
qed

lemma put_new:
  assumes "world_inv w" and "c < length (w_stores w)" and "length v = st_size (the_store w c)"
    and "alive (w_entities w) e" and "st_get (the_store w c) e = None" and "roomy (the_store w c)"
    and "st_add e (the_store w c) = (row, s1)"
  defines "w' \<equiv> (upd_store c (put_value row v s1) w)\<lparr>w_entities := setComponent (w_entities w) e c\<rparr>"
  shows "world_inv w'" and "same_frame w w'"
    and "w_view w' = (\<lambda>x d. if x = e \<and> d = c then Some v else w_view w x d)"
proof -
  let ?s = "the_store w c" and ?t = "w_entities w" and ?s' = "put_value row v s1"
  let ?t' = "setComponent ?t e c"
  note i = world_invD[OF assms(1)] and cf = component_facts(1-3)[OF world_invD(1)[OF assms(1)], of e c]
  note h = held_add[OF i(4)[OF assms(2)] i(1) assms(4-6) fits_sized[OF i(5)[OF assms(2)] assms(3)] assms(7)]
  have cl: "c < et_words ?t * 64" using assms(2) i(3) by simp
  have len: "length (mask_of ?t x) = et_words ?t" for x using i(2) by (simp add: masks_wf_def)
  have "sized ?s'" by (rule sized_upd[OF i(5)[OF assms(2)] _ _ h(2)]) (use h assms(3) in simp_all)
  moreover have "maskHas (mask_of ?t' (e_index x)) d \<longleftrightarrow> (if d = c then st_map ?s' x \<noteq> None else maskHas (mask_of ?t (e_index x)) d)"
    if "alive ?t x" "d < et_words ?t * 64" for x d
    using i(6)[OF that] cf(3) maskHas_set[of c "mask_of ?t (e_index e)" d] len cl assms(2,4) alive_unique[OF that(1) assms(4)] h(2)
    by (auto simp: w_view_def maskBits_def)
  moreover have "live_of ?t' x \<noteq> 0" if "mask_of ?t' x \<noteq> mask_of ?t x" for x
    using that cf(2,3) assms(4) by (auto simp: alive_iff split: if_splits)
  ultimately have u: "world_inv w' \<and> same_frame w w' \<and> w_view w' = (\<lambda>x d. if d = c then st_map ?s' x else w_view w x d)"
    unfolding w'_def using world_upd[OF assms(1,2) h(1), of ?t'] cf len h(4) by simp
  then show "world_inv w'" "same_frame w w'" by blast+
  show "w_view w' = (\<lambda>x d. if x = e \<and> d = c then Some v else w_view w x d)"
    using u assms(2) h(2) by (auto simp: fun_eq_iff w_view_def)
qed

lemma w_add_spec:
  assumes "world_inv w" and "c < length (w_stores w)" and "alive (w_entities w) e" and "roomy (the_store w c)"
    and "length v = st_size (the_store w c)" and "w_add e c v w = (ok, w')"
  shows "ok" and "world_inv w'" and "same_frame w w'"
    and "w_view w' = (\<lambda>x d. if x = e \<and> d = c then Some v else w_view w x d)"
    and "\<And>d. d \<noteq> c \<Longrightarrow> the_store w' d = the_store w d"
proof -
  let ?s = "the_store w c"
  have "ok \<and> world_inv w' \<and> same_frame w w' \<and> w_view w' = (\<lambda>x d. if x = e \<and> d = c then Some v else w_view w x d)
    \<and> (\<forall>d. d \<noteq> c \<longrightarrow> the_store w' d = the_store w d)"
  proof (cases "st_get ?s e")
    case (Some row)
    then obtain s1 where sw: "st_write e ?s = (Some row, s1)" by (simp add: st_write_def)
    have "ok" "w' = upd_store c (put_value row v s1) w"
      using assms(2,3,6) sw by (auto simp: w_add_def w_put_def w_poke_def upd_store_def the_store_def)
    then show ?thesis using put_existing[OF assms(1,2,5) sw] assms(2) by simp
  next
    case None
    then have sw: "st_write e ?s = (None, ?s)" by (simp add: st_write_def)
    obtain row s1 where sa: "st_add e ?s = (row, s1)" by fastforce
    have "ok" "w' = (upd_store c (put_value row v s1) w)\<lparr>w_entities := setComponent (w_entities w) e c\<rparr>"
      using assms(2,3,6) sw sa by (cases w; auto simp: w_add_def w_put_def w_poke_def upd_store_def the_store_def)+
    then show ?thesis using put_new[OF assms(1,2,5,3) None assms(4) sa] assms(2) by simp
  qed
  then show "ok" and "world_inv w'" and "same_frame w w'"
    and "w_view w' = (\<lambda>x d. if x = e \<and> d = c then Some v else w_view w x d)"
    and "\<And>d. d \<noteq> c \<Longrightarrow> the_store w' d = the_store w d" by blast+
qed

lemma w_add_dead: "\<not> alive (w_entities w) e \<Longrightarrow> w_add e c v w = (False, w)"
  by (simp add: w_add_def w_put_def)

text \<open>Writing a value in place, through the address \<open>Write\<close> answers.\<close>

lemma w_write_spec:
  assumes "world_inv w" and "c < length (w_stores w)" and "length v = st_size (the_store w c)"
    and "w_write e c w = (Some row, w1)"
  shows "world_inv (w_poke c row v w1)" and "same_frame w (w_poke c row v w1)" and "w_view w e c \<noteq> None"
    and "w_view (w_poke c row v w1) = (\<lambda>x d. if x = e \<and> d = c then Some v else w_view w x d)"
proof -
  obtain s1 where sw: "st_write e (the_store w c) = (Some row, s1)" "w1 = upd_store c s1 w"
    using assms(4) by (auto simp: w_write_def split: prod.splits)
  have "w_poke c row v w1 = upd_store c (put_value row v s1) w"
    using sw(2) assms(2) by (simp add: w_poke_def upd_store_def the_store_def)
  then show "world_inv (w_poke c row v w1)" "same_frame w (w_poke c row v w1)" "w_view w e c \<noteq> None"
    "w_view (w_poke c row v w1) = (\<lambda>x d. if x = e \<and> d = c then Some v else w_view w x d)"
    using put_existing[OF assms(1-3) sw(1)] by simp_all
qed

text \<open>Removing one component.\<close>

lemma st_row_get: "st_row s e = (row, True) \<longleftrightarrow> st_get s e = Some row"
  by (auto simp: st_row_def st_get_def Let_def)

lemma st_row_none: "snd (st_row s e) \<longleftrightarrow> st_get s e \<noteq> None"
  by (auto simp: st_row_def st_get_def Let_def)

lemma st_remove_size [simp]: "st_size (st_remove e row s) = st_size s" "st_zero (st_remove e row s) = st_zero s"
  by (simp_all add: st_remove_def Let_def)

lemma w_remove_spec:
  assumes "world_inv w" and "c < length (w_stores w)" and "w_remove e c w = (ok, w')"
  shows "ok \<longleftrightarrow> w_view w e c \<noteq> None" and "world_inv w'" and "same_frame w w'"
    and "w_view w' = (\<lambda>x d. if x = e \<and> d = c then None else w_view w x d)"
proof -
  let ?s = "the_store w c" and ?t = "w_entities w"
  note i = world_invD[OF assms(1)]
  have "(ok \<longleftrightarrow> w_view w e c \<noteq> None) \<and> world_inv w' \<and> same_frame w w'
    \<and> w_view w' = (\<lambda>x d. if x = e \<and> d = c then None else w_view w x d)"
  proof (cases "st_get ?s e")
    case None
    then have "\<not> snd (st_row ?s e)" using st_row_none[of ?s e] by simp
    then have eq: "ok = False" "w' = w" using assms(3) by (auto simp: w_remove_def split_beta)
    moreover have v: "w_view w e c = None" using None assms(2) by (simp add: w_view_def st_map_def)
    ultimately show ?thesis using assms(1) by (auto simp: fun_eq_iff)
  next
    case (Some row)
    have al: "alive ?t e" using held_dead[OF i(4)[OF assms(2)]] Some by fastforce
    have sr: "st_row ?s e = (row, True)" using Some by (simp add: st_row_get)
    let ?s' = "st_remove e row ?s" and ?t' = "unsetComponent ?t e c"
    have eq: "ok" "w' = (upd_store c ?s' w)\<lparr>w_entities := ?t'\<rparr>" using assms(3) sr by (auto simp: w_remove_def)
    have h: "held ?t ?s'" "st_map ?s' = (st_map ?s)(e := None)"
      using held_remove(1,2)[OF i(4)[OF assms(2)] Some] al by blast+
    note cf = component_facts(4-6)[OF i(1), of e c]
    have cl: "c < et_words ?t * 64" using assms(2) i(3) by simp
    have len: "length (mask_of ?t x) = et_words ?t" for x using i(2) by (simp add: masks_wf_def)
    have "sized ?s'" by (rule sized_upd[OF i(5)[OF assms(2)] _ _ h(2)]) simp_all
    moreover have "maskHas (mask_of ?t' (e_index x)) d \<longleftrightarrow> (if d = c then st_map ?s' x \<noteq> None else maskHas (mask_of ?t (e_index x)) d)"
      if "alive ?t x" "d < et_words ?t * 64" for x d
      using i(6)[OF that] cf(3) maskHas_unset[of c "mask_of ?t (e_index e)" d] len cl assms(2) alive_unique[OF that(1) al] h(2)
      by (auto simp: w_view_def maskBits_def)
    moreover have "live_of ?t' x \<noteq> 0" if "mask_of ?t' x \<noteq> mask_of ?t x" for x
      using that cf(2,3) al by (auto simp: alive_iff split: if_splits)
    ultimately have u: "world_inv w' \<and> same_frame w w' \<and> w_view w' = (\<lambda>x d. if d = c then st_map ?s' x else w_view w x d)"
      unfolding eq(2) using world_upd[OF assms(1,2) h(1), of ?t'] cf len by simp
    then have "w_view w' = (\<lambda>x d. if x = e \<and> d = c then None else w_view w x d)"
      using assms(2) h(2) by (auto simp: fun_eq_iff w_view_def)
    moreover have "w_view w e c \<noteq> None" using Some assms(2) by (simp add: w_view_def st_map_def)
    ultimately show ?thesis using u eq by simp
  qed
  then show "ok \<longleftrightarrow> w_view w e c \<noteq> None" and "world_inv w'" and "same_frame w w'"
    and "w_view w' = (\<lambda>x d. if x = e \<and> d = c then None else w_view w x d)" by blast+
qed

section \<open>Entities coming and going\<close>

lemma grown_world:
  assumes "world_inv w" and "grown E (w_entities w) t"
  defines "w' \<equiv> w\<lparr>w_entities := t\<rparr>"
  shows "world_inv w'" and "w_view w' = w_view w" and "\<And>x. alive t x \<longleftrightarrow> alive (w_entities w) x \<or> x \<in> E"
    and "\<And>x. x \<in> E \<Longrightarrow> \<not> alive (w_entities w) x"
proof -
  note i = world_invD[OF assms(1)]
  have g: "ent_inv t" "et_words t = et_words (w_entities w)" "et_observing t = et_observing (w_entities w)"
    "et_despawned t = et_despawned (w_entities w)" "mask_of t = mask_of (w_entities w)"
    and lv: "\<And>i. live_of t i \<noteq> live_of (w_entities w) i \<Longrightarrow> live_of (w_entities w) i = 0"
    using assms(2) by (simp_all add: grown_def)
  show al: "\<And>x. alive t x \<longleftrightarrow> alive (w_entities w) x \<or> x \<in> E" and new: "\<And>x. x \<in> E \<Longrightarrow> \<not> alive (w_entities w) x"
    using assms(2) by (simp_all add: grown_def)
  show v: "w_view w' = w_view w" by (simp add: w'_def w_view_def fun_eq_iff)
  show "world_inv w'"
  proof (rule world_invI)
    show "masks_wf (w_entities w')"
      using i(2) g(2,5) lv unfolding w'_def masks_wf_def by simp metis
    show "held (w_entities w') (the_store w' c) \<and> sized (the_store w' c)" if "c < length (w_stores w')" for c
      using that i(4,5)[of c] held_mono[OF i(4)[of c], of t] al g(3,4) by (simp add: w'_def)
    show "maskHas (mask_of (w_entities w') (e_index x)) c \<longleftrightarrow> w_view w' x c \<noteq> None"
      if x: "alive (w_entities w') x" "c < et_words (w_entities w') * 64" for x c
    proof (cases "alive (w_entities w) x")
      case True
      then show ?thesis using i(6)[OF True, of c] x(2) g by (simp add: v) (simp add: w'_def)
    next
      case False
      then have "live_of (w_entities w) (e_index x) = 0"
        using x(1) lv[of "e_index x"] by (auto simp: w'_def alive_iff)
      then show ?thesis
        using view_none[OF assms(1) False, of c] i(2) x(2) g(2,5) by (simp add: v) (simp add: w'_def masks_wf_def)
    qed
  qed (use i g in \<open>simp_all add: w'_def\<close>)
qed

lemma drop_components:
  fixes w :: "('r, 'b) world"
  assumes "distinct cs" and "\<forall>c \<in> set cs. c < length (w_stores w)" and "w' = fold (drop_component e) cs w"
  shows "w_entities w' = w_entities w \<and> length (w_stores w') = length (w_stores w)
    \<and> w_refs w' = w_refs w \<and> w_buffers w' = w_buffers w \<and> w_storesByType w' = w_storesByType w \<and> w_storesByName w' = w_storesByName w
    \<and> (\<forall>c < length (w_stores w). the_store w' c =
         (if c \<in> set cs then st_remove e (fst (st_row (the_store w c) e)) (the_store w c) else the_store w c))"
  using assms(1,2) unfolding assms(3)
proof (induction cs arbitrary: w)
  case (Cons c cs)
  let ?w = "drop_component e c w"
  have w: "?w = upd_store c (st_remove e (fst (st_row (the_store w c) e)) (the_store w c)) w"
    by (simp add: drop_component_def split_beta)
  show ?case using Cons.IH[of ?w] Cons.prems by (auto simp: w)
qed simp

lemma w_despawn_spec:
  assumes "world_inv w" and "w_despawn e w = (ok, w')"
  shows "ok \<longleftrightarrow> alive (w_entities w) e" and "world_inv w'"
    and "alive (w_entities w') x \<longleftrightarrow> alive (w_entities w) x \<and> x \<noteq> e"
    and "w_view w' = (\<lambda>x c. if x = e then None else w_view w x c)"
    and "length (w_stores w') = length (w_stores w)"
proof -
  note i = world_invD[OF assms(1)]
  have "(ok \<longleftrightarrow> alive (w_entities w) e) \<and> world_inv w' \<and> (\<forall>x. alive (w_entities w') x \<longleftrightarrow> alive (w_entities w) x \<and> x \<noteq> e)
    \<and> w_view w' = (\<lambda>x c. if x = e then None else w_view w x c) \<and> length (w_stores w') = length (w_stores w)"
  proof (cases "alive (w_entities w) e")
    case False
    then have "ok = False" "w' = w" using assms(2) by (auto simp: w_despawn_def despawn_def)
    then show ?thesis using False assms(1) view_none[OF assms(1) False] by (auto simp: fun_eq_iff)
  next
    case True
    obtain m t where d: "despawn e (w_entities w) = (Some m, t)" using True by (simp add: despawn_def Let_def)
    note df = despawn_facts[OF i(1) True d]
    have m: "m = mask_of (w_entities w) (e_index e)" using df(1) by simp
    have ids: "c \<in> set (maskIDs m) \<longleftrightarrow> c < length (w_stores w) \<and> st_get (the_store w c) e \<noteq> None" for c
    proof -
      have "length m = et_words (w_entities w)" using m i(2) by (simp add: masks_wf_def)
      then have "c \<in> set (maskIDs m) \<longleftrightarrow> c < et_words (w_entities w) * 64 \<and> w_view w e c \<noteq> None"
        using i(6)[OF True, of c] m by (auto simp: set_maskIDs maskBits_def)
      then show ?thesis using i(3) get_map[of "the_store w c" e] by (auto simp: w_view_def)
    qed
    let ?w = "w\<lparr>w_entities := t\<rparr>"
    have w': "ok" "w' = fold (drop_component e) (maskIDs m) ?w" using assms(2) d by (auto simp: w_despawn_def)
    have "\<forall>c \<in> set (maskIDs m). c < length (w_stores ?w)" using ids by simp
    note dc = drop_components[OF distinct_maskIDs this w'(2)]
    have ent: "w_entities w' = t" "length (w_stores w') = length (w_stores w)" using dc by simp_all
    have st: "the_store w' c = (case st_get (the_store w c) e of None \<Rightarrow> the_store w c
        | Some row \<Rightarrow> st_remove e row (the_store w c))" if "c < length (w_stores w)" for c
    proof (cases "st_get (the_store w c) e")
      case (Some row)
      then have "st_row (the_store w c) e = (row, True)" by (simp add: st_row_get)
      then show ?thesis using dc ids[of c] that Some by simp
    qed (use dc ids[of c] that in simp)
    have after: "held t (the_store w' c) \<and> sized (the_store w' c) \<and> st_map (the_store w' c) = (st_map (the_store w c))(e := None)"
      if c: "c < length (w_stores w)" for c
    proof (cases "st_get (the_store w c) e")
      case None
      then have "st_map (the_store w c) e = None" by (simp add: st_map_def)
      then show ?thesis
        using None st[OF c] held_despawn_other[OF i(4)[OF c] None d i(1) True] i(5)[OF c] by (simp add: fun_upd_idem)
    next
      case (Some row)
      note h = held_remove(2,3)[OF i(4)[OF c] Some]
      have "sized (st_remove e row (the_store w c))" by (rule sized_upd[OF i(5)[OF c] _ _ h(1)]) simp_all
      then show ?thesis using Some st[OF c] h(1) h(2)[OF d i(1) True] by simp
    qed
    have v: "w_view w' = (\<lambda>x c. if x = e then None else w_view w x c)"
      using after ent(2) by (auto simp: fun_eq_iff w_view_def)
    have "world_inv w'"
    proof (rule world_invI)
      show "masks_wf (w_entities w')"
        using i(2) df(3,5,8) by (auto simp: ent masks_wf_def maskHas_zero)
      show "maskHas (mask_of (w_entities w') (e_index x)) c \<longleftrightarrow> w_view w' x c \<noteq> None"
        if x: "alive (w_entities w') x" "c < et_words (w_entities w') * 64" for x c
      proof -
        have "alive (w_entities w) x" "x \<noteq> e" using x(1) df(6) ent by simp_all
        moreover from this have "e_index x \<noteq> e_index e" using alive_unique[OF _ True] by blast
        ultimately show ?thesis using i(6)[of x c] x(2) df(3,5) by (simp add: v ent)
      qed
    qed (use after ent df(2,3) i(3) in simp_all)
    then show ?thesis using w'(1) True v ent df(6) by simp
  qed
  then show "ok \<longleftrightarrow> alive (w_entities w) e" and "world_inv w'"
    and "alive (w_entities w') x \<longleftrightarrow> alive (w_entities w) x \<and> x \<noteq> e"
    and "w_view w' = (\<lambda>x c. if x = e then None else w_view w x c)"
    and "length (w_stores w') = length (w_stores w)" by blast+
qed

section \<open>Windows, memory and registration\<close>

text \<open>Every store changes without its map changing.\<close>

lemma world_all_stores:
  assumes "world_inv w" and "ent_inv t" and "et_words t = et_words (w_entities w)"
    and "mask_of t = mask_of (w_entities w)" and "live_of t = live_of (w_entities w)" and "length (w_stores w') = length (w_stores w)"
    and "w_entities w' = t"
    and "\<And>c. c < length (w_stores w) \<Longrightarrow> held t (the_store w' c) \<and> st_map (the_store w' c) = st_map (the_store w c)
      \<and> st_zero (the_store w' c) = st_zero (the_store w c) \<and> st_size (the_store w' c) = st_size (the_store w c)"
  shows "world_inv w'" and "w_view w' = w_view w" and "alive (w_entities w') = alive (w_entities w)"
proof -
  note i = world_invD[OF assms(1)]
  show v: "w_view w' = w_view w" using assms(6,8) by (simp add: w_view_def fun_eq_iff)
  show al: "alive (w_entities w') = alive (w_entities w)" using assms(5,7) by (simp add: alive_iff fun_eq_iff)
  show "world_inv w'"
  proof (rule world_invI)
    show "masks_wf (w_entities w')" using i(2) assms(3-5,7) by (simp add: masks_wf_def)
    show "held (w_entities w') (the_store w' c) \<and> sized (the_store w' c)" if "c < length (w_stores w')" for c
      using that assms(6-8) i(5)[of c] by (simp add: sized_def)
    show "maskHas (mask_of (w_entities w') (e_index x)) c \<longleftrightarrow> w_view w' x c \<noteq> None"
      if "alive (w_entities w') x" "c < et_words (w_entities w') * 64" for x c
      using that i(6)[of x c] assms(3,4,7) v al by simp
  qed (use assms(2,3,6,7) i(3) in simp_all)
qed

lemma w_reset_spec:
  assumes "world_inv w" and "w' = w_resetObservation startRef resetRef w"
  shows "world_inv w'" and "w_view w' = w_view w" and "alive (w_entities w') = alive (w_entities w)"
    and "et_despawned (w_entities w') = []" and "length (w_stores w') = length (w_stores w)"
proof -
  note i = world_invD[OF assms(1)]
  obtain started t where ew: "endWindow (w_entities w) = (started, t)" by fastforce
  note ef = endWindow_facts[OF i(1) ew]
  have al: "alive t x" if "alive (w_entities w) x" for x using that ef(6) by (simp add: alive_iff)
  have ent: "w_entities w' = t" and len: "length (w_stores w') = length (w_stores w)"
    by (simp_all add: assms(2) w_resetObservation_def ew)
  have st: "the_store w' c = (if started then startObservation (the_store w c) else resetObservation (the_store w c))"
    if "c < length (w_stores w)" for c
    using that by (simp add: assms(2) w_resetObservation_def ew the_store_def)
  have "held t (the_store w' c) \<and> st_map (the_store w' c) = st_map (the_store w c)
      \<and> st_zero (the_store w' c) = st_zero (the_store w c) \<and> st_size (the_store w' c) = st_size (the_store w c)"
    if c: "c < length (w_stores w)" for c
    using st[OF c] held_start[OF i(4)[OF c] al ef(4)] held_reset[OF i(4)[OF c] al ef(4)] ef(1) by simp
  note all = world_all_stores[OF assms(1) ef(2,3,5,6) len ent this]
  show "world_inv w'" "w_view w' = w_view w" "alive (w_entities w') = alive (w_entities w)" using all by simp_all
  show "et_despawned (w_entities w') = []" using ef(7) ent by simp
  show "length (w_stores w') = length (w_stores w)" by (rule len)
qed

lemma w_shrink_spec:
  assumes "world_inv w" and "w' = w_shrink startRef resetRef shrinkRef shrinkBuffer w"
  shows "world_inv w'" and "w_view w' = w_view w" and "alive (w_entities w') = alive (w_entities w)"
    and "length (w_stores w') = length (w_stores w)"
proof -
  define w1 where "w1 = (if et_observing (w_entities w) then w_resetObservation startRef resetRef w else w)"
  have w1: "world_inv w1" "w_view w1 = w_view w" "alive (w_entities w1) = alive (w_entities w)" "length (w_stores w1) = length (w_stores w)"
    using w_reset_spec[OF assms(1) refl, of startRef resetRef] assms(1) by (simp_all add: w1_def)
  note i = world_invD[OF w1(1)]
  have ent: "w_entities w' = et_shrink (w_entities w1)" and len: "length (w_stores w') = length (w_stores w1)"
    by (simp_all add: assms(2) w_shrink_def Let_def w1_def)
  have st: "the_store w' c = st_shrink (the_store w1 c)" if "c < length (w_stores w1)" for c
    using that by (simp add: assms(2) w_shrink_def Let_def w1_def[symmetric] the_store_def)
  note sh = et_shrink_inv[OF i(1)] and sf = shrink_facts[of "w_entities w1"]
  have "held (et_shrink (w_entities w1)) (the_store w' c) \<and> st_map (the_store w' c) = st_map (the_store w1 c)
      \<and> st_zero (the_store w' c) = st_zero (the_store w1 c) \<and> st_size (the_store w' c) = st_size (the_store w1 c)"
    if c: "c < length (w_stores w1)" for c
    using st[OF c] held_shrink[OF i(4)[OF c]] held_alike[OF _ sh(2) sf(3,2)] by simp
  note all = world_all_stores[OF w1(1) sh(1) sf(1,4) sh(2) len ent this]
  show "world_inv w'" "w_view w' = w_view w" "alive (w_entities w') = alive (w_entities w)"
    "length (w_stores w') = length (w_stores w)"
    using all w1 len by simp_all
qed

lemma st_map_new [simp]: "st_map (newStoreOf sz z) = (\<lambda>_. None)"
proof -
  have "st_live (newStoreOf sz z) = 0" by (simp add: newStoreOf_def)
  then show ?thesis using st_map_none[OF st_inv_new, of sz z] by (intro ext) simp
qed

lemma RegisterComponent_spec:
  assumes "world_inv w" and "RegisterComponent ct name w = Inr (c, w')"
  shows "world_inv w'" and "w_view w' = w_view w" and "alive (w_entities w') = alive (w_entities w)"
    and "c = length (w_stores w)" and "length (w_stores w') = c + 1" and "st_size (the_store w' c) = ct_size ct"
proof -
  note i = world_invD[OF assms(1)]
  let ?s = "newStoreOf (ct_size ct) (replicate (ct_size ct) 0) :: bytes store"
  have r: "c = length (w_stores w)" "w_stores w' = w_stores w @ [?s]" "w_entities w' = w_entities w"
    "length (w_stores w) \<noteq> et_words (w_entities w) * 64"
    using assms(2) by (auto simp: RegisterComponent_def Let_def split: if_splits)
  show "c = length (w_stores w)" "length (w_stores w') = c + 1" "st_size (the_store w' c) = ct_size ct"
    using r by (simp_all add: the_store_def newStoreOf_def)
  show "alive (w_entities w') = alive (w_entities w)" using r(3) by simp
  have st: "the_store w' d = (if d = c then ?s else the_store w d)" if "d \<le> c" for d
    using that r by (auto simp: the_store_def nth_append)
  show v: "w_view w' = w_view w" using st r(1,2) by (auto simp: w_view_def fun_eq_iff)
  have new: "held (w_entities w) ?s" "sized ?s"
    by (simp_all add: held_def sized_def st_inv_new) (simp_all add: newStoreOf_def)
  show "world_inv w'"
  proof (rule world_invI)
    show "held (w_entities w') (the_store w' d) \<and> sized (the_store w' d)" if "d < length (w_stores w')" for d
      using that st[of d] new i(4,5)[of d] r by (cases "d = c") simp_all
    show "maskHas (mask_of (w_entities w') (e_index x)) d \<longleftrightarrow> w_view w' x d \<noteq> None"
      if "alive (w_entities w') x" "d < et_words (w_entities w') * 64" for x d using that i(6)[of x d] v r(3) by simp
  qed (use i r in simp_all)
qed

lemma RegisterWorld_spec:
  assumes "RegisterWorld words plugin known options = Inr w"
  shows "world_inv w" and "w_view w = (\<lambda>_ _. None)" and "\<not> alive (w_entities w) e"
proof -
  define first final prepared where "first = wo_firstIndex options"
    and "final = (if wo_lastIndex options = 0 then - 1 else wo_lastIndex options)" and "prepared = wo_entities options"
  then have r: "first \<le> final" "w_entities w = et_init words first final prepared" "w_stores w = []"
    using assms by (auto simp: RegisterWorld_def Let_def not_less simp del: word_order.extremum split: if_splits)
  let ?t = "et_init words first final prepared"
  have zero: "slot_of ?t i = zero_slot words" for i
    using prepared_slots[of empty_table "zero_slot words" "\<lambda>i. first + of_nat i" "[0..<prepared]"]
    by (simp add: et_init_def slot_of_def)
  have w: "et_words ?t = words" by (simp add: et_init_def)
  show dead: "\<not> alive (w_entities w) e" for e using zero by (simp add: r(2) alive_iff live_of_def zero_slot_def)
  show "w_view w = (\<lambda>_ _. None)" using r(3) by (intro ext) (simp add: w_view_def)
  show "world_inv w"
  proof (rule world_invI)
    show "ent_inv (w_entities w)" using et_init_inv[OF r(1)] r(2) by simp
    show "masks_wf (w_entities w)" using zero w by (simp add: r(2) masks_wf_def mask_of_def zero_slot_def maskHas_zero)
  qed (use dead r in simp_all)
qed

section \<open>Components given as bytes\<close>

text \<open>Which bytes of \<open>values\<close> are which component's.\<close>

fun slices :: "('r, 'b) world \<Rightarrow> nat list \<Rightarrow> bytes \<Rightarrow> (nat \<times> bytes) list" where
  "slices w [] values = []"
| "slices w (c # cs) values =
     (let n = st_size (the_store w c) in (c, take n values) # slices w cs (drop n values))"

definition need :: "('r, 'b) world \<Rightarrow> nat list \<Rightarrow> nat" where
  "need w cs = sum_list (map (\<lambda>c. st_size (the_store w c)) cs)"

lemma needed_bytes_eq:
  "needed_bytes w cs n =
     (if \<forall>c \<in> set cs. c < length (w_stores w) then Inr (n + need w cs)
      else Inl (MaskBeyondStores (hd (filter (\<lambda>c. length (w_stores w) \<le> c) cs))))"
  by (induction cs arbitrary: n) (auto simp: need_def)

lemma slices_cong:
  assumes "same_frame w w'" and "\<forall>c \<in> set cs. c < length (w_stores w)"
  shows "slices w' cs values = slices w cs values" and "need w' cs = need w cs"
proof -
  have sz: "st_size (the_store w' c) = st_size (the_store w c)" if "c \<in> set cs" for c
    using assms that by (simp add: same_frame_def)
  show "slices w' cs values = slices w cs values"
    using sz by (induction cs arbitrary: "values") (simp_all add: Let_def)
  show "need w' cs = need w cs" using sz by (simp add: need_def cong: map_cong)
qed

lemma slices_facts:
  "map fst (slices w cs values) = cs"
  "length values = need w cs \<Longrightarrow> concat (map snd (slices w cs values)) = values"
  by (induction cs arbitrary: "values") (simp_all add: Let_def need_def)

lemma add_values_spec:
  assumes "world_inv w" and "alive (w_entities w) e" and "distinct cs"
    and "\<forall>c \<in> set cs. c < length (w_stores w) \<and> roomy (the_store w c)" and "length values = need w cs"
  shows "world_inv (add_values e cs values w) \<and> same_frame w (add_values e cs values w)
    \<and> w_view (add_values e cs values w) =
        (\<lambda>x d. if x = e \<and> d \<in> set cs then map_of (slices w cs values) d else w_view w x d)"
  using assms
proof (induction cs arbitrary: w "values")
  case (Cons c cs)
  let ?n = "st_size (the_store w c)"
  obtain ok w1 where a: "w_add e c (take ?n values) w = (ok, w1)" by fastforce
  have c: "c < length (w_stores w)" "roomy (the_store w c)" "length (take ?n values) = ?n"
    using Cons.prems(4,5) by (simp_all add: need_def)
  note w1 = w_add_spec[OF Cons.prems(1) c(1) Cons.prems(2) c(2,3) a]
  have cs: "\<forall>d \<in> set cs. d < length (w_stores w)" using Cons.prems(4) by simp
  note sc = slices_cong[OF w1(3) cs]
  have "alive (w_entities w1) e" using same_frame_alive[OF w1(3)] Cons.prems(2) by simp
  moreover have "\<forall>d \<in> set cs. d < length (w_stores w1) \<and> roomy (the_store w1 d)"
  proof
    fix d assume d: "d \<in> set cs"
    then have "d \<noteq> c" using Cons.prems(3) by auto
    then show "d < length (w_stores w1) \<and> roomy (the_store w1 d)"
      using w1(3) w1(5)[of d] Cons.prems(4) d by (simp add: same_frame_def)
  qed
  moreover have "length (drop ?n values) = need w1 cs" using Cons.prems(5) sc(2) by (simp add: need_def)
  ultimately have ih: "world_inv (add_values e cs (drop ?n values) w1) \<and> same_frame w1 (add_values e cs (drop ?n values) w1)
    \<and> w_view (add_values e cs (drop ?n values) w1) =
        (\<lambda>x d. if x = e \<and> d \<in> set cs then map_of (slices w1 cs (drop ?n values)) d else w_view w1 x d)"
    using Cons.IH[of w1 "drop ?n values"] w1(2) Cons.prems(3) by simp
  have "add_values e (c # cs) values w = add_values e cs (drop ?n values) w1" using a by (simp add: Let_def)
  then show ?case
    using ih same_frame_trans[OF w1(3)] w1(4) sc(1) Cons.prems(3) by (auto simp: fun_eq_iff Let_def)
qed simp

section \<open>Every history of a world\<close>

definition observe_store :: "nat \<Rightarrow> ('r, 'b) world \<Rightarrow> ('r, 'b) world" where
  "observe_store c w = upd_store c (registerObserver (the_store w c)) w"

lemma observe_store_spec:
  assumes "world_inv w" and "c < length (w_stores w)"
  shows "world_inv (observe_store c w)" and "w_view (observe_store c w) = w_view w"
proof -
  let ?s = "registerObserver (the_store w c)"
  note i = world_invD[OF assms(1)] and h = world_invD(4)[OF assms]
  have f: "own ?s = own (the_store w c)" "linked ?s = linked (the_store w c)" "st_owners ?s = st_owners (the_store w c)"
    "st_live ?s = st_live (the_store w c)" "st_size ?s = st_size (the_store w c)" "st_zero ?s = st_zero (the_store w c)"
    by (simp_all add: registerObserver_def fun_eq_iff own_def linked_def slot_of_index_def)
  obtain base where "store_ok base (st_map (the_store w c)) (the_store w c)" using heldD(1,4)[OF h] by (auto simp: store_ok_def)
  then have ok: "store_ok base (st_map (the_store w c)) ?s" by (rule register_ok)
  have ob: "st_obs ?s = Observed \<longleftrightarrow> st_obs (the_store w c) = Observed" by (simp add: registerObserver_def)
  have "held (w_entities w) ?s" using h ok ob by (auto simp: held_def f store_ok_def)
  moreover have m: "st_map ?s = st_map (the_store w c)" using ok by (simp add: store_ok_def)
  ultimately have "held (w_entities w) (the_store (observe_store c w) d) \<and> st_map (the_store (observe_store c w) d) = st_map (the_store w d)
      \<and> st_zero (the_store (observe_store c w) d) = st_zero (the_store w d) \<and> st_size (the_store (observe_store c w) d) = st_size (the_store w d)"
    if "d < length (w_stores w)" for d using that i(4)[of d] f assms(2) by (simp add: observe_store_def)
  note all = world_all_stores[OF assms(1) i(1) refl refl refl _ _ this]
  show "world_inv (observe_store c w)" "w_view (observe_store c w) = w_view w" using all by (simp_all add: observe_store_def)
qed

text \<open>
  A world as its operations leave it, with the methods its refs and buffers have, and the entities each hands out.  A
  \<open>Spawn\<close> is committed of an entity the world handed out at some time, or of one that is not the next of an
  index with none alive (\<open>may_spawn\<close>).  The typed \<open>Add\<close> and a write through an address take a value
  of the component's size, which its type is; the raw operations take any bytes.  A store's rows and one more fit
  32 bits.
\<close>

inductive w_step :: "('r \<Rightarrow> 'r) \<Rightarrow> ('r \<Rightarrow> 'r) \<Rightarrow> ('r \<Rightarrow> 'r) \<Rightarrow> ('b \<Rightarrow> 'b) \<Rightarrow> entity set \<Rightarrow> ('r, 'b) world \<Rightarrow> entity set \<Rightarrow> ('r, 'b) world \<Rightarrow> bool"
  for startRef resetRef shrinkRef shrinkBuffer H where
  ws_component: "RegisterComponent ct name w = Inr (c, w') \<Longrightarrow> w_step startRef resetRef shrinkRef shrinkBuffer H w {} w'"
| ws_observed: "c < length (w_stores w) \<Longrightarrow> w_step startRef resetRef shrinkRef shrinkBuffer H w {} (observe_store c w)"
| ws_reserved: "reserve (w_entities w) = (e, t) \<Longrightarrow> w_step startRef resetRef shrinkRef shrinkBuffer H w {e} (w\<lparr>w_entities := t\<rparr>)"
| ws_committed: "may_spawn H (w_entities w) e
    \<Longrightarrow> w_step startRef resetRef shrinkRef shrinkBuffer H w {} (w\<lparr>w_entities := snd (spawnReserved e (w_entities w))\<rparr>)"
| ws_spawned: "w_spawn w = (e, w') \<Longrightarrow> w_step startRef resetRef shrinkRef shrinkBuffer H w {e} w'"
| ws_created: "CreateAt e w = Inr w' \<Longrightarrow> w_step startRef resetRef shrinkRef shrinkBuffer H w {e} w'"
| ws_despawned: "w_despawn e w = (ok, w') \<Longrightarrow> w_step startRef resetRef shrinkRef shrinkBuffer H w {} w'"
| ws_added: "c < length (w_stores w) \<Longrightarrow> roomy (the_store w c) \<Longrightarrow> length v = st_size (the_store w c) \<Longrightarrow> w_add e c v w = (ok, w')
    \<Longrightarrow> w_step startRef resetRef shrinkRef shrinkBuffer H w {} w'"
| ws_written: "c < length (w_stores w) \<Longrightarrow> length v = st_size (the_store w c) \<Longrightarrow> w_write e c w = (Some row, w')
    \<Longrightarrow> w_step startRef resetRef shrinkRef shrinkBuffer H w {} (w_poke c row v w')"
| ws_removed: "c < length (w_stores w) \<Longrightarrow> w_remove e c w = (ok, w') \<Longrightarrow> w_step startRef resetRef shrinkRef shrinkBuffer H w {} w'"
| ws_spawned_raw: "\<forall>s \<in> set (w_stores w). roomy s \<Longrightarrow> SpawnRaw m given w = Inr (e, w')
    \<Longrightarrow> w_step startRef resetRef shrinkRef shrinkBuffer H w {e} w'"
| ws_created_raw: "\<forall>s \<in> set (w_stores w). roomy s \<Longrightarrow> CreateAtRaw e m given w = Inr (Inr w')
    \<Longrightarrow> w_step startRef resetRef shrinkRef shrinkBuffer H w {e} w'"
| ws_added_raw: "\<forall>s \<in> set (w_stores w). roomy s \<Longrightarrow> AddRaw e c given w = Inr (ok, w')
    \<Longrightarrow> w_step startRef resetRef shrinkRef shrinkBuffer H w {} w'"
| ws_removed_raw: "RemoveRaw e c w = Inr (ok, w') \<Longrightarrow> w_step startRef resetRef shrinkRef shrinkBuffer H w {} w'"
| ws_reset: "w_step startRef resetRef shrinkRef shrinkBuffer H w {} (w_resetObservation startRef resetRef w)"
| ws_shrunk: "w_step startRef resetRef shrinkRef shrinkBuffer H w {} (w_shrink startRef resetRef shrinkRef shrinkBuffer w)"

text \<open>A history from a new world, with the entities handed out so far, and the worlds such histories reach.\<close>

inductive w_hist :: "('r \<Rightarrow> 'r) \<Rightarrow> ('r \<Rightarrow> 'r) \<Rightarrow> ('r \<Rightarrow> 'r) \<Rightarrow> ('b \<Rightarrow> 'b) \<Rightarrow> entity set \<Rightarrow> ('r, 'b) world \<Rightarrow> bool"
  for startRef resetRef shrinkRef shrinkBuffer where
  hist_new: "RegisterWorld words plugin known options = Inr w \<Longrightarrow> w_hist startRef resetRef shrinkRef shrinkBuffer {} w"
| hist_step: "w_hist startRef resetRef shrinkRef shrinkBuffer H w \<Longrightarrow> w_step startRef resetRef shrinkRef shrinkBuffer H w es w'
    \<Longrightarrow> w_hist startRef resetRef shrinkRef shrinkBuffer (still_handed (w_entities w) (w_entities w') H \<union> es) w'"

definition w_reach :: "('r \<Rightarrow> 'r) \<Rightarrow> ('r \<Rightarrow> 'r) \<Rightarrow> ('r \<Rightarrow> 'r) \<Rightarrow> ('b \<Rightarrow> 'b) \<Rightarrow> ('r, 'b) world \<Rightarrow> bool" where
  "w_reach startRef resetRef shrinkRef shrinkBuffer w \<longleftrightarrow> (\<exists>H. w_hist startRef resetRef shrinkRef shrinkBuffer H w)"

lemma w_reach_new: "RegisterWorld words plugin known options = Inr w \<Longrightarrow> w_reach startRef resetRef shrinkRef shrinkBuffer w"
  unfolding w_reach_def using hist_new by blast

lemma w_reach_step:
  assumes "w_reach startRef resetRef shrinkRef shrinkBuffer w" and "\<And>H. w_step startRef resetRef shrinkRef shrinkBuffer H w es w'"
  shows "w_reach startRef resetRef shrinkRef shrinkBuffer w'"
  using assms hist_step unfolding w_reach_def by blast

lemma w_spawn_grown:
  assumes "world_inv w" and "w_spawn w = (e, w')"
  shows "w' = w\<lparr>w_entities := w_entities w'\<rparr>" and "grown (if e = NoEntity then {} else {e}) (w_entities w) (w_entities w')"
  using spawn_grown(1)[OF world_invD(1)[OF assms(1)]] assms(2) by (auto simp: w_spawn_def split: prod.splits)

lemma CreateAt_grown:
  assumes "world_inv w" and "CreateAt e w = Inr w'"
  shows "w' = w\<lparr>w_entities := w_entities w'\<rparr>" and "grown {e} (w_entities w) (w_entities w')"
  using place_grown[OF world_invD(1)[OF assms(1)]] assms(2) by (auto simp: CreateAt_def split: sum.splits)

text \<open>How each operation leaves the reservations of the entity table.\<close>

lemma w_add_quiet:
  assumes "ent_inv (w_entities w)"
  shows "ent_inv (w_entities (snd (w_add e c v w)))" and "last_of (w_entities (snd (w_add e c v w))) = last_of (w_entities w)"
    and "pending (w_entities (snd (w_add e c v w))) = pending (w_entities w)"
proof -
  have "w_entities (snd (w_add e c v w)) \<in> {w_entities w, setComponent (w_entities w) e c}"
    by (auto simp: w_add_def w_put_def w_poke_def upd_store_def split: prod.splits option.splits)
  moreover have "ent_inv (setComponent (w_entities w) e c)" using mask_upd_inv(1)[OF assms] by (simp add: setComponent_def)
  ultimately show "ent_inv (w_entities (snd (w_add e c v w)))" "last_of (w_entities (snd (w_add e c v w))) = last_of (w_entities w)"
    "pending (w_entities (snd (w_add e c v w))) = pending (w_entities w)"
    using component_quiet(1,2)[OF assms, of e c] assms by auto
qed

lemma add_values_quiet:
  assumes "ent_inv (w_entities w)"
  shows "last_of (w_entities (add_values e cs values w)) = last_of (w_entities w)
    \<and> pending (w_entities (add_values e cs values w)) = pending (w_entities w)"
  using assms by (induction cs arbitrary: w "values") (simp_all add: Let_def w_add_quiet)

lemma w_remove_quiet:
  assumes "ent_inv (w_entities w)" and "w_remove e c w = (ok, w')"
  shows "last_of (w_entities w') = last_of (w_entities w)" and "pending (w_entities w') = pending (w_entities w)"
  using assms(2) component_quiet(3,4)[OF assms(1), of e c] by (auto simp: w_remove_def split: prod.splits if_splits)

lemma drop_components_entities [simp]: "w_entities (fold (drop_component e) cs w) = w_entities w"
  by (induction cs arbitrary: w) (simp_all add: drop_component_def upd_store_def split_beta)

lemma w_despawn_entities:
  assumes "w_despawn e w = (ok, w')"
  shows "w_entities w' = snd (despawn e (w_entities w))"
  using assms by (auto simp: w_despawn_def split: prod.splits option.splits)

lemma w_reset_entities: "w_entities (w_resetObservation startRef resetRef w) = snd (endWindow (w_entities w))"
  by (simp add: w_resetObservation_def split: prod.splits)

lemma w_reset_keeps:
  assumes "ent_inv (w_entities w)"
  shows "keeps_pending (w_entities w) (w_entities (w_resetObservation startRef resetRef w))"
    and "keeps_pending (w_entities w) (w_entities (w_shrink startRef resetRef shrinkRef shrinkBuffer w))"
proof -
  let ?t = "w_entities w"
  show r: "keeps_pending ?t (w_entities (w_resetObservation startRef resetRef w))" using endWindow_keeps[OF assms] by (simp add: w_reset_entities)
  define t1 where "t1 = (if et_observing ?t then snd (endWindow ?t) else ?t)"
  have k: "keeps_pending ?t t1" using endWindow_keeps[OF assms] by (simp add: t1_def keeps_pending_def)
  have inv: "ent_inv t1" using endWindow_inv[OF assms] assms by (simp add: t1_def)
  have "w_entities (w_shrink startRef resetRef shrinkRef shrinkBuffer w) = et_shrink t1" by (simp add: w_shrink_def Let_def t1_def w_reset_entities)
  then show "keeps_pending ?t (w_entities (w_shrink startRef resetRef shrinkRef shrinkBuffer w))"
    using keeps_pending_trans[OF k shrink_quiet(1)[OF inv]] shrink_quiet(2)[OF inv] by simp
qed

text \<open>The bytes a raw operation has checked, put into a live entity's stores.\<close>

lemma checkValues_ok:
  assumes "checkValues m given w = None"
  shows "\<forall>c \<in> set (maskIDs m). c < length (w_stores w)" and "length given = need w (maskIDs m)"
  using assms by (auto simp: checkValues_def needed_bytes_eq split: if_splits)

lemma addAll_checked:
  assumes "checkValues m given w = None" and "\<forall>s \<in> set (w_stores w). roomy s" and "w_stores w1 = w_stores w"
    and "world_inv w1" and "alive (w_entities w1) e"
  shows "world_inv (addAll e m given w1) \<and> same_frame w1 (addAll e m given w1)
    \<and> w_view (addAll e m given w1) =
        (\<lambda>x d. if x = e \<and> d \<in> set (maskIDs m) then map_of (slices w1 (maskIDs m) given) d else w_view w1 x d)"
  unfolding addAll_def
proof (rule add_values_spec[OF assms(4,5) distinct_maskIDs])
  show "\<forall>c \<in> set (maskIDs m). c < length (w_stores w1) \<and> roomy (the_store w1 c)"
    using checkValues_ok(1)[OF assms(1)] assms(2,3) by (simp add: the_store_def)
  show "length given = need w1 (maskIDs m)" using checkValues_ok(2)[OF assms(1)] assms(3) by (simp add: need_def the_store_def)
qed

lemma w_spawn_ok:
  assumes "world_inv w" and "w_spawn w = (e, w')"
  shows "world_inv w'" and "handed_ok {e} (w_entities w')" and "keeps_pending (w_entities w) (w_entities w')"
proof -
  note g = w_spawn_grown[OF assms] and i = world_invD(1)[OF assms(1)]
  show "world_inv w'" using grown_world(1)[OF assms(1) g(2)] g(1) by simp
  have "spawn (w_entities w) = (e, w_entities w')" using assms(2) by (auto simp: w_spawn_def split: prod.splits)
  from spawn_handed[OF i this] show "handed_ok {e} (w_entities w')" "keeps_pending (w_entities w) (w_entities w')" .
qed

lemma CreateAt_ok:
  assumes "world_inv w" and "CreateAt e w = Inr w'"
  shows "world_inv w'" and "handed_ok {e} (w_entities w')" and "keeps_pending (w_entities w) (w_entities w')"
proof -
  note g = CreateAt_grown[OF assms] and i = world_invD(1)[OF assms(1)]
  show "world_inv w'" using grown_world(1)[OF assms(1) g(2)] g(1) by simp
  have "place e (w_entities w) = Inr (w_entities w')" using assms(2) by (auto simp: CreateAt_def split: sum.splits)
  from place_handed[OF i this] place_keeps[OF i this] show "handed_ok {e} (w_entities w')" "keeps_pending (w_entities w) (w_entities w')" .
qed

lemma addAll_ok:
  assumes "world_inv w1" and "world_inv (addAll e m given w1)" and "handed_ok {e} (w_entities w1)" and "keeps_pending t (w_entities w1)"
  shows "world_inv (addAll e m given w1) \<and> keeps_pending t (w_entities (addAll e m given w1)) \<and> handed_ok {e} (w_entities (addAll e m given w1))"
proof -
  have q: "last_of (w_entities (addAll e m given w1)) = last_of (w_entities w1)" "pending (w_entities (addAll e m given w1)) = pending (w_entities w1)"
    using add_values_quiet[OF world_invD(1)[OF assms(1)], of e "maskIDs m" given] by (simp_all add: addAll_def)
  show ?thesis using assms(2) keeps_pending_trans[OF assms(4) q(1)] handed_same[OF assms(3) q(1)] q(2) by simp
qed

lemma raw_spawn_ok:
  assumes "world_inv w" and "\<forall>s \<in> set (w_stores w). roomy s" and "SpawnRaw m given w = Inr (e, w')"
  shows "world_inv w' \<and> keeps_pending (w_entities w) (w_entities w') \<and> handed_ok {e} (w_entities w')"
proof -
  obtain w1 where sp: "w_spawn w = (e, w1)" and w': "w' = (if e \<noteq> NoEntity then addAll e m given w1 else w1)"
    and ok: "checkValues m given w = None"
    using assms(3) by (auto simp: SpawnRaw_def split: option.splits prod.splits)
  note o = w_spawn_ok[OF assms(1) sp] and g = w_spawn_grown[OF assms(1) sp]
  show ?thesis
  proof (cases "e = NoEntity")
    case False
    have "w_stores w1 = w_stores w" using arg_cong[OF g(1), of w_stores] by simp
    moreover have "alive (w_entities w1) e" using g(2) False by (simp add: grown_def)
    ultimately have "world_inv (addAll e m given w1)" using addAll_checked[OF ok assms(2) _ o(1)] by blast
    from addAll_ok[OF o(1) this o(2,3)] show ?thesis using False w' by simp
  qed (use o w' in simp)
qed

lemma raw_create_ok:
  assumes "world_inv w" and "\<forall>s \<in> set (w_stores w). roomy s" and "CreateAtRaw e m given w = Inr (Inr w')"
  shows "world_inv w' \<and> keeps_pending (w_entities w) (w_entities w') \<and> handed_ok {e} (w_entities w')"
proof -
  obtain w1 where cr: "CreateAt e w = Inr w1" and w': "w' = addAll e m given w1" and ok: "checkValues m given w = None"
    using assms(3) by (auto simp: CreateAtRaw_def split: option.splits sum.splits)
  note o = CreateAt_ok[OF assms(1) cr] and g = CreateAt_grown[OF assms(1) cr]
  have "w_stores w1 = w_stores w" using arg_cong[OF g(1), of w_stores] by simp
  moreover have "alive (w_entities w1) e" using g(2) by (simp add: grown_def)
  ultimately have "world_inv (addAll e m given w1)" using addAll_checked[OF ok assms(2) _ o(1)] by blast
  from addAll_ok[OF o(1) this o(2,3)] show ?thesis using w' by simp
qed

lemma w_add_ok:
  assumes "world_inv w" and "c < length (w_stores w)" and "roomy (the_store w c)" and "length v = st_size (the_store w c)"
    and "w_add e c v w = (ok, w')"
  shows "world_inv w' \<and> keeps_pending (w_entities w) (w_entities w')"
proof -
  have "keeps_pending (w_entities w) (w_entities w')"
    using w_add_quiet(3)[OF world_invD(1)[OF assms(1)], of e c v] assms(5) by (simp add: keeps_pending_def)
  moreover have "world_inv w'"
    by (cases "alive (w_entities w) e") (use w_add_spec(2)[OF assms(1,2) _ assms(3-5)] w_add_dead[of w e c v] assms(1,5) in auto)
  ultimately show ?thesis by blast
qed

lemma w_remove_ok:
  assumes "world_inv w" and "c < length (w_stores w)" and "w_remove e c w = (ok, w')"
  shows "world_inv w' \<and> keeps_pending (w_entities w) (w_entities w')"
  using w_remove_spec(2)[OF assms] w_remove_quiet(2)[OF world_invD(1)[OF assms(1)] assms(3)] by (simp add: keeps_pending_def)

lemma w_step_ok:
  assumes "w_step startRef resetRef shrinkRef shrinkBuffer H w es w'" and "world_inv w" and "handed_ok H (w_entities w)"
  shows "world_inv w' \<and> keeps_pending (w_entities w) (w_entities w') \<and> handed_ok es (w_entities w')"
  using assms
proof (induction rule: w_step.induct)
  case (ws_component ct name w c w')
  then have "w_entities w' = w_entities w" by (auto simp: RegisterComponent_def Let_def split: if_splits)
  then show ?case using RegisterComponent_spec(1)[OF ws_component(2,1)] by (simp add: handed_ok_def keeps_pending_def)
next
  case (ws_observed c w)
  then show ?case using observe_store_spec(1)[OF ws_observed(2,1)] by (simp add: handed_ok_def keeps_pending_def observe_store_def upd_store_def)
next
  case (ws_reserved w e t)
  note i = world_invD(1)[OF ws_reserved(2)]
  show ?case using grown_world(1)[OF ws_reserved(2) reserve_grown[OF i ws_reserved(1)]] reserve_handed[OF i ws_reserved(1)] by simp
next
  case (ws_committed w e)
  note i = world_invD(1)[OF ws_committed(2)]
  have t: "fst (spawnReserved e (w_entities w)) \<longleftrightarrow> pending (w_entities w) e" by (rule may_spawn_taken[OF ws_committed(3,1)])
  then have "pending (w_entities w) e \<or> \<not> fst (spawnReserved e (w_entities w))" by blast
  then show ?case using grown_world(1)[OF ws_committed(2) spawnReserved_grown[OF i]] commit_keeps(2)[OF i t] by (simp add: handed_ok_def)
next
  case (ws_spawned w e w')
  then show ?case using w_spawn_ok by blast
next
  case (ws_created e w w')
  then show ?case using CreateAt_ok by blast
next
  case (ws_despawned e w ok w')
  then show ?case
    using w_despawn_spec(2)[OF ws_despawned(2,1)] despawn_pending[OF world_invD(1)[OF ws_despawned(2)]] w_despawn_entities[OF ws_despawned(1)]
    by (simp add: handed_ok_def keeps_pending_def)
next
  case (ws_added c w v e ok w')
  then show ?case using w_add_ok[OF ws_added(5,1-4)] by (simp add: handed_ok_def)
next
  case (ws_written c w v e row w')
  have "w_entities (w_poke c row v w') = w_entities w" using ws_written(3) by (auto simp: w_poke_def w_write_def upd_store_def split: prod.splits)
  then show ?case using w_write_spec(1)[OF ws_written(4,1-3)] by (simp add: handed_ok_def keeps_pending_def)
next
  case (ws_removed c w e ok w')
  then show ?case using w_remove_ok[OF ws_removed(3,1,2)] by (simp add: handed_ok_def)
next
  case (ws_spawned_raw w m given e w')
  then show ?case using raw_spawn_ok by blast
next
  case (ws_created_raw w e m given w')
  then show ?case using raw_create_ok by blast
next
  case (ws_added_raw w e c given ok w')
  have a: "c < length (w_stores w)" "length given = st_size (the_store w c)" "w_add e c given w = (ok, w')"
    using ws_added_raw(2) by (auto simp: AddRaw_def split: if_splits)
  have "roomy (the_store w c)" using ws_added_raw(1) a(1) by (simp add: the_store_def)
  then show ?case using w_add_ok[OF ws_added_raw(3) a(1) _ a(2,3)] by (simp add: handed_ok_def)
next
  case (ws_removed_raw e c w ok w')
  have "c < length (w_stores w)" "w_remove e c w = (ok, w')" using ws_removed_raw(1) by (auto simp: RemoveRaw_def split: if_splits)
  then show ?case using w_remove_ok[OF ws_removed_raw(2)] by (simp add: handed_ok_def)
next
  case (ws_reset w)
  then show ?case using w_reset_spec(1)[OF ws_reset(1) refl] w_reset_keeps(1)[OF world_invD(1)[OF ws_reset(1)]] by (simp add: handed_ok_def)
next
  case (ws_shrunk w)
  then show ?case using w_shrink_spec(1)[OF ws_shrunk(1) refl] w_reset_keeps(2)[OF world_invD(1)[OF ws_shrunk(1)]] by (simp add: handed_ok_def)
qed

lemma w_hist_ok: "w_hist startRef resetRef shrinkRef shrinkBuffer H w \<Longrightarrow> world_inv w \<and> handed_ok H (w_entities w)"
proof (induction rule: w_hist.induct)
  case (hist_new words plugin known options w)
  then show ?case using RegisterWorld_spec(1) by (simp add: handed_ok_def)
next
  case (hist_step H w es w')
  then show ?case using w_step_ok[OF hist_step.hyps(2)] handed_step[of H "w_entities w" "w_entities w'" es] by blast
qed

lemma w_reach_inv: "w_reach startRef resetRef shrinkRef shrinkBuffer w \<Longrightarrow> world_inv w"
  using w_hist_ok unfolding w_reach_def by blast

lemma map_of_keys: "distinct (map fst xs) \<Longrightarrow> map (\<lambda>k. the (map_of xs k)) (map fst xs) = map snd xs"
  by (induction xs) (auto simp: image_iff)

lemma mask_ids_view:
  assumes "world_inv w" and "alive (w_entities w) e"
  shows "\<exists>m. ComponentMask e w = Some m \<and> maskIDs m = filter (\<lambda>c. w_view w e c \<noteq> None) [0..<length (w_stores w)]"
proof -
  note i = world_invD[OF assms(1)]
  let ?m = "mask_of (w_entities w) (e_index e)" and ?n = "et_words (w_entities w) * 64"
  have "length ?m = et_words (w_entities w)" using i(2) by (simp add: masks_wf_def)
  then have "maskIDs ?m = filter (maskHas ?m) [0..<?n]" by (simp add: maskIDs_filter maskBits_def)
  also have "\<dots> = filter (\<lambda>c. w_view w e c \<noteq> None) [0..<?n]"
    using i(6)[OF assms(2)] by (intro filter_cong refl) simp
  also have "\<dots> = filter (\<lambda>c. w_view w e c \<noteq> None) [0..<length (w_stores w)]"
  proof -
    have "[0..<?n] = [0..<length (w_stores w)] @ [length (w_stores w)..<?n]"
      using i(3) upt_add_eq_append[of 0 "length (w_stores w)" "?n - length (w_stores w)"] by simp
    moreover have "filter (\<lambda>c. w_view w e c \<noteq> None) [length (w_stores w)..<?n] = []"
      by (auto simp: filter_empty_conv w_view_def)
    ultimately show ?thesis by simp
  qed
  finally show ?thesis using assms(2) by (simp add: ComponentMask_def et_mask_def mask_of_def)
qed

text \<open>A world of one word of masks, with one component of two bytes and one entity, for the concrete cases.\<close>

definition sample_options :: world_options where
  "sample_options = \<lparr>wo_firstIndex = 1, wo_lastIndex = 5, wo_entities = 0\<rparr>"

definition sample_empty :: "(unit, unit) world" where
  "sample_empty = projr (RegisterWorld 1 True False sample_options)"

definition sample_type :: component_type where
  "sample_type = \<lparr>ct_name = ''pair'', ct_size = 2, ct_pointer_free = True\<rparr>"

definition sample_world :: "(unit, unit) world" where
  "sample_world = snd (projr (RegisterComponent sample_type ''Pair'' sample_empty))"

abbreviation sample_reaches :: "(unit, unit) world \<Rightarrow> bool" where
  "sample_reaches \<equiv> w_reach (\<lambda>r. r) (\<lambda>r. r) (\<lambda>r. r) (\<lambda>b. b)"

lemma sample_registered:
  "RegisterWorld 1 True False sample_options = Inr sample_empty"
  "RegisterComponent sample_type ''Pair'' sample_empty = Inr (0, sample_world)"
  by (simp_all add: sample_world_def sample_empty_def sample_options_def sample_type_def RegisterWorld_def RegisterComponent_def et_init_def)

lemma sample_world_facts:
  "sample_reaches sample_world" "length (w_stores sample_world) = 1" "the_store sample_world 0 = newStoreOf 2 (replicate 2 0)"
  "w_entities sample_world = et_init 1 1 5 0"
proof -
  show "sample_reaches sample_world" by (rule w_reach_step[OF w_reach_new[OF sample_registered(1)] ws_component[OF sample_registered(2)]])
  show "length (w_stores sample_world) = 1" "the_store sample_world 0 = newStoreOf 2 (replicate 2 0)" "w_entities sample_world = et_init 1 1 5 0"
    by (simp_all add: sample_world_def sample_empty_def sample_options_def sample_type_def RegisterWorld_def RegisterComponent_def
      et_init_def the_store_def)
qed

lemma sample_spawn: "fst (w_spawn sample_world) = makeEntity 1 1"
  by (simp add: w_spawn_def sample_world_facts spawn_def settleReservations_def reserve_def et_init_def Let_def)

definition sample_spawned :: "(unit, unit) world" where
  "sample_spawned = snd (w_spawn sample_world)"

lemma sample_spawned_facts:
  "sample_reaches sample_spawned" "alive (w_entities sample_spawned) (makeEntity 1 1)" "length (w_stores sample_spawned) = 1"
  "the_store sample_spawned 0 = newStoreOf 2 (replicate 2 0)" "roomy (the_store sample_spawned 0)"
proof -
  have sp: "w_spawn sample_world = (makeEntity 1 1, sample_spawned)" using sample_spawn by (simp add: sample_spawned_def prod_eq_iff)
  note i = w_reach_inv[OF sample_world_facts(1)]
  note g = w_spawn_grown[OF i sp]
  have ne: "makeEntity 1 1 \<noteq> NoEntity" by (metis NoEntity_parts(2) entity_parts(2) zero_neq_one)
  show "sample_reaches sample_spawned" by (rule w_reach_step[OF sample_world_facts(1) ws_spawned[OF sp]])
  show "alive (w_entities sample_spawned) (makeEntity 1 1)" using grown_world(3)[OF i g(2)] ne by simp
  have "w_stores sample_spawned = w_stores sample_world" using arg_cong[OF g(1), of w_stores] by simp
  then show "length (w_stores sample_spawned) = 1" "the_store sample_spawned 0 = newStoreOf 2 (replicate 2 0)" "roomy (the_store sample_spawned 0)"
    using sample_world_facts(2,3) by (simp_all add: the_store_def roomy_def newStoreOf_def)
qed

text \<open>
  C4: The masks are exact.  In every world reached by a history of its operations, the raw ones among them, whose committed
  \<open>Spawn\<close>s are of entities the world handed out at some time, or of ones not the next of an index with none alive
  (\<open>may_spawn\<close>, the condition of \<open>w_hist\<close>), the mask of a live entity has exactly the bits of the components the
  entity has, and an entity that is not alive has no mask and no component in any store.
\<close>

theorem masks_match_stores:
  assumes "w_hist startRef resetRef shrinkRef shrinkBuffer H w"
  shows "(\<forall>e m. ComponentMask e w = Some m \<longrightarrow> maskIDs m = filter (\<lambda>c. w_has e c w) [0..<length (w_stores w)])
    \<and> (\<forall>e. ComponentMask e w = None \<longrightarrow> \<not> alive (w_entities w) e \<and> (\<forall>c < length (w_stores w). \<not> w_has e c w))"
proof -
  have i: "world_inv w" using w_hist_ok[OF assms] by blast
  have has: "w_has e c w \<longleftrightarrow> w_view w e c \<noteq> None" if "c < length (w_stores w)" for e c
    using that by (simp add: w_has_def w_view_def st_map_def)
  have cm: "ComponentMask e w = None \<longleftrightarrow> \<not> alive (w_entities w) e" for e by (simp add: ComponentMask_def et_mask_def)
  have "maskIDs m = filter (\<lambda>c. w_has e c w) [0..<length (w_stores w)]" if m: "ComponentMask e w = Some m" for e m
  proof -
    have "alive (w_entities w) e" using m cm[of e] by simp
    then have "maskIDs m = filter (\<lambda>c. w_view w e c \<noteq> None) [0..<length (w_stores w)]" using mask_ids_view[OF i] m by fastforce
    also have "\<dots> = filter (\<lambda>c. w_has e c w) [0..<length (w_stores w)]" by (intro filter_cong refl) (simp add: has)
    finally show ?thesis .
  qed
  moreover have "\<not> w_has e c w" if "\<not> alive (w_entities w) e" "c < length (w_stores w)" for e c
    using view_none[OF i that(1), of c] has[OF that(2)] by simp
  ultimately show ?thesis using cm by simp
qed

theorem masks_match_stores_witness:
  "sample_reaches sample_spawned \<and> (\<exists>m. ComponentMask (makeEntity 1 1) sample_spawned = Some m
     \<and> maskIDs m = filter (\<lambda>c. w_has (makeEntity 1 1) c sample_spawned) [0..<1])"
proof -
  have "ComponentMask (makeEntity 1 1) sample_spawned \<noteq> None"
    using sample_spawned_facts(2) by (simp add: ComponentMask_def et_mask_def)
  moreover obtain H where "w_hist (\<lambda>r. r) (\<lambda>r. r) (\<lambda>r. r) (\<lambda>b. b) H sample_spawned" using sample_spawned_facts(1) by (auto simp: w_reach_def)
  ultimately show ?thesis using masks_match_stores[of _ _ _ _ H sample_spawned] sample_spawned_facts(1,3) by auto
qed

text \<open>
  C6: \<open>Add\<close> and \<open>Remove\<close> change one component of one entity and nothing else: adding answers whether
  the entity is alive, and then gives it the value, new or in the place of the old; removing answers
  whether the entity had it, and takes it away.  No entity comes alive or dies.
\<close>

theorem component_changes_exact:
  assumes "w_reach startRef resetRef shrinkRef shrinkBuffer w" and "c < length (w_stores w)" and "roomy (the_store w c)"
    and "length v = st_size (the_store w c)" and "w_add e c v w = (ok, w1)" and "w_remove e c w = (had, w2)"
  shows "(ok \<longleftrightarrow> alive (w_entities w) e) \<and> (had \<longleftrightarrow> w_has e c w)
    \<and> alive (w_entities w1) = alive (w_entities w) \<and> alive (w_entities w2) = alive (w_entities w)
    \<and> w_view w1 = (\<lambda>x d. if ok \<and> x = e \<and> d = c then Some v else w_view w x d)
    \<and> w_view w2 = (\<lambda>x d. if x = e \<and> d = c then None else w_view w x d)"
proof -
  have i: "world_inv w" by (rule w_reach_inv[OF assms(1)])
  note r = w_remove_spec[OF i assms(2,6)]
  have has: "w_has e c w \<longleftrightarrow> w_view w e c \<noteq> None" using assms(2) by (simp add: w_has_def w_view_def st_map_def)
  show ?thesis
  proof (cases "alive (w_entities w) e")
    case True
    note a = w_add_spec[OF i assms(2) True assms(3-5)]
    show ?thesis using True a(1,4) same_frame_alive[OF a(3)] r(1,4) same_frame_alive[OF r(3)] has by (auto simp: fun_eq_iff)
  next
    case False
    then have "ok = False" "w1 = w" using w_add_dead[OF False, of c v] assms(5) by auto
    then show ?thesis using False r(1,4) same_frame_alive[OF r(3)] has by (auto simp: fun_eq_iff)
  qed
qed

theorem component_changes_exact_witness:
  "sample_reaches sample_spawned \<and> fst (w_add (makeEntity 1 1) 0 [7, 8] sample_spawned)
    \<and> w_view (snd (w_add (makeEntity 1 1) 0 [7, 8] sample_spawned)) (makeEntity 1 1) 0 = Some [7, 8]
    \<and> w_view (snd (w_remove (makeEntity 1 1) 0 sample_spawned)) (makeEntity 1 1) 0 = None"
proof -
  note f = sample_spawned_facts
  obtain ok w1 where a: "w_add (makeEntity 1 1) 0 [7, 8] sample_spawned = (ok, w1)" by fastforce
  obtain had w2 where r: "w_remove (makeEntity 1 1) 0 sample_spawned = (had, w2)" by fastforce
  have "length [7, 8 :: u8] = st_size (the_store sample_spawned 0)" by (simp add: f(4) newStoreOf_def)
  from component_changes_exact[OF f(1) _ f(5) this a r] show ?thesis using f a r by simp
qed

text \<open>
  C5: \<open>Despawn\<close> answers whether the entity was alive, and after it the entity is not and has no
  component in any store; every other entity keeps its life and its components.
\<close>

theorem despawn_exact:
  assumes "w_reach startRef resetRef shrinkRef shrinkBuffer w" and "w_despawn e w = (ok, w')"
  shows "(ok \<longleftrightarrow> alive (w_entities w) e)
    \<and> (\<forall>x. alive (w_entities w') x \<longleftrightarrow> alive (w_entities w) x \<and> x \<noteq> e)
    \<and> w_view w' = (\<lambda>x c. if x = e then None else w_view w x c)"
  using w_despawn_spec[OF w_reach_inv[OF assms(1)] assms(2)] by blast

theorem despawn_exact_witness:
  "sample_reaches sample_spawned \<and> fst (w_despawn (makeEntity 1 1) sample_spawned)
    \<and> \<not> alive (w_entities (snd (w_despawn (makeEntity 1 1) sample_spawned))) (makeEntity 1 1)"
proof -
  obtain ok w' where d: "w_despawn (makeEntity 1 1) sample_spawned = (ok, w')" by fastforce
  show ?thesis using despawn_exact[OF sample_spawned_facts(1) d] sample_spawned_facts(1,2) d by simp
qed

text \<open>
  C7: \<open>SpawnRaw\<close> and \<open>ReadRaw\<close> are inverse, in a world reached by a history whose committed \<open>Spawn\<close>s are of entities
  the world handed out, or of ones not the next of an index with none alive (\<open>w_hist\<close>).  A spawn that does not panic answers \<open>NoEntity\<close> and changes
  nothing a reader sees, or answers an entity that was not alive; then exactly that entity has come
  alive, with exactly the mask's components, whose bytes read back in ascending order are the bytes
  given, and every other entity is as it was.
\<close>

theorem spawn_raw_roundtrip:
  assumes "w_hist startRef resetRef shrinkRef shrinkBuffer H w" and "\<forall>s \<in> set (w_stores w). roomy s"
    and "SpawnRaw m given w = Inr (e, w')"
  shows "(e = NoEntity \<and> alive (w_entities w') = alive (w_entities w) \<and> w_view w' = w_view w)
    \<or> (\<not> alive (w_entities w) e \<and> (\<forall>x. alive (w_entities w') x \<longleftrightarrow> alive (w_entities w) x \<or> x = e)
       \<and> (\<exists>got. ComponentMask e w' = Some got \<and> maskIDs got = maskIDs m)
       \<and> concat (map (\<lambda>c. the (w_get e c w')) (maskIDs m)) = given
       \<and> (\<forall>x d. x \<noteq> e \<longrightarrow> w_view w' x d = w_view w x d))"
proof -
  have i: "world_inv w" using w_hist_ok[OF assms(1)] by blast
  obtain w1 where sp: "w_spawn w = (e, w1)" and w': "w' = (if e \<noteq> NoEntity then addAll e m given w1 else w1)"
    and ok: "checkValues m given w = None"
    using assms(3) by (auto simp: SpawnRaw_def split: option.splits prod.splits)
  note ids = checkValues_ok(1)[OF ok] and len = checkValues_ok(2)[OF ok]
  note g = w_spawn_grown[OF i sp]
  note gw = grown_world[OF i g(2), folded g(1)]
  have st: "w_stores w1 = w_stores w" using arg_cong[OF g(1), of w_stores] by simp
  show ?thesis
  proof (cases "e = NoEntity")
    case True
    then show ?thesis using gw(2,3) w' by (simp add: fun_eq_iff)
  next
    case False
    have dead: "\<not> alive (w_entities w) e" and al: "alive (w_entities w1) e" using gw(3,4)[of e] False by simp_all
    have need: "length given = need w1 (maskIDs m)" using len st by (simp add: need_def the_store_def)
    have "world_inv w'" and fr: "same_frame w1 w'" and v: "w_view w' = (\<lambda>x d. if x = e \<and> d \<in> set (maskIDs m)
        then map_of (slices w1 (maskIDs m) given) d else w_view w1 x d)"
      using addAll_checked[OF ok assms(2) st gw(1) al] False w' by simp_all
    moreover have al': "alive (w_entities w') = alive (w_entities w1)" by (rule same_frame_alive[OF fr])
    ultimately obtain got where got: "ComponentMask e w' = Some got"
      "maskIDs got = filter (\<lambda>c. w_view w' e c \<noteq> None) [0..<length (w_stores w')]"
      using mask_ids_view[of w' e] al by auto
    note sl = slices_facts(1)[of w1 "maskIDs m" given]
    have sv: "map_of (slices w1 (maskIDs m) given) c \<noteq> None" if "c \<in> set (maskIDs m)" for c
      using that sl by (metis map_of_eq_None_iff set_map)
    have none: "w_view w1 e c = None" for c using view_none[OF i dead, of c] gw(2) by simp
    have lw: "length (w_stores w') = length (w_stores w)" using fr st by (simp add: same_frame_def)
    have "set (maskIDs got) = set (maskIDs m)"
      using got(2) ids sv none lw by (auto simp: v)
    then have "maskIDs got = maskIDs m" by (intro sorted_distinct_set_unique) simp_all
    moreover have "concat (map (\<lambda>c. the (w_get e c w')) (maskIDs m)) = given"
    proof -
      have "map (\<lambda>c. the (w_get e c w')) (maskIDs m) = map (\<lambda>c. the (map_of (slices w1 (maskIDs m) given) c)) (maskIDs m)"
        using ids lw by (intro map_cong refl) (simp add: w_get_view v)
      also have "\<dots> = map snd (slices w1 (maskIDs m) given)"
        using map_of_keys[of "slices w1 (maskIDs m) given"] sl by simp
      finally show ?thesis using slices_facts(2)[OF need] by simp
    qed
    ultimately show ?thesis using dead got(1) al' gw(2,3) False by (simp add: v)
  qed
qed

theorem spawn_raw_roundtrip_witness:
  "\<exists>w'. sample_reaches sample_world \<and> SpawnRaw [1] [7, 8] sample_world = Inr (makeEntity 1 1, w')
    \<and> the (w_get (makeEntity 1 1) 0 w') = [7, 8]"
proof -
  note f = sample_world_facts
  have ids: "maskIDs [1] = [0]" by code_simp
  have ok: "checkValues [1] [7, 8] sample_world = None"
    by (simp add: checkValues_def ids f(2,3) newStoreOf_def)
  obtain w1 where "w_spawn sample_world = (makeEntity 1 1, w1)" using sample_spawn by (cases "w_spawn sample_world") simp
  then obtain w' where s: "SpawnRaw [1] [7, 8] sample_world = Inr (makeEntity 1 1, w')" using ok by (simp add: SpawnRaw_def)
  have ne: "makeEntity 1 1 \<noteq> NoEntity" by (metis NoEntity_parts(2) entity_parts(2) zero_neq_one)
  have "w_stores sample_world = [newStoreOf 2 (replicate 2 0)]" using f(2,3) by (simp add: the_store_def list_eq_iff_nth_eq)
  then have "\<forall>s \<in> set (w_stores sample_world). roomy s" by (simp add: roomy_def newStoreOf_def)
  moreover obtain H where "w_hist (\<lambda>r. r) (\<lambda>r. r) (\<lambda>r. r) (\<lambda>b. b) H sample_world" using f(1) by (auto simp: w_reach_def)
  ultimately have "the (w_get (makeEntity 1 1) 0 w') = [7, 8]" using spawn_raw_roundtrip[OF _ _ s] ne ids by fastforce
  then show ?thesis using s f(1) by blast
qed

text \<open>
  C26: What the raw operations refuse.  \<open>SpawnRaw\<close> panics exactly when the mask names a component that is
  not registered, the first such, or the bytes are not as many as the mask's components are long;
  \<open>AddRaw\<close> exactly when there is no such component or the bytes are not its size.
\<close>

theorem raw_panics_exact:
  "(SpawnRaw m given w = Inl p \<longleftrightarrow>
      (if \<exists>c \<in> set (maskIDs m). length (w_stores w) \<le> c
       then p = MaskBeyondStores (hd (filter (\<lambda>c. length (w_stores w) \<le> c) (maskIDs m)))
       else length given \<noteq> sum_list (map (\<lambda>c. st_size (the_store w c)) (maskIDs m)) \<and> p = WrongValuesLength))
   \<and> (AddRaw e c given w = Inl p \<longleftrightarrow>
      (if length (w_stores w) \<le> c then p = IndexOutOfRange
       else length given \<noteq> st_size (the_store w c) \<and> p = WrongSize))"
proof -
  have "checkValues m given w =
      (if \<exists>c \<in> set (maskIDs m). length (w_stores w) \<le> c
       then Some (MaskBeyondStores (hd (filter (\<lambda>c. length (w_stores w) \<le> c) (maskIDs m))))
       else if length given \<noteq> need w (maskIDs m) then Some WrongValuesLength else None)"
    by (auto simp: checkValues_def needed_bytes_eq not_less not_le)
  then show ?thesis by (auto simp: SpawnRaw_def AddRaw_def need_def split: prod.splits)
qed



text \<open>
  Ending a window and shrinking change nothing that is alive or stored: after a reset, the first
  included, and after a shrink the same entities are alive with the same components and values, and
  no index is held back for the old window any more after a reset.
\<close>

theorem windows_keep_world:
  assumes "w_reach startRef resetRef shrinkRef shrinkBuffer w"
  shows "alive (w_entities (w_resetObservation startRef resetRef w)) = alive (w_entities w)
    \<and> w_view (w_resetObservation startRef resetRef w) = w_view w
    \<and> et_despawned (w_entities (w_resetObservation startRef resetRef w)) = []
    \<and> alive (w_entities (w_shrink startRef resetRef shrinkRef shrinkBuffer w)) = alive (w_entities w)
    \<and> w_view (w_shrink startRef resetRef shrinkRef shrinkBuffer w) = w_view w"
  using w_reset_spec[OF w_reach_inv[OF assms] refl] w_shrink_spec[OF w_reach_inv[OF assms] refl] by simp

theorem windows_keep_world_witness:
  "sample_reaches sample_spawned
    \<and> alive (w_entities (w_shrink (\<lambda>r. r) (\<lambda>r. r) (\<lambda>r. r) (\<lambda>b. b) sample_spawned)) (makeEntity 1 1)"
  using windows_keep_world[OF sample_spawned_facts(1)] sample_spawned_facts(1,2) by simp

end
