(* ===== verification/Ecs_Commands.thy ===== *)
theory Ecs_Commands
  imports Ecs_World_Laws
begin

text \<open>
  \<open>ecs/commands.go\<close>: command buffers.  A lane is one producing system's records in order, with their
  values packed into words; a word is its eight bytes in memory.  A record is one step, under the
  lane's mutex.  A sink commits under the barrier.  Lanes of ref records are known to the sink by
  their interface only: \<open>commitRefs\<close> and \<open>shrinkRefs\<close> are their methods, and what they change of the
  world is its refs.
\<close>

datatype command_operation =
    CommandSpawn | CommandDespawn | CommandAdd | CommandSet | CommandRemove
  | CommandNewRef | CommandSetRef | CommandReleaseRef | CommandUpdateRef | CommandReleaseKey

record command_record =
  cr_entity :: entity
  cr_operation :: command_operation
  cr_component :: nat
  cr_valueStart :: nat

record command_lane =
  cl_records :: "command_record list"
  cl_values :: "bytes list"

record 'l recorder =
  rc_lanes :: "command_lane list"
  rc_refsLanes :: "'l list"

definition new_lane :: command_lane where
  "new_lane = \<lparr>cl_records = [], cl_values = []\<rparr>"

definition new_recorder :: "'l recorder" where
  "new_recorder = \<lparr>rc_lanes = [], rc_refsLanes = []\<rparr>"

definition zero_word :: bytes where
  "zero_word = replicate 8 0"

text \<open>\<open>Declare\<close>: a lane of its own for each system.\<close>

definition declare_lane :: "'l recorder \<Rightarrow> nat \<times> 'l recorder" where
  "declare_lane rc = (length (rc_lanes rc), rc\<lparr>rc_lanes := rc_lanes rc @ [new_lane]\<rparr>)"

section \<open>Values in words\<close>

text \<open>Copying in, a word at a time, from word \<open>i\<close>; a copy takes what fits and leaves the rest of the word.\<close>

function copy_in :: "bytes list \<Rightarrow> nat \<Rightarrow> bytes \<Rightarrow> bytes list" where
  "copy_in ws i v =
     (if v = [] then ws
      else let n = min 8 (length v) in copy_in (ws[i := take n v @ drop n (ws ! i)]) (i + 1) (drop n v))"
  by pat_completeness auto

termination
  by (relation "measure (\<lambda>(ws, i, v). length v)") auto

declare copy_in.simps [simp del]

text \<open>\<open>copyValue\<close>: \<open>n\<close> bytes out, from word \<open>i\<close>.\<close>

function copyValue :: "bytes list \<Rightarrow> nat \<Rightarrow> nat \<Rightarrow> bytes" where
  "copyValue ws i n = (if n = 0 then [] else take (min 8 n) (ws ! i) @ copyValue ws (i + 1) (n - min 8 n))"
  by pat_completeness auto

termination
  by (relation "measure (\<lambda>(ws, i, n). n)") auto

declare copyValue.simps [simp del]

definition lane_record :: "command_operation \<Rightarrow> entity \<Rightarrow> nat \<Rightarrow> bytes \<Rightarrow> command_lane \<Rightarrow> command_lane" where
  "lane_record operation e c v l =
     (let start = length (cl_values l);
          words = cl_values l @ replicate ((length v + 7) div 8) zero_word
      in l\<lparr>cl_values := copy_in words start v,
           cl_records := cl_records l @ [\<lparr>cr_entity = e, cr_operation = operation, cr_component = c, cr_valueStart = start\<rparr>]\<rparr>)"

section \<open>Producers\<close>

definition upd_lane :: "nat \<Rightarrow> (command_lane \<Rightarrow> command_lane) \<Rightarrow> 'l recorder \<Rightarrow> 'l recorder" where
  "upd_lane i f rc = rc\<lparr>rc_lanes := (rc_lanes rc)[i := f (rc_lanes rc ! i)]\<rparr>"

definition Reserve :: "('r, 'b) world \<Rightarrow> entity \<times> ('r, 'b) world" where
  "Reserve w = (case reserve (w_entities w) of (e, t) \<Rightarrow> (e, w\<lparr>w_entities := t\<rparr>))"

definition record_spawn :: "nat \<Rightarrow> entity \<Rightarrow> 'l recorder \<Rightarrow> 'l recorder" where
  "record_spawn i e rc = upd_lane i (lane_record CommandSpawn e 0 []) rc"

definition record_despawn :: "nat \<Rightarrow> entity \<Rightarrow> 'l recorder \<Rightarrow> 'l recorder" where
  "record_despawn i e rc = upd_lane i (lane_record CommandDespawn e 0 []) rc"

definition record_add :: "('r, 'b) world \<Rightarrow> nat \<Rightarrow> string \<Rightarrow> entity \<Rightarrow> bytes \<Rightarrow> 'l recorder \<Rightarrow> world_panic + 'l recorder" where
  "record_add w i t e v rc =
     (case storeOf w t of Inl p \<Rightarrow> Inl p | Inr c \<Rightarrow> Inr (upd_lane i (lane_record CommandAdd e c v) rc))"

definition record_set :: "('r, 'b) world \<Rightarrow> nat \<Rightarrow> string \<Rightarrow> entity \<Rightarrow> bytes \<Rightarrow> 'l recorder \<Rightarrow> world_panic + 'l recorder" where
  "record_set w i t e v rc =
     (case storeOf w t of Inl p \<Rightarrow> Inl p | Inr c \<Rightarrow> Inr (upd_lane i (lane_record CommandSet e c v) rc))"

definition record_remove :: "('r, 'b) world \<Rightarrow> nat \<Rightarrow> string \<Rightarrow> entity \<Rightarrow> 'l recorder \<Rightarrow> world_panic + 'l recorder" where
  "record_remove w i t e rc =
     (case storeOf w t of Inl p \<Rightarrow> Inl p | Inr c \<Rightarrow> Inr (upd_lane i (lane_record CommandRemove e c []) rc))"

section \<open>The sink\<close>

text \<open>A record of the first and of the second pass, with the count of those dropped.\<close>

definition spawn_record :: "command_record \<Rightarrow> nat \<times> ('r, 'b) world \<Rightarrow> nat \<times> ('r, 'b) world" where
  "spawn_record r st =
     (case st of (dropped, w) \<Rightarrow>
        if cr_operation r = CommandSpawn
        then (case spawnReserved (cr_entity r) (w_entities w) of (ok, t) \<Rightarrow>
                (if ok then dropped else dropped + 1, w\<lparr>w_entities := t\<rparr>))
        else (dropped, w))"

definition despawn_record :: "command_record \<Rightarrow> nat \<times> ('r, 'b) world \<Rightarrow> nat \<times> ('r, 'b) world" where
  "despawn_record r st =
     (case st of (dropped, w) \<Rightarrow>
        if cr_operation r = CommandDespawn
        then (case w_despawn (cr_entity r) w of (ok, w1) \<Rightarrow> (if ok then dropped else dropped + 1, w1))
        else (dropped, w))"

definition apply_record :: "bytes list \<Rightarrow> command_record \<Rightarrow> ('r, 'b) world \<Rightarrow> bool \<times> ('r, 'b) world" where
  "apply_record ws r w =
     (let e = cr_entity r; c = cr_component r in
      case cr_operation r of
        CommandAdd \<Rightarrow>
          (case w_put e c w of
             (None, w1) \<Rightarrow> (False, w1)
           | (Some row, w1) \<Rightarrow> (True, w_poke c row (copyValue ws (cr_valueStart r) (st_size (the_store w c))) w1))
      | CommandSet \<Rightarrow>
          if \<not> alive (w_entities w) e then (False, w)
          else (case w_write e c w of
                  (None, w1) \<Rightarrow> (True, w1)
                | (Some row, w1) \<Rightarrow> (True, w_poke c row (copyValue ws (cr_valueStart r) (st_size (the_store w c))) w1))
      | CommandRemove \<Rightarrow>
          if \<not> alive (w_entities w) e then (False, w) else (True, snd (w_remove e c w))
      | _ \<Rightarrow> (True, w))"

definition rest_record :: "bytes list \<Rightarrow> command_record \<Rightarrow> nat \<times> ('r, 'b) world \<Rightarrow> nat \<times> ('r, 'b) world" where
  "rest_record ws r st =
     (case st of (dropped, w) \<Rightarrow>
        case apply_record ws r w of (ok, w1) \<Rightarrow> (if ok then dropped else dropped + 1, w1))"

definition apply_lane :: "command_lane \<Rightarrow> nat \<times> ('r, 'b) world \<Rightarrow> nat \<times> ('r, 'b) world" where
  "apply_lane l st = fold (rest_record (cl_values l)) (cl_records l) st"

definition empty_lane :: "command_lane \<Rightarrow> command_lane" where
  "empty_lane l = l\<lparr>cl_records := [], cl_values := []\<rparr>"

text \<open>The refs lanes, one after the other: each answers what it dropped, itself emptied, and the refs.\<close>

fun commit_refs_lanes :: "('l \<Rightarrow> 'r list \<Rightarrow> nat \<times> 'l \<times> 'r list) \<Rightarrow> 'l list \<Rightarrow> 'r list \<Rightarrow> nat \<times> 'l list \<times> 'r list" where
  "commit_refs_lanes commitRefs [] rs = (0, [], rs)"
| "commit_refs_lanes commitRefs (l # ls) rs =
     (case commitRefs l rs of (n, l1, rs1) \<Rightarrow>
        case commit_refs_lanes commitRefs ls rs1 of (m, ls1, rs2) \<Rightarrow> (n + m, l1 # ls1, rs2))"

definition Commit ::
  "('l \<Rightarrow> 'r list \<Rightarrow> nat \<times> 'l \<times> 'r list) \<Rightarrow> 'l recorder \<Rightarrow> ('r, 'b) world \<Rightarrow> nat \<times> 'l recorder \<times> ('r, 'b) world" where
  "Commit commitRefs rc w =
     (let st1 = fold (\<lambda>l. fold spawn_record (cl_records l)) (rc_lanes rc) (0, w);
          st2 = fold (\<lambda>l. fold despawn_record (cl_records l)) (rc_lanes rc) st1;
          (dropped, w3) = fold apply_lane (rc_lanes rc) st2;
          (n, ls, rs) = commit_refs_lanes commitRefs (rc_refsLanes rc) (w_refs w3)
      in (dropped + n, rc\<lparr>rc_lanes := map empty_lane (rc_lanes rc), rc_refsLanes := ls\<rparr>, w3\<lparr>w_refs := rs\<rparr>))"

text \<open>\<open>shrink\<close> releases chunks past the records and values, which stay.\<close>

definition recorder_shrink :: "('l \<Rightarrow> 'l) \<Rightarrow> 'l recorder \<Rightarrow> 'l recorder" where
  "recorder_shrink shrinkRefs rc = rc\<lparr>rc_refsLanes := map shrinkRefs (rc_refsLanes rc)\<rparr>"

section \<open>Values read back\<close>

lemma copy_in_length [simp]: "length (copy_in ws i v) = length ws"
proof (induction ws i v rule: copy_in.induct)
  case (1 ws i v)
  then show ?case by (subst copy_in.simps) (simp add: Let_def)
qed

lemma copy_in_before:
  assumes "j < i"
  shows "copy_in ws i v ! j = ws ! j"
  using assms
proof (induction ws i v rule: copy_in.induct)
  case (1 ws i v)
  then show ?case by (subst copy_in.simps) (simp add: Let_def)
qed

lemma copyValue_cong:
  assumes "\<And>j. i \<le> j \<Longrightarrow> j < i + (n + 7) div 8 \<Longrightarrow> ws ! j = ws' ! j"
  shows "copyValue ws i n = copyValue ws' i n"
  using assms
proof (induction ws i n rule: copyValue.induct)
  case (1 ws i n)
  show ?case
  proof (cases "n = 0")
    case False
    then have "ws ! i = ws' ! i" using "1.prems"[of i] by simp
    moreover have "copyValue ws (i + 1) (n - min 8 n) = copyValue ws' (i + 1) (n - min 8 n)"
      using False by (intro "1.IH"[OF False] "1.prems") auto
    ultimately show ?thesis using False by (simp add: copyValue.simps[of _ i n])
  qed (simp add: copyValue.simps)
qed

lemma copy_back:
  assumes "i + (length v + 7) div 8 \<le> length ws" and "\<forall>j < length ws. length (ws ! j) = 8"
  shows "copyValue (copy_in ws i v) i (length v) = v"
  using assms
proof (induction ws i v rule: copy_in.induct)
  case (1 ws i v)
  show ?case
  proof (cases "v = []")
    case False
    let ?n = "min 8 (length v)"
    let ?ws = "ws[i := take ?n v @ drop ?n (ws ! i)]"
    have pos: "0 < length v" using False by simp
    have i: "i < length ws" using pos "1.prems"(1) by linarith
    obtain k where k: "length v = Suc k" using pos gr0_implies_Suc by blast
    have "(length v + 7) div 8 = Suc (k div 8)" using k by simp
    then have "i + 1 + (length (drop ?n v) + 7) div 8 \<le> length ?ws"
      using "1.prems"(1) k by (cases "8 \<le> length v") (auto simp: min_def)
    moreover have "\<forall>j < length ?ws. length (?ws ! j) = 8" using "1.prems"(2) i by (auto simp: nth_list_update)
    ultimately have ih: "copyValue (copy_in ?ws (i + 1) (drop ?n v)) (i + 1) (length (drop ?n v)) = drop ?n v"
      using "1.IH"[OF False refl] by simp
    have eq: "copy_in ws i v = copy_in ?ws (i + 1) (drop ?n v)" using False by (subst copy_in.simps) (simp add: Let_def)
    have "copy_in ws i v ! i = take ?n v @ drop ?n (ws ! i)" unfolding eq by (subst copy_in_before) (simp_all add: i)
    then have "take ?n (copy_in ws i v ! i) = take ?n v" by simp
    then show ?thesis using ih pos unfolding eq[symmetric] by (subst copyValue.simps) simp
  qed (simp add: copyValue.simps)
qed

section \<open>What a commit does\<close>

text \<open>
  The words of a lane are words, and each record's value lies within them.  What a record holds is
  the bytes its producer gave.
\<close>

definition lane_ok :: "command_lane \<Rightarrow> bool" where
  "lane_ok l \<longleftrightarrow> (\<forall>v \<in> set (cl_values l). length v = 8)"

definition record_value :: "command_lane \<Rightarrow> command_record \<Rightarrow> nat \<Rightarrow> bytes" where
  "record_value l r n = copyValue (cl_values l) (cr_valueStart r) n"

lemma copy_in_words:
  assumes "i + (length v + 7) div 8 \<le> length ws" and "\<forall>x \<in> set ws. length x = 8"
  shows "\<forall>x \<in> set (copy_in ws i v). length x = 8"
  using assms
proof (induction ws i v rule: copy_in.induct)
  case (1 ws i v)
  show ?case
  proof (cases "v = []")
    case False
    let ?n = "min 8 (length v)"
    let ?ws = "ws[i := take ?n v @ drop ?n (ws ! i)]"
    obtain k where k: "length v = Suc k" using False gr0_implies_Suc by blast
    have lt: "i < length ws" using k "1.prems"(1) by simp
    have "(length v + 7) div 8 = Suc (k div 8)" using k by simp
    then have fit: "i + 1 + (length (drop ?n v) + 7) div 8 \<le> length ?ws"
      using "1.prems"(1) k by (cases "8 \<le> length v") (auto simp: min_def)
    have words: "\<forall>x \<in> set ?ws. length x = 8"
    proof
      fix x assume "x \<in> set ?ws"
      then have "x = take ?n v @ drop ?n (ws ! i) \<or> x \<in> set ws" using set_update_subset_insert by fast
      moreover have "length (ws ! i) = 8" using "1.prems"(2) lt by simp
      ultimately show "length x = 8" using "1.prems"(2) by auto
    qed
    have eq: "copy_in ws i v = copy_in ?ws (i + 1) (drop ?n v)" using False by (subst copy_in.simps) (simp add: Let_def)
    show ?thesis unfolding eq by (rule "1.IH"[OF False refl fit words])
  qed (use "1.prems" in \<open>simp add: copy_in.simps\<close>)
qed

text \<open>
  A record's value is read back as it was recorded: the words copied out from where the record
  starts are the bytes copied in, whatever their number, and recording more leaves every earlier
  record and its value as they were.
\<close>

theorem recorded_value_back:
  assumes "lane_ok l" and "l' = lane_record operation e c v l"
  shows "lane_ok l' \<and> record_value l' (last (cl_records l')) (length v) = v
    \<and> butlast (cl_records l') = cl_records l
    \<and> (\<forall>r n. cr_valueStart r + (n + 7) div 8 \<le> length (cl_values l) \<longrightarrow> record_value l' r n = record_value l r n)"
proof -
  let ?ws = "cl_values l @ replicate ((length v + 7) div 8) zero_word"
  have w8: "\<forall>x \<in> set ?ws. length x = 8" using assms(1) by (auto simp: lane_ok_def zero_word_def)
  have vals: "cl_values l' = copy_in ?ws (length (cl_values l)) v" by (simp add: assms(2) lane_record_def Let_def)
  have recs: "cl_records l' = cl_records l @ [\<lparr>cr_entity = e, cr_operation = operation, cr_component = c, cr_valueStart = length (cl_values l)\<rparr>]"
    by (simp add: assms(2) lane_record_def Let_def)
  have fit: "length (cl_values l) + (length v + 7) div 8 \<le> length ?ws" by simp
  have "lane_ok l'" unfolding lane_ok_def vals by (rule copy_in_words[OF fit w8])
  moreover have "record_value l' (last (cl_records l')) (length v) = v"
  proof -
    have "\<forall>j < length ?ws. length (?ws ! j) = 8" using w8 nth_mem by blast
    from copy_back[OF fit this] show ?thesis by (simp add: record_value_def recs vals)
  qed
  moreover have "record_value l' r n = record_value l r n" if "cr_valueStart r + (n + 7) div 8 \<le> length (cl_values l)" for r n
    unfolding record_value_def
  proof (rule copyValue_cong)
    fix j assume "j < cr_valueStart r + (n + 7) div 8"
    then have "j < length (cl_values l)" using that by simp
    then show "cl_values l' ! j = cl_values l ! j" unfolding vals by (subst copy_in_before) (simp_all add: nth_append)
  qed
  moreover have "butlast (cl_records l') = cl_records l" by (simp add: recs)
  ultimately show ?thesis by blast
qed

theorem recorded_value_back_witness:
  "lane_ok new_lane \<and> record_value (lane_record CommandAdd 3 0 [1, 2, 3, 4, 5, 6, 7, 8, 9] new_lane)
     (last (cl_records (lane_record CommandAdd 3 0 [1, 2, 3, 4, 5, 6, 7, 8, 9] new_lane))) 9 = [1, 2, 3, 4, 5, 6, 7, 8, 9]"
proof -
  have ok: "lane_ok new_lane" by (simp add: lane_ok_def new_lane_def)
  have nine: "length [1, 2, 3, 4, 5, 6, 7, 8, 9 :: u8] = 9" by simp
  show ?thesis using recorded_value_back[OF ok refl, of CommandAdd 3 0 "[1, 2, 3, 4, 5, 6, 7, 8, 9]", unfolded nine] ok by blast
qed

lemma fold_lanes: "fold (\<lambda>l. fold f (g l)) ls st = fold f (concat (map g ls)) st"
  by (induction ls arbitrary: st) simp_all

text \<open>The first pass: reservations come alive, each once.\<close>

definition spawns_of :: "command_record list \<Rightarrow> entity list" where
  "spawns_of rs = map cr_entity (filter (\<lambda>r. cr_operation r = CommandSpawn) rs)"

definition despawns_of :: "command_record list \<Rightarrow> entity list" where
  "despawns_of rs = map cr_entity (filter (\<lambda>r. cr_operation r = CommandDespawn) rs)"

lemma setAlive_pending_iff:
  assumes "ent_inv t" and "pending t e"
  shows "pending (setAlive t e) x \<longleftrightarrow> pending t x \<and> x \<noteq> e"
proof (cases "e_index x = e_index e")
  case True
  have "it_wf (et_slots t)" using assms(1) by (simp add: ent_inv_def)
  then have "live_of (setAlive t e) (e_index x) \<noteq> 0" using setAlive_slot(1)[of t e "e_index x"] True pendingD(2)[OF assms(2)] by simp
  then have "\<not> pending (setAlive t e) x" using pendingD(1) by blast
  moreover have "x = e" if "pending t x" using pendingD(2)[OF that] pendingD(2)[OF assms(2)] True by (simp add: entity_eqI)
  ultimately show ?thesis by blast
next
  case False
  have wf: "it_wf (et_slots t)" using assms(1) by (simp add: ent_inv_def)
  have "pending t x" if "pending (setAlive t e) x"
    using pendingI[OF that, of t] pendingD[OF that] False setAlive_slot[OF wf, of e "e_index x"] count_cong[of "setAlive t e" t]
    by (simp add: in_alloc_def fun_eq_iff)
  then show ?thesis using setAlive_pending[OF assms(1), of x e] False by auto
qed

lemma setAlive_taken:
  assumes "ent_inv t" and "pending t e" and "fst (spawnReserved x t) \<longleftrightarrow> pending t x"
  shows "fst (spawnReserved x (setAlive t e)) \<longleftrightarrow> pending (setAlive t e) x"
proof -
  have wf: "it_wf (et_slots t)" using assms(1) by (simp add: ent_inv_def)
  show ?thesis
  proof (cases "e_index x = e_index e")
    case True
    have "live_of (setAlive t e) (e_index x) \<noteq> 0" using setAlive_slot(1)[OF wf, of e "e_index x"] True pendingD(2)[OF assms(2)] by simp
    then show ?thesis using spawnReserved_iff(1) pendingD(1) by blast
  next
    case False
    then have "fst (spawnReserved x (setAlive t e)) = fst (spawnReserved x t)"
      using setAlive_slot[OF wf, of e "e_index x"] by (simp add: spawnReserved_iff)
    then show ?thesis using assms(3) setAlive_pending_iff[OF assms(1,2), of x] False by auto
  qed
qed

lemma pending_accepted: "pending t e \<Longrightarrow> spawnReserved e t = (True, setAlive t e)"
  using spawnReserved_iff[of e t] pendingD(1,2)[of t e] by (simp add: prod_eq_iff)

definition same_stores :: "('r, 'b) world \<Rightarrow> ('r, 'b) world \<Rightarrow> bool" where
  "same_stores w w' \<longleftrightarrow>
     length (w_stores w') = length (w_stores w)
     \<and> (\<forall>c < length (w_stores w). st_size (the_store w' c) = st_size (the_store w c)
          \<and> length (st_owners (the_store w' c)) \<le> length (st_owners (the_store w c)))"

lemma same_stores_trans: "same_stores w w1 \<Longrightarrow> same_stores w1 w2 \<Longrightarrow> same_stores w w2"
  by (auto simp: same_stores_def intro: order_trans)

lemma spawn_pass:
  assumes "world_inv w" and "\<forall>e \<in> set (spawns_of rs). fst (spawnReserved e (w_entities w)) \<longleftrightarrow> pending (w_entities w) e"
    and "fold spawn_record rs (n, w) = (n', w')"
  shows "world_inv w' \<and> w_view w' = w_view w \<and> w_stores w' = w_stores w
    \<and> (\<forall>x. alive (w_entities w') x \<longleftrightarrow> alive (w_entities w) x \<or> x \<in> set (spawns_of rs) \<and> pending (w_entities w) x)
    \<and> n' + card (set (spawns_of rs) \<inter> {x. pending (w_entities w) x}) = n + length (spawns_of rs)"
  using assms
proof (induction rs arbitrary: n w)
  case Nil
  then show ?case by (simp add: spawns_of_def)
next
  case (Cons r rs)
  let ?e = "cr_entity r" and ?t = "w_entities w"
  show ?case
  proof (cases "cr_operation r = CommandSpawn")
    case False
    then show ?thesis using Cons.IH[of w n] Cons.prems by (simp add: spawns_of_def spawn_record_def)
  next
    case op: True
    have sp: "spawns_of (r # rs) = ?e # spawns_of rs" using op by (simp add: spawns_of_def)
    show ?thesis
    proof (cases "pending ?t ?e")
      case no: False
      then have "spawnReserved ?e ?t = (False, ?t)" using Cons.prems(2) spawnReserved_refused[of ?e ?t] by (auto simp: sp prod_eq_iff)
      then have st: "spawn_record r (n, w) = (n + 1, w)" using op by (simp add: spawn_record_def)
      have "insert ?e (set (spawns_of rs)) \<inter> {x. pending ?t x} = set (spawns_of rs) \<inter> {x. pending ?t x}" using no by auto
      then show ?thesis using Cons.IH[of w "n + 1"] Cons.prems no st by (auto simp: sp)
    next
      case p: True
      let ?w = "w\<lparr>w_entities := setAlive ?t ?e\<rparr>"
      note i = world_invD(1)[OF Cons.prems(1)]
      have st: "spawn_record r (n, w) = (n, ?w)" using op pending_accepted[OF p] by (simp add: spawn_record_def)
      have g: "grown {?e} ?t (setAlive ?t ?e)" using spawnReserved_grown[OF i, of ?e] p pending_accepted[OF p] by simp
      note gw = grown_world[OF Cons.prems(1) g] and iff = setAlive_pending_iff[OF i p]
      have "fst (spawnReserved x (setAlive ?t ?e)) \<longleftrightarrow> pending (setAlive ?t ?e) x" if "x \<in> set (spawns_of rs)" for x
        using setAlive_taken[OF i p] Cons.prems(2) that by (simp add: sp)
      then have ih: "world_inv w' \<and> w_view w' = w_view ?w \<and> w_stores w' = w_stores ?w
          \<and> (\<forall>x. alive (w_entities w') x \<longleftrightarrow> alive (setAlive ?t ?e) x \<or> x \<in> set (spawns_of rs) \<and> pending (setAlive ?t ?e) x)
          \<and> n' + card (set (spawns_of rs) \<inter> {x. pending (setAlive ?t ?e) x}) = n + length (spawns_of rs)"
        using Cons.IH[OF gw(1), of n] Cons.prems(3) st by simp
      have "insert ?e (set (spawns_of rs)) \<inter> {x. pending ?t x} = insert ?e (set (spawns_of rs) \<inter> {x. pending (setAlive ?t ?e) x})"
        using iff p by auto
      then have "card (insert ?e (set (spawns_of rs)) \<inter> {x. pending ?t x}) = Suc (card (set (spawns_of rs) \<inter> {x. pending (setAlive ?t ?e) x}))"
        using iff by simp
      then show ?thesis using ih gw(2,3) iff p by (auto simp: sp)
    qed
  qed
qed

text \<open>The second pass: despawns, each of a live entity once.\<close>

lemma st_remove_owners: "length (st_owners (st_remove e row s)) \<le> length (st_owners s)"
  by (simp add: st_remove_def Let_def)

lemma w_despawn_stores:
  assumes "world_inv w" and "w_despawn e w = (ok, w')"
  shows "same_stores w w'"
proof -
  note i = world_invD[OF assms(1)]
  show ?thesis
  proof (cases "alive (w_entities w) e")
    case False
    then have "w' = w" using assms(2) by (auto simp: w_despawn_def despawn_def)
    then show ?thesis by (simp add: same_stores_def)
  next
    case True
    obtain m t where d: "despawn e (w_entities w) = (Some m, t)" using True by (simp add: despawn_def Let_def)
    have m: "m = mask_of (w_entities w) (e_index e)" using despawn_facts(1)[OF i(1) True d] by simp
    have "length m = et_words (w_entities w)" using m i(2) by (simp add: masks_wf_def)
    then have "\<forall>c \<in> set (maskIDs m). c < length (w_stores (w\<lparr>w_entities := t\<rparr>))"
      using i(6)[OF True] m by (auto simp: set_maskIDs maskBits_def w_view_def split: if_splits)
    note dc = drop_components[OF distinct_maskIDs this, of w' e]
    have "w' = fold (drop_component e) (maskIDs m) (w\<lparr>w_entities := t\<rparr>)" using assms(2) d by (auto simp: w_despawn_def)
    note dc = dc[OF this]
    have len: "length (w_stores w') = length (w_stores w)" using dc by simp
    have "st_size (the_store w' c) = st_size (the_store w c) \<and> length (st_owners (the_store w' c)) \<le> length (st_owners (the_store w c))"
      if "c < length (w_stores w)" for c
    proof (cases "c \<in> set (maskIDs m)")
      case True
      then have "the_store w' c = st_remove e (fst (st_row (the_store w c) e)) (the_store w c)" using dc that by simp
      then show ?thesis using st_remove_owners[of e _ "the_store w c"] by simp
    next
      case False
      then have "the_store w' c = the_store w c" using dc that by simp
      then show ?thesis by simp
    qed
    then show ?thesis using len by (simp add: same_stores_def)
  qed
qed

lemma despawn_pass:
  assumes "world_inv w" and "fold despawn_record rs (n, w) = (n', w')"
  shows "world_inv w' \<and> same_stores w w'
    \<and> w_view w' = (\<lambda>x c. if x \<in> set (despawns_of rs) then None else w_view w x c)
    \<and> (\<forall>x. alive (w_entities w') x \<longleftrightarrow> alive (w_entities w) x \<and> x \<notin> set (despawns_of rs))
    \<and> n' + card (set (despawns_of rs) \<inter> {x. alive (w_entities w) x}) = n + length (despawns_of rs)"
  using assms
proof (induction rs arbitrary: n w)
  case Nil
  then show ?case by (simp add: despawns_of_def same_stores_def)
next
  case (Cons r rs)
  let ?e = "cr_entity r"
  show ?case
  proof (cases "cr_operation r = CommandDespawn")
    case False
    then show ?thesis using Cons.IH[of w n] Cons.prems by (simp add: despawns_of_def despawn_record_def)
  next
    case op: True
    have sp: "despawns_of (r # rs) = ?e # despawns_of rs" using op by (simp add: despawns_of_def)
    obtain ok w1 where d: "w_despawn ?e w = (ok, w1)" by fastforce
    note ds = w_despawn_spec[OF Cons.prems(1) d]
    have st: "despawn_record r (n, w) = (if ok then n else n + 1, w1)" using op d by (simp add: despawn_record_def)
    have fold: "fold despawn_record rs (if ok then n else n + 1, w1) = (n', w')" using Cons.prems(2) st by simp
    note ih = Cons.IH[OF ds(2) fold]
    have "insert ?e (set (despawns_of rs)) \<inter> {x. alive (w_entities w) x} =
        (if ok then insert ?e (set (despawns_of rs) \<inter> {x. alive (w_entities w1) x})
         else set (despawns_of rs) \<inter> {x. alive (w_entities w1) x})"
      using ds(1,3) by auto
    then have "card (insert ?e (set (despawns_of rs)) \<inter> {x. alive (w_entities w) x}) =
        card (set (despawns_of rs) \<inter> {x. alive (w_entities w1) x}) + (if ok then 1 else 0)"
      using ds(3)[of ?e] by simp
    then have "n' + card (set (despawns_of (r # rs)) \<inter> {x. alive (w_entities w) x}) = n + length (despawns_of (r # rs))"
      using ih by (auto simp: sp split: if_splits)
    then show ?thesis
      using ih ds(3,4) same_stores_trans[OF w_despawn_stores[OF Cons.prems(1) d]] by (auto simp: sp fun_eq_iff)
  qed
qed

text \<open>
  The third pass, against the map: what a record of a live entity does to it, and the bytes it has.
  Every record names a component that is registered, with a value of its size in the lane.
\<close>

type_synonym command = "command_operation \<times> entity \<times> nat \<times> bytes"

fun spec_apply :: "(entity \<Rightarrow> bool) \<Rightarrow> command \<Rightarrow> (entity \<Rightarrow> nat \<Rightarrow> bytes option) \<Rightarrow> entity \<Rightarrow> nat \<Rightarrow> bytes option" where
  "spec_apply A (operation, e, c, v) view =
     (if \<not> A e then view
      else if operation = CommandAdd \<or> operation = CommandSet \<and> view e c \<noteq> None
           then (\<lambda>x d. if x = e \<and> d = c then Some v else view x d)
           else if operation = CommandRemove then (\<lambda>x d. if x = e \<and> d = c then None else view x d)
           else view)"

definition refused :: "(entity \<Rightarrow> bool) \<Rightarrow> command \<Rightarrow> bool" where
  "refused A cmd = (case cmd of (operation, e, c, v) \<Rightarrow> operation \<in> {CommandAdd, CommandSet, CommandRemove} \<and> \<not> A e)"

definition command_of :: "(nat \<Rightarrow> nat) \<Rightarrow> command_lane \<Rightarrow> command_record \<Rightarrow> command" where
  "command_of sz l r = (cr_operation r, cr_entity r, cr_component r, record_value l r (sz (cr_component r)))"

definition record_ok :: "('r, 'b) world \<Rightarrow> command_lane \<Rightarrow> command_record \<Rightarrow> bool" where
  "record_ok w l r \<longleftrightarrow>
     (cr_operation r \<in> {CommandAdd, CommandSet, CommandRemove} \<longrightarrow> cr_component r < length (w_stores w))
     \<and> (cr_operation r \<in> {CommandAdd, CommandSet} \<longrightarrow>
          cr_valueStart r + (st_size (the_store w (cr_component r)) + 7) div 8 \<le> length (cl_values l))"

definition room :: "nat \<Rightarrow> ('r, 'b) world \<Rightarrow> bool" where
  "room n w \<longleftrightarrow> (\<forall>c < length (w_stores w). length (st_owners (the_store w c)) + n + 1 < 2 ^ 32 - 1)"

definition sizes :: "('r, 'b) world \<Rightarrow> nat \<Rightarrow> nat" where
  "sizes w c = st_size (the_store w c)"

lemma copyValue_length:
  assumes "i + (n + 7) div 8 \<le> length ws" and "\<forall>x \<in> set ws. length x = 8"
  shows "length (copyValue ws i n) = n"
  using assms
proof (induction ws i n rule: copyValue.induct)
  case (1 ws i n)
  show ?case
  proof (cases "n = 0")
    case False
    then obtain k where k: "n = Suc k" using not0_implies_Suc by blast
    have d: "(n + 7) div 8 = Suc (k div 8)" using k by simp
    have lt: "i < length ws" using "1.prems"(1) d by simp
    have "i + 1 + (n - min 8 n + 7) div 8 \<le> length ws"
      using "1.prems"(1) d k by (cases "8 \<le> n") (auto simp: min_def)
    then have "length (copyValue ws (i + 1) (n - min 8 n)) = n - min 8 n" by (rule "1.IH"[OF False _ "1.prems"(2)])
    moreover have "length (ws ! i) = 8" using "1.prems"(2) lt by simp
    ultimately show ?thesis using False by (subst copyValue.simps) simp
  qed (simp add: copyValue.simps)
qed

lemma st_add_owners: "length (st_owners (snd (st_add e s))) \<le> length (st_owners s) + 1"
  by (auto simp: st_add_def revive_def append_row_eq Let_def split: prod.splits)

lemma w_add_owners:
  assumes "w_add e c v w = (ok, w')" and "c < length (w_stores w)"
  shows "length (st_owners (the_store w' d)) \<le> length (st_owners (the_store w d)) + 1"
proof (cases "alive (w_entities w) e")
  case True
  show ?thesis
  proof (cases "st_write e (the_store w c)")
    case (Pair row s1)
    have s1: "st_owners s1 = st_owners (the_store w c)" using Pair by (auto simp: st_write_def split: option.splits)
    show ?thesis
    proof (cases row)
      case None
      then have "s1 = the_store w c" using Pair by (auto simp: st_write_def split: option.splits)
      then show ?thesis
        using assms True Pair None st_add_owners[of e "the_store w c"]
        by (cases "st_add e (the_store w c)") (auto simp: w_add_def w_put_def w_poke_def)
    next
      case (Some r)
      then show ?thesis using assms True Pair s1 by (auto simp: w_add_def w_put_def w_poke_def)
    qed
  qed
next
  case False
  then show ?thesis using assms(1) w_add_dead[OF False, of c v] by simp
qed

lemma room_mono:
  assumes "room n w" and "same_stores w w'"
  shows "room n w'"
proof -
  have "length (st_owners (the_store w' c)) + n + 1 < 2 ^ 32 - 1" if "c < length (w_stores w)" for c
  proof -
    have "length (st_owners (the_store w' c)) \<le> length (st_owners (the_store w c))" using assms(2) that by (simp add: same_stores_def)
    then show ?thesis using assms(1) that unfolding room_def by fastforce
  qed
  then show ?thesis using assms(2) by (simp add: room_def same_stores_def)
qed

lemma room_roomy: "room n w \<Longrightarrow> c < length (w_stores w) \<Longrightarrow> roomy (the_store w c)"
  by (fastforce simp: room_def roomy_def)

text \<open>One record of the third pass.\<close>

definition adds :: "command_record \<Rightarrow> nat" where
  "adds r = (if cr_operation r = CommandAdd then 1 else 0)"

definition took :: "command_lane \<Rightarrow> command_record \<Rightarrow> nat \<Rightarrow> ('r, 'b) world \<Rightarrow> bool \<Rightarrow> ('r, 'b) world \<Rightarrow> bool" where
  "took l r n w ok w' \<longleftrightarrow>
     world_inv w' \<and> same_frame w w' \<and> room n w'
     \<and> w_view w' = spec_apply (alive (w_entities w)) (command_of (sizes w) l r) (w_view w)
     \<and> (ok \<longleftrightarrow> \<not> refused (alive (w_entities w)) (command_of (sizes w) l r))"

lemma record_value_length:
  assumes "lane_ok l" and "record_ok w l r" and "cr_operation r = CommandAdd \<or> cr_operation r = CommandSet"
  shows "length (record_value l r (sizes w (cr_component r))) = st_size (the_store w (cr_component r))"
    and "cr_component r < length (w_stores w)"
  using copyValue_length[of "cr_valueStart r" "sizes w (cr_component r)" "cl_values l"] assms
  by (auto simp: record_ok_def lane_ok_def record_value_def sizes_def)

lemma apply_add:
  assumes "world_inv w" and "lane_ok l" and "record_ok w l r" and "room (adds r + n) w"
    and "apply_record (cl_values l) r w = (ok, w')" and "cr_operation r = CommandAdd"
  shows "took l r n w ok w'"
proof -
  let ?e = "cr_entity r" and ?c = "cr_component r" and ?v = "record_value l r (sizes w (cr_component r))"
  have len: "length ?v = st_size (the_store w ?c)" and c: "?c < length (w_stores w)"
    using record_value_length[OF assms(2,3)] assms(6) by blast+
  have eq: "w_add ?e ?c ?v w = (ok, w')"
    using assms(5,6) by (simp add: apply_record_def Let_def w_add_def record_value_def sizes_def)
  show ?thesis
  proof (cases "alive (w_entities w) ?e")
    case True
    note s = w_add_spec[OF assms(1) c True room_roomy[OF assms(4) c] len eq]
    have "length (st_owners (the_store w' d)) + n + 1 < 2 ^ 32 - 1" if "d < length (w_stores w)" for d
      using w_add_owners[OF eq c, of d] assms(4,6) that unfolding room_def adds_def by fastforce
    then have "room n w'" using s(3) by (simp add: room_def same_frame_def)
    then show ?thesis using s assms(6) True by (simp add: took_def command_of_def refused_def)
  next
    case False
    then have "ok = False" "w' = w" using eq w_add_dead[OF False] by auto
    then show ?thesis using assms(1,4,6) False by (fastforce simp: took_def command_of_def refused_def room_def)
  qed
qed

lemma apply_set:
  assumes "world_inv w" and "lane_ok l" and "record_ok w l r" and "room n w"
    and "apply_record (cl_values l) r w = (ok, w')" and "cr_operation r = CommandSet"
  shows "took l r n w ok w'"
proof -
  let ?e = "cr_entity r" and ?c = "cr_component r" and ?v = "record_value l r (sizes w (cr_component r))"
  have len: "length ?v = st_size (the_store w ?c)" and c: "?c < length (w_stores w)"
    using record_value_length[OF assms(2,3)] assms(6) by blast+
  obtain row w1 where wr: "w_write ?e ?c w = (row, w1)" by fastforce
  consider (dead) "\<not> alive (w_entities w) ?e" | (none) "alive (w_entities w) ?e" "row = None"
    | (some) k where "alive (w_entities w) ?e" "row = Some k" by (cases row) auto
  then show ?thesis
  proof cases
    case dead
    then have "ok = False" "w' = w" using assms(5,6) by (auto simp: apply_record_def)
    then show ?thesis using assms(1,4,6) dead by (simp add: took_def command_of_def refused_def)
  next
    case none
    then have get: "st_get (the_store w ?c) ?e = None" and w1: "w1 = upd_store ?c (the_store w ?c) w"
      using wr by (auto simp: w_write_def st_write_def split: option.splits)
    have "w1 = w" using w1 c by (simp add: upd_store_def the_store_def)
    moreover have "w_view w ?e ?c = None" using get by (simp add: w_view_def st_map_def)
    ultimately show ?thesis
      using assms(1,4-6) wr none by (simp add: took_def apply_record_def Let_def command_of_def refused_def)
  next
    case (some k)
    have eq: "ok" "w' = w_poke ?c k ?v w1"
      using assms(5,6) some wr by (auto simp: apply_record_def Let_def record_value_def sizes_def)
    note s = w_write_spec[OF assms(1) c len wr[unfolded some(2)]]
    have "same_stores w w'"
      using wr some(2) c unfolding eq(2) w_write_def w_poke_def
      by (auto simp: same_stores_def st_write_def split: option.splits prod.splits)
    then show ?thesis using s assms(6) some(1) eq room_mono[OF assms(4)] by (simp add: took_def command_of_def refused_def)
  qed
qed

lemma apply_remove:
  assumes "world_inv w" and "record_ok w l r" and "room n w"
    and "apply_record (cl_values l) r w = (ok, w')" and "cr_operation r = CommandRemove"
  shows "took l r n w ok w'"
proof (cases "alive (w_entities w) (cr_entity r)")
  case True
  have c: "cr_component r < length (w_stores w)" using assms(2,5) by (simp add: record_ok_def)
  obtain had w1 where re: "w_remove (cr_entity r) (cr_component r) w = (had, w1)" by fastforce
  have eq: "ok" "w' = w1" using assms(4,5) True re by (auto simp: apply_record_def Let_def)
  note s = w_remove_spec[OF assms(1) c re]
  have "same_stores w w'"
    using re c st_remove_owners unfolding eq(2) w_remove_def by (auto simp: same_stores_def split: prod.splits if_splits)
  then show ?thesis using s assms(5) True eq room_mono[OF assms(3)] by (simp add: took_def command_of_def refused_def)
next
  case False
  then have "ok = False" "w' = w" using assms(4,5) by (auto simp: apply_record_def)
  then show ?thesis using assms(1,3,5) False by (simp add: took_def command_of_def refused_def)
qed

lemma apply_record_spec:
  assumes "world_inv w" and "lane_ok l" and "record_ok w l r" and "room (adds r + n) w"
    and "apply_record (cl_values l) r w = (ok, w')"
  shows "took l r n w ok w'"
proof -
  consider "cr_operation r = CommandAdd" | "cr_operation r = CommandSet" | "cr_operation r = CommandRemove"
    | (other) "cr_operation r \<notin> {CommandAdd, CommandSet, CommandRemove}" by auto
  then show ?thesis
  proof cases
    case other
    then have "ok" "w' = w" using assms(5) by (cases "cr_operation r"; auto simp: apply_record_def Let_def)+
    then show ?thesis using assms(1,4) other by (auto simp: took_def command_of_def refused_def adds_def)
  qed (use apply_add[OF assms] apply_set[OF assms(1-3) _ assms(5)] apply_remove[OF assms(1,3) _ assms(5)] assms(4) in
      \<open>simp_all add: adds_def\<close>)
qed

text \<open>A lane, and all of them.\<close>

definition add_count :: "command_record list \<Rightarrow> nat" where
  "add_count rs = sum_list (map adds rs)"

definition same_sizes :: "('r, 'b) world \<Rightarrow> ('r, 'b) world \<Rightarrow> bool" where
  "same_sizes w w' \<longleftrightarrow>
     length (w_stores w') = length (w_stores w) \<and> (\<forall>c < length (w_stores w). st_size (the_store w' c) = st_size (the_store w c))"

lemma same_sizesI: "same_frame w w' \<Longrightarrow> same_sizes w w'" "same_stores w w' \<Longrightarrow> same_sizes w w'"
  by (simp_all add: same_frame_def same_stores_def same_sizes_def)

lemma record_ok_frame: "same_sizes w w' \<Longrightarrow> record_ok w l r \<Longrightarrow> record_ok w' l r"
  by (auto simp: record_ok_def same_sizes_def)

lemma command_of_frame:
  assumes "same_sizes w w'" and "record_ok w l r"
  shows "spec_apply A (command_of (sizes w') l r) = spec_apply A (command_of (sizes w) l r)"
    and "refused A (command_of (sizes w') l r) = refused A (command_of (sizes w) l r)"
  using assms by (auto simp: command_of_def refused_def sizes_def record_ok_def same_sizes_def fun_eq_iff)

lemma commands_frame:
  assumes "same_sizes w w'" and "\<forall>r \<in> set rs. record_ok w l r"
  shows "fold (spec_apply A) (map (command_of (sizes w') l) rs) view = fold (spec_apply A) (map (command_of (sizes w) l) rs) view"
    and "length (filter (refused A) (map (command_of (sizes w') l) rs)) = length (filter (refused A) (map (command_of (sizes w) l) rs))"
  using assms command_of_frame[OF assms(1)] by (induction rs arbitrary: view) simp_all

definition lane_commands :: "(nat \<Rightarrow> nat) \<Rightarrow> command_lane \<Rightarrow> command list" where
  "lane_commands sz l = map (command_of sz l) (cl_records l)"

definition lane_fit :: "('r, 'b) world \<Rightarrow> command_lane \<Rightarrow> bool" where
  "lane_fit w l \<longleftrightarrow> lane_ok l \<and> (\<forall>r \<in> set (cl_records l). record_ok w l r)"

lemma lane_fit_frame: "same_sizes w w' \<Longrightarrow> lane_fit w l \<Longrightarrow> lane_fit w' l"
  using record_ok_frame[of w w' l] by (auto simp: lane_fit_def)

lemma lanes_frame:
  assumes "same_sizes w w'" and "\<forall>l \<in> set ls. lane_fit w l"
  shows "fold (spec_apply A) (concat (map (lane_commands (sizes w')) ls)) view = fold (spec_apply A) (concat (map (lane_commands (sizes w)) ls)) view
    \<and> length (filter (refused A) (concat (map (lane_commands (sizes w')) ls))) =
      length (filter (refused A) (concat (map (lane_commands (sizes w)) ls)))"
  using assms(2)
proof (induction ls arbitrary: view)
  case (Cons l ls)
  have "\<forall>r \<in> set (cl_records l). record_ok w l r" using Cons.prems by (simp add: lane_fit_def)
  note c = commands_frame[OF assms(1) this, of A]
  show ?case using Cons.IH Cons.prems c by (simp add: lane_commands_def)
qed simp

definition passed :: "command list \<Rightarrow> nat \<Rightarrow> nat \<times> ('r, 'b) world \<Rightarrow> nat \<times> ('r, 'b) world \<Rightarrow> bool" where
  "passed cmds m st st' \<longleftrightarrow>
     world_inv (snd st') \<and> same_frame (snd st) (snd st') \<and> room m (snd st')
     \<and> w_view (snd st') = fold (spec_apply (alive (w_entities (snd st)))) cmds (w_view (snd st))
     \<and> fst st' = fst st + length (filter (refused (alive (w_entities (snd st)))) cmds)"

lemma lane_pass:
  assumes "world_inv w" and "lane_ok l" and "\<forall>r \<in> set rs. record_ok w l r" and "room (add_count rs + m) w"
  shows "passed (map (command_of (sizes w) l) rs) m (n, w) (fold (rest_record (cl_values l)) rs (n, w))"
  using assms
proof (induction rs arbitrary: n w)
  case Nil
  then show ?case by (simp add: passed_def add_count_def)
next
  case (Cons r rs)
  obtain ok w1 where a: "apply_record (cl_values l) r w = (ok, w1)" by fastforce
  have t: "took l r (add_count rs + m) w ok w1"
    using apply_record_spec[OF Cons.prems(1,2) _ _ a] Cons.prems(3,4) by (simp add: add_count_def add.assoc)
  then have fr: "same_frame w w1" "same_sizes w w1" and al: "alive (w_entities w1) = alive (w_entities w)"
    using same_sizesI(1) same_frame_alive by (auto simp: took_def)
  have rest: "\<forall>r \<in> set rs. record_ok w l r" using Cons.prems(3) by simp
  then have "\<forall>r \<in> set rs. record_ok w1 l r" using record_ok_frame[OF fr(2)] by blast
  then have ih: "passed (map (command_of (sizes w1) l) rs) m (if ok then n else n + 1, w1)
      (fold (rest_record (cl_values l)) rs (if ok then n else n + 1, w1))"
    using Cons.IH[of w1] t Cons.prems(2) by (simp add: took_def)
  have "fold (rest_record (cl_values l)) (r # rs) (n, w) = fold (rest_record (cl_values l)) rs (if ok then n else n + 1, w1)"
    using a by (simp add: rest_record_def)
  then show ?case
    using ih t same_frame_trans[OF fr(1)] commands_frame[OF fr(2) rest] al by (simp add: passed_def took_def)
qed

lemma lanes_pass:
  assumes "world_inv w" and "\<forall>l \<in> set ls. lane_fit w l" and "room (add_count (concat (map cl_records ls))) w"
  shows "passed (concat (map (lane_commands (sizes w)) ls)) 0 (n, w) (fold apply_lane ls (n, w))"
  using assms
proof (induction ls arbitrary: n w)
  case Nil
  then show ?case by (simp add: passed_def add_count_def)
next
  case (Cons l ls)
  let ?m = "add_count (concat (map cl_records ls))"
  have l: "lane_ok l" "\<forall>r \<in> set (cl_records l). record_ok w l r" using Cons.prems(2) by (simp_all add: lane_fit_def)
  have rm: "room (add_count (cl_records l) + ?m) w" using Cons.prems(3) by (simp add: add_count_def)
  obtain n1 w1 where f: "apply_lane l (n, w) = (n1, w1)" by fastforce
  have p: "passed (lane_commands (sizes w) l) ?m (n, w) (n1, w1)"
    using lane_pass[OF Cons.prems(1) l rm, of n] f by (simp add: lane_commands_def apply_lane_def)
  then have fr: "same_frame w w1" "same_sizes w w1" and al: "alive (w_entities w1) = alive (w_entities w)"
    using same_sizesI(1) same_frame_alive by (auto simp: passed_def)
  have fit: "\<forall>l \<in> set ls. lane_fit w l" using Cons.prems(2) by simp
  then have "\<forall>l \<in> set ls. lane_fit w1 l" using lane_fit_frame[OF fr(2)] by blast
  then have ih: "passed (concat (map (lane_commands (sizes w1)) ls)) 0 (n1, w1) (fold apply_lane ls (n1, w1))"
    using Cons.IH[of w1 n1] p by (simp add: passed_def)
  show ?case
    using ih p same_frame_trans[OF fr(1)] lanes_frame[OF fr(2) fit] al f by (simp add: passed_def)
qed

text \<open>The passes leave the refs to the refs lanes.\<close>

lemma spawn_pass_refs: "w_refs (snd (fold spawn_record rs st)) = w_refs (snd st)"
  by (induction rs arbitrary: st) (simp_all add: spawn_record_def split_beta)

lemma w_despawn_refs: "w_refs (snd (w_despawn e w)) = w_refs w"
proof -
  have "w_refs (fold (drop_component e) cs w) = w_refs w" for cs and w :: "('a, 'b) world"
    by (induction cs arbitrary: w) (simp_all add: drop_component_def split_beta)
  then show ?thesis by (simp add: w_despawn_def split_beta split: option.splits)
qed

lemma despawn_pass_refs: "w_refs (snd (fold despawn_record rs st)) = w_refs (snd st)"
  by (induction rs arbitrary: st) (simp_all add: despawn_record_def split_beta w_despawn_refs)

text \<open>What producers record fits its lane, and what is recorded before it goes on fitting.\<close>

lemma lane_record_fit:
  assumes "lane_fit w l" and "operation \<in> {CommandAdd, CommandSet, CommandRemove} \<Longrightarrow> c < length (w_stores w)"
    and "operation \<in> {CommandAdd, CommandSet} \<Longrightarrow> length v = st_size (the_store w c)"
  shows "lane_fit w (lane_record operation e c v l)"
proof -
  let ?ws = "cl_values l @ replicate ((length v + 7) div 8) zero_word" and ?l = "lane_record operation e c v l"
  have w8: "\<forall>x \<in> set ?ws. length x = 8" using assms(1) by (auto simp: lane_fit_def lane_ok_def zero_word_def)
  have vals: "cl_values ?l = copy_in ?ws (length (cl_values l)) v" by (simp add: lane_record_def Let_def)
  have len: "length (cl_values ?l) = length (cl_values l) + (length v + 7) div 8" by (simp add: vals)
  have "length (cl_values l) + (length v + 7) div 8 \<le> length ?ws" by simp
  from copy_in_words[OF this w8] have ok: "lane_ok ?l" unfolding lane_ok_def vals .
  have "record_ok w ?l r" if "r \<in> set (cl_records ?l)" for r
  proof (cases "r \<in> set (cl_records l)")
    case True
    then have "record_ok w l r" using assms(1) by (simp add: lane_fit_def)
    then show ?thesis using len by (auto simp: record_ok_def)
  next
    case False
    then have "r = \<lparr>cr_entity = e, cr_operation = operation, cr_component = c, cr_valueStart = length (cl_values l)\<rparr>"
      using that by (auto simp: lane_record_def Let_def)
    then show ?thesis using assms(2,3) len by (auto simp: record_ok_def)
  qed
  then show ?thesis using ok by (simp add: lane_fit_def)
qed

text \<open>
  C10: What a commit does, in a world reached by a history and of a buffer whose \<open>Spawn\<close> records are of entities the world
  handed out at some time, spawned or taken back since or not, or of ones not the next of an index with none
  alive: \<open>NoEntity\<close>, older ones, and those of another world that are not by chance the next of an index of this one
  (\<open>may_spawn\<close>).  \<open>Commit\<close> makes every reservation still waiting that is recorded spawned alive and no other entity, then
  ends every one recorded despawned, whatever the lane and the order; of the world's components it then makes what the
  adds, sets and removes of live entities make in lane order and recording order, with the bytes recorded.  It
  empties the lanes, keeps the world's invariant, and answers exactly how many records it dropped: the spawns
  of entities that are no reservation still waiting, the spawns and despawns past an entity's first,
  the records of entities not alive, and what the refs lanes dropped.
\<close>

theorem commit_exact:
  assumes "w_hist startRef resetRef shrinkRef shrinkBuffer H w" and "\<forall>l \<in> set (rc_lanes rc). lane_fit w l"
    and "recs = concat (map cl_records (rc_lanes rc))" and "\<forall>e \<in> set (spawns_of recs). may_spawn H (w_entities w) e"
    and "room (add_count recs) w" and "Commit commitRefs rc w = (dropped, rc', w')"
    and "cmds = concat (map (lane_commands (sizes w)) (rc_lanes rc))"
    and "due = set (spawns_of recs) \<inter> {x. pending (w_entities w) x}"
  shows "(\<forall>x. alive (w_entities w') x \<longleftrightarrow> (alive (w_entities w) x \<or> x \<in> due) \<and> x \<notin> set (despawns_of recs))
    \<and> w_view w' = fold (spec_apply (alive (w_entities w'))) cmds
        (\<lambda>x c. if x \<in> set (despawns_of recs) then None else w_view w x c)
    \<and> world_inv w' \<and> (\<forall>l \<in> set (rc_lanes rc'). cl_records l = [] \<and> cl_values l = [])
    \<and> dropped + card due + card (set (despawns_of recs) \<inter> {x. alive (w_entities w) x \<or> x \<in> due}) =
      length (spawns_of recs) + length (despawns_of recs) + length (filter (refused (alive (w_entities w'))) cmds)
        + fst (commit_refs_lanes commitRefs (rc_refsLanes rc) (w_refs w))"
proof -
  have i: "world_inv w" and hd: "handed_ok H (w_entities w)" using w_hist_ok[OF assms(1)] by blast+
  obtain n1 w1 where p1: "fold spawn_record recs (0, w) = (n1, w1)" by fastforce
  obtain n2 w2 where p2: "fold despawn_record recs (n1, w1) = (n2, w2)" by fastforce
  obtain n3 w3 where p3: "fold apply_lane (rc_lanes rc) (n2, w2) = (n3, w3)" by fastforce
  obtain n4 ls rs where p4: "commit_refs_lanes commitRefs (rc_refsLanes rc) (w_refs w3) = (n4, ls, rs)" by (cases "commit_refs_lanes commitRefs (rc_refsLanes rc) (w_refs w3)")
  have out: "dropped = n3 + n4" "rc_lanes rc' = map empty_lane (rc_lanes rc)" "w' = w3\<lparr>w_refs := rs\<rparr>"
    using assms(6) p1 p2 p3 p4 by (auto simp: Commit_def fold_lanes assms(3)[symmetric])
  have s: "world_inv w1" "w_view w1 = w_view w" "w_stores w1 = w_stores w"
    "\<And>x. alive (w_entities w1) x \<longleftrightarrow> alive (w_entities w) x \<or> x \<in> due"
    "n1 + card due = length (spawns_of recs)"
    using spawn_pass[OF i _ p1] assms(4) may_spawn_taken[OF hd] by (auto simp: assms(8))
  have d: "world_inv w2" "same_stores w1 w2" "w_view w2 = (\<lambda>x c. if x \<in> set (despawns_of recs) then None else w_view w1 x c)"
    "\<And>x. alive (w_entities w2) x \<longleftrightarrow> alive (w_entities w1) x \<and> x \<notin> set (despawns_of recs)"
    "n2 + card (set (despawns_of recs) \<inter> {x. alive (w_entities w1) x}) = n1 + length (despawns_of recs)"
    using despawn_pass[OF s(1) p2] by blast+
  have "same_stores w w1" using s(3) by (simp add: same_stores_def the_store_def)
  then have ss: "same_stores w w2" using same_stores_trans[OF _ d(2)] by blast
  have fit: "\<forall>l \<in> set (rc_lanes rc). lane_fit w2 l" using assms(2) lane_fit_frame[OF same_sizesI(2)[OF ss]] by blast
  have r: "passed (concat (map (lane_commands (sizes w2)) (rc_lanes rc))) 0 (n2, w2) (n3, w3)"
    using lanes_pass[OF d(1) fit, of n2] room_mono[OF assms(5) ss] p3 assms(3) by simp
  then have al: "alive (w_entities w3) = alive (w_entities w2)" using same_frame_alive by (auto simp: passed_def)
  note lf = lanes_frame[OF same_sizesI(2)[OF ss] assms(2)]
  have w3: "world_inv w3" "w_view w3 = fold (spec_apply (alive (w_entities w3))) cmds (w_view w2)"
    "n3 = n2 + length (filter (refused (alive (w_entities w3))) cmds)" "w_refs w3 = w_refs w2"
    using r lf al by (simp_all add: passed_def assms(7) same_frame_def)
  have w': "w_entities w' = w_entities w3" "w_view w' = w_view w3" "world_inv w'"
    using w3(1) by (simp_all add: out(3) w_view_def fun_eq_iff the_store_def world_inv_def masks_exact_def)
  have refs: "w_refs w3 = w_refs w"
    using w3(4) spawn_pass_refs[of recs "(0, w)"] despawn_pass_refs[of recs "(n1, w1)"] p1 p2 by simp
  have "dropped + card due + card (set (despawns_of recs) \<inter> {x. alive (w_entities w) x \<or> x \<in> due}) =
      length (spawns_of recs) + length (despawns_of recs) + length (filter (refused (alive (w_entities w'))) cmds)
        + fst (commit_refs_lanes commitRefs (rc_refsLanes rc) (w_refs w))"
    using s(4,5) d(5) w3(3) p4 refs by (simp add: out(1) w'(1))
  moreover have "\<forall>l \<in> set (rc_lanes rc'). cl_records l = [] \<and> cl_values l = []" by (simp add: out(2) empty_lane_def)
  moreover have "w_view w' = fold (spec_apply (alive (w_entities w'))) cmds (\<lambda>x c. if x \<in> set (despawns_of recs) then None else w_view w x c)"
    unfolding w'(1,2) w3(2) d(3) s(2) ..
  moreover have "\<forall>x. alive (w_entities w') x \<longleftrightarrow> (alive (w_entities w) x \<or> x \<in> due) \<and> x \<notin> set (despawns_of recs)"
    using al d(4) s(4) by (simp add: w'(1))
  ultimately show ?thesis using w'(3) by blast
qed

text \<open>One producer reserves an entity, records its spawn, that of an entity it was never handed and a component of it, and the buffer is committed.\<close>

definition sample_reserved :: "(unit, unit) world" where
  "sample_reserved = snd (Reserve sample_world)"

definition sample_lane :: command_lane where
  "sample_lane = lane_record CommandAdd (makeEntity 1 1) 0 [7, 8]
     (lane_record CommandSpawn (makeEntity 1 7) 0 [] (lane_record CommandSpawn (makeEntity 1 1) 0 [] new_lane))"

definition sample_recorder :: "unit recorder" where
  "sample_recorder = \<lparr>rc_lanes = [sample_lane], rc_refsLanes = []\<rparr>"

lemma sample_reserved_facts:
  "\<exists>H. w_hist (\<lambda>r. r) (\<lambda>r. r) (\<lambda>r. r) (\<lambda>b. b) H sample_reserved \<and> makeEntity 1 1 \<in> H" "pending (w_entities sample_reserved) (makeEntity 1 1)"
  "last_of (w_entities sample_reserved) 1 = 0"
  "w_stores sample_reserved = [newStoreOf 2 (replicate 2 0)]"
proof -
  note f = sample_world_facts
  obtain e t where r: "reserve (w_entities sample_world) = (e, t)" by fastforce
  then have e: "e = makeEntity 1 1" by (auto simp: f(4) reserve_def et_init_def Let_def)
  have eq: "sample_reserved = sample_world\<lparr>w_entities := t\<rparr>" using r by (simp add: sample_reserved_def Reserve_def)
  obtain H where "w_hist (\<lambda>r. r) (\<lambda>r. r) (\<lambda>r. r) (\<lambda>b. b) H sample_world" using f(1) by (auto simp: w_reach_def)
  from hist_step[OF this ws_reserved[OF r]] show "\<exists>H. w_hist (\<lambda>r. r) (\<lambda>r. r) (\<lambda>r. r) (\<lambda>b. b) H sample_reserved \<and> makeEntity 1 1 \<in> H"
    unfolding eq using e by blast
  have "last_of t = last_of (w_entities sample_world)" by (rule reserve_keeps(3)[OF world_invD(1)[OF w_reach_inv[OF f(1)]] r])
  then show "last_of (w_entities sample_reserved) 1 = 0" by (simp add: eq f(4) last_of_def slot_of_def et_init_def zero_slot_def)
  have ne: "e \<noteq> NoEntity" unfolding e by (metis NoEntity_parts(2) entity_parts(2) zero_neq_one)
  then show "pending (w_entities sample_reserved) (makeEntity 1 1)"
    using reserve_inv(2)[OF world_invD(1)[OF w_reach_inv[OF f(1)]] r] e by (simp add: eq)
  show "w_stores sample_reserved = [newStoreOf 2 (replicate 2 0)]"
    using f(2,3) by (simp add: eq the_store_def list_eq_iff_nth_eq)
qed

lemma sample_records:
  "cl_records sample_lane =
    [\<lparr>cr_entity = makeEntity 1 1, cr_operation = CommandSpawn, cr_component = 0, cr_valueStart = 0\<rparr>,
     \<lparr>cr_entity = makeEntity 1 7, cr_operation = CommandSpawn, cr_component = 0, cr_valueStart = 0\<rparr>,
     \<lparr>cr_entity = makeEntity 1 1, cr_operation = CommandAdd, cr_component = 0, cr_valueStart = 0\<rparr>]"
  by (simp add: sample_lane_def lane_record_def new_lane_def Let_def copy_in.simps)

theorem commit_exact_witness:
  "\<exists>H dropped rc' w'. w_hist (\<lambda>r. r) (\<lambda>r. r) (\<lambda>r. r) (\<lambda>b. b) H sample_reserved
    \<and> Commit (\<lambda>l rs. (0, l, rs)) sample_recorder sample_reserved = (dropped, rc', w')
    \<and> alive (w_entities w') (makeEntity 1 1) \<and> w_view w' (makeEntity 1 1) 0 = Some [7, 8] \<and> \<not> alive (w_entities w') (makeEntity 1 7) \<and> dropped = 1"
proof -
  note f = sample_reserved_facts
  obtain H where h: "w_hist (\<lambda>r. r) (\<lambda>r. r) (\<lambda>r. r) (\<lambda>b. b) H sample_reserved" "makeEntity 1 1 \<in> H" using f(1) by blast
  have st: "the_store sample_reserved 0 = newStoreOf 2 (replicate 2 0)" by (simp add: the_store_def f(4))
  have fit: "lane_fit sample_reserved sample_lane"
    unfolding sample_lane_def
    by (intro lane_record_fit) (simp_all add: lane_fit_def lane_ok_def new_lane_def st newStoreOf_def f(4))
  obtain dropped rc' w' where c: "Commit (\<lambda>l rs. (0, l, rs)) sample_recorder sample_reserved = (dropped, rc', w')"
    by (cases "Commit (\<lambda>l rs. (0 :: nat, l :: unit, rs)) sample_recorder sample_reserved")
  have v: "record_value sample_lane \<lparr>cr_entity = makeEntity 1 1, cr_operation = CommandAdd, cr_component = 0, cr_valueStart = 0\<rparr> 2 = [7, 8]"
  proof -
    let ?l = "lane_record CommandSpawn (makeEntity 1 7) 0 [] (lane_record CommandSpawn (makeEntity 1 1) 0 [] new_lane)"
    have "lane_ok ?l" by (simp add: lane_ok_def lane_record_def new_lane_def copy_in.simps)
    from recorded_value_back[OF this refl, of CommandAdd "makeEntity 1 1" 0 "[7, 8]"] show ?thesis
      using sample_records by (simp add: sample_lane_def[symmetric] numeral_2_eq_2)
  qed
  have recs: "concat (map cl_records (rc_lanes sample_recorder)) = cl_records sample_lane" by (simp add: sample_recorder_def)
  have sps: "spawns_of (cl_records sample_lane) = [makeEntity 1 1, makeEntity 1 7]" "despawns_of (cl_records sample_lane) = []"
    by (simp_all add: sample_records spawns_of_def despawns_of_def)
  have no: "\<not> pending (w_entities sample_reserved) (makeEntity 1 7)" using f(3) by (simp add: pending_def unspawned_def)
  then have sp: "{makeEntity 1 1} = set (spawns_of (cl_records sample_lane)) \<inter> {x. pending (w_entities sample_reserved) x}"
    using f(2) by (auto simp: sps)
  have may: "\<forall>e \<in> set (spawns_of (cl_records sample_lane)). may_spawn H (w_entities sample_reserved) e"
    using h(2) f(3) by (simp add: sps may_spawn_def)
  have "room (add_count (cl_records sample_lane)) sample_reserved"
    by (simp add: room_def f(4) the_store_def newStoreOf_def add_count_def adds_def sample_records)
  note x = commit_exact[OF h(1) _ recs[symmetric] may this c refl sp]
  have ne: "makeEntity 1 7 \<noteq> makeEntity 1 1"
  proof
    assume "makeEntity 1 7 = makeEntity 1 1"
    then have "e_generation (makeEntity 1 7) = e_generation (makeEntity 1 1)" by simp
    then show False by simp
  qed
  have dead: "\<not> alive (w_entities sample_reserved) (makeEntity 1 7)" using pendingD(1)[OF f(2)] by (simp add: alive_iff)
  have e: "alive (w_entities w') (makeEntity 1 1)" "\<not> alive (w_entities w') (makeEntity 1 7)"
    "w_view w' = fold (spec_apply (alive (w_entities w'))) (lane_commands (sizes sample_reserved) sample_lane) (w_view sample_reserved)"
    "dropped + 1 = 2 + length (filter (refused (alive (w_entities w'))) (lane_commands (sizes sample_reserved) sample_lane))"
    using x fit ne dead by (simp_all add: sample_recorder_def sps)
  have sz: "sizes sample_reserved 0 = 2" by (simp add: sizes_def st newStoreOf_def)
  have cmds: "\<exists>a b. lane_commands (sizes sample_reserved) sample_lane =
      [(CommandSpawn, makeEntity 1 1, 0, a), (CommandSpawn, makeEntity 1 7, 0, b), (CommandAdd, makeEntity 1 1, 0, [7, 8])]"
    using v by (simp add: lane_commands_def sample_records command_of_def sz)
  then have "w_view w' (makeEntity 1 1) 0 = Some [7, 8]" using e(1,3) by auto
  moreover have "dropped = 1" using cmds e(1,4) by (auto simp: refused_def)
  ultimately show ?thesis using h(1) c e(1,2) by blast
qed

text \<open>
  A spawn of an entity never reserved is not always dropped: one at the next generation of a free
  index is taken, and the table then hands the same entity out.
\<close>

lemma unreserved_spawn_taken:
  fixes t :: entity_table
  defines "t \<equiv> et_init 1 5 6 0" and "e \<equiv> makeEntity 5 1"
  shows "\<not> pending t e" and "fst (spawnReserved e t)" and "alive (snd (spawnReserved e t)) e"
    and "fst (reserve (snd (spawnReserved e t))) = e"
proof -
  have slots: "it_at (et_slots t) 5 = None" by (simp add: t_def et_init_def it_at_def empty_table_def)
  have sr: "spawnReserved e t = (True, setAlive t e)" using slots by (simp add: spawnReserved_def e_def)
  have wf: "it_wf (et_slots t)" by (simp add: t_def et_init_def)
  show "\<not> pending t e" by (simp add: pending_def taken_fresh_def t_def e_def et_init_def)
  show "fst (spawnReserved e t)" by (simp add: sr)
  have "e_generation e = 1" by (simp add: e_def)
  then show "alive (snd (spawnReserved e t)) e" using setAlive_slot(1)[OF wf, of e] by (simp add: sr alive_iff)
  show "fst (reserve (snd (spawnReserved e t))) = e"
    by (simp add: sr reserve_def Let_def) (simp add: t_def e_def et_init_def)
qed

end
