(* ===== verification/Ecs_Ref_Lanes.thy ===== *)
theory Ecs_Ref_Lanes
  imports Ecs_Keyed_Refs Ecs_Commands
begin

text \<open>
  The refs of a world, registered and declared as \<open>ecs/refs.go\<close> and \<open>ecs/keyedrefs.go\<close> do it, and the
  lanes of ref records of \<open>ecs/commands.go\<close>: what producers record under a read on the refs, and what
  a sink commits.  A lane's pointer to its refs is their place among the world's.  The world's refs are of
  one type here, with the value types told apart by name; \<open>key\<close> is the values' \<open>Key\<close>.
\<close>

section \<open>Registration\<close>

record refs_options =
  ro_firstIndex :: u32
  ro_lastIndex :: u32
  ro_transient :: bool

text \<open>The refs of a world are found by the type they hold, the resource's, and by name.\<close>

definition registerRefs ::
  "'v \<Rightarrow> string \<Rightarrow> string \<Rightarrow> refs_options \<Rightarrow> (('v, 'k) refs, 'b) world option
     \<Rightarrow> refs_panic + nat \<times> (('v, 'k) refs, 'b) world" where
  "registerRefs zero t name options world =
     (case world of
        None \<Rightarrow> Inl NoWorld
      | Some w \<Rightarrow>
          if \<exists>r \<in> set (w_refs w). rr_type r = t then Inl RefsTwice
          else if \<exists>r \<in> set (w_refs w). rr_name r = name then Inl RefsNameTwice
          else let final = (if ro_lastIndex options = 0 then - 1 else ro_lastIndex options)
               in if final < ro_firstIndex options then Inl EmptyRefsRange
                  else Inr (length (w_refs w),
                    w\<lparr>w_refs := w_refs w @ [new_refs zero t name (ro_firstIndex options) final (ro_transient options)]\<rparr>))"

definition RegisterRefs ::
  "'v \<Rightarrow> string \<Rightarrow> string \<Rightarrow> refs_options \<Rightarrow> (('v, 'k) refs, 'b) world option
     \<Rightarrow> refs_panic + (('v, 'k) refs, 'b) world" where
  "RegisterRefs zero t name options world =
     (case registerRefs zero t name options world of Inl p \<Rightarrow> Inl p | Inr (_, w) \<Rightarrow> Inr w)"

definition upd_refs :: "nat \<Rightarrow> (('v, 'k) refs \<Rightarrow> ('v, 'k) refs) \<Rightarrow> (('v, 'k) refs, 'b) world \<Rightarrow> (('v, 'k) refs, 'b) world" where
  "upd_refs i f w = w\<lparr>w_refs := (w_refs w)[i := f (w_refs w ! i)]\<rparr>"

definition RegisterKeyedRefs ::
  "'v \<Rightarrow> string \<Rightarrow> string \<Rightarrow> string \<Rightarrow> refs_options \<Rightarrow> (('v, 'k) refs, 'b) world option
     \<Rightarrow> refs_panic + (('v, 'k) refs, 'b) world" where
  "RegisterKeyedRefs zero t kt name options world =
     (case registerRefs zero t name options world of
        Inl p \<Rightarrow> Inl p | Inr (i, w) \<Rightarrow> Inr (upd_refs i (\<lambda>r. r\<lparr>rr_keys := Some (kt, \<lambda>_. None)\<rparr>) w))"

text \<open>What the handles' \<open>Declare\<close> answer: where the refs of a type are.\<close>

fun index_where :: "('a \<Rightarrow> bool) \<Rightarrow> 'a list \<Rightarrow> nat option" where
  "index_where P [] = None"
| "index_where P (x # xs) = (if P x then Some 0 else map_option Suc (index_where P xs))"

definition refs_of :: "string \<Rightarrow> (('v, 'k) refs, 'b) world \<Rightarrow> refs_panic + nat" where
  "refs_of t w = (case index_where (\<lambda>r. rr_type r = t) (w_refs w) of None \<Rightarrow> Inl NoRefs | Some i \<Rightarrow> Inr i)"

definition Refs_Declare :: "string \<Rightarrow> (('v, 'k) refs, 'b) world \<Rightarrow> refs_panic + nat" where
  "Refs_Declare t w =
     (case refs_of t w of
        Inl p \<Rightarrow> Inl p | Inr i \<Rightarrow> if rr_keys (w_refs w ! i) \<noteq> None then Inl RefsAreKeyed else Inr i)"

definition KeyedRefs_Declare :: "string \<Rightarrow> string \<Rightarrow> (('v, 'k) refs, 'b) world \<Rightarrow> refs_panic + nat" where
  "KeyedRefs_Declare t kt w =
     (case refs_of t w of
        Inl p \<Rightarrow> Inl p
      | Inr i \<Rightarrow> (case keysOf kt (w_refs w ! i) of Inl p \<Rightarrow> Inl p | Inr _ \<Rightarrow> Inr i))"

definition DeltaRefs_Declare :: "string \<Rightarrow> (('v, 'k) refs, 'b) world \<Rightarrow> refs_panic + nat \<times> (('v, 'k) refs, 'b) world" where
  "DeltaRefs_Declare t w =
     (case refs_of t w of Inl p \<Rightarrow> Inl p | Inr i \<Rightarrow> Inr (i, upd_refs i observe_refs w))"

section \<open>Lanes of ref records\<close>

record refs_record =
  rrec_handle :: ref
  rrec_operation :: command_operation

record 'v refs_lane_of =
  rl_refs :: nat
  rl_records :: "refs_record list"
  rl_values :: "'v list"

record 'k keyed_refs_record =
  krec_handle :: ref
  krec_key :: 'k
  krec_operation :: command_operation

record ('v, 'k) keyed_refs_lane_of =
  kl_refs :: nat
  kl_records :: "'k keyed_refs_record list"
  kl_values :: "'v list"

datatype ('v, 'k) refs_lane = PlainLane "'v refs_lane_of" | KeyedLane "('v, 'k) keyed_refs_lane_of"

definition CommandRefs_Declare ::
  "string \<Rightarrow> (('v, 'k) refs, 'b) world \<Rightarrow> ('v, 'k) refs_lane recorder \<Rightarrow> refs_panic + nat \<times> ('v, 'k) refs_lane recorder" where
  "CommandRefs_Declare t w rc =
     (case Refs_Declare t w of
        Inl p \<Rightarrow> Inl p
      | Inr i \<Rightarrow> Inr (length (rc_refsLanes rc),
          rc\<lparr>rc_refsLanes := rc_refsLanes rc @ [PlainLane \<lparr>rl_refs = i, rl_records = [], rl_values = []\<rparr>]\<rparr>))"

definition CommandKeyedRefs_Declare ::
  "string \<Rightarrow> string \<Rightarrow> (('v, 'k) refs, 'b) world \<Rightarrow> ('v, 'k) refs_lane recorder
     \<Rightarrow> refs_panic + nat \<times> ('v, 'k) refs_lane recorder" where
  "CommandKeyedRefs_Declare t kt w rc =
     (case KeyedRefs_Declare t kt w of
        Inl p \<Rightarrow> Inl p
      | Inr i \<Rightarrow> Inr (length (rc_refsLanes rc),
          rc\<lparr>rc_refsLanes := rc_refsLanes rc @ [KeyedLane \<lparr>kl_refs = i, kl_records = [], kl_values = []\<rparr>]\<rparr>))"

definition refs_record_in :: "command_operation \<Rightarrow> ref \<Rightarrow> 'v \<Rightarrow> 'v refs_lane_of \<Rightarrow> 'v refs_lane_of" where
  "refs_record_in operation h v l =
     (let l1 = (if operation \<noteq> CommandReleaseRef then l\<lparr>rl_values := rl_values l @ [v]\<rparr> else l)
      in l1\<lparr>rl_records := rl_records l1 @ [\<lparr>rrec_handle = h, rrec_operation = operation\<rparr>]\<rparr>)"

definition CommandRefs_New :: "'v \<Rightarrow> ('v, 'k) refs \<Rightarrow> 'v refs_lane_of \<Rightarrow> ref \<times> ('v, 'k) refs \<times> 'v refs_lane_of" where
  "CommandRefs_New v r l = (case ref_reserve r of (h, r1) \<Rightarrow> (h, r1, refs_record_in CommandNewRef h v l))"

definition CommandRefs_Set :: "ref \<Rightarrow> 'v \<Rightarrow> 'v refs_lane_of \<Rightarrow> 'v refs_lane_of" where
  "CommandRefs_Set h v l = refs_record_in CommandSetRef h v l"

definition CommandRefs_Release :: "'v \<Rightarrow> ref \<Rightarrow> 'v refs_lane_of \<Rightarrow> 'v refs_lane_of" where
  "CommandRefs_Release none h l = refs_record_in CommandReleaseRef h none l"

definition keyed_record_in :: "'k keyed_refs_record \<Rightarrow> 'v \<Rightarrow> ('v, 'k) keyed_refs_lane_of \<Rightarrow> ('v, 'k) keyed_refs_lane_of" where
  "keyed_record_in rec v l =
     (let l1 = (if krec_operation rec = CommandUpdateRef then l\<lparr>kl_values := kl_values l @ [v]\<rparr> else l)
      in l1\<lparr>kl_records := kl_records l1 @ [rec]\<rparr>)"

definition CommandKeyedRefs_Update :: "'k \<Rightarrow> 'v \<Rightarrow> ('v, 'k) keyed_refs_lane_of \<Rightarrow> ('v, 'k) keyed_refs_lane_of" where
  "CommandKeyedRefs_Update noKey v l =
     keyed_record_in \<lparr>krec_handle = no_ref, krec_key = noKey, krec_operation = CommandUpdateRef\<rparr> v l"

definition CommandKeyedRefs_Release :: "'k \<Rightarrow> 'v \<Rightarrow> ref \<Rightarrow> ('v, 'k) keyed_refs_lane_of \<Rightarrow> ('v, 'k) keyed_refs_lane_of" where
  "CommandKeyedRefs_Release noKey none h l =
     keyed_record_in \<lparr>krec_handle = h, krec_key = noKey, krec_operation = CommandReleaseRef\<rparr> none l"

definition CommandKeyedRefs_ReleaseKey :: "'v \<Rightarrow> 'k \<Rightarrow> ('v, 'k) keyed_refs_lane_of \<Rightarrow> ('v, 'k) keyed_refs_lane_of" where
  "CommandKeyedRefs_ReleaseKey none k l =
     keyed_record_in \<lparr>krec_handle = no_ref, krec_key = k, krec_operation = CommandReleaseKey\<rparr> none l"

section \<open>Committing\<close>

text \<open>The loops over a lane's records, with the count dropped and the count of values stored so far.\<close>

definition count_dropped :: "bool \<Rightarrow> nat \<Rightarrow> nat" where
  "count_dropped ok dropped = (if ok then dropped else dropped + 1)"

definition commit_refs_record ::
  "'v list \<Rightarrow> refs_record \<Rightarrow> nat \<times> nat \<times> ('v, 'k) refs \<Rightarrow> nat \<times> nat \<times> ('v, 'k) refs" where
  "commit_refs_record vs rec st =
     (case st of (dropped, stored, r) \<Rightarrow>
        if rrec_operation rec = CommandReleaseRef
        then (case ref_release (rrec_handle rec) r of (ok, r1) \<Rightarrow> (count_dropped ok dropped, stored, r1))
        else let v = vs ! stored
             in if rrec_operation rec = CommandNewRef
                then if rrec_handle rec \<noteq> no_ref then (dropped, stored + 1, ref_store (rrec_handle rec) v r)
                     else (dropped + 1, stored + 1, r)
                else (case ref_slot_of r (rrec_handle rec) of
                        Some _ \<Rightarrow> (dropped, stored + 1, ref_markChanged (rrec_handle rec) (ref_poke (rrec_handle rec) v r))
                      | None \<Rightarrow> (dropped + 1, stored + 1, r)))"

definition commit_refs_of :: "'v refs_lane_of \<Rightarrow> ('v, 'k) refs \<Rightarrow> nat \<times> 'v refs_lane_of \<times> ('v, 'k) refs" where
  "commit_refs_of l r =
     (case fold (commit_refs_record (rl_values l)) (rl_records l) (0, 0, ref_settle r) of (dropped, _, r1) \<Rightarrow>
        (dropped, l\<lparr>rl_records := [], rl_values := []\<rparr>, r1))"

definition commit_keyed_record ::
  "('v \<Rightarrow> 'k) \<Rightarrow> 'v list \<Rightarrow> 'k keyed_refs_record \<Rightarrow> nat \<times> nat \<times> ('v, 'k) refs \<Rightarrow> nat \<times> nat \<times> ('v, 'k) refs" where
  "commit_keyed_record key vs rec st =
     (case st of (dropped, updated, r) \<Rightarrow>
        case krec_operation rec of
          CommandUpdateRef \<Rightarrow>
            (case updateKeyed key (vs ! updated) r of (ok, r1) \<Rightarrow> (count_dropped ok dropped, updated + 1, r1))
        | CommandReleaseRef \<Rightarrow>
            (case releaseKeyed key (krec_handle rec) r of (ok, r1) \<Rightarrow> (count_dropped ok dropped, updated, r1))
        | CommandReleaseKey \<Rightarrow>
            (case key_map r (krec_key rec) of
               None \<Rightarrow> (dropped + 1, updated, r)
             | Some h \<Rightarrow> (case releaseKeyed key h r of (ok, r1) \<Rightarrow> (count_dropped ok dropped, updated, r1)))
        | _ \<Rightarrow> (dropped + 1, updated, r))"

definition commit_keyed_of ::
  "('v \<Rightarrow> 'k) \<Rightarrow> ('v, 'k) keyed_refs_lane_of \<Rightarrow> ('v, 'k) refs \<Rightarrow> nat \<times> ('v, 'k) keyed_refs_lane_of \<times> ('v, 'k) refs" where
  "commit_keyed_of key l r =
     (case fold (commit_keyed_record key (kl_values l)) (kl_records l) (0, 0, r) of (dropped, _, r1) \<Rightarrow>
        (dropped, l\<lparr>kl_records := [], kl_values := []\<rparr>, r1))"

text \<open>A lane as the sink commits it, whatever its kind: the argument of \<open>Commit\<close>.\<close>

definition commit_lane ::
  "('v \<Rightarrow> 'k) \<Rightarrow> ('v, 'k) refs_lane \<Rightarrow> ('v, 'k) refs list \<Rightarrow> nat \<times> ('v, 'k) refs_lane \<times> ('v, 'k) refs list" where
  "commit_lane key l rs =
     (case l of
        PlainLane p \<Rightarrow> (case commit_refs_of p (rs ! rl_refs p) of (n, p1, r) \<Rightarrow> (n, PlainLane p1, rs[rl_refs p := r]))
      | KeyedLane k \<Rightarrow> (case commit_keyed_of key k (rs ! kl_refs k) of (n, k1, r) \<Rightarrow> (n, KeyedLane k1, rs[kl_refs k := r])))"

section \<open>What a commit does\<close>

text \<open>A lane as the commands its producer gave, and their effect on the map of refs, as of direct calls.\<close>

datatype 'v ref_command = RefNew ref 'v | RefSet ref 'v | RefRelease ref

fun lane_commands_of :: "refs_record list \<Rightarrow> 'v list \<Rightarrow> 'v ref_command list" where
  "lane_commands_of [] vs = []"
| "lane_commands_of (rec # recs) vs =
     (if rrec_operation rec = CommandReleaseRef then RefRelease (rrec_handle rec) # lane_commands_of recs vs
      else (if rrec_operation rec = CommandNewRef then RefNew else RefSet) (rrec_handle rec) (hd vs)
             # lane_commands_of recs (tl vs))"

fun spec_command :: "'v ref_command \<Rightarrow> nat \<times> (ref \<Rightarrow> 'v option) \<Rightarrow> nat \<times> (ref \<Rightarrow> 'v option)" where
  "spec_command (RefNew h v) (n, m) = (if h = no_ref then (n + 1, m) else (n, m(h \<mapsto> v)))"
| "spec_command (RefSet h v) (n, m) = (if m h = None then (n + 1, m) else (n, m(h \<mapsto> v)))"
| "spec_command (RefRelease h) (n, m) = (if m h = None then (n + 1, m) else (n, m(h := None)))"

definition valued :: "refs_record list \<Rightarrow> nat" where
  "valued recs = length (filter (\<lambda>rec. rrec_operation rec \<noteq> CommandReleaseRef) recs)"

definition new_handles :: "refs_record list \<Rightarrow> ref list" where
  "new_handles recs =
     filter (\<lambda>h. h \<noteq> no_ref) (map rrec_handle (filter (\<lambda>rec. rrec_operation rec = CommandNewRef) recs))"

text \<open>A lane whose new refs are reserved for it, each recorded once: as \<open>New\<close> records them.\<close>

definition refs_lane_ok :: "ref set \<Rightarrow> 'v refs_lane_of \<Rightarrow> bool" where
  "refs_lane_ok P l \<longleftrightarrow> length (rl_values l) = valued (rl_records l)
     \<and> distinct (new_handles (rl_records l)) \<and> set (new_handles (rl_records l)) \<subseteq> P"

lemma new_handles_simps [simp]:
  "new_handles [] = []" "new_handles (xs @ ys) = new_handles xs @ new_handles ys"
  "new_handles (x # xs) = (if rrec_operation x = CommandNewRef \<and> rrec_handle x \<noteq> no_ref
     then rrec_handle x # new_handles xs else new_handles xs)"
  "valued [] = 0" "valued (xs @ ys) = valued xs + valued ys"
  "valued (x # xs) = (if rrec_operation x = CommandReleaseRef then valued xs else valued xs + 1)"
  by (simp_all add: new_handles_def valued_def)

lemma recording_ok:
  "refs_lane_ok P l \<Longrightarrow> refs_lane_ok P (CommandRefs_Set h v l)"
  "refs_lane_ok P l \<Longrightarrow> refs_lane_ok P (CommandRefs_Release none h l)"
  by (simp_all add: refs_lane_ok_def CommandRefs_Set_def CommandRefs_Release_def refs_record_in_def Let_def)

lemma recording_new_ok:
  assumes "refs_reach P B C G m r" and "refs_lane_ok P l" and "CommandRefs_New v r l = (h, r', l')"
  shows "refs_reach (if h = no_ref then P else insert h P) B C G m r'" "refs_lane_ok (if h = no_ref then P else insert h P) l'"
proof -
  have rv: "ref_reserve r = (h, r')" and l': "l' = refs_record_in CommandNewRef h v l"
    using assms(3) by (auto simp: CommandRefs_New_def split: prod.splits)
  show "refs_reach (if h = no_ref then P else insert h P) B C G m r'" by (rule refs_reach.reserved[OF assms(1) rv])
  have "h \<notin> P" if "h \<noteq> no_ref" using reserved_is_free[OF refs_reach_ok[OF assms(1)] rv that] by blast
  then show "refs_lane_ok (if h = no_ref then P else insert h P) l'"
    using assms(2) by (auto simp: refs_lane_ok_def l' refs_record_in_def)
qed

text \<open>One record, on refs whose reservations are settled.\<close>

lemma reserved_fields [simp]:
  "rr_reserved (ref_store h v r) = rr_reserved r" "rr_reserved (ref_poke h v r) = rr_reserved r"
  "rr_reserved (ref_markChanged h r) = rr_reserved r" "rr_reserved (ref_free i r) = rr_reserved r"
  by (simp_all add: ref_store_def ref_poke_def ref_markChanged_def ref_free_def upd_ref_slot_def Let_def)

lemma release_reserved [simp]: "rr_reserved (snd (ref_release h r)) = rr_reserved r"
  by (auto simp: ref_release_def upd_ref_slot_def Let_def split: option.splits ref_state.splits)

lemma reach_alive: "refs_reach P B C G m r \<Longrightarrow> ref_slot_of r h = None \<longleftrightarrow> m h = None"
  using refs_reach_ok[of P B C G m r] ref_get_map[of r h] by (auto simp: refs_ok_def ref_get_def)

definition settled_reach :: "ref set \<Rightarrow> ref set \<Rightarrow> (ref \<Rightarrow> 'v option) \<Rightarrow> ('v, 'k) refs \<Rightarrow> bool" where
  "settled_reach P B m r \<longleftrightarrow> (\<exists>C G. refs_reach P B C G m r) \<and> rr_reserved r = 0"

lemma settled_alive: "settled_reach P B m r \<Longrightarrow> ref_slot_of r h = None \<longleftrightarrow> m h = None"
  using reach_alive[of P B _ _ m r h] unfolding settled_reach_def by blast

lemma settled_release:
  assumes "settled_reach P B m r" and "ref_release h r = (ok, r')"
  shows "settled_reach P B (m(h := None)) r'" "ok \<longleftrightarrow> m h \<noteq> None"
proof -
  obtain C G where r: "refs_reach P B C G m r" and z: "rr_reserved r = 0" using assms(1) by (auto simp: settled_reach_def)
  show ok: "ok \<longleftrightarrow> m h \<noteq> None"
    using assms(2) settled_alive[OF assms(1), of h] by (auto simp: ref_release_def Let_def split: option.splits)
  have z': "rr_reserved r' = 0" using release_reserved[of h r] assms(2) z by simp
  show "settled_reach P B (m(h := None)) r'"
  proof (cases ok)
    case True
    then have "refs_reach P B C (G(h := m h)) (m(h := None)) r'" using refs_reach.released[OF r z, of h r'] assms(2) by simp
    then show ?thesis using z' unfolding settled_reach_def by blast
  next
    case False
    then have "r' = r" "m(h := None) = m"
      using assms(2) ok settled_alive[OF assms(1), of h] by (auto simp: ref_release_def)
    then show ?thesis using assms(1) by simp
  qed
qed

lemma settled_store:
  assumes "settled_reach P B m r" and "h \<in> P"
  shows "settled_reach (P - {h}) B (m(h \<mapsto> v)) (ref_store h v r)"
  using assms refs_reach.stored[of P B _ _ m r h v] unfolding settled_reach_def by fastforce

lemma settled_set:
  assumes "settled_reach P B m r" and "ref_slot_of r h = Some s"
  shows "settled_reach P B (m(h \<mapsto> v)) (ref_markChanged h (ref_poke h v r))"
proof -
  have "ref_set h v r = (True, ref_markChanged h (ref_poke h v r))" using assms(2) by (simp add: ref_set_def)
  then show ?thesis
    using assms(1) refs_reach.was_set[of P B _ _ m r h v] unfolding settled_reach_def by fastforce
qed

lemma commit_record_step:
  assumes r: "settled_reach P B m r"
    and vs: "rrec_operation rec \<noteq> CommandReleaseRef \<Longrightarrow> j < length vs"
    and new: "set (new_handles [rec]) \<subseteq> P"
    and st: "commit_refs_record vs rec (d, j, r) = (d', j', r')"
    and sp: "spec_command (hd (lane_commands_of [rec] (drop j vs))) (d, m) = (e, m')"
  shows "settled_reach (P - set (new_handles [rec])) B m' r' \<and> d' = e
    \<and> j' = (if rrec_operation rec = CommandReleaseRef then j else j + 1)"
proof -
  let ?h = "rrec_handle rec"
  note al = settled_alive[OF r, of ?h]
  have hd: "hd (drop j vs) = vs ! j" if "rrec_operation rec \<noteq> CommandReleaseRef" using vs[OF that] by (simp add: hd_drop_conv_nth)
  consider (rel) "rrec_operation rec = CommandReleaseRef" | (new) "rrec_operation rec = CommandNewRef"
    | (set) "rrec_operation rec \<noteq> CommandReleaseRef" "rrec_operation rec \<noteq> CommandNewRef" by blast
  then show ?thesis
  proof cases
    case rel
    obtain ok r1 where rl: "ref_release ?h r = (ok, r1)" by fastforce
    have "m' = m(?h := None)" "e = count_dropped ok d"
      using sp rel settled_release(2)[OF r rl] by (auto simp: count_dropped_def split: if_splits)
    then show ?thesis using settled_release(1)[OF r rl] st rel rl by (auto simp: commit_refs_record_def)
  next
    case new
    then show ?thesis
      using st sp hd r settled_store[OF r, of ?h "vs ! j"] assms(3) by (auto simp: commit_refs_record_def split: if_splits)
  next
    case set
    then show ?thesis
      using st sp hd r al settled_set[OF r, of ?h _ "vs ! j"] by (auto simp: commit_refs_record_def split: if_splits option.splits)
  qed
qed

lemma commit_records:
  assumes "settled_reach P B m r" and "valued recs + j \<le> length vs"
    and "distinct (new_handles recs)" and "set (new_handles recs) \<subseteq> P"
    and "fold (commit_refs_record vs) recs (d, j, r) = (d', j', r')"
    and "fold spec_command (lane_commands_of recs (drop j vs)) (d, m) = (e, m')"
  shows "settled_reach (P - set (new_handles recs)) B m' r' \<and> d' = e"
  using assms
proof (induction recs arbitrary: P m r d j)
  case (Cons rec recs)
  obtain d1 j1 r1 where c: "commit_refs_record vs rec (d, j, r) = (d1, j1, r1)" by (cases "commit_refs_record vs rec (d, j, r)")
  obtain e1 m1 where sp: "spec_command (hd (lane_commands_of [rec] (drop j vs))) (d, m) = (e1, m1)" by fastforce
  have "settled_reach (P - set (new_handles [rec])) B m1 r1 \<and> d1 = e1
      \<and> j1 = (if rrec_operation rec = CommandReleaseRef then j else j + 1)"
    by (rule commit_record_step[OF Cons.prems(1) _ _ c sp]) (use Cons.prems(2,4) in \<open>auto split: if_splits\<close>)
  then have s: "settled_reach (P - set (new_handles [rec])) B m1 r1" "d1 = e1"
    "j1 = (if rrec_operation rec = CommandReleaseRef then j else j + 1)" by simp_all
  have cmds: "lane_commands_of (rec # recs) (drop j vs)
      = hd (lane_commands_of [rec] (drop j vs)) # lane_commands_of recs (drop j1 vs)"
    using s(3) by (simp add: drop_Suc tl_drop)
  have news: "P - set (new_handles [rec]) - set (new_handles recs) = P - set (new_handles (rec # recs))" by auto
  have "settled_reach (P - set (new_handles [rec]) - set (new_handles recs)) B m' r' \<and> d' = e"
    by (rule Cons.IH[OF s(1)]) (use Cons.prems c sp s(2,3) cmds in \<open>auto split: if_splits\<close>)
  then show ?case unfolding news .
qed simp

text \<open>
  C15: Committing a lane of ref records does to the refs what its commands would have done as direct calls, in
  the order recorded: each new ref is stored under the handle \<open>New\<close> answered and reads its value from
  then on, each set ref reads its new value, each released one nothing; what is dropped, and counted, is
  a new ref past the range and a set or a release of a ref not alive.  The lane is left empty and its
  reservations used.
\<close>

theorem ref_commit_exact:
  assumes "refs_reach P B C G m r" and "refs_lane_ok P l" and "commit_refs_of l r = (n, l', r')"
    and "fold spec_command (lane_commands_of (rl_records l) (rl_values l)) (0, m) = (e, m')"
  shows "n = e \<and> (\<forall>h. ref_get r' h = m' h)
    \<and> (\<exists>C' G'. refs_reach (P - set (new_handles (rl_records l))) B C' G' m' r') \<and> refs_lane_ok {} l' \<and> rl_records l' = []"
proof -
  obtain j where f: "fold (commit_refs_record (rl_values l)) (rl_records l) (0, 0, ref_settle r) = (n, j, r')"
    and l': "l' = l\<lparr>rl_records := [], rl_values := []\<rparr>"
    using assms(3) by (auto simp: commit_refs_of_def split: prod.splits)
  have "settled_reach P B m (ref_settle r)" using refs_reach.settled[OF assms(1)] unfolding settled_reach_def by auto
  then have s: "settled_reach (P - set (new_handles (rl_records l))) B m' r'" "n = e"
    using commit_records[OF _ _ _ _ f] assms(2,4) by (simp_all add: refs_lane_ok_def)
  then obtain C' G' where r': "refs_reach (P - set (new_handles (rl_records l))) B C' G' m' r'" by (auto simp: settled_reach_def)
  have "ref_get r' h = m' h" for h using refs_reach_ok[OF r'] by (simp add: ref_get_map refs_ok_def)
  then show ?thesis using s(2) r' l' by (auto simp: refs_lane_ok_def)
qed


text \<open>A producer makes a ref and sets it, and the sink commits: the handle reads nothing, then the value set.\<close>

definition empty_refs_lane :: "nat refs_lane_of" where
  "empty_refs_lane = \<lparr>rl_refs = 0, rl_records = [], rl_values = []\<rparr>"

definition plain_refs :: "(nat, string) refs" where
  "plain_refs = new_refs 0 ''Mesh'' ''meshes'' 1 3 False"

theorem ref_commit_exact_witness:
  "\<exists>h r l. CommandRefs_New 5 plain_refs empty_refs_lane = (h, r, l) \<and> ref_get r h = None
    \<and> (let (n, _, r') = commit_refs_of (CommandRefs_Set h 7 l) r in n = 0 \<and> ref_get r' h = Some 7)"
proof -
  have reach: "refs_reach {} {} {} (\<lambda>_. None) (\<lambda>_. None) plain_refs"
    unfolding plain_refs_def by (rule refs_reach.created) simp
  obtain h r l where new: "CommandRefs_New 5 plain_refs empty_refs_lane = (h, r, l)"
    by (cases "CommandRefs_New 5 plain_refs empty_refs_lane")
  have h: "h = \<lparr>rf_index = 1, rf_generation = 1\<rparr>" and l: "l = refs_record_in CommandNewRef h 5 empty_refs_lane"
    using new by (auto simp: CommandRefs_New_def ref_reserve_def plain_refs_def new_refs_def Let_def split: prod.splits)
  have "refs_lane_ok {} empty_refs_lane" by (simp add: refs_lane_ok_def empty_refs_lane_def)
  note n = recording_new_ok[OF reach this new]
  have no: "h \<noteq> no_ref" by (simp add: h no_ref_def)
  obtain k l' r' where c: "commit_refs_of (CommandRefs_Set h 7 l) r = (k, l', r')"
    by (cases "commit_refs_of (CommandRefs_Set h 7 l) r")
  have sp: "fold spec_command (lane_commands_of (rl_records (CommandRefs_Set h 7 l)) (rl_values (CommandRefs_Set h 7 l)))
      (0, \<lambda>_. None) = (0, [h \<mapsto> 7])"
    using no by (simp add: CommandRefs_Set_def l refs_record_in_def Let_def empty_refs_lane_def)
  have "ref_get r h = None" using refs_reach_ok[OF n(1)] by (simp add: ref_get_map refs_ok_def)
  then show ?thesis using ref_commit_exact[OF n(1) recording_ok(1)[OF n(2)] c sp] new c by auto
qed

end
