(* ===== verification/Ecs_Query.thy ===== *)
theory Ecs_Query
  imports Ecs_World_Laws
begin

text \<open>
  \<open>ecs/query.go\<close>, and the walks of \<open>ecs/query_gen.go\<close>, generated once for each number of terms up to 8 and
  the same but for it: here the terms are a list.  The terms' types are told apart by their form; a
  store is its place among the world's.  An address is the row it is of, the tag row of a filter, or nil.
  The walk yields each entity to the loop body, a function on the world, before it goes on.
\<close>

section \<open>Terms\<close>

datatype term_mode = TermRead | TermWrite | TermWith | TermWithout | TermOptionalRead | TermOptionalWrite

record query_term =
  qt_store :: nat
  qt_mode :: term_mode

text \<open>The form of a term's type: \<open>T\<close>, \<open>*T\<close>, \<open>With[T]\<close>, \<open>Without[T]\<close>, \<open>Optional[T]\<close> and \<open>Optional[*T]\<close>.\<close>

datatype term_type =
    TValue string | TPointer string | TWith string | TWithout string | TOptional string | TOptionalPointer string

fun term_component :: "term_type \<Rightarrow> string \<times> term_mode" where
  "term_component (TValue t) = (t, TermRead)"
| "term_component (TPointer t) = (t, TermWrite)"
| "term_component (TWith t) = (t, TermWith)"
| "term_component (TWithout t) = (t, TermWithout)"
| "term_component (TOptional t) = (t, TermOptionalRead)"
| "term_component (TOptionalPointer t) = (t, TermOptionalWrite)"

definition mode_drives :: "term_mode \<Rightarrow> bool" where
  "mode_drives m \<longleftrightarrow> m \<in> {TermRead, TermWrite, TermWith}"

definition mode_writes :: "term_mode \<Rightarrow> bool" where
  "mode_writes m \<longleftrightarrow> m \<in> {TermWrite, TermOptionalWrite}"

definition mode_optional :: "term_mode \<Rightarrow> bool" where
  "mode_optional m \<longleftrightarrow> m \<in> {TermOptionalRead, TermOptionalWrite}"

text \<open>Declaring a term answers it, and the lock it declares: of which store, and whether to write.\<close>

definition declareTerm :: "term_type \<Rightarrow> ('r, 'b) world \<Rightarrow> world_panic + query_term \<times> nat \<times> bool" where
  "declareTerm t w =
     (case term_component t of (component, mode) \<Rightarrow>
        case storeOf w component of
          Inl p \<Rightarrow> Inl p
        | Inr c \<Rightarrow> Inr (\<lparr>qt_store = c, qt_mode = mode\<rparr>, c, mode = TermWrite \<or> mode = TermOptionalWrite))"

fun declare_terms :: "term_type list \<Rightarrow> ('r, 'b) world \<Rightarrow> world_panic + (query_term \<times> nat \<times> bool) list" where
  "declare_terms [] w = Inr []"
| "declare_terms (t # ts) w =
     (case declareTerm t w of
        Inl p \<Rightarrow> Inl p
      | Inr q \<Rightarrow> (case declare_terms ts w of Inl p \<Rightarrow> Inl p | Inr qs \<Rightarrow> Inr (q # qs)))"

text \<open>The masks of the terms that write and of those that are optional, or a panic if none can drive.\<close>

definition declare_mode :: "nat \<times> query_term \<Rightarrow> u8 \<times> u8 \<times> bool \<Rightarrow> u8 \<times> u8 \<times> bool" where
  "declare_mode it st =
     (case it of (i, t) \<Rightarrow> case st of (writes, optionals, drives) \<Rightarrow>
        (if mode_writes (qt_mode t) then writes OR push_bit i 1 else writes,
         if mode_optional (qt_mode t) then optionals OR push_bit i 1 else optionals,
         drives \<or> mode_drives (qt_mode t)))"

definition declareQuery :: "query_term list \<Rightarrow> (u8 \<times> u8) option" where
  "declareQuery terms =
     (case fold declare_mode (enumerate 0 terms) (0, 0, False) of
        (writes, optionals, drives) \<Rightarrow> if \<not> drives then None else Some (writes, optionals))"

text \<open>A query's \<open>Declare\<close>: its terms, their locks and the two masks, or a panic.\<close>

datatype query_panic = TermPanic world_panic | NothingDrives

record query =
  qu_terms :: "query_term list"
  qu_locks :: "(nat \<times> bool) list"
  qu_writes :: u8
  qu_optionals :: u8

definition query_Declare :: "term_type list \<Rightarrow> ('r, 'b) world \<Rightarrow> query_panic + query" where
  "query_Declare types w =
     (case declare_terms types w of
        Inl p \<Rightarrow> Inl (TermPanic p)
      | Inr ts \<Rightarrow> (case declareQuery (map fst ts) of
            None \<Rightarrow> Inl NothingDrives
          | Some (writes, optionals) \<Rightarrow>
              Inr \<lparr>qu_terms = map fst ts, qu_locks = map snd ts, qu_writes = writes, qu_optionals = optionals\<rparr>))"

section \<open>The walk\<close>

datatype address = NilAddr | TagRow | RowAddr nat

record query_walk =
  qw_driving :: int
  qw_marked :: u8
  qw_addresses :: "address list"

text \<open>\<open>makeQueryWalk\<close>: the smallest store that can drive, and the terms to mark.\<close>

definition pick_term :: "('r, 'b) world \<Rightarrow> query_term list \<Rightarrow> nat \<times> query_term \<Rightarrow> query_walk \<Rightarrow> query_walk" where
  "pick_term w terms it walk =
     (case it of (i, t) \<Rightarrow>
        let s = the_store w (qt_store t);
            walk1 = (if mode_drives (qt_mode t) \<and> (qw_driving walk < 0
                        \<or> st_len s < st_len (the_store w (qt_store (terms ! nat (qw_driving walk)))))
                     then walk\<lparr>qw_driving := int i\<rparr> else walk)
        in if mode_writes (qt_mode t) \<and> st_observed s
           then walk1\<lparr>qw_marked := qw_marked walk1 OR push_bit i 1\<rparr> else walk1)"

definition makeQueryWalk :: "('r, 'b) world \<Rightarrow> query_term list \<Rightarrow> query_walk" where
  "makeQueryWalk w terms =
     fold (pick_term w terms) (enumerate 0 terms)
       \<lparr>qw_driving = -1, qw_marked = 0, qw_addresses = replicate 8 NilAddr\<rparr>"

text \<open>The first loop of \<open>matches\<close>, from term \<open>i\<close>: the rows and addresses it fills, until a term refuses.\<close>

fun match_terms ::
  "('r, 'b) world \<Rightarrow> nat \<Rightarrow> entity \<Rightarrow> nat \<Rightarrow> query_term list \<Rightarrow> nat list \<times> address list \<Rightarrow> bool \<times> nat list \<times> address list" where
  "match_terms w driving e i [] st = (True, st)"
| "match_terms w driving e i (t # ts) (rows, addrs) =
     (if i = driving then match_terms w driving e (i + 1) ts (rows, addrs)
      else case st_row (the_store w (qt_store t)) e of (row, ok) \<Rightarrow>
        if \<not> mode_optional (qt_mode t) \<and> ok = (qt_mode t = TermWithout) then (False, rows, addrs)
        else let addrs1 = addrs[i := if mode_optional (qt_mode t) then NilAddr else TagRow]
             in if ok then match_terms w driving e (i + 1) ts (rows[i := row], addrs1[i := RowAddr row])
                else match_terms w driving e (i + 1) ts (rows, addrs1))"

text \<open>The second, which marks the rows of the terms that write.\<close>

definition mark_term :: "query_term list \<Rightarrow> nat list \<Rightarrow> address list \<Rightarrow> entity \<Rightarrow> nat \<Rightarrow> ('r, 'b) world \<Rightarrow> ('r, 'b) world" where
  "mark_term terms rows addrs e i w =
     (if addrs ! i \<noteq> NilAddr
      then let c = qt_store (terms ! i) in upd_store c (markChanged (rows ! i) e (the_store w c)) w else w)"

definition query_matches ::
  "query_term list \<Rightarrow> nat \<Rightarrow> entity \<Rightarrow> query_walk \<Rightarrow> ('r, 'b) world \<Rightarrow> bool \<times> query_walk \<times> ('r, 'b) world" where
  "query_matches terms drivingRow e walk w =
     (let driving = nat (qw_driving walk)
      in case match_terms w driving e 0 terms ((replicate 8 0)[driving := drivingRow], qw_addresses walk) of
           (ok, rows, addrs) \<Rightarrow>
             (ok, walk\<lparr>qw_addresses := addrs\<rparr>,
              if ok then fold (mark_term terms rows addrs e) (bit_list (qw_marked walk)) w else w))"

text \<open>
  What a term yields: \<open>termValue\<close>, of the address in the row.  A copy is of the size of the term's type, which
  is that of the component, but none for a filter.
\<close>

datatype term_value = TvOptional address bool | TvPointer address | TvCopy bytes

definition read_address :: "bytes store \<Rightarrow> address \<Rightarrow> bytes" where
  "read_address s a = (case a of RowAddr row \<Rightarrow> value_at s row | _ \<Rightarrow> [])"

definition term_size :: "bytes store \<Rightarrow> query_term \<Rightarrow> nat" where
  "term_size s t = (if qt_mode t \<in> {TermWith, TermWithout} then 0 else st_size s)"

definition termValue :: "bytes store \<Rightarrow> nat \<Rightarrow> address \<Rightarrow> bool \<Rightarrow> bool \<Rightarrow> term_value" where
  "termValue s sz a writes optional =
     (if optional then TvOptional a writes else if writes then TvPointer a else TvCopy (take sz (read_address s a)))"

text \<open>\<open>Optional\<close>'s methods: whether there is a component, and a copy of it or its address.\<close>

definition optional_Has :: "address \<Rightarrow> bool" where
  "optional_Has a \<longleftrightarrow> a \<noteq> NilAddr"

definition optional_Get :: "bytes store \<Rightarrow> address \<Rightarrow> bool \<Rightarrow> term_value option" where
  "optional_Get s a writes = (if a = NilAddr then None else Some (termValue s (st_size s) a writes False))"

definition row_Get :: "query_term list \<Rightarrow> u8 \<Rightarrow> u8 \<Rightarrow> address list \<Rightarrow> ('r, 'b) world \<Rightarrow> term_value list" where
  "row_Get terms writes optionals addrs w =
     map (\<lambda>i. let t = terms ! i; s = the_store w (qt_store t)
              in termValue s (term_size s t) (addrs ! i) (bit writes i) (bit optionals i)) [0..<length terms]"

text \<open>
  A run of a walk: the calls of \<open>yield\<close> so far, each an entity, its row and the world it was called in; the walk;
  the world; and whether the loop body asked for more.
\<close>

type_synonym ('r, 'b) query_call = "entity \<times> address list \<times> ('r, 'b) world"

type_synonym ('r, 'b) query_body = "entity \<Rightarrow> address list \<Rightarrow> ('r, 'b) world \<Rightarrow> bool \<times> ('r, 'b) world"

type_synonym ('r, 'b) query_run = "('r, 'b) query_call list \<times> query_walk \<times> ('r, 'b) world \<times> bool"

text \<open>One row of the driving store: the entity is matched and yielded, or passed over.\<close>

definition query_row :: "query_term list \<Rightarrow> ('r, 'b) query_body \<Rightarrow> nat \<Rightarrow> ('r, 'b) query_run \<Rightarrow> ('r, 'b) query_run" where
  "query_row terms body row st =
     (case st of (calls, walk, w, going) \<Rightarrow>
        if \<not> going then st
        else let driving = nat (qw_driving walk);
                 e = st_owners (the_store w (qt_store (terms ! driving))) ! row;
                 walk1 = walk\<lparr>qw_addresses := (qw_addresses walk)[driving := RowAddr row]\<rparr>
             in case query_matches terms row e walk1 w of (ok, walk2, w1) \<Rightarrow>
                  if \<not> ok then (calls, walk2, w1, True)
                  else let addrs = take (length terms) (qw_addresses walk2)
                       in case body e addrs w1 of (go, w2) \<Rightarrow> (calls @ [(e, addrs, w1)], walk2, w2, go))"

text \<open>A chunk of the driving store, from its last live row as the chunk was fetched; and the chunks, last first.\<close>

definition query_chunk :: "query_term list \<Rightarrow> ('r, 'b) query_body \<Rightarrow> nat \<Rightarrow> ('r, 'b) query_run \<Rightarrow> ('r, 'b) query_run" where
  "query_chunk terms body c st =
     (case st of (calls, walk, w, going) \<Rightarrow>
        if \<not> going then st
        else let owners = st_chunk (the_store w (qt_store (terms ! nat (qw_driving walk)))) c
             in fold (\<lambda>r. query_row terms body (c * rowsPerChunk + r)) (rev [0..<length owners]) st)"

definition query_All ::
  "query_term list \<Rightarrow> ('r, 'b) query_body \<Rightarrow> ('r, 'b) world \<Rightarrow> ('r, 'b) query_call list \<times> ('r, 'b) world" where
  "query_All terms body w =
     (let walk = makeQueryWalk w terms;
          n = st_len (the_store w (qt_store (terms ! nat (qw_driving walk))));
          chunks = (if n = 0 then [] else rev [0..<(n - 1) div rowsPerChunk + 1])
      in case fold (query_chunk terms body) chunks ([], walk, w, True) of (calls, _, w1, _) \<Rightarrow> (calls, w1))"

text \<open>\<open>Query0\<close>: every live entity.\<close>

definition Query0_All :: "('r, 'b) world \<Rightarrow> entity list" where
  "Query0_All w = map fst (live_entities (w_entities w))"

text \<open>The locks are those the walk needs: a write for each term that writes, a read for each other.\<close>

lemma declared_locks:
  "declare_terms types w = Inr ts \<Longrightarrow>
     map snd ts = map (\<lambda>t. (qt_store t, mode_writes (qt_mode t))) (map fst ts) \<and> map (qt_mode \<circ> fst) ts = map (snd \<circ> term_component) types"
proof (induction types arbitrary: ts)
  case (Cons t types)
  then show ?case by (auto simp: declareTerm_def mode_writes_def split: sum.splits prod.splits)
qed simp

section \<open>Stores under a walk\<close>

text \<open>Removing a row leaves the rows below it where they were.\<close>

lemma st_remove_below:
  assumes "st_inv s" and "st_get s e = Some row" and "n \<le> row"
  shows "n \<le> st_live (st_remove e row s)" and "r < n \<Longrightarrow> own (st_remove e row s) r = own s r"
proof -
  have row: "row < st_live s" "own s row = e" using assms(2) st_get_iff[OF assms(1)] by auto
  show "n \<le> st_live (st_remove e row s)"
    using row(1) assms(3) by (auto simp: st_remove_def Let_def)
  show "own (st_remove e row s) r = own s r" if "r < n"
  proof (cases "st_obs s = Observed")
    have t: "transpose_row row (st_live s - 1) r = r" using that assms(3) row(1) by (auto simp: transpose_row_def)
    case True
    have "own (demote row s) r = own s r"
      using demote_rows(1)[OF assms(1) True row(1), of r] that assms(3) row(1) st_invD(3)[OF assms(1)] t by simp
    moreover have "length (st_states s) = length (st_owners s)"
      using st_invD(2)[OF assms(1)] True by (simp add: storage_ok_def)
    ultimately show ?thesis
      using st_remove_observed[OF True row(1) st_invD(3)[OF assms(1)]] by (simp add: own_def)
  next
    have t: "transpose_row row (st_live s - 1) r = r" using that assms(3) row(1) by (auto simp: transpose_row_def)
    case False
    have len: "length (st_owners s) = st_live s" using st_invD(2)[OF assms(1)] False by (simp add: storage_ok_def)
    show ?thesis
      using plain_removed_rows(1)[OF assms(1) False row(1), of r] that assms(3) row(1) st_remove_plain[OF False row(1) len row(2)] t
      by simp
  qed
qed

text \<open>What marking leaves as it was: everything but the states and the lists of changes.\<close>

definition same_rows :: "('r, 'b) world \<Rightarrow> ('r, 'b) world \<Rightarrow> bool" where
  "same_rows w w' \<longleftrightarrow>
     (\<forall>c < length (w_stores w).
        st_rows (the_store w' c) = st_rows (the_store w c) \<and> st_owners (the_store w' c) = st_owners (the_store w c)
        \<and> st_live (the_store w' c) = st_live (the_store w c) \<and> st_values (the_store w' c) = st_values (the_store w c)
        \<and> st_size (the_store w' c) = st_size (the_store w c) \<and> st_zero (the_store w' c) = st_zero (the_store w c)
        \<and> st_obs (the_store w' c) = st_obs (the_store w c))"

lemma same_rowsD:
  assumes "same_rows w w'" and "c < length (w_stores w)"
  shows "st_get (the_store w' c) = st_get (the_store w c)" and "value_at (the_store w' c) = value_at (the_store w c)"
    and "own (the_store w' c) = own (the_store w c)" and "st_live (the_store w' c) = st_live (the_store w c)"
    and "st_size (the_store w' c) = st_size (the_store w c)" and "st_obs (the_store w' c) = st_obs (the_store w c)"
    and "st_map (the_store w' c) = st_map (the_store w c)"
proof -
  let ?s = "the_store w c" and ?s' = "the_store w' c"
  have f: "st_rows ?s' = st_rows ?s" "st_owners ?s' = st_owners ?s" "st_live ?s' = st_live ?s" "st_values ?s' = st_values ?s"
    "st_size ?s' = st_size ?s" "st_zero ?s' = st_zero ?s" "st_obs ?s' = st_obs ?s"
    using assms by (simp_all add: same_rows_def)
  show "st_get ?s' = st_get ?s" "st_map ?s' = st_map ?s" by (rule same_map[OF f(1-6)])+
  show "value_at ?s' = value_at ?s" "own ?s' = own ?s" by (simp_all add: fun_eq_iff value_at_def own_def f)
  show "st_live ?s' = st_live ?s" "st_size ?s' = st_size ?s" "st_obs ?s' = st_obs ?s" by (rule f)+
qed

text \<open>A row whose writes are noted: marked, if its store is observed.\<close>

definition noted :: "'v store \<Rightarrow> nat \<Rightarrow> bool" where
  "noted s row \<longleftrightarrow> (st_obs s = Observed \<longrightarrow> st_states s ! row \<noteq> RowUnchanged)"

lemma noted_mark: "noted s row \<Longrightarrow> markChanged row e s = s"
  by (simp add: noted_def markChanged_def)

lemma mark_noted:
  "noted s q \<Longrightarrow> noted (markChanged row e s) q"
  "row < length (st_states s) \<Longrightarrow> noted (markChanged row e s) row"
  by (cases "q = row"; auto simp: noted_def markChanged_def nth_list_update)+

lemma mark_world:
  assumes "world_inv w" and "c < length (w_stores w)" and "st_get (the_store w c) e = Some row"
  defines "w' \<equiv> upd_store c (markChanged row e (the_store w c)) w"
  shows "world_inv w'" and "same_frame w w'" and "same_rows w w'" and "w_view w' = w_view w"
    and "noted (the_store w' c) row"
    and "\<And>d q. d < length (w_stores w) \<Longrightarrow> noted (the_store w d) q \<Longrightarrow> noted (the_store w' d) q"
proof -
  let ?s = "the_store w c"
  note i = world_invD[OF assms(1)]
  have row: "row < st_live ?s" "own ?s row = e" using assms(3) st_get_iff[OF heldD(1)[OF i(4)[OF assms(2)]]] by auto
  have v: "value_at (markChanged row e ?s) row = value_at ?s row" by simp
  have same: "put_value row (value_at ?s row) (markChanged row e ?s) = markChanged row e ?s"
    by (cases "st_size ?s") (simp_all add: put_value_def value_at_def)
  have sz: "length (value_at ?s row) = st_size ?s"
    using i(5)[OF assms(2)] assms(3) by (auto simp: sized_def st_map_def)
  have sw: "st_write e ?s = (Some row, markChanged row e ?s)" using assms(3) by (simp add: st_write_def)
  note p = put_existing[OF assms(1,2) sz sw, unfolded same]
  show "world_inv w'" "same_frame w w'" unfolding w'_def by (rule p(1,2))+
  show "same_rows w w'" using assms(2) by (simp add: same_rows_def w'_def)
  have "w_view w e c = Some (value_at ?s row)" using assms(2,3) by (simp add: w_view_def st_map_def)
  then show "w_view w' = w_view w" unfolding w'_def p(4) by (auto simp: fun_eq_iff)
  have "st_obs ?s = Observed \<Longrightarrow> row < length (st_states ?s)"
    using st_invD(2,3)[OF heldD(1)[OF i(4)[OF assms(2)]]] row(1) by (auto simp: storage_ok_def)
  then show "noted (the_store w' c) row"
    using assms(2) mark_noted(2)[of row ?s e] by (cases "st_obs ?s = Observed") (auto simp: w'_def noted_def)
  show "noted (the_store w' d) q" if "d < length (w_stores w)" "noted (the_store w d) q" for d q
    using that assms(2) mark_noted(1) by (auto simp: w'_def)
qed

section \<open>Picking the term that drives\<close>

definition terms_ok :: "('r, 'b) world \<Rightarrow> query_term list \<Rightarrow> bool" where
  "terms_ok w terms \<longleftrightarrow> length terms \<le> 8 \<and> (\<forall>t \<in> set terms. qt_store t < length (w_stores w))"

lemma terms_okD: "terms_ok w terms \<Longrightarrow> i < length terms \<Longrightarrow> qt_store (terms ! i) < length (w_stores w)"
  by (simp add: terms_ok_def)

abbreviation term_store :: "('r, 'b) world \<Rightarrow> query_term list \<Rightarrow> nat \<Rightarrow> bytes store" where
  "term_store w terms i \<equiv> the_store w (qt_store (terms ! i))"

definition picked :: "('r, 'b) world \<Rightarrow> query_term list \<Rightarrow> nat \<Rightarrow> query_walk \<Rightarrow> bool" where
  "picked w terms k walk \<longleftrightarrow>
     qw_addresses walk = replicate 8 NilAddr
     \<and> (\<forall>i. bit (qw_marked walk) i \<longleftrightarrow> i < k \<and> mode_writes (qt_mode (terms ! i)) \<and> st_observed (term_store w terms i))
     \<and> (if \<exists>i < k. mode_drives (qt_mode (terms ! i))
        then \<exists>i < k. qw_driving walk = int i \<and> mode_drives (qt_mode (terms ! i))
          \<and> (\<forall>j < k. mode_drives (qt_mode (terms ! j)) \<longrightarrow> st_len (term_store w terms i) \<le> st_len (term_store w terms j))
        else qw_driving walk = -1)"

lemma u8_bit: "k < 8 \<Longrightarrow> bit (push_bit k 1 :: u8) i \<longleftrightarrow> i = k"
  by (auto simp: bit_simps)

lemma pick_step:
  assumes "picked w terms k walk" and "k < length terms" and "length terms \<le> 8"
  shows "picked w terms (Suc k) (pick_term w terms (k, terms ! k) walk)"
proof -
  let ?walk = "pick_term w terms (k, terms ! k) walk" and ?len = "\<lambda>i. st_len (term_store w terms i)"
  let ?drives = "\<lambda>i. mode_drives (qt_mode (terms ! i))"
  have k8: "k < 8" using assms(2,3) by simp
  have a: "qw_addresses ?walk = replicate 8 NilAddr"
    using assms(1) by (simp add: picked_def pick_term_def Let_def)
  have b: "bit (qw_marked ?walk) i \<longleftrightarrow> i < Suc k \<and> mode_writes (qt_mode (terms ! i)) \<and> st_observed (term_store w terms i)" for i
    using assms(1) u8_bit[OF k8, of i] by (auto simp: picked_def pick_term_def Let_def bit_or_iff less_Suc_eq)
  have d: "qw_driving ?walk = (if ?drives k \<and> (qw_driving walk < 0 \<or> ?len k < ?len (nat (qw_driving walk))) then int k else qw_driving walk)"
    by (auto simp: pick_term_def Let_def)
  have "if \<exists>i < Suc k. ?drives i then \<exists>i < Suc k. qw_driving ?walk = int i \<and> ?drives i \<and> (\<forall>j < Suc k. ?drives j \<longrightarrow> ?len i \<le> ?len j)
      else qw_driving ?walk = -1"
  proof (cases "\<exists>i < k. ?drives i")
    case True
    then obtain i where i: "i < k" "qw_driving walk = int i" "?drives i" "\<forall>j < k. ?drives j \<longrightarrow> ?len i \<le> ?len j"
      using assms(1) by (auto simp: picked_def)
    have "\<exists>i < Suc k. qw_driving ?walk = int i \<and> ?drives i \<and> (\<forall>j < Suc k. ?drives j \<longrightarrow> ?len i \<le> ?len j)"
    proof (cases "?drives k \<and> ?len k < ?len i")
      case c: True
      then show ?thesis using i d by (intro exI[of _ k]) (auto simp: less_Suc_eq)
    next
      case c: False
      then show ?thesis using i d by (intro exI[of _ i]) (auto simp: less_Suc_eq)
    qed
    then show ?thesis using True less_SucI by auto
  next
    case False
    then have "qw_driving walk = -1" using assms(1) by (simp add: picked_def)
    then show ?thesis using False d by (auto simp: less_Suc_eq)
  qed
  then show ?thesis using a b by (simp add: picked_def)
qed

lemma makeQueryWalk_picked:
  assumes "length terms \<le> 8"
  shows "picked w terms (length terms) (makeQueryWalk w terms)"
proof -
  have "picked w terms k (fold (pick_term w terms) (enumerate 0 (take k terms))
      \<lparr>qw_driving = -1, qw_marked = 0, qw_addresses = replicate 8 NilAddr\<rparr>)" if "k \<le> length terms" for k
    using that
  proof (induction k)
    case (Suc k)
    then have "enumerate 0 (take (Suc k) terms) = enumerate 0 (take k terms) @ [(k, terms ! k)]"
      by (simp add: take_Suc_conv_app_nth enumerate_append_eq)
    moreover have "k < length terms" using Suc.prems by simp
    ultimately show ?case using pick_step[OF Suc.IH _ assms] by simp
  qed (simp add: picked_def)
  from this[of "length terms"] show ?thesis by (simp add: makeQueryWalk_def)
qed

lemma declare_modes:
  assumes "k \<le> length terms" and "length terms \<le> 8"
    and "fold declare_mode (enumerate 0 (take k terms)) (0, 0, False) = (writes, optionals, drives)"
  shows "bit writes i \<longleftrightarrow> i < k \<and> mode_writes (qt_mode (terms ! i))"
    and "bit optionals i \<longleftrightarrow> i < k \<and> mode_optional (qt_mode (terms ! i))"
    and "drives \<longleftrightarrow> (\<exists>i < k. mode_drives (qt_mode (terms ! i)))"
proof -
  have "(\<forall>i. (bit writes i \<longleftrightarrow> i < k \<and> mode_writes (qt_mode (terms ! i)))
        \<and> (bit optionals i \<longleftrightarrow> i < k \<and> mode_optional (qt_mode (terms ! i))))
      \<and> (drives \<longleftrightarrow> (\<exists>i < k. mode_drives (qt_mode (terms ! i))))"
    using assms(1,3)
  proof (induction k arbitrary: writes optionals drives)
    case (Suc k)
    have e: "enumerate 0 (take (Suc k) terms) = enumerate 0 (take k terms) @ [(k, terms ! k)]"
      using Suc.prems(1) by (simp add: take_Suc_conv_app_nth enumerate_append_eq)
    obtain a b c where f: "fold declare_mode (enumerate 0 (take k terms)) (0, 0, False) = (a, b, c)" by (metis prod.exhaust)
    have ih: "bit a i \<longleftrightarrow> i < k \<and> mode_writes (qt_mode (terms ! i))" "bit b i \<longleftrightarrow> i < k \<and> mode_optional (qt_mode (terms ! i))"
      "c \<longleftrightarrow> (\<exists>i < k. mode_drives (qt_mode (terms ! i)))" for i
      using Suc.IH[OF _ f] Suc.prems(1) by simp_all
    have eqs: "writes = (if mode_writes (qt_mode (terms ! k)) then a OR push_bit k 1 else a)"
      "optionals = (if mode_optional (qt_mode (terms ! k)) then b OR push_bit k 1 else b)"
      "drives \<longleftrightarrow> c \<or> mode_drives (qt_mode (terms ! k))"
    proof -
      have "declare_mode (k, terms ! k) (a, b, c) = (writes, optionals, drives)" using Suc.prems(2) e f by simp
      then show "writes = (if mode_writes (qt_mode (terms ! k)) then a OR push_bit k 1 else a)"
        "optionals = (if mode_optional (qt_mode (terms ! k)) then b OR push_bit k 1 else b)"
        "drives \<longleftrightarrow> c \<or> mode_drives (qt_mode (terms ! k))"
        by (auto simp: declare_mode_def)
    qed
    have "k < 8" using Suc.prems(1) assms(2) by simp
    note bit_k = u8_bit[OF this]
    have "bit writes i \<longleftrightarrow> bit a i \<or> mode_writes (qt_mode (terms ! k)) \<and> i = k"
      "bit optionals i \<longleftrightarrow> bit b i \<or> mode_optional (qt_mode (terms ! k)) \<and> i = k" for i
      using bit_k[of i] by (auto simp: eqs(1,2) bit_or_iff)
    then show ?case using ih eqs(3) by (auto simp: less_Suc_eq)
  qed simp
  then show "bit writes i \<longleftrightarrow> i < k \<and> mode_writes (qt_mode (terms ! i))"
    and "bit optionals i \<longleftrightarrow> i < k \<and> mode_optional (qt_mode (terms ! i))"
    and "drives \<longleftrightarrow> (\<exists>i < k. mode_drives (qt_mode (terms ! i)))" by blast+
qed

lemma declareQuery_spec:
  assumes "length terms \<le> 8"
  shows "declareQuery terms = None \<longleftrightarrow> (\<forall>t \<in> set terms. \<not> mode_drives (qt_mode t))"
    and "declareQuery terms = Some (writes, optionals) \<Longrightarrow> i < length terms \<Longrightarrow>
      bit writes i = mode_writes (qt_mode (terms ! i)) \<and> bit optionals i = mode_optional (qt_mode (terms ! i))"
proof -
  obtain a b c where f: "fold declare_mode (enumerate 0 terms) (0, 0, False) = (a, b, c)" by (metis prod.exhaust)
  then have f': "fold declare_mode (enumerate 0 (take (length terms) terms)) (0, 0, False) = (a, b, c)" by simp
  note m = declare_modes[OF order_refl assms f']
  show "declareQuery terms = None \<longleftrightarrow> (\<forall>t \<in> set terms. \<not> mode_drives (qt_mode t))"
    using m(3) f by (auto simp: declareQuery_def all_set_conv_all_nth)
  show "bit writes i = mode_writes (qt_mode (terms ! i)) \<and> bit optionals i = mode_optional (qt_mode (terms ! i))"
    if "declareQuery terms = Some (writes, optionals)" "i < length terms"
    using that m(1,2)[of i] f by (auto simp: declareQuery_def split: if_splits)
qed

section \<open>Matching an entity\<close>

definition term_accepts :: "query_term \<Rightarrow> bytes option \<Rightarrow> bool" where
  "term_accepts t v \<longleftrightarrow> mode_optional (qt_mode t) \<or> (v = None) = (qt_mode t = TermWithout)"

definition query_accepts :: "('r, 'b) world \<Rightarrow> query_term list \<Rightarrow> entity \<Rightarrow> bool" where
  "query_accepts w terms e \<longleftrightarrow> (\<forall>t \<in> set terms. term_accepts t (w_view w e (qt_store t)))"

definition term_addr :: "('r, 'b) world \<Rightarrow> entity \<Rightarrow> query_term \<Rightarrow> address" where
  "term_addr w e t =
     (case st_get (the_store w (qt_store t)) e of Some r \<Rightarrow> RowAddr r | None \<Rightarrow> if mode_optional (qt_mode t) then NilAddr else TagRow)"

text \<open>One term: refused, or its row and address filled in.\<close>

lemma match_terms_step:
  assumes "qt_store t < length (w_stores w)" and "i < length addrs" and "i \<noteq> driving"
  shows "match_terms w driving e i (t # ts) (rows, addrs) =
    (if term_accepts t (w_view w e (qt_store t))
     then match_terms w driving e (Suc i) ts
       (case st_get (the_store w (qt_store t)) e of Some r \<Rightarrow> rows[i := r] | None \<Rightarrow> rows, addrs[i := term_addr w e t])
     else (False, rows, addrs))"
proof -
  let ?s = "the_store w (qt_store t)"
  obtain row found where row: "st_row ?s e = (row, found)" by fastforce
  show ?thesis
  proof (cases "st_get ?s e")
    case None
    then have "found = False" "w_view w e (qt_store t) = None"
      using row st_row_none[of ?s e] assms(1) by (simp_all add: w_view_def st_map_def)
    then show ?thesis using None row assms(2,3) by (auto simp: term_accepts_def term_addr_def Let_def)
  next
    case (Some r)
    then have "found = True" "row = r" "w_view w e (qt_store t) \<noteq> None"
      using row st_row_get[of ?s e r] assms(1) by (simp_all add: w_view_def st_map_def)
    then show ?thesis using Some row assms(2,3) by (auto simp: term_accepts_def term_addr_def Let_def)
  qed
qed

lemma match_terms_frame:
  assumes "match_terms w driving e i ts (rows, addrs) = (ok, rows', addrs')" and "i + length ts \<le> length addrs"
    and "\<forall>t \<in> set ts. qt_store t < length (w_stores w)"
  shows "length rows' = length rows \<and> length addrs' = length addrs
    \<and> (\<forall>j. j < i \<or> j = driving \<longrightarrow> rows' ! j = rows ! j \<and> addrs' ! j = addrs ! j)
    \<and> (ok \<longleftrightarrow> (\<forall>j < length ts. i + j \<noteq> driving \<longrightarrow> term_accepts (ts ! j) (w_view w e (qt_store (ts ! j)))))"
  using assms
proof (induction ts arbitrary: i rows addrs)
  case (Cons t ts)
  have all: "(\<forall>j < length (t # ts). i + j \<noteq> driving \<longrightarrow> term_accepts ((t # ts) ! j) (w_view w e (qt_store ((t # ts) ! j)))) \<longleftrightarrow>
      (i \<noteq> driving \<longrightarrow> term_accepts t (w_view w e (qt_store t)))
      \<and> (\<forall>j < length ts. Suc i + j \<noteq> driving \<longrightarrow> term_accepts (ts ! j) (w_view w e (qt_store (ts ! j))))"
    by (auto simp: less_Suc_eq_0_disj)
  have rest: "\<forall>t \<in> set ts. qt_store t < length (w_stores w)" "qt_store t < length (w_stores w)" "i < length addrs"
    using Cons.prems by simp_all
  consider (drv) "i = driving" | (no) "i \<noteq> driving" "\<not> term_accepts t (w_view w e (qt_store t))"
    | (yes) "i \<noteq> driving" "term_accepts t (w_view w e (qt_store t))" by blast
  then show ?case
  proof cases
    case drv
    then have "match_terms w driving e (Suc i) ts (rows, addrs) = (ok, rows', addrs')" using Cons.prems(1) by simp
    from Cons.IH[OF this] show ?thesis unfolding all using drv rest(1) Cons.prems(2) by simp
  next
    case no
    then have "ok = False" "rows' = rows" "addrs' = addrs"
      using Cons.prems(1) match_terms_step[OF rest(2,3) no(1)] by auto
    then show ?thesis unfolding all using no by simp
  next
    case yes
    let ?rows = "case st_get (the_store w (qt_store t)) e of Some r \<Rightarrow> rows[i := r] | None \<Rightarrow> rows"
    have "match_terms w driving e (Suc i) ts (?rows, addrs[i := term_addr w e t]) = (ok, rows', addrs')"
      using Cons.prems(1) yes match_terms_step[OF rest(2,3) yes(1)] by simp
    from Cons.IH[OF this] have ih: "length rows' = length ?rows" "length addrs' = length addrs"
      "\<forall>j. j < Suc i \<or> j = driving \<longrightarrow> rows' ! j = ?rows ! j \<and> addrs' ! j = addrs[i := term_addr w e t] ! j"
      "ok \<longleftrightarrow> (\<forall>j < length ts. Suc i + j \<noteq> driving \<longrightarrow> term_accepts (ts ! j) (w_view w e (qt_store (ts ! j))))"
      using rest(1) Cons.prems(2) by simp_all
    moreover have "?rows ! j = rows ! j \<and> addrs[i := term_addr w e t] ! j = addrs ! j" if "j < i \<or> j = driving" for j
      using that yes(1) by (auto split: option.splits)
    ultimately show ?thesis unfolding all using yes by (auto split: option.splits)
  qed
qed simp

lemma match_terms_fills:
  assumes "match_terms w driving e i ts (rows, addrs) = (True, rows', addrs')" and "i + length ts \<le> length addrs"
    and "length rows = length addrs" and "\<forall>t \<in> set ts. qt_store t < length (w_stores w)" and "j < length ts" and "i + j \<noteq> driving"
  shows "addrs' ! (i + j) = term_addr w e (ts ! j)"
    and "st_get (the_store w (qt_store (ts ! j))) e = Some r \<Longrightarrow> rows' ! (i + j) = r"
proof -
  have "addrs' ! (i + j) = term_addr w e (ts ! j) \<and> (st_get (the_store w (qt_store (ts ! j))) e = Some r \<longrightarrow> rows' ! (i + j) = r)"
    using assms
  proof (induction ts arbitrary: i j rows addrs)
    case (Cons t ts)
    have rest: "\<forall>t \<in> set ts. qt_store t < length (w_stores w)" "qt_store t < length (w_stores w)" "i < length addrs"
      using Cons.prems by simp_all
    show ?case
    proof (cases "i = driving")
      case True
      then have "match_terms w driving e (Suc i) ts (rows, addrs) = (True, rows', addrs')" using Cons.prems(1) by simp
      from Cons.IH[OF this, of "j - 1"] show ?thesis using True rest(1) Cons.prems(2-6) by (cases j) simp_all
    next
      case False
      let ?rows = "case st_get (the_store w (qt_store t)) e of Some r \<Rightarrow> rows[i := r] | None \<Rightarrow> rows"
      have m: "match_terms w driving e (Suc i) ts (?rows, addrs[i := term_addr w e t]) = (True, rows', addrs')"
        using Cons.prems(1) match_terms_step[OF rest(2,3) False] by (simp split: if_splits)
      have len: "length ?rows = length addrs" using Cons.prems(3) by (simp split: option.splits)
      show ?thesis
      proof (cases j)
        case 0
        have "rows' ! i = ?rows ! i \<and> addrs' ! i = addrs[i := term_addr w e t] ! i"
          using match_terms_frame[OF m] rest(1) Cons.prems(2) by simp
        then show ?thesis using 0 rest(3) Cons.prems(3) by simp
      next
        case (Suc k)
        then show ?thesis using Cons.IH[OF m, of k] rest(1) Cons.prems(2,5,6) len by simp
      qed
    qed
  qed simp
  then show "addrs' ! (i + j) = term_addr w e (ts ! j)"
    and "st_get (the_store w (qt_store (ts ! j))) e = Some r \<Longrightarrow> rows' ! (i + j) = r" by blast+
qed

text \<open>The marking of the rows that are written.\<close>

lemma mark_terms:
  assumes "world_inv w" and "\<forall>i \<in> set js. qt_store (terms ! i) < length (w_stores w)
      \<and> (addrs ! i \<noteq> NilAddr \<longrightarrow> st_get (term_store w terms i) e = Some (rows ! i))"
  defines "w' \<equiv> fold (mark_term terms rows addrs e) js w"
  shows "world_inv w' \<and> same_frame w w' \<and> same_rows w w' \<and> w_view w' = w_view w
    \<and> (\<forall>c < length (w_stores w). \<forall>q. noted (the_store w c) q \<longrightarrow> noted (the_store w' c) q)
    \<and> (\<forall>i \<in> set js. addrs ! i \<noteq> NilAddr \<longrightarrow> noted (term_store w' terms i) (rows ! i))"
  using assms(1,2) unfolding w'_def
proof (induction js arbitrary: w)
  case Nil
  show ?case using Nil by (simp add: same_rows_def)
next
  case (Cons i js)
  let ?c = "qt_store (terms ! i)" and ?w = "mark_term terms rows addrs e i w"
  let ?w' = "fold (mark_term terms rows addrs e) js ?w"
  have c: "?c < length (w_stores w)" using Cons.prems(2) by simp
  have one: "world_inv ?w" "same_frame w ?w" "same_rows w ?w" "w_view ?w = w_view w"
    "\<And>d q. d < length (w_stores w) \<Longrightarrow> noted (the_store w d) q \<Longrightarrow> noted (the_store ?w d) q"
    "addrs ! i \<noteq> NilAddr \<Longrightarrow> noted (the_store ?w ?c) (rows ! i)"
  proof -
    have "world_inv ?w \<and> same_frame w ?w \<and> same_rows w ?w \<and> w_view ?w = w_view w
      \<and> (\<forall>d q. d < length (w_stores w) \<longrightarrow> noted (the_store w d) q \<longrightarrow> noted (the_store ?w d) q)
      \<and> (addrs ! i \<noteq> NilAddr \<longrightarrow> noted (the_store ?w ?c) (rows ! i))"
    proof (cases "addrs ! i = NilAddr")
      case True
      then show ?thesis using Cons.prems(1) by (simp add: mark_term_def same_rows_def)
    next
      case False
      then have "st_get (the_store w ?c) e = Some (rows ! i)" using Cons.prems(2) by simp
      from mark_world[OF Cons.prems(1) c this] show ?thesis using False by (simp add: mark_term_def Let_def)
    qed
    then show "world_inv ?w" "same_frame w ?w" "same_rows w ?w" "w_view ?w = w_view w"
      "\<And>d q. d < length (w_stores w) \<Longrightarrow> noted (the_store w d) q \<Longrightarrow> noted (the_store ?w d) q"
      "addrs ! i \<noteq> NilAddr \<Longrightarrow> noted (the_store ?w ?c) (rows ! i)" by blast+
  qed
  have len: "length (w_stores ?w) = length (w_stores w)" using one(2) by (simp add: same_frame_def)
  have pre: "\<forall>i \<in> set js. qt_store (terms ! i) < length (w_stores ?w)
      \<and> (addrs ! i \<noteq> NilAddr \<longrightarrow> st_get (term_store ?w terms i) e = Some (rows ! i))"
    using Cons.prems(2) same_rowsD(1)[OF one(3)] len by simp
  note ih = Cons.IH[OF one(1) pre]
  have "same_frame w ?w'" using same_frame_trans[OF one(2)] ih by blast
  moreover have "same_rows w ?w'" using one(3) ih len by (simp add: same_rows_def)
  moreover have "noted (the_store ?w' d) q" if "d < length (w_stores w)" "noted (the_store w d) q" for d q
    using ih one(5)[OF that] that(1) len by simp
  moreover have "noted (term_store ?w' terms i) (rows ! i)" if "addrs ! i \<noteq> NilAddr"
    using ih one(6)[OF that] c len by simp
  ultimately show ?case using ih one(4) by simp
qed

text \<open>What \<open>matches\<close> answers, and what it does to the walk and the world.\<close>

definition walking :: "('r, 'b) world \<Rightarrow> query_term list \<Rightarrow> nat \<Rightarrow> query_walk \<Rightarrow> bool" where
  "walking w terms i walk \<longleftrightarrow>
     qw_driving walk = int i \<and> i < length terms \<and> mode_drives (qt_mode (terms ! i)) \<and> length (qw_addresses walk) = 8
     \<and> (\<forall>j. bit (qw_marked walk) j \<longleftrightarrow> j < length terms \<and> mode_writes (qt_mode (terms ! j)) \<and> st_observed (term_store w terms j))"

lemma walkingD:
  assumes "walking w terms i walk"
  shows "nat (qw_driving walk) = i" and "i < length terms" and "qt_mode (terms ! i) \<noteq> TermWithout"
    and "length (qw_addresses walk) = 8"
    and "bit (qw_marked walk) j \<longleftrightarrow> j < length terms \<and> mode_writes (qt_mode (terms ! j)) \<and> st_observed (term_store w terms j)"
proof -
  have "qw_driving walk = int i" "mode_drives (qt_mode (terms ! i))" using assms unfolding walking_def by blast+
  then show "nat (qw_driving walk) = i" "qt_mode (terms ! i) \<noteq> TermWithout" by (auto simp: mode_drives_def)
  show "i < length terms" "length (qw_addresses walk) = 8"
    "bit (qw_marked walk) j \<longleftrightarrow> j < length terms \<and> mode_writes (qt_mode (terms ! j)) \<and> st_observed (term_store w terms j)"
    using assms unfolding walking_def by blast+
qed

lemma walking_cong:
  "walking w terms i walk \<Longrightarrow> length addrs = 8 \<Longrightarrow> walking w terms i (walk\<lparr>qw_addresses := addrs\<rparr>)"
  by (simp add: walking_def)

text \<open>A row handed out: each address reads what the entity has, and each row that may be written is noted.\<close>

definition addr_read :: "bytes store \<Rightarrow> address \<Rightarrow> bytes option" where
  "addr_read s a = (case a of RowAddr row \<Rightarrow> Some (value_at s row) | _ \<Rightarrow> None)"

definition row_ok :: "('r, 'b) world \<Rightarrow> query_term list \<Rightarrow> entity \<Rightarrow> address list \<Rightarrow> bool" where
  "row_ok w terms e addrs \<longleftrightarrow>
     addrs = map (term_addr w e) terms
     \<and> (\<forall>t \<in> set terms. \<forall>r. mode_writes (qt_mode t) \<and> term_addr w e t = RowAddr r \<longrightarrow> noted (the_store w (qt_store t)) r)"

lemma written_row:
  assumes "term_accepts t (w_view w e (qt_store t))" and "mode_writes (qt_mode t)" and "term_addr w e t \<noteq> NilAddr"
    and "qt_store t < length (w_stores w)"
  obtains r where "st_get (the_store w (qt_store t)) e = Some r" and "term_addr w e t = RowAddr r"
  using assms by (cases "st_get (the_store w (qt_store t)) e")
    (auto simp: term_addr_def term_accepts_def mode_writes_def mode_optional_def w_view_def st_map_def split: if_splits)

lemma same_rows_addr:
  "same_rows w w' \<Longrightarrow> qt_store t < length (w_stores w) \<Longrightarrow> term_addr w' e t = term_addr w e t"
  using same_rowsD(1)[of w w' "qt_store t"] by (simp add: term_addr_def)

lemma matches_spec:
  assumes "world_inv w" and "terms_ok w terms" and "walking w terms i walk" and "qw_addresses walk ! i = RowAddr n"
    and "st_get (term_store w terms i) e = Some n" and "query_matches terms n e walk w = (ok, walk', w')"
  shows "ok \<longleftrightarrow> query_accepts w terms e" and "walking w terms i walk'" and "\<not> ok \<Longrightarrow> w' = w"
    and "world_inv w' \<and> same_frame w w' \<and> same_rows w w' \<and> w_view w' = w_view w"
    and "ok \<Longrightarrow> row_ok w' terms e (take (length terms) (qw_addresses walk'))"
proof -
  note t = assms(2)[unfolded terms_ok_def] and wk = walkingD[OF assms(3)]
  let ?rows = "(replicate 8 0)[i := n]"
  obtain rows addrs where m: "match_terms w i e 0 terms (?rows, qw_addresses walk) = (ok, rows, addrs)"
    and w': "w' = (if ok then fold (mark_term terms rows addrs e) (bit_list (qw_marked walk)) w else w)"
    and walk': "walk' = walk\<lparr>qw_addresses := addrs\<rparr>"
    using assms(6) wk(1) by (auto simp: query_matches_def Let_def split: prod.splits)
  have len: "0 + length terms \<le> length (qw_addresses walk)" "length ?rows = length (qw_addresses walk)" using t wk(4) by simp_all
  note frame = match_terms_frame[OF m len(1) conjunct2[OF t]]
  have sti: "qt_store (terms ! i) < length (w_stores w)" by (rule terms_okD[OF assms(2) wk(2)])
  have acci: "term_accepts (terms ! i) (w_view w e (qt_store (terms ! i)))"
  proof -
    have "w_view w e (qt_store (terms ! i)) \<noteq> None" using assms(5) sti by (simp add: w_view_def st_map_def)
    then show ?thesis using wk(3) by (simp add: term_accepts_def)
  qed
  have "ok \<longleftrightarrow> (\<forall>j < length terms. term_accepts (terms ! j) (w_view w e (qt_store (terms ! j))))"
    using frame acci by auto
  then show okq: "ok \<longleftrightarrow> query_accepts w terms e" by (simp add: query_accepts_def all_set_conv_all_nth)
  show "walking w terms i walk'" using walking_cong[OF assms(3), of addrs] frame wk(4) walk' by simp
  show "w' = w" if "\<not> ok" using that w' by simp
  have n8: "i < 8" using wk(2) t by simp
  have fills: "addrs ! j = term_addr w e (terms ! j)" "st_get (term_store w terms j) e = Some r \<Longrightarrow> rows ! j = r"
    if "ok" "j < length terms" for j r
  proof -
    have mT: "match_terms w i e 0 terms (?rows, qw_addresses walk) = (True, rows, addrs)" using m that(1) by simp
    have at: "rows ! i = n" "addrs ! i = RowAddr n" using frame assms(4) n8 by simp_all
    show "addrs ! j = term_addr w e (terms ! j)"
    proof (cases "j = i")
      case True
      then show ?thesis using at assms(5) by (simp add: term_addr_def)
    next
      case False
      then show ?thesis using match_terms_fills(1)[OF mT len(1,2) conjunct2[OF t] that(2)] by simp
    qed
    show "rows ! j = r" if r: "st_get (term_store w terms j) e = Some r"
    proof (cases "j = i")
      case True
      then show ?thesis using at assms(5) r by simp
    next
      case False
      then show ?thesis
        using match_terms_fills(2)[OF mT len(1,2) conjunct2[OF t] \<open>j < length terms\<close> _ r] by simp
    qed
  qed
  have acc: "term_accepts (terms ! j) (w_view w e (qt_store (terms ! j)))" if "ok" "j < length terms" for j
    using okq that by (simp add: query_accepts_def)
  have pre: "\<forall>j \<in> set (bit_list (qw_marked walk)). qt_store (terms ! j) < length (w_stores w)
      \<and> (addrs ! j \<noteq> NilAddr \<longrightarrow> st_get (term_store w terms j) e = Some (rows ! j))" if ok: "ok"
  proof
    fix j assume "j \<in> set (bit_list (qw_marked walk))"
    then have j: "j < length terms" "mode_writes (qt_mode (terms ! j))" using wk(5) by simp_all
    note c = terms_okD[OF assms(2) j(1)]
    have "st_get (term_store w terms j) e = Some (rows ! j)" if "addrs ! j \<noteq> NilAddr"
      by (rule written_row[OF acc[OF ok j(1)] j(2) _ c]) (use that fills[OF ok j(1)] in auto)
    then show "qt_store (terms ! j) < length (w_stores w)
        \<and> (addrs ! j \<noteq> NilAddr \<longrightarrow> st_get (term_store w terms j) e = Some (rows ! j))" using c by blast
  qed
  show eff: "world_inv w' \<and> same_frame w w' \<and> same_rows w w' \<and> w_view w' = w_view w"
    using mark_terms[OF assms(1) pre] w' assms(1) by (auto simp: same_rows_def)
  show "row_ok w' terms e (take (length terms) (qw_addresses walk'))" if ok: "ok"
  proof -
    have addr: "term_addr w' e (terms ! j) = addrs ! j" if "j < length terms" for j
      using same_rows_addr[of w w'] eff terms_okD[OF assms(2) that] fills(1)[OF ok that] by simp
    have "noted (term_store w' terms j) r"
      if j: "j < length terms" "mode_writes (qt_mode (terms ! j))" "term_addr w' e (terms ! j) = RowAddr r" for j r
    proof (cases "st_observed (term_store w terms j)")
      case True
      then have "j \<in> set (bit_list (qw_marked walk))" using wk(5) j(1,2) by simp
      moreover have "rows ! j = r"
        using fills[OF ok j(1)] addr[OF j(1)] j(3) by (auto simp: term_addr_def split: option.splits if_splits)
      ultimately show ?thesis using mark_terms[OF assms(1) pre[OF ok]] w' ok addr[OF j(1)] j(3) by auto
    next
      case False
      then show ?thesis
        using same_rowsD(6)[of w w'] eff terms_okD[OF assms(2) j(1)] by (simp add: noted_def st_observed_def)
    qed
    moreover have "take (length terms) (qw_addresses walk') = map (term_addr w' e) terms"
      using frame walk' len(1) addr by (intro nth_equalityI) simp_all
    ultimately show ?thesis unfolding row_ok_def by (metis in_set_conv_nth)
  qed
qed

section \<open>The body of a loop\<close>

text \<open>
  A body that keeps to the entity the walk is at: from what the row reads it writes through the addresses of
  the terms that write, and then removes the entity from some stores; and it goes on or breaks off.
\<close>

type_synonym query_script = "entity \<Rightarrow> bytes option list \<Rightarrow> (nat \<times> bytes) list \<times> nat list \<times> bool"

definition row_reads :: "query_term list \<Rightarrow> address list \<Rightarrow> ('r, 'b) world \<Rightarrow> bytes option list" where
  "row_reads terms addrs w = map (\<lambda>(t, a). addr_read (the_store w (qt_store t)) a) (zip terms addrs)"

definition poke_term :: "query_term list \<Rightarrow> address list \<Rightarrow> nat \<times> bytes \<Rightarrow> ('r, 'b) world \<Rightarrow> ('r, 'b) world" where
  "poke_term terms addrs p w =
     (case addrs ! fst p of RowAddr r \<Rightarrow> w_poke (qt_store (terms ! fst p)) r (snd p) w | _ \<Rightarrow> w)"

definition drop_from :: "entity \<Rightarrow> nat \<Rightarrow> ('r, 'b) world \<Rightarrow> ('r, 'b) world" where
  "drop_from e c w = snd (w_remove e c w)"

definition script_body :: "query_term list \<Rightarrow> query_script \<Rightarrow> ('r, 'b) query_body" where
  "script_body terms script e addrs w =
     (case script e (row_reads terms addrs w) of (pokes, drops, go) \<Rightarrow>
        (go, fold (drop_from e) drops (fold (poke_term terms addrs) pokes w)))"

definition acts_ok :: "('r, 'b) world \<Rightarrow> query_term list \<Rightarrow> (nat \<times> bytes) list \<times> nat list \<times> bool \<Rightarrow> bool" where
  "acts_ok w terms acts \<longleftrightarrow>
     (\<forall>p \<in> set (fst acts). fst p < length terms \<and> mode_writes (qt_mode (terms ! fst p))
         \<and> length (snd p) = st_size (term_store w terms (fst p)))
     \<and> (\<forall>c \<in> set (fst (snd acts)). c < length (w_stores w))"

definition script_ok :: "('r, 'b) world \<Rightarrow> query_term list \<Rightarrow> query_script \<Rightarrow> bool" where
  "script_ok w terms script \<longleftrightarrow> (\<forall>e vals. acts_ok w terms (script e vals))"

lemma script_ok_frame:
  assumes "script_ok w terms script" and "terms_ok w terms" and "same_frame w w'"
  shows "script_ok w' terms script"
proof -
  have "st_size (term_store w' terms j) = st_size (term_store w terms j)" if "j < length terms" for j
    using assms(3) terms_okD[OF assms(2) that] by (simp add: same_frame_def)
  moreover have "length (w_stores w') = length (w_stores w)" using assms(3) by (simp add: same_frame_def)
  ultimately have "acts_ok w' terms acts = acts_ok w terms acts" for acts by (auto simp: acts_ok_def)
  then show ?thesis using assms(1) by (simp add: script_ok_def)
qed

text \<open>What it does to the components of the entity.\<close>

definition poke_view :: "query_term list \<Rightarrow> nat \<times> bytes \<Rightarrow> (nat \<Rightarrow> bytes option) \<Rightarrow> nat \<Rightarrow> bytes option" where
  "poke_view terms p f =
     (let c = qt_store (terms ! fst p) in if f c = None then f else f(c \<mapsto> snd p))"

definition drop_view :: "nat \<Rightarrow> (nat \<Rightarrow> bytes option) \<Rightarrow> nat \<Rightarrow> bytes option" where
  "drop_view c f = f(c := None)"

definition script_view :: "query_term list \<Rightarrow> query_script \<Rightarrow> entity \<Rightarrow> (nat \<Rightarrow> bytes option) \<Rightarrow> nat \<Rightarrow> bytes option" where
  "script_view terms script e f =
     (case script e (map (\<lambda>t. f (qt_store t)) terms) of (pokes, drops, go) \<Rightarrow>
        fold drop_view drops (fold (poke_view terms) pokes f))"

definition script_goes :: "query_term list \<Rightarrow> query_script \<Rightarrow> entity \<Rightarrow> (nat \<Rightarrow> bytes option) \<Rightarrow> bool" where
  "script_goes terms script e f = snd (snd (script e (map (\<lambda>t. f (qt_store t)) terms)))"

text \<open>The rows of a store below \<open>n\<close> stay as they are, and so does what is observed.\<close>

definition keeps :: "nat \<Rightarrow> nat \<Rightarrow> ('r, 'b) world \<Rightarrow> ('r, 'b) world \<Rightarrow> bool" where
  "keeps d n w w' \<longleftrightarrow>
     n \<le> st_live (the_store w' d) \<and> (\<forall>r < n. own (the_store w' d) r = own (the_store w d) r)
     \<and> (\<forall>c < length (w_stores w). st_obs (the_store w' c) = st_obs (the_store w c))"

lemma keeps_refl: "n \<le> st_live (the_store w d) \<Longrightarrow> keeps d n w w"
  by (simp add: keeps_def)

lemma keeps_trans:
  "keeps d n w w1 \<Longrightarrow> keeps d n w1 w2 \<Longrightarrow> same_frame w w1 \<Longrightarrow> keeps d n w w2"
  by (simp add: keeps_def same_frame_def)

lemma keeps_less: "keeps d n w w' \<Longrightarrow> m \<le> n \<Longrightarrow> keeps d m w w'"
  by (simp add: keeps_def)

lemma same_rows_keeps:
  assumes "same_rows w w'" and "d < length (w_stores w)" and "n \<le> st_live (the_store w d)"
  shows "keeps d n w w'"
  using same_rowsD[OF assms(1)] assms(2,3) by (simp add: keeps_def)

lemma put_value_get [simp]: "st_get (put_value row v s) = st_get s" "noted (put_value row v s) q = noted s q"
  by (simp_all add: fun_eq_iff st_get_def has_slot_def slot_row_def noted_def)

lemma poke_step:
  assumes "world_inv w" and "terms_ok w terms" and "row_ok w terms e addrs" and "d < length (w_stores w)"
    and "n \<le> st_live (the_store w d)" and "fst p < length terms" and "mode_writes (qt_mode (terms ! fst p))"
    and "length (snd p) = st_size (term_store w terms (fst p))"
  defines "w' \<equiv> poke_term terms addrs p w"
  shows "world_inv w'" and "same_frame w w'" and "keeps d n w w'" and "row_ok w' terms e addrs"
    and "w_view w' = (\<lambda>x. if x = e then poke_view terms p (w_view w e) else w_view w x)"
proof -
  let ?t = "terms ! fst p" and ?c = "qt_store (terms ! fst p)"
  have c: "?c < length (w_stores w)" by (rule terms_okD[OF assms(2,6)])
  have a: "addrs ! fst p = term_addr w e ?t" using assms(3,6) by (simp add: row_ok_def)
  have "world_inv w' \<and> same_frame w w' \<and> keeps d n w w' \<and> row_ok w' terms e addrs
    \<and> w_view w' = (\<lambda>x. if x = e then poke_view terms p (w_view w e) else w_view w x)"
  proof (cases "st_get (the_store w ?c) e")
    case None
    then have "w' = w" using a by (simp add: w'_def poke_term_def term_addr_def)
    moreover have "w_view w e ?c = None" using None by (simp add: w_view_def st_map_def)
    ultimately show ?thesis using assms(1,3,5) by (simp add: keeps_refl poke_view_def fun_eq_iff)
  next
    case (Some r)
    then have ar: "term_addr w e ?t = RowAddr r" by (simp add: term_addr_def)
    then have "noted (the_store w ?c) r" using assms(3,6,7) by (simp add: row_ok_def)
    then have sw: "st_write e (the_store w ?c) = (Some r, the_store w ?c)"
      using Some noted_mark[of "the_store w ?c" r e] by (simp add: st_write_def)
    have w': "w' = upd_store ?c (put_value r (snd p) (the_store w ?c)) w"
      using a ar by (simp add: w'_def poke_term_def w_poke_def)
    note pe = put_existing[OF assms(1) c assms(8) sw, folded w']
    have "term_addr w' e t = term_addr w e t" "noted (the_store w' (qt_store t)) q = noted (the_store w (qt_store t)) q" for t q
      using c by (simp_all add: w' term_addr_def)
    then have "row_ok w' terms e addrs" using assms(3) by (simp add: row_ok_def cong: map_cong)
    moreover have "keeps d n w w'" using c assms(5) by (auto simp: keeps_def w' own_def)
    moreover have "w_view w' = (\<lambda>x. if x = e then poke_view terms p (w_view w e) else w_view w x)"
      using pe(3,4) by (auto simp: poke_view_def Let_def fun_eq_iff)
    ultimately show ?thesis using pe(1,2) by simp
  qed
  then show "world_inv w'" and "same_frame w w'" and "keeps d n w w'" and "row_ok w' terms e addrs"
    and "w_view w' = (\<lambda>x. if x = e then poke_view terms p (w_view w e) else w_view w x)" by blast+
qed

lemma st_remove_observation [simp]: "st_obs (st_remove e row s) = st_obs s"
  by (auto simp: st_remove_def Let_def)

lemma drop_step:
  assumes "world_inv w" and "d < length (w_stores w)" and "n \<le> st_live (the_store w d)"
    and "\<forall>r < n. own (the_store w d) r \<noteq> e" and "c < length (w_stores w)"
  defines "w' \<equiv> drop_from e c w"
  shows "world_inv w'" and "same_frame w w'" and "keeps d n w w'"
    and "w_view w' = (\<lambda>x. if x = e then drop_view c (w_view w e) else w_view w x)"
proof -
  obtain ok where r: "w_remove e c w = (ok, w')" by (metis w'_def drop_from_def prod.collapse)
  note sp = w_remove_spec[OF assms(1,5) r]
  show "world_inv w'" "same_frame w w'" by (rule sp(2,3))+
  show "w_view w' = (\<lambda>x. if x = e then drop_view c (w_view w e) else w_view w x)"
    unfolding sp(4) by (auto simp: fun_eq_iff drop_view_def)
  show "keeps d n w w'"
  proof (cases "st_get (the_store w c) e")
    case None
    then have "\<not> snd (st_row (the_store w c) e)" using st_row_none[of "the_store w c" e] by simp
    then have "w' = w" using r by (auto simp: w_remove_def split_beta)
    then show ?thesis using assms(3) by (simp add: keeps_refl)
  next
    case (Some row)
    have i: "st_inv (the_store w c)" by (rule heldD(1)[OF world_invD(4)[OF assms(1,5)]])
    have "st_row (the_store w c) e = (row, True)" using Some by (simp add: st_row_get)
    then have w': "w' = (upd_store c (st_remove e row (the_store w c)) w)\<lparr>w_entities := unsetComponent (w_entities w) e c\<rparr>"
      using r by (auto simp: w_remove_def)
    have "n \<le> row" if "c = d"
      using assms(4) st_get_iff[OF i, of e row] Some that by (cases "row < n") auto
    then show ?thesis using st_remove_below[OF i Some, of n] assms(3,5) by (auto simp: keeps_def w')
  qed
qed

lemma poke_terms:
  assumes "world_inv w" and "terms_ok w terms" and "row_ok w terms e addrs" and "d < length (w_stores w)"
    and "n \<le> st_live (the_store w d)"
    and "\<forall>p \<in> set pokes. fst p < length terms \<and> mode_writes (qt_mode (terms ! fst p)) \<and> length (snd p) = st_size (term_store w terms (fst p))"
  defines "w' \<equiv> fold (poke_term terms addrs) pokes w"
  shows "world_inv w' \<and> same_frame w w' \<and> keeps d n w w'
    \<and> w_view w' = (\<lambda>x. if x = e then fold (poke_view terms) pokes (w_view w e) else w_view w x)"
  using assms(1-6) unfolding w'_def
proof (induction pokes arbitrary: w)
  case Nil
  then show ?case by (simp add: keeps_refl fun_eq_iff)
next
  case (Cons p pokes)
  let ?w = "poke_term terms addrs p w"
  have p: "fst p < length terms" "mode_writes (qt_mode (terms ! fst p))" "length (snd p) = st_size (term_store w terms (fst p))"
    using Cons.prems(6) by simp_all
  note st = poke_step[OF Cons.prems(1-5) p]
  have len: "length (w_stores ?w) = length (w_stores w)" "\<And>c. c < length (w_stores w) \<Longrightarrow> st_size (the_store ?w c) = st_size (the_store w c)"
    using st(2) by (simp_all add: same_frame_def)
  have t: "terms_ok ?w terms" using Cons.prems(2) len(1) by (simp add: terms_ok_def)
  have ps: "\<forall>p \<in> set pokes. fst p < length terms \<and> mode_writes (qt_mode (terms ! fst p)) \<and> length (snd p) = st_size (term_store ?w terms (fst p))"
    using Cons.prems(6) len(2) terms_okD[OF Cons.prems(2)] by simp
  have live: "n \<le> st_live (the_store ?w d)" using st(3) by (simp add: keeps_def)
  have d: "d < length (w_stores ?w)" using Cons.prems(4) len(1) by simp
  note ih = Cons.IH[OF st(1) t st(4) d live ps]
  show ?case
  proof (intro conjI)
    show "same_frame w (fold (poke_term terms addrs) (p # pokes) w)" using same_frame_trans[OF st(2)] ih by simp
    show "keeps d n w (fold (poke_term terms addrs) (p # pokes) w)" using keeps_trans[OF st(3) _ st(2)] ih by simp
    show "w_view (fold (poke_term terms addrs) (p # pokes) w) =
        (\<lambda>x. if x = e then fold (poke_view terms) (p # pokes) (w_view w e) else w_view w x)"
      using ih st(5) by (simp cong: if_cong)
  qed (use ih in simp)
qed

lemma drop_all:
  assumes "world_inv w" and "d < length (w_stores w)" and "n \<le> st_live (the_store w d)"
    and "\<forall>r < n. own (the_store w d) r \<noteq> e" and "\<forall>c \<in> set drops. c < length (w_stores w)"
  defines "w' \<equiv> fold (drop_from e) drops w"
  shows "world_inv w' \<and> same_frame w w' \<and> keeps d n w w'
    \<and> w_view w' = (\<lambda>x. if x = e then fold drop_view drops (w_view w e) else w_view w x)"
  using assms(1-5) unfolding w'_def
proof (induction drops arbitrary: w)
  case Nil
  then show ?case by (simp add: keeps_refl fun_eq_iff)
next
  case (Cons c drops)
  let ?w = "drop_from e c w"
  have c: "c < length (w_stores w)" using Cons.prems(5) by simp
  note st = drop_step[OF Cons.prems(1-4) c]
  have len: "length (w_stores ?w) = length (w_stores w)" using st(2) by (simp add: same_frame_def)
  have pre: "d < length (w_stores ?w)" "n \<le> st_live (the_store ?w d)" "\<forall>r < n. own (the_store ?w d) r \<noteq> e"
    "\<forall>c \<in> set drops. c < length (w_stores ?w)"
    using st(3) Cons.prems len by (simp_all add: keeps_def)
  note ih = Cons.IH[OF st(1) pre]
  show ?case
  proof (intro conjI)
    show "same_frame w (fold (drop_from e) (c # drops) w)" using same_frame_trans[OF st(2)] ih by simp
    show "keeps d n w (fold (drop_from e) (c # drops) w)" using keeps_trans[OF st(3) _ st(2)] ih by simp
    show "w_view (fold (drop_from e) (c # drops) w) =
        (\<lambda>x. if x = e then fold drop_view (c # drops) (w_view w e) else w_view w x)"
      using ih st(4) by (simp cong: if_cong)
  qed (use ih in simp)
qed

lemma row_ok_reads:
  assumes "row_ok w terms e addrs" and "terms_ok w terms"
  shows "row_reads terms addrs w = map (\<lambda>t. w_view w e (qt_store t)) terms"
proof -
  have "addr_read (the_store w (qt_store t)) (term_addr w e t) = w_view w e (qt_store t)" if "t \<in> set terms" for t
    using that assms(2)
    by (cases "st_get (the_store w (qt_store t)) e") (auto simp: terms_ok_def addr_read_def term_addr_def w_view_def st_map_def)
  moreover have "addrs = map (term_addr w e) terms" using assms(1) by (simp add: row_ok_def)
  ultimately show ?thesis by (simp add: row_reads_def zip_map2 zip_same_conv_map)
qed

lemma script_spec:
  assumes "world_inv w" and "terms_ok w terms" and "row_ok w terms e addrs" and "script_ok w terms script"
    and "d < length (w_stores w)" and "n \<le> st_live (the_store w d)" and "\<forall>r < n. own (the_store w d) r \<noteq> e"
    and "script_body terms script e addrs w = (go, w')"
  shows "go \<longleftrightarrow> script_goes terms script e (w_view w e)" and "world_inv w'" and "same_frame w w'" and "keeps d n w w'"
    and "w_view w' = (\<lambda>x. if x = e then script_view terms script e (w_view w e) else w_view w x)"
proof -
  obtain pokes drops g where sc: "script e (map (\<lambda>t. w_view w e (qt_store t)) terms) = (pokes, drops, g)" by (metis prod.exhaust)
  let ?w = "fold (poke_term terms addrs) pokes w"
  have b: "go = g" "w' = fold (drop_from e) drops ?w"
    using assms(8) sc row_ok_reads[OF assms(3,2)] by (auto simp: script_body_def)
  show "go \<longleftrightarrow> script_goes terms script e (w_view w e)" using b sc by (simp add: script_goes_def)
  have ok: "\<forall>p \<in> set pokes. fst p < length terms \<and> mode_writes (qt_mode (terms ! fst p)) \<and> length (snd p) = st_size (term_store w terms (fst p))"
    "\<forall>c \<in> set drops. c < length (w_stores w)"
    using assms(4)[unfolded script_ok_def, rule_format, of e "map (\<lambda>t. w_view w e (qt_store t)) terms"] sc
    by (simp_all add: acts_ok_def)
  note p = poke_terms[OF assms(1-3,5,6) ok(1)]
  have pre: "world_inv ?w" "d < length (w_stores ?w)" "n \<le> st_live (the_store ?w d)" "\<forall>r < n. own (the_store ?w d) r \<noteq> e"
    "\<forall>c \<in> set drops. c < length (w_stores ?w)"
    using p assms(5,7) ok(2) by (simp_all add: keeps_def same_frame_def)
  note q = drop_all[OF pre, folded b(2)]
  show "world_inv w'" using q by blast
  show "same_frame w w'" using same_frame_trans[of w ?w w'] p q by blast
  show "keeps d n w w'" using keeps_trans[of d n w ?w w'] p q by blast
  show "w_view w' = (\<lambda>x. if x = e then script_view terms script e (w_view w e) else w_view w x)"
    using p q sc by (simp add: script_view_def cong: if_cong)
qed

section \<open>The rows walked\<close>

text \<open>The entities the body is called for: those accepted, through the first it breaks off at.\<close>

fun called :: "(entity \<Rightarrow> bool) \<Rightarrow> (entity \<Rightarrow> bool) \<Rightarrow> entity list \<Rightarrow> entity list" where
  "called acc goes [] = []"
| "called acc goes (e # es) =
     (if acc e then e # (if goes e then called acc goes es else []) else called acc goes es)"

lemma called_goes: "(\<forall>e \<in> set es. goes e) \<Longrightarrow> called acc goes es = filter acc es"
  by (induction es) auto

lemma called_accepted: "e \<in> set (called acc goes es) \<Longrightarrow> acc e"
  by (induction es) (auto split: if_splits)

lemma set_called: "set (called acc goes es) \<subseteq> set es"
  by (induction es) auto

lemma distinct_called: "distinct es \<Longrightarrow> distinct (called acc goes es)"
  using set_called by (induction es) fastforce+

lemma called_cong:
  "(\<And>e. e \<in> set es \<Longrightarrow> acc e = acc' e) \<Longrightarrow> (\<And>e. e \<in> set es \<Longrightarrow> goes e = goes' e) \<Longrightarrow> called acc goes es = called acc' goes' es"
  by (induction es) auto

text \<open>A call: the world is as the walk found it, and the row is that of the entity there.\<close>

definition call_ok :: "query_term list \<Rightarrow> (nat \<Rightarrow> bytes option) \<Rightarrow> ('r, 'b) query_call \<Rightarrow> bool" where
  "call_ok terms f call =
     (case call of (e, addrs, w) \<Rightarrow> world_inv w \<and> terms_ok w terms \<and> w_view w e = f \<and> row_ok w terms e addrs)"

lemma query_row_spec:
  assumes "world_inv w" and "terms_ok w terms" and "walking w terms i walk" and "script_ok w terms script"
    and "Suc n \<le> st_live (term_store w terms i)"
    and "query_row terms (script_body terms script) n (calls, walk, w, True) = (calls', walk', w', go)"
  defines "e \<equiv> own (term_store w terms i) n"
  shows "calls' = (if query_accepts w terms e then calls @ [last calls'] else calls)"
    and "query_accepts w terms e \<Longrightarrow> fst (last calls') = e \<and> call_ok terms (w_view w e) (last calls')"
    and "go \<longleftrightarrow> query_accepts w terms e \<longrightarrow> script_goes terms script e (w_view w e)"
    and "world_inv w'" and "same_frame w w'" and "keeps (qt_store (terms ! i)) n w w'" and "walking w terms i walk'"
    and "w_view w' = (\<lambda>x. if x = e \<and> query_accepts w terms e then script_view terms script e (w_view w e) else w_view w x)"
proof -
  let ?d = "qt_store (terms ! i)" and ?walk = "walk\<lparr>qw_addresses := (qw_addresses walk)[i := RowAddr n]\<rparr>"
  note wk = walkingD[OF assms(3)]
  have d: "?d < length (w_stores w)" by (rule terms_okD[OF assms(2) wk(2)])
  have inv: "st_inv (the_store w ?d)" by (rule heldD(1)[OF world_invD(4)[OF assms(1) d]])
  have get: "st_get (the_store w ?d) e = Some n" using st_get_iff[OF inv, of e n] assms(5) by (simp add: e_def)
  have below: "\<forall>r < n. own (the_store w ?d) r \<noteq> e"
  proof (intro allI impI notI)
    fix r assume r: "r < n" "own (the_store w ?d) r = e"
    then have "st_get (the_store w ?d) e = Some r" using st_get_iff[OF inv, of e r] assms(5) by simp
    then show False using get r(1) by simp
  qed
  have wk1: "walking w terms i ?walk" using walking_cong[OF assms(3)] wk(4) by simp
  have i8: "i < 8" using wk(2) assms(2) by (simp add: terms_ok_def)
  obtain ok walk2 w1 where m: "query_matches terms n e ?walk w = (ok, walk2, w1)" by (metis prod.exhaust)
  have at: "qw_addresses ?walk ! i = RowAddr n" using wk(4) i8 by simp
  note ms = matches_spec[OF assms(1,2) wk1 at get m]
  have frame1: "world_inv w1" "same_frame w w1" "same_rows w w1" "w_view w1 = w_view w" using ms(4) by blast+
  have row: "query_row terms (script_body terms script) n (calls, walk, w, True) =
      (if \<not> ok then (calls, walk2, w1, True)
       else case script_body terms script e (take (length terms) (qw_addresses walk2)) w1 of (go, w2) \<Rightarrow>
         (calls @ [(e, take (length terms) (qw_addresses walk2), w1)], walk2, w2, go))"
    using m wk(1) by (simp add: query_row_def Let_def e_def own_def)
  let ?call = "(e, take (length terms) (qw_addresses walk2), w1)"
  have "(if query_accepts w terms e
      then calls' = calls @ [?call] \<and> call_ok terms (w_view w e) ?call \<and> go = script_goes terms script e (w_view w e)
        \<and> world_inv w' \<and> same_frame w w' \<and> keeps ?d n w w' \<and> walk' = walk2
        \<and> w_view w' = (\<lambda>x. if x = e then script_view terms script e (w_view w e) else w_view w x)
      else calls' = calls \<and> go \<and> w' = w \<and> walk' = walk2)"
  proof (cases "query_accepts w terms e")
    case True
    then have ok: "ok" using ms(1) by simp
    obtain g w2 where b: "script_body terms script e (take (length terms) (qw_addresses walk2)) w1 = (g, w2)" by fastforce
    have eqs: "calls' = calls @ [?call]" "walk' = walk2" "w' = w2" "go = g" using assms(6) row ok b by auto
    have t1: "terms_ok w1 terms" "?d < length (w_stores w1)"
      using assms(2) frame1(2) d by (simp_all add: terms_ok_def same_frame_def)
    have s1: "script_ok w1 terms script" by (rule script_ok_frame[OF assms(4,2) frame1(2)])
    have l1: "n \<le> st_live (the_store w1 ?d)" "\<forall>r < n. own (the_store w1 ?d) r \<noteq> e"
      using same_rowsD(3,4)[OF frame1(3) d] assms(5) below by simp_all
    note sp = script_spec[OF frame1(1) t1(1) ms(5)[OF ok] s1 t1(2) l1 b]
    have k: "keeps ?d n w w1" using same_rows_keeps[OF frame1(3) d] assms(5) by simp
    have "call_ok terms (w_view w e) ?call" using frame1(1,4) t1(1) ms(5)[OF ok] by (simp add: call_ok_def)
    then show ?thesis
      using True eqs sp frame1(4) same_frame_trans[OF frame1(2) sp(3)] keeps_trans[OF k sp(4) frame1(2)] by (simp cong: if_cong)
  next
    case False
    then show ?thesis using assms(6) row ms(1,3) by simp
  qed
  then show "calls' = (if query_accepts w terms e then calls @ [last calls'] else calls)"
    and "query_accepts w terms e \<Longrightarrow> fst (last calls') = e \<and> call_ok terms (w_view w e) (last calls')"
    and "go \<longleftrightarrow> query_accepts w terms e \<longrightarrow> script_goes terms script e (w_view w e)"
    and "world_inv w'" and "same_frame w w'" and "keeps ?d n w w'" and "walking w terms i walk'"
    and "w_view w' = (\<lambda>x. if x = e \<and> query_accepts w terms e then script_view terms script e (w_view w e) else w_view w x)"
    using assms(1,5) ms(2) keeps_refl[of n w ?d] by (auto split: if_splits)
qed

text \<open>A run that can go on at the rows below \<open>n\<close>.\<close>

definition ready :: "query_term list \<Rightarrow> query_script \<Rightarrow> nat \<Rightarrow> nat \<Rightarrow> ('r, 'b) query_run \<Rightarrow> bool" where
  "ready terms script i n st =
     (case st of (calls, walk, w, going) \<Rightarrow> going \<longrightarrow>
        world_inv w \<and> terms_ok w terms \<and> script_ok w terms script \<and> walking w terms i walk \<and> n \<le> st_live (term_store w terms i))"

lemma walking_keeps:
  assumes "walking w terms i walk" and "terms_ok w terms" and "keeps d n w w'"
  shows "walking w' terms i walk"
proof -
  have "st_observed (term_store w' terms j) = st_observed (term_store w terms j)" if "j < length terms" for j
    using assms(3) terms_okD[OF assms(2) that] by (simp add: keeps_def st_observed_def)
  then show ?thesis using assms(1) unfolding walking_def by blast
qed

lemma ready_step:
  assumes "ready terms script i (Suc n) st"
  shows "ready terms script i n (query_row terms (script_body terms script) n st)"
proof -
  obtain calls walk w going where st: "st = (calls, walk, w, going)" by (metis prod.exhaust)
  obtain calls' walk' w' go where q: "query_row terms (script_body terms script) n st = (calls', walk', w', go)" by (metis prod.exhaust)
  show ?thesis
  proof (cases going)
    case False
    then show ?thesis using st by (simp add: query_row_def ready_def)
  next
    case True
    have r: "world_inv w" "terms_ok w terms" "walking w terms i walk" "script_ok w terms script" "Suc n \<le> st_live (term_store w terms i)"
      using assms True st by (simp_all add: ready_def)
    note sp = query_row_spec[OF r q[unfolded st True[THEN eq_True[THEN iffD2]]]]
    have "terms_ok w' terms" using r(2) sp(5) by (simp add: terms_ok_def same_frame_def)
    then show ?thesis
      using sp(4,6) script_ok_frame[OF r(4,2) sp(5)] walking_keeps[OF sp(7) r(2) sp(6)] by (simp add: q ready_def keeps_def)
  qed
qed

lemma ready_rows:
  assumes "a \<le> m" and "ready terms script i m st"
  shows "ready terms script i a (fold (query_row terms (script_body terms script)) (rev [a..<m]) st)"
  using assms
proof (induction m arbitrary: st rule: dec_induct)
  case (step m)
  then show ?case using ready_step[OF step.prems] by simp
qed simp

lemma stopped_rows: "fold (query_row terms body) rs (calls, walk, w, False) = (calls, walk, w, False)"
  by (induction rs) (simp_all add: query_row_def)

lemma stopped_chunks: "fold (query_chunk terms body) cs (calls, walk, w, False) = (calls, walk, w, False)"
  by (induction cs) (simp_all add: query_chunk_def)

lemma chunk_length: "st_inv s \<Longrightarrow> length (st_chunk s c) = min (st_live s - c * rowsPerChunk) rowsPerChunk"
  using st_invD(3)[of s] by (auto simp: st_chunk_def)

text \<open>The chunks are the rows, last first.\<close>

lemma query_chunk_rows:
  assumes "ready terms script i n (calls, walk, w, True)"
  shows "query_chunk terms body c (calls, walk, w, True) =
    fold (query_row terms body) (rev [c * rowsPerChunk..<c * rowsPerChunk + min (st_live (term_store w terms i) - c * rowsPerChunk) rowsPerChunk])
      (calls, walk, w, True)"
proof -
  have r: "world_inv w" "terms_ok w terms" "walking w terms i walk" using assms by (simp_all add: ready_def)
  note wk = walkingD[OF r(3)]
  have inv: "st_inv (term_store w terms i)" by (rule heldD(1)[OF world_invD(4)[OF r(1) terms_okD[OF r(2) wk(2)]]])
  let ?len = "length (st_chunk (term_store w terms i) c)"
  have "rev [c * rowsPerChunk..<c * rowsPerChunk + ?len] = map (\<lambda>r. c * rowsPerChunk + r) (rev [0..<?len])"
    using map_add_upt[of "c * rowsPerChunk" ?len] by (simp add: add.commute flip: rev_map)
  then have "fold (query_row terms body) (rev [c * rowsPerChunk..<c * rowsPerChunk + ?len]) =
      fold (\<lambda>r. query_row terms body (c * rowsPerChunk + r)) (rev [0..<?len])"
    by (simp add: fold_map comp_def)
  then show ?thesis using wk(1) chunk_length[OF inv, of c] by (simp add: query_chunk_def Let_def)
qed

lemma chunks_rows:
  assumes "ready terms script i (min (st_live (term_store w terms i)) (k * rowsPerChunk)) (calls, walk, w, True)"
  shows "fold (query_chunk terms (script_body terms script)) (rev [0..<k]) (calls, walk, w, True) =
    fold (query_row terms (script_body terms script)) (rev [0..<min (st_live (term_store w terms i)) (k * rowsPerChunk)]) (calls, walk, w, True)"
  using assms
proof (induction k arbitrary: calls walk w)
  case (Suc k)
  let ?live = "st_live (term_store w terms i)" and ?row = "query_row terms (script_body terms script)"
  let ?m = "min ?live (Suc k * rowsPerChunk)" and ?b = "min ?live (k * rowsPerChunk)"
  have rows: "[k * rowsPerChunk..<k * rowsPerChunk + min (?live - k * rowsPerChunk) rowsPerChunk] = [?b..<?m]"
    by (cases "?live \<le> k * rowsPerChunk") (simp_all add: min_def add.commute)
  let ?st = "fold ?row (rev [?b..<?m]) (calls, walk, w, True)"
  have "query_chunk terms (script_body terms script) k (calls, walk, w, True) = ?st"
    unfolding query_chunk_rows[OF Suc.prems] rows by (rule refl)
  moreover have "?b + (?m - ?b) = ?m" by simp
  then have "rev [0..<?m] = rev [?b..<?m] @ rev [0..<?b]"
    using upt_add_eq_append[of 0 ?b "?m - ?b"] by (simp flip: rev_append)
  ultimately have eq: "(fold (query_chunk terms (script_body terms script)) (rev [0..<Suc k]) (calls, walk, w, True) =
      fold ?row (rev [0..<?m]) (calls, walk, w, True)) \<longleftrightarrow>
      fold (query_chunk terms (script_body terms script)) (rev [0..<k]) ?st = fold ?row (rev [0..<?b]) ?st"
    by simp
  have rd: "ready terms script i ?b ?st" by (rule ready_rows[OF _ Suc.prems]) simp
  obtain calls' walk' w' go where st: "?st = (calls', walk', w', go)" by (metis prod.exhaust)
  show ?case
  proof (cases go)
    case False
    then show ?thesis unfolding eq using st by (simp add: stopped_rows stopped_chunks)
  next
    case True
    have "?b \<le> st_live (term_store w' terms i)" using rd st True by (simp add: ready_def)
    moreover have "w' = w" if "?live \<le> k * rowsPerChunk" using st that by simp
    ultimately have b: "min (st_live (term_store w' terms i)) (k * rowsPerChunk) = ?b"
      by (cases "?live \<le> k * rowsPerChunk") simp_all
    show ?thesis unfolding eq using Suc.IH[of w' calls' walk'] rd st True b by simp
  qed
qed simp

text \<open>The rows, from the last.\<close>

lemma rows_spec:
  assumes "ready terms script i n (calls, walk, w, True)"
    and "fold (query_row terms (script_body terms script)) (rev [0..<n]) (calls, walk, w, True) = (calls', walk', w', go)"
  defines "es \<equiv> called (query_accepts w terms) (\<lambda>e. script_goes terms script e (w_view w e)) (map (own (term_store w terms i)) (rev [0..<n]))"
  shows "\<exists>new. calls' = calls @ new \<and> map fst new = es \<and> (\<forall>call \<in> set new. call_ok terms (w_view w (fst call)) call)
    \<and> world_inv w' \<and> same_frame w w'
    \<and> w_view w' = (\<lambda>x. if x \<in> set es then script_view terms script x (w_view w x) else w_view w x)"
  using assms(1,2) unfolding es_def
proof (induction n arbitrary: calls walk w)
  case 0
  then show ?case by (simp add: ready_def)
next
  case (Suc n)
  let ?own = "own (term_store w terms i)" and ?row = "query_row terms (script_body terms script)"
  let ?goes = "\<lambda>w e. script_goes terms script e (w_view w e)" and ?e = "own (term_store w terms i) n"
  let ?old = "map ?own (rev [0..<n])" and ?called = "\<lambda>w. called (query_accepts w terms) (\<lambda>e. script_goes terms script e (w_view w e))"
  obtain calls1 walk1 w1 go1 where q: "?row n (calls, walk, w, True) = (calls1, walk1, w1, go1)" by (metis prod.exhaust)
  have r: "world_inv w" "terms_ok w terms" "walking w terms i walk" "script_ok w terms script" "Suc n \<le> st_live (term_store w terms i)"
    using Suc.prems(1) by (simp_all add: ready_def)
  note sp = query_row_spec[OF r q]
  have rest: "fold ?row (rev [0..<n]) (calls1, walk1, w1, go1) = (calls', walk', w', go)" using Suc.prems(2) q by simp
  have inv: "st_inv (term_store w terms i)"
    by (rule heldD(1)[OF world_invD(4)[OF r(1) terms_okD[OF r(2) walkingD(2)[OF r(3)]]]])
  have new: "?e \<notin> set ?old"
  proof
    assume "?e \<in> set ?old"
    then obtain q where "q < n" "?own q = ?e" by auto
    then show False using st_get_iff[OF inv, of ?e n] st_get_iff[OF inv, of ?e q] r(5) by simp
  qed
  have own1: "map (own (term_store w1 terms i)) (rev [0..<n]) = ?old" using sp(6) by (simp add: keeps_def)
  have view1: "w_view w1 x = w_view w x" if "x \<in> set ?old" for x
  proof -
    have "x \<noteq> ?e" using that new by metis
    then show ?thesis using sp(8) by simp
  qed
  have same: "?called w1 ?old = ?called w ?old"
    by (rule called_cong) (simp_all add: view1 query_accepts_def)
  have same_set: "x \<in> set (?called w ?old) \<Longrightarrow> w_view w1 x = w_view w x" for x using set_called view1 by blast
  show ?case
  proof (cases go1)
    case False
    then have acc: "query_accepts w terms ?e" "\<not> ?goes w ?e" using sp(3) by auto
    have "(calls', w') = (calls1, w1)" using rest False by (simp add: stopped_rows)
    moreover have "calls1 = calls @ [last calls1]" using sp(1) acc(1) by simp
    ultimately show ?thesis
      using acc sp(2,4,5,8) by (intro exI[of _ "[last calls1]"]) (simp cong: if_cong)
  next
    case True
    have "ready terms script i n (calls1, walk1, w1, True)" using ready_step[OF Suc.prems(1)] q True by simp
    from Suc.IH[OF this] obtain new where ih: "calls' = calls1 @ new" "map fst new = ?called w ?old"
      "\<forall>call \<in> set new. call_ok terms (w_view w1 (fst call)) call" "world_inv w'" "same_frame w1 w'"
      "w_view w' = (\<lambda>x. if x \<in> set (?called w ?old) then script_view terms script x (w_view w1 x) else w_view w1 x)"
      using rest True own1 same by auto
    let ?mine = "if query_accepts w terms ?e then [last calls1] else []"
    have "calls' = calls @ (?mine @ new)" using sp(1) ih(1) by (auto split: if_splits)
    moreover have "map fst (?mine @ new) = ?called w (map ?own (rev [0..<Suc n]))"
      using sp(2,3) True ih(2) by simp
    moreover have "\<forall>call \<in> set (?mine @ new). call_ok terms (w_view w (fst call)) call"
    proof
      fix call assume "call \<in> set (?mine @ new)"
      then consider "query_accepts w terms ?e" "call = last calls1" | "call \<in> set new" by (auto split: if_splits)
      then show "call_ok terms (w_view w (fst call)) call"
      proof cases
        case 2
        then have "fst call \<in> set (?called w ?old)" using ih(2) by (metis image_eqI set_map)
        then show ?thesis using ih(3) 2 same_set by metis
      qed (use sp(2) in simp)
    qed
    moreover have "w_view w' = (\<lambda>x. if x \<in> set (?called w (map ?own (rev [0..<Suc n]))) then script_view terms script x (w_view w x) else w_view w x)"
    proof
      fix x
      have "?e \<notin> set (?called w ?old)" using new set_called by blast
      then show "w_view w' x = (if x \<in> set (?called w (map ?own (rev [0..<Suc n]))) then script_view terms script x (w_view w x) else w_view w x)"
        using ih(6) sp(3,8) True same_set[of x] by (cases "x = ?e") auto
    qed
    ultimately show ?thesis using ih(4) same_frame_trans[OF sp(5) ih(5)] by blast
  qed
qed

text \<open>What the terms of a row yield, of what the entity had as the walk began.\<close>

definition term_yields :: "(nat \<Rightarrow> bytes option) \<Rightarrow> query_term \<Rightarrow> address \<Rightarrow> term_value" where
  "term_yields f t a =
     (if mode_optional (qt_mode t) then TvOptional a (mode_writes (qt_mode t))
      else if mode_writes (qt_mode t) then TvPointer a
      else TvCopy (if qt_mode t = TermRead then the (f (qt_store t)) else []))"

lemma row_Get_yields:
  assumes "call_ok terms f (e, addrs, w)" and "query_accepts w terms e"
    and "declareQuery terms = Some (writes, optionals)"
  shows "row_Get terms writes optionals addrs w = map2 (term_yields f) terms addrs"
proof (rule nth_equalityI)
  have ok: "world_inv w" "w_view w e = f" "addrs = map (term_addr w e) terms" and t: "terms_ok w terms"
    using assms(1) by (simp_all add: call_ok_def row_ok_def)
  show "length (row_Get terms writes optionals addrs w) = length (map2 (term_yields f) terms addrs)"
    using ok(3) by (simp add: row_Get_def)
  fix i assume "i < length (row_Get terms writes optionals addrs w)"
  then have i: "i < length terms" by (simp add: row_Get_def)
  let ?t = "terms ! i" and ?s = "term_store w terms i"
  have c: "qt_store ?t < length (w_stores w)" by (rule terms_okD[OF t i])
  have bits: "bit writes i = mode_writes (qt_mode ?t)" "bit optionals i = mode_optional (qt_mode ?t)"
    using declareQuery_spec(2)[OF _ assms(3) i] t by (simp_all add: terms_ok_def)
  have copy: "take (term_size ?s ?t) (read_address ?s (term_addr w e ?t)) = the (f (qt_store ?t))" if "qt_mode ?t = TermRead"
  proof -
    have "term_accepts ?t (w_view w e (qt_store ?t))" using assms(2) i by (simp add: query_accepts_def)
    then have "w_view w e (qt_store ?t) \<noteq> None" using that by (simp add: term_accepts_def mode_optional_def)
    then obtain r where r: "st_get ?s e = Some r" "f (qt_store ?t) = Some (value_at ?s r)"
      using c ok(2) by (auto simp: w_view_def st_map_def)
    have "length (value_at ?s r) = st_size ?s"
      using world_invD(5)[OF ok(1) c] r(1) by (auto simp: sized_def st_map_def)
    then show ?thesis using that r by (simp add: term_size_def read_address_def term_addr_def)
  qed
  show "row_Get terms writes optionals addrs w ! i = map2 (term_yields f) terms addrs ! i"
    using i ok(3) bits copy
    by (cases "qt_mode ?t") (simp_all add: row_Get_def Let_def termValue_def term_yields_def term_size_def mode_writes_def mode_optional_def)
qed

section \<open>Queries are exact\<close>

text \<open>The smallest store that can drive, in which every entity a query accepts has a row.\<close>

lemma makeQueryWalk_drives:
  assumes "terms_ok w terms" and "declareQuery terms = Some (writes, optionals)"
  obtains i where "walking w terms i (makeQueryWalk w terms)"
    and "\<forall>t \<in> set terms. mode_drives (qt_mode t) \<longrightarrow> st_len (term_store w terms i) \<le> st_len (the_store w (qt_store t))"
proof -
  let ?walk = "makeQueryWalk w terms"
  have len: "length terms \<le> 8" using assms(1) by (simp add: terms_ok_def)
  note p = makeQueryWalk_picked[OF len, of w]
  have "\<exists>i < length terms. mode_drives (qt_mode (terms ! i))"
    using declareQuery_spec(1)[OF len] assms(2) by (auto simp: in_set_conv_nth)
  then obtain i where i: "i < length terms" "qw_driving ?walk = int i" "mode_drives (qt_mode (terms ! i))"
    "\<forall>j < length terms. mode_drives (qt_mode (terms ! j)) \<longrightarrow> st_len (term_store w terms i) \<le> st_len (term_store w terms j)"
    using p unfolding picked_def by auto
  have "walking w terms i ?walk"
    using i(1-3) p unfolding picked_def walking_def by simp
  moreover have "\<forall>t \<in> set terms. mode_drives (qt_mode t) \<longrightarrow> st_len (term_store w terms i) \<le> st_len (the_store w (qt_store t))"
    using i(4) by (auto simp: in_set_conv_nth)
  ultimately show ?thesis by (rule that)
qed

lemma query_All_rows:
  assumes "world_inv w" and "terms_ok w terms" and "walking w terms i (makeQueryWalk w terms)" and "script_ok w terms script"
    and "query_All terms (script_body terms script) w = (calls, w')"
  defines "live \<equiv> st_live (term_store w terms i)"
  shows "\<exists>walk' go. fold (query_row terms (script_body terms script)) (rev [0..<live]) ([], makeQueryWalk w terms, w, True) = (calls, walk', w', go)"
    and "ready terms script i live ([], makeQueryWalk w terms, w, True)"
proof -
  show rd: "ready terms script i live ([], makeQueryWalk w terms, w, True)" using assms(1-4) by (simp add: ready_def live_def)
  let ?k = "if live = 0 then 0 else (live - 1) div rowsPerChunk + 1"
  have le: "live \<le> ?k * rowsPerChunk"
  proof (cases "live = 0")
    case False
    then have "live - 1 < ((live - 1) div rowsPerChunk + 1) * rowsPerChunk"
      using dividend_less_div_times[of rowsPerChunk "live - 1"] by (simp add: rowsPerChunk_def)
    then show ?thesis using False by simp
  qed simp
  have "fold (query_chunk terms (script_body terms script)) (rev [0..<?k]) ([], makeQueryWalk w terms, w, True) =
      fold (query_row terms (script_body terms script)) (rev [0..<live]) ([], makeQueryWalk w terms, w, True)"
    using chunks_rows[of terms script i w ?k "[]" "makeQueryWalk w terms"] rd le by (simp add: live_def min_absorb1)
  moreover have "query_All terms (script_body terms script) w =
      (case fold (query_chunk terms (script_body terms script)) (rev [0..<?k]) ([], makeQueryWalk w terms, w, True) of (calls, _, w1, _) \<Rightarrow> (calls, w1))"
    using walkingD(1)[OF assms(3)] by (simp add: query_All_def Let_def st_len_def live_def)
  ultimately show "\<exists>walk' go. fold (query_row terms (script_body terms script)) (rev [0..<live]) ([], makeQueryWalk w terms, w, True) = (calls, walk', w', go)"
    using assms(5) by (auto split: prod.splits)
qed

lemma accepted_owned:
  assumes "world_inv w" and "terms_ok w terms" and "walking w terms i walk" and "query_accepts w terms e"
  shows "e \<in> own (term_store w terms i) ` {..<st_live (term_store w terms i)}"
proof -
  note wk = walkingD[OF assms(3)]
  have c: "qt_store (terms ! i) < length (w_stores w)" by (rule terms_okD[OF assms(2) wk(2)])
  have "mode_drives (qt_mode (terms ! i))" using assms(3) unfolding walking_def by blast
  moreover have "term_accepts (terms ! i) (w_view w e (qt_store (terms ! i)))" using assms(4) wk(2) by (simp add: query_accepts_def)
  ultimately have "w_view w e (qt_store (terms ! i)) \<noteq> None"
    by (auto simp: term_accepts_def mode_drives_def mode_optional_def)
  then obtain r where "st_get (term_store w terms i) e = Some r" using c by (auto simp: w_view_def st_map_def)
  then show ?thesis using st_get_iff[OF heldD(1)[OF world_invD(4)[OF assms(1) c]]] by auto
qed

text \<open>
  C8: A query's \<open>All\<close> calls its loop body exactly for the entities that satisfy every term as the walk began, each
  once and in the reverse order of the rows of the smallest store that can drive it, up to the entity the body breaks
  off at.  Each call's addresses read what the entity had when the walk began, whatever the body did to the
  entities before it, and \<open>Get\<close> yields them: a copy for a value term, the address for a pointer term, nothing
  for a filter and the address or nil for an optional term.  The body may write through the addresses it is given, which
  the store then reports as changes, and remove the entity the walk is at from any store: the world stays consistent and
  holds exactly what the body did.
\<close>

theorem query_exact:
  assumes "world_inv w" and "terms_ok w terms" and "declareQuery terms = Some (writes, optionals)" and "script_ok w terms script"
    and "query_All terms (script_body terms script) w = (calls, w')"
  shows "(\<exists>t \<in> set terms. mode_drives (qt_mode t)
        \<and> (\<forall>u \<in> set terms. mode_drives (qt_mode u) \<longrightarrow> st_len (the_store w (qt_store t)) \<le> st_len (the_store w (qt_store u)))
        \<and> map fst calls = called (query_accepts w terms) (\<lambda>e. script_goes terms script e (w_view w e))
            (rev (take (st_len (the_store w (qt_store t))) (st_owners (the_store w (qt_store t))))))
    \<and> distinct (map fst calls) \<and> (\<forall>e \<in> set (map fst calls). query_accepts w terms e)
    \<and> ((\<forall>e. script_goes terms script e (w_view w e)) \<longrightarrow> set (map fst calls) = {e. query_accepts w terms e})
    \<and> (\<forall>(e, addrs, w1) \<in> set calls. row_reads terms addrs w1 = map (\<lambda>t. w_view w e (qt_store t)) terms
         \<and> row_Get terms writes optionals addrs w1 = map2 (term_yields (w_view w e)) terms addrs)
    \<and> world_inv w' \<and> same_frame w w'
    \<and> w_view w' = (\<lambda>x. if x \<in> set (map fst calls) then script_view terms script x (w_view w x) else w_view w x)"
proof -
  obtain i where wk: "walking w terms i (makeQueryWalk w terms)"
    and least: "\<forall>t \<in> set terms. mode_drives (qt_mode t) \<longrightarrow> st_len (term_store w terms i) \<le> st_len (the_store w (qt_store t))"
    by (rule makeQueryWalk_drives[OF assms(2,3)])
  let ?s = "term_store w terms i" and ?goes = "\<lambda>e. script_goes terms script e (w_view w e)"
  let ?es = "map (own ?s) (rev [0..<st_live ?s])"
  obtain walk' go where f: "fold (query_row terms (script_body terms script)) (rev [0..<st_live ?s]) ([], makeQueryWalk w terms, w, True)
      = (calls, walk', w', go)" using query_All_rows(1)[OF assms(1,2) wk assms(4,5)] by blast
  obtain new where r: "calls = [] @ new" "map fst new = called (query_accepts w terms) ?goes ?es"
    "\<forall>call \<in> set new. call_ok terms (w_view w (fst call)) call" "world_inv w'" "same_frame w w'"
    "w_view w' = (\<lambda>x. if x \<in> set (called (query_accepts w terms) ?goes ?es) then script_view terms script x (w_view w x) else w_view w x)"
    using rows_spec[OF query_All_rows(2)[OF assms(1,2) wk assms(4,5)] f] by blast
  have wk2: "i < length terms" by (rule walkingD(2)[OF wk])
  have c: "qt_store (terms ! i) < length (w_stores w)" by (rule terms_okD[OF assms(2) wk2])
  have inv: "st_inv ?s" by (rule heldD(1)[OF world_invD(4)[OF assms(1) c]])
  have "map (own ?s) [0..<st_live ?s] = take (st_len ?s) (st_owners ?s)"
    using st_invD(3)[OF inv] by (intro nth_equalityI) (simp_all add: own_def st_len_def)
  then have es: "?es = rev (take (st_len ?s) (st_owners ?s))" by (simp flip: rev_map)
  have dist: "distinct ?es" using live_own_inj[OF inv] by (auto simp: distinct_map inj_on_def)
  have acc: "query_accepts w terms e" if "e \<in> set (map fst calls)" for e
    using that called_accepted[of e "query_accepts w terms" ?goes ?es] r(1,2) by simp
  have "mode_drives (qt_mode (terms ! i))" using wk unfolding walking_def by blast
  then have drive: "\<exists>t \<in> set terms. mode_drives (qt_mode t)
        \<and> (\<forall>u \<in> set terms. mode_drives (qt_mode u) \<longrightarrow> st_len (the_store w (qt_store t)) \<le> st_len (the_store w (qt_store u)))
        \<and> map fst calls = called (query_accepts w terms) ?goes
            (rev (take (st_len (the_store w (qt_store t))) (st_owners (the_store w (qt_store t)))))"
    using least r(1,2) es wk2 by (intro bexI[of _ "terms ! i"]) simp_all
  have all: "set (map fst calls) = {e. query_accepts w terms e}" if "\<forall>e. ?goes e"
  proof -
    have "set (map fst calls) = {e \<in> set ?es. query_accepts w terms e}"
      using r(1,2) called_goes[of ?es ?goes "query_accepts w terms"] that by simp
    moreover have "e \<in> set ?es" if "query_accepts w terms e" for e
      using accepted_owned[OF assms(1,2) wk that] by (simp add: atLeast0LessThan)
    ultimately show ?thesis by blast
  qed
  have calls: "row_reads terms addrs w1 = map (\<lambda>t. w_view w e (qt_store t)) terms
      \<and> row_Get terms writes optionals addrs w1 = map2 (term_yields (w_view w e)) terms addrs" if "(e, addrs, w1) \<in> set calls" for e addrs w1
  proof -
    have k: "call_ok terms (w_view w e) (e, addrs, w1)" using r(1,3) that by auto
    then have v: "w_view w1 e = w_view w e" and rk: "row_ok w1 terms e addrs" "terms_ok w1 terms" by (simp_all add: call_ok_def)
    have "e \<in> set (map fst calls)" using that by force
    then have "query_accepts w1 terms e" using acc v by (simp add: query_accepts_def)
    then show ?thesis using row_Get_yields[OF k _ assms(3)] row_ok_reads[OF rk] v by simp
  qed
  have dc: "distinct (map fst calls)" using distinct_called[OF dist] r(1,2) by simp
  have cs: "\<forall>(e, addrs, w1) \<in> set calls. row_reads terms addrs w1 = map (\<lambda>t. w_view w e (qt_store t)) terms
      \<and> row_Get terms writes optionals addrs w1 = map2 (term_yields (w_view w e)) terms addrs"
    using calls by blast
  have fin: "w_view w' = (\<lambda>x. if x \<in> set (map fst calls) then script_view terms script x (w_view w x) else w_view w x)"
    unfolding r(6) using r(1,2) by simp
  show ?thesis by (rule conjI[OF drive conjI[OF dc conjI[OF ballI[OF acc] conjI[OF impI[OF all] conjI[OF cs conjI[OF r(4) conjI[OF r(5) fin]]]]]]])
qed

lemma distinct_one: "distinct xs \<Longrightarrow> set xs = {x} \<Longrightarrow> xs = [x]"
  by (cases xs; cases "tl xs") auto

theorem query_exact_witness:
  "\<exists>w calls w'. sample_reaches w
    \<and> query_All [\<lparr>qt_store = 0, qt_mode = TermWrite\<rparr>]
         (script_body [\<lparr>qt_store = 0, qt_mode = TermWrite\<rparr>] (\<lambda>e vals. ([(0, [1, 2])], if vals = [Some [7, 8]] then [0] else [], True))) w = (calls, w')
    \<and> map fst calls = [makeEntity 1 1] \<and> w_view w (makeEntity 1 1) 0 = Some [7, 8] \<and> w_view w' (makeEntity 1 1) 0 = None"
proof -
  let ?e = "makeEntity 1 1" and ?t = "\<lparr>qt_store = 0, qt_mode = TermWrite\<rparr>"
  let ?sc = "\<lambda>e vals. ([(0, [1, 2])], if vals = [Some [7, 8]] then [0] else [], True) :: (nat \<times> bytes) list \<times> nat list \<times> bool"
  note f = sample_spawned_facts
  obtain ok w where a: "w_add ?e 0 [7, 8] sample_spawned = (ok, w)" by fastforce
  have c: "0 < length (w_stores sample_spawned)" "length [7, 8 :: u8] = st_size (the_store sample_spawned 0)"
    using f(3) by (simp_all add: f(4) newStoreOf_def)
  note w = w_add_spec[OF w_reach_inv[OF f(1)] c(1) f(2,5) c(2) a]
  have r: "sample_reaches w" by (rule w_reach_step[OF f(1) ws_added[OF c(1) f(5) c(2) a]])
  have "w_view sample_spawned x 0 = None" for x
    by (simp add: w_view_def f(4) st_map_def st_get_def has_slot_def newStoreOf_def)
  then have v: "w_view w x 0 = (if x = ?e then Some [7, 8] else None)" for x using w(4) by simp
  have len: "0 < length (w_stores w)" "st_size (the_store w 0) = 2" using w(3) c by (simp_all add: same_frame_def)
  obtain calls w' where q: "query_All [?t] (script_body [?t] ?sc) w = (calls, w')" by fastforce
  have t: "terms_ok w [?t]" using len by (simp add: terms_ok_def)
  have d: "declareQuery [?t] = Some (1, 0)" by (simp add: declareQuery_def declare_mode_def mode_writes_def mode_optional_def mode_drives_def)
  have s: "script_ok w [?t] ?sc" using len by (simp add: script_ok_def acts_ok_def mode_writes_def)
  have acc: "query_accepts w [?t] x \<longleftrightarrow> x = ?e" for x
    using v[of x] by (simp add: query_accepts_def term_accepts_def mode_optional_def)
  note x = query_exact[OF w(2) t d s q]
  have di: "distinct (map fst calls)" and all: "(\<forall>e. script_goes [?t] ?sc e (w_view w e)) \<longrightarrow> set (map fst calls) = {e. query_accepts w [?t] e}"
    using x by blast+
  have "set (map fst calls) = {?e}" using all acc by (simp add: script_goes_def)
  with di
  have one: "map fst calls = [?e]" by (rule distinct_one)
  have "w_view w' = (\<lambda>x. if x \<in> set (map fst calls) then script_view [?t] ?sc x (w_view w x) else w_view w x)"
    using x by blast
  then have "w_view w' ?e 0 = None" using one v[of ?e] by (simp add: script_view_def drop_view_def)
  then show ?thesis using r q one v[of ?e] by (intro exI[of _ w] exI[of _ calls] exI[of _ w']) simp
qed

end
