(* ===== verification/Ecs_Delta.thy ===== *)
theory Ecs_Delta
  imports Ecs_Query
begin

text \<open>
  \<open>ecs/delta.go\<close>, and the walks of \<open>ecs/deltaquery_gen.go\<close>, generated once for each number of terms up to 8 and the
  same but for it: here the terms are a list.  A walk only reads, so that breaking it off leaves a prefix of
  what it yields, a list.  An address of a shadow is the row it is of.
\<close>

section \<open>Declaring\<close>

datatype delta_panic = TermWrites | TermOptional | FiltersOnly

fun observe_terms :: "query_term list \<Rightarrow> bool \<Rightarrow> ('r, 'b) world \<Rightarrow> delta_panic option \<times> ('r, 'b) world" where
  "observe_terms [] vals w = (if \<not> vals then Some FiltersOnly else None, w)"
| "observe_terms (t # ts) vals w =
     (case qt_mode t of
        TermWrite \<Rightarrow> (Some TermWrites, w)
      | TermOptionalRead \<Rightarrow> (Some TermOptional, w)
      | TermOptionalWrite \<Rightarrow> (Some TermOptional, w)
      | TermRead \<Rightarrow> observe_terms ts True (upd_store (qt_store t) (registerObserver (the_store w (qt_store t))) w)
      | _ \<Rightarrow> observe_terms ts vals w)"

definition declareDeltaQuery :: "query_term list \<Rightarrow> ('r, 'b) world \<Rightarrow> delta_panic option \<times> ('r, 'b) world" where
  "declareDeltaQuery terms w = observe_terms terms False w"

text \<open>A delta query's \<open>Declare\<close>, which changes the world by the observers it registers, even as it panics.\<close>

datatype delta_declare_panic = DeltaTermPanic world_panic | DeltaPanic delta_panic

definition delta_Declare ::
  "term_type list \<Rightarrow> ('r, 'b) world \<Rightarrow> (delta_declare_panic + query_term list \<times> (nat \<times> bool) list) \<times> ('r, 'b) world" where
  "delta_Declare types w =
     (case declare_terms types w of
        Inl p \<Rightarrow> (Inl (DeltaTermPanic p), w)
      | Inr ts \<Rightarrow> (case declareDeltaQuery (map fst ts) w of
            (Some p, w1) \<Rightarrow> (Inl (DeltaPanic p), w1)
          | (None, w1) \<Rightarrow> (Inr (map fst ts, map snd ts), w1)))"

section \<open>The walk\<close>

record delta_walk =
  dw_addresses :: "address list"
  dw_previous :: "address list"
  dw_deltas :: "delta list"

definition new_delta_walk :: delta_walk where
  "new_delta_walk = \<lparr>dw_addresses = replicate 8 NilAddr, dw_previous = replicate 8 NilAddr, dw_deltas = replicate 8 DeltaNone\<rparr>"

definition walk_observed :: "query_term list \<Rightarrow> ('r, 'b) world \<Rightarrow> bool" where
  "walk_observed terms w \<longleftrightarrow> (\<forall>t \<in> set terms. qt_mode t = TermRead \<longrightarrow> st_observed (the_store w (qt_store t)))"

definition fill_term :: "nat \<Rightarrow> address \<Rightarrow> address \<Rightarrow> delta \<Rightarrow> delta_walk \<Rightarrow> delta_walk" where
  "fill_term i address previous delta walk =
     walk\<lparr>dw_addresses := (dw_addresses walk)[i := address], dw_previous := (dw_previous walk)[i := previous],
          dw_deltas := (dw_deltas walk)[i := delta]\<rparr>"

text \<open>The loop of \<open>matches\<close> from term \<open>i\<close>, for an entity with a delta at the driving row.\<close>

fun delta_terms ::
  "('r, 'b) world \<Rightarrow> nat \<Rightarrow> nat \<Rightarrow> delta \<Rightarrow> entity \<Rightarrow> nat \<Rightarrow> query_term list \<Rightarrow> delta_walk \<Rightarrow> bool \<times> delta_walk" where
  "delta_terms w driving drivingRow drivingDelta e i [] walk = (True, walk)"
| "delta_terms w driving drivingRow drivingDelta e i (t # ts) walk =
     (let s = the_store w (qt_store t)
      in if qt_mode t \<noteq> TermRead
         then if snd (st_row s e) = (qt_mode t = TermWithout) then (False, walk)
              else delta_terms w driving drivingRow drivingDelta e (i + 1) ts (fill_term i TagRow TagRow DeltaNone walk)
         else case (if i \<noteq> driving then reportedRow s e else (drivingRow, True)) of (row, ok) \<Rightarrow>
           if \<not> ok then (False, walk)
           else let delta = (if i \<noteq> driving then st_delta s row else drivingDelta)
                in if i < driving \<and> delta \<noteq> DeltaNone then (False, walk)
                   else delta_terms w driving drivingRow drivingDelta e (i + 1) ts
                          (fill_term i (RowAddr row) (if delta \<noteq> DeltaAdded then RowAddr row else NilAddr) delta walk))"

definition delta_matches :: "('r, 'b) world \<Rightarrow> query_term list \<Rightarrow> nat \<Rightarrow> nat \<Rightarrow> delta_walk \<Rightarrow> bool \<times> delta_walk" where
  "delta_matches w terms driving row walk =
     (let s = the_store w (qt_store (terms ! driving)); drivingDelta = st_delta s row
      in if drivingDelta = DeltaNone then (False, walk)
         else delta_terms w driving row drivingDelta (st_owners s ! row) 0 terms walk)"

text \<open>The rows yielded: the first fields of the walk, of as many terms as there are.\<close>

record delta_row =
  dr_addresses :: "address list"
  dr_previous :: "address list"
  dr_deltas :: "delta list"

definition delta_row_of :: "nat \<Rightarrow> delta_walk \<Rightarrow> delta_row" where
  "delta_row_of n walk =
     \<lparr>dr_addresses = take n (dw_addresses walk), dr_previous = take n (dw_previous walk), dr_deltas = take n (dw_deltas walk)\<rparr>"

definition delta_visit ::
  "('r, 'b) world \<Rightarrow> query_term list \<Rightarrow> nat \<Rightarrow> nat \<Rightarrow> (entity \<times> delta_row) list \<times> delta_walk \<Rightarrow> (entity \<times> delta_row) list \<times> delta_walk" where
  "delta_visit w terms driving i st =
     (case st of (out, walk) \<Rightarrow>
        let s = the_store w (qt_store (terms ! driving)); row = (if \<not> st_overflow s then listedRow s i else i)
        in if st_overflow s \<and> st_states s ! row = RowUnchanged then (out, walk)
           else case delta_matches w terms driving row walk of (ok, walk1) \<Rightarrow>
             if \<not> ok then (out, walk1) else (out @ [(st_owners s ! row, delta_row_of (length terms) walk1)], walk1))"

definition delta_drive ::
  "('r, 'b) world \<Rightarrow> query_term list \<Rightarrow> nat \<Rightarrow> (entity \<times> delta_row) list \<times> delta_walk \<Rightarrow> (entity \<times> delta_row) list \<times> delta_walk" where
  "delta_drive w terms driving st =
     (if qt_mode (terms ! driving) \<noteq> TermRead then st
      else fold (delta_visit w terms driving) [0..<walkedRows (the_store w (qt_store (terms ! driving)))] st)"

definition delta_All :: "query_term list \<Rightarrow> ('r, 'b) world \<Rightarrow> (entity \<times> delta_row) list" where
  "delta_All terms w =
     (if \<not> walk_observed terms w then []
      else fst (fold (delta_drive w terms) [0..<length terms] ([], new_delta_walk)))"

text \<open>The methods of a row: its terms now, as of the reset, and what happened to each.\<close>

definition delta_Get :: "query_term list \<Rightarrow> ('r, 'b) world \<Rightarrow> delta_row \<Rightarrow> bytes list" where
  "delta_Get terms w row =
     map (\<lambda>i. let t = terms ! i; s = the_store w (qt_store t)
              in take (term_size s t) (read_address s (dr_addresses row ! i))) [0..<length terms]"

text \<open>\<open>previousValue\<close>, of a value of the given size: the row's shadow, or zero bytes.\<close>

definition previousValue :: "bytes store \<Rightarrow> nat \<Rightarrow> address \<Rightarrow> bytes" where
  "previousValue s sz a =
     (case a of NilAddr \<Rightarrow> replicate sz 0 | RowAddr row \<Rightarrow> if sz = 0 then [] else shadow_at s row | TagRow \<Rightarrow> [])"

definition delta_Previous :: "query_term list \<Rightarrow> ('r, 'b) world \<Rightarrow> delta_row \<Rightarrow> bytes list" where
  "delta_Previous terms w row =
     map (\<lambda>i. let t = terms ! i; s = the_store w (qt_store t)
              in previousValue s (term_size s t) (dr_previous row ! i)) [0..<length terms]"

definition delta_Delta :: "delta_row \<Rightarrow> delta list" where
  "delta_Delta row = dr_deltas row"

section \<open>What a term knows of an entity\<close>

text \<open>What the stores held at the last reset, for those that observe.\<close>

definition window_base :: "('r, 'b) world \<Rightarrow> (nat \<Rightarrow> entity \<Rightarrow> bytes option) \<Rightarrow> bool" where
  "window_base w base \<longleftrightarrow> (\<forall>c < length (w_stores w). st_obs (the_store w c) = Observed \<longrightarrow> obs_inv (base c) (the_store w c))"

lemma window_base_exists: "world_inv w \<Longrightarrow> \<exists>base. window_base w base"
proof -
  assume "world_inv w"
  then have "\<forall>c. \<exists>b. c < length (w_stores w) \<longrightarrow> st_obs (the_store w c) = Observed \<longrightarrow> obs_inv b (the_store w c)"
    using heldD(4)[OF world_invD(4)] by blast
  from choice[OF this] show ?thesis by (simp add: window_base_def)
qed

definition delta_at :: "('r, 'b) world \<Rightarrow> (nat \<Rightarrow> entity \<Rightarrow> bytes option) \<Rightarrow> entity \<Rightarrow> nat \<Rightarrow> delta" where
  "delta_at w base e c = diff_of (base c e) (w_view w e c)"

definition delta_accepts :: "('r, 'b) world \<Rightarrow> (nat \<Rightarrow> entity \<Rightarrow> bytes option) \<Rightarrow> query_term list \<Rightarrow> entity \<Rightarrow> bool" where
  "delta_accepts w base terms e \<longleftrightarrow>
     (\<forall>t \<in> set terms.
        if qt_mode t = TermRead then base (qt_store t) e \<noteq> None \<or> w_view w e (qt_store t) \<noteq> None
        else (w_view w e (qt_store t) = None) = (qt_mode t = TermWithout))"

text \<open>A store whose rows are all linked finds the row it reports of an entity, live or removed.\<close>

definition watched :: "(entity \<Rightarrow> 'v option) \<Rightarrow> 'v store \<Rightarrow> bool" where
  "watched base s \<longleftrightarrow> obs_inv base s \<and> (\<forall>r < length (st_owners s). linked s r)"

lemma reported_row:
  assumes "watched base s" and "r < length (st_owners s)" and "own s r = e"
  shows "reportedRow s e = (r, r < st_live s \<or> st_states s ! r = RowRemoved)"
    and "(r < st_live s \<or> st_states s ! r = RowRemoved) \<longleftrightarrow> base e \<noteq> None \<or> st_map s e \<noteq> None"
proof -
  have o: "obs_inv base s" and l: "linked s r" using assms by (simp_all add: watched_def)
  note oD = obs_invD[OF o]
  note sl = slot_row_linked[OF st_invD(1)[OF oD(1)] assms(2) l]
  show "reportedRow s e = (r, r < st_live s \<or> st_states s ! r = RowRemoved)"
    using sl assms(2,3) by (auto simp: reportedRow_def own_def)
  show "(r < st_live s \<or> st_states s ! r = RowRemoved) \<longleftrightarrow> base e \<noteq> None \<or> st_map s e \<noteq> None"
  proof (cases "r < st_live s")
    case True
    then show ?thesis using st_map_row[OF oD(1) True assms(3)] by simp
  next
    case False
    then show ?thesis using tail_states[OF o _ assms(2)] tail_gone[OF o _ assms(2)] assms(3) by auto
  qed
qed

lemma reported_spec:
  assumes "watched base s"
  shows "snd (reportedRow s e) \<longleftrightarrow> base e \<noteq> None \<or> st_map s e \<noteq> None"
    and "snd (reportedRow s e) \<Longrightarrow> fst (reportedRow s e) < length (st_owners s) \<and> own s (fst (reportedRow s e)) = e
      \<and> st_delta s (fst (reportedRow s e)) = diff_of (base e) (st_map s e)"
proof -
  have o: "obs_inv base s" using assms by (simp add: watched_def)
  note oD = obs_invD[OF o]
  show found: "fst (reportedRow s e) < length (st_owners s) \<and> own s (fst (reportedRow s e)) = e
      \<and> st_delta s (fst (reportedRow s e)) = diff_of (base e) (st_map s e)" if "snd (reportedRow s e)"
  proof -
    have "fst (reportedRow s e) < length (st_owners s) \<and> own s (fst (reportedRow s e)) = e"
      using that by (auto simp: reportedRow_def own_def Let_def split: if_splits)
    then show ?thesis using row_delta[OF o, of "fst (reportedRow s e)"] by simp
  qed
  show "snd (reportedRow s e) \<longleftrightarrow> base e \<noteq> None \<or> st_map s e \<noteq> None"
  proof (cases "e \<in> set (st_owners s)")
    case True
    then obtain r where "r < length (st_owners s)" "own s r = e" by (auto simp: in_set_conv_nth own_def)
    then show ?thesis using reported_row[OF assms, of r e] by simp
  next
    case False
    then have "base e = None" using oD(4) by blast
    moreover have "st_map s e = None"
      using st_map_none[OF oD(1), of e] False st_invD(3)[OF oD(1)] by (auto simp: own_def)
    moreover have "\<not> snd (reportedRow s e)" using found False by (metis nth_mem own_def)
    ultimately show ?thesis by simp
  qed
qed

lemma watched_term:
  assumes "world_inv w" and "window_base w base" and "walk_observed terms w" and "terms_ok w terms"
    and "t \<in> set terms" and "qt_mode t = TermRead"
  shows "watched (base (qt_store t)) (the_store w (qt_store t))"
proof -
  have c: "qt_store t < length (w_stores w)" using assms(4,5) by (simp add: terms_ok_def)
  have "st_obs (the_store w (qt_store t)) = Observed" using assms(3,5,6) by (simp add: walk_observed_def st_observed_def)
  then show ?thesis using assms(2) c heldD(2)[OF world_invD(4)[OF assms(1) c]] by (simp add: watched_def window_base_def)
qed

text \<open>
  The window a reset opens: the stores that observed hold what they held; those that start observing held nothing.
\<close>

lemma reset_window:
  assumes "world_inv w" and "w' = w_resetObservation startRef resetRef w"
  shows "window_base w' (\<lambda>c e. if st_obs (the_store w c) = Observed then w_view w e c else None)"
proof -
  note i = world_invD[OF assms(1)]
  obtain started t where ew: "endWindow (w_entities w) = (started, t)" by fastforce
  note ef = endWindow_facts[OF i(1) ew]
  have "obs_inv (\<lambda>e. if st_obs (the_store w c) = Observed then w_view w e c else None) (the_store w' c)"
    if c: "c < length (w_stores w)" "st_obs (the_store w' c) = Observed" for c
  proof -
    have st: "the_store w' c = (if started then startObservation (the_store w c) else resetObservation (the_store w c))"
      using c(1) by (simp add: assms(2) w_resetObservation_def ew the_store_def)
    note h = i(4)[OF c(1)]
    show ?thesis
    proof (cases "st_obs (the_store w c) = Observed")
      case True
      then have "the_store w' c = resetObservation (the_store w c)" using st heldD(3)[OF h True] ef(1) by simp
      moreover obtain b where "obs_inv b (the_store w c)" using heldD(4)[OF h True] by blast
      ultimately show ?thesis using reset_obs[of b "the_store w c"] True c(1) by (simp add: w_view_def)
    next
      case False
      then have "started" using c(2) st reset_other[OF False] by (auto split: if_splits)
      moreover have "st_obs (the_store w c) = ObserverWaiting"
        using c(2) st calculation False by (auto simp: startObservation_def split: if_splits)
      ultimately show ?thesis using start_obs(1)[OF heldD(1)[OF h]] st False by simp
    qed
  qed
  moreover have "length (w_stores w') = length (w_stores w)" by (simp add: assms(2) w_resetObservation_def ew)
  ultimately show ?thesis by (simp add: window_base_def)
qed

section \<open>Matching an entity\<close>

definition term_fits :: "('r, 'b) world \<Rightarrow> entity \<Rightarrow> nat \<Rightarrow> nat \<Rightarrow> query_term \<Rightarrow> bool" where
  "term_fits w e driving i t \<longleftrightarrow>
     (let s = the_store w (qt_store t)
      in if qt_mode t \<noteq> TermRead then snd (st_row s e) \<noteq> (qt_mode t = TermWithout)
         else snd (reportedRow s e) \<and> (i < driving \<longrightarrow> st_delta s (fst (reportedRow s e)) = DeltaNone))"

definition term_delta :: "('r, 'b) world \<Rightarrow> entity \<Rightarrow> query_term \<Rightarrow> delta" where
  "term_delta w e t =
     (let s = the_store w (qt_store t) in if qt_mode t \<noteq> TermRead then DeltaNone else st_delta s (fst (reportedRow s e)))"

definition term_address :: "('r, 'b) world \<Rightarrow> entity \<Rightarrow> query_term \<Rightarrow> address" where
  "term_address w e t =
     (if qt_mode t \<noteq> TermRead then TagRow else RowAddr (fst (reportedRow (the_store w (qt_store t)) e)))"

definition term_previous :: "('r, 'b) world \<Rightarrow> entity \<Rightarrow> query_term \<Rightarrow> address" where
  "term_previous w e t = (if term_delta w e t \<noteq> DeltaAdded then term_address w e t else NilAddr)"

definition fill :: "('r, 'b) world \<Rightarrow> entity \<Rightarrow> nat \<times> query_term \<Rightarrow> delta_walk \<Rightarrow> delta_walk" where
  "fill w e it walk =
     fill_term (fst it) (term_address w e (snd it)) (term_previous w e (snd it)) (term_delta w e (snd it)) walk"

lemma delta_terms_step:
  assumes "i = driving \<Longrightarrow> qt_mode t = TermRead \<and> reportedRow (the_store w (qt_store t)) e = (drow, True)
      \<and> ddelta = st_delta (the_store w (qt_store t)) drow"
  shows "delta_terms w driving drow ddelta e i (t # ts) walk =
    (if term_fits w e driving i t then delta_terms w driving drow ddelta e (Suc i) ts (fill w e (i, t) walk) else (False, walk))"
proof (cases "qt_mode t = TermRead")
  case False
  then show ?thesis
    using assms by (auto simp: term_fits_def fill_def term_address_def term_previous_def term_delta_def Let_def)
next
  case True
  obtain row ok where r: "reportedRow (the_store w (qt_store t)) e = (row, ok)" by fastforce
  show ?thesis
  proof (cases "i = driving")
    case i: True
    then show ?thesis
      using assms True by (simp add: term_fits_def fill_def term_address_def term_previous_def term_delta_def Let_def)
  next
    case i: False
    then show ?thesis
      using True r by (simp add: term_fits_def fill_def term_address_def term_previous_def term_delta_def Let_def)
  qed
qed

lemma delta_terms_fold:
  assumes "delta_terms w driving drow ddelta e i ts walk = (ok, walk')"
    and "\<And>j. j < length ts \<Longrightarrow> i + j = driving \<Longrightarrow> qt_mode (ts ! j) = TermRead
      \<and> reportedRow (the_store w (qt_store (ts ! j))) e = (drow, True) \<and> ddelta = st_delta (the_store w (qt_store (ts ! j))) drow"
  shows "(ok \<longleftrightarrow> (\<forall>j < length ts. term_fits w e driving (i + j) (ts ! j)))
    \<and> (ok \<longrightarrow> walk' = fold (fill w e) (enumerate i ts) walk)"
  using assms
proof (induction ts arbitrary: i walk)
  case (Cons t ts)
  have all: "(\<forall>j < length (t # ts). term_fits w e driving (i + j) ((t # ts) ! j)) \<longleftrightarrow>
      term_fits w e driving i t \<and> (\<forall>j < length ts. term_fits w e driving (Suc i + j) (ts ! j))"
    by (auto simp: less_Suc_eq_0_disj)
  have here: "i = driving \<Longrightarrow> qt_mode t = TermRead \<and> reportedRow (the_store w (qt_store t)) e = (drow, True)
      \<and> ddelta = st_delta (the_store w (qt_store t)) drow" using Cons.prems(2)[of 0] by simp
  note step = delta_terms_step[OF here]
  show ?case
  proof (cases "term_fits w e driving i t")
    case True
    then have "delta_terms w driving drow ddelta e (Suc i) ts (fill w e (i, t) walk) = (ok, walk')" using Cons.prems(1) step by simp
    from Cons.IH[OF this] show ?thesis unfolding all using True Cons.prems(2)[of "Suc j" for j] by simp
  next
    case False
    then show ?thesis unfolding all using Cons.prems(1) step by simp
  qed
qed simp

lemma fill_lengths [simp]:
  "length (dw_addresses (fill w e it walk)) = length (dw_addresses walk)"
  "length (dw_previous (fill w e it walk)) = length (dw_previous walk)"
  "length (dw_deltas (fill w e it walk)) = length (dw_deltas walk)"
  by (simp_all add: fill_def fill_term_def)

definition walk_sized :: "delta_walk \<Rightarrow> bool" where
  "walk_sized walk \<longleftrightarrow> length (dw_addresses walk) = 8 \<and> length (dw_previous walk) = 8 \<and> length (dw_deltas walk) = 8"

lemma fill_sized [simp]: "walk_sized (fill w e it walk) = walk_sized walk" "walk_sized (fill_term i a p d walk) = walk_sized walk"
  by (simp_all add: walk_sized_def) (simp add: fill_term_def)

lemma delta_terms_sized:
  "walk_sized walk \<Longrightarrow> walk_sized (snd (delta_terms w driving drow ddelta e i ts walk))"
  by (induction ts arbitrary: i walk) (auto simp: Let_def split: prod.splits)

text \<open>The terms from \<open>i\<close> are filled in, and those before it left.\<close>

lemma fill_all:
  assumes "walk_sized walk" and "i + length ts \<le> 8" and "walk' = fold (fill w e) (enumerate i ts) walk"
  shows "take (i + length ts) (dw_addresses walk') = take i (dw_addresses walk) @ map (term_address w e) ts
    \<and> take (i + length ts) (dw_previous walk') = take i (dw_previous walk) @ map (term_previous w e) ts
    \<and> take (i + length ts) (dw_deltas walk') = take i (dw_deltas walk) @ map (term_delta w e) ts"
  using assms(1,2) unfolding assms(3)
proof (induction ts arbitrary: i walk)
  case (Cons t ts)
  have "i < 8" using Cons.prems(2) by simp
  then have "take (Suc i) (dw_addresses (fill w e (i, t) walk)) = take i (dw_addresses walk) @ [term_address w e t]"
    "take (Suc i) (dw_previous (fill w e (i, t) walk)) = take i (dw_previous walk) @ [term_previous w e t]"
    "take (Suc i) (dw_deltas (fill w e (i, t) walk)) = take i (dw_deltas walk) @ [term_delta w e t]"
    using Cons.prems(1) by (simp_all add: take_Suc_conv_app_nth walk_sized_def) (simp_all add: fill_def fill_term_def)
  then show ?case using Cons.IH[of "fill w e (i, t) walk" "Suc i"] Cons.prems by simp
qed simp

definition delta_row_spec :: "('r, 'b) world \<Rightarrow> query_term list \<Rightarrow> entity \<Rightarrow> delta_row" where
  "delta_row_spec w terms e =
     \<lparr>dr_addresses = map (term_address w e) terms, dr_previous = map (term_previous w e) terms, dr_deltas = map (term_delta w e) terms\<rparr>"

text \<open>The first value term with a delta, which yields the entity.\<close>

definition first_delta :: "('r, 'b) world \<Rightarrow> (nat \<Rightarrow> entity \<Rightarrow> bytes option) \<Rightarrow> query_term list \<Rightarrow> entity \<Rightarrow> nat \<Rightarrow> bool" where
  "first_delta w base terms e k \<longleftrightarrow>
     qt_mode (terms ! k) = TermRead \<and> delta_at w base e (qt_store (terms ! k)) \<noteq> DeltaNone
     \<and> (\<forall>i < k. qt_mode (terms ! i) = TermRead \<longrightarrow> delta_at w base e (qt_store (terms ! i)) = DeltaNone)"

lemma delta_matches_spec:
  assumes "world_inv w" and "window_base w base" and "walk_observed terms w" and "terms_ok w terms"
    and "k < length terms" and "qt_mode (terms ! k) = TermRead" and "r < length (st_owners (term_store w terms k))"
    and "walk_sized walk" and "delta_matches w terms k r walk = (ok, walk')"
  defines "e \<equiv> own (term_store w terms k) r"
  shows "ok \<longleftrightarrow> delta_accepts w base terms e \<and> first_delta w base terms e k" and "walk_sized walk'"
    and "ok \<Longrightarrow> delta_row_of (length terms) walk' = delta_row_spec w terms e"
proof -
  let ?s = "term_store w terms k" and ?d = "\<lambda>i. delta_at w base e (qt_store (terms ! i))"
  have wt: "watched (base (qt_store (terms ! i))) (term_store w terms i)" if "i < length terms" "qt_mode (terms ! i) = TermRead" for i
    by (rule watched_term[OF assms(1-4) _ that(2)]) (use that(1) in simp)
  have view: "w_view w e (qt_store (terms ! i)) = st_map (term_store w terms i) e" if "i < length terms" for i
    using terms_okD[OF assms(4) that] by (simp add: w_view_def)
  have eo: "own ?s r = e" by (simp add: e_def)
  have dk: "st_delta ?s r = ?d k"
    using row_delta[OF _ assms(7)] wt[OF assms(5,6)] view[OF assms(5)] by (simp add: watched_def delta_at_def e_def)
  show sized: "walk_sized walk'"
    using assms(8,9) delta_terms_sized[OF assms(8), of w k r "st_delta ?s r" "st_owners ?s ! r" 0 terms]
    by (auto simp: delta_matches_def Let_def split: if_splits)
  have n8: "0 + length terms \<le> 8" using assms(4) by (simp add: terms_ok_def)
  have "(ok \<longleftrightarrow> delta_accepts w base terms e \<and> first_delta w base terms e k)
    \<and> (ok \<longrightarrow> delta_row_of (length terms) walk' = delta_row_spec w terms e)"
  proof (cases "?d k = DeltaNone")
    case True
    then have "\<not> ok" using assms(9) dk by (simp add: delta_matches_def)
    then show ?thesis using True by (simp add: first_delta_def)
  next
    case False
    have "reportedRow ?s e = (r, True)"
      using reported_row[OF wt[OF assms(5,6)] assms(7) eo] False view[OF assms(5)]
      by (auto simp: delta_at_def diff_of_def)
    then have drv: "qt_mode (terms ! j) = TermRead \<and> reportedRow (term_store w terms j) e = (r, True)
        \<and> ?d k = st_delta (term_store w terms j) r" if "0 + j = k" for j
      using that assms(6) dk by simp
    have m: "delta_terms w k r (?d k) e 0 terms walk = (ok, walk')"
      using assms(9) dk[unfolded e_def own_def] False[unfolded e_def own_def] by (simp add: delta_matches_def e_def own_def Let_def)
    note f = delta_terms_fold[OF m drv]
    have fits: "term_fits w e k i (terms ! i) \<longleftrightarrow>
        (if qt_mode (terms ! i) = TermRead
         then (base (qt_store (terms ! i)) e \<noteq> None \<or> w_view w e (qt_store (terms ! i)) \<noteq> None) \<and> (i < k \<longrightarrow> ?d i = DeltaNone)
         else (w_view w e (qt_store (terms ! i)) = None) = (qt_mode (terms ! i) = TermWithout))" if i: "i < length terms" for i
    proof (cases "qt_mode (terms ! i) = TermRead")
      case True
      note rs = reported_spec[OF wt[OF i True], of e]
      show ?thesis using True rs view[OF i] by (auto simp: term_fits_def delta_at_def)
    next
      case False
      then show ?thesis using st_row_none[of "term_store w terms i" e] view[OF i] by (auto simp: term_fits_def st_map_def)
    qed
    have "ok \<longleftrightarrow> delta_accepts w base terms e \<and> first_delta w base terms e k"
    proof -
      have "ok \<longleftrightarrow> (\<forall>i < length terms. term_fits w e k i (terms ! i))" using f by simp
      also have "\<dots> \<longleftrightarrow> (\<forall>i < length terms. if qt_mode (terms ! i) = TermRead
          then base (qt_store (terms ! i)) e \<noteq> None \<or> w_view w e (qt_store (terms ! i)) \<noteq> None
          else (w_view w e (qt_store (terms ! i)) = None) = (qt_mode (terms ! i) = TermWithout))
          \<and> (\<forall>i < length terms. qt_mode (terms ! i) = TermRead \<longrightarrow> i < k \<longrightarrow> ?d i = DeltaNone)"
        using fits by (simp split: if_splits) blast
      finally show ?thesis
        unfolding delta_accepts_def first_delta_def all_set_conv_all_nth using False assms(5,6) by auto
    qed
    moreover have "delta_row_of (length terms) walk' = delta_row_spec w terms e" if "ok"
      using f that fill_all[OF assms(8) n8, of walk' w e] by (simp add: delta_row_of_def delta_row_spec_def)
    ultimately show ?thesis by blast
  qed
  then show "ok \<longleftrightarrow> delta_accepts w base terms e \<and> first_delta w base terms e k"
    and "ok \<Longrightarrow> delta_row_of (length terms) walk' = delta_row_spec w terms e" by blast+
qed

section \<open>The walk, term by term\<close>

definition yields_at :: "('r, 'b) world \<Rightarrow> (nat \<Rightarrow> entity \<Rightarrow> bytes option) \<Rightarrow> query_term list \<Rightarrow> nat \<Rightarrow> entity \<Rightarrow> bool" where
  "yields_at w base terms k e \<longleftrightarrow> delta_accepts w base terms e \<and> first_delta w base terms e k"

text \<open>The owners of the rows a term's store walks, in their order.\<close>

definition walked_owners :: "'v store \<Rightarrow> entity list" where
  "walked_owners s = map (\<lambda>i. own s (walked_row s i)) [0..<walkedRows s]"

definition delta_out :: "('r, 'b) world \<Rightarrow> (nat \<Rightarrow> entity \<Rightarrow> bytes option) \<Rightarrow> query_term list \<Rightarrow> nat \<Rightarrow> entity list \<Rightarrow> (entity \<times> delta_row) list" where
  "delta_out w base terms k es = map (\<lambda>e. (e, delta_row_spec w terms e)) (filter (yields_at w base terms k) es)"

lemma delta_visit_spec:
  assumes "world_inv w" and "window_base w base" and "walk_observed terms w" and "terms_ok w terms"
    and "k < length terms" and "qt_mode (terms ! k) = TermRead" and "i < walkedRows (term_store w terms k)"
    and "walk_sized walk" and "delta_visit w terms k i (out, walk) = (out', walk')"
  shows "out' = out @ delta_out w base terms k [own (term_store w terms k) (walked_row (term_store w terms k) i)]" and "walk_sized walk'"
proof -
  let ?s = "term_store w terms k"
  let ?r = "walked_row ?s i"
  have wt: "watched (base (qt_store (terms ! k))) ?s" by (rule watched_term[OF assms(1-4) _ assms(6)]) (use assms(5) in simp)
  then have o: "obs_inv (base (qt_store (terms ! k))) ?s" by (simp add: watched_def)
  have r: "?r < length (st_owners ?s)" by (rule walked_distinct(2)[OF o assms(7)])
  obtain ok walk1 where m: "delta_matches w terms k ?r walk = (ok, walk1)" by fastforce
  note sp = delta_matches_spec[OF assms(1-6) r assms(8) m]
  have row: "(if \<not> st_overflow ?s then listedRow ?s i else i) = ?r" by (simp add: walked_row_def)
  have vis: "delta_visit w terms k i (out, walk) =
      (if st_overflow ?s \<and> st_states ?s ! ?r = RowUnchanged then (out, walk)
       else if \<not> ok then (out, walk1) else (out @ [(own ?s ?r, delta_row_of (length terms) walk1)], walk1))"
    by (simp only: delta_visit_def Let_def prod.case row m own_def)
  show "out' = out @ delta_out w base terms k [own ?s ?r]" "walk_sized walk'"
  proof -
    have "out' = out @ delta_out w base terms k [own ?s ?r] \<and> walk_sized walk'"
    proof (cases "st_overflow ?s \<and> st_states ?s ! ?r = RowUnchanged")
      case True
      have "st_delta ?s ?r = DeltaNone" using True by (simp add: st_delta_def)
      then have "delta_at w base (own ?s ?r) (qt_store (terms ! k)) = DeltaNone"
        using row_delta[OF o r] terms_okD[OF assms(4,5)] by (simp add: delta_at_def w_view_def)
      moreover have "out' = out" "walk' = walk" using assms(9) True vis by simp_all
      ultimately show ?thesis using assms(8) by (simp add: delta_out_def yields_at_def first_delta_def)
    next
      case False
      then have "(out', walk') = (if \<not> ok then (out, walk1) else (out @ [(own ?s ?r, delta_row_of (length terms) walk1)], walk1))"
        using assms(9) vis by argo
      then show ?thesis using sp by (auto simp: delta_out_def yields_at_def split: if_splits)
    qed
    then show "out' = out @ delta_out w base terms k [own ?s ?r]" "walk_sized walk'" by blast+
  qed
qed

lemma delta_drive_spec:
  assumes "world_inv w" and "window_base w base" and "walk_observed terms w" and "terms_ok w terms"
    and "k < length terms" and "walk_sized walk" and "delta_drive w terms k (out, walk) = (out', walk')"
  shows "out' = out @ (if qt_mode (terms ! k) = TermRead then delta_out w base terms k (walked_owners (term_store w terms k)) else [])
    \<and> walk_sized walk'"
proof (cases "qt_mode (terms ! k) = TermRead")
  case True
  let ?s = "term_store w terms k"
  have "\<exists>walk1. fold (delta_visit w terms k) [0..<n] (out, walk) =
      (out @ delta_out w base terms k (map (\<lambda>i. own ?s (walked_row ?s i)) [0..<n]), walk1) \<and> walk_sized walk1"
    if "n \<le> walkedRows ?s" for n
    using that
  proof (induction n)
    case 0
    then show ?case using assms(6) by (simp add: delta_out_def)
  next
    case (Suc n)
    let ?out = "out @ delta_out w base terms k (map (\<lambda>i. own ?s (walked_row ?s i)) [0..<n])"
    obtain walk1 where ih: "fold (delta_visit w terms k) [0..<n] (out, walk) = (?out, walk1)" "walk_sized walk1"
      using Suc by auto
    obtain out2 walk2 where v: "delta_visit w terms k n (?out, walk1) = (out2, walk2)" by fastforce
    have "n < walkedRows ?s" using Suc.prems by simp
    note sp = delta_visit_spec[OF assms(1-5) True this ih(2) v]
    show ?case using ih(1) v sp by (simp add: delta_out_def)
  qed
  from this[of "walkedRows ?s"] show ?thesis using assms(7) True by (auto simp: delta_drive_def walked_owners_def)
qed (use assms(6,7) in \<open>simp add: delta_drive_def\<close>)

lemma delta_All_spec:
  assumes "world_inv w" and "window_base w base" and "walk_observed terms w" and "terms_ok w terms"
  shows "delta_All terms w = concat (map (\<lambda>k. if qt_mode (terms ! k) = TermRead
      then delta_out w base terms k (walked_owners (term_store w terms k)) else []) [0..<length terms])"
proof -
  let ?out = "\<lambda>k. if qt_mode (terms ! k) = TermRead then delta_out w base terms k (walked_owners (term_store w terms k)) else []"
  have "\<exists>walk. fold (delta_drive w terms) [0..<n] ([], new_delta_walk) = (concat (map ?out [0..<n]), walk) \<and> walk_sized walk"
    if "n \<le> length terms" for n
    using that
  proof (induction n)
    case 0
    then show ?case by (simp add: walk_sized_def new_delta_walk_def)
  next
    case (Suc n)
    obtain walk1 where ih: "fold (delta_drive w terms) [0..<n] ([], new_delta_walk) = (concat (map ?out [0..<n]), walk1)" "walk_sized walk1"
      using Suc by auto
    obtain out2 walk2 where v: "delta_drive w terms n (concat (map ?out [0..<n]), walk1) = (out2, walk2)" by fastforce
    have "n < length terms" using Suc.prems by simp
    note sp = delta_drive_spec[OF assms this ih(2) v]
    show ?case using ih(1) v sp by simp
  qed
  from this[of "length terms"] show ?thesis using assms(3) by (auto simp: delta_All_def)
qed

text \<open>The entities a term yields: those whose first delta is there.\<close>

lemma yields_once:
  assumes "yields_at w base terms k e" and "yields_at w base terms j e"
  shows "k = j"
  using assms unfolding yields_at_def first_delta_def by (metis linorder_neqE_nat)

lemma term_yields_owners:
  assumes "world_inv w" and "window_base w base" and "walk_observed terms w" and "terms_ok w terms"
    and "k < length terms" and "qt_mode (terms ! k) = TermRead"
  shows "distinct (walked_owners (term_store w terms k))"
    and "yields_at w base terms k e \<Longrightarrow> e \<in> set (walked_owners (term_store w terms k))"
proof -
  let ?s = "term_store w terms k" and ?b = "base (qt_store (terms ! k))"
  have wt: "watched ?b ?s" by (rule watched_term[OF assms(1-4) _ assms(6)]) (use assms(5) in simp)
  then have o: "obs_inv ?b ?s" by (simp add: watched_def)
  have "walked_owners ?s = map (own ?s) (map (walked_row ?s) [0..<walkedRows ?s])" by (simp add: walked_owners_def)
  moreover have "inj_on (own ?s) (set (map (walked_row ?s) [0..<walkedRows ?s]))"
    using walked_distinct(2)[OF o] obs_invD(3)[OF o] by (auto simp: inj_on_def own_def nth_eq_iff_index_eq)
  ultimately show "distinct (walked_owners ?s)" using walked_distinct(1)[OF o] by (simp only: distinct_map)
  show "e \<in> set (walked_owners ?s)" if "yields_at w base terms k e"
  proof -
    have "?b e \<noteq> st_map ?s e"
      using that terms_okD[OF assms(4,5)] by (simp add: yields_at_def first_delta_def delta_at_def diff_none w_view_def)
    then obtain r where "r < length (st_owners ?s)" "own ?s r = e" "st_states ?s ! r \<noteq> RowUnchanged"
      using differing_has_row[OF o] by blast
    moreover from this obtain i where "i < walkedRows ?s" "walked_row ?s i = r" using walked_rows[OF o] by blast
    ultimately show ?thesis by (auto simp: walked_owners_def)
  qed
qed

section \<open>Delta queries are exact\<close>

text \<open>What a row yields of a value term.\<close>

lemma base_shadow:
  assumes "obs_inv base s" and "r < length (st_owners s)"
  shows "base (own s r) = None \<or> base (own s r) = Some (shadow_at s r)"
  using obs_invD(6)[OF assms] by (auto simp: row_matches_def split: row_state.splits)

lemma row_term:
  assumes "world_inv w" and "window_base w base" and "walk_observed terms w" and "terms_ok w terms"
    and "delta_accepts w base terms e" and "i < length terms" and "qt_mode (terms ! i) = TermRead"
  defines "row \<equiv> delta_row_spec w terms e" and "b \<equiv> base (qt_store (terms ! i)) e" and "v \<equiv> w_view w e (qt_store (terms ! i))"
  shows "delta_Delta row ! i = diff_of b v"
    and "delta_Previous terms w row ! i = (case b of None \<Rightarrow> replicate (st_size (term_store w terms i)) 0 | Some v \<Rightarrow> v)"
    and "v = Some x \<Longrightarrow> delta_Get terms w row ! i = x"
proof -
  let ?t = "terms ! i" and ?s = "term_store w terms i"
  have c: "qt_store ?t < length (w_stores w)" by (rule terms_okD[OF assms(4,6)])
  have wt: "watched (base (qt_store ?t)) ?s" by (rule watched_term[OF assms(1-4) _ assms(7)]) (use assms(6) in simp)
  then have o: "obs_inv (base (qt_store ?t)) ?s" by (simp add: watched_def)
  have view: "v = st_map ?s e" using c by (simp add: v_def w_view_def)
  note rs = reported_spec[OF wt, of e]
  let ?r = "fst (reportedRow ?s e)"
  have "b \<noteq> None \<or> v \<noteq> None" using assms(5-7) by (auto simp: delta_accepts_def b_def v_def dest: bspec[where x = ?t])
  then have rep: "snd (reportedRow ?s e)" using rs(1) view by (simp add: b_def)
  then have r: "?r < length (st_owners ?s)" "own ?s ?r = e" "st_delta ?s ?r = diff_of b v" using rs(2) view by (simp_all add: b_def)
  have td: "term_delta w e ?t = diff_of b v" "term_address w e ?t = RowAddr ?r"
    using assms(7) r(3) by (simp_all add: term_delta_def term_address_def)
  show "delta_Delta row ! i = diff_of b v" using assms(6) td by (simp add: delta_Delta_def row_def delta_row_spec_def)
  have "b = None \<or> b = Some (shadow_at ?s ?r)" using base_shadow[OF o r(1)] r(2) by (simp add: b_def)
  moreover have "diff_of b v = DeltaAdded \<longleftrightarrow> b = None" using \<open>b \<noteq> None \<or> v \<noteq> None\<close> by (auto simp: diff_of_def split: option.splits)
  moreover have "st_size ?s = 0 \<Longrightarrow> shadow_at ?s ?r = []" using world_invD(5)[OF assms(1) c] by (simp add: shadow_at_def sized_def)
  ultimately show "delta_Previous terms w row ! i = (case b of None \<Rightarrow> replicate (st_size ?s) 0 | Some v \<Rightarrow> v)"
    using assms(6,7) td by (auto simp: delta_Previous_def row_def delta_row_spec_def term_previous_def previousValue_def term_size_def Let_def)
  show "delta_Get terms w row ! i = x" if x: "v = Some x"
  proof -
    have g: "st_get ?s e \<noteq> None" using x view by (auto simp: st_map_def)
    then obtain q where q: "st_get ?s e = Some q" by blast
    then have "q < st_live ?s" "own ?s q = e" using st_get_iff[OF obs_invD(1)[OF o]] by blast+
    then have "q = ?r" using reported_row(1)[OF wt, of q e] st_invD(3)[OF obs_invD(1)[OF o]] by simp
    then have "x = value_at ?s ?r" "length x = st_size ?s"
      using x view q world_invD(5)[OF assms(1) c] by (auto simp: st_map_def sized_def)
    then show ?thesis using assms(6,7) td by (simp add: delta_Get_def row_def delta_row_spec_def read_address_def term_size_def Let_def)
  qed
qed

lemma observe_terms_ok:
  "fst (observe_terms ts vals w) = None \<longleftrightarrow>
     (\<forall>t \<in> set ts. qt_mode t \<in> {TermRead, TermWith, TermWithout}) \<and> (vals \<or> (\<exists>t \<in> set ts. qt_mode t = TermRead))"
  by (induction ts arbitrary: vals w) (auto split: term_mode.splits)

lemma distinct_concat_upt:
  assumes "\<And>k. k < n \<Longrightarrow> distinct (f k)" and "\<And>k j e. e \<in> set (f k) \<Longrightarrow> e \<in> set (f j) \<Longrightarrow> k = j"
  shows "distinct (concat (map f [0..<n]))"
  using assms(1)
proof (induction n)
  case (Suc n)
  have "set (concat (map f [0..<n])) \<inter> set (f n) = {}"
    using assms(2)[of _ n] by fastforce
  then show ?case using Suc by simp
qed simp

text \<open>
  C9: A delta query yields exactly the entities that have or had every value term in the window, have or lack the
  component of each filter now, and have a delta in a value term at least, each once.  It reports of each value
  term what happened since the last reset, its value as of the reset, zero if it was added since, and
  its value now, if the entity still has it.  The bases are what the observing stores held at the last reset, which
  every consistent world has; declaring the query panics unless its terms are values and filters with a value among them.
\<close>

theorem delta_query_exact:
  assumes "world_inv w" and "window_base w base" and "terms_ok w terms" and "walk_observed terms w"
  shows "distinct (map fst (delta_All terms w))
    \<and> set (map fst (delta_All terms w)) = {e. delta_accepts w base terms e
         \<and> (\<exists>t \<in> set terms. qt_mode t = TermRead \<and> base (qt_store t) e \<noteq> w_view w e (qt_store t))}
    \<and> (\<forall>(e, row) \<in> set (delta_All terms w). \<forall>i < length terms. qt_mode (terms ! i) = TermRead \<longrightarrow>
         delta_Delta row ! i = diff_of (base (qt_store (terms ! i)) e) (w_view w e (qt_store (terms ! i)))
         \<and> delta_Previous terms w row ! i = (case base (qt_store (terms ! i)) e of
              None \<Rightarrow> replicate (st_size (the_store w (qt_store (terms ! i)))) 0 | Some v \<Rightarrow> v)
         \<and> (\<forall>v. w_view w e (qt_store (terms ! i)) = Some v \<longrightarrow> delta_Get terms w row ! i = v))
    \<and> (fst (declareDeltaQuery terms w) = None \<longleftrightarrow>
         (\<forall>t \<in> set terms. qt_mode t \<in> {TermRead, TermWith, TermWithout}) \<and> (\<exists>t \<in> set terms. qt_mode t = TermRead))"
proof -
  let ?out = "\<lambda>k. if qt_mode (terms ! k) = TermRead then delta_out w base terms k (walked_owners (term_store w terms k)) else []"
  define es where "es k = (if qt_mode (terms ! k) = TermRead
      then filter (yields_at w base terms k) (walked_owners (term_store w terms k)) else [])" for k
  note all = delta_All_spec[OF assms(1,2,4,3)]
  have fsts: "map fst (delta_All terms w) = concat (map es [0..<length terms])"
    unfolding all es_def[abs_def] by (simp add: map_concat comp_def delta_out_def if_distrib cong: if_cong)
  have once: "e \<in> set (es k) \<Longrightarrow> yields_at w base terms k e" for e k by (auto simp: es_def split: if_splits)
  have dist: "distinct (map fst (delta_All terms w))"
    unfolding fsts
  proof (rule distinct_concat_upt)
    show "distinct (es k)" if "k < length terms" for k
      using term_yields_owners(1)[OF assms(1,2,4,3) that] by (simp add: es_def)
    show "k = j" if "e \<in> set (es k)" "e \<in> set (es j)" for k j e
      using yields_once[OF once[OF that(1)] once[OF that(2)]] .
  qed
  have first: "e \<in> set (map fst (delta_All terms w)) \<longleftrightarrow> (\<exists>k < length terms. yields_at w base terms k e)" for e
  proof
    assume "e \<in> set (map fst (delta_All terms w))"
    then show "\<exists>k < length terms. yields_at w base terms k e" unfolding fsts using once by fastforce
  next
    assume "\<exists>k < length terms. yields_at w base terms k e"
    then obtain k where k: "k < length terms" "yields_at w base terms k e" by blast
    then have "qt_mode (terms ! k) = TermRead" by (simp add: yields_at_def first_delta_def)
    then have "e \<in> set (es k)" using term_yields_owners(2)[OF assms(1,2,4,3) k(1) _ k(2)] k(2) by (simp add: es_def)
    then show "e \<in> set (map fst (delta_All terms w))" unfolding fsts using k(1) by fastforce
  qed
  have some: "(\<exists>k < length terms. first_delta w base terms e k) \<longleftrightarrow>
      (\<exists>t \<in> set terms. qt_mode t = TermRead \<and> base (qt_store t) e \<noteq> w_view w e (qt_store t))" for e
  proof
    assume "\<exists>k < length terms. first_delta w base terms e k"
    then show "\<exists>t \<in> set terms. qt_mode t = TermRead \<and> base (qt_store t) e \<noteq> w_view w e (qt_store t)"
      unfolding first_delta_def delta_at_def diff_none by (meson nth_mem)
  next
    let ?P = "\<lambda>k. k < length terms \<and> qt_mode (terms ! k) = TermRead \<and> delta_at w base e (qt_store (terms ! k)) \<noteq> DeltaNone"
    assume "\<exists>t \<in> set terms. qt_mode t = TermRead \<and> base (qt_store t) e \<noteq> w_view w e (qt_store t)"
    then have ex: "\<exists>k. ?P k" unfolding delta_at_def diff_none by (metis in_set_conv_nth)
    then have l: "?P (LEAST k. ?P k)" by (rule LeastI_ex)
    have "\<not> ?P i" if "i < (LEAST k. ?P k)" for i by (rule not_less_Least[OF that])
    then have "first_delta w base terms e (LEAST k. ?P k)" using l unfolding first_delta_def by (meson less_trans)
    then show "\<exists>k < length terms. first_delta w base terms e k" using l by blast
  qed
  have entities: "set (map fst (delta_All terms w)) = {e. delta_accepts w base terms e
         \<and> (\<exists>t \<in> set terms. qt_mode t = TermRead \<and> base (qt_store t) e \<noteq> w_view w e (qt_store t))}"
    using first some unfolding yields_at_def by blast
  have rows: "row = delta_row_spec w terms e \<and> delta_accepts w base terms e" if "(e, row) \<in> set (delta_All terms w)" for e row
    using that unfolding all by (auto simp: delta_out_def yields_at_def split: if_splits)
  have reads: "\<forall>(e, row) \<in> set (delta_All terms w). \<forall>i < length terms. qt_mode (terms ! i) = TermRead \<longrightarrow>
         delta_Delta row ! i = diff_of (base (qt_store (terms ! i)) e) (w_view w e (qt_store (terms ! i)))
         \<and> delta_Previous terms w row ! i = (case base (qt_store (terms ! i)) e of
              None \<Rightarrow> replicate (st_size (term_store w terms i)) 0 | Some v \<Rightarrow> v)
         \<and> (\<forall>v. w_view w e (qt_store (terms ! i)) = Some v \<longrightarrow> delta_Get terms w row ! i = v)"
    using rows row_term[OF assms(1,2,4,3)] by blast
  have declared: "fst (declareDeltaQuery terms w) = None \<longleftrightarrow>
      (\<forall>t \<in> set terms. qt_mode t \<in> {TermRead, TermWith, TermWithout}) \<and> (\<exists>t \<in> set terms. qt_mode t = TermRead)"
    using observe_terms_ok[of terms False w] by (simp add: declareDeltaQuery_def)
  show ?thesis by (rule conjI[OF dist conjI[OF entities conjI[OF reads declared]]])
qed

theorem delta_query_exact_witness:
  "\<exists>w. sample_reaches w \<and> window_base w (\<lambda>c e. None) \<and> walk_observed [\<lparr>qt_store = 0, qt_mode = TermRead\<rparr>] w
    \<and> map fst (delta_All [\<lparr>qt_store = 0, qt_mode = TermRead\<rparr>] w) = [makeEntity 1 1]"
proof -
  let ?e = "makeEntity 1 1" and ?t = "\<lparr>qt_store = 0, qt_mode = TermRead\<rparr>"
  note f = sample_spawned_facts
  obtain ok w where a: "w_add ?e 0 [7, 8] sample_spawned = (ok, w)" by fastforce
  have c: "0 < length (w_stores sample_spawned)" "length [7, 8 :: u8] = st_size (the_store sample_spawned 0)"
    using f(3) by (simp_all add: f(4) newStoreOf_def)
  note w = w_add_spec[OF w_reach_inv[OF f(1)] c(1) f(2,5) c(2) a]
  have r: "sample_reaches w" by (rule w_reach_step[OF f(1) ws_added[OF c(1) f(5) c(2) a]])
  have len: "length (w_stores w) = 1" using w(3) f(3) by (simp add: same_frame_def)
  have "w_view sample_spawned x 0 = None" for x
    by (simp add: w_view_def f(4) st_map_def st_get_def has_slot_def newStoreOf_def)
  then have v: "w_view w x 0 = (if x = ?e then Some [7, 8] else None)" for x using w(4) by simp
  have quiet: "\<not> et_observing (w_entities w)" "st_obs (the_store w 0) = Unobserved"
  proof -
    have g0: "st_get (the_store sample_spawned 0) ?e = None" by (simp add: f(4) st_get_def has_slot_def newStoreOf_def)
    obtain row s where sa: "st_add ?e (the_store sample_spawned 0) = (row, s)" by fastforce
    have "the_store w 0 = put_value row [7, 8] s"
      using a g0 f(2) sa c(1) by (auto simp: w_add_def w_put_def st_write_def w_poke_def upd_store_def the_store_def)
    moreover have "st_obs s = st_obs (the_store sample_spawned 0)" using st_add_fields(3)[of ?e "the_store sample_spawned 0"] sa by (simp only: snd_conv)
    ultimately show "st_obs (the_store w 0) = Unobserved" by (simp add: f(4) newStoreOf_def)
    have "w_spawn sample_world = (?e, sample_spawned)" using sample_spawn by (simp add: sample_spawned_def prod_eq_iff)
    note g = w_spawn_grown(2)[OF w_reach_inv[OF sample_world_facts(1)] this]
    have "et_observing (w_entities w) = et_observing (w_entities sample_world)"
      using w(3) g by (simp add: same_frame_def grown_def)
    then show "\<not> et_observing (w_entities w)" by (simp add: sample_world_facts(4) et_init_def)
  qed
  define w1 where "w1 = observe_store 0 w"
  define w2 where "w2 = w_resetObservation (\<lambda>r. r) (\<lambda>r. r) w1"
  have r1: "sample_reaches w1" unfolding w1_def by (rule w_reach_step[OF r ws_observed]) (simp add: len)
  have r2: "sample_reaches w2" unfolding w2_def by (rule w_reach_step[OF r1 ws_reset])
  have st1: "the_store w1 0 = registerObserver (the_store w 0)" "length (w_stores w1) = 1" "w_entities w1 = w_entities w"
    using len by (simp_all add: w1_def observe_store_def)
  have st2: "the_store w2 0 = startObservation (the_store w1 0)" "length (w_stores w2) = 1"
    using st1 quiet(1) by (simp_all add: w2_def w_resetObservation_def endWindow_def the_store_def)
  have base: "window_base w2 (\<lambda>c e. None)"
    using reset_window[OF w_reach_inv[OF r1] w2_def] st1 st2(2) quiet by (simp add: window_base_def registerObserver_def)
  have view: "w_view w2 = w_view w"
    using w_reset_spec(2)[OF w_reach_inv[OF r1] w2_def] observe_store_spec(2)[OF w(2), of 0] len by (simp add: w1_def)
  have obs: "walk_observed [?t] w2" using st2 st1 quiet by (simp add: walk_observed_def st_observed_def startObservation_def registerObserver_def)
  have "terms_ok w2 [?t]" using st2 by (simp add: terms_ok_def)
  note x = delta_query_exact[OF w_reach_inv[OF r2] base this obs]
  have "set (map fst (delta_All [?t] w2)) = {e. delta_accepts w2 (\<lambda>c e. None) [?t] e
      \<and> (\<exists>t \<in> set [?t]. qt_mode t = TermRead \<and> None \<noteq> w_view w2 e (qt_store t))}" using x by blast
  then have "set (map fst (delta_All [?t] w2)) = {?e}" using v view by (auto simp: delta_accepts_def split: if_splits)
  moreover have "distinct (map fst (delta_All [?t] w2))" using x by blast
  ultimately have "map fst (delta_All [?t] w2) = [?e]" by (intro distinct_one)
  then show ?thesis using r2 base obs by (intro exI[of _ w2]) simp
qed

end
