(* ===== verification/Metronome_Seqlock.thy ===== *)
theory Metronome_Seqlock
  imports Cog_Prelude
begin

text \<open>
  \<open>publishedTick\<close> of \<open>metronome/track.go\<close>: a seqlock one goroutine stores to and any number load from, an atomic
  operation a step.  Atomics are sequentially consistent, as Go's are.  The version is a natural number: 64 bits of it
  hold longer than any run.  Beside the state goes what was stored so far, the pair at the epoch first.
\<close>

section \<open>Stores and loads, operation by operation\<close>

text \<open>Where the goroutine that stores is: idle, or before each of its operations after the first.\<close>

datatype storer = Idle | StoreTick nat int | StoreDeadline nat int | StoreEnd nat int

text \<open>
  Where one that loads is, with what it has read, after as many stores as it began with; and what it answered.
\<close>

datatype loader = NotLoading | LoadVersion nat | LoadTick nat nat | LoadDeadline nat nat nat | LoadCheck nat nat nat int | Loaded nat nat int

record published_tick =
  pt_version :: nat
  pt_tick :: nat
  pt_deadline :: int
  pt_storer :: storer
  pt_loaders :: "nat \<Rightarrow> loader"
  pt_stored :: "(nat \<times> int) list"

definition new_published :: published_tick where
  "new_published =
     \<lparr>pt_version = 0, pt_tick = 0, pt_deadline = 0, pt_storer = Idle, pt_loaders = (\<lambda>_. NotLoading), pt_stored = [(0, 0)]\<rparr>"

fun store_step :: "published_tick \<Rightarrow> published_tick" where
  "store_step p =
     (case pt_storer p of
        Idle \<Rightarrow> p
      | StoreTick t d \<Rightarrow> p\<lparr>pt_tick := t, pt_storer := StoreDeadline t d\<rparr>
      | StoreDeadline t d \<Rightarrow> p\<lparr>pt_deadline := d, pt_storer := StoreEnd t d\<rparr>
      | StoreEnd t d \<Rightarrow> p\<lparr>pt_version := pt_version p + 1, pt_storer := Idle, pt_stored := pt_stored p @ [(t, d)]\<rparr>)"

definition store_begin :: "nat \<Rightarrow> int \<Rightarrow> published_tick \<Rightarrow> published_tick" where
  "store_begin t d p = p\<lparr>pt_version := pt_version p + 1, pt_storer := StoreTick t d\<rparr>"

text \<open>A load's next operation; one whose check fails goes round again.\<close>

definition load_next :: "published_tick \<Rightarrow> loader \<Rightarrow> loader" where
  "load_next p l =
     (case l of
        LoadVersion n \<Rightarrow> LoadTick n (pt_version p)
      | LoadTick n v \<Rightarrow> LoadDeadline n v (pt_tick p)
      | LoadDeadline n v t \<Rightarrow> LoadCheck n v t (pt_deadline p)
      | LoadCheck n v t d \<Rightarrow> if v mod 2 = 0 \<and> pt_version p = v then Loaded n t d else LoadVersion n
      | _ \<Rightarrow> l)"

definition loading :: "loader \<Rightarrow> bool" where
  "loading l \<longleftrightarrow> (case l of NotLoading \<Rightarrow> False | Loaded _ _ _ \<Rightarrow> False | _ \<Rightarrow> True)"

inductive pt_step :: "published_tick \<Rightarrow> published_tick \<Rightarrow> bool" where
  pt_begin: "pt_storer p = Idle \<Longrightarrow> pt_step p (store_begin t d p)"
| pt_store: "pt_storer p \<noteq> Idle \<Longrightarrow> pt_step p (store_step p)"
| pt_call: "\<not> loading (pt_loaders p g) \<Longrightarrow> pt_step p (p\<lparr>pt_loaders := (pt_loaders p)(g := LoadVersion (length (pt_stored p)))\<rparr>)"
| pt_load: "loading (pt_loaders p g) \<Longrightarrow> pt_step p (p\<lparr>pt_loaders := (pt_loaders p)(g := load_next p (pt_loaders p g))\<rparr>)"

inductive pt_reach :: "published_tick \<Rightarrow> bool" where
  pt_new: "pt_reach new_published"
| pt_more: "pt_reach p \<Longrightarrow> pt_step p p' \<Longrightarrow> pt_reach p'"

inductive_cases pt_stepE: "pt_step p p'"

section \<open>Loads are consistent\<close>

text \<open>The version counts the stores begun and ended; between stores the pair is the last one stored.\<close>

definition version_ok :: "published_tick \<Rightarrow> bool" where
  "version_ok p \<longleftrightarrow>
     pt_stored p \<noteq> []
     \<and> (case pt_storer p of
          Idle \<Rightarrow> pt_version p = 2 * (length (pt_stored p) - 1) \<and> (pt_tick p, pt_deadline p) = last (pt_stored p)
        | StoreTick t d \<Rightarrow> pt_version p = 2 * (length (pt_stored p) - 1) + 1
        | StoreDeadline t d \<Rightarrow> pt_version p = 2 * (length (pt_stored p) - 1) + 1 \<and> pt_tick p = t
        | StoreEnd t d \<Rightarrow> pt_version p = 2 * (length (pt_stored p) - 1) + 1 \<and> pt_tick p = t \<and> pt_deadline p = d)"

text \<open>A load that has read an even version still current has read that store's parts so far.\<close>

definition reads_ok :: "published_tick \<Rightarrow> nat \<Rightarrow> nat \<Rightarrow> bool" where
  "reads_ok p n v \<longleftrightarrow> 0 < n \<and> n \<le> length (pt_stored p) \<and> v \<le> pt_version p \<and> 2 * (n - 1) \<le> v"

definition loader_ok :: "published_tick \<Rightarrow> loader \<Rightarrow> bool" where
  "loader_ok p l =
     (case l of
        NotLoading \<Rightarrow> True
      | LoadVersion n \<Rightarrow> 0 < n \<and> n \<le> length (pt_stored p)
      | LoadTick n v \<Rightarrow> reads_ok p n v
      | LoadDeadline n v t \<Rightarrow> reads_ok p n v \<and> (even v \<and> v = pt_version p \<longrightarrow> t = fst (last (pt_stored p)))
      | LoadCheck n v t d \<Rightarrow> reads_ok p n v \<and> (even v \<and> v = pt_version p \<longrightarrow> (t, d) = last (pt_stored p))
      | Loaded n t d \<Rightarrow> 0 < n \<and> (\<exists>k. n - 1 \<le> k \<and> k < length (pt_stored p) \<and> (t, d) = pt_stored p ! k))"

definition pt_inv :: "published_tick \<Rightarrow> bool" where
  "pt_inv p \<longleftrightarrow> version_ok p \<and> (\<forall>g. loader_ok p (pt_loaders p g))"

lemma version_even:
  assumes "version_ok p" and "even (pt_version p)"
  shows "pt_storer p = Idle" and "pt_version p = 2 * (length (pt_stored p) - 1)" and "pt_tick p = fst (last (pt_stored p))" and "pt_deadline p = snd (last (pt_stored p))"
  using assms by (auto simp: version_ok_def split: storer.splits dest: arg_cong[of _ _ fst] arg_cong[of _ _ snd])

lemma version_bound: "version_ok p \<Longrightarrow> 2 * (length (pt_stored p) - 1) \<le> pt_version p"
  by (auto simp: version_ok_def split: storer.splits)

lemma load_next_ok:
  assumes "version_ok p" and "loader_ok p l"
  shows "loader_ok p (load_next p l)"
proof (cases l)
  case (LoadVersion n)
  then show ?thesis using assms version_bound[OF assms(1)] by (auto simp: loader_ok_def load_next_def reads_ok_def)
next
  case (LoadTick n v)
  then show ?thesis using assms version_even(3)[OF assms(1)] by (auto simp: loader_ok_def load_next_def)
next
  case (LoadDeadline n v t)
  then show ?thesis using assms version_even(4)[OF assms(1)]
    by (auto simp: loader_ok_def load_next_def)
next
  case (LoadCheck n v t d)
  show ?thesis
  proof (cases "v mod 2 = 0 \<and> pt_version p = v")
    case True
    then have "(t, d) = last (pt_stored p)" "even (pt_version p)" using assms(2) LoadCheck by (auto simp: loader_ok_def)
    moreover have "pt_stored p \<noteq> []" using assms(1) by (simp add: version_ok_def)
    ultimately show ?thesis
      using LoadCheck True assms(2)
      by (auto simp: load_next_def loader_ok_def reads_ok_def last_conv_nth intro!: exI[of _ "length (pt_stored p) - 1"])
  qed (use LoadCheck assms(2) in \<open>auto simp: load_next_def loader_ok_def reads_ok_def\<close>)
qed (use assms in \<open>simp_all add: load_next_def loader_ok_def\<close>)

text \<open>A load goes on as it was through another goroutine's operation.\<close>

lemma loader_keeps:
  assumes "loader_ok p l" and "pt_stored p' = pt_stored p \<or> (\<exists>x. pt_stored p' = pt_stored p @ [x])"
    and "pt_version p \<le> pt_version p'" and "pt_version p' = pt_version p \<Longrightarrow> pt_stored p' = pt_stored p"
  shows "loader_ok p' l"
proof -
  have len: "length (pt_stored p) \<le> length (pt_stored p')" using assms(2) by auto
  have nth: "pt_stored p' ! k = pt_stored p ! k" if "k < length (pt_stored p)" for k using assms(2) that by (auto simp: nth_append)
  have r: "reads_ok p n v \<Longrightarrow> reads_ok p' n v" for n v using len assms(3) by (auto simp: reads_ok_def)
  show ?thesis
    using assms(1) r len assms(3,4) nth less_le_trans[OF _ len]
    by (cases l) (auto simp: loader_ok_def reads_ok_def dest: le_antisym)
qed

lemma loaders_cong [simp]:
  "loader_ok (p\<lparr>pt_loaders := x\<rparr>) l = loader_ok p l" "version_ok (p\<lparr>pt_loaders := x\<rparr>) = version_ok p"
  by (cases l; simp add: loader_ok_def reads_ok_def) (cases "pt_storer p"; simp add: version_ok_def)

lemma pt_step_inv:
  assumes "pt_inv p" and "pt_step p p'"
  shows "pt_inv p'"
  using assms(2)
proof cases
  case (pt_begin t d)
  then have "version_ok p'" using assms(1) by (auto simp: pt_inv_def version_ok_def store_begin_def)
  moreover have "loader_ok p' (pt_loaders p g)" for g
    by (rule loader_keeps[of p]) (use assms(1) in \<open>simp_all add: pt_inv_def pt_begin store_begin_def\<close>)
  ultimately show ?thesis using pt_begin by (simp add: pt_inv_def store_begin_def)
next
  case pt_store
  have "pt_stored p \<noteq> []" using assms(1) by (simp add: pt_inv_def version_ok_def)
  then obtain n where "length (pt_stored p) = Suc n" by (cases "pt_stored p") auto
  then have "version_ok p'" using assms(1) pt_store by (cases "pt_storer p") (auto simp: pt_inv_def version_ok_def)
  moreover have "loader_ok p' (pt_loaders p g)" for g
    by (rule loader_keeps[of p]) (use assms(1) pt_store in \<open>auto simp: pt_inv_def split: storer.splits\<close>)
  moreover have "pt_loaders p' = pt_loaders p" using pt_store by (auto split: storer.splits)
  ultimately show ?thesis by (simp add: pt_inv_def)
next
  case (pt_call g)
  have "loader_ok p (LoadVersion (length (pt_stored p)))" using assms(1) by (simp add: pt_inv_def version_ok_def loader_ok_def)
  then show ?thesis using assms(1) pt_call by (simp add: pt_inv_def)
next
  case (pt_load g)
  then show ?thesis using assms(1) load_next_ok[of p "pt_loaders p g"] by (simp add: pt_inv_def)
qed

lemma pt_reach_inv: "pt_reach p \<Longrightarrow> pt_inv p"
proof (induction rule: pt_reach.induct)
  case pt_new
  show ?case by (simp add: pt_inv_def version_ok_def loader_ok_def new_published_def)
next
  case (pt_more p p')
  show ?case by (rule pt_step_inv[OF pt_more.IH pt_more.hyps(2)])
qed

text \<open>
  C20: However stores and loads interleave, a load of a track's published tick answers a tick with its own deadline: a
  pair some one store stored, the one that was current as the load began or a later one, or the epoch's
  before the first store.  A load that no store runs into answers the last pair at its first try.
\<close>

theorem load_consistent:
  assumes "pt_reach p"
  shows "(\<forall>g n t d. pt_loaders p g = Loaded n t d \<longrightarrow> 0 < n \<and> (\<exists>k. n - 1 \<le> k \<and> k < length (pt_stored p) \<and> pt_stored p ! k = (t, d)))
    \<and> (pt_storer p = Idle \<longrightarrow>
         load_next p (load_next p (load_next p (load_next p (LoadVersion n)))) = Loaded n (fst (last (pt_stored p))) (snd (last (pt_stored p))))"
proof -
  note i = pt_reach_inv[OF assms]
  have "0 < n \<and> (\<exists>k. n - 1 \<le> k \<and> k < length (pt_stored p) \<and> pt_stored p ! k = (t, d))" if "pt_loaders p g = Loaded n t d" for g n t d
  proof -
    have "loader_ok p (Loaded n t d)" using i that unfolding pt_inv_def by metis
    then show ?thesis by (auto simp: loader_ok_def)
  qed
  moreover have "load_next p (load_next p (load_next p (load_next p (LoadVersion n)))) = Loaded n (fst (last (pt_stored p))) (snd (last (pt_stored p)))"
    if "pt_storer p = Idle"
  proof -
    have v: "version_ok p" using i by (simp add: pt_inv_def)
    then have "even (pt_version p)" using that by (simp add: version_ok_def)
    then show ?thesis using version_even(3,4)[OF v] by (simp add: load_next_def)
  qed
  ultimately show ?thesis by blast
qed

theorem load_consistent_witness:
  "\<exists>p. pt_reach p \<and> pt_loaders p 0 = Loaded 1 7 40 \<and> (\<exists>k < length (pt_stored p). pt_stored p ! k = (7, 40))"
proof -
  let ?load = "\<lambda>p. p\<lparr>pt_loaders := (pt_loaders p)(0 := load_next p (pt_loaders p 0))\<rparr>"
  define p0 where "p0 = new_published\<lparr>pt_loaders := (pt_loaders new_published)(0 := LoadVersion 1)\<rparr>"
  define p1 where "p1 = store_step (store_step (store_step (store_begin 7 40 p0)))"
  define p2 where "p2 = ?load (?load (?load (?load p1)))"
  have r0: "pt_reach p0"
    unfolding p0_def by (rule pt_more[OF pt_new]) (use pt_call[of new_published 0] in \<open>simp add: new_published_def loading_def\<close>)
  have b: "pt_reach (store_begin 7 40 p0)" by (rule pt_more[OF r0 pt_begin]) (simp add: p0_def new_published_def)
  have s1: "pt_reach (store_step (store_begin 7 40 p0))" by (rule pt_more[OF b pt_store]) (simp add: store_begin_def)
  have s2: "pt_reach (store_step (store_step (store_begin 7 40 p0)))" by (rule pt_more[OF s1 pt_store]) (simp add: store_begin_def)
  have r1: "pt_reach p1" unfolding p1_def by (rule pt_more[OF s2 pt_store]) (simp add: store_begin_def)
  note defs = p1_def p0_def new_published_def store_begin_def load_next_def loading_def
  have l1: "pt_reach (?load p1)" by (rule pt_more[OF r1 pt_load]) (simp add: defs)
  have l2: "pt_reach (?load (?load p1))" by (rule pt_more[OF l1 pt_load]) (simp add: defs)
  have l3: "pt_reach (?load (?load (?load p1)))" by (rule pt_more[OF l2 pt_load]) (simp add: defs)
  have r2: "pt_reach p2" unfolding p2_def by (rule pt_more[OF l3 pt_load]) (simp add: defs)
  have g: "pt_loaders p2 0 = Loaded 1 7 40" by (simp add: p2_def defs)
  then show ?thesis using load_consistent[OF r2] r2 by blast
qed

end
