(* ===== verification/Metronome_Track.thy ===== *)
theory Metronome_Track
  imports Complex_Main Cog_Prelude
begin

text \<open>
  \<open>metronome/track.go\<close> and \<open>beat.go\<close>: the settings of a track, the beats it publishes and the ring of signals
  armed on those in flight.  A duration is its nanoseconds, an integer; \<open>Alpha\<close> is the rational a 32-bit
  float stands for.  A signal is a number, new ones counted up.
\<close>

section \<open>Settings\<close>

record settings =
  se_Step :: int
  se_MinInterval :: int
  se_MaxDelta :: int
  se_MaxInFlight :: int
  se_MaxDebt :: int
  se_InterpolateAgainst :: "string option"

definition defaultMaxDebt :: int where
  "defaultMaxDebt = 4"

definition zero_settings :: settings where
  "zero_settings = \<lparr>se_Step = 0, se_MinInterval = 0, se_MaxDelta = 0, se_MaxInFlight = 0, se_MaxDebt = 0, se_InterpolateAgainst = None\<rparr>"

definition Variable :: settings where
  "Variable = zero_settings\<lparr>se_MaxInFlight := 1\<rparr>"

text \<open>\<open>FixedStep\<close>, \<open>None\<close> a panic: a second over \<open>hz\<close>, rounded towards zero.\<close>

definition FixedStep :: "int \<Rightarrow> settings option" where
  "FixedStep hz =
     (if hz < 0 then None
      else let hz1 = (if hz = 0 then 60 else hz)
           in Some (zero_settings\<lparr>se_Step := 1000000000 div hz1, se_MaxInFlight := 1\<rparr>))"

record declared_track =
  dt_eventType :: string
  dt_settings :: settings

definition NewTrack :: "string \<Rightarrow> settings \<Rightarrow> declared_track option" where
  "NewTrack eventType s =
     (if se_Step s < 0 \<or> se_MinInterval s < 0 \<or> se_MaxDelta s < 0 \<or> se_MaxInFlight s < 0 \<or> se_MaxDebt s < 0 then None
      else Some \<lparr>dt_eventType = eventType,
                 dt_settings = (if se_MaxDebt s = 0 then s\<lparr>se_MaxDebt := defaultMaxDebt\<rparr> else s)\<rparr>)"

section \<open>Beats\<close>

record beat =
  be_Tick :: nat
  be_Delta :: int
  be_Lost :: int
  be_TimeFromStart :: int
  be_Alpha :: rat
  be_InterpolatedTick :: nat

text \<open>
  Rounding a number that is not negative to a float of \<open>p\<close> bits, to nearest and ties to even: the last place of
  a number between \<open>2 ^ e\<close> and \<open>2 ^ (e + 1)\<close> is \<open>2 ^ (e - p + 1)\<close>.  The numbers here are within the normal
  range of both sizes.
\<close>

definition round_even :: "rat \<Rightarrow> int" where
  "round_even x =
     (let f = \<lfloor>x\<rfloor>; d = x - of_int f
      in if d < 1 / 2 then f else if d > 1 / 2 then f + 1 else if even f then f else f + 1)"

fun exp_up :: "nat \<Rightarrow> rat \<Rightarrow> int" where
  "exp_up 0 x = 0"
| "exp_up (Suc n) x = (if x < 2 then 0 else 1 + exp_up n (x / 2))"

fun exp_down :: "nat \<Rightarrow> rat \<Rightarrow> int" where
  "exp_down 0 x = 0"
| "exp_down (Suc n) x = (if 1 \<le> x then 0 else exp_down n (x * 2) - 1)"

definition float_exponent :: "rat \<Rightarrow> int" where
  "float_exponent x = (if 1 \<le> x then exp_up 128 x else exp_down 128 x)"

definition round_float :: "nat \<Rightarrow> rat \<Rightarrow> rat" where
  "round_float p x =
     (if x = 0 then 0
      else let ulp = 2 powi (float_exponent x - int p + 1) in of_int (round_even (x / ulp)) * ulp)"

definition to_float64 :: "rat \<Rightarrow> rat" where
  "to_float64 = round_float 53"

definition to_float32 :: "rat \<Rightarrow> rat" where
  "to_float32 = round_float 24"

definition alphaInDebt :: rat where
  "alphaInDebt = 1 - 1 / 2 ^ 24"

text \<open>The reference track's tick and deadline, as loaded, and its step.\<close>

record reference =
  re_tick :: nat
  re_deadline :: int
  re_step :: int

definition alpha_at :: "int \<Rightarrow> reference \<Rightarrow> rat" where
  "alpha_at now r =
     (let quotient = to_float64 (to_float64 (of_int (max (now - re_deadline r) 0)) / to_float64 (of_int (re_step r)));
          alpha = to_float32 quotient
      in if alpha \<ge> 1 then alphaInDebt else alpha)"

section \<open>A track\<close>

record track =
  tr_eventType :: string
  tr_settings :: settings
  tr_signals :: "nat list"
  tr_newSignal :: nat
  tr_oldestSignal :: nat
  tr_inFlightCount :: nat
  tr_tick :: nat
  tr_stepCount :: nat
  tr_nextDeadline :: int
  tr_lastBeat :: int
  tr_published :: "nat \<times> int"

text \<open>A track as \<open>Init\<close> builds it.\<close>

definition new_track :: "declared_track \<Rightarrow> track" where
  "new_track d =
     (let s = dt_settings d; n = nat (max (se_MaxInFlight s) 1)
      in \<lparr>tr_eventType = dt_eventType d, tr_settings = s, tr_signals = [0..<n], tr_newSignal = n, tr_oldestSignal = 0,
          tr_inFlightCount = 0, tr_tick = 0, tr_stepCount = 0, tr_nextDeadline = se_Step s + se_MinInterval s,
          tr_lastBeat = 0, tr_published = (0, 0)\<rparr>)"

definition growSignals :: "track \<Rightarrow> track" where
  "growSignals t =
     t\<lparr>tr_signals := drop (tr_oldestSignal t) (tr_signals t) @ take (tr_oldestSignal t) (tr_signals t)
          @ [tr_newSignal t..<tr_newSignal t + length (tr_signals t)],
       tr_newSignal := tr_newSignal t + length (tr_signals t), tr_oldestSignal := 0\<rparr>"

text \<open>The pacing of \<open>publishDue\<close> at \<open>now\<close>: a fixed step with the debt past the cap dropped, or the time since the last beat.\<close>

definition fixed_beat :: "int \<Rightarrow> track \<Rightarrow> beat \<times> track" where
  "fixed_beat now t =
     (let step = se_Step (tr_settings t);
          owed = now div step - int (tr_stepCount t);
          dropped = (if owed > se_MaxDebt (tr_settings t) then owed - se_MaxDebt (tr_settings t) else 0);
          count = tr_stepCount t + nat dropped + 1
      in (\<lparr>be_Tick = tr_tick t, be_Delta = step, be_Lost = dropped * step, be_TimeFromStart = int count * step,
           be_Alpha = 0, be_InterpolatedTick = 0\<rparr>,
          t\<lparr>tr_stepCount := count, tr_nextDeadline := (int count + 1) * step\<rparr>))"

definition variable_beat :: "int \<Rightarrow> track \<Rightarrow> beat \<times> track" where
  "variable_beat now t =
     (let delta = now - tr_lastBeat t; maxDelta = se_MaxDelta (tr_settings t); clamp = maxDelta > 0 \<and> delta > maxDelta
      in (\<lparr>be_Tick = tr_tick t, be_Delta = (if clamp then maxDelta else delta), be_Lost = (if clamp then delta - maxDelta else 0),
           be_TimeFromStart = now, be_Alpha = 0, be_InterpolatedTick = 0\<rparr>,
          t\<lparr>tr_lastBeat := now, tr_nextDeadline := now + se_MinInterval (tr_settings t)\<rparr>))"

definition pace :: "reference option \<Rightarrow> int \<Rightarrow> track \<Rightarrow> beat \<times> track" where
  "pace ref now t =
     (let t1 = t\<lparr>tr_tick := tr_tick t + 1\<rparr>
      in case (if se_Step (tr_settings t) > 0 then fixed_beat now t1 else variable_beat now t1) of (b, t2) \<Rightarrow>
           (case ref of None \<Rightarrow> b | Some r \<Rightarrow> b\<lparr>be_InterpolatedTick := re_tick r, be_Alpha := alpha_at now r\<rparr>, t2))"

text \<open>The signal for the beat, in a ring that grows when all are in flight.\<close>

definition take_signal :: "track \<Rightarrow> nat \<times> track" where
  "take_signal t =
     (let t1 = (if tr_inFlightCount t = length (tr_signals t) then growSignals t else t)
      in (tr_signals t1 ! ((tr_oldestSignal t1 + tr_inFlightCount t1) mod length (tr_signals t1)),
          t1\<lparr>tr_inFlightCount := tr_inFlightCount t1 + 1\<rparr>))"

text \<open>The beat published, the signal armed on it, and the tick shared with the tracks that interpolate against it.\<close>

definition publishDue :: "reference option \<Rightarrow> int \<Rightarrow> track \<Rightarrow> beat \<times> nat \<times> track" where
  "publishDue ref now t =
     (case pace ref now t of (b, t1) \<Rightarrow> case take_signal t1 of (signal, t2) \<Rightarrow>
        (b, signal, if se_Step (tr_settings t2) > 0 then t2\<lparr>tr_published := (be_Tick b, be_TimeFromStart b)\<rparr> else t2))"

text \<open>The oldest beat in flight has finished.\<close>

definition finish_oldest :: "track \<Rightarrow> track" where
  "finish_oldest t =
     t\<lparr>tr_oldestSignal := (tr_oldestSignal t + 1) mod length (tr_signals t), tr_inFlightCount := tr_inFlightCount t - 1\<rparr>"

text \<open>Whether another beat may start.\<close>

definition slot_free :: "track \<Rightarrow> bool" where
  "slot_free t \<longleftrightarrow> se_MaxInFlight (tr_settings t) = 0 \<or> int (tr_inFlightCount t) < se_MaxInFlight (tr_settings t)"

text \<open>\<open>owes\<close>, given whether the track's timer is a manual one and is pending.\<close>

definition owes :: "bool option \<Rightarrow> int \<Rightarrow> track \<Rightarrow> bool" where
  "owes manual now t =
     (if se_Step (tr_settings t) > 0 then now \<ge> tr_nextDeadline t
      else case manual of Some pending \<Rightarrow> pending | None \<Rightarrow> now \<ge> tr_nextDeadline t \<and> now > tr_lastBeat t)"

section \<open>Alpha\<close>

lemma round_even_nonneg: "0 \<le> x \<Longrightarrow> 0 \<le> round_even x"
  by (auto simp: round_even_def Let_def)

lemma round_float_nonneg: "0 \<le> x \<Longrightarrow> 0 \<le> round_float p x"
proof -
  assume x: "0 \<le> x"
  let ?ulp = "2 powi (float_exponent x - int p + 1) :: rat"
  have "0 < ?ulp" by (simp add: zero_less_power_int)
  then have "0 \<le> round_even (x / ?ulp)" using x by (intro round_even_nonneg) simp
  then show ?thesis using \<open>0 < ?ulp\<close> by (simp add: round_float_def Let_def)
qed

lemma round_float_0 [simp]: "round_float p 0 = 0"
  by (simp add: round_float_def)

lemma alpha_bounds:
  assumes "0 < re_step r"
  shows "0 \<le> alpha_at now r" and "alpha_at now r < 1" and "now \<le> re_deadline r \<Longrightarrow> alpha_at now r = 0"
proof -
  have "0 \<le> to_float64 (of_int (max (now - re_deadline r) 0)) / to_float64 (of_int (re_step r))"
    using assms by (simp add: to_float64_def round_float_nonneg)
  then have q: "0 \<le> to_float32 (to_float64 (to_float64 (of_int (max (now - re_deadline r) 0)) / to_float64 (of_int (re_step r))))"
    unfolding to_float32_def by (intro round_float_nonneg) (simp add: to_float64_def round_float_nonneg)
  then show "0 \<le> alpha_at now r" by (simp add: alpha_at_def Let_def alphaInDebt_def)
  show "alpha_at now r < 1" by (simp add: alpha_at_def Let_def alphaInDebt_def)
  show "alpha_at now r = 0" if "now \<le> re_deadline r"
    using that by (simp add: alpha_at_def Let_def to_float64_def to_float32_def)
qed

section \<open>Beats in flight\<close>

text \<open>The signals of the beats in flight, oldest first.\<close>

definition in_flight :: "track \<Rightarrow> nat list" where
  "in_flight t = map (\<lambda>i. tr_signals t ! ((tr_oldestSignal t + i) mod length (tr_signals t))) [0..<tr_inFlightCount t]"

definition ring_ok :: "track \<Rightarrow> bool" where
  "ring_ok t \<longleftrightarrow>
     tr_signals t \<noteq> [] \<and> tr_oldestSignal t < length (tr_signals t) \<and> tr_inFlightCount t \<le> length (tr_signals t)
     \<and> distinct (tr_signals t) \<and> (\<forall>s \<in> set (tr_signals t). s < tr_newSignal t)"

lemma ring_okD:
  assumes "ring_ok t"
  shows "0 < length (tr_signals t)" and "tr_oldestSignal t < length (tr_signals t)" and "tr_inFlightCount t \<le> length (tr_signals t)"
    and "distinct (tr_signals t)" and "s \<in> set (tr_signals t) \<Longrightarrow> s < tr_newSignal t"
  using assms by (simp_all add: ring_ok_def)

lemma mod_ring:
  assumes "k < n" and "i < (n :: nat)"
  shows "(k + i) mod n = (if k + i < n then k + i else k + i - n)"
  using assms by (simp add: mod_if)

lemma mod_ring_inj: "k < n \<Longrightarrow> i < n \<Longrightarrow> j < n \<Longrightarrow> (k + i) mod n = (k + j) mod n \<Longrightarrow> i = (j :: nat)"
  by (simp add: mod_ring split: if_splits)

text \<open>Growing keeps the beats in flight in their order and makes room.\<close>

lemma in_flight_distinct:
  assumes "ring_ok t"
  shows "distinct (in_flight t)"
proof -
  note r = ring_okD[OF assms]
  have "inj_on (\<lambda>i. tr_signals t ! ((tr_oldestSignal t + i) mod length (tr_signals t))) (set [0..<tr_inFlightCount t])"
  proof (rule inj_onI)
    fix j k assume jk: "j \<in> set [0..<tr_inFlightCount t]" "k \<in> set [0..<tr_inFlightCount t]"
      "tr_signals t ! ((tr_oldestSignal t + j) mod length (tr_signals t)) = tr_signals t ! ((tr_oldestSignal t + k) mod length (tr_signals t))"
    then have "(tr_oldestSignal t + j) mod length (tr_signals t) = (tr_oldestSignal t + k) mod length (tr_signals t)"
      using r(1,4) by (simp add: nth_eq_iff_index_eq)
    then show "j = k" using mod_ring_inj[OF r(2)] jk(1,2) r(3) by simp
  qed
  then show ?thesis by (simp add: in_flight_def distinct_map)
qed

lemma in_flight_length [simp]: "length (in_flight t) = tr_inFlightCount t"
  by (simp add: in_flight_def)

lemma growSignals_ring:
  assumes "ring_ok t" and "tr_inFlightCount t = length (tr_signals t)"
  shows "ring_ok (growSignals t)" and "in_flight (growSignals t) = in_flight t"
    and "tr_inFlightCount (growSignals t) < length (tr_signals (growSignals t))"
proof -
  note r = ring_okD[OF assms(1)]
  let ?n = "length (tr_signals t)" and ?o = "tr_oldestSignal t" and ?g = "growSignals t"
  have len: "length (tr_signals ?g) = 2 * ?n" by (simp add: growSignals_def)
  show "tr_inFlightCount ?g < length (tr_signals ?g)" using len assms(2) r(1) by (simp add: growSignals_def)
  have "distinct (drop ?o (tr_signals t) @ take ?o (tr_signals t))"
    using r(4) set_take_disj_set_drop_if_distinct[of "tr_signals t" ?o ?o] by (auto simp: distinct_drop distinct_take)
  moreover have "set (drop ?o (tr_signals t) @ take ?o (tr_signals t)) \<subseteq> set (tr_signals t)"
    using set_drop_subset[of ?o "tr_signals t"] set_take_subset[of ?o "tr_signals t"] by auto
  ultimately show "ring_ok ?g"
    using r assms(2) by (fastforce simp: ring_ok_def growSignals_def)
  show "in_flight ?g = in_flight t"
  proof (rule nth_equalityI)
    fix i assume "i < length (in_flight ?g)"
    then have i: "i < ?n" using assms(2) by (simp add: in_flight_def growSignals_def)
    have "tr_signals ?g ! i = tr_signals t ! ((?o + i) mod ?n)"
      using i r(2) mod_ring[OF r(2) i] by (auto simp: growSignals_def nth_append add.commute)
    then show "in_flight ?g ! i = in_flight t ! i"
      using i assms(2) len by (simp add: in_flight_def growSignals_def)
  qed (simp add: in_flight_def growSignals_def)
qed

lemma take_slot:
  assumes "ring_ok t" and "tr_inFlightCount t < length (tr_signals t)"
  defines "s \<equiv> tr_signals t ! ((tr_oldestSignal t + tr_inFlightCount t) mod length (tr_signals t))"
  shows "ring_ok (t\<lparr>tr_inFlightCount := tr_inFlightCount t + 1\<rparr>)"
    and "in_flight (t\<lparr>tr_inFlightCount := tr_inFlightCount t + 1\<rparr>) = in_flight t @ [s]" and "s \<notin> set (in_flight t)"
proof -
  note r = ring_okD[OF assms(1)]
  show "ring_ok (t\<lparr>tr_inFlightCount := tr_inFlightCount t + 1\<rparr>)" using assms(1,2) by (simp add: ring_ok_def)
  show "in_flight (t\<lparr>tr_inFlightCount := tr_inFlightCount t + 1\<rparr>) = in_flight t @ [s]"
    by (simp add: in_flight_def s_def)
  show "s \<notin> set (in_flight t)"
  proof
    assume "s \<in> set (in_flight t)"
    then obtain i where i: "i < tr_inFlightCount t" "s = tr_signals t ! ((tr_oldestSignal t + i) mod length (tr_signals t))"
      by (auto simp: in_flight_def)
    then have "(tr_oldestSignal t + i) mod length (tr_signals t) = (tr_oldestSignal t + tr_inFlightCount t) mod length (tr_signals t)"
      using r(1,4) by (simp add: s_def nth_eq_iff_index_eq)
    then show False using mod_ring_inj[OF r(2), of i "tr_inFlightCount t"] i(1) assms(2) by simp
  qed
qed

lemma finish_ring:
  assumes "ring_ok t" and "0 < tr_inFlightCount t"
  shows "ring_ok (finish_oldest t)" and "in_flight t = tr_signals t ! tr_oldestSignal t # in_flight (finish_oldest t)"
proof -
  note r = ring_okD[OF assms(1)]
  let ?n = "length (tr_signals t)" and ?o = "tr_oldestSignal t"
  show "ring_ok (finish_oldest t)" using assms(1) r(1) by (auto simp: ring_ok_def finish_oldest_def)
  obtain k where k: "tr_inFlightCount t = Suc k" using assms(2) by (cases "tr_inFlightCount t") auto
  have "((?o + 1) mod ?n + i) mod ?n = (?o + Suc i) mod ?n" for i by (simp add: mod_simps)
  then have "in_flight (finish_oldest t) = map (\<lambda>i. tr_signals t ! ((?o + Suc i) mod ?n)) [0..<k]"
    by (simp add: in_flight_def finish_oldest_def k)
  moreover have "[0..<Suc k] = 0 # map Suc [0..<k]" by (simp add: map_Suc_upt upt_conv_Cons)
  ultimately show "in_flight t = tr_signals t ! ?o # in_flight (finish_oldest t)"
    using r(2) by (simp add: in_flight_def k comp_def del: upt_Suc)
qed

section \<open>Histories\<close>

text \<open>
  A track that was declared, publishes as beats come due with a slot free, at times that do not go back, and
  has its beats finish, with the beats it has published and the time of the last.
\<close>

inductive track_reach :: "declared_track \<Rightarrow> beat list \<Rightarrow> int \<Rightarrow> track \<Rightarrow> bool" for d where
  track_new: "NewTrack eventType settings = Some d \<Longrightarrow> track_reach d [] 0 (new_track d)"
| track_publish: "track_reach d bs past t \<Longrightarrow> slot_free t \<Longrightarrow> past \<le> now \<Longrightarrow> (\<forall>r. ref = Some r \<longrightarrow> 0 < re_step r)
    \<Longrightarrow> publishDue ref now t = (b, signal, t') \<Longrightarrow> track_reach d (bs @ [b]) now t'"
| track_finish: "track_reach d bs past t \<Longrightarrow> 0 < tr_inFlightCount t \<Longrightarrow> track_reach d bs past (finish_oldest t)"

inductive_cases track_reach_newE: "track_reach d [] past t"

definition settings_ok :: "settings \<Rightarrow> bool" where
  "settings_ok s \<longleftrightarrow> 0 \<le> se_Step s \<and> 0 \<le> se_MinInterval s \<and> 0 \<le> se_MaxDelta s \<and> 0 \<le> se_MaxInFlight s \<and> 0 < se_MaxDebt s"

lemma NewTrack_ok: "NewTrack eventType s = Some d \<Longrightarrow> settings_ok (dt_settings d)"
  by (auto simp: NewTrack_def settings_ok_def defaultMaxDebt_def split: if_splits)

text \<open>What one publication does, to the pacing and to the ring.\<close>

lemma pace_frame:
  assumes "pace ref now t = (b, t')"
  shows "tr_signals t' = tr_signals t" and "tr_newSignal t' = tr_newSignal t" and "tr_oldestSignal t' = tr_oldestSignal t"
    and "tr_inFlightCount t' = tr_inFlightCount t" and "tr_settings t' = tr_settings t" and "tr_tick t' = tr_tick t + 1"
    and "be_Tick b = tr_tick t + 1"
    and "\<forall>r. ref = Some r \<longrightarrow> 0 < re_step r \<Longrightarrow> 0 \<le> be_Alpha b \<and> be_Alpha b < 1"
  using assms alpha_bounds
  by (auto simp: pace_def fixed_beat_def variable_beat_def Let_def split: if_splits option.splits)

lemma ring_cong:
  "tr_signals t' = tr_signals t \<Longrightarrow> tr_newSignal t' = tr_newSignal t \<Longrightarrow> tr_oldestSignal t' = tr_oldestSignal t
    \<Longrightarrow> tr_inFlightCount t' = tr_inFlightCount t \<Longrightarrow> ring_ok t' = ring_ok t \<and> in_flight t' = in_flight t"
  by (simp add: ring_ok_def in_flight_def)

lemma take_signal_ring:
  assumes "ring_ok t" and "take_signal t = (signal, t')"
  shows "ring_ok t'" and "in_flight t' = in_flight t @ [signal]" and "signal \<notin> set (in_flight t)"
    and "tr_inFlightCount t' = tr_inFlightCount t + 1"
    and "tr_inFlightCount t < length (tr_signals t) \<Longrightarrow> length (tr_signals t') = length (tr_signals t)"
    and "tr_settings t' = tr_settings t" and "tr_tick t' = tr_tick t" and "tr_stepCount t' = tr_stepCount t"
    and "tr_nextDeadline t' = tr_nextDeadline t" and "tr_lastBeat t' = tr_lastBeat t"
proof -
  let ?t = "if tr_inFlightCount t = length (tr_signals t) then growSignals t else t"
  have r: "ring_ok ?t" "in_flight ?t = in_flight t" "tr_inFlightCount ?t < length (tr_signals ?t)"
    using growSignals_ring[OF assms(1)] assms(1) ring_okD(3)[OF assms(1)] by (auto split: if_splits)
  have eq: "signal = tr_signals ?t ! ((tr_oldestSignal ?t + tr_inFlightCount ?t) mod length (tr_signals ?t))"
    "t' = ?t\<lparr>tr_inFlightCount := tr_inFlightCount ?t + 1\<rparr>"
    using assms(2) by (auto simp: take_signal_def Let_def)
  note ts = take_slot[OF r(1,3), folded eq]
  show "ring_ok t'" "in_flight t' = in_flight t @ [signal]" "signal \<notin> set (in_flight t)" using ts r(2) by simp_all
  show "tr_inFlightCount t' = tr_inFlightCount t + 1" "tr_settings t' = tr_settings t" "tr_tick t' = tr_tick t"
    "tr_stepCount t' = tr_stepCount t" "tr_nextDeadline t' = tr_nextDeadline t" "tr_lastBeat t' = tr_lastBeat t"
    by (simp_all add: eq(2) growSignals_def)
  show "length (tr_signals t') = length (tr_signals t)" if "tr_inFlightCount t < length (tr_signals t)" using that by (simp add: eq(2))
qed

lemma publish_spec:
  assumes "ring_ok t" and "publishDue ref now t = (b, signal, t')" and "t1 = snd (pace ref now t)"
  shows "pace ref now t = (b, t1)" and "ring_ok t'" and "in_flight t' = in_flight t @ [signal]" and "signal \<notin> set (in_flight t)"
    and "tr_settings t' = tr_settings t" and "tr_tick t' = tr_tick t + 1" and "be_Tick b = tr_tick t + 1"
    and "tr_stepCount t' = tr_stepCount t1" and "tr_nextDeadline t' = tr_nextDeadline t1" and "tr_lastBeat t' = tr_lastBeat t1"
    and "tr_inFlightCount t' = tr_inFlightCount t + 1"
    and "tr_inFlightCount t < length (tr_signals t) \<Longrightarrow> length (tr_signals t') = length (tr_signals t)"
    and "0 < se_Step (tr_settings t) \<Longrightarrow> tr_published t' = (be_Tick b, be_TimeFromStart b)"
proof -
  obtain b1 where p: "pace ref now t = (b1, t1)" using assms(3) by (metis prod.collapse)
  obtain s t2 where ts: "take_signal t1 = (s, t2)" by fastforce
  note pf = pace_frame[OF p]
  have r1: "ring_ok t1" "in_flight t1 = in_flight t" using ring_cong[OF pf(1-4)] assms(1) by simp_all
  note tk = take_signal_ring[OF r1(1) ts]
  have eq: "b = b1" "signal = s" "t' = (if se_Step (tr_settings t2) > 0 then t2\<lparr>tr_published := (be_Tick b, be_TimeFromStart b)\<rparr> else t2)"
    using assms(2) p ts by (auto simp: publishDue_def)
  have c: "ring_ok t' = ring_ok t2 \<and> in_flight t' = in_flight t2" by (rule ring_cong) (simp_all add: eq(3))
  show "pace ref now t = (b, t1)" using p eq by simp
  show "ring_ok t'" "in_flight t' = in_flight t @ [signal]" "signal \<notin> set (in_flight t)" using c tk(1-3) r1(2) by (simp_all add: eq(2))
  show "tr_settings t' = tr_settings t" "tr_tick t' = tr_tick t + 1" "be_Tick b = tr_tick t + 1" "tr_stepCount t' = tr_stepCount t1"
    "tr_nextDeadline t' = tr_nextDeadline t1" "tr_lastBeat t' = tr_lastBeat t1" "tr_inFlightCount t' = tr_inFlightCount t + 1"
    using tk pf by (simp_all add: eq)
  show "length (tr_signals t') = length (tr_signals t)" if "tr_inFlightCount t < length (tr_signals t)" using that tk(5) pf by (simp add: eq(3))
  show "tr_published t' = (be_Tick b, be_TimeFromStart b)" if "0 < se_Step (tr_settings t)" using that tk(6) pf by (simp add: eq(3))
qed

section \<open>Accounting for time\<close>

definition total :: "beat list \<Rightarrow> int" where
  "total bs = sum_list (map (\<lambda>b. be_Delta b + be_Lost b) bs)"

lemma total_append [simp]: "total (bs @ [b]) = total bs + be_Delta b + be_Lost b" "total [] = 0"
  by (simp_all add: total_def)

text \<open>What a beat may be, and what it leaves of the pacing.\<close>

definition beat_ok :: "settings \<Rightarrow> beat \<Rightarrow> bool" where
  "beat_ok s b \<longleftrightarrow>
     0 \<le> be_Delta b \<and> 0 \<le> be_Lost b \<and> 0 \<le> be_Alpha b \<and> be_Alpha b < 1
     \<and> (0 < se_Step s \<longrightarrow> be_Delta b = se_Step s \<and> se_Step s dvd be_Lost b)
     \<and> (se_Step s = 0 \<and> 0 < se_MaxDelta s \<longrightarrow> be_Delta b \<le> se_MaxDelta s)"

definition passed :: "track \<Rightarrow> int" where
  "passed t = (if 0 < se_Step (tr_settings t) then int (tr_stepCount t) * se_Step (tr_settings t) else tr_lastBeat t)"

lemma fixed_pace:
  assumes "settings_ok (tr_settings t)" and "0 < se_Step (tr_settings t)" and "pace ref now t = (b, t')"
  shows "be_Delta b = se_Step (tr_settings t)" and "se_Step (tr_settings t) dvd be_Lost b" and "0 \<le> be_Lost b"
    and "be_TimeFromStart b = int (tr_stepCount t') * se_Step (tr_settings t)"
    and "int (tr_stepCount t') * se_Step (tr_settings t) = int (tr_stepCount t) * se_Step (tr_settings t) + be_Delta b + be_Lost b"
    and "now div se_Step (tr_settings t) - int (tr_stepCount t') < se_MaxDebt (tr_settings t)"
    and "tr_nextDeadline t' = (int (tr_stepCount t') + 1) * se_Step (tr_settings t)" and "tr_lastBeat t' = tr_lastBeat t"
    and "now div se_Step (tr_settings t) - int (tr_stepCount t) \<le> se_MaxDebt (tr_settings t) \<Longrightarrow> be_Lost b = 0 \<and> tr_stepCount t' = tr_stepCount t + 1"
proof -
  let ?step = "se_Step (tr_settings t)" and ?max = "se_MaxDebt (tr_settings t)"
  define dropped where "dropped = (let owed = now div ?step - int (tr_stepCount t) in if owed > ?max then owed - ?max else 0)"
  have d: "0 \<le> dropped" "now div ?step - int (tr_stepCount t) - dropped \<le> ?max" "0 < ?max"
    "now div ?step - int (tr_stepCount t) \<le> ?max \<Longrightarrow> dropped = 0"
    using assms(1) by (auto simp: dropped_def Let_def settings_ok_def)
  have eq: "be_Delta b = ?step" "be_Lost b = dropped * ?step" "tr_stepCount t' = tr_stepCount t + nat dropped + 1"
    "be_TimeFromStart b = int (tr_stepCount t') * ?step" "tr_nextDeadline t' = (int (tr_stepCount t') + 1) * ?step" "tr_lastBeat t' = tr_lastBeat t"
    using assms(2,3) by (auto simp: pace_def fixed_beat_def dropped_def Let_def split: option.splits)
  show "be_Delta b = ?step" "be_TimeFromStart b = int (tr_stepCount t') * ?step" "tr_nextDeadline t' = (int (tr_stepCount t') + 1) * ?step"
    "tr_lastBeat t' = tr_lastBeat t" by (rule eq)+
  show "?step dvd be_Lost b" by (simp add: eq(2))
  show "0 \<le> be_Lost b" using d(1) assms(2) by (simp add: eq(2))
  show "int (tr_stepCount t') * ?step = int (tr_stepCount t) * ?step + be_Delta b + be_Lost b"
    using d(1) by (simp add: eq(1-3) algebra_simps)
  show "now div ?step - int (tr_stepCount t') < ?max" using d(1,2) by (simp add: eq(3))
  show "be_Lost b = 0 \<and> tr_stepCount t' = tr_stepCount t + 1" if "now div ?step - int (tr_stepCount t) \<le> ?max"
    using d(4)[OF that] by (simp add: eq(2,3))
qed

lemma variable_pace:
  assumes "se_Step (tr_settings t) \<le> 0" and "tr_lastBeat t \<le> now" and "pace ref now t = (b, t')"
  shows "0 \<le> be_Lost b" and "0 \<le> be_Delta b" and "be_TimeFromStart b = now" and "tr_lastBeat t' = now"
    and "be_Delta b + be_Lost b = now - tr_lastBeat t" and "0 < se_MaxDelta (tr_settings t) \<Longrightarrow> be_Delta b \<le> se_MaxDelta (tr_settings t)"
    and "tr_stepCount t' = tr_stepCount t" and "tr_nextDeadline t' = now + se_MinInterval (tr_settings t)"
  using assms by (auto simp: pace_def variable_beat_def Let_def split: option.splits if_splits)

definition track_inv :: "declared_track \<Rightarrow> beat list \<Rightarrow> int \<Rightarrow> track \<Rightarrow> bool" where
  "track_inv d bs past t \<longleftrightarrow>
     tr_settings t = dt_settings d \<and> settings_ok (dt_settings d) \<and> ring_ok t \<and> 0 \<le> past
     \<and> tr_tick t = length bs \<and> map be_Tick bs = [1..<Suc (length bs)] \<and> passed t = total bs
     \<and> (se_Step (dt_settings d) = 0 \<longrightarrow> tr_lastBeat t \<le> past)
     \<and> (0 < se_Step (dt_settings d) \<and> bs \<noteq> [] \<longrightarrow> past div se_Step (dt_settings d) - int (tr_stepCount t) < se_MaxDebt (dt_settings d))
     \<and> (0 < se_MaxInFlight (dt_settings d) \<longrightarrow>
          int (tr_inFlightCount t) \<le> se_MaxInFlight (dt_settings d) \<and> int (length (tr_signals t)) = se_MaxInFlight (dt_settings d))
     \<and> (\<forall>b \<in> set bs. beat_ok (dt_settings d) b) \<and> (\<forall>i < length bs. be_TimeFromStart (bs ! i) = total (take (Suc i) bs))"

lemma track_inv_new:
  assumes "NewTrack eventType s = Some d"
  shows "track_inv d [] 0 (new_track d)"
  using NewTrack_ok[OF assms] by (auto simp: track_inv_def new_track_def Let_def ring_ok_def passed_def settings_ok_def max_def)

lemma track_inv_publish:
  assumes "track_inv d bs past t" and "slot_free t" and "past \<le> now" and "\<forall>r. ref = Some r \<longrightarrow> 0 < re_step r"
    and "publishDue ref now t = (b, signal, t')"
  shows "track_inv d (bs @ [b]) now t'"
proof -
  note i = assms(1)[unfolded track_inv_def]
  have set: "tr_settings t = dt_settings d" "settings_ok (dt_settings d)" and ring: "ring_ok t" using i by blast+
  define t1 where "t1 = snd (pace ref now t)"
  note ps = publish_spec[OF ring assms(5) t1_def]
  note p = ps(1,2,5,6,7,8,10,11,12)
  let ?s = "dt_settings d"
  have al: "0 \<le> be_Alpha b" "be_Alpha b < 1" using pace_frame(8)[OF p(1) assms(4)] by simp_all
  have step: "0 \<le> se_Step ?s" using set(2) by (simp add: settings_ok_def)
  have core: "passed t' = passed t + be_Delta b + be_Lost b \<and> be_TimeFromStart b = passed t' \<and> beat_ok ?s b
    \<and> (se_Step ?s = 0 \<longrightarrow> tr_lastBeat t' \<le> now)
    \<and> (0 < se_Step ?s \<longrightarrow> now div se_Step ?s - int (tr_stepCount t') < se_MaxDebt ?s)"
  proof (cases "0 < se_Step ?s")
    case True
    note f = fixed_pace[OF _ _ p(1), unfolded set(1), OF set(2) True]
    show ?thesis using True f p(3,6) al set(1) by (simp add: passed_def beat_ok_def)
  next
    case False
    then have z: "se_Step ?s = 0" using step by simp
    have lb: "tr_lastBeat t \<le> now" using i z assms(3) by linarith
    note v = variable_pace[OF _ lb p(1), unfolded set(1)]
    show ?thesis using z v p(3,7) al set(1) by (simp add: passed_def beat_ok_def)
  qed
  have lim: "int (tr_inFlightCount t') \<le> se_MaxInFlight ?s \<and> int (length (tr_signals t')) = se_MaxInFlight ?s" if "0 < se_MaxInFlight ?s"
  proof -
    have "int (tr_inFlightCount t) < se_MaxInFlight ?s" using assms(2) that set(1) by (simp add: slot_free_def)
    moreover have "int (length (tr_signals t)) = se_MaxInFlight ?s" using i that by blast
    ultimately show ?thesis using p(8,9) by simp
  qed
  have tot: "passed t = total bs" using i by blast
  have times: "be_TimeFromStart ((bs @ [b]) ! j) = total (take (Suc j) (bs @ [b]))" if "j < length (bs @ [b])" for j
    using i that core tot by (cases "j < length bs") (auto simp: nth_append not_less less_Suc_eq)
  have ticks: "tr_tick t = length bs" "map be_Tick bs = [1..<Suc (length bs)]" using i by blast+
  show ?thesis
    unfolding track_inv_def
  proof (intro conjI)
    show "map be_Tick (bs @ [b]) = [1..<Suc (length (bs @ [b]))]" using ticks p(5) by simp
    show "\<forall>j < length (bs @ [b]). be_TimeFromStart ((bs @ [b]) ! j) = total (take (Suc j) (bs @ [b]))" using times by blast
    show "\<forall>b' \<in> set (bs @ [b]). beat_ok ?s b'" using i core by auto
    show "0 < se_MaxInFlight ?s \<longrightarrow> int (tr_inFlightCount t') \<le> se_MaxInFlight ?s \<and> int (length (tr_signals t')) = se_MaxInFlight ?s"
      using lim by blast
    show "0 \<le> now" using i assms(3) by linarith
  qed (use set p core tot ticks in simp_all)
qed

lemma track_inv_finish:
  assumes "track_inv d bs past t" and "0 < tr_inFlightCount t"
  shows "track_inv d bs past (finish_oldest t)"
proof -
  have "ring_ok t" using assms(1) by (simp add: track_inv_def)
  note r = finish_ring(1)[OF this assms(2)]
  show ?thesis using assms r unfolding track_inv_def by (auto simp: finish_oldest_def passed_def)
qed

lemma track_reach_inv: "track_reach d bs past t \<Longrightarrow> track_inv d bs past t"
  by (induction rule: track_reach.induct) (blast intro: track_inv_new track_inv_publish track_inv_finish)+

lemma div_less_mult: "x div s < (y :: int) \<Longrightarrow> 0 < s \<Longrightarrow> x < y * s"
proof -
  assume a: "x div s < y" "0 < s"
  have "x = x div s * s + x mod s" by simp
  also have "\<dots> < x div s * s + s" using pos_mod_bound[OF a(2), of x] by linarith
  also have "\<dots> = (x div s + 1) * s" by (simp add: algebra_simps)
  also have "\<dots> \<le> y * s" using a by (intro mult_right_mono) simp_all
  finally show ?thesis .
qed

text \<open>
  C19: A track's beats account for all time.  They are numbered from 1 without a gap; each one's \<open>TimeFromStart\<close> is the
  sum of \<open>Delta\<close> and \<open>Lost\<close> over the beats up to it, neither ever negative, and its \<open>Alpha\<close> is in [0, 1).  On
  a fixed-step track every \<open>Delta\<close> is the step and every \<open>Lost\<close> a multiple of it, and a beat leaves the track
  less than \<open>MaxDebt\<close> steps behind the time it was published at; on a variable track with a \<open>MaxDelta\<close> no
  \<open>Delta\<close> is above it.
\<close>

theorem beats_account:
  assumes "track_reach d bs past t"
  shows "map be_Tick bs = [1..<Suc (length bs)]
    \<and> (\<forall>i < length bs. be_TimeFromStart (bs ! i) = sum_list (map (\<lambda>b. be_Delta b + be_Lost b) (take (Suc i) bs)))
    \<and> (\<forall>b \<in> set bs. 0 \<le> be_Delta b \<and> 0 \<le> be_Lost b \<and> 0 \<le> be_Alpha b \<and> be_Alpha b < 1)
    \<and> (0 < se_Step (dt_settings d) \<longrightarrow> (\<forall>b \<in> set bs. be_Delta b = se_Step (dt_settings d) \<and> se_Step (dt_settings d) dvd be_Lost b))
    \<and> (0 < se_Step (dt_settings d) \<and> bs \<noteq> [] \<longrightarrow>
         past - be_TimeFromStart (last bs) < se_MaxDebt (dt_settings d) * se_Step (dt_settings d))
    \<and> (se_Step (dt_settings d) = 0 \<and> 0 < se_MaxDelta (dt_settings d) \<longrightarrow> (\<forall>b \<in> set bs. be_Delta b \<le> se_MaxDelta (dt_settings d)))"
proof -
  let ?s = "dt_settings d"
  note i = track_reach_inv[OF assms, unfolded track_inv_def]
  have debt: "past - be_TimeFromStart (last bs) < se_MaxDebt ?s * se_Step ?s" if st: "0 < se_Step ?s" and ne: "bs \<noteq> []"
  proof -
    have "past div se_Step ?s < se_MaxDebt ?s + int (tr_stepCount t)" using i st ne by fastforce
    then have "past < (se_MaxDebt ?s + int (tr_stepCount t)) * se_Step ?s" by (rule div_less_mult[OF _ st])
    moreover have "be_TimeFromStart (last bs) = int (tr_stepCount t) * se_Step ?s"
    proof -
      have "be_TimeFromStart (bs ! (length bs - 1)) = total (take (Suc (length bs - 1)) bs)" using i ne by simp
      moreover have "passed t = total bs" "tr_settings t = ?s" using i by blast+
      ultimately show ?thesis using ne st by (simp add: last_conv_nth passed_def)
    qed
    ultimately show ?thesis by (simp add: algebra_simps)
  qed
  show ?thesis using i debt unfolding beat_ok_def total_def by blast
qed

theorem beats_account_witness:
  "\<exists>d b t. track_reach d [b] 200000000 t \<and> be_Tick b = 1 \<and> be_Delta b = 20000000 \<and> be_Lost b = 120000000
    \<and> be_TimeFromStart b = be_Delta b + be_Lost b"
proof -
  let ?s = "zero_settings\<lparr>se_Step := 20000000, se_MaxInFlight := 1\<rparr>"
  let ?d = "\<lparr>dt_eventType = ''Update'', dt_settings = ?s\<lparr>se_MaxDebt := 4\<rparr>\<rparr>"
  have n: "NewTrack ''Update'' ?s = Some ?d" by (simp add: NewTrack_def zero_settings_def defaultMaxDebt_def)
  obtain b signal t where p: "publishDue None 200000000 (new_track ?d) = (b, signal, t)" by (metis prod.exhaust)
  have "slot_free (new_track ?d)" by (simp add: slot_free_def new_track_def zero_settings_def)
  from track_publish[OF track_new[OF n] this _ _ p] have r: "track_reach ?d [b] 200000000 t" by simp
  have "be_Tick b = 1" "be_Delta b = 20000000" "be_Lost b = 120000000"
    using p by (auto simp: publishDue_def pace_def fixed_beat_def new_track_def zero_settings_def Let_def split: prod.splits)
  moreover have "be_TimeFromStart b = be_Delta b + be_Lost b" using beats_account[OF r] by simp
  ultimately show ?thesis using r by blast
qed

text \<open>
  Every beat in flight has a signal of its own, kept oldest first: publishing arms one that no beat in flight
  holds and puts it last, growing the ring without losing the order when all are taken, and the beat a
  track waits for is the oldest.  With an in-flight limit no more beats than it are in flight.
\<close>

theorem beats_in_flight:
  assumes "track_reach d bs past t" and "slot_free t" and "publishDue ref now t = (b, signal, t')"
  shows "in_flight t' = in_flight t @ [signal] \<and> distinct (in_flight t') \<and> length (in_flight t') = tr_inFlightCount t'
    \<and> (0 < tr_inFlightCount t \<longrightarrow> in_flight t = tr_signals t ! tr_oldestSignal t # in_flight (finish_oldest t))
    \<and> (0 < se_MaxInFlight (dt_settings d) \<longrightarrow> int (tr_inFlightCount t') \<le> se_MaxInFlight (dt_settings d))"
proof -
  note i = track_reach_inv[OF assms(1), unfolded track_inv_def]
  have ring: "ring_ok t" and set: "tr_settings t = dt_settings d" using i by blast+
  note p = publish_spec[OF ring assms(3) refl]
  have "distinct (in_flight t')" by (rule in_flight_distinct[OF p(2)])
  moreover have "int (tr_inFlightCount t') \<le> se_MaxInFlight (dt_settings d)" if "0 < se_MaxInFlight (dt_settings d)"
    using assms(2) that set p(11) by (simp add: slot_free_def)
  moreover have "length (in_flight t') = tr_inFlightCount t'" by (simp add: in_flight_def)
  ultimately show ?thesis using p(3) finish_ring(2)[OF ring] by blast
qed

theorem beats_in_flight_witness:
  "\<exists>d t b signal t'. track_reach d [] 0 t \<and> publishDue None 5 t = (b, signal, t') \<and> in_flight t' = [0] \<and> signal = 0"
proof -
  let ?d = "\<lparr>dt_eventType = ''Draw'', dt_settings = zero_settings\<lparr>se_MaxInFlight := 1, se_MaxDebt := 4\<rparr>\<rparr>"
  have n: "NewTrack ''Draw'' Variable = Some ?d" by (simp add: NewTrack_def Variable_def zero_settings_def defaultMaxDebt_def)
  obtain b signal t where p: "publishDue None 5 (new_track ?d) = (b, signal, t)" by (metis prod.exhaust)
  have "slot_free (new_track ?d)" by (simp add: slot_free_def new_track_def zero_settings_def)
  note x = beats_in_flight[OF track_new[OF n] this p]
  have "signal = 0"
    using p by (auto simp: publishDue_def pace_def variable_beat_def take_signal_def new_track_def zero_settings_def Let_def split: prod.splits)
  moreover have "in_flight (new_track ?d) = []" by (simp add: in_flight_def new_track_def Let_def)
  ultimately show ?thesis using x p track_new[OF n] by auto
qed

end
