(* ===== verification/Metronome_Clock.thy ===== *)
theory Metronome_Clock
  imports Cog_Prelude
begin

text \<open>
  \<open>metronome/manualclock.go\<close>: a clock moved by hand, its timers and its stopwatches.  Every operation holds the
  clock's mutex, so each is one function of the clock; a duration is its nanoseconds, an integer, and a
  timer's channel holds one fire or none.
\<close>

section \<open>Timers and stopwatches\<close>

record manual_timer =
  mt_deadline :: int
  mt_armed :: bool
  mt_variable :: bool
  mt_fired :: bool
  mt_channel :: bool

record manual_clock =
  mc_now :: int
  mc_timers :: "manual_timer list"
  mc_lengthenings :: "string \<Rightarrow> int list"

record manual_stopwatch =
  sw_name :: string
  sw_startedAt :: int
  sw_lengthening :: int
  sw_started :: bool

definition NewManualClock :: manual_clock where
  "NewManualClock = \<lparr>mc_now = 0, mc_timers = [], mc_lengthenings = (\<lambda>_. [])\<rparr>"

definition new_timer :: "bool \<Rightarrow> manual_timer" where
  "new_timer variable = \<lparr>mt_deadline = 0, mt_armed = False, mt_variable = variable, mt_fired = False, mt_channel = False\<rparr>"

definition clock_NewTimer :: "bool \<Rightarrow> manual_clock \<Rightarrow> manual_clock" where
  "clock_NewTimer variable c = c\<lparr>mc_timers := mc_timers c @ [new_timer variable]\<rparr>"

definition timer_fire :: "manual_timer \<Rightarrow> manual_timer" where
  "timer_fire t = t\<lparr>mt_armed := False, mt_fired := True, mt_channel := True\<rparr>"

definition timer_Reset :: "int \<Rightarrow> int \<Rightarrow> manual_timer \<Rightarrow> manual_timer" where
  "timer_Reset now at t =
     (let t1 = t\<lparr>mt_deadline := at, mt_armed := True, mt_fired := False\<rparr>
      in if \<not> mt_variable t1 \<and> at \<le> now then timer_fire t1 else t1)"

definition timer_rearm :: "int \<Rightarrow> int \<Rightarrow> manual_timer \<Rightarrow> int \<times> manual_timer" where
  "timer_rearm now interval t = (now, t\<lparr>mt_deadline := now + interval, mt_armed := True, mt_fired := False\<rparr>)"

definition timer_Stop :: "manual_timer \<Rightarrow> manual_timer" where
  "timer_Stop t = t\<lparr>mt_armed := False, mt_fired := False, mt_channel := False\<rparr>"

definition clock_nextDeadline :: "int \<Rightarrow> manual_clock \<Rightarrow> int \<times> bool" where
  "clock_nextDeadline target c =
     fold (\<lambda>t (deadline, found). if \<not> mt_variable t \<and> mt_armed t \<and> mt_deadline t \<le> deadline then (mt_deadline t, True) else (deadline, found))
       (mc_timers c) (target, False)"

definition fire_due :: "bool \<Rightarrow> int \<Rightarrow> manual_timer \<Rightarrow> manual_timer" where
  "fire_due variable now t = (if mt_variable t = variable \<and> mt_armed t \<and> mt_deadline t \<le> now then timer_fire t else t)"

definition fireDue :: "manual_clock \<Rightarrow> manual_clock" where
  "fireDue c = c\<lparr>mc_timers := map (fire_due False (mc_now c)) (mc_timers c)\<rparr>"

definition fireVariable :: "manual_clock \<Rightarrow> manual_clock" where
  "fireVariable c = c\<lparr>mc_timers := map (fire_due True (mc_now c)) (mc_timers c)\<rparr>"

text \<open>\<open>Jump\<close> and \<open>LengthenNext\<close>, \<open>None\<close> a panic.\<close>

definition Jump :: "int \<Rightarrow> manual_clock \<Rightarrow> manual_clock option" where
  "Jump d c = (if d < 0 then None else Some (fireVariable (fireDue (c\<lparr>mc_now := mc_now c + d\<rparr>))))"

definition LengthenNext :: "string \<Rightarrow> int \<Rightarrow> manual_clock \<Rightarrow> manual_clock option" where
  "LengthenNext name d c =
     (if d < 0 then None else Some (c\<lparr>mc_lengthenings := (mc_lengthenings c)(name := mc_lengthenings c name @ [d])\<rparr>))"

definition NewStopwatch :: "string \<Rightarrow> manual_stopwatch" where
  "NewStopwatch name = \<lparr>sw_name = name, sw_startedAt = 0, sw_lengthening = 0, sw_started = False\<rparr>"

definition stopwatch_Start :: "manual_clock \<Rightarrow> manual_stopwatch \<Rightarrow> manual_clock \<times> manual_stopwatch" where
  "stopwatch_Start c s =
     (case mc_lengthenings c (sw_name s) of
        [] \<Rightarrow> (c, s\<lparr>sw_startedAt := mc_now c, sw_lengthening := 0, sw_started := True\<rparr>)
      | d # queued \<Rightarrow> (c\<lparr>mc_lengthenings := (mc_lengthenings c)(sw_name s := queued)\<rparr>,
                       s\<lparr>sw_startedAt := mc_now c, sw_lengthening := d, sw_started := True\<rparr>))"

definition stopwatch_Elapsed :: "manual_clock \<Rightarrow> manual_stopwatch \<Rightarrow> int" where
  "stopwatch_Elapsed c s = (if \<not> sw_started s then 0 else mc_now c - sw_startedAt s + sw_lengthening s)"

section \<open>The earliest deadline\<close>

lemma nextDeadline_fold:
  assumes "fold (\<lambda>t (deadline, found). if \<not> mt_variable t \<and> mt_armed t \<and> mt_deadline t \<le> deadline then (mt_deadline t, True)
      else (deadline, found)) ts (d0, f0) = (deadline, found)"
  shows "deadline \<le> d0 \<and> (f0 \<longrightarrow> found) \<and> (\<not> found \<longrightarrow> deadline = d0)
    \<and> (found \<longrightarrow> f0 \<and> deadline = d0 \<or> (\<exists>t \<in> set ts. \<not> mt_variable t \<and> mt_armed t \<and> mt_deadline t = deadline))
    \<and> (\<forall>t \<in> set ts. \<not> mt_variable t \<and> mt_armed t \<longrightarrow> deadline \<le> mt_deadline t \<and> (\<not> found \<longrightarrow> d0 < mt_deadline t))"
  using assms
proof (induction ts arbitrary: d0 f0)
  case (Cons t ts)
  show ?case
  proof (cases "\<not> mt_variable t \<and> mt_armed t \<and> mt_deadline t \<le> d0")
    case True
    with Cons.IH[of "mt_deadline t" True] Cons.prems show ?thesis by auto
  next
    case False
    with Cons.IH[of d0 f0] Cons.prems show ?thesis by auto
  qed
qed simp

lemma nextDeadline_least:
  assumes "clock_nextDeadline target c = (deadline, found)"
  shows "deadline \<le> target" and "\<not> found \<Longrightarrow> deadline = target"
    and "found \<Longrightarrow> \<exists>t \<in> set (mc_timers c). \<not> mt_variable t \<and> mt_armed t \<and> mt_deadline t = deadline"
    and "t \<in> set (mc_timers c) \<Longrightarrow> \<not> mt_variable t \<Longrightarrow> mt_armed t \<Longrightarrow> deadline \<le> mt_deadline t \<and> (\<not> found \<longrightarrow> target < mt_deadline t)"
  using nextDeadline_fold[OF assms[unfolded clock_nextDeadline_def]] by blast+

section \<open>Stopwatches\<close>

text \<open>A measurement is the time the clock was moved by since its start and the lengthening queued first for its name.\<close>

lemma stopwatch_measures:
  assumes "stopwatch_Start c s = (c', s')" and "Jump d c' = Some c''"
  shows "stopwatch_Elapsed c'' s' = d + (case mc_lengthenings c (sw_name s) of [] \<Rightarrow> 0 | l # _ \<Rightarrow> l)"
    and "mc_lengthenings c' = (mc_lengthenings c)(sw_name s := tl (mc_lengthenings c (sw_name s)))"
  using assms
  by (auto simp: stopwatch_Start_def stopwatch_Elapsed_def Jump_def fireVariable_def fireDue_def split: list.splits if_splits)

end
