(* ===== verification/Metronome_Run.thy ===== *)
theory Metronome_Run
  imports Metronome_Track Metronome_Clock
begin

text \<open>
  \<open>metronome/plugin.go\<close> and \<open>track.run\<close>: a metronome whose tracks run on a manual clock, each goroutine's
  operations and those of the goroutine that calls \<open>Advance\<close> as steps that interleave.  \<open>publishDue\<close> is one step: it
  holds the plugin's mutex while it paces the beat and takes its signal, and a track that loads the
  published tick between that and the store reads what it would have read before the step.  The end of a track, its
  timer stopped and then its \<open>running\<close> cleared under the mutex, is one step too.
\<close>

section \<open>The plugin\<close>

datatype metronome_panic = TwoTracks string | NotFixedStep string string

text \<open>Building the tracks: two of one event type panic.\<close>

fun init_tracks :: "declared_track list \<Rightarrow> track list \<Rightarrow> metronome_panic + track list" where
  "init_tracks [] ts = Inr ts"
| "init_tracks (d # ds) ts =
     (if dt_eventType d \<in> tr_eventType ` set ts then Inl (TwoTracks (dt_eventType d)) else init_tracks ds (ts @ [new_track d]))"

text \<open>The reference track of each that names one, the last that fits.\<close>

definition find_reference :: "track list \<Rightarrow> string \<Rightarrow> nat option" where
  "find_reference ts name =
     fold (\<lambda>j found. if tr_eventType (ts ! j) = name \<and> se_Step (tr_settings (ts ! j)) > 0 then Some j else found) [0..<length ts] None"

fun find_references :: "track list \<Rightarrow> track list \<Rightarrow> metronome_panic + nat option list" where
  "find_references all [] = Inr []"
| "find_references all (t # ts) =
     (case se_InterpolateAgainst (tr_settings t) of
        None \<Rightarrow> (case find_references all ts of Inl p \<Rightarrow> Inl p | Inr rs \<Rightarrow> Inr (None # rs))
      | Some name \<Rightarrow>
          (case find_reference all name of
             None \<Rightarrow> Inl (NotFixedStep (tr_eventType t) name)
           | Some j \<Rightarrow> (case find_references all ts of Inl p \<Rightarrow> Inl p | Inr rs \<Rightarrow> Inr (Some j # rs))))"

section \<open>The loop of a track\<close>

text \<open>
  A track's goroutine: where it is in its loop, with \<open>deadlineReached\<close>, the signals sent of its beats in flight,
  and what it has published, each beat with the time it was published at.
\<close>

datatype run_pc = AtSelect | AtCheck | AtRearm | AtEnd

record runner =
  ru_track :: track
  ru_reference :: "nat option"
  ru_pc :: run_pc
  ru_reached :: bool
  ru_running :: bool
  ru_sent :: "nat set"
  ru_beats :: "(beat \<times> int) list"

definition start_runner :: "track \<Rightarrow> nat option \<Rightarrow> runner" where
  "start_runner t ref =
     \<lparr>ru_track = t, ru_reference = ref, ru_pc = AtSelect, ru_reached = False, ru_running = True, ru_sent = {}, ru_beats = []\<rparr>"

text \<open>
  The loop, each operation on the goroutine's timer and its own state.  After a case of the select the beat due is
  published, if a slot is free; \<open>publishDue\<close> rearms a variable track's timer itself, under the plugin's
  mutex, and the loop resets a fixed-step track's once it is back.  Each operation also tells whether it broadcasts
  \<open>settleChanged\<close>, which it does before it gives the mutex back.
\<close>

definition run_fired :: "manual_timer \<Rightarrow> runner \<Rightarrow> manual_timer \<times> runner \<times> bool" where
  "run_fired t r = (t\<lparr>mt_channel := False\<rparr>, r\<lparr>ru_reached := True, ru_pc := AtCheck\<rparr>, False)"

definition oldest :: "runner \<Rightarrow> nat" where
  "oldest r = tr_signals (ru_track r) ! tr_oldestSignal (ru_track r)"

definition run_finished :: "manual_timer \<Rightarrow> runner \<Rightarrow> manual_timer \<times> runner \<times> bool" where
  "run_finished t r = (t, r\<lparr>ru_track := finish_oldest (ru_track r), ru_sent := ru_sent r - {oldest r}, ru_pc := AtCheck\<rparr>, True)"

definition run_check :: "reference option \<Rightarrow> int \<Rightarrow> manual_timer \<Rightarrow> runner \<Rightarrow> manual_timer \<times> runner \<times> bool" where
  "run_check ref now t r =
     (if ru_reached r \<and> slot_free (ru_track r)
      then case publishDue ref now (ru_track r) of (b, signal, track) \<Rightarrow>
        let r1 = r\<lparr>ru_track := track, ru_beats := ru_beats r @ [(b, now)]\<rparr>
        in if se_Step (tr_settings track) = 0
           then (snd (timer_rearm now (se_MinInterval (tr_settings track)) t), r1\<lparr>ru_reached := False, ru_pc := AtSelect\<rparr>, False)
           else (t, r1\<lparr>ru_pc := AtRearm\<rparr>, False)
      else (t, r\<lparr>ru_pc := AtSelect\<rparr>, False))"

definition run_rearm :: "int \<Rightarrow> manual_timer \<Rightarrow> runner \<Rightarrow> manual_timer \<times> runner \<times> bool" where
  "run_rearm now t r = (timer_Reset now (tr_nextDeadline (ru_track r)) t, r\<lparr>ru_reached := False, ru_pc := AtSelect\<rparr>, False)"

definition run_end :: "manual_timer \<Rightarrow> runner \<Rightarrow> manual_timer \<times> runner \<times> bool" where
  "run_end t r = (timer_Stop t, r\<lparr>ru_running := False, ru_pc := AtEnd\<rparr>, True)"

text \<open>
  The steps of one track: a case of the select that is ready, what follows it, and the kernel sending the signal
  of a beat in flight that has finished.
\<close>

inductive run_step :: "bool \<Rightarrow> reference option \<Rightarrow> int \<Rightarrow> manual_timer \<times> runner \<Rightarrow> manual_timer \<times> runner \<times> bool \<Rightarrow> bool"
  for stop ref now where
  step_fired: "ru_pc r = AtSelect \<Longrightarrow> \<not> ru_reached r \<Longrightarrow> mt_channel t \<Longrightarrow> run_step stop ref now (t, r) (run_fired t r)"
| step_finished: "ru_pc r = AtSelect \<Longrightarrow> 0 < tr_inFlightCount (ru_track r) \<Longrightarrow> oldest r \<in> ru_sent r
    \<Longrightarrow> run_step stop ref now (t, r) (run_finished t r)"
| step_end: "ru_pc r = AtSelect \<Longrightarrow> stop \<Longrightarrow> run_step stop ref now (t, r) (run_end t r)"
| step_check: "ru_pc r = AtCheck \<Longrightarrow> run_step stop ref now (t, r) (run_check ref now t r)"
| step_rearm: "ru_pc r = AtRearm \<Longrightarrow> run_step stop ref now (t, r) (run_rearm now t r)"
| step_sent: "s \<in> set (in_flight (ru_track r)) \<Longrightarrow> s \<notin> ru_sent r
    \<Longrightarrow> run_step stop ref now (t, r) (t, r\<lparr>ru_sent := insert s (ru_sent r)\<rparr>, False)"

definition run_settled :: "int \<Rightarrow> manual_timer \<Rightarrow> runner \<Rightarrow> bool" where
  "run_settled now t r \<longleftrightarrow>
     \<not> (ru_running r \<and> (tr_inFlightCount (ru_track r) > 0 \<or> owes (Some (mt_fired t)) now (ru_track r)))"

section \<open>The metronome and Advance\<close>

text \<open>
  Where the goroutine that calls \<open>Advance\<close> is, with its target: about to wait, in the loop of the wait callback it read
  and about to look whether the tracks have settled, asleep on \<open>settleChanged\<close>, about to move the clock, and
  the same for the wait after the last move.
\<close>

datatype advance = NotAdvancing | AtWait int | Waiting int | Asleep int | Moving int | AtLastWait int | LastWaiting int | LastAsleep int

record metronome =
  me_clock :: manual_clock
  me_runs :: "runner list"
  me_advance :: advance
  me_wait :: bool
  me_stop :: bool

text \<open>\<open>Init\<close> and \<open>Start\<close> on a manual clock that reads 0: a timer for each track, armed for its first deadline.\<close>

definition start_metronome :: "declared_track list \<Rightarrow> metronome_panic + metronome" where
  "start_metronome ds =
     (case init_tracks ds [] of
        Inl p \<Rightarrow> Inl p
      | Inr ts \<Rightarrow>
          (case find_references ts ts of
             Inl p \<Rightarrow> Inl p
           | Inr refs \<Rightarrow>
               Inr \<lparr>me_clock = NewManualClock\<lparr>mc_timers :=
                      map (\<lambda>t. timer_Reset 0 (tr_nextDeadline t) (new_timer (se_Step (tr_settings t) = 0))) ts\<rparr>,
                    me_runs = map2 start_runner ts refs, me_advance = NotAdvancing, me_wait = True, me_stop = False\<rparr>))"

abbreviation run_of :: "metronome \<Rightarrow> nat \<Rightarrow> runner" where
  "run_of m i \<equiv> me_runs m ! i"

abbreviation timer_of :: "metronome \<Rightarrow> nat \<Rightarrow> manual_timer" where
  "timer_of m i \<equiv> mc_timers (me_clock m) ! i"

abbreviation now_of :: "metronome \<Rightarrow> int" where
  "now_of m \<equiv> mc_now (me_clock m)"

definition put_run :: "nat \<Rightarrow> manual_timer \<Rightarrow> runner \<Rightarrow> metronome \<Rightarrow> metronome" where
  "put_run i t r m =
     m\<lparr>me_clock := (me_clock m)\<lparr>mc_timers := (mc_timers (me_clock m))[i := t]\<rparr>, me_runs := (me_runs m)[i := r]\<rparr>"

definition settled :: "metronome \<Rightarrow> bool" where
  "settled m \<longleftrightarrow> (\<forall>i < length (me_runs m). run_settled (now_of m) (timer_of m i) (run_of m i))"

text \<open>
  A turn of the loop of \<open>Plugin.wait\<close>: it returns when every track has settled, and else waits on the condition
  variable, on whose list \<open>Wait\<close> puts the goroutine before it gives the mutex back.  \<open>Broadcast\<close> wakes the
  goroutine if it is on the list, to look again, and does nothing to one that is not.  \<open>Advance\<close> waits with a
  context that never ends.
\<close>

definition plugin_wait :: "metronome \<Rightarrow> metronome" where
  "plugin_wait m = m\<lparr>me_advance :=
     (case me_advance m of
        Waiting target \<Rightarrow> if settled m then Moving target else Asleep target
      | LastWaiting target \<Rightarrow> if settled m then NotAdvancing else LastAsleep target
      | a \<Rightarrow> a)\<rparr>"

definition settleChanged_Broadcast :: "metronome \<Rightarrow> metronome" where
  "settleChanged_Broadcast m = m\<lparr>me_advance :=
     (case me_advance m of Asleep target \<Rightarrow> Waiting target | LastAsleep target \<Rightarrow> LastWaiting target | a \<Rightarrow> a)\<rparr>"

definition end_turn :: "nat \<Rightarrow> manual_timer \<times> runner \<times> bool \<Rightarrow> metronome \<Rightarrow> metronome" where
  "end_turn i res m =
     (case res of (t, r, broadcast) \<Rightarrow> if broadcast then settleChanged_Broadcast (put_run i t r m) else put_run i t r m)"

text \<open>The reference's published tick, as \<open>publishDue\<close> loads it.\<close>

definition load_reference :: "metronome \<Rightarrow> runner \<Rightarrow> reference option" where
  "load_reference m r =
     (case ru_reference r of
        None \<Rightarrow> None
      | Some j \<Rightarrow> let t = ru_track (run_of m j)
                  in Some \<lparr>re_tick = fst (tr_published t), re_deadline = snd (tr_published t), re_step = se_Step (tr_settings t)\<rparr>)"

text \<open>A move of \<open>Advance\<close>: to the next deadline, or to its target when no fixed-step timer is due by then.\<close>

definition move_clock :: "int \<Rightarrow> metronome \<Rightarrow> metronome" where
  "move_clock target m =
     (case clock_nextDeadline target (me_clock m) of (deadline, found) \<Rightarrow>
        if \<not> found then m\<lparr>me_clock := fireVariable ((me_clock m)\<lparr>mc_now := target\<rparr>), me_advance := AtLastWait target\<rparr>
        else m\<lparr>me_clock := fireDue ((me_clock m)\<lparr>mc_now := deadline\<rparr>), me_advance := AtWait target\<rparr>)"

text \<open>
  \<open>Wait\<close> reads the callback and, with none, returns at once.  \<open>Stop\<close> takes the callback back and then closes the
  channel the tracks end on.
\<close>

inductive me_step :: "metronome \<Rightarrow> metronome \<Rightarrow> bool" where
  me_run: "i < length (me_runs m) \<Longrightarrow>
    run_step (me_stop m) (load_reference m (run_of m i)) (now_of m) (timer_of m i, run_of m i) res \<Longrightarrow> me_step m (end_turn i res m)"
| me_begin: "me_advance m = NotAdvancing \<Longrightarrow> 0 \<le> d \<Longrightarrow> me_step m (m\<lparr>me_advance := AtWait (now_of m + d)\<rparr>)"
| me_read: "me_advance m = AtWait target \<Longrightarrow> me_step m (m\<lparr>me_advance := if me_wait m then Waiting target else Moving target\<rparr>)"
| me_waited: "me_advance m = Waiting target \<Longrightarrow> me_step m (plugin_wait m)"
| me_move: "me_advance m = Moving target \<Longrightarrow> me_step m (move_clock target m)"
| me_read_last: "me_advance m = AtLastWait target
    \<Longrightarrow> me_step m (m\<lparr>me_advance := if me_wait m then LastWaiting target else NotAdvancing\<rparr>)"
| me_returned: "me_advance m = LastWaiting target \<Longrightarrow> me_step m (plugin_wait m)"
| me_unset: "me_wait m \<Longrightarrow> me_step m (m\<lparr>me_wait := False\<rparr>)"
| me_stopping: "\<not> me_wait m \<Longrightarrow> me_step m (m\<lparr>me_stop := True\<rparr>)"

inductive me_reach :: "declared_track list \<Rightarrow> metronome \<Rightarrow> bool" for ds where
  me_started: "start_metronome ds = Inr m \<Longrightarrow> me_reach ds m"
| me_next: "me_reach ds m \<Longrightarrow> me_step m m' \<Longrightarrow> me_reach ds m'"

inductive_cases run_stepE: "run_step stop ref now (t, r) (t', r', b)"

section \<open>What holds of a track between two steps\<close>

definition beats_exact :: "int \<Rightarrow> (beat \<times> int) list \<Rightarrow> bool" where
  "beats_exact step bs \<longleftrightarrow>
     (\<forall>k < length bs. be_Tick (fst (bs ! k)) = k + 1 \<and> be_Delta (fst (bs ! k)) = step \<and> be_Lost (fst (bs ! k)) = 0
        \<and> be_TimeFromStart (fst (bs ! k)) = (int k + 1) * step \<and> snd (bs ! k) = (int k + 1) * step)"

definition fixed_ok :: "int \<Rightarrow> manual_timer \<Rightarrow> runner \<Rightarrow> bool" where
  "fixed_ok now t r \<longleftrightarrow>
     (let track = ru_track r; step = se_Step (tr_settings track)
      in tr_nextDeadline track = (int (tr_stepCount track) + 1) * step \<and> tr_tick track = tr_stepCount track
         \<and> length (ru_beats r) = tr_stepCount track \<and> beats_exact step (ru_beats r)
         \<and> int (tr_stepCount track) * step \<le> now \<and> now \<le> tr_nextDeadline track
         \<and> (ru_pc r = AtRearm \<longrightarrow> now < tr_nextDeadline track) \<and> (ru_pc r \<noteq> AtRearm \<longrightarrow> mt_armed t = (now < tr_nextDeadline track))
         \<and> (mt_armed t \<longrightarrow> mt_deadline t = tr_nextDeadline track))"

definition run_ok :: "int \<Rightarrow> manual_timer \<Rightarrow> runner \<Rightarrow> bool" where
  "run_ok now t r \<longleftrightarrow>
     ring_ok (ru_track r) \<and> settings_ok (tr_settings (ru_track r)) \<and> ru_sent r \<subseteq> set (in_flight (ru_track r))
     \<and> ru_running r \<and> ru_pc r \<noteq> AtEnd \<and> mt_variable t = (se_Step (tr_settings (ru_track r)) = 0) \<and> mt_fired t = (\<not> mt_armed t)
     \<and> (ru_pc r = AtRearm \<longrightarrow> \<not> mt_armed t \<and> \<not> mt_channel t \<and> 0 < tr_inFlightCount (ru_track r) \<and> 0 < se_Step (tr_settings (ru_track r)))
     \<and> (ru_pc r \<noteq> AtRearm \<longrightarrow> mt_channel t = (\<not> mt_armed t \<and> \<not> ru_reached r) \<and> (mt_armed t \<longrightarrow> \<not> ru_reached r))
     \<and> (ru_pc r = AtSelect \<and> ru_reached r \<longrightarrow> \<not> slot_free (ru_track r))
     \<and> (0 < se_Step (tr_settings (ru_track r)) \<longrightarrow> fixed_ok now t r)"

text \<open>The work a track has left while the clock stands still: every step of it takes some away.\<close>

definition run_work :: "manual_timer \<Rightarrow> runner \<Rightarrow> nat" where
  "run_work t r =
     2 * tr_inFlightCount (ru_track r) + (tr_inFlightCount (ru_track r) - card (ru_sent r)) + (if mt_channel t then 6 else 0)
     + (if ru_reached r \<and> ru_pc r \<noteq> AtRearm then 4 else 0) + (if ru_pc r \<in> {AtCheck, AtRearm} then 1 else 0)"

lemma run_okD:
  assumes "run_ok now t r"
  shows "ring_ok (ru_track r)" and "settings_ok (tr_settings (ru_track r))" and "ru_sent r \<subseteq> set (in_flight (ru_track r))"
    and "ru_running r" and "ru_pc r \<noteq> AtEnd" and "mt_variable t = (se_Step (tr_settings (ru_track r)) = 0)" and "mt_fired t = (\<not> mt_armed t)"
    and "ru_pc r = AtRearm \<Longrightarrow> \<not> mt_armed t \<and> \<not> mt_channel t \<and> 0 < tr_inFlightCount (ru_track r) \<and> 0 < se_Step (tr_settings (ru_track r))"
    and "ru_pc r \<noteq> AtRearm \<Longrightarrow> mt_channel t = (\<not> mt_armed t \<and> \<not> ru_reached r) \<and> (mt_armed t \<longrightarrow> \<not> ru_reached r)"
    and "ru_pc r = AtSelect \<Longrightarrow> ru_reached r \<Longrightarrow> \<not> slot_free (ru_track r)"
    and "0 < se_Step (tr_settings (ru_track r)) \<Longrightarrow> fixed_ok now t r"
  using assms by (simp_all add: run_ok_def)

lemma fixed_ok_cong:
  "tr_settings (ru_track r') = tr_settings (ru_track r) \<Longrightarrow> tr_stepCount (ru_track r') = tr_stepCount (ru_track r)
    \<Longrightarrow> tr_nextDeadline (ru_track r') = tr_nextDeadline (ru_track r) \<Longrightarrow> tr_tick (ru_track r') = tr_tick (ru_track r)
    \<Longrightarrow> ru_beats r' = ru_beats r \<Longrightarrow> (ru_pc r' = AtRearm) = (ru_pc r = AtRearm) \<Longrightarrow> mt_armed t' = mt_armed t
    \<Longrightarrow> mt_deadline t' = mt_deadline t \<Longrightarrow> fixed_ok now t' r' = fixed_ok now t r"
  by (simp add: fixed_ok_def Let_def)

lemma sent_card:
  assumes "ring_ok track" and "sent \<subseteq> set (in_flight track)"
  shows "card sent \<le> tr_inFlightCount track"
  using card_mono[OF _ assms(2)] distinct_card[OF in_flight_distinct[OF assms(1)]] by simp

lemma run_ok_fired:
  assumes "run_ok now t r" and "ru_pc r = AtSelect" and "\<not> ru_reached r" and "mt_channel t" and "run_fired t r = (t', r', b)"
  shows "run_ok now t' r' \<and> run_work t' r' < run_work t r"
proof -
  have eq: "t' = t\<lparr>mt_channel := False\<rparr>" "r' = r\<lparr>ru_reached := True, ru_pc := AtCheck\<rparr>" using assms(5) by (simp_all add: run_fired_def)
  have f: "fixed_ok now t' r' = fixed_ok now t r" by (rule fixed_ok_cong) (use assms(2) in \<open>simp_all add: eq\<close>)
  have "run_ok now t' r'" using assms(1-4) f by (auto simp: run_ok_def eq)
  moreover have "run_work t' r' < run_work t r" using assms(2-4) by (simp add: run_work_def eq)
  ultimately show ?thesis by blast
qed

lemma run_ok_sent:
  assumes "run_ok now t r" and "s \<in> set (in_flight (ru_track r))" and "s \<notin> ru_sent r"
  shows "run_ok now t (r\<lparr>ru_sent := insert s (ru_sent r)\<rparr>) \<and> run_work t (r\<lparr>ru_sent := insert s (ru_sent r)\<rparr>) < run_work t r"
proof -
  have sub: "insert s (ru_sent r) \<subseteq> set (in_flight (ru_track r))" using run_okD(3)[OF assms(1)] assms(2) by simp
  have fin: "finite (ru_sent r)" using finite_subset[OF run_okD(3)[OF assms(1)]] by simp
  have "Suc (card (ru_sent r)) \<le> tr_inFlightCount (ru_track r)"
    using sent_card[OF run_okD(1)[OF assms(1)] sub] assms(3) fin by simp
  then have "run_work t (r\<lparr>ru_sent := insert s (ru_sent r)\<rparr>) < run_work t r" using assms(3) fin by (simp add: run_work_def)
  moreover have "fixed_ok now t (r\<lparr>ru_sent := insert s (ru_sent r)\<rparr>) = fixed_ok now t r" by (rule fixed_ok_cong) simp_all
  ultimately show ?thesis using assms(1) sub by (simp add: run_ok_def)
qed

lemma run_ok_finished:
  assumes "run_ok now t r" and "ru_pc r = AtSelect" and "0 < tr_inFlightCount (ru_track r)" and "oldest r \<in> ru_sent r"
    and "run_finished t r = (t', r', b)"
  shows "run_ok now t' r' \<and> run_work t' r' < run_work t r"
proof -
  note ok = run_okD[OF assms(1)]
  note f = finish_ring[OF ok(1) assms(3)]
  have fl: "in_flight (ru_track r) = oldest r # in_flight (finish_oldest (ru_track r))" using f(2) by (simp add: oldest_def)
  have sub: "ru_sent r - {oldest r} \<subseteq> set (in_flight (finish_oldest (ru_track r)))" using ok(3) fl by auto
  have fin: "finite (ru_sent r)" using finite_subset[OF ok(3)] by simp
  have c: "card (ru_sent r - {oldest r}) = card (ru_sent r) - 1" "0 < card (ru_sent r)"
    using fin assms(4) by (auto simp: card_gt_0_iff)
  have eq: "t' = t" "r' = r\<lparr>ru_track := finish_oldest (ru_track r), ru_sent := ru_sent r - {oldest r}, ru_pc := AtCheck\<rparr>"
    using assms(5) by (simp_all add: run_finished_def)
  have fr: "tr_settings (finish_oldest x) = tr_settings x" "tr_stepCount (finish_oldest x) = tr_stepCount x"
    "tr_nextDeadline (finish_oldest x) = tr_nextDeadline x" "tr_tick (finish_oldest x) = tr_tick x"
    "tr_inFlightCount (finish_oldest x) = tr_inFlightCount x - 1" for x
    by (simp_all add: finish_oldest_def)
  have fx: "fixed_ok now t' r' = fixed_ok now t r" by (rule fixed_ok_cong) (use assms(2) in \<open>simp_all add: eq fr\<close>)
  have "run_ok now t' r'" using assms(1,2) f(1) sub fx by (simp add: run_ok_def eq fr)
  moreover have "run_work t' r' < run_work t r"
    using assms(2,3) c sent_card[OF ok(1,3)] by (simp add: run_work_def eq fr)
  ultimately show ?thesis by blast
qed

lemma run_ok_rearm:
  assumes "run_ok now t r" and "ru_pc r = AtRearm" and "run_rearm now t r = (t', r', b)"
  shows "run_ok now t' r' \<and> run_work t' r' < run_work t r"
proof -
  note ok = run_okD[OF assms(1)]
  have st: "0 < se_Step (tr_settings (ru_track r))" "\<not> mt_channel t" using ok(8)[OF assms(2)] by blast+
  have lt: "now < tr_nextDeadline (ru_track r)" using ok(11)[OF st(1)] assms(2) by (simp add: fixed_ok_def Let_def)
  have eq: "t' = t\<lparr>mt_deadline := tr_nextDeadline (ru_track r), mt_armed := True, mt_fired := False\<rparr>" "r' = r\<lparr>ru_reached := False, ru_pc := AtSelect\<rparr>"
    using assms(3) lt by (simp_all add: run_rearm_def timer_Reset_def Let_def)
  have "fixed_ok now t' r'" using ok(11)[OF st(1)] lt assms(2) by (auto simp: fixed_ok_def eq Let_def)
  then have "run_ok now t' r'" using assms(1,2) st by (simp add: run_ok_def eq)
  moreover have "run_work t' r' < run_work t r" using assms(2) by (simp add: run_work_def eq)
  ultimately show ?thesis by blast
qed

text \<open>A publication: a fixed-step track's comes exactly at its deadline, so it owes the one step and drops none.\<close>

lemma fixed_publish:
  assumes "run_ok now t r" and "ru_pc r = AtCheck" and "ru_reached r" and "0 < se_Step (tr_settings (ru_track r))"
    and "publishDue ref now (ru_track r) = (b, signal, track)"
  shows "fixed_ok now t (r\<lparr>ru_track := track, ru_beats := ru_beats r @ [(b, now)], ru_pc := AtRearm\<rparr>)" and "\<not> mt_armed t" and "\<not> mt_channel t"
proof -
  note ok = run_okD[OF assms(1)]
  let ?tr = "ru_track r" and ?s = "se_Step (tr_settings (ru_track r))"
  show un: "\<not> mt_armed t" "\<not> mt_channel t" using ok(9) assms(2,3) by auto
  have fx: "tr_nextDeadline ?tr = (int (tr_stepCount ?tr) + 1) * ?s" "tr_tick ?tr = tr_stepCount ?tr"
    "length (ru_beats r) = tr_stepCount ?tr" "beats_exact ?s (ru_beats r)" "now = tr_nextDeadline ?tr"
    using ok(11)[OF assms(4)] un(1) assms(2) by (auto simp: fixed_ok_def Let_def)
  note p = publish_spec[OF ok(1) assms(5) refl]
  have "now div ?s - int (tr_stepCount ?tr) \<le> se_MaxDebt (tr_settings ?tr)"
    using fx(1,5) assms(4) ok(2) by (simp add: settings_ok_def)
  note f = fixed_pace[OF ok(2) assms(4) p(1)] and l = fixed_pace(9)[OF ok(2) assms(4) p(1) this]
  have cnt: "tr_stepCount track = tr_stepCount ?tr + 1" "be_Lost b = 0" using l p(8) by simp_all
  have b: "be_Tick b = tr_stepCount ?tr + 1" "be_Delta b = ?s" "be_TimeFromStart b = (int (tr_stepCount ?tr) + 1) * ?s"
    "now = (int (tr_stepCount ?tr) + 1) * ?s" using p(7) f(1,4) l fx(1,2,5) by (simp_all add: algebra_simps)
  have "beats_exact ?s (ru_beats r @ [(b, now)])"
    using fx(4) b cnt(2) fx(3) by (auto simp: beats_exact_def nth_append less_Suc_eq)
  moreover have "tr_nextDeadline track = (int (tr_stepCount track) + 1) * ?s" using p(8,9) f(7) by simp
  moreover have "int (tr_stepCount track) * ?s = now" using cnt(1) b(4) by (simp add: algebra_simps)
  moreover have "(int (tr_stepCount track) + 1) * ?s = now + ?s" using cnt(1) b(4) by (simp add: algebra_simps)
  ultimately show "fixed_ok now t (r\<lparr>ru_track := track, ru_beats := ru_beats r @ [(b, now)], ru_pc := AtRearm\<rparr>)"
    using p(5,6) cnt(1) fx(2,3) un(1) assms(4) by (simp add: fixed_ok_def)
qed

lemma run_ok_check:
  assumes "run_ok now t r" and "ru_pc r = AtCheck" and "run_check ref now t r = (t', r', b)"
  shows "run_ok now t' r' \<and> run_work t' r' < run_work t r"
proof (cases "ru_reached r \<and> slot_free (ru_track r)")
  case False
  then have eq: "t' = t" "r' = r\<lparr>ru_pc := AtSelect\<rparr>" using assms(3) by (auto simp: run_check_def)
  have "fixed_ok now t' r' = fixed_ok now t r" by (rule fixed_ok_cong) (use assms(2) in \<open>simp_all add: eq\<close>)
  then show ?thesis using False assms(1,2) by (auto simp: run_ok_def run_work_def eq)
next
  case True
  note ok = run_okD[OF assms(1)]
  let ?s = "se_Step (tr_settings (ru_track r))"
  obtain bt signal track where pd: "publishDue ref now (ru_track r) = (bt, signal, track)" by (metis prod.exhaust)
  note p = publish_spec[OF ok(1) pd refl]
  have un: "\<not> mt_armed t" "\<not> mt_channel t" using ok(9) assms(2) True by auto
  have sub: "ru_sent r \<subseteq> set (in_flight track)" using ok(3) p(3) by auto
  have le: "card (ru_sent r) \<le> tr_inFlightCount (ru_track r)" by (rule sent_card[OF ok(1,3)])
  show ?thesis
  proof (cases "?s = 0")
    case z: True
    have eq: "t' = t\<lparr>mt_deadline := now + se_MinInterval (tr_settings (ru_track r)), mt_armed := True, mt_fired := False\<rparr>"
      "r' = r\<lparr>ru_track := track, ru_beats := ru_beats r @ [(bt, now)], ru_reached := False, ru_pc := AtSelect\<rparr>"
      using assms(3) True z p(5) by (auto simp: run_check_def pd timer_rearm_def Let_def)
    show ?thesis using ok(1-7) p(2,5,11) un sub z True assms(2) le by (simp add: run_ok_def run_work_def eq)
  next
    case nz: False
    then have pos: "0 < ?s" using ok(2) by (simp add: settings_ok_def)
    have eq: "t' = t" "r' = r\<lparr>ru_track := track, ru_beats := ru_beats r @ [(bt, now)], ru_pc := AtRearm\<rparr>"
      using assms(3) True nz p(5) by (auto simp: run_check_def pd Let_def)
    note fp = fixed_publish[OF assms(1,2) _ pos pd, folded eq]
    show ?thesis using ok(1-7) p(2,5,11) un sub pos True assms(2) le fp(1) by (simp add: run_ok_def run_work_def eq)
  qed
qed

lemma run_step_ok:
  assumes "run_step False ref now (t, r) (t', r', b)" and "run_ok now t r"
  shows "run_ok now t' r' \<and> run_work t' r' < run_work t r"
proof (rule run_stepE[OF assms(1)])
  show ?thesis if "(t', r', b) = run_fired t r" "ru_pc r = AtSelect" "\<not> ru_reached r" "mt_channel t"
    by (rule run_ok_fired[OF assms(2) that(2-4) that(1)[symmetric]])
  show ?thesis if "(t', r', b) = run_finished t r" "ru_pc r = AtSelect" "0 < tr_inFlightCount (ru_track r)" "oldest r \<in> ru_sent r"
    by (rule run_ok_finished[OF assms(2) that(2-4) that(1)[symmetric]])
  show ?thesis if "(t', r', b) = run_check ref now t r" "ru_pc r = AtCheck" by (rule run_ok_check[OF assms(2) that(2) that(1)[symmetric]])
  show ?thesis if "(t', r', b) = run_rearm now t r" "ru_pc r = AtRearm" by (rule run_ok_rearm[OF assms(2) that(2) that(1)[symmetric]])
qed (use run_ok_sent[OF assms(2)] in simp_all)

text \<open>A track with anything left to do has a step, and one with nothing left has settled.\<close>

lemma run_progress:
  assumes "run_ok now t r" and "\<not> run_settled now t r"
  shows "\<exists>res. run_step stop ref now (t, r) res"
proof -
  note ok = run_okD[OF assms(1)]
  consider "ru_pc r = AtCheck" | "ru_pc r = AtRearm" | "ru_pc r = AtSelect" using ok(5) by (cases "ru_pc r") auto
  then show ?thesis
  proof cases
    case 1
    then show ?thesis by (metis step_check prod.exhaust)
  next
    case 2
    then show ?thesis by (metis step_rearm prod.exhaust)
  next
    case 3
    show ?thesis
    proof (cases "0 < tr_inFlightCount (ru_track r)")
      case True
      have "oldest r \<in> set (in_flight (ru_track r))" using finish_ring(2)[OF ok(1) True] by (simp add: oldest_def)
      then show ?thesis using step_sent[of "oldest r" r] step_finished[OF 3 True] by (metis prod.exhaust)
    next
      case False
      then have fr: "slot_free (ru_track r)" using ok(2) by (auto simp: slot_free_def settings_ok_def)
      then have nr: "\<not> ru_reached r" using ok(10) 3 by blast
      have "\<not> mt_armed t"
      proof
        assume a: "mt_armed t"
        then have "\<not> owes (Some (mt_fired t)) now (ru_track r)" using ok(7,11) 3 by (auto simp: owes_def fixed_ok_def Let_def)
        then show False using assms(2) False by (simp add: run_settled_def)
      qed
      then have "mt_channel t" using ok(9) 3 nr by simp
      then show ?thesis using step_fired[OF 3 nr] by (metis prod.exhaust)
    qed
  qed
qed

text \<open>A settled track waits for its timer, and only the clock's next move gives it something to do.\<close>

lemma settled_armed:
  assumes "run_ok now t r" and "run_settled now t r"
  shows "mt_armed t" and "\<not> mt_channel t" and "\<not> ru_reached r" and "tr_inFlightCount (ru_track r) = 0" and "ru_pc r \<noteq> AtRearm"
proof -
  note ok = run_okD[OF assms(1)]
  show c: "tr_inFlightCount (ru_track r) = 0" using assms(2) ok(4) by (simp add: run_settled_def)
  show pc: "ru_pc r \<noteq> AtRearm" using ok(8) c by auto
  have o: "\<not> owes (Some (mt_fired t)) now (ru_track r)" using assms(2) ok(4) by (simp add: run_settled_def)
  show a: "mt_armed t"
  proof (cases "0 < se_Step (tr_settings (ru_track r))")
    case True
    then show ?thesis using o ok(11)[OF True] pc by (simp add: owes_def fixed_ok_def Let_def)
  next
    case False
    then show ?thesis using o ok(7) by (simp add: owes_def)
  qed
  show "\<not> mt_channel t" "\<not> ru_reached r" using ok(9)[OF pc] a by simp_all
qed

lemma run_step_settled:
  assumes "run_step False ref now (t, r) (t', r', b)" and "run_ok now t r" and "run_settled now t r"
  shows "run_settled now t' r'"
proof -
  note s = settled_armed[OF assms(2,3)]
  have "in_flight (ru_track r) = []" using s(4) by (simp add: in_flight_def)
  with assms(1) s have "t' = t \<and> r' = r\<lparr>ru_pc := AtSelect\<rparr>" by (auto elim!: run_stepE simp: run_check_def)
  then show ?thesis using assms(3) by (simp add: run_settled_def)
qed

text \<open>A step that does not broadcast settles no track: whoever sleeps until the tracks have settled sleeps through no such step.\<close>

lemma run_step_silent:
  assumes "run_step False ref now (t, r) (t', r', False)" and "run_ok now t r" and "\<not> run_settled now t r"
  shows "\<not> run_settled now t' r'"
proof (rule run_stepE[OF assms(1)])
  note ok = run_okD[OF assms(2)]
  show ?thesis if "(t', r', False) = run_check ref now t r" "ru_pc r = AtCheck"
  proof (cases "ru_reached r \<and> slot_free (ru_track r)")
    case True
    obtain bt signal track where pd: "publishDue ref now (ru_track r) = (bt, signal, track)" by (metis prod.exhaust)
    have "ru_running r'" "tr_inFlightCount (ru_track r') = tr_inFlightCount (ru_track r) + 1"
      using that(1) True publish_spec(11)[OF ok(1) pd refl] ok(4) by (auto simp: run_check_def pd Let_def split: if_splits)
    then show ?thesis by (simp add: run_settled_def)
  qed (use that assms(3) in \<open>auto simp: run_check_def run_settled_def\<close>)
  show ?thesis if "(t', r', False) = run_rearm now t r" "ru_pc r = AtRearm"
    using that(1) ok(4) ok(8)[OF that(2)] by (simp add: run_rearm_def run_settled_def)
qed (use assms(3) in \<open>auto simp: run_fired_def run_finished_def run_settled_def\<close>)

lemma run_ok_moved:
  assumes "run_ok now t r" and "run_settled now t r" and "now \<le> now'" and "\<not> mt_variable t \<Longrightarrow> now' \<le> mt_deadline t"
    and "variable \<Longrightarrow> \<not> mt_variable t \<Longrightarrow> now' < mt_deadline t"
  shows "run_ok now' (fire_due variable now' t) r"
proof -
  note ok = run_okD[OF assms(1)] and s = settled_armed[OF assms(1,2)]
  have fx: "fixed_ok now' (fire_due variable now' t) r" if pos: "0 < se_Step (tr_settings (ru_track r))"
  proof -
    have nv: "\<not> mt_variable t" using ok(6) pos by simp
    have d: "mt_deadline t = tr_nextDeadline (ru_track r)" using ok(11)[OF pos] s(1) by (simp add: fixed_ok_def Let_def)
    then show ?thesis using ok(11)[OF pos] s(1,5) nv assms(3) assms(4)[OF nv] assms(5)[OF _ nv]
      by (auto simp: fixed_ok_def fire_due_def timer_fire_def Let_def)
  qed
  show ?thesis using assms(1) s fx by (auto simp: run_ok_def fire_due_def timer_fire_def)
qed

section \<open>What holds of a metronome while the clock is only advanced\<close>

definition me_target :: "metronome \<Rightarrow> int" where
  "me_target m = (case me_advance m of NotAdvancing \<Rightarrow> now_of m | AtWait target \<Rightarrow> target | Waiting target \<Rightarrow> target | Asleep target \<Rightarrow> target
     | Moving target \<Rightarrow> target | AtLastWait target \<Rightarrow> target | LastWaiting target \<Rightarrow> target | LastAsleep target \<Rightarrow> target)"

definition runs_ok :: "metronome \<Rightarrow> bool" where
  "runs_ok m \<longleftrightarrow> me_wait m \<and> \<not> me_stop m \<and> length (mc_timers (me_clock m)) = length (me_runs m)
     \<and> (\<forall>i < length (me_runs m). run_ok (now_of m) (timer_of m i) (run_of m i))"

definition advance_ok :: "metronome \<Rightarrow> bool" where
  "advance_ok m \<longleftrightarrow> (case me_advance m of NotAdvancing \<Rightarrow> settled m | AtWait target \<Rightarrow> now_of m \<le> target | Waiting target \<Rightarrow> now_of m \<le> target
     | Asleep target \<Rightarrow> now_of m \<le> target \<and> \<not> settled m | Moving target \<Rightarrow> now_of m \<le> target \<and> settled m
     | AtLastWait target \<Rightarrow> now_of m = target | LastWaiting target \<Rightarrow> now_of m = target | LastAsleep target \<Rightarrow> now_of m = target \<and> \<not> settled m)"

definition me_work :: "metronome \<Rightarrow> nat" where
  "me_work m = (\<Sum>i < length (me_runs m). run_work (timer_of m i) (run_of m i))"

definition me_phase :: "metronome \<Rightarrow> nat" where
  "me_phase m = (case me_advance m of NotAdvancing \<Rightarrow> 0 | AtWait _ \<Rightarrow> 5 | Waiting _ \<Rightarrow> 4 | Asleep _ \<Rightarrow> 4 | Moving _ \<Rightarrow> 3 | AtLastWait _ \<Rightarrow> 2
     | LastWaiting _ \<Rightarrow> 1 | LastAsleep _ \<Rightarrow> 1)"

definition me_awake :: "metronome \<Rightarrow> nat" where
  "me_awake m = (case me_advance m of Waiting _ \<Rightarrow> 1 | LastWaiting _ \<Rightarrow> 1 | _ \<Rightarrow> 0)"

definition me_order :: "(metronome \<times> metronome) set" where
  "me_order = measures [\<lambda>m. if me_wait m then 1 else 0, \<lambda>m. nat (me_target m - now_of m), me_phase, me_work, me_awake]"

lemma wf_me_order: "wf me_order"
  by (simp add: me_order_def)

lemma runs_okD:
  assumes "runs_ok m"
  shows "me_wait m" and "\<not> me_stop m" and "length (mc_timers (me_clock m)) = length (me_runs m)"
    and "i < length (me_runs m) \<Longrightarrow> run_ok (now_of m) (timer_of m i) (run_of m i)"
  using assms by (simp_all add: runs_ok_def)

lemma put_run_simps [simp]:
  "me_wait (put_run i t r m) = me_wait m" "me_stop (put_run i t r m) = me_stop m" "me_advance (put_run i t r m) = me_advance m"
  "now_of (put_run i t r m) = now_of m" "mc_timers (me_clock (put_run i t r m)) = (mc_timers (me_clock m))[i := t]"
  "me_runs (put_run i t r m) = (me_runs m)[i := r]"
  by (simp_all add: put_run_def)

lemma me_work_put:
  assumes "i < length (me_runs m)" and "length (mc_timers (me_clock m)) = length (me_runs m)"
    and "run_work t r < run_work (timer_of m i) (run_of m i)"
  shows "me_work (put_run i t r m) < me_work m"
proof -
  let ?n = "length (me_runs m)"
  have "(\<Sum>j < ?n. run_work ((mc_timers (me_clock m))[i := t] ! j) ((me_runs m)[i := r] ! j)) < (\<Sum>j < ?n. run_work (timer_of m j) (run_of m j))"
    by (rule sum_strict_mono_ex1) (use assms in \<open>auto simp: nth_list_update\<close>)
  then show ?thesis by (simp add: me_work_def)
qed

lemma broadcast_simps [simp]:
  "me_wait (settleChanged_Broadcast m) = me_wait m" "me_stop (settleChanged_Broadcast m) = me_stop m"
  "me_clock (settleChanged_Broadcast m) = me_clock m" "me_runs (settleChanged_Broadcast m) = me_runs m"
  "settled (settleChanged_Broadcast m) = settled m" "runs_ok (settleChanged_Broadcast m) = runs_ok m"
  "me_target (settleChanged_Broadcast m) = me_target m" "me_phase (settleChanged_Broadcast m) = me_phase m" "me_work (settleChanged_Broadcast m) = me_work m"
  by (simp_all add: settleChanged_Broadcast_def settled_def runs_ok_def me_target_def me_phase_def me_work_def split: advance.splits)

lemma settled_put:
  assumes "i < length (me_runs m)" and "length (mc_timers (me_clock m)) = length (me_runs m)"
  shows "settled (put_run i t r m) \<longleftrightarrow>
    run_settled (now_of m) t r \<and> (\<forall>j < length (me_runs m). j \<noteq> i \<longrightarrow> run_settled (now_of m) (timer_of m j) (run_of m j))"
  using assms by (auto simp: settled_def nth_list_update)

lemma me_run_ok:
  assumes "runs_ok m" and "advance_ok m" and "i < length (me_runs m)"
    and "run_step (me_stop m) ref (now_of m) (timer_of m i, run_of m i) res"
  shows "runs_ok (end_turn i res m)" and "advance_ok (end_turn i res m)" and "(end_turn i res m, m) \<in> me_order"
proof -
  note ok = runs_okD[OF assms(1)]
  obtain t r b where res: "res = (t, r, b)" by (metis prod.exhaust)
  have st: "run_step False ref (now_of m) (timer_of m i, run_of m i) (t, r, b)" using assms(4) ok(2) res by simp
  note r = run_step_ok[OF st ok(4)[OF assms(3)]]
  have put: "runs_ok (put_run i t r m)" using ok r assms(3) by (simp add: runs_ok_def nth_list_update)
  then show "runs_ok (end_turn i res m)" by (simp add: end_turn_def res)
  have kept: "settled (put_run i t r m)" if "settled m"
    using that run_step_settled[OF st ok(4)[OF assms(3)]] assms(3) unfolding settled_put[OF assms(3) ok(3)] by (simp add: settled_def)
  have silent: "\<not> settled (put_run i t r m)" if "\<not> settled m" "\<not> b"
  proof
    assume "settled (put_run i t r m)"
    note p = this[unfolded settled_put[OF assms(3) ok(3)]]
    have "\<not> run_settled (now_of m) (timer_of m i) (run_of m i)" using that(1) p by (auto simp: settled_def)
    then show False using run_step_silent[OF _ ok(4)[OF assms(3)]] st that(2) p by simp
  qed
  show "advance_ok (end_turn i res m)"
    using assms(2) kept silent by (cases b) (simp_all add: end_turn_def res advance_ok_def settleChanged_Broadcast_def settled_def split: advance.splits)
  have "me_work (put_run i t r m) < me_work m" using me_work_put[OF assms(3) ok(3)] r by simp
  then show "(end_turn i res m, m) \<in> me_order"
    by (simp add: end_turn_def res me_order_def) (simp add: me_target_def me_phase_def split: advance.splits)
qed

lemma move_ok:
  assumes "runs_ok m" and "advance_ok m" and "me_advance m = Moving target"
  shows "runs_ok (move_clock target m)" and "advance_ok (move_clock target m)" and "(move_clock target m, m) \<in> me_order"
proof -
  note ok = runs_okD[OF assms(1)]
  have a: "now_of m \<le> target" "settled m" using assms(2,3) by (simp_all add: advance_ok_def)
  obtain deadline found where nd: "clock_nextDeadline target (me_clock m) = (deadline, found)" by fastforce
  note n = nextDeadline_least[OF nd]
  have arm: "mt_armed (timer_of m i)" "\<not> mt_variable (timer_of m i) \<Longrightarrow> now_of m < mt_deadline (timer_of m i)"
    "run_ok (now_of m) (timer_of m i) (run_of m i)" "run_settled (now_of m) (timer_of m i) (run_of m i)"
    "timer_of m i \<in> set (mc_timers (me_clock m))" if i: "i < length (me_runs m)" for i
  proof -
    show r: "run_ok (now_of m) (timer_of m i) (run_of m i)" by (rule ok(4)[OF i])
    show st: "run_settled (now_of m) (timer_of m i) (run_of m i)" using a(2) i by (simp add: settled_def)
    note s = settled_armed[OF r st]
    show "mt_armed (timer_of m i)" by (rule s(1))
    show "now_of m < mt_deadline (timer_of m i)" if nv: "\<not> mt_variable (timer_of m i)"
    proof -
      have "0 < se_Step (tr_settings (ru_track (run_of m i)))" using run_okD(2,6)[OF r] nv by (simp add: settings_ok_def)
      from run_okD(11)[OF r this] show ?thesis using s(1,5) by (simp add: fixed_ok_def Let_def)
    qed
    show "timer_of m i \<in> set (mc_timers (me_clock m))" using i ok(3) by simp
  qed
  have lt: "now_of m < deadline" if fd: found
  proof -
    obtain i where "i < length (me_runs m)" "\<not> mt_variable (timer_of m i)" "mt_deadline (timer_of m i) = deadline"
      using n(3)[OF fd] ok(3) by (metis in_set_conv_nth)
    then show ?thesis using arm(2) by blast
  qed
  let ?now = "if found then deadline else target"
  have le: "now_of m \<le> ?now" using lt a(1) by auto
  have run: "run_ok ?now (fire_due (\<not> found) ?now (timer_of m i)) (run_of m i)" if i: "i < length (me_runs m)" for i
    by (rule run_ok_moved[OF arm(3,4)[OF i] le]) (use n(4)[OF arm(5)[OF i] _ arm(1)[OF i]] in \<open>auto split: if_splits\<close>)
  have eq: "move_clock target m =
    (if found then m\<lparr>me_clock := fireDue ((me_clock m)\<lparr>mc_now := deadline\<rparr>), me_advance := AtWait target\<rparr>
     else m\<lparr>me_clock := fireVariable ((me_clock m)\<lparr>mc_now := target\<rparr>), me_advance := AtLastWait target\<rparr>)"
    by (simp add: move_clock_def nd)
  show "runs_ok (move_clock target m)"
    using ok(1-3) run by (cases found) (simp_all add: eq runs_ok_def fireDue_def fireVariable_def)
  show "advance_ok (move_clock target m)" using n(1) by (simp add: eq advance_ok_def fireDue_def fireVariable_def)
  show "(move_clock target m, m) \<in> me_order"
    using a(1) lt n(1) ok(1) assms(3) by (auto simp: eq me_order_def me_target_def me_phase_def fireDue_def fireVariable_def)
qed

lemma me_step_ok:
  assumes "me_step m m'" and "runs_ok m" and "advance_ok m"
  shows "me_wait m' \<Longrightarrow> runs_ok m' \<and> advance_ok m'" and "me_advance m \<noteq> NotAdvancing \<Longrightarrow> (m', m) \<in> me_order"
  using assms
proof (induction rule: me_step.induct)
  case (me_run i m res)
  { case 1 show ?case using me_run_ok[OF 1(2,3) me_run(1,2)] by blast }
  { case 2 show ?case using me_run_ok[OF 2(2,3) me_run(1,2)] by blast }
next
  case (me_move m target)
  { case 1 show ?case using move_ok[OF 1(2,3) me_move] by blast }
  { case 2 show ?case using move_ok[OF 2(2,3) me_move] by blast }
next
  case (me_waited m target)
  { case 1 then show ?case using me_waited by (simp add: plugin_wait_def runs_ok_def advance_ok_def settled_def) }
  { case 2 then show ?case using me_waited by (simp add: plugin_wait_def me_order_def me_target_def me_phase_def me_work_def me_awake_def) }
next
  case (me_returned m target)
  { case 1 then show ?case using me_returned by (simp add: plugin_wait_def runs_ok_def advance_ok_def settled_def) }
  { case 2 then show ?case using me_returned by (auto simp: plugin_wait_def me_order_def me_target_def me_phase_def me_work_def me_awake_def) }
qed (simp_all add: runs_ok_def advance_ok_def settled_def me_order_def me_target_def me_phase_def)

section \<open>Starting\<close>

text \<open>A track that beats every 10 nanoseconds, for the examples.\<close>

definition ten_track :: declared_track where
  "ten_track = \<lparr>dt_eventType = ''Update'', dt_settings = zero_settings\<lparr>se_Step := 10, se_MaxInFlight := 1, se_MaxDebt := 4\<rparr>\<rparr>"

definition ten_metronome :: "int \<Rightarrow> manual_timer \<Rightarrow> runner \<Rightarrow> advance \<Rightarrow> metronome" where
  "ten_metronome now t r a =
     \<lparr>me_clock = \<lparr>mc_now = now, mc_timers = [t], mc_lengthenings = (\<lambda>_. [])\<rparr>, me_runs = [r], me_advance = a, me_wait = True, me_stop = False\<rparr>"

lemma init_tracks_new: "init_tracks ds ts = Inr ts' \<Longrightarrow> ts' = ts @ map new_track ds"
  by (induction ds ts rule: init_tracks.induct) (auto split: if_splits)

lemma find_references_length: "find_references all ts = Inr refs \<Longrightarrow> length refs = length ts"
  by (induction ts arbitrary: refs) (auto split: option.splits sum.splits)

definition steps_declared :: "declared_track list \<Rightarrow> bool" where
  "steps_declared ds \<longleftrightarrow> (\<forall>d \<in> set ds. (\<exists>eventType s. NewTrack eventType s = Some d)
     \<and> (0 < se_Step (dt_settings d) \<longrightarrow> se_MinInterval (dt_settings d) = 0))"

lemma start_run_ok:
  assumes "NewTrack eventType s = Some d" and "0 < se_Step (dt_settings d) \<longrightarrow> se_MinInterval (dt_settings d) = 0"
  shows "run_ok 0 (timer_Reset 0 (tr_nextDeadline (new_track d)) (new_timer (se_Step (dt_settings d) = 0))) (start_runner (new_track d) ref)"
    and "run_settled 0 (timer_Reset 0 (tr_nextDeadline (new_track d)) (new_timer (se_Step (dt_settings d) = 0))) (start_runner (new_track d) ref)"
proof -
  have r: "ring_ok (new_track d)" using track_inv_new[OF assms(1)] by (simp add: track_inv_def)
  have s: "settings_ok (dt_settings d)" by (rule NewTrack_ok[OF assms(1)])
  have n: "tr_settings (new_track d) = dt_settings d" "tr_nextDeadline (new_track d) = se_Step (dt_settings d) + se_MinInterval (dt_settings d)"
    "tr_stepCount (new_track d) = 0" "tr_tick (new_track d) = 0" "tr_inFlightCount (new_track d) = 0"
    by (simp_all add: new_track_def Let_def)
  have z: "se_Step (dt_settings d) = 0 \<or> 0 < se_Step (dt_settings d) \<and> se_MinInterval (dt_settings d) = 0"
    using s assms(2) by (auto simp: settings_ok_def)
  then show "run_ok 0 (timer_Reset 0 (tr_nextDeadline (new_track d)) (new_timer (se_Step (dt_settings d) = 0))) (start_runner (new_track d) ref)"
    using r s n by (auto simp: run_ok_def fixed_ok_def beats_exact_def start_runner_def timer_Reset_def new_timer_def)
  show "run_settled 0 (timer_Reset 0 (tr_nextDeadline (new_track d)) (new_timer (se_Step (dt_settings d) = 0))) (start_runner (new_track d) ref)"
    using z n by (auto simp: run_settled_def owes_def start_runner_def timer_Reset_def new_timer_def)
qed

lemma start_ok:
  assumes "start_metronome ds = Inr m" and "steps_declared ds"
  shows "runs_ok m" and "advance_ok m"
proof -
  obtain refs where refs: "find_references (map new_track ds) (map new_track ds) = Inr refs"
    and m: "m = \<lparr>me_clock = NewManualClock\<lparr>mc_timers := map (\<lambda>t. timer_Reset 0 (tr_nextDeadline t) (new_timer (se_Step (tr_settings t) = 0)))
        (map new_track ds)\<rparr>, me_runs = map2 start_runner (map new_track ds) refs, me_advance = NotAdvancing, me_wait = True, me_stop = False\<rparr>"
    using assms(1) by (auto simp: start_metronome_def split: sum.splits dest!: init_tracks_new)
  have l: "length refs = length ds" using find_references_length[OF refs] by simp
  have set: "tr_settings (new_track d) = dt_settings d" for d by (simp add: new_track_def Let_def)
  have run: "run_ok 0 (timer_of m i) (run_of m i) \<and> run_settled 0 (timer_of m i) (run_of m i)" if i: "i < length ds" for i
  proof -
    obtain eventType s where "NewTrack eventType s = Some (ds ! i)"
      "0 < se_Step (dt_settings (ds ! i)) \<longrightarrow> se_MinInterval (dt_settings (ds ! i)) = 0"
      using assms(2) i unfolding steps_declared_def by (metis nth_mem)
    from start_run_ok[OF this] show ?thesis using i l by (simp add: m set)
  qed
  show "runs_ok m" using run l by (simp add: runs_ok_def m NewManualClock_def)
  show "advance_ok m" using run l by (simp add: advance_ok_def settled_def m NewManualClock_def)
qed

lemma ten_declared: "steps_declared [ten_track]"
proof -
  have "NewTrack ''Update'' (zero_settings\<lparr>se_Step := 10, se_MaxInFlight := 1\<rparr>) = Some ten_track"
    by (simp add: NewTrack_def zero_settings_def defaultMaxDebt_def ten_track_def)
  then show ?thesis by (auto simp: steps_declared_def ten_track_def zero_settings_def)
qed

lemma ten_begun:
  assumes "t = new_timer False\<lparr>mt_deadline := 10, mt_armed := True\<rparr>" and "r = start_runner (new_track ten_track) None"
  shows "me_reach [ten_track] (ten_metronome 0 t r (AtWait 25))" and "me_reach [ten_track] (ten_metronome 10 (timer_fire t) r (AtWait 25))"
proof -
  have "start_metronome [ten_track] = Inr (ten_metronome 0 t r NotAdvancing)"
    by (simp add: assms start_metronome_def ten_metronome_def NewManualClock_def timer_Reset_def new_timer_def new_track_def ten_track_def
        zero_settings_def Let_def)
  note m0 = me_started[OF this]
  from me_next[OF m0 me_begin[where d = 25]] show m1: "me_reach [ten_track] (ten_metronome 0 t r (AtWait 25))" by (simp add: ten_metronome_def)
  from me_next[OF m1 me_read[where target = 25]] have m2: "me_reach [ten_track] (ten_metronome 0 t r (Waiting 25))" by (simp add: ten_metronome_def)
  have "settled (ten_metronome 0 t r (Waiting 25))"
    by (simp add: assms ten_metronome_def settled_def run_settled_def start_runner_def new_track_def ten_track_def zero_settings_def owes_def Let_def)
  then have "plugin_wait (ten_metronome 0 t r (Waiting 25)) = ten_metronome 0 t r (Moving 25)"
    by (simp add: plugin_wait_def) (simp add: ten_metronome_def)
  with me_next[OF m2 me_waited[where target = 25]] have m3: "me_reach [ten_track] (ten_metronome 0 t r (Moving 25))"
    by (simp add: ten_metronome_def)
  have "move_clock 25 (ten_metronome 0 t r (Moving 25)) = ten_metronome 10 (timer_fire t) r (AtWait 25)"
    by (simp add: assms(1) move_clock_def ten_metronome_def clock_nextDeadline_def fireDue_def fire_due_def timer_fire_def new_timer_def)
  with me_next[OF m3 me_move[where target = 25]] show "me_reach [ten_track] (ten_metronome 10 (timer_fire t) r (AtWait 25))"
    by (simp add: ten_metronome_def)
qed

lemma ten_put: "put_run 0 t' r' (ten_metronome now t r a) = ten_metronome now t' r' a"
  by (simp add: put_run_def ten_metronome_def)

lemma ten_run:
  assumes "me_reach [ten_track] (ten_metronome now t r a)" and "run_step False None now (t, r) (t', r', False)" and "ru_reference r = None"
  shows "me_reach [ten_track] (ten_metronome now t' r' a)"
  using me_next[OF assms(1) me_run[of 0 _ "(t', r', False)"]] assms(2,3) by (simp add: end_turn_def ten_put) (simp add: ten_metronome_def load_reference_def)

lemma me_step_wait: "me_step m m' \<Longrightarrow> me_wait m' \<Longrightarrow> me_wait m"
  by (induction rule: me_step.induct) (auto simp: move_clock_def end_turn_def plugin_wait_def split: prod.splits if_splits)

lemma me_reach_ok:
  assumes "me_reach ds m" and "steps_declared ds" and "me_wait m"
  shows "runs_ok m \<and> advance_ok m"
  using assms
proof (induction rule: me_reach.induct)
  case (me_started m)
  then show ?case using start_ok by blast
next
  case (me_next m m')
  then show ?case using me_step_ok(1)[OF me_next(2)] me_step_wait[OF me_next(2)] by blast
qed

text \<open>While \<open>Advance\<close> is under way there is a step: one of its own, or, while it waits or sleeps, one of a track that has not settled.\<close>

lemma me_progress:
  assumes "runs_ok m" and "advance_ok m" and "me_advance m \<noteq> NotAdvancing"
  shows "\<exists>m'. me_step m m' \<and> me_wait m'"
proof -
  note ok = runs_okD[OF assms(1)]
  have run: ?thesis if ns: "\<not> settled m"
  proof -
    obtain i where i: "i < length (me_runs m)" "\<not> run_settled (now_of m) (timer_of m i) (run_of m i)" using ns by (auto simp: settled_def)
    obtain res where "run_step (me_stop m) (load_reference m (run_of m i)) (now_of m) (timer_of m i, run_of m i) res"
      using run_progress[OF ok(4)[OF i(1)] i(2)] by blast
    from me_run[OF i(1) this] have "me_step m (end_turn i res m)" .
    moreover have "me_wait (end_turn i res m)" using ok(1) by (simp add: end_turn_def split: prod.splits)
    ultimately show ?thesis by blast
  qed
  have step: ?thesis if "me_step m m1" "me_wait m1" for m1 using that by blast
  show ?thesis
  proof (cases "me_advance m")
    case (AtWait target)
    show ?thesis by (rule step[OF me_read[OF AtWait]]) (use ok(1) in simp)
  next
    case (Waiting target)
    show ?thesis by (rule step[OF me_waited[OF Waiting]]) (use ok(1) in \<open>simp add: plugin_wait_def\<close>)
  next
    case (Moving target)
    show ?thesis by (rule step[OF me_move[OF Moving]]) (use ok(1) in \<open>simp add: move_clock_def split: prod.splits\<close>)
  next
    case (AtLastWait target)
    show ?thesis by (rule step[OF me_read_last[OF AtLastWait]]) (use ok(1) in simp)
  next
    case (LastWaiting target)
    show ?thesis by (rule step[OF me_returned[OF LastWaiting]]) (use ok(1) in \<open>simp add: plugin_wait_def\<close>)
  qed (use run assms(2,3) in \<open>simp_all add: advance_ok_def\<close>)
qed

text \<open>
  C17: A metronome on a manual clock that is only advanced, whose fixed-step tracks have no \<open>MinInterval\<close>
  (\<open>steps_declared\<close>: \<open>NewTrack\<close> takes one, and \<open>Init\<close> then puts the first deadline that much later), never falls
  behind, however its tracks, their beats and the goroutine that advances the clock interleave.  The beats of a fixed-step track are its ticks in
  order, each standing for one step with none lost, each published at the very time it is due; when
  \<open>Advance\<close> has returned, every tick due by then is published and no beat is in flight.
\<close>

theorem advance_exact:
  assumes "me_reach ds m" and "steps_declared ds" and "me_wait m" and "i < length (me_runs m)"
    and "step = se_Step (tr_settings (ru_track (run_of m i)))" and "0 < step"
  shows "(\<forall>k < length (ru_beats (run_of m i)). case ru_beats (run_of m i) ! k of (b, time) \<Rightarrow>
        be_Tick b = k + 1 \<and> be_Delta b = step \<and> be_Lost b = 0 \<and> be_TimeFromStart b = (int k + 1) * step \<and> time = (int k + 1) * step)
    \<and> (me_advance m = NotAdvancing \<longrightarrow>
        int (length (ru_beats (run_of m i))) = now_of m div step \<and> tr_inFlightCount (ru_track (run_of m i)) = 0)"
proof -
  note ok = conjunct1[OF me_reach_ok[OF assms(1-3)]] conjunct2[OF me_reach_ok[OF assms(1-3)]]
  note r = runs_okD(4)[OF ok(1) assms(4)]
  let ?tr = "ru_track (run_of m i)"
  note f = run_okD(11)[OF r assms(6)[unfolded assms(5)], unfolded fixed_ok_def Let_def, folded assms(5)]
  have bs: "beats_exact step (ru_beats (run_of m i))" and len: "length (ru_beats (run_of m i)) = tr_stepCount ?tr" using f by blast+
  have "int (tr_stepCount ?tr) = now_of m div step \<and> tr_inFlightCount ?tr = 0" if na: "me_advance m = NotAdvancing"
  proof -
    have "run_settled (now_of m) (timer_of m i) (run_of m i)" using ok(2) na assms(4) by (simp add: advance_ok_def settled_def)
    note s = settled_armed[OF r this]
    have "int (tr_stepCount ?tr) * step \<le> now_of m" "now_of m < (int (tr_stepCount ?tr) + 1) * step" using f s(1,5) by auto
    then have "now_of m div step = int (tr_stepCount ?tr)"
      using assms(6) by (intro int_div_pos_eq[where r = "now_of m - int (tr_stepCount ?tr) * step"]) (simp_all add: algebra_simps)
    then show ?thesis using s(4) by simp
  qed
  then show ?thesis using bs len by (simp add: beats_exact_def split_beta)
qed

theorem advance_exact_witness:
  "\<exists>m b. me_reach [ten_track] m \<and> now_of m = 10 \<and> ru_beats (run_of m 0) = [(b, 10)] \<and> be_Tick b = 1 \<and> be_Lost b = 0 \<and> be_TimeFromStart b = 10"
proof -
  define t where "t = new_timer False\<lparr>mt_deadline := 10, mt_armed := True\<rparr>"
  define r where "r = start_runner (new_track ten_track) None"
  have m4: "me_reach [ten_track] (ten_metronome 10 (timer_fire t) r (AtWait 25))" by (rule ten_begun(2)[OF t_def r_def])
  define t1 where "t1 = fst (run_fired (timer_fire t) r)"
  define r1 where "r1 = fst (snd (run_fired (timer_fire t) r))"
  have "run_step False None 10 (timer_fire t, r) (run_fired (timer_fire t) r)"
    by (rule step_fired) (simp_all add: r_def start_runner_def timer_fire_def)
  then have "run_step False None 10 (timer_fire t, r) (t1, r1, False)" by (simp add: t1_def r1_def run_fired_def)
  from ten_run[OF m4 this] have m5: "me_reach [ten_track] (ten_metronome 10 t1 r1 (AtWait 25))" by (simp add: r_def start_runner_def)
  obtain b signal track where pd: "publishDue None 10 (new_track ten_track) = (b, signal, track)" by (metis prod.exhaust)
  define r2 where "r2 = r1\<lparr>ru_track := track, ru_beats := [(b, 10)], ru_pc := AtRearm\<rparr>"
  have ts: "tr_settings track = dt_settings ten_track"
    using publish_spec(5)[OF _ pd refl] by (simp add: ring_ok_def new_track_def Let_def)
  have "run_check None 10 t1 r1 = (t1, r2, False)"
    using ts pd by (simp add: run_check_def r1_def r2_def r_def run_fired_def start_runner_def slot_free_def Let_def)
      (simp add: new_track_def ten_track_def zero_settings_def Let_def)
  moreover have "ru_pc r1 = AtCheck" by (simp add: r1_def run_fired_def)
  ultimately have "run_step False None 10 (t1, r1) (t1, r2, False)" by (metis step_check)
  from ten_run[OF m5 this] have m6: "me_reach [ten_track] (ten_metronome 10 t1 r2 (AtWait 25))"
    by (simp add: r1_def run_fired_def r_def start_runner_def)
  have "me_wait (ten_metronome 10 t1 r2 (AtWait 25))" "0 < length (me_runs (ten_metronome 10 t1 r2 (AtWait 25)))"
    "10 = se_Step (tr_settings (ru_track (run_of (ten_metronome 10 t1 r2 (AtWait 25)) 0)))"
    by (simp_all add: ten_metronome_def r2_def ts ten_track_def)
  note x = advance_exact[OF m6 ten_declared this]
  have bs: "ru_beats (run_of (ten_metronome 10 t1 r2 (AtWait 25)) 0) = [(b, 10)]" by (simp add: ten_metronome_def r2_def)
  have "be_Tick b = 1 \<and> be_Lost b = 0 \<and> be_TimeFromStart b = 10" using x unfolding bs by simp
  moreover have "now_of (ten_metronome 10 t1 r2 (AtWait 25)) = 10" by (simp add: ten_metronome_def)
  ultimately show ?thesis using m6 bs by blast
qed

text \<open>
  C18: \<open>Advance\<close> returns, for tracks whose fixed steps have no minimum interval (\<open>steps_declared\<close>) and as long as \<open>Stop\<close> has not
  taken the wait callback back.  While it is under way some step is always possible that leaves the metronome running, and no
  sequence of steps goes on for ever without it returning: each takes away from the time left, from what
  \<open>Advance\<close> has left to do at that time, from the work the tracks have left, or lets it fall asleep.  No wake-up is
  lost: when \<open>Advance\<close> sleeps on \<open>settleChanged\<close> a track has not settled, and the step that settles the last one wakes it.
\<close>

theorem advance_returns:
  assumes "steps_declared ds"
  shows "wf {(m', m). me_reach ds m \<and> me_wait m \<and> me_advance m \<noteq> NotAdvancing \<and> me_step m m'}
    \<and> (\<forall>m. me_reach ds m \<and> me_wait m \<and> me_advance m \<noteq> NotAdvancing \<longrightarrow> (\<exists>m'. me_step m m' \<and> me_wait m'))
    \<and> (\<forall>m target. me_reach ds m \<and> me_wait m \<and> me_advance m \<in> {Asleep target, LastAsleep target} \<longrightarrow> \<not> settled m)"
proof (intro conjI allI impI)
  show "wf {(m', m). me_reach ds m \<and> me_wait m \<and> me_advance m \<noteq> NotAdvancing \<and> me_step m m'}"
    by (rule wf_subset[OF wf_me_order]) (use me_reach_ok[OF _ assms] me_step_ok(2) in blast)
next
  fix m assume m: "me_reach ds m \<and> me_wait m \<and> me_advance m \<noteq> NotAdvancing"
  have ok: "runs_ok m" "advance_ok m" using me_reach_ok[OF _ assms] m by blast+
  show "\<exists>m'. me_step m m' \<and> me_wait m'" by (rule me_progress[OF ok]) (use m in simp)
next
  fix m target assume m: "me_reach ds m \<and> me_wait m \<and> me_advance m \<in> {Asleep target, LastAsleep target}"
  then have "advance_ok m" using me_reach_ok[OF _ assms] by blast
  then show "\<not> settled m" using m by (auto simp: advance_ok_def)
qed

theorem advance_returns_witness:
  "\<exists>m. me_reach [ten_track] m \<and> me_advance m = Asleep 25 \<and> now_of m = 10 \<and> \<not> settled m \<and> (\<exists>m'. me_step m m' \<and> me_wait m')"
proof -
  define t where "t = new_timer False\<lparr>mt_deadline := 10, mt_armed := True\<rparr>"
  define r where "r = start_runner (new_track ten_track) None"
  let ?m = "ten_metronome 10 (timer_fire t) r"
  have "me_reach [ten_track] (?m (AtWait 25))" by (rule ten_begun(2)[OF t_def r_def])
  from me_next[OF this me_read[where target = 25]] have "me_reach [ten_track] (?m (Waiting 25))" by (simp add: ten_metronome_def)
  note m = me_next[OF this me_waited[where target = 25]]
  have "\<not> settled (?m (Waiting 25))"
    by (simp add: r_def ten_metronome_def settled_def run_settled_def start_runner_def new_track_def ten_track_def zero_settings_def owes_def Let_def)
  then have "plugin_wait (?m (Waiting 25)) = ?m (Asleep 25)" by (simp add: plugin_wait_def) (simp add: ten_metronome_def)
  with m have m: "me_reach [ten_track] (?m (Asleep 25))" by (simp add: ten_metronome_def)
  have a: "me_wait (?m (Asleep 25))" "me_advance (?m (Asleep 25)) = Asleep 25" "now_of (?m (Asleep 25)) = 10" by (simp_all add: ten_metronome_def)
  note x = advance_returns[OF ten_declared]
  have "\<exists>m'. me_step (?m (Asleep 25)) m' \<and> me_wait m'" "\<not> settled (?m (Asleep 25))" using x m a by auto
  then show ?thesis using m a by blast
qed

end
