(* ===== verification/Shader_Condition.thy ===== *)
theory Shader_Condition
  imports Main
begin

text \<open>
  \<open>gfx/shader/condition.go\<close>: the conditions of \<open>#if\<close> and \<open>#elif\<close>, parsed and evaluated.  A string is its bytes; the
  parser's state, a text and the next unread byte, is the text left to read.
\<close>

section \<open>Bytes\<close>

definition isKeywordByte :: "char \<Rightarrow> bool" where
  "isKeywordByte c =
     (let n = of_char c :: nat in of_char (CHR ''a'') \<le> n \<and> n \<le> of_char (CHR ''z'') \<or> of_char (CHR ''A'') \<le> n \<and> n \<le> of_char (CHR ''Z''))"

definition isNameByte :: "char \<Rightarrow> bool" where
  "isNameByte c =
     (let n = of_char c :: nat
      in isKeywordByte c \<or> of_char (CHR ''0'') \<le> n \<and> n \<le> of_char (CHR ''9'') \<or> c = CHR ''_'')"

definition isName :: "string \<Rightarrow> bool" where
  "isName text \<longleftrightarrow> text \<noteq> [] \<and> list_all isNameByte text"

definition isBlank :: "char \<Rightarrow> bool" where
  "isBlank c \<longleftrightarrow> c = CHR '' '' \<or> c = CHR 0x09"

definition skipSpace :: "string \<Rightarrow> string" where
  "skipSpace s = dropWhile isBlank s"

section \<open>Parsing\<close>

datatype condition = CName string | CNot condition | CAnd "condition list" | COr "condition list"

datatype condition_error =
  MixedOperators | EmptyCondition | EndsAfterOperator | UnexpectedByte char | UnclosedGroup | ConditionFuel

definition isOperator :: "char \<Rightarrow> bool" where
  "isOperator c \<longleftrightarrow> c = CHR ''&'' \<or> c = CHR ''|''"

definition operator_of :: "char \<Rightarrow> condition list \<Rightarrow> condition" where
  "operator_of op cs = (if op = CHR ''&'' then CAnd cs else COr cs)"

text \<open>The three functions call each other on a shorter text each time round; fuel stands for that, and \<open>parseCondition\<close> gives enough.\<close>

fun parseTerm :: "nat \<Rightarrow> string \<Rightarrow> condition_error + condition \<times> string"
  and parseExpression :: "nat \<Rightarrow> string \<Rightarrow> condition_error + condition \<times> string"
  and parseTerms :: "nat \<Rightarrow> char \<Rightarrow> condition list \<Rightarrow> string \<Rightarrow> condition_error + condition \<times> string" where
  "parseTerm 0 s = Inl ConditionFuel"
| "parseTerm (Suc n) s =
     (case skipSpace s of
        [] \<Rightarrow> Inl EndsAfterOperator
      | c # rest \<Rightarrow>
          if c = CHR ''!'' then (case parseTerm n rest of Inl e \<Rightarrow> Inl e | Inr (t, r) \<Rightarrow> Inr (CNot t, r))
          else if c = CHR ''('' then
            (case parseExpression n rest of
               Inl e \<Rightarrow> Inl e
             | Inr (inner, r) \<Rightarrow>
                 (case skipSpace r of
                    [] \<Rightarrow> Inl UnclosedGroup
                  | c' # r' \<Rightarrow> if c' = CHR '')'' then Inr (inner, r') else Inl UnclosedGroup))
          else if isNameByte c then Inr (CName (takeWhile isNameByte (c # rest)), dropWhile isNameByte (c # rest))
          else Inl (UnexpectedByte c))"
| "parseExpression 0 s = Inl ConditionFuel"
| "parseExpression (Suc n) s =
     (case parseTerm n s of
        Inl e \<Rightarrow> Inl e
      | Inr (first, r) \<Rightarrow>
          (case skipSpace r of
             [] \<Rightarrow> Inr (first, [])
           | c # rest \<Rightarrow> if isOperator c then parseTerms n c [first] (c # rest) else Inr (first, c # rest)))"
| "parseTerms 0 op terms s = Inl ConditionFuel"
| "parseTerms (Suc n) op terms s =
     (case skipSpace s of
        [] \<Rightarrow> Inr (operator_of op terms, [])
      | c # rest \<Rightarrow>
          if \<not> isOperator c then Inr (operator_of op terms, c # rest)
          else if c \<noteq> op then Inl MixedOperators
          else (case parseTerm n rest of Inl e \<Rightarrow> Inl e | Inr (t, r) \<Rightarrow> parseTerms n op (terms @ [t]) r))"

definition parseCondition :: "string \<Rightarrow> condition_error + condition" where
  "parseCondition text =
     (if skipSpace text = [] then Inl EmptyCondition
      else case parseExpression (2 * length text + 2) (skipSpace text) of
        Inl e \<Rightarrow> Inl e
      | Inr (parsed, r) \<Rightarrow> (case skipSpace r of [] \<Rightarrow> Inr parsed | c # _ \<Rightarrow> Inl (UnexpectedByte c)))"

text \<open>\<open>evaluate\<close>: a name is true exactly when it is defined.\<close>

fun evaluate :: "condition \<Rightarrow> string set \<Rightarrow> bool" where
  "evaluate (CName name) defines = (name \<in> defines)"
| "evaluate (CNot c) defines = (\<not> evaluate c defines)"
| "evaluate (CAnd cs) defines = list_all (\<lambda>c. evaluate c defines) cs"
| "evaluate (COr cs) defines = list_ex (\<lambda>c. evaluate c defines) cs"

section \<open>The grammar\<close>

abbreviation spaces :: "string \<Rightarrow> bool" where
  "spaces sp \<equiv> list_all isBlank sp"

inductive cond_term :: "string \<Rightarrow> condition \<Rightarrow> bool"
  and cond_expression :: "string \<Rightarrow> condition \<Rightarrow> bool"
  and cond_terms :: "char \<Rightarrow> string \<Rightarrow> condition list \<Rightarrow> bool" where
  term_name: "spaces sp \<Longrightarrow> isName name \<Longrightarrow> cond_term (sp @ name) (CName name)"
| term_not: "spaces sp \<Longrightarrow> cond_term s c \<Longrightarrow> cond_term (sp @ CHR ''!'' # s) (CNot c)"
| term_group: "spaces sp \<Longrightarrow> cond_expression s c \<Longrightarrow> spaces sp' \<Longrightarrow> cond_term (sp @ CHR ''('' # s @ sp' @ [CHR '')'']) c"
| expression_term: "cond_term s c \<Longrightarrow> cond_expression s c"
| expression_terms: "isOperator op \<Longrightarrow> cond_term s c \<Longrightarrow> cond_terms op s' cs \<Longrightarrow> cs \<noteq> []
    \<Longrightarrow> cond_expression (s @ s') (operator_of op (c # cs))"
| terms_none: "cond_terms op [] []"
| terms_more: "spaces sp \<Longrightarrow> cond_term s c \<Longrightarrow> cond_terms op s' cs \<Longrightarrow> cond_terms op (sp @ op # s @ s') (c # cs)"

section \<open>The parser accepts the grammar\<close>

lemma blank_not_name: "isBlank c \<Longrightarrow> \<not> isNameByte c"
  by (auto simp: isBlank_def isNameByte_def isKeywordByte_def)

lemma special_not_name [simp]: "\<not> isNameByte (CHR ''!'')" "\<not> isNameByte (CHR ''('')" "\<not> isNameByte (CHR '')'')"
  by (simp_all add: isNameByte_def isKeywordByte_def)

lemma operator_not_name: "isOperator c \<Longrightarrow> \<not> isNameByte c \<and> \<not> isBlank c"
  by (auto simp: isOperator_def isBlank_def isNameByte_def isKeywordByte_def)

lemma special_not_blank [simp]: "\<not> isBlank (CHR ''!'')" "\<not> isBlank (CHR ''('')" "\<not> isBlank (CHR '')'')"
  by (simp_all add: isBlank_def)

lemma name_not_blank: "isNameByte c \<Longrightarrow> \<not> isBlank c"
  using blank_not_name by blast

lemma skipSpace_spaces [simp]: "spaces sp \<Longrightarrow> skipSpace (sp @ s) = skipSpace s"
  by (induction sp) (simp_all add: skipSpace_def)

lemma skipSpace_Cons [simp]: "\<not> isBlank c \<Longrightarrow> skipSpace (c # s) = c # s"
  by (simp add: skipSpace_def)

lemma skipSpace_Nil [simp]: "skipSpace [] = []"
  by (simp add: skipSpace_def)

lemma skipSpace_idem [simp]: "skipSpace (skipSpace s) = skipSpace s"
  by (simp add: skipSpace_def)

lemma skipSpace_split: "\<exists>sp. s = sp @ skipSpace s \<and> spaces sp"
  using takeWhile_dropWhile_id[of isBlank s] by (metis skipSpace_def set_takeWhileD Ball_set)

lemma skipSpace_hd: "skipSpace s = c # r \<Longrightarrow> \<not> isBlank c"
  by (simp add: skipSpace_def dropWhile_eq_Cons_conv)

lemma length_skipSpace: "length (skipSpace s) \<le> length s"
  by (simp add: skipSpace_def length_dropWhile_le)

text \<open>What may follow a term, and what may follow an expression.\<close>

definition after_term :: "string \<Rightarrow> bool" where
  "after_term r \<longleftrightarrow> (case r of [] \<Rightarrow> True | c # _ \<Rightarrow> \<not> isNameByte c)"

definition after_expression :: "string \<Rightarrow> bool" where
  "after_expression r \<longleftrightarrow> after_term r \<and> (case skipSpace r of [] \<Rightarrow> True | c # _ \<Rightarrow> \<not> isOperator c)"

lemma after_term_spaces: "spaces sp \<Longrightarrow> after_term r \<Longrightarrow> after_term (sp @ r)"
  by (cases sp) (auto simp: after_term_def blank_not_name)

lemma after_terms: "cond_terms op s cs \<Longrightarrow> isOperator op \<Longrightarrow> after_term r \<Longrightarrow> after_term (s @ r)"
  by (erule cond_terms.cases) (use after_term_spaces operator_not_name in \<open>auto simp: after_term_def split: list.splits\<close>)

lemma name_run:
  assumes "isName name" and "after_term r"
  shows "takeWhile isNameByte (name @ r) = name" and "dropWhile isNameByte (name @ r) = r"
proof -
  have "list_all isNameByte name" using assms(1) by (simp add: isName_def)
  then show "takeWhile isNameByte (name @ r) = name" "dropWhile isNameByte (name @ r) = r"
    using assms(2) by (cases r; simp add: after_term_def list_all_iff takeWhile_append dropWhile_append)+
qed

lemma parse_complete:
  shows "cond_term s c \<Longrightarrow> (\<And>n r. after_term r \<Longrightarrow> 2 * length (s @ r) < n \<Longrightarrow> parseTerm n (s @ r) = Inr (c, r))"
    and "cond_expression s c \<Longrightarrow> (\<And>n r. after_expression r \<Longrightarrow> 2 * length (s @ r) + 1 < n \<Longrightarrow> parseExpression n (s @ r) = Inr (c, skipSpace r))"
    and "cond_terms op s cs \<Longrightarrow> (\<And>n r ts. isOperator op \<Longrightarrow> after_expression r \<Longrightarrow> 2 * length (s @ r) < n
      \<Longrightarrow> parseTerms n op ts (s @ r) = Inr (operator_of op (ts @ cs), skipSpace r))"
proof (induction rule: cond_term_cond_expression_cond_terms.inducts)
  case (term_name sp name)
  obtain m where n: "n = Suc m" using term_name.prems(2) by (cases n) auto
  obtain c cs where nm: "name = c # cs" "isNameByte c" using term_name.hyps(2) by (cases name) (auto simp: isName_def)
  have "skipSpace ((sp @ name) @ r) = c # cs @ r" using term_name.hyps(1) nm name_not_blank by simp
  moreover have "c \<noteq> CHR ''!''" "c \<noteq> CHR ''(''" using nm(2) by auto
  ultimately show ?case using name_run[OF term_name.hyps(2) term_name.prems(1)] nm by (simp add: n)
next
  case (term_not sp s c)
  obtain m where n: "n = Suc m" using term_not.prems(2) by (cases n) auto
  have "parseTerm m (s @ r) = Inr (c, r)" by (rule term_not.IH) (use term_not.prems n in simp_all)
  then show ?case using term_not.hyps(1) by (simp add: n)
next
  case (term_group sp s c sp')
  obtain m where n: "n = Suc m" using term_group.prems(2) by (cases n) auto
  have "after_expression (sp' @ CHR '')'' # r)"
    using term_group.hyps(3) after_term_spaces[of sp' "CHR '')'' # r"] by (simp add: after_expression_def after_term_def isOperator_def)
  then have "parseExpression m (s @ sp' @ CHR '')'' # r) = Inr (c, CHR '')'' # r)"
    using term_group.IH[of "sp' @ CHR '')'' # r" m] term_group.hyps(3) term_group.prems n by simp
  then show ?case using term_group.hyps(1) by (simp add: n)
next
  case (expression_term s c)
  obtain m where n: "n = Suc m" using expression_term.prems(2) by (cases n) auto
  have "parseTerm m (s @ r) = Inr (c, r)" by (rule expression_term.IH) (use expression_term.prems n in \<open>simp_all add: after_expression_def\<close>)
  then show ?case using expression_term.prems(1) by (simp add: n after_expression_def split: list.splits)
next
  case (expression_terms op s c s' cs)
  obtain m where n: "n = Suc m" using expression_terms.prems(2) by (cases n) auto
  have at: "after_term (s' @ r)"
    using after_terms[OF expression_terms.hyps(3,1)] expression_terms.prems(1) by (simp add: after_expression_def)
  have t: "parseTerm m (s @ s' @ r) = Inr (c, s' @ r)" by (rule expression_terms.IH(1)) (use at expression_terms.prems n in simp_all)
  obtain sp s1 c1 s2 cs2 where s': "s' = sp @ op # s1 @ s2" "spaces sp" using expression_terms.hyps(3,4) by (cases rule: cond_terms.cases) auto
  have op: "\<not> isBlank op" using operator_not_name[OF expression_terms.hyps(1)] by blast
  have sk: "skipSpace (s' @ r) = op # s1 @ s2 @ r" using s' op by simp
  have "0 < length s" using expression_terms.hyps(2) by (cases rule: cond_term.cases) (auto simp: isName_def)
  then have m: "2 * length (s' @ r) < m" using expression_terms.prems(2) n by simp
  have "parseTerms m op [c] (s' @ r) = Inr (operator_of op (c # cs), skipSpace r)"
    using expression_terms.IH(2)[OF expression_terms.hyps(1) expression_terms.prems(1) m, of "[c]"] by simp
  moreover have "parseTerms m op [c] (op # s1 @ s2 @ r) = parseTerms m op [c] (s' @ r)" using sk op by (cases m) simp_all
  ultimately show ?case using t sk expression_terms.hyps(1) by (simp add: n)
next
  case (terms_none op)
  obtain m where n: "n = Suc m" using terms_none.prems(3) by (cases n) auto
  show ?case using terms_none.prems(2) by (cases "skipSpace r") (auto simp: n after_expression_def)
next
  case (terms_more sp s c op s' cs)
  obtain m where n: "n = Suc m" using terms_more.prems(3) by (cases n) auto
  have op: "\<not> isBlank op" using operator_not_name[OF terms_more.prems(1)] by blast
  have at: "after_term (s' @ r)"
    using after_terms[OF terms_more.hyps(3) terms_more.prems(1)] terms_more.prems(2) by (simp add: after_expression_def)
  have t: "parseTerm m (s @ s' @ r) = Inr (c, s' @ r)" by (rule terms_more.IH(1)) (use at terms_more.prems n in simp_all)
  have "parseTerms m op (ts @ [c]) (s' @ r) = Inr (operator_of op ((ts @ [c]) @ cs), skipSpace r)"
    by (rule terms_more.IH(2)) (use terms_more.prems n in simp_all)
  then show ?case using t op terms_more.hyps(1) terms_more.prems(1) by (simp add: n)
qed

lemma terms_spaces: "cond_terms op s cs \<Longrightarrow> cs \<noteq> [] \<Longrightarrow> spaces sp \<Longrightarrow> cond_terms op (sp @ s) cs"
proof (erule cond_terms.cases)
  fix sp' s1 c op' s2 cs'
  assume a: "cs \<noteq> []" "spaces sp" "op = op'" "s = sp' @ op' # s1 @ s2" "cs = c # cs'" "spaces sp'" "cond_term s1 c" "cond_terms op' s2 cs'"
  have "cond_terms op' ((sp @ sp') @ op' # s1 @ s2) (c # cs')" by (rule terms_more[OF _ a(7,8)]) (use a in simp)
  then show ?thesis using a by simp
qed simp

lemma parse_sound:
  shows "parseTerm n s = Inr (c, r) \<Longrightarrow> \<exists>p. s = p @ r \<and> cond_term p c"
    and "parseExpression n s = Inr (c, r) \<Longrightarrow> \<exists>p sp. s = p @ sp @ r \<and> cond_expression p c \<and> spaces sp"
    and "parseTerms n op ts s = Inr (c, r) \<Longrightarrow> isOperator op \<Longrightarrow> \<exists>p sp cs. s = p @ sp @ r \<and> cond_terms op p cs \<and> spaces sp \<and> c = operator_of op (ts @ cs)
      \<and> (\<forall>x y. r = x # y \<longrightarrow> \<not> isOperator x)"
proof (induction n s and n s and n op ts s arbitrary: c r and c r and c r rule: parseTerm_parseExpression_parseTerms.induct)
  case (2 n s)
  obtain sp where sp: "s = sp @ skipSpace s" "spaces sp" using skipSpace_split by blast
  obtain x rest where x: "skipSpace s = x # rest" using 2(3) by (auto split: list.splits)
  have s: "s = sp @ x # rest" using sp(1) x by simp
  consider "x = CHR ''!''" | "x = CHR ''(''" | "x \<noteq> CHR ''!''" "x \<noteq> CHR ''(''" "isNameByte x"
    using 2(3) x by (auto split: if_splits)
  then show ?case
  proof cases
    case 1
    then obtain t where t: "parseTerm n rest = Inr (t, r)" "c = CNot t" using 2(3) x by (auto split: sum.splits)
    then obtain p where "rest = p @ r" "cond_term p t" using 2(1)[OF x 1 t(1)] by blast
    then show ?thesis using term_not[OF sp(2)] s 1 t(2) by (intro exI[of _ "sp @ CHR ''!'' # p"]) simp
  next
    case c2: 2
    then obtain r1 where t: "parseExpression n rest = Inr (c, r1)" "skipSpace r1 = CHR '')'' # r"
      using 2(3) x by (auto split: sum.splits list.splits if_splits)
    then obtain p sp1 where p: "rest = p @ sp1 @ r1" "cond_expression p c" "spaces sp1" using 2(2)[OF x _ c2 t(1)] c2 by auto
    obtain sp2 where sp2: "r1 = sp2 @ skipSpace r1" "spaces sp2" using skipSpace_split by blast
    have "cond_term (sp @ CHR ''('' # p @ (sp1 @ sp2) @ [CHR '')'']) c" by (rule term_group[OF sp(2) p(2)]) (use p(3) sp2(2) in simp)
    moreover have "s = (sp @ CHR ''('' # p @ (sp1 @ sp2) @ [CHR '')'']) @ r" using s c2 p(1) sp2(1) t(2) by simp
    ultimately show ?thesis by blast
  next
    case 3
    then have e: "c = CName (takeWhile isNameByte (x # rest))" "r = dropWhile isNameByte (x # rest)" using 2(3) x by auto
    have nm: "isName (takeWhile isNameByte (x # rest))" using 3(3) by (auto simp: isName_def list_all_iff dest: set_takeWhileD)
    have "s = (sp @ takeWhile isNameByte (x # rest)) @ r" using s e(2) takeWhile_dropWhile_id[of isNameByte "x # rest"] by simp
    then show ?thesis using term_name[OF sp(2) nm] e(1) by blast
  qed
next
  case (4 n s)
  obtain first r1 where t: "parseTerm n s = Inr (first, r1)" using 4(3) by (auto split: sum.splits)
  obtain p where p: "s = p @ r1" "cond_term p first" using 4(1)[OF t] by blast
  obtain sp where sp: "r1 = sp @ skipSpace r1" "spaces sp" using skipSpace_split by blast
  show ?case
  proof (cases "\<exists>op rest. skipSpace r1 = op # rest \<and> isOperator op")
    case False
    then have "c = first" "r = skipSpace r1" using 4(3) t by (auto split: list.splits)
    then have "s = p @ sp @ r \<and> cond_expression p c \<and> spaces sp" using p sp expression_term[OF p(2)] by simp
    then show ?thesis by blast
  next
    case True
    then obtain op rest where op: "skipSpace r1 = op # rest" "isOperator op" by blast
    have pt: "parseTerms n op [first] (op # rest) = Inr (c, r)" using 4(3) t op by simp
    obtain p2 sp2 cs where q: "op # rest = p2 @ sp2 @ r" "cond_terms op p2 cs" "spaces sp2" "c = operator_of op ([first] @ cs)"
      "\<forall>x y. r = x # y \<longrightarrow> \<not> isOperator x" using 4(2)[OF t refl op(1,2) pt op(2)] by (elim exE conjE)
    have ne: "cs \<noteq> []"
    proof
      assume "cs = []"
      then have "p2 = []" using q(2) by (auto elim: cond_terms.cases)
      then show False using q(1,3,5) op(2) operator_not_name[OF op(2)] by (cases sp2) auto
    qed
    have "cond_expression (p @ sp @ p2) c"
      using expression_terms[OF op(2) p(2) terms_spaces[OF q(2) ne sp(2)] ne] q(4) by simp
    moreover have "s = (p @ sp @ p2) @ sp2 @ r" using p(1) sp(1) op(1) q(1) by simp
    ultimately show ?thesis using q(3) by blast
  qed
next
  case (6 n op ts s)
  obtain sp where sp: "s = sp @ skipSpace s" "spaces sp" using skipSpace_split by blast
  show ?case
  proof (cases "\<exists>rest. skipSpace s = op # rest")
    case False
    then have "c = operator_of op ts" "r = skipSpace s" "\<forall>x y. r = x # y \<longrightarrow> \<not> isOperator x" using 6(3) by (auto split: list.splits if_splits)
    then show ?thesis using sp terms_none[of op] by (intro exI[of _ "[]"] exI[of _ sp]) simp
  next
    case True
    then obtain rest where x: "skipSpace s = op # rest" by blast
    obtain t r1 where t: "parseTerm n rest = Inr (t, r1)" "parseTerms n op (ts @ [t]) r1 = Inr (c, r)"
      using 6(3,4) x by (auto split: sum.splits)
    obtain p where p: "rest = p @ r1" "cond_term p t" using 6(1)[OF x _ _ t(1)] 6(4) by auto
    obtain p2 sp2 cs where q: "r1 = p2 @ sp2 @ r" "cond_terms op p2 cs" "spaces sp2" "c = operator_of op ((ts @ [t]) @ cs)"
      "\<forall>x y. r = x # y \<longrightarrow> \<not> isOperator x" using 6(2)[OF x _ _ t(1) refl t(2)] 6(4) by auto
    have "cond_terms op (sp @ op # p @ p2) (t # cs)" by (rule terms_more[OF sp(2) p(2) q(2)])
    moreover have "s = (sp @ op # p @ p2) @ sp2 @ r" using sp(1) x p(1) q(1) by simp
    moreover have "c = operator_of op (ts @ t # cs)" using q(4) by simp
    ultimately show ?thesis using q(3,5) by blast
  qed
qed simp_all

lemma term_spaces: "cond_term s c \<Longrightarrow> spaces sp \<Longrightarrow> cond_term (sp @ s) c"
proof (erule cond_term.cases)
  assume sp: "spaces sp"
  show ?thesis if "s = sp' @ name" "c = CName name" "spaces sp'" "isName name" for sp' name
    using term_name[of "sp @ sp'" name] that sp by simp
  show ?thesis if "s = sp' @ CHR ''!'' # s1" "c = CNot c1" "spaces sp'" "cond_term s1 c1" for sp' s1 c1
    using term_not[of "sp @ sp'" s1 c1] that sp by simp
  show ?thesis if "s = sp' @ CHR ''('' # s1 @ sp2 @ [CHR '')'']" "c = c1" "spaces sp'" "cond_expression s1 c1" "spaces sp2" for sp' s1 c1 sp2
    using term_group[of "sp @ sp'" s1 c1 sp2] that sp by simp
qed

lemma expression_spaces: "cond_expression s c \<Longrightarrow> spaces sp \<Longrightarrow> cond_expression (sp @ s) c"
  by (erule cond_expression.cases) (use term_spaces expression_term expression_terms in \<open>fastforce simp flip: append_assoc\<close>)+

lemma parseExpression_skip: "parseExpression n s = parseExpression n (skipSpace s)"
proof -
  have "parseTerm k s = parseTerm k (skipSpace s)" for k by (cases k) simp_all
  then show ?thesis by (cases n) simp_all
qed

text \<open>The parser does not run out of fuel.\<close>

lemma parse_rest:
  shows "parseTerm n s = Inr (c, r) \<Longrightarrow> length r < length s"
    and "parseExpression n s = Inr (c, r) \<Longrightarrow> length r < length s"
proof -
  have pos: "cond_term p c \<Longrightarrow> p \<noteq> []" for p c by (auto elim!: cond_term.cases simp: isName_def)
  show "length r < length s" if "parseTerm n s = Inr (c, r)" using parse_sound(1)[OF that] pos by auto
  show "length r < length s" if pe: "parseExpression n s = Inr (c, r)"
  proof -
    obtain p sp where p: "s = p @ sp @ r" "cond_expression p c" using parse_sound(2)[OF pe] by blast
    then have "p \<noteq> []" using pos by (auto elim!: cond_expression.cases)
    then show ?thesis using p(1) by simp
  qed
qed

lemma parse_fuel:
  shows "2 * length s < n \<Longrightarrow> parseTerm n s \<noteq> Inl ConditionFuel"
    and "2 * length s + 1 < n \<Longrightarrow> parseExpression n s \<noteq> Inl ConditionFuel"
    and "2 * length s < n \<Longrightarrow> parseTerms n op ts s \<noteq> Inl ConditionFuel"
proof (induction n s and n s and n op ts s rule: parseTerm_parseExpression_parseTerms.induct)
  case (2 n s)
  show ?case
  proof (cases "skipSpace s")
    case (Cons x rest)
    have l: "2 * length rest + 1 < n" using length_skipSpace[of s] Cons 2(3) by simp
    show ?thesis using 2(1)[OF Cons] 2(2)[OF Cons] l by (auto simp: Cons split: list.splits sum.splits if_splits)
  qed simp
next
  case (4 n s)
  show ?case
  proof (cases "parseTerm n s")
    case (Inl e)
    then show ?thesis using 4(1,3) by simp
  next
    case (Inr q)
    obtain first r where q: "q = (first, r)" by fastforce
    have l: "length (skipSpace r) < length s" using parse_rest(1)[of n s first r] Inr q length_skipSpace[of r] by simp
    show ?thesis
    proof (cases "skipSpace r")
      case (Cons c rest)
      then show ?thesis using 4(2)[OF Inr q[symmetric] Cons] l 4(3) by (simp add: Inr q)
    qed (simp add: Inr q)
  qed
next
  case (6 n op ts s)
  show ?case
  proof (cases "skipSpace s")
    case (Cons x rest)
    have l: "length rest < length s" using length_skipSpace[of s] Cons by simp
    show ?thesis
    proof (cases "parseTerm n rest")
      case (Inl e)
      then show ?thesis using 6(1)[OF Cons] l 6(3) by (auto simp: Cons)
    next
      case (Inr q)
      obtain t r where q: "q = (t, r)" by fastforce
      have "length r < length rest" using parse_rest(1)[of n rest t r] Inr q by simp
      then show ?thesis using 6(2)[OF Cons _ _ Inr q[symmetric]] l 6(3) by (auto simp: Cons Inr q)
    qed
  qed simp
qed simp_all

declare parseTerm.simps [simp del] parseExpression.simps [simp del] parseTerms.simps [simp del]

text \<open>
  C24: \<open>parseCondition\<close> reads exactly the grammar its comment states, blanks between the tokens allowed: it answers a
  condition for a text exactly when the text derives that condition, so no text has two readings, and it always
  returns.  A name, \<open>!\<close> before a term, a group in parentheses, and one operator, \<open>&\<close> or \<open>|\<close>, between two or more
  terms; the two never mix at one level.
\<close>

theorem condition_grammar:
  "(parseCondition text = Inr c \<longleftrightarrow> (\<exists>p sp. text = p @ sp \<and> cond_expression p c \<and> spaces sp)) \<and> parseCondition text \<noteq> Inl ConditionFuel"
proof (intro conjI iffI)
  assume a: "parseCondition text = Inr c"
  then obtain r where r: "parseExpression (2 * length text + 2) (skipSpace text) = Inr (c, r)" "skipSpace r = []"
    by (auto simp: parseCondition_def split: if_splits sum.splits list.splits)
  obtain p sp where p: "skipSpace text = p @ sp @ r" "cond_expression p c" "spaces sp" using parse_sound(2)[OF r(1)] by blast
  obtain sp0 where sp0: "text = sp0 @ skipSpace text" "spaces sp0" using skipSpace_split by blast
  obtain sp1 where sp1: "r = sp1" "spaces sp1" using skipSpace_split[of r] r(2) by auto
  have "text = (sp0 @ p) @ (sp @ r)" using sp0(1) p(1) by simp
  then show "\<exists>p sp. text = p @ sp \<and> cond_expression p c \<and> spaces sp"
    using expression_spaces[OF p(2) sp0(2)] p(3) sp1 by (intro exI[of _ "sp0 @ p"] exI[of _ "sp @ r"]) simp
next
  assume "\<exists>p sp. text = p @ sp \<and> cond_expression p c \<and> spaces sp"
  then obtain p sp where p: "text = p @ sp" "cond_expression p c" "spaces sp" by blast
  have sk: "skipSpace sp = []" using skipSpace_spaces[OF p(3), of "[]"] by simp
  let ?n = "2 * length text + 2"
  have e: "parseExpression ?n text = parseExpression ?n (skipSpace text)" by (rule parseExpression_skip)
  have "after_expression sp" using after_term_spaces[OF p(3), of "[]"] sk by (simp add: after_expression_def after_term_def)
  then have ok: "parseExpression ?n text = Inr (c, [])" using parse_complete(2)[OF p(2), of sp ?n] p(1) sk by simp
  note sk_ok = ok[unfolded e]
  show "parseCondition text = Inr c" using parse_rest(2)[OF sk_ok] by (auto simp: parseCondition_def sk_ok[simplified])
next
  show "parseCondition text \<noteq> Inl ConditionFuel"
    using parse_fuel(2)[of "skipSpace text" "2 * length text + 2"] length_skipSpace[of "text"]
    by (auto simp: parseCondition_def split: sum.splits list.splits)
qed

end
