(* ===== verification/Shader_Directive.thy ===== *)
theory Shader_Directive
  imports Shader_Condition
begin

text \<open>
  \<open>gfx/shader/directive.go\<close>: the lines of a source, its comments blanked and its directives read, over what the source
  uses of Go's \<open>strings\<close>.
\<close>

section \<open>Strings\<close>

abbreviation newline :: char where
  "newline \<equiv> CHR 0x0A"

definition HasPrefix :: "string \<Rightarrow> string \<Rightarrow> bool" where
  "HasPrefix s p \<longleftrightarrow> take (length p) s = p"

text \<open>The encodings of \<open>unicode.IsSpace\<close>'s characters.\<close>

definition space_codes :: "string list" where
  "space_codes =
     [[CHR 0x09], [CHR 0x0A], [CHR 0x0B], [CHR 0x0C], [CHR 0x0D], [CHR 0x20], [CHR 0xC2, CHR 0x85], [CHR 0xC2, CHR 0xA0],
      [CHR 0xE1, CHR 0x9A, CHR 0x80], [CHR 0xE2, CHR 0x80, CHR 0xA8], [CHR 0xE2, CHR 0x80, CHR 0xA9], [CHR 0xE2, CHR 0x80, CHR 0xAF],
      [CHR 0xE2, CHR 0x81, CHR 0x9F], [CHR 0xE3, CHR 0x80, CHR 0x80],
      [CHR 0xE2, CHR 0x80, CHR 0x80], [CHR 0xE2, CHR 0x80, CHR 0x81], [CHR 0xE2, CHR 0x80, CHR 0x82], [CHR 0xE2, CHR 0x80, CHR 0x83],
      [CHR 0xE2, CHR 0x80, CHR 0x84], [CHR 0xE2, CHR 0x80, CHR 0x85], [CHR 0xE2, CHR 0x80, CHR 0x86], [CHR 0xE2, CHR 0x80, CHR 0x87],
      [CHR 0xE2, CHR 0x80, CHR 0x88], [CHR 0xE2, CHR 0x80, CHR 0x89], [CHR 0xE2, CHR 0x80, CHR 0x8A]]"

function trim_codes :: "string list \<Rightarrow> string \<Rightarrow> string" where
  "trim_codes codes s =
     (case find (\<lambda>e. e \<noteq> [] \<and> HasPrefix s e) codes of None \<Rightarrow> s | Some e \<Rightarrow> trim_codes codes (drop (length e) s))"
  by pat_completeness auto
termination
proof (relation "measure (\<lambda>(codes, s). length s)")
  fix codes :: "string list" and s e
  assume "find (\<lambda>e. e \<noteq> [] \<and> HasPrefix s e) codes = Some e"
  then have "e \<noteq> []" "HasPrefix s e" by (auto simp: find_Some_iff)
  then show "((codes, drop (length e) s), codes, s) \<in> measure (\<lambda>(codes, s). length s)" by (cases s) (auto simp: HasPrefix_def)
qed simp

declare trim_codes.simps [simp del]

definition TrimSpace :: "string \<Rightarrow> string" where
  "TrimSpace s = rev (trim_codes (map rev space_codes) (rev (trim_codes space_codes s)))"

text \<open>\<open>strings.Split\<close> at one byte.\<close>

fun split_at :: "char \<Rightarrow> string \<Rightarrow> string list" where
  "split_at c [] = [[]]"
| "split_at c (x # xs) =
     (if x = c then [] # split_at c xs else case split_at c xs of [] \<Rightarrow> [[x]] | l # ls \<Rightarrow> (x # l) # ls)"

definition TrimSuffix_cr :: "string \<Rightarrow> string" where
  "TrimSuffix_cr line = (if line \<noteq> [] \<and> last line = CHR 0x0D then butlast line else line)"

definition splitLines :: "string \<Rightarrow> string list" where
  "splitLines s =
     (let lines = split_at newline s;
          lines' = (if length lines > 1 \<and> last lines = [] then butlast lines else lines)
      in map TrimSuffix_cr lines')"

section \<open>Directives\<close>

datatype directive_kind =
  DirectiveNone | DirectiveInclude | DirectiveDefine | DirectiveConst | DirectiveIf | DirectiveElif | DirectiveElse | DirectiveEndif

definition directiveKinds :: "string \<Rightarrow> directive_kind option" where
  "directiveKinds keyword =
     map_of [(''include'', DirectiveInclude), (''define'', DirectiveDefine), (''const'', DirectiveConst), (''if'', DirectiveIf),
       (''elif'', DirectiveElif), (''else'', DirectiveElse), (''endif'', DirectiveEndif)] keyword"

record directive =
  di_kind :: directive_kind
  di_keyword :: string
  di_argument :: string
  di_known :: bool
  di_sigil :: bool

definition no_directive :: directive where
  "no_directive = \<lparr>di_kind = DirectiveNone, di_keyword = [], di_argument = [], di_known = False, di_sigil = False\<rparr>"

definition read_directive :: "string \<Rightarrow> directive" where
  "read_directive rest =
     (let keyword = takeWhile isKeywordByte rest; kind = directiveKinds keyword
      in \<lparr>di_kind = (case kind of None \<Rightarrow> DirectiveNone | Some k \<Rightarrow> k), di_keyword = keyword,
          di_argument = TrimSpace (dropWhile isKeywordByte rest), di_known = (kind \<noteq> None), di_sigil = True\<rparr>)"

definition parseDirective :: "string \<Rightarrow> directive" where
  "parseDirective line =
     (let rest = skipSpace line
      in if HasPrefix rest ''//#'' then read_directive (drop 3 rest)
         else if HasPrefix rest ''#'' then read_directive (drop 1 rest) else no_directive)"

section \<open>Comments\<close>

definition blank_byte :: "char \<Rightarrow> char" where
  "blank_byte c = (if c = CHR 0x09 then c else CHR '' '')"

definition blankBytes :: "string \<Rightarrow> string" where
  "blankBytes s = map blank_byte s"

definition blankLine :: "string \<Rightarrow> string" where
  "blankLine line = blankBytes line"

definition isDirectiveSigil :: "string \<Rightarrow> string \<Rightarrow> bool" where
  "isDirectiveSigil before after \<longleftrightarrow> HasPrefix after ''#'' \<and> list_all isBlank before"

text \<open>
  One line: the depth of block comments it begins in, what is scanned of it, blanked, and what is left; it answers the depth
  it ends in and the line blanked.
\<close>

fun blank_scan :: "nat \<Rightarrow> string \<Rightarrow> string \<Rightarrow> nat \<times> string" where
  "blank_scan d scanned [] = (d, scanned)"
| "blank_scan d scanned [c] = (d, scanned @ (if d > 0 then blankBytes [c] else [c]))"
| "blank_scan d scanned (c # c' # rest) =
     (let opens = (c = CHR ''/'' \<and> c' = CHR ''*'')
      in if d > 0
         then if c = CHR ''*'' \<and> c' = CHR ''/'' then blank_scan (d - 1) (scanned @ blankBytes [c, c']) rest
              else if opens then blank_scan (d + 1) (scanned @ blankBytes [c, c']) rest
              else blank_scan d (scanned @ blankBytes [c]) (c' # rest)
         else if opens then blank_scan (d + 1) (scanned @ blankBytes [c, c']) rest
         else if c = CHR ''/'' \<and> c' = CHR ''/''
              then (d, scanned @ (if isDirectiveSigil scanned rest then c # c' # rest else blankBytes (c # c' # rest)))
              else blank_scan d (scanned @ [c]) (c' # rest))"

fun blank_lines :: "nat \<Rightarrow> string list \<Rightarrow> string list" where
  "blank_lines d [] = []"
| "blank_lines d (line # lines) = (case blank_scan d [] line of (d', line') \<Rightarrow> line' # blank_lines d' lines)"

definition blankComments :: "string \<Rightarrow> string list" where
  "blankComments s = blank_lines 0 (splitLines s)"

section \<open>What blanking keeps\<close>

lemma blankBytes_simps [simp]:
  "length (blankBytes s) = length s" "blankBytes [] = []" "blankBytes (c # s) = blank_byte c # blankBytes s"
  "blankBytes (s @ t) = blankBytes s @ blankBytes t"
  by (simp_all add: blankBytes_def)

lemma blank_byte_blank [simp]: "isBlank (blank_byte c)"
  by (simp add: blank_byte_def isBlank_def)

lemma blankBytes_blank [simp]: "list_all isBlank (blankBytes s)"
  by (induction s) simp_all

abbreviation blanked_of :: "string \<Rightarrow> string \<Rightarrow> bool" where
  "blanked_of \<equiv> list_all2 (\<lambda>c c'. c' = c \<or> c' = blank_byte c)"

lemma blanked_blankBytes [simp]: "blanked_of s (blankBytes s)"
  by (simp add: blankBytes_def list_all2_map2 list.rel_refl)

lemma blanked_refl [simp]: "blanked_of s s"
  by (simp add: list.rel_refl)

lemma blank_scan_kept: "blanked_of s0 scanned \<Longrightarrow> blanked_of (s0 @ rest) (snd (blank_scan d scanned rest))"
proof (induction d scanned rest arbitrary: s0 rule: blank_scan.induct)
  case (1 d scanned)
  then show ?case by simp
next
  case (2 d scanned c)
  then show ?case by (simp add: list_all2_appendI)
next
  case (3 d scanned c c' rest)
  have b: "blanked_of (s0 @ [c, c']) (scanned @ blankBytes [c, c'])" "blanked_of (s0 @ [c]) (scanned @ blankBytes [c])"
    "blanked_of (s0 @ [c]) (scanned @ [c])" using 3(6) by (simp_all add: list_all2_appendI)
  show ?case
  proof (cases "d > 0")
    case True
    show ?thesis using 3(1)[OF refl True _ b(1)] 3(2)[OF refl True _ _ b(1)] 3(3)[OF refl True _ _ b(2)] True by (simp add: Let_def)
  next
    case False
    have "blanked_of (s0 @ c # c' # rest) (scanned @ c # c' # rest)" "blanked_of (s0 @ c # c' # rest) (scanned @ blankBytes (c # c' # rest))"
      using 3(6) by (intro list_all2_appendI; simp)+
    then show ?thesis using 3(4)[OF refl False _ b(1)] 3(5)[OF refl False _ _ b(3)] False by (auto simp: Let_def)
  qed
qed

lemma blank_scan_prefix: "\<exists>r. snd (blank_scan d scanned rest) = scanned @ r"
proof (induction d scanned rest rule: blank_scan.induct)
  case (3 d scanned c c' rest)
  have app: "\<exists>r. l = (scanned @ xs) @ r \<Longrightarrow> \<exists>r. l = scanned @ r" for l xs by auto
  show ?case
  proof (cases "d > 0")
    case True
    show ?thesis using app[OF 3(1)[OF refl True]] app[OF 3(2)[OF refl True]] app[OF 3(3)[OF refl True]] True by (auto simp: Let_def)
  next
    case False
    show ?thesis using app[OF 3(4)[OF refl False]] app[OF 3(5)[OF refl False]] False by (auto simp: Let_def)
  qed
qed simp_all

lemma blank_scan_rest:
  assumes "snd (blank_scan d scanned rest) = scanned @ r"
  shows "blanked_of rest r"
proof -
  have "blanked_of (scanned @ rest) (scanned @ r)" using blank_scan_kept[of scanned scanned rest d] assms by simp
  then show ?thesis by (simp add: list_all2_append)
qed

text \<open>Scanning a blanked line again finds no comment in it.\<close>

lemma scan_other: "c \<noteq> CHR ''/'' \<Longrightarrow> blank_scan 0 scanned (c # r) = blank_scan 0 (scanned @ [c]) r"
  by (cases r) (simp_all add: Let_def)

lemma scan_slash: "c' \<noteq> CHR ''/'' \<Longrightarrow> c' \<noteq> CHR ''*'' \<Longrightarrow> blank_scan 0 scanned (c # c' # r) = blank_scan 0 (scanned @ [c]) (c' # r)"
  by (simp add: Let_def)

lemma blank_not_slash: "isBlank c \<Longrightarrow> c \<noteq> CHR ''/'' \<and> c \<noteq> CHR ''*''"
  by (auto simp: isBlank_def)

lemma scan_blanks: "list_all isBlank r \<Longrightarrow> blank_scan 0 scanned r = (0, scanned @ r)"
proof (induction r arbitrary: scanned)
  case (Cons c r)
  then show ?case using scan_other[of c scanned r] blank_not_slash[of c] by simp
qed simp

lemma blank_scan_again: "snd (blank_scan d scanned rest) = scanned @ r \<Longrightarrow> blank_scan 0 scanned r = (0, scanned @ r)"
proof (induction d scanned rest arbitrary: r rule: blank_scan.induct)
  case (1 d scanned)
  then show ?case by simp
next
  case (2 d scanned c)
  then show ?case by (auto split: if_splits)
next
  case (3 d scanned c c' rest)
  have two: "blank_scan 0 scanned r = (0, scanned @ r)"
    if ih: "\<And>r. snd (blank_scan d' (scanned @ blankBytes [c, c']) rest) = (scanned @ blankBytes [c, c']) @ r
      \<Longrightarrow> blank_scan 0 (scanned @ blankBytes [c, c']) r = (0, (scanned @ blankBytes [c, c']) @ r)"
      and eq: "snd (blank_scan d' (scanned @ blankBytes [c, c']) rest) = scanned @ r" for d'
  proof -
    obtain r' where r': "snd (blank_scan d' (scanned @ blankBytes [c, c']) rest) = (scanned @ blankBytes [c, c']) @ r'"
      using blank_scan_prefix by blast
    then have r: "r = blankBytes [c, c'] @ r'" using eq by simp
    show ?thesis using ih[OF r'] scan_other[of "blank_byte c" scanned "blank_byte c' # r'"]
        scan_other[of "blank_byte c'" "scanned @ [blank_byte c]" r'] blank_not_slash[OF blank_byte_blank] by (simp add: r)
  qed
  have one: "blank_scan 0 scanned r = (0, scanned @ r)"
    if ih: "\<And>r. snd (blank_scan d' (scanned @ [b]) (c' # rest)) = (scanned @ [b]) @ r
      \<Longrightarrow> blank_scan 0 (scanned @ [b]) r = (0, (scanned @ [b]) @ r)"
      and eq: "snd (blank_scan d' (scanned @ [b]) (c' # rest)) = scanned @ r"
      and b: "b \<noteq> CHR ''/'' \<or> c' \<noteq> CHR ''/'' \<and> c' \<noteq> CHR ''*''" for d' b
  proof -
    obtain r' where r': "snd (blank_scan d' (scanned @ [b]) (c' # rest)) = (scanned @ [b]) @ r'" using blank_scan_prefix by blast
    then have r: "r = b # r'" using eq by simp
    obtain x r2 where x: "r' = x # r2" "x = c' \<or> x = blank_byte c'" using blank_scan_rest[OF r'] by (cases r') auto
    have "blank_scan 0 scanned (b # r') = blank_scan 0 (scanned @ [b]) r'"
      using b scan_other scan_slash[of x scanned b r2] x blank_not_slash[OF blank_byte_blank, of c'] by (cases "b = CHR ''/''") auto
    then show ?thesis using ih[OF r'] by (simp add: r)
  qed
  show ?case
  proof (cases "d > 0")
    case True
    consider "c = CHR ''*'' \<and> c' = CHR ''/''" | "\<not> (c = CHR ''*'' \<and> c' = CHR ''/'')" "c = CHR ''/'' \<and> c' = CHR ''*''"
      | "\<not> (c = CHR ''*'' \<and> c' = CHR ''/'')" "\<not> (c = CHR ''/'' \<and> c' = CHR ''*'')" by blast
    then show ?thesis
    proof cases
      case 1
      show ?thesis by (rule two[OF 3(1)[OF refl True 1]]) (use 3(6) True 1 in \<open>simp_all add: Let_def\<close>)
    next
      case 2
      show ?thesis by (rule two[OF 3(2)[OF refl True 2]]) (use 3(6) True 2 in \<open>simp_all add: Let_def\<close>)
    next
      case c3: 3
      have "snd (blank_scan d (scanned @ [blank_byte c]) (c' # rest)) = scanned @ r" using 3(6) True c3 by (auto simp: Let_def)
      then show ?thesis using one[of d "blank_byte c"] 3(3)[OF refl True c3] blank_not_slash[OF blank_byte_blank] by simp
    qed
  next
    case False
    consider "c = CHR ''/'' \<and> c' = CHR ''*''" | "\<not> (c = CHR ''/'' \<and> c' = CHR ''*'')" "c = CHR ''/'' \<and> c' = CHR ''/''"
      | "\<not> (c = CHR ''/'' \<and> c' = CHR ''*'')" "\<not> (c = CHR ''/'' \<and> c' = CHR ''/'')" by blast
    then show ?thesis
    proof cases
      case 1
      show ?thesis by (rule two[OF 3(4)[OF refl False 1]]) (use 3(6) False 1 in \<open>simp_all add: Let_def\<close>)
    next
      case 2
      then have "r = (if isDirectiveSigil scanned rest then c # c' # rest else blankBytes (c # c' # rest))" using 3(6) False by (auto simp: Let_def)
      then show ?thesis using 2 scan_blanks[OF blankBytes_blank, of scanned "c # c' # rest"] by (simp add: Let_def)
    next
      case c3: 3
      have "snd (blank_scan d (scanned @ [c]) (c' # rest)) = scanned @ r" using 3(6) False c3 by (auto simp: Let_def)
      then show ?thesis by (rule one[OF 3(5)[OF refl False c3], rotated]) (use c3 in auto)
    qed
  qed
qed

lemma blank_lines_kept: "list_all2 blanked_of lines (blank_lines d lines)"
proof (induction lines arbitrary: d)
  case (Cons line lines)
  then show ?case using blank_scan_kept[of "[]" "[]" line d] by (auto split: prod.splits)
qed simp

lemma blank_lines_again: "\<forall>line \<in> set (blank_lines d lines). blank_scan 0 [] line = (0, line)"
proof (induction lines arbitrary: d)
  case (Cons line lines)
  obtain d' l where e: "blank_scan d [] line = (d', l)" by fastforce
  then show ?case using Cons[of d'] blank_scan_again[of d "[]" line l] by simp
qed simp

lemma scan_code: "CHR ''/'' \<notin> set code \<Longrightarrow> blank_scan 0 scanned (code @ r) = blank_scan 0 (scanned @ code) r"
proof (induction code arbitrary: scanned)
  case (Cons c code)
  have "c \<noteq> CHR ''/''" using Cons.prems by auto
  then show ?case using Cons scan_other[of c scanned "code @ r"] by simp
qed simp

lemma scan_comment:
  "CHR ''/'' \<notin> set body \<Longrightarrow> CHR ''*'' \<notin> set body
    \<Longrightarrow> blank_scan (Suc 0) scanned (body @ ''*/'' @ rest) = blank_scan 0 (scanned @ blankBytes (body @ ''*/'')) rest"
proof (induction body arbitrary: scanned)
  case Nil
  then show ?case by (simp add: Let_def)
next
  case (Cons c body)
  obtain x r where x: "body @ ''*/'' @ rest = x # r" by (cases body) auto
  have "blank_scan (Suc 0) scanned (c # x # r) = blank_scan (Suc 0) (scanned @ blankBytes [c]) (x # r)" using Cons.prems by (auto simp: Let_def)
  then show ?case using Cons x by (simp flip: x)
qed

text \<open>
  \<open>blankComments\<close> takes the comments out of a source and nothing else, and moves nothing: every line keeps its length and
  each byte of it is kept or made a blank.  Code before a comment is kept; a block comment is blanked through its
  end, and a line comment to the end of its line unless it is a directive's sigil.  No comment is left: scanning a
  blanked line again changes nothing and ends outside every comment.
\<close>

theorem comments_blanked:
  "list_all2 (list_all2 (\<lambda>c c'. c' = c \<or> c' = blank_byte c)) (splitLines s) (blankComments s)
    \<and> (\<forall>line \<in> set (blankComments s). blank_scan 0 [] line = (0, line))
    \<and> (CHR ''/'' \<notin> set code \<and> set body \<inter> {CHR ''/'', CHR ''*''} = {} \<longrightarrow>
        blank_scan 0 scanned (code @ ''/*'' @ body @ ''*/'' @ rest) = blank_scan 0 (scanned @ code @ blankBytes (''/*'' @ body @ ''*/'')) rest)
    \<and> (CHR ''/'' \<notin> set code \<longrightarrow>
        blank_scan 0 scanned (code @ ''//'' @ rest)
          = (0, scanned @ code @ (if isDirectiveSigil (scanned @ code) rest then ''//'' @ rest else blankBytes (''//'' @ rest))))"
proof (intro conjI impI)
  show "list_all2 (list_all2 (\<lambda>c c'. c' = c \<or> c' = blank_byte c)) (splitLines s) (blankComments s)"
    unfolding blankComments_def by (rule blank_lines_kept)
  show "\<forall>line \<in> set (blankComments s). blank_scan 0 [] line = (0, line)" unfolding blankComments_def by (rule blank_lines_again)
  show "blank_scan 0 scanned (code @ ''/*'' @ body @ ''*/'' @ rest) = blank_scan 0 (scanned @ code @ blankBytes (''/*'' @ body @ ''*/'')) rest"
    if a: "CHR ''/'' \<notin> set code \<and> set body \<inter> {CHR ''/'', CHR ''*''} = {}"
  proof -
    have "blank_scan 0 scanned (code @ ''/*'' @ body @ ''*/'' @ rest) = blank_scan (Suc 0) (scanned @ code @ blankBytes ''/*'') (body @ ''*/'' @ rest)"
      using scan_code[of code scanned "''/*'' @ body @ ''*/'' @ rest"] a by (simp add: Let_def)
    also have "\<dots> = blank_scan 0 ((scanned @ code @ blankBytes ''/*'') @ blankBytes (body @ ''*/'')) rest" by (rule scan_comment) (use a in auto)
    finally show ?thesis by simp
  qed
  show "blank_scan 0 scanned (code @ ''//'' @ rest)
      = (0, scanned @ code @ (if isDirectiveSigil (scanned @ code) rest then ''//'' @ rest else blankBytes (''//'' @ rest)))"
    if "CHR ''/'' \<notin> set code" using scan_code[OF that, of scanned "''//'' @ rest"] by (simp add: Let_def)
qed

theorem comments_blanked_witness:
  "blank_scan 0 [] ''a/*b*/c//d'' = (0, ''a     c   '')
    \<and> list_all2 (list_all2 (\<lambda>c c'. c' = c \<or> c' = blank_byte c)) (splitLines ''x/*y'') (blankComments ''x/*y'')"
proof -
  have "blank_scan 0 [] (''a'' @ ''/*'' @ ''b'' @ ''*/'' @ ''c//d'') = blank_scan 0 ([] @ ''a'' @ blankBytes (''/*'' @ ''b'' @ ''*/'')) ''c//d''"
    using comments_blanked[of "''x/*y''" "''a''" "''b''" "[]" "''c//d''"] by simp
  moreover have "blank_scan 0 (''a'' @ ''     '') (''c'' @ ''//'' @ ''d'') = (0, (''a'' @ ''     '') @ ''c'' @ blankBytes (''//'' @ ''d''))"
    using comments_blanked[of "''x/*y''" "''c''" "[]" "''a     ''" "''d''"] by (simp add: isDirectiveSigil_def HasPrefix_def)
  ultimately have "blank_scan 0 [] ''a/*b*/c//d'' = (0, ''a     c   '')" by (simp add: blank_byte_def)
  then show ?thesis using comments_blanked[of "''x/*y''" "[]" "[]" "[]" "[]"] by blast
qed

text \<open>
  So the two sigils are not one directive: what follows \<open>//#\<close> on its line is not scanned, and a comment after the directive is
  part of its argument, a block comment that would go on past the line too.
\<close>

lemma sigils_not_alike:
  "di_argument (parseDirective (blankComments ''#define A // why'' ! 0)) = ''A''"
  "di_argument (parseDirective (blankComments ''//#define A // why'' ! 0)) = ''A // why''"
  by code_simp+

end
