(* ===== verification/Shader_Flatten.thy ===== *)
theory Shader_Flatten
  imports Shader_Directive "HOL-Library.Char_ord" "HOL-Library.List_Lexorder"
begin

text \<open>
  \<open>gfx/shader/preprocessor.go\<close> and \<open>flattener.go\<close>: the sources of one shader spliced into one, its declarations collected and its
  conditional branches chosen.  The filesystem is a parameter, a map from paths to texts; a Go map is an
  association list, and a set of names a list.  A message is a value for each place the source refuses at.
\<close>

section \<open>Paths\<close>

definition clean_element :: "bool \<Rightarrow> string list \<Rightarrow> string \<Rightarrow> string list" where
  "clean_element rooted out e =
     (if e = ''.'' then out
      else if e = ''..'' then (if out \<noteq> [] \<and> last out \<noteq> ''..'' then butlast out else if rooted then out else out @ [e])
      else out @ [e])"

definition join_with :: "string \<Rightarrow> string list \<Rightarrow> string" where
  "join_with sep ss = concat (case ss of [] \<Rightarrow> [] | s # rest \<Rightarrow> s # map (\<lambda>x. sep @ x) rest)"

text \<open>\<open>path.Clean\<close>, \<open>path.Dir\<close> and \<open>path.Join\<close> of two.\<close>

definition path_Clean :: "string \<Rightarrow> string" where
  "path_Clean p =
     (let rooted = HasPrefix p ''/'';
          out = fold (\<lambda>e out. clean_element rooted out e) (filter (\<lambda>e. e \<noteq> []) (split_at (CHR ''/'') p)) [];
          cleaned = (if rooted then ''/'' else []) @ join_with ''/'' out
      in if cleaned = [] then ''.'' else cleaned)"

definition path_Dir :: "string \<Rightarrow> string" where
  "path_Dir p = path_Clean (rev (dropWhile (\<lambda>c. c \<noteq> CHR ''/'') (rev p)))"

definition path_Join :: "string \<Rightarrow> string \<Rightarrow> string" where
  "path_Join a b = (if a = [] \<and> b = [] then [] else path_Clean (if a = [] then b else a @ ''/'' @ b))"

section \<open>Defines and refusals\<close>

record shader_define =
  de_name :: string
  de_value :: string

record location =
  lo_source :: string
  lo_line :: nat

definition zero_location :: location where
  "zero_location = \<lparr>lo_source = [], lo_line = 0\<rparr>"

datatype shader_message =
  EmptyDefineName | NewlineInValue string | SourceNotFound string | UnknownDirective string | InsideConditional directive_kind
  | BadCondition condition_error | NoOpenIf directive_kind | AfterElse directive_kind | EndifNoOpenIf | IfNeverClosed
  | IncludeEmptyPath | IncludeCycle string | IncludeNotFound string | ClimbsAboveRoot string
  | DefineNoName | DefineTrailingText string | DefineAndConst string | ConstNeedsValue | ConstNoName string | ConstTwice string
  | ValueForDefine string | FlagForConst string | TwoSeverities string | FlattenFuel

record err_source =
  es_shader :: string
  es_at :: "location list"
  es_message :: shader_message

text \<open>\<open>labelShader\<close>: the last of each name, sorted, the label with their spellings, and the first with no legal spelling.\<close>

definition keep_define :: "shader_define \<Rightarrow> shader_define list \<Rightarrow> shader_define list" where
  "keep_define d kept =
     (if de_name d \<in> de_name ` set kept then map (\<lambda>other. if de_name other = de_name d then d else other) kept else kept @ [d])"

definition spelling :: "shader_define \<Rightarrow> string" where
  "spelling d = de_name d @ (if de_value d = [] then [] else ''='' @ de_value d)"

definition malformed_define :: "shader_define \<Rightarrow> shader_message option" where
  "malformed_define d =
     (if de_name d = [] then Some EmptyDefineName else if newline \<in> set (de_value d) then Some (NewlineInValue (de_name d)) else None)"

definition labelShader :: "string \<Rightarrow> shader_define list \<Rightarrow> string \<times> shader_define list \<times> shader_message option" where
  "labelShader path defines =
     (let kept = fold keep_define defines []
      in if kept = [] then (path, [], None)
         else let sorted = sort_key de_name kept
              in (path @ '' ['' @ map (\<lambda>c. if c = newline then CHR '' '' else c) (join_with '' '' (map spelling sorted)) @ '']'', sorted,
                  case filter (\<lambda>d. malformed_define d \<noteq> None) sorted of [] \<Rightarrow> None | d # _ \<Rightarrow> malformed_define d))"

section \<open>The flattener\<close>

record scanned_line =
  sc_kind :: directive_kind
  sc_argument :: string
  sc_condition :: "condition option"

definition no_scan :: scanned_line where
  "no_scan = \<lparr>sc_kind = DirectiveNone, sc_argument = [], sc_condition = None\<rparr>"

record flattener =
  fl_root :: string
  fl_label :: string
  fl_malformed :: "shader_message option"
  fl_givenFlags :: "string list"
  fl_givenValues :: "(string \<times> string) list"
  fl_lines :: "string list"
  fl_conditionals :: "(directive_kind \<times> condition option) list"
  fl_included :: "string list"
  fl_stack :: "string list"
  fl_chain :: "location list"
  fl_defines :: "(string \<times> location) list"
  fl_consts :: "(string \<times> location) list"
  fl_enables :: "string list"
  fl_requires :: "string list"
  fl_diagnostics :: "(string \<times> string \<times> location) list"

definition newFlattener :: "string \<Rightarrow> shader_define list \<Rightarrow> flattener" where
  "newFlattener root defines =
     (case labelShader root defines of (label, kept, malformed) \<Rightarrow>
        \<lparr>fl_root = root, fl_label = label, fl_malformed = malformed,
         fl_givenFlags = map de_name (filter (\<lambda>d. de_value d = []) kept),
         fl_givenValues = map (\<lambda>d. (de_name d, de_value d)) (filter (\<lambda>d. de_value d \<noteq> []) kept),
         fl_lines = [], fl_conditionals = [], fl_included = [], fl_stack = [], fl_chain = [], fl_defines = [], fl_consts = [],
         fl_enables = [], fl_requires = [], fl_diagnostics = []\<rparr>)"

definition refuse :: "flattener \<Rightarrow> shader_message \<Rightarrow> location list \<Rightarrow> err_source + 'a" where
  "refuse f message at_lines = Inl \<lparr>es_shader = fl_label f, es_at = at_lines, es_message = message\<rparr>"

definition refuseWithChain :: "flattener \<Rightarrow> shader_message \<Rightarrow> location \<Rightarrow> err_source + 'a" where
  "refuseWithChain f message here = refuse f message (fl_chain f @ [here])"

definition appendLine :: "string \<Rightarrow> directive_kind \<times> condition option \<Rightarrow> flattener \<Rightarrow> flattener" where
  "appendLine line conditional f = f\<lparr>fl_lines := fl_lines f @ [line], fl_conditionals := fl_conditionals f @ [conditional]\<rparr>"

text \<open>
  \<open>scanSource\<close>: the directives of a source, with its conditionals checked.  An open conditional is the line of its \<open>#if\<close> and
  that of its \<open>#else\<close>, once it has one.
\<close>

definition scan_line ::
  "flattener \<Rightarrow> location \<Rightarrow> (location \<times> location option) list \<Rightarrow> string \<Rightarrow> err_source + (location \<times> location option) list \<times> scanned_line" where
  "scan_line f here opened line =
     (let parsed = parseDirective line; kind = di_kind parsed;
          s = \<lparr>sc_kind = kind, sc_argument = di_argument parsed, sc_condition = None\<rparr>
      in if \<not> di_sigil parsed then Inr (opened, no_scan)
         else if \<not> di_known parsed then refuse f (UnknownDirective (di_keyword parsed)) [here]
         else if kind \<in> {DirectiveInclude, DirectiveDefine, DirectiveConst}
           then (case opened of [] \<Rightarrow> Inr (opened, s) | (ifAt, _) # _ \<Rightarrow> refuse f (InsideConditional kind) [here, ifAt])
         else if kind = DirectiveIf
           then (case parseCondition (di_argument parsed) of
                   Inl e \<Rightarrow> refuse f (BadCondition e) [here]
                 | Inr c \<Rightarrow> Inr ((here, None) # opened, s\<lparr>sc_condition := Some c\<rparr>))
         else if kind \<in> {DirectiveElif, DirectiveElse}
           then (case opened of
                   [] \<Rightarrow> refuse f (NoOpenIf kind) [here]
                 | (ifAt, elseAt) # outer \<Rightarrow>
                     (case elseAt of
                        Some other \<Rightarrow> refuse f (AfterElse kind) [here, other]
                      | None \<Rightarrow>
                          if kind = DirectiveElse then Inr ((ifAt, Some here) # outer, s)
                          else (case parseCondition (di_argument parsed) of
                                  Inl e \<Rightarrow> refuse f (BadCondition e) [here]
                                | Inr c \<Rightarrow> Inr (opened, s\<lparr>sc_condition := Some c\<rparr>))))
         else (case opened of [] \<Rightarrow> refuse f EndifNoOpenIf [here] | _ # outer \<Rightarrow> Inr (outer, s)))"

fun scan_lines :: "flattener \<Rightarrow> string \<Rightarrow> nat \<Rightarrow> nat \<Rightarrow> (location \<times> location option) list \<Rightarrow> string list \<Rightarrow> err_source + scanned_line list" where
  "scan_lines f name count index opened [] =
     (case opened of [] \<Rightarrow> Inr [] | (ifAt, _) # _ \<Rightarrow> refuse f IfNeverClosed [\<lparr>lo_source = name, lo_line = count\<rparr>, ifAt])"
| "scan_lines f name count index opened (line # lines) =
     (case scan_line f \<lparr>lo_source = name, lo_line = index + 1\<rparr> opened line of
        Inl e \<Rightarrow> Inl e
      | Inr (opened', s) \<Rightarrow>
          (case scan_lines f name count (index + 1) opened' lines of Inl e \<Rightarrow> Inl e | Inr rest \<Rightarrow> Inr (s # rest)))"

definition scanSource :: "flattener \<Rightarrow> string \<Rightarrow> string list \<Rightarrow> err_source + scanned_line list" where
  "scanSource f name lines = scan_lines f name (length lines) 0 [] lines"

text \<open>WGSL's directives, in a source's prologue.\<close>

definition hoistedKeywords :: "string list" where
  "hoistedKeywords = [''enable'', ''requires'', ''diagnostic'']"

definition splitLeadingWord :: "string \<Rightarrow> string \<times> string" where
  "splitLeadingWord line = (takeWhile isNameByte (skipSpace line), dropWhile isNameByte (skipSpace line))"

fun readToSemicolon :: "string \<Rightarrow> string \<Rightarrow> string list \<Rightarrow> nat \<Rightarrow> (string \<times> nat) option" where
  "readToSemicolon read rest later index =
     (if CHR '';'' \<notin> set rest
      then (case later of [] \<Rightarrow> None | line # lines \<Rightarrow> readToSemicolon (read @ rest @ '' '') line lines (index + 1))
      else if TrimSpace (tl (dropWhile (\<lambda>c. c \<noteq> CHR '';'') rest)) \<noteq> [] then None
      else Some (TrimSpace (read @ takeWhile (\<lambda>c. c \<noteq> CHR '';'') rest), index))"

declare readToSemicolon.simps [simp del]

lemma readToSemicolon_end:
  "readToSemicolon read rest later index = Some (body, end_line) \<Longrightarrow> index \<le> end_line \<and> end_line \<le> index + length later"
proof (induction read rest later index rule: readToSemicolon.induct)
  case (1 read rest later index)
  show ?case
  proof (cases "CHR '';'' \<in> set rest")
    case True
    with 1(2) show ?thesis by (auto simp: readToSemicolon.simps[of read rest] split: if_splits)
  next
    case False
    with 1(2) show ?thesis
      by (subst (asm) readToSemicolon.simps) (auto split: list.splits dest!: 1(1)[OF False])
  qed
qed

definition readDiagnosticRule :: "string \<Rightarrow> string" where
  "readDiagnosticRule body =
     (if CHR ''('' \<notin> set body \<or> CHR '')'' \<notin> set body then TrimSpace body
      else let start = length (takeWhile (\<lambda>c. c \<noteq> CHR ''('') body);
               shut = length body - 1 - length (takeWhile (\<lambda>c. c \<noteq> CHR '')'') (rev body))
           in if shut < start then TrimSpace body
              else let inner = take (shut - start - 1) (drop (start + 1) body); parts = split_at (CHR '','') inner
                   in TrimSpace (if length parts < 2 then inner else parts ! 1))"

text \<open>\<open>strings.Fields\<close>: the runs between spaces.\<close>

function fields_from :: "string \<Rightarrow> string \<Rightarrow> string list" where
  "fields_from run s =
     (case s of
        [] \<Rightarrow> if run = [] then [] else [run]
      | c # rest \<Rightarrow>
          (case find (\<lambda>e. e \<noteq> [] \<and> HasPrefix s e) space_codes of
             None \<Rightarrow> fields_from (run @ [c]) rest
           | Some e \<Rightarrow> (if run = [] then [] else [run]) @ fields_from [] (drop (length e) s)))"
  by pat_completeness auto
termination
proof (relation "measure (\<lambda>(run, s). length s)")
  fix run s c rest e
  assume "s = c # rest" and "find (\<lambda>e. e \<noteq> [] \<and> HasPrefix s e) space_codes = Some e"
  then show "(([], drop (length e) s), run, s) \<in> measure (\<lambda>(run, s). length s)" by (auto simp: find_Some_iff)
qed simp_all

declare fields_from.simps [simp del]

definition add_name :: "string \<Rightarrow> string list \<Rightarrow> string list" where
  "add_name item names = (if item = [] \<or> item \<in> set names then names else names @ [item])"

definition collectHoisted :: "string \<Rightarrow> string \<Rightarrow> location \<Rightarrow> flattener \<Rightarrow> err_source + flattener" where
  "collectHoisted keyword body here f =
     (if keyword = ''enable'' then Inr (f\<lparr>fl_enables := fold add_name (map TrimSpace (split_at (CHR '','') body)) (fl_enables f)\<rparr>)
      else if keyword = ''requires'' then Inr (f\<lparr>fl_requires := fold add_name (map TrimSpace (split_at (CHR '','') body)) (fl_requires f)\<rparr>)
      else let kept = ''diagnostic'' @ join_with '' '' (fields_from [] body) @ '';''; rule = readDiagnosticRule body
           in case map_of (fl_diagnostics f) rule of
                None \<Rightarrow> Inr (f\<lparr>fl_diagnostics := fl_diagnostics f @ [(rule, kept, here)]\<rparr>)
              | Some (existing, existing_at) \<Rightarrow> if existing \<noteq> kept then refuse f (TwoSeverities rule) [here, existing_at] else Inr f)"

function hoistPrologue :: "string \<Rightarrow> string list \<Rightarrow> scanned_line list \<Rightarrow> nat \<Rightarrow> nat list \<Rightarrow> flattener \<Rightarrow> err_source + nat list \<times> flattener" where
  "hoistPrologue name lines scanned index hoisted f =
     (if index \<ge> length lines then Inr (hoisted, f)
      else if TrimSpace (lines ! index) = [] \<or> sc_kind (scanned ! index) \<noteq> DirectiveNone then hoistPrologue name lines scanned (index + 1) hoisted f
      else case splitLeadingWord (lines ! index) of (keyword, rest) \<Rightarrow>
        if keyword \<notin> set hoistedKeywords then Inr (hoisted, f)
        else case readToSemicolon [] rest (drop (index + 1) lines) index of
               None \<Rightarrow> Inr (hoisted, f)
             | Some (body, end_line) \<Rightarrow>
                 (case collectHoisted keyword body \<lparr>lo_source = name, lo_line = index + 1\<rparr> f of
                    Inl e \<Rightarrow> Inl e
                  | Inr f1 \<Rightarrow> hoistPrologue name lines scanned (end_line + 1) (hoisted @ [index..<end_line + 1]) f1))"
  by pat_completeness auto
termination
proof (relation "measure (\<lambda>(name, lines, scanned, index, hoisted, f). length lines - index)")
qed (auto dest!: readToSemicolon_end)

declare hoistPrologue.simps [simp del]

text \<open>Declarations and includes.\<close>

definition declareDefine :: "string \<Rightarrow> location \<Rightarrow> flattener \<Rightarrow> err_source + flattener" where
  "declareDefine argument here f =
     (if argument = [] then refuse f DefineNoName [here]
      else if \<not> isName argument then refuse f (DefineTrailingText argument) [here]
      else case map_of (fl_consts f) argument of
             Some other \<Rightarrow> refuse f (DefineAndConst argument) [here, other]
           | None \<Rightarrow> Inr (if map_of (fl_defines f) argument = None then f\<lparr>fl_defines := fl_defines f @ [(argument, here)]\<rparr> else f))"

definition declareConst :: "string \<Rightarrow> string \<Rightarrow> location \<Rightarrow> flattener \<Rightarrow> err_source + string \<times> flattener" where
  "declareConst line argument here f =
     (let name = TrimSpace (takeWhile (\<lambda>c. c \<noteq> CHR ''='') argument); val = TrimSpace (tl (dropWhile (\<lambda>c. c \<noteq> CHR ''='') argument))
      in if CHR ''='' \<notin> set argument then refuse f ConstNeedsValue [here]
         else if \<not> isName name then refuse f (ConstNoName argument) [here]
         else case map_of (fl_consts f) name of
                Some other \<Rightarrow> refuse f (ConstTwice name) [here, other]
              | None \<Rightarrow>
                  (case map_of (fl_defines f) name of
                     Some other \<Rightarrow> refuse f (DefineAndConst name) [here, other]
                   | None \<Rightarrow>
                       let given = (case map_of (fl_givenValues f) name of None \<Rightarrow> val | Some v \<Rightarrow> v)
                       in Inr (takeWhile isBlank line @ ''const '' @ name @ '' = '' @ given @ '';'', f\<lparr>fl_consts := fl_consts f @ [(name, here)]\<rparr>)))"

definition resolveInclude :: "string \<Rightarrow> string \<Rightarrow> location \<Rightarrow> flattener \<Rightarrow> err_source + string" where
  "resolveInclude argument includer here f =
     (if \<not> HasPrefix argument ''./'' \<and> \<not> HasPrefix argument ''../'' then Inr argument
      else let directory = path_Dir includer; name = path_Join (if directory = ''.'' then [] else directory) argument
           in if name = ''..'' \<or> HasPrefix name ''../'' then refuse f (ClimbsAboveRoot argument) [here] else Inr name)"

text \<open>An include, given how a source is emitted.\<close>

definition include_source ::
  "(string \<Rightarrow> string option) \<Rightarrow> (string \<Rightarrow> string \<Rightarrow> flattener \<Rightarrow> err_source + flattener) \<Rightarrow> string \<Rightarrow> string \<Rightarrow> location \<Rightarrow> flattener \<Rightarrow> err_source + flattener" where
  "include_source files emit argument includer here f =
     (if argument = [] then refuse f IncludeEmptyPath [here]
      else case resolveInclude argument includer here f of
        Inl e \<Rightarrow> Inl e
      | Inr name \<Rightarrow>
          if name \<in> set (fl_stack f) then refuseWithChain f (IncludeCycle name) here
          else if name \<in> set (fl_included f) then Inr f
          else case files name of
                 None \<Rightarrow> refuseWithChain f (IncludeNotFound name) here
               | Some source \<Rightarrow>
                   (case emit name source (f\<lparr>fl_chain := fl_chain f @ [here]\<rparr>) of
                      Inl e \<Rightarrow> Inl e
                    | Inr f1 \<Rightarrow> Inr (f1\<lparr>fl_chain := butlast (fl_chain f1)\<rparr>)))"

text \<open>One line of a source, given what an include does, and the lines of it in order.\<close>

definition emit_line ::
  "(string \<Rightarrow> location \<Rightarrow> flattener \<Rightarrow> err_source + flattener) \<Rightarrow> string \<Rightarrow> nat list \<Rightarrow> nat \<Rightarrow> string \<Rightarrow> scanned_line \<Rightarrow> flattener \<Rightarrow> err_source + flattener" where
  "emit_line inc name hoisted index line s f =
     (let here = \<lparr>lo_source = name, lo_line = index + 1\<rparr>
      in if index \<in> set hoisted then Inr (appendLine (blankLine line) (DirectiveNone, None) f)
         else case sc_kind s of
           DirectiveInclude \<Rightarrow> inc (sc_argument s) here (appendLine (blankLine line) (DirectiveNone, None) f)
         | DirectiveDefine \<Rightarrow>
             (case declareDefine (sc_argument s) here f of
                Inl e \<Rightarrow> Inl e
              | Inr f1 \<Rightarrow> Inr (appendLine (blankLine line) (DirectiveNone, None) f1))
         | DirectiveConst \<Rightarrow>
             (case declareConst line (sc_argument s) here f of
                Inl e \<Rightarrow> Inl e
              | Inr (declared, f1) \<Rightarrow> Inr (appendLine declared (DirectiveNone, None) f1))
         | DirectiveNone \<Rightarrow> Inr (appendLine line (DirectiveNone, None) f)
         | kind \<Rightarrow> Inr (appendLine (blankLine line) (kind, sc_condition s) f))"

fun emit_lines ::
  "(string \<Rightarrow> location \<Rightarrow> flattener \<Rightarrow> err_source + flattener) \<Rightarrow> string \<Rightarrow> nat list \<Rightarrow> nat \<Rightarrow> (string \<times> scanned_line) list \<Rightarrow> flattener \<Rightarrow> err_source + flattener" where
  "emit_lines inc name hoisted index [] f = Inr f"
| "emit_lines inc name hoisted index ((line, s) # rest) f =
     (case emit_line inc name hoisted index line s f of
        Inl e \<Rightarrow> Inl e
      | Inr f1 \<Rightarrow> emit_lines inc name hoisted (index + 1) rest f1)"

text \<open>\<open>emitSource\<close>: an include inside it takes one unit of fuel; a filesystem with as many sources as fuel never runs out of it.\<close>

primrec emitSource :: "nat \<Rightarrow> (string \<Rightarrow> string option) \<Rightarrow> string \<Rightarrow> string \<Rightarrow> flattener \<Rightarrow> err_source + flattener" where
  "emitSource 0 files name source f = refuse f FlattenFuel []"
| "emitSource (Suc n) files name source f =
     (let f1 = f\<lparr>fl_included := fl_included f @ [name], fl_stack := fl_stack f @ [name]\<rparr>; lines = blankComments source
      in case scanSource f1 name lines of
           Inl e \<Rightarrow> Inl e
         | Inr scanned \<Rightarrow>
             (case hoistPrologue name lines scanned 0 [] f1 of
                Inl e \<Rightarrow> Inl e
              | Inr (hoisted, f2) \<Rightarrow>
                  (case emit_lines (\<lambda>argument here. include_source files (emitSource n files) argument name here) name hoisted 0 (zip lines scanned) f2 of
                     Inl e \<Rightarrow> Inl e
                   | Inr f3 \<Rightarrow> Inr (f3\<lparr>fl_stack := butlast (fl_stack f3)\<rparr>))))"

section \<open>Branches and the whole\<close>

definition checkGivenKinds :: "flattener \<Rightarrow> err_source option" where
  "checkGivenKinds f =
     (case filter (\<lambda>name. map_of (fl_defines f) name \<noteq> None) (sort (map fst (fl_givenValues f))) of
        name # _ \<Rightarrow> Some \<lparr>es_shader = fl_label f, es_at = [zero_location, the (map_of (fl_defines f) name)], es_message = ValueForDefine name\<rparr>
      | [] \<Rightarrow>
          (case filter (\<lambda>name. map_of (fl_consts f) name \<noteq> None) (sort (fl_givenFlags f)) of
             name # _ \<Rightarrow> Some \<lparr>es_shader = fl_label f, es_at = [zero_location, the (map_of (fl_consts f) name)], es_message = FlagForConst name\<rparr>
           | [] \<Rightarrow> None))"

text \<open>
  \<open>selectBranches\<close>: \<open>None\<close> is the panic of an \<open>#elif\<close>, \<open>#else\<close> or \<open>#endif\<close> with none open.  An open conditional is whether a
  branch of it has won, and whether the text around it is kept.
\<close>

definition holds_under :: "string set \<Rightarrow> condition option \<Rightarrow> bool" where
  "holds_under defines c = (case c of None \<Rightarrow> False | Some c \<Rightarrow> evaluate c defines)"

fun select_lines :: "string set \<Rightarrow> (bool \<times> bool) list \<Rightarrow> bool \<Rightarrow> (string \<times> directive_kind \<times> condition option) list \<Rightarrow> string list option" where
  "select_lines defines opened live [] = Some []"
| "select_lines defines opened live ((line, kind, c) # rest) =
     (case kind of
        DirectiveIf \<Rightarrow>
          (let won = live \<and> holds_under defines c in map_option ((#) line) (select_lines defines ((won, live) # opened) won rest))
      | DirectiveElif \<Rightarrow>
          (case opened of
             [] \<Rightarrow> None
           | (taken, outer) # os \<Rightarrow>
               (let won = outer \<and> \<not> taken \<and> holds_under defines c
                in map_option ((#) line) (select_lines defines ((taken \<or> won, outer) # os) won rest)))
      | DirectiveElse \<Rightarrow>
          (case opened of
             [] \<Rightarrow> None
           | (taken, outer) # os \<Rightarrow> map_option ((#) line) (select_lines defines ((True, outer) # os) (outer \<and> \<not> taken) rest))
      | DirectiveEndif \<Rightarrow>
          (case opened of [] \<Rightarrow> None | (taken, outer) # os \<Rightarrow> map_option ((#) line) (select_lines defines os outer rest))
      | _ \<Rightarrow> map_option ((#) (if live then line else blankLine line)) (select_lines defines opened live rest))"

definition selectBranches :: "flattener \<Rightarrow> string list option" where
  "selectBranches f = select_lines (fst ` set (fl_defines f) \<union> set (fl_givenFlags f)) [] True (zip (fl_lines f) (fl_conditionals f))"

definition hoisted_lines :: "flattener \<Rightarrow> string list" where
  "hoisted_lines f =
     (if fl_enables f = [] then [] else [''enable '' @ join_with '', '' (sort (fl_enables f)) @ '';''])
     @ (if fl_requires f = [] then [] else [''requires '' @ join_with '', '' (sort (fl_requires f)) @ '';''])
     @ map (\<lambda>rule. fst (the (map_of (fl_diagnostics f) rule))) (sort (map fst (fl_diagnostics f)))"

datatype preprocessed = Refused err_source | Panicked | Source string

definition write_lines :: "string list \<Rightarrow> string" where
  "write_lines lines = concat (map (\<lambda>line. line @ [newline]) lines)"

definition Preprocess :: "nat \<Rightarrow> (string \<Rightarrow> string option) \<Rightarrow> string \<Rightarrow> shader_define list \<Rightarrow> preprocessed" where
  "Preprocess n files path defines =
     (let f = newFlattener path defines
      in case fl_malformed f of
           Some message \<Rightarrow> Refused \<lparr>es_shader = fl_label f, es_at = [], es_message = message\<rparr>
         | None \<Rightarrow>
             (case files path of
                None \<Rightarrow> Refused \<lparr>es_shader = fl_label f, es_at = [], es_message = SourceNotFound path\<rparr>
              | Some source \<Rightarrow>
                  (case emitSource n files path source f of
                     Inl e \<Rightarrow> Refused e
                   | Inr f1 \<Rightarrow>
                       (case checkGivenKinds f1 of
                          Some e \<Rightarrow> Refused e
                        | None \<Rightarrow>
                            (case selectBranches f1 of
                               None \<Rightarrow> Panicked
                             | Some lines \<Rightarrow> Source (write_lines (hoisted_lines f1 @ lines)))))))"

end
