(* ===== verification/Shader_Laws.thy ===== *)
theory Shader_Laws
  imports Shader_Flatten
begin

text \<open>
  What the shader preprocessor promises: it returns, a refusal or a source, wherever a hoisted WGSL directive does not
  run over a directive of its own; a source it answers has no directive left in it; every included source is spliced once, each of
  its lines kept; and the branches it fl_keeps are those of the conditionals read as a tree.
\<close>

section \<open>Lines\<close>

definition clean_line :: "string \<Rightarrow> bool" where
  "clean_line line \<longleftrightarrow> newline \<notin> set line \<and> \<not> di_sigil (parseDirective line)"

lemma di_sigil_iff: "di_sigil (parseDirective line) \<longleftrightarrow> HasPrefix (skipSpace line) ''//#'' \<or> HasPrefix (skipSpace line) ''#''"
  by (simp add: parseDirective_def Let_def read_directive_def no_directive_def)

lemma di_kind_none: "di_sigil (parseDirective line) \<Longrightarrow> di_known (parseDirective line) \<Longrightarrow> di_kind (parseDirective line) \<noteq> DirectiveNone"
  by (auto simp: parseDirective_def Let_def read_directive_def no_directive_def directiveKinds_def split: if_splits option.splits)

lemma no_sigil_kind: "\<not> di_sigil (parseDirective line) \<Longrightarrow> di_kind (parseDirective line) = DirectiveNone"
  by (auto simp: parseDirective_def Let_def read_directive_def no_directive_def split: if_splits)

lemma skipSpace_blanks: "list_all isBlank indent \<Longrightarrow> skipSpace (indent @ s) = skipSpace s"
  unfolding skipSpace_def by (induction indent) auto

lemma clean_blankLine [simp]: "clean_line (blankLine line)"
proof -
  have "skipSpace (blankLine line) = []" using skipSpace_blanks[OF blankBytes_blank, of line "[]"] by (simp add: blankLine_def skipSpace_def)
  moreover have "newline \<notin> set (blankLine line)" by (auto simp: blankLine_def blankBytes_def blank_byte_def)
  ultimately show ?thesis by (simp add: clean_line_def di_sigil_iff HasPrefix_def)
qed

lemma clean_declared:
  assumes "newline \<notin> set line" "newline \<notin> set s"
  shows "clean_line (takeWhile isBlank line @ ''const '' @ s)"
proof -
  have "list_all isBlank (takeWhile isBlank line)" by (auto simp: list_all_iff dest: set_takeWhileD)
  then have "skipSpace (takeWhile isBlank line @ ''const '' @ s) = ''const '' @ s"
    by (simp add: skipSpace_blanks) (simp add: skipSpace_def isBlank_def)
  then show ?thesis using assms by (auto simp: clean_line_def di_sigil_iff HasPrefix_def dest: set_takeWhileD)
qed

lemma trim_codes_set: "set (trim_codes codes s) \<subseteq> set s"
proof (induction codes s rule: trim_codes.induct)
  case (1 codes s)
  show ?case by (subst trim_codes.simps) (auto split: option.splits dest!: 1 subsetD in_set_dropD)
qed

lemma TrimSpace_set: "set (TrimSpace s) \<subseteq> set s"
  using trim_codes_set[of space_codes s] trim_codes_set[of "map rev space_codes" "rev (trim_codes space_codes s)"] by (auto simp: TrimSpace_def)

lemma split_at_apart: "l \<in> set (split_at c s) \<Longrightarrow> c \<notin> set l \<and> set l \<subseteq> set s"
  by (induction s arbitrary: l) (fastforce split: if_splits list.splits)+

lemma splitLines_set: "line \<in> set (splitLines s) \<Longrightarrow> newline \<notin> set line"
proof -
  assume "line \<in> set (splitLines s)"
  then obtain l where l: "l \<in> set (split_at newline s)" "line = TrimSuffix_cr l"
    by (auto simp: splitLines_def Let_def dest: in_set_butlastD split: if_splits)
  moreover have "set (TrimSuffix_cr l) \<subseteq> set l" by (auto simp: TrimSuffix_cr_def dest: in_set_butlastD)
  ultimately show ?thesis using split_at_apart by blast
qed

lemma blanked_newline: "blanked_of line line' \<Longrightarrow> newline \<notin> set line \<Longrightarrow> newline \<notin> set line'"
proof (induction line line' rule: list_all2_induct)
  case (Cons c line c' line')
  have "blank_byte c \<noteq> newline" by (simp add: blank_byte_def)
  then show ?case using Cons by auto
qed simp

lemma blankComments_set: "line \<in> set (blankComments s) \<Longrightarrow> newline \<notin> set line"
proof -
  assume "line \<in> set (blankComments s)"
  then obtain i where i: "i < length (blankComments s)" "line = blankComments s ! i" by (auto simp: in_set_conv_nth)
  have kept: "list_all2 blanked_of (splitLines s) (blankComments s)" unfolding blankComments_def by (rule blank_lines_kept)
  then have "splitLines s ! i \<in> set (splitLines s)" using i(1) by (simp add: list_all2_lengthD)
  then show ?thesis using blanked_newline[OF list_all2_nthD2[OF kept i(1)]] splitLines_set i(2) by blast
qed

section \<open>Scanning\<close>

text \<open>
  The conditionals a run of directives leaves open, each with whether it has had its \<open>#else\<close>, when the run closes none that
  it has not opened or been given.
\<close>

type_synonym row = "directive_kind \<times> condition option"

fun nest_of :: "bool list \<Rightarrow> row list \<Rightarrow> bool list option" where
  "nest_of st [] = Some st"
| "nest_of st ((k, c) # rows) =
     (if k = DirectiveIf then if c = None then None else nest_of (False # st) rows
      else if k = DirectiveElif then if c = None \<or> st = [] \<or> hd st then None else nest_of st rows
      else if c \<noteq> None then None
      else if k = DirectiveElse then if st = [] \<or> hd st then None else nest_of (True # tl st) rows
      else if k = DirectiveEndif then if st = [] then None else nest_of (tl st) rows
      else nest_of st rows)"

lemma nest_of_row:
  "nest_of st ((DirectiveIf, Some c) # rows) = nest_of (False # st) rows"
  "nest_of (False # st) ((DirectiveElif, Some c) # rows) = nest_of (False # st) rows"
  "nest_of (False # st) ((DirectiveElse, None) # rows) = nest_of (True # st) rows"
  "nest_of (e # st) ((DirectiveEndif, None) # rows) = nest_of st rows"
  "k \<notin> {DirectiveIf, DirectiveElif, DirectiveElse, DirectiveEndif} \<Longrightarrow> nest_of st ((k, None) # rows) = nest_of st rows"
  by simp_all

lemma nest_of_append: "nest_of st (xs @ ys) = Option.bind (nest_of st xs) (\<lambda>st'. nest_of st' ys)"
  by (induction st xs rule: nest_of.induct) auto

lemma nest_of_deeper: "nest_of st rows = Some st' \<Longrightarrow> nest_of (st @ outer) rows = Some (st' @ outer)"
proof (induction st rows rule: nest_of.induct)
  case (2 st k c rows)
  then show ?case by (cases st) (auto split: if_splits)
qed simp

lemma select_lines_total:
  "nest_of st (map snd lines) \<noteq> None \<Longrightarrow> length opened = length st \<Longrightarrow> \<exists>out. select_lines defines opened live lines = Some out"
proof (induction lines arbitrary: st opened live)
  case (Cons l lines)
  obtain line kind c where l: "l = (line, kind, c)" by (cases l)
  show ?case
  proof (cases kind)
    case DirectiveIf
    then show ?thesis using Cons.prems Cons.IH[of "False # st" "(live \<and> holds_under defines c, live) # opened"]
      by (auto simp: l Let_def split: if_splits)
  next
    case DirectiveElse
    then show ?thesis using Cons.prems Cons.IH[of "True # tl st"] by (cases opened; cases st) (auto simp: l Let_def split: if_splits)
  next
    case DirectiveEndif
    then show ?thesis using Cons.prems Cons.IH[of "tl st"] by (cases opened; cases st) (auto simp: l Let_def split: if_splits)
  qed (use Cons.prems Cons.IH[of st] in \<open>(cases opened; cases st; auto simp: l Let_def split: if_splits)+\<close>)
qed simp

definition scanned_as :: "string \<Rightarrow> scanned_line \<Rightarrow> bool" where
  "scanned_as line s \<longleftrightarrow> sc_kind s = di_kind (parseDirective line) \<and> (sc_kind s = DirectiveNone \<longrightarrow> \<not> di_sigil (parseDirective line))
     \<and> (sc_kind s \<noteq> DirectiveNone \<longrightarrow> sc_argument s = di_argument (parseDirective line))
     \<and> (sc_kind s \<notin> {DirectiveIf, DirectiveElif} \<longrightarrow> sc_condition s = None)"

definition scanned_row :: "scanned_line \<Rightarrow> row" where
  "scanned_row s = (sc_kind s, sc_condition s)"

definition opened_nest :: "(location \<times> location option) list \<Rightarrow> bool list" where
  "opened_nest opened = map (\<lambda>(ifAt, elseAt). elseAt \<noteq> None) opened"

lemma scan_line_spec:
  assumes "scan_line f here opened line = Inr (opened', s)"
  shows "scanned_as line s" "nest_of (opened_nest opened) (scanned_row s # rows) = nest_of (opened_nest opened') rows"
proof -
  show "scanned_as line s"
  proof (cases "di_sigil (parseDirective line)")
    case False
    then show ?thesis using assms no_sigil_kind[OF False] by (auto simp: scan_line_def scanned_as_def no_scan_def Let_def)
  next
    case True
    have "sc_kind s = di_kind (parseDirective line) \<and> sc_argument s = di_argument (parseDirective line) \<and> di_known (parseDirective line)
        \<and> (sc_kind s \<notin> {DirectiveIf, DirectiveElif} \<longrightarrow> sc_condition s = None)"
      using assms True by (cases "di_kind (parseDirective line)")
        (auto simp: scan_line_def Let_def refuse_def split: if_splits sum.splits list.splits option.splits)
    then show ?thesis using di_kind_none[OF True] unfolding scanned_as_def by metis
  qed
  show "nest_of (opened_nest opened) (scanned_row s # rows) = nest_of (opened_nest opened') rows" 
  proof (cases "di_sigil (parseDirective line)")
    case False
    then show ?thesis using assms by (auto simp: scan_line_def no_scan_def scanned_row_def nest_of_row Let_def simp del: nest_of.simps)
  next
    case True
    show ?thesis using assms True di_kind_none[OF True] by (cases "di_kind (parseDirective line)")
       (auto simp: scan_line_def scanned_row_def opened_nest_def nest_of_row Let_def refuse_def simp del: nest_of.simps
         split: if_splits sum.splits list.splits option.splits)
  qed
qed

lemma scan_lines_spec:
  "scan_lines f name count index opened lines = Inr scanned \<Longrightarrow>
     list_all2 scanned_as lines scanned \<and> nest_of (opened_nest opened) (map scanned_row scanned) = Some []"
proof (induction lines arbitrary: index opened scanned)
  case Nil
  then show ?case by (auto simp: refuse_def opened_nest_def split: list.splits)
next
  case (Cons line lines)
  obtain opened' s rest where s: "scan_line f \<lparr>lo_source = name, lo_line = index + 1\<rparr> opened line = Inr (opened', s)"
    "scan_lines f name count (index + 1) opened' lines = Inr rest" "scanned = s # rest"
    using Cons.prems by (auto split: sum.splits)
  show ?case using scan_line_spec[OF s(1)] Cons.IH[OF s(2)] by (simp add: s(3) del: nest_of.simps)
qed

lemma scan_lines_error: "scan_lines f name count index opened lines = Inl e \<Longrightarrow> es_message e \<noteq> FlattenFuel"
proof (induction lines arbitrary: index opened)
  case Nil
  then show ?case by (auto simp: refuse_def opened_nest_def split: list.splits)
next
  case (Cons line lines)
  have "es_message e' \<noteq> FlattenFuel" if "scan_line f here opened line = Inl e'" for e' here
    using that by (auto simp: scan_line_def Let_def refuse_def split: if_splits sum.splits list.splits option.splits)
  then show ?case using Cons.prems Cons.IH by (auto split: sum.splits)
qed

section \<open>Hoisting\<close>

text \<open>
  A source apart from itself: no WGSL directive of its prologue that would be hoisted runs over a line with a directive's sigil.  The
  prologue is walked as \<open>hoistPrologue\<close> walks it.
\<close>

function apart_from :: "string list \<Rightarrow> nat \<Rightarrow> bool" where
  "apart_from lines index =
     (if index \<ge> length lines then True
      else if TrimSpace (lines ! index) = [] \<or> di_kind (parseDirective (lines ! index)) \<noteq> DirectiveNone then apart_from lines (index + 1)
      else case splitLeadingWord (lines ! index) of (keyword, rest) \<Rightarrow>
        if keyword \<notin> set hoistedKeywords then True
        else case readToSemicolon [] rest (drop (index + 1) lines) index of
               None \<Rightarrow> True
             | Some (_, end_line) \<Rightarrow>
                 list_all (\<lambda>i. \<not> di_sigil (parseDirective (lines ! i))) [index..<end_line + 1] \<and> apart_from lines (end_line + 1))"
  by pat_completeness auto
termination
proof (relation "measure (\<lambda>(lines, index). length lines - index)")
qed (auto dest!: readToSemicolon_end)

declare apart_from.simps [simp del]

definition hoists_apart :: "string list \<Rightarrow> bool" where
  "hoists_apart lines = apart_from lines 0"

definition hoists_clean :: "flattener \<Rightarrow> bool" where
  "hoists_clean f \<longleftrightarrow> (\<forall>name \<in> set (fl_enables f) \<union> set (fl_requires f). newline \<notin> set name)
     \<and> (\<forall>(rule, kept, here) \<in> set (fl_diagnostics f). newline \<notin> set kept \<and> HasPrefix kept ''diagnostic'')"

definition same_but_hoists :: "flattener \<Rightarrow> flattener \<Rightarrow> bool" where
  "same_but_hoists f f' \<longleftrightarrow> f' = f\<lparr>fl_enables := fl_enables f', fl_requires := fl_requires f', fl_diagnostics := fl_diagnostics f'\<rparr>"

lemma same_but_hoists_trans: "same_but_hoists f f1 \<Longrightarrow> same_but_hoists f1 f2 \<Longrightarrow> same_but_hoists f f2"
  by (cases f; cases f1; cases f2) (simp add: same_but_hoists_def)

lemma same_but_hoists_refl [simp]: "same_but_hoists f f"
  by (simp add: same_but_hoists_def)

lemma same_but_hoists_keeps:
  "same_but_hoists f f' \<Longrightarrow> fl_lines f' = fl_lines f \<and> fl_conditionals f' = fl_conditionals f \<and> fl_included f' = fl_included f
     \<and> fl_stack f' = fl_stack f \<and> fl_chain f' = fl_chain f \<and> fl_givenValues f' = fl_givenValues f \<and> fl_label f' = fl_label f"
  by (cases f; cases f') (simp add: same_but_hoists_def)

lemma readToSemicolon_set:
  "readToSemicolon read rest later index = Some (body, end_line) \<Longrightarrow> newline \<notin> set read \<Longrightarrow> newline \<notin> set rest
     \<Longrightarrow> \<forall>line \<in> set later. newline \<notin> set line \<Longrightarrow> newline \<notin> set body"
proof (induction read rest later index rule: readToSemicolon.induct)
  case (1 read rest later index)
  show ?case
  proof (cases "CHR '';'' \<in> set rest")
    case True
    then have "body = TrimSpace (read @ takeWhile (\<lambda>c. c \<noteq> CHR '';'') rest)"
      using 1(2) by (auto simp: readToSemicolon.simps[of read rest] split: if_splits)
    then show ?thesis using TrimSpace_set[of "read @ takeWhile (\<lambda>c. c \<noteq> CHR '';'') rest"] 1(3,4) by (auto dest: set_takeWhileD)
  next
    case False
    then obtain line lines where l: "later = line # lines" "readToSemicolon (read @ rest @ '' '') line lines (index + 1) = Some (body, end_line)"
      using 1(2) by (auto simp: readToSemicolon.simps[of read rest] split: list.splits)
    show ?thesis by (rule 1(1)[OF False l]) (use 1 l in auto)
  qed
qed

lemma fields_from_set: "x \<in> set (fields_from run s) \<Longrightarrow> set x \<subseteq> set run \<union> set s"
proof (induction run s rule: fields_from.induct)
  case (1 run s)
  show ?case
  proof (cases s)
    case Nil
    then show ?thesis using 1(3) by (auto simp: fields_from.simps[of run] split: if_splits)
  next
    case (Cons c rest)
    show ?thesis
    proof (cases "find (\<lambda>e. e \<noteq> [] \<and> HasPrefix s e) space_codes")
      case None
      then have "x \<in> set (fields_from (run @ [c]) rest)" using 1(3) Cons by (subst (asm) fields_from.simps) simp
      then show ?thesis using 1(1)[OF Cons None] Cons by auto
    next
      case (Some e)
      then have "x = run \<or> x \<in> set (fields_from [] (drop (length e) s))" using 1(3) Cons by (subst (asm) fields_from.simps) (auto split: if_splits)
      then show ?thesis using 1(2)[OF Cons Some] set_drop_subset[of "length e" s] by auto
    qed
  qed
qed

lemma join_with_set: "set (join_with sep ss) \<subseteq> set sep \<union> \<Union> (set ` set ss)"
  by (auto simp: join_with_def split: list.splits)

lemma fold_add_name: "set (fold add_name items names) \<subseteq> set items \<union> set names"
proof (induction items arbitrary: names)
  case (Cons item items)
  have "set (add_name item names) \<subseteq> insert item (set names)" by (auto simp: add_name_def)
  then show ?case using Cons[of "add_name item names"] by auto
qed simp

lemma names_clean:
  assumes "newline \<notin> set body" "\<forall>name \<in> set names. newline \<notin> set name"
    "name \<in> set (fold add_name (map TrimSpace (split_at (CHR '','') body)) names)"
  shows "newline \<notin> set name"
proof -
  have "name \<in> set names \<or> (\<exists>part \<in> set (split_at (CHR '','') body). name = TrimSpace part)" using assms(3) fold_add_name by fastforce
  then show ?thesis using assms(1,2) TrimSpace_set split_at_apart by blast
qed

lemma collectHoisted_keeps: "collectHoisted keyword body here f = Inr f' \<Longrightarrow> same_but_hoists f f'"
  by (cases f) (auto simp: collectHoisted_def same_but_hoists_def Let_def refuse_def split: if_splits option.splits)

lemma collectHoisted_clean:
  assumes "collectHoisted keyword body here f = Inr f'" and f: "hoists_clean f" and body: "newline \<notin> set body"
  shows "hoists_clean f'"
proof -
  define kept where "kept = ''diagnostic'' @ join_with '' '' (fields_from [] body) @ '';''"
  have "newline \<notin> set kept"
    using join_with_set[of "'' ''" "fields_from [] body"] fields_from_set[of _ "[]" body] body by (auto simp: kept_def)
  moreover have "HasPrefix kept ''diagnostic''" by (simp add: HasPrefix_def kept_def)
  ultimately have "hoists_clean (f\<lparr>fl_diagnostics := fl_diagnostics f @ [(rule, kept, here)]\<rparr>)" for rule
    using f by (auto simp: hoists_clean_def)
  moreover have "hoists_clean (f\<lparr>fl_enables := fold add_name (map TrimSpace (split_at (CHR '','') body)) (fl_enables f)\<rparr>)"
    using f names_clean[OF body, of "fl_enables f"] by (simp add: hoists_clean_def) blast
  moreover have "hoists_clean (f\<lparr>fl_requires := fold add_name (map TrimSpace (split_at (CHR '','') body)) (fl_requires f)\<rparr>)"
    using f names_clean[OF body, of "fl_requires f"] by (simp add: hoists_clean_def) blast
  ultimately show ?thesis using assms(1) f unfolding collectHoisted_def kept_def[symmetric] Let_def refuse_def
    by (auto split: if_splits option.splits prod.splits)
qed

lemma splitLeadingWord_set: "set (snd (splitLeadingWord line)) \<subseteq> set line"
  by (auto simp: splitLeadingWord_def skipSpace_def dest!: set_dropWhileD)

lemma collectHoisted_error: "collectHoisted keyword body here f = Inl e \<Longrightarrow> es_message e \<noteq> FlattenFuel"
  by (auto simp: collectHoisted_def Let_def refuse_def split: if_splits option.splits)

lemma apart_from_skip:
  "apart_from lines index \<Longrightarrow> index < length lines \<Longrightarrow> TrimSpace (lines ! index) = [] \<or> di_kind (parseDirective (lines ! index)) \<noteq> DirectiveNone
    \<Longrightarrow> apart_from lines (index + 1)"
  by (subst (asm) apart_from.simps) auto

lemma apart_from_hoisted:
  assumes "apart_from lines index" "index < length lines"
    "\<not> (TrimSpace (lines ! index) = [] \<or> di_kind (parseDirective (lines ! index)) \<noteq> DirectiveNone)"
    "splitLeadingWord (lines ! index) = (keyword, rest)" "keyword \<in> set hoistedKeywords"
    "readToSemicolon [] rest (drop (index + 1) lines) index = Some (body, end_line)"
  shows "(\<forall>i \<in> set [index..<end_line + 1]. \<not> di_sigil (parseDirective (lines ! i))) \<and> apart_from lines (end_line + 1)"
proof -
  have "list_all (\<lambda>i. \<not> di_sigil (parseDirective (lines ! i))) [index..<end_line + 1] \<and> apart_from lines (end_line + 1)"
    using assms(1) unfolding apart_from.simps[of lines index] assms(4,6) prod.case option.case using assms(2,3,5) by simp
  then show ?thesis unfolding list_all_iff .
qed

lemma hoistPrologue_spec:
  "hoistPrologue name lines scanned index hoisted f = Inr (hoisted', f') \<Longrightarrow> \<forall>line \<in> set lines. newline \<notin> set line \<Longrightarrow>
     same_but_hoists f f' \<and> (hoists_clean f \<longrightarrow> hoists_clean f')
     \<and> (apart_from lines index \<and> (\<forall>i < length lines. sc_kind (scanned ! i) = di_kind (parseDirective (lines ! i))) \<longrightarrow> (\<forall>i \<in> set hoisted'. i \<in> set hoisted \<or> \<not> di_sigil (parseDirective (lines ! i))))"
proof (induction name lines scanned index hoisted f rule: hoistPrologue.induct)
  case (1 name lines scanned index hoisted f)
  obtain keyword rest where split: "splitLeadingWord (lines ! index) = (keyword, rest)" by fastforce
  consider (past) "index \<ge> length lines" | (skip) "\<not> index \<ge> length lines" "TrimSpace (lines ! index) = [] \<or> sc_kind (scanned ! index) \<noteq> DirectiveNone"
    | (wgsl) "\<not> index \<ge> length lines" "\<not> (TrimSpace (lines ! index) = [] \<or> sc_kind (scanned ! index) \<noteq> DirectiveNone)"
    by blast
  then show ?case
  proof cases
    case past
    then show ?thesis using 1(3) by (simp add: hoistPrologue.simps[of name lines scanned index])
  next
    case skip
    have "same_but_hoists f f' \<and> (hoists_clean f \<longrightarrow> hoists_clean f')
      \<and> (apart_from lines (index + 1) \<and> (\<forall>i < length lines. sc_kind (scanned ! i) = di_kind (parseDirective (lines ! i)))
          \<longrightarrow> (\<forall>i \<in> set hoisted'. i \<in> set hoisted \<or> \<not> di_sigil (parseDirective (lines ! i))))"
      using 1(1)[OF skip] 1(3,4) skip by (simp add: hoistPrologue.simps[of name lines scanned index])
    then show ?thesis using apart_from_skip[of lines index] skip by auto
  next
    case wgsl
    show ?thesis
    proof (cases "hoisted' = hoisted \<and> f' = f")
      case False
      then obtain body end_line f1 where k: "keyword \<in> set hoistedKeywords"
        and r: "readToSemicolon [] rest (drop (index + 1) lines) index = Some (body, end_line)"
        and c: "collectHoisted keyword body \<lparr>lo_source = name, lo_line = index + 1\<rparr> f = Inr f1"
        and go: "hoistPrologue name lines scanned (end_line + 1) (hoisted @ [index..<end_line + 1]) f1 = Inr (hoisted', f')"
        using 1(3) wgsl by (subst (asm) hoistPrologue.simps) (auto simp: split split: if_splits option.splits sum.splits)
      have "newline \<notin> set rest" using splitLeadingWord_set[of "lines ! index"] split 1(4) wgsl(1) by fastforce
      then have "newline \<notin> set body" using readToSemicolon_set[OF r] 1(4) by (auto dest: in_set_dropD)
      then have clean: "hoists_clean f \<longrightarrow> hoists_clean f1" using collectHoisted_clean[OF c] by blast
      have ih: "same_but_hoists f1 f' \<and> (hoists_clean f1 \<longrightarrow> hoists_clean f')
        \<and> (apart_from lines (end_line + 1) \<and> (\<forall>i < length lines. sc_kind (scanned ! i) = di_kind (parseDirective (lines ! i)))
            \<longrightarrow> (\<forall>i \<in> set hoisted'. i \<in> set (hoisted @ [index..<end_line + 1]) \<or> \<not> di_sigil (parseDirective (lines ! i))))"
        using 1(2)[OF wgsl split[symmetric] _ r refl c go 1(4)] k by simp
      have "i \<in> set hoisted \<or> \<not> di_sigil (parseDirective (lines ! i))"
        if a: "apart_from lines index" and kinds: "\<forall>i < length lines. sc_kind (scanned ! i) = di_kind (parseDirective (lines ! i))" and i: "i \<in> set hoisted'" for i
      proof -
        have w: "\<not> (TrimSpace (lines ! index) = [] \<or> di_kind (parseDirective (lines ! index)) \<noteq> DirectiveNone)"
          using wgsl kinds by simp
        have "index < length lines" using wgsl(1) by simp
        note h = apart_from_hoisted[OF a this w split k r]
        then have "i \<in> set (hoisted @ [index..<end_line + 1]) \<or> \<not> di_sigil (parseDirective (lines ! i))" using ih kinds i by blast
        then show ?thesis using conjunct1[OF h] unfolding set_append by blast
      qed
      then show ?thesis using ih same_but_hoists_trans[OF collectHoisted_keeps[OF c]] clean by blast
    qed simp
  qed
qed

lemma hoistPrologue_error: "hoistPrologue name lines scanned index hoisted f = Inl e \<Longrightarrow> es_message e \<noteq> FlattenFuel"
proof (induction name lines scanned index hoisted f rule: hoistPrologue.induct)
  case (1 name lines scanned index hoisted f)
  show ?case using 1(3) by (subst (asm) hoistPrologue.simps)
     (auto split: if_splits option.splits sum.splits prod.splits dest: collectHoisted_error 1(1) 1(2))
qed

section \<open>Splicing\<close>

text \<open>
  What emitting does to the flattener: \<open>count\<close> lines of its own are added with those of the sources it includes, each new and
  each once, and every line added is free of directives.
\<close>

definition source_lines :: "(string \<Rightarrow> string option) \<Rightarrow> string \<Rightarrow> string list" where
  "source_lines files name = blankComments (the (files name))"

definition all_apart :: "(string \<Rightarrow> string option) \<Rightarrow> bool" where
  "all_apart files \<longleftrightarrow> (\<forall>name \<in> dom files. hoists_apart (source_lines files name))"

definition given_clean :: "flattener \<Rightarrow> bool" where
  "given_clean f \<longleftrightarrow> (\<forall>(name, val) \<in> set (fl_givenValues f). newline \<notin> set val)"

definition segment ::
  "(string \<Rightarrow> string option) \<Rightarrow> nat \<Rightarrow> row list \<Rightarrow> flattener \<Rightarrow> flattener \<Rightarrow> string list \<Rightarrow> row list \<Rightarrow> string list \<Rightarrow> bool" where
  "segment files count rows f f' ls cs names \<longleftrightarrow>
     fl_lines f' = fl_lines f @ ls \<and> fl_conditionals f' = fl_conditionals f @ cs \<and> fl_included f' = fl_included f @ names
     \<and> length cs = length ls \<and> list_all clean_line ls \<and> length ls = count + (\<Sum>name\<leftarrow>names. length (source_lines files name))
     \<and> distinct names \<and> set names \<inter> set (fl_included f) = {} \<and> set names \<subseteq> dom files
     \<and> list_all (\<lambda>c. fst c \<notin> {DirectiveInclude, DirectiveDefine, DirectiveConst}) cs
     \<and> (all_apart files \<longrightarrow> (\<forall>st st'. nest_of st rows = Some st' \<longrightarrow> nest_of st cs = Some st'))"

definition fl_keeps :: "flattener \<Rightarrow> flattener \<Rightarrow> bool" where
  "fl_keeps f f' \<longleftrightarrow> fl_givenValues f' = fl_givenValues f \<and> fl_label f' = fl_label f \<and> fl_stack f' = fl_stack f \<and> fl_chain f' = fl_chain f
     \<and> (hoists_clean f \<longrightarrow> hoists_clean f')"

definition spliced :: "(string \<Rightarrow> string option) \<Rightarrow> nat \<Rightarrow> row list \<Rightarrow> flattener \<Rightarrow> flattener \<Rightarrow> bool" where
  "spliced files count rows f f' \<longleftrightarrow> fl_keeps f f' \<and> (\<exists>ls cs names. segment files count rows f f' ls cs names)"

lemma spliced_refl: "spliced files 0 [] f f"
  by (simp add: spliced_def segment_def fl_keeps_def)

lemma segment_trans:
  assumes "segment files c1 k1 f f1 l1 g1 n1" "segment files c2 k2 f1 f2 l2 g2 n2"
  shows "segment files (c1 + c2) (k1 @ k2) f f2 (l1 @ l2) (g1 @ g2) (n1 @ n2)"
proof -
  have "all_apart files \<longrightarrow> (\<forall>st st'. nest_of st (k1 @ k2) = Some st' \<longrightarrow> nest_of st (g1 @ g2) = Some st')"
    using assms unfolding segment_def by (auto simp: nest_of_append bind_eq_Some_conv)
  moreover have "set (n1 @ n2) \<inter> set (fl_included f) = {}" "distinct (n1 @ n2)"
    using assms unfolding segment_def by auto
  ultimately show ?thesis using assms unfolding segment_def by simp
qed

lemma fl_keeps_trans: "fl_keeps f f1 \<Longrightarrow> fl_keeps f1 f2 \<Longrightarrow> fl_keeps f f2"
  unfolding fl_keeps_def by argo

lemma spliced_trans: "spliced files c1 k1 f f1 \<Longrightarrow> spliced files c2 k2 f1 f2 \<Longrightarrow> spliced files (c1 + c2) (k1 @ k2) f f2"
  unfolding spliced_def by (blast intro: segment_trans fl_keeps_trans)

lemma hoists_clean_append: "hoists_clean (appendLine line conditional f) = hoists_clean f"
  by (simp add: hoists_clean_def appendLine_def)

lemma spliced_append:
  assumes "clean_line line" "kind \<notin> {DirectiveInclude, DirectiveDefine, DirectiveConst}" "fl_keeps f f1" "fl_lines f1 = fl_lines f" "fl_conditionals f1 = fl_conditionals f" "fl_included f1 = fl_included f"
  shows "spliced files 1 [(kind, c)] f (appendLine line (kind, c) f1)"
proof -
  have "segment files 1 [(kind, c)] f (appendLine line (kind, c) f1) [line] [(kind, c)] []" using assms by (simp add: segment_def appendLine_def del: nest_of.simps)
  moreover have "fl_keeps f1 (appendLine line (kind, c) f1)" by (simp add: fl_keeps_def hoists_clean_append) (simp add: appendLine_def)
  then have "fl_keeps f (appendLine line (kind, c) f1)" by (rule fl_keeps_trans[OF assms(3)])
  ultimately show ?thesis unfolding spliced_def by blast
qed

lemma declareDefine_keeps:
  "declareDefine argument here f = Inr f1 \<Longrightarrow>
     fl_keeps f f1 \<and> fl_lines f1 = fl_lines f \<and> fl_conditionals f1 = fl_conditionals f \<and> fl_included f1 = fl_included f"
  by (auto simp: declareDefine_def refuse_def fl_keeps_def hoists_clean_def split: if_splits option.splits)

lemma set_tl_subset: "set (tl xs) \<subseteq> set xs"
  by (cases xs) auto

lemma declareConst_keeps:
  assumes "declareConst line argument here f = Inr (declared, f1)" "newline \<notin> set line" "newline \<notin> set argument" "given_clean f"
  shows "fl_keeps f f1 \<and> fl_lines f1 = fl_lines f \<and> fl_conditionals f1 = fl_conditionals f \<and> fl_included f1 = fl_included f" "clean_line declared"
proof -
  define name where "name = TrimSpace (takeWhile (\<lambda>c. c \<noteq> CHR ''='') argument)"
  define val where "val = TrimSpace (tl (dropWhile (\<lambda>c. c \<noteq> CHR ''='') argument))"
  define given where "given = (case map_of (fl_givenValues f) name of None \<Rightarrow> val | Some v \<Rightarrow> v)"
  have r: "declared = takeWhile isBlank line @ ''const '' @ name @ '' = '' @ given @ '';''" "f1 = f\<lparr>fl_consts := fl_consts f @ [(name, here)]\<rparr>"
    using assms(1) unfolding declareConst_def name_def[symmetric] val_def[symmetric] Let_def given_def
    by (auto simp: refuse_def split: if_splits option.splits)
  show "fl_keeps f f1 \<and> fl_lines f1 = fl_lines f \<and> fl_conditionals f1 = fl_conditionals f \<and> fl_included f1 = fl_included f"
    by (simp add: r(2) fl_keeps_def hoists_clean_def)
  have "newline \<notin> set name" using assms(3) TrimSpace_set[of "takeWhile (\<lambda>c. c \<noteq> CHR ''='') argument"] by (auto simp: name_def dest: set_takeWhileD)
  moreover have "set (tl (dropWhile (\<lambda>c. c \<noteq> CHR ''='') argument)) \<subseteq> set argument"
    using set_tl_subset[of "dropWhile (\<lambda>c. c \<noteq> CHR ''='') argument"] by (auto dest: set_dropWhileD)
  then have "newline \<notin> set val" using assms(3) TrimSpace_set[of "tl (dropWhile (\<lambda>c. c \<noteq> CHR ''='') argument)"] by (auto simp: val_def)
  ultimately have "newline \<notin> set (name @ '' = '' @ given @ '';'')" using assms(4) by (auto simp: given_def given_clean_def split: option.splits dest: map_of_SomeD)
  then show "clean_line declared" unfolding r(1) by (rule clean_declared[OF assms(2)])
qed

lemma same_but_hoists_spliced:
  assumes "same_but_hoists f f1" "hoists_clean f \<longrightarrow> hoists_clean f1"
  shows "spliced files 0 [] f f1"
proof -
  have "segment files 0 [] f f1 [] [] []" "fl_keeps f f1" using same_but_hoists_keeps[OF assms(1)] assms(2) by (simp_all add: segment_def fl_keeps_def)
  then show ?thesis unfolding spliced_def by blast
qed

definition include_splices :: "(string \<Rightarrow> string option) \<Rightarrow> (string \<Rightarrow> location \<Rightarrow> flattener \<Rightarrow> err_source + flattener) \<Rightarrow> bool" where
  "include_splices files inc \<longleftrightarrow> (\<forall>argument here f f'. given_clean f \<longrightarrow> inc argument here f = Inr f' \<longrightarrow> spliced files 0 [] f f')"

lemma parseDirective_argument: "set (di_argument (parseDirective line)) \<subseteq> set line"
proof -
  have "set (di_argument (read_directive r)) \<subseteq> set r" for r
    using TrimSpace_set[of "dropWhile isKeywordByte r"] by (auto simp: read_directive_def Let_def dest: set_dropWhileD)
  moreover have "set (drop n (skipSpace line)) \<subseteq> set line" for n
    using set_drop_subset[of n "skipSpace line"] by (auto simp: skipSpace_def dest: set_dropWhileD)
  ultimately show ?thesis by (auto simp: parseDirective_def Let_def no_directive_def dest!: subsetD)
qed

lemma spliced_kinds:
  assumes "spliced files count k1 f f'" and "\<And>d. all_apart files \<Longrightarrow> nest_of d k2 = nest_of d k1"
  shows "spliced files count k2 f f'"
proof -
  obtain ls cs names where "segment files count k1 f f' ls cs names" using assms(1) unfolding spliced_def by blast
  then have "segment files count k2 f f' ls cs names" using assms(2) unfolding segment_def by simp
  then show ?thesis using assms(1) unfolding spliced_def by blast
qed

lemma emit_line_spliced:
  assumes inc: "include_splices files inc" and given: "given_clean f" and line: "newline \<notin> set line" "scanned_as line s"
    and emit: "emit_line inc name hoisted index line s f = Inr f'"
    and apart: "all_apart files \<Longrightarrow> index \<in> set hoisted \<Longrightarrow> \<not> di_sigil (parseDirective line)"
  shows "spliced files 1 [scanned_row s] f f'"
proof -
  have own: "spliced files 1 [(kind, c)] f (appendLine line' (kind, c) f)" 
    if "clean_line line'" "kind \<notin> {DirectiveInclude, DirectiveDefine, DirectiveConst}" for kind c line'
    by (rule spliced_append) (use that in \<open>simp_all add: fl_keeps_def\<close>)
  have blank: "spliced files 1 [(kind, c)] f (appendLine (blankLine line) (kind, c) f)"
    if "kind \<notin> {DirectiveInclude, DirectiveDefine, DirectiveConst}" for kind c by (rule own) (use that in simp_all)
  show ?thesis
  proof (cases "index \<in> set hoisted")
    case True
    then have "spliced files 1 [(DirectiveNone, None)] f f'" using emit blank[of DirectiveNone None] by (auto simp: emit_line_def)
    moreover have "scanned_row s = (DirectiveNone, None)" if "all_apart files"
      using apart[OF that True] line(2) no_sigil_kind by (simp add: scanned_as_def scanned_row_def)
    ultimately show ?thesis using spliced_kinds[of files 1 "[(DirectiveNone, None)]" f f' "[scanned_row s]"] by simp
  next
    case False
    show ?thesis
    proof (cases "sc_kind s")
      case DirectiveNone
      then have "clean_line line" using line by (simp add: clean_line_def scanned_as_def)
      moreover have "scanned_row s = (DirectiveNone, None)" using line(2) DirectiveNone by (simp add: scanned_as_def scanned_row_def)
      ultimately show ?thesis using emit False DirectiveNone own[of line DirectiveNone None] by (simp add: emit_line_def)
    next
      case DirectiveInclude
      then have "inc (sc_argument s) \<lparr>lo_source = name, lo_line = index + 1\<rparr> (appendLine (blankLine line) (DirectiveNone, None) f) = Inr f'"
        using emit False by (simp add: emit_line_def)
      moreover have "given_clean (appendLine (blankLine line) (DirectiveNone, None) f)" using given by (simp add: given_clean_def appendLine_def)
      ultimately have "spliced files 0 [] (appendLine (blankLine line) (DirectiveNone, None) f) f'" using inc unfolding include_splices_def by blast
      from spliced_trans[OF blank this] have "spliced files 1 [(DirectiveNone, None)] f f'" by simp
      then show ?thesis by (rule spliced_kinds) (use line(2) DirectiveInclude in \<open>simp add: scanned_row_def scanned_as_def\<close>)
    next
      case DirectiveDefine
      then obtain f1 where "declareDefine (sc_argument s) \<lparr>lo_source = name, lo_line = index + 1\<rparr> f = Inr f1"
        "f' = appendLine (blankLine line) (DirectiveNone, None) f1"
        using emit False by (auto simp: emit_line_def split: sum.splits)
      then have "spliced files 1 [(DirectiveNone, None)] f f'" using declareDefine_keeps spliced_append[OF clean_blankLine] by blast
      then show ?thesis by (rule spliced_kinds) (use line(2) DirectiveDefine in \<open>simp add: scanned_row_def scanned_as_def\<close>)
    next
      case DirectiveConst
      then obtain f1 declared where c: "declareConst line (sc_argument s) \<lparr>lo_source = name, lo_line = index + 1\<rparr> f = Inr (declared, f1)"
        "f' = appendLine declared (DirectiveNone, None) f1"
        using emit False by (auto simp: emit_line_def split: sum.splits)
      have "newline \<notin> set (sc_argument s)" using line DirectiveConst parseDirective_argument[of line] by (auto simp: scanned_as_def)
      then have "spliced files 1 [(DirectiveNone, None)] f f'"
        using declareConst_keeps[OF c(1) line(1) _ given] spliced_append c(2) by blast
      then show ?thesis by (rule spliced_kinds) (use line(2) DirectiveConst in \<open>simp add: scanned_row_def scanned_as_def\<close>)
    qed (use emit False blank[of "sc_kind s" "sc_condition s"] in \<open>simp_all add: emit_line_def scanned_row_def Let_def\<close>)
  qed
qed

lemma emit_lines_spliced:
  assumes inc: "include_splices files inc"
  shows "emit_lines inc name hoisted index ls f = Inr f' \<Longrightarrow> given_clean f \<Longrightarrow> \<forall>(line, s) \<in> set ls. newline \<notin> set line \<and> scanned_as line s
    \<Longrightarrow> (all_apart files \<Longrightarrow> \<forall>i < length ls. index + i \<in> set hoisted \<longrightarrow> \<not> di_sigil (parseDirective (fst (ls ! i))))
    \<Longrightarrow> spliced files (length ls) (map (\<lambda>l. scanned_row (snd l)) ls) f f'"
proof (induction ls arbitrary: index f)
  case Nil
  then show ?case by (simp add: spliced_refl)
next
  case (Cons l ls)
  obtain line s where l: "l = (line, s)" by fastforce
  obtain f1 where f1: "emit_line inc name hoisted index line s f = Inr f1" "emit_lines inc name hoisted (index + 1) ls f1 = Inr f'"
    using Cons.prems(1) by (auto simp: l split: sum.splits)
  have one: "spliced files 1 [scanned_row s] f f1"
    by (rule emit_line_spliced[OF inc _ _ _ f1(1)]) (use Cons.prems in \<open>force simp: l\<close>)+
  then have "given_clean f1" using Cons.prems(2) by (simp add: spliced_def fl_keeps_def given_clean_def)
  then have "spliced files (length ls) (map (\<lambda>l. scanned_row (snd l)) ls) f1 f'"
    by (rule Cons.IH[OF f1(2)]) (use Cons.prems(3,4) in force)+
  from spliced_trans[OF one this] show ?case by (simp add: l)
qed

lemma scanSource_scanned:
  assumes "scanSource f name lines = Inr scanned"
  shows "list_all2 scanned_as lines scanned" "nest_of st (map scanned_row scanned) = Some st"
proof -
  show "list_all2 scanned_as lines scanned" using scan_lines_spec assms unfolding scanSource_def by fastforce
  have "nest_of [] (map scanned_row scanned) = Some []" using scan_lines_spec[of f name "length lines" 0 "[]" lines scanned] assms by (simp add: scanSource_def opened_nest_def)
  from nest_of_deeper[OF this, of st] show "nest_of st (map scanned_row scanned) = Some st" by simp
qed

lemma hoists_clean_updates [simp]:
  "hoists_clean (f\<lparr>fl_chain := chain\<rparr>) = hoists_clean f" "hoists_clean (f\<lparr>fl_stack := stack\<rparr>) = hoists_clean f"
  "hoists_clean (f\<lparr>fl_included := included\<rparr>) = hoists_clean f"
  by (simp_all add: hoists_clean_def)

lemma spliced_chain:
  assumes "spliced files count rows (f\<lparr>fl_chain := fl_chain f @ [here]\<rparr>) f1"
  shows "spliced files count rows f (f1\<lparr>fl_chain := butlast (fl_chain f1)\<rparr>)"
proof -
  obtain ls cs names where "segment files count rows (f\<lparr>fl_chain := fl_chain f @ [here]\<rparr>) f1 ls cs names"
    using assms unfolding spliced_def by blast
  then have "segment files count rows f (f1\<lparr>fl_chain := butlast (fl_chain f1)\<rparr>) ls cs names" by (simp add: segment_def)
  moreover have "fl_keeps f (f1\<lparr>fl_chain := butlast (fl_chain f1)\<rparr>)" using assms by (simp add: spliced_def fl_keeps_def)
  ultimately show ?thesis unfolding spliced_def by blast
qed

lemma include_source_cases:
  assumes "include_source files emit argument includer here f = Inr f'" "f' \<noteq> f"
  obtains name source f1 where "name \<notin> set (fl_included f)" "files name = Some source"
    "emit name source (f\<lparr>fl_chain := fl_chain f @ [here]\<rparr>) = Inr f1" "f' = f1\<lparr>fl_chain := butlast (fl_chain f1)\<rparr>"
  using assms by (auto simp: include_source_def refuse_def refuseWithChain_def split: if_splits sum.splits option.splits)

lemma include_source_spliced:
  assumes emit: "\<And>name source f f'. files name = Some source \<Longrightarrow> name \<notin> set (fl_included f) \<Longrightarrow> given_clean f
      \<Longrightarrow> emit name source f = Inr f' \<Longrightarrow> spliced files 0 [] f f'"
  shows "include_splices files (\<lambda>argument. include_source files emit argument includer)"
proof -
  have "spliced files 0 [] f f'" if given: "given_clean f" and inc: "include_source files emit argument includer here f = Inr f'" for argument here f f'
  proof (cases "f' = f")
    case True
    then show ?thesis by (simp add: spliced_refl)
  next
    case False
    from include_source_cases[OF inc False] obtain name source f1 where s: "name \<notin> set (fl_included f)" "files name = Some source"
      "emit name source (f\<lparr>fl_chain := fl_chain f @ [here]\<rparr>) = Inr f1" "f' = f1\<lparr>fl_chain := butlast (fl_chain f1)\<rparr>" by blast
    have "spliced files 0 [] (f\<lparr>fl_chain := fl_chain f @ [here]\<rparr>) f1"
      by (rule emit[OF s(2) _ _ s(3)]) (use s given in \<open>simp_all add: given_clean_def\<close>)
    then show ?thesis unfolding s(4) by (rule spliced_chain)
  qed
  then show ?thesis unfolding include_splices_def by blast
qed

lemma emitSource_spliced:
  "emitSource n files name source f = Inr f' \<Longrightarrow> files name = Some source \<Longrightarrow> name \<notin> set (fl_included f) \<Longrightarrow> given_clean f
     \<Longrightarrow> spliced files 0 [] f f'"
proof (induction n arbitrary: name source f f')
  case 0
  then show ?case by (simp add: refuse_def)
next
  case (Suc n)
  define f1 where "f1 = f\<lparr>fl_included := fl_included f @ [name], fl_stack := fl_stack f @ [name]\<rparr>"
  define lines where "lines = blankComments source"
  obtain scanned hoisted f2 f3 where scan: "scanSource f1 name lines = Inr scanned" and hoist: "hoistPrologue name lines scanned 0 [] f1 = Inr (hoisted, f2)"
    and emit: "emit_lines (\<lambda>argument here. include_source files (emitSource n files) argument name here) name hoisted 0 (zip lines scanned) f2 = Inr f3"
    and f': "f' = f3\<lparr>fl_stack := butlast (fl_stack f3)\<rparr>"
    using Suc.prems(1) by (auto simp: f1_def lines_def Let_def split: sum.splits)
  have nl: "\<forall>line \<in> set lines. newline \<notin> set line" using blankComments_set by (simp add: lines_def)
  note h = hoistPrologue_spec[OF hoist nl]
  note sc = scanSource_scanned[OF scan]
  have len: "length scanned = length lines" using sc(1) by (simp add: list_all2_lengthD)
  have own: "lines = source_lines files name" using Suc.prems(2) by (simp add: lines_def source_lines_def)
  have pre: "spliced files 0 [] f1 f2" by (rule same_but_hoists_spliced) (use h in blast)+
  then have g2: "given_clean f2" using Suc.prems(4) by (simp add: spliced_def fl_keeps_def given_clean_def f1_def)
  have incs: "include_splices files (\<lambda>argument here. include_source files (emitSource n files) argument name here)"
    by (rule include_source_spliced) (rule Suc.IH)
  have "spliced files (length (zip lines scanned)) (map (\<lambda>l. scanned_row (snd l)) (zip lines scanned)) f2 f3"
  proof (rule emit_lines_spliced[OF incs emit g2])
    show "\<forall>(line, s) \<in> set (zip lines scanned). newline \<notin> set line \<and> scanned_as line s"
      using nl sc(1) by (auto simp: list_all2_iff dest: set_zip_leftD)
    assume "all_apart files"
    then have "hoists_apart lines" using Suc.prems(2) by (auto simp: all_apart_def own)
    moreover have "\<forall>i < length lines. sc_kind (scanned ! i) = di_kind (parseDirective (lines ! i))"
      using sc(1) by (simp add: list_all2_conv_all_nth scanned_as_def)
    ultimately show "\<forall>i < length (zip lines scanned). 0 + i \<in> set hoisted \<longrightarrow> \<not> di_sigil (parseDirective (fst (zip lines scanned ! i)))"
      using h by (auto simp: len hoists_apart_def)
  qed
  then have "spliced files (length lines) (map scanned_row scanned) f2 f3"
    by (simp add: len map_snd_zip flip: map_map[of scanned_row snd, unfolded comp_def])
  from spliced_trans[OF pre this] have all: "spliced files (length lines) (map scanned_row scanned) f1 f3" by simp
  then obtain ls cs names where seg: "segment files (length lines) (map scanned_row scanned) f1 f3 ls cs names" unfolding spliced_def by blast
  have "segment files 0 [] f f' ls cs (name # names)"
    using seg Suc.prems(2,3) unfolding segment_def f' f1_def own[symmetric] by (simp add: own sc(2) domIff)
  moreover have "fl_keeps f f'" using all by (simp add: spliced_def fl_keeps_def f' f1_def)
  ultimately show ?case unfolding spliced_def by blast
qed

section \<open>Fuel\<close>

text \<open>Sources are only ever added to those spliced, so an include inside an include has fewer left to open.\<close>

definition grows :: "(string \<Rightarrow> location \<Rightarrow> flattener \<Rightarrow> err_source + flattener) \<Rightarrow> bool" where
  "grows inc \<longleftrightarrow> (\<forall>argument here f f'. inc argument here f = Inr f' \<longrightarrow> set (fl_included f) \<subseteq> set (fl_included f'))"

lemma growsD: "grows inc \<Longrightarrow> inc argument here f = Inr f' \<Longrightarrow> set (fl_included f) \<subseteq> set (fl_included f')"
  unfolding grows_def by blast

lemma appendLine_included [simp]: "fl_included (appendLine line c f) = fl_included f"
  by (simp add: appendLine_def)

lemma declareConst_included: "declareConst line argument here f = Inr (declared, f1) \<Longrightarrow> fl_included f1 = fl_included f"
  by (auto simp: declareConst_def refuse_def Let_def split: if_splits option.splits)

lemma emit_line_grows:
  assumes "grows inc" "emit_line inc name hoisted index line s f = Inr f'"
  shows "set (fl_included f) \<subseteq> set (fl_included f')"
proof (cases "sc_kind s = DirectiveInclude \<and> index \<notin> set hoisted")
  case True
  then show ?thesis using assms(2) growsD[OF assms(1)] by (fastforce simp: emit_line_def)
next
  case False
  then show ?thesis using assms(2)
    by (auto simp: emit_line_def Let_def dest!: declareConst_included declareDefine_keeps split: if_splits directive_kind.splits sum.splits)
qed

lemma emit_lines_grows: "grows inc \<Longrightarrow> emit_lines inc name hoisted index ls f = Inr f' \<Longrightarrow> set (fl_included f) \<subseteq> set (fl_included f')"
proof (induction ls arbitrary: index f)
  case (Cons l ls)
  then show ?case using emit_line_grows[OF Cons.prems(1)] by (cases l) (fastforce split: sum.splits)
qed simp

lemma include_source_grows:
  assumes "\<And>name source f f'. emit name source f = Inr f' \<Longrightarrow> set (fl_included f) \<subseteq> set (fl_included f')"
  shows "grows (\<lambda>argument. include_source files emit argument includer)"
proof -
  have "set (fl_included f) \<subseteq> set (fl_included f')" if inc: "include_source files emit argument includer here f = Inr f'" for argument here f f'
  proof (cases "f' = f")
    case False
    from include_source_cases[OF inc False] obtain name source f1 where
      "emit name source (f\<lparr>fl_chain := fl_chain f @ [here]\<rparr>) = Inr f1" "f' = f1\<lparr>fl_chain := butlast (fl_chain f1)\<rparr>" by metis
    then show ?thesis using assms by fastforce
  qed simp
  then show ?thesis unfolding grows_def by blast
qed

lemma hoistPrologue_included: "hoistPrologue name (blankComments source) scanned index hoisted f = Inr (hoisted', f') \<Longrightarrow> fl_included f' = fl_included f"
  using hoistPrologue_spec[of name "blankComments source"] blankComments_set same_but_hoists_keeps by blast

lemma emitSource_grows: "emitSource n files name source f = Inr f' \<Longrightarrow> insert name (set (fl_included f)) \<subseteq> set (fl_included f')"
proof (induction n arbitrary: name source f f')
  case (Suc n)
  have g: "grows (\<lambda>argument here. include_source files (emitSource n files) argument name here)"
    by (rule include_source_grows) (use Suc.IH in blast)
  obtain scanned hoisted f2 f3 where h:
    "hoistPrologue name (blankComments source) scanned 0 [] (f\<lparr>fl_included := fl_included f @ [name], fl_stack := fl_stack f @ [name]\<rparr>) = Inr (hoisted, f2)"
    "emit_lines (\<lambda>argument here. include_source files (emitSource n files) argument name here) name hoisted 0 (zip (blankComments source) scanned) f2 = Inr f3"
    "fl_included f' = fl_included f3"
    using Suc.prems by (auto simp: Let_def split: sum.splits)
  have "fl_included f2 = fl_included f @ [name]" using hoistPrologue_included[OF h(1)] by simp
  then show ?case using emit_lines_grows[OF g h(2)] h(3) by auto
qed (simp add: refuse_def)

text \<open>What runs out of fuel: an include of its own, or nothing.\<close>

lemma emit_line_error:
  assumes "emit_line inc name hoisted index line s f = Inl e" "es_message e = FlattenFuel"
  shows "\<exists>argument here f'. inc argument here f' = Inl e \<and> fl_included f' = fl_included f"
proof -
  have "\<exists>argument here. inc argument here (appendLine (blankLine line) (DirectiveNone, None) f) = Inl e"
    using assms by (auto simp: emit_line_def declareDefine_def declareConst_def refuse_def Let_def
        split: if_splits directive_kind.splits sum.splits option.splits)
  then show ?thesis by (metis appendLine_included)
qed

lemma emit_lines_error:
  "grows inc \<Longrightarrow> emit_lines inc name hoisted index ls f = Inl e \<Longrightarrow> es_message e = FlattenFuel
    \<Longrightarrow> \<exists>argument here f'. inc argument here f' = Inl e \<and> set (fl_included f) \<subseteq> set (fl_included f')"
proof (induction ls arbitrary: index f)
  case (Cons l ls)
  obtain line s where l: "l = (line, s)" by fastforce
  show ?case
  proof (cases "emit_line inc name hoisted index line s f")
    case (Inl e')
    then show ?thesis using Cons.prems emit_line_error by (fastforce simp: l)
  next
    case (Inr f1)
    then show ?thesis using Cons.IH[OF Cons.prems(1), of "index + 1" f1] Cons.prems emit_line_grows[OF Cons.prems(1) Inr] by (fastforce simp: l)
  qed
qed simp

lemma emitSource_enough:
  "emitSource n files name source f = Inl e \<Longrightarrow> finite (dom files) \<Longrightarrow> card (dom files - set (fl_included f)) \<le> n
     \<Longrightarrow> name \<in> dom files \<Longrightarrow> name \<notin> set (fl_included f) \<Longrightarrow> es_message e \<noteq> FlattenFuel"
proof (induction n arbitrary: name source f)
  case 0
  then show ?case by auto
next
  case (Suc n)
  have g: "grows (\<lambda>argument here. include_source files (emitSource n files) argument name here)"
    by (rule include_source_grows) (use emitSource_grows in blast)
  show ?case
  proof
    assume m: "es_message e = FlattenFuel"
    obtain scanned hoisted f2 where
      h: "hoistPrologue name (blankComments source) scanned 0 [] (f\<lparr>fl_included := fl_included f @ [name], fl_stack := fl_stack f @ [name]\<rparr>) = Inr (hoisted, f2)"
      and l: "emit_lines (\<lambda>argument here. include_source files (emitSource n files) argument name here) name hoisted 0 (zip (blankComments source) scanned) f2 = Inl e"
      using Suc.prems(1) m by (auto simp: Let_def scanSource_def split: sum.splits dest: scan_lines_error hoistPrologue_error)
    have f2: "fl_included f2 = fl_included f @ [name]" using hoistPrologue_included[OF h] by simp
    obtain argument here f3 where i: "include_source files (emitSource n files) argument name here f3 = Inl e" "set (fl_included f2) \<subseteq> set (fl_included f3)"
      using emit_lines_error[OF g l m] by blast
    then obtain name' source' where "name' \<notin> set (fl_included f3)" "files name' = Some source'"
      "emitSource n files name' source' (f3\<lparr>fl_chain := fl_chain f3 @ [here]\<rparr>) = Inl e"
      using m by (auto simp: include_source_def resolveInclude_def refuse_def refuseWithChain_def Let_def split: if_splits sum.splits option.splits)
    moreover have "card (dom files - set (fl_included f3)) \<le> n"
    proof -
      have "dom files - set (fl_included f3) \<subseteq> (dom files - set (fl_included f)) - {name}" using i(2) f2 by auto
      then have "card (dom files - set (fl_included f3)) \<le> card ((dom files - set (fl_included f)) - {name})" by (rule card_mono[rotated]) (use Suc.prems(2) in simp)
      also have "\<dots> < card (dom files - set (fl_included f))" by (rule card_Diff1_less) (use Suc.prems(2,4,5) in auto)
      finally show ?thesis using Suc.prems(3) by simp
    qed
    ultimately show False using Suc.IH[of name' source' "f3\<lparr>fl_chain := fl_chain f3 @ [here]\<rparr>"] Suc.prems(2) m by auto
  qed
qed

end
