(* ===== verification/Shader_Preprocess.thy ===== *)
theory Shader_Preprocess
  imports Shader_Laws
begin

text \<open>
  The whole preprocessor: what it returns, what is left in a source it answers, how often a source is spliced and which
  branches of a conditional are kept.
\<close>

section \<open>The flattener before and after\<close>

lemma newFlattener_fields [simp]:
  "fl_included (newFlattener path defines) = []" "fl_lines (newFlattener path defines) = []" "fl_conditionals (newFlattener path defines) = []"
  by (simp_all add: newFlattener_def split: prod.splits)

lemma newFlattener_clean: "hoists_clean (newFlattener path defines)"
  by (simp add: newFlattener_def hoists_clean_def split: prod.splits)

lemma newFlattener_given:
  assumes "fl_malformed (newFlattener path defines) = None"
  shows "given_clean (newFlattener path defines)"
proof -
  obtain label kept malformed where l: "labelShader path defines = (label, kept, malformed)" by (metis prod_cases3)
  then have "malformed = None" using assms by (simp add: newFlattener_def)
  then have "\<forall>d \<in> set kept. malformed_define d = None" using l
    by (auto simp: labelShader_def Let_def filter_empty_conv split: if_splits list.splits dest: filter_eq_ConsD)
  then have "\<forall>d \<in> set kept. newline \<notin> set (de_value d)" by (auto simp: malformed_define_def split: if_splits)
  then show ?thesis by (auto simp: given_clean_def newFlattener_def l)
qed

lemma emitted:
  assumes "emitSource n files path source (newFlattener path defines) = Inr f" "files path = Some source" "fl_malformed (newFlattener path defines) = None"
  obtains "length (fl_conditionals f) = length (fl_lines f)" "list_all clean_line (fl_lines f)" "hoists_clean f"
    "length (fl_lines f) = (\<Sum>name\<leftarrow>fl_included f. length (source_lines files name))" "distinct (fl_included f)" "set (fl_included f) \<subseteq> dom files"
    "list_all (\<lambda>c. fst c \<notin> {DirectiveInclude, DirectiveDefine, DirectiveConst}) (fl_conditionals f)"
    "all_apart files \<longrightarrow> nest_of [] (fl_conditionals f) = Some []"
proof -
  have "spliced files 0 [] (newFlattener path defines) f"
    by (rule emitSource_spliced[OF assms(1,2)]) (simp_all add: newFlattener_given[OF assms(3)])
  then show thesis using that newFlattener_clean[of path "defines"] by (auto simp: spliced_def fl_keeps_def segment_def)
qed

lemma Preprocess_source:
  assumes "Preprocess n files path defines = Source out"
  obtains source f lines where "fl_malformed (newFlattener path defines) = None" "files path = Some source"
    "emitSource n files path source (newFlattener path defines) = Inr f" "selectBranches f = Some lines" "out = write_lines (hoisted_lines f @ lines)"
  using assms by (auto simp: Preprocess_def Let_def split: option.splits sum.splits)

lemma select_lines_kept:
  "select_lines defines opened live ls = Some out \<Longrightarrow>
     list_all2 (\<lambda>l line. line = fst l \<or> line = blankLine (fst l)) ls out"
proof (induction ls arbitrary: opened live out)
  case (Cons l ls)
  obtain line kind c where l: "l = (line, kind, c)" by (cases l)
  show ?case using Cons.prems by (cases kind) (auto simp: l Let_def dest!: Cons.IH split: list.splits if_splits)
qed simp

lemma selectBranches_kept:
  assumes "selectBranches f = Some out" "length (fl_conditionals f) = length (fl_lines f)" "list_all clean_line (fl_lines f)"
  shows "length out = length (fl_lines f)" "list_all clean_line out"
proof -
  have r: "list_all2 (\<lambda>l line. line = fst l \<or> line = blankLine (fst l)) (zip (fl_lines f) (fl_conditionals f)) out"
    using select_lines_kept assms(1) unfolding selectBranches_def by blast
  show "length out = length (fl_lines f)" using list_all2_lengthD[OF r] assms(2) by simp
  show "list_all clean_line out" unfolding list_all_length
  proof (intro allI impI)
    fix i assume i: "i < length out"
    then have "fst (zip (fl_lines f) (fl_conditionals f) ! i) = fl_lines f ! i" using list_all2_lengthD[OF r] assms(2) by simp
    then show "clean_line (out ! i)" using list_all2_nthD2[OF r i] assms(2,3) i list_all2_lengthD[OF r] by (auto simp: list_all_length)
  qed
qed

lemma clean_word: "newline \<notin> set line \<Longrightarrow> \<not> isBlank c \<Longrightarrow> c \<noteq> CHR ''#'' \<Longrightarrow> c \<noteq> CHR ''/'' \<Longrightarrow> HasPrefix line [c] \<Longrightarrow> clean_line line"
  by (cases line) (auto simp: clean_line_def di_sigil_iff HasPrefix_def skipSpace_def)

lemma hoisted_lines_clean:
  assumes "hoists_clean f"
  shows "list_all clean_line (hoisted_lines f)"
proof -
  have list: "clean_line (''enable '' @ join_with '', '' names @ '';'')" "clean_line (''requires '' @ join_with '', '' names @ '';'')"
    if "\<forall>name \<in> set names. newline \<notin> set name" for names
  proof -
    have "newline \<notin> set (join_with '', '' names)" using that join_with_set[of "'', ''" names] by auto
    then show "clean_line (''enable '' @ join_with '', '' names @ '';'')" "clean_line (''requires '' @ join_with '', '' names @ '';'')"
      using clean_word[of "''enable '' @ join_with '', '' names @ '';''" "CHR ''e''"]
        clean_word[of "''requires '' @ join_with '', '' names @ '';''" "CHR ''r''"]
      by (auto simp: isBlank_def HasPrefix_def)
  qed
  have "clean_line (fst (the (map_of (fl_diagnostics f) rule)))" if rule: "rule \<in> fst ` set (fl_diagnostics f)" for rule
  proof -
    obtain kept here where m: "map_of (fl_diagnostics f) rule = Some (kept, here)" using rule by (metis map_of_eq_None_iff not_None_eq surj_pair)
    then have k: "newline \<notin> set kept" "HasPrefix kept ''diagnostic''" using assms map_of_SomeD[OF m] by (auto simp: hoists_clean_def)
    then have "HasPrefix kept ''d''" by (cases kept) (auto simp: HasPrefix_def)
    with k(1) have "clean_line kept" by (intro clean_word[of _ "CHR ''d''"]) (simp_all add: isBlank_def)
    then show ?thesis by (simp add: m)
  qed
  then show ?thesis using assms list[of "sort (fl_enables f)"] list[of "sort (fl_requires f)"]
    by (auto simp: hoisted_lines_def list_all_iff hoists_clean_def)
qed

lemma split_at_line: "c \<notin> set line \<Longrightarrow> split_at c (line @ c # s) = line # split_at c s"
  by (induction line) auto

lemma split_at_written: "list_all clean_line lines \<Longrightarrow> split_at newline (write_lines lines) = lines @ [[]]"
  by (induction lines) (auto simp: write_lines_def clean_line_def split_at_line)

section \<open>What it answers\<close>

text \<open>Two sources: a root that hoists a directive, includes the other and keeps one line of two by a flag the other declares.\<close>

definition example_files :: "string \<Rightarrow> string option" where
  "example_files =
     [''m'' \<mapsto> write_lines [''enable f16;'', ''#include ./b'', ''#if A'', ''x'', ''#else'', ''y'', ''#endif''],
      ''b'' \<mapsto> write_lines [''#define A'', ''#const N=3'']]"

lemma example_out:
  "Preprocess 2 example_files ''m'' [\<lparr>de_name = ''N'', de_value = ''5''\<rparr>]
     = Source (write_lines [''enable f16;'', ''           '', ''            '', ''         '', ''const N = 5;'', ''     '', ''x'', ''     '', '' '', ''      ''])"
  by code_simp

lemma example_apart: "\<forall>source \<in> ran example_files. hoists_apart (blankComments source)"
proof -
  have "hoists_apart (blankComments (write_lines [''enable f16;'', ''#include ./b'', ''#if A'', ''x'', ''#else'', ''y'', ''#endif'']))" by code_simp
  moreover have "hoists_apart (blankComments (write_lines [''#define A'', ''#const N=3'']))" by code_simp
  ultimately show ?thesis by (simp add: example_files_def ran_map_upd)
qed

text \<open>
  C22: \<open>Preprocess\<close> returns.  Over a filesystem of finitely many sources an include inside an include opens one not yet
  spliced, so as much fuel as there are sources is enough whatever they include; and where no WGSL directive of a prologue
  runs over a line with a directive, the branches chosen close only what they have opened, so the answer is a
  source or a refusal and never a panic.
\<close>

theorem preprocess_returns:
  assumes "finite (dom files)" "card (dom files) \<le> n" "\<forall>source \<in> ran files. hoists_apart (blankComments source)"
  shows "(\<exists>out. Preprocess n files path defines = Source out)
    \<or> (\<exists>e. Preprocess n files path defines = Refused e \<and> es_message e \<noteq> FlattenFuel)"
proof -
  have apart: "all_apart files" using assms(3) by (auto simp: all_apart_def source_lines_def ran_def)
  have fuel: "es_message e \<noteq> FlattenFuel" if "emitSource n files path source (newFlattener path defines) = Inl e" "files path = Some source" for source e
    by (rule emitSource_enough[OF that(1) assms(1)]) (use assms(2) that(2) in auto)
  have total: "\<exists>lines. selectBranches f = Some lines"
    if "emitSource n files path source (newFlattener path defines) = Inr f" "files path = Some source" "fl_malformed (newFlattener path defines) = None" for source f
  proof (rule emitted[OF that])
    assume "length (fl_conditionals f) = length (fl_lines f)" "all_apart files \<longrightarrow> nest_of [] (fl_conditionals f) = Some []"
    then have "nest_of [] (map snd (zip (fl_lines f) (fl_conditionals f))) = Some []" using apart by (simp add: map_snd_zip)
    then show ?thesis unfolding selectBranches_def by (intro select_lines_total) simp_all
  qed
  have "malformed_define d \<noteq> Some FlattenFuel" for d by (simp add: malformed_define_def)
  then have "fl_malformed (newFlattener path defines) \<noteq> Some FlattenFuel"
    by (auto simp: newFlattener_def labelShader_def Let_def split: list.splits)
  moreover have "es_message e \<noteq> FlattenFuel" if "checkGivenKinds f = Some e" for f e
    using that by (auto simp: checkGivenKinds_def split: list.splits)
  ultimately show ?thesis using fuel total
    by (cases "fl_malformed (newFlattener path defines)") (auto simp: Preprocess_def Let_def split: option.splits sum.splits, metis option.distinct(1))
qed

theorem preprocess_returns_witness:
  "\<forall>path. (\<exists>out. Preprocess 2 example_files path [] = Source out)
    \<or> (\<exists>e. Preprocess 2 example_files path [] = Refused e \<and> es_message e \<noteq> FlattenFuel)"
proof
  have "finite (dom example_files)" "card (dom example_files) \<le> 2" by (simp_all add: example_files_def)
  then show "(\<exists>out. Preprocess 2 example_files path [] = Source out)
    \<or> (\<exists>e. Preprocess 2 example_files path [] = Refused e \<and> es_message e \<noteq> FlattenFuel)" for path
    by (rule preprocess_returns) (rule example_apart)
qed

text \<open>
  Without that condition it panics.  A prologue's WGSL directive that runs over an \<open>#if\<close>, its \<open>;\<close> a line later, is
  hoisted with the \<open>#if\<close> in it, which is blanked and no longer opens a conditional; the \<open>#endif\<close> below then closes one that
  is not open, and the index of the innermost is out of range.  \<open>scanSource\<close> has found the structure of the source right.
\<close>

theorem hoisted_over_if_panics:
  "scanSource (newFlattener ''m'' []) ''m'' [''enable'', ''#if A'', ''f16;'', ''#endif'']
     = Inr [no_scan, \<lparr>sc_kind = DirectiveIf, sc_argument = ''A'', sc_condition = Some (CName ''A'')\<rparr>, no_scan,
            \<lparr>sc_kind = DirectiveEndif, sc_argument = [], sc_condition = None\<rparr>]
    \<and> \<not> hoists_apart [''enable'', ''#if A'', ''f16;'', ''#endif'']
    \<and> Preprocess (Suc n) [''m'' \<mapsto> write_lines [''enable'', ''#if A'', ''f16;'', ''#endif'']] ''m'' [] = Panicked"
  by code_simp

text \<open>
  C23: a source \<open>Preprocess\<close> answers has no directive left in it: no line of it begins with a sigil, of those it copies, those it
  blanks, the constants it declares, with values given or not, or the WGSL directives it moves to the top.
\<close>

theorem no_directive_left:
  assumes "Preprocess n files path defines = Source out"
  shows "\<forall>line \<in> set (split_at newline out). \<not> di_sigil (parseDirective line)"
proof -
  obtain source f lines where p: "fl_malformed (newFlattener path defines) = None" "files path = Some source"
    "emitSource n files path source (newFlattener path defines) = Inr f" "selectBranches f = Some lines" "out = write_lines (hoisted_lines f @ lines)"
    by (rule Preprocess_source[OF assms])
  have clean: "list_all clean_line (hoisted_lines f @ lines)"
    by (rule emitted[OF p(3,2,1)]) (use selectBranches_kept[OF p(4)] hoisted_lines_clean in simp)
  show ?thesis unfolding p(5) split_at_written[OF clean] using clean by (auto simp: list_all_iff clean_line_def parseDirective_def Let_def HasPrefix_def skipSpace_def no_directive_def)
qed

theorem no_directive_left_witness:
  "Preprocess 2 example_files ''m'' [\<lparr>de_name = ''N'', de_value = ''5''\<rparr>] = Source (write_lines
      [''enable f16;'', ''           '', ''            '', ''         '', ''const N = 5;'', ''     '', ''x'', ''     '', '' '', ''      ''])
    \<and> list_all (\<lambda>line. \<not> di_sigil (parseDirective line)) (split_at newline (write_lines
      [''enable f16;'', ''           '', ''            '', ''         '', ''const N = 5;'', ''     '', ''x'', ''     '', '' '', ''      '']))
    \<and> di_sigil (parseDirective ''#const N=3'')"
proof (intro conjI)
  show "list_all (\<lambda>line. \<not> di_sigil (parseDirective line)) (split_at newline (write_lines
      [''enable f16;'', ''           '', ''            '', ''         '', ''const N = 5;'', ''     '', ''x'', ''     '', '' '', ''      '']))"
    unfolding list_all_iff by (rule no_directive_left[OF example_out])
  show "di_sigil (parseDirective ''#const N=3'')" by code_simp
qed (rule example_out)

text \<open>
  C25: every source a shader includes is spliced once and whole.  The sources spliced are distinct, the root among them and each a
  file, and the lines of the answer are those hoisted with every line of every source spliced: one taken out or
  one spliced twice would show in the count.
\<close>

theorem sources_spliced_once:
  assumes "Preprocess n files path defines = Source out"
  shows "\<exists>f. emitSource n files path (the (files path)) (newFlattener path defines) = Inr f
    \<and> distinct (fl_included f) \<and> path \<in> set (fl_included f) \<and> set (fl_included f) \<subseteq> dom files
    \<and> length (split_at newline out) = Suc (length (hoisted_lines f) + (\<Sum>name\<leftarrow>fl_included f. length (blankComments (the (files name)))))"
proof -
  obtain source f lines where p: "fl_malformed (newFlattener path defines) = None" "files path = Some source"
    "emitSource n files path source (newFlattener path defines) = Inr f" "selectBranches f = Some lines" "out = write_lines (hoisted_lines f @ lines)"
    by (rule Preprocess_source[OF assms])
  have "list_all clean_line (hoisted_lines f @ lines) \<and> distinct (fl_included f) \<and> set (fl_included f) \<subseteq> dom files
      \<and> length lines = (\<Sum>name\<leftarrow>fl_included f. length (blankComments (the (files name))))"
    by (rule emitted[OF p(3,2,1)]) (use selectBranches_kept[OF p(4)] hoisted_lines_clean in \<open>simp add: source_lines_def\<close>)
  moreover have "path \<in> set (fl_included f)" using emitSource_grows[OF p(3)] by simp
  ultimately show ?thesis using p(2,3) by (intro exI[of _ f]) (simp add: p(5) split_at_written)
qed

theorem sources_spliced_once_witness:
  "\<exists>f. emitSource 2 example_files ''m'' (the (example_files ''m'')) (newFlattener ''m'' [\<lparr>de_name = ''N'', de_value = ''5''\<rparr>]) = Inr f
    \<and> distinct (fl_included f) \<and> ''m'' \<in> set (fl_included f) \<and> set (fl_included f) \<subseteq> dom example_files
    \<and> 11 = Suc (length (hoisted_lines f) + (\<Sum>name\<leftarrow>fl_included f. length (blankComments (the (example_files name)))))"
proof -
  have "length (split_at newline (write_lines
      [''enable f16;'', ''           '', ''            '', ''         '', ''const N = 5;'', ''     '', ''x'', ''     '', '' '', ''      ''])) = 11"
    by code_simp
  then show ?thesis using sources_spliced_once[OF example_out] by simp
qed

section \<open>Branches\<close>

text \<open>
  A shader's text as a tree: lines, and conditionals of an \<open>#if\<close>, the branches after it and an \<open>#endif\<close>, each with its own line; how it
  is written out, and what is kept of it.
\<close>

datatype shader_item = Text string | Conditional string condition "shader_item list" shader_tail
  and shader_tail = Elif string condition "shader_item list" shader_tail | Else string "shader_item list" string | Endif string

fun render_items :: "shader_item list \<Rightarrow> (string \<times> row) list" and render_tail :: "shader_tail \<Rightarrow> (string \<times> row) list" where
  "render_items [] = []"
| "render_items (Text line # items) = (line, DirectiveNone, None) # render_items items"
| "render_items (Conditional line c body tail # items) = (line, DirectiveIf, Some c) # render_items body @ render_tail tail @ render_items items"
| "render_tail (Elif line c body tail) = (line, DirectiveElif, Some c) # render_items body @ render_tail tail"
| "render_tail (Else line body end_line) = (line, DirectiveElse, None) # render_items body @ [(end_line, DirectiveEndif, None)]"
| "render_tail (Endif end_line) = [(end_line, DirectiveEndif, None)]"

text \<open>The first branch whose condition holds is kept, where the text around it is; every other is blanked.\<close>

fun keep_items :: "string set \<Rightarrow> bool \<Rightarrow> shader_item list \<Rightarrow> string list"
  and keep_tail :: "string set \<Rightarrow> bool \<Rightarrow> bool \<Rightarrow> shader_tail \<Rightarrow> string list" where
  "keep_items flags live [] = []"
| "keep_items flags live (Text line # items) = (if live then line else blankLine line) # keep_items flags live items"
| "keep_items flags live (Conditional line c body tail # items) =
     line # keep_items flags (live \<and> evaluate c flags) body @ keep_tail flags live (evaluate c flags) tail @ keep_items flags live items"
| "keep_tail flags live earlier (Elif line c body tail) =
     line # keep_items flags (live \<and> \<not> earlier \<and> evaluate c flags) body @ keep_tail flags live (earlier \<or> evaluate c flags) tail"
| "keep_tail flags live earlier (Else line body end_line) = line # keep_items flags (live \<and> \<not> earlier) body @ [end_line]"
| "keep_tail flags live earlier (Endif end_line) = [end_line]"

lemma select_render:
  "select_lines flags opened live (render_items items @ rest) = map_option (\<lambda>out. keep_items flags live items @ out) (select_lines flags opened live rest)"
  "(live \<longrightarrow> taken = earlier) \<Longrightarrow> select_lines flags ((taken, live) # opened) inner (render_tail tail @ rest)
     = map_option (\<lambda>out. keep_tail flags live earlier tail @ out) (select_lines flags opened live rest)"
proof (induction items and tail arbitrary: opened live rest and opened live taken earlier inner rest rule: render_items_render_tail.induct)
  case 1
  then show ?case by (simp add: option.map_ident)
next
  case (3 line c body tail items)
  show ?case using 3(2)[of live "live \<and> evaluate c flags" "evaluate c flags"] by (simp add: 3(1,3) Let_def holds_under_def option.map_comp comp_def)
next
  case (4 line c body tail)
  have "live \<longrightarrow> (taken \<or> live \<and> \<not> taken \<and> evaluate c flags) = (earlier \<or> evaluate c flags)" using 4(3) by auto
  from 4(2)[OF this] have t: "select_lines flags ((taken \<or> live \<and> \<not> taken \<and> evaluate c flags, live) # opened) inner' (render_tail tail @ rest)
      = map_option (\<lambda>out. keep_tail flags live (earlier \<or> evaluate c flags) tail @ out) (select_lines flags opened live rest)" for inner' .
  have "(live \<and> \<not> taken \<and> evaluate c flags) = (live \<and> \<not> earlier \<and> evaluate c flags)" using 4(3) by auto
  then show ?case using t by (simp add: 4(1) Let_def holds_under_def option.map_comp comp_def)
next
  case (5 line body end_line)
  then have "(live \<and> \<not> taken) = (live \<and> \<not> earlier)" by auto
  then show ?case by (simp add: 5(1) option.map_comp comp_def)
next
  case (2 line items)
  then show ?case by (cases "select_lines flags opened live rest") auto
next
  case (6 end_line)
  then show ?case by (cases "select_lines flags opened live rest") auto
qed

text \<open>Every well-nested run of rows is a tree written out, or the rest of one inside the conditionals it is given.\<close>

definition tree_of :: "bool list \<Rightarrow> (string \<times> row) list \<Rightarrow> bool" where
  "tree_of st rows =
     (case st of
        [] \<Rightarrow> \<exists>items. rows = render_items items
      | e # outer \<Rightarrow> \<exists>items tail rest. rows = render_items items @ render_tail tail @ rest
          \<and> nest_of outer (map snd rest) = Some [] \<and> (e \<longrightarrow> (\<exists>end_line. tail = Endif end_line)))"

lemma render_cons: "render_items (item # items) = render_items [item] @ render_items items"
  by (cases item) simp_all

lemma tree_of_item: "tree_of st rest \<Longrightarrow> tree_of st (render_items [item] @ rest)"
proof (cases st)
  case Nil
  assume "tree_of st rest"
  then obtain items where "rest = render_items items" by (auto simp: tree_of_def Nil)
  then have "render_items [item] @ rest = render_items (item # items)" using render_cons[of item items] by simp
  then show ?thesis unfolding tree_of_def Nil list.case by (rule exI)
next
  case (Cons e outer)
  assume "tree_of st rest"
  then obtain items tail more where t: "rest = render_items items @ render_tail tail @ more" "nest_of outer (map snd more) = Some []"
    "e \<longrightarrow> (\<exists>end_line. tail = Endif end_line)" by (auto simp: tree_of_def Cons)
  then have "render_items [item] @ rest = render_items (item # items) @ render_tail tail @ more" using render_cons[of item items] by simp
  then show ?thesis unfolding tree_of_def Cons list.case using t(2,3) by blast
qed

lemma tree_of_tail:
  "nest_of outer (map snd rest) = Some [] \<Longrightarrow> e \<longrightarrow> (\<exists>end_line. tail = Endif end_line) \<Longrightarrow> tree_of (e # outer) (render_tail tail @ rest)"
  unfolding tree_of_def list.case
  by (rule exI[of _ "[]"], rule exI[of _ tail], rule exI[of _ rest]) simp

lemma tree_of_inside:
  assumes "tree_of (e # outer) rows"
  obtains items tail rest where "rows = render_items items @ render_tail tail @ rest" "nest_of outer (map snd rest) = Some []"
    "e \<Longrightarrow> \<exists>end_line. tail = Endif end_line"
  using assms by (auto simp: tree_of_def)

lemma nested_tree:
  assumes "nest_of st (map snd rows) = Some []" "list_all (\<lambda>c. fst c \<notin> {DirectiveInclude, DirectiveDefine, DirectiveConst}) (map snd rows)"
  shows "tree_of st rows"
  using assms
proof (induction "length rows" arbitrary: st rows rule: less_induct)
  case less
  show ?case
  proof (cases rows)
    case Nil
    then show ?thesis using less(2) by (auto simp: tree_of_def intro!: exI[of _ "[] :: shader_item list"])
  next
    case (Cons row later)
    obtain line kind c where row: "row = (line, kind, c)" by (cases row)
    note nest = less(2)[unfolded Cons row]
    have ih: "tree_of st' later" if "nest_of st' (map snd later) = Some []" for st'
      using less(1)[OF _ that] less(3) by (simp add: Cons)
    have ih_rest: "tree_of st' rest" if "nest_of st' (map snd rest) = Some []" "later = front @ rest" for st' front rest
      using less(1)[OF _ that(1)] less(3) by (simp add: Cons that(2))
    show ?thesis
    proof (cases kind)
      case DirectiveNone
      then have "c = None" "nest_of st (map snd later) = Some []" using nest by (auto split: if_splits)
      then show ?thesis using tree_of_item[OF ih, of st "Text line"] by (simp add: Cons row DirectiveNone)
    next
      case DirectiveIf
      then obtain cond where c: "c = Some cond" "nest_of (False # st) (map snd later) = Some []" using nest by (auto split: if_splits)
      from ih[OF c(2)] obtain items tail rest where t: "later = render_items items @ render_tail tail @ rest" "nest_of st (map snd rest) = Some []"
        by (rule tree_of_inside)
      have "tree_of st rest" by (rule ih_rest[OF t(2), of "render_items items @ render_tail tail"]) (simp add: t(1))
      then show ?thesis using tree_of_item[of st rest "Conditional line cond items tail"] by (simp add: Cons row DirectiveIf c(1) t(1))
    next
      case DirectiveElif
      then obtain cond outer where c: "c = Some cond" "st = False # outer" "nest_of (False # outer) (map snd later) = Some []"
        using nest by (cases st) (auto split: if_splits)
      from ih[OF c(3)] obtain items tail rest where t: "later = render_items items @ render_tail tail @ rest" "nest_of outer (map snd rest) = Some []"
        by (rule tree_of_inside)
      show ?thesis using tree_of_tail[OF t(2), of False "Elif line cond items tail"] by (simp add: Cons row DirectiveElif c(1,2) t(1))
    next
      case DirectiveElse
      then obtain outer where c: "c = None" "st = False # outer" "nest_of (True # outer) (map snd later) = Some []"
        using nest by (cases st) (auto split: if_splits)
      from ih[OF c(3)] obtain items tail rest where t: "later = render_items items @ render_tail tail @ rest" "nest_of outer (map snd rest) = Some []"
        and e: "\<exists>end_line. tail = Endif end_line" by (rule tree_of_inside) blast
      then obtain end_line where "tail = Endif end_line" by blast
      then show ?thesis using tree_of_tail[OF t(2), of False "Else line items end_line"] by (simp add: Cons row DirectiveElse c(1,2) t(1))
    next
      case DirectiveEndif
      then obtain e outer where c: "c = None" "st = e # outer" "nest_of outer (map snd later) = Some []"
        using nest by (cases st) (auto split: if_splits)
      show ?thesis using tree_of_tail[OF c(3), of e "Endif line"] by (simp add: Cons row DirectiveEndif c(1,2))
    qed (use less(3) Cons row in auto)
  qed
qed

text \<open>
  C21: the branches kept are those of the source read as a tree.  Where no WGSL directive of a prologue runs over a directive,
  the lines spliced are a tree of conditionals written out; and of it the answer keeps, under the flags declared in any
  source or given, the first branch of each conditional whose condition holds, inside a branch kept, and blanks the rest.
\<close>

theorem branches_of_tree:
  assumes "Preprocess n files path defines = Source out" "\<forall>source \<in> ran files. hoists_apart (blankComments source)"
  shows "\<exists>f items. emitSource n files path (the (files path)) (newFlattener path defines) = Inr f
    \<and> zip (fl_lines f) (fl_conditionals f) = render_items items
    \<and> out = write_lines (hoisted_lines f @ keep_items (fst ` set (fl_defines f) \<union> set (fl_givenFlags f)) True items)"
proof -
  obtain source f lines where p: "fl_malformed (newFlattener path defines) = None" "files path = Some source"
    "emitSource n files path source (newFlattener path defines) = Inr f" "selectBranches f = Some lines" "out = write_lines (hoisted_lines f @ lines)"
    by (rule Preprocess_source[OF assms(1)])
  have apart: "all_apart files" using assms(2) by (auto simp: all_apart_def source_lines_def ran_def)
  have "tree_of [] (zip (fl_lines f) (fl_conditionals f))"
    by (rule emitted[OF p(3,2,1)], rule nested_tree) (use apart in \<open>simp_all add: map_snd_zip\<close>)
  then obtain items where t: "zip (fl_lines f) (fl_conditionals f) = render_items items" by (auto simp: tree_of_def)
  have "lines = keep_items (fst ` set (fl_defines f) \<union> set (fl_givenFlags f)) True items"
    using p(4) select_render(1)[of _ "[]" True items "[]"] by (simp add: selectBranches_def t)
  then show ?thesis using t p by auto
qed

theorem branches_of_tree_witness:
  "\<exists>f items. emitSource 2 example_files ''m'' (the (example_files ''m'')) (newFlattener ''m'' [\<lparr>de_name = ''N'', de_value = ''5''\<rparr>]) = Inr f
    \<and> zip (fl_lines f) (fl_conditionals f) = render_items items
    \<and> write_lines [''enable f16;'', ''           '', ''            '', ''         '', ''const N = 5;'', ''     '', ''x'', ''     '', '' '', ''      '']
      = write_lines (hoisted_lines f @ keep_items (fst ` set (fl_defines f) \<union> set (fl_givenFlags f)) True items)"
  by (rule branches_of_tree[OF example_out example_apart])

end
