(* ===== verification/Spec2Isabelle.thy ===== *)
theory Spec2Isabelle
  imports Cog_Array Cog_Bits Cog_Pool Cog_Queue Kernel_Locks Kernel_Combiner Kernel_Dispatch Kernel_Runner
    Kernel_Config Kernel_Lifecycle Kernel_Supervisor Kernel_Jobs Ecs_Ref_Lanes Ecs_Delta
    Metronome_Seqlock Metronome_Run Shader_Preprocess
begin

text \<open>
  Cog is an engine in Go: a kernel that runs jobs in parallel under locks they declare, an entity
  component system on top of it, and plugins.  This development models the kernel, the entity
  component system, the metronome that paces them and the preprocessor of the shaders the graphics plugin
  compiles, from the sources under \<open>src/kernel\<close>, \<open>src/ecs\<close>, \<open>src/metronome\<close> and \<open>src/gfx/shader\<close>, and proves what their
  comments and users rely on.

  \<^bold>\<open>The parts and how they interact.\<close>  A \<^emph>\<open>configurator\<close> registers resources, tasks, events, subscriptions
  and sockets while plugins come up, and compiles each task's locks to masks.  Published events run the
  subscribed handlers in their declared order; handlers schedule \<^emph>\<open>jobs\<close>, whose graph counts what each
  waits for.  A job that waits for nothing goes to the \<^emph>\<open>lock combiner\<close>, which grants it its task's locks
  once nothing conflicts, and the \<^emph>\<open>runner\<close> wakes a worker for it.  A job that ends releases its locks and
  hands on its successors.  On this, \<^emph>\<open>worlds\<close> keep entities in a table, components in sparse-set stores,
  and other values in refs; producers record changes into the lanes of a \<^emph>\<open>command buffer\<close> and a sink
  commits them under the world's write lock.  Queries walk the entities that have the components they ask for.  Observed stores and refs report what changed in a window.  The \<^emph>\<open>metronome\<close> publishes the beats of its tracks
  as events, a goroutine for each track, waiting on a clock and on the signals of the beats in flight.  A \<^emph>\<open>supervisor\<close>
  brings kernels up and takes them down and runs the jobs pinned to the main thread.  The \<^emph>\<open>preprocessor\<close> splices the sources of a
  shader into one: it blanks comments, reads directives, follows includes, collects declarations from every source and only then
  chooses the branches of the conditionals.

  \<^bold>\<open>Theories.\<close>
  \<^item> \<open>Cog_Prelude\<close>: machine types, the loop over the set bits of a word, lists and words.
  \<^item> \<open>Cog_Array\<close>, \<open>Cog_Bits\<close>, \<open>Cog_Pool\<close>, \<open>Cog_Queue\<close>: \<open>kernel/container\<close>, chunk by chunk and slot by slot, each
    with its invariant, its abstraction and the contract its users rely on as a locale, interpreted on it.
  \<^item> \<open>Kernel_Locks\<close>: \<open>lockstate.go\<close>; a lock state is exactly the multiset of lock sets held.
  \<^item> \<open>Kernel_Combiner\<close>: \<open>combiner.go\<close>; a step relation of goroutines that arrive, release and combine, one
    atomic operation a step: exclusion, no request left behind, and what reservations keep out.
  \<^item> \<open>Kernel_Dispatch\<close>: \<open>dispatcher.go\<close>; the order of handlers.
  \<^item> \<open>Kernel_Runner\<close>: \<open>runner.go\<close>; waking workers, and draining, where an interleaving lets \<open>drain\<close> return early.
  \<^item> \<open>Kernel_Config\<close>: \<open>configurator.go\<close>, \<open>access.go\<close>, \<open>socket.go\<close>; registered masks and resolved sockets.
  \<^item> \<open>Kernel_Lifecycle\<close>: \<open>lifecycle.go\<close>, \<open>kernel.go\<close>; the calls plugins get, with every failure's rollback,
    and the panics of composition, registration, sockets and handler orders, which roll nothing back.
  \<^item> \<open>Kernel_Supervisor\<close>: \<open>supervisor.go\<close>; the calls of several goroutines as a step relation: every kernel has one owner
    until it is gone, and pinned jobs run on the main thread in order with no wake lost while its loop lasts.
  \<^item> \<open>Kernel_Jobs\<close>: \<open>job.go\<close>, \<open>executor.go\<close>, \<open>task.go\<close>, \<open>signal.go\<close>; the job graph in pools with generations.  A call
    of the graph is one step here, though its lists and counts are lock-free in the source.
  \<^item> \<open>Ecs_Index\<close>, \<open>Ecs_Entities\<close>: \<open>entity.go\<close>, \<open>mask.go\<close>, \<open>indextable.go\<close>, \<open>entitytable.go\<close>; the paged table as a total
    map (the locale \<open>index_map\<close>), reservations, generations and the two halves of a window's end.
    A history carries the entities handed out; it commits a \<open>Spawn\<close> of one of these, or of one the table has to refuse (\<open>may_spawn\<close>).
    \<open>spawnReserved\<close> does not look whether an entity was handed out, and \<open>unreserved_spawn_taken\<close> shows what it takes outside this contract.
  \<^item> \<open>Ecs_Store\<close>, \<open>Ecs_Observe\<close>: \<open>store.go\<close>; a store as a map from entities, and its deltas as the comparison
    of two maps.
  \<^item> \<open>Ecs_World\<close>, \<open>Ecs_World_Laws\<close>: \<open>world.go\<close>, \<open>component.go\<close>; masks and stores agree, and what every operation
    does to the map from entities and components to bytes.
  \<^item> \<open>Ecs_Commands\<close>: \<open>commands.go\<close>; lanes of words and the three passes of a commit.
  \<^item> \<open>Ecs_Refs\<close>, \<open>Ecs_Ref_Laws\<close>: \<open>refs.go\<close>; refs as a map from handles, their deltas, and what is handed out.
  \<^item> \<open>Ecs_Keyed_Refs\<close>, \<open>Ecs_Ref_Lanes\<close>: \<open>keyedrefs.go\<close> and the ref lanes of \<open>commands.go\<close>; the key map, and a
    commit of ref records as the direct calls.
  \<^item> \<open>Ecs_Query\<close>: \<open>query.go\<close>, \<open>query_gen.go\<close>; a query calls its body exactly for what matches, while the body
    writes through the row and removes the entity the walk is at.
  \<^item> \<open>Ecs_Delta\<close>: \<open>delta.go\<close>, \<open>deltaquery_gen.go\<close>; a delta query as the comparison of the world with the last reset.
  \<^item> \<open>Metronome_Track\<close>: \<open>track.go\<close>, \<open>beat.go\<close>; pacing, debt and \<open>Alpha\<close>, and the ring of signals: beats account for all time.
  \<^item> \<open>Metronome_Seqlock\<close>: \<open>publishedTick\<close>; loads are consistent.
  \<^item> \<open>Metronome_Clock\<close>, \<open>Metronome_Run\<close>: \<open>manualclock.go\<close>, \<open>plugin.go\<close>, \<open>track.run\<close>; a metronome on a manual clock as a step
    relation over its goroutines, the condition variable \<open>Advance\<close> sleeps on included: an advanced clock's beats are exact, no wake-up is
    lost and \<open>Advance\<close> returns, for fixed-step tracks without a \<open>MinInterval\<close>, which \<open>Init\<close> adds to their first deadline.
  \<^item> \<open>Shader_Condition\<close>, \<open>Shader_Directive\<close>, \<open>Shader_Flatten\<close>: \<open>condition.go\<close>, \<open>directive.go\<close>, \<open>flattener.go\<close> and \<open>preprocessor.go\<close>;
    conditions are those of the grammar, comments are blanked and nothing moves.
  \<^item> \<open>Shader_Laws\<close>, \<open>Shader_Preprocess\<close>: what splicing adds and what fuel it takes; the preprocessor returns and leaves no
    directive, its branches are those of a tree of conditionals, and a hoisted directive that runs over an \<open>#if\<close> makes it panic.

  \<^bold>\<open>State and operations.\<close>  A struct is a record with the source's fields, prefixed; a method is a definition of
  the same name, prefixed where it would clash, from the state to its answers and the new state.  A
  pointer into a container is the place it points at: reading and writing through it are operations of
  their own.  Panics and error returns are values of a sum or an option.  Where the source runs
  concurrently the operations are steps of an inductive relation, a step for each atomic operation, and
  the properties hold in every interleaving; an operation under a mutex, or under a lock the kernel grants,
  is one step.  Coarser than that are the calls of the job graph (\<open>Kernel_Jobs\<close>), each one step, taking a kernel down
  (\<open>Kernel_Supervisor\<close>), and \<open>publishDue\<close> and the end of a track (\<open>Metronome_Run\<close>).  Histories (\<open>st_reach\<close>, \<open>refs_reach\<close>, \<open>keyed_reach\<close>) carry, beside the
  state, the abstract map the operations make, and \<open>ent_reach\<close> and \<open>w_hist\<close> the entities handed out; \<open>w_reach\<close> is a world some \<open>w_hist\<close> reaches.

  \<^bold>\<open>Bounds.\<close>  Indices and generations are 32-bit words, masks and packed lists 64-bit ones, with wrap-around
  as in Go; a generation skips 0.  Counts and lengths that Go keeps in 64 bits are natural numbers or
  integers, among them a job's count of what it waits for, the versions of the seqlock and the durations and step counts of a track, whose
  products wrap in Go only for steps near \<open>2 ^ 62\<close> nanoseconds.  Row links and pool indexes have 32 bits, so adding a row asks that a store's rows stay below
  \<open>2 ^ 32 - 1\<close> (\<open>addable\<close>, \<open>roomy\<close>); a page table has at most \<open>2 ^ 20\<close> pages because an index has 32 bits.  Loops
  are recursive functions with a measure or folds over the list of what they visit, with four exceptions: the two lists \<open>finishJob\<close> walks are
  partial functions into an option, which \<open>job_finished\<close> shows to end; the
  exponent search of \<open>round_float\<close> has 128 doublings, more than a 64-bit number of nanoseconds over another has;
  \<open>parseCondition\<close> gives its parser fuel for twice the text's length, which \<open>condition_grammar\<close> shows to be enough; and \<open>emitSource\<close>
  takes a unit of fuel for each include inside an include, of which \<open>preprocess_returns\<close> shows as many as there are sources to be
  enough.

  \<^bold>\<open>Not modelled.\<close>  Logging, the generated
  \<open>RegisterTask0\<close> to \<open>RegisterTask8\<close>, the schema and the save format of the
  entity component system, the metronome's wall clock, the platform and graphics plugins, which call systems
  outside the repository, the wording of the preprocessor's messages, and \<open>src/_legacy\<close>, the engine this one replaces.  Memory layout, allocation and
  the garbage collector are below the model.
\<close>

end
